(* ===== verification/Prelude.thy ===== *)
theory Prelude
  imports Main "HOL-Library.Word"
begin

text \<open>
  The vocabulary the other theories share: C characters and integers, the outcome of a C
  operation (a value, or the way the operation fails), the sequencing of outcomes and the
  weakest-precondition predicate \<open>wpr\<close> with which the components state their contracts, and
  the allocator and memory blocks of the C library.

  \<^item> A C \<open>char\<close> is a HOL \<open>char\<close> (eight bits); \<open>uc\<close> reads it as \<open>unsigned char\<close>, \<open>sc\<close> as the
    signed \<open>char\<close> of the platforms the makefiles build for.
  \<^item> A C \<open>int\<close> is an \<open>int\<close> kept in range: \<open>c_int\<close> is the result of a signed operation, with
    overflow as the undefined behaviour it is; \<open>to_int\<close> is the conversion of a wider
    value to \<open>int\<close> (the low 32 bits, read as two's complement).
  \<^item> \<open>Die m\<close> is the library's \<open>die\<close> (a message and \<open>exit\<close>), \<open>UB u\<close> undefined behaviour,
    \<open>Diverge\<close> a loop that never ends.
\<close>

unbundle bit_operations_syntax

named_theorems wp \<open>weakest-precondition rules of the operations\<close>
named_theorems cdefs \<open>definitions of the C primitives\<close>

section \<open>Outcomes\<close>

datatype ub =
    Signed_overflow
  | Oob_read
  | Oob_write
  | Uninit_read
  | Null_deref
  | Div_by_zero
  | Float_to_int
  | Double_free
  | Use_after_free
  | Bad_format
  | Bad_shift

datatype cerr = Die string | UB ub | Diverge

type_synonym 'a res = "cerr + 'a"

definition andthen :: "'e + 'a \<Rightarrow> ('a \<Rightarrow> 'e + 'b) \<Rightarrow> 'e + 'b" where
  "andthen m f = (case m of Inl e \<Rightarrow> Inl e | Inr x \<Rightarrow> f x)"

lemma andthen_simps [simp]:
  "andthen (Inl e) f = Inl e"
  "andthen (Inr x) f = f x"
  by (simp_all add: andthen_def)

lemma andthen_cong [fundef_cong]:
  "m = m' \<Longrightarrow> (\<And>x. m' = Inr x \<Longrightarrow> f x = f' x) \<Longrightarrow> andthen m f = andthen m' f'"
  by (cases m') simp_all

lemma andthen_assoc: "andthen (andthen m f) g = andthen m (\<lambda>x. andthen (f x) g)"
  by (cases m) simp_all

lemma andthen_eq_Inr: "andthen m f = Inr y \<longleftrightarrow> (\<exists>x. m = Inr x \<and> f x = Inr y)"
  by (cases m) simp_all

lemma andthen_eq_Inl:
  "andthen m f = Inl e \<longleftrightarrow> m = Inl e \<or> (\<exists>x. m = Inr x \<and> f x = Inl e)"
  by (cases m) simp_all

definition guard_r :: "bool \<Rightarrow> 'e \<Rightarrow> 'e + unit" where
  "guard_r b e = (if b then Inr () else Inl e)"

lemma guard_r_simps [simp]:
  "b \<Longrightarrow> guard_r b e = Inr ()"
  "\<not> b \<Longrightarrow> guard_r b e = Inl e"
  by (simp_all add: guard_r_def)

subsection \<open>Weakest preconditions\<close>

text \<open>
  \<open>wpr E Q m\<close>: if \<open>m\<close> fails, its error satisfies \<open>E\<close>; if it returns, its value satisfies
  \<open>Q\<close>. With \<open>E = (\<lambda>_. False)\<close> it is total correctness.
\<close>

definition wpr :: "('e \<Rightarrow> bool) \<Rightarrow> ('a \<Rightarrow> bool) \<Rightarrow> 'e + 'a \<Rightarrow> bool" where
  "wpr E Q m = (case m of Inl e \<Rightarrow> E e | Inr x \<Rightarrow> Q x)"

lemma wpr_simps [simp]:
  "wpr E Q (Inl e) = E e"
  "wpr E Q (Inr x) = Q x"
  by (simp_all add: wpr_def)

lemma wpr_andthen [simp]: "wpr E Q (andthen m f) = wpr E (\<lambda>x. wpr E Q (f x)) m"
  by (cases m) simp_all

lemma wpr_if: "wpr E Q (if b then m else n) = (if b then wpr E Q m else wpr E Q n)"
  by simp

lemma wpr_mono:
  "wpr E Q m \<Longrightarrow> (\<And>e. E e \<Longrightarrow> E' e) \<Longrightarrow> (\<And>x. Q x \<Longrightarrow> Q' x) \<Longrightarrow> wpr E' Q' m"
  by (cases m) simp_all

lemma wpr_conseq: "wpr E Q m \<Longrightarrow> (\<And>x. m = Inr x \<Longrightarrow> Q x \<Longrightarrow> Q' x) \<Longrightarrow> wpr E Q' m"
  by (cases m) simp_all

lemma wpr_total: "wpr (\<lambda>_. False) Q m \<longleftrightarrow> (\<exists>x. m = Inr x \<and> Q x)"
  by (cases m) simp_all

lemma wpr_InrD: "wpr E Q m \<Longrightarrow> m = Inr x \<Longrightarrow> Q x"
  by simp

lemma wpr_InlD: "wpr E Q m \<Longrightarrow> m = Inl e \<Longrightarrow> E e"
  by simp

section \<open>Integers\<close>

definition INT_MAX :: int where "INT_MAX = 2147483647"
definition INT_MIN :: int where "INT_MIN = -2147483648"

definition int_ok :: "int \<Rightarrow> bool" where
  "int_ok x \<longleftrightarrow> INT_MIN \<le> x \<and> x \<le> INT_MAX"

definition c_int :: "int \<Rightarrow> int res" where
  "c_int x = (if int_ok x then Inr x else Inl (UB Signed_overflow))"

definition to_int :: "int \<Rightarrow> int" where
  "to_int x = signed_take_bit 31 x"

definition to_size :: "int \<Rightarrow> int" where
  \<comment> \<open>conversion to a 64-bit \<open>size_t\<close>\<close>
  "to_size x = x mod 18446744073709551616"

lemma int_ok_iff: "int_ok x \<longleftrightarrow> -2147483648 \<le> x \<and> x \<le> 2147483647"
  by (simp add: int_ok_def INT_MIN_def INT_MAX_def)

lemma wpr_c_int: "wpr E Q (c_int x) = (if int_ok x then Q x else E (UB Signed_overflow))"
  by (simp add: c_int_def)

lemma c_int_ok [simp]: "int_ok x \<Longrightarrow> c_int x = Inr x"
  by (simp add: c_int_def)

lemma to_int_id: "int_ok x \<Longrightarrow> to_int x = x"
  by (simp add: to_int_def int_ok_iff signed_take_bit_int_eq_self_iff)

lemma to_int_ok: "int_ok (to_int x)"
  using signed_take_bit_int_less_exp [of 31 x] signed_take_bit_int_greater_eq_minus_exp [of 31 x]
  by (simp add: to_int_def int_ok_iff)

lemma to_int_alt: "to_int x = (x + 2147483648) mod 4294967296 - 2147483648"
  by (simp add: to_int_def signed_take_bit_eq_take_bit_shift take_bit_eq_mod)

definition c_div :: "int \<Rightarrow> int \<Rightarrow> int res" where
  \<comment> \<open>division of two \<open>int\<close>s, which truncates towards zero\<close>
  "c_div a b = (if b = 0 then Inl (UB Div_by_zero) else c_int (sgn a * sgn b * (\<bar>a\<bar> div \<bar>b\<bar>)))"

section \<open>Characters\<close>

definition uc :: "char \<Rightarrow> int" where "uc c = of_char c"

definition sc :: "char \<Rightarrow> int" where "sc c = signed_take_bit 7 (of_char c)"

definition char_of_int :: "int \<Rightarrow> char" where
  \<comment> \<open>storing an \<open>int\<close> in a \<open>char\<close> keeps its low eight bits\<close>
  "char_of_int x = char_of (take_bit 8 x)"

abbreviation NUL :: char where "NUL \<equiv> CHR 0x00"
abbreviation DQ :: char where "DQ \<equiv> CHR 0x22"
abbreviation BS :: char where "BS \<equiv> CHR 0x5C"

section \<open>Memory blocks\<close>

text \<open>
  A block of memory is the list of its bytes, \<open>None\<close> where nothing has been stored yet; a
  pointer to a block is \<open>None\<close> when it is NULL. \<open>malloc\<close> and \<open>realloc\<close> are given a predicate
  that says which request sizes the allocator can serve.
\<close>

type_synonym block = "char option list"
type_synonym alloc = "int \<Rightarrow> bool"

definition malloc :: "alloc \<Rightarrow> int \<Rightarrow> block option" where
  "malloc A n = (if A (to_size n) then Some (replicate (nat (to_size n)) None) else None)"

definition realloc :: "alloc \<Rightarrow> block option \<Rightarrow> int \<Rightarrow> block option" where
  "realloc A p n =
     (if A (to_size n)
      then (let k = nat (to_size n); m = (case p of None \<Rightarrow> [] | Some m \<Rightarrow> m)
            in Some (take k m @ replicate (k - length m) None))
      else None)"

definition poke_mem :: "block option \<Rightarrow> int \<Rightarrow> string \<Rightarrow> block option res" where
  \<comment> \<open>store the characters from offset \<open>i\<close> on\<close>
  "poke_mem p i cs =
     (case p of
        None \<Rightarrow> Inl (UB Null_deref)
      | Some m \<Rightarrow>
          if 0 \<le> i \<and> nat i + length cs \<le> length m
          then Inr (Some (take (nat i) m @ map Some cs @ drop (nat i + length cs) m))
          else Inl (UB Oob_write))"

definition peek_mem :: "block option \<Rightarrow> int \<Rightarrow> string res" where
  \<comment> \<open>read the first \<open>n\<close> bytes\<close>
  "peek_mem p n =
     (case p of
        None \<Rightarrow> Inl (UB Null_deref)
      | Some m \<Rightarrow>
          if nat n \<le> length m \<and> 0 \<le> n
          then (if None \<in> set (take (nat n) m) then Inl (UB Uninit_read)
                else Inr (map the (take (nat n) m)))
          else Inl (UB Oob_read))"

fun fold_r :: "('s \<Rightarrow> 'a \<Rightarrow> 'e + 's) \<Rightarrow> 'a list \<Rightarrow> 's \<Rightarrow> 'e + 's" where
  "fold_r f [] s = Inr s"
| "fold_r f (x # xs) s = andthen (f s x) (fold_r f xs)"

lemma to_size_id [simp]: "0 \<le> n \<Longrightarrow> n < 18446744073709551616 \<Longrightarrow> to_size n = n"
  by (simp add: to_size_def)

lemma uc_range: "0 \<le> uc c \<and> uc c < 256"
  by (cases c) (simp add: uc_def of_char_def horner_sum_simps)

lemma uc_inj [simp]: "uc c = uc d \<longleftrightarrow> c = d"
  by (simp add: uc_def)

end
