(* ===== verification/Uuid.thy ===== *)
theory Uuid
  imports Prelude
begin

text \<open>
  The service-id allocator of \<open>lualib-src/lua-uuid.c\<close> and its client \<open>lualib/base/uuid.lua\<close>.
  The C module keeps one process-wide counter \<open>sid\<close> (a \<open>static uint32_t\<close>), which
  \<open>luaopen_uuid_core\<close> sets to 0 and \<open>lsid\<close> advances; every Lua VM of the process (one per
  skynet service) opens the module for itself and packs the id it is given into its ids.
\<close>

section \<open>The counter of lua-uuid.c\<close>

type_synonym sid_state = "32 word"

definition lsid :: "sid_state \<Rightarrow> sid_state \<times> int option" where
  \<comment> \<open>\<open>None\<close>: no result is pushed, which Lua reads as \<open>nil\<close>\<close>
  "lsid sid = (if sid \<ge> 0xffff then (sid, None) else (sid + 1, Some (uint (sid + 1))))"

definition luaopen_uuid_core :: "sid_state \<Rightarrow> sid_state" where
  "luaopen_uuid_core sid = 0"

subsection \<open>The calls of a process, as a step relation\<close>

datatype uuid_call = Open_core | Call_sid

inductive uuid_step :: "sid_state \<Rightarrow> uuid_call \<Rightarrow> int option \<Rightarrow> sid_state \<Rightarrow> bool" where
  step_open: "uuid_step sid Open_core None (luaopen_uuid_core sid)"
| step_sid: "lsid sid = (sid', r) \<Longrightarrow> uuid_step sid Call_sid r sid'"

inductive_cases uuid_step_openE: "uuid_step sid Open_core r sid'"
inductive_cases uuid_step_sidE: "uuid_step sid Call_sid r sid'"

fun uuid_run :: "sid_state \<Rightarrow> uuid_call list \<Rightarrow> sid_state \<times> int option list" where
  "uuid_run sid [] = (sid, [])"
| "uuid_run sid (Open_core # cs) =
     (let (sid', rs) = uuid_run (luaopen_uuid_core sid) cs in (sid', None # rs))"
| "uuid_run sid (Call_sid # cs) =
     (let (sid1, r) = lsid sid; (sid', rs) = uuid_run sid1 cs in (sid', r # rs))"

text \<open>The ids handed out by a run.\<close>

definition handed_out :: "sid_state \<Rightarrow> uuid_call list \<Rightarrow> int list" where
  "handed_out sid cs = List.map_filter id (snd (uuid_run sid cs))"

definition sid_inv :: "sid_state \<Rightarrow> bool" where
  "sid_inv sid \<longleftrightarrow> uint sid \<le> 0xffff"

lemma lsid_cases:
  assumes "sid_inv sid"
  obtains (full) "uint sid = 0xffff" "lsid sid = (sid, None)"
    | (next_id) "uint sid < 0xffff" "lsid sid = (sid + 1, Some (uint sid + 1))"
      "uint (sid + 1) = uint sid + 1"
proof (cases "sid \<ge> 0xffff")
  case True
  then have "uint sid = 0xffff" using assms by (simp add: sid_inv_def word_le_def)
  then show ?thesis using True by (intro full) (auto simp: lsid_def)
next
  case False
  then have lt: "uint sid < 0xffff" by (simp add: word_le_def)
  then have "uint (sid + 1) = uint sid + 1"
    by (simp add: uint_word_ariths)
  then show ?thesis using False lt by (intro next_id) (auto simp: lsid_def)
qed

lemma uuid_step_inv:
  "uuid_step sid c r sid' \<Longrightarrow> sid_inv sid \<Longrightarrow> sid_inv sid'"
  by (induction rule: uuid_step.induct)
    (auto simp: luaopen_uuid_core_def sid_inv_def[of 0] elim!: lsid_cases,
     auto simp: sid_inv_def)

inductive uuid_reachable :: "sid_state \<Rightarrow> bool" where
  reach_init: "uuid_reachable 0"
| reach_step: "uuid_reachable sid \<Longrightarrow> uuid_step sid c r sid' \<Longrightarrow> uuid_reachable sid'"

lemma uuid_reachable_inv: "uuid_reachable sid \<Longrightarrow> sid_inv sid"
  by (induction rule: uuid_reachable.induct) (auto simp: sid_inv_def[of 0] intro: uuid_step_inv)

text \<open>Between two openings the ids are \<open>sid + 1, sid + 2, \<dots>\<close> up to 0xffff, then \<open>nil\<close>.\<close>

lemma handed_out_Nil [simp]: "handed_out sid [] = []"
  by (simp add: handed_out_def List.map_filter_simps)

lemma handed_out_Call:
  "handed_out sid (Call_sid # cs) =
     (case lsid sid of (sid1, r) \<Rightarrow> (case r of None \<Rightarrow> [] | Some i \<Rightarrow> [i]) @ handed_out sid1 cs)"
  by (auto simp: handed_out_def List.map_filter_simps split: prod.splits option.splits)

lemma handed_out_Open: "handed_out sid (Open_core # cs) = handed_out 0 cs"
  by (simp add: handed_out_def List.map_filter_simps luaopen_uuid_core_def split: prod.splits)

lemma handed_out_calls:
  assumes "sid_inv sid"
  shows "handed_out sid (replicate n Call_sid) =
           [uint sid + 1 .. min (uint sid + int n) 0xffff]"
  using assms
proof (induction n arbitrary: sid)
  case 0
  then show ?case by (simp add: sid_inv_def)
next
  case (Suc n)
  from Suc.prems show ?case
  proof (cases rule: lsid_cases)
    case full
    then show ?thesis using Suc.IH[OF Suc.prems] by (simp add: handed_out_Call)
  next
    case next_id
    then have "sid_inv (sid + 1)" by (simp add: sid_inv_def)
    from Suc.IH[OF this] next_id show ?thesis
      by (subst upto_rec1) (auto simp: handed_out_Call algebra_simps)
  qed
qed

section \<open>The client uuid.lua\<close>

text \<open>
  A VM's module state: the packed service word, the packed timestamp (with the service word)
  and the sequence number. Lua integers are 64 bits wide and \<open>>>\<close> is a logical shift.
\<close>

record uuid_vm =
  vm_service :: "64 word option"
  vm_timestamp :: "64 word option"
  vm_sequence :: "64 word"

datatype uuid_error = Init_uuid_failed | Assertion_failed

definition pack_service :: "64 word \<Rightarrow> 64 word \<Rightarrow> 64 word" where
  "pack_service harbor sid = push_bit 25 (harbor AND 0x3f) OR push_bit 10 (sid AND 0xffff)"

text \<open>
  \<open>gen\<close>: the call to \<open>core.sid\<close> when the VM has no service word yet, the timestamp when the
  last one has expired, then the next sequence number. It returns the new counter and VM
  state also when it raises.
\<close>

definition uuid_gen_tail :: "64 word \<Rightarrow> uuid_vm \<Rightarrow> 64 word \<Rightarrow> uuid_vm \<times> (uuid_error + 64 word)" where
  "uuid_gen_tail now vm service =
     (let vm1 = (case vm_timestamp vm of
                   Some _ \<Rightarrow> vm
                 | None \<Rightarrow> vm\<lparr>vm_timestamp := Some (push_bit 31 now OR service), vm_sequence := 0\<rparr>);
          vm2 = vm1\<lparr>vm_sequence := vm_sequence vm1 + 1\<rparr>
      in if vm_sequence vm2 <s 1024
         then (vm2, Inr (the (vm_timestamp vm2) OR vm_sequence vm2))
         else (vm2, Inl Assertion_failed))"

definition uuid_gen ::
    "64 word \<Rightarrow> 64 word \<Rightarrow> sid_state \<Rightarrow> uuid_vm \<Rightarrow> sid_state \<times> uuid_vm \<times> (uuid_error + 64 word)" where
  "uuid_gen harbor now sid vm =
     (case vm_service vm of
        Some service \<Rightarrow> (sid, uuid_gen_tail now vm service)
      | None \<Rightarrow>
          (case lsid sid of
             (sid', None) \<Rightarrow> (sid', vm, Inl Init_uuid_failed)
           | (sid', Some i) \<Rightarrow>
               (let service = pack_service harbor (word_of_int i)
                in (sid', uuid_gen_tail now (vm\<lparr>vm_service := Some service\<rparr>) service))))"

definition uuid_timeout :: "uuid_vm \<Rightarrow> uuid_vm" where
  \<comment> \<open>the callback \<open>gen\<close> registers with \<open>skynet.timeout\<close>\<close>
  "uuid_timeout vm = vm\<lparr>vm_timestamp := None\<rparr>"

definition uuid_vm_init :: uuid_vm where
  "uuid_vm_init = \<lparr>vm_service = None, vm_timestamp = None, vm_sequence = 0\<rparr>"

definition uuid_split :: "64 word \<Rightarrow> 64 word \<times> 64 word \<times> 64 word \<times> 64 word" where
  "uuid_split i =
     (drop_bit 31 i,
      drop_bit 25 (i AND 0x7fffffff),
      drop_bit 10 (i AND 0x1ffffff),
      i AND 0x3ff)"

section \<open>The ids of a process\<close>

text \<open>
  C19: Called through one opening of the module, \<open>lsid\<close> hands out consecutive ids up to 0xffff
  and then \<open>nil\<close> for good; in particular no id is handed out twice.
\<close>

theorem sid_consecutive:
  assumes "uuid_reachable sid"
  shows "handed_out sid (replicate n Call_sid) = [uint sid + 1 .. min (uint sid + int n) 0xffff]
           \<and> distinct (handed_out sid (replicate n Call_sid))"
  using handed_out_calls[OF uuid_reachable_inv[OF assms]] by simp

theorem sid_consecutive_witness:
  "uuid_reachable 0 \<and> handed_out 0 (replicate 3 Call_sid) = [1, 2, 3]
     \<and> distinct (handed_out 0 (replicate 3 Call_sid))"
  using sid_consecutive[OF reach_init, of 3] reach_init by (simp add: upto.simps)

text \<open>
  C32: Opening the module resets the process-wide counter, so VMs that each open it and take
  one id (which is what \<open>uuid.gen\<close> does on its first use) are all given the same id 1.
\<close>

theorem reopening_repeats_ids:
  "handed_out sid (concat (replicate n [Open_core, Call_sid])) = replicate n 1"
proof (induction n arbitrary: sid)
  case (Suc n)
  have "lsid 0 = (1, Some 1)" by (simp add: lsid_def)
  then show ?case using Suc.IH by (simp add: handed_out_Open handed_out_Call)
qed simp

section \<open>The packed ids\<close>

lemma and_masks:
  "w AND 0x7fffffff = take_bit 31 (w :: 'a::len word)"
  "w AND 0x1ffffff = take_bit 25 (w :: 'a::len word)"
  "w AND 0xffff = take_bit 16 (w :: 'a::len word)"
  "w AND 0x3ff = take_bit 10 (w :: 'a::len word)"
  "w AND 0x3f = take_bit 6 (w :: 'a::len word)"
  by (simp_all add: take_bit_eq_mask mask_eq_exp_minus_1)

lemma take_bit_bound: "take_bit m w = w \<Longrightarrow> bit w n \<Longrightarrow> n < m" for w :: "'a::len word"
  by (metis bit_take_bit_iff)

lemma bit_below_64: "bit w n \<Longrightarrow> n < 64" for w :: "64 word"
  using bit_imp_le_length by fastforce

lemma signed_less_1024: "k < 2 ^ 63 \<Longrightarrow> (word_of_nat k :: 64 word) <s 1024 \<longleftrightarrow> k < 1024"
  by (simp add: word_sless_alt signed_of_nat signed_take_bit_int_eq_self)

lemma split_packed:
  assumes "take_bit 10 sq = sq" "take_bit 15 sid = sid"
  shows "uuid_split ((push_bit 31 now OR pack_service harbor sid) OR sq) =
           (take_bit 33 now, take_bit 6 harbor, sid, sq)"
  unfolding uuid_split_def pack_service_def prod.inject and_masks
  by (intro conjI bit_word_eqI)
    (auto simp: bit_simps dest: take_bit_bound[OF assms(1)] take_bit_bound[OF assms(2)] bit_below_64)

text \<open>
  C31: The first id a VM generates carries the low 33 bits of the time, the low 6 bits of the
  harbor, the VM's service id and sequence number 1, and \<open>split\<close> reads them back, as long as
  the service id fits the 15 bits the format comment gives it.
\<close>

theorem gen_split:
  assumes "lsid sid = (sid', Some i)" "i < 0x8000"
  shows "case uuid_gen harbor now sid uuid_vm_init of
           (s, vm, Inr uid) \<Rightarrow> s = sid' \<and> vm_sequence vm = 1
              \<and> uuid_split uid = (take_bit 33 now, take_bit 6 harbor, word_of_int i, 1)
         | (s, vm, Inl e) \<Rightarrow> False"
proof -
  have "0 \<le> i" using assms(1) by (auto simp: lsid_def split: if_splits)
  then have "take_bit 15 i = i"
    using assms(2) by (simp add: take_bit_int_eq_self_iff)
  then have "take_bit 15 (word_of_int i :: 64 word) = word_of_int i"
    by (simp add: take_bit_of_int)
  from split_packed[OF _ this, of 1 now harbor] show ?thesis
    using assms(1) by (simp add: uuid_gen_def uuid_gen_tail_def uuid_vm_init_def Let_def
        signed_less_1024[of 1, simplified])
qed

theorem gen_split_witness:
  "lsid 4 = (5, Some 5) \<and>
   (case uuid_gen 3 1000 4 uuid_vm_init of
      (s, vm, Inr uid) \<Rightarrow> s = 5 \<and> vm_sequence vm = 1 \<and> uuid_split uid = (1000, 3, 5, 1)
    | (s, vm, Inl e) \<Rightarrow> False)"
proof -
  have l: "lsid 4 = (5, Some 5)" by (simp add: lsid_def)
  from gen_split[OF l, of 1000 3] l show ?thesis
    by (auto split: prod.splits sum.splits)
qed

text \<open>
  The allocator counts to 0xffff, one bit more than the id format has for the service, and
  the top bit runs into the harbor's lowest bit: on an odd harbor the service ids \<open>i\<close> and
  \<open>i + 0x8000\<close> are packed into the same word, so their ids collide.
\<close>

lemma service_bits_overlap:
  "pack_service harbor (sid OR 0x8000) = pack_service (harbor OR 1) sid"
proof -
  have "(0x8000::64 word) = push_bit 15 1" by simp
  then have "bit (0x8000::64 word) n \<longleftrightarrow> n = 15" for n
    by (simp only: bit_simps) auto
  then show ?thesis
    unfolding pack_service_def and_masks
    by (intro bit_word_eqI) (auto simp: bit_simps)
qed

subsection \<open>Many ids of one VM\<close>

text \<open>
  The life of one VM between two expiries of its timestamp is a round of calls to \<open>gen\<close>; the
  callback of \<open>skynet.timeout\<close>, which the first call of the round registers, ends it. The list
  of a round holds what \<open>os.time\<close> reads at each call.
\<close>

fun uuid_gens ::
    "64 word \<Rightarrow> 64 word list \<Rightarrow> sid_state \<Rightarrow> uuid_vm
     \<Rightarrow> sid_state \<times> uuid_vm \<times> (uuid_error + 64 word) list" where
  "uuid_gens harbor [] sid vm = (sid, vm, [])"
| "uuid_gens harbor (now # nows) sid vm =
     (case uuid_gen harbor now sid vm of
        (sid1, vm1, r) \<Rightarrow>
          (case uuid_gens harbor nows sid1 vm1 of (sid2, vm2, rs) \<Rightarrow> (sid2, vm2, r # rs)))"

fun uuid_rounds ::
    "64 word \<Rightarrow> 64 word list list \<Rightarrow> sid_state \<Rightarrow> uuid_vm \<Rightarrow> (uuid_error + 64 word) list list" where
  "uuid_rounds harbor [] sid vm = []"
| "uuid_rounds harbor (nows # rounds) sid vm =
     (case uuid_gens harbor nows sid vm of
        (sid', vm', rs) \<Rightarrow> rs # uuid_rounds harbor rounds sid' (uuid_timeout vm'))"

text \<open>
  The states a VM of harbor \<open>harbor\<close> can be in, with the counter of the process, which other
  VMs advance and reset meanwhile: its service word is one \<open>pack_service\<close> made.
\<close>

inductive vm_reachable :: "64 word \<Rightarrow> sid_state \<Rightarrow> uuid_vm \<Rightarrow> bool" for harbor where
  vm_start: "vm_reachable harbor 0 uuid_vm_init"
| vm_gen: "vm_reachable harbor sid vm \<Longrightarrow> uuid_gen harbor now sid vm = (sid', vm', r)
    \<Longrightarrow> vm_reachable harbor sid' vm'"
| vm_expired: "vm_reachable harbor sid vm \<Longrightarrow> vm_reachable harbor sid (uuid_timeout vm)"
| vm_other: "vm_reachable harbor sid vm \<Longrightarrow> uuid_step sid c r sid' \<Longrightarrow> vm_reachable harbor sid' vm"

lemma uuid_gen_tail_service [simp]: "vm_service (fst (uuid_gen_tail now vm sv)) = vm_service vm"
  by (simp add: uuid_gen_tail_def Let_def split: option.splits)

lemma uuid_gen_service:
  "vm_service (fst (snd (uuid_gen harbor now sid vm))) = vm_service vm
     \<or> (\<exists>s. vm_service (fst (snd (uuid_gen harbor now sid vm))) = Some (pack_service harbor s))"
  by (auto simp: uuid_gen_def Let_def split: option.splits prod.splits)

lemma vm_reachable_service:
  "vm_reachable harbor sid vm \<Longrightarrow> vm_service vm = Some sv \<Longrightarrow> \<exists>s. sv = pack_service harbor s"
proof (induction rule: vm_reachable.induct)
  case (vm_gen sid vm now sid' vm' r)
  then show ?case using uuid_gen_service[of harbor now sid vm] by auto
qed (simp_all add: uuid_vm_init_def uuid_timeout_def)

lemma pack_service_bits:
  "take_bit 10 (pack_service harbor s) = 0" "drop_bit 31 (pack_service harbor s) = 0"
  unfolding pack_service_def and_masks
  by (intro bit_word_eqI; auto simp: bit_simps)+

lemma uuid_gens_started:
  assumes "vm_service vm = Some sv" "vm_timestamp vm = Some ts" "vm_sequence vm = word_of_nat k"
    and "k + length nows < 2 ^ 63"
  shows "\<exists>vm'. vm_service vm' = Some sv \<and> uuid_gens harbor nows sid vm = (sid, vm',
           map (\<lambda>j. if j < 1024 then Inr (ts OR word_of_nat j) else Inl Assertion_failed)
             [Suc k ..< Suc (k + length nows)])"
  using assms
proof (induction nows arbitrary: vm k)
  case (Cons now nows)
  have "word_of_nat k + 1 = (word_of_nat (Suc k) :: 64 word)" by simp
  then show ?case
    using Cons.prems Cons.IH[of "vm\<lparr>vm_sequence := word_of_nat (Suc k)\<rparr>" "Suc k"]
    by (auto simp: uuid_gen_def uuid_gen_tail_def Let_def signed_less_1024 upt_conv_Cons
        simp del: of_nat_Suc upt_Suc)
qed simp

lemma round_results:
  "map (\<lambda>j. if j < 1024 then Inr (f j) else Inl e) [1..<Suc n] =
     map Inr (map f [1..<Suc (min n 1023)]) @ replicate (n - 1023) (Inl e)"
proof -
  have "[1..<Suc n] = [1..<Suc (min n 1023)] @ [Suc (min n 1023)..<Suc n]"
    using upt_add_eq_append[of 1 "Suc (min n 1023)" "n - min n 1023"] by (simp del: upt_Suc)
  then show ?thesis
    by (auto simp: min_def intro!: replicate_eqI simp del: upt_Suc split: if_splits)
qed

text \<open>A round that starts without a timestamp: it takes the time of its first call.\<close>

definition round_ids :: "64 word \<Rightarrow> 64 word list \<Rightarrow> 64 word list" where
  "round_ids sv nows =
     map (\<lambda>j. (push_bit 31 (hd nows) OR sv) OR word_of_nat j) [1..<Suc (min (length nows) 1023)]"

lemma uuid_round:
  assumes "vm_service vm = Some sv" "vm_timestamp vm = None" "nows \<noteq> []" "length nows < 2 ^ 63"
  shows "\<exists>vm'. vm_service vm' = Some sv \<and> uuid_gens harbor nows sid vm =
           (sid, vm', map Inr (round_ids sv nows)
             @ replicate (length nows - 1023) (Inl Assertion_failed))"
proof -
  let ?ts = "push_bit 31 (hd nows) OR sv"
  have "uuid_gens harbor nows sid vm =
      uuid_gens harbor nows sid (vm\<lparr>vm_timestamp := Some ?ts, vm_sequence := 0\<rparr>)"
    using assms(1-3) by (cases nows) (simp_all add: uuid_gen_def uuid_gen_tail_def)
  with uuid_gens_started[of "vm\<lparr>vm_timestamp := Some ?ts, vm_sequence := 0\<rparr>" sv ?ts 0 nows harbor sid]
  show ?thesis using assms(1,4) round_results[of "\<lambda>j. ?ts OR word_of_nat j" Assertion_failed "length nows"]
    by (auto simp: round_ids_def simp del: upt_Suc)
qed

lemma drop_bit_small:
  fixes w :: "64 word"
  assumes "take_bit 10 w = w"
  shows "drop_bit 31 w = 0"
  by (intro bit_word_eqI) (auto simp: bit_simps dest: take_bit_bound[OF assms])

lemma round_ids_fields:
  assumes "take_bit 10 sv = 0" "drop_bit 31 sv = 0" "i \<in> set (round_ids sv nows)"
  shows "drop_bit 31 i = take_bit 33 (hd nows)"
proof -
  obtain j where "j \<in> {1..<Suc (min (length nows) 1023)}"
    and i: "i = (push_bit 31 (hd nows) OR sv) OR word_of_nat j"
    using assms(3) by (auto simp: round_ids_def simp del: upt_Suc)
  then have j: "j < 1024" "i = (push_bit 31 (hd nows) OR sv) OR word_of_nat j" by auto
  then have t: "take_bit 10 (word_of_nat j :: 64 word) = word_of_nat j"
    by (simp add: take_bit_of_nat take_bit_nat_eq_self)
  have "drop_bit 31 (word_of_nat j :: 64 word) = 0"
    by (rule drop_bit_small[OF t])
  then show ?thesis using assms(2) j(2)
    by (simp add: drop_bit_or) (intro bit_word_eqI, auto simp: bit_simps dest: bit_below_64)
qed

lemma distinct_round_ids:
  assumes "take_bit 10 sv = 0"
  shows "distinct (round_ids sv nows)"
proof -
  let ?ts = "push_bit 31 (hd nows) OR sv"
  have low: "take_bit 10 (?ts OR word_of_nat j) = word_of_nat j" if "j < 1024" for j
    using that assms by (simp add: take_bit_or take_bit_of_nat take_bit_nat_eq_self take_bit_push_bit)
  have "inj_on (\<lambda>j. ?ts OR word_of_nat j) {1..<Suc (min (length nows) 1023)}"
  proof (rule inj_onI)
    fix i j assume ij: "i \<in> {1..<Suc (min (length nows) 1023)}" "j \<in> {1..<Suc (min (length nows) 1023)}"
      "?ts OR word_of_nat i = ?ts OR word_of_nat j"
    then have "i < 1024" "j < 1024" by auto
    with low ij(3) have "(word_of_nat i :: 64 word) = word_of_nat j" by metis
    then show "i = j" using ij by (auto simp: word_of_nat_eq_iff take_bit_nat_eq_self)
  qed
  then show ?thesis by (simp add: round_ids_def distinct_map del: upt_Suc)
qed

lemma uuid_rounds_started:
  assumes "vm_service vm = Some sv" "vm_timestamp vm = None"
    and "\<forall>nows\<in>set rounds. nows \<noteq> [] \<and> length nows < 2 ^ 63"
  shows "uuid_rounds harbor rounds sid vm =
           map (\<lambda>nows. map Inr (round_ids sv nows)
                  @ replicate (length nows - 1023) (Inl Assertion_failed)) rounds"
  using assms
proof (induction rounds arbitrary: vm)
  case (Cons nows rounds)
  obtain vm' where "vm_service vm' = Some sv" "uuid_gens harbor nows sid vm =
      (sid, vm', map Inr (round_ids sv nows) @ replicate (length nows - 1023) (Inl Assertion_failed))"
    using uuid_round[of vm sv nows harbor sid] Cons.prems by auto
  then show ?case using Cons.prems(3) Cons.IH[of "uuid_timeout vm'"]
    by (simp add: uuid_timeout_def)
qed simp

text \<open>The first call of a VM without a service word takes it from the counter.\<close>

lemma uuid_rounds_first:
  assumes "vm_service vm = None" "lsid sid = (sid', Some i)" "rounds \<noteq> []" "hd rounds \<noteq> []"
  shows "uuid_rounds harbor rounds sid vm =
           uuid_rounds harbor rounds sid' (vm\<lparr>vm_service := Some (pack_service harbor (word_of_int i))\<rparr>)"
proof -
  obtain now nows rest where r: "rounds = (now # nows) # rest"
    using assms(3,4) by (metis list.exhaust list.sel(1))
  show ?thesis unfolding r using assms(1,2) by (simp add: uuid_gen_def Let_def)
qed

lemma uuid_rounds_ids:
  assumes "vm_reachable harbor sid vm" "vm_timestamp vm = None"
    and "vm_service vm \<noteq> None \<or> snd (lsid sid) \<noteq> None" "rounds \<noteq> []"
    and "\<forall>nows\<in>set rounds. nows \<noteq> [] \<and> length nows < 2 ^ 63"
  obtains s where "uuid_rounds harbor rounds sid vm =
           map (\<lambda>nows. map Inr (round_ids (pack_service harbor s) nows)
                  @ replicate (length nows - 1023) (Inl Assertion_failed)) rounds"
proof (cases "vm_service vm")
  case None
  then obtain sid' i where l: "lsid sid = (sid', Some i)"
    using assms(3) by (cases "lsid sid") auto
  show ?thesis
    using uuid_rounds_started[OF _ _ assms(5), of "vm\<lparr>vm_service := Some (pack_service harbor (word_of_int i))\<rparr>"]
      uuid_rounds_first[OF None l assms(4), of harbor] assms(2,4,5) by (intro that) auto
next
  case (Some sv)
  with vm_reachable_service[OF assms(1)] uuid_rounds_started[OF Some assms(2,5)] that
  show ?thesis by blast
qed

text \<open>
  C30: From every state a VM can reach in which its timestamp has expired, and as long as the
  process still has a service id for it, round after round of calls: each round starts a new
  sequence under the time of its first call and returns at most 1023 ids, further calls of the
  round fail their assertion; and no id is ever repeated, within a round or between rounds,
  when the rounds start in different seconds (of the 33 bits the format keeps).
\<close>

theorem gens_distinct:
  assumes "vm_reachable harbor sid vm" "vm_timestamp vm = None"
    and "vm_service vm \<noteq> None \<or> snd (lsid sid) \<noteq> None" "rounds \<noteq> []"
    and "\<forall>nows\<in>set rounds. nows \<noteq> [] \<and> length nows < 2 ^ 63"
    and "distinct (map (\<lambda>nows. take_bit 33 (hd nows)) rounds)"
  shows "\<exists>ids. distinct (concat (map ids rounds))
           \<and> (\<forall>nows\<in>set rounds. length (ids nows) = min (length nows) 1023)
           \<and> uuid_rounds harbor rounds sid vm =
               map (\<lambda>nows. map Inr (ids nows)
                      @ replicate (length nows - 1023) (Inl Assertion_failed)) rounds"
proof -
  from uuid_rounds_ids[OF assms(1-5)] obtain s where run: "uuid_rounds harbor rounds sid vm =
      map (\<lambda>nows. map Inr (round_ids (pack_service harbor s) nows)
             @ replicate (length nows - 1023) (Inl Assertion_failed)) rounds" .
  have disj: "set (round_ids (pack_service harbor s) a) \<inter> set (round_ids (pack_service harbor s) b) = {}"
    if "take_bit 33 (hd a) \<noteq> take_bit 33 (hd b)" for a b
    using that round_ids_fields[OF pack_service_bits, of _ harbor s] by (auto simp: disjoint_iff) (metis)
  have "distinct (concat (map (round_ids (pack_service harbor s)) rounds))"
    using assms(6)
  proof (induction rounds)
    case (Cons nows rounds)
    then show ?case using disj distinct_round_ids[OF pack_service_bits(1)] by fastforce
  qed simp
  with run show ?thesis
    by (intro exI[of _ "round_ids (pack_service harbor s)"]) (simp add: round_ids_def del: upt_Suc)
qed

theorem gens_distinct_witness:
  "\<exists>ids. distinct (concat (map ids [[7, 7, 8], [9, 10 :: 64 word]]))
     \<and> uuid_rounds 1 [[7, 7, 8], [9, 10]] 0 uuid_vm_init
       = [map Inr (ids [7, 7, 8]), map Inr (ids [9, 10])]"
  using gens_distinct[where harbor = 1 and rounds = "[[7, 7, 8], [9, 10]]", OF vm_start]
  by (auto simp: uuid_vm_init_def lsid_def simp del: uuid_rounds.simps)

end
