(* ===== verification/Syslog.thy ===== *)
theory Syslog
  imports Prelude
begin

text \<open>
  The skynet logger service \<open>service-src/service_syslog.c\<close> (\<open>check_msg\<close>, the message callback
  \<open>cb\<close> and \<open>syslog_init\<close>) and the level prefixes its client \<open>lualib/base/syslog.lua\<close> writes.
  A message is its \<open>sz\<close> bytes; the framework stores a NUL after them, which is where \<open>%s\<close>
  stops at the latest.
\<close>

section \<open>Priorities\<close>

datatype log_priority = LOG_ERR | LOG_WARNING | LOG_NOTICE | LOG_INFO | LOG_DEBUG

fun priority_code :: "log_priority \<Rightarrow> int" where
  "priority_code LOG_ERR = 3"
| "priority_code LOG_WARNING = 4"
| "priority_code LOG_NOTICE = 5"
| "priority_code LOG_INFO = 6"
| "priority_code LOG_DEBUG = 7"

lemma priority_code_inj: "priority_code p = priority_code q \<Longrightarrow> p = q"
  by (cases p; cases q) simp_all

text \<open>The order of the levels: a smaller code is the more severe message.\<close>

instantiation log_priority :: linorder
begin

definition less_eq_log_priority :: "log_priority \<Rightarrow> log_priority \<Rightarrow> bool" where
  "less_eq_log_priority p q \<longleftrightarrow> priority_code p \<le> priority_code q"

definition less_log_priority :: "log_priority \<Rightarrow> log_priority \<Rightarrow> bool" where
  "less_log_priority p q \<longleftrightarrow> priority_code p < priority_code q"

instance
  by standard (auto simp: less_eq_log_priority_def less_log_priority_def intro: priority_code_inj)

end

section \<open>The service\<close>

datatype host_call =
    Openlog string "string list" string
  | Skynet_callback string
  | Skynet_command string string
  | Syslog_line log_priority string

definition check_msg :: "string \<Rightarrow> log_priority \<Rightarrow> nat \<times> log_priority" where
  \<comment> \<open>the offset of the returned pointer in the message, and \<open>*priority\<close>\<close>
  "check_msg msg priority =
     (if length msg < 2 \<or> msg ! 1 \<noteq> CHR ''|'' then (0, priority)
      else if msg ! 0 = CHR ''D'' then (2, LOG_DEBUG)
      else if msg ! 0 = CHR ''I'' then (2, LOG_INFO)
      else if msg ! 0 = CHR ''N'' then (2, LOG_NOTICE)
      else if msg ! 0 = CHR ''W'' then (2, LOG_WARNING)
      else if msg ! 0 = CHR ''E'' then (2, LOG_ERR)
      else (0, priority))"

definition hex_digit :: "nat \<Rightarrow> char" where
  "hex_digit d = (if d < 10 then char_of (48 + d) else char_of (87 + d))"

definition hex8 :: "32 word \<Rightarrow> string" where
  \<comment> \<open>the conversion \<open>%08x\<close>\<close>
  "hex8 w = map (\<lambda>i. hex_digit (unat (drop_bit (4 * i) w AND 15))) (rev [0..<8])"

definition c_string :: "string \<Rightarrow> string" where
  "c_string s = takeWhile (\<lambda>c. c \<noteq> NUL) s"

definition cb :: "32 word \<Rightarrow> string \<Rightarrow> host_call \<times> int" where
  "cb source msg =
     (let (off, priority) = check_msg msg LOG_WARNING
      in (Syslog_line priority (''[:'' @ hex8 source @ ''] '' @ c_string (drop off msg)), 0))"

definition syslog_init :: "string \<Rightarrow> host_call list \<times> int" where
  "syslog_init ident =
     ([Openlog ident [''LOG_PID''] ''LOG_LOCAL3'', Skynet_callback ''cb'',
       Skynet_command ''REG'' ''.logger''], 0)"

section \<open>The client syslog.lua\<close>

definition syslog_prefix :: "string list" where
  "syslog_prefix = [''D| '', ''I| '', ''N| '', ''W| '', ''E| '']"

definition syslog_write :: "nat \<Rightarrow> nat \<Rightarrow> string \<Rightarrow> string option" where
  \<comment> \<open>the message handed to \<open>skynet.error\<close>, if the level lets it pass\<close>
  "syslog_write level priority fmt =
     (if priority \<ge> level then Some (syslog_prefix ! (priority - 1) @ fmt) else None)"

definition lua_level :: "nat \<Rightarrow> log_priority" where
  "lua_level priority = [LOG_DEBUG, LOG_INFO, LOG_NOTICE, LOG_WARNING, LOG_ERR] ! (priority - 1)"

section \<open>Properties\<close>

text \<open>The marker of a message, read off its first two bytes.\<close>

fun level_of_marker :: "char \<Rightarrow> log_priority option" where
  "level_of_marker c =
     map_of [(CHR ''D'', LOG_DEBUG), (CHR ''I'', LOG_INFO), (CHR ''N'', LOG_NOTICE),
             (CHR ''W'', LOG_WARNING), (CHR ''E'', LOG_ERR)] c"

fun log_spec :: "string \<Rightarrow> log_priority \<times> string" where
  "log_spec (c # d # rest) =
     (if d = CHR ''|''
      then (case level_of_marker c of Some p \<Rightarrow> (p, rest) | None \<Rightarrow> (LOG_WARNING, c # d # rest))
      else (LOG_WARNING, c # d # rest))"
| "log_spec msg = (LOG_WARNING, msg)"

text \<open>
  The callback logs every message, of any length and content, at the level of its marker
  with the marker removed, or in full at the warning level when it has none.
\<close>

lemma cb_alt:
  "cb source msg =
     (case log_spec msg of
        (p, body) \<Rightarrow> (Syslog_line p (''[:'' @ hex8 source @ ''] '' @ c_string body), 0))"
  by (cases msg rule: log_spec.cases) (auto simp: cb_def check_msg_def)

lemma log_spec_prefix:
  assumes "1 \<le> priority" "priority \<le> 5"
  shows "log_spec (syslog_prefix ! (priority - 1) @ fmt) = (lua_level priority, CHR '' '' # fmt)"
proof -
  have "priority \<in> {1, 2, 3, 4, 5}" using assms by auto
  then show ?thesis by (elim insertE) (simp_all add: syslog_prefix_def lua_level_def)
qed

text \<open>
  C29: What the Lua side writes at a level arrives in the log at that level, text intact (after
  the blank of the prefix), for every text without NUL characters.
\<close>

theorem write_then_cb:
  assumes "syslog_write level priority fmt = Some msg" "1 \<le> priority" "priority \<le> 5"
    and "NUL \<notin> set fmt"
  shows "cb source msg =
     (Syslog_line (lua_level priority) (''[:'' @ hex8 source @ ''] '' @ '' '' @ fmt), 0)"
proof -
  have "c_string fmt = fmt"
    using assms(4) by (auto simp: c_string_def takeWhile_eq_all_conv)
  moreover have "msg = syslog_prefix ! (priority - 1) @ fmt"
    using assms(1) by (simp add: syslog_write_def split: if_splits)
  ultimately show ?thesis
    using log_spec_prefix[OF assms(2,3), of fmt] by (simp add: cb_alt c_string_def)
qed

theorem write_then_cb_witness:
  "syslog_write 3 4 ''low disk'' = Some ''W| low disk'' \<and>
   cb 0x0100000a ''W| low disk'' = (Syslog_line LOG_WARNING ''[:0100000a]  low disk'', 0)"
proof -
  have w: "syslog_write 3 4 ''low disk'' = Some ''W| low disk''"
    by (simp add: syslog_write_def syslog_prefix_def)
  have "hex8 0x0100000a = ''0100000a''"
    by code_simp
  then show ?thesis
    using write_then_cb[OF w, of "0x0100000a"] w by (simp add: lua_level_def)
qed

end
