(* ===== verification/Clib.thy ===== *)
theory Clib
  imports Prelude
begin

text \<open>
  What the sources use of the C language and library besides memory: the binary representation
  of a \<open>double\<close> (IEEE 754 binary64, as on the platforms the makefiles build for), the
  conversion \<open>%lld\<close>, \<open>strtoll\<close> with base 0, and the string comparisons. A C string is the
  list of its characters without the terminator.
\<close>

section \<open>Doubles\<close>

type_synonym double = "64 word"

definition dbl_sign :: "double \<Rightarrow> bool" where "dbl_sign d = bit d 63"
definition dbl_exp :: "double \<Rightarrow> nat" where "dbl_exp d = unat (take_bit 11 (drop_bit 52 d))"
definition dbl_frac :: "double \<Rightarrow> nat" where "dbl_frac d = unat (take_bit 52 d)"

definition isnan :: "double \<Rightarrow> bool" where
  "isnan d \<longleftrightarrow> dbl_exp d = 2047 \<and> dbl_frac d \<noteq> 0"

definition isinf :: "double \<Rightarrow> bool" where
  "isinf d \<longleftrightarrow> dbl_exp d = 2047 \<and> dbl_frac d = 0"

text \<open>
  A finite double is \<open>\<plusminus> mantissa * 2 ^ (max 1 exp - 1075)\<close>. \<open>dbl_trunc\<close> is its integer part
  (rounded towards zero), \<open>dbl_integral\<close> says that it has no fraction (\<open>floor(k) == k\<close>).
\<close>

definition dbl_mant :: "double \<Rightarrow> nat" where
  "dbl_mant d = (if dbl_exp d = 0 then dbl_frac d else 4503599627370496 + dbl_frac d)"

definition dbl_abs_trunc :: "double \<Rightarrow> nat" where
  "dbl_abs_trunc d =
     (let e = max 1 (dbl_exp d)
      in if 1075 \<le> e then dbl_mant d * 2 ^ (e - 1075) else dbl_mant d div 2 ^ (1075 - e))"

definition dbl_trunc :: "double \<Rightarrow> int" where
  "dbl_trunc d = (if dbl_sign d then - int (dbl_abs_trunc d) else int (dbl_abs_trunc d))"

definition dbl_integral :: "double \<Rightarrow> bool" where
  "dbl_integral d \<longleftrightarrow>
     (let e = max 1 (dbl_exp d) in 1075 \<le> e \<or> dbl_mant d mod 2 ^ (1075 - e) = 0)"

section \<open>Printing integers\<close>

fun dec_digits :: "nat \<Rightarrow> string" where
  "dec_digits n =
     (if n < 10 then [char_of (48 + n)] else dec_digits (n div 10) @ [char_of (48 + n mod 10)])"

declare dec_digits.simps [simp del]

definition lld_text :: "int \<Rightarrow> string" where
  "lld_text i = (if i < 0 then CHR ''-'' # dec_digits (nat (- i)) else dec_digits (nat i))"

section \<open>Parsing integers\<close>

definition is_space :: "char \<Rightarrow> bool" where
  "is_space c \<longleftrightarrow> c = CHR '' '' \<or> (9 \<le> uc c \<and> uc c \<le> 13)"

definition digit_value :: "char \<Rightarrow> nat option" where
  "digit_value c =
     (let n = of_char c :: nat
      in if 48 \<le> n \<and> n \<le> 57 then Some (n - 48)
         else if 97 \<le> n \<and> n \<le> 122 then Some (n - 87)
         else if 65 \<le> n \<and> n \<le> 90 then Some (n - 55)
         else None)"

definition is_digit_in :: "nat \<Rightarrow> char \<Rightarrow> bool" where
  "is_digit_in base c = (case digit_value c of None \<Rightarrow> False | Some d \<Rightarrow> d < base)"

definition digits_value :: "nat \<Rightarrow> string \<Rightarrow> nat" where
  "digits_value base cs = foldl (\<lambda>v c. base * v + the (digit_value c)) 0 cs"

definition LLONG_MAX :: int where "LLONG_MAX = 9223372036854775807"
definition LLONG_MIN :: int where "LLONG_MIN = -9223372036854775808"

definition clamp_llong :: "int \<Rightarrow> int" where
  "clamp_llong x = max LLONG_MIN (min LLONG_MAX x)"

text \<open>The base and the length of the prefix that base 0 detects.\<close>

definition strtoll_base :: "string \<Rightarrow> nat \<times> nat" where
  "strtoll_base s =
     (case s of
        c # x # h # _ \<Rightarrow>
          if c = CHR ''0'' \<and> (x = CHR ''x'' \<or> x = CHR ''X'') \<and> is_digit_in 16 h then (16, 2)
          else if c = CHR ''0'' then (8, 0) else (10, 0)
      | c # _ \<Rightarrow> if c = CHR ''0'' then (8, 0) else (10, 0)
      | [] \<Rightarrow> (10, 0))"

definition strtoll :: "string \<Rightarrow> int \<times> nat" where
  \<comment> \<open>the value and the number of characters consumed, 0 when there is no number\<close>
  "strtoll s =
     (let blanks = length (takeWhile is_space s);
          s1 = drop blanks s;
          neg = (s1 \<noteq> [] \<and> hd s1 = CHR ''-'');
          signs = (if s1 \<noteq> [] \<and> (hd s1 = CHR ''-'' \<or> hd s1 = CHR ''+'') then 1 else 0);
          s2 = drop signs s1;
          (base, prefix) = strtoll_base s2;
          ds = takeWhile (is_digit_in base) (drop prefix s2);
          v = int (digits_value base ds)
      in if ds = [] then (0, 0)
         else (clamp_llong (if neg then - v else v), blanks + signs + prefix + length ds))"

section \<open>Comparing strings\<close>

definition tolower :: "char \<Rightarrow> char" where
  "tolower c = (if 65 \<le> uc c \<and> uc c \<le> 90 then char_of_int (uc c + 32) else c)"

definition strncmp_eq :: "string \<Rightarrow> string \<Rightarrow> bool" where
  \<comment> \<open>\<open>!strncmp(s, t, strlen(t))\<close>\<close>
  "strncmp_eq s t \<longleftrightarrow> take (length t) s = t"

definition strncasecmp_eq :: "string \<Rightarrow> string \<Rightarrow> bool" where
  "strncasecmp_eq s t \<longleftrightarrow> map tolower (take (length t) s) = map tolower t"

section \<open>Lemmas\<close>

lemma dec_digits_nonempty [simp]: "dec_digits n \<noteq> []"
  by (subst dec_digits.simps) simp

lemma digit_value_char_of [simp]: "d < 10 \<Longrightarrow> digit_value (char_of (48 + d)) = Some d"
  by (simp add: digit_value_def Let_def)

lemma digits_value_snoc:
  "digits_value b (cs @ [c]) = b * digits_value b cs + the (digit_value c)"
  by (simp add: digits_value_def)

lemma digits_value_dec: "digits_value 10 (dec_digits n) = n"
proof (induction n rule: dec_digits.induct)
  case (1 n)
  then show ?case
    by (subst dec_digits.simps) (auto simp: digits_value_snoc, simp add: digits_value_def)
qed

lemma dec_digits_digits: "c \<in> set (dec_digits n) \<Longrightarrow> is_digit_in 10 c"
proof (induction n rule: dec_digits.induct)
  case (1 n)
  then show ?case by (auto simp: dec_digits.simps[of n] is_digit_in_def split: if_splits)
qed

lemma dec_digits_length: "n < 10 ^ k \<Longrightarrow> 0 < k \<Longrightarrow> length (dec_digits n) \<le> k"
proof (induction k arbitrary: n)
  case (Suc k)
  show ?case
  proof (cases "n < 10")
    case True
    then show ?thesis by (simp add: dec_digits.simps[of n])
  next
    case False
    then have "n div 10 < 10 ^ k" "0 < k" using Suc.prems by (auto intro: ccontr)
    then show ?thesis using Suc.IH[of "n div 10"] False by (simp add: dec_digits.simps[of n])
  qed
qed simp

lemma dec_digits_hd0: "hd (dec_digits n) = CHR ''0'' \<Longrightarrow> n = 0"
proof (induction n rule: dec_digits.induct)
  case (1 n)
  show ?case
  proof (cases "n < 10")
    case True
    then have "char_of (48 + n) = CHR ''0''" using 1(2) by (simp add: dec_digits.simps[of n])
    then have "of_char (char_of (48 + n) :: char) = (48::nat)" by simp
    then show ?thesis using True by simp
  next
    case False
    then have "hd (dec_digits (n div 10)) = CHR ''0''" using 1(2) by (simp add: dec_digits.simps[of n])
    with 1(1) False show ?thesis by (simp add: div_eq_0_iff)
  qed
qed

lemma dec_digits_0 [simp]: "dec_digits 0 = ''0''"
  by code_simp

lemma is_digit_not_sign:
  "is_digit_in b c \<Longrightarrow> b \<le> 10 \<Longrightarrow> 48 \<le> (of_char c :: nat) \<and> (of_char c :: nat) \<le> 57"
  by (auto simp: is_digit_in_def digit_value_def Let_def split: if_splits option.splits)

lemma takeWhile_stop: "(\<And>c. c \<in> set xs \<Longrightarrow> P c) \<Longrightarrow> ys = [] \<or> \<not> P (hd ys) \<Longrightarrow> takeWhile P (xs @ ys) = xs"
  by (cases ys) (auto simp: takeWhile_append)

definition ends_number :: "string \<Rightarrow> bool" where
  \<comment> \<open>what may follow an integer without changing how it is read\<close>
  "ends_number rest \<longleftrightarrow>
     (case rest of [] \<Rightarrow> True
      | c # _ \<Rightarrow> \<not> is_digit_in 10 c \<and> c \<noteq> CHR ''x'' \<and> c \<noteq> CHR ''X'')"

lemma strtoll_base_dec:
  assumes "ends_number rest"
  shows "strtoll_base (dec_digits n @ rest) = (if n = 0 then (8, 0) else (10, 0))"
proof (cases "n = 0")
  case True
  then show ?thesis using assms
    by (cases rest; cases "tl rest") (auto simp: strtoll_base_def ends_number_def)
next
  case False
  then have "hd (dec_digits n) \<noteq> CHR ''0''" using dec_digits_hd0 by blast
  then show ?thesis using False
    by (cases "dec_digits n") (auto simp: strtoll_base_def split: list.splits)
qed

lemma strtoll_digits:
  assumes "ends_number rest"
  shows "takeWhile (is_digit_in (if n = 0 then 8 else 10)) (dec_digits n @ rest) = dec_digits n"
proof (rule takeWhile_stop)
  show "is_digit_in (if n = 0 then 8 else 10) c" if "c \<in> set (dec_digits n)" for c
    using that dec_digits_digits[OF that] by (auto simp: is_digit_in_def digit_value_def)
  show "rest = [] \<or> \<not> is_digit_in (if n = 0 then 8 else 10) (hd rest)"
    using assms by (cases rest) (auto simp: ends_number_def is_digit_in_def split: option.splits)
qed

lemma digits_value_text: "digits_value (if n = 0 then 8 else 10) (dec_digits n) = n"
  using digits_value_dec[of n] by (auto simp: digits_value_def digit_value_def)

lemma uc_nat: "uc c = int (of_char c :: nat)"
  by (simp only: uc_def of_nat_of_char)

lemma digit_not_blank:
  assumes "is_digit_in 10 c"
  shows "c \<noteq> CHR ''-'' \<and> c \<noteq> CHR ''+'' \<and> \<not> is_space c"
proof -
  have r: "48 \<le> uc c \<and> uc c \<le> 57" using is_digit_not_sign[OF assms] by (simp add: uc_nat)
  then have "\<not> (9 \<le> uc c \<and> uc c \<le> 13)" by linarith
  moreover have "c \<noteq> CHR ''-''" "c \<noteq> CHR ''+''" "c \<noteq> CHR '' ''" using r by (auto simp: uc_def)
  ultimately show ?thesis by (simp add: is_space_def)
qed

lemma hd_dec_digits:
  "hd (dec_digits n @ rest) \<noteq> CHR ''-''" "hd (dec_digits n @ rest) \<noteq> CHR ''+''"
  "\<not> is_space (hd (dec_digits n @ rest))"
proof -
  have "is_digit_in 10 (hd (dec_digits n))" by (intro dec_digits_digits[of _ n] hd_in_set) simp
  from digit_not_blank[OF this] show
    "hd (dec_digits n @ rest) \<noteq> CHR ''-''" "hd (dec_digits n @ rest) \<noteq> CHR ''+''"
    "\<not> is_space (hd (dec_digits n @ rest))"
    by simp_all
qed

lemma strtoll_digits_pos:
  assumes "n \<noteq> 0" "ends_number rest"
  shows "takeWhile (is_digit_in 10) (dec_digits n @ rest) = dec_digits n"
  using strtoll_digits[OF assms(2), of n] assms(1) by simp

text \<open>Reading back what \<open>%lld\<close> prints.\<close>

lemma strtoll_lld_text:
  assumes "LLONG_MIN \<le> i" "i \<le> LLONG_MAX" "ends_number rest"
  shows "strtoll (lld_text i @ rest) = (i, length (lld_text i))"
proof (cases "i < 0")
  case True
  let ?n = "nat (- i)"
  have c: "clamp_llong (- int ?n) = i" using assms(1,2) True by (simp add: clamp_llong_def)
  show ?thesis using True c
    by (simp add: strtoll_def lld_text_def is_space_def uc_def strtoll_base_dec[OF assms(3)]
        strtoll_digits_pos[OF _ assms(3)] digits_value_dec Let_def)
next
  case False
  let ?n = "nat i"
  have c: "clamp_llong (int ?n) = i" using assms(1,2) False by (simp add: clamp_llong_def)
  have t: "takeWhile is_space (dec_digits ?n @ rest) = []"
    using hd_dec_digits(3)[of ?n rest] by (cases "dec_digits ?n @ rest") auto
  show ?thesis
  proof (cases "i = 0")
    case True
    have z: "takeWhile (is_digit_in 8) (''0'' @ rest) = ''0''" "digits_value 8 ''0'' = 0"
      "strtoll_base (''0'' @ rest) = (8, 0)"
      using strtoll_digits[OF assms(3), of 0] digits_value_text[of 0] strtoll_base_dec[OF assms(3), of 0]
      by simp_all
    have s: "takeWhile is_space (''0'' @ rest) = []" using t True by simp
    show ?thesis using c True
      by (simp add: strtoll_def lld_text_def Let_def z[simplified] s[simplified])
  next
    case nz: False
    then have n: "?n \<noteq> 0" using False by simp
    show ?thesis using False nz n c hd_dec_digits(1,2)[of ?n rest] strtoll_digits_pos[OF n assms(3)]
      by (simp add: strtoll_def lld_text_def strtoll_base_dec[OF assms(3)] t digits_value_dec Let_def)
  qed
qed

lemma lld_text_length:
  assumes "LLONG_MIN \<le> i" "i \<le> LLONG_MAX"
  shows "length (lld_text i) \<le> 20"
proof -
  have "length (dec_digits (nat \<bar>i\<bar>)) \<le> 19"
    using assms by (intro dec_digits_length) (auto simp: LLONG_MAX_def LLONG_MIN_def nat_less_iff)
  then show ?thesis by (auto simp: lld_text_def)
qed

end
