(* ===== verification/Fpconv.thy ===== *)
theory Fpconv
  imports Clib
begin

text \<open>
  The conversions between doubles and text: \<open>3rd/lua-cjson/fpconv.c\<close> on top of the C library's
  \<open>strtod\<close> and \<open>printf\<close>, which depend on the locale's decimal point. The file keeps the point
  in the static variable \<open>locale_decimal_point\<close>; here it is an argument \<open>pt\<close>.

  \<^item> \<open>strtod\<close> recognises its subject sequence as the C standard lays down; what double the
    recognised numeral denotes is a parameter \<open>conv\<close> of the model (a function of the numeral).
  \<^item> \<open>printf_g\<close> is \<open>%.<p>g\<close>, computed exactly from the binary representation and rounded half
    to even.
\<close>

section \<open>\<open>strtod\<close>\<close>

definition is_dec :: "char \<Rightarrow> bool" where "is_dec c \<longleftrightarrow> is_digit_in 10 c"
definition is_hex :: "char \<Rightarrow> bool" where "is_hex c \<longleftrightarrow> is_digit_in 16 c"

definition mantissa_len :: "(char \<Rightarrow> bool) \<Rightarrow> char \<Rightarrow> string \<Rightarrow> nat option" where
  "mantissa_len dig pt s =
     (let i = length (takeWhile dig s); r = drop i s
      in if r \<noteq> [] \<and> hd r = pt
         then (let f = length (takeWhile dig (tl r)) in if i = 0 \<and> f = 0 then None else Some (i + 1 + f))
         else if i = 0 then None else Some i)"

definition exponent_len :: "char \<Rightarrow> string \<Rightarrow> nat" where
  "exponent_len e s =
     (if s \<noteq> [] \<and> tolower (hd s) = e
      then (let r = tl s;
                sg = (if r \<noteq> [] \<and> (hd r = CHR ''+'' \<or> hd r = CHR ''-'') then 1 else 0);
                d = length (takeWhile is_dec (drop sg r))
            in if d = 0 then 0 else 1 + sg + d)
      else 0)"

definition nan_len :: "string \<Rightarrow> nat" where
  \<comment> \<open>\<open>nan\<close>, with an optional parenthesised sequence of alphanumeric characters\<close>
  "nan_len s =
     (let r = drop 3 s;
          n = length (takeWhile (\<lambda>c. digit_value c \<noteq> None \<or> c = CHR ''_'') (tl r))
      in if r \<noteq> [] \<and> hd r = CHR ''('' \<and> drop n (tl r) \<noteq> [] \<and> hd (drop n (tl r)) = CHR '')''
         then 3 + 1 + n + 1 else 3)"

definition numeral_len :: "char \<Rightarrow> string \<Rightarrow> nat option" where
  "numeral_len pt s =
     (case (if strncasecmp_eq s ''0x'' then mantissa_len is_hex pt (drop 2 s) else None) of
        Some m \<Rightarrow> Some (2 + m + exponent_len (CHR ''p'') (drop (2 + m) s))
      | None \<Rightarrow>
         (case mantissa_len is_dec pt s of
            Some m \<Rightarrow> Some (m + exponent_len (CHR ''e'') (drop m s))
          | None \<Rightarrow>
              if strncasecmp_eq s ''infinity'' then Some 8
              else if strncasecmp_eq s ''inf'' then Some 3
              else if strncasecmp_eq s ''nan'' then Some (nan_len s) else None))"

definition sign_len :: "string \<Rightarrow> nat" where
  "sign_len s = (if s \<noteq> [] \<and> (hd s = CHR ''-'' \<or> hd s = CHR ''+'') then 1 else 0)"

definition strtod :: "(string \<Rightarrow> double) \<Rightarrow> char \<Rightarrow> string \<Rightarrow> double \<times> nat" where
  \<comment> \<open>the value and the number of characters consumed, 0 when there is no number\<close>
  "strtod conv pt s =
     (let blanks = length (takeWhile is_space s);
          s1 = drop blanks s;
          sg = sign_len s1
      in case numeral_len pt (drop sg s1) of
           None \<Rightarrow> (0, 0)
         | Some n \<Rightarrow>
             (conv (map (\<lambda>c. if c = pt then CHR ''.'' else c) (take (sg + n) s1)), blanks + sg + n))"

section \<open>\<open>printf\<close> with \<open>%g\<close>\<close>

text \<open>The text of a sign, significant digits and decimal exponent (\<open>0.d1d2... * 10 ^ decpt\<close>).\<close>

definition exp_digits :: "nat \<Rightarrow> string" where
  "exp_digits n = (if n < 10 then CHR ''0'' # dec_digits n else dec_digits n)"

definition g_text :: "bool \<Rightarrow> string \<Rightarrow> int \<Rightarrow> nat \<Rightarrow> string" where
  "g_text sign ds decpt p =
     (if sign then ''-'' else []) @
     (if decpt - 1 < - 4 \<or> int p \<le> decpt - 1
      then hd ds # (if tl ds = [] then [] else CHR ''.'' # tl ds) @
           (if decpt - 1 < 0 then ''e-'' else ''e+'') @ exp_digits (nat \<bar>decpt - 1\<bar>)
      else if decpt \<le> 0 then ''0.'' @ replicate (nat (- decpt)) (CHR ''0'') @ ds
      else if int (length ds) \<le> decpt then ds @ replicate (nat decpt - length ds) (CHR ''0'')
      else take (nat decpt) ds @ ''.'' @ drop (nat decpt) ds)"

text \<open>A finite double is the fraction \<open>dbl_num d / dbl_den d\<close>.\<close>

definition dbl_num :: "double \<Rightarrow> nat" where
  "dbl_num d = dbl_mant d * 2 ^ (max 1 (dbl_exp d) - 1075)"

definition dbl_den :: "double \<Rightarrow> nat" where
  "dbl_den d = 2 ^ (1075 - max 1 (dbl_exp d))"

function neg_exp :: "nat \<Rightarrow> nat \<Rightarrow> nat" where
  \<comment> \<open>how often a fraction has to be multiplied by 10 to reach 1\<close>
  "neg_exp num den = (if num = 0 \<or> den \<le> num then 0 else Suc (neg_exp (10 * num) den))"
  by auto
termination by (relation "measure (\<lambda>(num, den). den - num)") auto

declare neg_exp.simps [simp del]

definition dec_exp :: "nat \<Rightarrow> nat \<Rightarrow> int" where
  \<comment> \<open>the exponent of the first significant digit\<close>
  "dec_exp num den =
     (if den \<le> num then int (length (dec_digits (num div den))) - 1 else - int (neg_exp num den))"

definition round_div :: "nat \<Rightarrow> nat \<Rightarrow> nat" where
  \<comment> \<open>to nearest, ties to even\<close>
  "round_div a b =
     (let q = a div b; r = a mod b
      in if 2 * r < b \<or> (2 * r = b \<and> even q) then q else q + 1)"

definition sig_digits :: "nat \<Rightarrow> nat \<Rightarrow> nat \<Rightarrow> nat \<times> int" where
  \<comment> \<open>the first \<open>p\<close> digits as a number, and the exponent of the first\<close>
  "sig_digits p num den =
     (let x = dec_exp num den;
          s = int p - 1 - x;
          q = (if 0 \<le> s then round_div (num * 10 ^ nat s) den else round_div num (den * 10 ^ nat (- s)))
      in if q = 10 ^ p then (10 ^ (p - 1), x + 1) else (q, x))"

definition strip_zeros :: "string \<Rightarrow> string" where
  "strip_zeros ds = rev (dropWhile (\<lambda>c. c = CHR ''0'') (rev ds))"

definition printf_g :: "nat \<Rightarrow> double \<Rightarrow> string" where
  "printf_g p d =
     (if isnan d then (if dbl_sign d then ''-nan'' else ''nan'')
      else if isinf d then (if dbl_sign d then ''-inf'' else ''inf'')
      else if dbl_num d = 0 then (if dbl_sign d then ''-0'' else ''0'')
      else (let (q, x) = sig_digits p (dbl_num d) (dbl_den d)
            in g_text (dbl_sign d) (strip_zeros (dec_digits q)) (x + 1) p))"

definition localise :: "char \<Rightarrow> string \<Rightarrow> string" where
  "localise pt s = map (\<lambda>c. if c = CHR ''.'' then pt else c) s"

text \<open>The conversion specifications the file builds: \<open>%.<digits>g\<close>.\<close>

definition printf_double :: "string \<Rightarrow> double \<Rightarrow> string option" where
  "printf_double fmt d =
     (let ds = takeWhile is_dec (drop 2 fmt)
      in if take 2 fmt = ''%.'' \<and> drop (2 + length ds) fmt = ''g''
         then Some (printf_g (max 1 (digits_value 10 ds)) d) else None)"

section \<open>fpconv.c\<close>

definition FPCONV_G_FMT_BUFSIZE :: int where "FPCONV_G_FMT_BUFSIZE = 32"

definition read_cell :: "block \<Rightarrow> nat \<Rightarrow> char res" where
  "read_cell m i =
     (if i < length m then (case m ! i of None \<Rightarrow> Inl (UB Uninit_read) | Some c \<Rightarrow> Inr c)
      else Inl (UB Oob_read))"

definition fpconv_update_locale :: "string \<Rightarrow> char res" where
  \<comment> \<open>the new \<open>locale_decimal_point\<close>, given what \<open>printf("%g", 0.5)\<close> prints\<close>
  "fpconv_update_locale half =
     (let bad = Die ''Error: wide characters found or printf() bug.'';
          t = map Some (take 7 half) @ [Some NUL];
          buf = t @ replicate (8 - length t) None
      in andthen (read_cell buf 0) (\<lambda>b0. if b0 \<noteq> CHR ''0'' then Inl bad
         else andthen (read_cell buf 2) (\<lambda>b2. if b2 \<noteq> CHR ''5'' then Inl bad
         else andthen (read_cell buf 3) (\<lambda>b3. if b3 \<noteq> NUL then Inl bad
         else read_cell buf 1))))"

definition fpconv_init :: "string \<Rightarrow> char res" where
  "fpconv_init half = fpconv_update_locale half"

definition valid_number_character :: "char \<Rightarrow> bool" where
  "valid_number_character ch =
     (if 48 \<le> sc ch \<and> sc ch \<le> 57 then True
      else if ch = CHR ''-'' \<or> ch = CHR ''+'' \<or> ch = CHR ''.'' then True
      else (let lower_ch = char_of_int (sc ch OR 0x20) in 97 \<le> sc lower_ch \<and> sc lower_ch \<le> 121))"

fun strtod_buffer_size :: "string \<Rightarrow> int" where
  \<comment> \<open>the scan stops at the latest at the terminating NUL\<close>
  "strtod_buffer_size [] = 0"
| "strtod_buffer_size (c # s) = (if valid_number_character c then 1 + strtod_buffer_size s else 0)"

fun replace_first :: "char \<Rightarrow> char \<Rightarrow> string \<Rightarrow> string" where
  \<comment> \<open>\<open>dp = strchr(buf, a); if (dp) *dp = b\<close>\<close>
  "replace_first a b [] = []"
| "replace_first a b (c # s) = (if c = a then b # s else c # replace_first a b s)"

definition fpconv_strtod :: "alloc \<Rightarrow> (string \<Rightarrow> double) \<Rightarrow> char \<Rightarrow> string \<Rightarrow> (double \<times> nat) res" where
  \<comment> \<open>the value and how far \<open>*endptr\<close> is from \<open>nptr\<close>\<close>
  "fpconv_strtod A conv pt nptr =
     (if pt = CHR ''.'' then Inr (strtod conv pt nptr)
      else (let buflen = to_int (strtod_buffer_size nptr) in
        if buflen = 0 then Inr (0, 0)
        else andthen
          (if FPCONV_G_FMT_BUFSIZE \<le> buflen
           then andthen (c_int (buflen + 1)) (\<lambda>n.
                case malloc A n of None \<Rightarrow> Inl (Die ''Out of memory'') | Some m \<Rightarrow> Inr (Some m))
           else Inr (Some (replicate (nat FPCONV_G_FMT_BUFSIZE) None))) (\<lambda>buf.
        andthen (if buflen < 0 then Inl (UB Oob_write) else poke_mem buf 0 (take (nat buflen) nptr)) (\<lambda>buf.
        andthen (poke_mem buf buflen [NUL]) (\<lambda>buf.
        andthen (peek_mem buf buflen) (\<lambda>num.
        Inr (strtod conv pt (replace_first (CHR ''.'') pt num))))))))"

definition set_number_format :: "int \<Rightarrow> string res" where
  \<comment> \<open>the format without its terminator: at most five characters, for an array of six\<close>
  "set_number_format precision =
     andthen (guard_r (1 \<le> precision \<and> precision \<le> 14) (Die ''assert'')) (\<lambda>_.
      let d1 = sgn precision * (\<bar>precision\<bar> div 10);
          d2 = sgn precision * (\<bar>precision\<bar> mod 10)
      in Inr (''%.'' @ (if d1 \<noteq> 0 then [char_of_int (48 + d1)] else []) @ [char_of_int (48 + d2)] @ ''g''))"

definition fpconv_g_fmt :: "char \<Rightarrow> double \<Rightarrow> int \<Rightarrow> (string \<times> int) res" where
  \<comment> \<open>the text stored at \<open>str\<close> (a NUL follows it) and the length returned\<close>
  "fpconv_g_fmt pt num precision =
     andthen (set_number_format precision) (\<lambda>fmt.
      case printf_double fmt num of
        None \<Rightarrow> Inl (UB Bad_format)
      | Some t \<Rightarrow>
          (let len = int (length t);
               buf = take (nat FPCONV_G_FMT_BUFSIZE - 1) (localise pt t)
           in if pt = CHR ''.'' then Inr (buf, len)
              else Inr (map (\<lambda>c. if c = pt then CHR ''.'' else c) buf, len)))"

section \<open>The digits \<open>%g\<close> computes\<close>

lemma dec_digits_lower: "10 ^ k \<le> n \<Longrightarrow> k < length (dec_digits n)"
proof (induction k arbitrary: n)
  case (Suc k)
  have "(1::nat) \<le> 10 ^ k" by simp
  moreover have "10 * 10 ^ k \<le> n" using Suc.prems by simp
  ultimately have "\<not> n < 10" "10 ^ k \<le> n div 10"
    by (linarith, simp add: less_eq_div_iff_mult_less_eq mult.commute)
  then show ?case using Suc.IH[of "n div 10"] by (simp add: dec_digits.simps[of n])
qed simp

lemma dec_digits_bounds:
  assumes "0 < n"
  shows "10 ^ (length (dec_digits n) - 1) \<le> n" "n < 10 ^ length (dec_digits n)"
proof -
  show "10 ^ (length (dec_digits n) - 1) \<le> n"
  proof (rule ccontr)
    assume "\<not> ?thesis"
    then have l: "n < 10 ^ (length (dec_digits n) - 1)" by simp
    then have "0 < length (dec_digits n) - 1" using assms by (cases "length (dec_digits n) - 1") auto
    with dec_digits_length[OF l] show False by simp
  qed
  show "n < 10 ^ length (dec_digits n)"
    using dec_digits_lower[of "length (dec_digits n)" n] by (meson less_irrefl not_le)
qed

lemma neg_exp_bounds:
  "0 < num \<Longrightarrow> num < den \<Longrightarrow>
     den \<le> num * 10 ^ neg_exp num den \<and> num * 10 ^ neg_exp num den < 10 * den \<and> 0 < neg_exp num den"
proof (induction num den rule: neg_exp.induct)
  case (1 num den)
  show ?case
  proof (cases "den \<le> 10 * num")
    case True
    then have "neg_exp num den = 1" using 1(2,3) by (simp add: neg_exp.simps[of num] neg_exp.simps[of "10 * num"])
    then show ?thesis using True 1(3) by simp
  next
    case False
    then have "neg_exp num den = Suc (neg_exp (10 * num) den)" using 1(2,3) by (simp add: neg_exp.simps[of num])
    then show ?thesis using 1(1)[OF _ _ ] 1(2,3) False by (simp add: mult.assoc mult.left_commute)
  qed
qed

lemma round_div_ge: "0 < b \<Longrightarrow> q * b \<le> a \<Longrightarrow> q \<le> round_div a b"
proof -
  assume "0 < b" "q * b \<le> a"
  then have "q \<le> a div b" by (simp add: less_eq_div_iff_mult_less_eq)
  then show ?thesis by (simp add: round_div_def Let_def)
qed

lemma round_div_le: "0 < b \<Longrightarrow> a < q * b \<Longrightarrow> round_div a b \<le> q"
proof -
  assume "0 < b" "a < q * b"
  then have "a div b < q" by (simp add: div_less_iff_less_mult)
  then show ?thesis by (simp add: round_div_def Let_def)
qed

text \<open>The exponent the digits are scaled with.\<close>

lemma dec_exp_bounds:
  assumes "0 < num" "0 < den"
  shows "(0 \<le> dec_exp num den \<and> 10 ^ nat (dec_exp num den) * den \<le> num
            \<and> num < 10 ^ nat (dec_exp num den + 1) * den)
       \<or> (dec_exp num den < 0 \<and> den \<le> num * 10 ^ nat (- dec_exp num den)
            \<and> num * 10 ^ nat (- dec_exp num den) < 10 * den)"
proof (cases "den \<le> num")
  case True
  let ?n = "num div den"
  have n: "0 < ?n" using True assms by (simp add: div_greater_zero_iff)
  have l: "0 < length (dec_digits ?n)" by simp
  note b = dec_digits_bounds[OF n]
  have "10 ^ (length (dec_digits ?n) - 1) * den \<le> num"
    using b(1) assms by (simp add: less_eq_div_iff_mult_less_eq)
  moreover have "num < 10 ^ length (dec_digits ?n) * den"
    using b(2) assms by (simp add: div_less_iff_less_mult)
  ultimately show ?thesis using True l by (simp add: dec_exp_def nat_diff_distrib' of_nat_diff)
next
  case False
  then show ?thesis using neg_exp_bounds[of num den] assms by (simp add: dec_exp_def)
qed

lemma scaled_bounds:
  assumes "0 < num" "0 < den" "0 < p"
  defines "s \<equiv> int p - 1 - dec_exp num den"
  defines "q \<equiv> (if 0 \<le> s then round_div (num * 10 ^ nat s) den else round_div num (den * 10 ^ nat (- s)))"
  shows "10 ^ (p - 1) \<le> q \<and> q \<le> 10 ^ p"
proof -
  let ?x = "dec_exp num den"
  show ?thesis
  proof (cases "0 \<le> ?x")
    case True
    then have b: "10 ^ nat ?x * den \<le> num" "num < 10 ^ nat (?x + 1) * den"
      using dec_exp_bounds[OF assms(1,2)] by auto
    show ?thesis
    proof (cases "0 \<le> s")
      case s: True
      have e: "p - 1 = nat ?x + nat s" "p = nat (?x + 1) + nat s" using True s assms(3) by (auto simp: s_def)
      have "10 ^ (p - 1) * den \<le> num * 10 ^ nat s" "num * 10 ^ nat s < 10 ^ p * den"
        using b unfolding e(1) by (simp_all add: power_add e(2) mult.commute mult.left_commute)
      then show ?thesis using assms(2) s by (simp add: q_def round_div_ge round_div_le)
    next
      case s: False
      have e: "nat ?x = p - 1 + nat (- s)" "nat (?x + 1) = p + nat (- s)" using True s assms(3) by (auto simp: s_def)
      have "10 ^ (p - 1) * (den * 10 ^ nat (- s)) \<le> num" "num < 10 ^ p * (den * 10 ^ nat (- s))"
        using b unfolding e by (simp_all add: power_add mult.commute mult.left_commute)
      then show ?thesis using assms(2) s by (simp add: q_def round_div_ge round_div_le)
    qed
  next
    case False
    then have b: "den \<le> num * 10 ^ nat (- ?x)" "num * 10 ^ nat (- ?x) < 10 * den"
      using dec_exp_bounds[OF assms(1,2)] by auto
    have s: "0 \<le> s" "nat s = (p - 1) + nat (- ?x)" using False assms(3) by (auto simp: s_def)
    have p: "p = Suc (p - 1)" using assms(3) by simp
    have "10 ^ (p - 1) * den \<le> 10 ^ (p - 1) * (num * 10 ^ nat (- ?x))"
      "10 ^ (p - 1) * (num * 10 ^ nat (- ?x)) < 10 ^ (p - 1) * (10 * den)" using b by simp_all
    moreover have "10 ^ (p - 1) * (10 * den) = 10 ^ p * den" by (subst (2) p) simp
    moreover have "10 ^ (p - 1) * (num * 10 ^ nat (- ?x)) = num * 10 ^ nat s"
      by (simp add: s power_add mult.commute mult.left_commute)
    ultimately have "10 ^ (p - 1) * den \<le> num * 10 ^ nat s" "num * 10 ^ nat s < 10 ^ p * den"
      by (simp_all only:)
    then show ?thesis using assms(2) s by (simp add: q_def round_div_ge round_div_le)
  qed
qed

lemma sig_digits_bounds:
  assumes "0 < num" "0 < den" "0 < p" "sig_digits p num den = (q, x)"
  shows "10 ^ (p - 1) \<le> q" "q < 10 ^ p" "x = dec_exp num den \<or> x = dec_exp num den + 1"
proof -
  have p: "(10::nat) ^ (p - 1) < 10 ^ p" using assms(3) by simp
  have "10 ^ (p - 1) \<le> q \<and> q < 10 ^ p \<and> (x = dec_exp num den \<or> x = dec_exp num den + 1)"
    using scaled_bounds[OF assms(1-3)] assms(4) p
    by (auto simp: sig_digits_def Let_def split: if_splits)
  then show "10 ^ (p - 1) \<le> q" "q < 10 ^ p" "x = dec_exp num den \<or> x = dec_exp num den + 1" by auto
qed

subsection \<open>The texts \<open>%g\<close> prints\<close>

definition numeral_text :: "bool \<Rightarrow> string \<Rightarrow> string \<Rightarrow> string \<Rightarrow> string" where
  \<comment> \<open>sign, integer part, fraction, exponent\<close>
  "numeral_text sg ip fp ep =
     (if sg then ''-'' else []) @ ip @ (if fp = [] then [] else CHR ''.'' # fp)
       @ (if ep = [] then [] else CHR ''e'' # ep)"

definition wf_numeral :: "string \<Rightarrow> string \<Rightarrow> string \<Rightarrow> bool" where
  \<comment> \<open>the grammar of JSON numbers\<close>
  "wf_numeral ip fp ep \<longleftrightarrow>
     ip \<noteq> [] \<and> list_all is_dec ip \<and> (hd ip = CHR ''0'' \<longrightarrow> ip = ''0'')
     \<and> list_all is_dec fp
     \<and> (ep = [] \<or> (hd ep = CHR ''-'' \<or> hd ep = CHR ''+'') \<and> tl ep \<noteq> [] \<and> list_all is_dec (tl ep))"

lemma strip_zeros_prefix:
  obtains n where "ds = strip_zeros ds @ replicate n (CHR ''0'')"
proof -
  let ?z = "\<lambda>c. c = CHR ''0''"
  have "ds = rev (takeWhile ?z (rev ds) @ dropWhile ?z (rev ds))"
    by (simp only: takeWhile_dropWhile_id rev_rev_ident)
  then have "ds = strip_zeros ds @ rev (takeWhile ?z (rev ds))"
    by (simp only: strip_zeros_def rev_append)
  moreover have "rev (takeWhile ?z (rev ds)) = replicate (length (takeWhile ?z (rev ds))) (CHR ''0'')"
    by (intro replicate_eqI) (auto dest: set_takeWhileD)
  ultimately show ?thesis using that by metis
qed

lemma strip_zeros_digits:
  assumes "ds \<noteq> []" "hd ds \<noteq> CHR ''0''" "list_all is_dec ds"
  shows "strip_zeros ds \<noteq> []" "hd (strip_zeros ds) \<noteq> CHR ''0''" "list_all is_dec (strip_zeros ds)"
    "length (strip_zeros ds) \<le> length ds"
proof -
  obtain n where n: "ds = strip_zeros ds @ replicate n (CHR ''0'')" by (rule strip_zeros_prefix)
  show ne: "strip_zeros ds \<noteq> []"
  proof
    assume "strip_zeros ds = []"
    then have "ds = replicate n (CHR ''0'')" using n by simp
    with assms(1,2) show False by (cases n) auto
  qed
  show "hd (strip_zeros ds) \<noteq> CHR ''0''" using assms(2) ne by (subst (asm) n) simp
  show "list_all is_dec (strip_zeros ds)" using assms(3) by (subst (asm) n) simp
  show "length (strip_zeros ds) \<le> length ds" by (subst (2) n) simp
qed

lemma dec_digits_dec [simp]: "list_all is_dec (dec_digits n)"
  using dec_digits_digits[of _ n] by (simp add: list_all_iff is_dec_def)

lemma is_dec_0 [simp]: "is_dec (CHR ''0'')"
  by code_simp

lemma exp_digits_facts:
  "exp_digits n \<noteq> []" "list_all is_dec (exp_digits n)" "n < 1000 \<Longrightarrow> length (exp_digits n) \<le> 3"
  using dec_digits_length[of n 3] dec_digits_length[of n 1] by (auto simp: exp_digits_def)

lemma g_text_numeral:
  assumes ds: "ds \<noteq> []" "hd ds \<noteq> CHR ''0''" "list_all is_dec ds" "length ds \<le> p"
    and p: "p \<le> 14" and x: "\<bar>decpt - 1\<bar> < 1000"
  shows "\<exists>ip fp ep. g_text sg ds decpt p = numeral_text sg ip fp ep \<and> wf_numeral ip fp ep
           \<and> length (numeral_text sg ip fp ep) \<le> 21 \<and> (fp = [] \<and> ep = [] \<longrightarrow> length ip \<le> p)"
proof (cases "decpt - 1 < - 4 \<or> int p \<le> decpt - 1")
  case True
  let ?ep = "(if decpt - 1 < 0 then CHR ''-'' else CHR ''+'') # exp_digits (nat \<bar>decpt - 1\<bar>)"
  have e: "length (exp_digits (nat \<bar>decpt - 1\<bar>)) \<le> 3" using x by (intro exp_digits_facts) auto
  have "g_text sg ds decpt p = numeral_text sg [hd ds] (tl ds) ?ep"
    using True by (simp add: g_text_def numeral_text_def)
  moreover have "wf_numeral [hd ds] (tl ds) ?ep"
    using ds exp_digits_facts by (cases ds) (auto simp: wf_numeral_def)
  moreover have "length (numeral_text sg [hd ds] (tl ds) ?ep) \<le> 21"
    using ds(4) p e by (auto simp: numeral_text_def)
  ultimately show ?thesis by fastforce
next
  case f1: False
  show ?thesis
  proof (cases "decpt \<le> 0")
    case True
    let ?fp = "replicate (nat (- decpt)) (CHR ''0'') @ ds"
    have "g_text sg ds decpt p = numeral_text sg ''0'' ?fp []"
      using f1 True ds(1) by (simp add: g_text_def numeral_text_def)
    moreover have "wf_numeral ''0'' ?fp []" using ds by (auto simp: wf_numeral_def list_all_iff)
    moreover have "length (numeral_text sg ''0'' ?fp []) \<le> 21"
      using ds(4) p f1 True by (auto simp: numeral_text_def)
    ultimately show ?thesis using ds(1) by blast
  next
    case f2: False
    show ?thesis
    proof (cases "int (length ds) \<le> decpt")
      case True
      let ?ip = "ds @ replicate (nat decpt - length ds) (CHR ''0'')"
      have "g_text sg ds decpt p = numeral_text sg ?ip [] []"
        using f1 f2 True by (simp add: g_text_def numeral_text_def)
      moreover have "wf_numeral ?ip [] []" using ds by (auto simp: wf_numeral_def list_all_iff)
      moreover have l: "length ?ip \<le> p" using f1 f2 True by auto
      moreover have "length (numeral_text sg ?ip [] []) \<le> 21" using l p by (auto simp: numeral_text_def)
      ultimately show ?thesis by blast
    next
      case False
      let ?ip = "take (nat decpt) ds" and ?fp = "drop (nat decpt) ds"
      have ne: "?ip \<noteq> []" "?fp \<noteq> []" using f2 False ds(1) by auto
      have "g_text sg ds decpt p = numeral_text sg ?ip ?fp []"
        using f1 f2 False ne by (simp add: g_text_def numeral_text_def)
      moreover have "wf_numeral ?ip ?fp []" using ds ne f2
        by (auto simp: wf_numeral_def list_all_iff dest: in_set_takeD in_set_dropD)
      moreover have "length (numeral_text sg ?ip ?fp []) \<le> 21" using ds(4) p ne by (auto simp: numeral_text_def)
      ultimately show ?thesis using ne by blast
    qed
  qed
qed

lemma dbl_mant_less: "dbl_mant d < 2 ^ 53"
proof -
  have "dbl_frac d < 2 ^ 52"
    unfolding dbl_frac_def unsigned_take_bit_eq by (rule take_bit_nat_less_exp)
  then show ?thesis by (simp add: dbl_mant_def)
qed

lemma dbl_exp_less: "dbl_exp d < 2048"
  using take_bit_nat_less_exp[of 11 "unat (drop_bit 52 d)"] by (simp add: dbl_exp_def unsigned_take_bit_eq)

lemma dec_exp_double:
  assumes "0 < dbl_num d" "dbl_exp d < 2047"
  shows "- 325 < dec_exp (dbl_num d) (dbl_den d) \<and> dec_exp (dbl_num d) (dbl_den d) < 309"
proof -
  let ?x = "dec_exp (dbl_num d) (dbl_den d)"
  have den: "0 < dbl_den d" "dbl_den d \<le> 2 ^ 1074"
    unfolding dbl_den_def by (simp, intro power_increasing) auto
  have "dbl_num d < 2 ^ 53 * 2 ^ (max 1 (dbl_exp d) - 1075)"
    using dbl_mant_less[of d] by (simp add: dbl_num_def)
  also have "\<dots> \<le> 2 ^ 53 * 2 ^ 971" using assms(2) by (intro mult_le_mono power_increasing) auto
  finally have num: "dbl_num d < 10 ^ 309" by simp
  from dec_exp_bounds[OF assms(1) den(1)] show ?thesis
  proof
    assume a: "0 \<le> ?x \<and> 10 ^ nat ?x * dbl_den d \<le> dbl_num d \<and> dbl_num d < 10 ^ nat (?x + 1) * dbl_den d"
    have "10 ^ nat ?x * 1 \<le> 10 ^ nat ?x * dbl_den d" using den(1) by (intro mult_le_mono) auto
    then have "(10::nat) ^ nat ?x < 10 ^ 309" using a num by linarith
    then have "nat ?x < 309" by (rule power_less_imp_less_exp[rotated]) simp
    then show ?thesis using a by auto
  next
    assume a: "?x < 0 \<and> dbl_den d \<le> dbl_num d * 10 ^ nat (- ?x) \<and> dbl_num d * 10 ^ nat (- ?x) < 10 * dbl_den d"
    have "1 * 10 ^ nat (- ?x) \<le> dbl_num d * 10 ^ nat (- ?x)" using assms(1) by (intro mult_le_mono) auto
    then have "(10::nat) ^ nat (- ?x) < 10 * 2 ^ 1074" using a den(2) by linarith
    also have "\<dots> \<le> 10 ^ 325" by simp
    finally have "nat (- ?x) < 325" by (rule power_less_imp_less_exp[rotated]) simp
    then show ?thesis using a by auto
  qed
qed

lemma sig_digits_double:
  assumes "\<not> isnan d" "\<not> isinf d" "1 \<le> p" "dbl_num d \<noteq> 0"
    and qx: "sig_digits p (dbl_num d) (dbl_den d) = (q, x)"
  shows "strip_zeros (dec_digits q) \<noteq> [] \<and> hd (strip_zeros (dec_digits q)) \<noteq> CHR ''0''
    \<and> list_all is_dec (strip_zeros (dec_digits q)) \<and> length (strip_zeros (dec_digits q)) \<le> p
    \<and> \<bar>(x + 1) - 1\<bar> < 1000"
proof -
  have False: "dbl_num d \<noteq> 0" by fact
  have den: "0 < dbl_den d" by (simp add: dbl_den_def)
  note b = sig_digits_bounds[OF _ den _ qx]
  have "0 < (10::nat) ^ (p - 1)" by simp
  also have "\<dots> \<le> q" using b(1) False assms(3) by simp
  finally have q0: "0 < q" .
  have q: "0 < q" "q < 10 ^ p" using q0 b(2) False assms(3) by simp_all
  have e: "dbl_exp d < 2047" using assms(1,2) dbl_exp_less[of d]
    by (cases "dbl_exp d = 2047") (auto simp: isnan_def isinf_def)
  let ?ds = "strip_zeros (dec_digits q)"
  have h: "hd (dec_digits q) \<noteq> CHR ''0''" using dec_digits_hd0[of q] q by auto
  note ds = strip_zeros_digits[OF dec_digits_nonempty h dec_digits_dec]
  have l: "length ?ds \<le> p" using ds(4) dec_digits_length[OF q(2)] assms(3) by simp
  have x: "\<bar>(x + 1) - 1\<bar> < 1000" using b(3) dec_exp_double[of d] e False assms(3) by auto
  show ?thesis using ds l x by blast
qed

lemma printf_g_numeral:
  assumes "\<not> isnan d" "\<not> isinf d" "1 \<le> p" "p \<le> 14"
  shows "\<exists>ip fp ep. printf_g p d = numeral_text (dbl_sign d) ip fp ep \<and> wf_numeral ip fp ep
           \<and> length (printf_g p d) \<le> 21 \<and> (fp = [] \<and> ep = [] \<longrightarrow> length ip \<le> p)"
proof (cases "dbl_num d = 0")
  case True
  then have "printf_g p d = numeral_text (dbl_sign d) ''0'' [] []"
    using assms by (simp add: printf_g_def numeral_text_def)
  moreover have "wf_numeral ''0'' [] []" by (simp add: wf_numeral_def)
  ultimately show ?thesis using assms
    by (intro exI[of _ "''0''"] exI[of _ "[]"]) (auto simp: numeral_text_def)
next
  case False
  obtain q x where qx: "sig_digits p (dbl_num d) (dbl_den d) = (q, x)" by fastforce
  let ?ds = "strip_zeros (dec_digits q)"
  from sig_digits_double[OF assms(1-3) False qx] have ds: "?ds \<noteq> []" "hd ?ds \<noteq> CHR ''0''" "list_all is_dec ?ds"
    and l: "length ?ds \<le> p" and x: "\<bar>(x + 1) - 1\<bar> < 1000" by blast+
  have t: "printf_g p d = g_text (dbl_sign d) ?ds (x + 1) p"
    using False assms qx by (simp add: printf_g_def)
  show ?thesis unfolding t using g_text_numeral[OF ds l assms(4) x, of "dbl_sign d"]
    by (metis)
qed

section \<open>Reading back a numeral\<close>

lemma number_chars: "\<forall>c. is_hex c \<or> tolower c = CHR ''e'' \<or> tolower c = CHR ''p'' \<longrightarrow> valid_number_character c"
  by code_simp

lemma dec_hex: "is_dec c \<Longrightarrow> is_hex c"
  by (auto simp: is_dec_def is_hex_def is_digit_in_def split: option.splits)

lemma dec_valid: "is_dec c \<Longrightarrow> valid_number_character c"
  using number_chars dec_hex by blast

definition stops :: "(char \<Rightarrow> bool) \<Rightarrow> string \<Rightarrow> bool" where
  "stops P s \<longleftrightarrow> s = [] \<or> \<not> P (hd s)"

lemma takeWhile_stops:
  assumes "list_all P xs" "stops P ys"
  shows "takeWhile P (xs @ ys) = xs"
  using assms by (intro takeWhile_stop) (auto simp: stops_def list_all_iff)

lemma stops_mono: "stops P s \<Longrightarrow> (\<And>c. Q c \<Longrightarrow> P c) \<Longrightarrow> stops Q s"
  by (auto simp: stops_def)

lemma valid_syms [simp]:
  "valid_number_character (CHR ''.'')" "valid_number_character (CHR ''e'')"
  "valid_number_character (CHR ''-'')" "valid_number_character (CHR ''+'')"
  "valid_number_character (CHR ''x'')" "valid_number_character (CHR ''X'')"
  "\<not> is_dec (CHR ''.'')" "\<not> is_dec (CHR ''e'')" "\<not> is_dec (CHR ''-'')" "\<not> is_dec (CHR ''+'')"
  by code_simp+

lemma exponent_len_text:
  assumes "ep = [] \<or> (hd ep = CHR ''-'' \<or> hd ep = CHR ''+'') \<and> tl ep \<noteq> [] \<and> list_all is_dec (tl ep)"
    and "stops valid_number_character rest"
  shows "exponent_len (CHR ''e'') ((if ep = [] then [] else CHR ''e'' # ep) @ rest)
           = length (if ep = [] then [] else CHR ''e'' # ep)"
proof (cases "ep = []")
  case True
  have "tolower (hd rest) \<noteq> CHR ''e''" if "rest \<noteq> []"
    using assms(2) number_chars that unfolding stops_def by blast
  then show ?thesis using True by (auto simp: exponent_len_def)
next
  case False
  then obtain c ds where ep: "ep = c # ds" "c = CHR ''-'' \<or> c = CHR ''+''" "ds \<noteq> []" "list_all is_dec ds"
    using assms(1) by (cases ep) auto
  have t: "takeWhile is_dec (ds @ rest) = ds"
    by (rule takeWhile_stops[OF ep(4) stops_mono[OF assms(2) dec_valid]])
  have l: "tolower (CHR ''e'') = CHR ''e''" by code_simp
  show ?thesis using ep t l by (auto simp: exponent_len_def)
qed

lemma mantissa_len_text:
  assumes "ip \<noteq> []" "list_all is_dec ip" "list_all is_dec fp" "stops is_dec tail" "stops (\<lambda>c. c = CHR ''.'') tail"
  shows "mantissa_len is_dec (CHR ''.'') (ip @ (if fp = [] then [] else CHR ''.'' # fp) @ tail)
           = Some (length ip + length (if fp = [] then [] else CHR ''.'' # fp))"
proof -
  let ?r = "(if fp = [] then [] else CHR ''.'' # fp) @ tail"
  have s: "stops is_dec ?r" using assms(4) by (auto simp: stops_def)
  have i: "takeWhile is_dec (ip @ ?r) = ip" by (rule takeWhile_stops[OF assms(2) s])
  have f: "takeWhile is_dec (fp @ tail) = fp" by (rule takeWhile_stops[OF assms(3,4)])
  show ?thesis using assms(1,5) f unfolding mantissa_len_def Let_def i
    by (auto simp: stops_def)
qed

lemma starts_0x:
  assumes "strncasecmp_eq s ''0x''"
  obtains a b r where "s = a # b # r" "tolower a = CHR ''0''" "tolower b = CHR ''x''"
proof -
  have "map tolower ''0x'' = ''0x''" by code_simp
  then have m: "map tolower (take 2 s) = ''0x''" using assms by (simp add: strncasecmp_eq_def numeral_2_eq_2)
  then obtain a t where a: "s = a # t" "tolower a = CHR ''0''" by (cases s) auto
  with m obtain b r where "t = b # r" "tolower b = CHR ''x''" by (cases t) auto
  with a that show ?thesis by blast
qed

lemma numeral_len_text:
  assumes "wf_numeral ip fp ep" "stops valid_number_character rest"
  shows "numeral_len (CHR ''.'') (numeral_text False ip fp ep @ rest)
           = Some (length (numeral_text False ip fp ep))"
proof -
  let ?fp = "if fp = [] then [] else CHR ''.'' # fp" and ?ep = "if ep = [] then [] else CHR ''e'' # ep"
  have w: "ip \<noteq> []" "list_all is_dec ip" "list_all is_dec fp" "hd ip = CHR ''0'' \<longrightarrow> ip = ''0''"
    "ep = [] \<or> (hd ep = CHR ''-'' \<or> hd ep = CHR ''+'') \<and> tl ep \<noteq> [] \<and> list_all is_dec (tl ep)"
    using assms(1) by (auto simp: wf_numeral_def)
  have st: "stops is_dec (?ep @ rest)" "stops (\<lambda>c. c = CHR ''.'') (?ep @ rest)"
    using assms(2) dec_valid by (auto simp: stops_def)
  have m: "mantissa_len is_dec (CHR ''.'') (ip @ ?fp @ ?ep @ rest) = Some (length ip + length ?fp)"
    by (rule mantissa_len_text[OF w(1-3) st])
  have x: "\<not> strncasecmp_eq (ip @ ?fp @ ?ep @ rest) ''0x''"
  proof
    assume "strncasecmp_eq (ip @ ?fp @ ?ep @ rest) ''0x''"
    then obtain a b r where s: "ip @ ?fp @ ?ep @ rest = a # b # r" "tolower a = CHR ''0''" "tolower b = CHR ''x''"
      by (rule starts_0x)
    have "\<forall>c. tolower c = CHR ''0'' \<longrightarrow> c = CHR ''0''" by code_simp
    then have a: "a = CHR ''0''" using s(2) by blast
    then have "ip = ''0''" using w(1,4) s(1) by (cases ip) auto
    then have "?fp @ ?ep @ rest = b # r" using s(1) a by simp
    then have "b = CHR ''.'' \<or> b = CHR ''e'' \<or> \<not> valid_number_character b"
      using assms(2) by (auto simp: stops_def split: if_splits)
    moreover have "\<forall>c. tolower c = CHR ''x'' \<longrightarrow> c \<noteq> CHR ''.'' \<and> c \<noteq> CHR ''e'' \<and> valid_number_character c"
      by code_simp
    ultimately show False using s(3) by blast
  qed
  have d: "drop (length ip + length ?fp) (ip @ ?fp @ ?ep @ rest) = ?ep @ rest" by simp
  show ?thesis
    using x m exponent_len_text[OF w(5) assms(2)] unfolding numeral_len_def numeral_text_def append_assoc
    by (simp only: if_False option.case d if_True append_Nil) simp
qed

lemma strtod_text:
  assumes "wf_numeral ip fp ep" "stops valid_number_character rest"
  shows "strtod conv (CHR ''.'') (numeral_text sg ip fp ep @ rest)
           = (conv (numeral_text sg ip fp ep), length (numeral_text sg ip fp ep))"
proof -
  let ?t = "numeral_text False ip fp ep"
  obtain c r where ip: "ip = c # r" "is_dec c" using assms(1) by (cases ip) (auto simp: wf_numeral_def)
  have c: "c \<noteq> CHR ''-'' \<and> c \<noteq> CHR ''+'' \<and> \<not> is_space c"
    using digit_not_blank ip(2) by (simp add: is_dec_def)
  have h: "hd (?t @ rest) = c" "?t @ rest \<noteq> []" using ip(1) by (simp_all add: numeral_text_def)
  have m: "\<not> is_space (CHR ''-'')" by code_simp
  have b: "takeWhile is_space (numeral_text sg ip fp ep @ rest) = []"
    using ip(1) c m by (simp add: numeral_text_def)
  have s: "numeral_text sg ip fp ep = (if sg then ''-'' else []) @ ?t" by (simp add: numeral_text_def)
  have sl: "sign_len (numeral_text sg ip fp ep @ rest) = (if sg then 1 else 0)"
    using h c ip(1) by (simp add: sign_len_def numeral_text_def)
  have d: "drop (if sg then 1 else 0) (numeral_text sg ip fp ep @ rest) = ?t @ rest"
    by (simp add: s)
  have l: "(if sg then 1 else 0) + length ?t = length (numeral_text sg ip fp ep)" by (simp add: s)
  have i: "map (\<lambda>c. if c = CHR ''.'' then CHR ''.'' else c) cs = cs" for cs by (simp add: map_idI)
  have s1: "numeral_text True ip fp ep = CHR ''-'' # ?t" by (simp add: numeral_text_def)
  show ?thesis unfolding strtod_def Let_def b list.size(3) drop_0 sl d numeral_len_text[OF assms]
    by (cases sg) (simp_all add: i s1)
qed

section \<open>Independence of the locale\<close>

lemma takeWhile_cut: "stops P rest \<Longrightarrow> takeWhile P (x @ rest) = takeWhile P x"
  by (induction x) (cases rest; auto simp: stops_def)+

lemma exponent_cut:
  assumes "stops (\<lambda>c. is_dec c \<or> c = CHR ''+'' \<or> c = CHR ''-'' \<or> tolower c = e) rest"
  shows "exponent_len e (x @ rest) = exponent_len e x"
proof (cases x)
  case Nil
  then show ?thesis using assms by (auto simp: exponent_len_def stops_def)
next
  case (Cons c t)
  have d: "stops is_dec rest" using assms by (rule stops_mono) simp
  show ?thesis
  proof (cases t)
    case Nil
    then show ?thesis using Cons assms takeWhile_cut[OF d, of "[]"]
      by (auto simp: exponent_len_def stops_def)
  next
    case (Cons c' t')
    then show ?thesis using \<open>x = c # t\<close> takeWhile_cut[OF d, of t'] takeWhile_cut[OF d, of t]
      by (auto simp: exponent_len_def Let_def)
  qed
qed

lemma mantissa_cut:
  assumes "stops dig rest" "stops (\<lambda>c. c = pt) rest"
  shows "mantissa_len dig pt (x @ rest) = mantissa_len dig pt x"
proof -
  let ?i = "length (takeWhile dig x)"
  have i: "takeWhile dig (x @ rest) = takeWhile dig x" by (rule takeWhile_cut[OF assms(1)])
  have d: "drop ?i (x @ rest) = drop ?i x @ rest" by (simp add: length_takeWhile_le)
  show ?thesis
  proof (cases "drop ?i x")
    case Nil
    then show ?thesis using assms(2) i d by (auto simp: mantissa_len_def Let_def stops_def)
  next
    case (Cons c t)
    have dt: "drop ?i (x @ rest) = c # t @ rest" unfolding d Cons by simp
    show ?thesis unfolding mantissa_len_def Let_def i dt Cons list.sel takeWhile_cut[OF assms(1)] by simp
  qed
qed

text \<open>A point that is no number character, and where it stands.\<close>

lemma mantissa_point:
  assumes "dig = is_dec \<or> dig = is_hex" "\<not> valid_number_character pt" "CHR ''.'' \<notin> set a"
    "list_all valid_number_character a"
  shows "mantissa_len dig pt (a @ pt # b) = mantissa_len dig (CHR ''.'') (a @ CHR ''.'' # b)"
proof -
  have p: "\<not> dig pt" "\<not> dig (CHR ''.'')"
    using assms(1,2) dec_valid number_chars by (auto, code_simp)
  let ?i = "length (takeWhile dig a)"
  have t: "takeWhile dig (a @ c # b) = takeWhile dig a" if "\<not> dig c" for c
    using that by (intro takeWhile_cut) (simp add: stops_def)
  have d: "drop ?i (a @ c # b) = drop ?i a @ c # b" for c by (simp add: length_takeWhile_le)
  have h: "hd (drop ?i a) \<noteq> pt" "hd (drop ?i a) \<noteq> CHR ''.''" if "drop ?i a \<noteq> []"
    using hd_in_set[OF that] assms(2-4) by (auto simp: list_all_iff dest!: in_set_dropD)
  show ?thesis unfolding mantissa_len_def Let_def t[OF p(1)] t[OF p(2)] d
    using h by (cases "drop ?i a") auto
qed

lemma mantissa_no_point:
  assumes "\<not> valid_number_character pt" "CHR ''.'' \<notin> set a" "list_all valid_number_character a"
  shows "mantissa_len dig pt a = mantissa_len dig (CHR ''.'') a"
proof -
  let ?r = "drop (length (takeWhile dig a)) a"
  have h: "hd ?r \<noteq> pt \<and> hd ?r \<noteq> CHR ''.''" if "?r \<noteq> []"
    using hd_in_set[OF that] assms by (auto simp: list_all_iff dest!: in_set_dropD)
  show ?thesis
  proof (cases ?r)
    case (Cons c t)
    then have "c \<noteq> pt" "c \<noteq> CHR ''.''" using h by simp_all
    then show ?thesis unfolding mantissa_len_def Let_def Cons by simp
  qed (simp add: mantissa_len_def Let_def)
qed

lemma exponent_point:
  assumes "\<not> valid_number_character pt" "e = CHR ''e'' \<or> e = CHR ''p''"
  shows "exponent_len e (drop m (a @ pt # b)) = exponent_len e (drop m (a @ CHR ''.'' # b))"
proof (cases "m \<le> length a")
  case True
  have "stops (\<lambda>c. is_dec c \<or> c = CHR ''+'' \<or> c = CHR ''-'' \<or> tolower c = e) (pt # b)"
    using assms number_chars dec_hex by (auto simp: stops_def)
  moreover have "stops (\<lambda>c. is_dec c \<or> c = CHR ''+'' \<or> c = CHR ''-'' \<or> tolower c = e) (CHR ''.'' # b)"
    using assms(2) by (auto simp: stops_def, code_simp+)
  ultimately show ?thesis using True by (simp add: exponent_cut)
qed (simp add: drop_Cons')

lemma replace_first_split:
  "(CHR ''.'' \<notin> set s \<and> replace_first (CHR ''.'') pt s = s)
   \<or> (\<exists>a b. s = a @ CHR ''.'' # b \<and> CHR ''.'' \<notin> set a \<and> replace_first (CHR ''.'') pt s = a @ pt # b)"
proof (induction s)
  case (Cons c s)
  show ?case
  proof (cases "c = CHR ''.''")
    case True
    then show ?thesis by (intro disjI2 exI[of _ "[]"] exI[of _ s]) simp
  next
    case False
    from Cons show ?thesis
    proof (elim disjE exE conjE)
      fix a b assume "s = a @ CHR ''.'' # b" "CHR ''.'' \<notin> set a" "replace_first (CHR ''.'') pt s = a @ pt # b"
      then show ?thesis using False
        by - (rule disjI2, rule exI[of _ "c # a"], rule exI[of _ b], simp)
    qed (use False in auto)
  qed
qed simp

lemma replace_first_append:
  "CHR ''.'' \<notin> set a \<Longrightarrow> replace_first (CHR ''.'') pt (a @ b) = a @ replace_first (CHR ''.'') pt b"
  by (induction a) auto

lemma mantissa_replace:
  assumes "dig = is_dec \<or> dig = is_hex" "\<not> valid_number_character pt" "list_all valid_number_character x"
  shows "mantissa_len dig pt (replace_first (CHR ''.'') pt x) = mantissa_len dig (CHR ''.'') x"
  using replace_first_split[of x pt] mantissa_point[OF assms(1,2)] mantissa_no_point[OF assms(2)] assms(3)
  by auto

lemma exponent_replace:
  assumes "\<not> valid_number_character pt" "e = CHR ''e'' \<or> e = CHR ''p''"
  shows "exponent_len e (drop m (replace_first (CHR ''.'') pt x)) = exponent_len e (drop m x)"
  using replace_first_split[of x pt] exponent_point[OF assms] by auto

lemma lower_0x: "\<forall>c. tolower c = CHR ''x'' \<longrightarrow> valid_number_character c \<and> c \<noteq> CHR ''.''"
  by code_simp

lemma lower_0: "\<forall>c. tolower c = CHR ''0'' \<longrightarrow> c = CHR ''0''"
  by code_simp

lemma starts_0x_iff: "strncasecmp_eq s ''0x'' \<longleftrightarrow> (\<exists>b r. s = CHR ''0'' # b # r \<and> tolower b = CHR ''x'')"
proof
  assume "strncasecmp_eq s ''0x''"
  then show "\<exists>b r. s = CHR ''0'' # b # r \<and> tolower b = CHR ''x''"
    by (rule starts_0x) (use lower_0 in blast)
next
  have "map tolower ''0x'' = ''0x''" "tolower (CHR ''0'') = CHR ''0''" by code_simp+
  then show "strncasecmp_eq s ''0x''" if "\<exists>b r. s = CHR ''0'' # b # r \<and> tolower b = CHR ''x''"
    using that by (auto simp: strncasecmp_eq_def)
qed

text \<open>
  Recognising a numeral that starts with a digit: only number characters matter, and the first
  point may be written as \<open>pt\<close>.
\<close>

lemma numeral_len_digits:
  assumes "x \<noteq> []" "is_dec (hd x)"
  shows "numeral_len pt x =
     (case (if strncasecmp_eq x ''0x'' then mantissa_len is_hex pt (drop 2 x) else None) of
        Some m \<Rightarrow> Some (2 + m + exponent_len (CHR ''p'') (drop (2 + m) x))
      | None \<Rightarrow> Some (the (mantissa_len is_dec pt x)
                       + exponent_len (CHR ''e'') (drop (the (mantissa_len is_dec pt x)) x)))"
proof -
  have "takeWhile is_dec x \<noteq> []" using assms by (cases x) auto
  then have "mantissa_len is_dec pt x \<noteq> None" by (auto simp: mantissa_len_def Let_def)
  then show ?thesis by (auto simp: numeral_len_def split: option.split)
qed

lemma mantissa_len_le: "mantissa_len dig pt s = Some m \<Longrightarrow> m \<le> length s"
proof -
  assume a: "mantissa_len dig pt s = Some m"
  let ?r = "drop (length (takeWhile dig s)) s"
  have i: "length (takeWhile dig s) \<le> length s" by (rule length_takeWhile_le)
  have "length (takeWhile dig (tl ?r)) \<le> length (tl ?r)" by (rule length_takeWhile_le)
  then show "m \<le> length s" using a i by (auto simp: mantissa_len_def Let_def split: if_splits)
qed

lemma numeral_len_cut:
  assumes "x \<noteq> []" "is_dec (hd x)" "stops valid_number_character rest"
  shows "numeral_len (CHR ''.'') (x @ rest) = numeral_len (CHR ''.'') x"
proof -
  have st: "stops is_dec rest" "stops is_hex rest" "stops (\<lambda>c. c = CHR ''.'') rest"
    using assms(3) number_chars dec_hex by (auto simp: stops_def)
  have se: "stops (\<lambda>c. is_dec c \<or> c = CHR ''+'' \<or> c = CHR ''-'' \<or> tolower c = e) rest"
    if "e = CHR ''e'' \<or> e = CHR ''p''" for e
    using assms(3) number_chars dec_hex that by (auto simp: stops_def)
  have ex: "exponent_len e (drop m (x @ rest)) = exponent_len e (drop m x)"
    if "m \<le> length x" "e = CHR ''e'' \<or> e = CHR ''p''" for m e
    using that exponent_cut[OF se[OF that(2)]] by simp
  have md: "mantissa_len is_dec (CHR ''.'') (x @ rest) = mantissa_len is_dec (CHR ''.'') x"
    by (rule mantissa_cut[OF st(1,3)])
  have ml: "the (mantissa_len is_dec (CHR ''.'') x) \<le> length x"
  proof -
    have "takeWhile is_dec x \<noteq> []" using assms(1,2) by (cases x) auto
    then have "mantissa_len is_dec (CHR ''.'') x \<noteq> None" by (auto simp: mantissa_len_def Let_def)
    then show ?thesis using mantissa_len_le by fastforce
  qed
  have sx: "strncasecmp_eq (x @ rest) ''0x'' \<longleftrightarrow> strncasecmp_eq x ''0x''"
    using assms(1,3) lower_0x unfolding starts_0x_iff stops_def
    by (cases x; cases "tl x") (auto simp: Cons_eq_append_conv)
  have n: "x @ rest \<noteq> []" "is_dec (hd (x @ rest))" using assms(1,2) by simp_all
  show ?thesis
  proof (cases "strncasecmp_eq x ''0x''")
    case True
    then have l: "2 \<le> length x" by (auto simp: starts_0x_iff)
    have d: "drop 2 (x @ rest) = drop 2 x @ rest" using l by simp
    have mh: "mantissa_len is_hex (CHR ''.'') (drop 2 x @ rest) = mantissa_len is_hex (CHR ''.'') (drop 2 x)"
      by (rule mantissa_cut[OF st(2,3)])
    have le: "2 + m \<le> length x" if "mantissa_len is_hex (CHR ''.'') (drop 2 x) = Some m" for m
      using mantissa_len_le[OF that] l by simp
    show ?thesis unfolding numeral_len_digits[OF n] numeral_len_digits[OF assms(1,2)] sx md d mh
      using True le ex ml by (auto split: option.split)
  next
    case False
    then show ?thesis unfolding numeral_len_digits[OF n] numeral_len_digits[OF assms(1,2)] sx md
      using ex ml by simp
  qed
qed

lemma numeral_len_replace:
  assumes "x \<noteq> []" "is_dec (hd x)" "\<not> valid_number_character pt" "list_all valid_number_character x"
  shows "numeral_len pt (replace_first (CHR ''.'') pt x) = numeral_len (CHR ''.'') x"
proof -
  let ?y = "replace_first (CHR ''.'') pt x"
  have n: "?y \<noteq> []" "is_dec (hd ?y)" using assms(1,2) by (cases x; auto)+
  have sx: "strncasecmp_eq ?y ''0x'' \<longleftrightarrow> strncasecmp_eq x ''0x''"
  proof (cases x)
    case (Cons a t)
    have "tolower pt \<noteq> CHR ''x''" "tolower (CHR ''.'') \<noteq> CHR ''x''" using assms(3) lower_0x by blast+
    then show ?thesis using Cons assms(2) unfolding starts_0x_iff by (cases t) auto
  qed simp
  have d: "drop 2 ?y = replace_first (CHR ''.'') pt (drop 2 x)" if "strncasecmp_eq x ''0x''"
    using that lower_0x by (auto simp: starts_0x_iff)
  have l: "list_all valid_number_character (drop 2 x)" using assms(4) by (auto simp: list_all_iff dest: in_set_dropD)
  note m = mantissa_replace[OF _ assms(3,4)] mantissa_replace[OF _ assms(3) l]
  show ?thesis
  proof (cases "strncasecmp_eq x ''0x''")
    case True
    show ?thesis unfolding numeral_len_digits[OF n] numeral_len_digits[OF assms(1,2)] sx
      using True by (simp add: m d exponent_replace[OF assms(3)] split: option.split)
  next
    case False
    then show ?thesis unfolding numeral_len_digits[OF n] numeral_len_digits[OF assms(1,2)] sx
      by (simp add: m exponent_replace[OF assms(3)])
  qed
qed

lemma takeWhile_buffer_size: "strtod_buffer_size s = int (length (takeWhile valid_number_character s))"
  by (induction s) auto

lemma numeral_len_le:
  assumes "x \<noteq> []" "is_dec (hd x)" "numeral_len pt x = Some n"
  shows "n \<le> length x"
proof -
  have ex: "exponent_len e y \<le> length y" for e y
  proof (cases y)
    case (Cons c r)
    let ?sg = "if r \<noteq> [] \<and> (hd r = CHR ''+'' \<or> hd r = CHR ''-'') then 1 else 0"
    have "length (takeWhile is_dec (drop ?sg r)) \<le> length (drop ?sg r)" by (rule length_takeWhile_le)
    then show ?thesis using Cons by (cases r) (auto simp: exponent_len_def Let_def)
  qed (simp add: exponent_len_def)
  have ml: "the (mantissa_len is_dec pt x) \<le> length x"
  proof -
    have "takeWhile is_dec x \<noteq> []" using assms(1,2) by (cases x) auto
    then have "mantissa_len is_dec pt x \<noteq> None" by (auto simp: mantissa_len_def Let_def)
    then show ?thesis using mantissa_len_le by fastforce
  qed
  have d: "k + exponent_len e (drop k x) \<le> length x" if "k \<le> length x" for k e
    using ex[of e "drop k x"] that by simp
  show ?thesis
  proof (cases "if strncasecmp_eq x ''0x'' then mantissa_len is_hex pt (drop 2 x) else None")
    case None
    then show ?thesis using assms(3) d[OF ml, of "CHR ''e''"] unfolding numeral_len_digits[OF assms(1,2)] by auto
  next
    case (Some m)
    then have m: "strncasecmp_eq x ''0x''" "mantissa_len is_hex pt (drop 2 x) = Some m" by (auto split: if_splits)
    have "2 \<le> length x" using m(1) by (auto simp: starts_0x_iff)
    then have "2 + m \<le> length x" using mantissa_len_le[OF m(2)] by simp
    from d[OF this] show ?thesis using Some assms(3) unfolding numeral_len_digits[OF assms(1,2)] by auto
  qed
qed

lemma point_id:
  "list_all valid_number_character cs \<Longrightarrow> \<not> valid_number_character pt \<Longrightarrow>
     map (\<lambda>c. if c = pt then CHR ''.'' else c) cs = cs"
  by (induction cs) auto

lemma point_same: "map (\<lambda>c. if c = CHR ''.'' then CHR ''.'' else c) cs = cs"
  by (induction cs) auto

lemma map_point_replace:
  assumes "\<not> valid_number_character pt" "list_all valid_number_character x"
    and "n = the (numeral_len (CHR ''.'') x)"
  shows "map (\<lambda>c. if c = pt then CHR ''.'' else c) (take k (replace_first (CHR ''.'') pt x)) = take k x"
proof -
  note m = point_id[OF _ assms(1)]
  have "map (\<lambda>c. if c = pt then CHR ''.'' else c) (replace_first (CHR ''.'') pt x) = x"
    using replace_first_split[of x pt] assms(2) m by auto
  then show ?thesis by (simp flip: take_map)
qed

text \<open>What is at the start of the text at the only call of \<open>fpconv_strtod\<close>: a sign or a digit.\<close>

definition starts_numeral :: "string \<Rightarrow> bool" where
  "starts_numeral s \<longleftrightarrow> drop (sign_len s) s \<noteq> [] \<and> is_dec (hd (drop (sign_len s) s))"

lemma sign_split:
  assumes "starts_numeral s"
  obtains sg x where "s = sg @ x" "sg = [] \<or> sg = ''-'' \<or> sg = ''+''" "x \<noteq> []" "is_dec (hd x)"
    "sign_len s = length sg" "takeWhile is_space s = []"
proof -
  have d: "c \<noteq> CHR ''-'' \<and> c \<noteq> CHR ''+'' \<and> \<not> is_space c" if "is_dec c" for c
    using digit_not_blank that by (simp add: is_dec_def)
  have b: "\<not> is_space (CHR ''-'')" "\<not> is_space (CHR ''+'')" by code_simp+
  show ?thesis
  proof (cases s)
    case (Cons c t)
    show ?thesis
    proof (cases "c = CHR ''-'' \<or> c = CHR ''+''")
      case True
      then show ?thesis using that[of "[c]" t] Cons assms b by (auto simp: starts_numeral_def sign_len_def)
    next
      case False
      then show ?thesis using that[of "[]" s] Cons assms d[of c] by (auto simp: starts_numeral_def sign_len_def)
    qed
  qed (use assms in \<open>auto simp: starts_numeral_def\<close>)
qed

lemma sign_len_app:
  assumes "sg = [] \<or> sg = ''-'' \<or> sg = ''+''" "x \<noteq> []" "is_dec (hd x)"
  shows "sign_len (sg @ x) = length sg" "takeWhile is_space (sg @ x) = []"
proof -
  have d: "c \<noteq> CHR ''-'' \<and> c \<noteq> CHR ''+'' \<and> \<not> is_space c" if "is_dec c" for c
    using digit_not_blank that by (simp add: is_dec_def)
  have b: "\<not> is_space (CHR ''-'')" "\<not> is_space (CHR ''+'')" by code_simp+
  show "sign_len (sg @ x) = length sg" "takeWhile is_space (sg @ x) = []"
    using assms d[OF assms(3)] b by (cases x; auto simp: sign_len_def)+
qed

lemma strtod_sign:
  assumes "sg = [] \<or> sg = ''-'' \<or> sg = ''+''" "x \<noteq> []" "is_dec (hd x)"
  shows "strtod conv pt (sg @ x) =
     (case numeral_len pt x of None \<Rightarrow> (0, 0)
      | Some n \<Rightarrow> (conv (map (\<lambda>c. if c = pt then CHR ''.'' else c) (take (length sg + n) (sg @ x))), length sg + n))"
proof -
  have d: "drop (length sg) (sg @ x) = x" by simp
  show ?thesis unfolding strtod_def Let_def sign_len_app(2)[OF assms] list.size(3) drop_0 sign_len_app(1)[OF assms] add_0
    d by (rule refl)
qed

lemma strtod_localised:
  assumes "starts_numeral s" "\<not> valid_number_character pt"
  shows "strtod conv pt (replace_first (CHR ''.'') pt (takeWhile valid_number_character s))
           = strtod conv (CHR ''.'') s"
proof -
  obtain sg x where s: "s = sg @ x" "sg = [] \<or> sg = ''-'' \<or> sg = ''+''" "x \<noteq> []" "is_dec (hd x)"
    using assms(1) by (rule sign_split)
  let ?v = "takeWhile valid_number_character x" and ?r = "dropWhile valid_number_character x"
  have x: "x = ?v @ ?r" by simp
  have v: "?v \<noteq> []" "is_dec (hd ?v)" using s(3,4) dec_valid by (cases x; auto)+
  have va: "list_all valid_number_character ?v" by (auto simp: list_all_iff dest: set_takeWhileD)
  have r: "stops valid_number_character ?r" using hd_dropWhile[of valid_number_character x] by (auto simp: stops_def)
  let ?w = "replace_first (CHR ''.'') pt ?v"
  have w: "?w \<noteq> []" "is_dec (hd ?w)" using v by (cases ?v; auto)+
  have "takeWhile valid_number_character s = sg @ ?v" using s(1,2) by auto
  moreover have "replace_first (CHR ''.'') pt (sg @ ?v) = sg @ ?w"
    using s(2) by (intro replace_first_append) auto
  ultimately have e: "replace_first (CHR ''.'') pt (takeWhile valid_number_character s) = sg @ ?w" by simp
  have sv: "list_all valid_number_character sg" using s(2) by auto
  have n: "numeral_len (CHR ''.'') x = numeral_len (CHR ''.'') ?v"
    using numeral_len_cut[OF v r] by simp
  note sgm = point_id[OF sv assms(2)] point_same
  have t: "take m x = take m ?v" if "numeral_len (CHR ''.'') ?v = Some m" for m
  proof -
    have "take m (?v @ ?r) = take m ?v" using numeral_len_le[OF v that] by (simp only: take_append) simp
    then show ?thesis by (simp only: takeWhile_dropWhile_id)
  qed
  show ?thesis unfolding e unfolding s(1) strtod_sign[OF s(2) w] strtod_sign[OF s(2-4)] n
      numeral_len_replace[OF v assms(2) va]
    using t map_point_replace[OF assms(2) va refl] sgm by (auto split: option.split)
qed

section \<open>The routines\<close>

lemma update_locale_sets: "fpconv_update_locale [CHR ''0'', pt, CHR ''5''] = Inr pt"
  by (simp add: fpconv_update_locale_def read_cell_def Let_def)

lemma update_locale_wide:
  assumes "3 < length half" "NUL \<notin> set half"
  shows "\<exists>m. fpconv_update_locale half = Inl (Die m)"
proof -
  obtain a b c d r where h: "half = a # b # c # d # r"
    using assms(1) by (auto simp: Suc_le_length_iff numeral_3_eq_3 Suc_le_eq[symmetric])
  then have "d \<noteq> NUL" using assms(2) by auto
  then show ?thesis by (simp add: fpconv_update_locale_def read_cell_def Let_def h)
qed

definition prec_table :: "string list" where
  "prec_table = [''1'', ''2'', ''3'', ''4'', ''5'', ''6'', ''7'', ''8'', ''9'', ''10'', ''11'', ''12'', ''13'', ''14'']"

lemma number_format_table: "map set_number_format [1..14] = map (\<lambda>t. Inr (''%.'' @ t @ ''g'')) prec_table"
  by code_simp

lemma prec_table_values: "map (digits_value 10) prec_table = [1..<15] \<and> list_all (list_all is_dec) prec_table"
  by code_simp

lemma printf_format:
  assumes "1 \<le> p" "p \<le> 14"
  shows "\<exists>fmt. set_number_format (int p) = Inr fmt \<and> printf_double fmt d = Some (printf_g p d)"
proof -
  let ?t = "prec_table ! (p - 1)"
  have i: "p - 1 < length prec_table" using assms by (simp add: prec_table_def)
  have "map set_number_format [1..14] ! (p - 1) = set_number_format (int p)"
    using assms by (subst nth_map) (auto simp: of_nat_diff)
  then have f: "set_number_format (int p) = Inr (''%.'' @ ?t @ ''g'')"
    using i unfolding number_format_table by simp
  have "map (digits_value 10) prec_table ! (p - 1) = p"
    using assms prec_table_values by (simp del: nth_map)
  then have v: "digits_value 10 ?t = p" using i by simp
  have "?t \<in> set prec_table" using i by simp
  then have t: "list_all is_dec ?t" using prec_table_values by (simp add: list_all_iff)
  have g: "\<not> is_dec (CHR ''g'')" by code_simp
  have "takeWhile is_dec (?t @ ''g'') = ?t"
    by (rule takeWhile_stops[OF t]) (simp add: stops_def g)
  then show ?thesis using v assms by (simp add: printf_double_def f)
qed

lemma numeral_text_valid:
  assumes "wf_numeral ip fp ep"
  shows "list_all valid_number_character (numeral_text sg ip fp ep)"
proof -
  have d: "list_all valid_number_character ds" if "list_all is_dec ds" for ds
    using that dec_valid by (auto simp: list_all_iff)
  have "list_all valid_number_character ep"
    using assms d by (cases ep) (auto simp: wf_numeral_def)
  then show ?thesis using assms d by (auto simp: numeral_text_def wf_numeral_def)
qed

lemma delocalise:
  assumes "list_all valid_number_character t" "\<not> valid_number_character pt"
  shows "map (\<lambda>c. if c = pt then CHR ''.'' else c) (localise pt t) = t"
  using assms by (induction t) (auto simp: localise_def)

lemma g_fmt_numeral:
  assumes "\<not> isnan d" "\<not> isinf d" "1 \<le> p" "p \<le> 14" "pt = CHR ''.'' \<or> \<not> valid_number_character pt"
  shows "fpconv_g_fmt pt d (int p) = Inr (printf_g p d, int (length (printf_g p d)))
     \<and> length (printf_g p d) \<le> 21
     \<and> (\<exists>ip fp ep. printf_g p d = numeral_text (dbl_sign d) ip fp ep \<and> wf_numeral ip fp ep
          \<and> (fp = [] \<and> ep = [] \<longrightarrow> length ip \<le> p))"
proof -
  obtain ip fp ep where n: "printf_g p d = numeral_text (dbl_sign d) ip fp ep" "wf_numeral ip fp ep"
    "length (printf_g p d) \<le> 21" "fp = [] \<and> ep = [] \<longrightarrow> length ip \<le> p"
    using printf_g_numeral[OF assms(1-4)] by blast
  have v: "list_all valid_number_character (printf_g p d)"
    unfolding n(1) by (rule numeral_text_valid[OF n(2)])
  have l: "length (localise pt (printf_g p d)) \<le> 31" using n(3) by (simp add: localise_def)
  have i: "localise (CHR ''.'') t = t" for t by (induction t) (auto simp: localise_def)
  obtain fmt where fmt: "set_number_format (int p) = Inr fmt" "printf_double fmt d = Some (printf_g p d)"
    using printf_format[OF assms(3,4)] by blast
  have "fpconv_g_fmt pt d (int p) = Inr (printf_g p d, int (length (printf_g p d)))"
    using assms(5) l delocalise[OF v] unfolding fpconv_g_fmt_def fmt(1) andthen_simps fmt(2)
    by (auto simp: FPCONV_G_FMT_BUFSIZE_def i Let_def)
  then show ?thesis using n by blast
qed

lemma strtod_locale:
  assumes "starts_numeral s" "pt = CHR ''.'' \<or> \<not> valid_number_character pt"
    and n: "n = int (length (takeWhile valid_number_character s))" "n < 2 ^ 31 - 1"
    and "32 \<le> n \<longrightarrow> A (n + 1)"
  shows "fpconv_strtod A conv pt s = Inr (strtod conv (CHR ''.'') s)"
proof (cases "pt = CHR ''.''")
  case True
  then show ?thesis by (simp add: fpconv_strtod_def)
next
  case False
  let ?v = "takeWhile valid_number_character s"
  obtain sg x where s: "s = sg @ x" "sg = [] \<or> sg = ''-'' \<or> sg = ''+''" "x \<noteq> []" "is_dec (hd x)"
    using assms(1) by (rule sign_split)
  have v: "?v \<noteq> []" using s dec_valid by (cases x) auto
  then have n0: "0 < n" unfolding n(1) by simp
  have b: "to_int (strtod_buffer_size s) = n"
    unfolding takeWhile_buffer_size n(1)[symmetric] using n0 n(2) by (intro to_int_id) (simp add: int_ok_iff)
  have t: "take (nat n) s = ?v" unfolding n(1) nat_int by (rule takeWhile_eq_take[symmetric])
  let ?k = "if 32 \<le> n then nat (n + 1) else 32"
  define m :: block where "m = replicate ?k None"
  have lm: "nat n < length m" using n0 by (auto simp: m_def)
  have buf: "(if FPCONV_G_FMT_BUFSIZE \<le> n
       then andthen (c_int (n + 1)) (\<lambda>k. case malloc A k of None \<Rightarrow> Inl (Die ''Out of memory'') | Some m \<Rightarrow> Inr (Some m))
       else Inr (Some (replicate (nat FPCONV_G_FMT_BUFSIZE) None))) = Inr (Some m)"
    using assms(5) n0 n(2) by (simp add: FPCONV_G_FMT_BUFSIZE_def m_def malloc_def int_ok_iff)
  let ?m1 = "map Some ?v @ drop (nat n) m"
  have lv: "length ?v = nat n" unfolding n(1) by simp
  have p1: "poke_mem (Some m) 0 ?v = Inr (Some ?m1)" using lm lv by (simp add: poke_mem_def)
  have p2: "poke_mem (Some ?m1) n [NUL] = Inr (Some (map Some ?v @ Some NUL # drop (Suc (nat n)) m))"
    using lm lv n0 by (simp add: poke_mem_def)
  have p3: "peek_mem (Some (map Some ?v @ Some NUL # drop (Suc (nat n)) m)) n = Inr ?v"
    using lm lv n0 by (simp add: peek_mem_def comp_def)
  have nn: "\<not> n < 0" "n \<noteq> 0" using n0 by simp_all
  show ?thesis unfolding fpconv_strtod_def Let_def b if_not_P[OF False] if_not_P[OF nn(2)] if_not_P[OF nn(1)] buf
      andthen_simps t p1 p2 p3
    using strtod_localised[OF assms(1)] assms(2) False by simp
qed

section \<open>Properties\<close>

text \<open>
  C25: Whatever the locale's decimal point, a finite double is written in at most 21 characters
  (so the text and its terminator fit in the 32 bytes the callers provide), the length returned
  is that of the text, and the text is a number of the JSON grammar with the double's sign.
\<close>

theorem g_fmt_writes_json_number:
  assumes "\<not> isnan d" "\<not> isinf d" "1 \<le> p" "p \<le> 14" "pt = CHR ''.'' \<or> \<not> valid_number_character pt"
  shows "\<exists>t ip fp ep. fpconv_g_fmt pt d (int p) = Inr (t, int (length t)) \<and> length t \<le> 21
           \<and> t = numeral_text (dbl_sign d) ip fp ep \<and> wf_numeral ip fp ep"
  using g_fmt_numeral[OF assms] by blast

theorem g_fmt_writes_json_number_witness:
  "\<exists>t ip fp ep. fpconv_g_fmt (CHR '','') 0xBFE0000000000000 (int 14) = Inr (t, int (length t))
     \<and> length t \<le> 21 \<and> t = numeral_text (dbl_sign 0xBFE0000000000000) ip fp ep \<and> wf_numeral ip fp ep"
proof (rule g_fmt_writes_json_number)
  show "\<not> isnan 0xBFE0000000000000" "\<not> isinf 0xBFE0000000000000"
    by (simp_all add: isnan_def isinf_def dbl_exp_def)
  show "CHR '','' = CHR ''.'' \<or> \<not> valid_number_character (CHR '','')" by code_simp
qed simp_all

text \<open>
  C24: Reading a number that starts with a digit or a signed digit gives the value and the end
  that \<open>strtod\<close> gives in a locale with a point, whatever the decimal point of the locale in
  force; the translation buffer is never overrun or read where it was not written.
\<close>

theorem strtod_locale_independent:
  assumes "starts_numeral s" "pt = CHR ''.'' \<or> \<not> valid_number_character pt"
    and "length (takeWhile valid_number_character s) < 2 ^ 31 - 1" "\<And>n. A n"
  shows "fpconv_strtod A conv pt s = Inr (strtod conv (CHR ''.'') s)"
  using assms by (intro strtod_locale) auto

theorem strtod_locale_independent_witness:
  "fpconv_strtod (\<lambda>_. True) (\<lambda>t. of_nat (length t)) (CHR '','') ''-1.5e3]'' = Inr (6, 6)"
proof -
  have s: "starts_numeral ''-1.5e3]''" "\<not> valid_number_character (CHR '','')"
    "length (takeWhile valid_number_character ''-1.5e3]'') = 6"
    "map (\<lambda>c. if c = CHR ''.'' then CHR ''.'' else c) ''-1.5e3'' = ''-1.5e3''"
    by code_simp+
  have "numeral_len (CHR ''.'') ''1.5e3]'' = Some 5" "takeWhile is_space ''-1.5e3]'' = []" by code_simp+
  then have "strtod (\<lambda>t. of_nat (length t)) (CHR ''.'') ''-1.5e3]'' = (6, 6)"
    by (simp add: strtod_def sign_len_def)
  then show ?thesis
    using strtod_locale_independent[OF s(1), of "CHR '',''" "\<lambda>_. True" "\<lambda>t. of_nat (length t)"] s(2,3) by simp
qed

end
