(* ===== verification/Lua.thy ===== *)
theory Lua
  imports Fpconv
begin

text \<open>
  The part of the Lua 5.3 API the native modules use. Values that a module reads are \<open>lua\<close>,
  with tables as addresses into a heap, so sharing and cycles are represented; the tables a
  module builds have no other references to them and are the trees \<open>ltree\<close>. What the API
  leaves to the interpreter (the order in which \<open>lua_next\<close> visits a table, whether the Lua
  stack can grow, how a string is read as an integer) is data of the heap or of the
  environment record \<open>env\<close>.
\<close>

section \<open>Values\<close>

datatype lua =
    LNil
  | LBool bool
  | LInt int
  | LNum double
  | LStr string
  | LLight nat       \<comment> \<open>light userdata; 0 is NULL\<close>
  | LTab nat
  | LOther string    \<comment> \<open>function, full userdata or thread, with its type name\<close>

type_synonym lua_heap = "nat \<Rightarrow> (lua \<times> lua) list"
  \<comment> \<open>the pairs of a table in the order in which \<open>lua_next\<close> visits them\<close>

definition lua_typename :: "lua \<Rightarrow> string" where
  "lua_typename v =
     (case v of LNil \<Rightarrow> ''nil'' | LBool _ \<Rightarrow> ''boolean'' | LInt _ \<Rightarrow> ''number'' | LNum _ \<Rightarrow> ''number''
      | LStr _ \<Rightarrow> ''string'' | LLight _ \<Rightarrow> ''userdata'' | LTab _ \<Rightarrow> ''table'' | LOther n \<Rightarrow> n)"

definition lua_is_number :: "lua \<Rightarrow> bool" where
  \<comment> \<open>\<open>lua_type(l, i) == LUA_TNUMBER\<close>\<close>
  "lua_is_number v \<longleftrightarrow> (case v of LInt _ \<Rightarrow> True | LNum _ \<Rightarrow> True | _ \<Rightarrow> False)"

definition lua_rawgeti :: "lua_heap \<Rightarrow> nat \<Rightarrow> int \<Rightarrow> lua" where
  "lua_rawgeti h a i = (case map_of (h a) (LInt i) of None \<Rightarrow> LNil | Some v \<Rightarrow> v)"

text \<open>
  Keys of a table: not nil, not NaN, pairwise different, and floats with an integer value are
  stored as integers (so a float key is not integral unless it is out of the integer range).
\<close>

definition key_ok :: "lua \<Rightarrow> bool" where
  "key_ok k \<longleftrightarrow>
     (case k of LNil \<Rightarrow> False
      | LInt i \<Rightarrow> LLONG_MIN \<le> i \<and> i \<le> LLONG_MAX
      | LNum d \<Rightarrow> \<not> isnan d \<and> (dbl_integral d \<longrightarrow> dbl_trunc d < LLONG_MIN \<or> LLONG_MAX < dbl_trunc d)
      | _ \<Rightarrow> True)"

definition val_ok :: "lua \<Rightarrow> bool" where
  "val_ok v \<longleftrightarrow> (case v of LInt i \<Rightarrow> LLONG_MIN \<le> i \<and> i \<le> LLONG_MAX | _ \<Rightarrow> True)"

definition heap_ok :: "lua_heap \<Rightarrow> bool" where
  "heap_ok h \<longleftrightarrow>
     (\<forall>a. distinct (map fst (h a)) \<and> (\<forall>(k, v) \<in> set (h a). key_ok k \<and> val_ok v \<and> v \<noteq> LNil))"

section \<open>Tables under construction\<close>

datatype ltree =
    TNil
  | TBool bool
  | TInt int
  | TNum double
  | TStr string
  | TNull            \<comment> \<open>the light userdata NULL\<close>
  | TTab "(ltree \<times> ltree) list"

fun tab_set :: "'k \<Rightarrow> 'v \<Rightarrow> ('k \<times> 'v) list \<Rightarrow> ('k \<times> 'v) list" where
  \<comment> \<open>\<open>lua_rawset\<close> and \<open>lua_rawseti\<close> with a value that is not nil\<close>
  "tab_set k v [] = [(k, v)]"
| "tab_set k v ((k', v') # t) = (if k = k' then (k, v) # t else (k', v') # tab_set k v t)"

lemma tab_set_map_of: "map_of (tab_set k v t) = (map_of t)(k \<mapsto> v)"
  by (induction t) (auto simp: fun_eq_iff)

lemma tab_set_keys: "fst ` set (tab_set k v t) = insert k (fst ` set t)"
  by (induction k v t rule: tab_set.induct) (simp_all add: insert_commute)

lemma tab_set_distinct: "distinct (map fst t) \<Longrightarrow> distinct (map fst (tab_set k v t))"
  by (induction k v t rule: tab_set.induct) (simp_all add: tab_set_keys)

lemma tab_set_new: "k \<notin> fst ` set t \<Longrightarrow> tab_set k v t = t @ [(k, v)]"
  by (induction t) auto

section \<open>Errors and the environment\<close>

datatype lua_error =
    Arg_error int string     \<comment> \<open>\<open>luaL_argerror\<close>: the argument's position and the reason\<close>
  | Lua_error string         \<comment> \<open>\<open>luaL_error\<close>\<close>

record env =
  e_alloc :: alloc
  e_stack :: "int \<Rightarrow> int \<Rightarrow> bool"      \<comment> \<open>\<open>lua_checkstack\<close> at a nesting depth, for a number of slots\<close>
  e_point :: char                      \<comment> \<open>\<open>locale_decimal_point\<close>\<close>
  e_conv :: "string \<Rightarrow> double"          \<comment> \<open>the value of a numeral\<close>
  e_str2int :: "string \<Rightarrow> int option"   \<comment> \<open>a string argument where an integer is expected\<close>
  e_num2str :: "double \<Rightarrow> string"       \<comment> \<open>a float argument where a string is expected\<close>

text \<open>
  What is assumed of an environment: the locale's point is not a character of numbers, and the
  Lua stack is limited (to a million slots, \<open>LUAI_MAXSTACK\<close>).
\<close>

definition env_ok :: "env \<Rightarrow> bool" where
  "env_ok E \<longleftrightarrow>
     (e_point E = CHR ''.'' \<or> \<not> valid_number_character (e_point E))
     \<and> (\<forall>d n. e_stack E d n \<longrightarrow> d \<le> 1000000)"

text \<open>\<open>lua_tointegerx\<close> and \<open>luaL_checkinteger\<close>: the integer an argument stands for.\<close>

definition lua_tointeger :: "env \<Rightarrow> lua \<Rightarrow> int option" where
  "lua_tointeger E v =
     (case v of
        LInt i \<Rightarrow> Some i
      | LNum d \<Rightarrow>
          if \<not> isnan d \<and> dbl_integral d \<and> LLONG_MIN \<le> dbl_trunc d \<and> dbl_trunc d \<le> LLONG_MAX
          then Some (dbl_trunc d) else None
      | LStr s \<Rightarrow> e_str2int E s
      | _ \<Rightarrow> None)"

definition luaL_checkinteger :: "env \<Rightarrow> int \<Rightarrow> lua \<Rightarrow> lua_error + int" where
  "luaL_checkinteger E arg v =
     (case lua_tointeger E v of
        Some i \<Rightarrow> Inr i
      | None \<Rightarrow>
          Inl (Arg_error arg
            (case v of LNum _ \<Rightarrow> ''number has no integer representation''
             | _ \<Rightarrow> ''number expected, got '' @ lua_typename v)))"

definition luaL_checklstring :: "env \<Rightarrow> int \<Rightarrow> lua \<Rightarrow> lua_error + string" where
  "luaL_checklstring E arg v =
     (case v of
        LStr s \<Rightarrow> Inr s
      | LInt i \<Rightarrow> Inr (lld_text i)
      | LNum d \<Rightarrow> Inr (e_num2str E d)
      | _ \<Rightarrow> Inl (Arg_error arg (''string expected, got '' @ lua_typename v)))"

fun index_of :: "string \<Rightarrow> string list \<Rightarrow> nat option" where
  "index_of s [] = None"
| "index_of s (x # xs) = (if s = x then Some 0 else map_option Suc (index_of s xs))"

definition luaL_checkoption :: "int \<Rightarrow> lua \<Rightarrow> string list \<Rightarrow> lua_error + int" where
  \<comment> \<open>the strings are compared with \<open>strcmp\<close>; a number is converted to its text, which is none
     of the options any caller passes\<close>
  "luaL_checkoption arg v options =
     (case v of
        LStr s \<Rightarrow>
          (case index_of (takeWhile (\<lambda>c. c \<noteq> NUL) s) options of
             Some i \<Rightarrow> Inr (int i)
           | None \<Rightarrow> Inl (Arg_error arg (''invalid option '' @ s)))
      | LInt i \<Rightarrow> Inl (Arg_error arg (''invalid option '' @ lld_text i))
      | LNum d \<Rightarrow> Inl (Arg_error arg (''invalid option '' @ printf_g 14 d))
      | _ \<Rightarrow> Inl (Arg_error arg (''string expected, got '' @ lua_typename v)))"

definition lua_toboolean :: "lua \<Rightarrow> bool" where
  "lua_toboolean v \<longleftrightarrow> v \<noteq> LNil \<and> v \<noteq> LBool False"

definition lua_isboolean :: "lua \<Rightarrow> bool" where
  "lua_isboolean v \<longleftrightarrow> (case v of LBool _ \<Rightarrow> True | _ \<Rightarrow> False)"

lemma index_of_less: "index_of s xs = Some i \<Longrightarrow> i < length xs"
  by (induction xs arbitrary: i) (auto split: if_splits)

end
