(* ===== verification/Strbuf.thy ===== *)
theory Strbuf
  imports Prelude
begin

text \<open>
  The growable string buffer of \<open>3rd/lua-cjson/strbuf.c\<close> and \<open>strbuf.h\<close>. The record has the
  fields of \<open>strbuf_t\<close>; \<open>int\<close> fields are kept at their width (overflow is an error value),
  every store into \<open>buf\<close> is checked against the block, and \<open>die\<close> is an error value.
  \<open>sb_blocks\<close> is a ghost field, the heap as far as this buffer is concerned: how many blocks
  have been allocated for the struct (\<open>malloc\<close>, or \<open>realloc\<close> of NULL) and not yet released by
  \<open>free\<close>; a lost block leaves it positive, one freed twice makes it negative.
  \<open>sb_rep s cs\<close> says that \<open>s\<close> is a sound buffer holding the text \<open>cs\<close>; the operations are
  shown to refine the corresponding operation on the text.
\<close>

section \<open>State and operations\<close>

record strbuf =
  sb_buf :: "block option"
  sb_size :: int
  sb_length :: int
  sb_increment :: int
  sb_dynamic :: int
  sb_reallocs :: int
  sb_debug :: int
  sb_blocks :: int

definition STRBUF_DEFAULT_SIZE :: int where "STRBUF_DEFAULT_SIZE = 1023"
definition STRBUF_DEFAULT_INCREMENT :: int where "STRBUF_DEFAULT_INCREMENT = -2"

definition oom :: cerr where "oom = Die ''Out of memory''"

definition strbuf_reset :: "strbuf \<Rightarrow> strbuf" where
  "strbuf_reset s = s\<lparr>sb_length := 0\<rparr>"

definition strbuf_allocated :: "strbuf \<Rightarrow> bool" where
  "strbuf_allocated s \<longleftrightarrow> sb_buf s \<noteq> None"

definition strbuf_empty_length :: "strbuf \<Rightarrow> int res" where
  "strbuf_empty_length s =
     andthen (c_int (sb_size s - sb_length s)) (\<lambda>d. c_int (d - 1))"

definition strbuf_extend_length :: "strbuf \<Rightarrow> int \<Rightarrow> strbuf res" where
  "strbuf_extend_length s len =
     andthen (c_int (sb_length s + len)) (\<lambda>n. Inr (s\<lparr>sb_length := n\<rparr>))"

definition strbuf_ensure_null :: "strbuf \<Rightarrow> strbuf res" where
  "strbuf_ensure_null s =
     andthen (poke_mem (sb_buf s) (sb_length s) [NUL]) (\<lambda>b. Inr (s\<lparr>sb_buf := b\<rparr>))"

definition strbuf_string :: "strbuf \<Rightarrow> block option \<times> int" where
  "strbuf_string s = (sb_buf s, sb_length s)"

definition strbuf_init :: "alloc \<Rightarrow> int \<Rightarrow> int \<Rightarrow> strbuf res" where
  \<comment> \<open>every field is overwritten; \<open>held\<close> are the blocks the struct held before\<close>
  "strbuf_init A held len =
     andthen (if len \<le> 0 then Inr STRBUF_DEFAULT_SIZE else c_int (len + 1)) (\<lambda>size.
     (case malloc A size of
        None \<Rightarrow> Inl oom
      | Some m \<Rightarrow>
          strbuf_ensure_null
            \<lparr>sb_buf = Some m, sb_size = size, sb_length = 0,
             sb_increment = STRBUF_DEFAULT_INCREMENT, sb_dynamic = 0, sb_reallocs = 0,
             sb_debug = 0, sb_blocks = held + 1\<rparr>))"

definition strbuf_struct_bytes :: int where
  \<comment> \<open>\<open>sizeof(strbuf_t)\<close>: a pointer and six ints\<close>
  "strbuf_struct_bytes = 32"

definition strbuf_new :: "alloc \<Rightarrow> int \<Rightarrow> strbuf res" where
  "strbuf_new A len =
     (if \<not> A strbuf_struct_bytes then Inl oom
      else andthen (strbuf_init A 0 len) (\<lambda>s. Inr (s\<lparr>sb_dynamic := 1\<rparr>)))"

definition strbuf_set_increment :: "strbuf \<Rightarrow> int \<Rightarrow> strbuf res" where
  "strbuf_set_increment s increment =
     (if increment = 0 \<or> increment = -1 then Inl (Die ''BUG: Invalid string increment'')
      else Inr (s\<lparr>sb_increment := increment\<rparr>))"

definition strbuf_free :: "strbuf \<Rightarrow> strbuf option" where
  \<comment> \<open>the struct afterwards, \<open>None\<close> when it was allocated by \<open>strbuf_new\<close> and is released too; a struct
     released while it still owns a block stays, as the record of what was lost. A NULL buffer is
     left alone, so freeing an embedded struct twice is harmless\<close>
  "strbuf_free s =
     (let s' = (if sb_buf s \<noteq> None
                then s\<lparr>sb_buf := None, sb_blocks := sb_blocks s - 1\<rparr> else s)
      in if sb_dynamic s' \<noteq> 0 \<and> sb_blocks s' = 0 then None else Some s')"

definition strbuf_free_to_string :: "strbuf \<Rightarrow> (block option \<times> int \<times> strbuf option) res" where
  \<comment> \<open>the text, which the caller now owns, its length, and the struct if it still exists\<close>
  "strbuf_free_to_string s =
     andthen (strbuf_ensure_null s) (\<lambda>s'.
     Inr (sb_buf s', sb_length s',
          if sb_dynamic s' \<noteq> 0 then None else Some (s'\<lparr>sb_blocks := sb_blocks s' - 1\<rparr>)))"

subsection \<open>Growing\<close>

text \<open>
  The loop \<open>while (newsize < reqsize) newsize *= -s->increment\<close>, with fuel. 34 rounds are
  enough: see \<open>grow_Diverge_iff\<close>.
\<close>

fun grow :: "nat \<Rightarrow> int \<Rightarrow> int \<Rightarrow> int \<Rightarrow> int res" where
  "grow 0 increment reqsize newsize = Inl Diverge"
| "grow (Suc fuel) increment reqsize newsize =
     (if newsize < reqsize
      then andthen (c_int (- increment)) (\<lambda>f.
           andthen (c_int (newsize * f)) (grow fuel increment reqsize))
      else Inr newsize)"

definition calculate_new_size :: "strbuf \<Rightarrow> int \<Rightarrow> int res" where
  "calculate_new_size s len =
     (if len \<le> 0 then Inl (Die ''BUG: Invalid strbuf length requested'')
      else andthen (c_int (len + 1)) (\<lambda>reqsize.
        if sb_size s > reqsize then Inr reqsize
        else if sb_increment s < 0 then grow 34 (sb_increment s) reqsize (sb_size s)
        else andthen (c_int (sb_size s + sb_increment s)) (\<lambda>n.
             andthen (c_int (n - 1)) (\<lambda>n.
             andthen (c_div n (sb_increment s)) (\<lambda>q. c_int (q * sb_increment s))))))"

definition strbuf_resize :: "alloc \<Rightarrow> strbuf \<Rightarrow> int \<Rightarrow> strbuf res" where
  "strbuf_resize A s len =
     andthen (calculate_new_size s len) (\<lambda>newsize.
     (case realloc A (sb_buf s) newsize of
        None \<Rightarrow> Inl oom
      | Some m \<Rightarrow>
          andthen (c_int (sb_reallocs s + 1)) (\<lambda>r.
          Inr (s\<lparr>sb_size := newsize, sb_buf := Some m, sb_reallocs := r,
                 sb_blocks := (if sb_buf s = None then sb_blocks s + 1 else sb_blocks s)\<rparr>))))"

definition strbuf_ensure_empty_length :: "alloc \<Rightarrow> strbuf \<Rightarrow> int \<Rightarrow> strbuf res" where
  "strbuf_ensure_empty_length A s len =
     andthen (strbuf_empty_length s) (\<lambda>e.
     if len > e then andthen (c_int (sb_length s + len)) (strbuf_resize A s) else Inr s)"

subsection \<open>Appending\<close>

definition strbuf_append_char_unsafe :: "strbuf \<Rightarrow> char \<Rightarrow> strbuf res" where
  "strbuf_append_char_unsafe s c =
     andthen (poke_mem (sb_buf s) (sb_length s) [c]) (\<lambda>b.
     andthen (c_int (sb_length s + 1)) (\<lambda>n. Inr (s\<lparr>sb_buf := b, sb_length := n\<rparr>)))"

definition strbuf_append_char :: "alloc \<Rightarrow> strbuf \<Rightarrow> char \<Rightarrow> strbuf res" where
  "strbuf_append_char A s c =
     andthen (strbuf_ensure_empty_length A s 1) (\<lambda>s. strbuf_append_char_unsafe s c)"

definition strbuf_append_mem_unsafe :: "strbuf \<Rightarrow> string \<Rightarrow> int \<Rightarrow> strbuf res" where
  "strbuf_append_mem_unsafe s c len =
     (if to_size len > int (length c) then Inl (UB Oob_read)
      else andthen (poke_mem (sb_buf s) (sb_length s) (take (nat len) c)) (\<lambda>b.
           andthen (c_int (sb_length s + len)) (\<lambda>n. Inr (s\<lparr>sb_buf := b, sb_length := n\<rparr>))))"

definition strbuf_append_mem :: "alloc \<Rightarrow> strbuf \<Rightarrow> string \<Rightarrow> int \<Rightarrow> strbuf res" where
  "strbuf_append_mem A s c len =
     andthen (strbuf_ensure_empty_length A s len) (\<lambda>s. strbuf_append_mem_unsafe s c len)"

text \<open>
  \<open>strbuf_append_string\<close> keeps a local count of the space left; the string ends at its first
  NUL.
\<close>

fun append_string_loop :: "alloc \<Rightarrow> strbuf \<Rightarrow> int \<Rightarrow> string \<Rightarrow> strbuf res" where
  "append_string_loop A s space [] = Inr s"
| "append_string_loop A s space (c # str) =
     (if c = NUL then Inr s
      else andthen
        (if space < 1
         then andthen (c_int (sb_length s + 1)) (\<lambda>n.
              andthen (strbuf_resize A s n) (\<lambda>s'.
              andthen (strbuf_empty_length s') (\<lambda>e. Inr (s', e))))
         else Inr (s, space)) (\<lambda>(s', space').
        andthen (strbuf_append_char_unsafe s' c) (\<lambda>s''.
        andthen (c_int (space' - 1)) (\<lambda>space''. append_string_loop A s'' space'' str))))"

definition strbuf_append_string :: "alloc \<Rightarrow> strbuf \<Rightarrow> string \<Rightarrow> strbuf res" where
  "strbuf_append_string A s str =
     andthen (strbuf_empty_length s) (\<lambda>space. append_string_loop A s space str)"

text \<open>
  The formatted appends. \<open>out\<close> is the complete text the format produces and \<open>None\<close> an encoding
  error: \<open>vsnprintf\<close> stores at most \<open>n - 1\<close> of its characters and a NUL, and returns its
  length, or -1.
\<close>

definition vsnprintf :: "block option \<Rightarrow> int \<Rightarrow> int \<Rightarrow> string option \<Rightarrow> (block option \<times> int) res" where
  "vsnprintf p i n out =
     (case out of
        None \<Rightarrow> Inr (p, -1)
      | Some t \<Rightarrow>
          if to_size n = 0 then Inr (p, int (length t))
          else andthen (poke_mem p i (take (nat (to_size n) - 1) t @ [NUL])) (\<lambda>p'.
               Inr (p', int (length t))))"

definition strbuf_append_fmt :: "alloc \<Rightarrow> strbuf \<Rightarrow> int \<Rightarrow> string option \<Rightarrow> strbuf res" where
  "strbuf_append_fmt A s len out =
     andthen (strbuf_ensure_empty_length A s len) (\<lambda>s.
     andthen (vsnprintf (sb_buf s) (sb_length s) len out) (\<lambda>(b, fmt_len).
     if fmt_len < 0 then Inl (Die ''BUG: Unable to convert number'')
     else andthen (c_int (sb_length s + fmt_len)) (\<lambda>n. Inr (s\<lparr>sb_buf := b, sb_length := n\<rparr>))))"

text \<open>The retry loop runs its body at most twice, since the second failure dies.\<close>

definition fmt_attempt :: "strbuf \<Rightarrow> string option \<Rightarrow> (block option \<times> int \<times> int) res" where
  "fmt_attempt s out =
     andthen (strbuf_empty_length s) (\<lambda>empty_len.
     andthen (c_int (empty_len + 1)) (\<lambda>n.
     andthen (vsnprintf (sb_buf s) (sb_length s) n out) (\<lambda>(b, fmt_len). Inr (b, fmt_len, empty_len))))"

fun append_fmt_try :: "alloc \<Rightarrow> nat \<Rightarrow> strbuf \<Rightarrow> string option \<Rightarrow> strbuf res" where
  "append_fmt_try A 0 s out =
     andthen (fmt_attempt s out) (\<lambda>(b, fmt_len, empty_len).
     if fmt_len \<le> empty_len
     then andthen (c_int (sb_length s + fmt_len)) (\<lambda>m. Inr (s\<lparr>sb_buf := b, sb_length := m\<rparr>))
     else Inl (Die ''BUG: length of formatted string changed''))"
| "append_fmt_try A (Suc k) s out =
     andthen (fmt_attempt s out) (\<lambda>(b, fmt_len, empty_len).
     if fmt_len \<le> empty_len
     then andthen (c_int (sb_length s + fmt_len)) (\<lambda>m. Inr (s\<lparr>sb_buf := b, sb_length := m\<rparr>))
     else andthen (c_int (sb_length s + fmt_len)) (\<lambda>m.
          andthen (strbuf_resize A (s\<lparr>sb_buf := b\<rparr>) m) (\<lambda>s'. append_fmt_try A k s' out)))"

definition strbuf_append_fmt_retry :: "alloc \<Rightarrow> strbuf \<Rightarrow> string option \<Rightarrow> strbuf res" where
  "strbuf_append_fmt_retry A s out = append_fmt_try A 1 s out"

section \<open>Soundness of a buffer\<close>

text \<open>
  \<open>sb_ok\<close>: the block has the recorded size, the text and a terminator fit, and the number of
  reallocations is at most the logarithm of the size (every growth at least doubles it), so
  that counter cannot overflow; the buffer holds one block of the heap, the one it uses. \<open>res_err A n\<close> are the failures an operation may have that asks
  for room for \<open>n\<close> characters: an exhausted allocator, or, from a gigabyte on, an \<open>int\<close>
  overflow in the computation of the new size.
\<close>

definition sb_ok :: "strbuf \<Rightarrow> bool" where
  "sb_ok s \<longleftrightarrow>
     (case sb_buf s of None \<Rightarrow> False | Some m \<Rightarrow> int (length m) = sb_size s)
     \<and> 0 \<le> sb_length s \<and> sb_length s < sb_size s \<and> sb_size s \<le> INT_MAX
     \<and> sb_increment s = STRBUF_DEFAULT_INCREMENT
     \<and> 0 \<le> sb_reallocs s \<and> 2 ^ nat (sb_reallocs s) \<le> sb_size s
     \<and> sb_blocks s = 1"

definition sb_rep :: "strbuf \<Rightarrow> string \<Rightarrow> bool" where
  "sb_rep s cs \<longleftrightarrow>
     sb_ok s \<and> sb_length s = int (length cs)
     \<and> take (length cs) (the (sb_buf s)) = map Some cs"

definition sb_room :: "strbuf \<Rightarrow> int" where
  "sb_room s = sb_size s - sb_length s - 1"

definition res_err :: "alloc \<Rightarrow> nat \<Rightarrow> cerr \<Rightarrow> bool" where
  "res_err A n e \<longleftrightarrow>
     (e = oom \<and> (\<exists>k. \<not> A k)) \<or> (e = UB Signed_overflow \<and> 2 ^ 30 \<le> n)"

lemma res_err_mono: "res_err A n e \<Longrightarrow> n \<le> m \<Longrightarrow> res_err A m e"
  by (auto simp: res_err_def)

lemma sb_okD:
  assumes "sb_ok s"
  obtains m where "sb_buf s = Some m" "int (length m) = sb_size s"
  using assms by (auto simp: sb_ok_def split: option.splits)

lemma sb_ok_reallocs: "sb_ok s \<Longrightarrow> sb_reallocs s < 31"
proof -
  assume ok: "sb_ok s"
  then have "(2::int) ^ nat (sb_reallocs s) < 2 ^ 31" by (simp add: sb_ok_def INT_MAX_def)
  then have "nat (sb_reallocs s) < 31" by (rule power_less_imp_less_exp[rotated]) simp
  then show ?thesis using ok by (simp add: sb_ok_def)
qed

lemma grow_double:
  assumes "1 \<le> n" "n < 2 ^ 31" "2 ^ 31 \<le> n * 2 ^ k"
  shows "wpr (\<lambda>e. e = UB Signed_overflow \<and> 2 ^ 30 < req)
           (\<lambda>r. req \<le> r \<and> n \<le> r \<and> r < 2 ^ 31 \<and> (n < req \<longrightarrow> 2 * n \<le> r)) (grow (Suc k) (-2) req n)"
  using assms
proof (induction k arbitrary: n)
  case 0
  then show ?case by simp
next
  case (Suc k)
  show ?case
  proof (cases "n < req \<and> 2 * n < 2 ^ 31")
    case True
    have "wpr (\<lambda>e. e = UB Signed_overflow \<and> 2 ^ 30 < req)
      (\<lambda>r. req \<le> r \<and> n * 2 \<le> r \<and> r < 2 ^ 31 \<and> (n * 2 < req \<longrightarrow> 2 * (n * 2) \<le> r)) (grow (Suc k) (-2) req (n * 2))"
      using True Suc.prems by (intro Suc.IH) (auto simp: algebra_simps)
    then show ?thesis using True Suc.prems
      by (subst grow.simps) (auto simp: int_ok_iff simp del: grow.simps elim!: wpr_mono)
  next
    case False
    then show ?thesis using Suc.prems by (auto simp: wpr_c_int int_ok_iff)
  qed
qed


lemma resize_spec:
  assumes rep: "sb_rep s cs" and len: "sb_size s \<le> len" "len < 2 ^ 31"
  shows "wpr (res_err A (nat len))
           (\<lambda>s'. sb_rep s' cs \<and> len < sb_size s' \<and> sb_dynamic s' = sb_dynamic s)
           (strbuf_resize A s len)"
proof -
  from rep have ok: "sb_ok s" and rc: "sb_length s = int (length cs)"
      "take (length cs) (the (sb_buf s)) = map Some cs" by (simp_all add: sb_rep_def)
  from ok obtain m where m: "sb_buf s = Some m" "int (length m) = sb_size s" by (rule sb_okD)
  have sz: "1 \<le> sb_size s" "sb_length s < sb_size s" and inc: "sb_increment s = -2"
    and re: "0 \<le> sb_reallocs s" "2 ^ nat (sb_reallocs s) \<le> sb_size s" "sb_blocks s = 1"
    using ok by (auto simp: sb_ok_def STRBUF_DEFAULT_INCREMENT_def)
  have "wpr (\<lambda>e. e = UB Signed_overflow \<and> 2 ^ 30 \<le> nat len)
      (\<lambda>r. len < r \<and> 2 * sb_size s \<le> r \<and> r < 2 ^ 31) (calculate_new_size s len)"
  proof (cases "int_ok (len + 1)")
    case True
    have "wpr (\<lambda>e. e = UB Signed_overflow \<and> 2 ^ 30 < len + 1)
        (\<lambda>r. len + 1 \<le> r \<and> sb_size s \<le> r \<and> r < 2 ^ 31
           \<and> (sb_size s < len + 1 \<longrightarrow> 2 * sb_size s \<le> r)) (grow 34 (-2) (len + 1) (sb_size s))"
      using grow_double[of "sb_size s" 33 "len + 1"] sz len by (simp del: grow.simps)
    then show ?thesis using True sz len inc
      by (auto simp: calculate_new_size_def simp del: grow.simps elim!: wpr_mono)
  next
    case False
    then show ?thesis using sz len
      by (auto simp: calculate_new_size_def wpr_c_int int_ok_iff)
  qed
  then show ?thesis
    unfolding strbuf_resize_def wpr_andthen
  proof (rule wpr_mono)
    fix r assume r: "len < r \<and> 2 * sb_size s \<le> r \<and> r < 2 ^ 31"
    have r1: "2 ^ nat (sb_reallocs s + 1) \<le> r"
      using re r by (simp add: nat_add_distrib)
    have "int_ok (sb_reallocs s + 1)"
      using sb_ok_reallocs[OF ok] re by (simp add: int_ok_iff)
    moreover have "take (length cs) (take (nat r) m @ replicate (nat r - length m) None) = map Some cs"
    proof -
      have "length m \<le> nat r" "length cs \<le> length m" using rc m sz r by linarith+
      then show ?thesis using rc(2) m by simp
    qed
    ultimately show "wpr (res_err A (nat len))
       (\<lambda>s'. sb_rep s' cs \<and> len < sb_size s' \<and> sb_dynamic s' = sb_dynamic s)
       (case realloc A (sb_buf s) r of None \<Rightarrow> Inl oom
         | Some m \<Rightarrow> andthen (c_int (sb_reallocs s + 1))
             (\<lambda>q. Inr (s\<lparr>sb_size := r, sb_buf := Some m, sb_reallocs := q,
                sb_blocks := (if sb_buf s = None then sb_blocks s + 1 else sb_blocks s)\<rparr>)))"
      using r r1 re rc sz m inc by (auto simp: realloc_def Let_def res_err_def sb_rep_def sb_ok_def
          INT_MAX_def STRBUF_DEFAULT_INCREMENT_def)
  qed (auto simp: res_err_def)
qed

lemma ensure_spec:
  assumes rep: "sb_rep s cs" and len: "len < 2 ^ 31"
  shows "wpr (res_err A (nat (int (length cs) + len)))
           (\<lambda>s'. sb_rep s' cs \<and> len \<le> sb_room s' \<and> sb_dynamic s' = sb_dynamic s)
           (strbuf_ensure_empty_length A s len)"
proof -
  have ok: "0 \<le> sb_length s" "sb_length s < sb_size s" "sb_size s < 2 ^ 31" "sb_length s = int (length cs)"
    using rep by (auto simp: sb_rep_def sb_ok_def INT_MAX_def)
  have e: "strbuf_empty_length s = Inr (sb_room s)"
    using ok by (simp add: strbuf_empty_length_def sb_room_def int_ok_iff)
  show ?thesis
  proof (cases "len > sb_room s")
    case True
    show ?thesis
    proof (cases "int_ok (sb_length s + len)")
      case ok': True
      have "wpr (res_err A (nat (sb_length s + len)))
           (\<lambda>s'. sb_rep s' cs \<and> sb_length s + len < sb_size s' \<and> sb_dynamic s' = sb_dynamic s)
           (strbuf_resize A s (sb_length s + len))"
        using True ok' by (intro resize_spec rep) (auto simp: sb_room_def int_ok_iff)
      then show ?thesis using e True ok' ok
        by (auto simp: strbuf_ensure_empty_length_def sb_room_def sb_rep_def elim!: wpr_conseq)
    next
      case False
      then show ?thesis using e True ok len
        by (auto simp: strbuf_ensure_empty_length_def wpr_c_int res_err_def int_ok_iff sb_room_def)
    qed
  qed (simp add: strbuf_ensure_empty_length_def e rep)
qed

lemma rep_facts:
  assumes "sb_rep s cs"
  shows "sb_length s = int (length cs)" "0 \<le> sb_room s" "sb_size s < 2 ^ 31"
    "strbuf_empty_length s = Inr (sb_room s)"
    "int (length cs) + sb_room s < 2 ^ 31 - 1"
  using assms by (auto simp: sb_rep_def sb_ok_def INT_MAX_def sb_room_def
      strbuf_empty_length_def int_ok_iff)

lemma poke_gen:
  assumes rep: "sb_rep s cs" and room: "int (length ds) \<le> sb_room s + 1"
  obtains b where "poke_mem (sb_buf s) (sb_length s) ds = Inr b"
    "\<And>k. k \<le> length ds \<Longrightarrow> int k \<le> sb_room s \<Longrightarrow>
       sb_rep (s\<lparr>sb_buf := b, sb_length := int (length cs + k)\<rparr>) (cs @ take k ds)"
proof -
  from rep have ok: "sb_ok s" and rc: "sb_length s = int (length cs)"
      "take (length cs) (the (sb_buf s)) = map Some cs" by (simp_all add: sb_rep_def)
  from ok obtain m where m: "sb_buf s = Some m" "int (length m) = sb_size s" by (rule sb_okD)
  have le: "length cs + length ds \<le> length m"
    using room rc m unfolding sb_room_def by linarith
  let ?b = "take (length cs) m @ map Some ds @ drop (length cs + length ds) m"
  have "poke_mem (sb_buf s) (sb_length s) ds = Inr (Some ?b)"
    using le rc m by (simp add: poke_mem_def)
  moreover have "sb_rep (s\<lparr>sb_buf := Some ?b, sb_length := int (length cs + k)\<rparr>) (cs @ take k ds)"
    if "k \<le> length ds" "int k \<le> sb_room s" for k
    using ok rc m le that by (auto simp: sb_rep_def sb_ok_def sb_room_def take_map)
  ultimately show ?thesis by (rule that)
qed

lemma poke_append:
  assumes rep: "sb_rep s cs" and room: "int (length ds) \<le> sb_room s"
  obtains b where "poke_mem (sb_buf s) (sb_length s) ds = Inr b"
    "sb_rep (s\<lparr>sb_buf := b, sb_length := int (length (cs @ ds))\<rparr>) (cs @ ds)"
proof (rule poke_gen[OF rep])
  show "int (length ds) \<le> sb_room s + 1" using room by simp
next
  fix b assume "poke_mem (sb_buf s) (sb_length s) ds = Inr b"
    "\<And>k. k \<le> length ds \<Longrightarrow> int k \<le> sb_room s \<Longrightarrow>
       sb_rep (s\<lparr>sb_buf := b, sb_length := int (length cs + k)\<rparr>) (cs @ take k ds)"
  from this(1) this(2)[of "length ds"] room show thesis by (intro that) simp_all
qed

lemma append_char_unsafe_spec:
  assumes rep: "sb_rep s cs" and room: "1 \<le> sb_room s"
  shows "wpr E (\<lambda>s'. sb_rep s' (cs @ [c]) \<and> sb_room s' = sb_room s - 1 \<and> sb_dynamic s' = sb_dynamic s)
           (strbuf_append_char_unsafe s c)"
proof -
  from poke_append[OF rep, of "[c]"] room obtain b where
    b: "poke_mem (sb_buf s) (sb_length s) [c] = Inr b"
       "sb_rep (s\<lparr>sb_buf := b, sb_length := int (length (cs @ [c]))\<rparr>) (cs @ [c])" by auto
  then show ?thesis using rep_facts[OF rep]
    by (simp add: strbuf_append_char_unsafe_def int_ok_iff sb_room_def add.commute)
qed

lemma append_char_spec:
  assumes rep: "sb_rep s cs"
  shows "wpr (res_err A (length cs + 1)) (\<lambda>s'. sb_rep s' (cs @ [c]) \<and> sb_dynamic s' = sb_dynamic s)
           (strbuf_append_char A s c)"
  unfolding strbuf_append_char_def wpr_andthen
  by (rule wpr_mono[OF ensure_spec[OF rep]])
    (auto simp: nat_add_distrib intro: wpr_mono[OF append_char_unsafe_spec])

lemma append_mem_unsafe_spec:
  assumes rep: "sb_rep s cs" and room: "int (length ds) \<le> sb_room s" and n: "n = int (length ds)"
  shows "wpr E (\<lambda>s'. sb_rep s' (cs @ ds) \<and> sb_room s' = sb_room s - n \<and> sb_dynamic s' = sb_dynamic s)
           (strbuf_append_mem_unsafe s ds n)"
proof -
  from poke_append[OF rep room] obtain b where
    b: "poke_mem (sb_buf s) (sb_length s) ds = Inr b"
       "sb_rep (s\<lparr>sb_buf := b, sb_length := int (length (cs @ ds))\<rparr>) (cs @ ds)" by auto
  then show ?thesis using rep_facts[OF rep] room n
    by (simp add: strbuf_append_mem_unsafe_def int_ok_iff sb_room_def)
qed

lemma append_mem_spec:
  assumes rep: "sb_rep s cs" and n: "n = int (length ds)" "n < 2 ^ 31"
  shows "wpr (res_err A (length cs + length ds))
           (\<lambda>s'. sb_rep s' (cs @ ds) \<and> sb_dynamic s' = sb_dynamic s) (strbuf_append_mem A s ds n)"
  unfolding strbuf_append_mem_def wpr_andthen
  by (rule wpr_mono[OF ensure_spec[OF rep n(2)]])
    (use n in \<open>auto simp: nat_add_distrib nat_int_add intro: wpr_mono[OF append_mem_unsafe_spec]\<close>)

lemma append_string_loop_spec:
  assumes "sb_rep s cs" "space = sb_room s" "NUL \<notin> set str"
  shows "wpr (res_err A (length cs + length str))
           (\<lambda>s'. sb_rep s' (cs @ str) \<and> sb_dynamic s' = sb_dynamic s
             \<and> (int (length str) \<le> sb_room s \<longrightarrow> sb_room s' = sb_room s - int (length str)))
           (append_string_loop A s space str)"
  using assms
proof (induction str arbitrary: s cs space)
  case (Cons c str)
  note rep = Cons.prems(1)
  have step: "wpr (res_err A (length cs + length (c # str)))
      (\<lambda>s'. sb_rep s' (cs @ c # str) \<and> sb_dynamic s' = sb_dynamic s
         \<and> (int (length str) \<le> sb_room t - 1 \<longrightarrow> sb_room s' = sb_room t - 1 - int (length str)))
      (andthen (strbuf_append_char_unsafe t c) (\<lambda>s''.
       andthen (c_int (sb_room t - 1)) (\<lambda>space''. append_string_loop A s'' space'' str)))"
    if t: "sb_rep t cs" "1 \<le> sb_room t" "sb_dynamic t = sb_dynamic s" for t
  proof -
    have i: "int_ok (sb_room t - 1)" using rep_facts[OF t(1)] t(2) by (simp add: int_ok_iff)
    show ?thesis unfolding wpr_andthen
    proof (rule wpr_mono[OF append_char_unsafe_spec[OF t(1,2)]])
      fix u assume u: "sb_rep u (cs @ [c]) \<and> sb_room u = sb_room t - 1 \<and> sb_dynamic u = sb_dynamic t"
      have "wpr (res_err A (length (cs @ [c]) + length str))
           (\<lambda>s'. sb_rep s' ((cs @ [c]) @ str) \<and> sb_dynamic s' = sb_dynamic u
             \<and> (int (length str) \<le> sb_room u \<longrightarrow> sb_room s' = sb_room u - int (length str)))
           (append_string_loop A u (sb_room t - 1) str)"
        using u Cons.prems(3) by (intro Cons.IH) auto
      then show "wpr (res_err A (length cs + length (c # str))) (\<lambda>space''. wpr (res_err A (length cs + length (c # str)))
          (\<lambda>s'. sb_rep s' (cs @ c # str) \<and> sb_dynamic s' = sb_dynamic s
            \<and> (int (length str) \<le> sb_room t - 1 \<longrightarrow> sb_room s' = sb_room t - 1 - int (length str)))
          (append_string_loop A u space'' str)) (c_int (sb_room t - 1))"
        using u t(3) by (simp add: i)
    qed auto
  qed
  show ?case
  proof (cases "space < 1")
    case False
    then show ?thesis using step[OF rep] Cons.prems by (auto elim!: wpr_conseq)
  next
    case True
    have sz: "sb_size s \<le> sb_length s + 1" and ok: "sb_length s + 1 < 2 ^ 31" "int_ok (sb_length s + 1)"
      using True Cons.prems(2) rep_facts[OF rep] by (auto simp: sb_room_def int_ok_iff)
    have "wpr (res_err A (length cs + length (c # str)))
      (\<lambda>t. sb_rep t cs \<and> 1 \<le> sb_room t \<and> sb_dynamic t = sb_dynamic s)
      (strbuf_resize A s (sb_length s + 1))"
      by (rule wpr_mono[OF resize_spec[OF rep sz ok(1)]])
        (use rep_facts[OF rep] in \<open>auto simp: sb_room_def sb_rep_def elim: res_err_mono\<close>)
    then have "wpr (res_err A (length cs + length (c # str)))
      (\<lambda>t. wpr (res_err A (length cs + length (c # str)))
        (\<lambda>s'. sb_rep s' (cs @ c # str) \<and> sb_dynamic s' = sb_dynamic s)
        (andthen (strbuf_append_char_unsafe t c) (\<lambda>s''.
         andthen (c_int (sb_room t - 1)) (\<lambda>space''. append_string_loop A s'' space'' str)))
        \<and> sb_rep t cs)
      (strbuf_resize A s (sb_length s + 1))"
    proof (rule wpr_conseq)
      fix t assume t: "sb_rep t cs \<and> 1 \<le> sb_room t \<and> sb_dynamic t = sb_dynamic s"
      note st = step[of t]
      show "wpr (res_err A (length cs + length (c # str)))
        (\<lambda>s'. sb_rep s' (cs @ c # str) \<and> sb_dynamic s' = sb_dynamic s)
        (andthen (strbuf_append_char_unsafe t c) (\<lambda>s''.
         andthen (c_int (sb_room t - 1)) (\<lambda>space''. append_string_loop A s'' space'' str)))
        \<and> sb_rep t cs"
        by (rule conjI, rule wpr_conseq, rule st) (use t in blast)+
    qed
    then have "wpr (res_err A (length cs + length (c # str)))
      (\<lambda>s'. sb_rep s' (cs @ c # str) \<and> sb_dynamic s' = sb_dynamic s)
      (append_string_loop A s space (c # str))"
      using True Cons.prems(3) ok(2)
      by (auto simp: rep_facts(4) elim!: wpr_mono)
    then show ?thesis using True Cons.prems(2) by (auto elim!: wpr_conseq)
  qed
qed simp


lemma append_string_spec:
  assumes rep: "sb_rep s cs" and "NUL \<notin> set str"
  shows "wpr (res_err A (length cs + length str))
           (\<lambda>s'. sb_rep s' (cs @ str) \<and> sb_dynamic s' = sb_dynamic s
             \<and> (int (length str) \<le> sb_room s \<longrightarrow> sb_room s' = sb_room s - int (length str)))
           (strbuf_append_string A s str)"
  unfolding strbuf_append_string_def rep_facts(4)[OF rep]
  using append_string_loop_spec[OF rep refl assms(2)] by simp

lemma vsnprintf_fits:
  assumes rep: "sb_rep s cs" and t: "int (length t) < len" "len \<le> sb_room s + 1"
  obtains b where "vsnprintf (sb_buf s) (sb_length s) len (Some t) = Inr (b, int (length t))"
    "sb_rep (s\<lparr>sb_buf := b, sb_length := int (length cs + length t)\<rparr>) (cs @ t)"
proof -
  have tk: "take (nat len - 1) t = t" using t(1) by simp
  have sz: "to_size len = len" "len \<noteq> 0" using t rep_facts(5)[OF rep] by auto
  show thesis
  proof (rule poke_gen[OF rep, of "t @ [NUL]"])
    show "int (length (t @ [NUL])) \<le> sb_room s + 1" using t by simp
  next
    fix b assume b: "poke_mem (sb_buf s) (sb_length s) (t @ [NUL]) = Inr b"
      "\<And>k. k \<le> length (t @ [NUL]) \<Longrightarrow> int k \<le> sb_room s \<Longrightarrow>
         sb_rep (s\<lparr>sb_buf := b, sb_length := int (length cs + k)\<rparr>) (cs @ take k (t @ [NUL]))"
    show thesis
      using b(1) b(2)[of "length t"] t by (intro that[of b]) (simp_all add: vsnprintf_def sz tk)
  qed
qed

lemma append_fmt_spec:
  assumes rep: "sb_rep s cs" and t: "int (length t) < len" "len < 2 ^ 31"
  shows "wpr (res_err A (length cs + nat len))
           (\<lambda>s'. sb_rep s' (cs @ t) \<and> sb_dynamic s' = sb_dynamic s) (strbuf_append_fmt A s len (Some t))"
  unfolding strbuf_append_fmt_def wpr_andthen
proof (rule wpr_mono[OF ensure_spec[OF rep t(2)]])
  fix u assume u: "sb_rep u cs \<and> len \<le> sb_room u \<and> sb_dynamic u = sb_dynamic s"
  then have ru: "sb_rep u cs" by simp
  note f = rep_facts[OF ru]
  from vsnprintf_fits[OF ru t(1)] u obtain b where
    b: "vsnprintf (sb_buf u) (sb_length u) len (Some t) = Inr (b, int (length t))"
      "sb_rep (u\<lparr>sb_buf := b, sb_length := int (length cs + length t)\<rparr>) (cs @ t)" by auto
  have "int_ok (sb_length u + int (length t))" using f t u by (simp add: int_ok_iff)
  then show "wpr (res_err A (length cs + nat len)) (\<lambda>x. wpr (res_err A (length cs + nat len))
       (\<lambda>s'. sb_rep s' (cs @ t) \<and> sb_dynamic s' = sb_dynamic s)
       (case x of (b, fmt_len) \<Rightarrow> if fmt_len < 0 then Inl (Die ''BUG: Unable to convert number'')
          else andthen (c_int (sb_length u + fmt_len)) (\<lambda>n. Inr (u\<lparr>sb_buf := b, sb_length := n\<rparr>))))
       (vsnprintf (sb_buf u) (sb_length u) len (Some t))"
    using b u f(1) by simp
qed (use t in \<open>auto simp: nat_add_distrib elim: res_err_mono\<close>)

lemma fmt_attempt_fits:
  assumes rep: "sb_rep s cs" and t: "int (length t) \<le> sb_room s"
  obtains b where "fmt_attempt s (Some t) = Inr (b, int (length t), sb_room s)"
    "sb_rep (s\<lparr>sb_buf := b, sb_length := int (length cs + length t)\<rparr>) (cs @ t)"
proof -
  note f = rep_facts[OF rep]
  have i: "int_ok (sb_room s + 1)" using f by (simp add: int_ok_iff)
  from vsnprintf_fits[OF rep, of t "sb_room s + 1"] t obtain b where
    "vsnprintf (sb_buf s) (sb_length s) (sb_room s + 1) (Some t) = Inr (b, int (length t))"
      "sb_rep (s\<lparr>sb_buf := b, sb_length := int (length cs + length t)\<rparr>) (cs @ t)" by auto
  then show thesis using i f(4) by (intro that[of b]) (simp_all add: fmt_attempt_def)
qed

lemma fmt_attempt_short:
  assumes rep: "sb_rep s cs" and t: "sb_room s < int (length t)"
  obtains b where "fmt_attempt s (Some t) = Inr (b, int (length t), sb_room s)"
    "sb_rep (s\<lparr>sb_buf := b\<rparr>) cs"
proof -
  note f = rep_facts[OF rep]
  have i: "int_ok (sb_room s + 1)" "to_size (sb_room s + 1) = sb_room s + 1" "sb_room s + 1 \<noteq> 0"
    using f by (auto simp: int_ok_iff)
  let ?ds = "take (nat (sb_room s + 1) - 1) t @ [NUL]"
  show thesis
  proof (rule poke_gen[OF rep, of ?ds])
    show "int (length ?ds) \<le> sb_room s + 1" using f(2) t by simp
  next
    fix b assume b: "poke_mem (sb_buf s) (sb_length s) ?ds = Inr b"
      "\<And>k. k \<le> length ?ds \<Longrightarrow> int k \<le> sb_room s \<Longrightarrow>
         sb_rep (s\<lparr>sb_buf := b, sb_length := int (length cs + k)\<rparr>) (cs @ take k ?ds)"
    have e: "s\<lparr>sb_buf := b, sb_length := int (length cs + 0)\<rparr> = s\<lparr>sb_buf := b\<rparr>"
      using f(1) by simp
    have "sb_rep (s\<lparr>sb_buf := b\<rparr>) cs"
      using b(2)[of 0, unfolded e] f(2) by simp
    then show thesis using b(1) f i
      by (intro that[of b]) (simp_all add: fmt_attempt_def vsnprintf_def)
  qed
qed

lemma append_fmt_try_fits:
  assumes rep: "sb_rep s cs" and t: "int (length t) \<le> sb_room s"
  shows "wpr E (\<lambda>s'. sb_rep s' (cs @ t) \<and> sb_dynamic s' = sb_dynamic s)
           (append_fmt_try A k s (Some t))"
proof -
  note f = rep_facts[OF rep]
  have i: "int_ok (sb_length s + int (length t))" using f t by (simp add: int_ok_iff)
  from fmt_attempt_fits[OF rep t] obtain b where b:
    "fmt_attempt s (Some t) = Inr (b, int (length t), sb_room s)"
    "sb_rep (s\<lparr>sb_buf := b, sb_length := int (length cs + length t)\<rparr>) (cs @ t)" .
  show ?thesis
  proof (cases k)
    case 0
    show ?thesis unfolding 0 append_fmt_try.simps b(1) andthen_simps prod.case if_P[OF t] c_int_ok[OF i] using b f(1) by simp
  next
    case (Suc k)
    show ?thesis unfolding Suc append_fmt_try.simps(2) b(1) andthen_simps prod.case if_P[OF t] c_int_ok[OF i] using b f(1) by simp
  qed
qed

lemma append_fmt_retry_spec:
  assumes rep: "sb_rep s cs" and t: "int (length t) < 2 ^ 31"
  shows "wpr (res_err A (length cs + length t))
           (\<lambda>s'. sb_rep s' (cs @ t) \<and> sb_dynamic s' = sb_dynamic s)
           (strbuf_append_fmt_retry A s (Some t))"
proof (cases "int (length t) \<le> sb_room s")
  case True
  then show ?thesis
    unfolding strbuf_append_fmt_retry_def by (intro append_fmt_try_fits rep)
next
  case False
  note f = rep_facts[OF rep]
  from False have "sb_room s < int (length t)" by simp
  from fmt_attempt_short[OF rep this] obtain b where
    b: "fmt_attempt s (Some t) = Inr (b, int (length t), sb_room s)"
      "sb_rep (s\<lparr>sb_buf := b\<rparr>) cs" .
  show ?thesis
  proof (cases "int_ok (sb_length s + int (length t))")
    case ok: True
    have "wpr (res_err A (length cs + length t))
       (\<lambda>u. sb_rep u cs \<and> sb_length s + int (length t) < sb_size u \<and> sb_dynamic u = sb_dynamic s)
       (strbuf_resize A (s\<lparr>sb_buf := b\<rparr>) (sb_length s + int (length t)))"
      using resize_spec[OF b(2), of "sb_length s + int (length t)" A] False f ok
      by (auto simp: sb_room_def int_ok_iff nat_add_distrib elim!: wpr_mono)
    then have "wpr (res_err A (length cs + length t))
       (\<lambda>u. wpr (res_err A (length cs + length t))
          (\<lambda>s'. sb_rep s' (cs @ t) \<and> sb_dynamic s' = sb_dynamic s) (append_fmt_try A 0 u (Some t)))
       (strbuf_resize A (s\<lparr>sb_buf := b\<rparr>) (sb_length s + int (length t)))"
    proof (rule wpr_conseq)
      fix u assume u: "sb_rep u cs \<and> sb_length s + int (length t) < sb_size u
        \<and> sb_dynamic u = sb_dynamic s"
      then have "int (length t) \<le> sb_room u"
        using f(1) rep_facts(1)[of u cs] by (auto simp: sb_room_def)
      then show "wpr (res_err A (length cs + length t))
          (\<lambda>s'. sb_rep s' (cs @ t) \<and> sb_dynamic s' = sb_dynamic s) (append_fmt_try A 0 u (Some t))"
        using append_fmt_try_fits[of u cs t "res_err A (length cs + length t)" A 0] u
        by (simp del: append_fmt_try.simps)
    qed
    then show ?thesis
      unfolding strbuf_append_fmt_retry_def One_nat_def append_fmt_try.simps(2) b(1) andthen_simps
        prod.case if_not_P[OF False] c_int_ok[OF ok] wpr_andthen .
  next
    case bad: False
    then have "res_err A (length cs + length t) (UB Signed_overflow)"
      using f t by (auto simp: int_ok_iff res_err_def)
    then show ?thesis
      unfolding strbuf_append_fmt_retry_def One_nat_def append_fmt_try.simps(2) b(1) andthen_simps
        prod.case if_not_P[OF False] wpr_andthen wpr_c_int if_not_P[OF bad] .
  qed
qed

lemma init_block:
  assumes "1 \<le> sz" "sz < 2 ^ 31"
  shows "wpr E (\<lambda>s. sb_rep s [] \<and> sb_dynamic s = 0 \<and> sb_room s = sz - 1)
    (strbuf_ensure_null
      \<lparr>sb_buf = Some (replicate (nat sz) None), sb_size = sz, sb_length = 0,
       sb_increment = STRBUF_DEFAULT_INCREMENT, sb_dynamic = 0, sb_reallocs = 0, sb_debug = 0, sb_blocks = 1\<rparr>)"
  using assms
  by (simp add: strbuf_ensure_null_def poke_mem_def sb_rep_def sb_ok_def INT_MAX_def sb_room_def
      Suc_le_eq)

lemma init_spec:
  assumes "int_ok len"
  shows "wpr (res_err A (nat len))
     (\<lambda>s. sb_rep s [] \<and> sb_dynamic s = 0 \<and> sb_room s = (if len \<le> 0 then 1022 else len))
     (strbuf_init A 0 len)"
proof -
  have *: "wpr (res_err A (nat len))
     (\<lambda>s. sb_rep s [] \<and> sb_dynamic s = 0 \<and> sb_room s = sz - 1)
     (case malloc A sz of
        None \<Rightarrow> Inl oom
      | Some m \<Rightarrow>
          strbuf_ensure_null
            \<lparr>sb_buf = Some m, sb_size = sz, sb_length = 0,
             sb_increment = STRBUF_DEFAULT_INCREMENT, sb_dynamic = 0, sb_reallocs = 0,
             sb_debug = 0, sb_blocks = 0 + 1\<rparr>)" if "1 \<le> sz" "sz < 2 ^ 31" for sz
    using init_block[OF that] that by (auto simp: malloc_def res_err_def)
  show ?thesis
  proof (cases "len \<le> 0")
    case True
    have d: "1 \<le> STRBUF_DEFAULT_SIZE" "STRBUF_DEFAULT_SIZE < 2 ^ 31" "STRBUF_DEFAULT_SIZE - 1 = 1022"
      by (simp_all add: STRBUF_DEFAULT_SIZE_def)
    show ?thesis using *[OF d(1,2)] True d(3) by (simp add: strbuf_init_def)
  next
    case False
    show ?thesis
    proof (cases "int_ok (len + 1)")
      case True
      then show ?thesis using *[of "len + 1"] False
        by (simp add: strbuf_init_def int_ok_iff)
    next
      case bad: False
      then have "res_err A (nat len) (UB Signed_overflow)"
        using assms by (auto simp: res_err_def int_ok_iff)
      then show ?thesis using False bad by (simp add: strbuf_init_def wpr_c_int)
    qed
  qed
qed

lemma sb_dynamic_upd [simp]:
  "sb_rep (s\<lparr>sb_dynamic := d\<rparr>) cs = sb_rep s cs"
  "sb_room (s\<lparr>sb_dynamic := d\<rparr>) = sb_room s"
  by (simp_all add: sb_rep_def sb_ok_def sb_room_def split: option.split)

lemma new_spec:
  assumes "int_ok len"
  shows "wpr (res_err A (nat len))
     (\<lambda>s. sb_rep s [] \<and> sb_dynamic s = 1 \<and> sb_room s = (if len \<le> 0 then 1022 else len))
     (strbuf_new A len)"
proof (cases "A strbuf_struct_bytes")
  case True
  then have "strbuf_new A len = andthen (strbuf_init A 0 len) (\<lambda>s. Inr (s\<lparr>sb_dynamic := 1\<rparr>))"
    by (simp add: strbuf_new_def)
  then show ?thesis
    by (simp only: wpr_andthen) (rule wpr_conseq[OF init_spec[OF assms]], simp)
qed (auto simp: strbuf_new_def res_err_def)

lemma contents_spec: "sb_rep s cs \<Longrightarrow> peek_mem (sb_buf s) (sb_length s) = Inr cs"
  by (auto simp: sb_rep_def sb_ok_def peek_mem_def comp_def split: option.splits)

lemma reset_spec: "sb_ok s \<Longrightarrow> sb_rep (strbuf_reset s) []"
  by (auto simp: sb_rep_def sb_ok_def strbuf_reset_def split: option.splits)

lemma ensure_null_spec:
  assumes "sb_rep s cs"
  shows "wpr E (\<lambda>s'. sb_rep s' cs \<and> sb_room s' = sb_room s \<and> sb_dynamic s' = sb_dynamic s) (strbuf_ensure_null s)"
proof (rule poke_gen[OF assms, of "[NUL]"])
  fix b assume b: "poke_mem (sb_buf s) (sb_length s) [NUL] = Inr b"
    "\<And>k. k \<le> length [NUL] \<Longrightarrow> int k \<le> sb_room s \<Longrightarrow>
       sb_rep (s\<lparr>sb_buf := b, sb_length := int (length cs + k)\<rparr>) (cs @ take k [NUL])"
  have "s\<lparr>sb_buf := b, sb_length := int (length cs + 0)\<rparr> = s\<lparr>sb_buf := b\<rparr>"
    using rep_facts(1)[OF assms] by simp
  then show ?thesis using b(1) b(2)[of 0] rep_facts(2)[OF assms]
    by (simp add: strbuf_ensure_null_def sb_room_def)
qed (use rep_facts(2)[OF assms] in simp)

section \<open>The growth loop\<close>

lemma grow_terminates:
  assumes "inc \<le> -2" "n \<noteq> 0" "2 ^ 32 \<le> \<bar>n\<bar> * 2 ^ k"
  shows "grow (Suc k) inc req n \<noteq> Inl Diverge"
  using assms
proof (induction k arbitrary: n)
  case 0
  have "\<not> int_ok (n * - inc)"
  proof -
    have "\<bar>n\<bar> * 2 \<le> \<bar>n\<bar> * \<bar>inc\<bar>" using 0 by (intro mult_left_mono) auto
    then show ?thesis using 0 by (auto simp: int_ok_iff abs_mult abs_if split: if_splits)
  qed
  then show ?case by (auto simp: andthen_eq_Inl c_int_def split: if_splits)
next
  case (Suc k)
  have "\<bar>n\<bar> * 2 \<le> \<bar>n\<bar> * \<bar>inc\<bar>" using Suc.prems by (intro mult_left_mono) auto
  then have "\<bar>n\<bar> * 2 \<le> \<bar>n * - inc\<bar>" by (simp only: abs_mult abs_minus_cancel)
  then have "\<bar>n\<bar> * 2 * 2 ^ k \<le> \<bar>n * - inc\<bar> * 2 ^ k" by (intro mult_right_mono) auto
  moreover have "\<bar>n\<bar> * 2 * 2 ^ k = \<bar>n\<bar> * 2 ^ Suc k" by simp
  ultimately have "2 ^ 32 \<le> \<bar>n * - inc\<bar> * 2 ^ k" using Suc.prems(3) by linarith
  moreover have "n * - inc \<noteq> 0" using Suc.prems(1,2) by simp
  ultimately have IH: "grow (Suc k) inc req (n * - inc) \<noteq> Inl Diverge"
    using Suc.prems(1) by (intro Suc.IH)
  then show ?case
    by (subst grow.simps) (auto simp: andthen_eq_Inl c_int_def simp del: grow.simps split: if_splits)
qed

lemma grow_stuck:
  assumes "n < req" "inc = -1 \<or> n = 0 \<and> int_ok (- inc)" "int_ok n"
  shows "grow k inc req n = Inl Diverge"
  using assms by (induction k) (auto simp: int_ok_iff)

text \<open>With a positive increment: the old size rounded up to a multiple of the increment.\<close>

definition linear_size :: "strbuf \<Rightarrow> int" where
  "linear_size s = (sb_size s + sb_increment s - 1) div sb_increment s * sb_increment s"

lemma linear_size_bounds:
  assumes "0 < sb_increment s"
  shows "sb_size s \<le> linear_size s" "linear_size s \<le> sb_size s + sb_increment s - 1"
proof -
  let ?a = "sb_size s + sb_increment s - 1"
  have "?a div sb_increment s * sb_increment s + ?a mod sb_increment s = ?a" by simp
  moreover have "0 \<le> ?a mod sb_increment s" "?a mod sb_increment s < sb_increment s"
    using assms by auto
  ultimately show "sb_size s \<le> linear_size s" "linear_size s \<le> ?a"
    unfolding linear_size_def by linarith+
qed

lemma linear_new_size:
  assumes "0 < sb_increment s" "0 < sb_size s" "int_ok (sb_size s + sb_increment s)"
    and "sb_size s \<le> len + 1" "int_ok (len + 1)" "0 < len"
  shows "calculate_new_size s len = Inr (linear_size s)"
proof -
  let ?a = "sb_size s + sb_increment s - 1" and ?i = "sb_increment s"
  have pos: "0 < ?a" using assms(1,2) by linarith
  have "?a div ?i \<le> ?a" "0 \<le> ?a div ?i"
    using pos assms(1) by (simp_all add: pos_imp_zdiv_nonneg_iff zdiv_mono2[of ?a 1 ?i, simplified])
  then have ok: "int_ok ?a" "int_ok (?a div ?i)" "int_ok (linear_size s)"
    using pos assms(1-3) linear_size_bounds[OF assms(1)] unfolding int_ok_iff by linarith+
  have "c_div ?a ?i = Inr (?a div ?i)"
    using pos assms(1) ok(2) by (simp add: c_div_def sgn_1_pos)
  then show ?thesis
    using assms ok by (simp add: calculate_new_size_def linear_size_def)
qed

section \<open>Appenders\<close>

text \<open>
  The contract every append operation is given: on a buffer holding \<open>cs\<close> it leaves one holding
  \<open>cs\<close> and the text of its argument, or fails for want of room. What it implies for a series
  of appends is proved once.
\<close>

locale appender =
  fixes app :: "alloc \<Rightarrow> strbuf \<Rightarrow> 'a \<Rightarrow> strbuf res"
    and app_text :: "'a \<Rightarrow> string"
    and app_need :: "'a \<Rightarrow> nat"
    and app_ok :: "'a \<Rightarrow> bool"
  assumes app_spec: "sb_rep s cs \<Longrightarrow> app_ok x \<Longrightarrow>
      wpr (res_err A (length cs + app_need x))
        (\<lambda>s'. sb_rep s' (cs @ app_text x) \<and> sb_dynamic s' = sb_dynamic s) (app A s x)"
    and app_need_text: "length (app_text x) \<le> app_need x"
begin

lemma app_fold:
  "sb_rep s cs \<Longrightarrow> list_all app_ok xs \<Longrightarrow>
     wpr (res_err A (length cs + sum_list (map app_need xs)))
       (\<lambda>s'. sb_rep s' (cs @ concat (map app_text xs)) \<and> sb_dynamic s' = sb_dynamic s)
       (fold_r (app A) xs s)"
proof (induction xs arbitrary: s cs)
  case (Cons x xs)
  have x: "wpr (res_err A (length cs + app_need x))
        (\<lambda>s'. sb_rep s' (cs @ app_text x) \<and> sb_dynamic s' = sb_dynamic s) (app A s x)"
    using Cons.prems by (intro app_spec) auto
  show ?case unfolding fold_r.simps wpr_andthen
  proof (rule wpr_mono[OF x])
    fix t assume t: "sb_rep t (cs @ app_text x) \<and> sb_dynamic t = sb_dynamic s"
    have "wpr (res_err A (length (cs @ app_text x) + sum_list (map app_need xs)))
       (\<lambda>s'. sb_rep s' ((cs @ app_text x) @ concat (map app_text xs)) \<and> sb_dynamic s' = sb_dynamic t)
       (fold_r (app A) xs t)"
      using t Cons.prems by (intro Cons.IH) auto
    then show "wpr (res_err A (length cs + sum_list (map app_need (x # xs))))
       (\<lambda>s'. sb_rep s' (cs @ concat (map app_text (x # xs))) \<and> sb_dynamic s' = sb_dynamic s)
       (fold_r (app A) xs t)"
      by (rule wpr_mono) (use t app_need_text[of x] in \<open>auto elim: res_err_mono\<close>)
  qed (auto elim: res_err_mono)
qed simp

text \<open>With an allocator that serves every request and less than a gigabyte of text, nothing fails.\<close>

lemma app_fold_total:
  assumes "sb_rep s cs" "list_all app_ok xs" "\<And>n. A n"
    and "length cs + sum_list (map app_need xs) < 2 ^ 30"
  shows "\<exists>s'. fold_r (app A) xs s = Inr s' \<and> sb_rep s' (cs @ concat (map app_text xs))"
  using app_fold[OF assms(1,2), of A] assms(3,4)
  by (cases "fold_r (app A) xs s") (auto simp: res_err_def)

end

interpretation chars: appender strbuf_append_char "\<lambda>c. [c]" "\<lambda>_. 1" "\<lambda>_. True"
  by unfold_locales (rule append_char_spec, auto)

interpretation mems: appender "\<lambda>A s ds. strbuf_append_mem A s ds (int (length ds))" id length
    "\<lambda>ds. length ds < 2 ^ 31"
  by unfold_locales (use append_mem_spec in auto)

interpretation strings: appender strbuf_append_string id length "\<lambda>str. NUL \<notin> set str"
  by unfold_locales (auto intro!: wpr_mono[OF append_string_spec])

interpretation fmts: appender "\<lambda>A s t. strbuf_append_fmt A s (int (length t) + 1) (Some t)" id
    "\<lambda>t. length t + 1" "\<lambda>t. length t + 1 < 2 ^ 31"
proof unfold_locales
  fix s cs A and t :: string assume "sb_rep s cs" "length t + 1 < 2 ^ 31"
  then show "wpr (res_err A (length cs + (length t + 1)))
      (\<lambda>s'. sb_rep s' (cs @ id t) \<and> sb_dynamic s' = sb_dynamic s)
      (strbuf_append_fmt A s (int (length t) + 1) (Some t))"
    using append_fmt_spec[of s cs t "int (length t) + 1" A] by (simp add: nat_add_distrib)
qed simp

interpretation fmt_retries: appender "\<lambda>A s t. strbuf_append_fmt_retry A s (Some t)" id length
    "\<lambda>t. length t < 2 ^ 31"
  by unfold_locales (use append_fmt_retry_spec in auto)

subsection \<open>Series of mixed appends\<close>

datatype sb_op = Op_char char | Op_mem string | Op_string string | Op_fmt string | Op_fmt_retry string

fun sb_exec :: "alloc \<Rightarrow> strbuf \<Rightarrow> sb_op \<Rightarrow> strbuf res" where
  "sb_exec A s (Op_char c) = strbuf_append_char A s c"
| "sb_exec A s (Op_mem ds) = strbuf_append_mem A s ds (int (length ds))"
| "sb_exec A s (Op_string str) = strbuf_append_string A s str"
| "sb_exec A s (Op_fmt t) = strbuf_append_fmt A s (int (length t) + 1) (Some t)"
| "sb_exec A s (Op_fmt_retry t) = strbuf_append_fmt_retry A s (Some t)"

fun op_text :: "sb_op \<Rightarrow> string" where
  "op_text (Op_char c) = [c]"
| "op_text (Op_mem ds) = ds"
| "op_text (Op_string str) = str"
| "op_text (Op_fmt t) = t"
| "op_text (Op_fmt_retry t) = t"

fun op_ok :: "sb_op \<Rightarrow> bool" where
  "op_ok (Op_string str) = (NUL \<notin> set str)"
| "op_ok p = (length (op_text p) + 1 < 2 ^ 31)"

lemma sb_exec_spec:
  assumes rep: "sb_rep s cs" and ok: "op_ok p"
  shows "wpr (res_err A (length cs + (length (op_text p) + 1)))
      (\<lambda>s'. sb_rep s' (cs @ op_text p) \<and> sb_dynamic s' = sb_dynamic s) (sb_exec A s p)"
proof -
  have weaken: ?thesis if "wpr (res_err A (length cs + n))
      (\<lambda>s'. sb_rep s' (cs @ op_text p) \<and> sb_dynamic s' = sb_dynamic s) (sb_exec A s p)"
      "n \<le> length (op_text p) + 1" for n
    by (rule wpr_mono[OF that(1)]) (use that(2) in \<open>auto elim: res_err_mono\<close>)
  show ?thesis
  proof (cases p)
    case (Op_char c)
    with chars.app_spec[OF rep, where x = c and A = A] show ?thesis by (intro weaken[of 1]) simp_all
  next
    case (Op_mem ds)
    with mems.app_spec[OF rep, where x = ds and A = A] ok show ?thesis by (intro weaken[of "length ds"]) simp_all
  next
    case (Op_string str)
    with strings.app_spec[OF rep, where x = str and A = A] ok show ?thesis
      by (intro weaken[of "length str"]) simp_all
  next
    case (Op_fmt t)
    with fmts.app_spec[OF rep, where x = t and A = A] ok show ?thesis by (intro weaken[of "length t + 1"]) simp_all
  next
    case (Op_fmt_retry t)
    with fmt_retries.app_spec[OF rep, where x = t and A = A] ok show ?thesis
      by (intro weaken[of "length t"]) simp_all
  qed
qed

interpretation ops: appender sb_exec op_text "\<lambda>p. length (op_text p) + 1" op_ok
  by unfold_locales (rule sb_exec_spec, auto)

section \<open>Properties\<close>

lemma rep_imp_ok: "sb_rep s cs \<Longrightarrow> sb_ok s"
  by (simp add: sb_rep_def)

text \<open>
  C11: Any series of appends, formatted or not, leaves a sound buffer whose readable content is
  the old text followed by the appended texts in order; the only failures are an exhausted
  allocator and, when a gigabyte or more is requested, the overflow of the size computation.
  In particular no append writes outside the block or reads bytes that were never written.
\<close>

theorem append_series:
  assumes "sb_rep s cs" "list_all op_ok ops"
  shows "case fold_r (sb_exec A) ops s of
           Inr s' \<Rightarrow> sb_ok s' \<and> peek_mem (sb_buf s') (sb_length s')
                                = Inr (cs @ concat (map op_text ops))
         | Inl e \<Rightarrow> res_err A (length cs + sum_list (map (\<lambda>p. length (op_text p) + 1) ops)) e"
  using ops.app_fold[OF assms, of A]
  by (cases "fold_r (sb_exec A) ops s") (auto intro: contents_spec rep_imp_ok)

text \<open>A buffer of two bytes, and a series that makes it grow.\<close>

definition sample_ops :: "sb_op list" where
  "sample_ops = [Op_char CHR ''a'', Op_string ''bcd'', Op_fmt ''7'', Op_mem ''ef'', Op_fmt_retry ''gh'']"

definition sample_buf :: strbuf where
  "sample_buf = \<lparr>sb_buf = Some [Some NUL, None], sb_size = 2, sb_length = 0, sb_increment = -2,
     sb_dynamic = 0, sb_reallocs = 0, sb_debug = 0, sb_blocks = 1\<rparr>"

lemma sample_rep: "sb_rep sample_buf []" "list_all op_ok sample_ops"
  by (simp_all add: sb_rep_def sb_ok_def sample_buf_def sample_ops_def INT_MAX_def
      STRBUF_DEFAULT_INCREMENT_def)

theorem append_series_witness:
  "case fold_r (sb_exec (\<lambda>n. n \<le> 1000)) sample_ops sample_buf of
     Inr s' \<Rightarrow> sb_ok s' \<and> peek_mem (sb_buf s') (sb_length s') = Inr ''abcd7efgh''
   | Inl e \<Rightarrow> res_err (\<lambda>n. n \<le> 1000) 14 e"
proof -
  have "[] @ concat (map op_text sample_ops) = ''abcd7efgh''"
    and "length ([] :: string) + sum_list (map (\<lambda>p. length (op_text p) + 1) sample_ops) = 14"
    by (simp_all add: sample_ops_def)
  then show ?thesis
    using append_series[OF sample_rep, of "\<lambda>n. n \<le> 1000"] by (simp only:)
qed

text \<open>
  C27: With an allocator that serves every request and less than a gigabyte of text in total, every
  series of appends returns.
\<close>

theorem append_series_returns:
  assumes "sb_rep s cs" "list_all op_ok ops" "\<And>n. A n"
    and "length cs + sum_list (map (\<lambda>p. length (op_text p) + 1) ops) < 2 ^ 30"
  shows "\<exists>s'. fold_r (sb_exec A) ops s = Inr s' \<and> sb_rep s' (cs @ concat (map op_text ops))"
  using assms by (rule ops.app_fold_total)

theorem append_series_returns_witness:
  "\<exists>s'. fold_r (sb_exec (\<lambda>_. True)) sample_ops sample_buf = Inr s' \<and> sb_rep s' ''abcd7efgh''"
  using append_series_returns[OF sample_rep, of "\<lambda>_. True"]
  by (simp add: sample_ops_def del: fold_r.simps)

text \<open>
  C28: The loop that computes the new size runs forever exactly when it is entered with a size of
  0 or a growth factor of 1; in every other case it returns or overflows within the fuel of the
  model.
\<close>

theorem grow_diverges_iff:
  assumes "INT_MIN < inc" "inc < 0" "int_ok n"
  shows "grow 34 inc req n = Inl Diverge \<longleftrightarrow> n < req \<and> (n = 0 \<or> inc = -1)"
proof
  have fuel: "(34::nat) = Suc 33" by simp
  assume d: "grow 34 inc req n = Inl Diverge"
  have "n < req"
  proof (rule ccontr)
    assume "\<not> n < req"
    then show False using d unfolding fuel grow.simps(2) by simp
  qed
  moreover have "n = 0 \<or> inc = -1"
  proof (rule ccontr)
    assume "\<not> (n = 0 \<or> inc = -1)"
    then have "grow (Suc 33) inc req n \<noteq> Inl Diverge"
      using assms by (intro grow_terminates) auto
    then show False using d unfolding fuel by contradiction
  qed
  ultimately show "n < req \<and> (n = 0 \<or> inc = -1)" ..
next
  assume "n < req \<and> (n = 0 \<or> inc = -1)"
  then show "grow 34 inc req n = Inl Diverge"
    using assms by (intro grow_stuck) (auto simp: int_ok_iff INT_MIN_def)
qed

theorem grow_diverges_iff_witness:
  "grow 34 (-1) 10 4 = Inl Diverge \<longleftrightarrow> (4::int) < 10 \<and> ((4::int) = 0 \<or> (-1::int) = -1)"
  by (rule grow_diverges_iff) (simp_all add: INT_MIN_def int_ok_iff)


text \<open>Ten bytes with an increment of 4 become twelve, for a request of 20 and for one of 1000.\<close>

definition linear_buf :: strbuf where
  "linear_buf = sample_buf\<lparr>sb_buf := Some (Some CHR ''a'' # replicate 9 None), sb_size := 10,
     sb_length := 1, sb_increment := 4\<rparr>"


text \<open>
  C34: The retrying formatted append takes a formatting error (a negative length) for a success
  and shortens the text by one character, where the sibling operation stops the program.
\<close>

theorem fmt_retry_error_shortens:
  assumes "sb_rep s cs"
  shows "strbuf_append_fmt_retry A s None = Inr (s\<lparr>sb_length := sb_length s - 1\<rparr>)"
proof -
  note f = rep_facts[OF assms]
  have "int_ok (sb_room s + 1)" "int_ok (sb_length s - 1)" using f by (auto simp: int_ok_iff)
  then show "strbuf_append_fmt_retry A s None = Inr (s\<lparr>sb_length := sb_length s - 1\<rparr>)"
    using f by (simp add: strbuf_append_fmt_retry_def fmt_attempt_def vsnprintf_def)
qed

theorem fmt_retry_error_shortens_witness:
  "sb_rep sample_buf [] \<and>
   strbuf_append_fmt_retry (\<lambda>_. True) sample_buf None = Inr (sample_buf\<lparr>sb_length := -1\<rparr>)"
  using fmt_retry_error_shortens[OF sample_rep(1)] sample_rep(1) by (simp add: sample_buf_def)

end
