(* ===== verification/Json_Config.thy ===== *)
theory Json_Config
  imports Lua Strbuf
begin

text \<open>
  The configuration of a \<open>cjson\<close> module (\<open>json_config_t\<close> of \<open>3rd/lua-cjson/lua_cjson.c\<close>), its
  creation and destruction, and the functions that read and change its settings. A function
  returns the configuration it leaves (also when it raises an error) and either the Lua error
  or the values it returns; \<open>die\<close> and undefined behaviour are \<open>cerr\<close>s.
\<close>

section \<open>State\<close>

datatype json_token_type =
    T_OBJ_BEGIN | T_OBJ_END | T_ARR_BEGIN | T_ARR_END | T_STRING | T_NUMBER | T_INTEGER
  | T_BOOLEAN | T_NULL | T_COLON | T_COMMA | T_END | T_WHITESPACE | T_ERROR | T_UNKNOWN

fun json_token_type_name :: "json_token_type \<Rightarrow> string" where
  "json_token_type_name T_OBJ_BEGIN = ''T_OBJ_BEGIN''"
| "json_token_type_name T_OBJ_END = ''T_OBJ_END''"
| "json_token_type_name T_ARR_BEGIN = ''T_ARR_BEGIN''"
| "json_token_type_name T_ARR_END = ''T_ARR_END''"
| "json_token_type_name T_STRING = ''T_STRING''"
| "json_token_type_name T_NUMBER = ''T_NUMBER''"
| "json_token_type_name T_INTEGER = ''T_INTEGER''"
| "json_token_type_name T_BOOLEAN = ''T_BOOLEAN''"
| "json_token_type_name T_NULL = ''T_NULL''"
| "json_token_type_name T_COLON = ''T_COLON''"
| "json_token_type_name T_COMMA = ''T_COMMA''"
| "json_token_type_name T_END = ''T_END''"
| "json_token_type_name T_WHITESPACE = ''T_WHITESPACE''"
| "json_token_type_name T_ERROR = ''T_ERROR''"
| "json_token_type_name T_UNKNOWN = ''T_UNKNOWN''"

record json_config =
  ch2token :: "char \<Rightarrow> json_token_type"
  escape2char :: "char \<Rightarrow> char"
  encode_buf :: strbuf
  encode_sparse_convert :: int
  encode_sparse_ratio :: int
  encode_sparse_safe :: int
  encode_max_depth :: int
  encode_invalid_numbers :: int   \<comment> \<open>2: encode as null\<close>
  encode_number_precision :: int
  encode_keep_buffer :: int
  decode_invalid_numbers :: int
  decode_max_depth :: int

definition DEFAULT_SPARSE_CONVERT :: int where "DEFAULT_SPARSE_CONVERT = 0"
definition DEFAULT_SPARSE_RATIO :: int where "DEFAULT_SPARSE_RATIO = 2"
definition DEFAULT_SPARSE_SAFE :: int where "DEFAULT_SPARSE_SAFE = 10"
definition DEFAULT_ENCODE_MAX_DEPTH :: int where "DEFAULT_ENCODE_MAX_DEPTH = 1000"
definition DEFAULT_DECODE_MAX_DEPTH :: int where "DEFAULT_DECODE_MAX_DEPTH = 1000"
definition DEFAULT_ENCODE_INVALID_NUMBERS :: int where "DEFAULT_ENCODE_INVALID_NUMBERS = 0"
definition DEFAULT_DECODE_INVALID_NUMBERS :: int where "DEFAULT_DECODE_INVALID_NUMBERS = 1"
definition DEFAULT_ENCODE_KEEP_BUFFER :: int where "DEFAULT_ENCODE_KEEP_BUFFER = 1"
definition DEFAULT_ENCODE_NUMBER_PRECISION :: int where "DEFAULT_ENCODE_NUMBER_PRECISION = 14"

text \<open>The tables \<open>json_create_config\<close> fills in.\<close>

definition init_ch2token :: "char \<Rightarrow> json_token_type" where
  "init_ch2token =
     fold (\<lambda>(c, t) f. f(c := t))
       ([(CHR ''{'', T_OBJ_BEGIN), (CHR ''}'', T_OBJ_END), (CHR ''['', T_ARR_BEGIN), (CHR '']'', T_ARR_END),
         (CHR '','', T_COMMA), (CHR '':'', T_COLON), (NUL, T_END),
         (CHR '' '', T_WHITESPACE), (CHR 0x09, T_WHITESPACE), (CHR 0x0A, T_WHITESPACE), (CHR 0x0D, T_WHITESPACE),
         (CHR ''f'', T_UNKNOWN), (CHR ''i'', T_UNKNOWN), (CHR ''I'', T_UNKNOWN), (CHR ''n'', T_UNKNOWN),
         (CHR ''N'', T_UNKNOWN), (CHR ''t'', T_UNKNOWN), (DQ, T_UNKNOWN), (CHR ''+'', T_UNKNOWN), (CHR ''-'', T_UNKNOWN)]
        @ map (\<lambda>c. (c, T_UNKNOWN)) ''0123456789'')
       (\<lambda>_. T_ERROR)"

definition init_escape2char :: "char \<Rightarrow> char" where
  "init_escape2char =
     fold (\<lambda>(c, e) f. f(c := e))
       [(DQ, DQ), (BS, BS), (CHR ''/'', CHR ''/''), (CHR ''b'', CHR 0x08), (CHR ''t'', CHR 0x09),
        (CHR ''n'', CHR 0x0A), (CHR ''f'', CHR 0x0C), (CHR ''r'', CHR 0x0D), (CHR ''u'', CHR ''u'')]
       (\<lambda>_. NUL)"

section \<open>Creation and destruction\<close>

definition json_create_config :: "env \<Rightarrow> json_config res" where
  \<comment> \<open>the configuration is fresh memory; the buffer is allocated because the default is to keep it\<close>
  "json_create_config E =
     andthen (strbuf_init (e_alloc E) 0 0) (\<lambda>buf.
     Inr \<lparr>ch2token = init_ch2token, escape2char = init_escape2char, encode_buf = buf,
          encode_sparse_convert = DEFAULT_SPARSE_CONVERT, encode_sparse_ratio = DEFAULT_SPARSE_RATIO,
          encode_sparse_safe = DEFAULT_SPARSE_SAFE, encode_max_depth = DEFAULT_ENCODE_MAX_DEPTH,
          encode_invalid_numbers = DEFAULT_ENCODE_INVALID_NUMBERS,
          encode_number_precision = DEFAULT_ENCODE_NUMBER_PRECISION,
          encode_keep_buffer = DEFAULT_ENCODE_KEEP_BUFFER,
          decode_invalid_numbers = DEFAULT_DECODE_INVALID_NUMBERS,
          decode_max_depth = DEFAULT_DECODE_MAX_DEPTH\<rparr>)"

definition free_encode_buf :: "json_config \<Rightarrow> json_config" where
  \<comment> \<open>\<open>strbuf_free(&cfg->encode_buf)\<close>: the struct is part of the configuration\<close>
  "free_encode_buf cfg =
     (case strbuf_free (encode_buf cfg) of Some b \<Rightarrow> cfg\<lparr>encode_buf := b\<rparr> | None \<Rightarrow> cfg)"

definition json_destroy_config :: "json_config \<Rightarrow> json_config" where
  "json_destroy_config cfg = free_encode_buf cfg"

section \<open>Arguments and options\<close>

definition json_arg_init :: "lua list \<Rightarrow> nat \<Rightarrow> lua_error + lua list" where
  "json_arg_init args n =
     (if length args \<le> n then Inr (args @ replicate (n - length args) LNil)
      else Inl (Arg_error (int n + 1) ''found too many arguments''))"

definition range_message :: "int \<Rightarrow> int \<Rightarrow> string" where
  "range_message lo hi = ''expected integer between '' @ lld_text lo @ '' and '' @ lld_text hi"

definition json_integer_option ::
  "env \<Rightarrow> int \<Rightarrow> lua \<Rightarrow> int \<Rightarrow> int \<Rightarrow> int \<Rightarrow> lua_error + (int \<times> lua)" where
  \<comment> \<open>the new setting and the value pushed; \<open>int value = luaL_checkinteger(...)\<close> keeps the low 32 bits\<close>
  "json_integer_option E optindex arg setting lo hi =
     andthen
       (if arg \<noteq> LNil
        then andthen (luaL_checkinteger E optindex arg) (\<lambda>i.
             let value = to_int i
             in if lo \<le> value \<and> value \<le> hi then Inr value else Inl (Arg_error 1 (range_message lo hi)))
        else Inr setting) (\<lambda>setting.
     Inr (setting, LInt setting))"

definition bool_options :: "string list" where "bool_options = [''off'', ''on'']"

definition json_enum_option ::
  "int \<Rightarrow> lua \<Rightarrow> int \<Rightarrow> string list option \<Rightarrow> int \<Rightarrow> lua_error + (int \<times> lua)" where
  "json_enum_option optindex arg setting options bool_true =
     (let (opts, bt) = (case options of None \<Rightarrow> (bool_options, 1) | Some os \<Rightarrow> (os, bool_true)) in
     andthen
       (if arg \<noteq> LNil
        then (if bt \<noteq> 0 \<and> lua_isboolean arg then Inr ((if lua_toboolean arg then 1 else 0) * bt)
              else luaL_checkoption optindex arg opts)
        else Inr setting) (\<lambda>setting.
     Inr (setting,
          if bt \<noteq> 0 \<and> (setting = 0 \<or> setting = bt) then LBool (setting \<noteq> 0)
          else LStr (opts ! nat setting))))"

section \<open>The configuration functions\<close>

type_synonym 'a call = "(json_config \<times> (lua_error + 'a)) res"

definition raise_e :: "json_config \<Rightarrow> lua_error \<Rightarrow> 'a call" where
  "raise_e cfg e = Inr (cfg, Inl e)"

definition with_arg :: "json_config \<Rightarrow> lua_error + 'b \<Rightarrow> ('b \<Rightarrow> 'a call) \<Rightarrow> 'a call" where
  \<comment> \<open>a Lua error ends the call with the configuration as it is\<close>
  "with_arg cfg m f = (case m of Inl e \<Rightarrow> raise_e cfg e | Inr x \<Rightarrow> f x)"

definition json_cfg_encode_sparse_array :: "env \<Rightarrow> json_config \<Rightarrow> lua list \<Rightarrow> lua list call" where
  "json_cfg_encode_sparse_array E cfg args =
     with_arg cfg (json_arg_init args 3) (\<lambda>a.
     with_arg cfg (json_enum_option 1 (a ! 0) (encode_sparse_convert cfg) None 1) (\<lambda>(s, r1).
     let cfg = cfg\<lparr>encode_sparse_convert := s\<rparr> in
     with_arg cfg (json_integer_option E 2 (a ! 1) (encode_sparse_ratio cfg) 0 INT_MAX) (\<lambda>(s, r2).
     let cfg = cfg\<lparr>encode_sparse_ratio := s\<rparr> in
     with_arg cfg (json_integer_option E 3 (a ! 2) (encode_sparse_safe cfg) 0 INT_MAX) (\<lambda>(s, r3).
     let cfg = cfg\<lparr>encode_sparse_safe := s\<rparr> in
     Inr (cfg, Inr [r1, r2, r3])))))"

definition json_cfg_encode_max_depth :: "env \<Rightarrow> json_config \<Rightarrow> lua list \<Rightarrow> lua list call" where
  "json_cfg_encode_max_depth E cfg args =
     with_arg cfg (json_arg_init args 1) (\<lambda>a.
     with_arg cfg (json_integer_option E 1 (a ! 0) (encode_max_depth cfg) 1 INT_MAX) (\<lambda>(s, r).
     Inr (cfg\<lparr>encode_max_depth := s\<rparr>, Inr [r])))"

definition json_cfg_decode_max_depth :: "env \<Rightarrow> json_config \<Rightarrow> lua list \<Rightarrow> lua list call" where
  "json_cfg_decode_max_depth E cfg args =
     with_arg cfg (json_arg_init args 1) (\<lambda>a.
     with_arg cfg (json_integer_option E 1 (a ! 0) (decode_max_depth cfg) 1 INT_MAX) (\<lambda>(s, r).
     Inr (cfg\<lparr>decode_max_depth := s\<rparr>, Inr [r])))"

definition json_cfg_encode_number_precision :: "env \<Rightarrow> json_config \<Rightarrow> lua list \<Rightarrow> lua list call" where
  "json_cfg_encode_number_precision E cfg args =
     with_arg cfg (json_arg_init args 1) (\<lambda>a.
     with_arg cfg (json_integer_option E 1 (a ! 0) (encode_number_precision cfg) 1 14) (\<lambda>(s, r).
     Inr (cfg\<lparr>encode_number_precision := s\<rparr>, Inr [r])))"

definition json_cfg_encode_keep_buffer :: "env \<Rightarrow> json_config \<Rightarrow> lua list \<Rightarrow> lua list call" where
  "json_cfg_encode_keep_buffer E cfg args =
     with_arg cfg (json_arg_init args 1) (\<lambda>a.
     let old_value = encode_keep_buffer cfg in
     with_arg cfg (json_enum_option 1 (a ! 0) (encode_keep_buffer cfg) None 1) (\<lambda>(s, r).
     let cfg = cfg\<lparr>encode_keep_buffer := s\<rparr> in
     andthen
       (if old_value XOR encode_keep_buffer cfg \<noteq> 0
        then (if encode_keep_buffer cfg \<noteq> 0
              then andthen (strbuf_init (e_alloc E) (sb_blocks (encode_buf cfg)) 0) (\<lambda>b. Inr (cfg\<lparr>encode_buf := b\<rparr>))
              else Inr (free_encode_buf cfg))
        else Inr cfg) (\<lambda>cfg.
     Inr (cfg, Inr [r]))))"

definition json_cfg_encode_invalid_numbers :: "env \<Rightarrow> json_config \<Rightarrow> lua list \<Rightarrow> lua list call" where
  "json_cfg_encode_invalid_numbers E cfg args =
     with_arg cfg (json_arg_init args 1) (\<lambda>a.
     with_arg cfg (json_enum_option 1 (a ! 0) (encode_invalid_numbers cfg)
       (Some [''off'', ''on'', ''null'']) 1) (\<lambda>(s, r).
     Inr (cfg\<lparr>encode_invalid_numbers := s\<rparr>, Inr [r])))"

definition json_cfg_decode_invalid_numbers :: "env \<Rightarrow> json_config \<Rightarrow> lua list \<Rightarrow> lua list call" where
  "json_cfg_decode_invalid_numbers E cfg args =
     with_arg cfg (json_arg_init args 1) (\<lambda>a.
     with_arg cfg (json_enum_option 1 (a ! 0) (decode_invalid_numbers cfg) None 1) (\<lambda>(s, r).
     Inr (cfg\<lparr>decode_invalid_numbers := s\<rparr>, Inr [r])))"

section \<open>The invariant of a configuration\<close>

text \<open>
  Every setting is in its range, the tables are those \<open>json_create_config\<close> builds, and the
  encode buffer is sound exactly while it is kept; when it is not kept it holds no memory, and
  none of its blocks has been lost or freed twice.
\<close>

definition flag_ok :: "int \<Rightarrow> bool" where "flag_ok x \<longleftrightarrow> x = 0 \<or> x = 1"
definition range_ok :: "int \<Rightarrow> int \<Rightarrow> bool" where "range_ok lo x \<longleftrightarrow> lo \<le> x \<and> x \<le> INT_MAX"

definition buf_ok :: "int \<Rightarrow> strbuf \<Rightarrow> bool" where
  "buf_ok keep b \<longleftrightarrow> sb_dynamic b = 0 \<and> (if keep = 1 then sb_ok b else sb_buf b = None \<and> sb_blocks b = 0)"

definition cfg_ok :: "json_config \<Rightarrow> bool" where
  "cfg_ok cfg \<longleftrightarrow>
     ch2token cfg = init_ch2token \<and> escape2char cfg = init_escape2char
     \<and> flag_ok (encode_sparse_convert cfg) \<and> range_ok 0 (encode_sparse_ratio cfg)
     \<and> range_ok 0 (encode_sparse_safe cfg) \<and> range_ok 1 (encode_max_depth cfg)
     \<and> (flag_ok (encode_invalid_numbers cfg) \<or> encode_invalid_numbers cfg = 2)
     \<and> 1 \<le> encode_number_precision cfg \<and> encode_number_precision cfg \<le> 14
     \<and> flag_ok (encode_keep_buffer cfg) \<and> flag_ok (decode_invalid_numbers cfg)
     \<and> range_ok 1 (decode_max_depth cfg)
     \<and> buf_ok (encode_keep_buffer cfg) (encode_buf cfg)"

definition no_memory :: "env \<Rightarrow> cerr \<Rightarrow> bool" where
  "no_memory E e \<longleftrightarrow> e = oom \<and> (\<exists>k. \<not> e_alloc E k)"

lemma init_buf:
  "wpr (no_memory E) (\<lambda>b. sb_ok b \<and> sb_dynamic b = 0) (strbuf_init (e_alloc E) 0 0)"
  by (rule wpr_mono[OF init_spec[of 0 "e_alloc E"]])
    (auto simp: int_ok_iff res_err_def no_memory_def sb_rep_def)

lemma create_ok: "wpr (no_memory E) cfg_ok (json_create_config E)"
  unfolding json_create_config_def wpr_andthen
  by (rule wpr_mono[OF init_buf])
    (simp_all add: cfg_ok_def flag_ok_def range_ok_def buf_ok_def INT_MAX_def DEFAULT_SPARSE_CONVERT_def
      DEFAULT_SPARSE_RATIO_def DEFAULT_SPARSE_SAFE_def DEFAULT_ENCODE_MAX_DEPTH_def
      DEFAULT_DECODE_MAX_DEPTH_def DEFAULT_ENCODE_INVALID_NUMBERS_def
      DEFAULT_DECODE_INVALID_NUMBERS_def DEFAULT_ENCODE_KEEP_BUFFER_def
      DEFAULT_ENCODE_NUMBER_PRECISION_def)

lemma free_buf [simp]:
  "sb_dynamic (encode_buf cfg) = 0 \<Longrightarrow> sb_buf (encode_buf (free_encode_buf cfg)) = None"
  "sb_dynamic (encode_buf cfg) = 0 \<Longrightarrow> sb_dynamic (encode_buf (free_encode_buf cfg)) = 0"
  by (auto simp: free_encode_buf_def strbuf_free_def Let_def)

lemma free_buf_blocks:
  "buf_ok keep (encode_buf cfg) \<Longrightarrow> sb_blocks (encode_buf (free_encode_buf cfg)) = 0"
  by (auto simp: free_encode_buf_def strbuf_free_def buf_ok_def sb_ok_def Let_def split: if_splits option.splits)

lemma free_buf_other [simp]:
  "ch2token (free_encode_buf cfg) = ch2token cfg" "escape2char (free_encode_buf cfg) = escape2char cfg"
  "encode_sparse_convert (free_encode_buf cfg) = encode_sparse_convert cfg"
  "encode_sparse_ratio (free_encode_buf cfg) = encode_sparse_ratio cfg"
  "encode_sparse_safe (free_encode_buf cfg) = encode_sparse_safe cfg"
  "encode_max_depth (free_encode_buf cfg) = encode_max_depth cfg"
  "encode_invalid_numbers (free_encode_buf cfg) = encode_invalid_numbers cfg"
  "encode_number_precision (free_encode_buf cfg) = encode_number_precision cfg"
  "encode_keep_buffer (free_encode_buf cfg) = encode_keep_buffer cfg"
  "decode_invalid_numbers (free_encode_buf cfg) = decode_invalid_numbers cfg"
  "decode_max_depth (free_encode_buf cfg) = decode_max_depth cfg"
  by (simp_all add: free_encode_buf_def split: option.split)

subsection \<open>What the option functions accept\<close>

lemma integer_option_range:
  "json_integer_option E i arg s lo hi = Inr (s', r) \<Longrightarrow> lo \<le> s \<Longrightarrow> s \<le> hi \<Longrightarrow> lo \<le> s' \<and> s' \<le> hi \<and> r = LInt s'"
  by (auto simp: json_integer_option_def andthen_eq_Inr Let_def split: if_splits)

lemma checkoption_range:
  "luaL_checkoption i arg opts = Inr s \<Longrightarrow> 0 \<le> s \<and> s < int (length opts)"
  by (auto simp: luaL_checkoption_def split: lua.splits option.splits dest: index_of_less)

lemma enum_option_range:
  "json_enum_option i arg s None bt = Inr (s', r) \<Longrightarrow> flag_ok s \<Longrightarrow> flag_ok s' \<and> r = LBool (s' = 1)"
  "json_enum_option i arg s (Some opts) 1 = Inr (s', r) \<Longrightarrow> 0 \<le> s \<Longrightarrow> s < int (length opts) \<Longrightarrow>
     1 < length opts \<Longrightarrow> 0 \<le> s' \<and> s' < int (length opts)"
  by (auto simp: json_enum_option_def andthen_eq_Inr flag_ok_def bool_options_def
      split: if_splits dest!: checkoption_range)

section \<open>The configuration functions keep the invariant\<close>

locale setting_op =
  fixes f :: "env \<Rightarrow> json_config \<Rightarrow> lua list \<Rightarrow> lua list call"
  assumes keeps: "cfg_ok cfg \<Longrightarrow> wpr (no_memory E) (\<lambda>(cfg', r). cfg_ok cfg') (f E cfg args)"
begin

lemma returns:
  assumes "cfg_ok cfg" "\<And>k. e_alloc E k"
  obtains cfg' r where "f E cfg args = Inr (cfg', r)" "cfg_ok cfg'"
  using keeps[OF assms(1), of E args] assms(2) by (cases "f E cfg args") (auto simp: no_memory_def)

end

lemma with_arg_wpr:
  "wpr P Q (with_arg cfg m g) = (case m of Inl e \<Rightarrow> Q (cfg, Inl e) | Inr x \<Rightarrow> wpr P Q (g x))"
  by (simp add: with_arg_def raise_e_def split: sum.split)

interpretation sparse: setting_op json_cfg_encode_sparse_array
  by unfold_locales
    (auto simp: json_cfg_encode_sparse_array_def with_arg_wpr Let_def cfg_ok_def range_ok_def
      split: sum.split dest!: integer_option_range enum_option_range(1))

interpretation enc_depth: setting_op json_cfg_encode_max_depth
  by unfold_locales
    (auto simp: json_cfg_encode_max_depth_def with_arg_wpr cfg_ok_def range_ok_def
      split: sum.split dest!: integer_option_range)

interpretation dec_depth: setting_op json_cfg_decode_max_depth
  by unfold_locales
    (auto simp: json_cfg_decode_max_depth_def with_arg_wpr cfg_ok_def range_ok_def
      split: sum.split dest!: integer_option_range)

interpretation precision: setting_op json_cfg_encode_number_precision
  by unfold_locales
    (auto simp: json_cfg_encode_number_precision_def with_arg_wpr cfg_ok_def
      split: sum.split dest!: integer_option_range)

interpretation enc_invalid: setting_op json_cfg_encode_invalid_numbers
  by unfold_locales
    (auto simp: json_cfg_encode_invalid_numbers_def with_arg_wpr cfg_ok_def flag_ok_def
      split: sum.split dest!: enum_option_range(2))

interpretation dec_invalid: setting_op json_cfg_decode_invalid_numbers
  by unfold_locales
    (auto simp: json_cfg_decode_invalid_numbers_def with_arg_wpr cfg_ok_def
      split: sum.split dest!: enum_option_range(1))

lemma keep_buffer_ok:
  assumes "cfg_ok cfg"
  shows "wpr (no_memory E) (\<lambda>(cfg', r). cfg_ok cfg') (json_cfg_encode_keep_buffer E cfg args)"
proof -
  have k: "flag_ok (encode_keep_buffer cfg)" using assms by (simp add: cfg_ok_def)
  have x: "x XOR y \<noteq> 0 \<longleftrightarrow> x \<noteq> y" if "flag_ok x" "flag_ok y" for x y :: int
    using that by (auto simp: flag_ok_def)
  show ?thesis
  proof (cases "json_arg_init args 1")
    case (Inr a)
    show ?thesis
    proof (cases "json_enum_option 1 (a ! 0) (encode_keep_buffer cfg) None 1")
      case o: (Inr sr)
      obtain s r where sr: "sr = (s, r)" by fastforce
      have s: "flag_ok s" using enum_option_range(1)[OF _ k] o sr by blast
      show ?thesis
      proof (cases "s = encode_keep_buffer cfg")
        case True
        then show ?thesis using assms Inr o sr by (simp add: json_cfg_encode_keep_buffer_def with_arg_wpr)
      next
        case False
        then have "(encode_keep_buffer cfg = 0 \<and> s = 1) \<or> (encode_keep_buffer cfg = 1 \<and> s = 0)"
          using k s by (auto simp: flag_ok_def)
        then show ?thesis
        proof
          assume c: "encode_keep_buffer cfg = 0 \<and> s = 1"
          show ?thesis
            using assms Inr o sr c by (auto simp: json_cfg_encode_keep_buffer_def with_arg_wpr cfg_ok_def
                buf_ok_def flag_ok_def intro!: wpr_mono[OF init_buf])
        next
          assume c: "encode_keep_buffer cfg = 1 \<and> s = 0"
          show ?thesis
            using assms Inr o sr c free_buf_blocks[of 1 "cfg\<lparr>encode_keep_buffer := s\<rparr>"]
            by (auto simp: json_cfg_encode_keep_buffer_def with_arg_wpr cfg_ok_def
                buf_ok_def flag_ok_def)
        qed
      qed
    qed (use assms Inr in \<open>simp add: json_cfg_encode_keep_buffer_def with_arg_wpr\<close>)
  qed (use assms in \<open>simp add: json_cfg_encode_keep_buffer_def with_arg_wpr\<close>)
qed

interpretation keep: setting_op json_cfg_encode_keep_buffer
  by unfold_locales (rule keep_buffer_ok)

section \<open>Sequences of configuration calls\<close>

datatype cfg_fn =
    Encode_sparse_array | Encode_max_depth | Decode_max_depth | Encode_number_precision
  | Encode_keep_buffer | Encode_invalid_numbers | Decode_invalid_numbers

fun cfg_call :: "cfg_fn \<Rightarrow> env \<Rightarrow> json_config \<Rightarrow> lua list \<Rightarrow> lua list call" where
  "cfg_call Encode_sparse_array = json_cfg_encode_sparse_array"
| "cfg_call Encode_max_depth = json_cfg_encode_max_depth"
| "cfg_call Decode_max_depth = json_cfg_decode_max_depth"
| "cfg_call Encode_number_precision = json_cfg_encode_number_precision"
| "cfg_call Encode_keep_buffer = json_cfg_encode_keep_buffer"
| "cfg_call Encode_invalid_numbers = json_cfg_encode_invalid_numbers"
| "cfg_call Decode_invalid_numbers = json_cfg_decode_invalid_numbers"

interpretation any: setting_op "cfg_call fn" for fn
  by (cases fn) (simp_all add: sparse.setting_op_axioms enc_depth.setting_op_axioms
      dec_depth.setting_op_axioms precision.setting_op_axioms keep.setting_op_axioms
      enc_invalid.setting_op_axioms dec_invalid.setting_op_axioms)

definition cfg_run :: "env \<Rightarrow> (cfg_fn \<times> lua list) list \<Rightarrow> json_config \<Rightarrow> json_config res" where
  \<comment> \<open>the script goes on after a Lua error, as with \<open>pcall\<close>\<close>
  "cfg_run E = fold_r (\<lambda>cfg (fn, args). andthen (cfg_call fn E cfg args) (\<lambda>(cfg', r). Inr cfg'))"

lemma cfg_run_ok: "cfg_ok cfg \<Longrightarrow> wpr (no_memory E) cfg_ok (cfg_run E calls cfg)"
  unfolding cfg_run_def
proof (induction calls arbitrary: cfg)
  case (Cons call calls)
  obtain fn args where c: "call = (fn, args)" by fastforce
  show ?case unfolding fold_r.simps c wpr_andthen prod.case
    by (rule wpr_mono[OF any.keeps[OF Cons.prems]]) (auto intro: Cons.IH)
qed simp

section \<open>Properties\<close>

text \<open>
  C21: Whatever configuration functions a script calls, with whatever arguments and errors, from
  the creation of a module on, every setting stays in its documented range, the decoding tables
  stay as built, and the encode buffer is a sound buffer exactly while it is kept and holds no
  memory otherwise; the only way not to return is an exhausted allocator.
\<close>

theorem settings_stay_valid:
  "case andthen (json_create_config E) (cfg_run E calls) of
     Inr cfg \<Rightarrow> cfg_ok cfg
   | Inl e \<Rightarrow> no_memory E e"
proof -
  have "wpr (no_memory E) cfg_ok (andthen (json_create_config E) (cfg_run E calls))"
    unfolding wpr_andthen by (rule wpr_mono[OF create_ok]) (auto intro: cfg_run_ok)
  then show ?thesis by (cases "andthen (json_create_config E) (cfg_run E calls)") auto
qed

lemma destroyed:
  assumes "cfg_ok cfg"
  shows "sb_blocks (encode_buf cfg) = encode_keep_buffer cfg
     \<and> sb_blocks (encode_buf (json_destroy_config cfg)) = 0
     \<and> sb_buf (encode_buf (json_destroy_config cfg)) = None
     \<and> json_destroy_config (json_destroy_config cfg) = json_destroy_config cfg"
proof -
  have b: "buf_ok (encode_keep_buffer cfg) (encode_buf cfg)" "sb_dynamic (encode_buf cfg) = 0"
    using assms by (auto simp: cfg_ok_def buf_ok_def)
  then have "free_encode_buf c = c" if "c = free_encode_buf cfg" for c
    using that by (auto simp: free_encode_buf_def strbuf_free_def Let_def)
  moreover have "sb_blocks (encode_buf cfg) = encode_keep_buffer cfg"
    using assms by (auto simp: cfg_ok_def buf_ok_def sb_ok_def flag_ok_def)
  ultimately show ?thesis using b free_buf_blocks[OF b(1)] by (simp add: json_destroy_config_def)
qed

text \<open>
  C36: No memory of a configuration is lost or freed twice: from the creation of a module on, and
  whatever configuration functions a script calls, with whatever arguments and errors, the
  configuration holds exactly one heap block while \<open>encode_keep_buffer\<close> is on and none while it
  is off, however often that setting was switched; the destructor leaves none, and running it
  again changes nothing. The only way not to get there is an exhausted allocator.
\<close>

theorem destroy_frees_buffer:
  "case andthen (json_create_config E) (cfg_run E calls) of
     Inr cfg \<Rightarrow>
       sb_blocks (encode_buf cfg) = encode_keep_buffer cfg
       \<and> sb_blocks (encode_buf (json_destroy_config cfg)) = 0
       \<and> sb_buf (encode_buf (json_destroy_config cfg)) = None
       \<and> json_destroy_config (json_destroy_config cfg) = json_destroy_config cfg
   | Inl e \<Rightarrow> no_memory E e"
proof -
  have "wpr (no_memory E) cfg_ok (andthen (json_create_config E) (cfg_run E calls))"
    unfolding wpr_andthen by (rule wpr_mono[OF create_ok]) (auto intro: cfg_run_ok)
  then show ?thesis
    by (cases "andthen (json_create_config E) (cfg_run E calls)") (simp_all only: wpr_simps sum.case destroyed)
qed

definition sample_env :: env where
  "sample_env = \<lparr>e_alloc = (\<lambda>n. n < 4096), e_stack = (\<lambda>d s. d \<le> 200), e_point = CHR ''.'',
     e_conv = (\<lambda>t. of_nat (length t)), e_str2int = (\<lambda>_. None),
     e_num2str = printf_g 14\<rparr>"

definition sample_cfg :: json_config where
  "sample_cfg = projr (json_create_config sample_env)"

lemma sample_cfg_create: "json_create_config sample_env = Inr sample_cfg"
proof -
  define m :: block where "m = replicate (nat 1023) None"
  have "malloc (e_alloc sample_env) 1023 = Some m" by (simp add: malloc_def sample_env_def m_def)
  moreover have "length m = 1023" unfolding m_def length_replicate by simp
  ultimately have "\<exists>c. json_create_config sample_env = Inr c"
    by (simp add: json_create_config_def strbuf_init_def strbuf_ensure_null_def poke_mem_def STRBUF_DEFAULT_SIZE_def)
  then show ?thesis by (auto simp: sample_cfg_def)
qed

lemma sample_cfg_ok: "cfg_ok sample_cfg"
  using create_ok[of sample_env] by (simp add: sample_cfg_create)

text \<open>
  An integer setting keeps only the low 32 bits of its argument: a depth limit is accepted
  exactly when those bits, read as a signed number, are positive, and it is those bits that are
  stored and returned. So 2 ^ 32 + 5, out of the documented range, is accepted as 5.
\<close>

lemma depth_limit_truncated:
  "json_cfg_encode_max_depth E cfg [LInt i] =
     (if 1 \<le> to_int i
      then Inr (cfg\<lparr>encode_max_depth := to_int i\<rparr>, Inr [LInt (to_int i)])
      else Inr (cfg, Inl (Arg_error 1 (range_message 1 INT_MAX))))
   \<and> to_int (4294967296 + 5) = 5"
  using to_int_ok[of i]
  by (auto simp: json_cfg_encode_max_depth_def json_arg_init_def with_arg_def raise_e_def
      json_integer_option_def luaL_checkinteger_def lua_tointeger_def Let_def int_ok_def to_int_alt)

text \<open>
  The range error of an integer setting always names argument 1, also when the offending
  argument is the second or third of \<open>encode_sparse_array\<close>, and the settings given before it
  have been changed by then.
\<close>

lemma sparse_array_error_position:
  assumes "to_int i < 0"
  shows "json_cfg_encode_sparse_array E cfg [LBool b, LInt i] =
     Inr (cfg\<lparr>encode_sparse_convert := (if b then 1 else 0)\<rparr>, Inl (Arg_error 1 (range_message 0 INT_MAX)))"
  using assms
  by (simp add: json_cfg_encode_sparse_array_def json_arg_init_def with_arg_def raise_e_def
      json_enum_option_def lua_isboolean_def lua_toboolean_def bool_options_def numeral_2_eq_2
      json_integer_option_def luaL_checkinteger_def lua_tointeger_def Let_def)

end
