(* ===== verification/Srp.thy ===== *)
theory Srp
  imports Json_Config
begin

text \<open>
  The login key exchange of \<open>lua-srp.c\<close> (SRP-6a over OpenSSL). Big numbers live in a store of
  their own, so that what each function allocates and frees is part of the model; OpenSSL's
  functions are the fields of \<open>srp_lib\<close>, and \<open>srp_documented\<close> states what their documentation
  says of them. The two loops that redraw a private key take a bound on their rounds.
  Not modelled: memory errors raised by \<open>lua_pushlstring\<close>.
\<close>

section \<open>Libraries\<close>

text \<open>
  The functions of OpenSSL that \<open>lua-srp.c\<close> calls. Every call is made at a time (the number of calls made before), so
  a library may fail at one call and not at another; a big number is a natural number and a
  pointer argument the number it points to, \<open>None\<close> for NULL.
\<close>

record srp_lib =
  sl_N :: nat                                \<comment> \<open>\<open>SRP_get_default_gN ("1024")\<close>\<close>
  sl_g :: nat
  sl_rand :: "nat \<Rightarrow> string option"            \<comment> \<open>\<open>RAND_bytes\<close>: the bytes stored, or none\<close>
  sl_bin2bn :: "nat \<Rightarrow> string \<Rightarrow> int \<Rightarrow> nat option"
  sl_bn2bin :: "nat \<Rightarrow> string"
  sl_verifier :: "nat \<Rightarrow> string \<Rightarrow> string \<Rightarrow> nat \<Rightarrow> nat \<Rightarrow> (nat \<times> nat) option"
  sl_calc_A :: "nat \<Rightarrow> nat option \<Rightarrow> nat \<Rightarrow> nat \<Rightarrow> nat option"
  sl_verify_A :: "nat option \<Rightarrow> nat \<Rightarrow> bool"
  sl_calc_B :: "nat \<Rightarrow> nat option \<Rightarrow> nat \<Rightarrow> nat \<Rightarrow> nat option \<Rightarrow> nat option"
  sl_verify_B :: "nat option \<Rightarrow> nat \<Rightarrow> bool"
  sl_calc_u :: "nat \<Rightarrow> nat option \<Rightarrow> nat option \<Rightarrow> nat \<Rightarrow> nat option"
  sl_calc_x :: "nat \<Rightarrow> nat option \<Rightarrow> string \<Rightarrow> string \<Rightarrow> nat option"
  sl_server_key :: "nat \<Rightarrow> nat option \<Rightarrow> nat option \<Rightarrow> nat option \<Rightarrow> nat option \<Rightarrow> nat \<Rightarrow> nat option"
  sl_client_key :: "nat \<Rightarrow> nat \<Rightarrow> nat option \<Rightarrow> nat \<Rightarrow> nat option \<Rightarrow> nat option \<Rightarrow> nat option \<Rightarrow> nat option"

section \<open>Big numbers of the heap\<close>

record srp_state =
  ss_time :: nat
  ss_bn :: "nat \<Rightarrow> nat option"     \<comment> \<open>the big numbers allocated and not freed\<close>
  ss_stack :: "string list"        \<comment> \<open>what the running C function has pushed\<close>

type_synonym bn_ptr = "nat option"

datatype srp_error =
    Checked lua_error        \<comment> \<open>raised by \<open>luaL_checkstring\<close>\<close>
  | Raised "lua option"      \<comment> \<open>raised by \<open>lua_error\<close>: the value on top of the stack, if any\<close>

type_synonym srp_result = "(srp_state \<times> (srp_error + string list)) res"

definition bn_call :: "srp_state \<Rightarrow> (nat \<Rightarrow> nat option) \<Rightarrow> srp_state \<times> bn_ptr" where
  \<comment> \<open>a call that returns a new big number, or NULL; its address is the time of the call\<close>
  "bn_call s f =
     (let t = ss_time s in
      case f t of
        None \<Rightarrow> (s\<lparr>ss_time := t + 1\<rparr>, None)
      | Some v \<Rightarrow> (s\<lparr>ss_time := t + 1, ss_bn := (ss_bn s)(t \<mapsto> v)\<rparr>, Some t))"

definition bn_val :: "srp_state \<Rightarrow> bn_ptr \<Rightarrow> nat option res" where
  "bn_val s p =
     (case p of
        None \<Rightarrow> Inr None
      | Some a \<Rightarrow> (case ss_bn s a of None \<Rightarrow> Inl (UB Use_after_free) | Some v \<Rightarrow> Inr (Some v)))"

definition BN_free :: "srp_state \<Rightarrow> bn_ptr \<Rightarrow> srp_state res" where
  \<comment> \<open>also \<open>BN_clear_free\<close>, which overwrites the number first\<close>
  "BN_free s p =
     (case p of
        None \<Rightarrow> Inr s
      | Some a \<Rightarrow>
          (case ss_bn s a of
             None \<Rightarrow> Inl (UB Double_free)
           | Some _ \<Rightarrow> Inr (s\<lparr>ss_bn := (ss_bn s)(a := None)\<rparr>)))"

section \<open>The helpers of lua-srp.c\<close>

definition KEY_SIZE :: nat where "KEY_SIZE = 32"

definition random_key :: "srp_lib \<Rightarrow> srp_state \<Rightarrow> (srp_state \<times> bn_ptr) res" where
  \<comment> \<open>the result of \<open>RAND_bytes\<close> is not tested: when it fails, \<open>tmp\<close> is read unset\<close>
  "random_key L s =
     (let t = ss_time s; s = s\<lparr>ss_time := t + 1\<rparr> in
      case sl_rand L t of
        None \<Rightarrow> Inl (UB Uninit_read)
      | Some tmp \<Rightarrow> Inr (bn_call s (\<lambda>t. sl_bin2bn L t tmp (int KEY_SIZE))))"

definition push_bn :: "srp_lib \<Rightarrow> srp_state \<Rightarrow> bn_ptr \<Rightarrow> srp_state res" where
  "push_bn L s p =
     andthen (bn_val s p) (\<lambda>v.
     case v of
       None \<Rightarrow> Inl (UB Null_deref)
     | Some n \<Rightarrow>
         let buf = sl_bn2bin L n; len = length buf in
         andthen (guard_r (len \<le> 1024) (UB Oob_write)) (\<lambda>_.
         andthen (guard_r (len < 1024) (Die ''assert'')) (\<lambda>_.
         Inr (s\<lparr>ss_stack := ss_stack s @ [buf]\<rparr>))))"

definition lua_arg :: "lua list \<Rightarrow> nat \<Rightarrow> lua option" where
  "lua_arg args i = (if 1 \<le> i \<and> i \<le> length args then Some (args ! (i - 1)) else None)"

definition lua_tolstring :: "env \<Rightarrow> lua option \<Rightarrow> string option" where
  "lua_tolstring E v =
     (case v of
        Some (LStr str) \<Rightarrow> Some str
      | Some (LInt i) \<Rightarrow> Some (lld_text i)
      | Some (LNum d) \<Rightarrow> Some (e_num2str E d)
      | _ \<Rightarrow> None)"

definition luaL_checkstring :: "env \<Rightarrow> lua list \<Rightarrow> nat \<Rightarrow> lua_error + string" where
  \<comment> \<open>the C string: what lies before the first NUL\<close>
  "luaL_checkstring E args i =
     (case lua_arg args i of
        None \<Rightarrow> Inl (Arg_error (int i) ''string expected, got no value'')
      | Some v \<Rightarrow> map_sum id (takeWhile (\<lambda>c. c \<noteq> NUL)) (luaL_checklstring E (int i) v))"

definition lua_tobn ::
  "srp_lib \<Rightarrow> env \<Rightarrow> lua list \<Rightarrow> nat \<Rightarrow> srp_state \<Rightarrow> srp_state \<times> (srp_error + bn_ptr)" where
  "lua_tobn L E args i s =
     (case lua_tolstring E (lua_arg args i) of
        None \<Rightarrow> (s, Inl (Raised (if args = [] then None else Some (last args))))
      | Some str \<Rightarrow> map_prod id Inr (bn_call s (\<lambda>t. sl_bin2bn L t str (to_int (int (length str))))))"

definition with_bn ::
  "srp_state \<times> (srp_error + bn_ptr) \<Rightarrow> (srp_state \<Rightarrow> bn_ptr \<Rightarrow> srp_result) \<Rightarrow> srp_result" where
  \<comment> \<open>a Lua error leaves the C function at once\<close>
  "with_bn r f = (case r of (s, Inl e) \<Rightarrow> Inr (s, Inl e) | (s, Inr p) \<Rightarrow> f s p)"

definition with_str ::
  "srp_state \<Rightarrow> lua_error + string \<Rightarrow> (string \<Rightarrow> srp_result) \<Rightarrow> srp_result" where
  "with_str s r f = (case r of Inl e \<Rightarrow> Inr (s, Inl (Checked e)) | Inr str \<Rightarrow> f str)"

definition lua_return :: "nat \<Rightarrow> srp_state \<Rightarrow> srp_result" where
  \<comment> \<open>\<open>return n\<close>: the top \<open>n\<close> values are the results\<close>
  "lua_return n s =
     Inr (s\<lparr>ss_stack := []\<rparr>, Inr (drop (length (ss_stack s) - n) (ss_stack s)))"

section \<open>The functions of the module\<close>

definition lcreate_verifier :: "srp_lib \<Rightarrow> env \<Rightarrow> srp_state \<Rightarrow> lua list \<Rightarrow> srp_result" where
  "lcreate_verifier L E st args =
     with_str st (luaL_checkstring E args 1) (\<lambda>I.
     with_str st (luaL_checkstring E args 2) (\<lambda>p.
     let t = ss_time st in
     case sl_verifier L t I p (sl_N L) (sl_g L) of
       None \<Rightarrow> lua_return 0 (st\<lparr>ss_time := t + 1\<rparr>)
     | Some (sv, vv) \<Rightarrow>
         let (st, s) = bn_call st (\<lambda>_. Some sv); (st, v) = bn_call st (\<lambda>_. Some vv) in
         andthen (push_bn L st s) (\<lambda>st.
         andthen (push_bn L st v) (\<lambda>st.
         andthen (BN_free st s) (\<lambda>st.
         andthen (BN_free st v) (lua_return 2))))))"

fun client_key_loop ::
  "srp_lib \<Rightarrow> nat \<Rightarrow> srp_state \<Rightarrow> (srp_state \<times> bn_ptr \<times> bn_ptr) res" where
  \<comment> \<open>\<open>while (1)\<close>, with a bound on the number of rounds\<close>
  "client_key_loop L 0 st = Inl Diverge"
| "client_key_loop L (Suc n) st =
     andthen (random_key L st) (\<lambda>(st, a).
     andthen (bn_val st a) (\<lambda>av.
     let (st, A) = bn_call st (\<lambda>t. sl_calc_A L t av (sl_N L) (sl_g L)) in
     andthen (bn_val st A) (\<lambda>Av.
     if \<not> sl_verify_A L Av (sl_N L)
     then andthen (BN_free st a) (\<lambda>st. andthen (BN_free st A) (client_key_loop L n))
     else Inr (st, a, A))))"

definition lcreate_client_key :: "srp_lib \<Rightarrow> nat \<Rightarrow> srp_state \<Rightarrow> lua list \<Rightarrow> srp_result" where
  "lcreate_client_key L n st args =
     andthen (client_key_loop L n st) (\<lambda>(st, a, A).
     andthen (push_bn L st a) (\<lambda>st.
     andthen (push_bn L st A) (\<lambda>st.
     andthen (BN_free st a) (\<lambda>st.
     andthen (BN_free st A) (lua_return 2)))))"

fun server_key_loop ::
  "srp_lib \<Rightarrow> bn_ptr \<Rightarrow> nat \<Rightarrow> srp_state \<Rightarrow> (srp_state \<times> bn_ptr \<times> bn_ptr) res" where
  "server_key_loop L v 0 st = Inl Diverge"
| "server_key_loop L v (Suc n) st =
     andthen (random_key L st) (\<lambda>(st, b).
     andthen (bn_val st b) (\<lambda>bv.
     andthen (bn_val st v) (\<lambda>vv.
     let (st, B) = bn_call st (\<lambda>t. sl_calc_B L t bv (sl_N L) (sl_g L) vv) in
     andthen (bn_val st B) (\<lambda>Bv.
     if \<not> sl_verify_B L Bv (sl_N L)
     then andthen (BN_free st b) (\<lambda>st. andthen (BN_free st B) (server_key_loop L v n))
     else Inr (st, b, B)))))"

definition lcreate_server_session_key ::
  "srp_lib \<Rightarrow> env \<Rightarrow> nat \<Rightarrow> srp_state \<Rightarrow> lua list \<Rightarrow> srp_result" where
  "lcreate_server_session_key L E n st args =
     with_bn (lua_tobn L E args 1 st) (\<lambda>st v.
     with_bn (lua_tobn L E args 2 st) (\<lambda>st A.
     andthen (server_key_loop L v n st) (\<lambda>(st, b, B).
     andthen (bn_val st v) (\<lambda>vv. andthen (bn_val st A) (\<lambda>Av.
     andthen (bn_val st b) (\<lambda>bv. andthen (bn_val st B) (\<lambda>Bv.
     let (st, u) = bn_call st (\<lambda>t. sl_calc_u L t Av Bv (sl_N L)) in
     andthen (bn_val st u) (\<lambda>uv.
     let (st, K) = bn_call st (\<lambda>t. sl_server_key L t Av vv uv bv (sl_N L)) in
     andthen (push_bn L st K) (\<lambda>st.
     andthen (push_bn L st b) (\<lambda>st.
     andthen (push_bn L st B) (\<lambda>st.
     andthen (BN_free st b) (\<lambda>st.
     andthen (BN_free st B) (\<lambda>st.
     andthen (BN_free st v) (\<lambda>st.
     andthen (BN_free st A) (\<lambda>st.
     andthen (BN_free st u) (\<lambda>st.
     andthen (BN_free st K) (lua_return 3)))))))))))))))))"

definition lcreate_client_session_key ::
  "srp_lib \<Rightarrow> env \<Rightarrow> srp_state \<Rightarrow> lua list \<Rightarrow> srp_result" where
  "lcreate_client_session_key L E st args =
     with_str st (luaL_checkstring E args 1) (\<lambda>I.
     with_str st (luaL_checkstring E args 2) (\<lambda>p.
     with_bn (lua_tobn L E args 3 st) (\<lambda>st s.
     with_bn (lua_tobn L E args 4 st) (\<lambda>st a.
     with_bn (lua_tobn L E args 5 st) (\<lambda>st A.
     with_bn (lua_tobn L E args 6 st) (\<lambda>st B.
     andthen (bn_val st s) (\<lambda>sv. andthen (bn_val st a) (\<lambda>av.
     andthen (bn_val st A) (\<lambda>Av. andthen (bn_val st B) (\<lambda>Bv.
     let (st, u) = bn_call st (\<lambda>t. sl_calc_u L t Av Bv (sl_N L));
         (st, x) = bn_call st (\<lambda>t. sl_calc_x L t sv I p) in
     andthen (bn_val st u) (\<lambda>uv. andthen (bn_val st x) (\<lambda>xv.
     let (st, K) = bn_call st (\<lambda>t. sl_client_key L t (sl_N L) Bv (sl_g L) xv av uv) in
     andthen (push_bn L st K) (\<lambda>st.
     andthen (BN_free st s) (\<lambda>st.
     andthen (BN_free st a) (\<lambda>st.
     andthen (BN_free st A) (\<lambda>st.
     andthen (BN_free st B) (\<lambda>st.
     andthen (BN_free st u) (\<lambda>st.
     andthen (BN_free st x) (\<lambda>st.
     andthen (BN_free st K) (lua_return 1))))))))))))))))))))"

definition lrandom :: "srp_lib \<Rightarrow> srp_state \<Rightarrow> lua list \<Rightarrow> srp_result" where
  "lrandom L st args =
     andthen (random_key L st) (\<lambda>(st, r).
     andthen (push_bn L st r) (\<lambda>st.
     andthen (BN_free st r) (lua_return 1)))"


section \<open>The documented behaviour of the libraries\<close>

text \<open>\<open>BN_bin2bn\<close> and \<open>BN_bn2bin\<close> read and write a number in base 256, big end first.\<close>

definition be_value :: "string \<Rightarrow> nat" where
  "be_value str = foldl (\<lambda>v c. v * 256 + of_char c) 0 str"

fun be_bytes :: "nat \<Rightarrow> string" where
  "be_bytes n = (if n = 0 then [] else be_bytes (n div 256) @ [char_of n])"

declare be_bytes.simps [simp del]

lemma be_value_snoc: "be_value (str @ [c]) = be_value str * 256 + of_char c"
  by (simp add: be_value_def)

lemma be_value_bytes [simp]: "be_value (be_bytes n) = n"
proof (induction n rule: be_bytes.induct)
  case (1 n)
  then show ?case
    by (subst be_bytes.simps) (simp add: be_value_snoc be_value_def)
qed

lemma be_value_less: "be_value str < 256 ^ length str"
proof (induction str rule: rev_induct)
  case Nil
  then show ?case by (simp add: be_value_def)
next
  case (snoc c str)
  have c: "of_char c < (256 :: nat)" by simp
  have "be_value str + 1 \<le> 256 ^ length str" using snoc by simp
  then have "(be_value str + 1) * 256 \<le> 256 ^ length str * 256" by (rule mult_right_mono) simp
  then have "be_value str * 256 + 256 \<le> 256 ^ length str * 256" by simp
  with add_strict_left_mono[OF c, of "be_value str * 256"]
  have "be_value str * 256 + of_char c < 256 ^ length str * 256" by (rule less_le_trans)
  then show ?case by (simp add: be_value_snoc mult.commute)
qed

lemma be_bytes_length: "n < 256 ^ m \<Longrightarrow> length (be_bytes n) \<le> m"
proof (induction n arbitrary: m rule: be_bytes.induct)
  case (1 n)
  show ?case
  proof (cases "n = 0")
    case True
    then show ?thesis by (simp add: be_bytes.simps)
  next
    case False
    then obtain k where k: "m = Suc k" using 1 by (cases m) auto
    have "n div 256 < 256 ^ k" using 1(2) k by (simp add: less_mult_imp_div_less mult.commute)
    then show ?thesis using 1(1)[OF False] k False by (subst be_bytes.simps) simp
  qed
qed

text \<open>
  SRP-6a, as RFC 5054 defines it and the library implements it, over the group of 1024 bits the
  code asks for (its modulus has 128 bytes), with the multiplier \<open>k\<close> and the two SHA-1 hashes
  \<open>hx\<close> (of salt, name and password) and \<open>hu\<close> (of the public keys, not zero), which have 20 bytes;
  no call fails for want of memory. \<open>SRP_Calc_u\<close> is only relied upon for public keys below the
  modulus (for others the library returns NULL), and the client's key only for an exponent below
  the modulus, since the library reduces it.
\<close>

definition srp_documented ::
  "nat \<Rightarrow> (nat \<Rightarrow> string \<Rightarrow> string \<Rightarrow> nat) \<Rightarrow> (nat \<Rightarrow> nat \<Rightarrow> nat) \<Rightarrow> srp_lib \<Rightarrow> bool" where
  "srp_documented k hx hu L \<longleftrightarrow>
     256 ^ 127 \<le> sl_N L \<and> sl_N L < 256 ^ 128
     \<and> (\<forall>s I p. hx s I p < 256 ^ 20)
     \<and> (\<forall>A B. 0 < hu A B \<and> hu A B < 256 ^ 20)
     \<and> (\<forall>t. \<exists>tmp. sl_rand L t = Some tmp \<and> length tmp = KEY_SIZE)
     \<and> (\<forall>t str. sl_bin2bn L t str (int (length str)) = Some (be_value str))
     \<and> (\<forall>n. sl_bn2bin L n = be_bytes n)
     \<and> (\<forall>t I p. \<exists>s < 256 ^ 20.
          sl_verifier L t I p (sl_N L) (sl_g L) = Some (s, sl_g L ^ hx s I p mod sl_N L))
     \<and> (\<forall>t a. sl_calc_A L t (Some a) (sl_N L) (sl_g L) = Some (sl_g L ^ a mod sl_N L))
     \<and> (\<forall>A. sl_verify_A L (Some A) (sl_N L) = (A mod sl_N L \<noteq> 0))
     \<and> (\<forall>t b v. sl_calc_B L t (Some b) (sl_N L) (sl_g L) (Some v)
                = Some ((k * v + sl_g L ^ b) mod sl_N L))
     \<and> (\<forall>B. sl_verify_B L (Some B) (sl_N L) = (B mod sl_N L \<noteq> 0))
     \<and> (\<forall>t A B. A < sl_N L \<longrightarrow> B < sl_N L \<longrightarrow>
          sl_calc_u L t (Some A) (Some B) (sl_N L) = Some (hu A B))
     \<and> (\<forall>t s I p. sl_calc_x L t (Some s) I p = Some (hx s I p))
     \<and> (\<forall>t A v u b. sl_server_key L t (Some A) (Some v) (Some u) (Some b) (sl_N L)
                    = Some ((A * v ^ u) ^ b mod sl_N L))
     \<and> (\<forall>t B x a u. a + u * x < sl_N L \<longrightarrow>
          sl_client_key L t (sl_N L) (Some B) (sl_g L) (Some x) (Some a) (Some u)
          = Some (nat ((int B - int k * int (sl_g L) ^ x) ^ (a + u * x) mod int (sl_N L))))"

lemma srp_documentedD:
  assumes "srp_documented k hx hu L"
  shows "1 < sl_N L" "sl_N L < 256 ^ 128"
    "\<exists>tmp. sl_rand L t = Some tmp \<and> length tmp = KEY_SIZE"
    "n = int (length str) \<Longrightarrow> sl_bin2bn L t str n = Some (be_value str)"
    "sl_bn2bin L m = be_bytes m"
    "\<exists>s < 256 ^ 20. sl_verifier L t I p (sl_N L) (sl_g L) = Some (s, sl_g L ^ hx s I p mod sl_N L)"
    "sl_calc_A L t (Some a) (sl_N L) (sl_g L) = Some (sl_g L ^ a mod sl_N L)"
    "sl_verify_A L (Some A) (sl_N L) = (A mod sl_N L \<noteq> 0)"
    "sl_calc_B L t (Some b) (sl_N L) (sl_g L) (Some v) = Some ((k * v + sl_g L ^ b) mod sl_N L)"
    "sl_verify_B L (Some B) (sl_N L) = (B mod sl_N L \<noteq> 0)"
    "A < sl_N L \<Longrightarrow> B < sl_N L \<Longrightarrow> sl_calc_u L t (Some A) (Some B) (sl_N L) = Some (hu A B)"
    "sl_calc_x L t (Some s) I p = Some (hx s I p)"
    "sl_server_key L t (Some A) (Some v) (Some u) (Some b) (sl_N L)
     = Some ((A * v ^ u) ^ b mod sl_N L)"
    "a + u * x < sl_N L \<Longrightarrow> sl_client_key L t (sl_N L) (Some B) (sl_g L) (Some x) (Some a) (Some u)
     = Some (nat ((int B - int k * int (sl_g L) ^ x) ^ (a + u * x) mod int (sl_N L)))"
    "256 ^ 127 \<le> sl_N L" "hx s I p < 256 ^ 20" "hu A B < 256 ^ 20"
proof -
  have N: "256 ^ 127 \<le> sl_N L" using assms unfolding srp_documented_def by blast
  have "(1 :: nat) < 256 ^ 127" by (rule one_less_power) simp_all
  with N show "1 < sl_N L" by (rule less_le_trans[rotated])
qed (use assms in \<open>simp_all add: srp_documented_def\<close>)

text \<open>The exponent of the client: a private key of 32 bytes and a product of two hashes.\<close>

lemma exponent_small:
  assumes "srp_documented k hx hu L" "a < 256 ^ KEY_SIZE"
  shows "a + hu A B * hx s I p < sl_N L"
proof -
  have "hu A B * hx s I p \<le> 256 ^ 20 * 256 ^ 20"
    using srp_documentedD(16,17)[OF assms(1)] by (intro mult_le_mono) (simp_all add: less_imp_le)
  also have "\<dots> = (256 :: nat) ^ 40" by (simp flip: power_add)
  finally have "a + hu A B * hx s I p < 256 ^ 32 + 256 ^ 40"
    using assms(2) unfolding KEY_SIZE_def by linarith
  also have "(256 :: nat) ^ 32 + 256 ^ 40 \<le> 256 ^ 40 + 256 ^ 40"
    by (intro add_mono power_increasing) simp_all
  also have "\<dots> \<le> (256 :: nat) ^ 41" by simp
  also have "\<dots> \<le> 256 ^ 127" by (rule power_increasing) simp_all
  also have "\<dots> \<le> sl_N L" by (rule srp_documentedD(15)[OF assms(1)])
  finally show ?thesis .
qed

text \<open>The key the two sides compute from the private keys.\<close>

lemma session_key_eq:
  fixes N g :: nat
  assumes v: "v = g ^ x mod N" and A: "A = g ^ a mod N" and B: "B = (k * v + g ^ b) mod N"
    and N: "1 < N"
  shows "nat ((int B - int k * int g ^ x) ^ (a + u * x) mod int N) = (A * v ^ u) ^ b mod N"
proof -
  have "(int B - int k * int g ^ x) mod int N
      = ((int k * (int g ^ x mod int N) + int g ^ b) mod int N - int k * int g ^ x) mod int N"
    by (simp add: B v zmod_int)
  also have "\<dots> = (int k * (int g ^ x mod int N) + int g ^ b - int k * int g ^ x) mod int N"
    by (simp only: mod_diff_left_eq)
  also have "\<dots> = int g ^ b mod int N"
  proof -
    have "int k * (int g ^ x mod int N) + int g ^ b - int k * int g ^ x - int g ^ b
        = int N * - (int k * (int g ^ x div int N))"
      by (simp add: minus_mult_div_eq_mod [symmetric] algebra_simps)
    then show ?thesis unfolding mod_eq_dvd_iff by simp
  qed
  finally have "(int B - int k * int g ^ x) ^ (a + u * x) mod int N
      = (int g ^ b) ^ (a + u * x) mod int N"
    by (metis power_mod)
  also have "\<dots> = (int g ^ a * (int g ^ x) ^ u) ^ b mod int N"
    by (simp add: power_mult [symmetric] power_add [symmetric] mult.commute algebra_simps)
  also have "\<dots> = int ((A * v ^ u) ^ b mod N)"
  proof -
    have "int A * int v ^ u mod int N = int g ^ a * (int g ^ x) ^ u mod int N"
      unfolding A v zmod_int of_nat_power
      by (subst mod_mult_eq [symmetric], subst power_mod, subst mod_mod_trivial,
          subst mod_mult_eq) (rule refl)
    then have "(int A * int v ^ u) ^ b mod int N = (int g ^ a * (int g ^ x) ^ u) ^ b mod int N"
      by (subst (1 2) power_mod [symmetric]) simp
    then show ?thesis by (simp add: zmod_int)
  qed
  finally show ?thesis by simp
qed


section \<open>The loops that draw a private key\<close>

text \<open>The number drawn at a time, and the two tests.\<close>

definition drawn :: "srp_lib \<Rightarrow> nat \<Rightarrow> nat" where
  "drawn L t = (case sl_rand L t of None \<Rightarrow> 0 | Some tmp \<Rightarrow> be_value tmp)"

definition st_ok :: "srp_state \<Rightarrow> bool" where
  "st_ok st \<longleftrightarrow> (\<forall>a \<ge> ss_time st. ss_bn st a = None)"

definition two_numbers :: "srp_state \<Rightarrow> nat \<Rightarrow> nat \<Rightarrow> nat \<Rightarrow> nat \<Rightarrow> srp_state \<Rightarrow> bool" where
  \<comment> \<open>\<open>st'\<close> is a later \<open>st\<close> with two more numbers\<close>
  "two_numbers st a av A Av st' \<longleftrightarrow>
     ss_time st \<le> a \<and> a < A \<and> A < ss_time st' \<and> ss_stack st' = ss_stack st
     \<and> ss_bn st' = (ss_bn st)(a \<mapsto> av, A \<mapsto> Av)"

lemma drawn_less: "srp_documented k hx hu L \<Longrightarrow> drawn L t < 256 ^ KEY_SIZE"
  using srp_documentedD(3)[of k hx hu L t] be_value_less
  by (metis drawn_def option.simps(5))

lemma random_key_doc:
  assumes "srp_documented k hx hu L"
  shows "random_key L st =
    Inr (st\<lparr>ss_time := ss_time st + 2, ss_bn := (ss_bn st)(ss_time st + 1 \<mapsto> drawn L (ss_time st))\<rparr>,
      Some (ss_time st + 1))"
proof -
  obtain tmp where tmp: "sl_rand L (ss_time st) = Some tmp" "length tmp = KEY_SIZE"
    using srp_documentedD(3)[OF assms] by blast
  have "sl_bin2bn L t tmp (int KEY_SIZE) = Some (be_value tmp)" for t
    using srp_documentedD(4)[OF assms, of "int KEY_SIZE" tmp] tmp(2) by simp
  then show ?thesis using tmp(1) by (simp add: random_key_def bn_call_def drawn_def Let_def)
qed

text \<open>One round of each loop.\<close>

lemma client_round:
  assumes doc: "srp_documented k hx hu L" and st: "st_ok st"
  defines "a \<equiv> drawn L (ss_time st)"
  defines "A \<equiv> sl_g L ^ a mod sl_N L"
  shows "client_key_loop L (Suc n) st =
    (if A = 0 then client_key_loop L n (st\<lparr>ss_time := ss_time st + 3\<rparr>)
     else Inr (st\<lparr>ss_time := ss_time st + 3,
            ss_bn := (ss_bn st)(ss_time st + 1 \<mapsto> a, ss_time st + 2 \<mapsto> A)\<rparr>,
          Some (ss_time st + 1), Some (ss_time st + 2)))"
proof -
  have A: "sl_calc_A L t (Some a) (sl_N L) (sl_g L) = Some A"
    and V: "sl_verify_A L (Some A) (sl_N L) = (A \<noteq> 0)" for t
    using srp_documentedD[OF doc] by (simp_all add: A_def)
  have free: "ss_bn st (Suc (ss_time st)) = None" "ss_bn st (Suc (Suc (ss_time st))) = None"
    using st by (simp_all add: st_ok_def)
  show ?thesis
    using free A V
    by (simp add: random_key_doc[OF doc] bn_val_def bn_call_def BN_free_def Let_def
        fun_upd_idem fun_upd_twist numeral_3_eq_3 a_def [symmetric])
qed

lemma server_round:
  assumes doc: "srp_documented k hx hu L" and st: "st_ok st" and v: "ss_bn st p = Some v"
  defines "b \<equiv> drawn L (ss_time st)"
  defines "B \<equiv> (k * v + sl_g L ^ b) mod sl_N L"
  shows "server_key_loop L (Some p) (Suc n) st =
    (if B = 0 then server_key_loop L (Some p) n (st\<lparr>ss_time := ss_time st + 3\<rparr>)
     else Inr (st\<lparr>ss_time := ss_time st + 3,
            ss_bn := (ss_bn st)(ss_time st + 1 \<mapsto> b, ss_time st + 2 \<mapsto> B)\<rparr>,
          Some (ss_time st + 1), Some (ss_time st + 2)))"
proof -
  have B: "sl_calc_B L t (Some b) (sl_N L) (sl_g L) (Some v) = Some B"
    and V: "sl_verify_B L (Some B) (sl_N L) = (B \<noteq> 0)" for t
    using srp_documentedD[OF doc] by (simp_all add: B_def)
  have free: "ss_bn st (Suc (ss_time st)) = None" "ss_bn st (Suc (Suc (ss_time st))) = None"
    using st by (simp_all add: st_ok_def)
  then have p: "p \<noteq> Suc (ss_time st)" "p \<noteq> Suc (Suc (ss_time st))" using v by auto
  show ?thesis
    using free B V p v
    by (simp add: random_key_doc[OF doc] bn_val_def bn_call_def BN_free_def Let_def
        fun_upd_idem fun_upd_twist numeral_3_eq_3 b_def [symmetric])
qed


declare client_key_loop.simps(2) [simp del] server_key_loop.simps(2) [simp del]

lemma st_ok_time: "st_ok st \<Longrightarrow> ss_time st \<le> t \<Longrightarrow> st_ok (st\<lparr>ss_time := t\<rparr>)"
  by (simp add: st_ok_def)

lemma client_loop_result:
  assumes doc: "srp_documented k hx hu L" and st: "st_ok st"
  shows "client_key_loop L n st = Inl Diverge
    \<or> (\<exists>st' a av A. client_key_loop L n st = Inr (st', Some a, Some A) \<and> av < 256 ^ KEY_SIZE
         \<and> two_numbers st a av A (sl_g L ^ av mod sl_N L) st')"
  using st
proof (induction n arbitrary: st)
  case (Suc n)
  let ?a = "drawn L (ss_time st)" and ?t = "ss_time st"
  show ?case
  proof (cases "sl_g L ^ ?a mod sl_N L = 0")
    case True
    then have eq: "client_key_loop L (Suc n) st = client_key_loop L n (st\<lparr>ss_time := ?t + 3\<rparr>)"
      using client_round[OF doc Suc.prems, of n] by simp
    show ?thesis
      using Suc.IH[OF st_ok_time[OF Suc.prems, of "?t + 3"]] unfolding eq two_numbers_def by fastforce
  next
    case False
    have "two_numbers st (?t + 1) ?a (?t + 2) (sl_g L ^ ?a mod sl_N L)
        (st\<lparr>ss_time := ?t + 3,
            ss_bn := (ss_bn st)(?t + 1 \<mapsto> ?a, ?t + 2 \<mapsto> sl_g L ^ ?a mod sl_N L)\<rparr>)"
      by (simp add: two_numbers_def)
    then show ?thesis
      using client_round[OF doc Suc.prems, of n] False drawn_less[OF doc, of ?t] by metis
  qed
qed simp

lemma server_loop_result:
  assumes doc: "srp_documented k hx hu L" and st: "st_ok st" and v: "ss_bn st p = Some v"
  shows "server_key_loop L (Some p) n st = Inl Diverge
    \<or> (\<exists>st' b bv B. server_key_loop L (Some p) n st = Inr (st', Some b, Some B)
         \<and> bv < 256 ^ KEY_SIZE \<and> two_numbers st b bv B ((k * v + sl_g L ^ bv) mod sl_N L) st')"
  using st v
proof (induction n arbitrary: st)
  case (Suc n)
  let ?b = "drawn L (ss_time st)" and ?t = "ss_time st"
  let ?B = "(k * v + sl_g L ^ ?b) mod sl_N L"
  show ?case
  proof (cases "?B = 0")
    case True
    then have eq: "server_key_loop L (Some p) (Suc n) st
        = server_key_loop L (Some p) n (st\<lparr>ss_time := ?t + 3\<rparr>)"
      using server_round[OF doc Suc.prems, of n] by simp
    show ?thesis
      using Suc.IH[OF st_ok_time[OF Suc.prems(1), of "?t + 3"]] Suc.prems(2)
      unfolding eq two_numbers_def by fastforce
  next
    case False
    have "two_numbers st (?t + 1) ?b (?t + 2) ?B
        (st\<lparr>ss_time := ?t + 3, ss_bn := (ss_bn st)(?t + 1 \<mapsto> ?b, ?t + 2 \<mapsto> ?B)\<rparr>)"
      by (simp add: two_numbers_def)
    then show ?thesis
      using server_round[OF doc Suc.prems, of n] False drawn_less[OF doc, of ?t] by metis
  qed
qed simp

text \<open>Neither loop uses up a bound that admits one acceptable draw.\<close>

lemma client_loop_ends:
  assumes doc: "srp_documented k hx hu L" and st: "st_ok st"
    and i: "i < n" "sl_g L ^ drawn L (ss_time st + 3 * i) mod sl_N L \<noteq> 0"
  shows "client_key_loop L n st \<noteq> Inl Diverge"
  using st i
proof (induction n arbitrary: st i)
  case (Suc n)
  show ?case
  proof (cases "sl_g L ^ drawn L (ss_time st) mod sl_N L = 0")
    case True
    then obtain j where j: "i = Suc j" using Suc.prems(3) by (cases i) auto
    have "client_key_loop L n (st\<lparr>ss_time := ss_time st + 3\<rparr>) \<noteq> Inl Diverge"
      using Suc.prems(2,3) st_ok_time[OF Suc.prems(1), of "ss_time st + 3"]
      by (intro Suc.IH[of _ j]) (simp_all add: j algebra_simps)
    then show ?thesis using client_round[OF doc Suc.prems(1), of n] True by simp
  qed (use client_round[OF doc Suc.prems(1), of n] in simp)
qed simp

lemma server_loop_ends:
  assumes doc: "srp_documented k hx hu L" and st: "st_ok st" and v: "ss_bn st p = Some v"
    and i: "i < n" "(k * v + sl_g L ^ drawn L (ss_time st + 3 * i)) mod sl_N L \<noteq> 0"
  shows "server_key_loop L (Some p) n st \<noteq> Inl Diverge"
  using st v i
proof (induction n arbitrary: st i)
  case (Suc n)
  show ?case
  proof (cases "(k * v + sl_g L ^ drawn L (ss_time st)) mod sl_N L = 0")
    case True
    then obtain j where j: "i = Suc j" using Suc.prems(4) by (cases i) auto
    have "server_key_loop L (Some p) n (st\<lparr>ss_time := ss_time st + 3\<rparr>) \<noteq> Inl Diverge"
      using Suc.prems(2-4) st_ok_time[OF Suc.prems(1), of "ss_time st + 3"]
      by (intro Suc.IH[of _ j]) (simp_all add: j algebra_simps)
    then show ?thesis using server_round[OF doc Suc.prems(1,2), of n] True by simp
  qed (use server_round[OF doc Suc.prems(1,2), of n] in simp)
qed simp

text \<open>The first draw that is accepted.\<close>

lemma first_good_draw:
  assumes doc: "srp_documented k hx hu L" and st: "st_ok st" and v: "ss_bn st p = Some v"
    and i: "(k * v + sl_g L ^ drawn L (ss_time st + 3 * i)) mod sl_N L \<noteq> 0"
      "\<forall>j < i. (k * v + sl_g L ^ drawn L (ss_time st + 3 * j)) mod sl_N L = 0"
    and n: "i < n"
  shows "server_key_loop L (Some p) n st =
    (let t = ss_time st + 3 * i; b = drawn L t in
     Inr (st\<lparr>ss_time := t + 3,
            ss_bn := (ss_bn st)(t + 1 \<mapsto> b, t + 2 \<mapsto> (k * v + sl_g L ^ b) mod sl_N L)\<rparr>,
          Some (t + 1), Some (t + 2)))"
  using st v i n
proof (induction i arbitrary: st n)
  case 0
  then obtain m where n: "n = Suc m" by (cases n) auto
  show ?case using server_round[OF doc 0(1,2), of m] 0(3) by (simp add: n Let_def fun_upd_def)
next
  case (Suc i)
  then obtain m where n: "n = Suc m" by (cases n) auto
  let ?st = "st\<lparr>ss_time := ss_time st + 3\<rparr>"
  have "(k * v + sl_g L ^ drawn L (ss_time st)) mod sl_N L = 0" using Suc.prems(4) by force
  then have "server_key_loop L (Some p) n st = server_key_loop L (Some p) m ?st"
    using server_round[OF doc Suc.prems(1,2), of m] by (simp add: n)
  moreover have "\<forall>j < i. (k * v + sl_g L ^ drawn L (ss_time ?st + 3 * j)) mod sl_N L = 0"
  proof (intro allI impI)
    fix j assume "j < i"
    then show "(k * v + sl_g L ^ drawn L (ss_time ?st + 3 * j)) mod sl_N L = 0"
      using Suc.prems(4)[rule_format, of "Suc j"] by (simp add: algebra_simps)
  qed
  moreover have "(k * v + sl_g L ^ drawn L (ss_time ?st + 3 * i)) mod sl_N L \<noteq> 0"
    using Suc.prems(3) by (simp add: algebra_simps)
  ultimately show ?case
    using Suc.IH[OF st_ok_time[OF Suc.prems(1), of "ss_time st + 3"]] Suc.prems(2,5)
    by (simp add: n algebra_simps)
qed

text \<open>
  C18: The loop in which the server draws its private key ends with the first draw whose public
  key is not a multiple of the modulus: that many rounds of three library calls, every rejected
  pair freed again, however large the bound on the rounds.
\<close>
theorem first_good_draw_ends_loop:
  assumes doc: "srp_documented k hx hu L" and st: "st_ok st" and v: "ss_bn st p = Some v"
    and i: "(k * v + sl_g L ^ drawn L (ss_time st + 3 * i)) mod sl_N L \<noteq> 0"
      "\<forall>j < i. (k * v + sl_g L ^ drawn L (ss_time st + 3 * j)) mod sl_N L = 0"
    and n: "i < n"
  shows "server_key_loop L (Some p) n st =
    (let t = ss_time st + 3 * i; b = drawn L t in
     Inr (st\<lparr>ss_time := t + 3,
            ss_bn := (ss_bn st)(t + 1 \<mapsto> b, t + 2 \<mapsto> (k * v + sl_g L ^ b) mod sl_N L)\<rparr>,
          Some (t + 1), Some (t + 2)))"
  using doc st v i n by (rule first_good_draw)

section \<open>What the functions return\<close>

lemma push_bn_doc:
  assumes "srp_documented k hx hu L" "ss_bn st p = Some v" "v < 256 ^ 128"
  shows "push_bn L st (Some p) = Inr (st\<lparr>ss_stack := ss_stack st @ [be_bytes v]\<rparr>)"
  using srp_documentedD(5)[OF assms(1)] be_bytes_length[OF assms(3)] assms(2)
  by (simp add: push_bn_def bn_val_def Let_def)

lemma tobn_doc:
  assumes "srp_documented k hx hu L" "lua_arg args i = Some (LStr str)" "length str \<le> 1024"
  shows "lua_tobn L E args i st =
    (st\<lparr>ss_time := ss_time st + 1, ss_bn := (ss_bn st)(ss_time st \<mapsto> be_value str)\<rparr>,
     Inr (Some (ss_time st)))"
proof -
  have "to_int (int (length str)) = int (length str)"
    using assms(3) by (intro to_int_id) (simp add: int_ok_iff)
  then show ?thesis
    using srp_documentedD(4)[OF assms(1)] assms(2)
    by (simp add: lua_tobn_def lua_tolstring_def bn_call_def Let_def)
qed

lemma key_small: "av < 256 ^ KEY_SIZE \<Longrightarrow> av < (256 :: nat) ^ 128"
  by (erule less_le_trans) (simp add: KEY_SIZE_def power_increasing)

lemma client_key_doc:
  assumes doc: "srp_documented k hx hu L" and st: "st_ok st" "ss_stack st = []"
  shows "client_key_loop L n st = Inl Diverge
    \<or> (\<exists>st' a. lcreate_client_key L n st args
          = Inr (st', Inr [be_bytes a, be_bytes (sl_g L ^ a mod sl_N L)])
         \<and> a < 256 ^ KEY_SIZE \<and> ss_bn st' = ss_bn st \<and> ss_stack st' = [] \<and> st_ok st')"
proof (rule disjE[OF client_loop_result[OF doc st(1), of n]])
  assume "client_key_loop L n st = Inl Diverge"
  then show ?thesis ..
next
  assume "\<exists>st' a av A. client_key_loop L n st = Inr (st', Some a, Some A) \<and> av < 256 ^ KEY_SIZE
         \<and> two_numbers st a av A (sl_g L ^ av mod sl_N L) st'"
  then obtain st' a av A where loop: "client_key_loop L n st = Inr (st', Some a, Some A)"
    and av: "av < 256 ^ KEY_SIZE" and two: "two_numbers st a av A (sl_g L ^ av mod sl_N L) st'"
    by blast
  have "sl_g L ^ av mod sl_N L < 256 ^ 128"
    using srp_documentedD(1,2)[OF doc] by (meson less_trans mod_less_divisor zero_less_one)
  moreover have "ss_bn st a = None" "ss_bn st A = None"
    using st(1) two by (simp_all add: st_ok_def two_numbers_def)
  ultimately have "lcreate_client_key L n st args
      = Inr (st'\<lparr>ss_bn := ss_bn st, ss_stack := []\<rparr>, Inr [be_bytes av, be_bytes (sl_g L ^ av mod sl_N L)])"
    using two st(2) key_small[OF av]
    by (simp add: lcreate_client_key_def loop push_bn_doc[OF doc] two_numbers_def BN_free_def
        lua_return_def fun_upd_idem fun_upd_twist)
  then show ?thesis using av two st by (auto simp: two_numbers_def st_ok_def)
qed


lemma mod_N_small: "srp_documented k hx hu L \<Longrightarrow> n mod sl_N L < 256 ^ 128"
  using srp_documentedD(1,2)[of k hx hu L] by (meson less_trans mod_less_divisor zero_less_one)

lemma server_session_run:
  fixes L :: srp_lib and vs As :: string
  assumes doc: "srp_documented k hx hu L" and st: "st_ok st" "ss_stack st = []"
    and len: "length vs \<le> 1024" "length As \<le> 1024" and less: "be_value As < sl_N L"
  defines "v \<equiv> be_value vs" and "A \<equiv> be_value As"
  defines "B \<equiv> \<lambda>b. (k * v + sl_g L ^ b) mod sl_N L"
  defines "K \<equiv> \<lambda>b. (A * v ^ hu A (B b)) ^ b mod sl_N L"
  defines "s \<equiv> st\<lparr>ss_time := ss_time st + 2, ss_bn := (ss_bn st)(ss_time st \<mapsto> v, ss_time st + 1 \<mapsto> A)\<rparr>"
  shows "st_ok s" "ss_bn s (ss_time st) = Some v"
    and "server_key_loop L (Some (ss_time st)) n s = Inl Diverge \<Longrightarrow>
      lcreate_server_session_key L E n st [LStr vs, LStr As] = Inl Diverge"
    and "server_key_loop L (Some (ss_time st)) n s = Inr (st', Some b, Some p) \<Longrightarrow> bv < 256 ^ KEY_SIZE \<Longrightarrow>
      two_numbers s b bv p (B bv) st' \<Longrightarrow>
      \<exists>st''. lcreate_server_session_key L E n st [LStr vs, LStr As]
          = Inr (st'', Inr [be_bytes (K bv), be_bytes bv, be_bytes (B bv)])
        \<and> ss_bn st'' = ss_bn st \<and> ss_stack st'' = [] \<and> st_ok st''"
proof -
  let ?t = "ss_time st"
  let ?f = "lcreate_server_session_key L E n st [LStr vs, LStr As]"
  show s_ok: "st_ok s" "ss_bn s ?t = Some v" using st(1) by (auto simp: st_ok_def s_def)
  have args: "lua_arg [LStr vs, LStr As] 1 = Some (LStr vs)" "lua_arg [LStr vs, LStr As] 2 = Some (LStr As)"
    by (simp_all add: lua_arg_def)
  note start = lcreate_server_session_key_def tobn_doc[OF doc args(1) len(1), unfolded One_nat_def]
    tobn_doc[OF doc args(2) len(2)] with_bn_def v_def [symmetric] A_def [symmetric]
  show "server_key_loop L (Some ?t) n s = Inl Diverge \<Longrightarrow> ?f = Inl Diverge"
    by (simp add: start s_def)
  assume loop: "server_key_loop L (Some ?t) n s = Inr (st', Some b, Some p)"
    and bv: "bv < 256 ^ KEY_SIZE" and two: "two_numbers s b bv p (B bv) st'"
  have free: "ss_bn st a = None" if "?t \<le> a" for a using st(1) that by (simp add: st_ok_def)
  have ord: "?t + 2 \<le> b" "b < p" "p < ss_time st'" and stk: "ss_stack st' = []"
    and bn: "ss_bn st' = (ss_bn st)(?t \<mapsto> v, ?t + 1 \<mapsto> A, b \<mapsto> bv, p \<mapsto> B bv)"
    using two st(2) by (simp_all add: two_numbers_def s_def)
  have small: "K bv < 256 ^ 128" "B bv < 256 ^ 128" "bv < 256 ^ 128"
    using mod_N_small[OF doc] key_small[OF bv] by (simp_all add: K_def B_def)
  have Kb: "(A * v ^ hu A (B bv)) ^ bv mod sl_N L = K bv" by (simp add: K_def)
  have below: "A < sl_N L" "B bv < sl_N L" using less srp_documentedD(1)[OF doc] by (simp_all add: A_def B_def)
  let ?T = "ss_time st'"
  have "?f = Inr (st'\<lparr>ss_time := ?T + 2, ss_bn := ss_bn st, ss_stack := []\<rparr>,
      Inr [be_bytes (K bv), be_bytes bv, be_bytes (B bv)])"
    using ord stk small free
    by (simp add: start loop [simplified s_def, simplified] bn bn_val_def bn_call_def Let_def srp_documentedD(13)[OF doc]
        srp_documentedD(11)[OF doc below] Kb push_bn_doc[OF doc] BN_free_def lua_return_def fun_upd_twist fun_upd_idem)
  then show "\<exists>st''. ?f = Inr (st'', Inr [be_bytes (K bv), be_bytes bv, be_bytes (B bv)])
      \<and> ss_bn st'' = ss_bn st \<and> ss_stack st'' = [] \<and> st_ok st''"
    using st ord by (auto simp: st_ok_def)
qed

lemma server_session_doc:
  fixes L :: srp_lib and vs As :: string
  assumes doc: "srp_documented k hx hu L" and st: "st_ok st" "ss_stack st = []"
    and len: "length vs \<le> 1024" "length As \<le> 1024" and less: "be_value As < sl_N L"
  defines "v \<equiv> be_value vs" and "A \<equiv> be_value As"
  defines "B \<equiv> \<lambda>b. (k * v + sl_g L ^ b) mod sl_N L"
  defines "K \<equiv> \<lambda>b. (A * v ^ hu A (B b)) ^ b mod sl_N L"
  shows "lcreate_server_session_key L E n st [LStr vs, LStr As] = Inl Diverge
      \<and> (\<exists>s' p. st_ok s' \<and> ss_bn s' p = Some v \<and> server_key_loop L (Some p) n s' = Inl Diverge)
    \<or> (\<exists>st' b. lcreate_server_session_key L E n st [LStr vs, LStr As]
          = Inr (st', Inr [be_bytes (K b), be_bytes b, be_bytes (B b)])
         \<and> b < 256 ^ KEY_SIZE \<and> ss_bn st' = ss_bn st \<and> ss_stack st' = [] \<and> st_ok st')"
proof -
  note run = server_session_run[OF doc st len less, folded v_def A_def, folded B_def]
  from server_loop_result[OF doc run(1,2), of n] show ?thesis
    unfolding B_def K_def using run by blast
qed

lemma client_session_doc:
  fixes L :: srp_lib and ss as As Bs :: string
  assumes doc: "srp_documented k hx hu L" and st: "st_ok st" "ss_stack st = []"
    and len: "length ss \<le> 1024" "length as \<le> 1024" "length As \<le> 1024" "length Bs \<le> 1024"
    and nul: "NUL \<notin> set I" "NUL \<notin> set p"
    and less: "be_value As < sl_N L" "be_value Bs < sl_N L" "be_value as < 256 ^ KEY_SIZE"
  defines "A \<equiv> be_value As" and "B \<equiv> be_value Bs" and "x \<equiv> hx (be_value ss) I p"
  defines "K \<equiv> nat ((int B - int k * int (sl_g L) ^ x)
                      ^ (be_value as + hu A B * x) mod int (sl_N L))"
  shows "\<exists>st'. lcreate_client_session_key L E st [LStr I, LStr p, LStr ss, LStr as, LStr As, LStr Bs]
          = Inr (st', Inr [be_bytes K]) \<and> ss_bn st' = ss_bn st \<and> ss_stack st' = [] \<and> st_ok st'"
proof -
  let ?l = "[LStr I, LStr p, LStr ss, LStr as, LStr As, LStr Bs]" and ?t = "ss_time st"
  let ?f = "lcreate_client_session_key L E st ?l"
  have args: "lua_arg ?l 3 = Some (LStr ss)" "lua_arg ?l 4 = Some (LStr as)"
    "lua_arg ?l 5 = Some (LStr As)" "lua_arg ?l 6 = Some (LStr Bs)"
    by (simp_all add: lua_arg_def)
  have strs: "luaL_checkstring E ?l 1 = Inr I" "luaL_checkstring E ?l 2 = Inr p"
    using nul by (auto simp: luaL_checkstring_def lua_arg_def luaL_checklstring_def takeWhile_eq_all_conv)
  note start = lcreate_client_session_key_def with_bn_def with_str_def strs [unfolded One_nat_def] strs
    tobn_doc[OF doc args(1) len(1)] tobn_doc[OF doc args(2) len(2)]
    tobn_doc[OF doc args(3) len(3)] tobn_doc[OF doc args(4) len(4)]
    A_def [symmetric] B_def [symmetric]
  have free: "ss_bn st a = None" if "?t \<le> a" for a using st(1) that by (simp add: st_ok_def)
  have "0 < sl_N L" using srp_documentedD(1)[OF doc] by simp
  then have "int K < int (sl_N L)" by (simp add: K_def)
  then have small: "K < 256 ^ 128" using srp_documentedD(2)[OF doc] by linarith
  have K: "nat ((int B - int k * int (sl_g L) ^ hx (be_value ss) I p)
      ^ (be_value as + hu A B * hx (be_value ss) I p) mod int (sl_N L)) = K"
    by (simp add: K_def x_def)
  have "?f = Inr (st\<lparr>ss_time := ?t + 7, ss_stack := []\<rparr>, Inr [be_bytes K])"
    using st(2) small free
    by (simp add: start bn_val_def bn_call_def Let_def srp_documentedD(12)[OF doc] K
        srp_documentedD(11)[OF doc less(1,2)[folded A_def B_def]]
        srp_documentedD(14)[OF doc exponent_small[OF doc less(3)]]
        push_bn_doc[OF doc] BN_free_def lua_return_def fun_upd_twist fun_upd_idem)
  then show ?thesis using st by (auto simp: st_ok_def)
qed

lemma verifier_doc:
  assumes doc: "srp_documented k hx hu L" and st: "st_ok st" "ss_stack st = []"
    and nul: "NUL \<notin> set I" "NUL \<notin> set p"
  shows "\<exists>st' s. s < 256 ^ 20 \<and> lcreate_verifier L E st [LStr I, LStr p]
          = Inr (st', Inr [be_bytes s, be_bytes (sl_g L ^ hx s I p mod sl_N L)])
        \<and> ss_bn st' = ss_bn st \<and> ss_stack st' = [] \<and> st_ok st'"
proof -
  let ?l = "[LStr I, LStr p]" and ?t = "ss_time st"
  have strs: "luaL_checkstring E ?l 1 = Inr I" "luaL_checkstring E ?l 2 = Inr p"
    using nul by (auto simp: luaL_checkstring_def lua_arg_def luaL_checklstring_def takeWhile_eq_all_conv)
  obtain s where s: "s < 256 ^ 20"
    "sl_verifier L ?t I p (sl_N L) (sl_g L) = Some (s, sl_g L ^ hx s I p mod sl_N L)"
    using srp_documentedD(6)[OF doc] by blast
  have free: "ss_bn st a = None" if "?t \<le> a" for a using st(1) that by (simp add: st_ok_def)
  have "(256 :: nat) ^ 20 \<le> 256 ^ 128" by (rule power_increasing) simp_all
  with s(1) have "s < 256 ^ 128" by linarith
  then have "lcreate_verifier L E st ?l
      = Inr (st\<lparr>ss_time := ?t + 2, ss_stack := []\<rparr>, Inr [be_bytes s, be_bytes (sl_g L ^ hx s I p mod sl_N L)])"
    using st(2) s(2) free mod_N_small[OF doc, of "sl_g L ^ hx s I p"]
    by (simp add: lcreate_verifier_def with_str_def strs [unfolded One_nat_def] strs bn_call_def Let_def
        push_bn_doc[OF doc] BN_free_def lua_return_def fun_upd_twist fun_upd_idem)
  then show ?thesis using st s(1) by (auto simp: st_ok_def)
qed


section \<open>A login\<close>

text \<open>
  The calls of \<open>test_srp.lua\<close>, in its order: the server registers a user, the client draws a
  key pair, the server computes its session key from the verifier and the client's public key,
  and the client computes its own. The result is the pair of session keys, server first.
\<close>

definition srp_session ::
  "srp_lib \<Rightarrow> env \<Rightarrow> nat \<Rightarrow> srp_state \<Rightarrow> string \<Rightarrow> string \<Rightarrow> (srp_state \<times> (string \<times> string) option) res" where
  "srp_session L E n st I p =
     andthen (lcreate_verifier L E st [LStr I, LStr p]) (\<lambda>(st, r).
     case r of
       Inr [s, v] \<Rightarrow>
         andthen (lcreate_client_key L n st []) (\<lambda>(st, r).
         case r of
           Inr [a, A] \<Rightarrow>
             andthen (lcreate_server_session_key L E n st [LStr v, LStr A]) (\<lambda>(st, r).
             case r of
               Inr [Ks, b, B] \<Rightarrow>
                 andthen (lcreate_client_session_key L E st
                            [LStr I, LStr p, LStr s, LStr a, LStr A, LStr B]) (\<lambda>(st, r).
                 case r of
                   Inr [Kc] \<Rightarrow> Inr (st, Some (Ks, Kc))
                 | _ \<Rightarrow> Inr (st, None))
             | _ \<Rightarrow> Inr (st, None))
         | _ \<Rightarrow> Inr (st, None))
     | _ \<Rightarrow> Inr (st, None))"

lemma be_bytes_1024: "n < 256 ^ 128 \<Longrightarrow> length (be_bytes n) \<le> 1024"
  using be_bytes_length[of n 128] by simp

text \<open>
  C8: If the libraries behave as documented and no \<open>n\<close> draws in a row are rejected, the two ends
  of a login compute the same session key within \<open>n\<close> rounds of each loop, and every big number
  allocated on the way has been freed.
\<close>
theorem session_keys_agree:
  assumes doc: "srp_documented k hx hu L" and st: "st_ok st" "ss_stack st = []"
    and nul: "NUL \<notin> set I" "NUL \<notin> set p"
    and client: "\<forall>t. \<exists>i < n. sl_g L ^ drawn L (t + 3 * i) mod sl_N L \<noteq> 0"
    and server: "\<forall>s t. \<exists>i < n. (k * (sl_g L ^ hx s I p mod sl_N L) + sl_g L ^ drawn L (t + 3 * i))
                            mod sl_N L \<noteq> 0"
  shows "\<exists>st' K. srp_session L E n st I p = Inr (st', Some (K, K)) \<and> ss_bn st' = ss_bn st"
proof -
  let ?N = "sl_N L" and ?g = "sl_g L"
  obtain st1 s where s: "s < 256 ^ 20" and r1: "lcreate_verifier L E st [LStr I, LStr p]
      = Inr (st1, Inr [be_bytes s, be_bytes (?g ^ hx s I p mod ?N)])"
    and st1: "ss_bn st1 = ss_bn st" "ss_stack st1 = []" "st_ok st1"
    using verifier_doc[OF doc st nul] by blast
  let ?v = "?g ^ hx s I p mod ?N"
  have "client_key_loop L n st1 \<noteq> Inl Diverge"
    using client_loop_ends[OF doc st1(3)] client by blast
  then obtain st2 a where keys:
    "lcreate_client_key L n st1 [] = Inr (st2, Inr [be_bytes a, be_bytes (?g ^ a mod ?N)])"
    "a < 256 ^ KEY_SIZE" "ss_bn st2 = ss_bn st1" "ss_stack st2 = []" "st_ok st2"
    using client_key_doc[OF doc st1(3,2), of n "[]"] by blast
  let ?A = "?g ^ a mod ?N"
  let ?B = "\<lambda>b. (k * ?v + ?g ^ b) mod ?N"
  let ?K = "\<lambda>b. (?A * ?v ^ hu ?A (?B b)) ^ b mod ?N"
  have "(256 :: nat) ^ 20 \<le> 256 ^ 128" by (rule power_increasing) simp_all
  with s have "s < 256 ^ 128" by linarith
  note len = be_bytes_1024[OF this] be_bytes_1024[OF key_small[OF keys(2)]]
    be_bytes_1024[OF mod_N_small[OF doc]]
  have below: "m mod ?N < ?N" for m using srp_documentedD(1)[OF doc] by simp
  have "server_key_loop L (Some q) n s' \<noteq> Inl Diverge" if "st_ok s'" "ss_bn s' q = Some ?v" for s' q
    using server_loop_ends[OF doc that] server by blast
  then obtain st3 b where served: "lcreate_server_session_key L E n st2
      [LStr (be_bytes ?v), LStr (be_bytes ?A)] = Inr (st3, Inr [be_bytes (?K b), be_bytes b, be_bytes (?B b)])"
    "ss_bn st3 = ss_bn st2" "ss_stack st3 = []" "st_ok st3"
    using server_session_doc[OF doc keys(5,4) len(3,3), where E = E and n = n] below unfolding be_value_bytes by blast
  obtain st4 where "lcreate_client_session_key L E st3 [LStr I, LStr p, LStr (be_bytes s),
      LStr (be_bytes a), LStr (be_bytes ?A), LStr (be_bytes (?B b))]
    = Inr (st4, Inr [be_bytes (nat ((int (?B b) - int k * int ?g ^ hx s I p)
        ^ (a + hu ?A (?B b) * hx s I p) mod int ?N))])" "ss_bn st4 = ss_bn st3"
    using client_session_doc[OF doc served(4,3) len(1,2,3,3) nul, where E = E] below keys(2)
    unfolding be_value_bytes by blast
  then show ?thesis
    using session_key_eq[OF refl refl refl srp_documentedD(1)[OF doc]] served keys st1
    by (simp add: srp_session_def r1)
qed

text \<open>
  A library that behaves as documented: the formulas over a group, a multiplier, two hashes, a
  source of random bytes and a salt; \<open>SRP_Calc_u\<close> rejects public keys that are not below the
  modulus, and the exponent of the client is reduced.
\<close>

definition srp_reference ::
  "nat \<Rightarrow> nat \<Rightarrow> nat \<Rightarrow> (nat \<Rightarrow> string \<Rightarrow> string \<Rightarrow> nat) \<Rightarrow> (nat \<Rightarrow> nat \<Rightarrow> nat) \<Rightarrow> (nat \<Rightarrow> string) \<Rightarrow> nat \<Rightarrow> srp_lib" where
  "srp_reference N g k hx hu rnd salt =
     \<lparr>sl_N = N, sl_g = g, sl_rand = \<lambda>t. Some (rnd t),
      sl_bin2bn = \<lambda>_ str n. Some (be_value (take (nat n) str)), sl_bn2bin = be_bytes,
      sl_verifier = \<lambda>_ I p N g. Some (salt, g ^ hx salt I p mod N),
      sl_calc_A = \<lambda>_ a N g. map_option (\<lambda>a. g ^ a mod N) a,
      sl_verify_A = \<lambda>A N. case A of None \<Rightarrow> False | Some A \<Rightarrow> A mod N \<noteq> 0,
      sl_calc_B = \<lambda>_ b N g v. Option.bind b (\<lambda>b. map_option (\<lambda>v. (k * v + g ^ b) mod N) v),
      sl_verify_B = \<lambda>B N. case B of None \<Rightarrow> False | Some B \<Rightarrow> B mod N \<noteq> 0,
      sl_calc_u = \<lambda>_ A B N. Option.bind A (\<lambda>A. Option.bind B (\<lambda>B.
        if A < N \<and> B < N then Some (hu A B) else None)),
      sl_calc_x = \<lambda>_ s I p. map_option (\<lambda>s. hx s I p) s,
      sl_server_key = \<lambda>_ A v u b N.
        Option.bind A (\<lambda>A. Option.bind v (\<lambda>v. Option.bind u (\<lambda>u.
        map_option (\<lambda>b. (A * v ^ u) ^ b mod N) b))),
      sl_client_key = \<lambda>_ N B g x a u.
        Option.bind B (\<lambda>B. Option.bind x (\<lambda>x. Option.bind a (\<lambda>a.
        map_option (\<lambda>u. nat ((int B - int k * int g ^ x) ^ ((a + u * x mod N) mod N) mod int N)) u)))\<rparr>"

lemma srp_reference_documented:
  assumes "256 ^ 127 \<le> N" "N < 256 ^ 128" "\<forall>t. length (rnd t) = KEY_SIZE" "salt < 256 ^ 20"
    and "\<forall>s I p. hx s I p < 256 ^ 20" "\<forall>A B. 0 < hu A B \<and> hu A B < 256 ^ 20"
  shows "srp_documented k hx hu (srp_reference N g k hx hu rnd salt)"
proof -
  have "(a + u * x mod N) mod N = a + u * x" if "a + u * x < N" for a u x :: nat
    using that by (simp add: mod_add_right_eq)
  then show ?thesis
    using assms by (simp add: srp_documented_def srp_reference_def)
qed

text \<open>
  A modulus for which the verifier \<open>256 ^ 127\<close> is rejected with the seventh power of 5, and a
  source that yields 7 and 6 by turns.
\<close>

definition small_N :: nat where "small_N = 3 * 256 ^ 127 + 5 ^ 7"

definition small_hx :: "nat \<Rightarrow> string \<Rightarrow> string \<Rightarrow> nat" where
  "small_hx s I p = (s + length I + length p) mod 1000"

definition small_hu :: "nat \<Rightarrow> nat \<Rightarrow> nat" where
  "small_hu A B = (A + B) mod 1000 + 1"

definition small_srp :: srp_lib where
  "small_srp = srp_reference small_N 5 3 small_hx small_hu
     (\<lambda>t. replicate 31 NUL @ [if even t then CHR 0x07 else CHR 0x06]) 9"

lemma small_N_bounds: "256 ^ 127 \<le> small_N" "small_N < 256 ^ 128" "78125 < small_N"
proof -
  have "(256 :: nat) ^ 3 \<le> 256 ^ 127" by (rule power_increasing) simp_all
  moreover have "(256 :: nat) ^ 128 = 256 ^ 127 * 256" by (simp flip: power_Suc2)
  ultimately show "256 ^ 127 \<le> small_N" "small_N < 256 ^ 128" "78125 < small_N"
    unfolding small_N_def by simp_all
qed

definition srp_start :: srp_state where
  "srp_start = \<lparr>ss_time = 0, ss_bn = \<lambda>_. None, ss_stack = []\<rparr>"

lemma small_srp_documented: "srp_documented 3 small_hx small_hu small_srp"
proof -
  have m: "x mod 1000 < 256 ^ 20" "x mod 1000 + 1 < 256 ^ 20" for x :: nat
  proof -
    have "(256 :: nat) ^ 2 \<le> 256 ^ 20" by (rule power_increasing) simp_all
    then show "x mod 1000 < 256 ^ 20" "x mod 1000 + 1 < 256 ^ 20"
      using mod_less_divisor[of 1000 x] by simp_all
  qed
  show ?thesis unfolding small_srp_def
    by (rule srp_reference_documented)
      (use m small_N_bounds in \<open>simp_all only: small_hx_def small_hu_def, simp_all add: KEY_SIZE_def\<close>)
qed

lemma srp_start_ok: "st_ok srp_start" "ss_stack srp_start = []"
  by (simp_all add: srp_start_def st_ok_def)

lemma small_draws: "drawn small_srp t = (if even t then 7 else 6)"
  by (simp add: drawn_def small_srp_def srp_reference_def be_value_def numeral_eq_Suc)

lemma small_group: "sl_N small_srp = small_N" "sl_g small_srp = 5"
  by (simp_all add: small_srp_def srp_reference_def)

text \<open>No verifier is rejected with both the seventh and the sixth power of 5.\<close>

lemma small_accepts: "\<exists>i < 2. (3 * v + 5 ^ drawn small_srp (t + 3 * i)) mod small_N \<noteq> 0"
proof (rule ccontr)
  assume "\<not> ?thesis"
  then have "small_N dvd 3 * v + 5 ^ drawn small_srp t" "small_N dvd 3 * v + 5 ^ drawn small_srp (t + 3)"
    by (auto dest: spec[of _ 0] spec[of _ 1] simp: mod_eq_0_iff_dvd)
  then have "small_N dvd 3 * v + 78125" "small_N dvd 3 * v + 15625"
    unfolding small_draws by (cases "even t"; simp)+
  then have "small_N dvd (3 * v + 78125) - (3 * v + 15625)" by (rule dvd_diff_nat)
  then show False using small_N_bounds(3) by (auto dest: dvd_imp_le)
qed

lemma session_keys_agree_witness:
  "\<exists>st' K. srp_session small_srp sample_env 2 srp_start ''ann'' ''secret'' = Inr (st', Some (K, K))
     \<and> ss_bn st' = ss_bn srp_start"
proof (rule session_keys_agree [OF small_srp_documented srp_start_ok])
  have "(5 :: nat) ^ drawn small_srp t mod small_N \<noteq> 0" for t
    unfolding small_draws using small_N_bounds(3) by simp
  then show "\<forall>t. \<exists>i < 2. sl_g small_srp ^ drawn small_srp (t + 3 * i) mod sl_N small_srp \<noteq> 0"
    unfolding small_group by (intro allI exI[of _ 0]) simp
  show "\<forall>s t. \<exists>i < 2. (3 * (sl_g small_srp ^ small_hx s ''ann'' ''secret'' mod sl_N small_srp)
      + sl_g small_srp ^ drawn small_srp (t + 3 * i)) mod sl_N small_srp \<noteq> 0"
    unfolding small_group using small_accepts by blast
qed simp_all

lemma first_good_draw_ends_loop_witness:
  "server_key_loop small_srp (Some 100) 5 (srp_start\<lparr>ss_time := 200, ss_bn := [100 \<mapsto> 256 ^ 127]\<rparr>)
   = Inr (\<lparr>ss_time = 206, ss_bn = [100 \<mapsto> 256 ^ 127, 204 \<mapsto> 6, 205 \<mapsto> small_N - 62500], ss_stack = []\<rparr>,
       Some 204, Some 205)"
proof -
  let ?s = "srp_start\<lparr>ss_time := 200, ss_bn := [100 \<mapsto> 256 ^ 127]\<rparr>"
  have s: "st_ok ?s" "ss_bn ?s 100 = Some (256 ^ 127)" by (simp_all add: st_ok_def)
  have B: "(3 * 256 ^ 127 + 5 ^ 7) mod small_N = 0" by (simp only: small_N_def) simp
  have B': "(3 * 256 ^ 127 + 5 ^ 6) mod small_N = small_N - 62500" "small_N - 62500 \<noteq> 0"
    by (simp_all only: small_N_def) simp_all
  have d: "drawn small_srp 200 = 7" "drawn small_srp 203 = 6" by (simp_all add: small_draws)
  show ?thesis
    using first_good_draw_ends_loop [OF small_srp_documented s, of 1 5] B B' d
    unfolding small_group by (simp add: srp_start_def del: power_numeral)
qed

section \<open>A zero public key\<close>

text \<open>The server's session key is then zero, whoever the user is, and its text is empty.\<close>

lemma zero_public_key:
  assumes doc: "srp_documented k hx hu L" and st: "st_ok st" "ss_stack st = []"
    and len: "length vs \<le> 1024" "length As \<le> 1024" and zero: "be_value As = 0"
    and i: "(k * be_value vs + sl_g L ^ drawn L (ss_time st + 2 + 3 * i)) mod sl_N L \<noteq> 0"
      "\<forall>j < i. (k * be_value vs + sl_g L ^ drawn L (ss_time st + 2 + 3 * j)) mod sl_N L = 0"
    and n: "i < n" and b: "drawn L (ss_time st + 2 + 3 * i) \<noteq> 0"
  shows "\<exists>st' b B. lcreate_server_session_key L E n st [LStr vs, LStr As] = Inr (st', Inr [[], b, B])
    \<and> ss_bn st' = ss_bn st"
proof -
  let ?t = "ss_time st + 2 + 3 * i"
  let ?b = "drawn L ?t"
  have less: "be_value As < sl_N L" using zero srp_documentedD(1)[OF doc] by simp
  note run = server_session_run[OF doc st len less]
  let ?s = "st\<lparr>ss_time := ss_time st + 2,
      ss_bn := (ss_bn st)(ss_time st \<mapsto> be_value vs, ss_time st + 1 \<mapsto> be_value As)\<rparr>"
  let ?s' = "?s\<lparr>ss_time := ?t + 3, ss_bn := (ss_bn ?s)(?t + 1 \<mapsto> ?b,
      ?t + 2 \<mapsto> (k * be_value vs + sl_g L ^ ?b) mod sl_N L)\<rparr>"
  have loop: "server_key_loop L (Some (ss_time st)) n ?s = Inr (?s', Some (?t + 1), Some (?t + 2))"
    using first_good_draw[OF doc run(1,2), of i n] i n by (simp add: Let_def add.assoc)
  have "two_numbers ?s (?t + 1) ?b (?t + 2) ((k * be_value vs + sl_g L ^ ?b) mod sl_N L) ?s'"
    by (simp add: two_numbers_def)
  note res = run(4)[OF loop drawn_less[OF doc] this, where E = E]
  have "(be_value As * be_value vs ^ u) ^ ?b mod sl_N L = 0" for u
    by (simp only: zero mult_zero_left power_0_left b if_False mod_0)
  with res show ?thesis by (simp add: be_bytes.simps[of 0]) blast
qed

end
