(* ===== verification/Aes.thy ===== *)
theory Aes
  imports Srp
begin

text \<open>
  The block cipher of \<open>lua-aes.c\<close>. OpenSSL's EVP functions are the fields of \<open>evp_lib\<close>; a call
  is given what the code passes it, and returns the bytes it stores in the output buffer, which
  may be more than it reports, and \<open>*outl\<close>.
\<close>

type_synonym evp_call = "string option \<Rightarrow> string \<Rightarrow> string \<Rightarrow> int \<Rightarrow> (string \<times> nat) option"
  \<comment> \<open>key, iv, text and \<open>inl\<close>\<close>

record evp_lib =
  ev_ctx :: bool                 \<comment> \<open>\<open>EVP_CIPHER_CTX_new\<close> succeeds\<close>
  ev_enc_update :: evp_call
  ev_enc_final :: evp_call
  ev_dec_update :: evp_call
  ev_dec_final :: evp_call       \<comment> \<open>\<open>None\<close>: the call reports failure\<close>

definition AES_KEY_LENGTH :: nat where "AES_KEY_LENGTH = 16"
definition AES_BLOCK_SIZE :: nat where "AES_BLOCK_SIZE = 16"

definition aes_iv :: string where "aes_iv = replicate 16 NUL"

text \<open>
  \<open>EVP_EncryptInit\<close> copies the key: sixteen bytes from where the pointer points, for a Lua
  string its characters and the terminator, nothing else of which belongs to the string. NULL
  leaves the key of the context as it is.
\<close>

definition key_bytes :: "string option \<Rightarrow> string option res" where
  "key_bytes key =
     (case key of
        None \<Rightarrow> Inr None
      | Some k \<Rightarrow>
          let m = k @ [NUL] in
          andthen (guard_r (AES_KEY_LENGTH \<le> length m) (UB Oob_read)) (\<lambda>_.
          Inr (Some (take AES_KEY_LENGTH m))))"

text \<open>The heap: the contexts and blocks that are allocated.\<close>

record aes_state =
  as_ctx :: int
  as_blocks :: int

type_synonym aes_result = "(aes_state \<times> string list) res"

definition aes_release :: "block option \<Rightarrow> aes_state \<Rightarrow> aes_state" where
  \<comment> \<open>\<open>free (output)\<close>, which accepts NULL, and \<open>EVP_CIPHER_CTX_free\<close>\<close>
  "aes_release output s =
     s\<lparr>as_ctx := as_ctx s - 1, as_blocks := as_blocks s - (if output = None then 0 else 1)\<rparr>"

definition aes_run ::
  "env \<Rightarrow> evp_lib \<Rightarrow> evp_call \<Rightarrow> evp_call \<Rightarrow> int \<Rightarrow> aes_state \<Rightarrow> lua list \<Rightarrow> aes_result" where
  \<comment> \<open>the body of the two functions, which differ in the EVP calls and in the room they ask for\<close>
  "aes_run E L update final room s args =
     (let text = lua_tolstring E (lua_arg args 1);
          len = (case text of None \<Rightarrow> 0 | Some t \<Rightarrow> int (length t));
          t = (case text of None \<Rightarrow> [] | Some t \<Rightarrow> t);
          key = lua_tolstring E (lua_arg args 2) in
      andthen (guard_r (ev_ctx L) (UB Null_deref)) (\<lambda>_.
      let output = malloc (e_alloc E) (len + room);
          s = s\<lparr>as_ctx := as_ctx s + 1, as_blocks := as_blocks s + (if output = None then 0 else 1)\<rparr> in
      andthen (key_bytes key) (\<lambda>k.
      case update k aes_iv t (to_int len) of
        None \<Rightarrow> Inl (UB Uninit_read)
      | Some (out1, olen1) \<Rightarrow>
          andthen (if out1 = [] then Inr output else poke_mem output 0 out1) (\<lambda>output.
          case final k aes_iv t (to_int len) of
            None \<Rightarrow> Inr (aes_release output s, [])
          | Some (out2, olen2) \<Rightarrow>
              andthen (if out2 = [] then Inr output
                       else poke_mem output (int olen1) out2) (\<lambda>output.
              let n = int (olen1 + olen2) in
              andthen (if n = 0 then Inr [] else peek_mem output n) (\<lambda>res.
              Inr (aes_release output s, [res])))))))"

definition lencrypt :: "env \<Rightarrow> evp_lib \<Rightarrow> aes_state \<Rightarrow> lua list \<Rightarrow> aes_result" where
  "lencrypt E L s args =
     aes_run E L (ev_enc_update L) (ev_enc_final L) (int AES_BLOCK_SIZE) s args"

definition ldecrypt :: "env \<Rightarrow> evp_lib \<Rightarrow> aes_state \<Rightarrow> lua list \<Rightarrow> aes_result" where
  "ldecrypt E L s args = aes_run E L (ev_dec_update L) (ev_dec_final L) 0 s args"

section \<open>CBC with padding\<close>

text \<open>
  The documented behaviour of \<open>EVP_aes_128_cbc\<close>: cipher block chaining of a block cipher \<open>F k\<close>
  with inverse \<open>G k\<close>; the final block is padded with bytes that all hold the number of padding
  bytes (1 to 16). The two calls together put out the whole text; how they share it is theirs to
  choose. An encrypting call writes what it reports, Update at most \<open>inl + 15\<close> bytes and Final at
  most a block; a decrypting Update may use \<open>inl + 16\<close> bytes of the output buffer, and Final a
  block.
\<close>

definition xor_block :: "string \<Rightarrow> string \<Rightarrow> string" where
  "xor_block a b = map2 (\<lambda>x y. char_of ((of_char x :: int) XOR of_char y)) a b"

fun cbc_enc :: "(string \<Rightarrow> string) \<Rightarrow> nat \<Rightarrow> string \<Rightarrow> string \<Rightarrow> string" where
  "cbc_enc F 0 iv t = []"
| "cbc_enc F (Suc n) iv t =
     (let c = F (xor_block (take 16 t) iv) in c @ cbc_enc F n c (drop 16 t))"

fun cbc_dec :: "(string \<Rightarrow> string) \<Rightarrow> nat \<Rightarrow> string \<Rightarrow> string \<Rightarrow> string" where
  "cbc_dec G 0 iv t = []"
| "cbc_dec G (Suc n) iv t =
     xor_block (G (take 16 t)) iv @ cbc_dec G n (take 16 t) (drop 16 t)"

definition pad :: "string \<Rightarrow> string" where
  "pad t = (let n = 16 - length t mod 16 in t @ replicate n (char_of n))"

definition unpad :: "string \<Rightarrow> string option" where
  "unpad t =
     (let n = of_char (last t) in
      if t \<noteq> [] \<and> 1 \<le> n \<and> n \<le> 16 \<and> n \<le> length t \<and> drop (length t - n) t = replicate n (last t)
      then Some (take (length t - n) t) else None)"

definition encrypts_as :: "(string \<Rightarrow> string) \<Rightarrow> evp_lib \<Rightarrow> string \<Rightarrow> string \<Rightarrow> string \<Rightarrow> bool" where
  "encrypts_as F L k iv t \<longleftrightarrow> (\<exists>c1 c2.
     ev_enc_update L (Some k) iv t (int (length t)) = Some (c1, length c1) \<and> length c1 \<le> length t + 15
     \<and> ev_enc_final L (Some k) iv t (int (length t)) = Some (c2, length c2) \<and> length c2 \<le> 16
     \<and> c1 @ c2 = cbc_enc F (length t div 16 + 1) iv (pad t))"

definition decrypts_as :: "(string \<Rightarrow> string) \<Rightarrow> evp_lib \<Rightarrow> string \<Rightarrow> string \<Rightarrow> string \<Rightarrow> bool" where
  "decrypts_as G L k iv t \<longleftrightarrow> (\<exists>p1 o1.
     ev_dec_update L (Some k) iv t (int (length t)) = Some (p1, o1)
     \<and> o1 \<le> length p1 \<and> length p1 \<le> length t + 16
     \<and> (case unpad (cbc_dec G (length t div 16) iv t) of
          None \<Rightarrow> ev_dec_final L (Some k) iv t (int (length t)) = None
        | Some m \<Rightarrow> \<exists>p2 o2. ev_dec_final L (Some k) iv t (int (length t)) = Some (p2, o2)
            \<and> o2 \<le> length p2 \<and> length p2 \<le> 16 \<and> take o1 p1 @ take o2 p2 = m))"

definition evp_documented :: "(string \<Rightarrow> string \<Rightarrow> string) \<Rightarrow> (string \<Rightarrow> string \<Rightarrow> string) \<Rightarrow> evp_lib \<Rightarrow> bool" where
  "evp_documented F G L \<longleftrightarrow>
     ev_ctx L
     \<and> (\<forall>k b. length b = 16 \<longrightarrow> length (F k b) = 16 \<and> length (G k b) = 16 \<and> G k (F k b) = b)
     \<and> (\<forall>k iv t. length iv = 16 \<longrightarrow> encrypts_as (F k) L k iv t)
     \<and> (\<forall>k iv t. length iv = 16 \<and> length t mod 16 = 0 \<longrightarrow> decrypts_as (G k) L k iv t)"

text \<open>Whether what the decrypting calls store fits a buffer as long as the ciphertext.\<close>

definition dec_fits :: "evp_lib \<Rightarrow> string option \<Rightarrow> string \<Rightarrow> bool" where
  "dec_fits L k c \<longleftrightarrow>
     (case (ev_dec_update L k aes_iv c (int (length c)), ev_dec_final L k aes_iv c (int (length c))) of
        (Some (p1, o1), Some (p2, o2)) \<Rightarrow> length p1 \<le> length c \<and> o1 + length p2 \<le> length c
      | _ \<Rightarrow> False)"

lemma xor_block_length [simp]: "length (xor_block a b) = min (length a) (length b)"
  by (simp add: xor_block_def)

lemma xor_char_cancel:
  "char_of (((of_char x :: int) XOR of_char y) mod 256 XOR of_char y) = x"
proof -
  have tb: "take_bit 8 (of_char z :: int) = of_char z" for z by (simp add: take_bit_eq_mod)
  have "((of_char x :: int) XOR of_char y) mod 256 = take_bit 8 (of_char x XOR of_char y)"
    by (simp add: take_bit_eq_mod)
  also have "\<dots> = of_char x XOR of_char y" by (simp only: take_bit_xor tb)
  finally show ?thesis by (simp add: xor.assoc)
qed

lemma xor_block_cancel: "length a = length b \<Longrightarrow> xor_block (xor_block a b) b = a"
  by (induction a b rule: list_induct2) (simp_all add: xor_block_def xor_char_cancel)

lemma cbc_enc_length:
  "(\<And>b. length b = 16 \<Longrightarrow> length (F b) = 16) \<Longrightarrow> length iv = 16 \<Longrightarrow> length t = 16 * n
   \<Longrightarrow> length (cbc_enc F n iv t) = 16 * n"
  by (induction n arbitrary: iv t) (simp_all add: Let_def)

lemma cbc_dec_enc:
  assumes inv: "\<And>b. length b = 16 \<Longrightarrow> length (F b) = 16 \<and> G (F b) = b"
  shows "length iv = 16 \<Longrightarrow> length t = 16 * n \<Longrightarrow> cbc_dec G n iv (cbc_enc F n iv t) = t"
proof (induction n arbitrary: iv t)
  case (Suc n)
  have "length (xor_block (take 16 t) iv) = 16" using Suc.prems by simp
  from inv[OF this] show ?case using Suc by (simp add: Let_def xor_block_cancel)
qed simp

lemma length_blocks:
  obtains d r where "length t = 16 * d + r" "r < 16" "length t div 16 = d" "length t mod 16 = r"
  using mult_div_mod_eq[of 16 "length t"] by (metis mod_less_divisor zero_less_numeral)

lemma pad_length: "length (pad t) = 16 * (length t div 16 + 1)"
  by (rule length_blocks[of t]) (simp add: pad_def Let_def)

lemma unpad_pad: "unpad (pad t) = Some t"
proof (rule length_blocks[of t])
  fix d r assume t: "length t = 16 * d + r" "r < 16" "length t div 16 = d" "length t mod 16 = r"
  have p: "pad t = t @ replicate (16 - r) (char_of (16 - r))"
    using t by (simp add: pad_def Let_def)
  have "last (t @ replicate (16 - r) (char_of (16 - r))) = (char_of (16 - r) :: char)"
    using t(2) by simp
  moreover have "of_char (char_of (16 - r) :: char) = 16 - r" using t(2) by simp
  moreover have "1 \<le> 16 - r" "16 - r \<le> 16" "16 - r \<le> length t + (16 - r)"
    "t @ replicate (16 - r) (char_of (16 - r)) \<noteq> []" using t(2) by simp_all
  ultimately show ?thesis unfolding p unpad_def Let_def length_append length_replicate by simp
qed

text \<open>What the two functions return.\<close>

lemma key_bytes_long: "15 \<le> length key \<Longrightarrow> \<exists>k. key_bytes (Some key) = Inr (Some k)"
  by (simp add: key_bytes_def AES_KEY_LENGTH_def Let_def)

lemma key_bytes_short: "length key < 15 \<Longrightarrow> key_bytes (Some key) = Inl (UB Oob_read)"
  by (simp add: key_bytes_def AES_KEY_LENGTH_def Let_def)

lemma poke_at:
  assumes "0 \<le> i"
  shows "poke_mem (Some m) i ds = (if nat i + length ds \<le> length m
    then Inr (Some (take (nat i) m @ map Some ds @ drop (nat i + length ds) m)) else Inl (UB Oob_write))"
  using assms by (simp add: poke_mem_def)

lemma aes_run_result:
  assumes ctx: "ev_ctx L" and key: "key_bytes (Some key) = Inr (Some k)"
    and len: "int (length t) \<le> INT_MAX" "0 \<le> room" "room \<le> 16"
    and alloc: "e_alloc E (int (length t) + room)"
    and o1: "update (Some k) aes_iv t (int (length t)) = Some (out1, olen1)" "olen1 \<le> length out1"
    and o2: "final (Some k) aes_iv t (int (length t)) = Some (out2, olen2)" "olen2 \<le> length out2"
  shows "aes_run E L update final room s [LStr t, LStr key] =
    (if length out1 \<le> nat (int (length t) + room) \<and> olen1 + length out2 \<le> nat (int (length t) + room)
     then Inr (s, [take olen1 out1 @ take olen2 out2]) else Inl (UB Oob_write))"
proof -
  define n where "n = nat (int (length t) + room)"
  define m where "m = replicate n (None :: char option)"
  define m1 where "m1 = map Some out1 @ drop (length out1) m"
  define m2 where "m2 = take olen1 m1 @ map Some out2 @ drop (olen1 + length out2) m1"
  have size: "to_size (int (length t) + room) = int (length t) + room" "to_int (int (length t)) = int (length t)"
    using len by (auto intro!: to_size_id to_int_id simp: INT_MAX_def int_ok_iff)
  have malloc: "malloc (e_alloc E) (int (length t) + room) = Some m"
    using alloc by (simp add: malloc_def size m_def n_def)
  have args: "lua_tolstring E (lua_arg [LStr t, LStr key] 1) = Some t"
    "lua_tolstring E (lua_arg [LStr t, LStr key] 2) = Some key"
    by (simp_all add: lua_arg_def lua_tolstring_def)
  have lm: "length m = n" by (simp add: m_def)
  have p1: "(if out1 = [] then Inr (Some m) else poke_mem (Some m) 0 out1)
      = (if length out1 \<le> n then Inr (Some m1) else Inl (UB Oob_write))"
    by (simp add: poke_at lm m1_def)
  have l1: "length m1 = n" if "length out1 \<le> n" using that by (simp add: m1_def lm)
  have p2: "(if out2 = [] then Inr (Some m1) else poke_mem (Some m1) (int olen1) out2)
      = (if olen1 + length out2 \<le> n then Inr (Some m2) else Inl (UB Oob_write))" if "length out1 \<le> n"
    using l1[OF that] that o1(2) by (cases "out2 = []") (simp_all add: poke_at m2_def)
  have p3: "(if int (olen1 + olen2) = 0 then Inr [] else peek_mem (Some m2) (int (olen1 + olen2)))
      = Inr (take olen1 out1 @ take olen2 out2)" if "length out1 \<le> n" "olen1 + length out2 \<le> n"
  proof -
    have "take olen1 m1 = map Some (take olen1 out1)" using o1(2) by (simp add: m1_def take_map)
    then have "take (olen1 + olen2) m2 = map Some (take olen1 out1 @ take olen2 out2)"
      using o1(2) o2(2) by (simp add: m2_def take_map)
    moreover have "olen1 + olen2 \<le> length m2" using that o1(2) o2(2) l1[OF that(1)] by (simp add: m2_def)
    moreover have "map the (map Some xs) = xs" "None \<notin> set (map Some xs)" for xs :: string
      by (simp add: comp_def, auto)
    ultimately have "peek_mem (Some m2) (int (olen1 + olen2)) = Inr (take olen1 out1 @ take olen2 out2)"
      unfolding peek_mem_def option.case nat_int by (simp only: of_nat_0_le_iff if_True if_False simp_thms)
    then show ?thesis by (cases "olen1 + olen2 = 0") simp_all
  qed
  show ?thesis
  proof (cases "length out1 \<le> n")
    case True
    show ?thesis
    proof (cases "olen1 + length out2 \<le> n")
      case fits: True
      have "s\<lparr>as_ctx := as_ctx s + 1, as_blocks := as_blocks s + (if Some m = None then 0 else 1)\<rparr>
          = s\<lparr>as_ctx := as_ctx s + 1, as_blocks := as_blocks s + 1\<rparr>" by simp
      moreover have "aes_release (Some m2) (s\<lparr>as_ctx := as_ctx s + 1, as_blocks := as_blocks s + 1\<rparr>) = s"
        by (simp add: aes_release_def)
      ultimately show ?thesis
        unfolding aes_run_def Let_def args n_def[symmetric]
        by (simp only: option.case size malloc o1(1) o2(1) key guard_r_simps(1)[OF ctx] andthen_simps p1 True fits
              if_True prod.case p2[OF True] p3[OF True fits] simp_thms)
    next
      case False
      then show ?thesis
        unfolding aes_run_def Let_def args n_def[symmetric]
        by (simp only: option.case size malloc o1(1) o2(1) key guard_r_simps(1)[OF ctx] andthen_simps p1 True
              if_True if_False prod.case p2[OF True] simp_thms)
    qed
  next
    case False
    then show ?thesis
      unfolding aes_run_def Let_def args n_def[symmetric]
      by (simp only: option.case size malloc o1(1) key guard_r_simps(1)[OF ctx] andthen_simps p1 if_False
            prod.case simp_thms)
  qed
qed

lemma cbc_undone:
  assumes "evp_documented F G L"
  defines "c \<equiv> \<lambda>k t. cbc_enc (F k) (length t div 16 + 1) aes_iv (pad t)"
  shows "length (c k t) = 16 * (length t div 16 + 1)"
    "cbc_dec (G k) (length t div 16 + 1) aes_iv (c k t) = pad t"
proof -
  have inv: "length b = 16 \<Longrightarrow> length (F k b) = 16 \<and> G k (F k b) = b" for b
    using assms(1) unfolding evp_documented_def by simp
  have iv: "length aes_iv = 16" by (simp add: aes_iv_def)
  show "length (c k t) = 16 * (length t div 16 + 1)"
    unfolding c_def using inv iv pad_length[of t] by (intro cbc_enc_length) simp_all
  show "cbc_dec (G k) (length t div 16 + 1) aes_iv (c k t) = pad t"
    unfolding c_def using inv iv pad_length[of t] by (intro cbc_dec_enc) simp_all
qed

lemma lencrypt_doc:
  assumes doc: "evp_documented F G L" and key: "15 \<le> length key"
    and len: "int (length t) + 16 \<le> INT_MAX" and alloc: "e_alloc E (int (length t) + 16)"
  shows "lencrypt E L s [LStr t, LStr key] =
    Inr (s, [cbc_enc (F (take 16 (key @ [NUL]))) (length t div 16 + 1) aes_iv (pad t)])"
proof -
  define k where "k = take 16 (key @ [NUL])"
  have k: "key_bytes (Some key) = Inr (Some k)" using key by (simp add: key_bytes_def AES_KEY_LENGTH_def k_def Let_def)
  have ctx: "ev_ctx L" using doc unfolding evp_documented_def by simp
  have iv: "length aes_iv = 16" by (simp add: aes_iv_def)
  obtain c1 c2 where enc: "ev_enc_update L (Some k) aes_iv t (int (length t)) = Some (c1, length c1)"
    "length c1 \<le> length t + 15" "ev_enc_final L (Some k) aes_iv t (int (length t)) = Some (c2, length c2)"
    "c1 @ c2 = cbc_enc (F k) (length t div 16 + 1) aes_iv (pad t)"
    using doc iv unfolding evp_documented_def encrypts_as_def by meson
  have "length c1 + length c2 = 16 * (length t div 16 + 1)"
    using cbc_undone(1)[OF doc, of k t] unfolding enc(4)[symmetric] by simp
  then have fit: "length c1 + length c2 \<le> length t + 16" by (elim ssubst) (rule length_blocks[of t], simp)
  show ?thesis
    unfolding lencrypt_def k_def[symmetric]
    by (subst aes_run_result[where k = k and t = t and update = "ev_enc_update L" and final = "ev_enc_final L",
          OF ctx k _ _ _ _ enc(1) order_refl enc(3) order_refl])
      (use len alloc fit enc(4) in \<open>auto simp: AES_BLOCK_SIZE_def\<close>)
qed

text \<open>
  C9: With any key of at least 15 characters \<open>lencrypt\<close> pads the text to whole blocks, keeps inside
  its buffer and frees what it allocates; and what it returns \<open>ldecrypt\<close> turns back into the
  text, provided that what the library stores while decrypting fits the \<open>len\<close> bytes that
  \<open>ldecrypt\<close> allocates. The library asks for 16 bytes more: one that uses them writes past the
  block.
\<close>
theorem aes_roundtrip:
  assumes doc: "evp_documented F G L" and key: "15 \<le> length key"
    and len: "int (length t) + 16 \<le> INT_MAX"
    and alloc: "\<And>n. 0 \<le> n \<Longrightarrow> n \<le> int (length t) + 16 \<Longrightarrow> e_alloc E n"
  shows "\<exists>c. lencrypt E L s [LStr t, LStr key] = Inr (s, [c])
    \<and> length c = 16 * (length t div 16 + 1)
    \<and> ldecrypt E L s [LStr c, LStr key] =
        (if dec_fits L (Some (take 16 (key @ [NUL]))) c then Inr (s, [t]) else Inl (UB Oob_write))"
proof -
  define k where "k = take 16 (key @ [NUL])"
  have k: "key_bytes (Some key) = Inr (Some k)" using key by (simp add: key_bytes_def AES_KEY_LENGTH_def k_def Let_def)
  have ctx: "ev_ctx L" using doc unfolding evp_documented_def by simp
  have iv: "length aes_iv = 16" by (simp add: aes_iv_def)
  define c where "c = cbc_enc (F k) (length t div 16 + 1) aes_iv (pad t)"
  have lc: "length c = 16 * (length t div 16 + 1)" and undone: "cbc_dec (G k) (length t div 16 + 1) aes_iv c = pad t"
    unfolding c_def by (rule cbc_undone[OF doc])+
  have le: "int (length c) \<le> int (length t) + 16" unfolding lc by simp
  have mul: "length c mod 16 = 0" "length c div 16 = length t div 16 + 1" unfolding lc by simp_all
  have dec_doc: "decrypts_as (G k) L k aes_iv c" using doc mul(1) iv unfolding evp_documented_def by simp
  obtain p1 o1 where dec: "ev_dec_update L (Some k) aes_iv c (int (length c)) = Some (p1, o1)" "o1 \<le> length p1"
    and fin: "case unpad (cbc_dec (G k) (length c div 16) aes_iv c) of
               None \<Rightarrow> ev_dec_final L (Some k) aes_iv c (int (length c)) = None
             | Some m \<Rightarrow> \<exists>p2 o2. ev_dec_final L (Some k) aes_iv c (int (length c)) = Some (p2, o2)
                 \<and> o2 \<le> length p2 \<and> length p2 \<le> 16 \<and> take o1 p1 @ take o2 p2 = m"
    using dec_doc unfolding decrypts_as_def by blast
  from fin obtain p2 o2 where dec2: "ev_dec_final L (Some k) aes_iv c (int (length c)) = Some (p2, o2)"
    "o2 \<le> length p2" "take o1 p1 @ take o2 p2 = t"
    unfolding mul(2) undone unpad_pad by auto
  have "ldecrypt E L s [LStr c, LStr key] =
      (if length p1 \<le> length c \<and> o1 + length p2 \<le> length c then Inr (s, [t]) else Inl (UB Oob_write))"
    unfolding ldecrypt_def
    by (subst aes_run_result[where k = k and t = c and update = "ev_dec_update L" and final = "ev_dec_final L",
          OF ctx k _ _ _ _ dec dec2(1,2)])
      (use len alloc le dec2(3) in simp_all)
  moreover have "dec_fits L (Some k) c \<longleftrightarrow> length p1 \<le> length c \<and> o1 + length p2 \<le> length c"
    by (simp add: dec_fits_def dec(1) dec2(1))
  moreover have "lencrypt E L s [LStr t, LStr key] = Inr (s, [c])"
    using lencrypt_doc[OF doc key len] alloc unfolding c_def k_def by simp
  ultimately show ?thesis using lc unfolding k_def by auto
qed

text \<open>A key shorter than 15 characters is read past its end, by both functions.\<close>

lemma aes_short_key:
  assumes "ev_ctx L" "length key < 15"
  shows "lencrypt E L s [LStr t, LStr key] = Inl (UB Oob_read)"
    "ldecrypt E L s [LStr t, LStr key] = Inl (UB Oob_read)"
  using assms
  by (simp_all add: lencrypt_def ldecrypt_def aes_run_def lua_arg_def lua_tolstring_def Let_def key_bytes_short)


text \<open>
  A library that behaves as documented, over any block cipher. It decrypts the whole text into
  the buffer and reports all but the last block, which Final stores again without the padding.
\<close>

definition evp_reference :: "(string \<Rightarrow> string \<Rightarrow> string) \<Rightarrow> (string \<Rightarrow> string \<Rightarrow> string) \<Rightarrow> evp_lib" where
  "evp_reference F G =
     \<lparr>ev_ctx = True,
      ev_enc_update = \<lambda>k iv t n. map_option (\<lambda>k.
        let c = take (16 * (length t div 16)) (cbc_enc (F k) (length t div 16 + 1) iv (pad t)) in (c, length c)) k,
      ev_enc_final = \<lambda>k iv t n. map_option (\<lambda>k.
        let c = drop (16 * (length t div 16)) (cbc_enc (F k) (length t div 16 + 1) iv (pad t)) in (c, length c)) k,
      ev_dec_update = \<lambda>k iv t n. map_option (\<lambda>k.
        (cbc_dec (G k) (length t div 16) iv t, 16 * (length t div 16 - 1))) k,
      ev_dec_final = \<lambda>k iv t n. Option.bind k (\<lambda>k. map_option (\<lambda>m.
        let p = drop (16 * (length t div 16 - 1)) m in (p, length p))
          (unpad (cbc_dec (G k) (length t div 16) iv t)))\<rparr>"

lemma cbc_dec_length:
  "(\<And>b. length b = 16 \<Longrightarrow> length (G b) = 16) \<Longrightarrow> length iv = 16 \<Longrightarrow> length t = 16 * n
   \<Longrightarrow> length (cbc_dec G n iv t) = 16 * n"
  by (induction n arbitrary: iv t) simp_all

lemma unpad_Some:
  "unpad p = Some m \<Longrightarrow> \<exists>j. 1 \<le> j \<and> j \<le> 16 \<and> j \<le> length p \<and> m = take (length p - j) p"
  by (auto simp: unpad_def Let_def split: if_splits)

lemma evp_reference_documented:
  assumes inv: "\<forall>k b. length b = 16 \<longrightarrow> length (F k b) = 16 \<and> length (G k b) = 16 \<and> G k (F k b) = b"
  shows "evp_documented F G (evp_reference F G)"
  unfolding evp_documented_def encrypts_as_def decrypts_as_def
proof (intro conjI allI impI)
  show "ev_ctx (evp_reference F G)" by (simp add: evp_reference_def)
next
  fix k iv t :: string assume iv: "length iv = 16"
  let ?n = "length t div 16"
  define c where "c = cbc_enc (F k) (?n + 1) iv (pad t)"
  have l: "length c = 16 * (?n + 1)"
    unfolding c_def using inv iv pad_length[of t] by (intro cbc_enc_length) simp_all
  have le: "16 * ?n \<le> length t" by simp
  show "\<exists>c1 c2.
      ev_enc_update (evp_reference F G) (Some k) iv t (int (length t)) = Some (c1, length c1) \<and> length c1 \<le> length t + 15
      \<and> ev_enc_final (evp_reference F G) (Some k) iv t (int (length t)) = Some (c2, length c2) \<and> length c2 \<le> 16
      \<and> c1 @ c2 = cbc_enc (F k) (?n + 1) iv (pad t)"
    unfolding c_def[symmetric]
    by (rule exI[of _ "take (16 * ?n) c"], rule exI[of _ "drop (16 * ?n) c"])
      (use l le in \<open>simp add: evp_reference_def Let_def c_def[symmetric, unfolded Suc_eq_plus1[symmetric]] del: cbc_enc.simps\<close>)
next
  fix k iv t :: string assume "length iv = 16 \<and> length t mod 16 = 0"
  then have t: "length iv = 16" "length t mod 16 = 0" by simp_all
  let ?n = "length t div 16"
  let ?p = "cbc_dec (G k) ?n iv t"
  have "length t = 16 * ?n" using t(2) by auto
  then have l: "length ?p = 16 * ?n" "16 * ?n = length t"
    using inv t(1) by (simp_all add: cbc_dec_length)
  have fin: "case unpad ?p of
      None \<Rightarrow> ev_dec_final (evp_reference F G) (Some k) iv t (int (length t)) = None
    | Some m \<Rightarrow> \<exists>p2 o2. ev_dec_final (evp_reference F G) (Some k) iv t (int (length t)) = Some (p2, o2)
        \<and> o2 \<le> length p2 \<and> length p2 \<le> 16 \<and> take (16 * (?n - 1)) ?p @ take o2 p2 = m"
  proof (cases "unpad ?p")
    case (Some m)
    then obtain j where j: "1 \<le> j" "j \<le> 16" "j \<le> length ?p" "m = take (length ?p - j) ?p" using unpad_Some by blast
    let ?q = "16 * (?n - 1)"
    have q: "?q \<le> length ?p - j" "length ?p - j - ?q \<le> 16" using j(1-3) unfolding l(1) by (cases ?n; simp)+
    then have "take ?q ?p = take ?q m" unfolding j(4) by (simp add: min_def)
    moreover have "length (drop ?q m) \<le> 16" using q(2) unfolding j(4) by simp
    ultimately show ?thesis using Some by (simp add: evp_reference_def Let_def)
  qed (simp add: evp_reference_def)
  show "\<exists>p1 o1. ev_dec_update (evp_reference F G) (Some k) iv t (int (length t)) = Some (p1, o1)
      \<and> o1 \<le> length p1 \<and> length p1 \<le> length t + 16
      \<and> (case unpad ?p of
           None \<Rightarrow> ev_dec_final (evp_reference F G) (Some k) iv t (int (length t)) = None
         | Some m \<Rightarrow> \<exists>p2 o2. ev_dec_final (evp_reference F G) (Some k) iv t (int (length t)) = Some (p2, o2)
             \<and> o2 \<le> length p2 \<and> length p2 \<le> 16 \<and> take o1 p1 @ take o2 p2 = m)"
    by (intro exI[of _ ?p] exI[of _ "16 * (?n - 1)"] conjI fin) (use l in \<open>simp_all add: evp_reference_def\<close>)
qed (use inv in simp_all)

text \<open>This one stays inside the buffer.\<close>

lemma evp_reference_fits:
  assumes "evp_documented F G (evp_reference F G)"
  shows "dec_fits (evp_reference F G) (Some k) (cbc_enc (F k) (length t div 16 + 1) aes_iv (pad t))"
proof -
  define n where "n = length t div 16"
  define c where "c = cbc_enc (F k) (n + 1) aes_iv (pad t)"
  note u = cbc_undone[OF assms, of k t, folded n_def, folded c_def]
  have d: "length c div 16 = n + 1" using u(1) by simp
  have n: "16 * n \<le> length t" "length t \<le> 16 * n + 16" unfolding n_def by (rule length_blocks[of t]; simp)+
  have pl: "length (pad t) = 16 * (n + 1)" by (simp add: pad_length n_def)
  have "ev_dec_update (evp_reference F G) (Some k) aes_iv c (int (length c)) = Some (pad t, 16 * n)"
    "ev_dec_final (evp_reference F G) (Some k) aes_iv c (int (length c)) = Some (drop (16 * n) t, length t - 16 * n)"
    unfolding evp_reference_def evp_lib.simps d u(2) by (simp_all add: unpad_pad Let_def u(2)[unfolded Suc_eq_plus1[symmetric]] del: cbc_dec.simps)
  then show ?thesis
    unfolding n_def[symmetric] c_def[symmetric] dec_fits_def using n u(1) pl by simp
qed

text \<open>The block cipher that reverses the block and adds the key.\<close>

definition toy_evp :: evp_lib where
  "toy_evp = evp_reference (\<lambda>k b. xor_block (rev b) (take 16 (k @ replicate 16 NUL)))
               (\<lambda>k b. rev (xor_block b (take 16 (k @ replicate 16 NUL))))"

lemma toy_evp_documented:
  "evp_documented (\<lambda>k b. xor_block (rev b) (take 16 (k @ replicate 16 NUL)))
     (\<lambda>k b. rev (xor_block b (take 16 (k @ replicate 16 NUL)))) toy_evp"
  unfolding toy_evp_def by (rule evp_reference_documented) (simp add: xor_block_cancel)

theorem aes_roundtrip_witness:
  "\<exists>c. lencrypt sample_env toy_evp \<lparr>as_ctx = 0, as_blocks = 0\<rparr>
         [LStr ''the challenge of the server'', LStr ''0123456789abcdef'']
       = Inr (\<lparr>as_ctx = 0, as_blocks = 0\<rparr>, [c])
     \<and> length c = 32
     \<and> ldecrypt sample_env toy_evp \<lparr>as_ctx = 0, as_blocks = 0\<rparr> [LStr c, LStr ''0123456789abcdef'']
       = Inr (\<lparr>as_ctx = 0, as_blocks = 0\<rparr>, [''the challenge of the server''])"
proof -
  let ?t = "''the challenge of the server''" and ?k = "''0123456789abcdef''"
  have len: "int (length ?t) + 16 \<le> INT_MAX" "15 \<le> length ?k" by (simp_all add: INT_MAX_def)
  have alloc: "e_alloc sample_env n" if "n \<le> int (length ?t) + 16" for n
    using that by (simp add: sample_env_def)
  have k: "take 16 (?k @ [NUL]) = ?k" by simp
  have fits: "dec_fits toy_evp (Some ?k) (cbc_enc (\<lambda>b. xor_block (rev b) (take 16 (?k @ replicate 16 NUL)))
      (length ?t div 16 + 1) aes_iv (pad ?t))"
    unfolding toy_evp_def by (rule evp_reference_fits[OF toy_evp_documented[unfolded toy_evp_def], of ?k ?t])
  show ?thesis
    using aes_roundtrip[OF toy_evp_documented len(2,1) alloc, of "\<lparr>as_ctx = 0, as_blocks = 0\<rparr>"]
      lencrypt_doc[OF toy_evp_documented len(2,1) alloc[OF order_refl], of "\<lparr>as_ctx = 0, as_blocks = 0\<rparr>"] fits
    unfolding k by auto
qed

section \<open>A login with a zero public key\<close>

text \<open>
  C40: A client that sends zero as its public key (an empty string will do) is given an empty
  session key by the server, whoever the user is, as soon as a draw is accepted whose private
  key is not zero; the big numbers are all freed, and the decryption of the client's answer with
  that key reads past the end of the key. Nothing in the server compares the public key with
  zero.
\<close>
theorem zero_public_key_overreads:
  assumes doc: "srp_documented k hx hu L" and st: "st_ok st" "ss_stack st = []"
    and len: "length vs \<le> 1024" "length As \<le> 1024" and zero: "be_value As = 0"
    and i: "(k * be_value vs + sl_g L ^ drawn L (ss_time st + 2 + 3 * i)) mod sl_N L \<noteq> 0"
      "\<forall>j < i. (k * be_value vs + sl_g L ^ drawn L (ss_time st + 2 + 3 * j)) mod sl_N L = 0"
    and n: "i < n" and b: "drawn L (ss_time st + 2 + 3 * i) \<noteq> 0" and ctx: "ev_ctx V"
  shows "\<exists>st' K b B. lcreate_server_session_key L E n st [LStr vs, LStr As] = Inr (st', Inr [K, b, B])
      \<and> ss_bn st' = ss_bn st \<and> K = []
      \<and> ldecrypt E V s [LStr answer, LStr K] = Inl (UB Oob_read)"
  using zero_public_key[OF doc st len zero i n b, of E] aes_short_key(2)[OF ctx, of "[]"] by auto

theorem zero_public_key_overreads_witness:
  "\<exists>st' K b B. lcreate_server_session_key small_srp sample_env 1 srp_start [LStr [CHR 0x03], LStr []]
       = Inr (st', Inr [K, b, B])
     \<and> ss_bn st' = ss_bn srp_start \<and> K = []
     \<and> ldecrypt sample_env toy_evp \<lparr>as_ctx = 0, as_blocks = 0\<rparr> [LStr ''answer'', LStr K] = Inl (UB Oob_read)"
proof (rule zero_public_key_overreads[OF small_srp_documented srp_start_ok, where i = 0])
  show "(3 * be_value [CHR 0x03] + sl_g small_srp ^ drawn small_srp (ss_time srp_start + 2 + 3 * 0)) mod sl_N small_srp \<noteq> 0"
    unfolding small_group small_draws using small_N_bounds
    by (simp add: be_value_def srp_start_def small_N_def)
qed (simp_all add: be_value_def small_draws srp_start_def toy_evp_def evp_reference_def)

end
