(* ===== verification/Json_Encode.thy ===== *)
theory Json_Encode
  imports Json_Config
begin

text \<open>
  The encoder of \<open>3rd/lua-cjson/lua_cjson.c\<close>. The operations append to the buffer \<open>json\<close>; an
  error is either a crash of the process or a Lua error, thrown together with the buffer as it
  is left (\<open>None\<close>: the struct is gone). Below the operations stands what they mean: the
  document a Lua value denotes (\<open>doc_of\<close>) and its text (\<open>print_doc\<close>).
\<close>

section \<open>Operations\<close>

datatype jerr = Crash cerr | Throw lua_error "strbuf option"

definition crash :: "'a res \<Rightarrow> jerr + 'a" where
  "crash m = (case m of Inl e \<Rightarrow> Inl (Crash e) | Inr x \<Rightarrow> Inr x)"

definition json_encode_exception :: "json_config \<Rightarrow> strbuf \<Rightarrow> lua \<Rightarrow> string \<Rightarrow> jerr + 'a" where
  "json_encode_exception cfg json v reason =
     Inl (Throw (Lua_error (''Cannot serialise '' @ lua_typename v @ '': '' @ reason))
            (if encode_keep_buffer cfg = 0 then strbuf_free json else Some json))"

subsection \<open>Strings\<close>

definition u00 :: "string \<Rightarrow> string option" where
  "u00 xx = Some (BS # ''u00'' @ xx)"

definition esc :: "char \<Rightarrow> string option" where
  "esc c = Some [BS, c]"

definition char2escape_table :: "string option list" where
  "char2escape_table =
     [u00 ''00'', u00 ''01'', u00 ''02'', u00 ''03'',
      u00 ''04'', u00 ''05'', u00 ''06'', u00 ''07'',
      esc (CHR ''b''), esc (CHR ''t''), esc (CHR ''n''), u00 ''0b'',
      esc (CHR ''f''), esc (CHR ''r''), u00 ''0e'', u00 ''0f'',
      u00 ''10'', u00 ''11'', u00 ''12'', u00 ''13'',
      u00 ''14'', u00 ''15'', u00 ''16'', u00 ''17'',
      u00 ''18'', u00 ''19'', u00 ''1a'', u00 ''1b'',
      u00 ''1c'', u00 ''1d'', u00 ''1e'', u00 ''1f'',
      None, None, esc DQ, None, None, None, None, None,
      None, None, None, None, None, None, None, esc (CHR ''/'')]
     @ replicate 44 None @ [esc BS] @ replicate 34 None @ [u00 ''7f''] @ replicate 128 None"

definition char2escape :: "char \<Rightarrow> string option" where
  "char2escape c = char2escape_table ! nat (uc c)"

fun append_escaped :: "alloc \<Rightarrow> strbuf \<Rightarrow> string \<Rightarrow> strbuf res" where
  "append_escaped A json [] = Inr json"
| "append_escaped A json (c # str) =
     andthen
       (case char2escape c of
          Some escstr \<Rightarrow> strbuf_append_string A json escstr
        | None \<Rightarrow> strbuf_append_char_unsafe json c) (\<lambda>json.
     append_escaped A json str)"

definition json_append_string :: "alloc \<Rightarrow> strbuf \<Rightarrow> string \<Rightarrow> strbuf res" where
  \<comment> \<open>\<open>len * 6 + 2\<close> is a \<open>size_t\<close>, the parameter it is passed to an \<open>int\<close>\<close>
  "json_append_string A json str =
     andthen (strbuf_ensure_empty_length A json (to_int (to_size (int (length str) * 6 + 2)))) (\<lambda>json.
     andthen (strbuf_append_char_unsafe json DQ) (\<lambda>json.
     andthen (append_escaped A json str) (\<lambda>json.
     strbuf_append_char_unsafe json DQ)))"

subsection \<open>Numbers\<close>

definition put_number :: "alloc \<Rightarrow> strbuf \<Rightarrow> string \<Rightarrow> int \<Rightarrow> strbuf res" where
  \<comment> \<open>a text and its terminator stored at \<open>strbuf_empty_ptr\<close>, then \<open>strbuf_extend_length\<close>\<close>
  "put_number A json t len =
     andthen (poke_mem (sb_buf json) (sb_length json) (t @ [NUL])) (\<lambda>b.
     strbuf_extend_length (json\<lparr>sb_buf := b\<rparr>) len)"

definition json_append_number :: "env \<Rightarrow> json_config \<Rightarrow> strbuf \<Rightarrow> lua \<Rightarrow> jerr + strbuf" where
  "json_append_number E cfg json v =
     (case v of
        LInt num \<Rightarrow>
          crash (andthen (strbuf_ensure_empty_length (e_alloc E) json FPCONV_G_FMT_BUFSIZE) (\<lambda>json.
          put_number (e_alloc E) json (lld_text num) (int (length (lld_text num)))))
      | LNum num \<Rightarrow>
          (let finite =
             crash (andthen (strbuf_ensure_empty_length (e_alloc E) json FPCONV_G_FMT_BUFSIZE) (\<lambda>json.
             andthen (fpconv_g_fmt (e_point E) num (encode_number_precision cfg)) (\<lambda>(t, len).
             put_number (e_alloc E) json t len)))
           in
           if encode_invalid_numbers cfg = 0 then
             (if isinf num \<or> isnan num
              then json_encode_exception cfg json v ''must not be NaN or Infinity''
              else finite)
           else if encode_invalid_numbers cfg = 1 then
             (if isnan num then crash (strbuf_append_mem (e_alloc E) json ''NaN'' 3)
              else if isinf num then
                (if dbl_sign num then crash (strbuf_append_mem (e_alloc E) json ''-Infinity'' 9)
                 else crash (strbuf_append_mem (e_alloc E) json ''Infinity'' 8))
              else finite)
           else
             (if isinf num \<or> isnan num then crash (strbuf_append_mem (e_alloc E) json ''null'' 4)
              else finite))
      | _ \<Rightarrow> Inr json)"

subsection \<open>Tables\<close>

definition array_key :: "lua \<Rightarrow> int option" where
  \<comment> \<open>a number \<open>k\<close> with \<open>floor(k) == k && k >= 1\<close>\<close>
  "array_key k =
     (case k of
        LInt i \<Rightarrow> if 1 \<le> i then Some i else None
      | LNum d \<Rightarrow> if \<not> isnan d \<and> dbl_integral d \<and> 1 \<le> dbl_trunc d then Some (dbl_trunc d) else None
      | _ \<Rightarrow> None)"

fun array_scan :: "(lua \<times> lua) list \<Rightarrow> int \<Rightarrow> int \<Rightarrow> (int \<times> int) option res" where
  \<comment> \<open>\<open>max = k\<close> converts a double to an \<open>int\<close>\<close>
  "array_scan [] mx items = Inr (Some (mx, items))"
| "array_scan ((k, v) # ps) mx items =
     (case array_key k of
        None \<Rightarrow> Inr None
      | Some n \<Rightarrow>
          andthen (if mx < n then (if n \<le> INT_MAX then Inr n else Inl (UB Float_to_int)) else Inr mx) (\<lambda>mx.
          andthen (c_int (items + 1)) (\<lambda>items. array_scan ps mx items)))"

definition lua_array_length :: "json_config \<Rightarrow> nat \<Rightarrow> (lua \<times> lua) list \<Rightarrow> strbuf \<Rightarrow> jerr + int" where
  "lua_array_length cfg a ps json =
     andthen (crash (array_scan ps 0 0)) (\<lambda>r.
     (case r of
        None \<Rightarrow> Inr (-1)
      | Some (mx, items) \<Rightarrow>
          andthen
            (if 0 < encode_sparse_ratio cfg
             then andthen (crash (c_int (items * encode_sparse_ratio cfg))) (\<lambda>n. Inr (n < mx))
             else Inr False) (\<lambda>sparse.
          if sparse \<and> encode_sparse_safe cfg < mx
          then (if encode_sparse_convert cfg = 0
                then json_encode_exception cfg json (LTab a) ''excessively sparse array''
                else Inr (-1))
          else Inr mx)))"

definition nesting_message :: "int \<Rightarrow> lua_error" where
  "nesting_message d = Lua_error (''Cannot serialise, excessive nesting ('' @ lld_text d @ '')'')"

definition json_check_encode_depth :: "env \<Rightarrow> json_config \<Rightarrow> int \<Rightarrow> strbuf \<Rightarrow> jerr + unit" where
  "json_check_encode_depth E cfg current_depth json =
     (if current_depth \<le> encode_max_depth cfg \<and> e_stack E current_depth 3 then Inr ()
      else Inl (Throw (nesting_message current_depth)
                  (if encode_keep_buffer cfg = 0 then strbuf_free json else Some json)))"

definition append_comma :: "alloc \<Rightarrow> strbuf \<Rightarrow> bool \<Rightarrow> jerr + strbuf" where
  "append_comma A json comma = (if comma then crash (strbuf_append_char A json (CHR '','')) else Inr json)"

definition json_append_array ::
  "env \<Rightarrow> (strbuf \<Rightarrow> lua \<Rightarrow> jerr + strbuf) \<Rightarrow> lua_heap \<Rightarrow> nat \<Rightarrow> strbuf \<Rightarrow> int \<Rightarrow> jerr + strbuf" where
  \<comment> \<open>the second argument is \<open>json_append_data\<close> at the current depth\<close>
  "json_append_array E append_data h a json array_length =
     andthen (crash (strbuf_append_char (e_alloc E) json (CHR ''[''))) (\<lambda>json.
     andthen
       (fold_r (\<lambda>(comma, json) i.
          andthen (append_comma (e_alloc E) json comma) (\<lambda>json.
          andthen (append_data json (lua_rawgeti h a i)) (\<lambda>json. Inr (True, json))))
        [1..array_length] (False, json)) (\<lambda>(comma, json).
     crash (strbuf_append_char (e_alloc E) json (CHR '']''))))"

definition json_append_key :: "env \<Rightarrow> json_config \<Rightarrow> strbuf \<Rightarrow> lua \<Rightarrow> jerr + strbuf" where
  "json_append_key E cfg json k =
     (case k of
        LStr s \<Rightarrow>
          crash (andthen (json_append_string (e_alloc E) json s) (\<lambda>json.
          strbuf_append_char (e_alloc E) json (CHR '':'')))
      | _ \<Rightarrow>
          if lua_is_number k
          then andthen (crash (strbuf_append_char (e_alloc E) json DQ)) (\<lambda>json.
               andthen (json_append_number E cfg json k) (\<lambda>json.
               crash (strbuf_append_mem (e_alloc E) json [DQ, CHR '':''] 2)))
          else json_encode_exception cfg json k ''table key must be a number or string'')"

definition json_append_object ::
  "env \<Rightarrow> json_config \<Rightarrow> (strbuf \<Rightarrow> lua \<Rightarrow> jerr + strbuf) \<Rightarrow> (lua \<times> lua) list \<Rightarrow> strbuf \<Rightarrow> jerr + strbuf" where
  "json_append_object E cfg append_data ps json =
     andthen (crash (strbuf_append_char (e_alloc E) json (CHR ''{''))) (\<lambda>json.
     andthen
       (fold_r (\<lambda>(comma, json) (k, v).
          andthen (append_comma (e_alloc E) json comma) (\<lambda>json.
          andthen (json_append_key E cfg json k) (\<lambda>json.
          andthen (append_data json v) (\<lambda>json. Inr (True, json)))))
        ps (False, json)) (\<lambda>(comma, json).
     crash (strbuf_append_char (e_alloc E) json (CHR ''}''))))"

subsection \<open>Values\<close>

lemma json_append_array_cong [fundef_cong]:
  "(\<And>s v. f s v = g s v) \<Longrightarrow> json_append_array E f h a json n = json_append_array E g h a json n"
proof -
  assume "\<And>s v. f s v = g s v"
  then have "f = g" by (intro ext)
  then show ?thesis by simp
qed

lemma json_append_object_cong [fundef_cong]:
  "(\<And>s v. f s v = g s v) \<Longrightarrow> json_append_object E cfg f ps json = json_append_object E cfg g ps json"
proof -
  assume "\<And>s v. f s v = g s v"
  then have "f = g" by (intro ext)
  then show ?thesis by simp
qed

function json_append_data ::
  "env \<Rightarrow> lua_heap \<Rightarrow> json_config \<Rightarrow> int \<Rightarrow> strbuf \<Rightarrow> lua \<Rightarrow> jerr + strbuf" where
  "json_append_data E h cfg current_depth json v =
     (case v of
        LStr s \<Rightarrow> crash (json_append_string (e_alloc E) json s)
      | LInt i \<Rightarrow> json_append_number E cfg json v
      | LNum d \<Rightarrow> json_append_number E cfg json v
      | LBool b \<Rightarrow>
          if b then crash (strbuf_append_mem (e_alloc E) json ''true'' 4)
          else crash (strbuf_append_mem (e_alloc E) json ''false'' 5)
      | LTab a \<Rightarrow>
          andthen (crash (c_int (current_depth + 1))) (\<lambda>current_depth.
          andthen (json_check_encode_depth E cfg current_depth json) (\<lambda>_.
          andthen (lua_array_length cfg a (h a) json) (\<lambda>len.
          if 0 < len
          then json_append_array E (\<lambda>json v. json_append_data E h cfg current_depth json v) h a json len
          else json_append_object E cfg (\<lambda>json v. json_append_data E h cfg current_depth json v) (h a) json)))
      | LNil \<Rightarrow> crash (strbuf_append_mem (e_alloc E) json ''null'' 4)
      | LLight p \<Rightarrow>
          if p = 0 then crash (strbuf_append_mem (e_alloc E) json ''null'' 4)
          else json_encode_exception cfg json v ''type not supported''
      | LOther n \<Rightarrow> json_encode_exception cfg json v ''type not supported'')"
  by pat_completeness auto

termination
  by (relation "measure (\<lambda>(E, h, cfg, d, json, v). nat (encode_max_depth cfg - d))")
    (auto simp: crash_def c_int_def json_check_encode_depth_def split: if_splits)

declare json_append_data.simps [simp del]

definition json_encode ::
  "env \<Rightarrow> lua_heap \<Rightarrow> json_config \<Rightarrow> lua list \<Rightarrow> (json_config \<times> strbuf option \<times> (lua_error + string)) res" where
  \<comment> \<open>the configuration afterwards, the private buffer as the call leaves it (\<open>None\<close> when the
     configuration's buffer is used) and the text or the Lua error\<close>
  "json_encode E h cfg args =
     (case args of
        [v] \<Rightarrow>
          andthen
            (if encode_keep_buffer cfg = 0 then strbuf_init (e_alloc E) 0 0
             else Inr (strbuf_reset (encode_buf cfg))) (\<lambda>buf.
          let private = (encode_keep_buffer cfg = 0);
              leave = (\<lambda>b. (if private then cfg else (case b of Some s \<Rightarrow> cfg\<lparr>encode_buf := s\<rparr> | None \<Rightarrow> cfg),
                           if private then b else None))
          in (case json_append_data E h cfg 0 buf v of
                Inl (Crash e) \<Rightarrow> Inl e
              | Inl (Throw err b) \<Rightarrow> Inr (fst (leave b), snd (leave b), Inl err)
              | Inr json \<Rightarrow>
                  (let (p, len) = strbuf_string json in
                   andthen (peek_mem p len) (\<lambda>text.
                   let b = (if private then strbuf_free json else Some json)
                   in Inr (fst (leave b), snd (leave b), Inr text)))))
      | _ \<Rightarrow> Inr (cfg, None, Inl (Arg_error 1 ''expected 1 argument'')))"

end
