(* ===== verification/Json_Doc.thy ===== *)
theory Json_Doc
  imports Json_Encode
begin

text \<open>
  What the encoder is to produce. A Lua value denotes a JSON document, under the settings of the
  module: \<open>doc_of\<close> is the denotation (or the Lua error that is raised), \<open>print_doc\<close> the text of
  a document. The encoder is shown to refine \<open>print_doc\<close> after \<open>doc_of\<close>.
\<close>

section \<open>Documents and their text\<close>

datatype jdoc =
    JNull
  | JBool bool
  | JNumber string      \<comment> \<open>the text of a number\<close>
  | JStr string
  | JArr "jdoc list"
  | JObj "(string \<times> jdoc) list"

definition hex_char :: "nat \<Rightarrow> char" where
  "hex_char n = (if n < 10 then char_of (48 + n) else char_of (87 + n))"

definition esc_char :: "char \<Rightarrow> string" where
  "esc_char c =
     (case map_of [(DQ, DQ), (BS, BS), (CHR ''/'', CHR ''/''), (CHR 0x08, CHR ''b''), (CHR 0x09, CHR ''t''),
                   (CHR 0x0A, CHR ''n''), (CHR 0x0C, CHR ''f''), (CHR 0x0D, CHR ''r'')] c of
        Some e \<Rightarrow> [BS, e]
      | None \<Rightarrow>
          (let n = nat (uc c)
           in if n < 32 \<or> n = 127 then BS # ''u00'' @ [hex_char (n div 16), hex_char (n mod 16)] else [c]))"

definition quote_str :: "string \<Rightarrow> string" where
  "quote_str s = DQ # concat (map esc_char s) @ [DQ]"

fun join :: "string list \<Rightarrow> string" where
  "join [] = []"
| "join [x] = x"
| "join (x # y # xs) = x @ CHR '','' # join (y # xs)"

fun print_doc :: "jdoc \<Rightarrow> string" where
  "print_doc JNull = ''null''"
| "print_doc (JBool b) = (if b then ''true'' else ''false'')"
| "print_doc (JNumber t) = t"
| "print_doc (JStr s) = quote_str s"
| "print_doc (JArr ds) = CHR ''['' # join (map print_doc ds) @ '']''"
| "print_doc (JObj kvs) =
     CHR ''{'' # join (map (\<lambda>(k, d). quote_str k @ CHR '':'' # print_doc d) kvs) @ ''}''"

section \<open>The document a value denotes\<close>

fun map_r :: "('a \<Rightarrow> 'e + 'b) \<Rightarrow> 'a list \<Rightarrow> 'e + 'b list" where
  "map_r f [] = Inr []"
| "map_r f (x # xs) = andthen (f x) (\<lambda>y. andthen (map_r f xs) (\<lambda>ys. Inr (y # ys)))"

lemma map_r_cong [fundef_cong]:
  "xs = ys \<Longrightarrow> (\<And>x. x \<in> set ys \<Longrightarrow> f x = g x) \<Longrightarrow> map_r f xs = map_r g ys"
proof -
  have "(\<And>x. x \<in> set ys \<Longrightarrow> f x = g x) \<Longrightarrow> map_r f ys = map_r g ys" by (induction ys) auto
  then show "xs = ys \<Longrightarrow> (\<And>x. x \<in> set ys \<Longrightarrow> f x = g x) \<Longrightarrow> map_r f xs = map_r g ys" by simp
qed

definition not_serialisable :: "lua \<Rightarrow> string \<Rightarrow> lua_error" where
  "not_serialisable v reason = Lua_error (''Cannot serialise '' @ lua_typename v @ '': '' @ reason)"

definition number_text :: "json_config \<Rightarrow> lua \<Rightarrow> lua_error + string" where
  "number_text cfg v =
     (case v of
        LInt i \<Rightarrow> Inr (lld_text i)
      | LNum d \<Rightarrow>
          if isnan d \<or> isinf d
          then (if encode_invalid_numbers cfg = 0 then Inl (not_serialisable v ''must not be NaN or Infinity'')
                else if encode_invalid_numbers cfg = 1
                then Inr (if isnan d then ''NaN'' else if dbl_sign d then ''-Infinity'' else ''Infinity'')
                else Inr ''null'')
          else Inr (printf_g (nat (encode_number_precision cfg)) d)
      | _ \<Rightarrow> Inr [])"

definition key_text :: "json_config \<Rightarrow> lua \<Rightarrow> lua_error + string" where
  "key_text cfg k =
     (case k of
        LStr s \<Rightarrow> Inr s
      | LInt i \<Rightarrow> number_text cfg k
      | LNum d \<Rightarrow> number_text cfg k
      | _ \<Rightarrow> Inl (not_serialisable k ''table key must be a number or string''))"

definition table_max :: "(lua \<times> lua) list \<Rightarrow> int" where
  "table_max ps = fold (\<lambda>(k, v) m. max (the (array_key k)) m) ps 0"

definition table_shape :: "json_config \<Rightarrow> nat \<Rightarrow> (lua \<times> lua) list \<Rightarrow> lua_error + int option" where
  \<comment> \<open>\<open>Some n\<close>: an array of \<open>n\<close> elements; \<open>None\<close>: an object\<close>
  "table_shape cfg a ps =
     (if list_all (\<lambda>(k, v). array_key k \<noteq> None) ps
      then (let mx = table_max ps
            in if 0 < encode_sparse_ratio cfg \<and> int (length ps) * encode_sparse_ratio cfg < mx
                  \<and> encode_sparse_safe cfg < mx
               then (if encode_sparse_convert cfg = 0
                     then Inl (not_serialisable (LTab a) ''excessively sparse array'') else Inr None)
               else Inr (if 0 < mx then Some mx else None))
      else Inr None)"

function doc_of :: "env \<Rightarrow> lua_heap \<Rightarrow> json_config \<Rightarrow> int \<Rightarrow> lua \<Rightarrow> lua_error + jdoc" where
  "doc_of E h cfg d v =
     (case v of
        LNil \<Rightarrow> Inr JNull
      | LBool b \<Rightarrow> Inr (JBool b)
      | LInt i \<Rightarrow> andthen (number_text cfg v) (\<lambda>t. Inr (JNumber t))
      | LNum x \<Rightarrow>
          andthen (number_text cfg v) (\<lambda>t. Inr (if t = ''null'' then JNull else JNumber t))
      | LStr s \<Rightarrow> Inr (JStr s)
      | LLight p \<Rightarrow> if p = 0 then Inr JNull else Inl (not_serialisable v ''type not supported'')
      | LOther n \<Rightarrow> Inl (not_serialisable v ''type not supported'')
      | LTab a \<Rightarrow>
          if d + 1 \<le> encode_max_depth cfg \<and> e_stack E (d + 1) 3
          then andthen (table_shape cfg a (h a)) (\<lambda>shape.
               case shape of
                 Some n \<Rightarrow>
                   andthen (map_r (\<lambda>i. doc_of E h cfg (d + 1) (lua_rawgeti h a i)) [1..n]) (\<lambda>ds. Inr (JArr ds))
               | None \<Rightarrow>
                   andthen (map_r (\<lambda>(k, v). andthen (key_text cfg k) (\<lambda>t.
                                            andthen (doc_of E h cfg (d + 1) v) (\<lambda>d. Inr (t, d)))) (h a)) (\<lambda>kvs.
                   Inr (JObj kvs)))
          else Inl (nesting_message (d + 1)))"
  by pat_completeness auto

termination
  by (relation "measure (\<lambda>(E, h, cfg, d, v). nat (encode_max_depth cfg - d))") auto

declare doc_of.simps [simp del]

section \<open>Bounds within which the encoder is defined\<close>

text \<open>
  The encoder computes sizes and array lengths in \<open>int\<close>s. \<open>str_small\<close>: six bytes per character
  and two quotes do not exceed an \<open>int\<close>; \<open>table_small\<close>: neither does a positive integer key
  nor the number of entries times the sparse ratio.
\<close>

definition str_small :: "string \<Rightarrow> bool" where
  "str_small s \<longleftrightarrow> length s \<le> 357913940"

definition value_small :: "lua \<Rightarrow> bool" where
  "value_small v \<longleftrightarrow> (case v of LStr s \<Rightarrow> str_small s | LInt i \<Rightarrow> LLONG_MIN \<le> i \<and> i \<le> LLONG_MAX | _ \<Rightarrow> True)"

definition table_small :: "json_config \<Rightarrow> (lua \<times> lua) list \<Rightarrow> bool" where
  "table_small cfg ps \<longleftrightarrow>
     list_all (\<lambda>(k, v). value_small k \<and> value_small v
                 \<and> (case array_key k of Some n \<Rightarrow> n \<le> INT_MAX | None \<Rightarrow> True)) ps
     \<and> int (length ps) \<le> INT_MAX \<and> int (length ps) * encode_sparse_ratio cfg \<le> INT_MAX"

definition heap_small :: "json_config \<Rightarrow> lua_heap \<Rightarrow> bool" where
  "heap_small cfg h \<longleftrightarrow> (\<forall>a. table_small cfg (h a))"

section \<open>The contract of the append operations\<close>

text \<open>
  What an append operation is to append: a text and, when a Lua error stops it, the error.
  \<open>enc_ok E cfg cs R out\<close>: on a buffer holding \<open>cs\<close>, the outcome \<open>out\<close> is what \<open>R\<close> says: the
  buffer then holds \<open>cs\<close> and the text, or the error is thrown and the buffer is left as the
  setting \<open>encode_keep_buffer\<close> asks. Apart from an exhausted allocator the only crash is the
  overflow of a size, and only where the text appended by then exceeds about 170 megabytes.
\<close>

type_synonym etext = "string \<times> lua_error option"

definition cat :: "etext \<Rightarrow> etext \<Rightarrow> etext" where
  "cat R S = (case snd R of Some e \<Rightarrow> R | None \<Rightarrow> (fst R @ fst S, snd S))"

definition whole :: "lua_error + string \<Rightarrow> etext" where
  "whole r = (case r of Inl e \<Rightarrow> ([], Some e) | Inr t \<Rightarrow> (t, None))"

definition outcome :: "etext \<Rightarrow> lua_error + string" where
  "outcome R = (case snd R of Some e \<Rightarrow> Inl e | None \<Rightarrow> Inr (fst R))"

lemma cat_simps [simp]:
  "cat (t, Some e) S = (t, Some e)" "cat ([], None) S = S" "cat (t, None) (u, x) = (t @ u, x)"
  by (simp_all add: cat_def)

lemma cat_assoc: "cat (cat R S) T = cat R (cat S T)"
  by (cases R; cases S; cases T) (simp add: cat_def split: option.split)

lemma whole_simps [simp]: "whole (Inl e) = ([], Some e)" "whole (Inr t) = (t, None)"
  by (simp_all add: whole_def)

lemma outcome_simps [simp]:
  "outcome (t, Some e) = Inl e" "outcome (t, None) = Inr t" "outcome (whole r) = r"
  by (simp_all add: outcome_def whole_def split: sum.split)

lemma outcome_cat: "outcome (cat R S) = andthen (outcome R) (\<lambda>t. andthen (outcome S) (\<lambda>u. Inr (t @ u)))"
  by (cases R; cases S) (auto simp: cat_def outcome_def split: option.split)

lemma outcome_Inr: "outcome R = Inr t \<longleftrightarrow> R = (t, None)"
  by (cases R) (auto simp: outcome_def split: option.split)

lemma outcome_Inl: "outcome R = Inl e \<longleftrightarrow> snd R = Some e"
  by (auto simp: outcome_def split: option.split)

definition enc_ok :: "env \<Rightarrow> json_config \<Rightarrow> string \<Rightarrow> etext \<Rightarrow> jerr + strbuf \<Rightarrow> bool" where
  "enc_ok E cfg cs R out \<longleftrightarrow>
     (case out of
        Inr s \<Rightarrow> \<exists>t. R = (t, None) \<and> sb_rep s (cs @ t) \<and> sb_dynamic s = 0
      | Inl (Throw err b) \<Rightarrow>
          snd R = Some err \<and> (\<exists>s. b = Some s \<and> buf_ok (encode_keep_buffer cfg) s)
      | Inl (Crash e) \<Rightarrow>
          no_memory E e \<or> (e = UB Signed_overflow \<and> 2 ^ 30 \<le> length cs + 6 * length (fst R) + 64))"

lemma crash_andthen: "crash (andthen m f) = andthen (crash m) (\<lambda>x. crash (f x))"
  by (cases m) (simp_all add: crash_def)

lemma crash_Inr [simp]: "crash (Inr x) = Inr x"
  by (simp add: crash_def)

lemma enc_bind:
  assumes out: "enc_ok E cfg cs R out"
    and f: "\<And>s t. R = (t, None) \<Longrightarrow> sb_rep s (cs @ t) \<Longrightarrow> sb_dynamic s = 0 \<Longrightarrow> enc_ok E cfg (cs @ t) S (f s)"
  shows "enc_ok E cfg cs (cat R S) (andthen out f)"
proof (cases out)
  case (Inr s)
  then obtain t where t: "R = (t, None)" "sb_rep s (cs @ t)" "sb_dynamic s = 0"
    using out by (auto simp: enc_ok_def)
  from f[OF t] show ?thesis using t(1) Inr
    by (cases S) (auto simp: enc_ok_def split: sum.splits jerr.splits)
next
  case (Inl j)
  then show ?thesis using out
    by (cases j) (auto simp: enc_ok_def cat_def split: option.splits)
qed

lemma enc_crash:
  assumes "wpr (res_err (e_alloc E) (length cs + n)) (\<lambda>s'. sb_rep s' (cs @ t) \<and> sb_dynamic s' = sb_dynamic s) m"
    and "sb_dynamic s = 0" "n \<le> 6 * length t + 64"
  shows "enc_ok E cfg cs (t, None) (crash m)"
  using assms by (cases m) (auto simp: enc_ok_def crash_def res_err_def no_memory_def)

lemma enc_char:
  "sb_rep s cs \<Longrightarrow> sb_dynamic s = 0 \<Longrightarrow> enc_ok E cfg cs ([c], None) (crash (strbuf_append_char (e_alloc E) s c))"
  by (rule enc_crash[OF append_char_spec]) simp_all

lemma enc_mem:
  "sb_rep s cs \<Longrightarrow> sb_dynamic s = 0 \<Longrightarrow> n = int (length ds) \<Longrightarrow> n < 2 ^ 31 \<Longrightarrow>
     enc_ok E cfg cs (ds, None) (crash (strbuf_append_mem (e_alloc E) s ds n))"
  by (rule enc_crash[OF append_mem_spec]) simp_all

lemma enc_throw:
  assumes "sb_rep s cs" "sb_dynamic s = 0" "flag_ok (encode_keep_buffer cfg)"
  shows "enc_ok E cfg cs ([], Some err) (Inl (Throw err (if encode_keep_buffer cfg = 0 then strbuf_free s else Some s)))"
  using assms by (auto simp: enc_ok_def buf_ok_def flag_ok_def strbuf_free_def Let_def sb_rep_def sb_ok_def split: option.splits)

lemma enc_exception:
  assumes "sb_rep s cs" "sb_dynamic s = 0" "flag_ok (encode_keep_buffer cfg)"
  shows "enc_ok E cfg cs ([], Some (not_serialisable v reason)) (json_encode_exception cfg s v reason)"
  unfolding json_encode_exception_def not_serialisable_def by (rule enc_throw[OF assms])

section \<open>Strings\<close>

lemma char2escape_esc:
  "\<forall>c. (case char2escape c of Some e \<Rightarrow> e = esc_char c \<and> NUL \<notin> set e \<and> length e \<le> 6 | None \<Rightarrow> esc_char c = [c])"
  by code_simp

lemma esc_char_length: "1 \<le> length (esc_char c)"
  by (simp add: esc_char_def Let_def split: option.split)

lemma concat_esc_length: "length s \<le> length (concat (map esc_char s))"
proof (induction s)
  case (Cons c s)
  then show ?case using esc_char_length[of c] by simp
qed simp

lemma append_escaped_spec:
  assumes "sb_rep s cs" "6 * int (length str) \<le> sb_room s"
  shows "wpr (res_err A (length cs + 6 * length str))
    (\<lambda>s'. sb_rep s' (cs @ concat (map esc_char str)) \<and> sb_dynamic s' = sb_dynamic s
          \<and> sb_room s - 6 * int (length str) \<le> sb_room s') (append_escaped A s str)"
  using assms
proof (induction str arbitrary: s cs)
  case (Cons c str)
  have step: "wpr (res_err A (length cs + 6))
      (\<lambda>s'. sb_rep s' (cs @ esc_char c) \<and> sb_dynamic s' = sb_dynamic s \<and> sb_room s - 6 \<le> sb_room s')
      (case char2escape c of Some e \<Rightarrow> strbuf_append_string A s e | None \<Rightarrow> strbuf_append_char_unsafe s c)"
  proof (cases "char2escape c")
    case None
    then have "esc_char c = [c]" using char2escape_esc[rule_format, of c] by simp
    then show ?thesis using None Cons.prems(2)
      by (simp, intro wpr_conseq[OF append_char_unsafe_spec[OF Cons.prems(1)]]) auto
  next
    case (Some e)
    have e: "e = esc_char c" "NUL \<notin> set e" "length e \<le> 6"
      using char2escape_esc[rule_format, of c] unfolding Some option.case by blast+
    show ?thesis unfolding Some option.case
      by (rule wpr_mono[OF append_string_spec[OF Cons.prems(1) e(2), of A]])
        (use e Cons.prems(2) in \<open>auto elim: res_err_mono\<close>)
  qed
  show ?case unfolding append_escaped.simps wpr_andthen
  proof (rule wpr_mono[OF step])
    fix e assume "res_err A (length cs + 6) e"
    then show "res_err A (length cs + 6 * length (c # str)) e" by (rule res_err_mono) simp
  next
    fix s' assume s': "sb_rep s' (cs @ esc_char c) \<and> sb_dynamic s' = sb_dynamic s \<and> sb_room s - 6 \<le> sb_room s'"
    have l: "length (esc_char c) \<le> 6"
      using char2escape_esc[rule_format, of c] by (auto split: option.splits)
    show "wpr (res_err A (length cs + 6 * length (c # str)))
      (\<lambda>t. sb_rep t (cs @ concat (map esc_char (c # str))) \<and> sb_dynamic t = sb_dynamic s
           \<and> sb_room s - 6 * int (length (c # str)) \<le> sb_room t) (append_escaped A s' str)"
      by (rule wpr_mono[OF Cons.IH[of s' "cs @ esc_char c"]])
        (use s' Cons.prems l in \<open>auto elim!: res_err_mono\<close>)
  qed
qed simp

lemma append_json_string_spec:
  assumes rep: "sb_rep s cs" and small: "str_small str"
  shows "wpr (res_err A (length cs + (6 * length str + 2)))
    (\<lambda>s'. sb_rep s' (cs @ quote_str str) \<and> sb_dynamic s' = sb_dynamic s) (json_append_string A s str)"
proof -
  let ?n = "int (length str) * 6 + 2" and ?B = "res_err A (length cs + (6 * length str + 2))"
  have n: "to_int (to_size ?n) = ?n"
    using small by (simp add: str_small_def to_int_id int_ok_iff)
  have n31: "?n < 2 ^ 31" using small by (simp add: str_small_def)
  have B: "nat (int (length cs) + ?n) = length cs + (6 * length str + 2)" by simp
  show ?thesis unfolding json_append_string_def n wpr_andthen
  proof (rule wpr_mono[OF ensure_spec[OF rep n31, of A]], unfold B)
    fix s1 assume s1: "sb_rep s1 cs \<and> ?n \<le> sb_room s1 \<and> sb_dynamic s1 = sb_dynamic s"
    have r1: "1 \<le> sb_room s1" using s1 by linarith
    show "wpr ?B (\<lambda>x. wpr ?B (\<lambda>x. wpr ?B (\<lambda>s'. sb_rep s' (cs @ quote_str str) \<and> sb_dynamic s' = sb_dynamic s)
        (strbuf_append_char_unsafe x DQ)) (append_escaped A x str)) (strbuf_append_char_unsafe s1 DQ)"
    proof (rule wpr_mono[OF append_char_unsafe_spec[OF conjunct1[OF s1] r1, of ?B DQ]])
      fix s2 assume s2: "sb_rep s2 (cs @ [DQ]) \<and> sb_room s2 = sb_room s1 - 1 \<and> sb_dynamic s2 = sb_dynamic s1"
      have r2: "6 * int (length str) \<le> sb_room s2" using s1 s2 by linarith
      show "wpr ?B (\<lambda>x. wpr ?B (\<lambda>s'. sb_rep s' (cs @ quote_str str) \<and> sb_dynamic s' = sb_dynamic s)
        (strbuf_append_char_unsafe x DQ)) (append_escaped A s2 str)"
      proof (rule wpr_mono[OF append_escaped_spec[OF conjunct1[OF s2] r2, of A]])
        fix s3 assume s3: "sb_rep s3 ((cs @ [DQ]) @ concat (map esc_char str)) \<and> sb_dynamic s3 = sb_dynamic s2
          \<and> sb_room s2 - 6 * int (length str) \<le> sb_room s3"
        have r3: "1 \<le> sb_room s3" using s1 s2 s3 by linarith
        show "wpr ?B (\<lambda>s'. sb_rep s' (cs @ quote_str str) \<and> sb_dynamic s' = sb_dynamic s)
          (strbuf_append_char_unsafe s3 DQ)"
          by (rule wpr_mono[OF append_char_unsafe_spec[OF conjunct1[OF s3] r3, of ?B DQ]])
            (use s1 s2 s3 in \<open>auto simp: quote_str_def\<close>)
      qed (auto elim!: res_err_mono)
    qed
  qed
qed

lemma enc_string:
  assumes "sb_rep s cs" "sb_dynamic s = 0" "str_small str"
  shows "enc_ok E cfg cs (quote_str str, None) (crash (json_append_string (e_alloc E) s str))"
  by (rule enc_crash[OF append_json_string_spec[OF assms(1,3)] assms(2)])
    (use concat_esc_length[of str] in \<open>simp add: quote_str_def\<close>)

section \<open>Numbers\<close>

lemma put_number_spec:
  assumes rep: "sb_rep s cs" and room: "int (length t) + 1 \<le> sb_room s + 1" and n: "n = int (length t)"
  shows "wpr F (\<lambda>s'. sb_rep s' (cs @ t) \<and> sb_dynamic s' = sb_dynamic s) (put_number A s t n)"
proof (rule poke_gen[OF rep, of "t @ [NUL]"])
  fix b assume b: "poke_mem (sb_buf s) (sb_length s) (t @ [NUL]) = Inr b"
    "\<And>k. k \<le> length (t @ [NUL]) \<Longrightarrow> int k \<le> sb_room s \<Longrightarrow>
       sb_rep (s\<lparr>sb_buf := b, sb_length := int (length cs + k)\<rparr>) (cs @ take k (t @ [NUL]))"
  have l: "sb_length s + n = int (length cs + length t)" using rep_facts(1)[OF rep] n by simp
  have o: "int_ok (int (length cs + length t))"
    using rep_facts(5)[OF rep] room by (simp add: int_ok_iff)
  show ?thesis unfolding put_number_def b(1) andthen_simps strbuf_extend_length_def
    using b(2)[of "length t"] room l o by simp
qed (use room in simp)

lemma enc_put:
  assumes rep: "sb_rep s cs" "sb_dynamic s = 0" and t: "length t \<le> 31"
  shows "enc_ok E cfg cs (t, None)
    (crash (andthen (strbuf_ensure_empty_length (e_alloc E) s FPCONV_G_FMT_BUFSIZE) (\<lambda>s.
       put_number (e_alloc E) s t (int (length t)))))"
proof (rule enc_crash[where n = 32 and s = s])
  have b: "FPCONV_G_FMT_BUFSIZE < 2 ^ 31" by (simp add: FPCONV_G_FMT_BUFSIZE_def)
  show "wpr (res_err (e_alloc E) (length cs + 32)) (\<lambda>s'. sb_rep s' (cs @ t) \<and> sb_dynamic s' = sb_dynamic s)
     (andthen (strbuf_ensure_empty_length (e_alloc E) s FPCONV_G_FMT_BUFSIZE) (\<lambda>s.
       put_number (e_alloc E) s t (int (length t))))"
    unfolding wpr_andthen
  proof (rule wpr_mono[OF ensure_spec[OF rep(1) b, of "e_alloc E"]])
    fix s1 assume s1: "sb_rep s1 cs \<and> FPCONV_G_FMT_BUFSIZE \<le> sb_room s1 \<and> sb_dynamic s1 = sb_dynamic s"
    then have "int (length t) + 1 \<le> sb_room s1 + 1" using t by (simp add: FPCONV_G_FMT_BUFSIZE_def)
    from put_number_spec[OF conjunct1[OF s1] this refl]
    show "wpr (res_err (e_alloc E) (length cs + 32)) (\<lambda>s'. sb_rep s' (cs @ t) \<and> sb_dynamic s' = sb_dynamic s)
       (put_number (e_alloc E) s1 t (int (length t)))"
      by (rule wpr_conseq) (use s1 in auto)
  qed (simp add: FPCONV_G_FMT_BUFSIZE_def nat_add_distrib)
qed (use rep in simp_all)

lemma enc_number:
  assumes rep: "sb_rep s cs" "sb_dynamic s = 0" and cfg: "cfg_ok cfg" and E: "env_ok E"
    and v: "(\<exists>i. v = LInt i \<and> LLONG_MIN \<le> i \<and> i \<le> LLONG_MAX) \<or> (\<exists>d. v = LNum d)"
  shows "enc_ok E cfg cs (whole (number_text cfg v)) (json_append_number E cfg s v)"
  using v
proof (elim disjE exE conjE)
  fix i assume i: "v = LInt i" "LLONG_MIN \<le> i" "i \<le> LLONG_MAX"
  have "length (lld_text i) \<le> 31" using lld_text_length[OF i(2,3)] by simp
  from enc_put[OF rep this] show ?thesis by (simp add: json_append_number_def number_text_def i(1))
next
  fix d assume d: "v = LNum d"
  have p: "1 \<le> encode_number_precision cfg" "encode_number_precision cfg \<le> 14"
    "flag_ok (encode_keep_buffer cfg)" using cfg by (simp_all add: cfg_ok_def)
  have fin: "enc_ok E cfg cs (whole (number_text cfg v))
      (crash (andthen (strbuf_ensure_empty_length (e_alloc E) s FPCONV_G_FMT_BUFSIZE) (\<lambda>json.
             andthen (fpconv_g_fmt (e_point E) d (encode_number_precision cfg)) (\<lambda>(t, len).
             put_number (e_alloc E) json t len))))"
    if f: "\<not> isnan d" "\<not> isinf d"
  proof -
    have "fpconv_g_fmt (e_point E) d (int (nat (encode_number_precision cfg)))
        = Inr (printf_g (nat (encode_number_precision cfg)) d, int (length (printf_g (nat (encode_number_precision cfg)) d)))
      \<and> length (printf_g (nat (encode_number_precision cfg)) d) \<le> 21"
      using g_fmt_numeral[OF f, of "nat (encode_number_precision cfg)" "e_point E"] p E
      by (simp add: env_ok_def)
    then show ?thesis using p f enc_put[OF rep, of "printf_g (nat (encode_number_precision cfg)) d"]
      by (simp add: number_text_def d)
  qed
  have m: "enc_ok E cfg cs (''NaN'', None) (crash (strbuf_append_mem (e_alloc E) s ''NaN'' 3))"
    "enc_ok E cfg cs (''-Infinity'', None) (crash (strbuf_append_mem (e_alloc E) s ''-Infinity'' 9))"
    "enc_ok E cfg cs (''Infinity'', None) (crash (strbuf_append_mem (e_alloc E) s ''Infinity'' 8))"
    "enc_ok E cfg cs (''null'', None) (crash (strbuf_append_mem (e_alloc E) s ''null'' 4))"
    by (rule enc_mem[OF rep]; simp)+
  show ?thesis
    using fin enc_exception[OF rep p(3), of E] m
    by (auto simp: json_append_number_def number_text_def d Let_def)
qed

section \<open>Tables\<close>

lemma array_key_pos: "array_key k = Some n \<Longrightarrow> 1 \<le> n"
  by (auto simp: array_key_def split: lua.splits if_splits)

lemma array_scan_spec:
  assumes "table_small cfg ps'" "set ps \<subseteq> set ps'" "0 \<le> items" "items + int (length ps) \<le> INT_MAX"
  shows "array_scan ps mx items =
    (if list_all (\<lambda>(k, v). array_key k \<noteq> None) ps
     then Inr (Some (fold (\<lambda>(k, v) m. max (the (array_key k)) m) ps mx, items + int (length ps)))
     else Inr None)"
  using assms(2-4)
proof (induction ps arbitrary: mx items)
  case (Cons p ps)
  obtain k v where p: "p = (k, v)" by fastforce
  show ?case
  proof (cases "array_key k")
    case (Some n)
    have "n \<le> INT_MAX" using assms(1) Cons.prems(1) p Some by (auto simp: table_small_def list_all_iff)
    moreover have "int_ok (items + 1)" using Cons.prems(2,3) by (simp add: int_ok_iff INT_MAX_def)
    ultimately have "array_scan (p # ps) mx items = array_scan ps (max n mx) (items + 1)"
      using p Some by (simp add: max_def)
    then show ?thesis using Cons p Some by (simp add: add.assoc)
  qed (simp add: p)
qed simp

lemma fold_max_ge: "m \<le> fold (\<lambda>(k, v) m. max (the (array_key k)) m) ps m"
proof (induction ps arbitrary: m)
  case (Cons p ps)
  have "m \<le> max (the (array_key (fst p))) m" by simp
  also note Cons.IH
  finally show ?case by (cases p) simp
qed simp

lemma array_length_spec:
  assumes small: "table_small cfg ps" and cfg: "cfg_ok cfg"
  shows "lua_array_length cfg a ps json =
    (case table_shape cfg a ps of
       Inl e \<Rightarrow> json_encode_exception cfg json (LTab a) ''excessively sparse array''
     | Inr (Some n) \<Rightarrow> Inr n
     | Inr None \<Rightarrow> Inr (if ps = [] then 0 else -1))"
proof (cases "list_all (\<lambda>(k, v). array_key k \<noteq> None) ps")
  case True
  have r: "0 \<le> encode_sparse_ratio cfg" "0 \<le> encode_sparse_safe cfg" using cfg by (simp_all add: cfg_ok_def range_ok_def)
  have "int (length ps) \<le> INT_MAX" using small by (simp add: table_small_def)
  then have s: "array_scan ps 0 0 = Inr (Some (table_max ps, int (length ps)))"
    using array_scan_spec[OF small order_refl, of 0 0] True by (simp add: table_max_def)
  have "0 \<le> int (length ps) * encode_sparse_ratio cfg" using r by simp
  then have o: "int_ok (int (length ps) * encode_sparse_ratio cfg)"
    using small by (simp add: table_small_def int_ok_iff INT_MAX_def)
  have ne: "0 < table_max ps" if nil: "ps \<noteq> []"
  proof -
    obtain k v qs where ps: "ps = (k, v) # qs" using nil by (cases ps) auto
    obtain n where n: "array_key k = Some n" using True ps by auto
    from fold_max_ge[of "max n 0" qs] show ?thesis using array_key_pos[OF n] by (simp add: table_max_def ps n)
  qed
  have z: "table_max [] = 0" by (simp add: table_max_def)
  show ?thesis using True ne z o r
    by (cases "ps = []") (auto simp: lua_array_length_def crash_def s table_shape_def Let_def)
next
  case False
  have "int (length ps) \<le> INT_MAX" using small by (simp add: table_small_def)
  then have s: "array_scan ps 0 0 = Inr None"
    using array_scan_spec[OF small order_refl, of 0 0] False by (simp add: table_max_def)
  show ?thesis using False by (auto simp: lua_array_length_def crash_def s table_shape_def)
qed

fun elems :: "bool \<Rightarrow> etext list \<Rightarrow> etext" where
  "elems comma [] = ([], None)"
| "elems comma (R # Rs) = cat (if comma then '','' else [], None) (cat R (elems True Rs))"

lemma elems_map_r:
  "(\<And>x. x \<in> set xs \<Longrightarrow> outcome (RT x) = andthen (D x) (\<lambda>d. Inr (P d))) \<Longrightarrow>
   outcome (elems True (map RT xs))
     = andthen (map_r D xs) (\<lambda>ds. Inr (concat (map (\<lambda>d. CHR '','' # P d) ds)))"
proof (induction xs)
  case (Cons x xs)
  then show ?case by (cases "D x"; cases "map_r D xs") (simp_all add: outcome_cat)
qed simp

lemma join_concat: "join (x # xs) = x @ concat (map (\<lambda>y. CHR '','' # y) xs)"
  by (induction xs arbitrary: x) auto

lemma elems_join:
  assumes "\<And>x. x \<in> set xs \<Longrightarrow> outcome (RT x) = andthen (D x) (\<lambda>d. Inr (P d))"
  shows "outcome (elems False (map RT xs)) = andthen (map_r D xs) (\<lambda>ds. Inr (join (map P ds)))"
proof (cases xs)
  case (Cons x xs')
  then show ?thesis using assms elems_map_r[of xs' RT D P]
    by (cases "D x"; cases "map_r D xs'") (simp_all add: outcome_cat join_concat comp_def)
qed simp

text \<open>The loop over the elements of a table, with what is appended after it.\<close>

lemma enc_loop:
  assumes step: "\<And>s cs x. x \<in> set xs \<Longrightarrow> sb_rep s cs \<Longrightarrow> sb_dynamic s = 0 \<Longrightarrow> enc_ok E cfg cs (RT x) (g s x)"
    and rest: "\<And>c s cs. sb_rep s cs \<Longrightarrow> sb_dynamic s = 0 \<Longrightarrow> enc_ok E cfg cs S (k c s)"
  shows "sb_rep s cs \<Longrightarrow> sb_dynamic s = 0 \<Longrightarrow>
    enc_ok E cfg cs (cat (elems c (map RT xs)) S)
      (andthen (fold_r (\<lambda>(c, s) x. andthen (append_comma (e_alloc E) s c) (\<lambda>s.
                          andthen (g s x) (\<lambda>s. Inr (True, s)))) xs (c, s)) (\<lambda>(c, s). k c s))"
  using step
proof (induction xs arbitrary: s cs c)
  case (Cons x xs)
  have comma: "enc_ok E cfg cs (if c then '','' else [], None) (append_comma (e_alloc E) s c)"
    using enc_char[OF Cons.prems(1,2)] Cons.prems(1,2) by (auto simp: append_comma_def enc_ok_def)
  show ?case unfolding fold_r.simps prod.case andthen_assoc list.map elems.simps cat_assoc andthen_simps
  proof (rule enc_bind[OF comma])
    fix s1 t assume s1: "sb_rep s1 (cs @ t)" "sb_dynamic s1 = 0"
    show "enc_ok E cfg (cs @ t) (cat (RT x) (cat (elems True (map RT xs)) S))
      (andthen (g s1 x) (\<lambda>s. andthen (fold_r (\<lambda>(c, s) x. andthen (append_comma (e_alloc E) s c) (\<lambda>s.
         andthen (g s x) (\<lambda>s. Inr (True, s)))) xs (True, s)) (\<lambda>(c, s). k c s)))"
      by (rule enc_bind[OF Cons.prems(3)[OF _ s1]]) (use Cons.IH Cons.prems(3) in auto)
  qed
qed (use rest in simp)

section \<open>Values\<close>

lemma valid_not_escaped: "\<forall>c. valid_number_character c \<longrightarrow> esc_char c = [c]"
  by code_simp

lemma quote_plain: "list_all valid_number_character t \<Longrightarrow> quote_str t = DQ # t @ [DQ]"
proof -
  assume "list_all valid_number_character t"
  then have "concat (map esc_char t) = t" using valid_not_escaped by (induction t) auto
  then show ?thesis by (simp add: quote_str_def)
qed

lemma lld_text_valid: "list_all valid_number_character (lld_text i)"
  using dec_digits_dec dec_valid by (auto simp: lld_text_def list_all_iff)

lemma number_text_valid:
  assumes "cfg_ok cfg" "number_text cfg v = Inr t"
  shows "list_all valid_number_character t"
proof -
  have w: "list_all valid_number_character ''NaN''" "list_all valid_number_character ''-Infinity''"
    "list_all valid_number_character ''Infinity''" "list_all valid_number_character ''null''"
    by code_simp+
  have g: "list_all valid_number_character (printf_g (nat (encode_number_precision cfg)) d)"
    if "\<not> isnan d" "\<not> isinf d" for d
  proof -
    have p: "1 \<le> nat (encode_number_precision cfg)" "nat (encode_number_precision cfg) \<le> 14"
      using assms(1) by (auto simp: cfg_ok_def)
    from printf_g_numeral[OF that p] obtain ip fp ep where
      "printf_g (nat (encode_number_precision cfg)) d = numeral_text (dbl_sign d) ip fp ep" "wf_numeral ip fp ep"
      by blast
    then show ?thesis using numeral_text_valid by simp
  qed
  show ?thesis using assms(2) lld_text_valid w g
    by (auto simp: number_text_def split: lua.splits if_splits)
qed

text \<open>The text of a key; the quote before a number is appended before the number is looked at.\<close>

definition key_etext :: "json_config \<Rightarrow> lua \<Rightarrow> etext" where
  "key_etext cfg k =
     (if lua_is_number k then cat ([DQ], None) (cat (whole (number_text cfg k)) ([DQ, CHR '':''], None))
      else whole (andthen (key_text cfg k) (\<lambda>t. Inr (quote_str t @ '':''))))"

lemma outcome_key:
  assumes "cfg_ok cfg"
  shows "outcome (key_etext cfg k) = andthen (key_text cfg k) (\<lambda>t. Inr (quote_str t @ '':''))"
proof (cases "lua_is_number k")
  case True
  then have "key_text cfg k = number_text cfg k" by (cases k) (auto simp: lua_is_number_def key_text_def)
  then show ?thesis using True number_text_valid[OF assms] quote_plain
    by (cases "number_text cfg k") (auto simp: key_etext_def)
qed (simp add: key_etext_def)

text \<open>
  What the encoder appends for a value: the text of its document or, when the value has none,
  the text up to the point where the error is raised.
\<close>

function data_text :: "env \<Rightarrow> lua_heap \<Rightarrow> json_config \<Rightarrow> int \<Rightarrow> lua \<Rightarrow> etext" where
  "data_text E h cfg d v =
     (case v of
        LTab a \<Rightarrow>
          if d + 1 \<le> encode_max_depth cfg \<and> e_stack E (d + 1) 3
          then (case table_shape cfg a (h a) of
                  Inl e \<Rightarrow> ([], Some e)
                | Inr (Some n) \<Rightarrow>
                    cat (''['', None)
                      (cat (elems False (map (\<lambda>i. data_text E h cfg (d + 1) (lua_rawgeti h a i)) [1..n]))
                           ('']'', None))
                | Inr None \<Rightarrow>
                    cat (''{'', None)
                      (cat (elems False (map (\<lambda>p. cat (key_etext cfg (fst p))
                                                      (data_text E h cfg (d + 1) (snd p))) (h a)))
                           (''}'', None)))
          else ([], Some (nesting_message (d + 1)))
      | _ \<Rightarrow> whole (andthen (doc_of E h cfg d v) (\<lambda>d. Inr (print_doc d))))"
  by pat_completeness auto

termination
  by (relation "measure (\<lambda>(E, h, cfg, d, v). nat (encode_max_depth cfg - d))") auto

declare data_text.simps [simp del]

lemma data_leaf:
  "(\<And>a. v \<noteq> LTab a) \<Longrightarrow>
     data_text E h cfg d v = whole (andthen (doc_of E h cfg d v) (\<lambda>d. Inr (print_doc d)))"
  by (subst data_text.simps) (simp split: lua.split)

lemma doc_number:
  "doc_of E h cfg d (LInt i) = andthen (number_text cfg (LInt i)) (\<lambda>t. Inr (JNumber t))"
  "doc_of E h cfg d (LNum x) =
     andthen (number_text cfg (LNum x)) (\<lambda>t. Inr (if t = ''null'' then JNull else JNumber t))"
  by (subst doc_of.simps, simp)+

lemma outcome_data:
  assumes "cfg_ok cfg"
  shows "outcome (data_text E h cfg d v) = andthen (doc_of E h cfg d v) (\<lambda>d. Inr (print_doc d))"
proof (induction "nat (encode_max_depth cfg - d)" arbitrary: d v rule: less_induct)
  case less
  show ?case
  proof (cases "\<exists>a. v = LTab a \<and> d + 1 \<le> encode_max_depth cfg \<and> e_stack E (d + 1) 3")
    case False
    then show ?thesis
      by (cases v) (auto simp: data_leaf data_text.simps[of _ _ _ _ "LTab _"] doc_of.simps[of _ _ _ _ "LTab _"])
  next
    case True
    then obtain a where v: "v = LTab a" and d: "d + 1 \<le> encode_max_depth cfg \<and> e_stack E (d + 1) 3" by blast
    have IH: "outcome (data_text E h cfg (d + 1) w) = andthen (doc_of E h cfg (d + 1) w) (\<lambda>d. Inr (print_doc d))" for w
      using d by (intro less.hyps) simp
    show ?thesis
    proof (cases "table_shape cfg a (h a)")
      case (Inl e)
      then show ?thesis using v d by (simp add: data_text.simps[of _ _ _ _ "LTab a"] doc_of.simps[of _ _ _ _ "LTab a"])
    next
      case (Inr shape)
      show ?thesis
      proof (cases shape)
        case (Some n)
        have "outcome (elems False (map (\<lambda>i. data_text E h cfg (d + 1) (lua_rawgeti h a i)) [1..n]))
          = andthen (map_r (\<lambda>i. doc_of E h cfg (d + 1) (lua_rawgeti h a i)) [1..n]) (\<lambda>ds. Inr (join (map print_doc ds)))"
          by (rule elems_join) (rule IH)
        then show ?thesis using v d Inr Some
          by (simp add: data_text.simps[of _ _ _ _ "LTab a"] doc_of.simps[of _ _ _ _ "LTab a"] outcome_cat andthen_assoc)
      next
        case None
        let ?P = "\<lambda>(k, d). quote_str k @ CHR '':'' # print_doc d"
        have "outcome (elems False (map (\<lambda>p. cat (key_etext cfg (fst p)) (data_text E h cfg (d + 1) (snd p))) (h a)))
          = andthen (map_r (\<lambda>(k, v). andthen (key_text cfg k) (\<lambda>t. andthen (doc_of E h cfg (d + 1) v) (\<lambda>d. Inr (t, d)))) (h a))
              (\<lambda>kvs. Inr (join (map ?P kvs)))"
          by (rule elems_join) (auto simp: outcome_cat outcome_key[OF assms] IH andthen_assoc split: prod.split)
        then show ?thesis using v d Inr None
          by (simp add: data_text.simps[of _ _ _ _ "LTab a"] doc_of.simps[of _ _ _ _ "LTab a"] outcome_cat andthen_assoc)
      qed
    qed
  qed
qed

lemma enc_key:
  assumes rep: "sb_rep s cs" "sb_dynamic s = 0" and cfg: "cfg_ok cfg" and E: "env_ok E" and k: "value_small k"
  shows "enc_ok E cfg cs (key_etext cfg k) (json_append_key E cfg s k)"
proof -
  have kb: "flag_ok (encode_keep_buffer cfg)" using cfg by (simp add: cfg_ok_def)
  have num: "enc_ok E cfg cs (key_etext cfg k) (json_append_key E cfg s k)"
    if v: "(\<exists>i. k = LInt i \<and> LLONG_MIN \<le> i \<and> i \<le> LLONG_MAX) \<or> (\<exists>d. k = LNum d)"
  proof -
    have "key_text cfg k = number_text cfg k" "lua_is_number k" "\<And>x. k \<noteq> LStr x"
      using v by (auto simp: key_text_def lua_is_number_def)
    then have a: "json_append_key E cfg s k =
        andthen (crash (strbuf_append_char (e_alloc E) s DQ)) (\<lambda>json.
        andthen (json_append_number E cfg json k) (\<lambda>json.
        crash (strbuf_append_mem (e_alloc E) json [DQ, CHR '':''] 2)))"
      using v by (auto simp: json_append_key_def)
    have t: "key_etext cfg k = cat ([DQ], None) (cat (whole (number_text cfg k)) ([DQ, CHR '':''], None))"
      using \<open>lua_is_number k\<close> by (simp add: key_etext_def)
    show ?thesis unfolding a t
    proof (rule enc_bind[OF enc_char[OF rep]])
      fix s1 t assume s1: "sb_rep s1 (cs @ t)" "sb_dynamic s1 = 0"
      show "enc_ok E cfg (cs @ t) (cat (whole (number_text cfg k)) ([DQ, CHR '':''], None))
         (andthen (json_append_number E cfg s1 k) (\<lambda>json.
          crash (strbuf_append_mem (e_alloc E) json [DQ, CHR '':''] 2)))"
        by (rule enc_bind[OF enc_number[OF s1 cfg E v]]) (rule enc_mem; simp)
    qed
  qed
  show ?thesis
  proof (cases k)
    case (LStr x)
    have "enc_ok E cfg cs (cat (quote_str x, None) ('':'', None))
        (andthen (crash (json_append_string (e_alloc E) s x)) (\<lambda>s. crash (strbuf_append_char (e_alloc E) s (CHR '':''))))"
      by (rule enc_bind[OF enc_string[OF rep]]) (use k LStr in \<open>auto simp: value_small_def intro: enc_char\<close>)
    then show ?thesis using LStr by (simp add: json_append_key_def key_etext_def key_text_def crash_andthen lua_is_number_def)
  qed (use num k enc_exception[OF rep kb, of E] in
      \<open>auto simp: json_append_key_def key_etext_def key_text_def value_small_def lua_is_number_def\<close>)
qed

lemma rawgeti_small: "heap_small cfg h \<Longrightarrow> value_small (lua_rawgeti h a i)"
proof -
  assume "heap_small cfg h"
  then have t: "table_small cfg (h a)" by (simp add: heap_small_def)
  show ?thesis
  proof (cases "map_of (h a) (LInt i)")
    case (Some v)
    then have "(LInt i, v) \<in> set (h a)" by (rule map_of_SomeD)
    then show ?thesis using t Some by (auto simp: lua_rawgeti_def table_small_def list_all_iff)
  qed (simp add: lua_rawgeti_def value_small_def)
qed

lemma enc_array:
  assumes rep: "sb_rep s cs" "sb_dynamic s = 0" and h: "heap_small cfg h"
    and elem: "\<And>s cs v. sb_rep s cs \<Longrightarrow> sb_dynamic s = 0 \<Longrightarrow> value_small v \<Longrightarrow>
      enc_ok E cfg cs (R v) (f s v)"
  shows "enc_ok E cfg cs
    (cat (''['', None) (cat (elems False (map (\<lambda>i. R (lua_rawgeti h a i)) [1..n])) ('']'', None)))
    (json_append_array E f h a s n)"
  unfolding json_append_array_def
proof (rule enc_bind[OF enc_char[OF rep]])
  fix s1 t assume s1: "sb_rep s1 (cs @ t)" "sb_dynamic s1 = 0"
  show "enc_ok E cfg (cs @ t) (cat (elems False (map (\<lambda>i. R (lua_rawgeti h a i)) [1..n])) ('']'', None))
    (andthen (fold_r (\<lambda>(comma, json) i. andthen (append_comma (e_alloc E) json comma) (\<lambda>json.
        andthen (f json (lua_rawgeti h a i)) (\<lambda>json. Inr (True, json)))) [1..n] (False, s1)) (\<lambda>(comma, json).
     crash (strbuf_append_char (e_alloc E) json (CHR '']''))))"
    using elem rawgeti_small[OF h] enc_char s1
    by (intro enc_loop[where g = "\<lambda>s i. f s (lua_rawgeti h a i)"]) auto
qed

lemma enc_object:
  assumes rep: "sb_rep s cs" "sb_dynamic s = 0" and cfg: "cfg_ok cfg" and E: "env_ok E"
    and small: "table_small cfg ps"
    and elem: "\<And>s cs v. sb_rep s cs \<Longrightarrow> sb_dynamic s = 0 \<Longrightarrow> value_small v \<Longrightarrow>
      enc_ok E cfg cs (R v) (f s v)"
  shows "enc_ok E cfg cs
    (cat (''{'', None) (cat (elems False (map (\<lambda>p. cat (key_etext cfg (fst p)) (R (snd p))) ps)) (''}'', None)))
    (json_append_object E cfg f ps s)"
proof -
  let ?R = "\<lambda>p. cat (key_etext cfg (fst p)) (R (snd p))"
  have step: "enc_ok E cfg cs (?R p) (andthen (json_append_key E cfg s (fst p)) (\<lambda>s. f s (snd p)))"
    if "p \<in> set ps" "sb_rep s cs" "sb_dynamic s = 0" for p s cs
  proof -
    have v: "value_small (fst p)" "value_small (snd p)"
      using small that(1) by (auto simp: table_small_def list_all_iff)
    show ?thesis by (rule enc_bind[OF enc_key[OF that(2,3) cfg E v(1)]]) (rule elem; use v in simp)
  qed
  have loop: "(\<lambda>(comma, json) (k, v). andthen (append_comma (e_alloc E) json comma) (\<lambda>json.
          andthen (json_append_key E cfg json k) (\<lambda>json. andthen (f json v) (\<lambda>json. Inr (True, json)))))
    = (\<lambda>(comma, json) p. andthen (append_comma (e_alloc E) json comma) (\<lambda>json.
          andthen (andthen (json_append_key E cfg json (fst p)) (\<lambda>s. f s (snd p))) (\<lambda>json. Inr (True, json))))"
    by (auto simp: fun_eq_iff andthen_assoc)
  show ?thesis unfolding json_append_object_def loop
  proof (rule enc_bind[OF enc_char[OF rep]])
    fix s1 t assume s1: "sb_rep s1 (cs @ t)" "sb_dynamic s1 = 0"
    show "enc_ok E cfg (cs @ t) (cat (elems False (map ?R ps)) (''}'', None))
      (andthen (fold_r (\<lambda>(comma, json) p. andthen (append_comma (e_alloc E) json comma) (\<lambda>json.
          andthen (andthen (json_append_key E cfg json (fst p)) (\<lambda>s. f s (snd p))) (\<lambda>json. Inr (True, json)))) ps (False, s1))
        (\<lambda>(comma, json). crash (strbuf_append_char (e_alloc E) json (CHR ''}''))))"
      by (rule enc_loop[where g = "\<lambda>s p. andthen (json_append_key E cfg s (fst p)) (\<lambda>s. f s (snd p))"])
        (use step enc_char s1 in auto)
  qed
qed

lemma doc_leaf:
  "doc_of E h cfg d LNil = Inr JNull" "doc_of E h cfg d (LBool b) = Inr (JBool b)"
  "doc_of E h cfg d (LStr x) = Inr (JStr x)"
  "doc_of E h cfg d (LLight p) = (if p = 0 then Inr JNull else Inl (not_serialisable (LLight p) ''type not supported''))"
  "doc_of E h cfg d (LOther n) = Inl (not_serialisable (LOther n) ''type not supported'')"
  by (subst doc_of.simps, simp)+

lemma append_leaf:
  "json_append_data E h cfg d s LNil = crash (strbuf_append_mem (e_alloc E) s ''null'' 4)"
  "json_append_data E h cfg d s (LBool b) =
     (if b then crash (strbuf_append_mem (e_alloc E) s ''true'' 4) else crash (strbuf_append_mem (e_alloc E) s ''false'' 5))"
  "json_append_data E h cfg d s (LStr x) = crash (json_append_string (e_alloc E) s x)"
  "json_append_data E h cfg d s (LLight p) =
     (if p = 0 then crash (strbuf_append_mem (e_alloc E) s ''null'' 4)
      else json_encode_exception cfg s (LLight p) ''type not supported'')"
  "json_append_data E h cfg d s (LOther n) = json_encode_exception cfg s (LOther n) ''type not supported''"
  by (subst json_append_data.simps, simp)+

lemma enc_data:
  assumes cfg: "cfg_ok cfg" and E: "env_ok E" and h: "heap_small cfg h"
  shows "sb_rep s cs \<Longrightarrow> sb_dynamic s = 0 \<Longrightarrow> value_small v \<Longrightarrow> d \<le> 1000000 \<Longrightarrow> 0 \<le> d \<Longrightarrow>
    enc_ok E cfg cs (data_text E h cfg d v) (json_append_data E h cfg d s v)"
proof (induction "nat (encode_max_depth cfg - d)" arbitrary: d s cs v rule: less_induct)
  case less
  note rep = less.prems(1,2)
  have kb: "flag_ok (encode_keep_buffer cfg)" using cfg by (simp add: cfg_ok_def)
  have num: "enc_ok E cfg cs (data_text E h cfg d v) (json_append_data E h cfg d s v)"
    if v: "(\<exists>i. v = LInt i \<and> LLONG_MIN \<le> i \<and> i \<le> LLONG_MAX) \<or> (\<exists>d. v = LNum d)"
  proof -
    have "data_text E h cfg d v = whole (number_text cfg v)"
      using v by (cases "number_text cfg v") (auto simp: data_leaf doc_number)
    then show ?thesis using enc_number[OF rep cfg E v] v by (auto simp: json_append_data.simps[of _ _ _ _ _ v])
  qed
  have w: "enc_ok E cfg cs (''true'', None) (crash (strbuf_append_mem (e_alloc E) s ''true'' 4))"
    "enc_ok E cfg cs (''false'', None) (crash (strbuf_append_mem (e_alloc E) s ''false'' 5))"
    "enc_ok E cfg cs (''null'', None) (crash (strbuf_append_mem (e_alloc E) s ''null'' 4))"
    by (rule enc_mem[OF rep]; simp)+
  show ?case
  proof (cases v)
    case (LTab a)
    have o: "int_ok (d + 1)" using less.prems(4,5) by (simp add: int_ok_iff)
    show ?thesis
    proof (cases "d + 1 \<le> encode_max_depth cfg \<and> e_stack E (d + 1) 3")
      case False
      then show ?thesis using o LTab enc_throw[OF rep kb, of E "nesting_message (d + 1)"]
        by (simp add: data_text.simps[of _ _ _ _ "LTab a"] json_append_data.simps[of _ _ _ _ _ "LTab a"]
            json_check_encode_depth_def del: de_Morgan_conj)
    next
      case True
      then have d1: "d + 1 \<le> 1000000" "nat (encode_max_depth cfg - (d + 1)) < nat (encode_max_depth cfg - d)"
        using E by (auto simp: env_ok_def)
      have elem: "enc_ok E cfg cs (data_text E h cfg (d + 1) v) (json_append_data E h cfg (d + 1) s v)"
        if "sb_rep s cs" "sb_dynamic s = 0" "value_small v" for s cs v
        using less.hyps[OF d1(2) that d1(1)] less.prems(5) by simp
      have small: "table_small cfg (h a)" using h by (simp add: heap_small_def)
      have run: "json_append_data E h cfg d s v = andthen (lua_array_length cfg a (h a) s) (\<lambda>len.
          if 0 < len then json_append_array E (json_append_data E h cfg (d + 1)) h a s len
          else json_append_object E cfg (json_append_data E h cfg (d + 1)) (h a) s)"
        using True o LTab by (simp add: json_append_data.simps[of _ _ _ _ _ "LTab a"] json_check_encode_depth_def)
      show ?thesis
      proof (cases "table_shape cfg a (h a)")
        case (Inl e)
        then have e: "e = not_serialisable (LTab a) ''excessively sparse array''"
          by (auto simp: table_shape_def Let_def split: if_splits)
        have x: "andthen (json_encode_exception cfg s (LTab a) r) f = json_encode_exception cfg s (LTab a) r"
          for r and f :: "int \<Rightarrow> jerr + strbuf" by (simp add: json_encode_exception_def)
        show ?thesis unfolding run array_length_spec[OF small cfg] Inl sum.case
          using enc_exception[OF rep kb, of E "LTab a" "''excessively sparse array''"] True LTab Inl e
          by (simp add: data_text.simps[of _ _ _ _ "LTab a"] json_encode_exception_def)
      next
        case (Inr shape)
        show ?thesis
        proof (cases shape)
          case (Some n)
          then have n: "0 < n" using Inr by (auto simp: table_shape_def Let_def split: if_splits)
          have "data_text E h cfg d v = cat (''['', None) (cat (elems False
              (map (\<lambda>i. data_text E h cfg (d + 1) (lua_rawgeti h a i)) [1..n])) ('']'', None))"
            using True LTab Inr Some by (simp add: data_text.simps[of _ _ _ _ "LTab a"])
          then show ?thesis unfolding run array_length_spec[OF small cfg] Inr Some
            using enc_array[OF rep h elem, where a = a and n = n] n by simp
        next
          case None
          have "data_text E h cfg d v = cat (''{'', None) (cat (elems False
              (map (\<lambda>p. cat (key_etext cfg (fst p)) (data_text E h cfg (d + 1) (snd p))) (h a))) (''}'', None))"
            using True LTab Inr None by (simp add: data_text.simps[of _ _ _ _ "LTab a"])
          then show ?thesis unfolding run array_length_spec[OF small cfg] Inr None
            using enc_object[OF rep cfg E small, where R = "data_text E h cfg (d + 1)" and f = "json_append_data E h cfg (d + 1)", OF elem] by simp
        qed
      qed
    qed
  qed (use num less.prems(3) w enc_string[OF rep] enc_exception[OF rep kb, of E] in
      \<open>auto simp: data_leaf doc_leaf append_leaf value_small_def\<close>)
qed

section \<open>The whole encoder\<close>

definition encode_spec ::
  "env \<Rightarrow> lua_heap \<Rightarrow> json_config \<Rightarrow> lua \<Rightarrow> (json_config \<times> strbuf option \<times> (lua_error + string)) res \<Rightarrow> bool" where
  "encode_spec E h cfg v out \<longleftrightarrow>
     (case out of
        Inr (cfg', private, r) \<Rightarrow>
          r = outcome (data_text E h cfg 0 v) \<and> cfg_ok cfg'
          \<and> (\<forall>s. private = Some s \<longrightarrow> sb_buf s = None \<and> sb_blocks s = 0)
      | Inl e \<Rightarrow>
          no_memory E e
          \<or> (e = UB Signed_overflow \<and> 2 ^ 30 \<le> 6 * length (fst (data_text E h cfg 0 v)) + 64))"

lemma cfg_ok_buf: "cfg_ok cfg \<Longrightarrow> buf_ok (encode_keep_buffer cfg) s \<Longrightarrow> cfg_ok (cfg\<lparr>encode_buf := s\<rparr>)"
  by (simp add: cfg_ok_def)

lemma encode_meets_spec:
  assumes cfg: "cfg_ok cfg" and E: "env_ok E" and h: "heap_small cfg h" and v: "value_small v"
  shows "encode_spec E h cfg v (json_encode E h cfg [v])"
proof -
  let ?private = "encode_keep_buffer cfg = 0"
  have kb: "flag_ok (encode_keep_buffer cfg)" and b: "buf_ok (encode_keep_buffer cfg) (encode_buf cfg)"
    using cfg by (simp_all add: cfg_ok_def)
  have start: "wpr (no_memory E) (\<lambda>s. sb_rep s [] \<and> sb_dynamic s = 0)
      (if ?private then strbuf_init (e_alloc E) 0 0 else Inr (strbuf_reset (encode_buf cfg)))"
  proof (cases ?private)
    case True
    show ?thesis unfolding if_P[OF True]
      by (rule wpr_mono[OF init_spec[of 0 "e_alloc E"]]) (auto simp: int_ok_iff res_err_def no_memory_def)
  next
    case False
    then have "encode_keep_buffer cfg = 1" using kb by (simp add: flag_ok_def)
    then show ?thesis using b reset_spec[of "encode_buf cfg"] by (simp add: buf_ok_def strbuf_reset_def)
  qed
  show ?thesis
  proof (cases "if ?private then strbuf_init (e_alloc E) 0 0 else Inr (strbuf_reset (encode_buf cfg))")
    case (Inl e)
    then show ?thesis using start by (simp add: json_encode_def encode_spec_def)
  next
    case (Inr s)
    then have s: "sb_rep s []" "sb_dynamic s = 0" using start by simp_all
    have data: "enc_ok E cfg [] (data_text E h cfg 0 v) (json_append_data E h cfg 0 s v)"
      by (rule enc_data[OF cfg E h s v]) simp_all
    show ?thesis
    proof (cases "json_append_data E h cfg 0 s v")
      case (Inl j)
      then show ?thesis
      proof (cases j)
        case (Crash e)
        then show ?thesis using data Inl Inr by (simp add: json_encode_def encode_spec_def enc_ok_def)
      next
        case (Throw err b)
        then obtain t where t: "snd (data_text E h cfg 0 v) = Some err" "b = Some t" "buf_ok (encode_keep_buffer cfg) t"
          using data Inl by (auto simp: enc_ok_def)
        then show ?thesis using Inl Inr Throw cfg cfg_ok_buf[OF cfg t(3)] t kb
          by (auto simp: json_encode_def encode_spec_def Let_def buf_ok_def flag_ok_def outcome_def)
      qed
    next
      case json: (Inr json)
      then obtain t where t: "data_text E h cfg 0 v = (t, None)" "sb_rep json t" "sb_dynamic json = 0"
        using data by (auto simp: enc_ok_def)
      have p: "peek_mem (sb_buf json) (sb_length json) = Inr t" by (rule contents_spec[OF t(2)])
      have ok: "sb_ok json" using t(2) by (simp add: sb_rep_def)
      show ?thesis
      proof (cases ?private)
        case True
        then show ?thesis using Inr json p t cfg ok
          by (auto simp: json_encode_def encode_spec_def strbuf_string_def strbuf_free_def sb_ok_def Let_def split: option.splits)
      next
        case False
        then have "buf_ok (encode_keep_buffer cfg) json" using kb ok t(3) by (simp add: buf_ok_def flag_ok_def)
        then show ?thesis using Inr json p t cfg False cfg_ok_buf[OF cfg, of json]
          by (auto simp: json_encode_def encode_spec_def strbuf_string_def Let_def)
      qed
    qed
  qed
qed

text \<open>
  Tables that contain one another. \<open>refers cfg h a b\<close>: the encoder meets the table \<open>b\<close> among the
  values of \<open>a\<close>.
\<close>

definition sub_values :: "json_config \<Rightarrow> lua_heap \<Rightarrow> nat \<Rightarrow> lua list" where
  "sub_values cfg h a =
     (case table_shape cfg a (h a) of
        Inl e \<Rightarrow> []
      | Inr (Some n) \<Rightarrow> map (lua_rawgeti h a) [1..n]
      | Inr None \<Rightarrow> map snd (h a))"

definition refers :: "json_config \<Rightarrow> lua_heap \<Rightarrow> nat \<Rightarrow> nat \<Rightarrow> bool" where
  "refers cfg h a b \<longleftrightarrow> LTab b \<in> set (sub_values cfg h a)"

text \<open>Nothing in a table is an error of its own: what is left is the nesting.\<close>

definition encodable :: "json_config \<Rightarrow> lua \<Rightarrow> bool" where
  "encodable cfg v \<longleftrightarrow>
     (case v of LNum x \<Rightarrow> \<not> isl (number_text cfg v) | LLight p \<Rightarrow> p = 0 | LOther n \<Rightarrow> False | _ \<Rightarrow> True)"

definition table_encodable :: "json_config \<Rightarrow> lua_heap \<Rightarrow> nat \<Rightarrow> bool" where
  "table_encodable cfg h a \<longleftrightarrow>
     \<not> isl (table_shape cfg a (h a))
     \<and> list_all (\<lambda>(k, v). \<not> isl (key_text cfg k) \<and> encodable cfg v) (h a)"

lemma map_r_Inr: "map_r f xs = Inr ys \<Longrightarrow> x \<in> set xs \<Longrightarrow> \<exists>y. f x = Inr y"
  by (induction xs arbitrary: ys) (auto simp: andthen_eq_Inr)

lemma map_r_Inl: "map_r f xs = Inl e \<Longrightarrow> \<exists>x \<in> set xs. f x = Inl e"
  by (induction xs) (auto simp: andthen_eq_Inl)

lemma sub_values_Inr:
  assumes "doc_of E h cfg d (LTab a) = Inr D" "v \<in> set (sub_values cfg h a)"
  shows "d + 1 \<le> encode_max_depth cfg \<and> (\<exists>D. doc_of E h cfg (d + 1) v = Inr D)"
  using assms
  by (auto simp: doc_of.simps[of _ _ _ _ "LTab a"] sub_values_def andthen_eq_Inr
      split: if_splits option.splits sum.splits dest!: map_r_Inr)

lemma no_doc_of_cycle:
  assumes "(refers cfg h)\<^sup>*\<^sup>* a b" "(refers cfg h)\<^sup>+\<^sup>+ b b"
  shows "doc_of E h cfg d (LTab a) \<noteq> Inr D"
  using assms(1)
proof (induction "nat (encode_max_depth cfg - d)" arbitrary: a d D rule: less_induct)
  case less
  have "\<exists>c. refers cfg h a c \<and> (refers cfg h)\<^sup>*\<^sup>* c b"
    using less.prems assms(2) by (metis converse_rtranclpE tranclpD)
  then obtain c where c: "LTab c \<in> set (sub_values cfg h a)" "(refers cfg h)\<^sup>*\<^sup>* c b"
    by (auto simp: refers_def)
  show ?case
  proof
    assume "doc_of E h cfg d (LTab a) = Inr D"
    from sub_values_Inr[OF this c(1)] less.hyps[OF _ c(2), of "d + 1"] show False by auto
  qed
qed

lemma doc_of_leaf:
  assumes "encodable cfg v" "doc_of E h cfg d v = Inl e"
  obtains c where "v = LTab c"
  using assms by (cases v) (auto simp: doc_leaf doc_number encodable_def number_text_def andthen_eq_Inl split: if_splits)

lemma rawgeti_encodable: "table_encodable cfg h a \<Longrightarrow> encodable cfg (lua_rawgeti h a i)"
  by (auto simp: lua_rawgeti_def table_encodable_def list_all_iff encodable_def[of _ LNil]
      split: option.split dest!: map_of_SomeD)

lemma nesting_error_only:
  assumes st: "\<And>d. d \<le> encode_max_depth cfg \<Longrightarrow> e_stack E d 3"
  shows "(\<And>c. (refers cfg h)\<^sup>*\<^sup>* a c \<Longrightarrow> table_encodable cfg h c) \<Longrightarrow> d \<le> encode_max_depth cfg
    \<Longrightarrow> doc_of E h cfg d (LTab a) = Inl e \<Longrightarrow> e = nesting_message (encode_max_depth cfg + 1)"
proof (induction "nat (encode_max_depth cfg - d)" arbitrary: a d rule: less_induct)
  case less
  have te: "table_encodable cfg h a" by (rule less.prems(1)) simp
  show ?case
  proof (cases "d + 1 \<le> encode_max_depth cfg")
    case False
    then have "d = encode_max_depth cfg" using less.prems(2) by simp
    then show ?thesis using less.prems(3) by (simp add: doc_of.simps[of _ _ _ _ "LTab a"])
  next
    case True
    obtain shape where sh: "table_shape cfg a (h a) = Inr shape"
      using te by (cases "table_shape cfg a (h a)") (auto simp: table_encodable_def)
    have el: "\<not> isl (key_text cfg k) \<and> encodable cfg v" if "(k, v) \<in> set (h a)" for k v
      using te that by (auto simp: table_encodable_def list_all_iff)
    have "\<exists>v \<in> set (sub_values cfg h a). encodable cfg v \<and> doc_of E h cfg (d + 1) v = Inl e"
    proof (cases shape)
      case (Some n)
      then have "map_r (\<lambda>i. doc_of E h cfg (d + 1) (lua_rawgeti h a i)) [1..n] = Inl e"
        using less.prems(3) True st[OF True] sh by (simp add: doc_of.simps[of _ _ _ _ "LTab a"] andthen_eq_Inl)
      from map_r_Inl[OF this] show ?thesis
        using rawgeti_encodable[OF te] sh Some by (auto simp: sub_values_def)
    next
      case None
      then have "map_r (\<lambda>(k, v). andthen (key_text cfg k) (\<lambda>t. andthen (doc_of E h cfg (d + 1) v) (\<lambda>d. Inr (t, d)))) (h a) = Inl e"
        using less.prems(3) True st[OF True] sh by (simp add: doc_of.simps[of _ _ _ _ "LTab a"] andthen_eq_Inl)
      from map_r_Inl[OF this] obtain k v where kv: "(k, v) \<in> set (h a)"
        "andthen (key_text cfg k) (\<lambda>t. andthen (doc_of E h cfg (d + 1) v) (\<lambda>d. Inr (t, d))) = Inl e" by auto
      from el[OF kv(1)] kv(2) have "encodable cfg v \<and> doc_of E h cfg (d + 1) v = Inl e"
        by (auto simp: andthen_eq_Inl)
      moreover have "v \<in> set (sub_values cfg h a)" using kv(1) sh None by (force simp: sub_values_def)
      ultimately show ?thesis by blast
    qed
    then obtain v where v: "v \<in> set (sub_values cfg h a)" "encodable cfg v" "doc_of E h cfg (d + 1) v = Inl e"
      by blast
    from doc_of_leaf[OF v(2,3)] obtain c where c: "v = LTab c" .
    with v(1) have ac: "refers cfg h a c" by (simp add: refers_def)
    show ?thesis
    proof (rule less.hyps[of "d + 1" c])
      show "table_encodable cfg h x" if "(refers cfg h)\<^sup>*\<^sup>* c x" for x
        using less.prems(1) converse_rtranclp_into_rtranclp[of "refers cfg h", OF ac that] .
    qed (use True v(3) c in simp_all)
  qed
qed

text \<open>Unchecked appends on a buffer that is not large enough.\<close>

lemma append_escaped_overruns:
  assumes "\<forall>c \<in> set str. char2escape c = None"
  shows "sb_buf s = Some m \<Longrightarrow> int (length m) \<le> INT_MAX \<Longrightarrow> 0 \<le> sb_length s \<Longrightarrow> sb_length s \<le> int (length m) \<Longrightarrow>
    int (length m) - sb_length s < int (length str) \<Longrightarrow> append_escaped A s str = Inl (UB Oob_write)"
  using assms
proof (induction str arbitrary: s m)
  case (Cons c str)
  have n: "char2escape c = None" using Cons.prems(6) by simp
  show ?case
  proof (cases "sb_length s = int (length m)")
    case True
    then have "strbuf_append_char_unsafe s c = Inl (UB Oob_write)"
      using Cons.prems(1) by (simp add: strbuf_append_char_unsafe_def poke_mem_def)
    then show ?thesis using n by simp
  next
    case False
    let ?m = "take (nat (sb_length s)) m @ Some c # drop (Suc (nat (sb_length s))) m"
    let ?s = "s\<lparr>sb_buf := Some ?m, sb_length := sb_length s + 1\<rparr>"
    have l: "sb_length s < int (length m)" using False Cons.prems(4) by simp
    then have "strbuf_append_char_unsafe s c = Inr ?s"
      using Cons.prems(1,2,3) by (simp add: strbuf_append_char_unsafe_def poke_mem_def int_ok_iff INT_MAX_def nat_less_iff)
    moreover have "append_escaped A ?s str = Inl (UB Oob_write)"
    proof (rule Cons.IH[of ?s ?m])
      have "length ?m = length m" using l Cons.prems(3) by simp
      then show "int (length ?m) \<le> INT_MAX" "sb_length ?s \<le> int (length ?m)"
        "int (length ?m) - sb_length ?s < int (length str)"
        using Cons.prems(2,5) l by simp_all
    qed (use Cons.prems in simp_all)
    ultimately show ?thesis using n by simp
  qed
qed simp

section \<open>Properties\<close>

text \<open>
  C1: Encoding a value returns the text of the document it denotes, or raises the Lua error the
  document's definition says (the first one in the order of the traversal). Whichever happens,
  the configuration stays valid and a private buffer has been freed, with no block of it lost. A
  call that does not return has run out of memory or has appended more than about 170 megabytes,
  of the whole text or, when the value has no document, of the text up to the error.
\<close>

theorem encode_prints_document:
  assumes "cfg_ok cfg" "env_ok E" "heap_small cfg h" "value_small v"
  shows "case json_encode E h cfg [v] of
      Inr (cfg', private, r) \<Rightarrow>
        r = andthen (doc_of E h cfg 0 v) (\<lambda>d. Inr (print_doc d))
        \<and> cfg_ok cfg' \<and> (\<forall>s. private = Some s \<longrightarrow> sb_buf s = None \<and> sb_blocks s = 0)
    | Inl e \<Rightarrow>
        no_memory E e
        \<or> (e = UB Signed_overflow
            \<and> (\<forall>d. doc_of E h cfg 0 v = Inr d \<longrightarrow> 2 ^ 30 \<le> 6 * length (print_doc d) + 64)
            \<and> 2 ^ 30 \<le> 6 * length (fst (data_text E h cfg 0 v)) + 64)"
  using encode_meets_spec[OF assms] outcome_data[OF assms(1), of E h 0 v]
  by (cases "json_encode E h cfg [v]") (auto simp: encode_spec_def outcome_Inr)

text \<open>A table with an array part, shared by two fields of an object.\<close>

definition sample_heap :: lua_heap where
  "sample_heap a =
     (if a = 1 then [(LStr ''xs'', LTab 2), (LInt 7, LNil), (LStr ''ys'', LTab 2)]
      else if a = 2 then [(LInt 2, LBool True), (LInt 1, LStr [CHR 0x0A, DQ])] else [])"

lemma sample_env_ok: "env_ok sample_env"
  by (simp add: env_ok_def sample_env_def)

lemma sample_settings:
  "encode_sparse_convert sample_cfg = 0" "encode_sparse_ratio sample_cfg = 2"
  "encode_sparse_safe sample_cfg = 10" "encode_max_depth sample_cfg = 1000"
  "decode_max_depth sample_cfg = 1000" "encode_invalid_numbers sample_cfg = 0"
  "decode_invalid_numbers sample_cfg = 1" "encode_number_precision sample_cfg = 14"
  "encode_keep_buffer sample_cfg = 1"
proof -
  obtain b where b: "strbuf_init (e_alloc sample_env) 0 0 = Inr b"
    using sample_cfg_create by (auto simp: json_create_config_def andthen_eq_Inr)
  have "Inr sample_cfg = json_create_config sample_env" by (simp add: sample_cfg_create)
  then have c: "sample_cfg = \<lparr>ch2token = init_ch2token, escape2char = init_escape2char, encode_buf = b,
       encode_sparse_convert = 0, encode_sparse_ratio = 2, encode_sparse_safe = 10,
       encode_max_depth = 1000, encode_invalid_numbers = 0, encode_number_precision = 14,
       encode_keep_buffer = 1, decode_invalid_numbers = 1, decode_max_depth = 1000\<rparr>"
    unfolding json_create_config_def b
    by (simp add: DEFAULT_SPARSE_CONVERT_def
      DEFAULT_SPARSE_RATIO_def DEFAULT_SPARSE_SAFE_def DEFAULT_ENCODE_MAX_DEPTH_def
      DEFAULT_DECODE_MAX_DEPTH_def DEFAULT_ENCODE_INVALID_NUMBERS_def
      DEFAULT_DECODE_INVALID_NUMBERS_def DEFAULT_ENCODE_KEEP_BUFFER_def
      DEFAULT_ENCODE_NUMBER_PRECISION_def)
  show "encode_sparse_convert sample_cfg = 0" "encode_sparse_ratio sample_cfg = 2"
    "encode_sparse_safe sample_cfg = 10" "encode_max_depth sample_cfg = 1000"
    "decode_max_depth sample_cfg = 1000" "encode_invalid_numbers sample_cfg = 0"
    "decode_invalid_numbers sample_cfg = 1" "encode_number_precision sample_cfg = 14"
    "encode_keep_buffer sample_cfg = 1"
    unfolding c by simp_all
qed

lemma sample_heap_small: "heap_small sample_cfg sample_heap"
  by (simp add: heap_small_def table_small_def sample_heap_def value_small_def str_small_def
      array_key_def sample_settings INT_MAX_def LLONG_MIN_def LLONG_MAX_def)

theorem encode_prints_document_witness:
  "case json_encode sample_env sample_heap sample_cfg [LTab 1] of
     Inr (cfg', private, r) \<Rightarrow>
       r = andthen (doc_of sample_env sample_heap sample_cfg 0 (LTab 1)) (\<lambda>d. Inr (print_doc d))
       \<and> cfg_ok cfg' \<and> (\<forall>s. private = Some s \<longrightarrow> sb_buf s = None \<and> sb_blocks s = 0)
   | Inl e \<Rightarrow>
       no_memory sample_env e
       \<or> (e = UB Signed_overflow
           \<and> (\<forall>d. doc_of sample_env sample_heap sample_cfg 0 (LTab 1) = Inr d
                   \<longrightarrow> 2 ^ 30 \<le> 6 * length (print_doc d) + 64)
           \<and> 2 ^ 30 \<le> 6 * length (fst (data_text sample_env sample_heap sample_cfg 0 (LTab 1))) + 64)"
  by (rule encode_prints_document[OF sample_cfg_ok sample_env_ok sample_heap_small])
    (simp add: value_small_def)

text \<open>
  C26: Encoding a table that contains itself, directly or through other tables, or that leads to
  one that does, never returns a text. When nothing else in the tables it leads to is an error
  and the Lua stack has room for the levels up to the limit, the nesting error one level beyond
  the limit is raised; the only other ends are an exhausted allocator and more than about 170
  megabytes appended on the way down.
\<close>

theorem cycle_is_reported:
  assumes "cfg_ok cfg" "env_ok E" "heap_small cfg h"
    and "(refers cfg h)\<^sup>*\<^sup>* a b" "(refers cfg h)\<^sup>+\<^sup>+ b b"
    and "\<And>c. (refers cfg h)\<^sup>*\<^sup>* a c \<Longrightarrow> table_encodable cfg h c"
    and "\<And>d. d \<le> encode_max_depth cfg \<Longrightarrow> e_stack E d 3"
  shows "case json_encode E h cfg [LTab a] of
      Inr (cfg', private, r) \<Rightarrow> r = Inl (nesting_message (encode_max_depth cfg + 1))
    | Inl e \<Rightarrow>
        no_memory E e
        \<or> (e = UB Signed_overflow \<and> 2 ^ 30 \<le> 6 * length (fst (data_text E h cfg 0 (LTab a))) + 64)"
proof -
  obtain e where e: "doc_of E h cfg 0 (LTab a) = Inl e"
    using no_doc_of_cycle[OF assms(4,5)] by (cases "doc_of E h cfg 0 (LTab a)") auto
  have "e = nesting_message (encode_max_depth cfg + 1)"
    using assms(1) by (intro nesting_error_only[OF assms(7,6) _ e]) (simp_all add: cfg_ok_def range_ok_def)
  then have "outcome (data_text E h cfg 0 (LTab a)) = Inl (nesting_message (encode_max_depth cfg + 1))"
    using outcome_data[OF assms(1), of E h 0 "LTab a"] e by simp
  then show ?thesis using encode_meets_spec[OF assms(1-3), of "LTab a"]
    by (cases "json_encode E h cfg [LTab a]") (auto simp: encode_spec_def value_small_def)
qed

text \<open>An object with a field that holds an array that holds the object.\<close>

definition cycle_env :: env where
  "cycle_env = sample_env\<lparr>e_stack := (\<lambda>d n. d \<le> 1000)\<rparr>"

definition cycle_heap :: lua_heap where
  "cycle_heap a =
     (if a = 0 then [(LStr ''name'', LStr ''x''), (LStr ''next'', LTab 1)]
      else [(LInt 1, LBool True), (LInt 2, LTab 0)])"

lemma cycle_shapes:
  "table_shape sample_cfg 0 (cycle_heap 0) = Inr None"
  "a \<noteq> 0 \<Longrightarrow> table_shape sample_cfg a (cycle_heap a) = Inr (Some 2)"
  by (simp_all add: table_shape_def cycle_heap_def array_key_def table_max_def Let_def sample_settings)

lemma cycle_refers: "refers sample_cfg cycle_heap 0 1" "refers sample_cfg cycle_heap 1 0"
proof -
  have "lua_rawgeti cycle_heap 1 2 = LTab 0" by (simp add: lua_rawgeti_def cycle_heap_def)
  moreover have "(2::int) \<in> {1..2}" by simp
  ultimately have "LTab 0 \<in> lua_rawgeti cycle_heap 1 ` {1..2}" by (metis imageI)
  then show "refers sample_cfg cycle_heap 1 0" by (simp add: refers_def sub_values_def cycle_shapes)
qed (simp add: refers_def sub_values_def cycle_shapes, simp add: cycle_heap_def)

lemma cycle_encodable: "table_encodable sample_cfg cycle_heap c"
proof (cases "c = 0")
  case True
  then show ?thesis by (simp add: table_encodable_def cycle_shapes)
      (simp add: cycle_heap_def key_text_def encodable_def)
next
  case False
  then show ?thesis by (simp add: table_encodable_def cycle_shapes)
      (simp add: cycle_heap_def key_text_def encodable_def number_text_def)
qed

theorem cycle_is_reported_witness:
  "case json_encode cycle_env cycle_heap sample_cfg [LTab 0] of
     Inr (cfg', private, r) \<Rightarrow> r = Inl (nesting_message 1001)
   | Inl e \<Rightarrow>
       no_memory cycle_env e
       \<or> (e = UB Signed_overflow
           \<and> 2 ^ 30 \<le> 6 * length (fst (data_text cycle_env cycle_heap sample_cfg 0 (LTab 0))) + 64)"
proof -
  have m: "encode_max_depth sample_cfg + 1 = 1001" by (simp add: sample_settings)
  have "env_ok cycle_env" by (simp add: env_ok_def cycle_env_def sample_env_def)
  moreover have "heap_small sample_cfg cycle_heap"
    by (simp add: heap_small_def table_small_def cycle_heap_def value_small_def str_small_def array_key_def
        sample_settings INT_MAX_def LLONG_MIN_def LLONG_MAX_def)
  moreover have "(refers sample_cfg cycle_heap)\<^sup>+\<^sup>+ 0 0"
    using cycle_refers by (meson tranclp.r_into_trancl tranclp.trancl_into_trancl)
  ultimately show ?thesis
    unfolding m[symmetric]
    by (intro cycle_is_reported[OF sample_cfg_ok, where b = 0])
      (simp_all add: cycle_encodable cycle_env_def sample_settings)
qed

text \<open>
  C37: The room for a string is computed as \<open>len * 6 + 2\<close> and passed as an \<open>int\<close>: for a string of
  357913941 to 715827882 characters it is negative, no room is made, and unless the buffer is
  already that large the unchecked appends write past its end.
\<close>

theorem long_string_overruns:
  assumes "sb_rep s cs" "357913941 \<le> length str" "length str \<le> 715827882"
    and "\<forall>c \<in> set str. char2escape c = None" "sb_room s < int (length str)"
  shows "json_append_string A s str = Inl (UB Oob_write)"
proof -
  let ?n = "int (length str) * 6 + 2"
  have "to_size ?n = ?n" using assms(3) by (intro to_size_id) simp_all
  moreover have "to_int ?n < 0"
  proof -
    have "(?n + 2147483648 - 4294967296) mod 4294967296 = ?n + 2147483648 - 4294967296"
      using assms(2,3) by (intro mod_pos_pos_trivial) linarith+
    then have "(?n + 2147483648) mod 4294967296 = ?n + 2147483648 - 4294967296"
      by (simp only: minus_mod_self2)
    then show ?thesis using assms(3) unfolding to_int_alt by linarith
  qed
  ultimately have neg: "to_int (to_size ?n) < 0" by simp
  have e: "strbuf_ensure_empty_length A s (to_int (to_size ?n)) = Inr s"
    using rep_facts(2,4)[OF assms(1)] neg by (simp add: strbuf_ensure_empty_length_def)
  obtain m where m: "sb_buf s = Some m" "int (length m) = sb_size s"
    using assms(1) by (auto simp: sb_rep_def elim: sb_okD)
  have ok: "0 \<le> sb_length s" "sb_length s < sb_size s" "sb_size s \<le> INT_MAX"
    using assms(1) by (simp_all add: sb_rep_def sb_ok_def)
  let ?m = "take (nat (sb_length s)) m @ Some DQ # drop (Suc (nat (sb_length s))) m"
  let ?s = "s\<lparr>sb_buf := Some ?m, sb_length := sb_length s + 1\<rparr>"
  have lm: "length ?m = length m" using m ok by simp
  have q: "strbuf_append_char_unsafe s DQ = Inr ?s"
    using m ok by (simp add: strbuf_append_char_unsafe_def poke_mem_def int_ok_iff INT_MAX_def nat_less_iff)
  have "append_escaped A ?s str = Inl (UB Oob_write)"
    by (rule append_escaped_overruns[OF assms(4), of ?s ?m])
      (use m ok lm assms(5) in \<open>simp_all add: sb_room_def\<close>)
  then show ?thesis unfolding json_append_string_def e andthen_simps q by simp
qed

theorem long_string_overruns_witness:
  "json_append_string (\<lambda>_. True) sample_buf (replicate (nat 357913941) (CHR ''a'')) = Inl (UB Oob_write)"
proof -
  define str where "str = replicate (nat 357913941) (CHR ''a'')"
  have l: "length str = 357913941" unfolding str_def length_replicate by simp
  have "char2escape (CHR ''a'') = None" by code_simp
  then have e: "\<forall>c \<in> set str. char2escape c = None" unfolding str_def by auto
  have r: "sb_room sample_buf < int (length str)" unfolding l sb_room_def sample_buf_def by simp
  have "json_append_string (\<lambda>_. True) sample_buf str = Inl (UB Oob_write)"
    by (rule long_string_overruns[OF sample_rep(1) _ _ e r]) (simp_all add: l)
  then show ?thesis by (simp only: str_def)
qed

text \<open>The keys the scan looks at: up to the first that is not a positive integer.\<close>

definition array_prefix :: "(lua \<times> lua) list \<Rightarrow> (lua \<times> lua) list" where
  "array_prefix ps = takeWhile (\<lambda>p. array_key (fst p) \<noteq> None) ps"

definition key_too_large :: "(lua \<times> lua) list \<Rightarrow> bool" where
  "key_too_large ps \<longleftrightarrow> list_ex (\<lambda>p. INT_MAX < the (array_key (fst p))) (array_prefix ps)"

lemma array_scan_outcome:
  assumes "0 \<le> items" "items + int (length ps) \<le> INT_MAX" "mx \<le> INT_MAX"
  shows "array_scan ps mx items =
    (if key_too_large ps then Inl (UB Float_to_int)
     else if list_all (\<lambda>(k, v). array_key k \<noteq> None) ps
     then Inr (Some (fold (\<lambda>(k, v) m. max (the (array_key k)) m) ps mx, items + int (length ps)))
     else Inr None)"
  using assms
proof (induction ps arbitrary: mx items)
  case (Cons p ps)
  obtain k v where p: "p = (k, v)" by fastforce
  show ?case
  proof (cases "array_key k")
    case (Some n)
    have o: "int_ok (items + 1)" using Cons.prems(1,2) by (simp add: int_ok_iff INT_MAX_def)
    show ?thesis
    proof (cases "n \<le> INT_MAX")
      case True
      then have "array_scan (p # ps) mx items = array_scan ps (max n mx) (items + 1)"
        using p Some o by (simp add: max_def)
      then show ?thesis using Cons p Some True
        by (simp add: add.assoc key_too_large_def array_prefix_def)
    next
      case False
      then show ?thesis using p Some Cons.prems(3) by (simp add: key_too_large_def array_prefix_def)
    qed
  qed (simp add: p key_too_large_def array_prefix_def)
qed (simp add: key_too_large_def array_prefix_def)

text \<open>
  C38: Deciding whether a table is an array crashes exactly in two cases, whatever the table: some
  positive integer key met before the first other key does not fit in an \<open>int\<close> (it is converted
  from a double), or all keys are positive integers that fit and the number of entries times the
  configured ratio does not. Both are undefined behaviour.
\<close>

theorem array_test_undefined:
  assumes "cfg_ok cfg" "int (length ps) \<le> INT_MAX"
  shows "lua_array_length cfg a ps json = Inl (Crash e) \<longleftrightarrow>
      (e = UB Float_to_int \<and> key_too_large ps
       \<or> e = UB Signed_overflow \<and> \<not> key_too_large ps
         \<and> list_all (\<lambda>(k, v). array_key k \<noteq> None) ps
         \<and> INT_MAX < int (length ps) * encode_sparse_ratio cfg)"
proof -
  have scan: "array_scan ps 0 0 =
    (if key_too_large ps then Inl (UB Float_to_int)
     else if list_all (\<lambda>(k, v). array_key k \<noteq> None) ps
     then Inr (Some (table_max ps, int (length ps))) else Inr None)"
    using array_scan_outcome[of 0 ps 0] assms(2) by (simp add: table_max_def INT_MAX_def)
  have r: "0 \<le> encode_sparse_ratio cfg" using assms(1) by (simp add: cfg_ok_def range_ok_def)
  then have "0 \<le> int (length ps) * encode_sparse_ratio cfg" by simp
  then have o: "int_ok (int (length ps) * encode_sparse_ratio cfg) \<longleftrightarrow>
      \<not> INT_MAX < int (length ps) * encode_sparse_ratio cfg"
    by (auto simp: int_ok_iff INT_MAX_def)
  show ?thesis using r o
    by (auto simp: lua_array_length_def scan crash_def c_int_def json_encode_exception_def INT_MAX_def)
qed

text \<open>The key 2 ^ 31 behind an ordinary one; two entries with a ratio of 2 ^ 30.\<close>

theorem array_test_undefined_witness:
  "lua_array_length sample_cfg 1 [(LInt 7, LNil), (LInt 2147483648, LNil), (LStr ''x'', LNil)] sample_buf
     = Inl (Crash (UB Float_to_int))
   \<and> lua_array_length (sample_cfg\<lparr>encode_sparse_ratio := 1073741824\<rparr>) 1 [(LInt 1, LNil), (LInt 2, LNil)]
       sample_buf = Inl (Crash (UB Signed_overflow))"
proof
  have "cfg_ok (sample_cfg\<lparr>encode_sparse_ratio := 1073741824\<rparr>)"
    using sample_cfg_ok by (simp add: cfg_ok_def range_ok_def INT_MAX_def)
  then show "lua_array_length (sample_cfg\<lparr>encode_sparse_ratio := 1073741824\<rparr>) 1 [(LInt 1, LNil), (LInt 2, LNil)]
       sample_buf = Inl (Crash (UB Signed_overflow))"
    by (subst array_test_undefined) (simp_all add: INT_MAX_def key_too_large_def array_prefix_def array_key_def)
qed (subst array_test_undefined[OF sample_cfg_ok];
     simp add: INT_MAX_def key_too_large_def array_prefix_def array_key_def)

end
