(* ===== verification/Json_Decode.thy ===== *)
theory Json_Decode
  imports Json_Doc
begin

text \<open>
  The decoder of \<open>3rd/lua-cjson/lua_cjson.c\<close>. \<open>p_ptr\<close> is what \<open>json->ptr\<close> points at: the rest
  of the Lua string, after which there is a NUL; a read beyond that NUL is an error value. The
  offset \<open>json->ptr - json->data\<close> is the difference of the lengths. Values are built as trees
  (\<open>ltree\<close>) where the C code builds them on the Lua stack.
\<close>

section \<open>State\<close>

record json_parse =
  p_len :: nat               \<comment> \<open>the length of \<open>data\<close>\<close>
  p_ptr :: string
  p_tmp :: strbuf
  p_depth :: int             \<comment> \<open>\<open>current_depth\<close>\<close>

datatype token_value =
    V_none
  | V_tmp                    \<comment> \<open>a string: a pointer into \<open>json->tmp\<close>\<close>
  | V_error string
  | V_number double
  | V_integer int
  | V_boolean bool

record json_token =
  tk_type :: json_token_type
  tk_index :: int
  tk_value :: token_value
  tk_len :: int              \<comment> \<open>\<open>string_len\<close>\<close>

definition peek_at :: "string \<Rightarrow> nat \<Rightarrow> char res" where
  "peek_at p k =
     (if k < length p then Inr (p ! k) else if k = length p then Inr NUL else Inl (UB Oob_read))"

definition advance :: "nat \<Rightarrow> json_parse \<Rightarrow> json_parse res" where
  "advance k json =
     (if k \<le> length (p_ptr json) then Inr (json\<lparr>p_ptr := drop k (p_ptr json)\<rparr>) else Inl (UB Oob_read))"

definition p_index :: "json_parse \<Rightarrow> int" where
  "p_index json = to_int (int (p_len json) - int (length (p_ptr json)))"

section \<open>Unicode escapes\<close>

definition hexdigit2int :: "char \<Rightarrow> int" where
  "hexdigit2int hex =
     (if 48 \<le> sc hex \<and> sc hex \<le> 57 then sc hex - 48
      else (let h = sc (char_of_int (sc hex OR 0x20))
            in if 97 \<le> h \<and> h \<le> 102 then 10 + h - 97 else -1))"

fun hex_digits :: "nat \<Rightarrow> string \<Rightarrow> nat \<Rightarrow> int list option res" where
  \<comment> \<open>the loop over \<open>digit[i]\<close>, which stops at the first invalid digit\<close>
  "hex_digits 0 p k = Inr (Some [])"
| "hex_digits (Suc n) p k =
     andthen (peek_at p k) (\<lambda>c.
     let d = hexdigit2int c
     in if d < 0 then Inr None
        else andthen (hex_digits n p (Suc k)) (\<lambda>r. Inr (map_option (\<lambda>ds. d # ds) r)))"

definition decode_hex4 :: "string \<Rightarrow> nat \<Rightarrow> int res" where
  \<comment> \<open>the four characters from offset \<open>k\<close>\<close>
  "decode_hex4 p k =
     andthen (hex_digits 4 p k) (\<lambda>r.
     Inr (case r of
            Some [d0, d1, d2, d3] \<Rightarrow> push_bit 12 d0 + push_bit 8 d1 + push_bit 4 d2 + d3
          | _ \<Rightarrow> -1))"

definition codepoint_to_utf8 :: "int \<Rightarrow> string" where
  \<comment> \<open>the bytes written to \<open>utf8\<close>; the value returned is their number\<close>
  "codepoint_to_utf8 codepoint =
     (if codepoint \<le> 0x7F then [char_of_int codepoint]
      else if codepoint \<le> 0x7FF then
        [char_of_int (drop_bit 6 codepoint OR 0xC0), char_of_int ((codepoint AND 0x3F) OR 0x80)]
      else if codepoint \<le> 0xFFFF then
        [char_of_int (drop_bit 12 codepoint OR 0xE0),
         char_of_int ((drop_bit 6 codepoint AND 0x3F) OR 0x80),
         char_of_int ((codepoint AND 0x3F) OR 0x80)]
      else if codepoint \<le> 0x1FFFFF then
        [char_of_int (drop_bit 18 codepoint OR 0xF0),
         char_of_int ((drop_bit 12 codepoint AND 0x3F) OR 0x80),
         char_of_int ((drop_bit 6 codepoint AND 0x3F) OR 0x80),
         char_of_int ((codepoint AND 0x3F) OR 0x80)]
      else [])"

definition escape_codepoint :: "string \<Rightarrow> (int \<times> nat) option res" where
  \<comment> \<open>the code point the escape at \<open>p\<close> stands for and \<open>escape_len\<close>; \<open>None\<close> for \<open>return -1\<close>\<close>
  "escape_codepoint p =
     andthen (decode_hex4 p 2) (\<lambda>codepoint.
     if codepoint < 0 then Inr None
     else if codepoint AND 0xF800 = 0xD800 then
       (if codepoint AND 0x400 \<noteq> 0 then Inr None
        else andthen (peek_at p 6) (\<lambda>c. if c \<noteq> BS then Inr None
        else andthen (peek_at p 7) (\<lambda>c. if c \<noteq> CHR ''u'' then Inr None
        else andthen (decode_hex4 p 8) (\<lambda>surrogate_low.
        if surrogate_low < 0 then Inr None
        else if surrogate_low AND 0xFC00 \<noteq> 0xDC00 then Inr None
        else Inr (Some ((push_bit 10 (codepoint AND 0x3FF) OR (surrogate_low AND 0x3FF)) + 0x10000, 12))))))
     else Inr (Some (codepoint, 6)))"

definition json_append_unicode_escape :: "json_parse \<Rightarrow> (json_parse \<times> bool) res" where
  \<comment> \<open>\<open>True\<close> for success\<close>
  "json_append_unicode_escape json =
     andthen (escape_codepoint (p_ptr json)) (\<lambda>r.
     (case r of
        None \<Rightarrow> Inr (json, False)
      | Some (codepoint, escape_len) \<Rightarrow>
          (let utf8 = codepoint_to_utf8 codepoint; len = int (length utf8) in
           if len = 0 then Inr (json, False)
           else andthen (strbuf_append_mem_unsafe (p_tmp json) utf8 len) (\<lambda>tmp.
                andthen (advance escape_len (json\<lparr>p_tmp := tmp\<rparr>)) (\<lambda>json. Inr (json, True))))))"

section \<open>Tokens\<close>

definition error_token :: "json_parse \<Rightarrow> string \<Rightarrow> json_token" where
  \<comment> \<open>\<open>json_set_token_error\<close>\<close>
  "error_token json errtype =
     \<lparr>tk_type = T_ERROR, tk_index = p_index json, tk_value = V_error errtype, tk_len = 0\<rparr>"

definition put_char :: "char \<Rightarrow> json_parse \<Rightarrow> json_parse res" where
  \<comment> \<open>append to \<open>json->tmp\<close> and step over one character of the input\<close>
  "put_char ch json =
     andthen (strbuf_append_char_unsafe (p_tmp json) ch) (\<lambda>tmp. advance 1 (json\<lparr>p_tmp := tmp\<rparr>))"

lemma advance_shorter: "advance k json = Inr json' \<Longrightarrow> 0 < k \<Longrightarrow> length (p_ptr json') < length (p_ptr json)"
  by (auto simp: advance_def split: if_splits)

lemma put_char_shorter: "put_char ch json = Inr json' \<Longrightarrow> length (p_ptr json') < length (p_ptr json)"
  by (auto simp: put_char_def andthen_eq_Inr dest!: advance_shorter)

lemma escape_len_pos: "escape_codepoint p = Inr (Some (c, n)) \<Longrightarrow> n = 6 \<or> n = 12"
  by (auto simp: escape_codepoint_def andthen_eq_Inr split: if_splits)

lemma unicode_escape_shorter:
  assumes "json_append_unicode_escape json = Inr (json', True)"
  shows "length (p_ptr json') < length (p_ptr json)"
proof -
  obtain r where r: "escape_codepoint (p_ptr json) = Inr r"
    using assms by (auto simp: json_append_unicode_escape_def andthen_eq_Inr)
  then obtain c n where c: "r = Some (c, n)"
    using assms by (cases r) (auto simp: json_append_unicode_escape_def)
  then have "0 < n" using escape_len_pos r by fastforce
  moreover obtain tmp where "advance n (json\<lparr>p_tmp := tmp\<rparr>) = Inr json'"
    using assms r c by (auto simp: json_append_unicode_escape_def andthen_eq_Inr Let_def split: if_splits)
  ultimately show ?thesis by (auto dest: advance_shorter)
qed

function string_loop :: "json_config \<Rightarrow> json_parse \<Rightarrow> (json_parse \<times> string option) res" where
  \<comment> \<open>the loop of \<open>json_next_string_token\<close>; \<open>Some e\<close> when it sets the error \<open>e\<close>\<close>
  "string_loop cfg json =
     andthen (peek_at (p_ptr json) 0) (\<lambda>ch.
     if ch = DQ then Inr (json, None)
     else if ch = NUL then Inr (json, Some ''unexpected end of string'')
     else if ch = BS then
       andthen (peek_at (p_ptr json) 1) (\<lambda>ch.
       let ch = escape2char cfg ch in
       if ch = CHR ''u'' then
         andthen (json_append_unicode_escape json) (\<lambda>(json', ok).
         if ok then string_loop cfg json' else Inr (json', Some ''invalid unicode escape code''))
       else if ch = NUL then Inr (json, Some ''invalid escape code'')
       else andthen (advance 1 json) (\<lambda>json'. andthen (put_char ch json') (\<lambda>json'. string_loop cfg json')))
     else andthen (put_char ch json) (\<lambda>json'. string_loop cfg json'))"
  by pat_completeness auto

termination
proof (relation "measure (\<lambda>(cfg, json). length (p_ptr json))")
qed (auto dest!: put_char_shorter unicode_escape_shorter advance_shorter)

declare string_loop.simps [simp del]

definition json_next_string_token :: "json_config \<Rightarrow> json_parse \<Rightarrow> int \<Rightarrow> (json_parse \<times> json_token) res" where
  \<comment> \<open>the last argument is the token's index\<close>
  "json_next_string_token cfg json index =
     andthen (advance 1 json) (\<lambda>json.
     let json = json\<lparr>p_tmp := strbuf_reset (p_tmp json)\<rparr> in
     andthen (string_loop cfg json) (\<lambda>(json, err).
     (case err of
        Some e \<Rightarrow> Inr (json, error_token json e)
      | None \<Rightarrow>
          andthen (advance 1 json) (\<lambda>json.
          andthen (strbuf_ensure_null (p_tmp json)) (\<lambda>tmp.
          Inr (json\<lparr>p_tmp := tmp\<rparr>,
               \<lparr>tk_type = T_STRING, tk_index = index, tk_value = V_tmp, tk_len = snd (strbuf_string tmp)\<rparr>))))))"

definition json_is_invalid_number :: "json_parse \<Rightarrow> bool res" where
  "json_is_invalid_number json =
     (let p = p_ptr json in
      andthen (peek_at p 0) (\<lambda>c.
      if c = CHR ''+'' then Inr True
      else (let k = (if c = CHR ''-'' then 1 else 0) in
        andthen (peek_at p k) (\<lambda>c.
        if c = CHR ''0'' then
          andthen (peek_at p (k + 1)) (\<lambda>ch2.
          Inr (sc ch2 OR 0x20 = 120 \<or> (48 \<le> sc ch2 \<and> sc ch2 \<le> 57)))
        else if sc c \<le> 57 then Inr False
        else Inr (strncasecmp_eq (drop k p) ''inf'' \<or> strncasecmp_eq (drop k p) ''nan'')))))"

definition json_next_number_token :: "env \<Rightarrow> json_parse \<Rightarrow> int \<Rightarrow> (json_parse \<times> json_token) res" where
  "json_next_number_token E json index =
     (let (i, n) = strtoll (p_ptr json) in
      if n = 0 then Inr (json, error_token json ''invalid number'')
      else andthen (peek_at (p_ptr json) n) (\<lambda>c.
        if c = CHR ''.'' \<or> c = CHR ''e'' \<or> c = CHR ''E''
        then andthen (fpconv_strtod (e_alloc E) (e_conv E) (e_point E) (p_ptr json)) (\<lambda>(x, n).
             andthen (advance n json) (\<lambda>json.
             Inr (json, \<lparr>tk_type = T_NUMBER, tk_index = index, tk_value = V_number x, tk_len = 0\<rparr>)))
        else andthen (advance n json) (\<lambda>json.
             Inr (json, \<lparr>tk_type = T_INTEGER, tk_index = index, tk_value = V_integer i, tk_len = 0\<rparr>))))"

fun eat_whitespace :: "(char \<Rightarrow> json_token_type) \<Rightarrow> string \<Rightarrow> string res" where
  "eat_whitespace tok [] = (if tok NUL = T_WHITESPACE then Inl (UB Oob_read) else Inr [])"
| "eat_whitespace tok (c # p) = (if tok c = T_WHITESPACE then eat_whitespace tok p else Inr (c # p))"

definition plain_token :: "json_token_type \<Rightarrow> int \<Rightarrow> token_value \<Rightarrow> json_token" where
  "plain_token t index v = \<lparr>tk_type = t, tk_index = index, tk_value = v, tk_len = 0\<rparr>"

definition json_next_token :: "env \<Rightarrow> json_config \<Rightarrow> json_parse \<Rightarrow> (json_parse \<times> json_token) res" where
  "json_next_token E cfg json =
     andthen (eat_whitespace (ch2token cfg) (p_ptr json)) (\<lambda>p.
     let json = json\<lparr>p_ptr := p\<rparr> in
     andthen (peek_at p 0) (\<lambda>ch.
     let type = ch2token cfg ch; index = p_index json in
     if type = T_ERROR then Inr (json, error_token json ''invalid token'')
     else if type = T_END then Inr (json, plain_token T_END index V_none)
     else if type \<noteq> T_UNKNOWN then
       andthen (advance 1 json) (\<lambda>json. Inr (json, plain_token type index V_none))
     else if ch = DQ then json_next_string_token cfg json index
     else if ch = CHR ''-'' \<or> (48 \<le> uc ch \<and> uc ch \<le> 57) then
       andthen (if decode_invalid_numbers cfg = 0 then json_is_invalid_number json else Inr False) (\<lambda>bad.
       if bad then Inr (json, error_token json ''invalid number'')
       else json_next_number_token E json index)
     else if strncmp_eq p ''true'' then
       andthen (advance 4 json) (\<lambda>json. Inr (json, plain_token T_BOOLEAN index (V_boolean True)))
     else if strncmp_eq p ''false'' then
       andthen (advance 5 json) (\<lambda>json. Inr (json, plain_token T_BOOLEAN index (V_boolean False)))
     else if strncmp_eq p ''null'' then
       andthen (advance 4 json) (\<lambda>json. Inr (json, plain_token T_NULL index V_none))
     else
       andthen (if decode_invalid_numbers cfg \<noteq> 0 then json_is_invalid_number json else Inr False) (\<lambda>num.
       if num then json_next_number_token E json index
       else Inr (json, error_token json ''invalid token''))))"

section \<open>Parsing\<close>

definition json_throw_parse_error :: "json_parse \<Rightarrow> string \<Rightarrow> json_token \<Rightarrow> jerr + 'a" where
  "json_throw_parse_error json expected token =
     (let tmp = strbuf_free (p_tmp json);
          found = (if tk_type token = T_ERROR
                   then (case tk_value token of V_error e \<Rightarrow> Inr e | _ \<Rightarrow> Inl (Crash (UB Uninit_read)))
                   else Inr (json_token_type_name (tk_type token)))
      in andthen found (\<lambda>found.
         andthen (crash (c_int (tk_index token + 1))) (\<lambda>n.
         Inl (Throw (Lua_error (''Expected '' @ expected @ '' but found '' @ found @ '' at character '' @ lld_text n)) tmp))))"

definition json_decode_ascend :: "json_parse \<Rightarrow> json_parse" where
  "json_decode_ascend json = json\<lparr>p_depth := p_depth json - 1\<rparr>"

definition json_decode_descend :: "env \<Rightarrow> json_config \<Rightarrow> json_parse \<Rightarrow> int \<Rightarrow> jerr + json_parse" where
  "json_decode_descend E cfg json slots =
     andthen (crash (c_int (p_depth json + 1))) (\<lambda>d.
     let json = json\<lparr>p_depth := d\<rparr> in
     if d \<le> decode_max_depth cfg \<and> e_stack E d slots then Inr json
     else Inl (Throw (Lua_error (''Found too many nested data structures ('' @ lld_text d
                 @ '') at character '' @ lld_text (p_index json)))
                (strbuf_free (p_tmp json))))"

definition push_string :: "json_parse \<Rightarrow> json_token \<Rightarrow> string res" where
  \<comment> \<open>\<open>lua_pushlstring(l, token.value.string, token.string_len)\<close>\<close>
  "push_string json token =
     (case tk_value token of
        V_tmp \<Rightarrow> peek_mem (sb_buf (p_tmp json)) (tk_len token)
      | _ \<Rightarrow> Inl (UB Uninit_read))"

definition next_token :: "env \<Rightarrow> json_config \<Rightarrow> json_parse \<Rightarrow> jerr + (json_parse \<times> json_token)" where
  "next_token E cfg json = crash (json_next_token E cfg json)"

text \<open>
  The three mutually recursive functions. The contexts take \<open>json_process_value\<close> at the next
  level as an argument; \<open>json_process_value\<close> has fuel for the levels, and the loop of a context
  for its iterations, each of which consumes input. The fuel suffices: see \<open>decode_safe\<close>.
\<close>

type_synonym value_parser = "json_parse \<Rightarrow> json_token \<Rightarrow> jerr + (json_parse \<times> ltree)"

primrec object_loop ::
  "nat \<Rightarrow> env \<Rightarrow> json_config \<Rightarrow> value_parser \<Rightarrow> json_parse \<Rightarrow> json_token \<Rightarrow> (ltree \<times> ltree) list
     \<Rightarrow> jerr + (json_parse \<times> ltree)" where
  "object_loop 0 E cfg process_value json token tab = Inl (Crash Diverge)"
| "object_loop (Suc n) E cfg process_value json token tab =
     (if tk_type token \<noteq> T_STRING then json_throw_parse_error json ''object key string'' token
      else andthen (crash (push_string json token)) (\<lambda>key.
      andthen (next_token E cfg json) (\<lambda>(json, token).
      if tk_type token \<noteq> T_COLON then json_throw_parse_error json ''colon'' token
      else andthen (next_token E cfg json) (\<lambda>(json, token).
      andthen (process_value json token) (\<lambda>(json, v).
      let tab = tab_set (TStr key) v tab in
      andthen (next_token E cfg json) (\<lambda>(json, token).
      if tk_type token = T_OBJ_END then Inr (json_decode_ascend json, TTab tab)
      else if tk_type token \<noteq> T_COMMA then json_throw_parse_error json ''comma or object end'' token
      else andthen (next_token E cfg json) (\<lambda>(json, token).
      object_loop n E cfg process_value json token tab)))))))"

definition json_parse_object_context ::
  "env \<Rightarrow> json_config \<Rightarrow> value_parser \<Rightarrow> json_parse \<Rightarrow> jerr + (json_parse \<times> ltree)" where
  "json_parse_object_context E cfg process_value json =
     andthen (json_decode_descend E cfg json 3) (\<lambda>json.
     andthen (next_token E cfg json) (\<lambda>(json, token).
     if tk_type token = T_OBJ_END then Inr (json_decode_ascend json, TTab [])
     else object_loop (length (p_ptr json) + 1) E cfg process_value json token []))"

primrec array_loop ::
  "nat \<Rightarrow> env \<Rightarrow> json_config \<Rightarrow> value_parser \<Rightarrow> json_parse \<Rightarrow> json_token \<Rightarrow> int \<Rightarrow> (ltree \<times> ltree) list
     \<Rightarrow> jerr + (json_parse \<times> ltree)" where
  "array_loop 0 E cfg process_value json token i tab = Inl (Crash Diverge)"
| "array_loop (Suc n) E cfg process_value json token i tab =
     andthen (process_value json token) (\<lambda>(json, v).
     let tab = tab_set (TInt i) v tab in
     andthen (next_token E cfg json) (\<lambda>(json, token).
     if tk_type token = T_ARR_END then Inr (json_decode_ascend json, TTab tab)
     else if tk_type token \<noteq> T_COMMA then json_throw_parse_error json ''comma or array end'' token
     else andthen (next_token E cfg json) (\<lambda>(json, token).
     andthen (crash (c_int (i + 1))) (\<lambda>i.
     array_loop n E cfg process_value json token i tab))))"

definition json_parse_array_context ::
  "env \<Rightarrow> json_config \<Rightarrow> value_parser \<Rightarrow> json_parse \<Rightarrow> jerr + (json_parse \<times> ltree)" where
  "json_parse_array_context E cfg process_value json =
     andthen (json_decode_descend E cfg json 2) (\<lambda>json.
     andthen (next_token E cfg json) (\<lambda>(json, token).
     if tk_type token = T_ARR_END then Inr (json_decode_ascend json, TTab [])
     else array_loop (length (p_ptr json) + 1) E cfg process_value json token 1 []))"

definition token_payload :: "json_token \<Rightarrow> json_parse \<Rightarrow> jerr + (json_parse \<times> ltree)" where
  \<comment> \<open>the member of the union the token's type selects\<close>
  "token_payload token json =
     (let bad = Inl (Crash (UB Uninit_read)) in
     (case tk_value token of
        V_number x \<Rightarrow> if tk_type token = T_NUMBER then Inr (json, TNum x) else bad
      | V_integer i \<Rightarrow> if tk_type token = T_INTEGER then Inr (json, TInt i) else bad
      | V_boolean b \<Rightarrow> if tk_type token = T_BOOLEAN then Inr (json, TBool b) else bad
      | _ \<Rightarrow> bad))"

primrec json_process_value :: "nat \<Rightarrow> env \<Rightarrow> json_config \<Rightarrow> value_parser" where
  "json_process_value 0 E cfg = (\<lambda>json token. Inl (Crash Diverge))"
| "json_process_value (Suc n) E cfg = (\<lambda>json token.
     (case tk_type token of
        T_STRING \<Rightarrow> andthen (crash (push_string json token)) (\<lambda>s. Inr (json, TStr s))
      | T_NUMBER \<Rightarrow> token_payload token json
      | T_INTEGER \<Rightarrow> token_payload token json
      | T_BOOLEAN \<Rightarrow> token_payload token json
      | T_OBJ_BEGIN \<Rightarrow> json_parse_object_context E cfg (json_process_value n E cfg) json
      | T_ARR_BEGIN \<Rightarrow> json_parse_array_context E cfg (json_process_value n E cfg) json
      | T_NULL \<Rightarrow> Inr (json, TNull)
      | _ \<Rightarrow> json_throw_parse_error json ''value'' token))"

definition decode_fuel :: "nat \<Rightarrow> nat" where "decode_fuel len = len + 1"

definition json_decode_run :: "env \<Rightarrow> json_config \<Rightarrow> string \<Rightarrow> strbuf \<Rightarrow> jerr + (json_parse \<times> ltree)" where
  \<comment> \<open>from the first token to the check that there is no more input\<close>
  "json_decode_run E cfg data tmp =
     (let json = \<lparr>p_len = length data, p_ptr = data, p_tmp = tmp, p_depth = 0\<rparr> in
     andthen (next_token E cfg json) (\<lambda>(json, token).
     andthen (json_process_value (decode_fuel (length data)) E cfg json token) (\<lambda>(json, v).
     andthen (next_token E cfg json) (\<lambda>(json, token).
     if tk_type token \<noteq> T_END then json_throw_parse_error json ''the end'' token
     else Inr (json, v)))))"

definition json_decode :: "env \<Rightarrow> json_config \<Rightarrow> lua list \<Rightarrow> (strbuf option \<times> (lua_error + ltree)) res" where
  \<comment> \<open>what is left of the temporary buffer (\<open>None\<close>: released or never made), and the result\<close>
  "json_decode E cfg args =
     (case args of
        [v] \<Rightarrow>
          (case luaL_checklstring E 1 v of
             Inl e \<Rightarrow> Inr (None, Inl e)
           | Inr data \<Rightarrow>
               if 2 \<le> length data \<and> (data ! 0 = NUL \<or> data ! 1 = NUL)
               then Inr (None, Inl (Lua_error ''JSON parser does not support UTF-16 or UTF-32''))
               else andthen (strbuf_new (e_alloc E) (to_int (int (length data)))) (\<lambda>tmp.
                 (case json_decode_run E cfg data tmp of
                    Inl (Crash e) \<Rightarrow> Inl e
                  | Inl (Throw err b) \<Rightarrow> Inr (b, Inl err)
                  | Inr (json, v) \<Rightarrow> Inr (strbuf_free (p_tmp json), Inr v))))
      | _ \<Rightarrow> Inr (None, Inl (Arg_error 1 ''expected 1 argument'')))"

end
