(* ===== verification/Json_Module.thy ===== *)
theory Json_Module
  imports Json_Encode Json_Decode
begin

text \<open>
  The module tables of \<open>lua_cjson.c\<close>: \<open>lua_cjson_new\<close> and \<open>lua_cjson_safe_new\<close>, which make a
  configuration and a table of functions that hold it as their upvalue, the protected calls of
  the safe module, and the calls a script can make on the tables it has (a step relation with
  an invariant).
\<close>

section \<open>Values of a module table\<close>

datatype jfun = Json_encode | Json_decode | Json_cfg cfg_fn | Cjson_new | Cjson_safe_new

datatype jvalue =
    Closure jfun nat        \<comment> \<open>a C function with a configuration as its upvalue\<close>
  | Cfunction jfun          \<comment> \<open>a C function without upvalues\<close>
  | Protected jvalue        \<comment> \<open>\<open>json_protect_conversion\<close> with the function as its upvalue\<close>
  | Null_value
  | Literal string
  | Nil_value

type_synonym jtable = "(string \<times> jvalue) list"

record cjson_state =
  cs_configs :: "json_config list"    \<comment> \<open>the userdata objects, in the order of their creation\<close>
  cs_modules :: "jtable list"

datatype jresult =
    Encoded string
  | Decoded ltree
  | Settings "lua list"
  | Module jtable
  | Failure lua_error       \<comment> \<open>nil and the error message\<close>

section \<open>Construction\<close>

fun luaL_setfuncs :: "(string \<times> jfun) list \<Rightarrow> nat \<Rightarrow> jtable \<Rightarrow> jtable" where
  "luaL_setfuncs [] up t = t"
| "luaL_setfuncs ((name, f) # reg) up t = luaL_setfuncs reg up (tab_set name (Closure f up) t)"

definition cjson_reg :: "(string \<times> jfun) list" where
  "cjson_reg =
     [(''encode'', Json_encode), (''decode'', Json_decode),
      (''encode_sparse_array'', Json_cfg Encode_sparse_array),
      (''encode_max_depth'', Json_cfg Encode_max_depth),
      (''decode_max_depth'', Json_cfg Decode_max_depth),
      (''encode_number_precision'', Json_cfg Encode_number_precision),
      (''encode_keep_buffer'', Json_cfg Encode_keep_buffer),
      (''encode_invalid_numbers'', Json_cfg Encode_invalid_numbers),
      (''decode_invalid_numbers'', Json_cfg Decode_invalid_numbers),
      (''new'', Cjson_new)]"

definition lua_cjson_new :: "env \<Rightarrow> cjson_state \<Rightarrow> (cjson_state \<times> jtable) res" where
  "lua_cjson_new E cs =
     andthen (json_create_config E) (\<lambda>cfg.
     let t = luaL_setfuncs cjson_reg (length (cs_configs cs)) [];
         t = tab_set ''null'' Null_value t;
         t = tab_set ''_NAME'' (Literal ''cjson'') t;
         t = tab_set ''_VERSION'' (Literal ''2.1devel'') t in
     Inr (cs\<lparr>cs_configs := cs_configs cs @ [cfg], cs_modules := cs_modules cs @ [t]\<rparr>, t))"

definition protect_field :: "string \<Rightarrow> jtable \<Rightarrow> jtable" where
  "protect_field name t =
     tab_set name (Protected (case map_of t name of None \<Rightarrow> Nil_value | Some v \<Rightarrow> v)) t"

definition lua_cjson_safe_new :: "env \<Rightarrow> cjson_state \<Rightarrow> (cjson_state \<times> jtable) res" where
  "lua_cjson_safe_new E cs =
     andthen (lua_cjson_new E cs) (\<lambda>(cs, t).
     let t = tab_set ''new'' (Cfunction Cjson_safe_new) t;
         t = fold protect_field [''decode'', ''encode''] t in
     Inr (cs\<lparr>cs_modules := butlast (cs_modules cs) @ [t]\<rparr>, t))"

section \<open>Calls\<close>

definition json_fetch_config :: "cjson_state \<Rightarrow> nat option \<Rightarrow> lua_error + json_config" where
  "json_fetch_config cs up =
     (case up of
        None \<Rightarrow> Inl (Lua_error ''BUG: Unable to fetch CJSON configuration'')
      | Some i \<Rightarrow>
          if i < length (cs_configs cs) then Inr (cs_configs cs ! i)
          else Inl (Lua_error ''BUG: Unable to fetch CJSON configuration''))"

type_synonym jcall_result = "(cjson_state \<times> (lua_error + jresult)) res"

definition set_config :: "cjson_state \<Rightarrow> nat option \<Rightarrow> json_config \<Rightarrow> cjson_state" where
  "set_config cs up cfg =
     (case up of None \<Rightarrow> cs | Some i \<Rightarrow> cs\<lparr>cs_configs := (cs_configs cs)[i := cfg]\<rparr>)"

definition run_function ::
  "env \<Rightarrow> lua_heap \<Rightarrow> cjson_state \<Rightarrow> jfun \<Rightarrow> nat option \<Rightarrow> lua list \<Rightarrow> jcall_result" where
  "run_function E h cs f up args =
     (case f of
        Cjson_new \<Rightarrow> andthen (lua_cjson_new E cs) (\<lambda>(cs, t). Inr (cs, Inr (Module t)))
      | Cjson_safe_new \<Rightarrow> andthen (lua_cjson_safe_new E cs) (\<lambda>(cs, t). Inr (cs, Inr (Module t)))
      | Json_encode \<Rightarrow>
          (case json_fetch_config cs up of
             Inl e \<Rightarrow> Inr (cs, Inl e)
           | Inr cfg \<Rightarrow> andthen (json_encode E h cfg args) (\<lambda>(cfg, b, r).
               Inr (set_config cs up cfg, map_sum id Encoded r)))
      | Json_decode \<Rightarrow>
          (case json_fetch_config cs up of
             Inl e \<Rightarrow> Inr (cs, Inl e)
           | Inr cfg \<Rightarrow> andthen (json_decode E cfg args) (\<lambda>(b, r). Inr (cs, map_sum id Decoded r)))
      | Json_cfg fn \<Rightarrow>
          (case json_fetch_config cs up of
             Inl e \<Rightarrow> Inr (cs, Inl e)
           | Inr cfg \<Rightarrow> andthen (cfg_call fn E cfg args) (\<lambda>(cfg, r).
               Inr (set_config cs up cfg, map_sum id Settings r))))"

definition json_protect_conversion ::
  "(cjson_state \<Rightarrow> lua list \<Rightarrow> jcall_result) \<Rightarrow> cjson_state \<Rightarrow> lua list \<Rightarrow> jcall_result" where
  "json_protect_conversion f cs args =
     (if length args \<noteq> 1 then Inr (cs, Inl (Arg_error 1 ''expected 1 argument''))
      else andthen (f cs args) (\<lambda>(cs, r).
        Inr (cs, case r of Inl e \<Rightarrow> Inr (Failure e) | Inr v \<Rightarrow> Inr v)))"

primrec call_value :: "env \<Rightarrow> lua_heap \<Rightarrow> jvalue \<Rightarrow> cjson_state \<Rightarrow> lua list \<Rightarrow> jcall_result" where
  "call_value E h (Closure f i) cs args = run_function E h cs f (Some i) args"
| "call_value E h (Cfunction f) cs args = run_function E h cs f None args"
| "call_value E h (Protected v) cs args = json_protect_conversion (call_value E h v) cs args"
| "call_value E h Null_value cs args = Inr (cs, Inl (Lua_error ''attempt to call a userdata value''))"
| "call_value E h (Literal s) cs args = Inr (cs, Inl (Lua_error ''attempt to call a string value''))"
| "call_value E h Nil_value cs args = Inr (cs, Inl (Lua_error ''attempt to call a nil value''))"

definition luaopen_cjson :: "env \<Rightarrow> cjson_state \<Rightarrow> (cjson_state \<times> jtable) res" where
  "luaopen_cjson E cs = lua_cjson_new E cs"

definition luaopen_cjson_safe :: "env \<Rightarrow> cjson_state \<Rightarrow> (cjson_state \<times> jtable) res" where
  "luaopen_cjson_safe E cs = lua_cjson_safe_new E cs"

section \<open>What a script can do\<close>

text \<open>
  A script opens a module, or calls a function it finds in a module's table, at a moment when
  the environment and the tables of the interpreter are what they are.
\<close>

inductive cjson_step :: "cjson_state \<Rightarrow> nat option \<Rightarrow> cjson_state \<Rightarrow> bool" where
  step_luaopen: "luaopen_cjson E cs = Inr (cs', t) \<Longrightarrow> cjson_step cs None cs'"
| step_luaopen_safe: "luaopen_cjson_safe E cs = Inr (cs', t) \<Longrightarrow> cjson_step cs None cs'"
| step_call: "j < length (cs_modules cs) \<Longrightarrow> map_of (cs_modules cs ! j) name = Some v
    \<Longrightarrow> call_value E h v cs args = Inr (cs', r) \<Longrightarrow> cjson_step cs (Some j) cs'"

inductive_cases cjson_stepE: "cjson_step cs j cs'"

inductive cjson_reachable :: "cjson_state \<Rightarrow> bool" where
  reach_start: "cjson_reachable \<lparr>cs_configs = [], cs_modules = []\<rparr>"
| reach_step: "cjson_reachable cs \<Longrightarrow> cjson_step cs j cs' \<Longrightarrow> cjson_reachable cs'"

text \<open>The type of the values in the table of module \<open>j\<close>.\<close>

fun jvalue_ok :: "nat \<Rightarrow> jvalue \<Rightarrow> bool" where
  "jvalue_ok j (Closure f i) = (i = j)"
| "jvalue_ok j (Cfunction f) = (f = Cjson_safe_new)"
| "jvalue_ok j (Protected v) = (v = Closure Json_encode j \<or> v = Closure Json_decode j)"
| "jvalue_ok j Nil_value = False"
| "jvalue_ok j v = True"

definition jtable_ok :: "nat \<Rightarrow> jtable \<Rightarrow> bool" where
  "jtable_ok j t \<longleftrightarrow> (\<forall>name v. map_of t name = Some v \<longrightarrow> jvalue_ok j v)"

definition modules_ok :: "cjson_state \<Rightarrow> bool" where
  "modules_ok cs \<longleftrightarrow> length (cs_modules cs) = length (cs_configs cs)
     \<and> (\<forall>j < length (cs_modules cs). jtable_ok j (cs_modules cs ! j))"

lemma jtable_ok_set: "jtable_ok j t \<Longrightarrow> jvalue_ok j v \<Longrightarrow> jtable_ok j (tab_set name v t)"
  by (simp add: jtable_ok_def tab_set_map_of)

lemma setfuncs_ok: "jtable_ok j t \<Longrightarrow> jtable_ok j (luaL_setfuncs reg j t)"
  by (induction reg j t rule: luaL_setfuncs.induct) (simp_all add: jtable_ok_set)

definition new_table :: "nat \<Rightarrow> jtable" where
  "new_table j = tab_set ''_VERSION'' (Literal ''2.1devel'') (tab_set ''_NAME'' (Literal ''cjson'')
     (tab_set ''null'' Null_value (luaL_setfuncs cjson_reg j [])))"

lemma new_table_ok: "jtable_ok j (new_table j)"
  unfolding new_table_def by (intro jtable_ok_set setfuncs_ok) (simp_all add: jtable_ok_def)

definition safe_table :: "nat \<Rightarrow> jtable" where
  "safe_table j = fold protect_field [''decode'', ''encode''] (tab_set ''new'' (Cfunction Cjson_safe_new) (new_table j))"

lemma safe_table_ok: "jtable_ok j (safe_table j)"
proof -
  have "map_of (new_table j) ''decode'' = Some (Closure Json_decode j)"
    "map_of (new_table j) ''encode'' = Some (Closure Json_encode j)"
    by (simp_all add: new_table_def cjson_reg_def tab_set_map_of)
  then show ?thesis
    by (auto simp: safe_table_def protect_field_def tab_set_map_of intro!: jtable_ok_set new_table_ok)
qed

text \<open>A new module adds a configuration and a table, and leaves the others alone.\<close>

lemma new_result:
  "lua_cjson_new E cs = Inr (cs', t) \<Longrightarrow>
     t = new_table (length (cs_configs cs)) \<and> cs_modules cs' = cs_modules cs @ [t]
     \<and> (\<exists>cfg. cs_configs cs' = cs_configs cs @ [cfg])"
  by (auto simp: lua_cjson_new_def andthen_eq_Inr Let_def new_table_def)

lemma safe_new_result:
  "lua_cjson_safe_new E cs = Inr (cs', t) \<Longrightarrow>
     t = safe_table (length (cs_configs cs)) \<and> cs_modules cs' = cs_modules cs @ [t]
     \<and> (\<exists>cfg. cs_configs cs' = cs_configs cs @ [cfg])"
  by (auto simp: lua_cjson_safe_new_def andthen_eq_Inr Let_def safe_table_def dest!: new_result)

text \<open>
  What a call may do to the state: it is one of those two, or a change of one configuration.
\<close>

definition one_change :: "cjson_state \<Rightarrow> nat \<Rightarrow> cjson_state \<Rightarrow> bool" where
  "one_change cs j cs' \<longleftrightarrow>
     (\<exists>cfg. cs' = cs\<lparr>cs_configs := (cs_configs cs)[j := cfg]\<rparr>)
     \<or> (\<exists>cfg t. jtable_ok (length (cs_configs cs)) t
          \<and> cs_configs cs' = cs_configs cs @ [cfg] \<and> cs_modules cs' = cs_modules cs @ [t])"

lemma no_change: "one_change cs j cs"
proof -
  have "cs = cs\<lparr>cs_configs := (cs_configs cs)[j := cs_configs cs ! j]\<rparr>" by simp
  then show ?thesis unfolding one_change_def by blast
qed

lemma new_change:
  "lua_cjson_new E cs = Inr (cs', t) \<Longrightarrow> one_change cs j cs'"
  "lua_cjson_safe_new E cs = Inr (cs', t) \<Longrightarrow> one_change cs j cs'"
  using new_result[of E cs cs' t] safe_new_result[of E cs cs' t] new_table_ok safe_table_ok
  unfolding one_change_def by metis+

lemma set_config_change: "one_change cs j (set_config cs (Some j) cfg)"
  unfolding one_change_def set_config_def by auto

lemma run_function_change:
  "run_function E h cs f (Some j) args = Inr (cs', r) \<Longrightarrow> one_change cs j cs'"
  "run_function E h cs Cjson_safe_new None args = Inr (cs', r) \<Longrightarrow> one_change cs j cs'"
  by (auto simp: run_function_def andthen_eq_Inr no_change set_config_change new_change
      split: jfun.splits sum.splits)

lemma protected_change:
  assumes "json_protect_conversion (call_value E h (Closure f j)) cs args = Inr (cs', r)"
  shows "one_change cs j cs'"
  using assms by (auto simp: json_protect_conversion_def andthen_eq_Inr no_change
      dest: run_function_change split: if_splits)

lemma call_change:
  assumes "jvalue_ok j v" and "call_value E h v cs args = Inr (cs', r)"
  shows "one_change cs j cs'"
  using assms
  by (cases v) (auto simp: no_change dest: run_function_change protected_change)

lemma step_change:
  assumes ok: "modules_ok cs" and step: "cjson_step cs j cs'"
  shows "one_change cs (case j of None \<Rightarrow> length (cs_configs cs) | Some i \<Rightarrow> i) cs'"
  using step
proof (cases rule: cjson_step.cases)
  case step_call
  then show ?thesis using ok call_change unfolding modules_ok_def jtable_ok_def by fastforce
qed (simp_all add: luaopen_cjson_def luaopen_cjson_safe_def new_change)

lemma step_ok:
  assumes "modules_ok cs" "cjson_step cs j cs'"
  shows "modules_ok cs'"
  using step_change[OF assms] assms(1)
  by (auto simp: one_change_def modules_ok_def nth_append less_Suc_eq)

lemma reachable_ok: "cjson_reachable cs \<Longrightarrow> modules_ok cs"
proof (induction rule: cjson_reachable.induct)
  case reach_start
  show ?case by (simp add: modules_ok_def)
qed (rule step_ok)

definition calls_separate :: "cjson_state \<Rightarrow> bool" where
  \<comment> \<open>a call through one module changes the configuration of no other\<close>
  "calls_separate cs \<longleftrightarrow>
     (\<forall>cs' j i. cjson_step cs (Some j) cs' \<longrightarrow> i < length (cs_configs cs) \<longrightarrow> i \<noteq> j
        \<longrightarrow> cs_configs cs' ! i = cs_configs cs ! i)"

text \<open>
  C10: Whatever modules a script opens or makes with \<open>new\<close> and whatever functions of theirs it
  calls, the tables are well typed: every function in the table of the \<open>j\<close>th module, protected
  or not, has the \<open>j\<close>th configuration as its upvalue, which exists (so the test for a missing
  configuration never fires); and a call through one module changes the settings of no other.
\<close>
theorem modules_typed_and_separate:
  assumes "cjson_reachable cs"
  shows "modules_ok cs \<and> calls_separate cs"
proof
  show ok: "modules_ok cs" by (rule reachable_ok[OF assms])
  show "calls_separate cs"
    unfolding calls_separate_def using step_change[OF ok] by (fastforce simp: one_change_def nth_append)
qed

definition sample_modules :: cjson_state where
  "sample_modules = \<lparr>cs_configs = [sample_cfg, sample_cfg], cs_modules = [new_table 0, safe_table 1]\<rparr>"

lemma sample_new:
  "luaopen_cjson sample_env \<lparr>cs_configs = [], cs_modules = []\<rparr>
     = Inr (\<lparr>cs_configs = [sample_cfg], cs_modules = [new_table 0]\<rparr>, new_table 0)"
  "luaopen_cjson_safe sample_env \<lparr>cs_configs = [sample_cfg], cs_modules = [new_table 0]\<rparr>
     = Inr (sample_modules, safe_table 1)"
  by (simp_all add: luaopen_cjson_def luaopen_cjson_safe_def lua_cjson_new_def lua_cjson_safe_new_def
      sample_cfg_create new_table_def safe_table_def sample_modules_def Let_def)

lemma sample_reachable: "cjson_reachable sample_modules"
  using reach_start sample_new by (meson reach_step step_luaopen step_luaopen_safe)

lemma modules_typed_and_separate_witness: "modules_ok sample_modules \<and> calls_separate sample_modules"
  by (rule modules_typed_and_separate [OF sample_reachable])

text \<open>The protected functions of the safe module raise no error for a single argument.\<close>

lemma protected_never_raises:
  "json_protect_conversion f cs [v] = Inr (cs', r) \<Longrightarrow> \<exists>x. r = Inr x"
  by (cases "f cs [v]") (auto simp: json_protect_conversion_def split: prod.splits sum.splits)

end
