(* ===== verification/Gfmt.thy ===== *)
theory Gfmt
  imports Fpconv
begin

text \<open>
  \<open>3rd/lua-cjson/g_fmt.c\<close>, the replacement of \<open>printf\<close> the library can be built with
  (\<open>USE_INTERNAL_FPCONV\<close>). What \<open>dtoa\<close> returns (the digits, the position of the decimal point
  and the sign) are arguments; \<open>decpt = 9999\<close> marks an infinity or a NaN. The text is shown to
  be that of \<open>%g\<close>.
\<close>

section \<open>The formatting\<close>

function exp_scale :: "int \<Rightarrow> int \<Rightarrow> int \<Rightarrow> int \<times> int" where
  \<comment> \<open>\<open>for(j = 2, k = 10; 10*k <= decpt; j++, k *= 10)\<close>, entered with a positive \<open>k\<close>\<close>
  "exp_scale decpt j k = (if 0 < k \<and> 10 * k \<le> decpt then exp_scale decpt (j + 1) (k * 10) else (j, k))"
  by auto
termination by (relation "measure (\<lambda>(decpt, j, k). nat (decpt - k))") auto

function exp_emit :: "int \<Rightarrow> int \<Rightarrow> int \<Rightarrow> string" where
  \<comment> \<open>the loop that writes the digits of the exponent, the first at the position of \<open>k\<close>\<close>
  "exp_emit j k decpt =
     (let i = decpt div k; j' = j - 1
      in char_of_int (i + 48) # (if j' \<le> 0 then [] else exp_emit j' k ((decpt - i * k) * 10)))"
  by auto
termination by (relation "measure (\<lambda>(j, k, decpt). nat j)") auto

declare exp_scale.simps [simp del] exp_emit.simps [simp del]

fun g_fixed :: "int \<Rightarrow> string \<Rightarrow> string" where
  \<comment> \<open>the digits with the point among them, then zeros up to the point\<close>
  "g_fixed decpt [] = replicate (nat decpt) (CHR ''0'')"
| "g_fixed decpt (c # s) =
     c # (if decpt - 1 = 0 \<and> s \<noteq> [] then CHR ''.'' # g_fixed (decpt - 1) s else g_fixed (decpt - 1) s)"

definition g_fmt :: "string \<Rightarrow> int \<Rightarrow> bool \<Rightarrow> int \<Rightarrow> (string \<times> int) res" where
  \<comment> \<open>the text stored at \<open>b\<close> and the length returned\<close>
  "g_fmt s decpt sign precision =
     andthen
       (if decpt = 9999 then Inr s
        else if decpt \<le> - 4 \<or> precision < decpt then
          (case s of
             [] \<Rightarrow> Inl (UB Oob_read)
           | c # t \<Rightarrow>
               (let e = decpt - 1;
                    sg = (if e < 0 then CHR ''-'' else CHR ''+'');
                    e' = (if e < 0 then - e else e);
                    (j, k) = exp_scale e' 2 10
                in Inr (c # (if t \<noteq> [] then CHR ''.'' # t else []) @ CHR ''e'' # sg # exp_emit j k e')))
        else if decpt \<le> 0 then Inr (''0.'' @ replicate (nat (- decpt)) (CHR ''0'') @ s)
        else Inr (g_fixed decpt s)) (\<lambda>body.
     (let b = (if sign then CHR ''-'' # body else body) in Inr (b, int (length b))))"

section \<open>Agreement with \<open>printf\<close>\<close>

lemma char_of_int_digit: "d < 10 \<Longrightarrow> char_of_int (int d + 48) = char_of (48 + d)"
proof -
  assume "d < 10"
  then have "take_bit 8 (int d + 48) = int (48 + d)" by (simp add: take_bit_int_eq_self)
  then show ?thesis by (simp only: char_of_int_def char_of_nat)
qed

lemma exp_emit_step:
  assumes "0 < k" "n < 10 * k"
  shows "exp_emit j (int k) (int n) =
     char_of (48 + n div k) # (if j \<le> 1 then [] else exp_emit (j - 1) (int k) (int (n mod k * 10)))"
proof -
  have d: "n div k < 10" using assms by (simp add: div_less_iff_less_mult)
  have q: "int n div int k = int (n div k)" by (simp add: zdiv_int)
  have m: "(int n - int (n div k) * int k) * 10 = int (n mod k * 10)"
    by (simp add: minus_div_mult_eq_mod[symmetric] of_nat_diff)
  show ?thesis by (subst exp_emit.simps) (simp only: q m Let_def char_of_int_digit[OF d] diff_le_0_iff_le)
qed

lemma exp_emit_digits:
  assumes "n < 1000"
  shows "(case exp_scale (int n) 2 10 of (j, k) \<Rightarrow> exp_emit j k (int n)) = exp_digits n"
proof (cases "n < 100")
  case True
  have s: "exp_scale (int n) 2 10 = (2, 10)" using True by (simp add: exp_scale.simps)
  have "exp_emit 2 (int 10) (int n) = [char_of (48 + n div 10), char_of (48 + n mod 10)]"
    using True by (simp add: exp_emit_step del: of_nat_numeral of_nat_mult)
  then have "exp_emit 2 10 (int n) = [char_of (48 + n div 10), char_of (48 + n mod 10)]" by simp
  moreover have "char_of (48 :: nat) = CHR ''0''" by code_simp
  ultimately show ?thesis using True s dec_digits.simps[of n] dec_digits.simps[of "n div 10"]
    by (auto simp: exp_digits_def)
next
  case False
  have s: "exp_scale (int n) 2 10 = (3, 100)" using False assms
    by (simp add: exp_scale.simps[of _ 2] exp_scale.simps[of _ 3])
  have three: "(10 * b + c) * 10 div 100 = b" "(10 * b + c) * 10 mod 100 * 10 div 100 = c"
    if "b < 10" "c < 10" for b c :: nat
  proof -
    have e: "(10 * b + c) * 10 = 10 * c + b * 100" by simp
    show "(10 * b + c) * 10 div 100 = b" unfolding e using that by (subst div_mult_self1) simp_all
    show "(10 * b + c) * 10 mod 100 * 10 div 100 = c" unfolding e using that by (subst mod_mult_self1) simp
  qed
  have "n mod (10 * 10) = 10 * (n div 10 mod 10) + n mod 10" by (rule mod_mult2_eq)
  then have "n mod 100 = 10 * (n div 10 mod 10) + n mod 10" by simp
  then have "n mod 100 * 10 mod 100 * 10 div 100 = n mod 10" "n mod 100 * 10 div 100 = n div 10 mod 10"
    using three[of "n div 10 mod 10" "n mod 10"] by simp_all
  then have "exp_emit 3 (int 100) (int n)
      = [char_of (48 + n div 100), char_of (48 + n div 10 mod 10), char_of (48 + n mod 10)]"
    using assms by (simp add: exp_emit_step del: of_nat_numeral of_nat_mult)
  then have "exp_emit 3 100 (int n)
      = [char_of (48 + n div 100), char_of (48 + n div 10 mod 10), char_of (48 + n mod 10)]" by simp
  moreover have "n div 10 div 10 = n div 100" by (simp add: div_mult2_eq[symmetric])
  ultimately show ?thesis
    using False assms s dec_digits.simps[of n] dec_digits.simps[of "n div 10"] dec_digits.simps[of "n div 100"]
    by (auto simp: exp_digits_def)
qed

lemma g_fixed_text:
  assumes "ds \<noteq> []"
  shows "0 < decpt \<Longrightarrow> g_fixed decpt ds =
     (if int (length ds) \<le> decpt then ds @ replicate (nat decpt - length ds) (CHR ''0'')
      else take (nat decpt) ds @ ''.'' @ drop (nat decpt) ds)"
  using assms
proof (induction ds arbitrary: decpt)
  case (Cons c s)
  have z: "g_fixed d t = t" if "d \<le> 0" "d < 0 \<or> d = 0" for d t
    using that
  proof (induction t arbitrary: d)
    case (Cons a t)
    then show ?case using Cons.IH[of "d - 1"] by simp
  qed simp
  show ?case
  proof (cases "decpt = 1")
    case True
    then show ?thesis using z[of 0 s] by (cases s) simp_all
  next
    case False
    then have d: "0 < decpt - 1" "nat decpt = Suc (nat (decpt - 1))" using Cons.prems by simp_all
    show ?thesis
    proof (cases "s = []")
      case True
      then show ?thesis using d by simp
    next
      case False
      then show ?thesis using Cons.IH[OF d(1) False] d \<open>decpt \<noteq> 1\<close> by auto
    qed
  qed
qed simp

lemma g_fmt_g_text:
  assumes "ds \<noteq> []" "\<bar>decpt - 1\<bar> < 1000"
  shows "g_fmt ds decpt sign (int p) = Inr (g_text sign ds decpt p, int (length (g_text sign ds decpt p)))"
proof -
  have n: "decpt \<noteq> 9999" using assms(2) by auto
  show ?thesis
  proof (cases "decpt - 1 < - 4 \<or> int p \<le> decpt - 1")
    case True
    define e0 where "e0 = nat \<bar>decpt - 1\<bar>"
    obtain j k where jk: "exp_scale (int e0) 2 10 = (j, k)" by fastforce
    have e: "exp_emit j k (int e0) = exp_digits e0" using exp_emit_digits[of e0] assms(2) jk by (simp add: e0_def)
    have i: "(if decpt - 1 < 0 then - (decpt - 1) else decpt - 1) = int e0" by (simp add: e0_def)
    obtain c t where ds: "ds = c # t" using assms(1) by (cases ds) auto
    have r: "decpt \<le> - 4 \<or> int p < decpt" using True by linarith
    show ?thesis using n True unfolding g_fmt_def g_text_def if_P[OF r] Let_def i jk ds e0_def[symmetric]
      by (simp add: e)
  next
    case False
    then have r: "\<not> (decpt \<le> - 4 \<or> int p < decpt)" by linarith
    show ?thesis
      using n False g_fixed_text[OF assms(1), of decpt] unfolding g_fmt_def g_text_def if_not_P[OF r] if_not_P[OF False]
      by (auto simp: Let_def)
  qed
qed

section \<open>The documented digits\<close>

text \<open>
  What \<open>dtoa(x, 2, p, &decpt, &sign, &se)\<close> is documented to return: the correctly rounded
  digits without trailing zeros, and the position of the decimal point.
\<close>

definition dtoa_mode2 :: "nat \<Rightarrow> double \<Rightarrow> string \<times> int" where
  "dtoa_mode2 p d =
     (if isinf d then (''Infinity'', 9999) else if isnan d then (''NaN'', 9999)
      else if dbl_num d = 0 then (''0'', 1)
      else (let (q, x) = sig_digits p (dbl_num d) (dbl_den d) in (strip_zeros (dec_digits q), x + 1)))"

text \<open>
  On the digits \<open>dtoa\<close> is documented to return, the library's own formatter writes the text
  that \<open>printf\<close> writes for \<open>%.<p>g\<close>, and returns its length: the build option
  \<open>USE_INTERNAL_FPCONV\<close> does not change the JSON text of a finite number.
\<close>

lemma internal_format_agrees:
  assumes "\<not> isnan d" "\<not> isinf d" "1 \<le> p" "p \<le> 14"
  shows "(case dtoa_mode2 p d of (ds, decpt) \<Rightarrow> g_fmt ds decpt (dbl_sign d) (int p))
           = Inr (printf_g p d, int (length (printf_g p d)))"
proof (cases "dbl_num d = 0")
  case True
  have "g_fmt ''0'' 1 (dbl_sign d) (int p)
      = Inr (g_text (dbl_sign d) ''0'' 1 p, int (length (g_text (dbl_sign d) ''0'' 1 p)))"
    by (rule g_fmt_g_text) simp_all
  then show ?thesis using True assms by (simp add: dtoa_mode2_def printf_g_def g_text_def)
next
  case False
  obtain q x where qx: "sig_digits p (dbl_num d) (dbl_den d) = (q, x)" by fastforce
  note f = sig_digits_double[OF assms(1-3) _ qx] False
  have t: "printf_g p d = g_text (dbl_sign d) (strip_zeros (dec_digits q)) (x + 1) p"
    "dtoa_mode2 p d = (strip_zeros (dec_digits q), x + 1)"
    using False assms qx by (simp_all add: printf_g_def dtoa_mode2_def)
  show ?thesis unfolding t prod.case by (rule g_fmt_g_text) (use f in auto)
qed

end
