(* ===== verification/Limbs.thy ===== *)
theory Limbs
  imports Clib
begin

text \<open>
The word loops of the bignum routines of \<open>3rd/lua-cjson/dtoa.c\<close> (as configured by
  \<open>dtoa_config.h\<close>: 32 bits per word, 64-bit intermediate results), on lists of words, least
  significant first. A loop over pointers into two arrays is a recursion on the words from
  those pointers on. \<open>bval\<close> is the number a list of words stands for; each loop is shown to
  compute on it.
\<close>

section \<open>Limbs and their value\<close>

type_synonym limb = "32 word"

primrec bval :: "limb list \<Rightarrow> nat" where
  "bval [] = 0"
| "bval (x # xs) = unat x + 4294967296 * bval xs"

lemma bval_append: "bval (xs @ ys) = bval xs + 4294967296 ^ length xs * bval ys"
  by (induction xs) (simp_all add: algebra_simps)

lemma unat_limb: "unat (x :: limb) < 4294967296"
  using unsigned_less[of x, where ?'a = nat] by simp

lemma bval_less: "bval xs < 4294967296 ^ length xs"
proof (induction xs)
  case (Cons x xs)
  have "unat x + 4294967296 * bval xs < 4294967296 * (bval xs + 1)" using unat_limb[of x] by simp
  also have "\<dots> \<le> 4294967296 * 4294967296 ^ length xs"
    using Cons by (intro mult_le_mono2) simp
  finally show ?case by simp
qed simp

lemma bval_zeros [simp]: "bval (replicate n 0) = 0"
  by (induction n) simp_all

lemma bval_0: "bval xs = 0 \<longleftrightarrow> (\<forall>x \<in> set xs. x = 0)"
  by (induction xs) (auto simp: unat_eq_0)

lemma bval_top:
  assumes "xs \<noteq> []" "last xs \<noteq> 0"
  shows "4294967296 ^ (length xs - 1) \<le> bval xs"
proof -
  obtain ys y where xs: "xs = ys @ [y]" using assms(1) by (metis rev_exhaust)
  then have "1 \<le> unat y" using assms(2) by (simp add: unat_gt_0 Suc_le_eq)
  then have "4294967296 ^ length ys * 1 \<le> 4294967296 ^ length ys * unat y" by (rule mult_le_mono2)
  then have "4294967296 ^ length ys \<le> bval ys + 4294967296 ^ length ys * unat y" by linarith
  then show ?thesis by (simp add: xs bval_append)
qed

subsection \<open>Halves of a 64-bit word\<close>

definition lo :: "64 word \<Rightarrow> limb" where \<comment> \<open>\<open>y & FFFFFFFF\<close>, stored in a \<open>ULong\<close>\<close>
  "lo y = ucast (y AND 0xffffffff)"

definition hi :: "64 word \<Rightarrow> 64 word" where \<comment> \<open>\<open>y >> 32\<close>\<close>
  "hi y = drop_bit 32 y"

lemma mask32: "(0xffffffff :: 64 word) = mask 32"
  by (simp add: mask_eq_exp_minus_1)

lemma unat_lo: "unat (lo y) = unat y mod 4294967296"
  unfolding lo_def mask32 take_bit_eq_mask[symmetric] unsigned_ucast_eq unsigned_take_bit_eq
  by (simp add: take_bit_eq_mod)

lemma unat_hi: "unat (hi y) = unat y div 4294967296"
  unfolding hi_def unat_drop_bit_eq by (simp add: drop_bit_eq_div)

lemma hi_lo: "unat (lo y) + 4294967296 * unat (hi y) = unat y"
  by (simp add: unat_lo unat_hi)

lemma hi_less: "unat (hi y) < 4294967296"
proof -
  have "unat y < 18446744073709551616" using unsigned_less[of y, where ?'a = nat] by simp
  then show ?thesis unfolding unat_hi by (simp add: less_mult_imp_div_less)
qed

lemma unat_ucast_limb [simp]: "unat (ucast (x :: limb) :: 64 word) = unat x"
  using unat_limb[of x] by (simp add: unsigned_ucast_eq take_bit_eq_mod)

lemma mul_no_overflow:
  assumes "x < 4294967296" "y < 4294967296" "c < 4294967296" "d < 4294967296"
  shows "x * y + c + d < (18446744073709551616 :: nat)"
proof -
  have "x * y \<le> 4294967295 * 4294967295" using assms by (intro mult_le_mono) simp_all
  then show ?thesis using assms by simp
qed

subsection \<open>Multiplication by a word\<close>

fun multadd_loop :: "64 word \<Rightarrow> limb list \<Rightarrow> 64 word \<Rightarrow> limb list \<times> 64 word" where
  "multadd_loop m [] carry = ([], carry)"
| "multadd_loop m (x # xs) carry =
     (let y = ucast x * m + carry; (ys, c) = multadd_loop m xs (hi y) in (lo y # ys, c))"

lemma multadd_word:
  assumes "unat m < 4294967296" "unat carry < 4294967296"
  shows "unat (ucast (x :: limb) * m + carry :: 64 word) = unat x * unat m + unat carry"
  using mul_no_overflow[OF unat_limb[of x] assms(1,2), of 0]
  by (simp add: unat_word_ariths)

lemma multadd_loop_spec:
  assumes "unat m < 4294967296"
  shows "unat carry < 4294967296 \<Longrightarrow> multadd_loop m xs carry = (ys, c) \<Longrightarrow>
    length ys = length xs \<and> unat c < 4294967296
    \<and> bval ys + 4294967296 ^ length xs * unat c = bval xs * unat m + unat carry"
proof (induction xs arbitrary: carry ys)
  case (Cons x xs)
  let ?y = "ucast x * m + carry"
  obtain zs where r: "multadd_loop m xs (hi ?y) = (zs, c)" "ys = lo ?y # zs"
    using Cons.prems(2) by (auto simp: Let_def split: prod.splits)
  note IH = Cons.IH[OF hi_less r(1)]
  have "bval ys + 4294967296 ^ length (x # xs) * unat c
      = unat (lo ?y) + 4294967296 * (bval zs + 4294967296 ^ length xs * unat c)"
    by (simp add: r(2) algebra_simps)
  also have "\<dots> = unat (lo ?y) + 4294967296 * unat (hi ?y) + 4294967296 * (bval xs * unat m)"
    using IH by (simp add: algebra_simps)
  also have "\<dots> = bval (x # xs) * unat m + unat carry"
    by (simp only: hi_lo multadd_word[OF assms Cons.prems(1)]) (simp add: algebra_simps)
  finally show ?case using IH r(2) by simp
qed simp

subsection \<open>Multiplication\<close>

fun mult_row :: "limb \<Rightarrow> limb list \<Rightarrow> limb list \<Rightarrow> 64 word \<Rightarrow> limb list res" where
  \<comment> \<open>the inner loop: the words of \<open>a\<close> and of \<open>c\<close> from \<open>xc\<close> on\<close>
  "mult_row y xs [] carry = Inl (UB Oob_write)"
| "mult_row y [] (c # cs) carry = Inr (ucast carry # cs)"
| "mult_row y (x # xs) (c # cs) carry =
     (let z = ucast x * ucast y + ucast c + carry
      in andthen (mult_row y xs cs (hi z)) (\<lambda>cs. Inr (lo z # cs)))"

fun mult_rows :: "limb list \<Rightarrow> limb list \<Rightarrow> limb list \<Rightarrow> limb list res" where
  \<comment> \<open>the outer loop: the words of \<open>a\<close>, the rest of \<open>b\<close> and the words of \<open>c\<close> from \<open>xc0\<close> on\<close>
  "mult_rows xs [] cs = Inr cs"
| "mult_rows xs (y # ys) cs =
     andthen (if y \<noteq> 0 then mult_row y xs cs 0 else Inr cs) (\<lambda>cs.
     (case cs of
        [] \<Rightarrow> Inl (UB Oob_write)
      | c # cs \<Rightarrow> andthen (mult_rows xs ys cs) (\<lambda>cs. Inr (c # cs))))"

lemma mult_row_spec:
  "length xs < length cs \<Longrightarrow> cs ! length xs = 0 \<Longrightarrow> unat carry < 4294967296 \<Longrightarrow>
   \<exists>zs. mult_row y xs cs carry = Inr zs \<and> length zs = length cs
     \<and> drop (length xs + 1) zs = drop (length xs + 1) cs
     \<and> bval zs = bval cs + bval xs * unat y + unat carry"
proof (induction y xs cs carry rule: mult_row.induct)
  case (2 y c cs carry)
  have "unat (ucast carry :: limb) = unat carry"
    using 2(3) by (simp add: unsigned_ucast_eq take_bit_eq_mod)
  then show ?case using 2 by simp
next
  case (3 y x xs c cs carry)
  let ?z = "ucast x * ucast y + ucast c + carry"
  have z: "unat ?z = unat x * unat y + unat c + unat carry"
    using mul_no_overflow[OF unat_limb[of x] unat_limb[of y] unat_limb[of c] 3(4)]
    by (simp add: unat_word_ariths)
  obtain zs where zs: "mult_row y xs cs (hi ?z) = Inr zs" "length zs = length cs"
      "drop (length xs + 1) zs = drop (length xs + 1) cs"
      "bval zs = bval cs + bval xs * unat y + unat (hi ?z)"
    using 3(1)[OF refl] 3(2,3) hi_less by auto
  have "unat (lo ?z) + 4294967296 * bval zs
      = unat (lo ?z) + 4294967296 * unat (hi ?z) + 4294967296 * (bval cs + bval xs * unat y)"
    by (simp add: zs(4))
  also have "\<dots> = bval (c # cs) + bval (x # xs) * unat y + unat carry"
    by (simp only: hi_lo z) (simp add: algebra_simps)
  finally show ?case using zs by simp
qed simp

lemma mult_rows_spec:
  "length cs = length xs + length ys \<Longrightarrow> \<forall>c \<in> set (drop (length xs) cs). c = 0 \<Longrightarrow>
   \<exists>zs. mult_rows xs ys cs = Inr zs \<and> length zs = length cs \<and> bval zs = bval cs + bval xs * bval ys"
proof (induction xs ys cs rule: mult_rows.induct)
  case (2 xs y ys cs)
  let ?row = "if y \<noteq> 0 then mult_row y xs cs 0 else Inr cs"
  have "cs ! length xs \<in> set (drop (length xs) cs)"
    using 2(2) by (simp add: Cons_nth_drop_Suc[symmetric])
  then have "cs ! length xs = 0" using 2(3) by blast
  then have "\<exists>zs. ?row = Inr zs \<and> length zs = length cs
      \<and> drop (length xs + 1) zs = drop (length xs + 1) cs \<and> bval zs = bval cs + bval xs * unat y"
    using mult_row_spec[of xs cs 0 y] 2(2) by auto
  then obtain z zs where zs: "?row = Inr (z # zs)" "length (z # zs) = length cs"
      "drop (length xs) zs = drop (length xs + 1) cs" "bval (z # zs) = bval cs + bval xs * unat y"
    using 2(2) by (auto simp: length_Suc_conv)
  have "set (drop (length xs + 1) cs) \<subseteq> set (drop (length xs) cs)"
    by (rule set_drop_subset_set_drop) simp
  then have "\<forall>c \<in> set (drop (length xs) zs). c = 0" using zs(3) 2(3) by auto
  then obtain ws where ws: "mult_rows xs ys zs = Inr ws" "length ws = length zs"
      "bval ws = bval zs + bval xs * bval ys"
    using 2(1)[OF zs(1) refl] zs(2) 2(2) by auto
  have "bval (z # ws) = bval (z # zs) + 4294967296 * (bval xs * bval ys)" by (simp add: ws(3))
  also have "\<dots> = bval cs + bval xs * bval (y # ys)" unfolding zs(4) by (simp add: algebra_simps)
  finally show ?case using zs(1,2) ws by simp
qed simp

subsection \<open>Shifts\<close>

fun lshift_loop :: "nat \<Rightarrow> limb list \<Rightarrow> limb \<Rightarrow> limb list \<times> limb" where
  \<comment> \<open>\<open>*x1++ = *x << k | z; z = *x++ >> k1\<close>\<close>
  "lshift_loop k [] z = ([], z)"
| "lshift_loop k (x # xs) z =
     (let (ys, c) = lshift_loop k xs (drop_bit (32 - k) x) in ((push_bit k x OR z) # ys, c))"

lemma and_mask_all: "(x :: limb) AND 0xffffffff = x"
proof -
  have "(0xffffffff :: limb) = -1" by simp
  then show ?thesis by (simp only: and.right_neutral)
qed

lemma pow32: "k \<le> 32 \<Longrightarrow> (4294967296 :: nat) = 2 ^ k * 2 ^ (32 - k)"
  by (simp flip: power_add)

lemma shl_mod: "k \<le> 32 \<Longrightarrow> (n * 2 ^ k) mod (4294967296 :: nat) = 2 ^ k * (n mod 2 ^ (32 - k))"
  by (metis pow32 mult.commute mult_mod_right)

lemma shr_less: "k \<le> 32 \<Longrightarrow> unat (x :: limb) div 2 ^ (32 - k) < 2 ^ k"
  using unat_limb[of x] pow32[of k] by (simp add: less_mult_imp_div_less)

lemma shl_step:
  assumes "B = X * Y" "x = Y * a + b" "v' + L * c = v * X + (a :: nat)"
  shows "(X * b + z) + B * v' + B * L * c = (x + B * v) * X + z"
proof -
  have "B * v' + B * L * c = B * (v' + L * c)" by (simp add: algebra_simps)
  also have "\<dots> = X * Y * (v * X) + X * Y * a" unfolding assms(1,3) by (simp add: algebra_simps)
  finally show ?thesis unfolding assms(2) by (simp add: assms(1) algebra_simps)
qed

lemma unat_push_or:
  assumes "unat z < 2 ^ k" "k \<le> 32"
  shows "unat (push_bit k x OR z :: limb) = (unat x * 2 ^ k) mod 4294967296 + unat z"
proof -
  have "push_bit k x AND z = 0"
  proof (rule bit_eqI)
    fix n assume "possible_bit TYPE(32 word) n"
    have "take_bit k z = z"
      using assms(1) by (simp add: word_unat_eq_iff unsigned_take_bit_eq take_bit_nat_eq_self)
    then have "\<not> bit z n" if "k \<le> n" using that by (metis bit_take_bit_iff linorder_not_le)
    then show "bit (push_bit k x AND z) n \<longleftrightarrow> bit (0 :: limb) n"
      by (auto simp: bit_simps)
  qed
  then have "push_bit k x OR z = push_bit k x + z" by (simp add: disjunctive_add_eq_or)
  moreover have "unat (push_bit k x) = (unat x * 2 ^ k) mod 4294967296"
    unfolding unsigned_push_bit_eq by (simp add: push_bit_eq_mult take_bit_eq_mod)
  moreover have "(unat x * 2 ^ k) mod 4294967296 + unat z < 4294967296"
  proof -
    have "unat x mod 2 ^ (32 - k) + 1 \<le> 2 ^ (32 - k)" by (simp add: Suc_leI)
    then have "2 ^ k * (unat x mod 2 ^ (32 - k) + 1) \<le> (4294967296::nat)"
      unfolding pow32[OF assms(2)] by (rule mult_le_mono2)
    then show ?thesis using assms(1) unfolding shl_mod[OF assms(2)] by simp
  qed
  ultimately show ?thesis by (simp add: unat_word_ariths)
qed

lemma lshift_loop_spec:
  "unat z < 2 ^ k \<Longrightarrow> 0 < k \<Longrightarrow> k < 32 \<Longrightarrow> lshift_loop k xs z = (ys, c) \<Longrightarrow>
   length ys = length xs \<and> unat c < 2 ^ k
   \<and> bval ys + 4294967296 ^ length xs * unat c = bval xs * 2 ^ k + unat z"
proof (induction k xs z arbitrary: ys rule: lshift_loop.induct)
  case (2 k x xs z)
  let ?d = "drop_bit (32 - k) x"
  have d: "unat ?d = unat x div 2 ^ (32 - k)" unfolding unat_drop_bit_eq by (simp add: drop_bit_eq_div)
  have "unat ?d < 2 ^ k" unfolding d using shr_less 2(4) by simp
  moreover obtain zs where r: "lshift_loop k xs ?d = (zs, c)" "ys = (push_bit k x OR z) # zs"
    using 2(5) by (auto simp: Let_def split: prod.splits)
  ultimately have IH: "length zs = length xs" "unat c < 2 ^ k"
    "bval zs + 4294967296 ^ length xs * unat c = bval xs * 2 ^ k + unat x div 2 ^ (32 - k)"
    using 2(1)[OF _ 2(3,4) r(1)] d by simp_all
  have "(2 ^ k * (unat x mod 2 ^ (32 - k)) + unat z) + 4294967296 * bval zs + 4294967296 * 4294967296 ^ length xs * unat c
      = (unat x + 4294967296 * bval xs) * 2 ^ k + unat z"
    by (rule shl_step[where Y = "2 ^ (32 - k)", OF pow32 _ IH(3)]) (use 2(4) in simp_all)
  moreover have "unat (push_bit k x OR z) = 2 ^ k * (unat x mod 2 ^ (32 - k)) + unat z"
    using unat_push_or[OF 2(2), of x] shl_mod[of k] 2(4) by simp
  ultimately show ?case using IH r(2) by simp
qed auto

fun rshift_loop :: "nat \<Rightarrow> limb list \<Rightarrow> limb \<Rightarrow> limb list" where
  \<comment> \<open>the words stored after the first has been read into \<open>y\<close>, the last one only if it is not 0\<close>
  "rshift_loop k [] y = (if y \<noteq> 0 then [y] else [])"
| "rshift_loop k (x # xs) y = ((y OR push_bit (32 - k) x) AND 0xffffffff) # rshift_loop k xs (drop_bit k x)"

lemma rshift_loop_spec:
  "unat y < 2 ^ (32 - k) \<Longrightarrow> 0 < k \<Longrightarrow> k < 32 \<Longrightarrow>
   bval (rshift_loop k xs y) = unat y + 2 ^ (32 - k) * bval xs"
proof (induction k xs y rule: rshift_loop.induct)
  case (2 k x xs y)
  let ?d = "drop_bit k x"
  have d: "unat ?d = unat x div 2 ^ k" unfolding unat_drop_bit_eq by (simp add: drop_bit_eq_div)
  have "unat ?d < 2 ^ (32 - k)" unfolding d using shr_less[of "32 - k" x] 2(4) by simp
  then have IH: "bval (rshift_loop k xs ?d) = unat x div 2 ^ k + 2 ^ (32 - k) * bval xs" using 2 d by simp
  have "unat ((y OR push_bit (32 - k) x) AND 0xffffffff) = 2 ^ (32 - k) * (unat x mod 2 ^ k) + unat y"
    using unat_push_or[OF 2(2), of x] shl_mod[of "32 - k" "unat x"] 2(4)
    unfolding and_mask_all by (simp add: or.commute)
  then have "bval (rshift_loop k (x # xs) y)
      = 2 ^ (32 - k) * (unat x mod 2 ^ k) + unat y + 2 ^ k * 2 ^ (32 - k) * (unat x div 2 ^ k + 2 ^ (32 - k) * bval xs)"
    using IH pow32[of k] 2(4) by simp
  also have "\<dots> = unat y + 2 ^ (32 - k) * ((unat x mod 2 ^ k + 2 ^ k * (unat x div 2 ^ k)) + 2 ^ k * 2 ^ (32 - k) * bval xs)"
    by (simp only: algebra_simps)
  also have "\<dots> = unat y + 2 ^ (32 - k) * bval (x # xs)"
    using pow32[of k] 2(4) by (simp only: mod_mult_div_eq) simp
  finally show ?case .
qed (auto simp: unat_eq_0)

subsection \<open>Comparison\<close>

fun cmp_loop :: "limb list \<Rightarrow> limb list \<Rightarrow> int" where
  \<comment> \<open>the words of the two numbers from the top down\<close>
  "cmp_loop (x # xs) (y # ys) = (if x \<noteq> y then (if x < y then -1 else 1) else cmp_loop xs ys)"
| "cmp_loop _ _ = 0"

lemma cmp_loop_spec:
  "length xs = length ys \<Longrightarrow> cmp_loop xs ys =
   (if bval (rev xs) < bval (rev ys) then -1 else if bval (rev xs) = bval (rev ys) then 0 else 1)"
proof (induction xs ys rule: cmp_loop.induct)
  case (1 x xs y ys)
  let ?n = "length xs"
  show ?case
  proof (cases "x = y")
    case True
    then show ?thesis using 1 by (simp add: bval_append)
  next
    case False
    have less: "bval (rev as) + 4294967296 ^ ?n * unat a < bval (rev bs) + 4294967296 ^ ?n * unat b"
      if "a < b" "length as = ?n" for a b :: limb and as bs
    proof -
      have "bval (rev as) + 4294967296 ^ ?n * unat a < 4294967296 ^ ?n * (unat a + 1)"
        using bval_less[of "rev as"] that(2) by simp
      also have "\<dots> \<le> 4294967296 ^ ?n * unat b"
        using that(1) by (intro mult_le_mono2) (simp add: word_less_nat_alt)
      finally show ?thesis by simp
    qed
    from False consider "x < y" | "y < x" by (meson linorder_neqE)
    then show ?thesis
    proof cases
      case 1
      from less[OF this, of xs ys] show ?thesis using 1 "1.prems" by (auto simp: bval_append)
    next
      case 2
      from less[OF this, of ys xs] show ?thesis using 2 "1.prems"
        by (auto simp: bval_append)
    qed
  qed
qed auto

subsection \<open>Subtraction\<close>

fun diff_loop :: "limb list \<Rightarrow> limb list \<Rightarrow> 64 word \<Rightarrow> limb list \<times> 64 word" where
  "diff_loop [] ys borrow = ([], borrow)"
| "diff_loop (x # xs) [] borrow =
     (let y = ucast x - borrow; (zs, b) = diff_loop xs [] (hi y AND 1) in (lo y # zs, b))"
| "diff_loop (x # xs) (y # ys) borrow =
     (let y = ucast x - ucast y - borrow; (zs, b) = diff_loop xs ys (hi y AND 1) in (lo y # zs, b))"

lemma sub_step:
  fixes x :: limb and y borrow :: "64 word"
  assumes "unat y < 4294967296" "unat borrow \<le> 1"
  defines "d \<equiv> ucast x - y - borrow"
  shows "unat (lo d) + unat y + unat borrow = unat x + 4294967296 * unat (hi d AND 1)"
    and "unat (hi d AND 1) \<le> 1"
proof -
  define i where "i = int (unat x) - int (unat y) - int (unat borrow)"
  have "ucast x = (of_nat (unat x) :: 64 word)" by (simp flip: unat_ucast_limb)
  then have "d = of_int i" by (simp add: d_def i_def)
  then have d: "int (unat d) = i mod 18446744073709551616"
    by (simp add: unsigned_of_int take_bit_eq_mod)
  have r: "-4294967296 \<le> i" "i < 4294967296" unfolding i_def using assms(1,2) unat_limb[of x] by linarith+
  have one: "unat (hi d AND 1) = unat (hi d) mod 2"
    unfolding unsigned_and_eq by (simp add: and_one_eq)
  show "unat (lo d) + unat y + unat borrow = unat x + 4294967296 * unat (hi d AND 1)"
    "unat (hi d AND 1) \<le> 1"
  proof -
    show "unat (hi d AND 1) \<le> 1" unfolding one by simp
    show "unat (lo d) + unat y + unat borrow = unat x + 4294967296 * unat (hi d AND 1)"
    proof (cases "0 \<le> i")
      case True
      then have "int (unat d) = i" using d r by simp
      then have "unat d = nat i" by linarith
      moreover have "nat i < 4294967296" using r by linarith
      ultimately have "unat (lo d) = nat i" "unat (hi d) mod 2 = 0" unfolding unat_lo unat_hi by simp_all
      then show ?thesis unfolding one using True i_def by linarith
    next
      case False
      have "i mod 18446744073709551616 = (i + 18446744073709551616) mod 18446744073709551616" by simp
      also have "\<dots> = i + 18446744073709551616" using False r by (intro mod_pos_pos_trivial) simp_all
      finally have "int (unat d) = i + 18446744073709551616" using d by simp
      then have u: "unat d = nat (i + 4294967296) + 4294967295 * 4294967296" using r by linarith
      have n: "nat (i + 4294967296) < 4294967296" using False r by linarith
      have "unat (lo d) = nat (i + 4294967296)"
        unfolding unat_lo u mod_mult_self1 using n by (rule mod_less)
      moreover have "unat (hi d) = 4294967295 + nat (i + 4294967296) div 4294967296"
        unfolding unat_hi u by (rule div_mult_self1) simp
      then have "unat (hi d) mod 2 = 1" unfolding div_less[OF n] by simp
      ultimately show ?thesis unfolding one using r i_def by linarith
    qed
  qed
qed

lemma diff_loop_spec:
  "length ys \<le> length xs \<Longrightarrow> unat borrow \<le> 1 \<Longrightarrow> diff_loop xs ys borrow = (zs, b) \<Longrightarrow>
   length zs = length xs
   \<and> bval zs + bval ys + unat borrow = bval xs + 4294967296 ^ length xs * unat b"
proof (induction xs ys borrow arbitrary: zs rule: diff_loop.induct)
  case (2 x xs borrow)
  let ?y = "ucast x - borrow :: 64 word"
  obtain ws where r: "diff_loop xs [] (hi ?y AND 1) = (ws, b)" "zs = lo ?y # ws"
    using 2(4) by (auto simp: Let_def split: prod.splits)
  note st = sub_step[of 0 borrow x, OF _ 2(3)]
  have "unat (hi ?y AND 1) \<le> 1" using st(2) by simp
  from 2(1)[OF refl _ this r(1)] have "length ws = length xs"
    "bval ws + unat (hi ?y AND 1) = bval xs + 4294967296 ^ length xs * unat b" by simp_all
  then show ?case using st(1) r(2) by simp
next
  case (3 x xs y ys borrow)
  let ?y = "ucast x - ucast y - borrow :: 64 word"
  obtain ws where r: "diff_loop xs ys (hi ?y AND 1) = (ws, b)" "zs = lo ?y # ws"
    using 3(4) by (auto simp: Let_def split: prod.splits)
  have y: "unat (ucast y :: 64 word) < 4294967296" by (simp add: unat_limb)
  note st = sub_step[OF y 3(3), of x]
  have "length ys \<le> length xs" using 3(2) by simp
  from 3(1)[OF refl this st(2) r(1)] have "length ws = length xs"
    "bval ws + bval ys + unat (hi ?y AND 1) = bval xs + 4294967296 ^ length xs * unat b" by simp_all
  then show ?case using st(1) r(2) by simp
qed simp

subsection \<open>Subtraction of a multiple\<close>

fun quorem_loop :: "limb \<Rightarrow> limb list \<Rightarrow> limb list \<Rightarrow> 64 word \<Rightarrow> 64 word \<Rightarrow> limb list" where
  \<comment> \<open>the words of \<open>S\<close> and of \<open>b\<close>\<close>
  "quorem_loop q (s # ss) (x # xs) carry borrow =
     (let ys = ucast s * ucast q + carry;
          y = ucast x - (ys AND 0xffffffff) - borrow
      in lo y # quorem_loop q ss xs (hi ys) (hi y AND 1))"
| "quorem_loop q ss xs carry borrow = []"

fun quorem_sub :: "limb list \<Rightarrow> limb list \<Rightarrow> 64 word \<Rightarrow> 64 word \<Rightarrow> limb list" where
  "quorem_sub (s # ss) (x # xs) carry borrow =
     (let ys = ucast s + carry;
          y = ucast x - (ys AND 0xffffffff) - borrow
      in lo y # quorem_sub ss xs (hi ys) (hi y AND 1))"
| "quorem_sub ss xs carry borrow = []"

lemma quorem_sub_loop: "quorem_sub ss xs carry borrow = quorem_loop 1 ss xs carry borrow"
  by (induction ss xs carry borrow rule: quorem_sub.induct) (simp_all add: Let_def)

lemma unat_low: "unat (y AND 0xffffffff :: 64 word) = unat y mod 4294967296"
  unfolding mask32 take_bit_eq_mask[symmetric] unsigned_take_bit_eq by (simp add: take_bit_eq_mod)

lemma quorem_loop_spec:
  "length ss = length xs \<Longrightarrow> unat carry < 4294967296 \<Longrightarrow> unat borrow \<le> 1 \<Longrightarrow>
   \<exists>k. length (quorem_loop q ss xs carry borrow) = length xs
     \<and> bval (quorem_loop q ss xs carry borrow) + unat q * bval ss + unat carry + unat borrow
       = bval xs + 4294967296 ^ length xs * k"
proof (induction q ss xs carry borrow rule: quorem_loop.induct)
  case (1 q s ss x xs carry borrow)
  let ?ys = "ucast s * ucast q + carry"
  let ?y = "ucast x - (?ys AND 0xffffffff) - borrow"
  have ys: "unat ?ys = unat s * unat q + unat carry"
    using multadd_word[of "ucast q" carry s] 1(3) by (simp add: unat_limb)
  have "unat (?ys AND 0xffffffff) < 4294967296" by (simp add: unat_low)
  note st = sub_step[OF this 1(4), of x]
  obtain k where k: "length (quorem_loop q ss xs (hi ?ys) (hi ?y AND 1)) = length xs"
    "bval (quorem_loop q ss xs (hi ?ys) (hi ?y AND 1)) + unat q * bval ss + unat (hi ?ys) + unat (hi ?y AND 1)
       = bval xs + 4294967296 ^ length xs * k"
    using 1(1)[OF refl refl _ hi_less st(2)] 1(2) by auto
  let ?r = "quorem_loop q ss xs (hi ?ys) (hi ?y AND 1)"
  have "unat (?ys AND 0xffffffff) + 4294967296 * unat (hi ?ys) = unat s * unat q + unat carry"
    unfolding unat_low unat_hi ys by simp
  then have "bval (lo ?y # ?r) + unat q * bval (s # ss) + unat carry + unat borrow
      = (unat (lo ?y) + unat (?ys AND 0xffffffff) + unat borrow)
        + 4294967296 * (bval ?r + unat q * bval ss + unat (hi ?ys))"
    by (simp add: algebra_simps)
  also have "\<dots> = unat x + 4294967296 * (bval ?r + unat q * bval ss + unat (hi ?ys) + unat (hi ?y AND 1))"
    unfolding st(1) by (simp add: algebra_simps)
  also have "\<dots> = bval (x # xs) + 4294967296 ^ length (x # xs) * k"
    unfolding k(2) by (simp add: algebra_simps)
  finally show ?case using k(1) by (auto simp: Let_def)
qed auto

lemma quorem_loop_exact:
  assumes "length ss = length xs" "unat q * bval ss \<le> bval xs"
  shows "length (quorem_loop q ss xs 0 0) = length xs
    \<and> bval (quorem_loop q ss xs 0 0) = bval xs - unat q * bval ss"
proof -
  obtain k where k: "length (quorem_loop q ss xs 0 0) = length xs"
    "bval (quorem_loop q ss xs 0 0) + unat q * bval ss = bval xs + 4294967296 ^ length xs * k"
    using quorem_loop_spec[OF assms(1), of 0 0 q] by auto
  have "4294967296 ^ length xs * k \<le> bval (quorem_loop q ss xs 0 0)" using k(2) assms(2) by linarith
  also have "\<dots> < 4294967296 ^ length xs * 1" using bval_less[of "quorem_loop q ss xs 0 0"] k(1) by simp
  finally have "k = 0" by (metis mult_less_cancel1 less_one)
  then show ?thesis using k by simp
qed

subsection \<open>Leading zero words\<close>

fun trim_zeros :: "limb list \<Rightarrow> int \<Rightarrow> int" where
  \<comment> \<open>the words from the top down, and their number\<close>
  "trim_zeros (x # xs) n = (if x = 0 then trim_zeros xs (n - 1) else n)"
| "trim_zeros [] n = n"

lemma trim_zeros_spec:
  "int (length xs) \<le> n \<Longrightarrow> \<exists>k \<le> length xs. trim_zeros (rev xs) n = n - int (length xs - k)
     \<and> bval (take k xs) = bval xs \<and> (0 < k \<longrightarrow> xs ! (k - 1) \<noteq> 0)"
proof (induction xs arbitrary: n rule: rev_induct)
  case (snoc x xs)
  show ?case
  proof (cases "x = 0")
    case True
    obtain k where "k \<le> length xs" "trim_zeros (rev xs) (n - 1) = n - 1 - int (length xs - k)"
      "bval (take k xs) = bval xs" "0 < k \<longrightarrow> xs ! (k - 1) \<noteq> 0"
      using snoc.IH[of "n - 1"] snoc.prems by auto
    then show ?thesis using True
      by (intro exI[of _ k]) (auto simp: bval_append nth_append)
  next
    case False
    then show ?thesis by (intro exI[of _ "Suc (length xs)"]) simp
  qed
qed simp

end
