(* ===== verification/Bigint.thy ===== *)
theory Bigint
  imports Limbs
begin

text \<open>
The storage of the bignum routines of \<open>3rd/lua-cjson/dtoa.c\<close>: the blocks (\<open>Bigint\<close>) with
  their addresses, the free lists by block size, the private memory from which small blocks come
  first, and \<open>Balloc\<close>, \<open>Bfree\<close> and \<open>Bcopy\<close> on it. A pointer is an address; reading through one
  whose block has been given back to the system, a word outside a block or a word never written
  is an error value. \<open>dt_ok\<close> is the invariant, with the set of blocks the callers own.
\<close>

section \<open>State\<close>

record bigint =
  bg_next :: "nat option"
  bg_k :: int
  bg_maxwds :: int
  bg_sign :: int
  bg_wds :: int
  bg_x :: "limb option list"        \<comment> \<open>\<open>None\<close>: not written yet\<close>

record dtoa_state =
  dt_heap :: "nat \<Rightarrow> bigint option" \<comment> \<open>the blocks, by address\<close>
  dt_fresh :: nat                   \<comment> \<open>addresses from here on are unused\<close>
  dt_freelist :: "int \<Rightarrow> nat option"
  dt_pmem :: int                    \<comment> \<open>\<open>pmem_next - private_mem\<close>\<close>
  dt_p5s :: "nat option"

definition Kmax :: int where "Kmax = 7"
definition PRIVATE_mem :: int where "PRIVATE_mem = (2304 + 7) div 8"

definition dtoa_init :: dtoa_state where
  "dtoa_init = \<lparr>dt_heap = (\<lambda>_. None), dt_fresh = 0, dt_freelist = (\<lambda>_. None), dt_pmem = 0, dt_p5s = None\<rparr>"

definition deref :: "dtoa_state \<Rightarrow> nat \<Rightarrow> bigint res" where
  "deref s a = (case dt_heap s a of None \<Rightarrow> Inl (UB Use_after_free) | Some b \<Rightarrow> Inr b)"

definition update :: "dtoa_state \<Rightarrow> nat \<Rightarrow> bigint \<Rightarrow> dtoa_state" where
  "update s a b = s\<lparr>dt_heap := (dt_heap s)(a \<mapsto> b)\<rparr>"

definition peek_words :: "bigint \<Rightarrow> int \<Rightarrow> limb list res" where
  \<comment> \<open>read the first \<open>n\<close> words\<close>
  "peek_words b n =
     (if n < 0 \<or> int (length (bg_x b)) < n then Inl (UB Oob_read)
      else if None \<in> set (take (nat n) (bg_x b)) then Inl (UB Uninit_read)
      else Inr (map the (take (nat n) (bg_x b))))"

definition poke_words :: "bigint \<Rightarrow> int \<Rightarrow> limb list \<Rightarrow> bigint res" where
  \<comment> \<open>store words from index \<open>i\<close> on\<close>
  "poke_words b i ws =
     (if i < 0 \<or> int (length (bg_x b)) < i + int (length ws) then Inl (UB Oob_write)
      else Inr (b\<lparr>bg_x := take (nat i) (bg_x b) @ map Some ws @ drop (nat i + length ws) (bg_x b)\<rparr>))"

section \<open>Allocation\<close>

definition dtoa_oom :: cerr where "dtoa_oom = Die ''Out of memory''"

definition bigint_len :: "int \<Rightarrow> int" where
  \<comment> \<open>in doubles; \<open>sizeof(Bigint)\<close> is 32\<close>
  "bigint_len x = (32 + (x - 1) * 4 + 8 - 1) div 8"

definition Balloc :: "alloc \<Rightarrow> dtoa_state \<Rightarrow> int \<Rightarrow> (dtoa_state \<times> nat) res" where
  "Balloc A s k =
     (if k < 0 then Inl (UB Oob_read)
      else case (if k \<le> Kmax then dt_freelist s k else None) of
        Some rv \<Rightarrow>
          andthen (deref s rv) (\<lambda>b.
          Inr (update (s\<lparr>dt_freelist := (dt_freelist s)(k := bg_next b)\<rparr>) rv (b\<lparr>bg_sign := 0, bg_wds := 0\<rparr>), rv))
      | None \<Rightarrow>
          if 30 < k then Inl (UB Signed_overflow)
          else (let x = push_bit (nat k) 1; len = bigint_len x; rv = dt_fresh s;
                    b = \<lparr>bg_next = None, bg_k = k, bg_maxwds = x, bg_sign = 0, bg_wds = 0,
                         bg_x = replicate (nat x) None\<rparr>;
                    s' = update (s\<lparr>dt_fresh := Suc rv\<rparr>) rv b
                in if k \<le> Kmax \<and> dt_pmem s + len \<le> PRIVATE_mem
                   then Inr (s'\<lparr>dt_pmem := dt_pmem s + len\<rparr>, rv)
                   else if A (to_size (len * 8)) then Inr (s', rv)
                   else Inl dtoa_oom))"

definition Bfree :: "dtoa_state \<Rightarrow> nat option \<Rightarrow> dtoa_state res" where
  "Bfree s v =
     (case v of
        None \<Rightarrow> Inr s
      | Some a \<Rightarrow>
          andthen (deref s a) (\<lambda>b.
          if Kmax < bg_k b then Inr (s\<lparr>dt_heap := (dt_heap s)(a := None)\<rparr>)
          else Inr (update (s\<lparr>dt_freelist := (dt_freelist s)(bg_k b := Some a)\<rparr>) a
                      (b\<lparr>bg_next := dt_freelist s (bg_k b)\<rparr>))))"

definition Bcopy :: "dtoa_state \<Rightarrow> nat \<Rightarrow> nat \<Rightarrow> dtoa_state res" where
  \<comment> \<open>copies \<open>sign\<close>, \<open>wds\<close> and \<open>y->wds\<close> words\<close>
  "Bcopy s x y =
     andthen (deref s x) (\<lambda>X.
     andthen (deref s y) (\<lambda>Y.
     let n = nat (bg_wds Y) in
     if bg_wds Y < 0 \<or> length (bg_x Y) < n then Inl (UB Oob_read)
     else if length (bg_x X) < n then Inl (UB Oob_write)
     else Inr (update s x (X\<lparr>bg_sign := bg_sign Y, bg_wds := bg_wds Y,
                             bg_x := take n (bg_x Y) @ drop n (bg_x X)\<rparr>))))"

section \<open>Ownership\<close>

text \<open>
  \<open>dt_ok s L\<close>: the blocks are those in \<open>L\<close>, which the callers own, and those on the free lists,
  each on the list of its size, linked by \<open>next\<close>; none is both, and none is lost.
\<close>

definition blk_ok :: "bigint \<Rightarrow> bool" where
  "blk_ok b \<longleftrightarrow> 0 \<le> bg_k b \<and> bg_k b \<le> 30 \<and> bg_maxwds b = 2 ^ nat (bg_k b) \<and> int (length (bg_x b)) = bg_maxwds b"

fun chain :: "(nat \<Rightarrow> bigint option) \<Rightarrow> nat option \<Rightarrow> nat list \<Rightarrow> bool" where
  "chain h p [] \<longleftrightarrow> p = None"
| "chain h p (a # as) \<longleftrightarrow> p = Some a \<and> (case h a of None \<Rightarrow> False | Some b \<Rightarrow> chain h (bg_next b) as)"

definition free_ok :: "dtoa_state \<Rightarrow> nat set \<Rightarrow> (int \<Rightarrow> nat list) \<Rightarrow> bool" where
  "free_ok s L fl \<longleftrightarrow>
     (\<forall>k. 0 \<le> k \<and> k \<le> Kmax \<longrightarrow>
        chain (dt_heap s) (dt_freelist s k) (fl k) \<and> distinct (fl k)
        \<and> (\<forall>a \<in> set (fl k). a \<notin> L \<and> (\<exists>b. dt_heap s a = Some b \<and> blk_ok b \<and> bg_k b = k)))
     \<and> (\<forall>a \<in> L. \<exists>b. dt_heap s a = Some b \<and> blk_ok b)
     \<and> (\<forall>a. dt_heap s a \<noteq> None \<longrightarrow>
          a < dt_fresh s \<and> (a \<in> L \<or> (\<exists>k. 0 \<le> k \<and> k \<le> Kmax \<and> a \<in> set (fl k))))
     \<and> 0 \<le> dt_pmem s \<and> dt_pmem s \<le> PRIVATE_mem"

definition dt_ok :: "dtoa_state \<Rightarrow> nat set \<Rightarrow> bool" where
  "dt_ok s L \<longleftrightarrow> (\<exists>fl. free_ok s L fl)"

definition same :: "nat set \<Rightarrow> dtoa_state \<Rightarrow> dtoa_state \<Rightarrow> bool" where
  "same L s s' \<longleftrightarrow> (\<forall>a \<in> L. dt_heap s' a = dt_heap s a) \<and> dt_p5s s' = dt_p5s s"

definition alloc_err :: "alloc \<Rightarrow> cerr \<Rightarrow> bool" where
  "alloc_err A e \<longleftrightarrow> e = dtoa_oom \<and> (\<exists>n. \<not> A n)"

lemma same_refl [simp]: "same L s s" by (simp add: same_def)

lemma same_trans: "same L s s' \<Longrightarrow> same L s' s'' \<Longrightarrow> same L s s''" by (simp add: same_def)

lemma same_mono: "same L s s' \<Longrightarrow> M \<subseteq> L \<Longrightarrow> same M s s'" by (auto simp: same_def)

lemma chain_upd: "chain h p as \<Longrightarrow> a \<notin> set as \<Longrightarrow> chain (h(a := x)) p as"
  by (induction h p as rule: chain.induct) (auto split: option.splits)

lemma dt_ok_init: "dt_ok dtoa_init {}"
  by (simp add: dt_ok_def free_ok_def dtoa_init_def PRIVATE_mem_def exI[of _ "\<lambda>_. []"])

lemma Balloc_spec:
  assumes ok: "dt_ok s L" and k: "0 \<le> k" "k \<le> 30"
  shows "wpr (alloc_err A) (\<lambda>(s', a). a \<notin> L \<and> dt_ok s' (insert a L) \<and> same L s s'
      \<and> (\<exists>b. dt_heap s' a = Some b \<and> blk_ok b \<and> bg_k b = k \<and> bg_sign b = 0 \<and> bg_wds b = 0))
    (Balloc A s k)"
proof -
  obtain fl where fl: "free_ok s L fl" using ok by (auto simp: dt_ok_def)
  show ?thesis
  proof (cases "if k \<le> Kmax then dt_freelist s k else None")
    case (Some rv)
    then have km: "k \<le> Kmax" "dt_freelist s k = Some rv" by (simp_all split: if_splits)
    have ch: "chain (dt_heap s) (dt_freelist s k) (fl k)" "distinct (fl k)"
      "\<forall>a \<in> set (fl k). a \<notin> L \<and> (\<exists>b. dt_heap s a = Some b \<and> blk_ok b \<and> bg_k b = k)"
      using fl k km(1) unfolding free_ok_def by blast+
    then obtain rs where rs: "fl k = rv # rs" using km(2) by (cases "fl k") auto
    obtain b where b: "dt_heap s rv = Some b" "blk_ok b" "bg_k b = k" "rv \<notin> L" using ch(3) rs by auto
    let ?b = "b\<lparr>bg_sign := 0, bg_wds := 0\<rparr>"
    let ?s = "update (s\<lparr>dt_freelist := (dt_freelist s)(k := bg_next b)\<rparr>) rv ?b"
    have r: "Balloc A s k = Inr (?s, rv)" using Some k(1) b(1) by (simp add: Balloc_def deref_def)
    have other: "rv \<notin> set (fl j)" if "0 \<le> j" "j \<le> Kmax" "j \<noteq> k" for j
      using fl that b(1,3) unfolding free_ok_def by fastforce
    have "free_ok ?s (insert rv L) (fl(k := rs))"
      unfolding free_ok_def
    proof (intro conjI allI impI ballI)
      fix j assume j: "0 \<le> j \<and> j \<le> Kmax"
      have "chain (dt_heap s) (dt_freelist s j) (fl j)" using fl j unfolding free_ok_def by blast
      then show "chain (dt_heap ?s) (dt_freelist ?s j) ((fl(k := rs)) j)"
        using other[of j] j ch(2) rs b(1) by (auto simp: update_def intro!: chain_upd)
      show "distinct ((fl(k := rs)) j)" using fl j ch(2) rs unfolding free_ok_def by auto
      fix a assume a: "a \<in> set ((fl(k := rs)) j)"
      then have a': "a \<in> set (fl j)" "a \<noteq> rv" using rs other[of j] j ch(2) by (auto split: if_splits)
      then have "a \<notin> L \<and> (\<exists>b. dt_heap s a = Some b \<and> blk_ok b \<and> bg_k b = j)"
        using fl j unfolding free_ok_def by blast
      then show "a \<notin> insert rv L" "\<exists>b. dt_heap ?s a = Some b \<and> blk_ok b \<and> bg_k b = j"
        using a'(2) by (simp_all add: update_def)
    next
      fix a assume "a \<in> insert rv L"
      then show "\<exists>b. dt_heap ?s a = Some b \<and> blk_ok b"
        using fl b unfolding free_ok_def by (auto simp: update_def blk_ok_def)
    next
      fix a assume "dt_heap ?s a \<noteq> None"
      then have "dt_heap s a \<noteq> None" using b(1) by (auto simp: update_def split: if_splits)
      then have *: "a < dt_fresh s" "a \<in> L \<or> (\<exists>j. 0 \<le> j \<and> j \<le> Kmax \<and> a \<in> set (fl j))"
        using fl unfolding free_ok_def by blast+
      show "a < dt_fresh ?s" using *(1) by (simp add: update_def)
      show "a \<in> insert rv L \<or> (\<exists>j. 0 \<le> j \<and> j \<le> Kmax \<and> a \<in> set ((fl(k := rs)) j))"
        using *(2) rs by (metis fun_upd_apply insertCI set_ConsD)
    qed (use fl in \<open>simp_all add: free_ok_def update_def\<close>)
    then show ?thesis unfolding r using b by (auto simp: dt_ok_def same_def update_def blk_ok_def)
  next
    case None
    let ?x = "push_bit (nat k) (1 :: int)"
    let ?b = "\<lparr>bg_next = None, bg_k = k, bg_maxwds = ?x, bg_sign = 0, bg_wds = 0, bg_x = replicate (nat ?x) None\<rparr>"
    have x: "?x = 2 ^ nat k" "0 \<le> ?x" by (simp_all add: push_bit_eq_mult)
    have bk: "blk_ok ?b" using k x by (simp add: blk_ok_def)
    have fr: "dt_fresh s \<notin> L" "\<forall>j. 0 \<le> j \<and> j \<le> Kmax \<longrightarrow> dt_fresh s \<notin> set (fl j)"
      using fl unfolding free_ok_def by blast+
    have new: "free_ok (update (s\<lparr>dt_fresh := Suc (dt_fresh s)\<rparr>) (dt_fresh s) ?b\<lparr>dt_pmem := p\<rparr>) (insert (dt_fresh s) L) fl"
      if "0 \<le> p" "p \<le> PRIVATE_mem" for p
      using fl fr that bk unfolding free_ok_def
      by (auto simp: update_def less_Suc_eq intro!: chain_upd)
    have len: "0 \<le> bigint_len ?x" using x by (simp add: bigint_len_def pos_imp_zdiv_nonneg_iff)
    have p: "0 \<le> dt_pmem s" "dt_pmem s \<le> PRIVATE_mem" using fl by (simp_all add: free_ok_def)
    have r: "Balloc A s k =
      (if k \<le> Kmax \<and> dt_pmem s + bigint_len ?x \<le> PRIVATE_mem
       then Inr (update (s\<lparr>dt_fresh := Suc (dt_fresh s)\<rparr>) (dt_fresh s) ?b\<lparr>dt_pmem := dt_pmem s + bigint_len ?x\<rparr>, dt_fresh s)
       else if A (to_size (bigint_len ?x * 8))
       then Inr (update (s\<lparr>dt_fresh := Suc (dt_fresh s)\<rparr>) (dt_fresh s) ?b\<lparr>dt_pmem := dt_pmem s\<rparr>, dt_fresh s)
       else Inl dtoa_oom)"
      unfolding Balloc_def None option.case Let_def using k by (simp add: update_def)
    have post: "dt_fresh s \<notin> L \<and> dt_ok s' (insert (dt_fresh s) L) \<and> same L s s'
      \<and> (\<exists>b. dt_heap s' (dt_fresh s) = Some b \<and> blk_ok b \<and> bg_k b = k \<and> bg_sign b = 0 \<and> bg_wds b = 0)"
      if "s' = update (s\<lparr>dt_fresh := Suc (dt_fresh s)\<rparr>) (dt_fresh s) ?b\<lparr>dt_pmem := p\<rparr>" "0 \<le> p" "p \<le> PRIVATE_mem" for s' p
      using new[OF that(2,3)] fr(1) bk unfolding that(1) dt_ok_def by (auto simp: same_def update_def)
    show ?thesis unfolding r
      using post[OF refl, of "dt_pmem s + bigint_len ?x"] post[OF refl, of "dt_pmem s"] len p
      by (auto simp: alloc_err_def)
  qed
qed

lemma Bfree_spec:
  assumes ok: "dt_ok s L" and a: "a \<in> L"
  shows "\<exists>s'. Bfree s (Some a) = Inr s' \<and> dt_ok s' (L - {a}) \<and> same (L - {a}) s s'"
proof -
  obtain fl where fl: "free_ok s L fl" using ok by (auto simp: dt_ok_def)
  obtain b where b: "dt_heap s a = Some b" "blk_ok b" using fl a unfolding free_ok_def by blast
  have out: "a \<notin> set (fl j)" if "0 \<le> j" "j \<le> Kmax" for j
    using fl a that unfolding free_ok_def by blast
  show ?thesis
  proof (cases "Kmax < bg_k b")
    case True
    let ?s = "s\<lparr>dt_heap := (dt_heap s)(a := None)\<rparr>"
    have "free_ok ?s (L - {a}) fl"
      using fl out unfolding free_ok_def by (auto intro!: chain_upd)
    then show ?thesis using True b by (auto simp: Bfree_def deref_def dt_ok_def same_def)
  next
    case False
    let ?k = "bg_k b"
    have k: "0 \<le> ?k" "?k \<le> Kmax" using False b(2) by (auto simp: blk_ok_def)
    let ?b = "b\<lparr>bg_next := dt_freelist s ?k\<rparr>"
    let ?s = "update (s\<lparr>dt_freelist := (dt_freelist s)(?k := Some a)\<rparr>) a ?b"
    have "free_ok ?s (L - {a}) (fl(?k := a # fl ?k))"
      unfolding free_ok_def
    proof (intro conjI allI impI ballI)
      fix j assume j: "0 \<le> j \<and> j \<le> Kmax"
      have c: "chain (dt_heap s) (dt_freelist s j) (fl j)" "distinct (fl j)"
        using fl j unfolding free_ok_def by blast+
      show "chain (dt_heap ?s) (dt_freelist ?s j) ((fl(?k := a # fl ?k)) j)"
        using out[of j] j c(1) by (auto simp: update_def intro!: chain_upd)
      show "distinct ((fl(?k := a # fl ?k)) j)" using out[of j] j c(2) by auto
      fix c assume "c \<in> set ((fl(?k := a # fl ?k)) j)"
      then have "(c = a \<and> j = ?k) \<or> (c \<in> set (fl j) \<and> c \<noteq> a)" using out[of j] j by (auto split: if_splits)
      then show "c \<notin> L - {a}" "\<exists>b. dt_heap ?s c = Some b \<and> blk_ok b \<and> bg_k b = j"
        using fl j b(2) unfolding free_ok_def by (auto simp: update_def blk_ok_def)
    next
      fix c assume "dt_heap ?s c \<noteq> None"
      then have "dt_heap s c \<noteq> None" using b(1) by (auto simp: update_def split: if_splits)
      then have *: "c < dt_fresh s" "c \<in> L \<or> (\<exists>j. 0 \<le> j \<and> j \<le> Kmax \<and> c \<in> set (fl j))"
        using fl unfolding free_ok_def by blast+
      show "c < dt_fresh ?s" using *(1) by (simp add: update_def)
      show "c \<in> L - {a} \<or> (\<exists>j. 0 \<le> j \<and> j \<le> Kmax \<and> c \<in> set ((fl(?k := a # fl ?k)) j))"
      proof (cases "c = a")
        case True
        then show ?thesis using k by auto
      next
        case False
        have "c \<in> set (fl j) \<Longrightarrow> c \<in> set ((fl(?k := a # fl ?k)) j)" for j by auto
        then show ?thesis using *(2) False by blast
      qed
    qed (use fl in \<open>auto simp: free_ok_def update_def\<close>)
    then show ?thesis using False b by (auto simp: Bfree_def deref_def dt_ok_def same_def update_def)
  qed
qed

lemma update_spec:
  assumes "dt_ok s L" "a \<in> L" "blk_ok b"
  shows "dt_ok (update s a b) L" "same (L - {a}) s (update s a b)" "dt_heap (update s a b) a = Some b"
proof -
  obtain fl where fl: "free_ok s L fl" using assms(1) by (auto simp: dt_ok_def)
  have "a \<notin> set (fl j)" if "0 \<le> j" "j \<le> Kmax" for j
    using fl assms(2) that unfolding free_ok_def by blast
  moreover have "dt_heap s a \<noteq> None" using fl assms(2) unfolding free_ok_def by fastforce
  ultimately have "free_ok (update s a b) L fl"
    using fl assms(3) unfolding free_ok_def by (auto simp: update_def intro!: chain_upd)
  then show "dt_ok (update s a b) L" by (auto simp: dt_ok_def)
qed (auto simp: same_def update_def)

lemma dt_ok_deref: "dt_ok s L \<Longrightarrow> a \<in> L \<Longrightarrow> \<exists>b. deref s a = Inr b \<and> dt_heap s a = Some b \<and> blk_ok b"
  by (fastforce simp: dt_ok_def free_ok_def deref_def)

section \<open>Values\<close>

text \<open>
  \<open>big k b n\<close>: the block, of a size of at most \<open>2 ^ k\<close> words, holds the number \<open>n\<close> with no
  leading zero words. A loop over the words reads at least one.
\<close>

definition big :: "int \<Rightarrow> bigint \<Rightarrow> nat \<Rightarrow> bool" where
  "big k b n \<longleftrightarrow>
     blk_ok b \<and> bg_k b \<le> k \<and> 0 \<le> bg_wds b \<and> bg_wds b \<le> bg_maxwds b
     \<and> (\<exists>ws. peek_words b (max 1 (bg_wds b)) = Inr ws \<and> bval ws = n)
     \<and> (1 < bg_wds b \<longrightarrow> 4294967296 ^ nat (bg_wds b - 1) \<le> n) \<and> (bg_wds b = 0 \<longrightarrow> n = 0)"

definition big_at :: "dtoa_state \<Rightarrow> nat \<Rightarrow> int \<Rightarrow> nat \<Rightarrow> bool" where
  "big_at s a k n \<longleftrightarrow> (\<exists>b. dt_heap s a = Some b \<and> big k b n)"

lemma same_at: "same L s s' \<Longrightarrow> a \<in> L \<Longrightarrow> big_at s' a k n \<longleftrightarrow> big_at s a k n"
  by (simp add: same_def big_at_def)

lemma big_at_mono: "big_at s a k n \<Longrightarrow> k \<le> k' \<Longrightarrow> big_at s a k' n"
  by (auto simp: big_at_def big_def)

lemma blk_pos: "blk_ok b \<Longrightarrow> 1 \<le> bg_maxwds b"
  by (simp add: blk_ok_def)

lemma peek_length: "peek_words b n = Inr ws \<Longrightarrow> length ws = nat n"
  by (auto simp: peek_words_def split: if_splits)

lemma peek_iff:
  "peek_words b n = Inr ws \<longleftrightarrow> 0 \<le> n \<and> n \<le> int (length (bg_x b)) \<and> take (nat n) (bg_x b) = map Some ws"
proof
  assume "peek_words b n = Inr ws"
  then have r: "0 \<le> n" "n \<le> int (length (bg_x b))" "None \<notin> set (take (nat n) (bg_x b))"
    "ws = map the (take (nat n) (bg_x b))" by (auto simp: peek_words_def split: if_splits)
  then have "map Some ws = take (nat n) (bg_x b)"
    by (auto simp: comp_def intro!: map_idI) (metis option.collapse)
  then show "0 \<le> n \<and> n \<le> int (length (bg_x b)) \<and> take (nat n) (bg_x b) = map Some ws" using r by simp
qed (auto simp: peek_words_def comp_def)

lemma poke_at_0:
  "int (length ws) \<le> int (length (bg_x b)) \<Longrightarrow>
   poke_words b 0 ws = Inr (b\<lparr>bg_x := map Some ws @ drop (length ws) (bg_x b)\<rparr>)"
  by (simp add: poke_words_def)

lemma Bcopy_spec:
  assumes ok: "dt_ok s L" and xy: "x \<in> L" "y \<in> L" "x \<noteq> y"
    and y: "dt_heap s y = Some Y" "0 \<le> bg_wds Y" "bg_wds Y \<le> bg_maxwds Y"
    and x: "dt_heap s x = Some X" "bg_maxwds Y \<le> bg_maxwds X"
  shows "\<exists>X'. Bcopy s x y = Inr (update s x X') \<and> blk_ok X' \<and> bg_k X' = bg_k X
    \<and> bg_maxwds X' = bg_maxwds X \<and> bg_wds X' = bg_wds Y \<and> bg_sign X' = bg_sign Y
    \<and> take (nat (bg_wds Y)) (bg_x X') = take (nat (bg_wds Y)) (bg_x Y)"
proof -
  have b: "blk_ok X" "blk_ok Y" using dt_ok_deref[OF ok] xy y(1) x(1) by fastforce+
  then have "nat (bg_wds Y) \<le> length (bg_x Y)" "nat (bg_wds Y) \<le> length (bg_x X)"
    using x(2) y(2,3) unfolding blk_ok_def by linarith+
  then show ?thesis using x(1) y(1,2) b(1) by (auto simp: Bcopy_def deref_def blk_ok_def Let_def)
qed

end
