(* ===== verification/Bigint_Ops.thy ===== *)
theory Bigint_Ops
  imports Bigint
begin

text \<open>
The arithmetic of \<open>3rd/lua-cjson/dtoa.c\<close> on bignums: \<open>multadd\<close>, \<open>s2b\<close>, \<open>i2b\<close>, \<open>mult\<close>,
  \<open>pow5mult\<close>, \<open>lshift\<close>, \<open>cmp\<close> and \<open>diff\<close>. An operation that consumes its argument satisfies
  \<open>becomes\<close>, one that returns a new number \<open>made\<close>: the number returned is the right one, every
  other block is left alone, and no block is lost. The only failure is an exhausted allocator.
\<close>

section \<open>Multiplying by a small number and adding\<close>

definition grow_block :: "alloc \<Rightarrow> dtoa_state \<Rightarrow> nat \<Rightarrow> (dtoa_state \<times> nat) res" where
  \<comment> \<open>move to a block of twice the size\<close>
  "grow_block A s b =
     andthen (deref s b) (\<lambda>B.
     andthen (Balloc A s (bg_k B + 1)) (\<lambda>(s, b1).
     andthen (Bcopy s b1 b) (\<lambda>s.
     andthen (Bfree s (Some b)) (\<lambda>s. Inr (s, b1)))))"

definition push_word :: "alloc \<Rightarrow> dtoa_state \<Rightarrow> nat \<Rightarrow> int \<Rightarrow> limb \<Rightarrow> (dtoa_state \<times> nat) res" where
  \<comment> \<open>store a word at index \<open>wds\<close>, with a larger block if this one is full\<close>
  "push_word A s b wds w =
     andthen (deref s b) (\<lambda>B.
     andthen (if bg_maxwds B \<le> wds then grow_block A s b else Inr (s, b)) (\<lambda>(s, b).
     andthen (deref s b) (\<lambda>B.
     andthen (poke_words B wds [w]) (\<lambda>B.
     andthen (c_int (wds + 1)) (\<lambda>wds.
     Inr (update s b (B\<lparr>bg_wds := wds\<rparr>), b))))))"

definition multadd :: "alloc \<Rightarrow> dtoa_state \<Rightarrow> nat \<Rightarrow> int \<Rightarrow> int \<Rightarrow> (dtoa_state \<times> nat) res" where
  "multadd A s b m a =
     andthen (deref s b) (\<lambda>B.
     andthen (peek_words B (max 1 (bg_wds B))) (\<lambda>xs.
     let (ys, carry) = multadd_loop (word_of_int m) xs (word_of_int a) in
     andthen (poke_words B 0 ys) (\<lambda>B.
     let s = update s b B in
     if carry \<noteq> 0 then push_word A s b (bg_wds B) (ucast carry) else Inr (s, b))))"

text \<open>The contract of an operation that consumes a number and returns another.\<close>

definition becomes :: "dtoa_state \<Rightarrow> nat set \<Rightarrow> nat \<Rightarrow> int \<Rightarrow> nat \<Rightarrow> dtoa_state \<times> nat \<Rightarrow> bool" where
  "becomes s L a k n r \<longleftrightarrow>
     (case r of (s', a') \<Rightarrow>
        (a' = a \<or> a' \<notin> L) \<and> dt_ok s' (insert a' (L - {a})) \<and> same (L - {a}) s s' \<and> big_at s' a' k n)"

lemma grow_block_spec:
  assumes ok: "dt_ok s L" and a: "a \<in> L" "dt_heap s a = Some B" and k: "bg_k B \<le> 29"
    and w: "0 \<le> bg_wds B" "bg_wds B \<le> bg_maxwds B"
  shows "wpr (alloc_err A) (\<lambda>(s', a'). a' \<notin> L \<and> dt_ok s' (insert a' (L - {a})) \<and> same (L - {a}) s s'
      \<and> (\<exists>B'. dt_heap s' a' = Some B' \<and> blk_ok B' \<and> bg_k B' = bg_k B + 1 \<and> bg_wds B' = bg_wds B
            \<and> take (nat (bg_wds B)) (bg_x B') = take (nat (bg_wds B)) (bg_x B)))
    (grow_block A s a)"
proof -
  have B: "deref s a = Inr B" "blk_ok B" using dt_ok_deref[OF ok a(1)] a(2) by auto
  then have k1: "0 \<le> bg_k B + 1" "bg_k B + 1 \<le> 30" using k by (simp_all add: blk_ok_def)
  show ?thesis unfolding grow_block_def B(1) andthen_simps wpr_andthen
  proof (rule wpr_conseq[OF Balloc_spec[OF ok k1]])
    fix r
    assume "case r of (s', a) \<Rightarrow> a \<notin> L \<and> dt_ok s' (insert a L) \<and> same L s s'
      \<and> (\<exists>b. dt_heap s' a = Some b \<and> blk_ok b \<and> bg_k b = bg_k B + 1 \<and> bg_sign b = 0 \<and> bg_wds b = 0)"
    then obtain s1 b1 X where r: "r = (s1, b1)" and b1: "b1 \<notin> L" "dt_ok s1 (insert b1 L)" "same L s s1"
      and X: "dt_heap s1 b1 = Some X" "blk_ok X" "bg_k X = bg_k B + 1" by (cases r) auto
    have aB: "dt_heap s1 a = Some B" using b1(3) a by (simp add: same_def)
    have ne: "b1 \<noteq> a" using b1(1) a(1) by blast
    have "(2::int) ^ nat (bg_k B) \<le> 2 ^ nat (bg_k B + 1)" by (rule power_increasing) simp_all
    then have m: "bg_maxwds B \<le> bg_maxwds X" using B(2) X(2,3) by (simp add: blk_ok_def)
    obtain X' where X': "Bcopy s1 b1 a = Inr (update s1 b1 X')" "blk_ok X'" "bg_k X' = bg_k X"
      "bg_wds X' = bg_wds B" "take (nat (bg_wds B)) (bg_x X') = take (nat (bg_wds B)) (bg_x B)"
      using Bcopy_spec[OF b1(2) _ _ ne aB w X(1) m] a(1) by auto
    note u = update_spec[OF b1(2) insertI1 X'(2)]
    have "a \<in> insert b1 L" using a(1) by simp
    from Bfree_spec[OF u(1) this] obtain s2 where s2: "Bfree (update s1 b1 X') (Some a) = Inr s2"
      "dt_ok s2 (insert b1 L - {a})" "same (insert b1 L - {a}) (update s1 b1 X') s2" by blast
    have "dt_heap s2 b1 = Some X'" using s2(3) ne u(3) by (simp add: same_def)
    moreover have "same (L - {a}) s s2"
      using b1(1,3) u(2) s2(3) by (auto simp: same_def)
    moreover have "insert b1 L - {a} = insert b1 (L - {a})" using ne by auto
    ultimately show "wpr (alloc_err A) (\<lambda>(s', a'). a' \<notin> L \<and> dt_ok s' (insert a' (L - {a})) \<and> same (L - {a}) s s'
        \<and> (\<exists>B'. dt_heap s' a' = Some B' \<and> blk_ok B' \<and> bg_k B' = bg_k B + 1 \<and> bg_wds B' = bg_wds B
            \<and> take (nat (bg_wds B)) (bg_x B') = take (nat (bg_wds B)) (bg_x B)))
      (case r of (s, b1) \<Rightarrow> andthen (Bcopy s b1 a) (\<lambda>s. andthen (Bfree s (Some a)) (\<lambda>s. Inr (s, b1))))"
      unfolding r prod.case X'(1) andthen_simps s2(1) using X' s2 b1(1) X(3) by simp
  qed
qed

lemma push_word_spec:
  assumes ok: "dt_ok s L" and a: "a \<in> L" "dt_heap s a = Some B" and k: "bg_k B \<le> k" "bg_maxwds B \<le> bg_wds B \<Longrightarrow> bg_k B + 1 \<le> k \<and> k \<le> 30"
    and w: "1 \<le> bg_wds B" "bg_wds B \<le> bg_maxwds B" and ws: "peek_words B (bg_wds B) = Inr ws" and v: "v \<noteq> 0"
  shows "wpr (alloc_err A) (becomes s L a k (bval ws + 4294967296 ^ nat (bg_wds B) * unat v))
    (push_word A s a (bg_wds B) v)"
proof -
  let ?w = "bg_wds B" let ?n = "bval ws + 4294967296 ^ nat ?w * unat v"
  have B: "deref s a = Inr B" "blk_ok B" using dt_ok_deref[OF ok a(1)] a(2) by auto
  have tk: "take (nat ?w) (bg_x B) = map Some ws" "length ws = nat ?w" using ws peek_length[OF ws] by (auto simp: peek_iff)
  have le30: "bg_maxwds B \<le> 2 ^ 30"
  proof -
    have "(2::int) ^ nat (bg_k B) \<le> 2 ^ 30" by (rule power_increasing) (use B(2) in \<open>auto simp: blk_ok_def\<close>)
    then show ?thesis using B(2) by (simp add: blk_ok_def)
  qed
  have fin: "wpr (alloc_err A) (becomes s L a k ?n)
      (andthen (deref s1 b) (\<lambda>B. andthen (poke_words B ?w [v]) (\<lambda>B. andthen (c_int (?w + 1)) (\<lambda>wds.
         Inr (update s1 b (B\<lparr>bg_wds := wds\<rparr>), b)))))"
    if b: "b = a \<or> b \<notin> L" "dt_ok s1 (insert b (L - {a}))" "same (L - {a}) s s1" "dt_heap s1 b = Some C"
      "bg_k C \<le> k" "take (nat ?w) (bg_x C) = map Some ws" "?w < bg_maxwds C" for s1 b C
  proof -
    have C: "deref s1 b = Inr C" "blk_ok C" using dt_ok_deref[OF b(2), of b] b(4) by auto
    let ?C = "C\<lparr>bg_x := take (nat ?w) (bg_x C) @ Some v # drop (nat ?w + 1) (bg_x C), bg_wds := ?w + 1\<rparr>"
    have len: "nat ?w < length (bg_x C)" using b(7) C(2) w(1) unfolding blk_ok_def by linarith
    have ok': "blk_ok ?C" using C(2) len by (auto simp: blk_ok_def)
    note u = update_spec[OF b(2) insertI1 ok']
    have "4294967296 ^ nat ?w * 1 \<le> 4294967296 ^ nat ?w * unat v"
      using v by (intro mult_le_mono2) (simp add: unat_gt_0 Suc_le_eq)
    then have norm: "4294967296 ^ nat ?w \<le> ?n" by linarith
    have "peek_words ?C (?w + 1) = Inr (ws @ [v])"
      using w(1) len b(6) tk(2) by (auto simp: peek_iff nat_add_distrib)
    then have "big k ?C ?n" using ok' b(5,7) w(1) norm tk(2) by (auto simp: big_def bval_append)
    moreover have "same (L - {a}) s (update s1 b ?C)"
      using b(1,3) u(2) by (auto simp: same_def update_def)
    moreover have "poke_words C ?w [v] = Inr (?C\<lparr>bg_wds := bg_wds C\<rparr>)"
      using w(1) len by (simp add: poke_words_def)
    ultimately show ?thesis using C(1) u(1,3) b(1) w le30 by (simp add: becomes_def big_at_def int_ok_iff)
  qed
  show ?thesis
  proof (cases "bg_maxwds B \<le> ?w")
    case False
    then have "push_word A s a ?w v = andthen (deref s a) (\<lambda>B. andthen (poke_words B ?w [v]) (\<lambda>B.
        andthen (c_int (?w + 1)) (\<lambda>wds. Inr (update s a (B\<lparr>bg_wds := wds\<rparr>), a))))"
      by (simp add: push_word_def B(1))
    then show ?thesis using fin[of a s B] ok a k(1) tk(1) False by (simp add: insert_absorb)
  next
    case True
    have k29: "bg_k B \<le> 29" using k(2) True by simp
    have p: "push_word A s a ?w v = andthen (grow_block A s a) (\<lambda>(s, b). andthen (deref s b) (\<lambda>B.
        andthen (poke_words B ?w [v]) (\<lambda>B. andthen (c_int (?w + 1)) (\<lambda>wds. Inr (update s b (B\<lparr>bg_wds := wds\<rparr>), b)))))"
      using True by (simp add: push_word_def B(1))
    have grown: "?w < bg_maxwds C" if "blk_ok C" "bg_k C = bg_k B + 1" for C
    proof -
      have "(2::int) ^ nat (bg_k B) < 2 ^ nat (bg_k B + 1)"
        by (rule power_strict_increasing) (use B(2) in \<open>simp_all add: blk_ok_def\<close>)
      then have "bg_maxwds B < bg_maxwds C" using that B(2) by (simp add: blk_ok_def)
      then show ?thesis using w(2) by simp
    qed
    show ?thesis unfolding p wpr_andthen[of _ _ "grow_block A s a"]
    proof (rule wpr_conseq[OF grow_block_spec[OF ok a k29 _ w(2)]], use w in simp, clarify)
      fix s1 b C
      assume "b \<notin> L" "dt_ok s1 (insert b (L - {a}))" "same (L - {a}) s s1" "dt_heap s1 b = Some C"
        "blk_ok C" "bg_k C = bg_k B + 1" "take (nat ?w) (bg_x C) = take (nat ?w) (bg_x B)"
      then show "wpr (alloc_err A) (becomes s L a k ?n) (andthen (deref s1 b) (\<lambda>B.
        andthen (poke_words B ?w [v]) (\<lambda>B. andthen (c_int (?w + 1)) (\<lambda>wds. Inr (update s1 b (B\<lparr>bg_wds := wds\<rparr>), b)))))"
        using grown[of C] tk(1) k(2) True by (intro fin) auto
    qed
  qed
qed

lemma multadd_spec:
  assumes ok: "dt_ok s L" and a: "a \<in> L" "big_at s a k n" and K: "k \<le> K" "K \<le> 30" "k + 1 \<le> K \<or> n * nat m + nat c < 4294967296 ^ (2 ^ nat K)"
    and m: "0 < m" "m \<le> INT_MAX" and c: "0 \<le> c" "c \<le> INT_MAX" and pos: "0 < n \<or> c = 0"
  shows "wpr (alloc_err A) (becomes s L a K (n * nat m + nat c)) (multadd A s a m c)"
proof -
  obtain B where B: "dt_heap s a = Some B" "big k B n" using a(2) by (auto simp: big_at_def)
  then have d: "deref s a = Inr B" by (simp add: deref_def)
  let ?w = "bg_wds B"
  obtain xs where xs: "peek_words B (max 1 ?w) = Inr xs" "bval xs = n" using B(2) by (auto simp: big_def)
  have bk: "blk_ok B" "bg_k B \<le> k" "0 \<le> ?w" "?w \<le> bg_maxwds B" "?w = 0 \<longrightarrow> n = 0"
    "1 < ?w \<longrightarrow> 4294967296 ^ nat (?w - 1) \<le> n"
    using B(2) by (auto simp: big_def)
  have um: "unat (word_of_int m :: 64 word) = nat m" "unat (word_of_int c :: 64 word) = nat c"
    using m c by (simp_all add: INT_MAX_def unsigned_of_int take_bit_int_eq_self)
  obtain ys carry where l: "multadd_loop (word_of_int m) xs (word_of_int c) = (ys, carry)" by fastforce
  have len: "length xs = nat (max 1 ?w)" using peek_length[OF xs(1)] .
  have sp: "length ys = length xs" "unat carry < 4294967296"
    "bval ys + 4294967296 ^ length xs * unat carry = n * nat m + nat c"
    using multadd_loop_spec[of "word_of_int m" "word_of_int c" xs ys carry] l um m c xs(2)
    by (simp_all add: INT_MAX_def)
  let ?B = "B\<lparr>bg_x := map Some ys @ drop (length ys) (bg_x B)\<rparr>"
  have fits: "int (length ys) \<le> int (length (bg_x B))"
    using len sp(1) xs(1) by (auto simp: peek_iff)
  have ok': "blk_ok ?B" using bk(1) fits by (auto simp: blk_ok_def)
  note u = update_spec[OF ok a(1) ok']
  have pk: "peek_words ?B (max 1 ?w) = Inr ys" using len sp(1) fits bk(3) by (auto simp: peek_iff)
  have run: "multadd A s a m c = (if carry \<noteq> 0 then push_word A (update s a ?B) a ?w (ucast carry)
      else Inr (update s a ?B, a))"
    using d xs(1) l poke_at_0[OF fits] by (simp add: multadd_def Let_def)
  have trans: "becomes s L a K v r" if "becomes (update s a ?B) L a K v r" for v r
    using that same_trans[OF u(2)] by (auto simp: becomes_def)
  show ?thesis
  proof (cases "carry = 0")
    case True
    have "1 \<le> nat m" using m(1) by linarith
    then have "n \<le> n * nat m" by simp
    then have "1 < ?w \<longrightarrow> 4294967296 ^ nat (?w - 1) \<le> n * nat m + nat c" using bk(6) by linarith
    then have "big K ?B (n * nat m + nat c)"
      using ok' bk pk sp(3) True pos K(1) by (auto simp: big_def)
    then show ?thesis using run True u a(1) by (simp add: becomes_def big_at_def insert_absorb)
  next
    case False
    have w1: "1 \<le> ?w"
    proof (rule ccontr)
      assume "\<not> 1 \<le> ?w"
      then have "?w = 0" "n = 0" "c = 0" using bk(3,5) pos by auto
      then have "bval ys + 4294967296 ^ length xs * unat carry = 0" using sp(3) by simp
      then show False using False by (simp add: unat_eq_0)
    qed
    have uc: "unat (ucast carry :: limb) = unat carry"
      using sp(2) by (simp add: unsigned_ucast_eq take_bit_eq_mod)
    then have uz: "(ucast carry :: limb) \<noteq> 0" using False by (metis unat_eq_0)
    have gr: "bg_k B + 1 \<le> K \<and> K \<le> 30" if full: "bg_maxwds B \<le> ?w"
    proof -
      have "1 \<le> unat carry" using False by (simp add: Suc_le_eq unat_gt_0)
      then have "4294967296 ^ length xs * 1 \<le> 4294967296 ^ length xs * unat carry" by (rule mult_le_mono2)
      then have v: "4294967296 ^ length xs \<le> n * nat m + nat c" using sp(3) by linarith
      have l2: "length xs = 2 ^ nat (bg_k B)"
        using len w1 full bk(1,4) by (simp add: blk_ok_def nat_power_eq)
      have "bg_k B < K"
      proof (rule ccontr)
        assume "\<not> bg_k B < K"
        then have e: "bg_k B = k" "k = K" using bk(2) K(1) by simp_all
        then have "n * nat m + nat c < 4294967296 ^ length xs" using K(3) l2 by simp
        then show False using v by simp
      qed
      then show ?thesis using K(2) by simp
    qed
    have kB: "bg_k (?B) \<le> K" "bg_maxwds ?B \<le> bg_wds ?B \<Longrightarrow> bg_k ?B + 1 \<le> K \<and> K \<le> 30" using bk(2) K(1) gr by simp_all
    from push_word_spec[OF u(1) a(1) u(3) kB _ _ _ uz, of ys A]
    have "wpr (alloc_err A) (becomes (update s a ?B) L a K (n * nat m + nat c))
        (push_word A (update s a ?B) a ?w (ucast carry))"
      using bk w1 pk sp(3) len uc by (simp add: max_def split: if_splits)
    then show ?thesis unfolding run using False by (auto intro: wpr_conseq trans)
  qed
qed

section \<open>New numbers\<close>

definition put_words :: "dtoa_state \<Rightarrow> nat \<Rightarrow> limb list \<Rightarrow> int \<Rightarrow> int \<Rightarrow> dtoa_state res" where
  \<comment> \<open>store the words of a block, its sign and \<open>wds\<close>\<close>
  "put_words s b ws sign wds =
     andthen (deref s b) (\<lambda>B.
     andthen (poke_words B 0 ws) (\<lambda>B.
     Inr (update s b (B\<lparr>bg_sign := sign, bg_wds := wds\<rparr>))))"

definition i2b :: "alloc \<Rightarrow> dtoa_state \<Rightarrow> int \<Rightarrow> (dtoa_state \<times> nat) res" where
  "i2b A s i =
     andthen (Balloc A s 1) (\<lambda>(s, b).
     andthen (put_words s b [word_of_int i] 0 1) (\<lambda>s. Inr (s, b)))"

text \<open>The contract of an operation that returns a new number, with its sign.\<close>

definition made :: "dtoa_state \<Rightarrow> nat set \<Rightarrow> int \<Rightarrow> nat \<Rightarrow> int \<Rightarrow> dtoa_state \<times> nat \<Rightarrow> bool" where
  "made s L k n sg r \<longleftrightarrow>
     (case r of (s', a) \<Rightarrow>
        a \<notin> L \<and> dt_ok s' (insert a L) \<and> same L s s'
        \<and> (\<exists>b. dt_heap s' a = Some b \<and> big k b n \<and> bg_sign b = sg))"

lemma put_words_spec:
  assumes ok: "dt_ok s L" and b: "b \<in> L" "dt_heap s b = Some B"
    and ws: "int (length ws) \<le> bg_maxwds B" "0 \<le> w" "max 1 w \<le> int (length ws)"
    and n: "bval (take (nat (max 1 w)) ws) = n" "1 < w \<longrightarrow> 4294967296 ^ nat (w - 1) \<le> n" "w = 0 \<longrightarrow> n = 0"
  shows "\<exists>s' b'. put_words s b ws sg w = Inr s' \<and> dt_ok s' L \<and> same (L - {b}) s s'
    \<and> dt_heap s' b = Some b' \<and> big (bg_k B) b' n \<and> bg_sign b' = sg"
proof -
  have B: "deref s b = Inr B" "blk_ok B" using dt_ok_deref[OF ok b(1)] b(2) by auto
  let ?B = "B\<lparr>bg_x := map Some ws @ drop (length ws) (bg_x B), bg_sign := sg, bg_wds := w\<rparr>"
  have fits: "int (length ws) \<le> int (length (bg_x B))" using ws(1) B(2) by (simp add: blk_ok_def)
  have ok': "blk_ok ?B" using B(2) fits by (auto simp: blk_ok_def)
  note u = update_spec[OF ok b(1) ok']
  have "peek_words ?B (max 1 w) = Inr (take (nat (max 1 w)) ws)"
    using ws(3) fits by (auto simp: peek_iff take_map)
  then have "big (bg_k B) ?B n" using ok' ws n by (auto simp: big_def)
  then show ?thesis using u B(1) poke_at_0[OF fits] by (auto simp: put_words_def)
qed

lemma Balloc_put:
  assumes ok: "dt_ok s L" and k: "0 \<le> k" "k \<le> 30" "k \<le> k'" and ws: "int (length ws) \<le> 2 ^ nat k"
    and w: "0 \<le> w" "max 1 w \<le> int (length ws)"
    and n: "bval (take (nat (max 1 w)) ws) = n" "1 < w \<longrightarrow> 4294967296 ^ nat (w - 1) \<le> n" "w = 0 \<longrightarrow> n = 0"
  shows "wpr (alloc_err A) (made s L k' n sg)
    (andthen (Balloc A s k) (\<lambda>(s, b). andthen (put_words s b ws sg w) (\<lambda>s. Inr (s, b))))"
  unfolding wpr_andthen[of _ _ "Balloc A s k"]
proof (rule wpr_conseq[OF Balloc_spec[OF ok k(1,2)]])
  fix r
  assume "case r of (s', a) \<Rightarrow> a \<notin> L \<and> dt_ok s' (insert a L) \<and> same L s s'
      \<and> (\<exists>b. dt_heap s' a = Some b \<and> blk_ok b \<and> bg_k b = k \<and> bg_sign b = 0 \<and> bg_wds b = 0)"
  then obtain s1 b B where r: "r = (s1, b)" "b \<notin> L" "dt_ok s1 (insert b L)" "same L s s1"
    "dt_heap s1 b = Some B" "blk_ok B" "bg_k B = k" by (cases r) auto
  have "int (length ws) \<le> bg_maxwds B" using ws r(6,7) by (simp add: blk_ok_def)
  from put_words_spec[OF r(3) _ r(5) this w n, of sg] obtain s2 b' where s2:
    "put_words s1 b ws sg w = Inr s2" "dt_ok s2 (insert b L)" "same (insert b L - {b}) s1 s2"
    "dt_heap s2 b = Some b'" "big (bg_k B) b' n" "bg_sign b' = sg" by auto
  have "same L s s2" using r(2,4) s2(3) by (auto simp: same_def)
  moreover have "big k' b' n" using s2(5) r(7) k(3) by (auto simp: big_def)
  ultimately show "wpr (alloc_err A) (made s L k' n sg)
      (case r of (s, b) \<Rightarrow> andthen (put_words s b ws sg w) (\<lambda>s. Inr (s, b)))"
    using r s2 by (auto simp: made_def)
qed

lemma i2b_spec:
  assumes "dt_ok s L" "0 \<le> i" "i \<le> INT_MAX"
  shows "wpr (alloc_err A) (made s L 1 (nat i) 0) (i2b A s i)"
proof -
  have "unat (word_of_int i :: limb) = nat i"
    using assms by (simp add: INT_MAX_def unsigned_of_int take_bit_int_eq_self)
  then show ?thesis unfolding i2b_def by (intro Balloc_put[OF assms(1)]) simp_all
qed

section \<open>Comparison\<close>

definition cmp :: "dtoa_state \<Rightarrow> nat \<Rightarrow> nat \<Rightarrow> int res" where
  "cmp s a b =
     andthen (deref s a) (\<lambda>A.
     andthen (deref s b) (\<lambda>B.
     let i = bg_wds A; j = bg_wds B in
     if i - j \<noteq> 0 then Inr (i - j)
     else if j = 0 then Inl (UB Oob_read)
     else andthen (peek_words A j) (\<lambda>xs. andthen (peek_words B j) (\<lambda>ys. Inr (cmp_loop (rev xs) (rev ys))))))"

lemma big_bounds:
  assumes "big k b n"
  shows "n < 4294967296 ^ nat (max 1 (bg_wds b))" "1 < bg_wds b \<Longrightarrow> 4294967296 ^ nat (bg_wds b - 1) \<le> n"
proof -
  obtain ws where "peek_words b (max 1 (bg_wds b)) = Inr ws" "bval ws = n" using assms by (auto simp: big_def)
  then show "n < 4294967296 ^ nat (max 1 (bg_wds b))" using bval_less[of ws] peek_length by fastforce
qed (use assms in \<open>simp add: big_def\<close>)

lemma fewer_words_less:
  assumes "big k a n" "big k' b m" "bg_wds a < bg_wds b" "0 < n \<or> 0 < m"
  shows "n < m"
proof (cases "bg_wds b = 1")
  case True
  then have "bg_wds a = 0" using assms(1,3) by (simp add: big_def)
  then show ?thesis using assms(1,4) by (simp add: big_def)
next
  case False
  then have b: "1 < bg_wds b" using assms(1,3) by (simp add: big_def)
  have "n < 4294967296 ^ nat (max 1 (bg_wds a))" by (rule big_bounds(1)[OF assms(1)])
  also have "\<dots> \<le> 4294967296 ^ nat (bg_wds b - 1)"
    by (rule power_increasing) (use assms(3) b in auto)
  also have "\<dots> \<le> m" by (rule big_bounds(2)[OF assms(2) b])
  finally show ?thesis .
qed

lemma cmp_spec:
  assumes "big_at s a k n" "big_at s b k' m" "0 < n \<or> 0 < m"
  shows "\<exists>r. cmp s a b = Inr r \<and> (r < 0 \<longleftrightarrow> n < m) \<and> (r = 0 \<longleftrightarrow> n = m)"
proof -
  obtain X Y where X: "dt_heap s a = Some X" "big k X n" and Y: "dt_heap s b = Some Y" "big k' Y m"
    using assms(1,2) by (auto simp: big_at_def)
  show ?thesis
  proof (cases "bg_wds X = bg_wds Y")
    case True
    then have w: "1 \<le> bg_wds X" using X Y assms(3) by (auto simp: big_def)
    obtain xs ys where xs: "peek_words X (bg_wds X) = Inr xs" "bval xs = n"
      and ys: "peek_words Y (bg_wds Y) = Inr ys" "bval ys = m"
      using X(2) Y(2) w True by (auto simp: big_def max_def split: if_splits)
    have "length (rev xs) = length (rev ys)" using peek_length[OF xs(1)] peek_length[OF ys(1)] True by simp
    from cmp_loop_spec[OF this] show ?thesis using X(1) Y(1) xs ys True w
      by (auto simp: cmp_def deref_def Let_def)
  next
    case False
    then consider "bg_wds X < bg_wds Y" "n < m" | "bg_wds Y < bg_wds X" "m < n"
      using fewer_words_less[OF X(2) Y(2)] fewer_words_less[OF Y(2) X(2)] assms(3) by fastforce
    then show ?thesis by cases (use X(1) Y(1) in \<open>auto simp: cmp_def deref_def Let_def\<close>)
  qed
qed

section \<open>Products\<close>

definition mult :: "alloc \<Rightarrow> dtoa_state \<Rightarrow> nat \<Rightarrow> nat \<Rightarrow> (dtoa_state \<times> nat) res" where
  "mult A s a b =
     andthen (deref s a) (\<lambda>X.
     andthen (deref s b) (\<lambda>Y.
     let (X, Y) = (if bg_wds X < bg_wds Y then (Y, X) else (X, Y)) in
     andthen (c_int (bg_wds X + bg_wds Y)) (\<lambda>wc.
     let k = (if bg_maxwds X < wc then bg_k X + 1 else bg_k X) in
     andthen (Balloc A s k) (\<lambda>(s, c).
     andthen (put_words s c (replicate (nat wc) 0) 0 0) (\<lambda>s.
     andthen (peek_words X (bg_wds X)) (\<lambda>xs.
     andthen (peek_words Y (bg_wds Y)) (\<lambda>ys.
     andthen (mult_rows xs ys (replicate (nat wc) 0)) (\<lambda>zs.
     andthen (put_words s c zs 0 (trim_zeros (rev zs) wc)) (\<lambda>s.
     Inr (s, c))))))))))"

lemma big_words:
  assumes "big k b n" "0 < n"
  shows "1 \<le> bg_wds b" "\<exists>ws. peek_words b (bg_wds b) = Inr ws \<and> bval ws = n \<and> int (length ws) = bg_wds b"
proof -
  show w: "1 \<le> bg_wds b" using assms by (auto simp: big_def)
  obtain ws where ws: "peek_words b (max 1 (bg_wds b)) = Inr ws" "bval ws = n" using assms unfolding big_def by blast
  have "max 1 (bg_wds b) = bg_wds b" using w by simp
  then show "\<exists>ws. peek_words b (bg_wds b) = Inr ws \<and> bval ws = n \<and> int (length ws) = bg_wds b"
    using ws peek_length[OF ws(1)] w by auto
qed

lemma trimmed:
  assumes "zs \<noteq> []" "w = trim_zeros (rev zs) (int (length zs))"
  shows "0 \<le> w" "max 1 w \<le> int (length zs)" "bval (take (nat (max 1 w)) zs) = bval zs"
    "1 < w \<longrightarrow> 4294967296 ^ nat (w - 1) \<le> bval zs" "w = 0 \<longrightarrow> bval zs = 0"
proof -
  obtain k where k: "k \<le> length zs" "w = int k" "bval (take k zs) = bval zs" "0 < k \<longrightarrow> zs ! (k - 1) \<noteq> 0"
    using trim_zeros_spec[of zs "int (length zs)"] assms(2) by (auto simp: of_nat_diff)
  have len: "1 \<le> length zs" using assms(1) by (cases zs) simp_all
  show "0 \<le> w" "max 1 w \<le> int (length zs)" using k len by auto
  show "w = 0 \<longrightarrow> bval zs = 0" using k(2) k(3)[symmetric] by simp
  show "bval (take (nat (max 1 w)) zs) = bval zs"
  proof (cases "k = 0")
    case True
    then have z: "bval zs = 0" using k(3)[symmetric] by simp
    then have "\<forall>z \<in> set (take 1 zs). z = 0" unfolding bval_0 by (meson in_set_takeD)
    then have "bval (take 1 zs) = 0" by (simp only: bval_0)
    then show ?thesis using True k(2) z by simp
  qed (use k in \<open>simp add: max_def\<close>)
  show "1 < w \<longrightarrow> 4294967296 ^ nat (w - 1) \<le> bval zs"
  proof
    assume w: "1 < w"
    have ne: "take k zs \<noteq> []" using w k(1,2) by auto
    have "last (take k zs) = zs ! (k - 1)" unfolding last_conv_nth[OF ne] using w k(1,2) by (simp add: min_def)
    then have "last (take k zs) \<noteq> 0" using w k(2,4) by simp
    from bval_top[OF ne this] show "4294967296 ^ nat (w - 1) \<le> bval zs" using k(1-3) by (simp add: min_absorb2 nat_diff_distrib' split: if_splits)
  qed
qed

lemma mult_spec:
  assumes ok: "dt_ok s L" and a: "a \<in> L" "big_at s a ka n" "0 < n" "ka \<le> k" and b: "b \<in> L" "big_at s b kb m" "0 < m" "kb \<le> k"
    and k: "k \<le> 29"
  shows "wpr (alloc_err A) (made s L (k + 1) (n * m) 0) (mult A s a b)"
proof -
  obtain X0 Y0 where d: "deref s a = Inr X0" "big k X0 n" "deref s b = Inr Y0" "big k Y0 m"
    using big_at_mono[OF a(2,4)] big_at_mono[OF b(2,4)] by (auto simp: big_at_def deref_def)
  obtain X Y n' m' where sw: "(if bg_wds X0 < bg_wds Y0 then (Y0, X0) else (X0, Y0)) = (X, Y)"
    "big k X n'" "big k Y m'" "n' * m' = n * m" "bg_wds Y \<le> bg_wds X" "0 < n'" "0 < m'"
  proof (cases "bg_wds X0 < bg_wds Y0")
    case True
    then show ?thesis using that[of Y0 X0 m n] d a b by (simp add: mult.commute)
  qed (use that[of X0 Y0 n m] d a b in simp)
  note X = big_words[OF sw(2,6)] and Y = big_words[OF sw(3,7)]
  obtain xs ys where xs: "peek_words X (bg_wds X) = Inr xs" "bval xs = n'" "int (length xs) = bg_wds X"
    and ys: "peek_words Y (bg_wds Y) = Inr ys" "bval ys = m'" "int (length ys) = bg_wds Y"
    using X(2) Y(2) by blast
  let ?wc = "bg_wds X + bg_wds Y" let ?z = "replicate (nat ?wc) (0 :: limb)"
  let ?k = "if bg_maxwds X < ?wc then bg_k X + 1 else bg_k X"
  have bX: "blk_ok X" "bg_k X \<le> k" "bg_wds X \<le> bg_maxwds X" using sw(2) by (simp_all add: big_def)
  have p: "bg_maxwds X = 2 ^ nat (bg_k X)" "0 \<le> bg_k X" using bX(1) by (simp_all add: blk_ok_def)
  have dbl: "(2::int) ^ nat (bg_k X + 1) = 2 * 2 ^ nat (bg_k X)" using p(2) by (simp add: nat_add_distrib)
  have room: "?wc \<le> 2 ^ nat ?k"
    using p dbl bX(3) sw(5) by auto
  have "bg_maxwds X \<le> 2 ^ 29" unfolding p(1) by (rule power_increasing) (use bX k in simp_all)
  then have "int_ok ?wc" using bX(3) sw(5) X(1) Y(1) by (simp add: int_ok_iff)
  have kk: "0 \<le> ?k" "?k \<le> 30" "?k \<le> k + 1" using p bX k by auto
  have lz: "length ?z = length xs + length ys" "int (length ?z) = ?wc" using xs(3) ys(3) X(1) Y(1) by auto
  have "\<forall>c \<in> set (drop (length xs) ?z). c = 0" by (auto dest: in_set_dropD)
  from mult_rows_spec[OF lz(1) this] obtain zs where zs: "mult_rows xs ys ?z = Inr zs"
    "length zs = length ?z" "bval zs = n * m" using xs(2) ys(2) sw(4) by auto
  let ?w = "trim_zeros (rev zs) ?wc"
  have zne: "zs \<noteq> []" using zs(2) lz(2) X(1) Y(1) by auto
  have wc: "?wc = int (length zs)" using zs(2) lz(2) by simp
  note t = trimmed[OF zne refl, folded wc, unfolded zs(3)]
  have run: "mult A s a b = andthen (Balloc A s ?k) (\<lambda>(s, c).
      andthen (put_words s c ?z 0 0) (\<lambda>s. andthen (put_words s c zs 0 ?w) (\<lambda>s. Inr (s, c))))"
    unfolding mult_def d andthen_simps sw(1) Let_def prod.case c_int_ok[OF \<open>int_ok ?wc\<close>] xs(1) ys(1) zs(1) ..
  show ?thesis unfolding run wpr_andthen[of _ _ "Balloc A s ?k"]
  proof (rule wpr_conseq[OF Balloc_spec[OF ok kk(1,2)]])
    fix r
    assume "case r of (s', c) \<Rightarrow> c \<notin> L \<and> dt_ok s' (insert c L) \<and> same L s s'
        \<and> (\<exists>b. dt_heap s' c = Some b \<and> blk_ok b \<and> bg_k b = ?k \<and> bg_sign b = 0 \<and> bg_wds b = 0)"
    then obtain s1 c C where r: "r = (s1, c)" "c \<notin> L" "dt_ok s1 (insert c L)" "same L s s1"
      "dt_heap s1 c = Some C" "blk_ok C" "bg_k C = ?k" by (cases r) auto
    have fit: "?wc \<le> bg_maxwds C" using room r(6,7) unfolding blk_ok_def by simp
    have "\<exists>s2 C2. put_words s1 c ?z 0 0 = Inr s2 \<and> dt_ok s2 (insert c L) \<and> same (insert c L - {c}) s1 s2
        \<and> dt_heap s2 c = Some C2 \<and> big (bg_k C) C2 0 \<and> bg_sign C2 = 0 \<and> bg_k C2 = bg_k C"
    proof -
      have "deref s1 c = Inr C" using r(5) by (simp add: deref_def)
      then have e: "put_words s1 c ?z 0 0 = Inr (update s1 c (C\<lparr>bg_x := map Some ?z @ drop (length ?z) (bg_x C), bg_sign := 0, bg_wds := 0\<rparr>))"
        using fit r(6) lz(2) by (simp add: put_words_def poke_at_0 blk_ok_def)
      have z1: "bval (take (nat (max 1 0)) ?z) = 0" by (simp add: take_replicate)
      from put_words_spec[OF r(3) insertI1 r(5) _ _ _ z1, of 0] show ?thesis
        using e fit lz(2) X(1) Y(1) by (auto simp: update_def)
    qed
    then obtain s2 C2 where s2: "put_words s1 c ?z 0 0 = Inr s2" "dt_ok s2 (insert c L)"
      "same (insert c L - {c}) s1 s2" "dt_heap s2 c = Some C2" "bg_k C2 = bg_k C" "blk_ok C2"
      by (auto simp: big_def)
    have fit2: "int (length zs) \<le> bg_maxwds C2" using fit s2(5,6) r(6) wc by (simp add: blk_ok_def)
    from put_words_spec[OF s2(2) insertI1 s2(4) fit2 t(1) _ t(3-5), of 0] t(2) wc obtain s3 C3 where s3:
      "put_words s2 c zs 0 ?w = Inr s3" "dt_ok s3 (insert c L)" "same (insert c L - {c}) s2 s3"
      "dt_heap s3 c = Some C3" "big (bg_k C2) C3 (n * m)" "bg_sign C3 = 0" by auto
    have "same L s s3" using r(2,4) s2(3) s3(3) by (auto simp: same_def)
    moreover have "big (k + 1) C3 (n * m)" using s3(5) s2(5) r(7) kk(3) by (auto simp: big_def)
    ultimately show "wpr (alloc_err A) (made s L (k + 1) (n * m) 0) (case r of (s, c) \<Rightarrow>
        andthen (put_words s c ?z 0 0) (\<lambda>s. andthen (put_words s c zs 0 ?w) (\<lambda>s. Inr (s, c))))"
      unfolding r(1) prod.case s2(1) andthen_simps s3(1) using r(2) s3 by (simp add: made_def)
  qed
qed

section \<open>Differences\<close>

fun diff_trim :: "limb list \<Rightarrow> int \<Rightarrow> int res" where
  \<comment> \<open>\<open>while (!*--xc) wa--\<close>\<close>
  "diff_trim [] wa = Inl (UB Oob_read)"
| "diff_trim (x # xs) wa = (if x = 0 then diff_trim xs (wa - 1) else Inr wa)"

definition diff :: "alloc \<Rightarrow> dtoa_state \<Rightarrow> nat \<Rightarrow> nat \<Rightarrow> (dtoa_state \<times> nat) res" where
  "diff A s a b =
     andthen (cmp s a b) (\<lambda>i.
     if i = 0 then
       andthen (Balloc A s 0) (\<lambda>(s, c). andthen (put_words s c [0] 0 1) (\<lambda>s. Inr (s, c)))
     else
       let (a, b, sign) = (if i < 0 then (b, a, 1) else (a, b, 0)) in
       andthen (deref s a) (\<lambda>X.
       andthen (deref s b) (\<lambda>Y.
       andthen (peek_words X (max 1 (bg_wds X))) (\<lambda>xs.
       andthen (peek_words Y (max 1 (bg_wds Y))) (\<lambda>ys.
       let zs = fst (diff_loop xs ys 0) in
       andthen (diff_trim (rev zs) (bg_wds X)) (\<lambda>wa.
       andthen (Balloc A s (bg_k X)) (\<lambda>(s, c).
       andthen (put_words s c zs sign wa) (\<lambda>s. Inr (s, c)))))))))"

lemma diff_trim_zeros: "\<exists>x \<in> set xs. x \<noteq> 0 \<Longrightarrow> diff_trim xs n = Inr (trim_zeros xs n)"
  by (induction xs arbitrary: n) auto

lemma diff_spec:
  assumes ok: "dt_ok s L" and a: "a \<in> L" "big_at s a k n" and b: "b \<in> L" "big_at s b k m"
    and pos: "0 < n \<or> 0 < m"
  shows "wpr (alloc_err A) (made s L k (if n < m then m - n else n - m) (if n < m then 1 else 0)) (diff A s a b)"
proof -
  obtain i where i: "cmp s a b = Inr i" "i < 0 \<longleftrightarrow> n < m" "i = 0 \<longleftrightarrow> n = m"
    using cmp_spec[OF a(2) b(2) pos] by blast
  obtain X0 Y0 where X0: "deref s a = Inr X0" "big k X0 n" and Y0: "deref s b = Inr Y0" "big k Y0 m"
    using a(2) b(2) by (auto simp: big_at_def deref_def)
  have k0: "0 \<le> k" using X0(2) by (simp add: big_def blk_ok_def)
  show ?thesis
  proof (cases "i = 0")
    case True
    then have "n = m" using i(3) by simp
    then show ?thesis using True i(1) k0
      by (auto simp: diff_def simp del: wpr_andthen intro!: Balloc_put[OF ok])
  next
    case False
    let ?sg = "if n < m then 1 else 0 :: int"
    obtain u v X Y n' m' where sw: "(if i < 0 then (b, a, 1) else (a, b, 0)) = (u, v, ?sg)"
      "deref s u = Inr X" "deref s v = Inr Y" "big k X n'" "big k Y m'" "m' < n'"
      "n' - m' = (if n < m then m - n else n - m)"
    proof (cases "i < 0")
      case True
      then show ?thesis using that[of b a Y0 X0 m n] X0 Y0 i by simp
    next
      case nl: False
      then show ?thesis using that[of a b X0 Y0 n m] X0 Y0 i False by (simp split: if_splits)
    qed
    have n0: "0 < n'" using sw(6) by simp
    note wX = big_words(1)[OF sw(4) n0]
    obtain xs where xs: "peek_words X (max 1 (bg_wds X)) = Inr xs" "bval xs = n'" "int (length xs) = bg_wds X"
      using big_words[OF sw(4) n0] by (auto simp: max_def)
    obtain ys where ys: "peek_words Y (max 1 (bg_wds Y)) = Inr ys" "bval ys = m'"
      using sw(5) unfolding big_def by blast
    have "\<not> bg_wds X < bg_wds Y" using fewer_words_less[OF sw(4,5)] sw(6) n0 by auto
    then have le: "length ys \<le> length xs" using peek_length[OF ys(1)] xs(3) wX by simp
    obtain zs c where l: "diff_loop xs ys 0 = (zs, c)" by fastforce
    have z: "length zs = length xs" "bval zs + m' = n' + 4294967296 ^ length xs * unat c"
      using diff_loop_spec[OF le _ l] xs(2) ys(2) by auto
    have "unat c = 0"
    proof (rule ccontr)
      assume "unat c \<noteq> 0"
      then have "4294967296 ^ length xs * 1 \<le> 4294967296 ^ length xs * unat c" by (intro mult_le_mono2) simp
      moreover have "bval zs < 4294967296 ^ length xs" using bval_less[of zs] z(1) by simp
      ultimately show False using z(2) sw(6) by linarith
    qed
    then have bz: "bval zs = n' - m'" using z(2) by simp
    have zne: "zs \<noteq> []" using z(1) xs(3) wX by auto
    have "bval zs \<noteq> 0" using bz sw(6) by simp
    then have "\<exists>x \<in> set (rev zs). x \<noteq> 0" by (simp add: bval_0)
    then have tr: "diff_trim (rev zs) (bg_wds X) = Inr (trim_zeros (rev zs) (bg_wds X))" by (rule diff_trim_zeros)
    have wz: "bg_wds X = int (length zs)" using z(1) xs(3) by simp
    note t = trimmed[OF zne refl, folded wz, unfolded bz sw(7)]
    have run: "diff A s a b = andthen (Balloc A s (bg_k X)) (\<lambda>(s, c).
       andthen (put_words s c zs ?sg (trim_zeros (rev zs) (bg_wds X))) (\<lambda>s. Inr (s, c)))"
      unfolding diff_def i(1) andthen_simps if_not_P[OF False] sw(1) Let_def prod.case sw(2,3) xs(1) ys(1) l fst_conv tr ..
    have bX: "0 \<le> bg_k X" "bg_k X \<le> 30" "bg_k X \<le> k" "int (length zs) \<le> 2 ^ nat (bg_k X)"
      using sw(4) wz by (auto simp: big_def blk_ok_def)
    show ?thesis unfolding run
      by (rule Balloc_put[OF ok bX t(1) _ t(3-5)]) (use t(2) wz in simp)
  qed
qed

section \<open>Multiplying by a power of two\<close>

function shift_size :: "int \<Rightarrow> int \<Rightarrow> int \<Rightarrow> int res" where
  \<comment> \<open>\<open>for (i = b->maxwds; n1 > i; i <<= 1) k1++\<close>\<close>
  "shift_size n1 i k1 =
     (if n1 \<le> i then Inr k1 else if i \<le> 0 then Inl Diverge
      else andthen (c_int (2 * i)) (\<lambda>i. shift_size n1 i (k1 + 1)))"
  by pat_completeness auto
termination
  by (relation "measure (\<lambda>(n1, i, k1). nat (n1 - i))") (auto simp: c_int_def split: if_splits)

declare shift_size.simps [simp del]

definition lshift :: "alloc \<Rightarrow> dtoa_state \<Rightarrow> nat \<Rightarrow> int \<Rightarrow> (dtoa_state \<times> nat) res" where
  "lshift A s b k =
     andthen (deref s b) (\<lambda>B.
     let n = drop_bit 5 k in
     andthen (c_int (n + bg_wds B)) (\<lambda>n1.
     andthen (c_int (n1 + 1)) (\<lambda>n1.
     andthen (shift_size n1 (bg_maxwds B) (bg_k B)) (\<lambda>k1.
     andthen (peek_words B (max 1 (bg_wds B))) (\<lambda>xs.
     let k = nat (k AND 0x1f);
         (ws, n1) = (if k \<noteq> 0
           then (let (ys, z) = lshift_loop k xs 0 in (ys @ [z], if z \<noteq> 0 then n1 + 1 else n1))
           else (xs, n1)) in
     andthen (Balloc A s k1) (\<lambda>(s, b1).
     andthen (put_words s b1 (replicate (nat n) 0 @ ws) 0 (n1 - 1)) (\<lambda>s.
     andthen (Bfree s (Some b)) (\<lambda>s. Inr (s, b1)))))))))"

lemma shift_size_spec:
  "i = 2 ^ nat k1 \<Longrightarrow> 0 \<le> k1 \<Longrightarrow> k1 \<le> K \<Longrightarrow> n1 \<le> 2 ^ nat K \<Longrightarrow> K \<le> 30 \<Longrightarrow>
   \<exists>k'. shift_size n1 i k1 = Inr k' \<and> 0 \<le> k' \<and> k' \<le> K \<and> n1 \<le> 2 ^ nat k'"
proof (induction n1 i k1 rule: shift_size.induct)
  case (1 n1 i k1)
  show ?case
  proof (cases "n1 \<le> i")
    case True
    then show ?thesis using 1 by (subst shift_size.simps) auto
  next
    case False
    have "k1 \<noteq> K" using False 1(2,5) by auto
    then have k1: "k1 + 1 \<le> K" using 1(4) by simp
    have d: "2 * i = 2 ^ nat (k1 + 1)" using 1(2,3) by (simp add: nat_add_distrib)
    have "2 * i \<le> 2 ^ 30" unfolding d by (rule power_increasing) (use k1 1(6) in simp_all)
    moreover have "0 < i" using 1(2) by simp
    ultimately have c: "c_int (2 * i) = Inr (2 * i)" by (simp add: int_ok_iff)
    obtain k' where "shift_size n1 (2 * i) (k1 + 1) = Inr k'" "0 \<le> k'" "k' \<le> K" "n1 \<le> 2 ^ nat k'"
      using 1(1)[OF False _ c d _ k1 1(5,6)] \<open>0 < i\<close> 1(3) by auto
    then show ?thesis using False c \<open>0 < i\<close> by (subst shift_size.simps) auto
  qed
qed

lemma made_then_free:
  assumes "wpr (alloc_err A) (made s L k n sg) m" "a \<in> L"
  shows "wpr (alloc_err A) (becomes s L a k n) (andthen m (\<lambda>(s, b). andthen (Bfree s (Some a)) (\<lambda>s. Inr (s, b))))"
  unfolding wpr_andthen[of _ _ m]
proof (rule wpr_conseq[OF assms(1)])
  fix r assume "made s L k n sg r"
  then obtain s1 b B where r: "r = (s1, b)" "b \<notin> L" "dt_ok s1 (insert b L)" "same L s s1"
    "dt_heap s1 b = Some B" "big k B n" by (cases r) (auto simp: made_def)
  have "a \<in> insert b L" using assms(2) by simp
  from Bfree_spec[OF r(3) this] obtain s2 where s2: "Bfree s1 (Some a) = Inr s2"
    "dt_ok s2 (insert b L - {a})" "same (insert b L - {a}) s1 s2" by blast
  have ne: "b \<noteq> a" using r(2) assms(2) by blast
  then have "insert b L - {a} = insert b (L - {a})" by auto
  moreover have "dt_heap s2 b = Some B" using s2(3) r(5) ne by (simp add: same_def)
  moreover have "same (L - {a}) s s2" using r(2,4) s2(3) by (auto simp: same_def)
  ultimately show "wpr (alloc_err A) (becomes s L a k n)
      (case r of (s, b) \<Rightarrow> andthen (Bfree s (Some a)) (\<lambda>s. Inr (s, b)))"
    using r s2 by (simp add: becomes_def big_at_def)
qed

lemma and_mask_31: "k AND 0x1f = (k :: int) mod 32"
proof -
  have "(0x1f :: int) = mask 5" by (simp add: mask_eq_exp_minus_1)
  then have "k AND 0x1f = take_bit 5 k" by (simp only: take_bit_eq_mask)
  then show ?thesis by (simp add: take_bit_eq_mod)
qed

lemma lshift_words:
  assumes xs: "bval xs = v" "int (length xs) = wds" "1 \<le> wds" "0 < v" "1 < wds \<longrightarrow> 4294967296 ^ nat (wds - 1) \<le> v"
    and k: "0 \<le> k"
  defines "n \<equiv> drop_bit 5 k" and "kk \<equiv> nat (k AND 0x1f)"
  assumes r: "(if kk \<noteq> 0
           then (let (ys, z) = lshift_loop kk xs 0 in (ys @ [z], if z \<noteq> 0 then n + wds + 1 + 1 else n + wds + 1))
           else (xs, n + wds + 1)) = (ws, n1)"
  shows "0 \<le> n1 - 1" "max 1 (n1 - 1) \<le> int (length (replicate (nat n) 0 @ ws))"
    "bval (take (nat (max 1 (n1 - 1))) (replicate (nat n) 0 @ ws)) = v * 2 ^ nat k"
    "1 < n1 - 1 \<longrightarrow> 4294967296 ^ nat (n1 - 1 - 1) \<le> v * 2 ^ nat k" "n1 - 1 = 0 \<longrightarrow> v * 2 ^ nat k = 0"
    "int (length (replicate (nat n) 0 @ ws)) \<le> n + wds + 1"
proof -
  have nk: "n = k div 32" "kk = nat (k mod 32)" unfolding n_def kk_def
    by (simp_all add: drop_bit_eq_div and_mask_31)
  have n0: "0 \<le> n" and kk: "kk < 32" using k nk by (simp_all add: pos_imp_zdiv_nonneg_iff nat_less_iff)
  have "k = 32 * n + int kk" using nk k by simp
  then have pw: "nat k = 32 * nat n + kk" using n0 by simp
  have pow: "v * 2 ^ nat k = 4294967296 ^ nat n * (v * 2 ^ kk)"
    unfolding pw power_add power_mult by simp
  have low: "4294967296 ^ (length xs - 1) \<le> v"
  proof (cases "1 < wds")
    case True
    moreover have "nat (wds - 1) = length xs - 1" using xs(2) by simp
    ultimately show ?thesis using xs(5) by simp
  next
    case False
    then have "length xs = 1" using xs(2,3) by simp
    then show ?thesis using xs(4) by simp
  qed
  have len: "length xs = nat wds" "1 \<le> length xs" using xs(2,3) by auto
  have base: "4294967296 ^ (nat n + (length xs - 1)) \<le> v * 2 ^ nat k"
  proof -
    have "v * 1 \<le> v * 2 ^ kk" by (rule mult_le_mono2) simp
    then have "4294967296 ^ nat n * 4294967296 ^ (length xs - 1) \<le> 4294967296 ^ nat n * (v * 2 ^ kk)"
      using low by (intro mult_le_mono2) linarith
    then show ?thesis by (simp add: pow power_add)
  qed
  let ?zs = "replicate (nat n) 0 @ ws" let ?V = "v * 2 ^ nat k"
  have main: "0 \<le> n1 - 1 \<and> max 1 (n1 - 1) \<le> int (length ?zs) \<and> bval (take (nat (max 1 (n1 - 1))) ?zs) = ?V
     \<and> (1 < n1 - 1 \<longrightarrow> 4294967296 ^ nat (n1 - 1 - 1) \<le> ?V) \<and> 1 \<le> n1 - 1"
    if N: "n1 - 1 = int N" "1 \<le> N" "N \<le> length ?zs" "bval (take N ?zs) = ?V" "4294967296 ^ (N - 1) \<le> ?V" for N
  proof -
    have "max 1 (n1 - 1) = int N" "nat (n1 - 1 - 1) = N - 1" using N(1,2) by auto
    moreover have "int N \<le> int (length ?zs)" "1 \<le> int N" "0 \<le> int N" using N(2,3) by linarith+
    ultimately show ?thesis using N(4,5) unfolding N(1) by (simp only: nat_int simp_thms)
  qed
  have "\<exists>N. n1 - 1 = int N \<and> 1 \<le> N \<and> N \<le> length ?zs \<and> bval (take N ?zs) = ?V \<and> 4294967296 ^ (N - 1) \<le> ?V
      \<and> length ?zs \<le> nat n + length xs + 1"
  proof (cases "kk = 0")
    case True
    then have "ws = xs" "n1 - 1 = int (nat n + length xs)" using r xs(2) n0 by simp_all
    then show ?thesis using base[unfolded pow] True xs(1) len(2)
      by (intro exI[of _ "nat n + length xs"]) (simp add: bval_append pow)
  next
    case False
    obtain ys z where l: "lshift_loop kk xs 0 = (ys, z)" by fastforce
    have sp: "length ys = length xs" "bval ys + 4294967296 ^ length xs * unat z = v * 2 ^ kk"
      using lshift_loop_spec[of 0 kk xs ys z] l kk False xs(1) by auto
    have ws: "ws = ys @ [z]" "n1 - 1 = (if z \<noteq> 0 then int (nat n + length xs + 1) else int (nat n + length xs))"
      using r False l xs(2) n0 by (auto split: if_splits)
    show ?thesis
    proof (cases "z = 0")
      case True
      then show ?thesis using ws base[unfolded pow] sp len(2)
        by (intro exI[of _ "nat n + length xs"]) (simp add: bval_append pow)
    next
      case nz: False
      have "1 \<le> unat z" using nz by (simp add: Suc_le_eq unat_gt_0)
      then have "4294967296 ^ length xs * 1 \<le> 4294967296 ^ length xs * unat z" by (rule mult_le_mono2)
      then have "4294967296 ^ length xs \<le> v * 2 ^ kk" using sp(2) by linarith
      then have "4294967296 ^ (nat n + length xs) \<le> ?V"
        unfolding pow power_add by (rule mult_le_mono2)
      then show ?thesis using nz ws sp
        by (intro exI[of _ "nat n + length xs + 1"]) (simp add: bval_append pow)
    qed
  qed
  then obtain N where N: "n1 - 1 = int N" "1 \<le> N" "N \<le> length ?zs" "bval (take N ?zs) = ?V"
    "4294967296 ^ (N - 1) \<le> ?V" "length ?zs \<le> nat n + length xs + 1" by blast
  show "int (length (replicate (nat n) 0 @ ws)) \<le> n + wds + 1" using N(6) n0 xs(2) by linarith
  from main[OF N(1-5)] show "0 \<le> n1 - 1" "max 1 (n1 - 1) \<le> int (length ?zs)"
    "bval (take (nat (max 1 (n1 - 1))) ?zs) = ?V" "1 < n1 - 1 \<longrightarrow> 4294967296 ^ nat (n1 - 1 - 1) \<le> ?V" by blast+
  show "n1 - 1 = 0 \<longrightarrow> ?V = 0" using N(1,2) by linarith
qed

lemma lshift_spec:
  assumes ok: "dt_ok s L" and a: "a \<in> L" "big_at s a k0 v" "0 < v" and k: "0 \<le> k"
    and K: "k0 \<le> K" "K \<le> 30" "k div 32 + 2 ^ nat k0 + 1 \<le> 2 ^ nat K"
  shows "wpr (alloc_err A) (becomes s L a K (v * 2 ^ nat k)) (lshift A s a k)"
proof -
  obtain B where B: "deref s a = Inr B" "big k0 B v" using a(2) by (auto simp: big_at_def deref_def)
  let ?w = "bg_wds B" let ?n = "drop_bit 5 k"
  note w = big_words(1)[OF B(2) a(3)]
  obtain xs where xs: "peek_words B (max 1 ?w) = Inr xs" "bval xs = v" "int (length xs) = ?w"
    using big_words[OF B(2) a(3)] by (auto simp: max_def)
  have bB: "blk_ok B" "bg_k B \<le> k0" "?w \<le> bg_maxwds B" "1 < ?w \<longrightarrow> 4294967296 ^ nat (?w - 1) \<le> v"
    using B(2) by (simp_all add: big_def)
  have p: "bg_maxwds B = 2 ^ nat (bg_k B)" "0 \<le> bg_k B" using bB(1) by (simp_all add: blk_ok_def)
  have n: "?n = k div 32" "0 \<le> ?n" using k by (simp_all add: drop_bit_eq_div pos_imp_zdiv_nonneg_iff)
  have "bg_maxwds B \<le> 2 ^ nat k0" unfolding p(1) by (rule power_increasing) (use bB p in simp_all)
  then have n1: "?n + ?w + 1 \<le> 2 ^ nat K" using K(3) n(1) bB(3) by linarith
  have "(2::int) ^ nat K \<le> 2 ^ 30" by (rule power_increasing) (use K in simp_all)
  then have lim: "?n + ?w + 1 \<le> 1073741824" using n1 by simp
  have "int_ok (?n + ?w)" "int_ok (?n + ?w + 1)" unfolding int_ok_iff
    using lim n(2) w by (intro conjI; linarith)+
  then have c: "c_int (?n + ?w) = Inr (?n + ?w)" "c_int (?n + ?w + 1) = Inr (?n + ?w + 1)" by simp_all
  have kK: "bg_k B \<le> K" using bB(2) K(1) by simp
  obtain k1 where k1: "shift_size (?n + ?w + 1) (bg_maxwds B) (bg_k B) = Inr k1" "0 \<le> k1" "k1 \<le> K"
      "?n + ?w + 1 \<le> 2 ^ nat k1"
    using shift_size_spec[OF p kK n1 K(2)] by blast
  obtain ws m where r: "(if nat (k AND 0x1f) \<noteq> 0
       then (let (ys, z) = lshift_loop (nat (k AND 0x1f)) xs 0
             in (ys @ [z], if z \<noteq> 0 then ?n + ?w + 1 + 1 else ?n + ?w + 1))
       else (xs, ?n + ?w + 1)) = (ws, m)" by fastforce
  note lw = lshift_words[OF xs(2,3) w a(3) bB(4) k r]
  have run: "lshift A s a k = andthen (andthen (Balloc A s k1) (\<lambda>(s, b1).
       andthen (put_words s b1 (replicate (nat ?n) 0 @ ws) 0 (m - 1)) (\<lambda>s. Inr (s, b1))))
       (\<lambda>(s, b1). andthen (Bfree s (Some a)) (\<lambda>s. Inr (s, b1)))"
    unfolding lshift_def B(1) andthen_simps Let_def c k1(1) xs(1) r[unfolded Let_def] prod.case
    by (simp add: andthen_assoc case_prod_unfold)
  have "int (length (replicate (nat ?n) 0 @ ws)) \<le> 2 ^ nat k1" using lw(6) k1(4) by linarith
  from Balloc_put[OF ok k1(2) _ k1(3) this lw(1-5), of A 0] K(2) k1(3)
  have "wpr (alloc_err A) (made s L K (v * 2 ^ nat k) 0) (andthen (Balloc A s k1) (\<lambda>(s, b1).
       andthen (put_words s b1 (replicate (nat ?n) 0 @ ws) 0 (m - 1)) (\<lambda>s. Inr (s, b1))))" by simp
  from made_then_free[OF this a(1)] show ?thesis unfolding run .
qed

section \<open>Decimal digits\<close>

fun s2b_digits :: "alloc \<Rightarrow> dtoa_state \<Rightarrow> nat \<Rightarrow> string \<Rightarrow> nat \<Rightarrow> (dtoa_state \<times> nat \<times> string) res" where
  \<comment> \<open>\<open>b = multadd(b, 10, *s++ - '0')\<close>, so many times\<close>
  "s2b_digits A s b p 0 = Inr (s, b, p)"
| "s2b_digits A s b [] (Suc n) = Inl (UB Oob_read)"
| "s2b_digits A s b (c # p) (Suc n) =
     andthen (multadd A s b 10 (sc c - 48)) (\<lambda>(s, b). s2b_digits A s b p n)"

definition s2b :: "alloc \<Rightarrow> dtoa_state \<Rightarrow> string \<Rightarrow> int \<Rightarrow> int \<Rightarrow> limb \<Rightarrow> int \<Rightarrow> (dtoa_state \<times> nat) res" where
  "s2b A st s nd0 nd y9 dplen =
     andthen (c_int (nd + 8)) (\<lambda>n.
     andthen (c_div n 9) (\<lambda>x.
     andthen (shift_size x 1 0) (\<lambda>k.
     andthen (Balloc A st k) (\<lambda>(st, b).
     andthen (put_words st b [y9] 0 1) (\<lambda>st.
     andthen
       (if 9 < nd0
        then andthen (s2b_digits A st b (drop 9 s) (nat (nd0 - 9))) (\<lambda>(st, b, s).
             Inr (st, b, drop (nat dplen) s, nd0))
        else Inr (st, b, drop (nat dplen + 9) s, 9)) (\<lambda>(st, b, s, i).
     andthen (s2b_digits A st b s (nat (nd - i))) (\<lambda>(st, b, s).
     Inr (st, b))))))))"

definition owned :: "dtoa_state \<Rightarrow> nat set \<Rightarrow> int \<Rightarrow> nat \<Rightarrow> dtoa_state \<times> nat \<Rightarrow> bool" where
  \<comment> \<open>a number next to the blocks \<open>L\<close>\<close>
  "owned s L k n r \<longleftrightarrow>
     (case r of (s', a) \<Rightarrow> a \<notin> L \<and> dt_ok s' (insert a L) \<and> same L s s' \<and> big_at s' a k n)"

lemma andthen_put:
  "andthen (andthen m (\<lambda>(s, b). andthen (f s b) (\<lambda>s. Inr (s, b)))) (\<lambda>(s, b). g s b) =
   andthen m (\<lambda>(s, b). andthen (f s b) (\<lambda>s. g s b))"
  by (simp add: andthen_assoc case_prod_unfold)

lemma made_owned: "made s L k n sg r \<Longrightarrow> owned s L k n r"
  by (auto simp: made_def owned_def big_at_def)

lemma owned_becomes:
  assumes "owned s L k n (s1, a)" "becomes s1 (insert a L) a k' m r"
  shows "owned s L k' m r"
proof -
  have a: "a \<notin> L" "same L s s1" using assms(1) by (simp_all add: owned_def)
  then have "insert a L - {a} = L" by auto
  then show ?thesis using assms(2) a same_trans[of L s s1] by (auto simp: owned_def becomes_def)
qed

lemma digit_sc: "is_digit_in 10 c \<Longrightarrow> sc c - 48 = int (the (digit_value c)) \<and> the (digit_value c) < 10"
proof -
  have "\<forall>c. is_digit_in 10 c \<longrightarrow> sc c - 48 = int (the (digit_value c)) \<and> the (digit_value c) < 10" by code_simp
  then show "is_digit_in 10 c \<Longrightarrow> sc c - 48 = int (the (digit_value c)) \<and> the (digit_value c) < 10" by blast
qed

lemma digits_value_app: "digits_value b (xs @ ys) = digits_value b xs * b ^ length ys + digits_value b ys"
proof (induction ys rule: rev_induct)
  case (snoc y ys)
  have "digits_value b (xs @ ys @ [y]) = b * digits_value b (xs @ ys) + the (digit_value y)"
    using digits_value_snoc[of b "xs @ ys" y] by simp
  then show ?case by (simp add: snoc digits_value_snoc algebra_simps)
qed (simp add: digits_value_def)

lemma digits_value_less: "list_all (is_digit_in 10) ds \<Longrightarrow> digits_value 10 ds < 10 ^ length ds"
proof (induction ds rule: rev_induct)
  case (snoc d ds)
  then have "digits_value 10 ds + 1 \<le> 10 ^ length ds" "the (digit_value d) < 10" using digit_sc[of d] by auto
  then have "10 * (digits_value 10 ds + 1) \<le> 10 * 10 ^ length ds" "the (digit_value d) < 10" by simp_all
  then show ?case by (simp add: digits_value_snoc)
qed (simp add: digits_value_def)

lemma s2b_digits_spec:
  assumes k: "k \<le> 30"
  shows "owned s L k v (s1, b) \<Longrightarrow> 0 < v \<Longrightarrow> list_all (is_digit_in 10) ds \<Longrightarrow>
    (v + 1) * 10 ^ length ds \<le> 4294967296 ^ (2 ^ nat k) \<Longrightarrow>
    wpr (alloc_err A) (\<lambda>(s2, b2, p). owned s L k (v * 10 ^ length ds + digits_value 10 ds) (s2, b2) \<and> p = rest)
      (s2b_digits A s1 b (ds @ rest) (length ds))"
proof (induction ds arbitrary: s1 b v)
  case Nil
  then show ?case by (simp add: digits_value_def)
next
  case (Cons d ds)
  have d: "sc d - 48 = int (the (digit_value d))" "the (digit_value d) < 10" using digit_sc[of d] Cons.prems(3) by auto
  let ?d = "the (digit_value d)"
  have b: "dt_ok s1 (insert b L)" "big_at s1 b k v" using Cons.prems(1) by (simp_all add: owned_def)
  have le: "(v * 10 + ?d + 1) * 10 ^ length ds \<le> 4294967296 ^ (2 ^ nat k)"
  proof -
    have "(v * 10 + ?d + 1) * 10 ^ length ds \<le> ((v + 1) * 10) * 10 ^ length ds"
      by (rule mult_le_mono1) (use d(2) in simp)
    also have "\<dots> = (v + 1) * 10 ^ length (d # ds)" by (simp add: algebra_simps)
    finally show ?thesis using Cons.prems(4) by linarith
  qed
  have "(v * 10 + ?d + 1) * 1 \<le> (v * 10 + ?d + 1) * 10 ^ length ds" by (rule mult_le_mono2) simp
  from order_trans[OF this le] have "v * 10 + ?d < 4294967296 ^ (2 ^ nat k)" by simp
  then have "wpr (alloc_err A) (becomes s1 (insert b L) b k (v * nat 10 + nat (int ?d))) (multadd A s1 b 10 (int ?d))"
    by (intro multadd_spec[OF b(1) insertI1 b(2)]) (use k d Cons.prems(2) in \<open>auto simp: INT_MAX_def\<close>)
  then have step: "wpr (alloc_err A) (owned s L k (v * 10 + ?d)) (multadd A s1 b 10 (sc d - 48))"
    unfolding d(1) by (rule wpr_mono) (auto intro: owned_becomes[OF Cons.prems(1)])
  have run: "s2b_digits A s1 b ((d # ds) @ rest) (length (d # ds)) =
      andthen (multadd A s1 b 10 (sc d - 48)) (\<lambda>(s, b). s2b_digits A s b (ds @ rest) (length ds))" by simp
  show ?case unfolding run wpr_andthen
  proof (rule wpr_mono[OF step])
    fix r assume r: "owned s L k (v * 10 + ?d) r"
    obtain s2 b2 where e: "r = (s2, b2)" by fastforce
    have "digits_value 10 (d # ds) = ?d * 10 ^ length ds + digits_value 10 ds"
      using digits_value_app[of 10 "[d]" ds] by (simp add: digits_value_def)
    then have "v * 10 ^ length (d # ds) + digits_value 10 (d # ds) = (v * 10 + ?d) * 10 ^ length ds + digits_value 10 ds"
      by (simp add: algebra_simps)
    then show "wpr (alloc_err A) (\<lambda>(s2, b2, p). owned s L k (v * 10 ^ length (d # ds) + digits_value 10 (d # ds)) (s2, b2) \<and> p = rest)
        (case r of (s, b) \<Rightarrow> s2b_digits A s b (ds @ rest) (length ds))"
      using Cons.IH[of "v * 10 + ?d" s2 b2] r Cons.prems(2,3) le unfolding e by simp
  qed
qed

lemma nine_digits: "n \<le> 9 * x \<Longrightarrow> (10::nat) ^ n \<le> 4294967296 ^ x"
proof -
  assume "n \<le> 9 * x"
  then have "(10::nat) ^ n \<le> 10 ^ (9 * x)" by (rule power_increasing) simp
  also have "\<dots> = (10 ^ 9) ^ x" by (rule power_mult)
  also have "\<dots> \<le> 4294967296 ^ x" by (rule power_mono) simp_all
  finally show ?thesis .
qed

lemma s2b_spec:
  assumes ok: "dt_ok s L" and str: "str = ds0 @ pt @ ds1 @ rest" "list_all (is_digit_in 10) (ds0 @ ds1)"
    and nd: "int (length ds0) = nd0" "int (length (ds0 @ ds1)) = nd" "int (length pt) = dplen" "nd \<le> INT_MAX - 8"
    and y9: "unat y9 = digits_value 10 (take 9 (ds0 @ ds1))" "0 < unat y9"
  shows "wpr (alloc_err A) (owned s L 28 (digits_value 10 (ds0 @ ds1))) (s2b A s str nd0 nd y9 dplen)"
proof -
  let ?ds = "ds0 @ ds1" let ?x = "(nd + 8) div 9"
  have nd_pos: "1 \<le> nd"
  proof (rule ccontr)
    assume "\<not> 1 \<le> nd"
    then have "?ds = []" using nd(2) by (cases ?ds) auto
    then show False using y9 by (simp add: digits_value_def)
  qed
  have x: "1 \<le> ?x" "?x \<le> 2 ^ nat 28" "nd \<le> 9 * ?x" using nd(4) nd_pos by (simp_all add: INT_MAX_def)
  have cx: "c_int (nd + 8) = Inr (nd + 8)" "c_div (nd + 8) 9 = Inr ?x"
    using nd_pos nd(4) x by (simp_all add: int_ok_iff INT_MAX_def c_div_def)
  obtain k where k: "shift_size ?x 1 0 = Inr k" "0 \<le> k" "k \<le> 28" "?x \<le> 2 ^ nat k"
    using shift_size_spec[of 1 0 28 ?x] x(2) by auto
  have bnd: "10 ^ nat nd \<le> (4294967296 :: nat) ^ (2 ^ nat k)"
  proof (rule nine_digits)
    have "nd \<le> 9 * 2 ^ nat k" using x(3) k(4) by linarith
    then show "nat nd \<le> 9 * 2 ^ nat k" by (simp add: nat_le_iff)
  qed
  have fill: "wpr (alloc_err A) (owned s L k (unat y9))
      (andthen (Balloc A s k) (\<lambda>(s, b). andthen (put_words s b [y9] 0 1) (\<lambda>s. Inr (s, b))))"
    by (rule wpr_mono[OF Balloc_put[OF ok k(2), of k "[y9]" 1 "unat y9" A 0]]) (use k in \<open>auto intro: made_owned\<close>)
  define j where "j = max 9 (length ds0)"
  have dig: "list_all (is_digit_in 10) (take 9 ?ds)" "list_all (is_digit_in 10) (drop 9 ?ds)"
    using str(2) by (metis append_take_drop_id list_all_append)+
  have split: "digits_value 10 ?ds = unat y9 * 10 ^ length (drop 9 ?ds) + digits_value 10 (drop 9 ?ds)"
    using digits_value_app[of 10 "take 9 ?ds" "drop 9 ?ds"] unfolding y9(1) append_take_drop_id .
  have fit: "(unat y9 + 1) * 10 ^ length (drop 9 ?ds) \<le> 4294967296 ^ (2 ^ nat k)"
  proof -
    have "unat y9 + 1 \<le> 10 ^ length (take 9 ?ds)" using digits_value_less[OF dig(1)] y9(1) by simp
    then have "(unat y9 + 1) * 10 ^ length (drop 9 ?ds) \<le> 10 ^ length (take 9 ?ds) * 10 ^ length (drop 9 ?ds)"
      by (rule mult_le_mono1)
    also have "\<dots> = 10 ^ (length (take 9 ?ds) + length (drop 9 ?ds))" by (simp only: power_add)
    also have "\<dots> = 10 ^ nat nd" using nd(2) by (intro arg_cong[of _ _ "(^) 10"]) (simp only: length_append[symmetric] append_take_drop_id)
    finally show ?thesis using bnd by linarith
  qed
  have last: "wpr (alloc_err A) (owned s L 28 (digits_value 10 ?ds))
      (andthen (s2b_digits A s1 b (es @ rest') (nat (nd - i))) (\<lambda>(st, b, s). Inr (st, b)))"
    if "owned s L k v (s1, b)" "0 < v" "list_all (is_digit_in 10) es" "(v + 1) * 10 ^ length es \<le> 4294967296 ^ (2 ^ nat k)"
      "v * 10 ^ length es + digits_value 10 es = digits_value 10 ?ds" "nat (nd - i) = length es" for v s1 b es i rest'
    unfolding wpr_andthen that(6)
    by (rule wpr_mono[OF s2b_digits_spec[OF _ that(1-4)]])
      (use k(3) that(5) in \<open>auto simp: owned_def intro: big_at_mono\<close>)
  let ?tail = "\<lambda>(st, b, s, i). andthen (s2b_digits A st b s (nat (nd - i))) (\<lambda>(st, b, s). Inr (st, b))"
  let ?go = "\<lambda>st b. andthen
       (if 9 < nd0
        then andthen (s2b_digits A st b (drop 9 str) (nat (nd0 - 9))) (\<lambda>(st, b, s).
             Inr (st, b, drop (nat dplen) s, nd0))
        else Inr (st, b, drop (nat dplen + 9) str, 9)) ?tail"
  have run: "s2b A s str nd0 nd y9 dplen =
      andthen (andthen (Balloc A s k) (\<lambda>(s, b). andthen (put_words s b [y9] 0 1) (\<lambda>s. Inr (s, b))))
        (\<lambda>(st, b). ?go st b)"
    unfolding s2b_def cx andthen_simps k(1) andthen_put ..
  have go: "wpr (alloc_err A) (owned s L 28 (digits_value 10 ?ds)) (?go s1 b)" if r: "owned s L k (unat y9) (s1, b)" for s1 b
  proof (cases "9 < nd0")
    case False
    then have l: "length ds0 \<le> 9" using nd(1) by simp
    have "drop (nat dplen + 9) str = drop 9 ?ds @ drop (9 - length ds0 - length ds1) rest"
      using l nd(3)[symmetric] by (simp add: str(1))
    moreover have "nat (nd - 9) = length (drop 9 ?ds)" using nd(2) by simp
    ultimately show ?thesis using False last[OF r y9(2) dig(2) fit split[symmetric]] by simp
  next
    case True
    then have l: "9 < length ds0" using nd(1) by simp
    then have tk: "take 9 ?ds = take 9 ds0" by simp
    have d0: "drop 9 str = drop 9 ds0 @ (pt @ ds1 @ rest)" "nat (nd0 - 9) = length (drop 9 ds0)"
      using l nd(1) by (simp_all add: str(1))
    have dl: "drop 9 ?ds = drop 9 ds0 @ ds1" using l by simp
    have dg: "list_all (is_digit_in 10) (drop 9 ds0)" "list_all (is_digit_in 10) ds0" "list_all (is_digit_in 10) ds1"
      using dig(2) str(2) unfolding dl by simp_all
    let ?v = "unat y9 * 10 ^ length (drop 9 ds0) + digits_value 10 (drop 9 ds0)"
    have v: "?v = digits_value 10 ds0"
      using digits_value_app[of 10 "take 9 ds0" "drop 9 ds0"] unfolding y9(1) tk append_take_drop_id by simp
    have f1: "(unat y9 + 1) * 10 ^ length (drop 9 ds0) \<le> 4294967296 ^ (2 ^ nat k)"
    proof -
      have "(unat y9 + 1) * 10 ^ length (drop 9 ds0) * 1 \<le> (unat y9 + 1) * 10 ^ length (drop 9 ds0) * 10 ^ length ds1"
        by (rule mult_le_mono2) simp
      also have "\<dots> = (unat y9 + 1) * 10 ^ length (drop 9 ?ds)" unfolding dl by (simp add: power_add algebra_simps)
      finally show ?thesis using fit by linarith
    qed
    have f2: "(?v + 1) * 10 ^ length ds1 \<le> 4294967296 ^ (2 ^ nat k)"
    proof -
      have "?v + 1 \<le> 10 ^ length ds0" using digits_value_less[OF dg(2)] unfolding v by simp
      then have "(?v + 1) * 10 ^ length ds1 \<le> 10 ^ length ds0 * 10 ^ length ds1" by (rule mult_le_mono1)
      also have "\<dots> = 10 ^ nat nd" using nd(2) by (simp flip: power_add)
      finally show ?thesis using bnd by linarith
    qed
    have vp: "0 < ?v" using y9(2) by simp
    have f3: "?v * 10 ^ length ds1 + digits_value 10 ds1 = digits_value 10 ?ds"
      unfolding v digits_value_app ..
    have nl: "nat (nd - nd0) = length ds1" using nd(1,2) by simp
    have k30: "k \<le> 30" using k(3) by simp
    have "wpr (alloc_err A) (\<lambda>r. wpr (alloc_err A) (owned s L 28 (digits_value 10 ?ds))
        (?tail (case r of (st, b, s) \<Rightarrow> (st, b, drop (nat dplen) s, nd0))))
        (s2b_digits A s1 b (drop 9 str) (nat (nd0 - 9)))"
      unfolding d0
    proof (rule wpr_mono[OF s2b_digits_spec[OF k30 r y9(2) dg(1) f1]])
      fix r
      assume "case r of (s2, b2, p) \<Rightarrow> owned s L k ?v (s2, b2) \<and> p = pt @ ds1 @ rest"
      then obtain s2 b2 where r2: "r = (s2, b2, pt @ ds1 @ rest)" "owned s L k ?v (s2, b2)" by (cases r) auto
      have "drop (nat dplen) (pt @ ds1 @ rest) = ds1 @ rest" using nd(3) by auto
      then show "wpr (alloc_err A) (owned s L 28 (digits_value 10 ?ds))
          (?tail (case r of (st, b, s) \<Rightarrow> (st, b, drop (nat dplen) s, nd0)))"
        using last[OF r2(2) vp dg(3) f2 f3 nl] unfolding r2(1) by simp
    qed
    then show ?thesis using True by (simp add: case_prod_unfold)
  qed
  show ?thesis unfolding run wpr_andthen[of _ _ "andthen (Balloc A s k) _"]
    by (rule wpr_mono[OF fill]) (auto intro: go)
qed

end
