(* ===== verification/Bigint_Pow.thy ===== *)
theory Bigint_Pow
  imports Bigint_Ops
begin

text \<open>
\<open>pow5mult\<close> of \<open>3rd/lua-cjson/dtoa.c\<close> multiplies by a power of five with the cached powers
  \<open>p5s\<close>. \<open>dtoa_inv\<close> is the invariant of the file's state between calls: the blocks are those of
  the callers, the cached powers (which hold \<open>625 ^ (2 ^ i)\<close>) and the free ones.
\<close>

section \<open>Multiplying by a power of five\<close>

definition set_next :: "dtoa_state \<Rightarrow> nat \<Rightarrow> nat option \<Rightarrow> dtoa_state res" where
  "set_next s a p = andthen (deref s a) (\<lambda>b. Inr (update s a (b\<lparr>bg_next := p\<rparr>)))"

definition next_power :: "alloc \<Rightarrow> dtoa_state \<Rightarrow> nat \<Rightarrow> (dtoa_state \<times> nat) res" where
  \<comment> \<open>\<open>p51\<close>: the square of \<open>p5\<close>, computed the first time\<close>
  "next_power A s p5 =
     andthen (deref s p5) (\<lambda>P.
     (case bg_next P of
        Some p51 \<Rightarrow> Inr (s, p51)
      | None \<Rightarrow>
          andthen (mult A s p5 p5) (\<lambda>(s, p51).
          andthen (set_next s p5 (Some p51)) (\<lambda>s.
          andthen (set_next s p51 None) (\<lambda>s. Inr (s, p51))))))"

function pow5_loop :: "alloc \<Rightarrow> dtoa_state \<Rightarrow> nat \<Rightarrow> nat \<Rightarrow> nat \<Rightarrow> (dtoa_state \<times> nat) res" where
  "pow5_loop A s b p5 k =
     andthen
       (if odd k
        then andthen (mult A s b p5) (\<lambda>(s, b1). andthen (Bfree s (Some b)) (\<lambda>s. Inr (s, b1)))
        else Inr (s, b)) (\<lambda>(s, b).
     if k div 2 = 0 then Inr (s, b)
     else andthen (next_power A s p5) (\<lambda>(s, p51). pow5_loop A s b p51 (k div 2)))"
  by pat_completeness auto
termination by (relation "measure (\<lambda>(A, s, b, p5, k). k)") auto

declare pow5_loop.simps [simp del]


definition p05 :: "int list" where "p05 = [5, 25, 125]"

definition first_power :: "alloc \<Rightarrow> dtoa_state \<Rightarrow> (dtoa_state \<times> nat) res" where
  "first_power A s =
     (case dt_p5s s of
        Some p5 \<Rightarrow> Inr (s, p5)
      | None \<Rightarrow>
          andthen (i2b A s 625) (\<lambda>(s, p5).
          andthen (set_next (s\<lparr>dt_p5s := Some p5\<rparr>) p5 None) (\<lambda>s. Inr (s, p5))))"

definition pow5mult :: "alloc \<Rightarrow> dtoa_state \<Rightarrow> nat \<Rightarrow> int \<Rightarrow> (dtoa_state \<times> nat) res" where
  \<comment> \<open>for a negative \<open>k\<close> the loop's \<open>k >>= 1\<close> never reaches 0\<close>
  "pow5mult A s b k =
     (let i = k AND 3 in
      andthen (if i \<noteq> 0 then multadd A s b (p05 ! nat (i - 1)) 0 else Inr (s, b)) (\<lambda>(s, b).
      let k = drop_bit 2 k in
      if k = 0 then Inr (s, b)
      else andthen (first_power A s) (\<lambda>(s, p5).
           if k < 0 then Inl Diverge else pow5_loop A s b p5 (nat k))))"

text \<open>
  The powers kept from earlier calls: \<open>p5s\<close> heads a chain of blocks that hold
  \<open>625, 625 ^ 2, 625 ^ 4, \<dots>\<close>.
\<close>

definition p5_ok :: "dtoa_state \<Rightarrow> nat list \<Rightarrow> bool" where
  "p5_ok s ps \<longleftrightarrow>
     chain (dt_heap s) (dt_p5s s) ps \<and> distinct ps \<and> length ps \<le> 28
     \<and> (\<forall>i < length ps. big_at s (ps ! i) (int i + 1) (625 ^ (2 ^ i)))"

definition dtoa_inv :: "dtoa_state \<Rightarrow> nat set \<Rightarrow> bool" where
  \<comment> \<open>the blocks are those of the callers, the cached powers and the free ones\<close>
  "dtoa_inv s L \<longleftrightarrow> (\<exists>ps. p5_ok s ps \<and> set ps \<inter> L = {} \<and> dt_ok s (L \<union> set ps))"

lemma chain_cong: "(\<forall>a \<in> set ps. h' a = h a) \<Longrightarrow> chain h' p ps = chain h p ps"
  by (induction h p ps rule: chain.induct) (auto split: option.splits)

lemma p5_same: "p5_ok s ps \<Longrightarrow> same L s s' \<Longrightarrow> set ps \<subseteq> L \<Longrightarrow> p5_ok s' ps"
  using chain_cong[of ps "dt_heap s'" "dt_heap s"]
  by (auto simp: p5_ok_def same_def big_at_def subset_iff)

lemma chain_next:
  "chain h p ps \<Longrightarrow> i < length ps \<Longrightarrow>
   \<exists>b. h (ps ! i) = Some b \<and> bg_next b = (if Suc i < length ps then Some (ps ! Suc i) else None)"
proof (induction h p ps arbitrary: i rule: chain.induct)
  case (2 h p a as)
  then obtain b where b: "h a = Some b" "chain h (bg_next b) as" by (auto split: option.splits)
  show ?case
  proof (cases i)
    case 0
    have "bg_next b = (if as \<noteq> [] then Some (as ! 0) else None)" using b(2) by (cases as) auto
    then show ?thesis using 0 b(1) by auto
  next
    case (Suc j)
    then obtain b' where "h (as ! j) = Some b'"
      "bg_next b' = (if Suc j < length as then Some (as ! Suc j) else None)"
      using 2(1)[OF b(1) b(2), of j] 2(3) by auto
    then show ?thesis using Suc by simp
  qed
qed simp

lemma chain_snoc:
  "chain h p ps \<Longrightarrow> distinct ps \<Longrightarrow> ps \<noteq> [] \<Longrightarrow> a \<notin> set ps \<Longrightarrow> h (last ps) = Some B \<Longrightarrow>
   chain (h(last ps \<mapsto> B\<lparr>bg_next := Some a\<rparr>, a \<mapsto> C\<lparr>bg_next := None\<rparr>)) p (ps @ [a])"
proof (induction ps arbitrary: p)
  case (Cons c ps)
  show ?case
  proof (cases "ps = []")
    case True
    then show ?thesis using Cons.prems by simp
  next
    case False
    obtain b where b: "h c = Some b" "chain h (bg_next b) ps" "p = Some c"
      using Cons.prems(1) by (auto split: option.splits)
    define h' where "h' = h(last ps \<mapsto> B\<lparr>bg_next := Some a\<rparr>, a \<mapsto> C\<lparr>bg_next := None\<rparr>)"
    have "chain h' (bg_next b) (ps @ [a])" unfolding h'_def
      by (rule Cons.IH[OF b(2)]) (use Cons.prems False in auto)
    moreover have "c \<noteq> last ps" "c \<noteq> a" using Cons.prems(2,4) False by auto
    then have "h' c = Some b" unfolding h'_def using b(1) by simp
    moreover have "last (c # ps) = last ps" using False by simp
    ultimately show ?thesis unfolding append_Cons chain.simps b(3) by (simp flip: h'_def)
  qed
qed simp

lemma big_next [simp]: "big k (b\<lparr>bg_next := p\<rparr>) n = big k b n" "blk_ok (b\<lparr>bg_next := p\<rparr>) = blk_ok b"
  by (simp_all add: big_def blk_ok_def peek_words_def)

lemma next_power_spec:
  assumes p5: "p5_ok s ps" "i < length ps" and i: "i < 27" and L: "set ps \<inter> L = {}" "dt_ok s (L \<union> set ps)"
  shows "wpr (alloc_err A)
     (\<lambda>(s', p51). \<exists>qs. p5_ok s' qs \<and> Suc i < length qs \<and> p51 = qs ! Suc i \<and> set qs \<inter> L = {} \<and> dt_ok s' (L \<union> set qs)
        \<and> (\<forall>a \<in> L. dt_heap s' a = dt_heap s a))
     (next_power A s (ps ! i))"
proof -
  have ch: "chain (dt_heap s) (dt_p5s s) ps" "distinct ps" "length ps \<le> 28"
    "big_at s (ps ! i) (int i + 1) (625 ^ (2 ^ i))" using p5 by (auto simp: p5_ok_def)
  obtain B where B: "dt_heap s (ps ! i) = Some B"
    "bg_next B = (if Suc i < length ps then Some (ps ! Suc i) else None)"
    using chain_next[OF ch(1) p5(2)] by blast
  then have d: "deref s (ps ! i) = Inr B" by (simp add: deref_def)
  show ?thesis
  proof (cases "Suc i < length ps")
    case True
    then show ?thesis using d B p5 L by (auto simp: next_power_def)
  next
    case False
    then have "length ps = Suc i" using p5(2) by simp
    moreover from this have "ps \<noteq> []" by auto
    ultimately have last: "length ps = Suc i" "ps ! i = last ps" "ps \<noteq> []" by (simp_all add: last_conv_nth)
    have m: "ps ! i \<in> L \<union> set ps" using p5(2) by simp
    have v: "(625::nat) ^ (2 ^ i) * 625 ^ (2 ^ i) = 625 ^ (2 ^ Suc i)" by (simp add: mult_2 power_add)
    have k: "int i + 1 \<le> 29" using i by simp
    have run: "next_power A s (ps ! i) = andthen (mult A s (ps ! i) (ps ! i)) (\<lambda>(s, p51).
        andthen (set_next s (ps ! i) (Some p51)) (\<lambda>s. andthen (set_next s p51 None) (\<lambda>s. Inr (s, p51))))"
      using d B(2) False by (simp add: next_power_def)
    show ?thesis unfolding run wpr_andthen[of _ _ "mult A s (ps ! i) (ps ! i)"]
    proof (rule wpr_mono[OF mult_spec[OF L(2) m ch(4) _ order_refl m ch(4) _ order_refl k]])
      fix r assume "made s (L \<union> set ps) (int i + 1 + 1) (625 ^ (2 ^ i) * 625 ^ (2 ^ i)) 0 r"
      then obtain s1 q C where r: "r = (s1, q)" "q \<notin> L" "q \<notin> set ps" "dt_ok s1 (insert q (L \<union> set ps))"
        "same (L \<union> set ps) s s1" "dt_heap s1 q = Some C" "big (int i + 2) C (625 ^ (2 ^ Suc i))"
        unfolding v by (cases r) (auto simp: made_def add.commute)
      have B1: "dt_heap s1 (ps ! i) = Some B" using r(5) m B(1) by (simp add: same_def)
      have ne: "ps ! i \<noteq> q" using r(3) p5(2) by force
      have bB: "blk_ok B" "blk_ok C" using dt_ok_deref[OF r(4), of "ps ! i"] dt_ok_deref[OF r(4), of q] B1 r(6) m by auto
      let ?s2 = "update s1 (ps ! i) (B\<lparr>bg_next := Some q\<rparr>)" let ?s3 = "update ?s2 q (C\<lparr>bg_next := None\<rparr>)"
      have mi: "ps ! i \<in> insert q (L \<union> set ps)" using m by simp
      have ok2: "dt_ok ?s2 (insert q (L \<union> set ps))" by (rule update_spec(1)[OF r(4) mi]) (simp add: bB)
      have ok3: "dt_ok ?s3 (insert q (L \<union> set ps))" by (rule update_spec(1)[OF ok2 insertI1]) (simp add: bB)
      have ex: "set_next s1 (ps ! i) (Some q) = Inr ?s2" "set_next ?s2 q None = Inr ?s3"
        using B1 r(6) ne by (simp_all add: set_next_def deref_def update_def)
      have p51: "p5_ok s1 ps" by (rule p5_same[OF p5(1) r(5)]) simp
      have h3: "dt_heap ?s3 = (dt_heap s1)(last ps \<mapsto> B\<lparr>bg_next := Some q\<rparr>, q \<mapsto> C\<lparr>bg_next := None\<rparr>)"
        by (simp add: update_def last)
      have "p5_ok ?s3 (ps @ [q])"
        unfolding p5_ok_def
      proof (intro conjI allI impI)
        have "chain (dt_heap s1) (dt_p5s s1) ps" using p51 by (simp add: p5_ok_def)
        then show "chain (dt_heap ?s3) (dt_p5s ?s3) (ps @ [q])"
          unfolding h3 using chain_snoc[of "dt_heap s1" "dt_p5s s1" ps q B C] ch(2) r(3) last B1
          by (simp add: update_def)
        show "distinct (ps @ [q])" using ch(2) r(3) by simp
        show "length (ps @ [q]) \<le> 28" using last i by simp
        fix j assume j: "j < length (ps @ [q])"
        show "big_at ?s3 ((ps @ [q]) ! j) (int j + 1) (625 ^ 2 ^ j)"
        proof (cases "j < length ps")
          case True
          then have "big_at s1 (ps ! j) (int j + 1) (625 ^ 2 ^ j)" using p51 by (simp add: p5_ok_def)
          moreover have "ps ! j \<noteq> q" using r(3) True by force
          ultimately show ?thesis using True B1 by (auto simp: nth_append big_at_def update_def)
        next
          case False
          then have "j = Suc i" using j last by simp
          then show ?thesis using r(7) last by (simp add: big_at_def update_def nth_append add.commute)
        qed
      qed
      moreover have "(ps @ [q]) ! Suc i = q" using last by (simp add: nth_append)
      moreover have "set (ps @ [q]) \<inter> L = {}" using L(1) r(2) by auto
      moreover have "L \<union> set (ps @ [q]) = insert q (L \<union> set ps)" by auto
      moreover have "\<forall>a \<in> L. dt_heap ?s3 a = dt_heap s a"
      proof -
        have "ps ! i \<notin> L" using L(1) nth_mem[OF p5(2)] by blast
        then show ?thesis using r(2,5) by (auto simp: update_def same_def)
      qed
      ultimately show "wpr (alloc_err A)
         (\<lambda>(s', p51). \<exists>qs. p5_ok s' qs \<and> Suc i < length qs \<and> p51 = qs ! Suc i \<and> set qs \<inter> L = {}
            \<and> dt_ok s' (L \<union> set qs) \<and> (\<forall>a \<in> L. dt_heap s' a = dt_heap s a))
         (case r of (s, p51) \<Rightarrow> andthen (set_next s (ps ! i) (Some p51)) (\<lambda>s. andthen (set_next s p51 None) (\<lambda>s. Inr (s, p51))))"
        unfolding r(1) prod.case ex andthen_simps wpr_simps using ok3 last
        by (intro exI[of _ "ps @ [q]"]) simp
    qed simp_all
  qed
qed

definition powered :: "dtoa_state \<Rightarrow> nat set \<Rightarrow> nat \<Rightarrow> int \<Rightarrow> nat \<Rightarrow> dtoa_state \<times> nat \<Rightarrow> bool" where
  \<comment> \<open>\<open>becomes\<close> up to the cached powers\<close>
  "powered s L b k n r \<longleftrightarrow>
     (case r of (s', b') \<Rightarrow>
        (b' = b \<or> b' \<notin> L) \<and> dtoa_inv s' (insert b' (L - {b}))
        \<and> (\<forall>a \<in> L - {b}. dt_heap s' a = dt_heap s a) \<and> big_at s' b' k n)"

lemma powered_step:
  assumes "b1 = b \<or> b1 \<notin> L" "\<forall>a \<in> L - {b}. dt_heap s1 a = dt_heap s a" "b \<in> L"
    and "powered s1 (insert b1 (L - {b})) b1 k n r"
  shows "powered s L b k n r"
proof -
  have e: "insert b1 (L - {b}) - {b1} = L - {b}" using assms(1,3) by auto
  show ?thesis using assms unfolding powered_def e by (cases r) auto
qed

lemma pow5_loop_spec:
  assumes K: "1 \<le> K"
  shows "p5_ok s ps \<Longrightarrow> i < length ps \<Longrightarrow> set ps \<inter> L = {} \<Longrightarrow> dt_ok s (L \<union> set ps) \<Longrightarrow> b \<in> L \<Longrightarrow>
    big_at s b (K + int i) n \<Longrightarrow> 0 < n \<Longrightarrow> k < 2 ^ j \<Longrightarrow> K + int i + int j \<le> 30 \<Longrightarrow> i + j \<le> 28 \<Longrightarrow>
    wpr (alloc_err A) (powered s L b (K + int i + int j) (n * 625 ^ (2 ^ i * k))) (pow5_loop A s b (ps ! i) k)"
proof (induction k arbitrary: s ps L b i j n rule: less_induct)
  case (less k)
  note p = less.prems
  have rest: "wpr (alloc_err A) (powered s1 M c (K + int i + int j) (m * 625 ^ (2 ^ Suc i * (k div 2))))
      (if k div 2 = 0 then Inr (s1, c)
       else andthen (next_power A s1 (ps ! i)) (\<lambda>(s, p51). pow5_loop A s c p51 (k div 2)))"
    if s1: "p5_ok s1 ps" "set ps \<inter> M = {}" "dt_ok s1 (M \<union> set ps)" "c \<in> M" "0 < m"
      "big_at s1 c (K + int i + (if odd k then 1 else 0)) m" for s1 c M m
  proof (cases "k div 2 = 0")
    case True
    then have "odd k \<longrightarrow> 1 \<le> j" using p(8) by (cases j) auto
    then have "big_at s1 c (K + int i + int j) m" using s1(6) by (auto intro: big_at_mono)
    moreover have "dtoa_inv s1 M" using s1 by (auto simp: dtoa_inv_def)
    ultimately show ?thesis using True by (simp add: powered_def insert_absorb[OF s1(4)])
  next
    case False
    then obtain j' where j: "j = Suc j'" "1 \<le> j'" using p(8) by (cases j; cases "j - 1") (auto simp: less_Suc_eq)
    then have k2: "k div 2 < 2 ^ j'" using p(8) by simp
    have lt: "k div 2 < k" using False by auto
    have i27: "i < 27" using p(10) j by simp
    have eq: "K + int (Suc i) + int j' = K + int i + int j" using j by simp
    show ?thesis unfolding if_not_P[OF False] wpr_andthen
    proof (rule wpr_mono[OF next_power_spec[OF s1(1) p(2) i27 s1(2,3)]])
      fix r
      assume "case r of (s', p51) \<Rightarrow> \<exists>qs. p5_ok s' qs \<and> Suc i < length qs \<and> p51 = qs ! Suc i \<and> set qs \<inter> M = {}
          \<and> dt_ok s' (M \<union> set qs) \<and> (\<forall>a \<in> M. dt_heap s' a = dt_heap s1 a)"
      then obtain s2 qs where r: "r = (s2, qs ! Suc i)" "p5_ok s2 qs" "Suc i < length qs" "set qs \<inter> M = {}"
        "dt_ok s2 (M \<union> set qs)" "\<forall>a \<in> M. dt_heap s2 a = dt_heap s1 a" by (cases r) auto
      have "big_at s2 c (K + int (Suc i)) m"
        using s1(4,6) r(6) by (auto simp: big_at_def big_def split: if_splits)
      from less.IH[OF lt r(2,3,4,5) s1(4) this s1(5) k2] p(9,10) j
      have "wpr (alloc_err A) (powered s2 M c (K + int i + int j) (m * 625 ^ (2 ^ Suc i * (k div 2))))
          (pow5_loop A s2 c (qs ! Suc i) (k div 2))" unfolding eq by simp
      then show "wpr (alloc_err A) (powered s1 M c (K + int i + int j) (m * 625 ^ (2 ^ Suc i * (k div 2))))
          (case r of (s, p51) \<Rightarrow> pow5_loop A s c p51 (k div 2))"
        unfolding r(1) prod.case by (rule wpr_mono) (auto simp: powered_def r(6))
    qed
  qed
  show ?case
  proof (cases "odd k")
    case False
    have e: "2 ^ Suc i * (k div 2) = 2 ^ i * k" using False by (auto elim: evenE)
    show ?thesis using rest[OF p(1,3,4,5,7)] p(6) False unfolding e
      by (subst pow5_loop.simps) simp
  next
    case True
    have j1: "1 \<le> j" using True p(8) by (cases j) auto
    have pw: "(n * 625 ^ (2 ^ i)) * 625 ^ (2 ^ Suc i * (k div 2)) = n * 625 ^ (2 ^ i * k)"
    proof -
      have "2 ^ i * k = 2 ^ i + 2 ^ Suc i * (k div 2)" using True by (auto elim!: oddE simp: algebra_simps)
      then show ?thesis by (simp add: power_add)
    qed
    have mp: "ps ! i \<in> L \<union> set ps" "b \<in> L \<union> set ps" using p(2,5) by simp_all
    have pi: "big_at s (ps ! i) (int i + 1) (625 ^ (2 ^ i))" using p(1,2) by (simp add: p5_ok_def)
    have kk: "int i + 1 \<le> K + int i" "K + int i \<le> 29" using K p(9) j1 by simp_all
    have zero: "0 < (625::nat) ^ 2 ^ i" by simp
    have m: "wpr (alloc_err A) (becomes s (L \<union> set ps) b (K + int i + 1) (n * 625 ^ (2 ^ i)))
        (andthen (mult A s b (ps ! i)) (\<lambda>(s, b1). andthen (Bfree s (Some b)) (\<lambda>s. Inr (s, b1))))"
      by (rule made_then_free[OF mult_spec[OF p(4) mp(2) p(6,7) order_refl mp(1) pi zero kk] mp(2)])
    have run: "pow5_loop A s b (ps ! i) k =
        andthen (andthen (mult A s b (ps ! i)) (\<lambda>(s, b1). andthen (Bfree s (Some b)) (\<lambda>s. Inr (s, b1)))) (\<lambda>(s1, c).
          if k div 2 = 0 then Inr (s1, c)
          else andthen (next_power A s1 (ps ! i)) (\<lambda>(s, p51). pow5_loop A s c p51 (k div 2)))"
      using True by (subst pow5_loop.simps) simp
    show ?thesis unfolding run wpr_andthen[of _ _ "andthen (mult A s b (ps ! i)) _"]
    proof (rule wpr_mono[OF m])
      fix r assume "becomes s (L \<union> set ps) b (K + int i + 1) (n * 625 ^ (2 ^ i)) r"
      then obtain s1 c where r: "r = (s1, c)" "c = b \<or> c \<notin> L \<union> set ps" "dt_ok s1 (insert c ((L \<union> set ps) - {b}))"
        "same ((L \<union> set ps) - {b}) s s1" "big_at s1 c (K + int i + 1) (n * 625 ^ (2 ^ i))"
        by (cases r) (auto simp: becomes_def)
      have bps: "b \<notin> set ps" using p(3,5) by auto
      let ?M = "insert c (L - {b})"
      have M: "set ps \<inter> ?M = {}" "?M \<union> set ps = insert c ((L \<union> set ps) - {b})" using p(3) r(2) bps by auto
      have "p5_ok s1 ps" by (rule p5_same[OF p(1) r(4)]) (use bps in auto)
      from rest[OF this M(1) _ insertI1 _ , of "n * 625 ^ (2 ^ i)"] r(3,5) M(2) p(7) True
      have "wpr (alloc_err A) (powered s1 ?M c (K + int i + int j) (n * 625 ^ (2 ^ i * k)))
          (if k div 2 = 0 then Inr (s1, c)
           else andthen (next_power A s1 (ps ! i)) (\<lambda>(s, p51). pow5_loop A s c p51 (k div 2)))"
        unfolding pw by simp
      then show "wpr (alloc_err A) (powered s L b (K + int i + int j) (n * 625 ^ (2 ^ i * k)))
          (case r of (s1, c) \<Rightarrow> if k div 2 = 0 then Inr (s1, c)
           else andthen (next_power A s1 (ps ! i)) (\<lambda>(s, p51). pow5_loop A s c p51 (k div 2)))"
        unfolding r(1) prod.case
        by (rule wpr_mono) (use r(2,4) p(5) in \<open>auto intro!: powered_step[of c b L s1 s] simp: same_def\<close>)
    qed simp
  qed
qed

lemma first_power_spec:
  assumes "dtoa_inv s L"
  shows "wpr (alloc_err A)
     (\<lambda>(s', p5). \<exists>ps. p5_ok s' ps \<and> ps \<noteq> [] \<and> p5 = ps ! 0 \<and> set ps \<inter> L = {} \<and> dt_ok s' (L \<union> set ps)
        \<and> (\<forall>a \<in> L. dt_heap s' a = dt_heap s a))
     (first_power A s)"
proof -
  obtain ps where ps: "p5_ok s ps" "set ps \<inter> L = {}" "dt_ok s (L \<union> set ps)" using assms by (auto simp: dtoa_inv_def)
  show ?thesis
  proof (cases "dt_p5s s")
    case (Some p5)
    then obtain qs where "ps = p5 # qs" using ps(1) by (cases ps) (auto simp: p5_ok_def)
    then show ?thesis using Some ps by (auto simp: first_power_def intro!: exI[of _ ps])
  next
    case None
    then have "ps = []" using ps(1) by (cases ps) (auto simp: p5_ok_def)
    then have ok: "dt_ok s L" using ps(3) by simp
    have run: "first_power A s = andthen (i2b A s 625) (\<lambda>(s, p5).
          andthen (set_next (s\<lparr>dt_p5s := Some p5\<rparr>) p5 None) (\<lambda>s. Inr (s, p5)))"
      by (simp add: first_power_def None)
    show ?thesis unfolding run wpr_andthen[of _ _ "i2b A s 625"]
    proof (rule wpr_mono[OF i2b_spec[OF ok]])
      fix r assume "made s L 1 (nat 625) 0 r"
      then obtain s1 q C where r: "r = (s1, q)" "q \<notin> L" "dt_ok s1 (insert q L)" "same L s s1"
        "dt_heap s1 q = Some C" "big 1 C 625" by (cases r) (auto simp: made_def)
      let ?s1 = "s1\<lparr>dt_p5s := Some q\<rparr>"
      have ok1: "dt_ok ?s1 (insert q L)" using r(3) by (simp add: dt_ok_def free_ok_def)
      have bC: "blk_ok C" using r(6) by (simp add: big_def)
      let ?s2 = "update ?s1 q (C\<lparr>bg_next := None\<rparr>)"
      have ok2: "dt_ok ?s2 (insert q L)" by (rule update_spec(1)[OF ok1 insertI1]) (simp add: bC)
      have "p5_ok ?s2 [q]" using r(6) by (simp add: p5_ok_def update_def big_at_def)
      moreover have "set_next ?s1 q None = Inr ?s2" using r(5) by (simp add: set_next_def deref_def)
      ultimately show "wpr (alloc_err A)
         (\<lambda>(s', p5). \<exists>ps. p5_ok s' ps \<and> ps \<noteq> [] \<and> p5 = ps ! 0 \<and> set ps \<inter> L = {} \<and> dt_ok s' (L \<union> set ps)
            \<and> (\<forall>a \<in> L. dt_heap s' a = dt_heap s a))
         (case r of (s, p5) \<Rightarrow> andthen (set_next (s\<lparr>dt_p5s := Some p5\<rparr>) p5 None) (\<lambda>s. Inr (s, p5)))"
        using r ok2 by (auto simp: same_def update_def intro!: exI[of _ "[q]"])
    qed (simp_all add: INT_MAX_def)
  qed
qed

lemma pow5_split:
  assumes "0 \<le> e"
  shows "(if e AND 3 \<noteq> 0 then 5 ^ nat (e AND 3) else 1) * 625 ^ nat (drop_bit 2 e) = (5 :: nat) ^ nat e"
proof -
  have "(3 :: int) = mask 2" by (simp add: mask_eq_exp_minus_1)
  then have "e AND 3 = take_bit 2 e" by (simp only: take_bit_eq_mask)
  then have a: "e AND 3 = e mod 4" by (simp add: take_bit_eq_mod)
  have "nat e = nat (e mod 4) + 4 * nat (e div 4)" using assms by (simp add: nat_mod_distrib nat_div_distrib)
  then have "(5::nat) ^ nat e = 5 ^ nat (e mod 4) * (5 ^ 4) ^ nat (e div 4)" by (metis power_add power_mult)
  then show ?thesis unfolding a by (simp add: drop_bit_eq_div)
qed

lemma p05_nth: "i \<in> {1, 2, 3} \<Longrightarrow> p05 ! nat (i - 1) = int (5 ^ nat i) \<and> 5 ^ nat i \<le> (125 :: nat)"
  by (auto simp: p05_def)

lemma pow5mult_spec:
  assumes inv: "dtoa_inv s L" and b: "b \<in> L" "big_at s b k n" "0 < n" and k: "k \<le> 15" and e: "0 \<le> e" "e < 65536"
  shows "wpr (alloc_err A) (powered s L b (k + 15) (n * 5 ^ nat e)) (pow5mult A s b e)"
proof -
  obtain ps where ps: "p5_ok s ps" "set ps \<inter> L = {}" "dt_ok s (L \<union> set ps)" using inv by (auto simp: dtoa_inv_def)
  let ?i = "e AND 3" let ?k = "drop_bit 2 e" let ?m = "if ?i \<noteq> 0 then 5 ^ nat ?i else (1::nat)"
  have k0: "0 \<le> k" using b(2) by (auto simp: big_at_def big_def blk_ok_def)
  have i: "?i \<noteq> 0 \<Longrightarrow> ?i \<in> {1, 2, 3}"
  proof -
    have "?i = e mod 4"
      using take_bit_eq_mask[of 2 e] by (simp add: mask_eq_exp_minus_1 take_bit_eq_mod)
    moreover have "0 \<le> e mod 4" "e mod 4 < 4" by simp_all
    ultimately show "?i \<noteq> 0 \<Longrightarrow> ?i \<in> {1, 2, 3}" by auto
  qed
  have k1: "0 \<le> ?k" "nat ?k < 2 ^ 14" using e by (simp_all add: drop_bit_eq_div pos_imp_zdiv_nonneg_iff nat_less_iff)
  have bps: "b \<notin> set ps" "b \<in> L \<union> set ps" using ps(2) b(1) by auto
  have first: "wpr (alloc_err A) (becomes s (L \<union> set ps) b (k + 1) (n * ?m))
      (if ?i \<noteq> 0 then multadd A s b (p05 ! nat (?i - 1)) 0 else Inr (s, b))"
  proof (cases "?i = 0")
    case True
    then show ?thesis using ps(3) bps(2) b(2) by (auto simp: becomes_def insert_absorb intro: big_at_mono)
  next
    case False
    note p = p05_nth[OF i[OF False]]
    then have "int (5 ^ nat ?i) \<le> int 125" by (simp only: of_nat_le_iff)
    then have lim: "int (5 ^ nat ?i) \<le> INT_MAX" by (simp add: INT_MAX_def)
    have "wpr (alloc_err A) (becomes s (L \<union> set ps) b (k + 1) (n * nat (int (5 ^ nat ?i)) + nat 0))
        (multadd A s b (int (5 ^ nat ?i)) 0)"
      by (rule multadd_spec[OF ps(3) bps(2) b(2)]) (use k lim b(3) in \<open>auto simp: INT_MAX_def\<close>)
    then have "wpr (alloc_err A) (becomes s (L \<union> set ps) b (k + 1) (n * 5 ^ nat ?i)) (multadd A s b (p05 ! nat (?i - 1)) 0)"
      unfolding nat_int using p by simp
    then show ?thesis using False by simp
  qed
  have tail: "wpr (alloc_err A) (powered s1 M c (k + 15) (n * 5 ^ nat e))
      (if ?k = 0 then Inr (s1, c) else andthen (first_power A s1) (\<lambda>(s, p5).
           if ?k < 0 then Inl Diverge else pow5_loop A s c p5 (nat ?k)))"
    if c: "dtoa_inv s1 M" "c \<in> M" "big_at s1 c (k + 1) (n * ?m)" for s1 M c
  proof (cases "?k = 0")
    case True
    then have v: "n * 5 ^ nat e = n * ?m" using pow5_split[OF e(1)] by simp
    have "big_at s1 c (k + 15) (n * ?m)" using c(3) by (rule big_at_mono) simp
    then show ?thesis using True c(1) unfolding v by (simp add: powered_def insert_absorb[OF c(2)])
  next
    case False
    have v: "n * ?m * 625 ^ (2 ^ 0 * nat ?k) = n * 5 ^ nat e"
      using pow5_split[OF e(1)] by (simp add: mult.assoc)
    have nn: "\<not> ?k < 0" using k1(1) by simp
    have pos: "0 < n * ?m" using b(3) by simp
    show ?thesis unfolding if_not_P[OF False] if_not_P[OF nn] wpr_andthen
    proof (rule wpr_mono[OF first_power_spec[OF c(1)]])
      fix r
      assume "case r of (s', p5) \<Rightarrow> \<exists>ps. p5_ok s' ps \<and> ps \<noteq> [] \<and> p5 = ps ! 0 \<and> set ps \<inter> M = {}
          \<and> dt_ok s' (M \<union> set ps) \<and> (\<forall>a \<in> M. dt_heap s' a = dt_heap s1 a)"
      then obtain s2 qs where r: "r = (s2, qs ! 0)" "p5_ok s2 qs" "qs \<noteq> []" "set qs \<inter> M = {}"
        "dt_ok s2 (M \<union> set qs)" "\<forall>a \<in> M. dt_heap s2 a = dt_heap s1 a" by (cases r) auto
      have at: "big_at s2 c (k + 1 + int 0) (n * ?m)" using c(2,3) r(6) by (simp add: big_at_def)
      have K: "1 \<le> k + 1" "k + 1 + int 0 + int 14 \<le> 30" "0 + 14 \<le> (28::nat)" using k k0 by simp_all
      have eq: "k + 1 + int 0 + int 14 = k + 15" by simp
      have "0 < length qs" using r(3) by simp
      from pow5_loop_spec[OF K(1) r(2) this r(4,5) c(2) at pos k1(2) K(2,3)]
      have "wpr (alloc_err A) (powered s2 M c (k + 15) (n * 5 ^ nat e)) (pow5_loop A s2 c (qs ! 0) (nat ?k))"
        unfolding v eq .
      then show "wpr (alloc_err A) (powered s1 M c (k + 15) (n * 5 ^ nat e))
          (case r of (s, p5) \<Rightarrow> pow5_loop A s c p5 (nat ?k))"
        unfolding r(1) prod.case by (rule wpr_mono) (auto simp: powered_def r(6))
    qed
  qed
  show ?thesis unfolding pow5mult_def Let_def wpr_andthen[of _ _ "if ?i \<noteq> 0 then _ else _"]
  proof (rule wpr_mono[OF first])
    fix r assume "becomes s (L \<union> set ps) b (k + 1) (n * ?m) r"
    then obtain s1 c where r: "r = (s1, c)" "c = b \<or> c \<notin> L \<union> set ps" "dt_ok s1 (insert c ((L \<union> set ps) - {b}))"
      "same ((L \<union> set ps) - {b}) s s1" "big_at s1 c (k + 1) (n * ?m)" by (cases r) (auto simp: becomes_def)
    let ?M = "insert c (L - {b})"
    have M: "set ps \<inter> ?M = {}" "?M \<union> set ps = insert c ((L \<union> set ps) - {b})" using ps(2) r(2) bps by auto
    have "p5_ok s1 ps" by (rule p5_same[OF ps(1) r(4)]) (use bps in auto)
    then have "dtoa_inv s1 ?M" using M r(3) by (auto simp: dtoa_inv_def)
    from tail[OF this insertI1 r(5)]
    show "wpr (alloc_err A) (powered s L b (k + 15) (n * 5 ^ nat e))
        (case r of (s, b) \<Rightarrow> if ?k = 0 then Inr (s, b) else andthen (first_power A s) (\<lambda>(s, p5).
           if ?k < 0 then Inl Diverge else pow5_loop A s b p5 (nat ?k)))"
      unfolding r(1) prod.case
      by (rule wpr_mono) (use r(2,4) b(1) in \<open>auto intro!: powered_step[of c b L s1 s] simp: same_def\<close>)
  qed simp
qed

end
