(* ===== verification/Bigint_Div.thy ===== *)
theory Bigint_Div
  imports Bigint_Pow
begin

text \<open>
Division of the bignums of \<open>3rd/lua-cjson/dtoa.c\<close>: \<open>quorem\<close>, which leaves the remainder
  in its first argument and returns the quotient, and the in-place operations on bits:
  \<open>increment\<close>, \<open>rshift\<close> and \<open>any_on\<close>.
\<close>

section \<open>Quotient and remainder\<close>

definition peek_word :: "bigint \<Rightarrow> int \<Rightarrow> limb res" where
  "peek_word b i =
     (if i < 0 \<or> int (length (bg_x b)) \<le> i then Inl (UB Oob_read)
      else case bg_x b ! nat i of None \<Rightarrow> Inl (UB Uninit_read) | Some w \<Rightarrow> Inr w)"

definition quorem_trim :: "bigint \<Rightarrow> int \<Rightarrow> (bigint \<times> int) res" where
  \<comment> \<open>\<open>bxe = b->x + n\<close>: if that word is 0, drop the leading zero words but the lowest\<close>
  "quorem_trim B n =
     andthen (peek_words B (n + 1)) (\<lambda>xs.
     if last xs = 0 then
       let n = trim_zeros (rev (drop 1 (butlast xs))) n in Inr (B\<lparr>bg_wds := n\<rparr>, n)
     else Inr (B, n))"

definition quorem :: "dtoa_state \<Rightarrow> nat \<Rightarrow> nat \<Rightarrow> (dtoa_state \<times> int) res" where
  "quorem s b S =
     andthen (deref s b) (\<lambda>B.
     andthen (deref s S) (\<lambda>T.
     let w = bg_wds T; n = w - 1 in
     if bg_wds B < w then Inr (s, 0)
     else
       andthen (peek_word T n) (\<lambda>sxe.
       andthen (peek_word B n) (\<lambda>bxe.
       if sxe + 1 = 0 then Inl (UB Div_by_zero)
       else
         let q = bxe div (sxe + 1) in
         andthen (if q \<noteq> 0
                  then andthen (peek_words T w) (\<lambda>ss.
                       andthen (peek_words B w) (\<lambda>xs.
                       andthen (poke_words B 0 (quorem_loop q ss xs 0 0)) (\<lambda>B.
                       quorem_trim B n)))
                  else Inr (B, n)) (\<lambda>(B, n).
         let s = update s b B in
         andthen (cmp s b S) (\<lambda>i.
         if 0 \<le> i then
           andthen (deref s S) (\<lambda>T.
           andthen (peek_words T w) (\<lambda>ss.
           andthen (peek_words B w) (\<lambda>xs.
           andthen (poke_words B 0 (quorem_sub ss xs 0 0)) (\<lambda>B.
           andthen (quorem_trim B n) (\<lambda>(B, n).
           Inr (update s b B, sint (q + 1)))))))
         else Inr (s, sint q)))))))"

lemma peek_word_last:
  "peek_words b n = Inr ws \<Longrightarrow> 0 < n \<Longrightarrow> peek_word b (n - 1) = Inr (last ws)"
proof -
  assume "peek_words b n = Inr ws" "0 < n"
  then have ws: "n \<le> int (length (bg_x b))" "take (nat n) (bg_x b) = map Some ws" "length ws = nat n"
    using peek_length by (auto simp: peek_iff)
  then have ne: "ws \<noteq> []" "nat (n - 1) < nat n" "nat (n - 1) = length ws - 1" using \<open>0 < n\<close> by auto
  then have "bg_x b ! nat (n - 1) = Some (last ws)"
    using arg_cong[OF ws(2), of "\<lambda>l. l ! nat (n - 1)"] by (simp add: last_conv_nth ws(3))
  then show ?thesis using ws \<open>0 < n\<close> by (simp add: peek_word_def)
qed

lemma trim_zeros_take: "length xs = Suc n \<Longrightarrow> xs ! n \<noteq> 0 \<Longrightarrow> trim_zeros (rev xs) m = m"
  by (cases xs rule: rev_cases) auto

lemma quorem_trim_spec:
  assumes B: "blk_ok B" "peek_words B w = Inr zs" and w: "1 \<le> w" "w \<le> bg_maxwds B" "bg_wds B = w"
  shows "\<exists>B' n'. quorem_trim B (w - 1) = Inr (B', n') \<and> big (bg_k B) B' (bval zs) \<and> bg_x B' = bg_x B
     \<and> (4294967296 ^ nat (w - 1) \<le> bval zs \<longrightarrow> n' = w - 1 \<and> bg_wds B' = w)"
proof -
  have len: "length zs = nat w" using peek_length[OF B(2)] .
  then have ne: "zs \<noteq> []" using w(1) by auto
  show ?thesis
  proof (cases "last zs = 0")
    case False
    have "4294967296 ^ nat (w - 1) \<le> bval zs" using bval_top[OF ne False] len w(1) by (simp add: nat_diff_distrib')
    then have "big (bg_k B) B (bval zs)" using B w by (auto simp: big_def max_def)
    then show ?thesis using False B(2) w by (auto simp: quorem_trim_def)
  next
    case True
    obtain ys where ys: "zs = ys @ [0]" using True ne by (metis append_butlast_last_id)
    have v: "bval zs = bval ys" by (simp add: ys bval_append)
    have ly: "int (length ys) = w - 1" using len ys w(1) by simp
    have small: "bval zs < 4294967296 ^ nat (w - 1)" using bval_less[of ys] v nat_int[of "length ys"] unfolding ly by simp
    define m where "m = trim_zeros (rev (drop 1 ys)) (w - 1)"
    have run: "quorem_trim B (w - 1) = Inr (B\<lparr>bg_wds := m\<rparr>, m)"
      using B(2) by (simp add: quorem_trim_def True Let_def m_def ys)
    have bg: "big (bg_k B) (B\<lparr>bg_wds := m\<rparr>) (bval zs)"
    proof (cases ys)
      case Nil
      then have "m = 0" using ly by (simp add: m_def)
      then show ?thesis using B w ys Nil ly v by (auto simp: big_def peek_iff blk_ok_def intro!: exI[of _ "[0]"])
    next
      case (Cons y ys')
      have "int (length ys') \<le> w - 1" using ly Cons by simp
      then obtain k where k: "k \<le> length ys'" "m = w - 1 - int (length ys' - k)" "bval (take k ys') = bval ys'"
        "0 < k \<longrightarrow> ys' ! (k - 1) \<noteq> 0"
        using trim_zeros_spec[of ys' "w - 1"] unfolding m_def Cons by auto
      then have m: "m = int k + 1" using ly Cons by simp
      have pk: "peek_words B m = Inr (y # take k ys')"
      proof -
        have w': "w \<le> int (length (bg_x B))" "take (nat w) (bg_x B) = map Some zs" using B(2) by (auto simp: peek_iff)
        have nm: "nat m = Suc k" "nat m \<le> nat w" "m \<le> w" using m k(1) ly Cons by auto
        have "take (nat m) (bg_x B) = take (nat m) (take (nat w) (bg_x B))" using nm(2) by (simp add: min_def)
        also have "\<dots> = map Some (take (nat m) zs)" unfolding w'(2) by (simp add: take_map)
        also have "take (nat m) zs = y # take k ys'" unfolding nm(1) ys Cons using k(1) by simp
        finally show ?thesis using w'(1) nm(3) m by (simp add: peek_iff)
      qed
      have top: "1 < m \<longrightarrow> 4294967296 ^ nat (m - 1) \<le> bval (y # take k ys')"
      proof
        assume "1 < m"
        then have kp: "0 < k" using m by simp
        then have "take k ys' \<noteq> []" "last (y # take k ys') = ys' ! (k - 1)"
          using k(1) by (auto simp: last_conv_nth)
        then show "4294967296 ^ nat (m - 1) \<le> bval (y # take k ys')"
          using bval_top[of "y # take k ys'"] k(1,4) kp m by simp
      qed
      have "bval (y # take k ys') = bval zs" using k(3) v Cons by simp
      moreover have "peek_words (B\<lparr>bg_wds := m\<rparr>) (max 1 m) = Inr (y # take k ys')"
        using pk m by (simp add: peek_iff max_def)
      moreover have "blk_ok (B\<lparr>bg_wds := m\<rparr>)" using B(1) by (simp add: blk_ok_def)
      ultimately show ?thesis using top m k(1) w ly Cons by (simp add: big_def)
    qed
    show ?thesis using run bg small by auto
  qed
qed


text \<open>The estimate \<open>x div (t + 1)\<close> from the leading words is at most one too small.\<close>

lemma quotient_estimate:
  fixes x t n m P :: nat
  assumes n: "x * P \<le> n" "n < (x + 1) * P" and m: "t * P \<le> m" "m < (t + 1) * P" and t: "x + 1 \<le> t * (t + 1)"
  shows "x div (t + 1) * m \<le> n" "n < (x div (t + 1) + 2) * m"
proof -
  define q where "q = x div (t + 1)"
  have qx: "q * (t + 1) \<le> x" "x < (q + 1) * (t + 1)"
    unfolding q_def using div_times_less_eq_dividend[of x "t + 1"] dividend_less_div_times[of "t + 1" x]
    by (simp_all add: add.commute)
  have "q * m \<le> q * ((t + 1) * P)" using m(2) by (intro mult_le_mono2) simp
  also have "\<dots> \<le> x * P" using mult_le_mono1[OF qx(1), of P] unfolding mult.assoc .
  finally show "x div (t + 1) * m \<le> n" using n(1) unfolding q_def by simp
  have "q < t"
  proof (rule ccontr)
    assume "\<not> q < t"
    then have "t * (t + 1) \<le> q * (t + 1)" by (intro mult_le_mono1) simp
    then show False using qx(1) t by linarith
  qed
  then have "x + 1 \<le> (q + 2) * t" using qx(2) by (simp add: algebra_simps)
  then have "(x + 1) * P \<le> (q + 2) * t * P" by (rule mult_le_mono1)
  also have "\<dots> = (q + 2) * (t * P)" unfolding mult.assoc ..
  also have "\<dots> \<le> (q + 2) * m" using m(1) by (rule mult_le_mono2)
  finally show "n < (x div (t + 1) + 2) * m" using n(2) unfolding q_def by simp
qed

lemma bval_last:
  assumes "ws \<noteq> []"
  shows "unat (last ws) * 4294967296 ^ (length ws - 1) \<le> bval ws"
    "bval ws < (unat (last ws) + 1) * 4294967296 ^ (length ws - 1)"
proof -
  obtain ys y where ws: "ws = ys @ [y]" using assms by (cases ws rule: rev_cases) auto
  show "unat (last ws) * 4294967296 ^ (length ws - 1) \<le> bval ws"
    "bval ws < (unat (last ws) + 1) * 4294967296 ^ (length ws - 1)"
    using bval_less[of ys] by (simp_all add: ws bval_append)
qed

lemma div_mod_is: "n = q * m + r \<Longrightarrow> r < m \<Longrightarrow> n div m = q \<and> n mod m = r" for n :: nat
  by simp

lemma subtract_words:
  \<comment> \<open>one pass of \<open>quorem\<close> over the words, with the trimming that follows it\<close>
  assumes B: "blk_ok B" "peek_words B w = Inr xs" "bg_wds B = w" "1 \<le> w" "w \<le> bg_maxwds B"
    and zs: "zs = quorem_loop q ss xs 0 0" "length ss = length xs" "unat q * bval ss \<le> bval xs"
  shows "\<exists>B' n'. andthen (poke_words B 0 zs) (\<lambda>B. quorem_trim B (w - 1)) = Inr (B', n')
     \<and> big (bg_k B) B' (bval xs - unat q * bval ss)
     \<and> (4294967296 ^ nat (w - 1) \<le> bval xs - unat q * bval ss \<longrightarrow> n' = w - 1 \<and> bg_wds B' = w)"
proof -
  note z = quorem_loop_exact[OF zs(2,3), folded zs(1)]
  have len: "length zs = nat w" using z peek_length[OF B(2)] by simp
  have fits: "int (length zs) \<le> int (length (bg_x B))" using len B by (simp add: blk_ok_def)
  let ?B = "B\<lparr>bg_x := map Some zs @ drop (length zs) (bg_x B)\<rparr>"
  have b: "blk_ok ?B" "peek_words ?B w = Inr zs" "bg_wds ?B = w" "w \<le> bg_maxwds ?B"
    using B fits len by (auto simp: blk_ok_def peek_iff)
  show ?thesis using quorem_trim_spec[OF b(1,2) B(4) b(4,3)] z poke_at_0[OF fits] by auto
qed


lemma quorem_spec:
  assumes ok: "dt_ok s L" and b: "b \<in> L" "dt_heap s b = Some B" "big k B n"
    and S: "S \<in> L" "dt_heap s S = Some T" "big k' T m" "b \<noteq> S" "0 < m"
    and w: "bg_wds B \<le> bg_wds T"
    and top: "65536 * 4294967296 ^ nat (bg_wds T - 1) \<le> m" "m < 4294967295 * 4294967296 ^ nat (bg_wds T - 1)"
  shows "\<exists>s'. quorem s b S = Inr (s', sint (word_of_nat (n div m) :: limb)) \<and> dt_ok s' L \<and> same (L - {b}) s s'
     \<and> big_at s' b k (n mod m)"
proof -
  let ?w = "bg_wds T" let ?P = "4294967296 ^ nat (?w - 1) :: nat"
  have d: "deref s b = Inr B" "deref s S = Inr T" using b(2) S(2) by (simp_all add: deref_def)
  have bB: "blk_ok B" "bg_k B \<le> k" using b(3) by (simp_all add: big_def)
  note w1 = big_words(1)[OF S(3,5)]
  obtain ss where ss: "peek_words T ?w = Inr ss" "bval ss = m" "int (length ss) = ?w"
    using big_words(2)[OF S(3,5)] by blast
  have ssne: "ss \<noteq> []" using ss(3) w1 by auto
  have ls: "length ss - 1 = nat (?w - 1)" using ss(3) w1 by linarith
  have Pm: "?P \<le> m"
  proof -
    have "1 * ?P \<le> 65536 * ?P" by (rule mult_le_mono1) simp
    then show ?thesis using top(1) by linarith
  qed
  show ?thesis
  proof (cases "bg_wds B = ?w")
    case False
    have "n < m" using fewer_words_less[OF b(3) S(3)] False w S(5) by simp
    then show ?thesis using False w ok b by (auto simp: quorem_def d Let_def big_at_def)
  next
    case True
    have P0: "0 < ?P" by simp
    obtain xs where xs: "peek_words B ?w = Inr xs" "bval xs = n"
      using b(3) True w1 unfolding big_def by (auto simp: max_def split: if_splits)
    have lx: "length xs = length ss" using peek_length[OF xs(1)] ss(3) by simp
    then have xne: "xs \<noteq> []" using ssne by auto
    have lw: "length xs - 1 = nat (?w - 1)" using lx ls by simp
    let ?t = "unat (last ss)" let ?x = "unat (last xs)"
    note bs = bval_last[OF ssne, unfolded ss(2) ls] and bx = bval_last[OF xne, unfolded xs(2) lw]
    have t: "65536 \<le> ?t" "?t < 4294967295"
    proof -
      have "65536 * ?P < (?t + 1) * ?P" using bs(2) top(1) by linarith
      then have "65536 < ?t + 1" using P0 by (simp only: mult_less_cancel2)
      then show "65536 \<le> ?t" by simp
      have "?t * ?P < 4294967295 * ?P" using bs(1) top(2) by linarith
      then show "?t < 4294967295" using P0 by (simp only: mult_less_cancel2)
    qed
    have t1: "unat (last ss + 1) = ?t + 1" using t(2) by (subst unat_add_lem[THEN iffD1]) simp_all
    have nz: "last ss + 1 \<noteq> 0" using t1 by (metis add_is_0 one_neq_zero unat_0)
    define q where "q = last xs div (last ss + 1)"
    have uq: "unat q = ?x div (?t + 1)" unfolding q_def unat_div t1 ..
    have big_t: "?x + 1 \<le> ?t * (?t + 1)"
    proof -
      have "?x + 1 \<le> 65536 * 65536" using unat_limb[of "last xs"] by simp
      also have "\<dots> \<le> ?t * (?t + 1)" using t(1) by (intro mult_le_mono) simp_all
      finally show ?thesis .
    qed
    note est = quotient_estimate[OF bx bs big_t, folded uq]
    let ?r = "n - unat q * m"
    have first: "\<exists>B' n'. (if q \<noteq> 0
                  then andthen (peek_words T ?w) (\<lambda>ss. andthen (peek_words B ?w) (\<lambda>xs.
                       andthen (poke_words B 0 (quorem_loop q ss xs 0 0)) (\<lambda>B. quorem_trim B (?w - 1))))
                  else Inr (B, ?w - 1)) = Inr (B', n') \<and> big k B' ?r
          \<and> (?P \<le> ?r \<longrightarrow> n' = ?w - 1 \<and> bg_wds B' = ?w)"
    proof (cases "q = 0")
      case True
      then show ?thesis using b(3) \<open>bg_wds B = ?w\<close> by simp
    next
      case False
      have "?w \<le> bg_maxwds B" using b(3) True by (simp add: big_def)
      from subtract_words[OF bB(1) xs(1) True w1 this refl, of ss q] lx est(1)
      show ?thesis using False bB(2) by (auto simp: ss xs big_def)
    qed
    then obtain B' n' where B': "(if q \<noteq> 0
                  then andthen (peek_words T ?w) (\<lambda>ss. andthen (peek_words B ?w) (\<lambda>xs.
                       andthen (poke_words B 0 (quorem_loop q ss xs 0 0)) (\<lambda>B. quorem_trim B (?w - 1))))
                  else Inr (B, ?w - 1)) = Inr (B', n')" "big k B' ?r"
          "?P \<le> ?r \<Longrightarrow> n' = ?w - 1 \<and> bg_wds B' = ?w" by blast
    have bB': "blk_ok B'" using B'(2) by (simp add: big_def)
    let ?s = "update s b B'"
    note u = update_spec[OF ok b(1) bB']
    have at: "big_at ?s b k ?r" "big_at ?s S k' m" using B'(2) S by (auto simp: big_at_def update_def)
    obtain i where i: "cmp ?s b S = Inr i" "i < 0 \<longleftrightarrow> ?r < m" using cmp_spec[OF at] S(5) by auto
    have run: "quorem s b S = andthen (cmp ?s b S) (\<lambda>i.
         if 0 \<le> i then
           andthen (deref ?s S) (\<lambda>T. andthen (peek_words T ?w) (\<lambda>ss. andthen (peek_words B' ?w) (\<lambda>xs.
           andthen (poke_words B' 0 (quorem_sub ss xs 0 0)) (\<lambda>B.
           andthen (quorem_trim B n') (\<lambda>(B, n). Inr (update ?s b B, sint (q + 1)))))))
         else Inr (?s, sint q))"
      unfolding quorem_def d andthen_simps Let_def peek_word_last[OF ss(1) order_less_le_trans[OF zero_less_one w1]]
        peek_word_last[OF xs(1) order_less_le_trans[OF zero_less_one w1]] if_not_P[OF nz] q_def[symmetric]
        B'(1) prod.case
      using True by simp
    show ?thesis
    proof (cases "?r < m")
      case True
      have qm: "n = unat q * m + ?r" using est(1) by simp
      have e: "n div m = unat q" "n mod m = ?r"
        using div_mod_is[OF qm True] by simp_all
      show ?thesis unfolding run i(1) e using True i(2) u at(1) by simp
    next
      case False
      have dS: "deref ?s S = Inr T" using S(2,4) by (simp add: deref_def update_def)
      have wB': "n' = ?w - 1" "bg_wds B' = ?w" using B'(3) Pm False by auto
      obtain vs where vs: "peek_words B' ?w = Inr vs" "bval vs = ?r"
        using B'(2) wB'(2) w1 unfolding big_def by (auto simp: max_def split: if_splits)
      have lv: "length ss = length vs" using peek_length[OF vs(1)] ss(3) by simp
      have mw: "?w \<le> bg_maxwds B'" using B'(2) wB'(2) by (simp add: big_def)
      have one: "unat (1 :: limb) * bval ss \<le> bval vs" using False vs(2) ss(2) by simp
      obtain B2 n2 where B2: "andthen (poke_words B' 0 (quorem_sub ss vs 0 0)) (\<lambda>B. quorem_trim B (?w - 1)) = Inr (B2, n2)"
        "big (bg_k B') B2 (?r - m)"
        using subtract_words[OF bB' vs(1) wB'(2) w1 mw refl lv one] unfolding quorem_sub_loop vs(2) ss(2) by auto
      have B2': "andthen (poke_words B' 0 (quorem_sub ss vs 0 0)) (\<lambda>B. andthen (quorem_trim B (?w - 1)) f) = f (B2, n2)" for f
        using B2(1) by (simp flip: andthen_assoc)
      have big2: "big k B2 (?r - m)" using B2(2) B'(2) by (simp add: big_def)
      have run2: "quorem s b S = Inr (update ?s b B2, sint (q + 1))"
        unfolding run i(1) andthen_simps dS ss(1) vs(1) wB'(1) B2' prod.case using False i(2) by simp
      have q1: "unat q + 1 < 4294967296"
      proof -
        have "unat q \<le> ?x div 65537" unfolding uq using t(1) by (intro div_le_mono2) simp_all
        then show ?thesis using unat_limb[of "last xs"] by linarith
      qed
      then have uq1: "unat (q + 1) = unat q + 1" by (subst unat_add_lem[THEN iffD1]) simp_all
      have rest: "?r - m < m"
      proof -
        have "n < unat q * m + m + m" using est(2) by (simp add: algebra_simps)
        then show ?thesis using S(5) by linarith
      qed
      have qm: "n = (unat q + 1) * m + (?r - m)" using est(1) False by (simp add: algebra_simps)
      have e: "n div m = unat q + 1" "n mod m = ?r - m" using div_mod_is[OF qm rest] by simp_all
      have wq: "word_of_nat (unat q + 1) = q + 1" unfolding uq1[symmetric] by simp
      have bB2: "blk_ok B2" using big2 by (simp add: big_def)
      note u2 = update_spec[OF u(1) b(1) bB2]
      show ?thesis unfolding run2 e wq using u u2 big2 by (auto simp: big_at_def update_def same_def)
    qed
  qed
qed

section \<open>Adding one\<close>

fun inc_loop :: "limb list \<Rightarrow> limb list \<times> bool" where
  \<comment> \<open>the words afterwards, and whether all of them wrapped to 0\<close>
  "inc_loop [] = ([], True)"
| "inc_loop (x # xs) =
     (if x < 0xffffffff then ((x + 1) # xs, False)
      else let (ys, c) = inc_loop xs in (0 # ys, c))"

definition increment :: "alloc \<Rightarrow> dtoa_state \<Rightarrow> nat \<Rightarrow> (dtoa_state \<times> nat) res" where
  "increment A s b =
     andthen (deref s b) (\<lambda>B.
     andthen (peek_words B (max 1 (bg_wds B))) (\<lambda>xs.
     let (ys, carry) = inc_loop xs in
     andthen (poke_words B 0 ys) (\<lambda>B.
     let s = update s b B in
     if carry then push_word A s b (bg_wds B) 1 else Inr (s, b))))"

lemma inc_loop_multadd:
  "inc_loop xs = (case multadd_loop 1 xs 1 of (ys, carry) \<Rightarrow> (ys, carry \<noteq> 0))"
  "snd (multadd_loop 1 xs 1) \<noteq> 0 \<Longrightarrow> snd (multadd_loop 1 xs 1) = 1"
proof -
  have id: "multadd_loop 1 xs 0 = (xs, 0)" for xs
  proof (induction xs)
    case (Cons x xs)
    have "unat (ucast x :: 64 word) = unat x" by simp
    then have "lo (ucast x) = x" "hi (ucast x) = 0"
      using unat_lo[of "ucast x"] unat_hi[of "ucast x"] unat_limb[of x]
      by (simp_all add: word_unat_eq_iff)
    then show ?case using Cons by (simp add: Let_def)
  qed simp
  have "inc_loop xs = (case multadd_loop 1 xs 1 of (ys, carry) \<Rightarrow> (ys, carry \<noteq> 0))
      \<and> (snd (multadd_loop 1 xs 1) \<noteq> 0 \<longrightarrow> snd (multadd_loop 1 xs 1) = 1)"
  proof (induction xs)
    case (Cons x xs)
    let ?y = "ucast x * 1 + 1 :: 64 word"
    have y: "unat ?y = unat x + 1" using multadd_word[of 1 1 x] by simp
    show ?case
    proof (cases "x < 0xffffffff")
      case True
      then have "unat x + 1 < 4294967296" by (simp add: word_less_nat_alt)
      then have "unat (lo ?y) = unat (x + 1)" "unat (hi ?y) = 0"
        using y unat_lo[of ?y] unat_hi[of ?y] by (simp_all add: unat_add_lem[THEN iffD1])
      then have "lo ?y = x + 1" "hi ?y = 0" by (simp_all add: word_unat_eq_iff)
      then show ?thesis using True id[of xs] by (simp add: Let_def)
    next
      case False
      then have "unat x = 4294967295" using unat_limb[of x] by (simp add: word_less_nat_alt)
      then have "unat (lo ?y) = 0" "unat (hi ?y) = 1"
        using y unat_lo[of ?y] unat_hi[of ?y] by simp_all
      then have "lo ?y = 0" "hi ?y = 1" by (simp_all add: word_unat_eq_iff)
      then show ?thesis using False Cons by (auto simp: Let_def split: prod.splits)
    qed
  qed simp
  then show "inc_loop xs = (case multadd_loop 1 xs 1 of (ys, carry) \<Rightarrow> (ys, carry \<noteq> 0))"
    "snd (multadd_loop 1 xs 1) \<noteq> 0 \<Longrightarrow> snd (multadd_loop 1 xs 1) = 1" by simp_all
qed

lemma increment_multadd: "increment A s b = multadd A s b 1 1"
proof -
  have e: "(case inc_loop xs of (ys, carry) \<Rightarrow> andthen (poke_words B 0 ys) (\<lambda>B.
        let s = update s b B in if carry then push_word A s b (bg_wds B) 1 else Inr (s, b)))
    = (case multadd_loop 1 xs 1 of (ys, carry) \<Rightarrow> andthen (poke_words B 0 ys) (\<lambda>B.
        let s = update s b B in if carry \<noteq> 0 then push_word A s b (bg_wds B) (ucast carry) else Inr (s, b)))" for xs B
    using inc_loop_multadd[of xs] by (cases "multadd_loop 1 xs 1"; cases "snd (multadd_loop 1 xs 1) = 0") auto
  show ?thesis unfolding increment_def multadd_def by (simp only: Let_def e[unfolded Let_def] of_int_1)
qed

lemma increment_spec:
  assumes "dt_ok s L" "b \<in> L" "big_at s b k n" "0 < n" "k \<le> K" "K \<le> 30" "k + 1 \<le> K \<or> n + 1 < 4294967296 ^ (2 ^ nat K)"
  shows "wpr (alloc_err A) (becomes s L b K (n + 1)) (increment A s b)"
  using multadd_spec[OF assms(1-3), of K 1 1 A] assms(4-7) unfolding increment_multadd by (simp add: INT_MAX_def)

section \<open>Shifting right in place\<close>

definition rshift :: "dtoa_state \<Rightarrow> nat \<Rightarrow> int \<Rightarrow> dtoa_state res" where
  "rshift s b k =
     andthen (deref s b) (\<lambda>B.
     let n = drop_bit 5 k; wds = bg_wds B in
     andthen (if n < wds then
         if n < 0 then Inl (UB Oob_read)
         else andthen (peek_words B wds) (\<lambda>xs.
              let xs = drop (nat n) xs; k = nat (k AND 31) in
              if k \<noteq> 0 then
                let zs = rshift_loop k (tl xs) (drop_bit k (hd xs))
                in andthen (poke_words B 0 (zs @ replicate (length xs - length zs) 0)) (\<lambda>B. Inr (B, length zs))
              else andthen (poke_words B 0 xs) (\<lambda>B. Inr (B, length xs)))
       else Inr (B, 0)) (\<lambda>(B, x1).
     let B = B\<lparr>bg_wds := int x1\<rparr> in
     andthen (if x1 = 0 then poke_words B 0 [0] else Inr B) (\<lambda>B.
     Inr (update s b B))))"

definition any_on :: "dtoa_state \<Rightarrow> nat \<Rightarrow> int \<Rightarrow> limb res" where
  "any_on s b k =
     andthen (deref s b) (\<lambda>B.
     let nwds = bg_wds B; n = drop_bit 5 k in
     andthen (if nwds < n then Inr (nwds, False)
              else if n < nwds \<and> k AND 31 \<noteq> 0 then
                andthen (peek_word B n) (\<lambda>x2.
                let k = nat (k AND 31); x1 = push_bit k (drop_bit k x2) in Inr (n, x1 \<noteq> x2))
              else Inr (n, False)) (\<lambda>(n, on).
     if on then Inr 1
     else andthen (peek_words B n) (\<lambda>xs. Inr (if \<exists>x \<in> set xs. x \<noteq> 0 then 1 else 0))))"

lemma bval_drop: "bval (drop n xs) = bval xs div 4294967296 ^ n"
proof (cases "n \<le> length xs")
  case True
  have "bval xs = bval (take n xs) + 4294967296 ^ n * bval (drop n xs)"
    using bval_append[of "take n xs" "drop n xs"] True by simp
  moreover have "bval (take n xs) < 4294967296 ^ n" using bval_less[of "take n xs"] True by simp
  ultimately show ?thesis by simp
next
  case False
  have "bval xs < 4294967296 ^ length xs" by (rule bval_less)
  also have "\<dots> \<le> 4294967296 ^ n" using False by (intro power_increasing) simp_all
  finally show ?thesis using False by simp
qed

lemma bval_take: "bval (take n xs) = bval xs mod 4294967296 ^ n"
proof (cases "n \<le> length xs")
  case True
  have "bval xs = bval (take n xs) + 4294967296 ^ n * bval (drop n xs)"
    using bval_append[of "take n xs" "drop n xs"] True by simp
  moreover have "bval (take n xs) < 4294967296 ^ n" using bval_less[of "take n xs"] True by simp
  ultimately show ?thesis by simp
next
  case False
  have "bval xs < 4294967296 ^ length xs" by (rule bval_less)
  also have "\<dots> \<le> 4294967296 ^ n" using False by (intro power_increasing) simp_all
  finally show ?thesis using False by simp
qed

lemma rshift_words:
  assumes "xs \<noteq> []" "0 < k" "k < 32"
  shows "bval (rshift_loop k (tl xs) (drop_bit k (hd xs))) = bval xs div 2 ^ k"
proof -
  obtain y ys where xs: "xs = y # ys" using assms(1) by (cases xs) auto
  have u: "unat (drop_bit k y) = unat y div 2 ^ k" unfolding unat_drop_bit_eq by (simp add: drop_bit_eq_div)
  have "unat y div 2 ^ k < 2 ^ (32 - k)" using shr_less[of "32 - k" y] assms(2,3) by simp
  then have "bval (rshift_loop k ys (drop_bit k y)) = unat y div 2 ^ k + 2 ^ (32 - k) * bval ys"
    using rshift_loop_spec[of "drop_bit k y" k ys] assms u by simp
  also have "\<dots> = (unat y + 2 ^ k * (2 ^ (32 - k) * bval ys)) div 2 ^ k" by simp
  also have "2 ^ k * (2 ^ (32 - k) * bval ys) = 4294967296 * bval ys" using pow32[of k] assms(3) by simp
  finally show ?thesis by (simp add: xs)
qed

lemma rshift_loop_length:
  "length (rshift_loop k xs y) = length xs \<or>
   length (rshift_loop k xs y) = Suc (length xs) \<and> last (rshift_loop k xs y) \<noteq> 0"
  by (induction k xs y rule: rshift_loop.induct) auto


lemma drop5: "drop_bit 5 k = (k :: int) div 32"
  by (simp add: drop_bit_eq_div)

lemma pow32_mult: "(4294967296 :: nat) ^ a = 2 ^ (32 * a)"
  by (simp add: power_mult)

lemma shift_top:
  fixes w q r z :: nat
  shows "q < w \<Longrightarrow> r < 32 \<Longrightarrow> z = w - q - 1 \<and> r \<noteq> 0 \<or> z = w - q \<and> r = 0 \<Longrightarrow> 1 < z \<Longrightarrow>
    32 * (z - 1) + (32 * q + r) \<le> 32 * (w - 1)"
  by linarith

lemma rshift_spec:
  assumes ok: "dt_ok s L" and b: "b \<in> L" "big_at s b k n" and j: "0 \<le> j"
  shows "\<exists>s'. rshift s b j = Inr s' \<and> dt_ok s' L \<and> same (L - {b}) s s' \<and> big_at s' b k (n div 2 ^ nat j)"
proof -
  obtain B where B: "dt_heap s b = Some B" "big k B n" using b(2) by (auto simp: big_at_def)
  then have d: "deref s b = Inr B" and bB: "blk_ok B" "bg_k B \<le> k" "0 \<le> bg_wds B" "bg_wds B \<le> bg_maxwds B"
    by (simp_all add: deref_def big_def)
  let ?w = "bg_wds B" let ?q = "nat (j div 32)" let ?r = "nat (j mod 32)"
  have j32: "nat j = 32 * ?q + ?r" using j by (simp add: nat_mod_distrib nat_div_distrib)
  have v: "n div 2 ^ nat j = n div 4294967296 ^ ?q div 2 ^ ?r" unfolding j32
    by (simp add: power_add power_mult div_mult2_eq)
  have fin: "\<exists>s'. andthen (if int c = 0 then poke_words (C\<lparr>bg_wds := int c\<rparr>) 0 [0] else Inr (C\<lparr>bg_wds := int c\<rparr>)) (\<lambda>B. Inr (update s b B)) = Inr s'
      \<and> dt_ok s' L \<and> same (L - {b}) s s' \<and> big_at s' b k (n div 2 ^ nat j)"
    if C: "blk_ok C" "bg_k C = bg_k B" "int c \<le> ?w" "c = 0 \<or> (\<exists>zs. peek_words C (int c) = Inr zs \<and> bval zs = n div 2 ^ nat j)"
      "1 < c \<longrightarrow> 4294967296 ^ (c - 1) \<le> n div 2 ^ nat j" "c = 0 \<longrightarrow> n div 2 ^ nat j = 0" for C c
  proof (cases "c = 0")
    case False
    let ?C = "C\<lparr>bg_wds := int c\<rparr>"
    have ok': "blk_ok ?C" using C(1) by (simp add: blk_ok_def)
    obtain zs where zs: "peek_words C (int c) = Inr zs" "bval zs = n div 2 ^ nat j" using C(4) False by blast
    have "peek_words ?C (max 1 (int c)) = Inr zs" using zs(1) False by (simp add: peek_iff max_def)
    moreover have "bg_maxwds C = bg_maxwds B" using C(1,2) bB(1) by (simp add: blk_ok_def)
    then have "int c \<le> bg_maxwds ?C" using C(3) bB(4) by simp
    moreover have "1 < int c \<longrightarrow> 4294967296 ^ nat (int c - 1) \<le> n div 2 ^ nat j" using C(5) by (simp add: nat_diff_distrib')
    ultimately have "big k ?C (n div 2 ^ nat j)" using ok' C(2) zs(2) False bB(2) by (auto simp: big_def)
    then show ?thesis using update_spec[OF ok b(1) ok'] False by (auto simp: big_at_def)
  next
    case True
    let ?C = "C\<lparr>bg_wds := 0, bg_x := Some 0 # drop 1 (bg_x C)\<rparr>"
    have len: "1 \<le> length (bg_x C)" using C(1) blk_pos[OF C(1)] unfolding blk_ok_def by linarith
    then have ok': "blk_ok ?C" using C(1) by (simp add: blk_ok_def)
    have "peek_words ?C 1 = Inr [0]" using len by (cases "bg_x C") (simp_all add: peek_iff)
    then have "big k ?C (n div 2 ^ nat j)" using ok' C(2,6) True bB(2) blk_pos[OF C(1)] by (auto simp: big_def)
    moreover have "poke_words (C\<lparr>bg_wds := 0\<rparr>) 0 [0] = Inr ?C" using len by (cases "bg_x C") (simp_all add: poke_words_def)
    ultimately show ?thesis using update_spec[OF ok b(1) ok'] True by (auto simp: big_at_def)
  qed
  show ?thesis
  proof (cases "j div 32 < ?w")
    case False
    have "n < 4294967296 ^ nat (max 1 ?w)" by (rule big_bounds(1)[OF B(2)])
    moreover have "n div 4294967296 ^ ?q = 0"
    proof (cases "?w = 0")
      case True
      then show ?thesis using B(2) by (simp add: big_def)
    next
      case w: False
      have "n < 4294967296 ^ nat ?w" using big_bounds(1)[OF B(2)] w bB(3) by (simp add: max_def split: if_splits)
      also have "\<dots> \<le> 4294967296 ^ ?q" by (rule power_increasing) (use False in auto)
      finally show ?thesis by simp
    qed
    then have z: "n div 2 ^ nat j = 0" unfolding v by simp
    have "rshift s b j = andthen (if int 0 = 0 then poke_words (B\<lparr>bg_wds := int 0\<rparr>) 0 [0] else Inr (B\<lparr>bg_wds := int 0\<rparr>)) (\<lambda>B. Inr (update s b B))"
      using False by (simp add: rshift_def d drop5 Let_def)
    then show ?thesis using fin[of B 0] bB z by simp
  next
    case True
    have q: "0 \<le> j div 32" "?q < nat ?w" using j True bB(3) by (simp_all add: pos_imp_zdiv_nonneg_iff nat_less_iff)
    then have w1: "1 \<le> ?w" by linarith
    obtain xs where xs: "peek_words B ?w = Inr xs" "bval xs = n"
      using B(2) w1 unfolding big_def by (auto simp: max_def split: if_splits)
    have lx: "length xs = nat ?w" by (rule peek_length[OF xs(1)])
    let ?ys = "drop ?q xs"
    have ys: "?ys \<noteq> []" "length ?ys = nat ?w - ?q" "bval ?ys = n div 4294967296 ^ ?q"
      using q(2) lx xs(2) by (simp_all del: zless_nat_conj nat_less_iff add: bval_drop not_le)
    define zs where "zs = (if ?r \<noteq> 0 then rshift_loop ?r (tl ?ys) (drop_bit ?r (hd ?ys)) else ?ys)"
    have r: "?r < 32" by (simp add: nat_less_iff)
    have bz: "bval zs = n div 2 ^ nat j"
      unfolding v zs_def using rshift_words[OF ys(1) _ r] ys(3) by simp
    have lz: "length zs = length ?ys - 1 \<and> ?r \<noteq> 0 \<or> length zs = length ?ys \<and> (?r = 0 \<or> last zs \<noteq> 0)"
      using rshift_loop_length[of ?r "tl ?ys" "drop_bit ?r (hd ?ys)"] ys(1) unfolding zs_def
      by (cases ?ys) auto
    have le: "length zs \<le> length ?ys" using lz by (metis diff_le_self order_refl)
    let ?pad = "zs @ replicate (length ?ys - length zs) 0"
    have lp: "length ?pad = length ?ys" using le by simp
    have "length ?pad \<le> nat ?w" using lp ys(2) by linarith
    then have fits: "int (length ?pad) \<le> int (length (bg_x B))" using bB(1,3,4) unfolding blk_ok_def by linarith
    let ?C = "B\<lparr>bg_x := map Some ?pad @ drop (length ?pad) (bg_x B)\<rparr>"
    have okC: "blk_ok ?C" using bB(1) fits by (auto simp: blk_ok_def)
    have inner: "(if ?r \<noteq> 0 then andthen (poke_words B 0 (rshift_loop ?r (tl ?ys) (drop_bit ?r (hd ?ys))
          @ replicate (length ?ys - length (rshift_loop ?r (tl ?ys) (drop_bit ?r (hd ?ys)))) 0))
          (\<lambda>B. Inr (B, length (rshift_loop ?r (tl ?ys) (drop_bit ?r (hd ?ys)))))
        else andthen (poke_words B 0 ?ys) (\<lambda>B. Inr (B, length ?ys))) = (Inr (?C, length zs) :: (bigint \<times> nat) res)"
    proof (cases "?r = 0")
      case True
      then have z: "zs = ?ys" unfolding zs_def by argo
      then have "poke_words B 0 ?ys = Inr ?C" using poke_at_0[OF fits] by simp
      moreover have n: "\<not> ?r \<noteq> 0" using True by blast
      ultimately show ?thesis unfolding if_not_P[OF n] z andthen_simps by (simp only: andthen_simps)
    next
      case False
      then have z: "rshift_loop ?r (tl ?ys) (drop_bit ?r (hd ?ys)) = zs" unfolding zs_def by argo
      show ?thesis unfolding if_P[OF False] z poke_at_0[OF fits] andthen_simps ..
    qed
    have n0: "\<not> j div 32 < 0" using q(1) by simp
    have run: "rshift s b j = andthen (if int (length zs) = 0 then poke_words (?C\<lparr>bg_wds := int (length zs)\<rparr>) 0 [0]
        else Inr (?C\<lparr>bg_wds := int (length zs)\<rparr>)) (\<lambda>B. Inr (update s b B))"
      unfolding rshift_def d drop5 and_mask_31 Let_def andthen_simps if_P[OF True] if_not_P[OF n0] xs(1) inner prod.case
      by simp
    have pk: "peek_words ?C (int (length zs)) = Inr zs"
      using fits lp le by (simp add: peek_iff)
    have top: "1 < length zs \<longrightarrow> 4294967296 ^ (length zs - 1) \<le> n div 2 ^ nat j"
    proof
      assume l1: "1 < length zs"
      show "4294967296 ^ (length zs - 1) \<le> n div 2 ^ nat j"
      proof (cases "length zs = length ?ys \<and> ?r \<noteq> 0")
        case True
        then have "length zs \<noteq> length ?ys - 1" using l1 by linarith
        then have "last zs \<noteq> 0" using lz True by blast
        moreover have "zs \<noteq> []" using l1 by auto
        ultimately show ?thesis using bval_top[of zs] bz by simp
      next
        case False
        have z: "length zs = nat ?w - ?q - 1 \<and> ?r \<noteq> 0 \<or> length zs = nat ?w - ?q \<and> ?r = 0"
          using lz False unfolding ys(2) by blast
        then have w2: "1 < ?w" using l1 by linarith
        have "32 * (length zs - 1) + nat j \<le> 32 * nat (?w - 1)"
          using shift_top[OF q(2) r z l1] w2 unfolding j32 by linarith
        then have "4294967296 ^ (length zs - 1) * 2 ^ nat j \<le> (4294967296 :: nat) ^ nat (?w - 1)"
          unfolding pow32_mult power_add[symmetric] by (rule power_increasing) simp
        also have "\<dots> \<le> n" using big_bounds(2)[OF B(2) w2] .
        finally show ?thesis using less_eq_div_iff_mult_less_eq[of "2 ^ nat j"] by simp
      qed
    qed
    have "length zs = 0 \<longrightarrow> n div 2 ^ nat j = 0" using bz by auto
    moreover have "int (length zs) \<le> ?w" using le ys(2) w1 by linarith
    moreover have "length zs = 0 \<or> (\<exists>vs. peek_words ?C (int (length zs)) = Inr vs \<and> bval vs = n div 2 ^ nat j)"
      using pk bz by blast
    ultimately show ?thesis unfolding run by (intro fin[OF okC _ _ _ top]) (rule bigint.select_convs refl | assumption | simp)+
  qed
qed


lemma any_on_spec:
  assumes b: "big_at s b k n" and j: "0 \<le> j"
  shows "any_on s b j = Inr (if n mod 2 ^ nat j \<noteq> 0 then 1 else 0)"
proof -
  obtain B where B: "dt_heap s b = Some B" "big k B n" using b by (auto simp: big_at_def)
  then have d: "deref s b = Inr B" by (simp add: deref_def)
  let ?w = "bg_wds B" let ?q = "nat (j div 32)" let ?r = "nat (j mod 32)"
  have w0: "0 \<le> ?w" using B(2) by (simp add: big_def)
  have j32: "nat j = 32 * ?q + ?r" using j by (simp add: nat_mod_distrib nat_div_distrib)
  have q0: "0 \<le> j div 32" using j by (simp add: pos_imp_zdiv_nonneg_iff)
  have r32: "?r < 32" by (simp add: nat_less_iff)
  obtain ws where ws: "peek_words B (max 1 ?w) = Inr ws" "bval ws = n" using B(2) by (auto simp: big_def)
  have lw: "length ws = nat (max 1 ?w)" by (rule peek_length[OF ws(1)])
  have pre: "peek_words B i = Inr (take (nat i) ws)" if "0 \<le> i" "i \<le> ?w" for i
  proof -
    have a: "take (nat (max 1 ?w)) (bg_x B) = map Some ws" "max 1 ?w \<le> int (length (bg_x B))" using ws(1) by (auto simp: peek_iff)
    have "take (nat i) (bg_x B) = take (nat i) (take (nat (max 1 ?w)) (bg_x B))" using that by (simp add: min_absorb1 nat_mono)
    then show ?thesis using a that by (simp add: peek_iff take_map)
  qed
  have ex: "(\<exists>x \<in> set (take c ws). x \<noteq> 0) \<longleftrightarrow> n mod 4294967296 ^ c \<noteq> 0" for c
    using bval_0[of "take c ws"] by (auto simp: bval_take ws(2))
  have bits: "n mod 2 ^ nat j = (n div 4294967296 ^ ?q mod 2 ^ ?r) * 4294967296 ^ ?q + n mod 4294967296 ^ ?q"
    unfolding j32 using mod_mult2_eq[of n "4294967296 ^ ?q" "2 ^ ?r"] by (simp add: power_add power_mult)
  show ?thesis
  proof (cases "j div 32 < ?w")
    case False
    have "n mod 4294967296 ^ nat ?w = n mod 2 ^ nat j"
    proof (cases "?w = 0")
      case True
      then show ?thesis using B(2) by (simp add: big_def)
    next
      case w: False
      have s: "n < 4294967296 ^ nat ?w" using big_bounds(1)[OF B(2)] w w0 by (simp add: max_def split: if_splits)
      have "(4294967296::nat) ^ nat ?w \<le> 4294967296 ^ ?q" by (rule power_increasing) (use False in auto)
      also have "\<dots> \<le> 2 ^ nat j" unfolding pow32_mult j32 by (rule power_increasing) simp_all
      finally show ?thesis using s by simp
    qed
    moreover have "any_on s b j = andthen (peek_words B ?w) (\<lambda>xs. Inr (if \<exists>x \<in> set xs. x \<noteq> 0 then 1 else 0))"
      using False by (cases "?w = j div 32") (simp_all add: any_on_def d drop5 Let_def)
    ultimately show ?thesis using pre[of ?w] ex[of "nat ?w"] w0 by simp
  next
    case True
    have rest: "andthen (peek_words B (j div 32)) (\<lambda>xs. Inr (if \<exists>x \<in> set xs. x \<noteq> 0 then 1 else 0))
        = Inr (if n mod 4294967296 ^ ?q \<noteq> 0 then 1 else 0 :: limb)"
      using pre[of "j div 32"] ex[of ?q] q0 True by simp
    show ?thesis
    proof (cases "?r = 0")
      case r: True
      then have "j mod 32 = 0" by (metis nat_0_iff pos_mod_sign zero_less_numeral order_antisym)
      then have "any_on s b j = Inr (if n mod 4294967296 ^ ?q \<noteq> 0 then 1 else 0)"
        using True rest by (simp add: any_on_def d drop5 and_mask_31 Let_def)
      then show ?thesis using bits r by simp
    next
      case r: False
      then have r': "j mod 32 \<noteq> 0" by auto
      have qw: "?q < length ws" using True q0 lw by linarith
      let ?x = "ws ! ?q"
      have "take (nat (max 1 ?w)) (bg_x B) ! ?q = Some ?x" using ws(1) qw by (auto simp: peek_iff)
      moreover have "?q < nat (max 1 ?w)" "nat (max 1 ?w) \<le> length (bg_x B)" using ws(1) qw lw by (auto simp: peek_iff)
      ultimately have px: "peek_word B (j div 32) = Inr ?x" using q0 by (auto simp: peek_word_def nat_less_iff)
      have "n div 4294967296 ^ ?q = unat ?x + 4294967296 * bval (drop (Suc ?q) ws)"
        using qw by (simp flip: ws(2) bval_drop add: Cons_nth_drop_Suc[symmetric])
      also have "4294967296 * bval (drop (Suc ?q) ws) = 2 ^ ?r * (2 ^ (32 - ?r) * bval (drop (Suc ?q) ws))"
        using pow32[of ?r] r32 by simp
      finally have low: "n div 4294967296 ^ ?q mod 2 ^ ?r = unat ?x mod 2 ^ ?r" by simp
      have "push_bit ?r (drop_bit ?r ?x) = ?x \<longleftrightarrow> unat ?x mod 2 ^ ?r = 0"
      proof -
        have "unat (push_bit ?r (drop_bit ?r ?x)) = (unat ?x div 2 ^ ?r * 2 ^ ?r) mod 4294967296"
          unfolding unsigned_push_bit_eq unsigned_drop_bit_eq using unat_limb[of ?x] by (simp add: push_bit_eq_mult drop_bit_eq_div take_bit_eq_mod)
        also have "unat ?x div 2 ^ ?r * 2 ^ ?r < 4294967296"
          using div_times_less_eq_dividend[of "unat ?x" "2 ^ ?r"] unat_limb[of ?x] by linarith
        then have "(unat ?x div 2 ^ ?r * 2 ^ ?r) mod 4294967296 = unat ?x div 2 ^ ?r * 2 ^ ?r"
          by (rule mod_less)
        also have "\<dots> = unat ?x - unat ?x mod 2 ^ ?r" by (simp add: minus_mod_eq_div_mult)
        finally have "unat (push_bit ?r (drop_bit ?r ?x)) = unat ?x - unat ?x mod 2 ^ ?r" .
        moreover have "unat ?x mod 2 ^ ?r \<le> unat ?x" by simp
        ultimately show ?thesis unfolding word_unat_eq_iff by linarith
      qed
      then have "any_on s b j = Inr (if unat ?x mod 2 ^ ?r \<noteq> 0 then 1 else if n mod 4294967296 ^ ?q \<noteq> 0 then 1 else 0)"
        using True rest px r' by (simp add: any_on_def d drop5 and_mask_31 Let_def)
      then show ?thesis unfolding bits low by simp
    qed
  qed
qed

end
