(* ===== verification/Bigint_Double.thy ===== *)
theory Bigint_Double
  imports Bigint_Div
begin

text \<open>
Doubles as \<open>3rd/lua-cjson/dtoa.c\<close> takes them apart (\<open>word0\<close>, \<open>word1\<close>, the layout of a
  machine with IEEE arithmetic and the lower word first): counting zero bits (\<open>hi0bits\<close>,
  \<open>lo0bits\<close>), conversion between bignums and doubles (\<open>b2d\<close>, \<open>d2b\<close>, \<open>ratio\<close>), the unit in the
  last place (\<open>ulp\<close>, \<open>sulp\<close>) and \<open>dshift\<close>. Products and quotients of doubles are parameters.
\<close>

section \<open>Leading and trailing zero bits\<close>

definition hi_step :: "limb \<Rightarrow> nat \<Rightarrow> nat \<times> limb \<Rightarrow> nat \<times> limb" where
  "hi_step m j r = (case r of (k, x) \<Rightarrow> if x AND m = 0 then (k + j, push_bit j x) else (k, x))"

definition hi0bits :: "limb \<Rightarrow> nat" where
  "hi0bits x =
     (let (k, x) = hi_step 0xc0000000 2 (hi_step 0xf0000000 4 (hi_step 0xff000000 8 (hi_step 0xffff0000 16 (0, x))))
      in if x AND 0x80000000 = 0 then (if x AND 0x40000000 = 0 then 32 else k + 1) else k)"

definition lo_step :: "limb \<Rightarrow> nat \<Rightarrow> nat \<times> limb \<Rightarrow> nat \<times> limb" where
  "lo_step m j r = (case r of (k, x) \<Rightarrow> if x AND m = 0 then (k + j, drop_bit j x) else (k, x))"

definition lo0bits :: "limb \<Rightarrow> nat \<times> limb" where
  \<comment> \<open>the count, and what is left in \<open>*y\<close>\<close>
  "lo0bits y =
     (if y AND 7 \<noteq> 0 then
        if y AND 1 \<noteq> 0 then (0, y)
        else if y AND 2 \<noteq> 0 then (1, drop_bit 1 y)
        else (2, drop_bit 2 y)
      else
        let (k, x) = lo_step 3 2 (lo_step 0xf 4 (lo_step 0xff 8 (lo_step 0xffff 16 (0, y))))
        in if x AND 1 = 0 then (if drop_bit 1 x = 0 then (32, y) else (k + 1, drop_bit 1 x))
           else (k, x))"

lemma unat_take: "unat (take_bit j (x :: limb)) = unat x mod 2 ^ j"
  unfolding unsigned_take_bit_eq by (rule take_bit_eq_mod)

lemma low_mask_zero: "x AND mask j = 0 \<longleftrightarrow> unat (x :: limb) mod 2 ^ j = 0"
  unfolding take_bit_eq_mask[symmetric] word_unat_eq_iff unat_take by simp

lemma high_mask_zero: "x AND NOT (mask j) = 0 \<longleftrightarrow> unat (x :: limb) < 2 ^ j"
proof -
  have "x AND NOT (mask j) = 0 \<longleftrightarrow> take_bit j x = x"
    by (auto simp: bit_eq_iff bit_simps)
  also have "\<dots> \<longleftrightarrow> unat x mod 2 ^ j = unat x"
    unfolding word_unat_eq_iff unat_take ..
  also have "\<dots> \<longleftrightarrow> unat x < 2 ^ j" by (metis mod_less mod_less_divisor zero_less_numeral zero_less_power)
  finally show ?thesis .
qed

lemma unat_push: "unat (push_bit j (x :: limb)) = unat x * 2 ^ j mod 4294967296"
  unfolding unsigned_push_bit_eq by (simp add: push_bit_eq_mult take_bit_eq_mod)

lemma unat_drop: "unat (drop_bit j (x :: limb)) = unat x div 2 ^ j"
  unfolding unat_drop_bit_eq by (simp add: drop_bit_eq_div)

lemma hi_step_spec:
  assumes "m = NOT (mask (32 - j))" "j \<le> 16" "unat x = v * 2 ^ k" "4294967296 \<le> unat x * 2 ^ (2 * j)"
  shows "\<exists>k' x'. hi_step m j (k, x) = (k', x') \<and> unat x' = v * 2 ^ k' \<and> 4294967296 \<le> unat x' * 2 ^ j"
proof -
  have e: "(2 :: nat) ^ (32 - j) * 2 ^ j = 4294967296" using pow32[of j] assms(2) by (simp add: mult.commute)
  show ?thesis
proof (cases "unat x < 2 ^ (32 - j)")
  case True
  have "unat x * 2 ^ j < 2 ^ (32 - j) * 2 ^ j" using True by simp
  then have "unat x * 2 ^ j < 4294967296" unfolding e .
  then have u: "unat (push_bit j x) = unat x * 2 ^ j" unfolding unat_push by simp
  have "hi_step m j (k, x) = (k + j, push_bit j x)" using True by (simp add: hi_step_def assms(1) high_mask_zero)
  moreover have "4294967296 \<le> unat (push_bit j x) * 2 ^ j" using assms(4) u by (simp add: mult_2 power_add)
  ultimately show ?thesis using u assms(3) by (simp add: power_add)
next
  case False
  then have "2 ^ (32 - j) * 2 ^ j \<le> unat x * 2 ^ j" by simp
  then have "4294967296 \<le> unat x * 2 ^ j" unfolding e .
  moreover have "hi_step m j (k, x) = (k, x)" using False by (simp add: hi_step_def assms(1) high_mask_zero)
  ultimately show ?thesis using assms(3) by blast
qed
qed

lemma hi_masks:
  "0xffff0000 = NOT (mask (32 - 16) :: limb)" "0xff000000 = NOT (mask (32 - 8) :: limb)"
  "0xf0000000 = NOT (mask (32 - 4) :: limb)" "0xc0000000 = NOT (mask (32 - 2) :: limb)"
  "0x80000000 = NOT (mask (32 - 1) :: limb)"
  by (simp_all add: mask_eq_exp_minus_1)

lemma hi0bits_spec:
  assumes "x \<noteq> 0"
  shows "hi0bits x \<le> 31" "2147483648 \<le> unat x * 2 ^ hi0bits x" "unat x * 2 ^ hi0bits x < 4294967296"
proof -
  have x: "1 \<le> unat x" using assms by (simp add: Suc_le_eq unat_gt_0)
  let ?v = "unat x"
  have "4294967296 \<le> unat x * 2 ^ (2 * 16)" using x by simp
  from hi_step_spec[OF hi_masks(1) _ _ this, of ?v 0] obtain k1 x1 where s1:
    "hi_step 0xffff0000 16 (0, x) = (k1, x1)" "unat x1 = ?v * 2 ^ k1" "4294967296 \<le> unat x1 * 2 ^ (2 * 8)" by auto
  from hi_step_spec[OF hi_masks(2) _ s1(2,3)] obtain k2 x2 where s2:
    "hi_step 0xff000000 8 (k1, x1) = (k2, x2)" "unat x2 = ?v * 2 ^ k2" "4294967296 \<le> unat x2 * 2 ^ (2 * 4)" by auto
  from hi_step_spec[OF hi_masks(3) _ s2(2,3)] obtain k3 x3 where s3:
    "hi_step 0xf0000000 4 (k2, x2) = (k3, x3)" "unat x3 = ?v * 2 ^ k3" "4294967296 \<le> unat x3 * 2 ^ (2 * 2)" by auto
  from hi_step_spec[OF hi_masks(4) _ s3(2,3)] obtain k4 x4 where s4:
    "hi_step 0xc0000000 2 (k3, x3) = (k4, x4)" "unat x4 = ?v * 2 ^ k4" "4294967296 \<le> unat x4 * 2 ^ 2" by auto
  have c: "x4 AND 0x80000000 = 0 \<longleftrightarrow> unat x4 < 2147483648" unfolding hi_masks(5) high_mask_zero by simp
  have d: "\<not> x4 AND 0x40000000 = 0" if "unat x4 < 2147483648"
  proof
    assume z: "x4 AND 0x40000000 = 0"
    have "x4 AND 0xc0000000 = (x4 AND 0x80000000) OR (x4 AND 0x40000000)"
      by (simp flip: bit.conj_disj_distrib)
    then have "x4 AND 0xc0000000 = 0" using z c that by simp
    then show False using s4(3) unfolding hi_masks(4) high_mask_zero by simp
  qed
  have r: "hi0bits x = (if unat x4 < 2147483648 then k4 + 1 else k4)"
    using d by (simp add: hi0bits_def s1(1) s2(1) s3(1) s4(1) c)
  have u: "unat x * 2 ^ hi0bits x = (if unat x4 < 2147483648 then 2 * unat x4 else unat x4)"
    unfolding r using s4(2) by simp
  show b: "2147483648 \<le> unat x * 2 ^ hi0bits x" "unat x * 2 ^ hi0bits x < 4294967296"
    using u s4(3) unat_limb[of x4] by auto
  show "hi0bits x \<le> 31"
  proof (rule ccontr)
    assume "\<not> hi0bits x \<le> 31"
    then have "(2::nat) ^ 32 \<le> 2 ^ hi0bits x" by (intro power_increasing) simp_all
    then have "1 * 2 ^ 32 \<le> unat x * 2 ^ hi0bits x" using x by (intro mult_le_mono) simp_all
    then show False using b(2) by simp
  qed
qed

lemma lo_step_spec:
  assumes "m = mask j" "v = unat x * 2 ^ k" "unat x mod 2 ^ (2 * j) \<noteq> 0"
  shows "\<exists>k' x'. lo_step m j (k, x) = (k', x') \<and> v = unat x' * 2 ^ k' \<and> unat x' mod 2 ^ j \<noteq> 0"
proof (cases "unat x mod 2 ^ j = 0")
  case True
  have "unat x mod 2 ^ (2 * j) = 2 ^ j * (unat x div 2 ^ j mod 2 ^ j) + unat x mod 2 ^ j"
    unfolding mult_2 power_add by (rule mod_mult2_eq)
  then have "unat (drop_bit j x) mod 2 ^ j \<noteq> 0" using assms(3) True by (simp add: unat_drop)
  moreover have "unat x = unat (drop_bit j x) * 2 ^ j" using True unat_drop[of j x] by auto
  moreover have "lo_step m j (k, x) = (k + j, drop_bit j x)"
    using True by (simp add: lo_step_def assms(1) low_mask_zero)
  ultimately show ?thesis using assms(2) by (simp add: power_add)
next
  case False
  then show ?thesis using assms(2) by (simp add: lo_step_def assms(1) low_mask_zero)
qed

lemma lo_masks:
  "0xffff = (mask 16 :: limb)" "0xff = (mask 8 :: limb)" "0xf = (mask 4 :: limb)" "3 = (mask 2 :: limb)" "1 = (mask 1 :: limb)"
  "7 = (mask 3 :: limb)"
  by (simp_all add: mask_eq_exp_minus_1)

lemma lo0bits_spec:
  assumes "y \<noteq> 0"
  shows "\<exists>k x. lo0bits y = (k, x) \<and> k \<le> 31 \<and> unat y = unat x * 2 ^ k \<and> odd (unat x)"
proof -
  have y0: "unat y \<noteq> 0" using assms by (simp add: unat_eq_0)
  have "\<exists>k x. lo0bits y = (k, x) \<and> unat y = unat x * 2 ^ k \<and> odd (unat x)"
  proof (cases "y AND 7 = 0")
    case True
    have "unat y mod 2 ^ (2 * 16) \<noteq> 0" using y0 unat_limb[of y] by simp
    from lo_step_spec[OF lo_masks(1) _ this, of "unat y" 0] obtain k1 x1 where s1:
      "lo_step 0xffff 16 (0, y) = (k1, x1)" "unat y = unat x1 * 2 ^ k1" "unat x1 mod 2 ^ (2 * 8) \<noteq> 0" by auto
    from lo_step_spec[OF lo_masks(2) s1(2,3)] obtain k2 x2 where s2:
      "lo_step 0xff 8 (k1, x1) = (k2, x2)" "unat y = unat x2 * 2 ^ k2" "unat x2 mod 2 ^ (2 * 4) \<noteq> 0" by auto
    from lo_step_spec[OF lo_masks(3) s2(2,3)] obtain k3 x3 where s3:
      "lo_step 0xf 4 (k2, x2) = (k3, x3)" "unat y = unat x3 * 2 ^ k3" "unat x3 mod 2 ^ (2 * 2) \<noteq> 0" by auto
    from lo_step_spec[OF lo_masks(4) s3(2,3)] obtain k4 x4 where s4:
      "lo_step 3 2 (k3, x3) = (k4, x4)" "unat y = unat x4 * 2 ^ k4" "unat x4 mod 2 ^ (2 * 1) \<noteq> 0" by auto
    have c: "x4 AND 1 = 0 \<longleftrightarrow> even (unat x4)" unfolding lo_masks(5) low_mask_zero by (simp add: even_iff_mod_2_eq_zero)
    have ev: "unat (drop_bit 1 x4) * 2 = unat x4 \<and> odd (unat (drop_bit 1 x4))" if "even (unat x4)"
      using that s4(3) unfolding unat_drop by simp presburger
    have run: "lo0bits y = (if even (unat x4) then (if drop_bit 1 x4 = 0 then (32, y) else (k4 + 1, drop_bit 1 x4)) else (k4, x4))"
      using True by (simp add: lo0bits_def s1(1) s2(1) s3(1) s4(1) c)
    show ?thesis
    proof (cases "even (unat x4)")
      case ev4: True
      have "drop_bit 1 x4 \<noteq> 0" using ev[OF ev4] by auto
      then show ?thesis using run ev4 ev[OF ev4] s4(2) by simp
    next
      case False
      then show ?thesis using run s4(2) by simp
    qed
  next
    case False
    then have n: "unat y mod 8 \<noteq> 0" unfolding lo_masks(6) low_mask_zero by simp
    have c: "y AND 1 = 0 \<longleftrightarrow> even (unat y)" unfolding lo_masks(5) low_mask_zero by (simp add: even_iff_mod_2_eq_zero)
    have e: "y AND 2 = 0 \<longleftrightarrow> unat y mod 4 = 0" if "y AND 1 = 0"
    proof -
      have "y AND 3 = (y AND 1) OR (y AND 2)" by (simp flip: bit.conj_disj_distrib)
      then have "y AND 3 = 0 \<longleftrightarrow> y AND 2 = 0" using that by simp
      then show ?thesis unfolding lo_masks(4) low_mask_zero by simp
    qed
    consider "odd (unat y)" | "even (unat y)" "unat y mod 4 \<noteq> 0" | "unat y mod 4 = 0" by blast
    then show ?thesis
    proof cases
      case 1
      then show ?thesis using False c by (auto simp: lo0bits_def)
    next
      case 2
      then have "unat y = unat y div 2 * 2" "odd (unat y div 2)" by presburger+
      then show ?thesis using False 2 c e by (auto simp: lo0bits_def unat_drop)
    next
      case 3
      then have a: "unat y = unat y div 4 * 4" "odd (unat y div 4)" "even (unat y)" using n by presburger+
      have "lo0bits y = (2, drop_bit 2 y)" using False 3 a(3) c e by (simp add: lo0bits_def)
      moreover have "unat (drop_bit 2 y) = unat y div 4" unfolding unat_drop by simp
      ultimately show ?thesis using a by simp
    qed
  qed
  then obtain k x where r: "lo0bits y = (k, x)" "unat y = unat x * 2 ^ k" "odd (unat x)" by blast
  have "k \<le> 31"
  proof (rule ccontr)
    assume "\<not> k \<le> 31"
    then have "(2::nat) ^ 32 \<le> 2 ^ k" by (intro power_increasing) simp_all
    moreover have "1 \<le> unat x" using r(3) by (cases "unat x") auto
    ultimately have "1 * 2 ^ 32 \<le> unat x * 2 ^ k" by (intro mult_le_mono) simp_all
    then show False using r(2) unat_limb[of y] by simp
  qed
  then show ?thesis using r by blast
qed


section \<open>The words of a double\<close>

definition Exp_shift :: nat where "Exp_shift = 20"
definition Exp_msk1 :: limb where "Exp_msk1 = 0x100000"
definition Exp_mask :: limb where "Exp_mask = 0x7ff00000"
definition P_bits :: nat where "P_bits = 53"
definition Bias :: int where "Bias = 1023"
definition Exp_1 :: limb where "Exp_1 = 0x3ff00000"
definition Ebits :: nat where "Ebits = 11"
definition Frac_mask :: limb where "Frac_mask = 0xfffff"

definition word0 :: "double \<Rightarrow> limb" where "word0 d = ucast (drop_bit 32 d)"
definition word1 :: "double \<Rightarrow> limb" where "word1 d = ucast d"
definition mk_double :: "limb \<Rightarrow> limb \<Rightarrow> double" where "mk_double w0 w1 = push_bit 32 (ucast w0) OR ucast w1"

definition ulp :: "double \<Rightarrow> double" where
  "ulp x = mk_double ((word0 x AND Exp_mask) - of_nat (P_bits - 1) * Exp_msk1) 0"

definition next_word :: "limb list \<Rightarrow> limb \<times> limb list" where
  \<comment> \<open>\<open>xa > xa0 ? *--xa : 0\<close>, on the words still to come\<close>
  "next_word xs = (case xs of [] \<Rightarrow> (0, []) | x # xs \<Rightarrow> (x, xs))"

definition b2d_words :: "limb \<Rightarrow> limb list \<Rightarrow> double" where
  "b2d_words y xs =
     (let k = hi0bits y in
      if k < Ebits then
        let d0 = Exp_1 OR drop_bit (Ebits - k) y; (w, _) = next_word xs
        in mk_double d0 (push_bit ((32 - Ebits) + k) y OR drop_bit (Ebits - k) w)
      else
        let (z, xs) = next_word xs; k = k - Ebits in
        if k \<noteq> 0 then
          let d0 = Exp_1 OR push_bit k y OR drop_bit (32 - k) z; (y, _) = next_word xs
          in mk_double d0 (push_bit k z OR drop_bit (32 - k) y)
        else mk_double (Exp_1 OR y) z)"

definition b2d :: "dtoa_state \<Rightarrow> nat \<Rightarrow> (double \<times> int) res" where
  "b2d s a =
     andthen (deref s a) (\<lambda>B.
     andthen (peek_words B (bg_wds B)) (\<lambda>xs.
     case rev xs of [] \<Rightarrow> Inl (UB Oob_read)
     | y # ws \<Rightarrow> Inr (b2d_words y ws, 32 - int (hi0bits y))))"

lemma unat_mk_double: "unat (mk_double a b) = unat a * 4294967296 + unat b"
proof -
  have "bit (push_bit 32 (ucast a :: double)) n \<Longrightarrow> \<not> bit (ucast b :: double) n" for n
    by (auto simp: bit_simps dest: bit_imp_le_length)
  then have "push_bit 32 (ucast a :: double) AND ucast b = 0"
    by (auto simp: bit_eq_iff bit_and_iff)
  then have "mk_double a b = push_bit 32 (ucast a) + ucast b"
    unfolding mk_double_def by (rule disjunctive_add_eq_or[symmetric])
  moreover have "unat (push_bit 32 (ucast a :: double)) = unat a * 4294967296"
    unfolding unsigned_push_bit_eq using unat_limb[of a] by (simp add: push_bit_eq_mult take_bit_eq_mod)
  moreover have "unat a * 4294967296 + unat b < 18446744073709551616"
    using unat_limb[of a] unat_limb[of b] by linarith
  ultimately show ?thesis by (simp add: unat_word_ariths)
qed

lemma dbl_fields:
  "dbl_sign d \<longleftrightarrow> 9223372036854775808 \<le> unat d"
  "dbl_exp d = unat d div 4503599627370496 mod 2048"
  "dbl_frac d = unat d mod 4503599627370496"
proof -
  show "dbl_exp d = unat d div 4503599627370496 mod 2048"
    unfolding dbl_exp_def unsigned_take_bit_eq unat_drop_bit_eq by (simp add: drop_bit_eq_div take_bit_eq_mod)
  show "dbl_frac d = unat d mod 4503599627370496"
    unfolding dbl_frac_def unsigned_take_bit_eq by (simp add: take_bit_eq_mod)
  have "unat d < 18446744073709551616" using unsigned_less[of d] by simp
  moreover have "bit d 63 \<longleftrightarrow> odd (unat d div 2 ^ 63)"
    unfolding bit_iff_odd[symmetric] by (simp add: bit_unsigned_iff)
  ultimately show "dbl_sign d \<longleftrightarrow> 9223372036854775808 \<le> unat d"
    unfolding dbl_sign_def by (auto simp: odd_iff_mod_2_eq_one)
qed

lemma unat_word0: "unat (word0 d) = unat d div 4294967296"
proof -
  have "unat d < 18446744073709551616" using unsigned_less[of d] by simp
  then have "unat d div 4294967296 < 4294967296" by (simp add: less_mult_imp_div_less)
  then show ?thesis unfolding word0_def unsigned_ucast_eq unat_drop_bit_eq by (simp add: drop_bit_eq_div take_bit_eq_mod)
qed

lemma unat_word1: "unat (word1 d) = unat d mod 4294967296"
  unfolding word1_def unsigned_ucast_eq by (simp add: take_bit_eq_mod)

lemma mk_double_fields:
  "dbl_sign (mk_double a b) \<longleftrightarrow> 2147483648 \<le> unat a"
  "dbl_exp (mk_double a b) = unat a div 1048576 mod 2048"
  "dbl_frac (mk_double a b) = unat a mod 1048576 * 4294967296 + unat b"
proof -
  have b: "unat b < 4294967296" by (rule unat_limb)
  have d: "(unat a * 4294967296 + unat b) div 4294967296 = unat a" using b by simp
  show "dbl_sign (mk_double a b) \<longleftrightarrow> 2147483648 \<le> unat a"
    unfolding dbl_fields unat_mk_double using b by linarith
  have "(unat a * 4294967296 + unat b) div (4294967296 * 1048576) = unat a div 1048576"
    unfolding div_mult2_eq d ..
  then show "dbl_exp (mk_double a b) = unat a div 1048576 mod 2048"
    unfolding dbl_fields unat_mk_double by simp
  have "(unat a * 4294967296 + unat b) mod (4294967296 * 1048576)
      = 4294967296 * (unat a mod 1048576) + unat b"
    unfolding mod_mult2_eq d using b by simp
  then show "dbl_frac (mk_double a b) = unat a mod 1048576 * 4294967296 + unat b"
    unfolding dbl_fields unat_mk_double by (simp add: mult.commute)
qed


lemma implicit_bit:
  fixes v :: limb
  assumes "1048576 \<le> unat v" "unat v < 2097152"
  shows "unat (take_bit 20 v) = unat v - 1048576" "unat (take_bit 20 v) < 2 ^ 20" "v = push_bit 20 1 OR take_bit 20 v"
proof -
  show t: "unat (take_bit 20 v) = unat v - 1048576" unfolding unat_take using assms by (simp add: mod_if)
  then show t20: "unat (take_bit 20 v) < 2 ^ 20" using assms(2) by simp
  have "unat (push_bit 20 1 OR take_bit 20 v) = unat v"
    using unat_push_or[OF t20, of 1] t assms by simp
  then show "v = push_bit 20 1 OR take_bit 20 v" by (simp add: word_unat_eq_iff)
qed

lemma with_Exp_1:
  assumes "1048576 \<le> unat v" "unat v < 2097152"
  shows "unat (Exp_1 OR v) = 1023 * 1048576 + (unat v - 1048576)"
proof -
  let ?t = "take_bit 20 v"
  note t = implicit_bit(1)[OF assms] and t20 = implicit_bit(2)[OF assms] and v = implicit_bit(3)[OF assms]
  have "Exp_1 OR v = (Exp_1 OR push_bit 20 1) OR ?t" using v by (metis or.assoc)
  also have "Exp_1 OR push_bit 20 1 = push_bit 20 0x3ff" by (simp add: Exp_1_def push_bit_eq_mult)
  finally show ?thesis using unat_push_or[OF t20, of "0x3ff"] t by simp
qed

lemma mk_one_to_two:
  \<comment> \<open>a double in \<open>[1, 2)\<close> from its mantissa\<close>
  assumes "1048576 \<le> unat v" "unat v < 2097152"
  shows "\<not> dbl_sign (mk_double (Exp_1 OR v) b)" "dbl_exp (mk_double (Exp_1 OR v) b) = 1023"
    "dbl_mant (mk_double (Exp_1 OR v) b) = unat v * 4294967296 + unat b"
proof -
  note f = mk_double_fields[of "Exp_1 OR v" b, unfolded with_Exp_1[OF assms]]
  show "\<not> dbl_sign (mk_double (Exp_1 OR v) b)" using f(1) assms by simp
  have "r < 1048576 \<Longrightarrow> (1023 * 1048576 + r) div 1048576 = 1023 \<and> (1023 * 1048576 + r) mod 1048576 = r" for r :: nat
    by (rule div_mod_is[OF refl])
  from this[of "unat v - 1048576"] have q: "(1023 * 1048576 + (unat v - 1048576)) div 1048576 = 1023"
    "(1023 * 1048576 + (unat v - 1048576)) mod 1048576 = unat v - 1048576" using assms by simp_all
  then show e: "dbl_exp (mk_double (Exp_1 OR v) b) = 1023" using f(2) by simp
  have "(unat v - 1048576) * 4294967296 + 4503599627370496 = unat v * 4294967296" using assms(1) by simp
  then show "dbl_mant (mk_double (Exp_1 OR v) b) = unat v * 4294967296 + unat b"
    unfolding dbl_mant_def e f(3) q by simp
qed

definition top_words :: "limb \<Rightarrow> limb list \<Rightarrow> nat" where
  "top_words y xs = (case next_word xs of (z, xs) \<Rightarrow> case next_word xs of (w, _) \<Rightarrow>
     (unat y * 4294967296 + unat z) * 4294967296 + unat w)"

lemma shifted_words:
  \<comment> \<open>two words shifted left together\<close>
  assumes "k \<le> 32"
  shows "unat (push_bit k z OR drop_bit (32 - k) w :: limb) = 2 ^ k * (unat z mod 2 ^ (32 - k)) + unat w div 2 ^ (32 - k)"
  using unat_push_or[of "drop_bit (32 - k) w" k z] shr_less[OF assms, of w] shl_mod[OF assms, of "unat z"] assms
  by (simp add: unat_drop)

lemma div_shift: "D * K = M \<Longrightarrow> 0 < D \<Longrightarrow> (y * M + w) div D = y * K + w div D" for y :: nat
  by (metis add.commute div_mult_self2 mult.assoc mult.commute neq0_conv)

lemma b2d_words_value:
  assumes "y \<noteq> 0"
  shows "\<not> dbl_sign (b2d_words y xs)" "dbl_exp (b2d_words y xs) = 1023"
    "dbl_mant (b2d_words y xs) = top_words y xs div 2 ^ (43 - hi0bits y)"
proof -
  define k where "k = hi0bits y"
  note h = hi0bits_spec[OF assms, folded k_def]
  obtain z xs1 where z: "next_word xs = (z, xs1)" by fastforce
  obtain w xs2 where w: "next_word xs1 = (w, xs2)" by fastforce
  have T: "top_words y xs = (unat y * 4294967296 + unat z) * 4294967296 + unat w" by (simp add: top_words_def z w)
  have "\<not> dbl_sign (b2d_words y xs) \<and> dbl_exp (b2d_words y xs) = 1023
      \<and> dbl_mant (b2d_words y xs) = top_words y xs div 2 ^ (43 - k)"
  proof (cases "k < 11")
    case True
    let ?v = "drop_bit (11 - k) y" let ?A = "2 ^ (11 - k) :: nat"
    have A: "?A * 2 ^ k = 2048" using True by (simp flip: power_add)
    have v: "unat ?v = unat y * 2 ^ k div 2048" unfolding unat_drop A[symmetric] by (simp add: div_mult_mult2)
    have v1: "1048576 \<le> unat ?v" "unat ?v < 2097152" unfolding v using h(2,3) by linarith+
    have k32: "21 + k \<le> 32" "32 - (21 + k) = 11 - k" using True by simp_all
    have AB: "?A * 2 ^ (21 + k) = 4294967296" using True by (simp flip: power_add)
    let ?d1 = "push_bit (21 + k) y OR drop_bit (11 - k) z"
    have d: "b2d_words y xs = mk_double (Exp_1 OR ?v) ?d1"
      using True by (simp add: b2d_words_def Ebits_def k_def[symmetric] Let_def z)
    have "unat ?v * 4294967296 + unat ?d1 = 2 ^ (21 + k) * (?A * (unat y div ?A) + unat y mod ?A) + unat z div ?A"
      unfolding shifted_words[OF k32(1), unfolded k32(2)] unat_drop AB[symmetric] by (simp only: distrib_left ac_simps)
    also have "\<dots> = unat y * 2 ^ (21 + k) + unat z div ?A" by simp
    also have "\<dots> = (unat y * 4294967296 + unat z) div ?A" by (rule div_shift[symmetric, OF AB]) simp
    also have "\<dots> = top_words y xs div (4294967296 * ?A)"
      unfolding T div_mult2_eq div_mod_is[OF refl unat_limb, THEN conjunct1] ..
    also have "4294967296 * ?A = 2 ^ (43 - k)"
    proof -
      have "(2::nat) ^ 32 * 2 ^ (11 - k) = 2 ^ (43 - k)" using True unfolding power_add[symmetric] by simp
      then show ?thesis by simp
    qed
    finally show ?thesis unfolding d using mk_one_to_two[OF v1, of ?d1] by simp
  next
    case False
    define j where "j = k - 11"
    have j: "j \<le> 20" "k = 11 + j" "43 - k = 32 - j" using False h(1) by (simp_all add: j_def)
    let ?D = "2 ^ (32 - j) :: nat"
    have DK: "?D * 2 ^ j = 4294967296" using j(1) by (simp flip: power_add)
    have y: "unat y * 2 ^ j * 2048 = unat y * 2 ^ k" using j(2) by (simp add: power_add)
    then have ylt: "unat y * 2 ^ j < 2097152" "1048576 \<le> unat y * 2 ^ j" using h(2,3) by linarith+
    have ymod: "unat y mod ?D = unat y"
    proof -
      have "unat y * 2 ^ j < ?D * 2 ^ j" unfolding DK using ylt(1) by simp
      then show ?thesis by simp
    qed
    let ?v = "push_bit j y OR drop_bit (32 - j) z" and ?d1 = "push_bit j z OR drop_bit (32 - j) w"
    have j32: "j \<le> 32" using j(1) by simp
    note sv = shifted_words[OF j32, of y z, unfolded ymod] and s1 = shifted_words[OF j32, of z w]
    have zd: "unat z div ?D < 2 ^ j" using shr_less[OF j32] .
    have v1: "1048576 \<le> unat ?v" "unat ?v < 2097152"
    proof -
      show "1048576 \<le> unat ?v" unfolding sv using ylt(2) by (simp add: mult.commute)
      have "(2::nat) ^ j * 2 ^ (21 - j) = 2097152" using j(1) by (simp flip: power_add)
      then have "2 ^ j * unat y < 2 ^ j * 2 ^ (21 - j)" using ylt(1) by (simp add: mult.commute)
      then have "unat y + 1 \<le> 2 ^ (21 - j)" by simp
      then have "2 ^ j * (unat y + 1) \<le> 2 ^ j * 2 ^ (21 - j)" by (rule mult_le_mono2)
      then show "unat ?v < 2097152" unfolding sv using zd \<open>(2::nat) ^ j * 2 ^ (21 - j) = 2097152\<close> by (simp add: algebra_simps)
    qed
    have d: "b2d_words y xs = mk_double (Exp_1 OR ?v) ?d1"
    proof (cases "j = 0")
      case True
      have "drop_bit 32 x = 0" for x :: limb by (simp add: word_unat_eq_iff unat_drop unat_limb div_less)
      then show ?thesis using False True j(2) by (simp add: b2d_words_def Ebits_def k_def[symmetric] Let_def z w)
    next
      case jn: False
      then show ?thesis using False j by (simp add: b2d_words_def Ebits_def k_def[symmetric] Let_def z w or.assoc j_def[symmetric])
    qed
    have "unat ?v * 4294967296 + unat ?d1
        = unat y * (4294967296 * 2 ^ j) + 2 ^ j * (?D * (unat z div ?D) + unat z mod ?D) + unat w div ?D"
      unfolding sv s1 DK[symmetric] by (simp only: distrib_left distrib_right ac_simps)
    also have "\<dots> = (unat y * 4294967296 + unat z) * 2 ^ j + unat w div ?D" by (simp add: algebra_simps)
    also have "\<dots> = top_words y xs div ?D" unfolding T by (rule div_shift[symmetric, OF DK]) simp
    finally show ?thesis unfolding d j(3) using mk_one_to_two[OF v1, of ?d1] by simp
  qed
  then show "\<not> dbl_sign (b2d_words y xs)" "dbl_exp (b2d_words y xs) = 1023"
    "dbl_mant (b2d_words y xs) = top_words y xs div 2 ^ (43 - hi0bits y)" unfolding k_def by blast+
qed


lemma top_words_value:
  assumes "rev xs = y # ws"
  shows "top_words y ws = bval xs * 18446744073709551616 div 4294967296 ^ (length xs - 1)"
proof -
  have b: "bval ([0, 0] @ xs) = bval xs * 18446744073709551616" by simp
  have "top_words y ws = bval (drop (length xs - 1) ([0, 0] @ xs))"
  proof (cases ws)
    case Nil
    then have "xs = [y]" using assms by (metis rev_rev_ident rev.simps append_Nil)
    then show ?thesis using Nil by (simp add: top_words_def next_word_def)
  next
    case (Cons z r)
    show ?thesis
    proof (cases r)
      case Nil
      then have "xs = [z, y]" using assms Cons by (metis rev_rev_ident rev.simps append_Nil append_Cons)
      then show ?thesis using Cons Nil by (simp add: top_words_def next_word_def algebra_simps)
    next
      case c2: (Cons w r')
      have "xs = rev (y # z # w # r')" using assms Cons c2 by (metis rev_rev_ident)
      then show ?thesis using Cons c2 by (simp add: top_words_def next_word_def algebra_simps)
    qed
  qed
  then show ?thesis unfolding bval_drop b .
qed

text \<open>The number of bits of a number, from its leading word.\<close>

lemma leading_bits:
  assumes "xs \<noteq> []" "last xs \<noteq> 0"
  defines "l \<equiv> 32 * (length xs - 1) + (32 - hi0bits (last xs))"
  shows "2 ^ l \<le> 2 * bval xs" "bval xs < 2 ^ l"
proof -
  let ?c = "length xs - 1" let ?P = "4294967296 ^ ?c :: nat" let ?y = "last xs" let ?h = "hi0bits ?y"
  note bl = bval_last[OF assms(1)] and h = hi0bits_spec[OF assms(2)]
  have l2: "(2::nat) ^ l * 2 ^ ?h = ?P * 4294967296"
  proof -
    have "(2::nat) ^ l * 2 ^ ?h = 2 ^ (32 * ?c + 32)" using h(1) unfolding l_def power_add[symmetric] by simp
    then show ?thesis by (simp add: power_add power_mult)
  qed
  have hp: "(4294967296::nat) = 2 ^ (32 - ?h) * 2 ^ ?h" using h(1) unfolding power_add[symmetric] by simp
  have "unat ?y * 2 ^ ?h < 2 ^ (32 - ?h) * 2 ^ ?h" using h(3) hp by linarith
  then have "unat ?y + 1 \<le> 2 ^ (32 - ?h)" by simp
  then have "(unat ?y + 1) * 2 ^ ?h \<le> 4294967296" unfolding hp by (rule mult_le_mono1)
  then have "?P * ((unat ?y + 1) * 2 ^ ?h) \<le> ?P * 4294967296" by (rule mult_le_mono2)
  moreover have "bval xs * 2 ^ ?h < (unat ?y + 1) * ?P * 2 ^ ?h" by (rule mult_less_mono1[OF bl(2)]) simp
  moreover have "(unat ?y + 1) * ?P * 2 ^ ?h = ?P * ((unat ?y + 1) * 2 ^ ?h)" by (simp only: ac_simps)
  ultimately have "bval xs * 2 ^ ?h < 2 ^ l * 2 ^ ?h" unfolding l2 by linarith
  then show "bval xs < 2 ^ l" by simp
  have "?P * 4294967296 \<le> ?P * (2 * (unat ?y * 2 ^ ?h))" using h(2) by (intro mult_le_mono2) simp
  also have "\<dots> \<le> 2 * bval xs * 2 ^ ?h" using mult_le_mono1[OF bl(1), of "2 * 2 ^ ?h"] by (simp add: ac_simps)
  finally have "2 ^ l * 2 ^ ?h \<le> 2 * bval xs * 2 ^ ?h" unfolding l2 .
  then show "2 ^ l \<le> 2 * bval xs" by simp
qed

lemma top_word_nonzero:
  assumes "big k B n" "0 < n" "peek_words B (bg_wds B) = Inr xs"
  shows "xs \<noteq> []" "last xs \<noteq> 0" "bval xs = n"
proof -
  obtain ys where ys: "peek_words B (bg_wds B) = Inr ys" "bval ys = n" "int (length ys) = bg_wds B" "1 \<le> bg_wds B"
    using big_words[OF assms(1,2)] by blast
  then show v: "bval xs = n" and ne: "xs \<noteq> []" using assms(3) by auto
  show "last xs \<noteq> 0"
  proof
    assume z: "last xs = 0"
    have "length xs - 1 = nat (bg_wds B - 1)" using ys assms(3) by auto
    moreover have "n < 1 * 4294967296 ^ (length xs - 1)" using bval_last(2)[OF ne] z v by simp
    ultimately show False using big_bounds(2)[OF assms(1)] assms(2) by (cases "1 < bg_wds B") auto
  qed
qed

lemma b2d_spec:
  assumes "dt_heap s a = Some B" "big k B n" "0 < n"
  shows "\<exists>d e l. b2d s a = Inr (d, e) \<and> \<not> dbl_sign d \<and> dbl_exp d = 1023 \<and> dbl_mant d = n * 2 ^ 53 div 2 ^ l
    \<and> 2 ^ l \<le> 2 * n \<and> n < 2 ^ l \<and> int l = 32 * (bg_wds B - 1) + e \<and> 1 \<le> e \<and> e \<le> 32"
proof -
  have w: "1 \<le> bg_wds B" by (rule big_words(1)[OF assms(2,3)])
  obtain xs where xs: "peek_words B (bg_wds B) = Inr xs" "bval xs = n" "int (length xs) = bg_wds B"
    using big_words(2)[OF assms(2,3)] by blast
  note top = top_word_nonzero[OF assms(2,3) xs(1)]
  obtain y ws where r: "rev xs = y # ws" using top(1) by (cases "rev xs") auto
  have y: "last xs = y" using r top(1) by (metis hd_rev list.sel(1))
  let ?c = "length xs - 1" let ?P = "4294967296 ^ ?c :: nat" let ?h = "hi0bits y" let ?l = "32 * ?c + (32 - ?h)"
  have y0: "y \<noteq> 0" using top(2) y by simp
  note h = hi0bits_spec[OF y0] and lw = leading_bits[OF top(1,2), unfolded y xs(2)]
  have mant: "dbl_mant (b2d_words y ws) = n * 2 ^ 53 div 2 ^ ?l"
  proof -
    have "dbl_mant (b2d_words y ws) = n * 18446744073709551616 div (?P * 2 ^ (43 - ?h))"
      unfolding b2d_words_value(3)[OF y0] top_words_value[OF r] xs(2) div_mult2_eq ..
    also have "?P * 2 ^ (43 - ?h) = 2 ^ ?l * 2 ^ 11"
    proof -
      have "32 * ?c + (43 - ?h) = ?l + 11" using h(1) by simp
      then show ?thesis unfolding pow32_mult power_add[symmetric] by (rule arg_cong)
    qed
    also have "n * 18446744073709551616 = n * 2 ^ 53 * 2 ^ 11" by simp
    also have "n * 2 ^ 53 * 2 ^ 11 div (2 ^ ?l * 2 ^ 11) = n * 2 ^ 53 div 2 ^ ?l" by (rule div_mult_mult2) simp
    finally show ?thesis .
  qed
  have "b2d s a = Inr (b2d_words y ws, 32 - int ?h)"
    using assms(1) xs(1) r by (simp add: b2d_def deref_def)
  moreover have "int ?l = 32 * (bg_wds B - 1) + (32 - int ?h)" using xs(3) top(1) h(1) by (simp add: of_nat_diff Suc_le_eq)
  moreover have "1 \<le> 32 - int ?h" "32 - int ?h \<le> 32" using h(1) by simp_all
  ultimately show ?thesis using b2d_words_value(1,2)[OF y0, of ws] mant lw
    by (intro exI[of _ "b2d_words y ws"] exI[of _ "32 - int ?h"] exI[of _ ?l]) simp
qed


definition d2b_words :: "limb \<Rightarrow> limb \<Rightarrow> limb list \<times> int \<times> nat" where
  \<comment> \<open>the words stored, \<open>i\<close> and \<open>k\<close>, from the two words of the mantissa\<close>
  "d2b_words z d1 =
     (if d1 \<noteq> 0 then
        let (k, y) = lo0bits d1;
            (x0, z) = (if k \<noteq> 0 then (y OR push_bit (32 - k) z, drop_bit k z) else (y, z))
        in ([x0, z], if z \<noteq> 0 then 2 else 1, k)
      else let (k, z) = lo0bits z in ([z], 1, k + 32))"

definition d2b :: "alloc \<Rightarrow> dtoa_state \<Rightarrow> double \<Rightarrow> (dtoa_state \<times> nat \<times> int \<times> int \<times> double) res" where
  \<comment> \<open>the bignum, \<open>*e\<close>, \<open>*bits\<close>, and \<open>*d\<close> with its sign cleared\<close>
  "d2b A s d =
     andthen (Balloc A s 1) (\<lambda>(s, b).
     let z = word0 d AND Frac_mask;
         d = mk_double (word0 d AND 0x7fffffff) (word1 d);
         de = int (unat (drop_bit Exp_shift (word0 d)));
         z = (if de \<noteq> 0 then z OR Exp_msk1 else z);
         (ws, i, k) = d2b_words z (word1 d)
     in andthen (put_words s b ws 0 i) (\<lambda>s.
        let (e, bits) =
              (if de \<noteq> 0 then (de - Bias - (int P_bits - 1) + int k, int P_bits - int k)
               else (de - Bias - (int P_bits - 1) + 1 + int k, 32 * i - int (hi0bits (ws ! nat (i - 1)))))
        in Inr (s, b, e, bits, d)))"

definition ratio :: "(double \<Rightarrow> double \<Rightarrow> double) \<Rightarrow> dtoa_state \<Rightarrow> nat \<Rightarrow> nat \<Rightarrow> double res" where
  \<comment> \<open>\<open>fdiv\<close>: the machine's division of doubles\<close>
  "ratio fdiv s a b =
     andthen (b2d s a) (\<lambda>(da, ka).
     andthen (b2d s b) (\<lambda>(db, kb).
     andthen (deref s a) (\<lambda>A.
     andthen (deref s b) (\<lambda>B.
     let k = ka - kb + 32 * (bg_wds A - bg_wds B) in
     if 0 < k then
       andthen (c_int (k * sint Exp_msk1)) (\<lambda>x.
       Inr (fdiv (mk_double (word0 da + word_of_int x) (word1 da)) db))
     else
       andthen (c_int (- k * sint Exp_msk1)) (\<lambda>x.
       Inr (fdiv da (mk_double (word0 db + word_of_int x) (word1 db))))))))"

lemma and_low: "unat (x AND mask j :: limb) = unat x mod 2 ^ j"
  unfolding take_bit_eq_mask[symmetric] unat_take ..

lemma word0_mk [simp]: "word0 (mk_double a b) = a" and word1_mk [simp]: "word1 (mk_double a b) = b"
proof -
  have "(unat a * 4294967296 + unat b) div 4294967296 = unat a \<and> (unat a * 4294967296 + unat b) mod 4294967296 = unat b"
    by (rule div_mod_is[OF refl unat_limb])
  then show "word0 (mk_double a b) = a" "word1 (mk_double a b) = b"
    unfolding word_unat_eq_iff unat_word0 unat_word1 unat_mk_double by simp_all
qed

lemma d2b_words_spec:
  assumes "unat z * 4294967296 + unat d1 = m" "0 < m"
  shows "\<exists>ws i k. d2b_words z d1 = (ws, i, k) \<and> bval ws * 2 ^ k = m \<and> odd (bval ws) \<and> (i = 1 \<or> i = 2)
    \<and> i \<le> int (length ws) \<and> length ws \<le> 2 \<and> ws ! nat (i - 1) \<noteq> 0 \<and> bval (take (nat i) ws) = bval ws"
proof (cases "d1 = 0")
  case False
  obtain k y where y: "lo0bits d1 = (k, y)" "k \<le> 31" "unat d1 = unat y * 2 ^ k" "odd (unat y)"
    using lo0bits_spec[OF False] by blast
  let ?x0 = "y OR push_bit (32 - k) z" and ?z = "drop_bit k z"
  have yl: "unat y < 2 ^ (32 - k)"
  proof -
    have "unat y * 2 ^ k < 2 ^ (32 - k) * 2 ^ k" using unat_limb[of d1] y(2,3) unfolding power_add[symmetric] by simp
    then show ?thesis by simp
  qed
  have x0: "unat ?x0 = 2 ^ (32 - k) * (unat z mod 2 ^ k) + unat y"
    using unat_push_or[OF yl, of z] shl_mod[of "32 - k" "unat z"] y(2) by (simp add: or.commute)
  have P: "(4294967296::nat) = 2 ^ (32 - k) * 2 ^ k" using y(2) unfolding power_add[symmetric] by simp
  have val: "bval [?x0, ?z] * 2 ^ k = m"
  proof -
    have "bval [?x0, ?z] * 2 ^ k = (2 ^ (32 - k) * 2 ^ k) * (unat z mod 2 ^ k) + unat y * 2 ^ k
        + 4294967296 * (2 ^ k * (unat z div 2 ^ k))"
      unfolding bval.simps x0 unat_drop by (simp add: algebra_simps)
    also have "\<dots> = 4294967296 * (2 ^ k * (unat z div 2 ^ k) + unat z mod 2 ^ k) + unat y * 2 ^ k"
      unfolding P[symmetric] by (simp only: distrib_left distrib_right ac_simps)
    finally have "bval [?x0, ?z] * 2 ^ k = 4294967296 * unat z + unat y * 2 ^ k" by simp
    then show ?thesis using assms(1) y(3) by (simp add: mult.commute)
  qed
  have x0': "(if k \<noteq> 0 then (y OR push_bit (32 - k) z, drop_bit k z) else (y, z)) = (?x0, ?z)"
  proof (cases "k = 0")
    case True
    have "unat ?x0 = unat y" using x0 True by simp
    then have "?x0 = y" by (simp add: word_unat_eq_iff)
    then show ?thesis using True by simp
  qed simp
  have od: "odd (unat ?x0)" unfolding x0 using y(2,4) by simp
  then have n0: "?x0 \<noteq> 0" by (metis even_zero unat_0)
  have "d2b_words z d1 = ([?x0, ?z], if ?z \<noteq> 0 then 2 else 1, k)"
    using False y(1) x0' by (simp add: d2b_words_def)
  then show ?thesis using val od n0 by (cases "?z = 0") auto
next
  case True
  then have z: "z \<noteq> 0" using assms by auto
  obtain k y where y: "lo0bits z = (k, y)" "k \<le> 31" "unat z = unat y * 2 ^ k" "odd (unat y)"
    using lo0bits_spec[OF z] by blast
  have "y \<noteq> 0" using y(4) by (metis even_zero unat_0)
  moreover have "bval [y] * 2 ^ (k + 32) = m" using assms(1) True y(3) by (simp add: power_add)
  moreover have "d2b_words z d1 = ([y], 1, k + 32)" using True y(1) by (simp add: d2b_words_def)
  ultimately show ?thesis using y(4) by auto
qed

lemma clear_sign_fields:
  defines "d' \<equiv> \<lambda>d. mk_double (word0 d AND 0x7fffffff) (word1 d)"
  shows "\<not> dbl_sign (d' d)" "dbl_exp (d' d) = dbl_exp d" "dbl_frac (d' d) = dbl_frac d"
proof -
  let ?u = "unat d"
  have m: "(0x7fffffff :: limb) = mask 31" by (simp add: mask_eq_exp_minus_1)
  have w0: "unat (word0 d AND 0x7fffffff) = ?u div 4294967296 mod 2147483648" unfolding m and_low unat_word0 by simp
  have mm: "(x mod 2147483648) div 1048576 = x div 1048576 mod 2048" "x mod 2147483648 mod 1048576 = x mod 1048576" for x :: nat
    using mod_mult2_eq[of x 1048576 2048] by (simp_all add: mod_mod_cancel div_mult2_eq)
  have dd: "x div 4294967296 div 1048576 = x div 4503599627370496" for x :: nat by (simp add: div_mult2_eq[symmetric])
  show "\<not> dbl_sign (d' d)" unfolding d'_def mk_double_fields w0 by (simp add: not_le)
  show "dbl_exp (d' d) = dbl_exp d" unfolding d'_def mk_double_fields w0 mm dd dbl_fields(2)[of d] by simp
  have "?u mod (4294967296 * 1048576) = 4294967296 * (?u div 4294967296 mod 1048576) + ?u mod 4294967296"
    by (rule mod_mult2_eq)
  then show "dbl_frac (d' d) = dbl_frac d" unfolding d'_def mk_double_fields w0 mm dbl_fields(3)[of d] unat_word1 by simp
qed

lemma d2b_run:
  assumes d: "0 < dbl_mant d" "dbl_exp d < 2047"
  shows "\<exists>c n k bits d'. d2b A s d = andthen c (\<lambda>(s, b). Inr (s, b, int (max 1 (dbl_exp d)) - 1075 + int k, bits, d'))
    \<and> (\<forall>L. dt_ok s L \<longrightarrow> wpr (alloc_err A) (made s L 1 n 0) c) \<and> odd n \<and> n * 2 ^ k = dbl_mant d
    \<and> 0 < bits \<and> 2 ^ nat bits \<le> 2 * n \<and> n < 2 ^ nat bits
    \<and> \<not> dbl_sign d' \<and> dbl_exp d' = dbl_exp d \<and> dbl_frac d' = dbl_frac d"
proof -
  let ?u = "unat d" let ?d' = "mk_double (word0 d AND 0x7fffffff) (word1 d)"
  let ?zf = "word0 d AND Frac_mask" let ?de = "int (unat (drop_bit Exp_shift (word0 ?d')))"
  let ?z = "if ?de \<noteq> 0 then ?zf OR Exp_msk1 else ?zf"
  have masks: "(0x7fffffff :: limb) = mask 31" "Frac_mask = mask 20" by (simp_all add: mask_eq_exp_minus_1 Frac_mask_def)
  have w0: "unat (word0 d AND 0x7fffffff) = ?u div 4294967296 mod 2147483648"
    unfolding masks and_low unat_word0 by simp
  have z0: "unat ?zf = ?u div 4294967296 mod 1048576" unfolding masks and_low unat_word0 by simp
  have mm: "(x mod 2147483648) div 1048576 = x div 1048576 mod 2048" "x mod 2147483648 mod 1048576 = x mod 1048576" for x :: nat
    using mod_mult2_eq[of x 1048576 2048] by (simp_all add: mod_mod_cancel div_mult2_eq)
  have dd: "x div 4294967296 div 1048576 = x div 4503599627370496" for x :: nat by (simp add: div_mult2_eq[symmetric])
  note f' = clear_sign_fields[of d]
  have de: "?de = int (dbl_exp d)"
    unfolding word0_mk unat_drop w0 Exp_shift_def dbl_fields(2)[of d] using mm[of "?u div 4294967296"] dd[of ?u] by simp
  have z20: "unat ?zf < 2 ^ 20" unfolding z0 by simp
  have uz: "unat ?z * 4294967296 + unat (word1 ?d') = dbl_mant d"
  proof -
    have fr: "unat ?zf * 4294967296 + unat (word1 ?d') = dbl_frac d"
      unfolding f'(3)[symmetric] mk_double_fields w0 mm z0 word1_mk ..
    have "Exp_msk1 = push_bit 20 1" by (simp add: Exp_msk1_def push_bit_eq_mult)
    then have "unat (?zf OR Exp_msk1) = 1048576 + unat ?zf"
      using unat_push_or[OF z20, of 1] by (simp add: or.commute)
    moreover have "?z = (if dbl_exp d \<noteq> 0 then ?zf OR Exp_msk1 else ?zf)" unfolding de by simp
    ultimately show ?thesis using fr by (simp add: dbl_mant_def)
  qed
  obtain ws i k where w: "d2b_words ?z (word1 ?d') = (ws, i, k)" "bval ws * 2 ^ k = dbl_mant d" "odd (bval ws)"
    "i = 1 \<or> i = 2" "i \<le> int (length ws)" "length ws \<le> 2" "ws ! nat (i - 1) \<noteq> 0" "bval (take (nat i) ws) = bval ws"
    using d2b_words_spec[OF uz d(1)] by blast
  let ?n = "bval ws"
  define e where "e = int (max 1 (dbl_exp d)) - 1075 + int k"
  define bits where "bits = (if dbl_exp d \<noteq> 0 then 53 - int k else 32 * i - int (hi0bits (ws ! nat (i - 1))))"
  have w1: "0 < dbl_exp d \<Longrightarrow> d2b_words (?zf OR Exp_msk1) (word1 d) = (ws, i, k)"
    "dbl_exp d = 0 \<Longrightarrow> d2b_words ?zf (word1 d) = (ws, i, k)"
    using w(1) unfolding de word1_mk by simp_all
  have run: "d2b A s d = andthen (andthen (Balloc A s 1) (\<lambda>(s, b). andthen (put_words s b ws 0 i) (\<lambda>s. Inr (s, b))))
      (\<lambda>(s, b). Inr (s, b, e, bits, ?d'))"
    unfolding d2b_def Let_def andthen_assoc de word1_mk e_def bits_def
    by (rule arg_cong2[where f = andthen, OF refl])
       (auto simp: fun_eq_iff andthen_assoc Bias_def P_bits_def w1 split: prod.splits)
  let ?w = "ws ! nat (i - 1)"
  note h = hi0bits_spec[OF w(7)]
  have i1: "i = 1 \<Longrightarrow> unat ?w = ?n"
    using w(5,8) by (cases ws) simp_all
  have i2: "i = 2 \<Longrightarrow> ?n = unat (ws ! 0) + 4294967296 * unat ?w"
    using w(5,6) by (cases ws; cases "tl ws") auto
  have top: "1 < i \<longrightarrow> 4294967296 ^ nat (i - 1) \<le> ?n"
    using w(4,7) i2 by (auto simp: unat_gt_0 Suc_le_eq intro!: trans_le_add2)
  have bits: "0 < bits \<and> 2 ^ nat bits \<le> 2 * ?n \<and> ?n < 2 ^ nat bits"
  proof (cases "dbl_exp d = 0")
    case False
    have m: "2 ^ 52 \<le> dbl_mant d" "dbl_mant d < 2 ^ 53" using False by (simp_all add: dbl_mant_def dbl_fields)
    have k: "k \<le> 52"
    proof (rule ccontr)
      assume "\<not> k \<le> 52"
      then have "1 * 2 ^ 53 \<le> ?n * 2 ^ k" using w(3) by (intro mult_le_mono power_increasing) (auto intro: Suc_leI simp: odd_pos)
      then show False using w(2) m by simp
    qed
    have p: "(2::nat) ^ 53 = 2 ^ (53 - k) * 2 ^ k" using k unfolding power_add[symmetric] by simp
    have "2 ^ (53 - k) * 2 ^ k \<le> 2 * ?n * 2 ^ k" "?n * 2 ^ k < 2 ^ (53 - k) * 2 ^ k"
      unfolding p[symmetric] using m w(2) by simp_all
    then have "2 ^ (53 - k) \<le> 2 * ?n" "?n < 2 ^ (53 - k)" by simp_all
    moreover have "nat bits = 53 - k" "0 < bits" using False k by (simp_all add: bits_def nat_diff_distrib')
    ultimately show ?thesis by simp
  next
    case True
    have hp: "(4294967296 :: nat) = 2 ^ (32 - hi0bits ?w) * 2 ^ hi0bits ?w" using h(1) unfolding power_add[symmetric] by simp
    have up: "unat ?w + 1 \<le> 2 ^ (32 - hi0bits ?w)"
      using h(3) unfolding hp by simp
    have lw: "2 ^ (32 - hi0bits ?w) \<le> 2 * unat ?w"
    proof -
      have "2 ^ (32 - hi0bits ?w) * 2 ^ hi0bits ?w \<le> 2 * unat ?w * 2 ^ hi0bits ?w" unfolding hp[symmetric] using h(2) by simp
      then show ?thesis by simp
    qed
    consider "i = 1" | "i = 2" using w(4) by blast
    then show ?thesis
    proof cases
      case 1
      then have "nat bits = 32 - hi0bits ?w" "0 < bits" using True h(1) by (simp_all add: bits_def nat_diff_distrib')
      then show ?thesis using i1[OF 1] up lw by simp
    next
      case 2
      have b: "nat bits = 32 + (32 - hi0bits ?w)" "0 < bits" using True 2 h(1) by (simp_all add: bits_def nat_diff_distrib')
      have "4294967296 * (unat ?w + 1) \<le> 4294967296 * 2 ^ (32 - hi0bits ?w)" using up by (rule mult_le_mono2)
      then show ?thesis using i2[OF 2] lw unat_limb[of "ws ! 0"] unfolding b(1) power_add by (simp add: b(2))
    qed
  qed
  have "max 1 i = i" using w(4) by auto
  then have "wpr (alloc_err A) (made s L 1 ?n 0) (andthen (Balloc A s 1) (\<lambda>(s, b). andthen (put_words s b ws 0 i) (\<lambda>s. Inr (s, b))))"
    if "dt_ok s L" for L using w(4-6,8) top by (intro Balloc_put[OF that]) auto
  then show ?thesis using run bits f' w(2,3) unfolding e_def by blast
qed

lemma d2b_spec:
  assumes ok: "dt_ok s L" and d: "0 < dbl_mant d" "dbl_exp d < 2047"
  shows "wpr (alloc_err A)
    (\<lambda>(s', b, e, bits, d'). \<exists>n k. made s L 1 n 0 (s', b) \<and> odd n \<and> n * 2 ^ k = dbl_mant d
       \<and> e = int (max 1 (dbl_exp d)) - 1075 + int k
       \<and> 0 < bits \<and> 2 ^ nat bits \<le> 2 * n \<and> n < 2 ^ nat bits
       \<and> \<not> dbl_sign d' \<and> dbl_exp d' = dbl_exp d \<and> dbl_frac d' = dbl_frac d)
    (d2b A s d)"
proof -
  obtain c n k bits d' where r: "d2b A s d = andthen c (\<lambda>(s, b). Inr (s, b, int (max 1 (dbl_exp d)) - 1075 + int k, bits, d'))"
    "wpr (alloc_err A) (made s L 1 n 0) c" "odd n" "n * 2 ^ k = dbl_mant d" "0 < bits" "2 ^ nat bits \<le> 2 * n" "n < 2 ^ nat bits"
    "\<not> dbl_sign d'" "dbl_exp d' = dbl_exp d" "dbl_frac d' = dbl_frac d"
    using d2b_run[OF d, of A s] ok by blast
  show ?thesis unfolding r(1) wpr_andthen[of _ _ c] by (rule wpr_mono[OF r(2)]) (use r(3-) in auto)
qed


section \<open>Units in the last place\<close>

record BCinfo =
  bc_dp0 :: int
  bc_dp1 :: int
  bc_dplen :: int
  bc_dsign :: int
  bc_e0 :: int
  bc_inexact :: int
  bc_nd :: int
  bc_nd0 :: int
  bc_rounding :: int
  bc_scale :: int
  bc_uflchk :: int

definition sulp :: "(double \<Rightarrow> double \<Rightarrow> double) \<Rightarrow> double \<Rightarrow> BCinfo \<Rightarrow> double" where
  \<comment> \<open>\<open>fmul\<close>: the machine's product of doubles\<close>
  "sulp fmul x bc =
     (let rv = ulp x;
          i = 2 * int P_bits + 1 - int (unat (drop_bit Exp_shift (word0 x AND Exp_mask)))
      in if bc_scale bc = 0 \<or> i \<le> 0 then rv
         else fmul rv (mk_double (Exp_1 + word_of_int (push_bit Exp_shift i)) 0))"

definition dshift :: "dtoa_state \<Rightarrow> nat \<Rightarrow> int \<Rightarrow> int res" where
  "dshift s b p2 =
     andthen (deref s b) (\<lambda>B.
     andthen (peek_word B (bg_wds B - 1)) (\<lambda>x.
     let rv = int (hi0bits x) - 4; rv = (if 0 < p2 then rv - p2 else rv)
     in Inr (rv AND 31)))"

lemma exp_word: "word0 x AND Exp_mask = of_nat (dbl_exp x) * Exp_msk1"
proof -
  have e: "dbl_exp x < 2048" unfolding dbl_fields by simp
  have "unat (of_nat (dbl_exp x) * Exp_msk1 :: limb) = dbl_exp x * 1048576"
    using e by (simp add: unat_word_ariths unsigned_of_nat Exp_msk1_def take_bit_eq_mod)
  moreover have "unat (word0 x AND Exp_mask) = dbl_exp x * 1048576"
  proof -
    have m: "Exp_mask = mask 31 AND NOT (mask 20)" by (simp add: Exp_mask_def mask_eq_exp_minus_1)
    have "word0 x AND Exp_mask = push_bit 20 (drop_bit 20 (take_bit 31 (word0 x)))"
      unfolding m by (auto simp: bit_eq_iff bit_simps)
    moreover have "unat (drop_bit 20 (take_bit 31 (word0 x))) = dbl_exp x"
    proof -
      have "(a mod 2147483648) div 1048576 = a div 1048576 mod 2048" for a :: nat
        using mod_mult2_eq[of a 1048576 2048] by simp
      then show ?thesis unfolding unat_drop unat_take unat_word0 dbl_fields by (simp add: div_mult2_eq[symmetric])
    qed
    ultimately show ?thesis using e by (simp add: unat_push)
  qed
  ultimately show ?thesis by (simp add: word_unat_eq_iff)
qed

lemma ulp_fields:
  assumes "53 \<le> dbl_exp x"
  shows "\<not> dbl_sign (ulp x)" "dbl_exp (ulp x) = dbl_exp x - 52" "dbl_frac (ulp x) = 0"
proof -
  have e: "dbl_exp x < 2048" unfolding dbl_fields by simp
  have "of_nat (dbl_exp x) * Exp_msk1 - of_nat (P_bits - 1) * Exp_msk1 = (of_nat (dbl_exp x - 52) * Exp_msk1 :: limb)"
    using assms by (simp add: P_bits_def of_nat_diff algebra_simps)
  then have u: "ulp x = mk_double (of_nat (dbl_exp x - 52) * Exp_msk1) 0" by (simp add: ulp_def exp_word)
  have "unat (of_nat (dbl_exp x - 52) * Exp_msk1 :: limb) = (dbl_exp x - 52) * 1048576"
    using e by (simp add: unat_word_ariths unsigned_of_nat Exp_msk1_def take_bit_eq_mod)
  then show "\<not> dbl_sign (ulp x)" "dbl_exp (ulp x) = dbl_exp x - 52" "dbl_frac (ulp x) = 0"
    unfolding u mk_double_fields using e by simp_all
qed

end
