(* ===== verification/Dtoa_Hex.thy ===== *)
theory Dtoa_Hex
  imports Bigint_Double
begin

text \<open>
The parts of \<open>3rd/lua-cjson/dtoa.c\<close> that read text which is not a decimal number: the table
  \<open>hexdig\<close> with \<open>htinit\<close> and \<open>hexdig_init\<close>, \<open>match\<close> (the words \<open>inf\<close> and \<open>nan\<close>), \<open>hexnan\<close> (the
  payload of a NaN) and \<open>gethex\<close>, split along its labels: the scan of the text up to \<open>pcheck\<close> and
  the exponent, the words of the number, the normalisation to 53 bits, the range checks, the
  rounding and the storing of the double. A text is the list of its characters without the
  terminator; a position in it is an offset. \<open>1 << 31\<close> on an \<open>int\<close> and shifts of an \<open>int\<close> into
  its sign bit have the value the compiler gives them.
\<close>

section \<open>Hexadecimal digits\<close>

type_synonym hexdig_table = "nat \<Rightarrow> nat"   \<comment> \<open>\<open>static unsigned char hexdig[256]\<close>\<close>

fun htinit :: "hexdig_table \<Rightarrow> string \<Rightarrow> nat \<Rightarrow> hexdig_table" where
  \<comment> \<open>the characters from \<open>s[i]\<close> on, with \<open>i + inc\<close>\<close>
  "htinit h [] inc = h"
| "htinit h (j # s) inc = htinit (h(of_char j := inc mod 256)) s (inc + 1)"

definition hexdig_init :: "hexdig_table \<Rightarrow> hexdig_table" where
  "hexdig_init h =
     htinit (htinit (htinit h ''0123456789'' 0x10) ''abcdef'' (0x10 + 10)) ''ABCDEF'' (0x10 + 10)"

definition hexdig_ready :: "hexdig_table \<Rightarrow> hexdig_table" where
  "hexdig_ready h = (if h 48 = 0 then hexdig_init h else h)"

abbreviation (input) hexdig_zero :: hexdig_table where "hexdig_zero \<equiv> \<lambda>_. 0"

definition hexd :: "hexdig_table \<Rightarrow> char \<Rightarrow> nat" where "hexd h c = h (of_char c)"

text \<open>Once filled, the table holds the values of the hexadecimal digits, plus 16.\<close>

lemma hexdig_init_value:
  assumes "n < 256"
  shows "hexdig_init hexdig_zero n =
    (case digit_value (char_of n) of Some d \<Rightarrow> if d < 16 then d + 16 else 0 | None \<Rightarrow> 0)"
proof -
  have n: "of_char (char_of n :: char) = n" using assms by simp
  have "hexdig_init hexdig_zero n =
      (if 48 \<le> n \<and> n \<le> 57 then n - 32 else if 97 \<le> n \<and> n \<le> 102 then n - 71 else if 65 \<le> n \<and> n \<le> 70 then n - 39 else 0)"
    by (simp add: hexdig_init_def) arith
  then show ?thesis unfolding digit_value_def n Let_def by auto
qed

section \<open>Words that are not numbers\<close>

fun match_go :: "string \<Rightarrow> string \<Rightarrow> nat \<Rightarrow> nat option" where
  \<comment> \<open>the text from \<open>++s\<close> on (then NUL), the rest of \<open>t\<close>, and the new offset of \<open>s\<close>\<close>
  "match_go s [] n = Some (n + 1)"
| "match_go s (d # t) n =
     (let c = (case s of [] \<Rightarrow> 0 | c # _ \<Rightarrow> sc c);
          c = (if 65 \<le> c \<and> c \<le> 90 then c + 32 else c)
      in if c \<noteq> sc d then None else match_go (tl s) t (n + 1))"

definition match :: "string \<Rightarrow> string \<Rightarrow> nat option" where
  \<comment> \<open>\<open>*sp\<close> points at the first character of the text; the new value of \<open>*sp\<close> as an offset\<close>
  "match sp t = match_go (tl sp) t 0"


definition ch_at :: "string \<Rightarrow> nat \<Rightarrow> char" where
  \<comment> \<open>the character at an offset, the terminator included\<close>
  "ch_at t i = (if i < length t then t ! i else NUL)"

definition skip_while :: "(char \<Rightarrow> bool) \<Rightarrow> string \<Rightarrow> nat \<Rightarrow> nat" where
  "skip_while p t i = i + length (takeWhile p (drop i t))"

fun close_paren :: "string \<Rightarrow> nat \<Rightarrow> nat option" where
  "close_paren [] n = None"
| "close_paren (c # s) n = (if c = CHR '')'' then Some (n + 1) else close_paren s (n + 1))"

fun hexnan_go :: "hexdig_table \<Rightarrow> string \<Rightarrow> nat \<Rightarrow> limb \<Rightarrow> limb \<Rightarrow> bool \<Rightarrow> bool \<Rightarrow> bool \<Rightarrow> limb \<times> limb \<times> nat option" where
  \<comment> \<open>the text from \<open>++s\<close> on and its offset, then \<open>x[0]\<close>, \<open>x[1]\<close>, \<open>havedig\<close>, \<open>udx0\<close>, \<open>xshift\<close>\<close>
  "hexnan_go h [] n x0 x1 havedig udx0 xshift = (x0, x1, None)"
| "hexnan_go h (c # s) n x0 x1 havedig udx0 xshift =
     (if hexd h c \<noteq> 0 then
        let (x0, x1) = (if xshift then (x1, 0) else (x0, x1));
            x0 = (if udx0 then push_bit 4 x0 OR drop_bit 28 x1 else x0);
            x1 = push_bit 4 x1 OR of_nat (hexd h c AND 0xf)
        in hexnan_go h s (n + 1) x0 x1 True udx0 False
      else if uc c \<le> 32 then
        if udx0 \<and> havedig then hexnan_go h s (n + 1) x0 x1 havedig False True
        else hexnan_go h s (n + 1) x0 x1 havedig udx0 xshift
      else (x0, x1, close_paren (c # s) n))"

definition hexnan :: "hexdig_table \<Rightarrow> double \<Rightarrow> string \<Rightarrow> hexdig_table \<times> double \<times> nat" where
  \<comment> \<open>\<open>*sp\<close> points at the first character, a parenthesis\<close>
  "hexnan h rv t =
     (let h = hexdig_ready h;
          s = skip_while (\<lambda>c. uc c \<le> 32) t 1 - 1;
          s = (if ch_at t (s + 1) = CHR ''0'' \<and> (ch_at t (s + 2) = CHR ''x'' \<or> ch_at t (s + 2) = CHR ''X'') then s + 2 else s);
          (x0, x1, sp) = hexnan_go h (drop (s + 1) t) (s + 1) 0 0 False True False;
          x0 = x0 AND 0xfffff;
          rv = (if x0 \<noteq> 0 \<or> x1 \<noteq> 0 then mk_double (Exp_mask OR x0) x1 else rv)
      in (h, rv, case sp of None \<Rightarrow> 0 | Some n \<Rightarrow> n))"

section \<open>Hexadecimal numbers\<close>

subsection \<open>Reading the text\<close>

record hexscan =
  hs_sp :: nat      \<comment> \<open>the new \<open>*sp\<close>, as an offset\<close>
  hs_s0 :: nat
  hs_s1 :: nat      \<comment> \<open>the digits are between \<open>s0\<close> and \<open>s1\<close>\<close>
  hs_e :: int
  hs_big :: bool
  hs_esign :: bool
  hs_zret :: bool

definition hex_mantissa :: "hexdig_table \<Rightarrow> string \<Rightarrow> (nat \<times> nat \<times> int \<times> bool \<times> bool) res" where
  \<comment> \<open>\<open>s0\<close>, \<open>s\<close>, \<open>e\<close>, \<open>zret\<close> and \<open>havedig\<close> at the label \<open>pcheck\<close>\<close>
  "hex_mantissa h t =
     (let s0 = skip_while (\<lambda>c. c = CHR ''0'') t 2; hex = (\<lambda>c. hexd h c \<noteq> 0) in
      if hex (ch_at t s0) then
        let s = skip_while hex t s0 in
        if ch_at t s = CHR ''.'' then
          let decpt = s + 1; s = skip_while hex t decpt
          in andthen (c_int (- (int (s - decpt) * 4))) (\<lambda>e. Inr (s0, s, e, False, True))
        else Inr (s0, s, 0, False, True)
      else if ch_at t s0 \<noteq> CHR ''.'' then Inr (s0, s0, 0, True, 2 < s0)
      else
        let decpt = s0 + 1 in
        if \<not> hex (ch_at t decpt) then Inr (s0, decpt, 0, True, 2 < s0)
        else
          let s0 = skip_while (\<lambda>c. c = CHR ''0'') t decpt;
              zret = (\<not> hex (ch_at t s0));
              s = skip_while hex t s0
          in andthen (c_int (- (int (s - decpt) * 4))) (\<lambda>e. Inr (s0, s, e, zret, True)))"

fun hex_exponent :: "hexdig_table \<Rightarrow> string \<Rightarrow> int \<Rightarrow> bool \<Rightarrow> (int \<times> bool) res" where
  \<comment> \<open>\<open>e1\<close> and \<open>big\<close> (here \<open>over\<close>) after the digits of the exponent\<close>
  "hex_exponent h [] e1 over = Inr (e1, over)"
| "hex_exponent h (c # cs) e1 over =
     (let over = (over \<or> e1 AND 0xf8000000 \<noteq> 0) in
      andthen (c_int (10 * e1)) (\<lambda>x.
      andthen (c_int (x + int (hexd h c))) (\<lambda>x.
      andthen (c_int (x - 0x10)) (\<lambda>e1. hex_exponent h cs e1 over))))"

definition hex_pcheck :: "hexdig_table \<Rightarrow> string \<Rightarrow> nat \<Rightarrow> int \<Rightarrow> (nat \<times> int \<times> bool \<times> bool) res" where
  \<comment> \<open>\<open>s\<close>, \<open>e\<close>, \<open>big\<close> and \<open>esign\<close> after the exponent, if there is one\<close>
  "hex_pcheck h t s1 e =
     (if ch_at t s1 = CHR ''p'' \<or> ch_at t s1 = CHR ''P'' then
        let c = ch_at t (s1 + 1);
            esign = (c = CHR ''-'');
            s = (if c = CHR ''-'' \<or> c = CHR ''+'' then s1 + 2 else s1 + 1);
            n = hexd h (ch_at t s)
        in if n = 0 \<or> 0x19 < n then Inr (s1, e, False, esign)
           else let s' = skip_while (\<lambda>c. hexd h c \<noteq> 0 \<and> hexd h c \<le> 0x19) t (s + 1)
                in andthen (hex_exponent h (take (s' - (s + 1)) (drop (s + 1) t)) (int n - 0x10) False) (\<lambda>(e1, big).
                   andthen (c_int (e + (if esign then - e1 else e1))) (\<lambda>e. Inr (s', e, big, esign)))
      else Inr (s1, e, False, False))"

definition gethex_scan :: "hexdig_table \<Rightarrow> string \<Rightarrow> hexscan res" where
  "gethex_scan h t =
     andthen (hex_mantissa h t) (\<lambda>(s0, s1, e, zret, havedig).
     andthen (hex_pcheck h t s1 e) (\<lambda>(s, e, big, esign).
     Inr \<lparr>hs_sp = (if havedig then s else s0 - 1), hs_s0 = s0, hs_s1 = s1, hs_e = e,
          hs_big = big, hs_esign = esign, hs_zret = zret\<rparr>))"

subsection \<open>The words of the number\<close>

fun hex_size :: "int \<Rightarrow> int \<Rightarrow> int" where
  "hex_size n k = (if 7 < n then hex_size (n div 2) (k + 1) else k)"

declare hex_size.simps [simp del]

fun hex_words :: "hexdig_table \<Rightarrow> string \<Rightarrow> limb \<Rightarrow> nat \<Rightarrow> limb list" where
  \<comment> \<open>the digits from the last to the first, \<open>L\<close> and \<open>n\<close>\<close>
  "hex_words h [] L n = [L]"
| "hex_words h (c # cs) L n =
     (if c = CHR ''.'' then hex_words h cs L n
      else if n = 32 then L # hex_words h cs (of_nat (hexd h c AND 0xf)) 4
      else hex_words h cs (L OR push_bit n (of_nat (hexd h c AND 0xf))) (n + 4))"

definition gethex_number :: "hexdig_table \<Rightarrow> string \<Rightarrow> alloc \<Rightarrow> dtoa_state \<Rightarrow> hexscan \<Rightarrow> (dtoa_state \<times> nat \<times> int) res" where
  \<comment> \<open>the bignum, and the number of its bits\<close>
  "gethex_number h t A s r =
     andthen (Balloc A s (hex_size (int (hs_s1 r) - int (hs_s0 r) - 1) 0)) (\<lambda>(s, b).
     let ws = hex_words h (rev (take (hs_s1 r - hs_s0 r) (drop (hs_s0 r) t))) 0 0 in
     andthen (put_words s b ws 0 (int (length ws))) (\<lambda>s.
     Inr (s, b, 32 * int (length ws) - int (hi0bits (last ws)))))"

subsection \<open>Rounding to a double\<close>

definition Emax :: int where "Emax = 1023"
definition Emin :: int where "Emin = -1022"
definition Nbits :: int where "Nbits = 53"
definition Big0 :: limb where "Big0 = 0x7fefffff"
definition Big1 :: limb where "Big1 = 0xffffffff"
definition hex_emin :: int where "hex_emin = Emin - int P_bits + 1"

definition dbl_zero :: double where "dbl_zero = mk_double 0 0"
definition dbl_tiny :: double where "dbl_tiny = mk_double 0 1"
definition dbl_inf :: double where "dbl_inf = mk_double Exp_mask 0"
definition dbl_big :: double where "dbl_big = mk_double Big0 Big1"

datatype rounding = Round_zero | Round_near | Round_up | Round_down

definition gethex_big :: "rounding \<Rightarrow> bool \<Rightarrow> bool \<Rightarrow> double" where
  \<comment> \<open>the exponent is out of range\<close>
  "gethex_big rounding esign sign =
     (if esign then
        (case rounding of Round_up \<Rightarrow> if sign then dbl_zero else dbl_tiny
         | Round_down \<Rightarrow> if \<not> sign then dbl_zero else dbl_tiny
         | _ \<Rightarrow> dbl_zero)
      else
        (case rounding of Round_near \<Rightarrow> dbl_inf
         | Round_up \<Rightarrow> if \<not> sign then dbl_inf else dbl_big
         | Round_down \<Rightarrow> if sign then dbl_inf else dbl_big
         | Round_zero \<Rightarrow> dbl_big))"

definition bit_on :: "dtoa_state \<Rightarrow> nat \<Rightarrow> int \<Rightarrow> bool res" where
  \<comment> \<open>\<open>x[k>>kshift] & 1 << (k & kmask)\<close>\<close>
  "bit_on s b k =
     andthen (deref s b) (\<lambda>B. andthen (peek_word B (drop_bit 5 k)) (\<lambda>x. Inr (bit x (nat (k AND 31)))))"

definition gethex_normal :: "alloc \<Rightarrow> dtoa_state \<Rightarrow> nat \<Rightarrow> int \<Rightarrow> int \<Rightarrow> (dtoa_state \<times> nat \<times> int \<times> limb) res" where
  \<comment> \<open>to \<open>Nbits\<close> bits: the bignum, \<open>e\<close> and \<open>lostbits\<close>\<close>
  "gethex_normal A s b n e =
     (if Nbits < n then
        let n = n - Nbits; k = n - 1 in
        andthen (any_on s b n) (\<lambda>a.
        andthen (if a = 0 then Inr 0
                 else andthen (bit_on s b k) (\<lambda>on.
                      if \<not> on then Inr 1
                      else if 0 < k then andthen (any_on s b k) (\<lambda>a. Inr (if a \<noteq> 0 then 3 else 2))
                      else Inr 2)) (\<lambda>lostbits.
        andthen (rshift s b n) (\<lambda>s.
        andthen (c_int (e + n)) (\<lambda>e. Inr (s, b, e, lostbits)))))
      else if n < Nbits then
        let n = Nbits - n in
        andthen (lshift A s b n) (\<lambda>(s, b). andthen (c_int (e - n)) (\<lambda>e. Inr (s, b, e, 0)))
      else Inr (s, b, e, 0))"

definition gethex_round :: "alloc \<Rightarrow> dtoa_state \<Rightarrow> nat \<Rightarrow> int \<Rightarrow> limb \<Rightarrow> int \<Rightarrow> bool \<Rightarrow> rounding \<Rightarrow> bool \<Rightarrow>
    (dtoa_state \<times> nat \<times> int) res" where
  \<comment> \<open>round up if the lost bits ask for it; \<open>e\<close> above \<open>Emax\<close> is an overflow\<close>
  "gethex_round A s b e lostbits nbits denorm rounding sign =
     andthen (deref s b) (\<lambda>B.
     andthen (if lostbits = 0 then Inr False
              else case rounding of
                Round_zero \<Rightarrow> Inr False
              | Round_near \<Rightarrow>
                  if lostbits AND 2 \<noteq> 0
                  then andthen (peek_word B 0) (\<lambda>x. Inr ((lostbits AND 1) OR (x AND 1) \<noteq> 0)) else Inr False
              | Round_up \<Rightarrow> Inr (\<not> sign)
              | Round_down \<Rightarrow> Inr sign) (\<lambda>up.
     if \<not> up then Inr (s, b, e)
     else
       let k = bg_wds B in
       andthen (increment A s b) (\<lambda>(s, b).
       if denorm then Inr (s, b, e)
       else
         andthen (deref s b) (\<lambda>B.
         let n = nbits AND 31 in
         andthen (if k < bg_wds B then Inr True
                  else if n \<noteq> 0 then andthen (peek_word B (k - 1)) (\<lambda>x. Inr (int (hi0bits x) < 32 - n))
                  else Inr False) (\<lambda>carry.
         if carry then andthen (rshift s b 1) (\<lambda>s. andthen (c_int (e + 1)) (\<lambda>e. Inr (s, b, e)))
         else Inr (s, b, e))))))"

definition gethex_store :: "dtoa_state \<Rightarrow> nat \<Rightarrow> int \<Rightarrow> bool \<Rightarrow> (dtoa_state \<times> double) res" where
  "gethex_store s b e denorm =
     andthen (deref s b) (\<lambda>B.
     andthen (if denorm \<and> bg_wds B \<le> 1 then Inr 0 else andthen (peek_word B 1) (\<lambda>x. Inr (x AND NOT 0x100000))) (\<lambda>w0.
     let w0 = (if denorm then w0 else w0 OR word_of_int (push_bit 20 (e + 0x3ff + 52))) in
     andthen (peek_word B 0) (\<lambda>w1.
     andthen (Bfree s (Some b)) (\<lambda>s. Inr (s, mk_double w0 w1)))))"

definition gethex_denorm :: "dtoa_state \<Rightarrow> nat \<Rightarrow> int \<Rightarrow> limb \<Rightarrow> rounding \<Rightarrow> bool \<Rightarrow>
    (dtoa_state \<times> double + dtoa_state \<times> limb \<times> int) res" where
  \<comment> \<open>\<open>e < emin\<close>: the result, or the state, \<open>lostbits\<close> and \<open>nbits\<close> with which to go on\<close>
  "gethex_denorm s b e lostbits rounding sign =
     (let n = hex_emin - e; zero = andthen (Bfree s (Some b)) (\<lambda>s. Inr (Inl (s, dbl_zero))) in
      if Nbits \<le> n then
        (case rounding of
           Round_near \<Rightarrow>
             if n = Nbits then
               andthen (if n < 2 then Inr True else andthen (any_on s b (n - 1)) (\<lambda>a. Inr (a \<noteq> 0))) (\<lambda>tiny.
               if tiny then Inr (Inl (s, dbl_tiny)) else zero)
             else zero
         | Round_up \<Rightarrow> if \<not> sign then Inr (Inl (s, dbl_tiny)) else zero
         | Round_down \<Rightarrow> if sign then Inr (Inl (s, dbl_tiny)) else zero
         | Round_zero \<Rightarrow> zero)
      else
        let k = n - 1 in
        andthen (if lostbits \<noteq> 0 then Inr 1 else if 0 < k then any_on s b k else Inr 0) (\<lambda>lostbits.
        andthen (bit_on s b k) (\<lambda>on.
        let lostbits = (if on then lostbits OR 2 else lostbits) in
        andthen (rshift s b n) (\<lambda>s. Inr (Inr (s, lostbits, Nbits - n))))))"

definition gethex_value :: "alloc \<Rightarrow> dtoa_state \<Rightarrow> nat \<Rightarrow> int \<Rightarrow> limb \<Rightarrow> rounding \<Rightarrow> bool \<Rightarrow> (dtoa_state \<times> double) res" where
  \<comment> \<open>the double for a bignum of \<open>Nbits\<close> bits times \<open>2 ^ e\<close>\<close>
  "gethex_value A s b e lostbits rounding sign =
     (let ovfl = (\<lambda>s b. andthen (Bfree s (Some b)) (\<lambda>s. Inr (s, dbl_inf))) in
      if Emax < e then ovfl s b
      else
        andthen (if e < hex_emin then gethex_denorm s b e lostbits rounding sign else Inr (Inr (s, lostbits, Nbits))) (\<lambda>r.
        case r of
          Inl (s, d) \<Rightarrow> Inr (s, d)
        | Inr (s, lostbits, nbits) \<Rightarrow>
            let denorm = (e < hex_emin); e = (if denorm then hex_emin else e) in
            andthen (gethex_round A s b e lostbits nbits denorm rounding sign) (\<lambda>(s, b, e).
            if Emax < e then ovfl s b else gethex_store s b e denorm)))"

definition gethex :: "alloc \<Rightarrow> hexdig_table \<Rightarrow> dtoa_state \<Rightarrow> string \<Rightarrow> rounding \<Rightarrow> bool \<Rightarrow>
    (hexdig_table \<times> dtoa_state \<times> double \<times> nat) res" where
  \<comment> \<open>\<open>*sp\<close> points at \<open>0x\<close>; the value does not have the sign\<close>
  "gethex A h s t rounding sign =
     (let h = hexdig_ready h in
      andthen (gethex_scan h t) (\<lambda>r.
      andthen (if hs_zret r then Inr (s, dbl_zero)
               else if hs_big r then Inr (s, gethex_big rounding (hs_esign r) sign)
               else andthen (gethex_number h t A s r) (\<lambda>(s, b, n).
                    andthen (gethex_normal A s b n (hs_e r)) (\<lambda>(s, b, e, lostbits).
                    gethex_value A s b e lostbits rounding sign))) (\<lambda>(s, d).
      Inr (h, s, d, hs_sp r))))"

definition run_hex :: "string \<Rightarrow> (double \<times> nat) res" where
  "run_hex t = (case gethex (\<lambda>_. True) hexdig_zero dtoa_init t Round_near False of
      Inl e \<Rightarrow> Inl e | Inr (h, s, d, n) \<Rightarrow> Inr (d, n))"

section \<open>The table and the digits\<close>

abbreviation (input) hex_tab :: hexdig_table where "hex_tab \<equiv> hexdig_init hexdig_zero"

definition hexdig_ok :: "hexdig_table \<Rightarrow> bool" where
  \<comment> \<open>the states of \<open>hexdig\<close>: as the program starts, or filled\<close>
  "hexdig_ok h \<longleftrightarrow> h = hexdig_zero \<or> h = hex_tab"

lemma hexdig_ready_tab: "hexdig_ok h \<Longrightarrow> hexdig_ready h = hex_tab"
proof -
  have "hex_tab 48 = 16" by (simp add: hexdig_init_def)
  then show "hexdig_ok h \<Longrightarrow> hexdig_ready h = hex_tab" by (auto simp: hexdig_ok_def hexdig_ready_def)
qed

lemma hexd_tab: "hexd hex_tab c = (case digit_value c of Some d \<Rightarrow> if d < 16 then d + 16 else 0 | None \<Rightarrow> 0)"
proof -
  have "(of_char c :: nat) < 256" by (cases c) (simp add: of_char_def horner_sum_simps)
  then show ?thesis unfolding hexd_def by (subst hexdig_init_value) simp_all
qed

lemma hexd_digit [simp]: "(hexd hex_tab c = 0) = (\<not> is_digit_in 16 c)"
  by (auto simp: hexd_tab is_digit_in_def split: option.splits)

lemma hexd_value:
  assumes "is_digit_in 16 c"
  shows "unat (of_nat (hexd hex_tab c AND 0xf) :: limb) = the (digit_value c)" "the (digit_value c) < 16"
proof -
  obtain d where d: "digit_value c = Some d" "d < 16" using assms by (auto simp: is_digit_in_def split: option.splits)
  have "(d + 16) AND 0xf = d"
  proof -
    have "(0xf :: nat) = mask 4" by (simp add: mask_eq_exp_minus_1)
    then have "(d + 16) AND 0xf = (d + 16) mod 16" by (simp only: take_bit_eq_mask[symmetric] take_bit_eq_mod) simp
    then show ?thesis using d(2) by simp
  qed
  then have "hexd hex_tab c AND 0xf = d" using d by (simp add: hexd_tab)
  then show "unat (of_nat (hexd hex_tab c AND 0xf) :: limb) = the (digit_value c)" "the (digit_value c) < 16"
    using d by (simp_all add: unsigned_of_nat take_bit_eq_mod)
qed

lemma hex_digit_not_dot: "is_digit_in 16 c \<Longrightarrow> c \<noteq> CHR ''.''"
  by (auto simp: is_digit_in_def digit_value_def Let_def)

lemma hex_words_value:
  "list_all (is_digit_in 16) cs \<Longrightarrow> n \<le> 32 \<Longrightarrow> 4 dvd n \<Longrightarrow> unat L < 2 ^ n \<Longrightarrow>
   bval (hex_words hex_tab cs L n) = unat L + 2 ^ n * digits_value 16 (rev cs)"
proof (induction cs arbitrary: L n)
  case Nil
  then show ?case by (simp add: digits_value_def)
next
  case (Cons c cs)
  have c: "is_digit_in 16 c" "list_all (is_digit_in 16) cs" using Cons.prems(1) by simp_all
  let ?d = "the (digit_value c)" let ?w = "of_nat (hexd hex_tab c AND 0xf) :: limb"
  note d = hexd_value[OF c(1)] and nd = hex_digit_not_dot[OF c(1)]
  have v: "digits_value 16 (rev (c # cs)) = 16 * digits_value 16 (rev cs) + ?d" by (simp add: digits_value_snoc)
  show ?case
  proof (cases "n = 32")
    case True
    have "bval (hex_words hex_tab cs ?w 4) = unat ?w + 2 ^ 4 * digits_value 16 (rev cs)"
      by (rule Cons.IH[OF c(2)]) (use d in simp_all)
    then show ?thesis using True nd d(1) v by simp
  next
    case False
    then have n: "n + 4 \<le> 32" using Cons.prems(2,3) by (auto elim!: dvdE)
    have s: "unat ?w * 2 ^ n < 2 ^ (n + 4)" using d by (simp add: power_add mult.commute)
    have "(2::nat) ^ (n + 4) \<le> 2 ^ 32" using n by (intro power_increasing) simp_all
    then have m: "unat ?w * 2 ^ n mod 4294967296 = unat ?w * 2 ^ n" using s by simp
    have u: "unat (L OR push_bit n ?w) = unat L + 2 ^ n * ?d"
      using unat_push_or[OF Cons.prems(4), of ?w] m d(1) Cons.prems(2) by (simp add: or.commute)
    have "unat L + 2 ^ n * ?d < 2 ^ (n + 4)"
    proof -
      have "2 ^ n * ?d + 2 ^ n \<le> 2 ^ n * 16"
        using mult_le_mono2[of "?d + 1" 16 "2 ^ n"] d(2) unfolding distrib_left by simp
      moreover have "(2::nat) ^ (n + 4) = 2 ^ n * 16" by (simp add: power_add)
      ultimately show ?thesis using Cons.prems(4) by linarith
    qed
    then have "bval (hex_words hex_tab cs (L OR push_bit n ?w) (n + 4)) = unat L + 2 ^ n * ?d + 2 ^ (n + 4) * digits_value 16 (rev cs)"
      using Cons.IH[OF c(2) n, of "L OR push_bit n ?w"] Cons.prems(3) u by simp
    then show ?thesis using False nd v by (simp add: power_add algebra_simps)
  qed
qed

lemma hex_words_length:
  "list_all (is_digit_in 16) cs \<Longrightarrow> n \<le> 32 \<Longrightarrow> 4 dvd n \<Longrightarrow>
   length (hex_words hex_tab cs L n) = 1 \<or> 32 * length (hex_words hex_tab cs L n) < n + 4 * length cs + 32"
proof (induction cs arbitrary: L n)
  case (Cons c cs)
  have c: "list_all (is_digit_in 16) cs" "c \<noteq> CHR ''.''" using Cons.prems(1) hex_digit_not_dot by auto
  show ?case
  proof (cases "n = 32")
    case True
    then show ?thesis using Cons.IH[OF c(1), of 4 "of_nat (hexd hex_tab c AND 0xf)"] c(2) by auto
  next
    case False
    then have "n + 4 \<le> 32" using Cons.prems(2,3) by (auto elim!: dvdE)
    then show ?thesis using Cons.IH[OF c(1), of "n + 4" "L OR push_bit n (of_nat (hexd hex_tab c AND 0xf))"] False c(2) Cons.prems(3)
      by auto
  qed
qed simp

lemma hex_words_nonempty: "hex_words h cs L n \<noteq> []"
  by (induction h cs L n rule: hex_words.induct) auto

lemma hex_size_small: "0 \<le> n \<Longrightarrow> n \<le> 15 \<Longrightarrow> hex_size n 0 = (if 7 < n then 1 else 0)"
proof -
  assume n: "0 \<le> n" "n \<le> 15"
  then have "\<not> 7 < n div 2" by linarith
  then show ?thesis by (simp add: hex_size.simps[of n 0] hex_size.simps[of "n div 2" 1])
qed

lemma digits_value_ge:
  "ds \<noteq> [] \<Longrightarrow> the (digit_value (hd ds)) \<noteq> 0 \<Longrightarrow> 16 ^ (length ds - 1) \<le> digits_value 16 ds"
proof (induction ds rule: rev_induct)
  case (snoc c ds)
  show ?case
  proof (cases "ds = []")
    case True
    then show ?thesis using snoc by (simp add: digits_value_def)
  next
    case False
    then have "16 * 16 ^ (length ds - 1) \<le> 16 * digits_value 16 ds" using snoc by (intro mult_le_mono2) simp
    moreover have "(16::nat) * 16 ^ (length ds - 1) = 16 ^ length ds"
      using False by (cases ds) simp_all
    ultimately show ?thesis by (simp add: digits_value_snoc)
  qed
qed simp


section \<open>Numbers that fit in a double\<close>

lemma takeWhile_all: "list_all p xs \<Longrightarrow> ys = [] \<or> \<not> p (hd ys) \<Longrightarrow> takeWhile p (xs @ ys) = xs"
  by (intro takeWhile_stop) (auto simp: list_all_iff)

definition hex_end :: "string \<Rightarrow> bool" where
  \<comment> \<open>what may follow an integer without changing how it is read\<close>
  "hex_end rest \<longleftrightarrow> rest = [] \<or> \<not> is_digit_in 16 (hd rest) \<and> hd rest \<notin> {CHR ''.'', CHR ''p'', CHR ''P''}"

lemma hex_at_end: "hex_end rest \<Longrightarrow> ch_at (xs @ rest) (length xs) \<notin> {CHR ''.'', CHR ''p'', CHR ''P''}"
  by (cases rest) (auto simp: hex_end_def ch_at_def nth_append)

lemma hex_mantissa_int:
  assumes t: "t = ''0x'' @ replicate z (CHR ''0'') @ ds @ rest" and ds: "list_all (is_digit_in 16) ds" "ds \<noteq> []" "hd ds \<noteq> CHR ''0''"
    and rest: "rest = [] \<or> \<not> is_digit_in 16 (hd rest) \<and> hd rest \<noteq> CHR ''.''"
  shows "hex_mantissa hex_tab t = Inr (2 + z, 2 + z + length ds, 0, False, True)"
proof -
  have s0: "skip_while (\<lambda>c. c = CHR ''0'') t 2 = 2 + z"
  proof -
    have "takeWhile (\<lambda>c. c = CHR ''0'') (replicate z (CHR ''0'') @ ds @ rest) = replicate z (CHR ''0'')"
      using ds(2,3) by (intro takeWhile_all) (auto simp: list_all_iff)
    then show ?thesis by (simp add: skip_while_def t)
  qed
  obtain d ds' where d: "ds = d # ds'" using ds(2) by (cases ds) auto
  have a0: "ch_at t (2 + z) = d" by (simp add: t d ch_at_def nth_append)
  have tw: "takeWhile (is_digit_in 16) (ds @ rest) = ds"
    using rest ds(1) by (intro takeWhile_all) auto
  have dr: "drop (2 + z) t = ds @ rest" by (simp add: t)
  have s1: "skip_while (\<lambda>c. hexd hex_tab c \<noteq> 0) t (2 + z) = 2 + z + length ds"
    unfolding skip_while_def dr using tw by simp
  have a1: "ch_at t (2 + z + length ds) \<noteq> CHR ''.''"
    using rest by (cases rest) (auto simp: t ch_at_def nth_append)
  show ?thesis using s0 a0 s1 a1 ds(1) d by (simp add: hex_mantissa_def Let_def)
qed

lemma gethex_scan_int:
  assumes t: "t = ''0x'' @ replicate z (CHR ''0'') @ ds @ rest" and ds: "list_all (is_digit_in 16) ds" "ds \<noteq> []" "hd ds \<noteq> CHR ''0''"
    and rest: "hex_end rest"
  shows "gethex_scan hex_tab t = Inr \<lparr>hs_sp = 2 + z + length ds, hs_s0 = 2 + z, hs_s1 = 2 + z + length ds,
      hs_e = 0, hs_big = False, hs_esign = False, hs_zret = False\<rparr>"
proof -
  have a1: "ch_at t (2 + z + length ds) \<notin> {CHR ''.'', CHR ''p'', CHR ''P''}"
    using hex_at_end[OF rest, of "''0x'' @ replicate z (CHR ''0'') @ ds"] by (simp add: t)
  have "hex_mantissa hex_tab t = Inr (2 + z, 2 + z + length ds, 0, False, True)"
    using rest by (intro hex_mantissa_int[OF t ds]) (auto simp: hex_end_def)
  then show ?thesis using a1 by (simp add: gethex_scan_def hex_pcheck_def)
qed

subsection \<open>Exponents\<close>

lemma hexd_decimal: "hexd hex_tab c \<noteq> 0 \<and> hexd hex_tab c \<le> 0x19 \<longleftrightarrow> is_digit_in 10 c"
  by (auto simp: hexd_tab is_digit_in_def split: option.splits)

lemma hexd_decimal_value: "is_digit_in 10 c \<Longrightarrow> hexd hex_tab c = the (digit_value c) + 16"
  by (auto simp: hexd_tab is_digit_in_def split: option.splits)

lemma digits_value_Cons:
  "digits_value b (c # cs) = the (digit_value c) * b ^ length cs + digits_value b cs"
  using digits_value_app[of b "[c]" cs] by (simp add: digits_value_def)

lemma exponent_not_big: "0 \<le> x \<Longrightarrow> x < 134217728 \<Longrightarrow> x AND 0xf8000000 = (0::int)"
proof -
  assume x: "0 \<le> x" "x < 134217728"
  have m: "(0xf8000000::int) = push_bit 27 31" by (simp add: push_bit_eq_mult)
  have "take_bit 27 x AND 0xf8000000 = 0"
    unfolding m by (rule bit_eqI) (simp only: bit_and_iff bit_take_bit_iff bit_push_bit_iff bit_0, auto)
  then show ?thesis using x by (simp add: take_bit_int_eq_self)
qed

text \<open>An exponent below \<open>2 ^ 27\<close> is read exactly; one within 16 of the \<open>int\<close> range overflows it.\<close>

lemma hex_exponent_value:
  "list_all (is_digit_in 10) cs \<Longrightarrow> 0 \<le> e1 \<Longrightarrow> e1 * 10 ^ length cs + int (digits_value 10 cs) < 134217728 \<Longrightarrow>
     hex_exponent hex_tab cs e1 False = Inr (e1 * 10 ^ length cs + int (digits_value 10 cs), False)"
proof (induction cs arbitrary: e1)
  case Nil
  then show ?case by (simp add: digits_value_def)
next
  case (Cons c cs)
  let ?d = "the (digit_value c)" and ?p = "10 ^ length cs :: int"
  have c: "is_digit_in 10 c" "list_all (is_digit_in 10) cs" using Cons.prems(1) by simp_all
  have v: "e1 * 10 ^ length (c # cs) + int (digits_value 10 (c # cs))
      = (10 * e1 + int ?d) * ?p + int (digits_value 10 cs)"
    unfolding digits_value_Cons by (simp add: algebra_simps)
  have p: "1 \<le> ?p" by simp
  have "10 * e1 + int ?d \<le> (10 * e1 + int ?d) * ?p"
    using mult_left_mono[OF p, of "10 * e1 + int ?d"] Cons.prems(2) by simp
  then have small: "10 * e1 + int ?d < 134217728" using Cons.prems(3) v by linarith
  have ok: "int_ok (10 * e1)" "int_ok (10 * e1 + int (?d + 16))" "int_ok (10 * e1 + int ?d)"
    using small Cons.prems(2) by (auto simp: int_ok_iff)
  have nb: "e1 AND 0xf8000000 = 0" using small Cons.prems(2) by (intro exponent_not_big) linarith+
  have "hex_exponent hex_tab cs (10 * e1 + int ?d) False
      = Inr ((10 * e1 + int ?d) * ?p + int (digits_value 10 cs), False)"
    by (rule Cons.IH[OF c(2)]) (use Cons.prems(2,3) v in simp_all)
  then show ?case unfolding v using ok nb by (simp add: hexd_decimal_value[OF c(1)] add.assoc)
qed

lemma hex_exponent_overflow:
  "list_all (is_digit_in 10) cs \<Longrightarrow> cs \<noteq> [] \<Longrightarrow> 0 \<le> e1 \<Longrightarrow> int_ok e1 \<Longrightarrow>
   2147483632 \<le> e1 * 10 ^ length cs + int (digits_value 10 cs) \<Longrightarrow>
     hex_exponent hex_tab cs e1 over = Inl (UB Signed_overflow)"
proof (induction cs arbitrary: e1 over)
  case (Cons c cs)
  let ?d = "the (digit_value c)" and ?p = "10 ^ length cs :: int"
  have c: "is_digit_in 10 c" "list_all (is_digit_in 10) cs" using Cons.prems(1) by simp_all
  have v: "e1 * 10 ^ length (c # cs) + int (digits_value 10 (c # cs))
      = (10 * e1 + int ?d) * ?p + int (digits_value 10 cs)"
    unfolding digits_value_Cons by (simp add: algebra_simps)
  show ?case
  proof (cases "int_ok (10 * e1) \<and> int_ok (10 * e1 + int (?d + 16))")
    case False
    then show ?thesis by (auto simp: hexd_decimal_value[OF c(1)] c_int_def Let_def)
  next
    case True
    then have ok: "int_ok (10 * e1 + int ?d)" "10 * e1 + int ?d < 2147483632"
      using Cons.prems(3) by (auto simp: int_ok_iff)
    then have "cs \<noteq> []" using Cons.prems(5) v by (auto simp: digits_value_def)
    then have "hex_exponent hex_tab cs (10 * e1 + int ?d) over' = Inl (UB Signed_overflow)" for over'
      by (rule Cons.IH[OF c(2)]) (use Cons.prems(3,5) v ok in simp_all)
    then show ?thesis using True ok by (simp add: hexd_decimal_value[OF c(1)] Let_def add.assoc)
  qed
qed simp

definition dec_end :: "string \<Rightarrow> bool" where
  \<comment> \<open>what may follow an exponent\<close>
  "dec_end rest \<longleftrightarrow> rest = [] \<or> \<not> is_digit_in 10 (hd rest)"

lemma hex_pcheck_exponent:
  assumes t: "t = pre @ c # es @ rest" "c = CHR ''p'' \<or> c = CHR ''P''"
    and es: "list_all (is_digit_in 10) es" "es \<noteq> []" and rest: "dec_end rest"
  shows "hex_pcheck hex_tab t (length pre) 0 =
    andthen (hex_exponent hex_tab (tl es) (int (the (digit_value (hd es)))) False) (\<lambda>(e1, big).
      andthen (c_int e1) (\<lambda>e. Inr (length pre + 1 + length es, e, big, False)))"
proof -
  obtain d es' where d: "es = d # es'" using es(2) by (cases es) auto
  then have d10: "is_digit_in 10 d" "list_all (is_digit_in 10) es'" using es(1) by simp_all
  have nd: "d \<noteq> CHR ''-''" "d \<noteq> CHR ''+''" using d10(1) by (auto simp: is_digit_in_def digit_value_def Let_def)
  have a: "ch_at t (length pre) = c" "ch_at t (Suc (length pre)) = d"
    by (simp_all add: t(1) d ch_at_def nth_append)
  have dr: "drop (Suc (Suc (length pre))) t = es' @ rest" by (simp add: t(1) d)
  have "takeWhile (is_digit_in 10) (es' @ rest) = es'"
    using rest d10(2) by (intro takeWhile_all) (auto simp: dec_end_def)
  then have sk: "skip_while (\<lambda>c. hexd hex_tab c \<noteq> 0 \<and> hexd hex_tab c \<le> 0x19) t (Suc (Suc (length pre)))
      = Suc (Suc (length pre)) + length es'"
    unfolding skip_while_def dr hexd_decimal by simp
  have hv: "hexd hex_tab d = the (digit_value d) + 16" "hexd hex_tab d \<le> 0x19" "hexd hex_tab d \<noteq> 0"
    using hexd_decimal_value[OF d10(1)] hexd_decimal[of d] d10(1) by simp_all
  show ?thesis
    unfolding hex_pcheck_def a(1) if_P[OF t(2)] Let_def Suc_eq_plus1[symmetric] a(2)
    using nd hv sk[unfolded Suc_eq_plus1[symmetric]] dr a(2) d
    by (simp del: hexd_digit)
qed

lemma gethex_scan_exponent:
  assumes t: "t = ''0x'' @ replicate z (CHR ''0'') @ ds @ c # es @ rest" "c = CHR ''p'' \<or> c = CHR ''P''"
    and ds: "list_all (is_digit_in 16) ds" "ds \<noteq> []" "hd ds \<noteq> CHR ''0''"
    and es: "list_all (is_digit_in 10) es" "es \<noteq> []" and rest: "dec_end rest"
  shows "digits_value 10 es < 134217728 \<Longrightarrow> gethex_scan hex_tab t =
      Inr \<lparr>hs_sp = 3 + z + length ds + length es, hs_s0 = 2 + z, hs_s1 = 2 + z + length ds,
        hs_e = int (digits_value 10 es), hs_big = False, hs_esign = False, hs_zret = False\<rparr>"
    and "2147483632 \<le> digits_value 10 es \<Longrightarrow> gethex_scan hex_tab t = Inl (UB Signed_overflow)"
proof -
  have c: "\<not> is_digit_in 16 c" "c \<noteq> CHR ''.''" using t(2) by (auto simp: is_digit_in_def digit_value_def Let_def)
  have "hex_mantissa hex_tab t = Inr (2 + z, 2 + z + length ds, 0, False, True)"
    by (rule hex_mantissa_int[where rest = "c # es @ rest"]) (use t ds c in simp_all)
  moreover have "hex_pcheck hex_tab t (2 + z + length ds) 0 =
    andthen (hex_exponent hex_tab (tl es) (int (the (digit_value (hd es)))) False) (\<lambda>(e1, big).
      andthen (c_int e1) (\<lambda>e. Inr (3 + z + length ds + length es, e, big, False)))"
    using hex_pcheck_exponent[of t "''0x'' @ replicate z (CHR ''0'') @ ds" c es rest] t es rest
    by (simp add: numeral_3_eq_3)
  ultimately have run: "gethex_scan hex_tab t =
    andthen (hex_exponent hex_tab (tl es) (int (the (digit_value (hd es)))) False) (\<lambda>(e1, big).
      andthen (c_int e1) (\<lambda>e. Inr \<lparr>hs_sp = 3 + z + length ds + length es, hs_s0 = 2 + z,
        hs_s1 = 2 + z + length ds, hs_e = e, hs_big = big, hs_esign = False, hs_zret = False\<rparr>))"
    by (simp add: gethex_scan_def andthen_assoc case_prod_unfold)
  obtain d es' where d: "es = d # es'" using es(2) by (cases es) auto
  then have d10: "is_digit_in 10 d" "list_all (is_digit_in 10) es'" using es(1) by simp_all
  have v: "int (the (digit_value d)) * 10 ^ length es' + int (digits_value 10 es') = int (digits_value 10 es)"
    unfolding d digits_value_Cons by simp
  have dv: "the (digit_value d) < 10" using digit_sc[OF d10(1)] by simp
  show "digits_value 10 es < 134217728 \<Longrightarrow> gethex_scan hex_tab t =
      Inr \<lparr>hs_sp = 3 + z + length ds + length es, hs_s0 = 2 + z, hs_s1 = 2 + z + length ds,
        hs_e = int (digits_value 10 es), hs_big = False, hs_esign = False, hs_zret = False\<rparr>"
    using hex_exponent_value[OF d10(2), of "int (the (digit_value d))"] v
    unfolding run by (simp add: d int_ok_iff)
  assume big: "2147483632 \<le> digits_value 10 es"
  then have "es' \<noteq> []" using dv by (auto simp: d digits_value_def)
  then have "hex_exponent hex_tab es' (int (the (digit_value d))) False = Inl (UB Signed_overflow)"
    by (rule hex_exponent_overflow[OF d10(2)]) (use dv v big in \<open>simp_all add: int_ok_iff\<close>)
  then show "gethex_scan hex_tab t = Inl (UB Signed_overflow)" unfolding run by (simp add: d)
qed

text \<open>
  Storing a normal number. The exponent field has room up to \<open>e = 971\<close>; from there to \<open>Emax\<close>, the
  bound that is tested, it runs over into the sign.
\<close>

lemma gethex_store_fields:
  assumes ok: "dt_ok s L" and b: "b \<in> L" "big_at s b k m" and m: "2 ^ 52 \<le> m" "m < 2 ^ 53"
    and e: "hex_emin \<le> e" "e \<le> Emax"
  shows "\<exists>s' d. gethex_store s b e False = Inr (s', d) \<and> dt_ok s' (L - {b}) \<and> same (L - {b}) s s'
    \<and> (dbl_sign d \<longleftrightarrow> 2048 \<le> e + 1075) \<and> dbl_exp d = nat (e + 1075) mod 2048 \<and> dbl_frac d + 2 ^ 52 = m"
proof -
  obtain B where B: "dt_heap s b = Some B" "big k B m" using b(2) by (auto simp: big_at_def)
  have w: "1 \<le> bg_wds B" "bg_wds B = 2"
  proof -
    show w1: "1 \<le> bg_wds B" using big_words(1)[OF B(2)] m(1) by simp
    have "m < 4294967296 ^ nat (bg_wds B)" using big_bounds(1)[OF B(2)] w1 by (simp add: max_def split: if_splits)
    then have "\<not> nat (bg_wds B) \<le> 1" using m(1) by (auto simp: le_Suc_eq)
    moreover have "\<not> 2 < bg_wds B"
    proof
      assume "2 < bg_wds B"
      then have "(4294967296::nat) ^ 2 \<le> 4294967296 ^ nat (bg_wds B - 1)" by (intro power_increasing) simp_all
      then show False using big_bounds(2)[OF B(2)] \<open>2 < bg_wds B\<close> m(2) by simp
    qed
    ultimately show "bg_wds B = 2" by simp
  qed
  obtain xs where xs: "peek_words B 2 = Inr xs" "bval xs = m" "length xs = 2"
    using big_words(2)[OF B(2)] m(1) w by auto
  then obtain x0 x1 where x: "xs = [x0, x1]" by (auto simp: length_Suc_conv numeral_2_eq_2)
  have tk: "2 \<le> length (bg_x B)" "take 2 (bg_x B) = [Some x0, Some x1]" using xs(1) unfolding x peek_iff by simp_all
  then obtain r where "bg_x B = Some x0 # Some x1 # r" by (cases "bg_x B"; cases "tl (bg_x B)") auto
  then have pk: "peek_word B 0 = Inr x0" "peek_word B 1 = Inr x1" by (simp_all add: peek_word_def)
  have v: "m = unat x0 + 4294967296 * unat x1" using xs(2) by (simp add: x)
  have "4503599627370496 \<le> m" "m < 9007199254740992" using m by simp_all
  then have x1: "1048576 \<le> unat x1" "unat x1 < 2097152" using v unat_limb[of x0] by linarith+
  define f where "f = nat (e + 1075)"
  have f: "int f = e + 1075" "1 \<le> f" "f \<le> 2098" using e by (auto simp: f_def hex_emin_def Emin_def P_bits_def Emax_def)
  let ?w0 = "(x1 AND NOT 0x100000) OR word_of_int (push_bit 20 (e + 0x3ff + 52))"
  have lowx: "x1 AND NOT 0x100000 = take_bit 20 x1"
  proof -
    have "x1 AND NOT 0x100000 = (push_bit 20 1 OR take_bit 20 x1) AND NOT 0x100000"
      by (rule arg_cong[OF implicit_bit(3)[OF x1]])
    also have "\<dots> = take_bit 20 x1 AND NOT (push_bit 20 1)" by (simp add: bit.conj_disj_distrib2 push_bit_eq_mult)
    also have "\<dots> = take_bit 20 x1"
      by (rule bit_word_eqI) (simp only: bit_and_iff bit_not_iff bit_take_bit_iff bit_push_bit_iff possible_bit_word, auto)
    finally show ?thesis .
  qed
  note t20 = implicit_bit(2,1)[OF x1]
  have wf: "word_of_int (push_bit 20 (e + 0x3ff + 52)) = (push_bit 20 (of_nat f) :: limb)"
  proof -
    have "e + 0x3ff + 52 = int f" using f(1) by simp
    then show ?thesis unfolding push_bit_eq_mult by (simp only: of_int_mult of_int_of_nat_eq of_int_power of_int_numeral)
  qed
  have w0: "unat ?w0 = f * 1048576 + (unat x1 - 1048576)"
  proof -
    have "unat (of_nat f :: limb) = f" using f(3) by (simp add: unsigned_of_nat take_bit_eq_mod)
    then show ?thesis unfolding lowx wf using unat_push_or[OF t20(1), of "of_nat f"] t20(2) f(3) by (simp add: or.commute)
  qed
  have q: "unat ?w0 div 1048576 = f" "unat ?w0 mod 1048576 = unat x1 - 1048576"
    using div_mod_is[OF w0] x1 by simp_all
  let ?d = "mk_double ?w0 x0"
  have "dbl_sign ?d \<longleftrightarrow> 2048 \<le> e + 1075" unfolding mk_double_fields w0 using f(1) x1 by linarith
  moreover have "dbl_exp ?d = f mod 2048" unfolding mk_double_fields q(1) ..
  moreover have "dbl_frac ?d + 2 ^ 52 = m"
    unfolding mk_double_fields q(2) using x1(1) v by (simp add: algebra_simps)
  moreover obtain s' where s': "Bfree s (Some b) = Inr s'" "dt_ok s' (L - {b})" "same (L - {b}) s s'"
    using Bfree_spec[OF ok b(1)] by blast
  moreover have "gethex_store s b e False = Inr (s', ?d)"
    using B(1) s'(1) pk by (simp add: gethex_store_def deref_def)
  ultimately show ?thesis unfolding f_def by blast
qed

lemma gethex_normal_spec:
  assumes o: "owned s L 1 v (s1, b)" and v: "0 < v" "v < 2 ^ nat n" "2 ^ nat n \<le> 2 * v" "0 < n" "n \<le> 53"
    and e0: "0 \<le> e0" "e0 < 2 ^ 31"
  shows "wpr (alloc_err A) (\<lambda>(s2, b2, e, lostbits). owned s L 2 (v * 2 ^ nat (53 - n)) (s2, b2) \<and> e = e0 + n - 53 \<and> lostbits = (0 :: limb))
     (gethex_normal A s1 b n e0)"
proof (cases "n = 53")
  case True
  then show ?thesis using o by (auto simp: gethex_normal_def Nbits_def owned_def intro: big_at_mono)
next
  case False
  then have n: "n < 53" using v(5) by simp
  have o': "dt_ok s1 (insert b L)" "big_at s1 b 1 v" using o by (auto simp: owned_def)
  have K: "(53 - n) div 32 + 2 ^ nat 1 + 1 \<le> 2 ^ nat 2" using n v(4) by simp
  have k: "0 \<le> 53 - n" "1 \<le> (2::int)" "(2::int) \<le> 30" using n by simp_all
  have run: "gethex_normal A s1 b n e0 = andthen (lshift A s1 b (53 - n)) (\<lambda>(s, b). andthen (c_int (e0 - (53 - n))) (\<lambda>e. Inr (s, b, e, 0)))"
    using n by (simp add: gethex_normal_def Nbits_def Let_def)
  show ?thesis unfolding run wpr_andthen[of _ _ "lshift A s1 b (53 - n)"]
  proof (rule wpr_mono[OF lshift_spec[OF o'(1) insertI1 o'(2) v(1) k K]])
    fix r assume "becomes s1 (insert b L) b 2 (v * 2 ^ nat (53 - n)) r"
    then have "owned s L 2 (v * 2 ^ nat (53 - n)) r" by (rule owned_becomes[OF o])
    then show "wpr (alloc_err A) (\<lambda>(s2, b2, e, lostbits). owned s L 2 (v * 2 ^ nat (53 - n)) (s2, b2) \<and> e = e0 + n - 53 \<and> lostbits = (0 :: limb))
        (case r of (s, b) \<Rightarrow> andthen (c_int (e0 - (53 - n))) (\<lambda>e. Inr (s, b, e, 0)))"
      using n v(4) e0 by (cases r) (simp add: int_ok_iff)
  qed simp
qed

text \<open>What the value of a 53-bit number times \<open>2 ^ e\<close> is taken to be, by its biased exponent.\<close>

definition hex_reads :: "nat \<Rightarrow> nat \<Rightarrow> double \<Rightarrow> bool" where
  "hex_reads m q d \<longleftrightarrow>
     (if q \<le> 2046 then \<not> dbl_sign d \<and> dbl_exp d = q \<and> dbl_mant d = m
      else if q = 2047 then \<not> dbl_sign d \<and> (if m = 2 ^ 52 then isinf d else isnan d)
      else if q \<le> 2098 then dbl_sign d \<and> dbl_exp d = q - 2048 \<and> dbl_frac d + 2 ^ 52 = m
      else d = dbl_inf)"

lemma gethex_value_spec:
  assumes o: "owned s L k m (s1, b)" and m: "2 ^ 52 \<le> m" "m < 2 ^ 53" and e: "hex_emin \<le> e"
  shows "\<exists>s' d. gethex_value A s1 b e 0 rounding sign = Inr (s', d) \<and> dt_ok s' L \<and> same L s s'
    \<and> hex_reads m (nat (e + 1075)) d"
proof -
  have o': "dt_ok s1 (insert b L)" "big_at s1 b k m" "b \<notin> L" "same L s s1" using o by (auto simp: owned_def)
  have L: "insert b L - {b} = L" using o'(3) by auto
  obtain B where B: "deref s1 b = Inr B" using dt_ok_deref[OF o'(1), of b] by auto
  have rnd: "gethex_round A s1 b e 0 Nbits False rounding sign = Inr (s1, b, e)" by (simp add: gethex_round_def B)
  show ?thesis
  proof (cases "e \<le> Emax")
    case True
    obtain s' d where r: "gethex_store s1 b e False = Inr (s', d)" "dt_ok s' (insert b L - {b})" "same (insert b L - {b}) s1 s'"
      "dbl_sign d \<longleftrightarrow> 2048 \<le> e + 1075" "dbl_exp d = nat (e + 1075) mod 2048" "dbl_frac d + 2 ^ 52 = m"
      using gethex_store_fields[OF o'(1) insertI1 o'(2) m e True] by blast
    have q: "1 \<le> nat (e + 1075)" "nat (e + 1075) \<le> 2098" "2048 \<le> e + 1075 \<longleftrightarrow> 2048 \<le> nat (e + 1075)"
      using e True by (auto simp: hex_emin_def Emin_def P_bits_def Emax_def)
    have "hex_reads m (nat (e + 1075)) d"
    proof (cases "nat (e + 1075) \<le> 2046")
      case True
      then show ?thesis using r(4-6) q by (auto simp: hex_reads_def dbl_mant_def)
    next
      case False
      then show ?thesis using r(4-6) q
        by (auto simp: hex_reads_def isinf_def isnan_def mod_if[of "nat (e + 1075)"])
    qed
    moreover have "gethex_value A s1 b e 0 rounding sign = Inr (s', d)"
      using e True r(1) rnd by (simp add: gethex_value_def Let_def)
    ultimately show ?thesis using r(2,3) same_trans[OF o'(4)] unfolding L by auto
  next
    case False
    obtain s' where s': "Bfree s1 (Some b) = Inr s'" "dt_ok s' (insert b L - {b})" "same (insert b L - {b}) s1 s'"
      using Bfree_spec[OF o'(1) insertI1] by blast
    have "2098 < nat (e + 1075)" using False by (simp add: Emax_def)
    then have "hex_reads m (nat (e + 1075)) dbl_inf" by (simp add: hex_reads_def)
    moreover have "gethex_value A s1 b e 0 rounding sign = Inr (s', dbl_inf)"
      using False s'(1) by (simp add: gethex_value_def Let_def)
    ultimately show ?thesis using s'(2,3) same_trans[OF o'(4)] unfolding L by auto
  qed
qed

lemma hex_words_bits:
  assumes ds: "list_all (is_digit_in 16) ds" "ds \<noteq> []" "hd ds \<noteq> CHR ''0''"
  defines "ws \<equiv> hex_words hex_tab (rev ds) 0 0" and "v \<equiv> digits_value 16 ds"
  shows "bval ws = v" "last ws \<noteq> 0" "0 < v" "4294967296 ^ (length ws - 1) \<le> v" "16 ^ (length ds - 1) \<le> v"
    "32 * length ws < 4 * length ds + 32"
proof -
  have "is_digit_in 16 (hd ds)" using ds(1,2) by (cases ds) auto
  moreover have "is_digit_in 16 c \<Longrightarrow> c \<noteq> CHR ''0'' \<Longrightarrow> the (digit_value c) \<noteq> 0" for c
  proof -
    have "\<forall>c. is_digit_in 16 c \<longrightarrow> c \<noteq> CHR ''0'' \<longrightarrow> the (digit_value c) \<noteq> 0" by code_simp
    then show "is_digit_in 16 c \<Longrightarrow> c \<noteq> CHR ''0'' \<Longrightarrow> the (digit_value c) \<noteq> 0" by blast
  qed
  ultimately have "the (digit_value (hd ds)) \<noteq> 0" using ds(3) by blast
  from digits_value_ge[OF ds(2) this] show ge: "16 ^ (length ds - 1) \<le> v" by (simp add: v_def)
  then show pos: "0 < v" by (rule order_less_le_trans[rotated]) simp
  show bv: "bval ws = v" using hex_words_value[of "rev ds" 0 0] ds(1) by (simp add: ws_def v_def list_all_rev)
  have l0: "0 < length ds" using ds(2) by simp
  have "length ws = 1 \<or> 32 * length ws < 0 + 4 * length (rev ds) + 32"
    unfolding ws_def by (rule hex_words_length) (use ds(1) in \<open>simp_all add: list_all_rev\<close>)
  then show len: "32 * length ws < 4 * length ds + 32" using l0 by auto
  have "(4294967296::nat) ^ (length ws - 1) = 16 ^ (8 * (length ws - 1))" by (simp add: power_mult)
  also have "\<dots> \<le> 16 ^ (length ds - 1)" by (rule power_increasing) (use len l0 in auto)
  finally show norm: "4294967296 ^ (length ws - 1) \<le> v" using ge by simp
  show "last ws \<noteq> 0"
  proof
    assume z: "last ws = 0"
    have "ws \<noteq> []" unfolding ws_def by (rule hex_words_nonempty)
    from bval_last(2)[OF this] show False using z bv norm by simp
  qed
qed

lemma gethex_number_spec:
  assumes ok: "dt_ok s L" and ds: "list_all (is_digit_in 16) ds" "ds \<noteq> []" "hd ds \<noteq> CHR ''0''" "digits_value 16 ds < 2 ^ 53"
    and r: "take (hs_s1 r - hs_s0 r) (drop (hs_s0 r) t) = ds" "hs_s1 r = hs_s0 r + length ds"
  shows "wpr (alloc_err A) (\<lambda>(s', b, n). owned s L 1 (digits_value 16 ds) (s', b) \<and> 0 < n \<and> n \<le> 53
      \<and> digits_value 16 ds < 2 ^ nat n \<and> 2 ^ nat n \<le> 2 * digits_value 16 ds)
    (gethex_number hex_tab t A s r)"
proof -
  let ?v = "digits_value 16 ds" let ?ws = "hex_words hex_tab (rev ds) 0 0" let ?n = "32 * int (length ?ws) - int (hi0bits (last ?ws))"
  note w = hex_words_bits[OF ds(1-3)]
  have l0: "0 < length ds" using ds(2) by simp
  have d14: "length ds \<le> 14"
  proof (rule ccontr)
    assume "\<not> length ds \<le> 14"
    then have "(16::nat) ^ 14 \<le> 16 ^ (length ds - 1)" by (intro power_increasing) simp_all
    then show False using w(5) ds(4) by simp
  qed
  define k where "k = hex_size (int (length ds) - 1) 0"
  have k: "k = (if 8 < length ds then 1 else 0)" unfolding k_def using hex_size_small[of "int (length ds) - 1"] l0 d14 by simp
  have ne: "?ws \<noteq> []" by (rule hex_words_nonempty)
  then have w1: "1 \<le> length ?ws" by (simp add: Suc_le_eq)
  let ?l = "32 * (length ?ws - 1) + (32 - hi0bits (last ?ws))"
  note lb = leading_bits[OF ne w(2), unfolded w(1)] and h = hi0bits_spec(1)[OF w(2)]
  have n: "?n = int ?l" "0 < ?n" using w1 h by (simp_all add: of_nat_diff)
  have "?l \<le> 53"
  proof (rule ccontr)
    assume "\<not> ?l \<le> 53"
    then have "(2::nat) ^ 54 \<le> 2 ^ ?l" by (intro power_increasing) simp_all
    then show False using lb(1) ds(4) by simp
  qed
  then have n53: "?n \<le> 53" using n(1) by linarith
  have put: "wpr (alloc_err A) (made s L 1 ?v 0) (andthen (Balloc A s k) (\<lambda>(s, b). andthen (put_words s b ?ws 0 (int (length ?ws))) (\<lambda>s. Inr (s, b))))"
  proof (rule Balloc_put[OF ok])
    show "int (length ?ws) \<le> 2 ^ nat k" using k w(6) d14 by auto
    show "1 < int (length ?ws) \<longrightarrow> 4294967296 ^ nat (int (length ?ws) - 1) \<le> ?v" using w(4) by (simp add: nat_diff_distrib')
    show "bval (take (nat (max 1 (int (length ?ws)))) ?ws) = ?v" using w(1) w1 by (simp add: max_def)
  qed (use k w1 in auto)
  have run: "gethex_number hex_tab t A s r = andthen (andthen (Balloc A s k) (\<lambda>(s, b). andthen (put_words s b ?ws 0 (int (length ?ws))) (\<lambda>s. Inr (s, b))))
      (\<lambda>(s, b). Inr (s, b, ?n))"
  proof -
    have sz: "hex_size (int (hs_s1 r) - int (hs_s0 r) - 1) 0 = k" by (simp add: r(2) k_def)
    show ?thesis unfolding gethex_number_def r(1) Let_def sz by (simp only: andthen_assoc case_prod_unfold andthen_simps fst_conv snd_conv)
  qed
  have nb: "?v < 2 ^ nat ?n" "2 ^ nat ?n \<le> 2 * ?v" unfolding n(1) nat_int using lb by blast+
  show ?thesis unfolding run wpr_andthen[of _ _ "andthen (Balloc A s k) _"]
  proof (rule wpr_mono[OF put])
    fix q assume "made s L 1 ?v 0 q"
    then show "wpr (alloc_err A) (\<lambda>(s', b, n). owned s L 1 ?v (s', b) \<and> 0 < n \<and> n \<le> 53 \<and> ?v < 2 ^ nat n \<and> 2 ^ nat n \<le> 2 * ?v)
        (case q of (s, b) \<Rightarrow> Inr (s, b, ?n))"
      using n(2) n53 nb made_owned[of s L 1 ?v 0 q] by (cases q) (simp only: prod.case wpr_simps simp_thms)
  qed simp
qed

text \<open>From the scan to the value, for a text that is not zero and whose exponent is not too long.\<close>

lemma gethex_scanned:
  assumes h: "hexdig_ok h" and ok: "dt_ok s L"
    and r: "gethex_scan hex_tab t = Inr r" "\<not> hs_zret r" "\<not> hs_big r" "0 \<le> hs_e r" "hs_e r < 2 ^ 31"
      "take (hs_s1 r - hs_s0 r) (drop (hs_s0 r) t) = ds" "hs_s1 r = hs_s0 r + length ds"
    and ds: "list_all (is_digit_in 16) ds" "ds \<noteq> []" "hd ds \<noteq> CHR ''0''" and v: "digits_value 16 ds < 2 ^ 53"
  shows "wpr (alloc_err A) (\<lambda>(h', s', d, k). h' = hex_tab \<and> k = hs_sp r \<and> dt_ok s' L \<and> same L s s'
      \<and> (\<exists>n. 0 < n \<and> n \<le> 53 \<and> digits_value 16 ds < 2 ^ nat n \<and> 2 ^ nat n \<le> 2 * digits_value 16 ds
            \<and> hex_reads (digits_value 16 ds * 2 ^ nat (53 - n)) (nat (hs_e r + n + 1022)) d))
    (gethex A h s t rounding sign)"
proof -
  let ?v = "digits_value 16 ds" let ?x = "hs_e r"
  let ?Q = "\<lambda>(h', s', d, k). h' = hex_tab \<and> k = hs_sp r \<and> dt_ok s' L \<and> same L s s'
      \<and> (\<exists>n. 0 < n \<and> n \<le> 53 \<and> ?v < 2 ^ nat n \<and> 2 ^ nat n \<le> 2 * ?v
            \<and> hex_reads (?v * 2 ^ nat (53 - n)) (nat (?x + n + 1022)) d)"
  note pos = hex_words_bits(3)[OF ds]
  have run: "gethex A h s t rounding sign = andthen (gethex_number hex_tab t A s r) (\<lambda>(s, b, n).
      andthen (gethex_normal A s b n ?x) (\<lambda>(s, b, e, lostbits).
      andthen (gethex_value A s b e lostbits rounding sign) (\<lambda>(s, d). Inr (hex_tab, s, d, hs_sp r))))"
    unfolding gethex_def hexdig_ready_tab[OF h] Let_def r(1) andthen_simps if_not_P[OF r(2)] if_not_P[OF r(3)]
    by (simp only: andthen_assoc case_prod_unfold andthen_simps fst_conv snd_conv)
  show ?thesis unfolding run wpr_andthen[of _ _ "gethex_number hex_tab t A s r"]
  proof (rule wpr_mono[OF gethex_number_spec[OF ok ds v r(6,7)]])
    fix q
    assume "case q of (s', b, n) \<Rightarrow> owned s L 1 ?v (s', b) \<and> 0 < n \<and> n \<le> 53 \<and> ?v < 2 ^ nat n \<and> 2 ^ nat n \<le> 2 * ?v"
    then obtain s1 b n where q: "q = (s1, b, n)" "owned s L 1 ?v (s1, b)" "0 < n" "n \<le> 53" "?v < 2 ^ nat n" "2 ^ nat n \<le> 2 * ?v"
      by (cases q) auto
    let ?m = "?v * 2 ^ nat (53 - n)"
    have n53: "nat n + nat (53 - n) = 53" using q(3,4) by simp
    have m: "2 ^ 52 \<le> ?m" "?m < 2 ^ 53"
    proof -
      have p: "(2::nat) ^ nat n * 2 ^ nat (53 - n) = 2 ^ 53" unfolding power_add[symmetric] n53 ..
      show "?m < 2 ^ 53" unfolding p[symmetric] using q(5) by simp
      have "2 ^ nat n * 2 ^ nat (53 - n) \<le> 2 * ?v * 2 ^ nat (53 - n)" using q(6) by (rule mult_le_mono1)
      then show "2 ^ 52 \<le> ?m" unfolding p by simp
    qed
    show "wpr (alloc_err A) ?Q
      (case q of (s, b, n) \<Rightarrow> andthen (gethex_normal A s b n ?x) (\<lambda>(s, b, e, lostbits).
        andthen (gethex_value A s b e lostbits rounding sign) (\<lambda>(s, d). Inr (hex_tab, s, d, hs_sp r))))"
      unfolding q(1) prod.case wpr_andthen[of _ _ "gethex_normal A s1 b n ?x"]
    proof (rule wpr_mono[OF gethex_normal_spec[OF q(2) pos q(5,6,3,4) r(4,5)]])
      fix p assume "case p of (s2, b2, e, lostbits) \<Rightarrow> owned s L 2 ?m (s2, b2) \<and> e = ?x + n - 53 \<and> lostbits = (0 :: limb)"
      then obtain s2 b2 where p: "p = (s2, b2, ?x + n - 53, 0)" "owned s L 2 ?m (s2, b2)" by (cases p) auto
      have e: "hex_emin \<le> ?x + n - 53" using q(3) r(4) by (simp add: hex_emin_def Emin_def P_bits_def)
      obtain s' d where d: "gethex_value A s2 b2 (?x + n - 53) 0 rounding sign = Inr (s', d)" "dt_ok s' L" "same L s s'"
        "hex_reads ?m (nat (?x + n - 53 + 1075)) d"
        using gethex_value_spec[OF p(2) m e] by blast
      have "?x + n - 53 + 1075 = ?x + n + 1022" by simp
      note reads = d(4)[unfolded this]
      show "wpr (alloc_err A) ?Q (case p of (s2, b2, e, lostbits) \<Rightarrow>
          andthen (gethex_value A s2 b2 e lostbits rounding sign) (\<lambda>(s', d). Inr (hex_tab, s', d, hs_sp r)))"
        unfolding p(1) prod.case d(1) andthen_simps wpr_simps using d(2,3) reads q(3-6) by blast
    qed simp
  qed simp
qed

lemma gethex_int:
  assumes h: "hexdig_ok h" and ok: "dt_ok s L"
    and t: "t = ''0x'' @ replicate z (CHR ''0'') @ ds @ rest" and ds: "list_all (is_digit_in 16) ds" "ds \<noteq> []" "hd ds \<noteq> CHR ''0''"
    and rest: "hex_end rest" and v: "digits_value 16 ds < 2 ^ 53"
  shows "wpr (alloc_err A) (\<lambda>(h', s', d, n). h' = hex_tab \<and> n = 2 + z + length ds \<and> dt_ok s' L \<and> same L s s'
      \<and> dbl_integral d \<and> dbl_trunc d = int (digits_value 16 ds)) (gethex A h s t rounding sign)"
proof -
  let ?v = "digits_value 16 ds"
  let ?r = "\<lparr>hs_sp = 2 + z + length ds, hs_s0 = 2 + z, hs_s1 = 2 + z + length ds, hs_e = 0, hs_big = False, hs_esign = False, hs_zret = False\<rparr>"
  have r: "\<not> hs_zret ?r" "\<not> hs_big ?r" "0 \<le> hs_e ?r" "hs_e ?r < 2 ^ 31"
    "take (hs_s1 ?r - hs_s0 ?r) (drop (hs_s0 ?r) t) = ds" "hs_s1 ?r = hs_s0 ?r + length ds" by (simp_all add: t)
  have val: "dbl_integral d \<and> dbl_trunc d = int ?v"
    if n: "0 < n" "n \<le> 53" and d: "hex_reads (?v * 2 ^ nat (53 - n)) (nat (0 + n + 1022)) d" for n d
  proof -
    have q: "nat (0 + n + 1022) = nat n + 1022" "nat n + 1022 \<le> 2046" using n by auto
    have ex: "dbl_exp d = nat n + 1022" "\<not> dbl_sign d" "dbl_mant d = ?v * 2 ^ nat (53 - n)"
      using d[unfolded q(1)] q(2) by (simp_all add: hex_reads_def)
    have "1075 - max 1 (nat n + 1022) = nat (53 - n)" "1075 \<le> max 1 (nat n + 1022) \<longleftrightarrow> n = 53" using n by auto
    then show ?thesis
      using n(2) ex(2) by (auto simp: dbl_integral_def dbl_trunc_def dbl_abs_trunc_def ex(1,3) Let_def)
  qed
  show ?thesis
    by (rule wpr_mono[OF gethex_scanned[OF h ok gethex_scan_int[OF t ds rest] r ds v]]) (use val in auto)
qed

section \<open>Properties\<close>

text \<open>
  C17: \<open>gethex\<close> reads a hexadecimal integer below \<open>2 ^ 53\<close> exactly: whatever digits and leading
  zeros it has, in every rounding mode, and in either state of the table \<open>hexdig\<close>, it returns
  the double with that value, moves \<open>*sp\<close> behind the last digit, gives back every block it
  allocated and leaves the others alone. The only failure is an exhausted allocator.
\<close>

theorem gethex_integers:
  assumes "hexdig_ok h" "dt_ok s L" "t = ''0x'' @ replicate z (CHR ''0'') @ ds @ rest"
    "list_all (is_digit_in 16) ds" "ds \<noteq> []" "hd ds \<noteq> CHR ''0''" "hex_end rest" "digits_value 16 ds < 2 ^ 53"
  shows "case gethex A h s t rounding sign of
      Inl e \<Rightarrow> alloc_err A e
    | Inr (h', s', d, n) \<Rightarrow>
        h' = hex_tab \<and> n = 2 + z + length ds \<and> dt_ok s' L \<and> same L s s'
        \<and> dbl_integral d \<and> dbl_trunc d = int (digits_value 16 ds)"
  using gethex_int[OF assms(1-8), of A rounding sign] by (auto simp: wpr_def split: sum.splits)

theorem gethex_integers_witness:
  "case gethex (\<lambda>_. True) hexdig_zero dtoa_init ''0x0fF,'' Round_up True of
      Inl e \<Rightarrow> alloc_err (\<lambda>_. True) e
    | Inr (h', s', d, n) \<Rightarrow>
        h' = hex_tab \<and> n = 2 + 1 + length ''fF'' \<and> dt_ok s' {} \<and> same {} dtoa_init s'
        \<and> dbl_integral d \<and> dbl_trunc d = int (digits_value 16 ''fF'')"
  using gethex_integers[of hexdig_zero dtoa_init "{}" "''0x0fF,''" 1 "''fF''" "'',''" "\<lambda>_. True" Round_up True]
  by (simp add: hexdig_ok_def dt_ok_init hex_end_def is_digit_in_def digit_value_def digits_value_def Let_def)



lemma gethex_denorm_round_up:
  \<comment> \<open>just below the least normal number: the mask that removes the implicit bit removes the whole number\<close>
  "(case gethex (\<lambda>_. True) hexdig_zero dtoa_init ''0x0.fffffffffffff8p-1022'' Round_near False of
      Inl e \<Rightarrow> False | Inr (h, s, d, n) \<Rightarrow> d = dbl_zero)"
  by code_simp

lemma gethex_tiny_leaks:
  \<comment> \<open>the block is neither freed nor returned\<close>
  "(case gethex (\<lambda>_. True) hexdig_zero dtoa_init ''0x1.8p-1075'' Round_near False of
      Inl e \<Rightarrow> False
    | Inr (h, s, d, n) \<Rightarrow> d = dbl_tiny \<and> dt_heap s 1 \<noteq> None \<and> list_all (\<lambda>k. dt_freelist s k \<noteq> Some 1) [0, 1, 2, 3, 4, 5, 6, 7])"
  by code_simp

lemma sc_inj: "sc c = sc d \<longleftrightarrow> c = d"
proof -
  have "\<forall>c. char_of_int (sc c) = c" by code_simp
  then show ?thesis by metis
qed

lemma match_char: "(if 65 \<le> sc c \<and> sc c \<le> 90 then sc c + 32 else sc c) = sc (tolower c)"
proof -
  have "\<forall>c. (if 65 \<le> sc c \<and> sc c \<le> 90 then sc c + 32 else sc c) = sc (tolower c)" by code_simp
  then show ?thesis by blast
qed

lemma match_go_prefix:
  "list_all (\<lambda>d. d \<noteq> NUL \<and> tolower d = d) t \<Longrightarrow>
   match_go s t n = (if strncasecmp_eq s t then Some (n + length t + 1) else None)"
proof (induction s t n rule: match_go.induct)
  case (2 s d t n)
  show ?case
  proof (cases s)
    case Nil
    have "sc d \<noteq> sc NUL" using 2(2) unfolding sc_inj by simp
    moreover have "sc NUL = 0" by (simp add: sc_def)
    ultimately show ?thesis using Nil by (simp add: strncasecmp_eq_def)
  next
    case (Cons c s')
    then show ?thesis using 2 by (simp add: strncasecmp_eq_def match_char sc_inj Let_def)
  qed
qed (simp add: strncasecmp_eq_def)

text \<open>
  \<open>match\<close> is the library's \<open>strncasecmp\<close> on the text behind the first character: for a word in
  lower case it succeeds exactly if the text continues with that word in either case, and then
  moves \<open>*sp\<close> behind it; it never reads past the terminator.
\<close>

lemma match_strncasecmp:
  assumes "list_all (\<lambda>d. d \<noteq> NUL \<and> tolower d = d) t"
  shows "match sp t = (if strncasecmp_eq (tl sp) t then Some (length t + 1) else None)"
  using match_go_prefix[OF assms] by (simp add: match_def)

lemma nan_word: "unat x0 < 1048576 \<Longrightarrow> x0 \<noteq> 0 \<or> x1 \<noteq> 0 \<Longrightarrow> isnan (mk_double (Exp_mask OR x0) x1)"
proof -
  assume x: "unat x0 < 1048576" "x0 \<noteq> 0 \<or> x1 \<noteq> 0"
  have "Exp_mask = push_bit 20 0x7ff" by (simp add: Exp_mask_def push_bit_eq_mult)
  then have u: "unat (Exp_mask OR x0) = 2047 * 1048576 + unat x0" using unat_push_or[of x0 20 "0x7ff"] x(1) by simp
  note q = div_mod_is[OF u x(1)]
  have "unat x0 \<noteq> 0 \<or> unat x1 \<noteq> 0" using x(2) by (simp add: unat_eq_0)
  then show ?thesis unfolding isnan_def mk_double_fields using q by auto
qed

text \<open>
  \<open>hexnan\<close> never turns a NaN into a number: whatever stands between the parentheses, the
  result is a NaN, with the payload given there or the one it had.
\<close>

lemma hexnan_keeps_nan:
  assumes "isnan rv"
  shows "isnan (fst (snd (hexnan h rv t)))"
proof -
  have "unat (x AND 0xfffff) < 1048576" for x :: limb
  proof -
    have m: "(0xfffff :: limb) = mask 20" by (simp add: mask_eq_exp_minus_1)
    show ?thesis unfolding m and_low by simp
  qed
  then show ?thesis using assms nan_word by (auto simp: hexnan_def Let_def split: prod.splits)
qed

end
