(* ===== verification/Dtoa_Scan.thy ===== *)
theory Dtoa_Scan
  imports Dtoa_Hex
begin

text \<open>
The scanner of \<open>fpconv_strtod\<close> in \<open>3rd/lua-cjson/dtoa.c\<close>: from the text to the sign, the
  significant digits (the first sixteen as two words), their number and the decimal exponent.
  Positions are offsets into the text, which ends with the terminator. The main lemma is
  \<open>strtod_scan_number\<close>: what the scanner finds in the text of a decimal number.
\<close>

section \<open>What the scanner leaves\<close>

text \<open>
  Positions are offsets into the text. \<open>sc_y\<close> and \<open>sc_z\<close> hold the first nine and the next seven
  significant digits, \<open>sc_nd\<close> counts the significant digits and \<open>sc_nd0\<close> those before the point,
  \<open>sc_nf\<close> those behind it; \<open>sc_nz\<close> and \<open>sc_nz1\<close> count zeros that may turn out to be trailing.
\<close>

record scan =
  sc_nd :: nat
  sc_nf :: nat
  sc_nz :: nat
  sc_nz1 :: nat
  sc_y :: limb
  sc_z :: limb

definition DBL_DIG :: nat where "DBL_DIG = 15"

definition strtod_blank :: "char \<Rightarrow> bool" where
  "strtod_blank c \<longleftrightarrow> c = CHR 0x09 \<or> c = CHR 0x0A \<or> c = CHR 0x0B \<or> c = CHR 0x0C \<or> c = CHR 0x0D \<or> c = CHR '' ''"

fun strtod_sign :: "string \<Rightarrow> nat \<Rightarrow> (bool \<times> nat) option" where
  \<comment> \<open>blanks and a sign; \<open>None\<close> is the jump to \<open>ret0\<close>\<close>
  "strtod_sign [] s = None"
| "strtod_sign (c # cs) s =
     (if c = CHR ''-'' \<or> c = CHR ''+'' then
        (if cs \<noteq> [] \<and> hd cs \<noteq> NUL then Some (c = CHR ''-'', s + 1) else None)
      else if c = NUL then None
      else if strtod_blank c then strtod_sign cs (s + 1)
      else Some (False, s))"

definition is_dig :: "char \<Rightarrow> bool" where
  "is_dig c \<longleftrightarrow> 48 \<le> sc c \<and> sc c \<le> 57"

definition put_digit :: "limb \<Rightarrow> scan \<Rightarrow> scan" where
  \<comment> \<open>one more significant digit\<close>
  "put_digit v r =
     (if sc_nd r < 9 then r\<lparr>sc_nd := sc_nd r + 1, sc_y := 10 * sc_y r + v\<rparr>
      else if sc_nd r < DBL_DIG + 1 then r\<lparr>sc_nd := sc_nd r + 1, sc_z := 10 * sc_z r + v\<rparr>
      else r\<lparr>sc_nd := sc_nd r + 1\<rparr>)"

definition digit_word :: "char \<Rightarrow> limb" where "digit_word c = word_of_int (sc c - 48)"

fun scan_int :: "string \<Rightarrow> scan \<Rightarrow> scan" where
  "scan_int [] r = r"
| "scan_int (c # cs) r = scan_int cs (put_digit (digit_word c) r)"

fun put_zeros :: "nat \<Rightarrow> scan \<Rightarrow> scan" where
  "put_zeros 0 r = r"
| "put_zeros (Suc n) r = put_zeros n (put_digit 0 r)"

definition have_dig :: "char \<Rightarrow> scan \<Rightarrow> scan" where
  "have_dig c r =
     (let r = r\<lparr>sc_nz := sc_nz r + 1\<rparr> in
      if c = CHR ''0'' then r
      else (put_digit (digit_word c)
              (put_zeros (sc_nz r - 1) (r\<lparr>sc_nf := sc_nf r + sc_nz r\<rparr>)))\<lparr>sc_nz := 0, sc_nz1 := 0\<rparr>)"

fun scan_frac :: "string \<Rightarrow> scan \<Rightarrow> scan" where
  "scan_frac [] r = r"
| "scan_frac (c # cs) r = scan_frac cs (have_dig c r)"

record number_scan = scan +
  sc_s0 :: nat            \<comment> \<open>where the significant digits start\<close>
  sc_nd0 :: nat
  sc_bc :: BCinfo
  sc_end :: nat           \<comment> \<open>\<open>s\<close> at \<open>dig_done\<close>\<close>

definition bc_init :: BCinfo where
  \<comment> \<open>the fields that are set later start as whatever is on the stack, here as 0\<close>
  "bc_init = \<lparr>bc_dp0 = 0, bc_dp1 = 0, bc_dplen = 0, bc_dsign = 0, bc_e0 = 0, bc_inexact = 0, bc_nd = 0,
     bc_nd0 = 0, bc_rounding = 1, bc_scale = 0, bc_uflchk = 0\<rparr>"

definition scan_digits :: "string \<Rightarrow> nat \<Rightarrow> number_scan" where
  \<comment> \<open>from \<open>s0 = s\<close> to \<open>dig_done\<close>\<close>
  "scan_digits t s0 =
     (let s = skip_while is_dig t s0;
          ds = take (s - s0) (drop s0 t);
          r = scan_int ds \<lparr>sc_nd = 0, sc_nf = 0, sc_nz = 0,
                sc_nz1 = length (takeWhile (\<lambda>c. c = CHR ''0'') (rev ds)), sc_y = 0, sc_z = 0\<rparr>;
          nd0 = sc_nd r;
          bc = bc_init\<lparr>bc_dp0 := int s - int s0, bc_dp1 := int s - int s0\<rparr>
      in if ch_at t s \<noteq> CHR ''.'' then
           scan.extend r \<lparr>sc_s0 = s0, sc_nd0 = nd0, sc_bc = bc, sc_end = s\<rparr>
         else
           let s = s + 1;
               bc = bc\<lparr>bc_dp1 := int s - int s0, bc_dplen := (int s - int s0) - bc_dp0 bc\<rparr>
           in if sc_nd r = 0 then
                let s1 = skip_while (\<lambda>c. c = CHR ''0'') t s; r = r\<lparr>sc_nz := s1 - s\<rparr> in
                if is_dig (ch_at t s1) then
                  let bc = bc\<lparr>bc_dp0 := int s0 - int s1, bc_dp1 := int s0 - int s1 + bc_dplen bc\<rparr>;
                      s2 = skip_while is_dig t s1;
                      r = scan_frac (take (s2 - s1) (drop s1 t)) (r\<lparr>sc_nf := sc_nf r + sc_nz r, sc_nz := 0\<rparr>)
                  in scan.extend r \<lparr>sc_s0 = s1, sc_nd0 = nd0, sc_bc = bc, sc_end = s2\<rparr>
                else scan.extend r \<lparr>sc_s0 = s0, sc_nd0 = nd0, sc_bc = bc, sc_end = s1\<rparr>
              else
                let s2 = skip_while is_dig t s;
                    r = scan_frac (take (s2 - s) (drop s t)) r
                in scan.extend r \<lparr>sc_s0 = s0, sc_nd0 = nd0, sc_bc = bc, sc_end = s2\<rparr>)"

fun scan_L :: "string \<Rightarrow> int \<Rightarrow> int res" where
  \<comment> \<open>\<open>L = 10*L + c - '0'\<close>, a 32-bit signed number\<close>
  "scan_L [] L = Inr L"
| "scan_L (c # cs) L =
     andthen (c_int (10 * L)) (\<lambda>x.
     andthen (c_int (x + sc c)) (\<lambda>x.
     andthen (c_int (x - 48)) (\<lambda>L. scan_L cs L)))"

definition scan_exp :: "string \<Rightarrow> nat \<Rightarrow> (int \<times> nat) res" where
  \<comment> \<open>\<open>e\<close> and the new \<open>s\<close>; \<open>s\<close> points at the letter\<close>
  "scan_exp t s00 =
     (let esign = (ch_at t (s00 + 1) = CHR ''-'');
          s = (if ch_at t (s00 + 1) = CHR ''-'' \<or> ch_at t (s00 + 1) = CHR ''+'' then s00 + 2 else s00 + 1)
      in if \<not> is_dig (ch_at t s) then Inr (0, s00)
         else
           let s1 = skip_while (\<lambda>c. c = CHR ''0'') t s in
           if \<not> is_dig (ch_at t s1) then Inr (0, s1)
           else
             let s2 = skip_while is_dig t s1 in
             andthen (scan_L (take (s2 - (s1 + 1)) (drop (s1 + 1) t)) (sc (ch_at t s1) - 48)) (\<lambda>L.
             let e = (if s2 - s1 > 8 \<or> L > 19999 then 19999 else L)
             in Inr (if esign then - e else e, s2)))"

datatype strtod_scan =
    Scan_none                                \<comment> \<open>\<open>ret0\<close>: no number\<close>
  | Scan_hex bool nat                        \<comment> \<open>the sign and where the \<open>0\<close> of \<open>0x\<close> is\<close>
  | Scan_zero bool nat                       \<comment> \<open>the sign and the new \<open>s\<close>\<close>
  | Scan_special bool nat                    \<comment> \<open>no digits: \<open>inf\<close> or \<open>nan\<close> may follow\<close>
  | Scan_number bool int nat number_scan     \<comment> \<open>the sign, \<open>e\<close>, the new \<open>s\<close> and the digits\<close>

definition strtod_scan :: "string \<Rightarrow> strtod_scan res" where
  "strtod_scan t =
     (case strtod_sign t 0 of
        None \<Rightarrow> Inr Scan_none
      | Some (sign, s) \<Rightarrow>
          if ch_at t s = CHR ''0'' \<and> (ch_at t (s + 1) = CHR ''x'' \<or> ch_at t (s + 1) = CHR ''X'') then Inr (Scan_hex sign s)
          else
            let nz0 = (ch_at t s = CHR ''0'');
                s0 = skip_while (\<lambda>c. c = CHR ''0'') t s
            in if nz0 \<and> ch_at t s0 = NUL then Inr (Scan_zero sign s0)
               else
                 let r = scan_digits t s0; s = sc_end r; c = ch_at t s in
                 if (c = CHR ''e'' \<or> c = CHR ''E'') \<and> sc_nd r = 0 \<and> sc_nz r = 0 \<and> \<not> nz0 then Inr Scan_none
                 else
                   andthen (if c = CHR ''e'' \<or> c = CHR ''E'' then scan_exp t s else Inr (0, s)) (\<lambda>(e, s).
                   if sc_nd r = 0 then
                     if sc_nz r = 0 \<and> \<not> nz0 then
                       (if bc_dplen (sc_bc r) = 0 then Inr (Scan_special sign s) else Inr Scan_none)
                     else Inr (Scan_zero sign s)
                   else
                     andthen (c_int (e - int (sc_nf r))) (\<lambda>e. Inr (Scan_number sign e s r))))"


section \<open>Significant digits\<close>

abbreviation ZERO :: char where "ZERO \<equiv> CHR ''0''"

definition strip_back :: "string \<Rightarrow> string" where
  "strip_back fs = rev (dropWhile (\<lambda>c. c = ZERO) (rev fs))"

definition strip_front :: "string \<Rightarrow> string" where
  "strip_front ds = dropWhile (\<lambda>c. c = ZERO) ds"

lemma strip_back_zeros [simp]: "strip_back (replicate n ZERO) = []"
  by (simp add: strip_back_def)

lemma strip_back_nonzero: "c \<noteq> ZERO \<Longrightarrow> strip_back (as @ c # fs) = as @ c # strip_back fs"
proof -
  assume c: "c \<noteq> ZERO"
  have "dropWhile (\<lambda>c. c = ZERO) (rev fs @ c # rev as) = dropWhile (\<lambda>c. c = ZERO) (rev fs) @ c # rev as"
    using c by (induction "rev fs" arbitrary: fs) (auto simp: dropWhile_append)
  then show ?thesis by (simp add: strip_back_def)
qed

lemma strip_back_split: "fs = strip_back fs @ replicate (length fs - length (strip_back fs)) ZERO"
proof -
  have "rev fs = takeWhile (\<lambda>c. c = ZERO) (rev fs) @ dropWhile (\<lambda>c. c = ZERO) (rev fs)" by simp
  then have "fs = strip_back fs @ rev (takeWhile (\<lambda>c. c = ZERO) (rev fs))"
    unfolding strip_back_def by (metis rev_append rev_rev_ident)
  moreover have "rev (takeWhile (\<lambda>c. c = ZERO) (rev fs)) = replicate (length (takeWhile (\<lambda>c. c = ZERO) (rev fs))) ZERO"
    by (rule replicate_eqI[symmetric, THEN sym]) (auto dest: set_takeWhileD)
  moreover have "length fs = length (strip_back fs) + length (takeWhile (\<lambda>c. c = ZERO) (rev fs))"
    using arg_cong[OF calculation(1), of length] by simp
  ultimately show ?thesis by simp
qed

text \<open>The digits \<open>D\<close> have been scanned.\<close>

definition scanned :: "string \<Rightarrow> 'a scan_scheme \<Rightarrow> bool" where
  "scanned D r \<longleftrightarrow> sc_nd r = length D
     \<and> sc_y r = of_nat (digits_value 10 (take 9 D))
     \<and> sc_z r = of_nat (digits_value 10 (take 7 (drop 9 D)))"

lemma digit_word_value: "is_digit_in 10 c \<Longrightarrow> digit_word c = of_nat (the (digit_value c))"
  by (auto simp: digit_word_def digit_sc)

lemma put_digit_scanned:
  assumes "scanned D r" "v = of_nat (the (digit_value c))"
  shows "scanned (D @ [c]) (put_digit v r)"
proof -
  consider "length D < 9" | "9 \<le> length D" "length D < 16" | "16 \<le> length D" by linarith
  then show ?thesis
  proof cases
    case 1
    then show ?thesis using assms by (simp add: scanned_def put_digit_def digits_value_snoc)
  next
    case 2
    then have "take 7 (drop 9 D) = drop 9 D" "take 7 (drop 9 (D @ [c])) = drop 9 D @ [c]" by simp_all
    then show ?thesis using 2 assms by (simp add: scanned_def put_digit_def DBL_DIG_def digits_value_snoc)
  next
    case 3
    then show ?thesis using assms by (simp add: scanned_def put_digit_def DBL_DIG_def)
  qed
qed

lemma put_digit_fields [simp]:
  "sc_nf (put_digit v r) = sc_nf r" "sc_nz (put_digit v r) = sc_nz r" "sc_nz1 (put_digit v r) = sc_nz1 r"
  by (simp_all add: put_digit_def)

lemma scan_int_scanned:
  assumes "scanned D r" "list_all (is_digit_in 10) ds"
  shows "scanned (D @ ds) (scan_int ds r) \<and> sc_nf (scan_int ds r) = sc_nf r
    \<and> sc_nz (scan_int ds r) = sc_nz r \<and> sc_nz1 (scan_int ds r) = sc_nz1 r"
  using assms
proof (induction ds arbitrary: D r)
  case (Cons c ds)
  then show ?case
    using Cons.IH[OF put_digit_scanned[OF Cons.prems(1) digit_word_value, of c]] by simp
qed simp

lemma put_zeros_scanned:
  assumes "scanned D r"
  shows "scanned (D @ replicate n ZERO) (put_zeros n r) \<and> sc_nf (put_zeros n r) = sc_nf r
    \<and> sc_nz (put_zeros n r) = sc_nz r \<and> sc_nz1 (put_zeros n r) = sc_nz1 r"
  using assms
proof (induction n arbitrary: D r)
  case (Suc n)
  have "scanned (D @ [ZERO]) (put_digit 0 r)"
    by (rule put_digit_scanned[OF Suc.prems]) (simp add: digit_value_def)
  from Suc.IH[OF this] show ?case by simp
qed simp

lemma scan_frac_scanned:
  assumes "scanned D r" "list_all (is_digit_in 10) fs"
  defines "G \<equiv> replicate (sc_nz r) ZERO @ fs"
  shows "scanned (D @ strip_back G) (scan_frac fs r)
    \<and> sc_nf (scan_frac fs r) = sc_nf r + length (strip_back G)
    \<and> sc_nz (scan_frac fs r) = length G - length (strip_back G)"
  using assms(1,2) unfolding G_def
proof (induction fs arbitrary: D r)
  case (Cons c fs)
  show ?case
  proof (cases "c = ZERO")
    case True
    let ?r = "r\<lparr>sc_nz := sc_nz r + 1\<rparr>"
    have "scanned D ?r" using Cons.prems(1) by (simp add: scanned_def)
    moreover have "replicate (sc_nz ?r) ZERO @ fs = replicate (sc_nz r) ZERO @ c # fs"
      using True by (simp add: replicate_app_Cons_same)
    ultimately show ?thesis using Cons.IH[of D ?r] Cons.prems(2) True by (simp add: have_dig_def Let_def)
  next
    case False
    define r1 where "r1 = r\<lparr>sc_nz := sc_nz r + 1, sc_nf := sc_nf r + (sc_nz r + 1)\<rparr>"
    define r2 where "r2 = put_digit (digit_word c) (put_zeros (sc_nz r) r1)"
    have h: "have_dig c r = r2\<lparr>sc_nz := 0, sc_nz1 := 0\<rparr>"
      using False by (simp add: have_dig_def Let_def r2_def r1_def)
    have "scanned D r1" using Cons.prems(1) by (simp add: scanned_def r1_def)
    from put_zeros_scanned[OF this, of "sc_nz r"]
    have z: "scanned (D @ replicate (sc_nz r) ZERO) (put_zeros (sc_nz r) r1)"
      "sc_nf (put_zeros (sc_nz r) r1) = sc_nf r + (sc_nz r + 1)" by (simp_all add: r1_def)
    have c: "is_digit_in 10 c" using Cons.prems(2) by simp
    have "scanned (D @ replicate (sc_nz r) ZERO @ [c]) (have_dig c r)"
      using put_digit_scanned[OF z(1) digit_word_value[OF c]] by (simp add: h r2_def scanned_def)
    moreover have "sc_nf (have_dig c r) = sc_nf r + (sc_nz r + 1)" "sc_nz (have_dig c r) = 0"
      using z(2) by (simp_all add: h r2_def)
    ultimately show ?thesis
      using Cons.IH[of "D @ replicate (sc_nz r) ZERO @ [c]" "have_dig c r"] Cons.prems(2)
      by (simp add: strip_back_nonzero[OF False])
  qed
qed (simp add: scanned_def)


section \<open>Positions in a text\<close>

lemma ch_at_app: "ch_at (as @ bs) (length as) = (case bs of [] \<Rightarrow> NUL | b # _ \<Rightarrow> b)"
  by (cases bs) (simp_all add: ch_at_def nth_append)

lemma skip_app:
  assumes "list_all p as" "bs = [] \<or> \<not> p (hd bs)"
  shows "skip_while p (cs @ as @ bs) (length cs) = length cs + length as"
proof -
  have "takeWhile p (as @ bs) = as"
    using assms by (cases bs) (auto simp: takeWhile_append list_all_iff)
  then show ?thesis by (simp add: skip_while_def)
qed

lemma is_dig_dec: "is_dig c = is_digit_in 10 c"
proof -
  have "\<forall>c. is_dig c = is_digit_in 10 c" by code_simp
  then show ?thesis ..
qed

definition no_digit :: "string \<Rightarrow> bool" where
  \<comment> \<open>what follows is not a digit\<close>
  "no_digit rest \<longleftrightarrow> (case rest of [] \<Rightarrow> True | c # _ \<Rightarrow> \<not> is_digit_in 10 c)"

lemma no_digit_skip: "no_digit rest \<Longrightarrow> rest = [] \<or> \<not> is_dig (hd rest)"
  by (cases rest) (simp_all add: no_digit_def is_dig_dec)

section \<open>The digits of a number\<close>

text \<open>
  A run of digits, with leading zeros gone, a point and a fraction: the significant digits end
  with the last one that is not a zero of the fraction.
\<close>

definition frac_text :: "string \<Rightarrow> string" where
  "frac_text fs = (if fs = [] then [] else CHR ''.'' # fs)"

lemma scan_digits_result:
  fixes pre ds fs rest :: string
  assumes ds: "list_all (is_digit_in 10) ds" "ds = [] \<or> hd ds \<noteq> ZERO"
    and fs: "list_all (is_digit_in 10) fs"
    and rest: "no_digit rest" "fs = [] \<longrightarrow> (rest = [] \<or> hd rest \<noteq> CHR ''.'')"
  defines "F \<equiv> strip_back fs"
  defines "D \<equiv> strip_front (ds @ F)"
  defines "r \<equiv> scan_digits (pre @ ds @ frac_text fs @ rest) (length pre)"
  shows "scanned D r \<and> sc_nf r = length F \<and> sc_nd0 r = length ds
    \<and> sc_end r = length pre + length (ds @ frac_text fs)
    \<and> (D = [] \<longrightarrow> sc_nz r = length fs)"
proof -
  let ?t = "pre @ ds @ frac_text fs @ rest" and ?start = "length pre"
  let ?s = "?start + length ds"
  let ?r0 = "\<lparr>sc_nd = 0, sc_nf = 0, sc_nz = 0, sc_nz1 = length (takeWhile (\<lambda>c. c = ZERO) (rev ds)),
      sc_y = 0, sc_z = 0\<rparr>"
  have "frac_text fs @ rest = [] \<or> \<not> is_dig (hd (frac_text fs @ rest))"
    using no_digit_skip[OF rest(1)]
    by (cases "fs = []") (simp_all add: frac_text_def is_dig_dec is_digit_in_def digit_value_def)
  then have s: "skip_while is_dig ?t ?start = ?s"
    using ds(1) by (intro skip_app) (simp_all add: is_dig_dec list_all_iff)
  have tk: "take (?s - ?start) (drop ?start ?t) = ds" by simp
  define r1 where "r1 = scan_int ds ?r0"
  have "scanned [] ?r0" by (simp add: scanned_def digits_value_def)
  from scan_int_scanned[OF this ds(1)]
  have r1: "scanned ds r1" "sc_nf r1 = 0" "sc_nz r1 = 0" by (simp_all add: r1_def)
  have nd: "sc_nd r1 = length ds" using r1(1) by (simp add: scanned_def)
  have front: "strip_front ds = ds" using ds(2) by (cases ds) (simp_all add: strip_front_def)
  show ?thesis
  proof (cases "fs = []")
    case True
    have "ch_at ?t ?s \<noteq> CHR ''.''"
      using rest(2) True ch_at_app[of "pre @ ds" rest] by (cases rest) (simp_all add: frac_text_def)
    then have "r = scan.extend r1 \<lparr>sc_s0 = ?start, sc_nd0 = sc_nd r1,
        sc_bc = bc_init\<lparr>bc_dp0 := int ?s - int ?start, bc_dp1 := int ?s - int ?start\<rparr>, sc_end = ?s\<rparr>"
      unfolding r_def scan_digits_def s Let_def tk r1_def by simp
    then show ?thesis
      using r1 nd front True by (simp add: D_def F_def strip_back_def frac_text_def scanned_def scan.extend_def)
  next
    case False
    then have ft: "frac_text fs = CHR ''.'' # fs" by (simp add: frac_text_def)
    have pt: "ch_at ?t ?s = CHR ''.''" using ch_at_app[of "pre @ ds" "frac_text fs @ rest"] by (simp add: ft)
    have t1: "?t = (pre @ ds @ [CHR ''.'']) @ fs @ rest" by (simp add: ft)
    show ?thesis
    proof (cases "ds = []")
      case ds0: False
      have s2: "skip_while is_dig ?t (?s + 1) = ?s + 1 + length fs"
        using skip_app[of is_dig fs rest "pre @ ds @ [CHR ''.'']"] fs no_digit_skip[OF rest(1)]
        unfolding t1 by (simp add: is_dig_dec list_all_iff)
      have tk2: "take (?s + 1 + length fs - (?s + 1)) (drop (?s + 1) ?t) = fs" unfolding t1 by simp
      define r2 where "r2 = scan_frac fs r1"
      obtain bc where r: "r = scan.extend r2 \<lparr>sc_s0 = ?start, sc_nd0 = length ds, sc_bc = bc, sc_end = ?s + 1 + length fs\<rparr>"
        unfolding r_def scan_digits_def s Let_def tk r1_def[symmetric] pt nd s2 tk2 using ds0 by (simp add: r2_def)
      have D: "D = ds @ F" using ds(2) ds0 by (cases ds) (simp_all add: D_def strip_front_def)
      show ?thesis
        using scan_frac_scanned[OF r1(1) fs] r1 ds0
        unfolding r D F_def by (simp add: r2_def[symmetric] scanned_def scan.extend_def ft)
    next
      case ds0: True
      define zs where "zs = takeWhile (\<lambda>c. c = ZERO) fs"
      define gs where "gs = dropWhile (\<lambda>c. c = ZERO) fs"
      have fz: "fs = zs @ gs" by (simp add: zs_def gs_def)
      have zs: "zs = replicate (length zs) ZERO"
        by (rule replicate_eqI) (auto simp: zs_def dest: set_takeWhileD)
      have gs: "gs = [] \<or> hd gs \<noteq> ZERO" "list_all (is_digit_in 10) gs"
        using fs hd_dropWhile[of "\<lambda>c. c = ZERO" fs] unfolding gs_def
        by (auto simp: list_all_iff dest: set_dropWhileD)
      have tz: "?t = (pre @ ds @ [CHR ''.'']) @ zs @ gs @ rest" using t1 fz by (metis append_assoc)
      have lz: "list_all (\<lambda>c. c = ZERO) zs" by (auto simp: zs_def list_all_iff dest: set_takeWhileD)
      have s1: "skip_while (\<lambda>c. c = ZERO) ?t (?s + 1) = ?s + 1 + length zs"
      proof -
        have "gs @ rest = [] \<or> hd (gs @ rest) \<noteq> ZERO"
          using gs(1) rest(1) by (cases gs; cases rest) (auto simp: no_digit_def is_digit_in_def digit_value_def)
        then show ?thesis
          using skip_app[of "\<lambda>c. c = ZERO" zs "gs @ rest" "pre @ ds @ [CHR ''.'']"]
          unfolding tz using lz by simp
      qed
      show ?thesis
      proof (cases "gs = []")
        case True
        have "ch_at ?t (?s + 1 + length zs) = (case rest of [] \<Rightarrow> NUL | c # _ \<Rightarrow> c)"
          using ch_at_app[of "pre @ ds @ [CHR ''.''] @ zs" rest] unfolding tz True by (simp add: add.assoc)
        then have nodig: "\<not> is_dig (ch_at ?t (?s + 1 + length zs))"
          using rest(1) by (cases rest) (simp_all add: no_digit_def is_dig_dec, simp add: is_digit_in_def digit_value_def)
        obtain bc where r: "r = scan.extend (r1\<lparr>sc_nz := length zs\<rparr>) \<lparr>sc_s0 = ?start, sc_nd0 = 0, sc_bc = bc, sc_end = ?s + 1 + length zs\<rparr>"
          unfolding r_def scan_digits_def s Let_def tk r1_def[symmetric] pt nd s1
          using ds0 nodig by simp
        have F: "F = []" unfolding F_def fz True by (subst zs) simp
        show ?thesis
          using r1 ds0 F True False unfolding r D_def fz
          by (simp add: scanned_def scan.extend_def strip_front_def frac_text_def)
      next
        case g: False
        define s1' where "s1' = ?s + 1 + length zs"
        have t2: "?t = (pre @ ds @ [CHR ''.''] @ zs) @ gs @ rest" by (simp add: tz)
        have "ch_at ?t s1' = hd gs" using ch_at_app[of "pre @ ds @ [CHR ''.''] @ zs" "gs @ rest"] g
          unfolding t2 by (cases gs) (simp_all add: s1'_def add.assoc)
        then have dig: "is_dig (ch_at ?t s1')" using gs(2) g by (cases gs) (simp_all add: is_dig_dec)
        have s2: "skip_while is_dig ?t s1' = s1' + length gs"
          using skip_app[of is_dig gs rest "pre @ ds @ [CHR ''.''] @ zs"] gs(2) no_digit_skip[OF rest(1)]
          unfolding t2 by (simp add: is_dig_dec list_all_iff s1'_def add.assoc)
        have tk2: "take (s1' + length gs - s1') (drop s1' ?t) = gs" unfolding t2 by (simp add: s1'_def)
        have nzs: "s1' - (?s + 1) = length zs" by (simp add: s1'_def)
        define r2 where "r2 = scan_frac gs (r1\<lparr>sc_nf := length zs, sc_nz := 0\<rparr>)"
        obtain bc where r: "r = scan.extend r2 \<lparr>sc_s0 = s1', sc_nd0 = 0, sc_bc = bc, sc_end = s1' + length gs\<rparr>"
          unfolding r_def scan_digits_def s Let_def tk r1_def[symmetric] pt nd s1 s1'_def[symmetric] s2 tk2 nzs
          using ds0 dig r1 by (simp add: r2_def)
        have sb: "strip_back fs = zs @ strip_back gs"
          using g gs(1) unfolding fz by (cases gs) (simp_all add: strip_back_nonzero strip_back_nonzero[of _ "[]", simplified])
        have Dg: "D = strip_back gs"
        proof -
          have "strip_front (zs @ strip_back gs) = strip_front (strip_back gs)"
            unfolding strip_front_def by (subst zs) (simp add: dropWhile_append)
          moreover have "strip_back gs = hd gs # strip_back (tl gs)" "hd gs \<noteq> ZERO"
            using g gs(1) strip_back_nonzero[of "hd gs" "[]" "tl gs"] by (cases gs; simp)+
          ultimately show ?thesis
            using ds0 sb unfolding D_def F_def by (simp add: strip_front_def)
        qed
        have "strip_back gs \<noteq> []"
          using g gs(1) strip_back_nonzero[of "hd gs" "[]" "tl gs"] by (cases gs) simp_all
        then show ?thesis
          using Dg sb scan_frac_scanned[of "[]" "r1\<lparr>sc_nf := length zs, sc_nz := 0\<rparr>" gs] r1 ds0 gs(2) g
          unfolding r F_def by (auto simp: r2_def[symmetric] scanned_def scan.extend_def frac_text_def s1'_def fz)
      qed
    qed
  qed
qed


section \<open>The exponent\<close>

definition exp_text :: "string \<Rightarrow> int \<Rightarrow> bool" where
  \<comment> \<open>no exponent, or one of at most 19999, the bound of the code\<close>
  "exp_text ex x \<longleftrightarrow> (ex = [] \<and> x = 0)
     \<or> (\<exists>c es xs. ex = c # es @ xs \<and> (c = CHR ''e'' \<or> c = CHR ''E'') \<and> (es = [] \<or> es = ''+'' \<or> es = ''-'')
          \<and> xs \<noteq> [] \<and> list_all (is_digit_in 10) xs \<and> digits_value 10 xs \<le> 19999
          \<and> x = (if es = ''-'' then - int (digits_value 10 xs) else int (digits_value 10 xs)))"

lemma scan_L_value:
  "list_all (is_digit_in 10) cs \<Longrightarrow> L * 10 ^ length cs + digits_value 10 cs \<le> 19999
   \<Longrightarrow> scan_L cs (int L) = Inr (int (L * 10 ^ length cs + digits_value 10 cs))"
proof (induction cs arbitrary: L)
  case (Cons c cs)
  let ?d = "the (digit_value c)"
  have d: "sc c - 48 = int ?d" "?d < 10" using digit_sc[of c] Cons.prems(1) by simp_all
  have eq: "L * 10 ^ length (c # cs) + digits_value 10 (c # cs) = (10 * L + ?d) * 10 ^ length cs + digits_value 10 cs"
    using digits_value_app[of 10 "[c]" cs] by (simp add: digits_value_def algebra_simps)
  have "10 * L + ?d \<le> (10 * L + ?d) * 10 ^ length cs" by simp
  also have "\<dots> \<le> 19999" using Cons.prems(2) unfolding eq by linarith
  finally have "10 * L + ?d \<le> 19999" .
  then have "scan_L (c # cs) (int L) = scan_L cs (int (10 * L + ?d))" using d
    by (simp add: c_int_def int_ok_iff algebra_simps)
  then show ?case using Cons.IH[of "10 * L + ?d"] Cons.prems unfolding eq by simp
qed (simp add: digits_value_def)

lemma strip_front_value: "digits_value 10 (strip_front xs) = digits_value 10 xs"
  by (induction xs) (simp_all add: strip_front_def digits_value_def digit_value_def)

lemma strip_front_split: "xs = replicate (length xs - length (strip_front xs)) ZERO @ strip_front xs"
proof -
  have "xs = takeWhile (\<lambda>c. c = ZERO) xs @ strip_front xs" by (simp add: strip_front_def)
  moreover have "takeWhile (\<lambda>c. c = ZERO) xs = replicate (length (takeWhile (\<lambda>c. c = ZERO) xs)) ZERO"
    by (rule replicate_eqI) (auto dest: set_takeWhileD)
  moreover have "length xs = length (takeWhile (\<lambda>c. c = ZERO) xs) + length (strip_front xs)"
    using arg_cong[OF calculation(1), of length] by simp
  ultimately show ?thesis by simp
qed

lemma digits_value_first:
  assumes "is_digit_in 10 c" "c \<noteq> ZERO"
  shows "10 ^ length cs \<le> digits_value 10 (c # cs)"
proof -
  have "\<forall>c. is_digit_in 10 c \<longrightarrow> c \<noteq> ZERO \<longrightarrow> 1 \<le> the (digit_value c)" by code_simp
  then have "1 \<le> the (digit_value c)" using assms by simp
  then have "10 ^ length cs \<le> the (digit_value c) * (10 :: nat) ^ length cs" by simp
  moreover have "digits_value 10 (c # cs) = the (digit_value c) * 10 ^ length cs + digits_value 10 cs"
    using digits_value_app[of 10 "[c]" cs] by (simp add: digits_value_def)
  ultimately show ?thesis by linarith
qed

lemma scan_exp_result:
  fixes pre rest :: string
  assumes ex: "exp_text ex x" "ex \<noteq> []" and rest: "no_digit rest"
  shows "scan_exp (pre @ ex @ rest) (length pre) = Inr (x, length pre + length ex)"
proof -
  obtain c es xs where e: "ex = c # es @ xs" "c = CHR ''e'' \<or> c = CHR ''E''" "es = [] \<or> es = ''+'' \<or> es = ''-''"
    "xs \<noteq> []" "list_all (is_digit_in 10) xs" "digits_value 10 xs \<le> 19999"
    "x = (if es = ''-'' then - int (digits_value 10 xs) else int (digits_value 10 xs))"
    using ex by (auto simp: exp_text_def)
  let ?t = "pre @ ex @ rest"
  define s where "s = length pre + 1 + length es"
  have t1: "?t = (pre @ [c]) @ es @ xs @ rest" and t2: "?t = (pre @ [c] @ es) @ xs @ rest" by (simp_all add: e(1))
  have x0: "is_digit_in 10 (hd xs)" using e(4,5) by (cases xs) simp_all
  then have nx: "hd xs \<noteq> CHR ''-''" "hd xs \<noteq> CHR ''+''" by (auto simp: is_digit_in_def digit_value_def)
  have c1: "ch_at ?t (length pre + 1) = (case es of [] \<Rightarrow> hd xs | a # _ \<Rightarrow> a)"
    using ch_at_app[of "pre @ [c]" "es @ xs @ rest"] e(4) unfolding t1 by (cases es; cases xs) simp_all
  have s: "(if ch_at ?t (length pre + 1) = CHR ''-'' \<or> ch_at ?t (length pre + 1) = CHR ''+'' then length pre + 2 else length pre + 1) = s"
    using e(3) nx unfolding c1 s_def by auto
  have sign: "(ch_at ?t (length pre + 1) = CHR ''-'') = (es = ''-'')" using e(3) nx unfolding c1 by auto
  have dig: "is_dig (ch_at ?t s)"
    using ch_at_app[of "pre @ [c] @ es" "xs @ rest"] x0 e(4) unfolding t2 s_def by (cases xs) (simp_all add: is_dig_dec)
  define ys where "ys = strip_front xs"
  define zs where "zs = replicate (length xs - length ys) ZERO"
  have xs: "xs = zs @ ys" unfolding zs_def ys_def by (rule strip_front_split)
  have ys: "ys = [] \<or> hd ys \<noteq> ZERO" "list_all (is_digit_in 10) ys"
    using e(5) hd_dropWhile[of "\<lambda>c. c = ZERO" xs] unfolding ys_def strip_front_def
    by (auto simp: list_all_iff dest: set_dropWhileD)
  have t3: "?t = (pre @ [c] @ es) @ zs @ ys @ rest" using t2 xs by (metis append_assoc)
  have r0: "rest = [] \<or> hd rest \<noteq> ZERO" "rest = [] \<or> \<not> is_dig (hd rest)"
    using rest no_digit_skip[OF rest] by (cases rest; auto simp: no_digit_def is_digit_in_def digit_value_def)+
  have "skip_while (\<lambda>c. c = ZERO) ?t (length (pre @ [c] @ es)) = length (pre @ [c] @ es) + length zs"
    unfolding t3 using ys(1) r0(1) by (intro skip_app) (auto simp: zs_def list_all_iff hd_append)
  then have s1: "skip_while (\<lambda>c. c = ZERO) ?t s = s + length zs" by (simp add: s_def)
  have t4: "?t = (pre @ [c] @ es @ zs) @ ys @ rest" using t3 by simp
  have a1: "ch_at ?t (s + length zs) = (case ys @ rest of [] \<Rightarrow> NUL | a # _ \<Rightarrow> a)"
    using ch_at_app[of "pre @ [c] @ es @ zs" "ys @ rest"] unfolding t4 s_def by (simp add: add.assoc)
  show ?thesis
  proof (cases ys)
    case Nil
    have "\<not> is_dig (ch_at ?t (s + length zs))"
      using r0(2) unfolding a1 Nil by (cases rest) (simp_all, simp add: is_dig_dec is_digit_in_def digit_value_def)
    moreover have "digits_value 10 xs = 0" using strip_front_value[of xs] Nil by (simp add: ys_def digits_value_def)
    moreover have "s + length zs = length pre + length ex" using Nil xs by (simp add: s_def e(1))
    ultimately show ?thesis unfolding scan_exp_def Let_def s using dig s1 e(7) by simp
  next
    case (Cons y yt)
    have y: "is_digit_in 10 y" "y \<noteq> ZERO" "list_all (is_digit_in 10) yt" using ys Cons by simp_all
    have a2: "ch_at ?t (s + length zs) = y" unfolding a1 Cons by simp
    have "skip_while is_dig ?t (length (pre @ [c] @ es @ zs)) = length (pre @ [c] @ es @ zs) + length ys"
      unfolding t4 using ys(2) r0(2) by (intro skip_app) (auto simp: is_dig_dec list_all_iff)
    then have s2: "skip_while is_dig ?t (s + length zs) = s + length zs + length ys" by (simp add: s_def add.assoc)
    have val: "digits_value 10 xs = the (digit_value y) * 10 ^ length yt + digits_value 10 yt"
      using strip_front_value[of xs] digits_value_app[of 10 "[y]" yt] Cons by (simp add: ys_def digits_value_def)
    have "(10 :: nat) ^ length yt \<le> 19999"
      using digits_value_first[OF y(1,2), of yt] strip_front_value[of xs] e(6) Cons by (simp add: ys_def)
    then have "(10 :: nat) ^ length yt < 10 ^ 5" by simp
    then have short: "length yt < 5" by (rule power_less_imp_less_exp[rotated]) simp
    have dr: "drop (s + length zs + 1) ?t = yt @ rest"
      unfolding t4 Cons by (simp add: s_def)
    have L: "scan_L (take (s + length zs + length ys - (s + length zs + 1)) (drop (s + length zs + 1) ?t)) (sc y - 48)
        = Inr (int (digits_value 10 xs))"
      using scan_L_value[OF y(3), of "the (digit_value y)"] digit_sc[OF y(1)] e(6) unfolding dr val Cons by simp
    have len: "s + length zs + length ys = length pre + length ex" using xs by (simp add: s_def e(1))
    have few: "s + length zs + length ys - (s + length zs) \<le> 8" using short Cons by simp
    show ?thesis
      unfolding scan_exp_def Let_def s unfolding s1 s2 a2 L sign
      using dig y(1) few e(6,7) len by (simp add: is_dig_dec)
  qed
qed


section \<open>Whole numbers\<close>

definition sign_text :: "string \<Rightarrow> bool" where
  "sign_text sg \<longleftrightarrow> sg = [] \<or> sg = ''+'' \<or> sg = ''-''"

definition num_end :: "string \<Rightarrow> string \<Rightarrow> string \<Rightarrow> bool" where
  \<comment> \<open>the text behind a number does not go on with it\<close>
  "num_end fs ex rest \<longleftrightarrow> no_digit rest
     \<and> (ex = [] \<longrightarrow> rest = [] \<or> (hd rest \<noteq> CHR ''e'' \<and> hd rest \<noteq> CHR ''E'' \<and> (fs = [] \<longrightarrow> hd rest \<noteq> CHR ''.'')))"

definition sig_text :: "string \<Rightarrow> string \<Rightarrow> string" where
  \<comment> \<open>without leading zeros and without the trailing zeros of the fraction\<close>
  "sig_text ds fs = strip_front (ds @ strip_back fs)"

lemma exp_text_hd: "exp_text ex x \<Longrightarrow> ex = [] \<or> hd ex = CHR ''e'' \<or> hd ex = CHR ''E''"
  by (auto simp: exp_text_def)

lemma exp_text_bound: "exp_text ex x \<Longrightarrow> -19999 \<le> x \<and> x \<le> 19999"
  by (auto simp: exp_text_def)

lemma strtod_sign_result:
  assumes "sign_text sg" "is_digit_in 10 c \<or> c = CHR ''.''"
  shows "strtod_sign (sg @ c # cs) 0 = Some (sg = ''-'', length sg)"
proof -
  have "c \<noteq> NUL" "\<not> strtod_blank c" "c \<noteq> CHR ''-''" "c \<noteq> CHR ''+''"
    using assms(2) by (auto simp: strtod_blank_def is_digit_in_def digit_value_def)
  then show ?thesis using assms(1) by (auto simp: sign_text_def)
qed

lemma strtod_scan_number:
  assumes sg: "sign_text sg" and ds: "list_all (is_digit_in 10) ds" and fs: "list_all (is_digit_in 10) fs"
    and ex: "exp_text ex x" and rest: "num_end fs ex rest"
    and D: "sig_text ds fs \<noteq> []" and len: "length fs \<le> 2000000000"
  shows "\<exists>r. strtod_scan (sg @ ds @ frac_text fs @ ex @ rest)
      = Inr (Scan_number (sg = ''-'') (x - int (length (strip_back fs))) (length (sg @ ds @ frac_text fs @ ex)) r)
    \<and> scanned (sig_text ds fs) r"
proof -
  let ?t = "sg @ ds @ frac_text fs @ ex @ rest" and ?F = "strip_back fs"
  define dt where "dt = strip_front ds"
  define zs where "zs = replicate (length ds - length dt) ZERO"
  have dz: "ds = zs @ dt" unfolding zs_def dt_def by (rule strip_front_split)
  have dt: "dt = [] \<or> hd dt \<noteq> ZERO" "list_all (is_digit_in 10) dt"
    using ds hd_dropWhile[of "\<lambda>c. c = ZERO" ds] unfolding dt_def strip_front_def
    by (auto simp: list_all_iff dest: set_dropWhileD)
  have sig: "strip_front (dt @ ?F) = sig_text ds fs"
    unfolding sig_text_def dt_def strip_front_def by (induction ds) auto
  have more: "dt = [] \<Longrightarrow> fs \<noteq> []"
    using D sig by (auto simp: strip_back_def strip_front_def)
  define u where "u = ds @ frac_text fs @ ex @ rest"
  have "ds = [] \<Longrightarrow> fs \<noteq> []" using more by (simp add: dt_def strip_front_def)
  then have u0: "u \<noteq> []" "is_digit_in 10 (hd u) \<or> hd u = CHR ''.''"
    using ds unfolding u_def
    by ((cases ds; simp add: frac_text_def), (cases ds; simp add: frac_text_def))
  then obtain c cs where u: "u = c # cs" by (cases u) auto
  have sign: "strtod_sign ?t 0 = Some (sg = ''-'', length sg)"
    using strtod_sign_result[OF sg, of c cs] u0(2) u unfolding u_def[symmetric] by simp
  have hex: "\<not> (ch_at ?t (length sg) = ZERO \<and> (ch_at ?t (length sg + 1) = CHR ''x'' \<or> ch_at ?t (length sg + 1) = CHR ''X''))"
  proof
    assume h: "ch_at ?t (length sg) = ZERO \<and> (ch_at ?t (length sg + 1) = CHR ''x'' \<or> ch_at ?t (length sg + 1) = CHR ''X'')"
    have c: "c = ZERO" using h ch_at_app[of sg u] unfolding u_def[symmetric] u by simp
    then obtain ds1 where ds1: "ds = ZERO # ds1" using u \<open>ds = [] \<Longrightarrow> fs \<noteq> []\<close> by (cases ds) (auto simp: u_def frac_text_def)
    have "ds1 @ frac_text fs \<noteq> []" using more ds1 by (cases ds1) (auto simp: frac_text_def dt_def strip_front_def)
    moreover have "list_all (\<lambda>c. is_digit_in 10 c \<or> c = CHR ''.'') (ds1 @ frac_text fs)"
      using ds ds1 fs by (auto simp: frac_text_def list_all_iff)
    moreover have "ch_at ?t (length sg + 1) = hd (ds1 @ frac_text fs)"
      using ch_at_app[of "sg @ [ZERO]" "ds1 @ frac_text fs @ ex @ rest"] calculation(1) ds1
      by (cases "ds1 @ frac_text fs") (auto simp: append_eq_Cons_conv)
    ultimately show False using h by (cases "ds1 @ frac_text fs") (auto simp: is_digit_in_def digit_value_def)
  qed
  have t1: "?t = sg @ zs @ dt @ frac_text fs @ ex @ rest" using dz by simp
  have ne: "dt @ frac_text fs @ ex @ rest \<noteq> []" "hd (dt @ frac_text fs @ ex @ rest) \<noteq> ZERO"
  proof -
    have "dt @ frac_text fs \<noteq> [] \<and> hd (dt @ frac_text fs) \<noteq> ZERO"
    proof (cases dt)
      case Nil
      then show ?thesis using more by (simp add: frac_text_def)
    qed (use dt(1) in simp)
    then show "dt @ frac_text fs @ ex @ rest \<noteq> []" "hd (dt @ frac_text fs @ ex @ rest) \<noteq> ZERO"
      by (auto simp: hd_append split: if_splits)
  qed
  have s0: "skip_while (\<lambda>c. c = ZERO) ?t (length sg) = length (sg @ zs)"
    unfolding t1 using ne skip_app[of "\<lambda>c. c = ZERO" zs "dt @ frac_text fs @ ex @ rest" sg]
    by (simp add: zs_def list_all_iff)
  have t2: "?t = (sg @ zs) @ dt @ frac_text fs @ ex @ rest" by (simp add: t1)
  have nul: "ch_at ?t (length (sg @ zs)) \<noteq> NUL"
    unfolding t2 ch_at_app using dt more by (cases dt) (auto simp: frac_text_def is_digit_in_def digit_value_def)
  have nd: "no_digit (ex @ rest)" "fs = [] \<longrightarrow> (ex @ rest = [] \<or> hd (ex @ rest) \<noteq> CHR ''.'')"
    using exp_text_hd[OF ex] rest
    by (cases ex; auto simp: num_end_def no_digit_def is_digit_in_def digit_value_def)+
  define r where "r = scan_digits ?t (length (sg @ zs))"
  have r: "scanned (sig_text ds fs) r" "sc_nf r = length ?F" "sc_end r = length (sg @ ds @ frac_text fs)"
    using scan_digits_result[OF dt(2,1) fs nd, of "sg @ zs"] unfolding r_def t2 sig
    by (simp_all add: dz)
  have ndr: "sc_nd r \<noteq> 0" using r(1) D by (simp add: scanned_def)
  have t3: "?t = (sg @ ds @ frac_text fs) @ ex @ rest" by simp
  have c: "ch_at ?t (sc_end r) = (case ex @ rest of [] \<Rightarrow> NUL | c # _ \<Rightarrow> c)"
    unfolding r(3) t3 by (rule ch_at_app)
  have e: "(if ch_at ?t (sc_end r) = CHR ''e'' \<or> ch_at ?t (sc_end r) = CHR ''E'' then scan_exp ?t (sc_end r) else Inr (0, sc_end r))
      = Inr (x, length (sg @ ds @ frac_text fs @ ex))"
  proof (cases "ex = []")
    case True
    then have "x = 0" using ex by (auto simp: exp_text_def)
    moreover have "\<not> (ch_at ?t (sc_end r) = CHR ''e'' \<or> ch_at ?t (sc_end r) = CHR ''E'')"
      using rest True unfolding c by (cases rest) (auto simp: num_end_def)
    ultimately show ?thesis using True r(3) by simp
  next
    case False
    then have "ch_at ?t (sc_end r) = CHR ''e'' \<or> ch_at ?t (sc_end r) = CHR ''E''"
      using exp_text_hd[OF ex] unfolding c by (cases ex) auto
    moreover have "scan_exp ?t (sc_end r) = Inr (x, length (sg @ ds @ frac_text fs @ ex))"
      using scan_exp_result[OF ex False, of rest "sg @ ds @ frac_text fs"] rest unfolding r(3)
      by (simp add: num_end_def)
    ultimately show ?thesis by simp
  qed
  have "length ?F \<le> length fs" using arg_cong[OF strip_back_split[of fs], of length] by simp
  then have ce: "c_int (x - int (sc_nf r)) = Inr (x - int (length ?F))"
    using exp_text_bound[OF ex] len r(2) by (simp add: c_int_def int_ok_iff)
  have "strtod_scan ?t = Inr (Scan_number (sg = ''-'') (x - int (length ?F)) (length (sg @ ds @ frac_text fs @ ex)) r)"
    unfolding strtod_scan_def sign option.case prod.case s0 Let_def r_def[symmetric] e andthen_simps
    using hex nul ndr ce by simp
  then show ?thesis using r(1) by blast
qed

end
