(* ===== verification/Dtoa_Short.thy ===== *)
theory Dtoa_Short
  imports Dtoa_Scan Complex_Main
begin

text \<open>
The fast path of \<open>fpconv_strtod\<close> in \<open>3rd/lua-cjson/dtoa.c\<close>: up to fifteen digits and a small
  exponent take at most one inexact operation. The machine's arithmetic on doubles is a parameter
  (\<open>fpu\<close>), assumed to round to a nearest double. The main lemmas are \<open>first_value_exact\<close> and
  \<open>short_rounded\<close>.
\<close>

section \<open>The value of a double\<close>

definition dbl_finite :: "double \<Rightarrow> bool" where "dbl_finite d \<longleftrightarrow> dbl_exp d < 2047"

definition dbl_abs :: "double \<Rightarrow> rat" where
  "dbl_abs d = of_nat (dbl_mant d) * 2 ^ max 1 (dbl_exp d) / 2 ^ 1075"

definition dbl_val :: "double \<Rightarrow> rat" where
  "dbl_val d = (if dbl_sign d then - dbl_abs d else dbl_abs d)"

definition dbl_neg :: "double \<Rightarrow> double" where
  \<comment> \<open>\<open>-dval(&rv)\<close> flips the sign bit\<close>
  "dbl_neg d = d XOR push_bit 63 1"

definition rounded :: "rat \<Rightarrow> double \<Rightarrow> bool" where
  \<comment> \<open>no finite double is nearer\<close>
  "rounded q d \<longleftrightarrow> dbl_finite d \<and> (\<forall>d'. dbl_finite d' \<longrightarrow> \<bar>dbl_val d - q\<bar> \<le> \<bar>dbl_val d' - q\<bar>)"

section \<open>Arithmetic\<close>

text \<open>
  The machine's operations on doubles are parameters. What is assumed of them (IEEE 754 with
  rounding to nearest, which the code requires with \<open>Flt_Rounds == 1\<close>) is that the result is a
  nearest double to the exact one, when that is in the range of doubles; and that a 32-bit
  unsigned number is converted exactly.
\<close>

record fpu =
  fp_mul :: "double \<Rightarrow> double \<Rightarrow> double"
  fp_add :: "double \<Rightarrow> double \<Rightarrow> double"
  fp_sub :: "double \<Rightarrow> double \<Rightarrow> double"
  fp_div :: "double \<Rightarrow> double \<Rightarrow> double"
  fp_of_ulong :: "limb \<Rightarrow> double"

definition in_range :: "rat \<Rightarrow> bool" where "in_range q \<longleftrightarrow> \<bar>q\<bar> \<le> 9007199254740991 * 2 ^ 971"

definition fpu_ieee :: "fpu \<Rightarrow> bool" where
  "fpu_ieee U \<longleftrightarrow>
     (\<forall>a b. dbl_finite a \<longrightarrow> dbl_finite b \<longrightarrow>
        (in_range (dbl_val a * dbl_val b) \<longrightarrow> rounded (dbl_val a * dbl_val b) (fp_mul U a b))
        \<and> (in_range (dbl_val a + dbl_val b) \<longrightarrow> rounded (dbl_val a + dbl_val b) (fp_add U a b))
        \<and> (in_range (dbl_val a - dbl_val b) \<longrightarrow> rounded (dbl_val a - dbl_val b) (fp_sub U a b))
        \<and> (dbl_val b \<noteq> 0 \<longrightarrow> in_range (dbl_val a / dbl_val b)
             \<longrightarrow> rounded (dbl_val a / dbl_val b) (fp_div U a b)))
     \<and> (\<forall>y. dbl_finite (fp_of_ulong U y) \<and> dbl_val (fp_of_ulong U y) = of_nat (unat y))"

section \<open>Powers of ten\<close>

definition Ten_pmax :: int where "Ten_pmax = 22"

definition tens :: "double list" where
  "tens =
     [0x3ff0000000000000, 0x4024000000000000, 0x4059000000000000, 0x408f400000000000,
      0x40c3880000000000, 0x40f86a0000000000, 0x412e848000000000, 0x416312d000000000,
      0x4197d78400000000, 0x41cdcd6500000000, 0x4202a05f20000000, 0x42374876e8000000,
      0x426d1a94a2000000, 0x42a2309ce5400000, 0x42d6bcc41e900000, 0x430c6bf526340000,
      0x4341c37937e08000, 0x4376345785d8a000, 0x43abc16d674ec800, 0x43e158e460913d00,
      0x4415af1d78b58c40, 0x444b1ae4d6e2ef50, 0x4480f0cf064dd592]"

definition bigtens :: "double list" where
  "bigtens = [0x4341c37937e08000, 0x4693b8b5b5056e17, 0x4d384f03e93ff9f5, 0x5a827748f9301d32,
     0x75154fdd7f73bf3c]"

definition tinytens :: "double list" where
  \<comment> \<open>the last one is \<open>2 ^ 106 * 1e-256\<close>\<close>
  "tinytens = [0x3c9cd2b297d889bc, 0x3949f623d5a8a733, 0x32a50ffd44f4a73d, 0x255bba08cf8c979d,
     0x1168062864ac6f43]"

definition ten_at :: "double list \<Rightarrow> int \<Rightarrow> double res" where
  "ten_at ts i = (if 0 \<le> i \<and> nat i < length ts then Inr (ts ! nat i) else Inl (UB Oob_read))"

lemma shifted_eq: "(of_nat m * 2 ^ e / 2 ^ k = (of_nat n :: rat)) \<longleftrightarrow> m * 2 ^ e = n * 2 ^ k"
proof -
  have "(of_nat m * 2 ^ e / 2 ^ k = (of_nat n :: rat)) \<longleftrightarrow> (of_nat (m * 2 ^ e) :: rat) = of_nat (n * 2 ^ k)"
    by (simp add: field_simps)
  then show ?thesis by (simp only: of_nat_eq_iff)
qed

lemma dbl_abs_nat: "dbl_abs d = of_nat n \<longleftrightarrow> dbl_mant d * 2 ^ max 1 (dbl_exp d) = n * 2 ^ 1075"
  unfolding dbl_abs_def by (rule shifted_eq)

definition dbl_is_nat :: "double \<Rightarrow> nat \<Rightarrow> bool" where
  \<comment> \<open>the fields are those of the number \<open>n\<close>\<close>
  "dbl_is_nat d n \<longleftrightarrow> 1 \<le> dbl_exp d \<and> dbl_exp d < 2047 \<and> \<not> dbl_sign d
     \<and> (if dbl_exp d \<le> 1075 then dbl_mant d = n * 2 ^ (1075 - dbl_exp d)
        else dbl_mant d * 2 ^ (dbl_exp d - 1075) = n)"

lemma dbl_is_natD:
  assumes "dbl_is_nat d n"
  shows "dbl_finite d" "dbl_val d = of_nat n"
proof -
  have "dbl_mant d * 2 ^ dbl_exp d = n * 2 ^ 1075"
  proof (cases "dbl_exp d \<le> 1075")
    case True
    then have "dbl_mant d * 2 ^ dbl_exp d = n * (2 ^ (1075 - dbl_exp d) * 2 ^ dbl_exp d)"
      using assms by (simp add: dbl_is_nat_def)
    also have "\<dots> = n * 2 ^ 1075" using True by (simp only: power_add [symmetric] le_add_diff_inverse2)
    finally show ?thesis .
  next
    case False
    then have "n * 2 ^ 1075 = dbl_mant d * (2 ^ (dbl_exp d - 1075) * 2 ^ 1075)"
      using assms by (simp only: dbl_is_nat_def if_False mult.assoc [symmetric])
    also have "\<dots> = dbl_mant d * 2 ^ dbl_exp d"
      using False by (simp only: power_add [symmetric] le_add_diff_inverse2)
    finally show ?thesis by (rule sym)
  qed
  moreover have "max 1 (dbl_exp d) = dbl_exp d" using assms by (simp add: dbl_is_nat_def)
  ultimately have "dbl_abs d = of_nat n" unfolding dbl_abs_nat by (simp only:)
  then show "dbl_finite d" "dbl_val d = of_nat n"
    using assms by (simp_all add: dbl_is_nat_def dbl_finite_def dbl_val_def)
qed

lemma tens_all: "list_all2 dbl_is_nat tens (map (\<lambda>i. 10 ^ i) [0..<23])"
  by (simp add: tens_def upt_conv_Cons dbl_is_nat_def dbl_fields dbl_mant_def)

lemma tens_fields: "i < 23 \<Longrightarrow> dbl_is_nat (tens ! i) (10 ^ i)"
  using list_all2_nthD2[OF tens_all, of i] by simp

lemma tens_value:
  assumes "0 \<le> i" "i \<le> Ten_pmax"
  shows "\<exists>d. ten_at tens i = Inr d \<and> dbl_finite d \<and> dbl_val d = 10 ^ nat i"
proof -
  have i: "nat i < 23" using assms by (simp add: Ten_pmax_def)
  then show ?thesis
    using assms dbl_is_natD[OF tens_fields[OF i]] by (simp add: ten_at_def tens_def)
qed

section \<open>Exact results\<close>

lemma double_fields_exist:
  assumes "e < 2048" "f < 2 ^ 52"
  shows "\<exists>d. dbl_exp d = e \<and> dbl_frac d = f \<and> \<not> dbl_sign d"
proof -
  have lt: "e * 4503599627370496 + f < 18446744073709551616" and lt2: "e * 4503599627370496 + f < 9223372036854775808"
    using assms by simp_all
  define d :: double where "d = of_nat (e * 4503599627370496 + f)"
  have u: "unat d = e * 4503599627370496 + f" 
    unfolding d_def unsigned_of_nat take_bit_eq_mod using lt by simp
  have "unat d div 4503599627370496 = e \<and> unat d mod 4503599627370496 = f"
    using assms(2) by (intro div_mod_is[OF u]) simp
  then show ?thesis using assms(1) lt2 by (intro exI[of _ d]) (simp add: dbl_fields u)
qed

lemma small_nat_double:
  assumes "n < 2 ^ 53"
  shows "\<exists>d. dbl_finite d \<and> dbl_val d = of_nat n"
proof (cases "n = 0")
  case True
  then show ?thesis using double_fields_exist[of 0 0]
    by (force simp: dbl_finite_def dbl_val_def dbl_abs_def dbl_mant_def)
next
  case False
  obtain j where j: "2 ^ j \<le> n" "n < 2 ^ (j + 1)" using ex_power_ivl1[of 2 n] False by auto
  have "(2::nat) ^ j < 2 ^ 53" using j(1) assms by linarith
  then have j52: "j \<le> 52" using power_less_imp_less_exp[of "2::nat" j 53] by simp
  let ?m = "n * 2 ^ (52 - j)"
  have b: "2 ^ j * 2 ^ (52 - j) \<le> ?m" "?m < 2 ^ (j + 1) * 2 ^ (52 - j)"
    using j by (auto intro: mult_le_mono1 mult_less_mono1)
  have p: "(2::nat) ^ j * 2 ^ (52 - j) = 2 ^ 52" "(2::nat) ^ (j + 1) * 2 ^ (52 - j) = 2 ^ 53"
    using j52 by (simp_all only: power_add [symmetric] le_add_diff_inverse) simp_all
  have m: "4503599627370496 \<le> ?m" "?m < 9007199254740992" using b unfolding p by simp_all
  moreover have "?m - 4503599627370496 < 2 ^ 52" using m by simp
  ultimately obtain d where d: "dbl_exp d = 1023 + j" "dbl_frac d = ?m - 4503599627370496" "\<not> dbl_sign d"
    using double_fields_exist[of "1023 + j" "?m - 4503599627370496"] j52 by auto
  have "dbl_mant d = ?m" using d m by (simp add: dbl_mant_def)
  moreover have "1075 - (1023 + j) = 52 - j" using j52 by simp
  ultimately have "dbl_is_nat d n" using d j52 by (simp add: dbl_is_nat_def)
  then show ?thesis using dbl_is_natD by blast
qed

lemma rounded_exact:
  assumes "rounded (of_nat n) d" "n < 2 ^ 53"
  shows "dbl_finite d \<and> dbl_val d = of_nat n"
proof -
  obtain d' where "dbl_finite d'" "dbl_val d' = of_nat n" using small_nat_double[OF assms(2)] by blast
  then show ?thesis using assms(1) unfolding rounded_def by force
qed

lemma in_range_less: "\<bar>q\<bar> \<le> 10 ^ 40 \<Longrightarrow> in_range q"
proof -
  have "(10 :: rat) ^ 40 \<le> 9007199254740991 * 2 ^ 971" by simp
  then show "\<bar>q\<bar> \<le> 10 ^ 40 \<Longrightarrow> in_range q" by (simp add: in_range_def)
qed


section \<open>Short numbers\<close>

definition first_value :: "fpu \<Rightarrow> 'a scan_scheme \<Rightarrow> double res" where
  \<comment> \<open>the first sixteen digits as a double\<close>
  "first_value U r =
     (let k = (if sc_nd r < DBL_DIG + 1 then sc_nd r else DBL_DIG + 1);
          rv = fp_of_ulong U (sc_y r)
      in if 9 < k then andthen (ten_at tens (int k - 9)) (\<lambda>t.
             Inr (fp_add U (fp_mul U t rv) (fp_of_ulong U (sc_z r))))
         else Inr rv)"

definition strtod_short :: "fpu \<Rightarrow> 'a scan_scheme \<Rightarrow> int \<Rightarrow> double \<Rightarrow> double option res" where
  \<comment> \<open>at most one rounding; \<open>None\<close>: go on\<close>
  "strtod_short U r e rv =
     (if sc_nd r \<le> DBL_DIG then
        if e = 0 then Inr (Some rv)
        else if 0 < e then
          if e \<le> Ten_pmax then andthen (ten_at tens e) (\<lambda>t. Inr (Some (fp_mul U rv t)))
          else
            let i = int DBL_DIG - int (sc_nd r) in
            if e \<le> Ten_pmax + i then
              andthen (ten_at tens i) (\<lambda>t.
              andthen (ten_at tens (e - i)) (\<lambda>t'. Inr (Some (fp_mul U (fp_mul U rv t) t'))))
            else Inr None
        else if - Ten_pmax \<le> e then andthen (ten_at tens (- e)) (\<lambda>t. Inr (Some (fp_div U rv t)))
        else Inr None
      else Inr None)"

lemma fpu_mul: "fpu_ieee U \<Longrightarrow> dbl_finite a \<Longrightarrow> dbl_finite b \<Longrightarrow> dbl_val a * dbl_val b = q \<Longrightarrow> in_range q
    \<Longrightarrow> rounded q (fp_mul U a b)"
  and fpu_add: "fpu_ieee U \<Longrightarrow> dbl_finite a \<Longrightarrow> dbl_finite b \<Longrightarrow> dbl_val a + dbl_val b = q \<Longrightarrow> in_range q
    \<Longrightarrow> rounded q (fp_add U a b)"
  and fpu_div: "fpu_ieee U \<Longrightarrow> dbl_finite a \<Longrightarrow> dbl_finite b \<Longrightarrow> dbl_val b \<noteq> 0 \<Longrightarrow> dbl_val a / dbl_val b = q
    \<Longrightarrow> in_range q \<Longrightarrow> rounded q (fp_div U a b)"
  and fpu_ulong: "fpu_ieee U \<Longrightarrow> dbl_finite (fp_of_ulong U y) \<and> dbl_val (fp_of_ulong U y) = of_nat (unat y)"
  by (auto simp: fpu_ieee_def)

lemma in_range_nat: "n \<le> 10 ^ 40 \<Longrightarrow> in_range (of_nat n)"
proof -
  assume "n \<le> 10 ^ 40"
  then have "(of_nat n :: rat) \<le> of_nat (10 ^ 40)" by (simp only: of_nat_le_iff)
  then show ?thesis by (intro in_range_less) simp
qed

lemma digits_small:
  assumes "list_all (is_digit_in 10) ds" "length ds \<le> n"
  shows "digits_value 10 ds < 10 ^ n"
  using digits_value_less[OF assms(1)] power_increasing[OF assms(2), of "10 :: nat"] by linarith

lemma unat_digits:
  assumes "list_all (is_digit_in 10) ds" "length ds \<le> 9"
  shows "unat (of_nat (digits_value 10 ds) :: limb) = digits_value 10 ds"
proof -
  have "digits_value 10 ds < 10 ^ 9" by (rule digits_small[OF assms])
  then show ?thesis unfolding unsigned_of_nat take_bit_eq_mod by simp
qed

lemma first_value_exact:
  assumes U: "fpu_ieee U" and r: "scanned D r" and D: "list_all (is_digit_in 10) D" "length D \<le> 15"
  shows "\<exists>d. first_value U r = Inr d \<and> dbl_finite d \<and> dbl_val d = of_nat (digits_value 10 D)"
proof -
  let ?M = "digits_value 10 D"
  have nd: "sc_nd r = length D" using r by (simp add: scanned_def)
  have y: "list_all (is_digit_in 10) (take 9 D)" "list_all (is_digit_in 10) (drop 9 D)"
    using D(1) by (auto simp: list_all_iff dest: in_set_takeD in_set_dropD)
  have vy: "unat (sc_y r) = digits_value 10 (take 9 D)"
    using r unat_digits[OF y(1)] by (simp add: scanned_def)
  show ?thesis
  proof (cases "length D \<le> 9")
    case True
    then show ?thesis using fpu_ulong[OF U, of "sc_y r"] nd vy
      by (simp add: first_value_def Let_def DBL_DIG_def)
  next
    case False
    let ?Y = "digits_value 10 (take 9 D)" and ?Z = "digits_value 10 (drop 9 D)" and ?k = "length D - 9"
    have "take 7 (drop 9 D) = drop 9 D" using D(2) by simp
    then have vz: "unat (sc_z r) = ?Z" using r unat_digits[OF y(2)] D(2) by (simp add: scanned_def)
    have M: "?M = ?Y * 10 ^ ?k + ?Z" using digits_value_app[of 10 "take 9 D" "drop 9 D"] by simp
    have "?M < 10 ^ 15" by (rule digits_small[OF D])
    then have lt: "?M < 2 ^ 53" "?Y * 10 ^ ?k < 2 ^ 53" "?M \<le> 10 ^ 40" "?Y * 10 ^ ?k \<le> 10 ^ 40"
      unfolding M by simp_all
    obtain t where t: "ten_at tens (int (length D) - 9) = Inr t" "dbl_finite t" "dbl_val t = 10 ^ ?k"
      using tens_value[of "int (length D) - 9"] False D(2) by (auto simp: Ten_pmax_def nat_diff_distrib)
    have p: "dbl_val t * dbl_val (fp_of_ulong U (sc_y r)) = of_nat (?Y * 10 ^ ?k)"
      using fpu_ulong[OF U, of "sc_y r"] t(3) vy by simp
    have prod: "dbl_finite (fp_mul U t (fp_of_ulong U (sc_y r)))"
      "dbl_val (fp_mul U t (fp_of_ulong U (sc_y r))) = of_nat (?Y * 10 ^ ?k)"
      using rounded_exact[OF fpu_mul[OF U t(2) _ p in_range_nat[OF lt(4)]] lt(2)] fpu_ulong[OF U] by blast+
    have s: "dbl_val (fp_mul U t (fp_of_ulong U (sc_y r))) + dbl_val (fp_of_ulong U (sc_z r)) = of_nat ?M"
      unfolding M using prod(2) fpu_ulong[OF U, of "sc_z r"] vz by simp
    have "dbl_finite (fp_add U (fp_mul U t (fp_of_ulong U (sc_y r))) (fp_of_ulong U (sc_z r)))
        \<and> dbl_val (fp_add U (fp_mul U t (fp_of_ulong U (sc_y r))) (fp_of_ulong U (sc_z r))) = of_nat ?M"
      using rounded_exact[OF fpu_add[OF U prod(1) _ s in_range_nat[OF lt(3)]] lt(1)] fpu_ulong[OF U] by blast
    then show ?thesis using False D(2) nd t(1) by (simp add: first_value_def Let_def DBL_DIG_def)
  qed
qed

lemma short_rounded:
  assumes U: "fpu_ieee U" and nd: "sc_nd r = n" "n \<le> 15" and M: "M < 10 ^ n"
    and rv: "dbl_finite rv" "dbl_val rv = of_nat M" and e: "-22 \<le> e" "e \<le> 22 + (15 - int n)"
  shows "\<exists>d. strtod_short U r e rv = Inr (Some d) \<and> rounded (of_nat M * 10 powi e) d"
proof -
  have "M < 10 ^ 15" using M power_increasing[OF nd(2), of "10 :: nat"] by linarith
  consider "e = 0" | "0 < e" "e \<le> 22" | "22 < e" | "e < 0" by linarith
  then show ?thesis
  proof cases
    case 1
    then show ?thesis using nd rv by (simp add: strtod_short_def DBL_DIG_def rounded_def)
  next
    case 2
    then obtain t where t: "ten_at tens e = Inr t" "dbl_finite t" "dbl_val t = 10 ^ nat e"
      using tens_value[of e] by (auto simp: Ten_pmax_def)
    have q: "dbl_val rv * dbl_val t = of_nat (M * 10 ^ nat e)" using rv t by simp
    have "M * 10 ^ nat e \<le> 10 ^ 15 * 10 ^ 22"
      using \<open>M < 10 ^ 15\<close> 2 by (intro mult_le_mono power_increasing) auto
    then have "M * 10 ^ nat e \<le> 10 ^ 40" by simp
    from fpu_mul[OF U rv(1) t(2) q in_range_nat[OF this]]
    show ?thesis using 2 nd t(1) by (simp add: strtod_short_def DBL_DIG_def Ten_pmax_def power_int_def)
  next
    case 3
    let ?i = "15 - int n"
    obtain t where t: "ten_at tens ?i = Inr t" "dbl_finite t" "dbl_val t = 10 ^ nat ?i"
      using tens_value[of ?i] nd by (auto simp: Ten_pmax_def)
    obtain t' where t': "ten_at tens (e - ?i) = Inr t'" "dbl_finite t'" "dbl_val t' = 10 ^ nat (e - ?i)"
      using tens_value[of "e - ?i"] 3 e nd by (auto simp: Ten_pmax_def)
    have q: "dbl_val rv * dbl_val t = of_nat (M * 10 ^ nat ?i)" using rv t by simp
    have "M * 10 ^ nat ?i < 10 ^ n * 10 ^ nat ?i" using M by simp
    also have "\<dots> = 10 ^ (n + nat ?i)" by (simp only: power_add)
    also have "n + nat ?i = 15" using nd(2) by simp
    finally have lt: "M * 10 ^ nat ?i < 2 ^ 53" "M * 10 ^ nat ?i \<le> 10 ^ 40" "M * 10 ^ nat ?i \<le> 10 ^ 15" by simp_all
    have x: "dbl_finite (fp_mul U rv t)" "dbl_val (fp_mul U rv t) = of_nat (M * 10 ^ nat ?i)"
      using rounded_exact[OF fpu_mul[OF U rv(1) t(2) q in_range_nat[OF lt(2)]] lt(1)] by blast+
    have ee: "nat ?i + nat (e - ?i) = nat e" using 3 nd by simp
    have q2: "dbl_val (fp_mul U rv t) * dbl_val t' = of_nat (M * 10 ^ nat e)"
      unfolding x(2) t'(3) ee[symmetric] power_add by simp
    have "M * 10 ^ nat e = (M * 10 ^ nat ?i) * 10 ^ nat (e - ?i)" unfolding ee[symmetric] power_add by simp
    also have "\<dots> \<le> 10 ^ 15 * 10 ^ 22" using lt(3) 3 e by (intro mult_le_mono power_increasing) auto
    finally have "M * 10 ^ nat e \<le> 10 ^ 40" by simp
    from fpu_mul[OF U x(1) t'(2) q2 in_range_nat[OF this]]
    show ?thesis using 3 e nd t(1) t'(1)
      by (simp add: strtod_short_def DBL_DIG_def Ten_pmax_def power_int_def Let_def)
  next
    case 4
    then obtain t where t: "ten_at tens (- e) = Inr t" "dbl_finite t" "dbl_val t = 10 ^ nat (- e)"
      using tens_value[of "- e"] e by (auto simp: Ten_pmax_def)
    have q: "dbl_val rv / dbl_val t = of_nat M * 10 powi e"
      using 4 unfolding rv(2) t(3) by (simp add: power_int_def field_simps)
    have "(1 :: rat) \<le> 10 ^ nat (- e)" by (rule one_le_power) simp
    then have "(of_nat M :: rat) * 1 \<le> of_nat M * 10 ^ nat (- e)" by (rule mult_left_mono) simp
    then have "\<bar>of_nat M * 10 powi e\<bar> \<le> (of_nat M :: rat)"
      using 4 by (simp add: power_int_def abs_mult field_simps)
    moreover have "(of_nat M :: rat) \<le> of_nat (10 ^ 15)" using \<open>M < 10 ^ 15\<close> by (simp only: of_nat_le_iff less_imp_le)
    ultimately have "in_range (of_nat M * 10 powi e)" by (intro in_range_less) simp
    from fpu_div[OF U rv(1) t(2) _ q this]
    show ?thesis using 4 e nd t(1,3) by (simp add: strtod_short_def DBL_DIG_def Ten_pmax_def)
  qed
qed


section \<open>Signs\<close>

lemma dbl_neg_fields [simp]:
  "dbl_exp (dbl_neg d) = dbl_exp d" "dbl_frac (dbl_neg d) = dbl_frac d" "dbl_sign (dbl_neg d) = (\<not> dbl_sign d)"
proof -
  have "take_bit 11 (drop_bit 52 (dbl_neg d)) = take_bit 11 (drop_bit 52 d)"
    and "take_bit 52 (dbl_neg d) = take_bit 52 d"
    by (rule bit_word_eqI; auto simp: dbl_neg_def bit_simps)+
  then show "dbl_exp (dbl_neg d) = dbl_exp d" "dbl_frac (dbl_neg d) = dbl_frac d"
    by (simp_all add: dbl_exp_def dbl_frac_def)
  show "dbl_sign (dbl_neg d) = (\<not> dbl_sign d)" by (simp add: dbl_sign_def dbl_neg_def bit_simps)
qed

lemma dbl_neg_val [simp]: "dbl_val (dbl_neg d) = - dbl_val d" "dbl_finite (dbl_neg d) = dbl_finite d"
  by (simp_all add: dbl_val_def dbl_abs_def dbl_mant_def dbl_finite_def)

lemma rounded_neg: "rounded q d \<Longrightarrow> rounded (- q) (dbl_neg d)"
proof -
  assume r: "rounded q d"
  have "\<bar>dbl_val (dbl_neg d) - - q\<bar> \<le> \<bar>dbl_val d' - - q\<bar>" if "dbl_finite d'" for d'
  proof -
    show ?thesis
      using r[unfolded rounded_def, THEN conjunct2, rule_format, of "dbl_neg d'"] that by simp
  qed
  then show ?thesis using r by (simp add: rounded_def)
qed

section \<open>A machine that rounds to a nearest double\<close>

lemma nearest_exists: "\<exists>d. rounded q d"
proof -
  let ?S = "{d :: double. dbl_finite d}"
  have "dbl_finite (0 :: double)" by (simp add: dbl_finite_def dbl_exp_def)
  then have "?S \<noteq> {}" "finite ?S" by auto
  then obtain d where "d \<in> ?S" "\<forall>d' \<in> ?S. \<bar>dbl_val d - q\<bar> \<le> \<bar>dbl_val d' - q\<bar>"
    using ex_min_if_finite[of "(\<lambda>d. \<bar>dbl_val d - q\<bar>) ` ?S"] by (auto simp: not_less)
  then show ?thesis by (auto simp: rounded_def)
qed

definition nearest :: "rat \<Rightarrow> double" where "nearest q = (SOME d. rounded q d)"

lemma nearest_rounded: "rounded q (nearest q)"
  unfolding nearest_def using nearest_exists by (rule someI_ex)

definition nearest_fpu :: fpu where
  "nearest_fpu =
     \<lparr>fp_mul = \<lambda>a b. nearest (dbl_val a * dbl_val b), fp_add = \<lambda>a b. nearest (dbl_val a + dbl_val b),
      fp_sub = \<lambda>a b. nearest (dbl_val a - dbl_val b), fp_div = \<lambda>a b. nearest (dbl_val a / dbl_val b),
      fp_of_ulong = \<lambda>y. nearest (of_nat (unat y))\<rparr>"

lemma nearest_fpu_ieee: "fpu_ieee nearest_fpu"
proof -
  have "unat y < 2 ^ 53" for y :: limb using unat_limb[of y] by simp
  then have "dbl_finite (nearest (of_nat (unat y))) \<and> dbl_val (nearest (of_nat (unat y))) = of_nat (unat y)" for y :: limb
    using rounded_exact[OF nearest_rounded] by blast
  then show ?thesis by (simp add: fpu_ieee_def nearest_fpu_def nearest_rounded)
qed

end
