(* ===== verification/Dtoa_Round.thy ===== *)
theory Dtoa_Round
  imports Dtoa_Short
begin

text \<open>
Neighbouring doubles: the distance from a normal double to every other one, and when a double is
  the correctly rounded one for a number.
\<close>

section \<open>Neighbours\<close>

definition dbl_unit :: "double \<Rightarrow> rat" where
  \<comment> \<open>the distance to the next larger double\<close>
  "dbl_unit d = 2 ^ max 1 (dbl_exp d) / 2 ^ 1075"

lemma dbl_unit_pos: "0 < dbl_unit d" by (simp add: dbl_unit_def)

lemma dbl_abs_unit: "dbl_abs d = of_nat (dbl_mant d) * dbl_unit d"
  by (simp add: dbl_abs_def dbl_unit_def)

lemma mant_bounds: "dbl_mant d < 9007199254740992" "1 \<le> dbl_exp d \<Longrightarrow> 4503599627370496 \<le> dbl_mant d"
proof -
  have "dbl_frac d < 4503599627370496" unfolding dbl_fields by simp
  then show "dbl_mant d < 9007199254740992" "1 \<le> dbl_exp d \<Longrightarrow> 4503599627370496 \<le> dbl_mant d"
    by (simp_all add: dbl_mant_def)
qed

lemma gap_nat:
  assumes m: "4503599627370496 \<le> m" "m < (9007199254740992 :: nat)" and m': "m' < (9007199254740992 :: nat)" "E < E' \<Longrightarrow> 4503599627370496 \<le> m'"
  shows "m' * 2 ^ E' = m * (2 :: nat) ^ E \<or> (m + 1) * 2 ^ E \<le> m' * 2 ^ E'
    \<or> (2 * (m' * 2 ^ E') \<le> (2 * m - (if m = 4503599627370496 then 1 else 2)) * 2 ^ E)"
proof -
  consider "E = E'" | "E < E'" | "E' < E" by linarith
  then show ?thesis
  proof cases
    case 1
    consider "m' = m" | "m + 1 \<le> m'" | "m' + 1 \<le> m" by linarith
    then show ?thesis
    proof cases
      case 3
      then have "2 * m' \<le> 2 * m - 2" "2 * m - 2 \<le> 2 * m - (if m = 4503599627370496 then 1 else 2)" by auto
      then have "2 * m' \<le> 2 * m - (if m = 4503599627370496 then 1 else 2)" by linarith
      then show ?thesis using mult_le_mono1[of "2 * m'" _ "2 ^ E"] by (simp add: 1[symmetric] mult.assoc del: mult_le_cancel2)
    qed (use 1 mult_le_mono1[of "m + 1" m' "2 ^ E"] in auto)
  next
    case 2
    have "(m + 1) * 2 ^ E \<le> 4503599627370496 * 2 ^ (E + 1)" using m(2) by simp
    also have "\<dots> \<le> m' * 2 ^ E'" by (rule mult_le_mono) (use 2 m'(2) in \<open>auto simp del: power_Suc intro!: power_increasing\<close>)
    finally show ?thesis by blast
  next
    case 3
    have p: "(2 :: nat) ^ (E' + 1) \<le> 2 ^ E" by (rule power_increasing) (use 3 in simp_all)
    have "2 * (m' * 2 ^ E') = m' * 2 ^ (E' + 1)" by simp
    also have "\<dots> \<le> 9007199254740991 * 2 ^ E" by (rule mult_le_mono[OF _ p]) (use m'(1) in simp)
    also have "\<dots> \<le> (2 * m - (if m = 4503599627370496 then 1 else 2)) * 2 ^ E"
      by (rule mult_le_mono1) (use m(1) in auto)
    finally show ?thesis by blast
  qed
qed

definition lower_gap :: "double \<Rightarrow> rat" where
  \<comment> \<open>the distance to the next smaller double\<close>
  "lower_gap d = (if dbl_frac d = 0 then dbl_unit d / 2 else dbl_unit d)"

lemma scale_le:
  fixes a b c d :: nat
  shows "a * 2 ^ E \<le> b * 2 ^ E' \<longleftrightarrow> (of_nat a * 2 ^ E / 2 ^ k :: rat) \<le> of_nat b * 2 ^ E' / 2 ^ k"
    and "a * 2 ^ E = b * 2 ^ E' \<longleftrightarrow> (of_nat a * 2 ^ E / 2 ^ k :: rat) = of_nat b * 2 ^ E' / 2 ^ k"
proof -
  have "(of_nat (a * 2 ^ E) :: rat) \<le> of_nat (b * 2 ^ E') \<longleftrightarrow> a * 2 ^ E \<le> b * 2 ^ E'"
    "(of_nat (a * 2 ^ E) :: rat) = of_nat (b * 2 ^ E') \<longleftrightarrow> a * 2 ^ E = b * 2 ^ E'" by (simp_all only: of_nat_le_iff of_nat_eq_iff)
  then show "a * 2 ^ E \<le> b * 2 ^ E' \<longleftrightarrow> (of_nat a * 2 ^ E / 2 ^ k :: rat) \<le> of_nat b * 2 ^ E' / 2 ^ k"
    and "a * 2 ^ E = b * 2 ^ E' \<longleftrightarrow> (of_nat a * 2 ^ E / 2 ^ k :: rat) = of_nat b * 2 ^ E' / 2 ^ k"
    by (simp_all add: divide_le_cancel)
qed

lemma dbl_spacing:
  assumes d: "1 \<le> dbl_exp d" "\<not> dbl_sign d"
  shows "dbl_val d' = dbl_val d \<or> dbl_val d + dbl_unit d \<le> dbl_val d' \<or> dbl_val d' \<le> dbl_val d - lower_gap d"
proof -
  let ?m = "dbl_mant d" and ?m' = "dbl_mant d'" and ?E = "max 1 (dbl_exp d)" and ?E' = "max 1 (dbl_exp d')"
  let ?c = "if ?m = 4503599627370496 then 1 else 2 :: nat"
  have m: "4503599627370496 \<le> ?m" "?m < 9007199254740992" using mant_bounds[of d] d(1) by simp_all
  have val: "dbl_val d = of_nat ?m * 2 ^ ?E / 2 ^ 1075" using d(2) by (simp add: dbl_val_def dbl_abs_def)
  have u: "dbl_val d + dbl_unit d = of_nat (?m + 1) * 2 ^ ?E / 2 ^ 1075"
    unfolding val dbl_unit_def by (simp add: field_simps del: power_Suc)
  have "?m = 4503599627370496 \<longleftrightarrow> dbl_frac d = 0" using d(1) by (auto simp: dbl_mant_def)
  then have low: "2 * (dbl_val d - lower_gap d) = of_nat (2 * ?m - ?c) * 2 ^ ?E / 2 ^ 1075"
    unfolding val lower_gap_def dbl_unit_def using m(1) by (auto simp: field_simps of_nat_diff simp del: power_Suc)
  have abs: "dbl_abs d' = dbl_val d \<or> dbl_val d + dbl_unit d \<le> dbl_abs d' \<or> dbl_abs d' \<le> dbl_val d - lower_gap d"
  proof -
    have e: "?E < ?E' \<Longrightarrow> 4503599627370496 \<le> ?m'" using mant_bounds(2)[of d'] by auto
    have "2 * (?m' * 2 ^ ?E') = (2 * ?m') * 2 ^ ?E'" by simp
    then have "?m' * 2 ^ ?E' = ?m * 2 ^ ?E \<or> (?m + 1) * 2 ^ ?E \<le> ?m' * 2 ^ ?E' \<or> (2 * ?m') * 2 ^ ?E' \<le> (2 * ?m - ?c) * 2 ^ ?E"
      using gap_nat[of ?m ?m' ?E ?E', OF m mant_bounds(1) e] by (simp only:)
    then have "dbl_abs d' = dbl_val d \<or> dbl_val d + dbl_unit d \<le> dbl_abs d' \<or> of_nat (2 * ?m') * 2 ^ ?E' / 2 ^ 1075 \<le> 2 * (dbl_val d - lower_gap d)"
      unfolding u low unfolding val dbl_abs_def scale_le[where k = 1075] .
    moreover have "of_nat (2 * ?m') * 2 ^ ?E' / 2 ^ 1075 = 2 * dbl_abs d'" by (simp add: dbl_abs_def)
    ultimately show ?thesis by auto
  qed
  show ?thesis
  proof (cases "dbl_sign d'")
    case False
    then show ?thesis using abs by (simp add: dbl_val_def)
  next
    case True
    have "(0 :: rat) \<le> of_nat (2 * ?m - ?c) * 2 ^ ?E / 2 ^ 1075" by simp
    then have "0 \<le> dbl_val d - lower_gap d" unfolding low[symmetric] by simp
    moreover have "0 \<le> dbl_abs d'" by (simp add: dbl_abs_def)
    ultimately show ?thesis using True by (simp add: dbl_val_def)
  qed
qed

section \<open>Rounding\<close>

definition correctly_rounded :: "rat \<Rightarrow> double \<Rightarrow> bool" where
  \<comment> \<open>a nearest double, and the even one if there are two\<close>
  "correctly_rounded q d \<longleftrightarrow> rounded q d
     \<and> (even (dbl_frac d) \<or> (\<forall>d'. dbl_finite d' \<longrightarrow> \<bar>dbl_val d' - q\<bar> = \<bar>dbl_val d - q\<bar> \<longrightarrow> dbl_val d' = dbl_val d))"

lemma near_rounded:
  assumes d: "1 \<le> dbl_exp d" "dbl_finite d" "\<not> dbl_sign d"
    and q: "q - dbl_val d \<le> dbl_unit d / 2" "dbl_val d - q \<le> lower_gap d / 2"
    and tie: "q - dbl_val d < dbl_unit d / 2 \<and> dbl_val d - q < lower_gap d / 2 \<or> even (dbl_frac d)"
  shows "correctly_rounded q d"
proof -
  have far: "dbl_val d' = dbl_val d \<or> (dbl_unit d / 2 \<le> dbl_val d' - q \<and> q - dbl_val d \<le> dbl_val d' - q \<and> dbl_val d - q \<le> dbl_val d' - q)
      \<or> (lower_gap d / 2 \<le> q - dbl_val d' \<and> q - dbl_val d \<le> q - dbl_val d' \<and> dbl_val d - q \<le> q - dbl_val d')" for d'
  proof -
    have g: "0 < dbl_unit d" "0 < lower_gap d" using dbl_unit_pos[of d] by (auto simp: lower_gap_def)
    consider "dbl_val d' = dbl_val d" | "dbl_val d + dbl_unit d \<le> dbl_val d'" | "dbl_val d' \<le> dbl_val d - lower_gap d"
      using dbl_spacing[OF d(1,3), of d'] by blast
    then show ?thesis
    proof cases
      case 2
      have "dbl_unit d / 2 \<le> dbl_val d' - q" using 2 q(1) by (simp add: field_simps)
      moreover have "q - dbl_val d \<le> dbl_val d' - q" using 2 q(1) by (simp add: field_simps)
      moreover have "dbl_val d - q \<le> dbl_val d' - q" using 2 g by simp
      ultimately show ?thesis by blast
    next
      case 3
      have "lower_gap d / 2 \<le> q - dbl_val d'" using 3 q(2) by (simp add: field_simps)
      moreover have "dbl_val d - q \<le> q - dbl_val d'" using 3 q(2) by (simp add: field_simps)
      moreover have "q - dbl_val d \<le> q - dbl_val d'" using 3 g by simp
      ultimately show ?thesis by blast
    qed simp
  qed
  have near: "\<bar>dbl_val d - q\<bar> \<le> \<bar>dbl_val d' - q\<bar>" for d'
    using far[of d'] by (auto simp: abs_le_iff abs_if)
  have strict: "\<bar>dbl_val d' - q\<bar> \<noteq> \<bar>dbl_val d - q\<bar> \<or> dbl_val d' = dbl_val d"
    if "q - dbl_val d < dbl_unit d / 2" "dbl_val d - q < lower_gap d / 2" for d'
  proof -
    have g: "lower_gap d \<le> dbl_unit d" using dbl_unit_pos[of d] by (simp add: lower_gap_def)
    consider "dbl_val d' = dbl_val d" | "dbl_val d + dbl_unit d \<le> dbl_val d'" | "dbl_val d' \<le> dbl_val d - lower_gap d"
      using dbl_spacing[OF d(1,3), of d'] by blast
    then show ?thesis
    proof cases
      case 2
      then have "q - dbl_val d < dbl_val d' - q" "dbl_val d - q < dbl_val d' - q"
        using that g dbl_unit_pos[of d] by (simp_all add: field_simps)
      then show ?thesis by (auto simp: abs_if)
    next
      case 3
      have "0 < lower_gap d" using dbl_unit_pos[of d] by (auto simp: lower_gap_def)
      then have "q - dbl_val d < q - dbl_val d'" "dbl_val d - q < q - dbl_val d'"
        using 3 that by (simp_all add: field_simps)
      then show ?thesis by (auto simp: abs_if)
    qed simp
  qed
  show ?thesis unfolding correctly_rounded_def rounded_def using d(2) near strict tie by blast
qed

lemma rounded_value:
  assumes "rounded (dbl_val d) r" "dbl_finite d"
  shows "dbl_finite r \<and> dbl_val r = dbl_val d"
  using assms unfolding rounded_def by force

end
