(* ===== verification/Dtoa_Start.thy ===== *)
theory Dtoa_Start
  imports Dtoa_Short
begin

text \<open>
Two parts of \<open>fpconv_strtod\<close> in \<open>3rd/lua-cjson/dtoa.c\<close> that come before its correction loop:
  the first approximation to a number that is not short, by products with powers of ten
  (\<open>strtod_start\<close>), and the reduction of a long text to its first digits (\<open>strtod_cut\<close>).
\<close>

section \<open>Words and comparisons of doubles\<close>

definition DBL_MAX_10_EXP :: int where "DBL_MAX_10_EXP = 308"
definition DBL_MAX_EXP :: int where "DBL_MAX_EXP = 1024"
definition Scale_Bit :: int where "Scale_Bit = 0x10"
definition n_bigtens :: nat where "n_bigtens = 5"

definition exp_word_of :: "int \<Rightarrow> limb" where
  \<comment> \<open>\<open>Exp_msk1*(i)\<close>\<close>
  "exp_word_of i = Exp_msk1 * word_of_int i"

definition P_exp :: limb where "P_exp = exp_word_of (int P_bits)" \<comment> \<open>\<open>P*Exp_msk1\<close>\<close>

definition add_word0 :: "double \<Rightarrow> limb \<Rightarrow> double" where
  "add_word0 d w = mk_double (word0 d + w) (word1 d)"

definition exp_bits :: "double \<Rightarrow> limb" where
  "exp_bits d = word0 d AND Exp_mask"

definition dbl_is_zero :: "double \<Rightarrow> bool" where
  "dbl_is_zero d \<longleftrightarrow> dbl_exp d = 0 \<and> dbl_frac d = 0"

definition dbl_le :: "double \<Rightarrow> double \<Rightarrow> bool" where
  \<comment> \<open>the value of an infinity, \<open>2 ^ 1024\<close>, is above all finite ones\<close>
  "dbl_le a b \<longleftrightarrow> \<not> isnan a \<and> \<not> isnan b \<and> dbl_val a \<le> dbl_val b"

definition dbl_lt :: "double \<Rightarrow> double \<Rightarrow> bool" where
  "dbl_lt a b \<longleftrightarrow> \<not> isnan a \<and> \<not> isnan b \<and> dbl_val a < dbl_val b"

section \<open>The first approximation\<close>

function (sequential) scale_loop :: "fpu \<Rightarrow> double list \<Rightarrow> nat \<Rightarrow> nat \<Rightarrow> nat \<Rightarrow> double \<Rightarrow> (double \<times> nat) res" where
  \<comment> \<open>\<open>for(j = 0; e1 > last; j++, e1 >>= 1) if (e1 & 1) rv *= ts[j]\<close>; the value and \<open>j\<close>\<close>
  "scale_loop U ts m e1 j rv =
     (if e1 \<le> m then Inr (rv, j)
      else andthen (if odd e1 then andthen (ten_at ts (int j)) (\<lambda>t. Inr (fp_mul U rv t)) else Inr rv) (\<lambda>rv.
           scale_loop U ts m (e1 div 2) (j + 1) rv))"
  by pat_completeness auto
termination by (relation "measure (\<lambda>(U, ts, m, e1, j, rv). e1)") auto

declare scale_loop.simps [simp del]

datatype start =
    Start_ovfl
  | Start_undfl
  | Start_at double int      \<comment> \<open>\<open>rv\<close> and \<open>bc.scale\<close>\<close>

definition start_large :: "fpu \<Rightarrow> int \<Rightarrow> double \<Rightarrow> start res" where
  \<comment> \<open>\<open>e1 > 0\<close>\<close>
  "start_large U e1 rv =
     andthen (if e1 AND 15 \<noteq> 0 then andthen (ten_at tens (e1 AND 15)) (\<lambda>t. Inr (fp_mul U rv t)) else Inr rv) (\<lambda>rv.
     let e1 = e1 AND NOT 15 in
     if e1 = 0 then Inr (Start_at rv 0)
     else if DBL_MAX_10_EXP < e1 then Inr Start_ovfl
     else
       andthen (scale_loop U bigtens 1 (nat (drop_bit 4 e1)) 0 rv) (\<lambda>(rv, j).
       andthen (ten_at bigtens (int j)) (\<lambda>t.
       let rv = fp_mul U (add_word0 rv (- P_exp)) t; z = exp_bits rv in
       if exp_word_of (DBL_MAX_EXP + Bias - int P_bits) < z then Inr Start_ovfl
       else if exp_word_of (DBL_MAX_EXP + Bias - 1 - int P_bits) < z then Inr (Start_at dbl_big 0)
       else Inr (Start_at (add_word0 rv P_exp) 0))))"

definition clear_low :: "double \<Rightarrow> int \<Rightarrow> double option" where
  \<comment> \<open>the scaled number will be denormal: clear its low \<open>j\<close> bits; \<open>None\<close>: nothing is left\<close>
  "clear_low rv j =
     (if 32 \<le> j then
        if 54 < j then None
        else Some (mk_double (if 53 \<le> j then exp_word_of (int P_bits + 2)
                              else word0 rv AND push_bit (nat (j - 32)) 0xffffffff) 0)
      else Some (mk_double (word0 rv) (word1 rv AND push_bit (nat j) 0xffffffff)))"

definition start_small :: "fpu \<Rightarrow> int \<Rightarrow> double \<Rightarrow> start res" where
  \<comment> \<open>\<open>e1 < 0\<close>, here with its sign changed\<close>
  "start_small U e1 rv =
     andthen (if e1 AND 15 \<noteq> 0 then andthen (ten_at tens (e1 AND 15)) (\<lambda>t. Inr (fp_div U rv t)) else Inr rv) (\<lambda>rv.
     let e1 = drop_bit 4 e1 in
     if e1 = 0 then Inr (Start_at rv 0)
     else if 2 ^ n_bigtens \<le> e1 then Inr Start_undfl
     else
       let scale = (if e1 AND Scale_Bit \<noteq> 0 then 2 * int P_bits else 0) in
       andthen (scale_loop U tinytens 0 (nat e1) 0 rv) (\<lambda>(rv, _).
       let j = 2 * int P_bits + 1 - int (unat (drop_bit Exp_shift (exp_bits rv))) in
       case (if scale \<noteq> 0 \<and> 0 < j then clear_low rv j else Some rv) of
         None \<Rightarrow> Inr Start_undfl
       | Some rv \<Rightarrow> if dbl_is_zero rv then Inr Start_undfl else Inr (Start_at rv scale)))"

definition strtod_start :: "fpu \<Rightarrow> int \<Rightarrow> double \<Rightarrow> start res" where
  "strtod_start U e1 rv =
     (if 0 < e1 then start_large U e1 rv
      else if e1 < 0 then andthen (c_int (- e1)) (\<lambda>e1. start_small U e1 rv)
      else Inr (Start_at rv 0))"

section \<open>Long texts\<close>

definition strtod_diglim :: nat where "strtod_diglim = 40"

definition text_at :: "string \<Rightarrow> int \<Rightarrow> char res" where
  \<comment> \<open>the character at an offset, up to the terminator\<close>
  "text_at t i = (if 0 \<le> i \<and> i \<le> int (length t) then Inr (ch_at t (nat i)) else Inl (UB Oob_read))"

function (sequential) drop_zeros :: "string \<Rightarrow> nat \<Rightarrow> BCinfo \<Rightarrow> int \<Rightarrow> int \<Rightarrow> int res" where
  \<comment> \<open>from the \<open>i\<close>th digit back, over the point, to a digit that is not 0\<close>
  "drop_zeros t s0 bc i j =
     (let j = j - 1; j = (if j < bc_dp1 bc \<and> bc_dp0 bc \<le> j then bc_dp0 bc - 1 else j) in
      andthen (text_at t (int s0 + j)) (\<lambda>c. if c \<noteq> CHR ''0'' then Inr i else drop_zeros t s0 bc (i - 1) j))"
  by pat_completeness auto
termination
  by (relation "measure (\<lambda>(t, s0, bc, i, j). nat (int s0 + j + 1))") (auto simp: text_at_def split: if_splits)

declare drop_zeros.simps [simp del]

fun read_y :: "string \<Rightarrow> int \<Rightarrow> nat \<Rightarrow> limb \<Rightarrow> limb res" where
  \<comment> \<open>\<open>y = 10*y + *p++ - '0'\<close>, so many times\<close>
  "read_y t p 0 y = Inr y"
| "read_y t p (Suc n) y = andthen (text_at t p) (\<lambda>c. read_y t (p + 1) n (10 * y + digit_word c))"

definition strtod_cut :: "string \<Rightarrow> nat \<Rightarrow> BCinfo \<Rightarrow> int \<Rightarrow> int \<Rightarrow> int \<Rightarrow> limb \<Rightarrow> (int \<times> int \<times> int \<times> limb) res" where
  \<comment> \<open>more than 40 digits: go on with at most 18 of them; \<open>e\<close>, \<open>nd\<close>, \<open>nd0\<close> and \<open>y\<close>\<close>
  "strtod_cut t s0 bc e nd nd0 y =
     (if nd \<le> int strtod_diglim then Inr (e, nd, nd0, y)
      else
        let j = (if nd0 < 18 then 18 + bc_dplen bc else 18) in
        andthen (drop_zeros t s0 bc 18 j) (\<lambda>i.
        andthen (c_int (e + (nd - i))) (\<lambda>e.
        let nd = i; nd0 = (if nd < nd0 then nd else nd0) in
        andthen (if nd < 9 then
                   andthen (read_y t (int s0) (nat nd0) 0) (\<lambda>y.
                   read_y t (int s0 + bc_dp1 bc) (nat (nd - nd0)) y)
                 else Inr y) (\<lambda>y.
        Inr (e, nd, nd0, y)))))"

end
