(* ===== verification/Dtoa_Error.thy ===== *)
theory Dtoa_Error
  imports Dtoa_Round Dtoa_Start
begin

text \<open>
The error of one operation on doubles: which rationals are doubles (\<open>dyadic_double\<close>), that
  rounding keeps the order and the doubles themselves, and the bounds of the error of a rounded
  result, absolute (\<open>rounded_error\<close>) and relative (\<open>rounded_rel\<close>). They serve the floating-point
  parts of \<open>dtoa\<close> in \<open>3rd/lua-cjson/dtoa.c\<close>.
\<close>

section \<open>Numbers that are doubles\<close>

lemma fields_val:
  assumes "dbl_exp d = e" "dbl_mant d = m" "\<not> dbl_sign d"
  shows "dbl_val d = of_nat m * 2 powi (int (max 1 e) - 1075)"
proof -
  have "(2 :: rat) powi (int (max 1 e) - 1075) = 2 powi int (max 1 e) / 2 powi 1075" by (rule power_int_diff) simp
  also have "\<dots> = 2 ^ max 1 e / 2 ^ 1075" by (simp only: power_int_of_nat power_int_numeral)
  finally show ?thesis using assms by (simp only: dbl_val_def dbl_abs_def if_False times_divide_eq_right)
qed

lemma small_mant_exists:
  assumes "m < 9007199254740992" "4503599627370496 \<le> m \<or> e = - 1074" "- 1074 \<le> e" "e \<le> 971"
  shows "\<exists>d. dbl_finite d \<and> \<not> dbl_sign d \<and> dbl_val d = of_nat m * 2 powi e"
proof (cases "4503599627370496 \<le> m")
  case True
  have "nat (e + 1075) < 2048" "m - 4503599627370496 < 2 ^ 52" using assms by auto
  then obtain d where d: "dbl_exp d = nat (e + 1075)" "dbl_frac d = m - 4503599627370496" "\<not> dbl_sign d"
    using double_fields_exist by blast
  have "dbl_mant d = m" "int (max 1 (nat (e + 1075))) - 1075 = e" using d assms True by (simp_all add: dbl_mant_def)
  then have "dbl_val d = of_nat m * 2 powi e" using fields_val[OF d(1) _ d(3)] by simp
  then show ?thesis using d assms by (intro exI[of _ d]) (simp add: dbl_finite_def)
next
  case False
  obtain d where d: "dbl_exp d = 0" "dbl_frac d = m" "\<not> dbl_sign d"
    using double_fields_exist[of 0 m] False by auto
  have "dbl_mant d = m" using d by (simp add: dbl_mant_def)
  then have "dbl_val d = of_nat m * 2 powi (- 1074)" using fields_val[OF d(1) _ d(3)] by simp
  then show ?thesis using d False assms(2) by (intro exI[of _ d]) (simp add: dbl_finite_def)
qed

lemma dyadic_double:
  assumes "m \<le> 9007199254740992" "- 1074 \<le> e" "e \<le> 970"
  shows "\<exists>d. dbl_finite d \<and> \<not> dbl_sign d \<and> dbl_val d = of_nat m * 2 powi e"
proof -
  consider "m = 0" | "m = 9007199254740992" | "0 < m" "m < 9007199254740992" using assms(1) by linarith
  then show ?thesis
  proof cases
    case 1
    then show ?thesis using small_mant_exists[of 0 "- 1074"] by simp
  next
    case 2
    have "(2 :: rat) powi (e + 1) = 2 * 2 powi e" by (simp add: power_int_add)
    then show ?thesis using 2 small_mant_exists[of 4503599627370496 "e + 1"] assms by simp
  next
    case 3
    obtain l where l: "2 ^ l \<le> m" "m < 2 ^ (l + 1)" using ex_power_ivl1[of 2 m] 3 by auto
    have "(2::nat) ^ l < 2 ^ 53" using l(1) 3 by simp
    then have l52: "l \<le> 52" using power_less_imp_less_exp[of "2::nat" l 53] by simp
    define s where "s = min (52 - l) (nat (e + 1074))"
    have s: "int s \<le> e + 1074" "l + s \<le> 52" using assms l52 by (auto simp: s_def min_def)
    have "m * 2 ^ s < 2 ^ (l + 1) * 2 ^ s" using l by simp
    also have "\<dots> \<le> 2 ^ 53" unfolding power_add[symmetric] using s by (intro power_increasing) auto
    finally have b: "m * 2 ^ s < 9007199254740992" by simp
    have b2: "4503599627370496 \<le> m * 2 ^ s \<or> e - int s = - 1074"
    proof (cases "s = 52 - l")
      case True
      have "(2::nat) ^ l * 2 ^ s \<le> m * 2 ^ s" using l by simp
      moreover have "(2::nat) ^ l * 2 ^ s = 2 ^ 52" unfolding power_add[symmetric] using True l52 by simp
      ultimately show ?thesis by simp
    next
      case False
      then show ?thesis using assms by (auto simp: s_def min_def split: if_splits)
    qed
    obtain d where d: "dbl_finite d" "\<not> dbl_sign d" "dbl_val d = of_nat (m * 2 ^ s) * 2 powi (e - int s)"
      using small_mant_exists[OF b b2] s assms by auto
    have "(2 :: rat) powi (e - int s) = 2 powi e / 2 ^ s" by (simp add: power_int_diff)
    then show ?thesis using d by (intro exI[of _ d]) simp
  qed
qed

lemma dyadic_double_int:
  assumes "\<bar>m\<bar> \<le> 9007199254740992" "- 1074 \<le> e" "e \<le> 970"
  shows "\<exists>d. dbl_finite d \<and> dbl_val d = of_int m * 2 powi e"
proof -
  obtain d where d: "dbl_finite d" "dbl_val d = of_nat (nat \<bar>m\<bar>) * 2 powi e"
    using dyadic_double[OF _ assms(2,3), of "nat \<bar>m\<bar>"] assms(1) by (metis nat_le_iff of_nat_numeral)
  show ?thesis
  proof (cases "0 \<le> m")
    case True
    then show ?thesis using d by (intro exI[of _ d]) simp
  next
    case False
    then show ?thesis using d by (intro exI[of _ "dbl_neg d"]) simp
  qed
qed

section \<open>Rounding\<close>

lemma rounded_le: 
  assumes "rounded q d" "dbl_finite e" "q \<le> dbl_val e"
  shows "dbl_val d \<le> dbl_val e"
proof -
  have "\<bar>dbl_val d - q\<bar> \<le> \<bar>dbl_val e - q\<bar>" using assms(1,2) unfolding rounded_def by blast
  then show ?thesis using assms(3) by linarith
qed

lemma rounded_ge: 
  assumes "rounded q d" "dbl_finite e" "dbl_val e \<le> q"
  shows "dbl_val e \<le> dbl_val d"
proof -
  have "\<bar>dbl_val d - q\<bar> \<le> \<bar>dbl_val e - q\<bar>" using assms(1,2) unfolding rounded_def by blast
  then show ?thesis using assms(3) by linarith
qed

lemma rounded_dyadic:
  assumes "rounded q d" "q = of_int m * 2 powi e" "\<bar>m\<bar> \<le> 9007199254740992" "- 1074 \<le> e" "e \<le> 970"
  shows "dbl_val d = q"
proof -
  obtain g where g: "dbl_finite g" "dbl_val g = q" using dyadic_double_int[OF assms(3-5)] assms(2) by auto
  then show ?thesis using rounded_le[OF assms(1) g(1)] rounded_ge[OF assms(1) g(1)] by simp
qed

lemma rounded_error:
  assumes r: "rounded q d" and q: "\<bar>q\<bar> \<le> 9007199254740992 * 2 powi e" and e: "- 1074 \<le> e" "e \<le> 970"
  shows "\<bar>dbl_val d - q\<bar> \<le> 2 powi e / 2"
proof -
  have p: "(0 :: rat) < 2 powi e" by (simp add: zero_less_power_int)
  let ?m = "round (q / 2 powi e)"
  have "\<bar>q / 2 powi e\<bar> \<le> 9007199254740992" using q p by (simp add: abs_divide field_simps)
  then have "- 9007199254740992 \<le> q / 2 powi e" "q / 2 powi e \<le> 9007199254740992" by linarith+
  then have "round (- 9007199254740992 :: rat) \<le> ?m" "?m \<le> round (9007199254740992 :: rat)" by (simp_all only: round_mono)
  moreover have "round (- 9007199254740992 :: rat) = - 9007199254740992" "round (9007199254740992 :: rat) = 9007199254740992"
    using round_of_int[of "- 9007199254740992", where ?'a = rat] by simp_all
  ultimately have m: "\<bar>?m\<bar> \<le> 9007199254740992" by linarith
  obtain g where g: "dbl_finite g" "dbl_val g = of_int ?m * 2 powi e" using dyadic_double_int[OF m e] by auto
  have "\<bar>of_int ?m - q / 2 powi e\<bar> \<le> 1 / 2" by (rule of_int_round_abs_le)
  then have "\<bar>of_int ?m - q / 2 powi e\<bar> * 2 powi e \<le> 1 / 2 * 2 powi e" using p by (intro mult_right_mono) auto
  moreover have "\<bar>of_int ?m - q / 2 powi e\<bar> * 2 powi e = \<bar>dbl_val g - q\<bar>"
  proof -
    have "dbl_val g - q = (of_int ?m - q / 2 powi e) * 2 powi e" unfolding g(2) using p by (simp add: left_diff_distrib)
    then show ?thesis using p by (simp only: abs_mult abs_of_pos)
  qed
  ultimately have "\<bar>dbl_val g - q\<bar> \<le> 2 powi e / 2" by simp
  moreover have "\<bar>dbl_val d - q\<bar> \<le> \<bar>dbl_val g - q\<bar>" using r g(1) unfolding rounded_def by blast
  ultimately show ?thesis by linarith
qed

lemma powi_less_exp: "1 < (a :: rat) \<Longrightarrow> a powi m < a powi n \<Longrightarrow> m < n"
  using power_int_increasing[of n m a] by (cases "m < n") auto

lemma binary_decade:
  assumes "2 powi (- 1022) \<le> q" "q < 2 powi (1023 :: int)"
  shows "\<exists>e. - 1022 \<le> e \<and> e \<le> 1022 \<and> 2 powi e \<le> q \<and> q < (2 :: rat) powi (e + 1)"
proof -
  define K where "K = (2 :: rat) powi 1022"
  have K: "0 < K" "2 powi (- 1022) = 1 / K" by (simp_all add: K_def zero_less_power_int power_int_minus_divide)
  let ?n = "nat \<lfloor>q * K\<rfloor>"
  have "1 \<le> q * K" using assms(1) K by (simp add: field_simps)
  then have fl: "1 \<le> \<lfloor>q * K\<rfloor>" by simp
  then have n: "of_nat ?n \<le> q * K" "q * K < of_nat ?n + 1" "0 < ?n"
    using floor_correct[of "q * K"] by simp_all
  obtain l where l: "2 ^ l \<le> ?n" "?n < 2 ^ (l + 1)" using ex_power_ivl1[of 2 ?n] n(3) by auto
  have "(of_nat (2 ^ l) :: rat) \<le> of_nat ?n" "(of_nat (Suc ?n) :: rat) \<le> of_nat (2 ^ (l + 1))"
    using l by (simp_all only: of_nat_le_iff Suc_le_eq)
  then have b: "2 ^ l \<le> q * K" "q * K < 2 ^ (l + 1)" using n by (simp_all only: of_nat_power of_nat_numeral of_nat_Suc)
  have e: "(2 :: rat) powi (int l - 1022) = 2 ^ l / K" "(2 :: rat) powi (int l - 1022 + 1) = 2 ^ (l + 1) / K"
    by (simp_all add: K_def power_int_diff power_int_add)
  have q: "2 powi (int l - 1022) \<le> q" "q < 2 powi (int l - 1022 + 1)" unfolding e using b K by (simp_all add: field_simps)
  have "(2 :: rat) powi (int l - 1022) < 2 powi 1023" using q(1) assms(2) by (rule le_less_trans)
  then have "int l - 1022 < 1023" by (rule powi_less_exp[rotated]) simp
  then show ?thesis using q by (intro exI[of _ "int l - 1022"]) simp
qed

lemma rounded_rel:
  assumes r: "rounded q d" and q: "\<bar>q\<bar> < 2 powi (1023 :: int)" and low: "2 powi (- 1022) \<le> \<bar>q\<bar> \<or> q = of_int z * 2 powi (- 1074)"
  shows "\<bar>dbl_val d - q\<bar> \<le> \<bar>q\<bar> / 2 ^ 53"
proof (cases "2 powi (- 1022) \<le> \<bar>q\<bar>")
  case True
  obtain e where e: "- 1022 \<le> e" "e \<le> 1022" "2 powi e \<le> \<bar>q\<bar>" "\<bar>q\<bar> < 2 powi (e + 1)" using binary_decade[OF True q] by blast
  have p: "(2 :: rat) powi (e + 1) = 9007199254740992 * 2 powi (e - 52)" "(2 :: rat) powi (e - 52) = 2 powi e / 2 ^ 52"
    by (simp_all add: power_int_add power_int_diff)
  have "\<bar>dbl_val d - q\<bar> \<le> 2 powi (e - 52) / 2" by (rule rounded_error[OF r]) (use e p in simp_all)
  also have "\<dots> = 2 powi e / 2 ^ 53" unfolding p(2) by simp
  also have "\<dots> \<le> \<bar>q\<bar> / 2 ^ 53" using e(3) by (intro divide_right_mono) auto
  finally show ?thesis .
next
  case False
  then have z: "q = of_int z * 2 powi (- 1074)" "\<bar>q\<bar> < 2 powi (- 1022)" using low by auto
  have "(2 :: rat) powi (- 1022) = 4503599627370496 * 2 powi (- 1074)" 
  proof -
    have "(2 :: rat) powi (52 + - 1074) = 2 powi 52 * 2 powi (- 1074)" by (rule power_int_add) simp
    then show ?thesis by simp
  qed
  then have "\<bar>of_int z\<bar> * 2 powi (- 1074) < (4503599627370496 :: rat) * 2 powi (- 1074)" using z by (simp add: abs_mult)
  moreover have "(0 :: rat) < 2 powi (- 1074)" by (rule zero_less_power_int) simp
  ultimately have "\<bar>of_int z\<bar> < (4503599627370496 :: rat)" by (simp only: mult_less_cancel_right_pos)
  then have "\<bar>z\<bar> \<le> 9007199254740992" by linarith
  then have "dbl_val d = q" by (rule rounded_dyadic[OF r z(1)]) simp_all
  then show ?thesis by simp
qed

lemma in_range_small: "\<bar>q\<bar> < 2 powi (1023 :: int) \<Longrightarrow> in_range q"
  by (simp add: in_range_def)

lemma dbl_le_iff: "dbl_finite a \<Longrightarrow> dbl_finite b \<Longrightarrow> dbl_le a b \<longleftrightarrow> dbl_val a \<le> dbl_val b"
  and dbl_lt_iff: "dbl_finite a \<Longrightarrow> dbl_finite b \<Longrightarrow> dbl_lt a b \<longleftrightarrow> dbl_val a < dbl_val b"
  by (simp_all add: dbl_le_def dbl_lt_def dbl_finite_def isnan_def)

lemma dbl_is_zero_iff: "dbl_is_zero d \<longleftrightarrow> dbl_val d = 0"
  by (auto simp: dbl_is_zero_def dbl_val_def dbl_abs_def dbl_mant_def)

end
