(* ===== verification/Dtoa_Correct.thy ===== *)
theory Dtoa_Correct
  imports Dtoa_Start
begin

text \<open>
The correction loop of \<open>fpconv_strtod\<close> in \<open>3rd/lua-cjson/dtoa.c\<close>: each round compares the
  approximation \<open>rv = bb * 2^bbe\<close> with the decimal number \<open>bd * 10^e\<close> as bignums, \<open>delta\<close>
  being their difference and \<open>bs\<close> half a unit in the last place of \<open>rv\<close>, on a common scale.
\<close>

section \<open>The two numbers to compare\<close>

definition Bndry_mask :: limb where "Bndry_mask = 0xfffff"
definition Bndry_mask1 :: limb where "Bndry_mask1 = 0xfffff"
definition LSB :: limb where "LSB = 1"
definition Log2P :: int where "Log2P = 1"
definition Tiny1 :: limb where "Tiny1 = 1"

record corr_exp =
  ce_bb2 :: int
  ce_bd2 :: int
  ce_bs2 :: int
  ce_bb5 :: int
  ce_bd5 :: int
  ce_Lsb :: limb
  ce_Lsb1 :: limb

definition corr_lsb :: "int \<Rightarrow> int \<Rightarrow> int \<Rightarrow> int \<times> limb \<times> limb" where
  \<comment> \<open>\<open>j\<close>, \<open>Lsb\<close> and \<open>Lsb1\<close>\<close>
  "corr_lsb bbe bbbits scale =
     (let i = bbe - scale + bbbits - 1; j = int P_bits + 1 - bbbits in
      if i < Emin then
        let i = Emin - i in
        (j - i,
         if i < 32 then push_bit (nat i) LSB else LSB,
         if i < 32 then 0 else if i < 52 then push_bit (nat (i - 32)) LSB else Exp_mask)
      else (j, LSB, 0))"

definition corr_exps :: "int \<Rightarrow> int \<Rightarrow> int \<Rightarrow> int \<Rightarrow> corr_exp res" where
  \<comment> \<open>the powers of 2 and 5 for \<open>bb\<close>, \<open>bd\<close> and \<open>bs\<close>\<close>
  "corr_exps e bbe bbbits scale =
     andthen (if 0 \<le> e then Inr (0, e) else andthen (c_int (- e)) (\<lambda>x. Inr (x, 0))) (\<lambda>(b5, d5).
     andthen (if 0 \<le> bbe then andthen (c_int (b5 + bbe)) (\<lambda>x. Inr (x, d5))
              else andthen (c_int (d5 - bbe)) (\<lambda>x. Inr (b5, x))) (\<lambda>(bb2, bd2).
     let bs2 = bb2; (j, Lsb, Lsb1) = corr_lsb bbe bbbits scale in
     andthen (c_int (bb2 + j)) (\<lambda>bb2.
     andthen (c_int (bd2 + j)) (\<lambda>bd2.
     andthen (c_int (bd2 + scale)) (\<lambda>bd2.
     let i = (if bb2 < bd2 then bb2 else bd2); i = (if bs2 < i then bs2 else i);
         i = (if 0 < i then i else 0)
     in Inr \<lparr>ce_bb2 = bb2 - i, ce_bd2 = bd2 - i, ce_bs2 = bs2 - i, ce_bb5 = b5, ce_bd5 = d5,
             ce_Lsb = Lsb, ce_Lsb1 = Lsb1\<rparr>)))))"

record corr_nums =
  cn_bb :: nat
  cn_bd :: nat
  cn_bs :: nat
  cn_delta :: nat

definition shift_if :: "alloc \<Rightarrow> dtoa_state \<Rightarrow> nat \<Rightarrow> int \<Rightarrow> (dtoa_state \<times> nat) res" where
  \<comment> \<open>\<open>if (k > 0) b = lshift(b, k)\<close>\<close>
  "shift_if A s b k = (if 0 < k then lshift A s b k else Inr (s, b))"

definition pow5_if :: "alloc \<Rightarrow> dtoa_state \<Rightarrow> nat \<Rightarrow> int \<Rightarrow> (dtoa_state \<times> nat) res" where
  "pow5_if A s b k = (if 0 < k then pow5mult A s b k else Inr (s, b))"

definition corr_mult :: "alloc \<Rightarrow> dtoa_state \<Rightarrow> nat \<Rightarrow> nat \<Rightarrow> int \<Rightarrow> (dtoa_state \<times> nat \<times> nat) res" where
  \<comment> \<open>\<open>bs\<close> and \<open>bb\<close> times \<open>5 ^ bb5\<close>\<close>
  "corr_mult A s bs bb bb5 =
     (if 0 < bb5 then
        andthen (pow5mult A s bs bb5) (\<lambda>(s, bs).
        andthen (mult A s bs bb) (\<lambda>(s, bb1).
        andthen (Bfree s (Some bb)) (\<lambda>s. Inr (s, bs, bb1))))
      else Inr (s, bs, bb))"

definition corr_compare :: "alloc \<Rightarrow> dtoa_state \<Rightarrow> nat \<Rightarrow> nat \<Rightarrow> nat \<Rightarrow> (dtoa_state \<times> corr_nums \<times> int \<times> int) res" where
  \<comment> \<open>\<open>delta\<close>, \<open>bc.dsign\<close> and the comparison \<open>i\<close>\<close>
  "corr_compare A s bb bd bs =
     andthen (diff A s bb bd) (\<lambda>(s, delta).
     andthen (deref s delta) (\<lambda>D.
     let s = update s delta (D\<lparr>bg_sign := 0\<rparr>) in
     andthen (cmp s delta bs) (\<lambda>i.
     Inr (s, \<lparr>cn_bb = bb, cn_bd = bd, cn_bs = bs, cn_delta = delta\<rparr>, bg_sign D, i))))"

definition corr_apply :: "alloc \<Rightarrow> dtoa_state \<Rightarrow> nat \<Rightarrow> nat \<Rightarrow> nat \<Rightarrow> corr_exp \<Rightarrow> (dtoa_state \<times> corr_nums \<times> int \<times> int) res" where
  "corr_apply A s bb bd bs x =
     andthen (corr_mult A s bs bb (ce_bb5 x)) (\<lambda>(s, bs, bb).
     andthen (shift_if A s bb (ce_bb2 x)) (\<lambda>(s, bb).
     andthen (pow5_if A s bd (ce_bd5 x)) (\<lambda>(s, bd).
     andthen (shift_if A s bd (ce_bd2 x)) (\<lambda>(s, bd).
     andthen (shift_if A s bs (ce_bs2 x)) (\<lambda>(s, bs).
     corr_compare A s bb bd bs)))))"

definition corr_setup :: "alloc \<Rightarrow> dtoa_state \<Rightarrow> nat \<Rightarrow> int \<Rightarrow> double \<Rightarrow> int \<Rightarrow>
    (dtoa_state \<times> corr_nums \<times> corr_exp \<times> double \<times> int \<times> int) res" where
  "corr_setup A s bd0 e rv scale =
     andthen (deref s bd0) (\<lambda>B0.
     andthen (Balloc A s (bg_k B0)) (\<lambda>(s, bd).
     andthen (Bcopy s bd bd0) (\<lambda>s.
     andthen (d2b A s rv) (\<lambda>(s, bb, bbe, bbbits, rv).
     andthen (i2b A s 1) (\<lambda>(s, bs).
     andthen (corr_exps e bbe bbbits scale) (\<lambda>x.
     andthen (corr_apply A s bb bd bs x) (\<lambda>(s, n, dsign, i).
     Inr (s, n, x, rv, dsign, i))))))))"

section \<open>One step of the correction\<close>

datatype outcome =
    Go_on       \<comment> \<open>\<open>goto cont\<close>\<close>
  | Stop        \<comment> \<open>\<open>break\<close>\<close>
  | Ovfl
  | Undfl

type_synonym verdict = "double \<times> BCinfo \<times> outcome"

definition undfl_or_check :: "int \<Rightarrow> double \<Rightarrow> BCinfo \<Rightarrow> verdict" where
  \<comment> \<open>\<open>if (bc.nd > nd) { bc.uflchk = 1; break; } goto undfl\<close>\<close>
  "undfl_or_check nd rv bc =
     (if nd < bc_nd bc then (rv, bc\<lparr>bc_uflchk := 1\<rparr>, Stop) else (rv, bc, Undfl))"

definition drop_down :: "int \<Rightarrow> double \<Rightarrow> BCinfo \<Rightarrow> verdict" where
  \<comment> \<open>a power of two: decrement the exponent\<close>
  "drop_down nd rv bc =
     (let L = exp_bits rv in
      if bc_scale bc \<noteq> 0 \<and> L \<le> exp_word_of (2 * int P_bits + 1) then
        (if exp_word_of (int P_bits + 2) < L then (rv, bc, Stop) else undfl_or_check nd rv bc)
      else
        let rv = mk_double ((L - Exp_msk1) OR Bndry_mask1) 0xffffffff
        in (rv, bc, if nd < bc_nd bc then Go_on else Stop))"

definition num_zero :: "dtoa_state \<Rightarrow> nat \<Rightarrow> bool res" where
  \<comment> \<open>\<open>!b->x[0] && b->wds <= 1\<close>\<close>
  "num_zero s b =
     andthen (deref s b) (\<lambda>B. andthen (peek_word B 0) (\<lambda>x. Inr (x = 0 \<and> bg_wds B \<le> 1)))"

definition corr_below :: "alloc \<Rightarrow> dtoa_state \<Rightarrow> corr_nums \<Rightarrow> int \<Rightarrow> double \<Rightarrow> BCinfo \<Rightarrow> (dtoa_state \<times> corr_nums \<times> verdict) res" where
  \<comment> \<open>the error is less than half a unit\<close>
  "corr_below A s n nd rv bc =
     (if bc_dsign bc \<noteq> 0 \<or> word1 rv \<noteq> 0 \<or> word0 rv AND Bndry_mask \<noteq> 0 \<or> exp_bits rv \<le> exp_word_of (2 * int P_bits + 1)
      then Inr (s, n, rv, bc, Stop)
      else
        andthen (num_zero s (cn_delta n)) (\<lambda>exact.
        if exact then Inr (s, n, rv, bc, Stop)
        else
          andthen (lshift A s (cn_delta n) Log2P) (\<lambda>(s, delta).
          andthen (cmp s delta (cn_bs n)) (\<lambda>i.
          Inr (s, n\<lparr>cn_delta := delta\<rparr>, if 0 < i then drop_down nd rv bc else (rv, bc, Stop))))))"

definition shl32 :: "limb \<Rightarrow> int \<Rightarrow> limb res" where
  "shl32 w k = (if 0 \<le> k \<and> k < 32 then Inr (push_bit (nat k) w) else Inl (UB Bad_shift))"

definition round_even :: "fpu \<Rightarrow> corr_exp \<Rightarrow> int \<Rightarrow> double \<Rightarrow> BCinfo \<Rightarrow> verdict" where
  "round_even U x nd rv bc =
     (if (if ce_Lsb1 x \<noteq> 0 then word0 rv AND ce_Lsb1 x = 0 else word1 rv AND ce_Lsb x = 0) then (rv, bc, Stop)
      else if bc_dsign bc \<noteq> 0 then
        (fp_add U rv (sulp (fp_mul U) rv bc), bc\<lparr>bc_dsign := 1 - bc_dsign bc\<rparr>, Stop)
      else
        let rv = fp_sub U rv (sulp (fp_mul U) rv bc) in
        if dbl_is_zero rv then undfl_or_check nd rv bc
        else (rv, bc\<lparr>bc_dsign := 1 - bc_dsign bc\<rparr>, Stop))"

definition corr_tie :: "fpu \<Rightarrow> corr_exp \<Rightarrow> int \<Rightarrow> double \<Rightarrow> BCinfo \<Rightarrow> verdict res" where
  \<comment> \<open>exactly half-way between\<close>
  "corr_tie U x nd rv bc =
     (if bc_dsign bc \<noteq> 0 then
        andthen (if word0 rv AND Bndry_mask1 \<noteq> Bndry_mask1 then Inr False
                 else if bc_scale bc \<noteq> 0 \<and> exp_bits rv \<le> exp_word_of (2 * int P_bits) then
                   andthen (shl32 0xffffffff (2 * int P_bits + 1 - int (unat (drop_bit Exp_shift (exp_bits rv))))) (\<lambda>m.
                   Inr (word1 rv = m))
                 else Inr (word1 rv = 0xffffffff)) (\<lambda>boundary.
        if boundary then
          if word0 rv = Big0 \<and> word1 rv = Big1 then Inr (rv, bc, Ovfl)
          else Inr (mk_double (exp_bits rv + Exp_msk1) 0, bc\<lparr>bc_dsign := 0\<rparr>, Stop)
        else Inr (round_even U x nd rv bc))
      else if word0 rv AND Bndry_mask = 0 \<and> word1 rv = 0 then Inr (drop_down nd rv bc)
      else Inr (round_even U x nd rv bc))"

definition dbl_1 :: double where "dbl_1 = 0x3ff0000000000000"
definition dbl_2 :: double where "dbl_2 = 0x4000000000000000"
definition dbl_half :: double where "dbl_half = 0x3fe0000000000000"
definition dbl_7fffffff :: double where "dbl_7fffffff = 0x41dfffffffc00000"
definition dbl_lo :: double where "dbl_lo = 0x3fdfffff94a03595"        \<comment> \<open>\<open>.4999999\<close>\<close>
definition dbl_hi :: double where "dbl_hi = 0x3fe0000035afe535"        \<comment> \<open>\<open>.5000001\<close>\<close>
definition dbl_lo2 :: double where "dbl_lo2 = 0x3fcfffff94a03595"       \<comment> \<open>\<open>.4999999/FLT_RADIX\<close>\<close>

definition corr_amount :: "fpu \<Rightarrow> int \<Rightarrow> double \<Rightarrow> double \<Rightarrow> BCinfo \<Rightarrow> (double \<times> double) + verdict" where
  \<comment> \<open>\<open>aadj\<close> and \<open>aadj1\<close>, from the ratio\<close>
  "corr_amount U nd aadj rv bc =
     (if dbl_le aadj dbl_2 then
        if bc_dsign bc \<noteq> 0 then Inl (dbl_1, dbl_1)
        else if word1 rv \<noteq> 0 \<or> word0 rv AND Bndry_mask \<noteq> 0 then
          if word1 rv = Tiny1 \<and> word0 rv = 0 then Inr (undfl_or_check nd rv bc)
          else Inl (dbl_1, dbl_neg dbl_1)
        else
          let aadj = (if dbl_lt aadj dbl_1 then dbl_half else fp_mul U aadj dbl_half)
          in Inl (aadj, dbl_neg aadj)
      else
        let aadj = fp_mul U aadj dbl_half
        in Inl (aadj, if bc_dsign bc \<noteq> 0 then aadj else dbl_neg aadj))"

definition dbl_to_word :: "double \<Rightarrow> limb res" where
  \<comment> \<open>conversion to \<open>ULong\<close>\<close>
  "dbl_to_word d =
     (if \<not> dbl_finite d \<or> dbl_trunc d < 0 \<or> 4294967295 < dbl_trunc d then Inl (UB Float_to_int)
      else Inr (word_of_int (dbl_trunc d)))"

definition dbl_to_int :: "double \<Rightarrow> int res" where
  \<comment> \<open>conversion to \<open>Long\<close>\<close>
  "dbl_to_int d =
     (if \<not> dbl_finite d \<or> \<not> int_ok (dbl_trunc d) then Inl (UB Float_to_int) else Inr (dbl_trunc d))"

definition dbl_of_int :: "fpu \<Rightarrow> int \<Rightarrow> double" where
  "dbl_of_int U i = (if i < 0 then dbl_neg (fp_of_ulong U (word_of_int (- i))) else fp_of_ulong U (word_of_int i))"

definition corr_close :: "fpu \<Rightarrow> int \<Rightarrow> limb \<Rightarrow> double \<Rightarrow> double \<Rightarrow> BCinfo \<Rightarrow> verdict res" where
  \<comment> \<open>\<open>Can we stop now?\<close>; \<open>y\<close> is the exponent before the adjustment\<close>
  "corr_close U nd y aadj rv bc =
     (if bc_nd bc = nd \<and> bc_scale bc = 0 \<and> y = exp_bits rv then
        andthen (dbl_to_int aadj) (\<lambda>L.
        let aadj = fp_sub U aadj (dbl_of_int U L) in
        Inr (rv, bc,
          if bc_dsign bc \<noteq> 0 \<or> word1 rv \<noteq> 0 \<or> word0 rv AND Bndry_mask \<noteq> 0 then
            (if dbl_lt aadj dbl_lo \<or> dbl_lt dbl_hi aadj then Stop else Go_on)
          else if dbl_lt aadj dbl_lo2 then Stop else Go_on))
      else Inr (rv, bc, Go_on))"

definition corr_adjust :: "fpu \<Rightarrow> int \<Rightarrow> double \<Rightarrow> double \<Rightarrow> double \<Rightarrow> BCinfo \<Rightarrow> verdict res" where
  \<comment> \<open>add \<open>aadj1\<close> units in the last place\<close>
  "corr_adjust U nd aadj aadj1 rv bc =
     (let y = exp_bits rv; add = (\<lambda>x rv. fp_add U rv (fp_mul U x (ulp rv))) in
      if y = exp_word_of (DBL_MAX_EXP + Bias - 1) then
        let rv0 = rv; rv = add aadj1 (add_word0 rv (- P_exp)) in
        if exp_word_of (DBL_MAX_EXP + Bias - int P_bits) \<le> exp_bits rv then
          if word0 rv0 = Big0 \<and> word1 rv0 = Big1 then Inr (rv, bc, Ovfl) else Inr (dbl_big, bc, Go_on)
        else corr_close U nd y aadj (add_word0 rv P_exp) bc
      else if bc_scale bc \<noteq> 0 \<and> y \<le> exp_word_of (2 * int P_bits) then
        andthen (if dbl_le aadj dbl_7fffffff then
                   andthen (dbl_to_word aadj) (\<lambda>z.
                   let aadj = fp_of_ulong U (if z = 0 then 1 else z)
                   in Inr (aadj, if bc_dsign bc \<noteq> 0 then aadj else dbl_neg aadj))
                 else Inr (aadj, aadj1)) (\<lambda>(aadj, aadj1).
        let rv = add (add_word0 aadj1 (exp_word_of (2 * int P_bits + 1) - y)) rv in
        if dbl_is_zero rv then Inr (rv, if nd < bc_nd bc then bc\<lparr>bc_dsign := 1\<rparr> else bc, Stop)
        else corr_close U nd y aadj rv bc)
      else corr_close U nd y aadj (add aadj1 rv) bc)"

definition corr_decide :: "alloc \<Rightarrow> fpu \<Rightarrow> dtoa_state \<Rightarrow> corr_nums \<Rightarrow> corr_exp \<Rightarrow> int \<Rightarrow> int \<Rightarrow> double \<Rightarrow> BCinfo \<Rightarrow>
    (dtoa_state \<times> corr_nums \<times> bool \<times> verdict) res" where
  \<comment> \<open>\<open>i\<close> is the comparison of the error with half a unit; the flag is \<open>req_bigcomp\<close>\<close>
  "corr_decide A U s n x i nd rv bc =
     (if nd < bc_nd bc \<and> i \<le> 0 \<and> bc_dsign bc \<noteq> 0 then Inr (s, n, True, rv, bc, Stop)
      else
        let i = (if nd < bc_nd bc \<and> i \<le> 0 then -1 else i) in
        if i < 0 then andthen (corr_below A s n nd rv bc) (\<lambda>(s, n, v). Inr (s, n, False, v))
        else if i = 0 then andthen (corr_tie U x nd rv bc) (\<lambda>v. Inr (s, n, False, v))
        else
          andthen (ratio (fp_div U) s (cn_delta n) (cn_bs n)) (\<lambda>aadj.
          case corr_amount U nd aadj rv bc of
            Inr v \<Rightarrow> Inr (s, n, False, v)
          | Inl (aadj, aadj1) \<Rightarrow> andthen (corr_adjust U nd aadj aadj1 rv bc) (\<lambda>v. Inr (s, n, False, v))))"

definition corr_free :: "dtoa_state \<Rightarrow> corr_nums \<Rightarrow> nat option \<Rightarrow> dtoa_state res" where
  "corr_free s n bd0 =
     andthen (Bfree s (Some (cn_bb n))) (\<lambda>s.
     andthen (Bfree s (Some (cn_bd n))) (\<lambda>s.
     andthen (Bfree s (Some (cn_bs n))) (\<lambda>s.
     andthen (Bfree s bd0) (\<lambda>s.
     Bfree s (Some (cn_delta n))))))"

definition corr_step :: "alloc \<Rightarrow> fpu \<Rightarrow> dtoa_state \<Rightarrow> nat \<Rightarrow> int \<Rightarrow> int \<Rightarrow> double \<Rightarrow> BCinfo \<Rightarrow> (dtoa_state \<times> bool \<times> verdict) res" where
  \<comment> \<open>leaving the loop frees \<open>bd0\<close>, too\<close>
  "corr_step A U s bd0 e nd rv bc =
     andthen (corr_setup A s bd0 e rv (bc_scale bc)) (\<lambda>(s, n, x, rv, dsign, i).
     andthen (corr_decide A U s n x i nd rv (bc\<lparr>bc_dsign := dsign\<rparr>)) (\<lambda>(s, n, req, rv, bc, out).
     andthen (corr_free s n (if out = Go_on then None else Some bd0)) (\<lambda>s.
     Inr (s, req, rv, bc, out))))"

fun corr_loop :: "nat \<Rightarrow> alloc \<Rightarrow> fpu \<Rightarrow> dtoa_state \<Rightarrow> nat \<Rightarrow> int \<Rightarrow> int \<Rightarrow> double \<Rightarrow> BCinfo \<Rightarrow> (dtoa_state \<times> bool \<times> verdict) res" where
  \<comment> \<open>at most so many rounds\<close>
  "corr_loop 0 A U s bd0 e nd rv bc = Inl Diverge"
| "corr_loop (Suc f) A U s bd0 e nd rv bc =
     andthen (corr_step A U s bd0 e nd rv bc) (\<lambda>(s, req, rv, bc, out).
     if out = Go_on then corr_loop f A U s bd0 e nd rv bc else Inr (s, req, rv, bc, out))"

end
