(* ===== verification/Dtoa_Print.thy ===== *)
theory Dtoa_Print
  imports Dtoa_Correct
begin

text \<open>
\<open>dtoa\<close> of \<open>3rd/lua-cjson/dtoa.c\<close>, which turns a double into decimal digits, with \<open>rv_alloc\<close>,
  \<open>nrv_alloc\<close> and \<open>freedtoa\<close>. The digits come from floating-point arithmetic when its error bound
  allows it (\<open>dtoa_quick\<close>), from exact arithmetic on small integers (\<open>dtoa_small\<close>), or from the
  quotients of two bignums (\<open>dtoa_big\<close>). A string lives in a block of the bignum storage: its
  text is kept next to the heap, and every store is checked against the size of the block, which
  is also why the loops end.
\<close>

section \<open>Blocks that hold strings\<close>

record dtoa_mem =
  dm_state :: dtoa_state
  dm_strings :: "nat \<Rightarrow> (int \<times> string) option"   \<comment> \<open>the \<open>int\<close> in front and the characters, by block\<close>
  dm_result :: "nat option"                      \<comment> \<open>\<open>dtoa_result\<close>\<close>

function rv_size :: "int \<Rightarrow> int \<Rightarrow> int \<Rightarrow> int res" where
  \<comment> \<open>the loop over \<open>j\<close> and \<open>k\<close>, entered with a positive \<open>j\<close>; the sum is a \<open>size_t\<close>\<close>
  "rv_size i j k =
     (if 0 < j \<and> to_size (24 + j) \<le> to_size i then andthen (c_int (2 * j)) (\<lambda>j'. rv_size i j' (k + 1)) else Inr k)"
  by auto
termination by (relation "measure (\<lambda>(i, j, k). nat (INT_MAX - j))") (auto simp: c_int_def int_ok_iff INT_MAX_def split: if_splits)

declare rv_size.simps [simp del]

definition rv_cap :: "int \<Rightarrow> int" where
  \<comment> \<open>the bytes of a block of size \<open>k\<close> behind its first four\<close>
  "rv_cap k = bigint_len (2 ^ nat k) * 8 - 4"

definition rv_alloc :: "alloc \<Rightarrow> dtoa_mem \<Rightarrow> int \<Rightarrow> (dtoa_mem \<times> nat \<times> int) res" where
  \<comment> \<open>the block and its size; the string starts behind the size\<close>
  "rv_alloc A w i =
     andthen (rv_size i 4 0) (\<lambda>k.
     andthen (Balloc A (dm_state w) k) (\<lambda>(s, r).
     Inr (w\<lparr>dm_state := s, dm_strings := (dm_strings w)(r \<mapsto> (k, [])), dm_result := Some r\<rparr>, r, k)))"

definition put_ch :: "int \<Rightarrow> string \<Rightarrow> char \<Rightarrow> string res" where
  \<comment> \<open>\<open>*s++ = c\<close> in a block of size \<open>k\<close>\<close>
  "put_ch k out c = (if int (length out) < rv_cap k then Inr (out @ [c]) else Inl (UB Oob_write))"

definition end_text :: "dtoa_mem \<Rightarrow> nat \<Rightarrow> int \<Rightarrow> string \<Rightarrow> dtoa_mem res" where
  \<comment> \<open>\<open>*s = 0\<close>\<close>
  "end_text w r k out =
     (if int (length out) < rv_cap k then Inr (w\<lparr>dm_strings := (dm_strings w)(r \<mapsto> (k, out))\<rparr>)
      else Inl (UB Oob_write))"

definition nrv_alloc :: "alloc \<Rightarrow> dtoa_mem \<Rightarrow> string \<Rightarrow> int \<Rightarrow> (dtoa_mem \<times> nat) res" where
  "nrv_alloc A w t n =
     andthen (rv_alloc A w n) (\<lambda>(w, r, k).
     andthen (fold_r (put_ch k) t []) (\<lambda>out.
     andthen (end_text w r k out) (\<lambda>w. Inr (w, r))))"

definition freedtoa :: "dtoa_mem \<Rightarrow> nat \<Rightarrow> dtoa_mem res" where
  \<comment> \<open>the string has overwritten all fields: \<open>k\<close> and \<open>maxwds\<close> are made anew, the words are unset\<close>
  "freedtoa w r =
     (case dm_strings w r of
        None \<Rightarrow> Inl (UB Use_after_free)
      | Some (k, _) \<Rightarrow>
          if k < 0 \<or> 31 \<le> k then Inl (UB Bad_shift)
          else
            andthen (deref (dm_state w) r) (\<lambda>B.
            let B = B\<lparr>bg_next := None, bg_k := k, bg_maxwds := push_bit (nat k) 1,
                      bg_x := replicate (length (bg_x B)) None\<rparr> in
            andthen (Bfree (update (dm_state w) r B) (Some r)) (\<lambda>s.
            Inr (w\<lparr>dm_state := s, dm_strings := (dm_strings w)(r := None),
                   dm_result := (if dm_result w = Some r then None else dm_result w)\<rparr>))))"

section \<open>Rounding a string of digits\<close>

fun round_up_rev :: "string \<Rightarrow> (string \<times> bool) res" where
  \<comment> \<open>from the last digit back; the flag is \<open>k++\<close>\<close>
  "round_up_rev [] = Inl (UB Oob_read)"
| "round_up_rev (c # cs) =
     (if c = CHR ''9'' then (if cs = [] then Inr (''1'', True) else round_up_rev cs)
      else Inr (char_of_int (uc c + 1) # cs, False))"

definition round_up :: "string \<Rightarrow> (string \<times> bool) res" where
  "round_up out = andthen (round_up_rev (rev out)) (\<lambda>(cs, carry). Inr (rev cs, carry))"

definition trim_text :: "string \<Rightarrow> string res" where
  \<comment> \<open>\<open>while(*--s == '0'); s++\<close>\<close>
  "trim_text out =
     (case dropWhile (\<lambda>c. c = CHR ''0'') (rev out) of [] \<Rightarrow> Inl (UB Oob_read) | cs \<Rightarrow> Inr (rev cs))"

definition store_digit :: "int \<Rightarrow> string \<Rightarrow> int \<Rightarrow> string res" where
  "store_digit k out L = andthen (c_int (48 + L)) (\<lambda>c. put_ch k out (char_of_int c))"

lemma store_digit_longer: "store_digit k out L = Inr out' \<Longrightarrow> length out' = Suc (length out) \<and> int (length out) < rv_cap k"
  by (auto simp: store_digit_def put_ch_def andthen_eq_Inr split: if_splits)

section \<open>The decimal exponent\<close>

definition dbl_eq :: "double \<Rightarrow> double \<Rightarrow> bool" where
  "dbl_eq a b \<longleftrightarrow> \<not> isnan a \<and> \<not> isnan b \<and> dbl_val a = dbl_val b"

definition dbl_1_5 :: double where "dbl_1_5 = 0x3ff8000000000000"
definition dbl_slope :: double where "dbl_slope = 0x3fd287a7636f4361"   \<comment> \<open>\<open>0.289529654602168\<close>\<close>
definition dbl_const :: double where "dbl_const = 0x3fc68a288b60c8b3"   \<comment> \<open>\<open>0.1760912590558\<close>\<close>
definition dbl_log2 :: double where "dbl_log2 = 0x3fd34413509f79fb"    \<comment> \<open>\<open>0.301029995663981\<close>\<close>

definition shr32 :: "limb \<Rightarrow> int \<Rightarrow> limb res" where
  "shr32 w k = (if 0 \<le> k \<and> k < 32 then Inr (drop_bit (nat k) w) else Inl (UB Bad_shift))"

definition est_frac :: "fpu \<Rightarrow> double \<Rightarrow> int \<Rightarrow> int \<Rightarrow> (double \<times> int \<times> bool) res" where
  \<comment> \<open>\<open>d2\<close>, \<open>i\<close> and \<open>denorm\<close>\<close>
  "est_frac U u be bbits =
     (let i = int (unat (drop_bit Exp_shift (word0 u) AND drop_bit Exp_shift Exp_mask)) in
      if i \<noteq> 0 then Inr (mk_double ((word0 u AND Frac_mask) OR Exp_1) (word1 u), i - Bias, False)
      else
        let i = bbits + be + (Bias + (int P_bits - 1) - 1) in
        andthen (if 32 < i then
                   andthen (shl32 (word0 u) (64 - i)) (\<lambda>hi.
                   andthen (shr32 (word1 u) (i - 32)) (\<lambda>lo. Inr (hi OR lo)))
                 else shl32 (word1 u) (32 - i)) (\<lambda>x.
        Inr (add_word0 (fp_of_ulong U x) (- (31 * Exp_msk1)), i - (Bias + (int P_bits - 1) - 1 + 1), True)))"

definition log_estimate :: "fpu \<Rightarrow> double \<Rightarrow> int \<Rightarrow> double" where
  "log_estimate U d2 i =
     fp_add U (fp_add U (fp_mul U (fp_sub U d2 dbl_1_5) dbl_slope) dbl_const) (fp_mul U (dbl_of_int U i) dbl_log2)"

definition dtoa_estimate :: "fpu \<Rightarrow> double \<Rightarrow> int \<Rightarrow> int \<Rightarrow> (int \<times> bool \<times> int \<times> bool) res" where
  \<comment> \<open>\<open>k\<close>, \<open>k_check\<close>, \<open>i\<close> and \<open>denorm\<close>\<close>
  "dtoa_estimate U u be bbits =
     andthen (est_frac U u be bbits) (\<lambda>(d2, i, denorm).
     let ds = log_estimate U d2 i in
     andthen (dbl_to_int ds) (\<lambda>k.
     let k = (if dbl_lt ds 0 \<and> \<not> dbl_eq ds (dbl_of_int U k) then k - 1 else k) in
     if 0 \<le> k \<and> k \<le> Ten_pmax then
       andthen (ten_at tens k) (\<lambda>t. Inr (if dbl_lt u t then k - 1 else k, False, i, denorm))
     else Inr (k, True, i, denorm)))"

definition dtoa_scales :: "int \<Rightarrow> int \<Rightarrow> int \<Rightarrow> int \<times> int \<times> int \<times> int" where
  \<comment> \<open>\<open>b2\<close>, \<open>s2\<close>, \<open>b5\<close> and \<open>s5\<close>\<close>
  "dtoa_scales bbits i k =
     (let j = bbits - i - 1; (b2, s2) = (if 0 \<le> j then (0, j) else (- j, 0))
      in if 0 \<le> k then (b2, s2 + k, 0, k) else (b2 - k, s2, - k, 0))"

section \<open>What is asked for\<close>

record dtoa_plan =
  dp_mode :: int
  dp_quick :: bool
  dp_leftright :: bool
  dp_ilim :: int
  dp_ilim1 :: int
  dp_room :: int
  dp_ndigits :: int

definition plan_mode :: "int \<Rightarrow> int" where
  "plan_mode mode = (let mode = (if mode < 0 \<or> 9 < mode then 0 else mode) in if 5 < mode then mode - 4 else mode)"

definition plan_quick :: "int \<Rightarrow> bool" where
  \<comment> \<open>\<open>try_quick\<close>\<close>
  "plan_quick mode \<longleftrightarrow> \<not> (5 < mode \<and> mode \<le> 9)"

definition plan_digits :: "int \<Rightarrow> int \<Rightarrow> int \<Rightarrow> dtoa_plan res" where
  "plan_digits mode ndigits k =
     (let q = plan_quick mode; mode = plan_mode mode in
      if mode = 0 \<or> mode = 1 then
        Inr \<lparr>dp_mode = mode, dp_quick = q, dp_leftright = True, dp_ilim = -1, dp_ilim1 = -1, dp_room = 18, dp_ndigits = 0\<rparr>
      else if mode = 2 \<or> mode = 4 then
        let n = (if ndigits \<le> 0 then 1 else ndigits) in
        Inr \<lparr>dp_mode = mode, dp_quick = q, dp_leftright = (mode = 4), dp_ilim = n, dp_ilim1 = n, dp_room = n, dp_ndigits = n\<rparr>
      else
        andthen (c_int (ndigits + k)) (\<lambda>i.
        andthen (c_int (i + 1)) (\<lambda>i.
        andthen (c_int (i - 1)) (\<lambda>ilim1.
        Inr \<lparr>dp_mode = mode, dp_quick = q, dp_leftright = (mode = 5), dp_ilim = i, dp_ilim1 = ilim1,
             dp_room = (if i \<le> 0 then 1 else i), dp_ndigits = ndigits\<rparr>))))"

definition no_digits :: "int \<Rightarrow> (string \<times> int) res" where
  "no_digits ndigits = andthen (c_int (-1 - ndigits)) (\<lambda>k. Inr ([], k))"

definition one_digit :: "int \<Rightarrow> int \<Rightarrow> (string \<times> int) res" where
  "one_digit sz k = andthen (put_ch sz [] (CHR ''1'')) (\<lambda>out. Inr (out, k + 1))"

definition bump_k :: "int \<Rightarrow> string \<times> bool \<Rightarrow> string \<times> int" where
  "bump_k k r = (fst r, if snd r then k + 1 else k)"


section \<open>Floating-point digits\<close>

definition Quick_max :: int where "Quick_max = 14"
definition Int_max :: int where "Int_max = 14"
definition Bletch :: int where "Bletch = 0x10"

definition dbl_5 :: double where "dbl_5 = 0x4014000000000000"
definition dbl_7 :: double where "dbl_7 = 0x401c000000000000"
definition dbl_10 :: double where "dbl_10 = 0x4024000000000000"
definition dbl_101e256 :: double where "dbl_101e256 = 0x7515866c8349626d"   \<comment> \<open>\<open>1.01e256\<close>\<close>

function quick_prod :: "fpu \<Rightarrow> nat \<Rightarrow> nat \<Rightarrow> double \<Rightarrow> int \<Rightarrow> (double \<times> int) res" where
  \<comment> \<open>\<open>for(; j; j >>= 1, i++) if (j & 1) { ieps++; x *= bigtens[i]; }\<close>\<close>
  "quick_prod U j i x ieps =
     (if j = 0 then Inr (x, ieps)
      else andthen (if odd j then andthen (ten_at bigtens (int i)) (\<lambda>t. Inr (fp_mul U x t, ieps + 1)) else Inr (x, ieps))
             (\<lambda>(x, ieps). quick_prod U (j div 2) (i + 1) x ieps))"
  by pat_completeness auto
termination by (relation "measure (\<lambda>(U, j, i, x, ieps). j)") auto

declare quick_prod.simps [simp del]

definition quick_scale :: "fpu \<Rightarrow> double \<Rightarrow> int \<Rightarrow> (double \<times> int) res" where
  \<comment> \<open>\<open>u\<close> over \<open>10 ^ k\<close>, and the number of roundings\<close>
  "quick_scale U u k =
     (if 0 < k then
        andthen (ten_at tens (k AND 15)) (\<lambda>ds.
        let j = drop_bit 4 k in
        andthen (if j AND Bletch \<noteq> 0
                 then andthen (ten_at bigtens (int n_bigtens - 1)) (\<lambda>t. Inr (fp_div U u t, 3, j AND (Bletch - 1)))
                 else Inr (u, 2, j)) (\<lambda>(u, ieps, j).
        andthen (quick_prod U (nat j) 0 ds ieps) (\<lambda>(ds, ieps).
        Inr (fp_div U u ds, ieps))))
      else if k \<noteq> 0 then
        andthen (ten_at tens (- k AND 15)) (\<lambda>t.
        quick_prod U (nat (drop_bit 4 (- k))) 0 (fp_mul U u t) 2)
      else Inr (u, 2))"

definition quick_eps :: "fpu \<Rightarrow> int \<Rightarrow> double \<Rightarrow> double" where
  "quick_eps U ieps u =
     add_word0 (fp_add U (fp_mul U (dbl_of_int U ieps) u) dbl_7) (- exp_word_of (int P_bits - 1))"

definition quick_eps_short :: "fpu \<Rightarrow> int \<Rightarrow> int \<Rightarrow> double \<Rightarrow> double res" where
  \<comment> \<open>the bound for the shortest digits\<close>
  "quick_eps_short U k0 ilim eps =
     andthen (ten_at tens (ilim - 1)) (\<lambda>t.
     let eps = fp_sub U (fp_div U dbl_half t) eps; j1 = - k0 in
     if k0 < 0 \<and> 307 \<le> j1 then
       andthen (ten_at tens (j1 AND 15)) (\<lambda>t.
       andthen (quick_prod U (nat (drop_bit 4 (j1 - 256))) 0
                 (fp_mul U (add_word0 dbl_101e256 (- exp_word_of (Bias + int P_bits - 1))) t) 0) (\<lambda>(eps1, _).
       Inr (if dbl_lt eps eps1 then eps1 else eps)))
     else Inr eps)"

text \<open>Both loops end with \<open>None\<close> where the code goes to \<open>fast_failed\<close>.\<close>

function quick_short :: "fpu \<Rightarrow> int \<Rightarrow> int \<Rightarrow> int \<Rightarrow> double \<Rightarrow> double \<Rightarrow> string \<Rightarrow> (string \<times> bool) option res" where
  "quick_short U sz ilim i eps u out =
     andthen (dbl_to_int u) (\<lambda>L.
     let u = fp_sub U u (dbl_of_int U L) in
     andthen (store_digit sz out L) (\<lambda>out.
     if dbl_lt (fp_sub U dbl_1 u) eps then andthen (round_up out) (\<lambda>r. Inr (Some r))
     else if dbl_lt u eps then Inr (Some (out, False))
     else if ilim \<le> i + 1 then Inr None
     else quick_short U sz ilim (i + 1) (fp_mul U eps dbl_10) (fp_mul U u dbl_10) out))"
  by pat_completeness auto
termination by (relation "measure (\<lambda>(U, sz, ilim, i, eps, u, out). nat (rv_cap sz - int (length out)))") (auto dest!: store_digit_longer)

function quick_fixed :: "fpu \<Rightarrow> int \<Rightarrow> int \<Rightarrow> int \<Rightarrow> double \<Rightarrow> double \<Rightarrow> string \<Rightarrow> (string \<times> bool) option res" where
  "quick_fixed U sz ilim i eps u out =
     andthen (dbl_to_int u) (\<lambda>L.
     let u = fp_sub U u (dbl_of_int U L); ilim = (if dbl_is_zero u then i else ilim) in
     andthen (store_digit sz out L) (\<lambda>out.
     if i = ilim then
       if dbl_lt (fp_add U dbl_half eps) u then andthen (round_up out) (\<lambda>r. Inr (Some r))
       else if dbl_lt u (fp_sub U dbl_half eps) then andthen (trim_text out) (\<lambda>out. Inr (Some (out, False)))
       else Inr None
     else quick_fixed U sz ilim (i + 1) eps (fp_mul U u dbl_10) out))"
  by pat_completeness auto
termination by (relation "measure (\<lambda>(U, sz, ilim, i, eps, u, out). nat (rv_cap sz - int (length out)))") (auto dest!: store_digit_longer)

declare quick_short.simps [simp del] quick_fixed.simps [simp del]

definition dtoa_quick :: "fpu \<Rightarrow> int \<Rightarrow> dtoa_plan \<Rightarrow> double \<Rightarrow> int \<Rightarrow> bool \<Rightarrow> (string \<times> int) option res" where
  "dtoa_quick U sz p u k k_check =
     andthen (quick_scale U u k) (\<lambda>(u, ieps).
     let low = k_check \<and> dbl_lt u dbl_1 \<and> 0 < dp_ilim p in
     if low \<and> dp_ilim1 p \<le> 0 then Inr None
     else
       let ilim = (if low then dp_ilim1 p else dp_ilim p); k' = (if low then k - 1 else k);
           u = (if low then fp_mul U u dbl_10 else u); ieps = (if low then ieps + 1 else ieps);
           eps = quick_eps U ieps u in
       if ilim = 0 then
         let u = fp_sub U u dbl_5 in
         if dbl_lt eps u then andthen (one_digit sz k') (\<lambda>r. Inr (Some r))
         else if dbl_lt u (dbl_neg eps) then andthen (no_digits (dp_ndigits p)) (\<lambda>r. Inr (Some r))
         else Inr None
       else
         andthen (if dp_leftright p
                  then andthen (quick_eps_short U k ilim eps) (\<lambda>eps. quick_short U sz ilim 0 eps u [])
                  else andthen (ten_at tens (ilim - 1)) (\<lambda>t. quick_fixed U sz ilim 1 (fp_mul U eps t) u [])) (\<lambda>r.
         Inr (map_option (bump_k k') r)))"

section \<open>Small integers\<close>

function small_loop :: "fpu \<Rightarrow> int \<Rightarrow> int \<Rightarrow> double \<Rightarrow> int \<Rightarrow> double \<Rightarrow> string \<Rightarrow> (string \<times> bool) res" where
  "small_loop U sz ilim ds i u out =
     andthen (dbl_to_int (fp_div U u ds)) (\<lambda>L.
     let u = fp_sub U u (fp_mul U (dbl_of_int U L) ds) in
     andthen (store_digit sz out L) (\<lambda>out.
     if dbl_is_zero u then Inr (out, False)
     else if i = ilim then
       let u = fp_add U u u in
       if dbl_lt ds u \<or> (dbl_eq u ds \<and> odd L) then round_up out else Inr (out, False)
     else small_loop U sz ilim ds (i + 1) (fp_mul U u dbl_10) out))"
  by pat_completeness auto
termination by (relation "measure (\<lambda>(U, sz, ilim, ds, i, u, out). nat (rv_cap sz - int (length out)))") (auto dest!: store_digit_longer)

declare small_loop.simps [simp del]

definition dtoa_small :: "fpu \<Rightarrow> int \<Rightarrow> dtoa_plan \<Rightarrow> double \<Rightarrow> int \<Rightarrow> (string \<times> int) res" where
  "dtoa_small U sz p u k =
     andthen (ten_at tens k) (\<lambda>ds.
     if dp_ndigits p < 0 \<and> dp_ilim p \<le> 0 then
       if dp_ilim p < 0 \<or> dbl_le u (fp_mul U dbl_5 ds) then no_digits (dp_ndigits p) else one_digit sz k
     else andthen (small_loop U sz (dp_ilim p) ds 1 u []) (\<lambda>r. Inr (bump_k k r)))"

section \<open>Digits by bignums\<close>

datatype digits_end =
    Digits_done         \<comment> \<open>\<open>goto ret\<close>\<close>
  | Digits_roundoff     \<comment> \<open>\<open>goto roundoff\<close>\<close>
  | Digits_last int     \<comment> \<open>round off after this digit\<close>

definition big_exps :: "bool \<Rightarrow> bool \<Rightarrow> int \<Rightarrow> int \<Rightarrow> int \<Rightarrow> int \<Rightarrow> int \<times> int \<times> int" where
  \<comment> \<open>\<open>b2\<close>, \<open>m2\<close> and \<open>s2\<close> without their common factor\<close>
  "big_exps leftright denorm be bbits b2 s2 =
     (let m2 = b2;
          i = (if denorm then be + (Bias + (int P_bits - 1) - 1 + 1) else 1 + int P_bits - bbits);
          (b2, s2) = (if leftright then (b2 + i, s2 + i) else (b2, s2));
          i = (if 0 < m2 \<and> 0 < s2 then min m2 s2 else 0)
      in (b2 - i, m2 - i, s2 - i))"

definition mhi_start :: "alloc \<Rightarrow> dtoa_state \<Rightarrow> bool \<Rightarrow> (dtoa_state \<times> nat option) res" where
  "mhi_start A s leftright =
     (if leftright then andthen (i2b A s 1) (\<lambda>(s, m). Inr (s, Some m)) else Inr (s, None))"

definition big_pow5 :: "alloc \<Rightarrow> dtoa_state \<Rightarrow> nat \<Rightarrow> nat option \<Rightarrow> int \<Rightarrow> (dtoa_state \<times> nat \<times> nat option) res" where
  \<comment> \<open>\<open>b\<close> and \<open>mhi\<close> times \<open>5 ^ b5\<close>; \<open>m5 = b5\<close>\<close>
  "big_pow5 A s b mhi b5 =
     (if 0 < b5 then
        case mhi of
          Some m \<Rightarrow> andthen (corr_mult A s m b b5) (\<lambda>(s, m, b). Inr (s, b, Some m))
        | None \<Rightarrow> andthen (pow5mult A s b b5) (\<lambda>(s, b). Inr (s, b, None))
      else Inr (s, b, mhi))"

definition power_of_two :: "dtoa_plan \<Rightarrow> double \<Rightarrow> bool" where
  \<comment> \<open>\<open>spec_case\<close>\<close>
  "power_of_two p u \<longleftrightarrow>
     (dp_mode p < 2 \<or> dp_leftright p) \<and> word1 u = 0 \<and> word0 u AND Bndry_mask = 0
     \<and> word0 u AND (Exp_mask AND NOT Exp_msk1) \<noteq> 0"

definition times_ten :: "alloc \<Rightarrow> dtoa_state \<Rightarrow> nat option \<Rightarrow> (dtoa_state \<times> nat option) res" where
  "times_ten A s m =
     (case m of None \<Rightarrow> Inr (s, None) | Some m \<Rightarrow> andthen (multadd A s m 10 0) (\<lambda>(s, m). Inr (s, Some m)))"

definition big_check :: "alloc \<Rightarrow> dtoa_state \<Rightarrow> dtoa_plan \<Rightarrow> nat \<Rightarrow> nat \<Rightarrow> nat option \<Rightarrow> int \<Rightarrow> bool \<Rightarrow>
    (dtoa_state \<times> nat \<times> nat option \<times> int \<times> int) res" where
  \<comment> \<open>correct the estimate; \<open>b\<close>, \<open>mhi\<close>, \<open>k\<close> and \<open>ilim\<close>\<close>
  "big_check A s p b S mhi k k_check =
     andthen (if k_check then cmp s b S else Inr 0) (\<lambda>c.
     if c < 0 then
       andthen (multadd A s b 10 0) (\<lambda>(s, b).
       andthen (times_ten A s mhi) (\<lambda>(s, mhi).
       Inr (s, b, mhi, k - 1, dp_ilim1 p)))
     else Inr (s, b, mhi, k, dp_ilim p))"

definition big_start :: "alloc \<Rightarrow> dtoa_state \<Rightarrow> dtoa_plan \<Rightarrow> double \<Rightarrow> nat \<Rightarrow> int \<times> int \<times> int \<times> int \<Rightarrow> int \<Rightarrow> int \<Rightarrow> bool \<Rightarrow>
    (dtoa_state \<times> nat \<times> nat \<times> nat option \<times> int) res" where
  \<comment> \<open>the numbers whose quotients are the digits: \<open>b\<close>, \<open>S\<close> and \<open>mhi\<close>, and \<open>m2\<close>\<close>
  "big_start A s p u b scales be bbits denorm =
     (let (b2, s2, b5, s5) = scales; (b2, m2, s2) = big_exps (dp_leftright p) denorm be bbits b2 s2 in
      andthen (mhi_start A s (dp_leftright p)) (\<lambda>(s, mhi).
      andthen (big_pow5 A s b mhi b5) (\<lambda>(s, b, mhi).
      andthen (i2b A s 1) (\<lambda>(s, S).
      andthen (pow5_if A s S s5) (\<lambda>(s, S).
      let (b2, s2) = (if power_of_two p u then (b2 + Log2P, s2 + Log2P) else (b2, s2)) in
      andthen (dshift s S s2) (\<lambda>i.
      andthen (shift_if A s b (b2 + i)) (\<lambda>(s, b).
      andthen (shift_if A s S (s2 + i)) (\<lambda>(s, S).
      Inr (s, b, S, mhi, m2 + i)))))))))"

function big_fixed :: "alloc \<Rightarrow> int \<Rightarrow> int \<Rightarrow> dtoa_state \<Rightarrow> nat \<Rightarrow> nat \<Rightarrow> int \<Rightarrow> string \<Rightarrow> (dtoa_state \<times> nat \<times> string \<times> digits_end) res" where
  "big_fixed A sz ilim s b S i out =
     andthen (quorem s b S) (\<lambda>(s, q).
     andthen (store_digit sz out q) (\<lambda>out.
     andthen (num_zero s b) (\<lambda>z.
     if z then Inr (s, b, out, Digits_done)
     else if ilim \<le> i then Inr (s, b, out, Digits_last q)
     else andthen (multadd A s b 10 0) (\<lambda>(s, b). big_fixed A sz ilim s b S (i + 1) out))))"
  by pat_completeness auto
termination by (relation "measure (\<lambda>(A, sz, ilim, s, b, S, i, out). nat (rv_cap sz - int (length out)))") (auto dest!: store_digit_longer)

declare big_fixed.simps [simp del]


datatype lr_next =
    Lr_done int     \<comment> \<open>the last digit\<close>
  | Lr_nine         \<comment> \<open>\<open>goto round_9_up\<close>\<close>
  | Lr_keep int

definition lr_compare :: "alloc \<Rightarrow> dtoa_state \<Rightarrow> nat \<Rightarrow> nat \<Rightarrow> nat \<Rightarrow> nat \<Rightarrow> (dtoa_state \<times> int \<times> int \<times> int) res" where
  \<comment> \<open>the digit, \<open>j\<close> and \<open>j1\<close>: the rest against \<open>mlo\<close> and against \<open>S - mhi\<close>\<close>
  "lr_compare A s b S mlo mhi =
     andthen (quorem s b S) (\<lambda>(s, q).
     andthen (cmp s b mlo) (\<lambda>j.
     andthen (diff A s S mhi) (\<lambda>(s, delta).
     andthen (deref s delta) (\<lambda>D.
     andthen (if bg_sign D \<noteq> 0 then Inr 1 else cmp s b delta) (\<lambda>j1.
     andthen (Bfree s (Some delta)) (\<lambda>s.
     Inr (s, q, j, j1)))))))"

definition lr_decide :: "alloc \<Rightarrow> dtoa_state \<Rightarrow> int \<Rightarrow> double \<Rightarrow> nat \<Rightarrow> nat \<Rightarrow> int \<Rightarrow> int \<Rightarrow> int \<Rightarrow> (dtoa_state \<times> nat \<times> lr_next) res" where
  "lr_decide A s mode u b S q j j1 =
     (let closed = (mode \<noteq> 1 \<and> word1 u AND 1 = 0) in
      if j1 = 0 \<and> closed then
        Inr (s, b, if q = 9 then Lr_nine else Lr_done (if 0 < j then q + 1 else q))
      else if j < 0 \<or> (j = 0 \<and> closed) then
        andthen (num_zero s b) (\<lambda>z.
        if z \<or> j1 \<le> 0 then Inr (s, b, Lr_done q)
        else
          andthen (lshift A s b 1) (\<lambda>(s, b).
          andthen (cmp s b S) (\<lambda>j1.
          Inr (s, b, if 0 < j1 \<or> (j1 = 0 \<and> odd q) then if q = 9 then Lr_nine else Lr_done (q + 1) else Lr_done q))))
      else if 0 < j1 then Inr (s, b, if q = 9 then Lr_nine else Lr_done (q + 1))
      else Inr (s, b, Lr_keep q))"

definition lr_times_ten :: "alloc \<Rightarrow> dtoa_state \<Rightarrow> nat \<Rightarrow> nat \<Rightarrow> nat \<Rightarrow> (dtoa_state \<times> nat \<times> nat \<times> nat) res" where
  "lr_times_ten A s b mlo mhi =
     andthen (multadd A s b 10 0) (\<lambda>(s, b).
     if mlo = mhi then andthen (multadd A s mhi 10 0) (\<lambda>(s, m). Inr (s, b, m, m))
     else andthen (multadd A s mlo 10 0) (\<lambda>(s, mlo).
          andthen (multadd A s mhi 10 0) (\<lambda>(s, mhi). Inr (s, b, mlo, mhi))))"

function lr_loop :: "alloc \<Rightarrow> int \<Rightarrow> int \<Rightarrow> double \<Rightarrow> int \<Rightarrow> dtoa_state \<Rightarrow> nat \<Rightarrow> nat \<Rightarrow> nat \<Rightarrow> nat \<Rightarrow> int \<Rightarrow> string \<Rightarrow>
    (dtoa_state \<times> nat \<times> nat \<times> nat \<times> string \<times> digits_end) res" where
  \<comment> \<open>the state, \<open>b\<close>, \<open>mlo\<close>, \<open>mhi\<close> and the digits\<close>
  "lr_loop A sz mode u ilim s b S mlo mhi i out =
     andthen (lr_compare A s b S mlo mhi) (\<lambda>(s, q, j, j1).
     andthen (lr_decide A s mode u b S q j j1) (\<lambda>(s, b, next).
     case next of
       Lr_done d \<Rightarrow> andthen (store_digit sz out d) (\<lambda>out. Inr (s, b, mlo, mhi, out, Digits_done))
     | Lr_nine \<Rightarrow> andthen (put_ch sz out (CHR ''9'')) (\<lambda>out. Inr (s, b, mlo, mhi, out, Digits_roundoff))
     | Lr_keep d \<Rightarrow>
         andthen (store_digit sz out d) (\<lambda>out.
         if i = ilim then Inr (s, b, mlo, mhi, out, Digits_last d)
         else andthen (lr_times_ten A s b mlo mhi) (\<lambda>(s, b, mlo, mhi).
              lr_loop A sz mode u ilim s b S mlo mhi (i + 1) out))))"
  by pat_completeness auto
termination by (relation "measure (\<lambda>(A, sz, mode, u, ilim, s, b, S, mlo, mhi, i, out). nat (rv_cap sz - int (length out)))") (auto dest!: store_digit_longer)

declare lr_loop.simps [simp del]

definition lr_start :: "alloc \<Rightarrow> dtoa_state \<Rightarrow> bool \<Rightarrow> nat \<Rightarrow> int \<Rightarrow> (dtoa_state \<times> nat \<times> nat) res" where
  \<comment> \<open>\<open>mlo\<close> and \<open>mhi\<close>, which is twice as much above a power of two\<close>
  "lr_start A s spec_case mhi m2 =
     andthen (shift_if A s mhi m2) (\<lambda>(s, mlo).
     if spec_case then
       andthen (deref s mlo) (\<lambda>M.
       andthen (Balloc A s (bg_k M)) (\<lambda>(s, mhi).
       andthen (Bcopy s mhi mlo) (\<lambda>s.
       andthen (lshift A s mhi Log2P) (\<lambda>(s, mhi).
       Inr (s, mlo, mhi)))))
     else Inr (s, mlo, mlo))"

definition big_round :: "alloc \<Rightarrow> dtoa_state \<Rightarrow> nat \<Rightarrow> nat \<Rightarrow> string \<Rightarrow> digits_end \<Rightarrow> (dtoa_state \<times> nat \<times> string \<times> bool) res" where
  \<comment> \<open>round off the last digit; the flag is \<open>k++\<close>\<close>
  "big_round A s b S out e =
     (case e of
        Digits_done \<Rightarrow> Inr (s, b, out, False)
      | Digits_roundoff \<Rightarrow> andthen (round_up out) (\<lambda>(out, c). Inr (s, b, out, c))
      | Digits_last q \<Rightarrow>
          andthen (lshift A s b 1) (\<lambda>(s, b).
          andthen (cmp s b S) (\<lambda>j.
          if 0 < j \<or> (j = 0 \<and> odd q) then andthen (round_up out) (\<lambda>(out, c). Inr (s, b, out, c))
          else andthen (trim_text out) (\<lambda>out. Inr (s, b, out, False)))))"

definition big_free :: "dtoa_state \<Rightarrow> nat \<Rightarrow> nat option \<Rightarrow> nat option \<Rightarrow> nat \<Rightarrow> dtoa_state res" where
  \<comment> \<open>from \<open>ret\<close> on\<close>
  "big_free s S mlo mhi b =
     andthen (Bfree s (Some S)) (\<lambda>s.
     andthen (if mhi \<noteq> None \<and> mlo \<noteq> None \<and> mlo \<noteq> mhi then Bfree s mlo else Inr s) (\<lambda>s.
     andthen (Bfree s mhi) (\<lambda>s.
     Bfree s (Some b))))"

definition big_few :: "alloc \<Rightarrow> dtoa_state \<Rightarrow> int \<Rightarrow> dtoa_plan \<Rightarrow> nat \<Rightarrow> nat \<Rightarrow> int \<Rightarrow> int \<Rightarrow> (dtoa_state \<times> nat \<times> string \<times> int) res" where
  \<comment> \<open>no digit or one: 1 if \<open>b > 5 * S\<close>\<close>
  "big_few A s sz p b S ilim k =
     (if ilim < 0 then andthen (no_digits (dp_ndigits p)) (\<lambda>(out, k). Inr (s, S, out, k))
      else
        andthen (multadd A s S 5 0) (\<lambda>(s, S).
        andthen (cmp s b S) (\<lambda>c.
        andthen (if c \<le> 0 then no_digits (dp_ndigits p) else one_digit sz k) (\<lambda>(out, k).
        Inr (s, S, out, k)))))"

definition dtoa_big :: "alloc \<Rightarrow> dtoa_state \<Rightarrow> int \<Rightarrow> dtoa_plan \<Rightarrow> double \<Rightarrow> nat \<Rightarrow> int \<Rightarrow> int \<Rightarrow> int \<Rightarrow> bool \<Rightarrow> int \<Rightarrow> bool \<Rightarrow>
    (dtoa_state \<times> string \<times> int) res" where
  "dtoa_big A s sz p u b be bbits i denorm k k_check =
     andthen (big_start A s p u b (dtoa_scales bbits i k) be bbits denorm) (\<lambda>(s, b, S, mhi, m2).
     andthen (big_check A s p b S mhi k k_check) (\<lambda>(s, b, mhi, k, ilim).
     if ilim \<le> 0 \<and> (dp_mode p = 3 \<or> dp_mode p = 5) then
       andthen (big_few A s sz p b S ilim k) (\<lambda>(s, S, out, k).
       andthen (big_free s S None mhi b) (\<lambda>s. Inr (s, out, k)))
     else
       case mhi of
         Some m \<Rightarrow>
           andthen (lr_start A s (power_of_two p u) m m2) (\<lambda>(s, mlo, mhi).
           andthen (lr_loop A sz (dp_mode p) u ilim s b S mlo mhi 1 []) (\<lambda>(s, b, mlo, mhi, out, e).
           andthen (big_round A s b S out e) (\<lambda>(s, b, out, c).
           andthen (big_free s S (Some mlo) (Some mhi) b) (\<lambda>s. Inr (s, bump_k k (out, c))))))
       | None \<Rightarrow>
           andthen (big_fixed A sz ilim s b S 1 []) (\<lambda>(s, b, out, e).
           andthen (big_round A s b S out e) (\<lambda>(s, b, out, c).
           andthen (big_free s S None None b) (\<lambda>s. Inr (s, bump_k k (out, c)))))))"

section \<open>The function\<close>

definition dtoa_digits :: "alloc \<Rightarrow> fpu \<Rightarrow> dtoa_state \<Rightarrow> int \<Rightarrow> dtoa_plan \<Rightarrow> double \<Rightarrow> nat \<Rightarrow> int \<Rightarrow> int \<Rightarrow> int \<Rightarrow> bool \<Rightarrow> int \<Rightarrow> bool \<Rightarrow>
    (dtoa_state \<times> string \<times> int) res" where
  \<comment> \<open>the digits and \<open>k\<close>, by floating point if that settles it\<close>
  "dtoa_digits A U s sz p u b be bbits i denorm k k_check =
     andthen (if 0 \<le> dp_ilim p \<and> dp_ilim p \<le> Quick_max \<and> dp_quick p then dtoa_quick U sz p u k k_check else Inr None) (\<lambda>r.
     case r of
       Some (out, k) \<Rightarrow> andthen (Bfree s (Some b)) (\<lambda>s. Inr (s, out, k))
     | None \<Rightarrow>
         if 0 \<le> be \<and> k \<le> Int_max then
           andthen (dtoa_small U sz p u k) (\<lambda>(out, k). andthen (Bfree s (Some b)) (\<lambda>s. Inr (s, out, k)))
         else dtoa_big A s sz p u b be bbits i denorm k k_check)"

definition dtoa_finite :: "alloc \<Rightarrow> fpu \<Rightarrow> dtoa_mem \<Rightarrow> double \<Rightarrow> int \<Rightarrow> int \<Rightarrow> (dtoa_mem \<times> nat \<times> int) res" where
  \<comment> \<open>the block of the string, and \<open>*decpt\<close>\<close>
  "dtoa_finite A U w u mode ndigits =
     andthen (d2b A (dm_state w) u) (\<lambda>(s, b, be, bbits, u).
     andthen (dtoa_estimate U u be bbits) (\<lambda>(k, k_check, i, denorm).
     andthen (plan_digits mode ndigits k) (\<lambda>p.
     andthen (rv_alloc A (w\<lparr>dm_state := s\<rparr>) (dp_room p)) (\<lambda>(w, r, sz).
     andthen (dtoa_digits A U (dm_state w) sz p u b be bbits i denorm k k_check) (\<lambda>(s, out, k).
     andthen (end_text (w\<lparr>dm_state := s\<rparr>) r sz out) (\<lambda>w.
     andthen (c_int (k + 1)) (\<lambda>decpt. Inr (w, r, decpt))))))))"

definition dtoa :: "alloc \<Rightarrow> fpu \<Rightarrow> dtoa_mem \<Rightarrow> double \<Rightarrow> int \<Rightarrow> int \<Rightarrow> (dtoa_mem \<times> nat \<times> int \<times> bool) res" where
  \<comment> \<open>the block of the string, \<open>*decpt\<close> and \<open>*sign\<close>\<close>
  "dtoa A U w dd mode ndigits =
     andthen (case dm_result w of Some r \<Rightarrow> freedtoa w r | None \<Rightarrow> Inr w) (\<lambda>w.
     let w = w\<lparr>dm_result := None\<rparr>; sign = dbl_sign dd; u = mk_double (word0 dd AND 0x7fffffff) (word1 dd) in
     andthen
       (if word0 u AND Exp_mask = Exp_mask then
          andthen (if word1 u = 0 \<and> word0 u AND 0xfffff = 0 then nrv_alloc A w ''inf'' 8 else nrv_alloc A w ''nan'' 3) (\<lambda>(w, r).
          Inr (w, r, 9999))
        else if dbl_is_zero u then andthen (nrv_alloc A w ''0'' 1) (\<lambda>(w, r). Inr (w, r, 1))
        else dtoa_finite A U w u mode ndigits) (\<lambda>(w, r, decpt).
     Inr (w, r, decpt, sign)))"

end
