(* ===== verification/Dtoa_Log.thy ===== *)
theory Dtoa_Log
  imports Dtoa_Error Dtoa_Print
begin

text \<open>
The decimal exponent that \<open>dtoa\<close> of \<open>3rd/lua-cjson/dtoa.c\<close> estimates: the line
  \<open>(x - 1.5) * 0.2895... + 0.1760... + i * 0.3010...\<close> against the powers of ten, by a table of all of
  them in the range of doubles. The line is never below the logarithm, and the estimate is too
  large only for numbers above nine tenths of a power of ten.
\<close>

section \<open>The approximate logarithm\<close>

definition log_line :: "rat \<Rightarrow> int \<Rightarrow> rat" where
  \<comment> \<open>what \<open>log_estimate\<close> computes, without rounding, for \<open>x * 2^i\<close>\<close>
  "log_line x i = (x - 3 / 2) * (5215702578316129 / 2 ^ 54) + 6344356229335219 / 2 ^ 55 + of_int i * (5422874305198587 / 2 ^ 54)"

lemma log_consts:
  "dbl_finite dbl_slope" "dbl_val dbl_slope = 5215702578316129 / 2 ^ 54"
  "dbl_finite dbl_const" "dbl_val dbl_const = 6344356229335219 / 2 ^ 55"
  "dbl_finite dbl_log2" "dbl_val dbl_log2 = 5422874305198587 / 2 ^ 54"
  "dbl_finite dbl_1_5" "dbl_val dbl_1_5 = 3 / 2"
proof -
  show "dbl_finite dbl_slope" "dbl_finite dbl_const" "dbl_finite dbl_log2" "dbl_finite dbl_1_5"
    by (simp_all add: dbl_finite_def dbl_slope_def dbl_const_def dbl_log2_def dbl_1_5_def dbl_fields)
  have m: "dbl_exp dbl_slope = 1021 \<and> dbl_mant dbl_slope = 5215702578316129 \<and> \<not> dbl_sign dbl_slope"
    "dbl_exp dbl_const = 1020 \<and> dbl_mant dbl_const = 6344356229335219 \<and> \<not> dbl_sign dbl_const"
    "dbl_exp dbl_log2 = 1021 \<and> dbl_mant dbl_log2 = 5422874305198587 \<and> \<not> dbl_sign dbl_log2"
    "dbl_exp dbl_1_5 = 1023 \<and> dbl_mant dbl_1_5 = 6755399441055744 \<and> \<not> dbl_sign dbl_1_5"
    by (simp_all add: dbl_slope_def dbl_const_def dbl_log2_def dbl_1_5_def dbl_fields dbl_mant_def)
  show "dbl_val dbl_slope = 5215702578316129 / 2 ^ 54" using fields_val[of dbl_slope 1021] m(1) by (simp add: power_int_minus_divide)
  show "dbl_val dbl_const = 6344356229335219 / 2 ^ 55" using fields_val[of dbl_const 1020] m(2) by (simp add: power_int_minus_divide)
  show "dbl_val dbl_log2 = 5422874305198587 / 2 ^ 54" using fields_val[of dbl_log2 1021] m(3) by (simp add: power_int_minus_divide)
  show "dbl_val dbl_1_5 = 3 / 2" using fields_val[of dbl_1_5 1023] m(4) by (simp add: power_int_minus_divide)
qed

lemma log_line_mono:
  assumes x: "1 \<le> x" "x < 2" and y: "1 \<le> y" "y < 2" and le: "x * 2 powi i \<le> y * 2 powi j"
  shows "log_line x i \<le> log_line y j"
proof -
  have p: "(0 :: rat) < 2 powi i" "(0 :: rat) < 2 powi j" by (simp_all add: zero_less_power_int)
  consider "i = j" | "i < j" | "j < i" by linarith
  then show ?thesis
  proof cases
    case 1
    then have "x \<le> y" using le p by simp
    then show ?thesis using 1 by (simp add: log_line_def field_simps)
  next
    case 2
    then have "of_int i + 1 \<le> (of_int j :: rat)" by linarith
    then show ?thesis using x y unfolding log_line_def by (simp add: field_simps)
  next
    case 3
    have "(2 :: rat) powi (j + 1) \<le> 2 powi i" using 3 by (intro power_int_increasing) auto
    moreover have "(2 :: rat) powi (j + 1) = 2 * 2 powi j" by (simp add: power_int_add)
    moreover have "y * 2 powi j < 2 * 2 powi j" using y p by simp
    moreover have "1 * 2 powi i \<le> x * 2 powi i" using x p by (intro mult_right_mono) auto
    ultimately show ?thesis using le by linarith
  qed
qed

section \<open>Powers of ten in the approximation\<close>

text \<open>
  For every \<open>k\<close> the number \<open>10^k\<close> lies between \<open>m * 2^e\<close> and \<open>h * 2^e\<close>, with \<open>m\<close> of 61 bits; the
  approximation is above \<open>k\<close> just below it and below \<open>k\<close> at nine tenths of it.
\<close>

definition log_scaled :: "int \<Rightarrow> int \<Rightarrow> int" where
  \<comment> \<open>\<open>2^115\<close> times the approximation at \<open>m * 2^e\<close>\<close>
  "log_scaled m e =
     (m - 1729382256910270464) * 10431405156632258 + 6344356229335219 * 1152921504606846976
     + (e + 60) * 12504296806486729632105423200845824"

definition table_low :: "int \<Rightarrow> int \<Rightarrow> int \<Rightarrow> bool" where
  "table_low k m e =
     (let b = m - m div 4294967296 - 1; (b, e) = (if b < 1152921504606846976 then (2 * b, e - 1) else (b, e))
      in 1152921504606846976 \<le> b \<and> b < 2305843009213693952 \<and> k * 2 ^ 115 + 2 ^ 87 \<le> log_scaled b e)"

definition table_high :: "int \<Rightarrow> int \<Rightarrow> int \<Rightarrow> bool" where
  "table_high k h e =
     (let b = (9 * h + 9) div 10; (b, e) = (if b < 1152921504606846976 then (2 * b, e - 1) else (b, e))
      in 1152921504606846976 \<le> b \<and> b < 2305843009213693952 \<and> log_scaled b e \<le> k * 2 ^ 115 - 2 ^ 87)"

function est_table :: "int \<Rightarrow> int \<Rightarrow> int \<Rightarrow> int \<Rightarrow> bool" where
  "est_table k m h e =
     (if 310 < k then True
      else table_low k m e \<and> table_high k h e
        \<and> (if 10 * m < 18446744073709551616 then est_table (k + 1) (10 * m div 8) ((10 * h + 7) div 8) (e + 3)
           else est_table (k + 1) (10 * m div 16) ((10 * h + 15) div 16) (e + 4)))"
  by pat_completeness auto
termination by (relation "measure (\<lambda>(k, m, h, e). nat (311 - k))") auto

declare est_table.simps [simp del]

lemma est_table_holds: "est_table (- 324) 1866831283351045821 1866831283351045822 (- 1137)"
  by code_simp

lemma log_scaled_rat: "(of_int (log_scaled m e) :: rat) = log_line (of_int m / 2 ^ 60) (e + 60) * 2 ^ 115"
  unfolding log_scaled_def log_line_def by (simp add: field_simps)

definition ten_between :: "int \<Rightarrow> int \<Rightarrow> int \<Rightarrow> int \<Rightarrow> bool" where
  "ten_between k m h e \<longleftrightarrow> of_int m * 2 powi e \<le> (10 :: rat) powi k \<and> 10 powi k \<le> (of_int h * 2 powi e :: rat)"

lemma ten_between_next:
  assumes "ten_between k m h e" "d = 2 ^ nat j" "0 \<le> j"
  shows "ten_between (k + 1) (10 * m div d) ((10 * h + (d - 1)) div d) (e + j)"
proof -
  have d: "0 < d" "(of_int d :: rat) = 2 powi j" using assms by (simp_all add: power_int_def)
  let ?a = "10 * m div d" and ?b = "(10 * h + (d - 1)) div d"
  have p: "(0 :: rat) < 2 powi e" by (simp add: zero_less_power_int)
  have e: "(2 :: rat) powi (e + j) = 2 powi e * of_int d" "(10 :: rat) powi (k + 1) = 10 * 10 powi k"
    using d by (simp_all add: power_int_add)
  have "?a * d \<le> 10 * m" using div_mult_mod_eq[of "10 * m" d] pos_mod_sign[OF d(1), of "10 * m"] by linarith
  moreover have "10 * h \<le> ?b * d"
    using div_mult_mod_eq[of "10 * h + (d - 1)" d] pos_mod_bound[OF d(1), of "10 * h + (d - 1)"] by linarith
  ultimately have "(of_int (?a * d) :: rat) \<le> of_int (10 * m)" "(of_int (10 * h) :: rat) \<le> of_int (?b * d)"
    by (simp_all only: of_int_le_iff)
  then have ab: "of_int ?a * of_int d \<le> (10 * of_int m :: rat)" "(10 * of_int h :: rat) \<le> of_int ?b * of_int d"
    by (simp_all only: of_int_mult of_int_numeral)
  have "of_int ?a * of_int d * 2 powi e \<le> (10 * of_int m * 2 powi e :: rat)" "(10 * of_int h * 2 powi e :: rat) \<le> of_int ?b * of_int d * 2 powi e"
    using p ab by (simp_all only: mult_right_mono less_imp_le)
  moreover have "of_int m * 2 powi e \<le> (10 :: rat) powi k" "10 powi k \<le> (of_int h * 2 powi e :: rat)"
    using assms(1) by (simp_all add: ten_between_def)
  moreover have "of_int ?a * (2 powi e * of_int d) = (of_int ?a * of_int d * 2 powi e :: rat)" "of_int ?b * (2 powi e * of_int d) = (of_int ?b * of_int d * 2 powi e :: rat)"
    by simp_all
  ultimately show ?thesis unfolding ten_between_def e by linarith
qed

lemma est_table_sound:
  assumes "est_table k m h e" "ten_between k m h e" "k \<le> K" "K \<le> 310"
  shows "\<exists>m h e. table_low K m e \<and> table_high K h e \<and> ten_between K m h e"
  using assms
proof (induction k m h e rule: est_table.induct)
  case (1 k m h e)
  have "\<not> 310 < k" using 1(5,6) by simp
  then have "table_low k m e \<and> table_high k h e \<and> (if 10 * m < 18446744073709551616 then est_table (k + 1) (10 * m div 8) ((10 * h + 7) div 8) (e + 3)
      else est_table (k + 1) (10 * m div 16) ((10 * h + 15) div 16) (e + 4))"
    using 1(3) unfolding est_table.simps[of k m h e] if_not_P[OF \<open>\<not> 310 < k\<close>] by blast
  then have t: "table_low k m e" "table_high k h e"
    and n: "if 10 * m < 18446744073709551616 then est_table (k + 1) (10 * m div 8) ((10 * h + 7) div 8) (e + 3)
      else est_table (k + 1) (10 * m div 16) ((10 * h + 15) div 16) (e + 4)"
    by blast+
  show ?case
  proof (cases "K = k")
    case True
    then show ?thesis using t 1(4) by blast
  next
    case False
    then have k: "k + 1 \<le> K" using 1(5) by simp
    show ?thesis
    proof (cases "10 * m < 18446744073709551616")
      case True
      have "ten_between (k + 1) (10 * m div 8) ((10 * h + 7) div 8) (e + 3)" using ten_between_next[OF 1(4), of 8 3] by simp
      then show ?thesis using 1(1) \<open>\<not> 310 < k\<close> True n k 1(6) t by simp
    next
      case F: False
      have "ten_between (k + 1) (10 * m div 16) ((10 * h + 15) div 16) (e + 4)" using ten_between_next[OF 1(4), of 16 4] by simp
      then show ?thesis using 1(2) \<open>\<not> 310 < k\<close> F n k 1(6) t by simp
    qed
  qed
qed

lemma ten_table:
  assumes "- 324 \<le> K" "K \<le> 310"
  shows "\<exists>m h e. table_low K m e \<and> table_high K h e \<and> ten_between K m h e"
proof -
  have a: "(1866831283351045821 :: nat) * 10 ^ 324 \<le> 2 ^ 1137" "(2 :: nat) ^ 1137 \<le> 1866831283351045822 * 10 ^ 324" by simp_all
  have "(of_nat (1866831283351045821 * 10 ^ 324) :: rat) \<le> of_nat (2 ^ 1137)" "(of_nat (2 ^ 1137) :: rat) \<le> of_nat (1866831283351045822 * 10 ^ 324)"
    using a by (simp_all only: of_nat_le_iff)
  then have b: "(1866831283351045821 :: rat) * 10 ^ 324 \<le> 2 ^ 1137" "(2 :: rat) ^ 1137 \<le> 1866831283351045822 * 10 ^ 324"
    by (simp_all only: of_nat_mult of_nat_power of_nat_numeral)
  have p: "(10 :: rat) powi (- 324) = 1 / 10 ^ 324" "(2 :: rat) powi (- 1137) = 1 / 2 ^ 1137"
    by (simp_all only: power_int_minus_divide power_int_numeral)
  define X Y where "X = (10 :: rat) ^ 324" and "Y = (2 :: rat) ^ 1137"
  have "0 < X" "0 < Y" unfolding X_def Y_def by (simp_all only: zero_less_power zero_less_numeral)
  then have "ten_between (- 324) 1866831283351045821 1866831283351045822 (- 1137)"
    unfolding ten_between_def p using b unfolding X_def[symmetric] Y_def[symmetric] by (simp add: field_simps)
  then show ?thesis by (rule est_table_sound[OF est_table_holds]) (use assms in simp_all)
qed

lemma table_norm:
  assumes "(if b < 1152921504606846976 then (2 * b, e - 1) else (b, e)) = (b', e')"
  shows "(of_int b' * 2 powi e' :: rat) = of_int b * 2 powi e"
  using assms by (auto simp: power_int_diff split: if_splits)

lemma log_line_low:
  assumes "- 324 \<le> K" "K \<le> 310" and x: "1 \<le> x" "x < 2" and v: "10 powi K * (1 - 1 / 2 ^ 32) \<le> x * 2 powi i"
  shows "of_int K + 1 / 2 ^ 28 \<le> log_line x i"
proof -
  obtain m h e where t: "table_low K m e" "ten_between K m h e" using ten_table[OF assms(1,2)] by blast
  let ?b = "m - m div 4294967296 - 1"
  obtain b e' where n: "(if ?b < 1152921504606846976 then (2 * ?b, e - 1) else (?b, e)) = (b, e')" by fastforce
  have b: "1152921504606846976 \<le> b" "b < 2305843009213693952" "K * 2 ^ 115 + 2 ^ 87 \<le> log_scaled b e'"
    using t(1) n by (simp_all add: table_low_def Let_def split del: if_split)
  have p: "(0 :: rat) < 2 powi e" by (simp add: zero_less_power_int)
  have "m mod 4294967296 < 4294967296" by simp
  moreover have "m = 4294967296 * (m div 4294967296) + m mod 4294967296" by simp
  moreover have "m < 4294967296 * q + 4294967296 \<Longrightarrow> 4294967296 * (m - q - 1) \<le> 4294967295 * m" for q by simp
  ultimately have "4294967296 * ?b \<le> 4294967295 * m" by (metis add_strict_left_mono)
  then have "(of_int (4294967296 * ?b) :: rat) \<le> of_int (4294967295 * m)" by (simp only: of_int_le_iff)
  then have "of_int ?b \<le> (of_int m * (1 - 1 / 2 ^ 32) :: rat)" by simp
  then have "of_int ?b * 2 powi e \<le> (of_int m * (1 - 1 / 2 ^ 32) * 2 powi e :: rat)" using p by (intro mult_right_mono) auto
  also have "\<dots> = of_int m * 2 powi e * (1 - 1 / 2 ^ 32)" by simp
  also have "\<dots> \<le> 10 powi K * (1 - 1 / 2 ^ 32)" using t(2) by (intro mult_right_mono) (simp_all add: ten_between_def)
  also have "\<dots> \<le> x * 2 powi i" by (rule v)
  finally have le: "of_int b * 2 powi e' \<le> x * 2 powi i" unfolding table_norm[OF n] .
  have "(2 :: rat) powi (e' + 60) = 2 powi e' * 2 ^ 60" by (simp add: power_int_add)
  then have "of_int b / 2 ^ 60 * 2 powi (e' + 60) = (of_int b * 2 powi e' :: rat)" by simp
  then have "log_line (of_int b / 2 ^ 60) (e' + 60) \<le> log_line x i"
    using le b x by (intro log_line_mono) (simp_all add: field_simps)
  moreover have "(of_int (K * 2 ^ 115 + 2 ^ 87) :: rat) \<le> of_int (log_scaled b e')" using b(3) by (simp only: of_int_le_iff)
  then have "of_int K + 1 / 2 ^ 28 \<le> log_line (of_int b / 2 ^ 60) (e' + 60)"
    unfolding log_scaled_rat by (simp add: field_simps)
  ultimately show ?thesis by linarith
qed

lemma log_line_high:
  assumes "- 324 \<le> K" "K \<le> 310" and x: "1 \<le> x" "x < 2" and v: "x * 2 powi i \<le> 10 powi K * (9 / 10)"
  shows "log_line x i \<le> of_int K - 1 / 2 ^ 28"
proof -
  obtain m h e where t: "table_high K h e" "ten_between K m h e" using ten_table[OF assms(1,2)] by blast
  let ?b = "(9 * h + 9) div 10"
  obtain b e' where n: "(if ?b < 1152921504606846976 then (2 * ?b, e - 1) else (?b, e)) = (b, e')" by fastforce
  have b: "1152921504606846976 \<le> b" "b < 2305843009213693952" "log_scaled b e' \<le> K * 2 ^ 115 - 2 ^ 87"
    using t(1) n by (simp_all add: table_high_def Let_def split del: if_split)
  have p: "(0 :: rat) < 2 powi e" by (simp add: zero_less_power_int)
  have "(9 * h + 9) mod 10 < 10" by simp
  then have "9 * h \<le> 10 * ?b" using div_mult_mod_eq[of "9 * h + 9" 10] by linarith
  then have "(of_int (9 * h) :: rat) \<le> of_int (10 * ?b)" by (simp only: of_int_le_iff)
  then have hb: "of_int h * (9 / 10) \<le> (of_int ?b :: rat)" by simp
  have "x * 2 powi i \<le> 10 powi K * (9 / 10)" by (rule v)
  also have "\<dots> \<le> of_int h * 2 powi e * (9 / 10)" using t(2) by (intro mult_right_mono) (simp_all add: ten_between_def)
  also have "\<dots> = of_int h * (9 / 10) * 2 powi e" by simp
  also have "\<dots> \<le> of_int ?b * 2 powi e" using hb p by (intro mult_right_mono) auto
  finally have le: "x * 2 powi i \<le> of_int b * 2 powi e'" unfolding table_norm[OF n] .
  have "(2 :: rat) powi (e' + 60) = 2 powi e' * 2 ^ 60" by (simp add: power_int_add)
  then have "of_int b / 2 ^ 60 * 2 powi (e' + 60) = (of_int b * 2 powi e' :: rat)" by simp
  then have "log_line x i \<le> log_line (of_int b / 2 ^ 60) (e' + 60)"
    using le b x by (intro log_line_mono) (simp_all add: field_simps)
  moreover have "(of_int (log_scaled b e') :: rat) \<le> of_int (K * 2 ^ 115 - 2 ^ 87)" using b(3) by (simp only: of_int_le_iff)
  then have "log_line (of_int b / 2 ^ 60) (e' + 60) \<le> of_int K - 1 / 2 ^ 28"
    unfolding log_scaled_rat by (simp add: field_simps)
  ultimately show ?thesis by linarith
qed

end
