(* ===== verification/Dtoa_Text.thy ===== *)
theory Dtoa_Text
  imports Dtoa_Print Fpconv
begin

text \<open>
The strings of digits that \<open>dtoa\<close> of \<open>3rd/lua-cjson/dtoa.c\<close> builds: \<open>fixed_digits w n\<close> has the \<open>w\<close> last
  digits of \<open>n\<close>, rounding up the string rounds up the number, and trimming zeros leaves what
  \<open>printf\<close> leaves.
\<close>

section \<open>Strings of digits\<close>

fun fixed_digits :: "nat \<Rightarrow> nat \<Rightarrow> string" where
  \<comment> \<open>so many digits of a number, leading zeros included\<close>
  "fixed_digits 0 n = []"
| "fixed_digits (Suc w) n = fixed_digits w (n div 10) @ [char_of (48 + n mod 10)]"

lemma length_fixed_digits [simp]: "length (fixed_digits w n) = w"
  by (induction w arbitrary: n) simp_all

lemma fixed_digits_snoc: "d < 10 \<Longrightarrow> fixed_digits (Suc w) (10 * n + d) = fixed_digits w n @ [char_of (48 + d)]"
  by simp

lemma fixed_digits_dec:
  "10 ^ w \<le> n \<Longrightarrow> n < 10 ^ Suc w \<Longrightarrow> fixed_digits (Suc w) n = dec_digits n"
proof (induction w arbitrary: n)
  case 0
  then show ?case by (simp add: dec_digits.simps[of n])
next
  case (Suc w)
  have "10 ^ w \<le> n div 10" "n div 10 < 10 ^ Suc w" using Suc.prems by simp_all
  moreover have "10 \<le> n"
  proof -
    have "10 * 10 ^ w \<le> n" "1 \<le> (10::nat) ^ w" using Suc.prems(1) by simp_all
    then show ?thesis by linarith
  qed
  ultimately show ?case using Suc.IH[of "n div 10"] by (simp add: dec_digits.simps[of n])
qed

lemma fixed_digits_shift: "fixed_digits (w + j) (n * 10 ^ j) = fixed_digits w n @ replicate j (CHR ''0'')"
proof (induction j)
  case (Suc j)
  have "n * 10 ^ Suc j div 10 = n * 10 ^ j" by (simp add: mult.left_commute)
  moreover have "char_of (48::nat) = CHR ''0''" by code_simp
  ultimately show ?case using Suc by (simp add: replicate_append_same)
qed simp

lemma strip_zeros_replicate [simp]: "strip_zeros (ds @ replicate j (CHR ''0'')) = strip_zeros ds"
proof -
  have "dropWhile (\<lambda>c. c = CHR ''0'') (replicate j (CHR ''0'') @ xs) = dropWhile (\<lambda>c. c = CHR ''0'') xs" for xs
    by (rule dropWhile_append2) auto
  then show ?thesis by (simp add: strip_zeros_def)
qed

lemma strip_fixed_shift: "strip_zeros (fixed_digits (w + j) (n * 10 ^ j)) = strip_zeros (fixed_digits w n)"
  unfolding fixed_digits_shift by simp

lemma digit_char_eq: "d < 10 \<Longrightarrow> e < 10 \<Longrightarrow> char_of (48 + d) = char_of (48 + e) \<longleftrightarrow> d = (e :: nat)"
  by (metis add_left_imp_eq digit_value_char_of option.inject)

lemma digit_char_0: "d < 10 \<Longrightarrow> char_of (48 + d) = CHR ''0'' \<longleftrightarrow> d = (0 :: nat)"
  and digit_char_9: "d < 10 \<Longrightarrow> char_of (48 + d) = CHR ''9'' \<longleftrightarrow> d = (9 :: nat)"
proof -
  have "char_of (48 + 0 :: nat) = CHR ''0''" "char_of (48 + 9 :: nat) = CHR ''9''" by code_simp+
  then show "d < 10 \<Longrightarrow> char_of (48 + d) = CHR ''0'' \<longleftrightarrow> d = (0 :: nat)"
    "d < 10 \<Longrightarrow> char_of (48 + d) = CHR ''9'' \<longleftrightarrow> d = (9 :: nat)"
    using digit_char_eq[of d 0] digit_char_eq[of d 9] by simp_all
qed

lemma digit_char_next: "d < 10 \<Longrightarrow> char_of_int (uc (char_of (48 + d)) + 1) = char_of (48 + Suc d)"
proof -
  assume d: "d < 10"
  have "(of_char (char_of (48 + d) :: char) :: nat) = 48 + d" using d by simp
  then have "uc (char_of (48 + d)) = int (48 + d)" unfolding uc_def by (metis of_nat_of_char)
  then have "uc (char_of (48 + d)) + 1 = int (48 + Suc d)" by simp
  moreover have "take_bit 8 (int (48 + Suc d)) = int (48 + Suc d)" using d by (simp add: take_bit_int_eq_self)
  ultimately show ?thesis by (simp only: char_of_int_def char_of_nat)
qed

lemma store_digit_ok:
  assumes "d < 10" "int (length out) < rv_cap sz"
  shows "store_digit sz out (int d) = Inr (out @ [char_of (48 + d)])"
proof -
  have "48 + int d = int d + 48" by simp
  moreover have "take_bit 8 (int (48 + d)) = int (48 + d)" using assms(1) by (simp add: take_bit_int_eq_self)
  then have "char_of_int (int (48 + d)) = char_of (48 + d)" by (simp only: char_of_int_def char_of_nat)
  moreover have "int (48 + d) = 48 + int d" by simp
  ultimately show ?thesis using assms by (simp add: store_digit_def put_ch_def int_ok_iff)
qed

section \<open>Rounding\<close>

lemma round_up_rev_digits:
  "n < 10 ^ Suc w \<Longrightarrow> \<exists>out c. round_up_rev (rev (fixed_digits (Suc w) n)) = Inr (out, c)
     \<and> (c \<longleftrightarrow> n + 1 = 10 ^ Suc w)
     \<and> (if c then out = ''1'' else strip_zeros (rev out) = strip_zeros (fixed_digits (Suc w) (n + 1)) \<and> length out \<le> Suc w)"
proof (induction w arbitrary: n)
  case 0
  have "char_of (49 :: nat) = CHR ''1''" by code_simp
  then show ?case using 0 digit_char_9[of n] digit_char_next[of n] by auto
next
  case (Suc w)
  let ?m = "n div 10" and ?d = "n mod 10"
  have m: "?m < 10 ^ Suc w" using Suc.prems by simp
  have n: "n = 10 * ?m + ?d" by simp
  have r: "rev (fixed_digits (Suc (Suc w)) n) = char_of (48 + ?d) # rev (fixed_digits (Suc w) ?m)" by simp
  have ne: "rev (fixed_digits (Suc w) ?m) \<noteq> []" by simp
  show ?case
  proof (cases "?d = 9")
    case True
    then have up: "n + 1 = 10 * (?m + 1)" by presburger
    then have carry: "n + 1 = 10 ^ Suc (Suc w) \<longleftrightarrow> ?m + 1 = 10 ^ Suc w"
      unfolding up power_Suc[of _ "Suc w"] by (subst mult_cancel1) simp
    have "strip_zeros (fixed_digits (Suc w + 1) ((?m + 1) * 10 ^ 1)) = strip_zeros (fixed_digits (Suc w) (?m + 1))"
      by (rule strip_fixed_shift)
    then have "strip_zeros (fixed_digits (Suc (Suc w)) (n + 1)) = strip_zeros (fixed_digits (Suc w) (?m + 1))"
      unfolding up by (simp del: fixed_digits.simps add: mult.commute)
    then show ?thesis using Suc.IH[OF m] True digit_char_9[of ?d] ne unfolding r carry round_up_rev.simps by fastforce
  next
    case False
    have d: "?d < 10" "Suc ?d < 10" using False by simp_all
    then have "char_of (48 + ?d) \<noteq> CHR ''9''" using digit_char_9 False by blast
    then have e: "round_up_rev (rev (fixed_digits (Suc (Suc w)) n))
        = Inr (char_of (48 + Suc ?d) # rev (fixed_digits (Suc w) ?m), False)"
      unfolding r round_up_rev.simps using digit_char_next[OF d(1)] by simp
    have "n + 1 = 10 * ?m + Suc ?d" by presburger
    then have "fixed_digits (Suc (Suc w)) (n + 1) = fixed_digits (Suc w) ?m @ [char_of (48 + Suc ?d)]"
      using fixed_digits_snoc[OF d(2)] by metis
    moreover have "n + 1 \<noteq> 10 ^ Suc (Suc w)"
    proof
      assume "n + 1 = 10 ^ Suc (Suc w)"
      then have "10 * ?m + Suc ?d = 10 * 10 ^ Suc w" using n by simp
      then have "Suc ?d mod 10 = 0" by (metis mod_mult_self1_is_0 mod_mult_self4)
      then show False using d(2) by simp
    qed
    ultimately show ?thesis unfolding e
      by (intro exI[of _ "char_of (48 + Suc ?d) # rev (fixed_digits (Suc w) ?m)"] exI[of _ False])
         (simp del: fixed_digits.simps)
  qed
qed

lemma round_up_digits:
  assumes "n < 10 ^ w" "0 < w"
  shows "\<exists>out c. round_up (fixed_digits w n) = Inr (out, c) \<and> (c \<longleftrightarrow> n + 1 = 10 ^ w)
     \<and> (if c then out = ''1'' else strip_zeros out = strip_zeros (fixed_digits w (n + 1))) \<and> length out \<le> w"
proof -
  obtain v where w: "w = Suc v" using assms(2) by (cases w) auto
  from round_up_rev_digits[of n v] assms(1) show ?thesis unfolding w round_up_def by (auto split: if_splits)
qed

lemma trim_text_digits:
  assumes "0 < n" "n < 10 ^ w"
  shows "trim_text (fixed_digits w n) = Inr (strip_zeros (fixed_digits w n))"
proof -
  have "\<exists>c \<in> set (fixed_digits w n). c \<noteq> CHR ''0''" using assms
  proof (induction w arbitrary: n)
    case (Suc w)
    show ?case
    proof (cases "n mod 10 = 0")
      case True
      then have "0 < n div 10" "n div 10 < 10 ^ w" using Suc.prems by auto
      then show ?thesis using Suc.IH by auto
    next
      case False
      then show ?thesis using digit_char_0[of "n mod 10"] by simp
    qed
  qed simp
  then have "dropWhile (\<lambda>c. c = CHR ''0'') (rev (fixed_digits w n)) \<noteq> []" by (simp add: dropWhile_eq_Nil_conv)
  then show ?thesis by (simp add: trim_text_def strip_zeros_def split: list.split)
qed

section \<open>Trimmed texts\<close>

definition trimmed :: "string \<Rightarrow> bool" where
  "trimmed out \<longleftrightarrow> strip_zeros out = out"

lemma trimmed_last: "out \<noteq> [] \<Longrightarrow> last out \<noteq> CHR ''0'' \<Longrightarrow> trimmed out"
  by (cases out rule: rev_cases) (simp_all add: trimmed_def strip_zeros_def)

lemma trimmed_strip [simp]: "trimmed (strip_zeros out)"
  by (simp add: trimmed_def strip_zeros_def)

lemma round_up_rev_trimmed:
  "\<forall>c \<in> set cs. \<exists>d < 10. c = char_of (48 + d :: nat) \<Longrightarrow> round_up_rev cs = Inr (x, b) \<Longrightarrow> x \<noteq> [] \<and> hd x \<noteq> CHR ''0''"
proof (induction cs)
  case (Cons c cs)
  obtain d where d: "d < 10" "c = char_of (48 + d :: nat)" using Cons.prems(1) by auto
  show ?case
  proof (cases "c = CHR ''9''")
    case True
    then show ?thesis using Cons by (auto split: if_splits)
  next
    case False
    then have "d < 9" using d digit_char_9[of d] by (cases "d = 9") auto
    then show ?thesis using Cons.prems(2) False digit_char_next[OF d(1)] digit_char_0[of "Suc d"] unfolding d(2) by auto
  qed
qed simp

lemma fixed_digits_chars: "c \<in> set (fixed_digits w n) \<Longrightarrow> \<exists>d < 10. c = char_of (48 + d :: nat)"
proof (induction w arbitrary: n)
  case (Suc w)
  have "c \<in> set (fixed_digits w (n div 10)) \<or> c = char_of (48 + n mod 10)" using Suc.prems by auto
  then show ?case
  proof
    assume "c = char_of (48 + n mod 10)"
    then show ?thesis by (intro exI[of _ "n mod 10"]) simp
  qed (rule Suc.IH)
qed simp

lemma round_up_trimmed:
  assumes "round_up (fixed_digits p N) = Inr (out, c)"
  shows "trimmed out"
proof -
  obtain x where x: "round_up_rev (rev (fixed_digits p N)) = Inr (x, c)" "out = rev x"
    using assms by (auto simp: round_up_def andthen_eq_Inr)
  have "x \<noteq> [] \<and> hd x \<noteq> CHR ''0''"
    by (rule round_up_rev_trimmed[OF _ x(1)]) (auto dest: fixed_digits_chars)
  then show ?thesis unfolding x(2) by (intro trimmed_last) (auto simp: last_rev)
qed

lemma last_digit_trimmed: "n mod 10 \<noteq> 0 \<Longrightarrow> trimmed (fixed_digits (Suc w) n)"
  using digit_char_0[of "n mod 10"] by (intro trimmed_last) simp_all

lemma trim_text_trimmed: "0 < n \<Longrightarrow> n < 10 ^ w \<Longrightarrow> trim_text (fixed_digits w n) = Inr out \<Longrightarrow> trimmed out"
  using trim_text_digits[of n w] by auto

end
