(* ===== verification/Bigint_Props.thy ===== *)
theory Bigint_Props
  imports Bigint_Double
begin

text \<open>
What the bignum routines of \<open>3rd/lua-cjson/dtoa.c\<close> promise their callers: the invariant of the
  storage over any sequence of calls, and the values of the arithmetic operations, over the
  contracts (\<open>made\<close>, \<open>becomes\<close>, \<open>powered\<close>) proved with each operation.
\<close>

section \<open>Storage\<close>

inductive dt_step :: "alloc \<Rightarrow> dtoa_state \<times> nat set \<Rightarrow> dtoa_state \<times> nat set \<Rightarrow> bool" for A where
  \<comment> \<open>the callers' calls, with the set of blocks they hold\<close>
  alloc: "0 \<le> k \<Longrightarrow> k \<le> 30 \<Longrightarrow> Balloc A s k = Inr (s', a) \<Longrightarrow> dt_step A (s, L) (s', insert a L)"
| release: "a \<in> L \<Longrightarrow> Bfree s (Some a) = Inr s' \<Longrightarrow> dt_step A (s, L) (s', L - {a})"

inductive_cases dt_stepE: "dt_step A c c'"

lemma dt_step_ok: "dt_step A c c' \<Longrightarrow> (case c of (s, L) \<Rightarrow> dt_ok s L) \<Longrightarrow> (case c' of (s', L') \<Rightarrow> dt_ok s' L')"
proof (induction rule: dt_step.induct)
  case (alloc k s s' a L)
  then show ?case using wpr_InrD[OF Balloc_spec[OF _ alloc(1,2)] alloc(3)] by auto
next
  case (release a L s s')
  then show ?case using Bfree_spec[of s L a] by auto
qed

text \<open>
  C12: whatever sequence of \<open>Balloc\<close> and \<open>Bfree\<close> calls the program makes from its start, every
  block in memory is either held by a caller or on the free list of its size, never both and
  never lost, each block has the size its \<open>k\<close> says, and the private memory is not overrun.
\<close>

theorem blocks_invariant:
  assumes "(dt_step A)\<^sup>*\<^sup>* (dtoa_init, {}) (s, L)"
  shows "dt_ok s L"
proof -
  have "case (s, L) of (s, L) \<Rightarrow> dt_ok s L"
    using assms by (induction rule: rtranclp_induct) (auto simp: dt_ok_init dest: dt_step_ok)
  then show ?thesis by simp
qed

theorem blocks_invariant_witness:
  "\<exists>s. dt_step (\<lambda>_. True) (dtoa_init, {}) (s, {0}) \<and> dt_ok s {0}"
proof -
  have "\<exists>s. Balloc (\<lambda>_. True) dtoa_init 1 = Inr (s, 0)"
    by (simp add: Balloc_def dtoa_init_def Kmax_def Let_def)
  then obtain s where s: "Balloc (\<lambda>_. True) dtoa_init 1 = Inr (s, 0)" by blast
  then have "dt_step (\<lambda>_. True) (dtoa_init, {}) (s, {0})" by (intro alloc[of 1]) simp_all
  then show ?thesis using blocks_invariant[of "\<lambda>_. True" s "{0}"] by blast
qed

text \<open>
  A block that has been freed is served again: after \<open>Bfree\<close> of a block of at most \<open>2 ^ Kmax\<close>
  words the next \<open>Balloc\<close> of that size succeeds, even with the allocator exhausted, and returns
  this block.
\<close>

lemma freed_block_reused:
  assumes "dt_ok s L" "a \<in> L" "dt_heap s a = Some b" "bg_k b \<le> Kmax"
  shows "\<exists>s1 s2. Bfree s (Some a) = Inr s1 \<and> Balloc A s1 (bg_k b) = Inr (s2, a)"
proof -
  have "0 \<le> bg_k b" using dt_ok_deref[OF assms(1,2)] assms(3) by (auto simp: blk_ok_def)
  then show ?thesis using assms by (auto simp: Bfree_def Balloc_def deref_def update_def)
qed

section \<open>An example state\<close>

definition sample_block :: "limb \<Rightarrow> bigint" where
  "sample_block w = \<lparr>bg_next = None, bg_k = 1, bg_maxwds = 2, bg_sign = 0, bg_wds = 1, bg_x = [Some w, None]\<rparr>"

definition sample_state :: dtoa_state where
  "sample_state = dtoa_init\<lparr>dt_heap := [0 \<mapsto> sample_block 0x70000001, 1 \<mapsto> sample_block 0x10000000], dt_fresh := 2\<rparr>"

lemma sample_ok: "dt_ok sample_state {0, 1}"
  unfolding dt_ok_def free_ok_def
  by (rule exI[of _ "\<lambda>_. []"]) (auto simp: sample_state_def dtoa_init_def sample_block_def blk_ok_def PRIVATE_mem_def)

lemma sample_big: "big_at sample_state 0 1 0x70000001" "big_at sample_state 1 1 0x10000000"
  by (auto simp: big_at_def sample_state_def sample_block_def big_def blk_ok_def peek_words_def)

lemma sample_inv: "dtoa_inv sample_state {0, 1}"
proof -
  have "dt_p5s sample_state = None" by (simp add: sample_state_def dtoa_init_def)
  then show ?thesis unfolding dtoa_inv_def p5_ok_def by (intro exI[of _ "[]"]) (use sample_ok in simp)
qed

section \<open>Arithmetic\<close>

text \<open>
  C15: \<open>mult\<close> returns the product of two positive numbers in a new block, leaves its arguments and
  every other block alone, and fails only if the allocator does.
\<close>

theorem mult_product:
  assumes "dt_ok s L" "a \<in> L" "big_at s a k n" "0 < n" "b \<in> L" "big_at s b k m" "0 < m" "k \<le> 29"
  shows "case mult A s a b of
      Inl e \<Rightarrow> alloc_err A e
    | Inr (s', c) \<Rightarrow> c \<notin> L \<and> dt_ok s' (insert c L) \<and> same L s s' \<and> big_at s' c (k + 1) (n * m)"
proof -
  have "wpr (alloc_err A) (made s L (k + 1) (n * m) 0) (mult A s a b)"
    by (rule mult_spec) (use assms in auto)
  then show ?thesis by (auto simp: wpr_def made_def big_at_def split: sum.splits)
qed

theorem mult_product_witness:
  "case mult (\<lambda>_. True) sample_state 0 1 of
      Inl e \<Rightarrow> alloc_err (\<lambda>_. True) e
    | Inr (s', c) \<Rightarrow> c \<notin> {0, 1} \<and> dt_ok s' (insert c {0, 1}) \<and> same {0, 1} sample_state s'
        \<and> big_at s' c (1 + 1) (0x70000001 * 0x10000000)"
  by (rule mult_product[OF sample_ok _ sample_big(1) _ _ sample_big(2)]) simp_all

text \<open>
  C16: \<open>diff\<close> returns the absolute difference of two numbers in a new block, with the sign field 1
  exactly when the first is the smaller one, and \<open>cmp\<close> agrees with the order of the numbers.
\<close>

theorem diff_value:
  assumes "dt_ok s L" "a \<in> L" "big_at s a k n" "b \<in> L" "big_at s b k m" "0 < n \<or> 0 < m"
  shows "(\<exists>i. cmp s a b = Inr i \<and> (i < 0) = (n < m) \<and> (i = 0) = (n = m)) \<and>
    (case diff A s a b of
      Inl e \<Rightarrow> alloc_err A e
    | Inr (s', c) \<Rightarrow> c \<notin> L \<and> dt_ok s' (insert c L) \<and> same L s s'
        \<and> (\<exists>C. dt_heap s' c = Some C \<and> big k C (nat \<bar>int n - int m\<bar>) \<and> bg_sign C = (if n < m then 1 else 0)))"
proof -
  have "(if n < m then m - n else n - m) = nat \<bar>int n - int m\<bar>" by auto
  then show ?thesis using diff_spec[OF assms(1-6), of A] cmp_spec[OF assms(3,5,6)]
    by (auto simp: wpr_def made_def split: sum.splits)
qed

theorem diff_value_witness:
  "(\<exists>i. cmp sample_state 1 0 = Inr i \<and> (i < 0) = ((0x10000000::nat) < 0x70000001) \<and> (i = 0) = ((0x10000000::nat) = 0x70000001)) \<and>
    (case diff (\<lambda>_. True) sample_state 1 0 of
      Inl e \<Rightarrow> alloc_err (\<lambda>_. True) e
    | Inr (s', c) \<Rightarrow> c \<notin> {0, 1} \<and> dt_ok s' (insert c {0, 1}) \<and> same {0, 1} sample_state s'
        \<and> (\<exists>C. dt_heap s' c = Some C \<and> big 1 C (nat \<bar>int 0x10000000 - int 0x70000001\<bar>)
             \<and> bg_sign C = (if (0x10000000::nat) < 0x70000001 then 1 else 0)))"
  by (rule diff_value[OF sample_ok _ sample_big(2) _ sample_big(1)]) simp_all

text \<open>
  C13: \<open>pow5mult\<close> multiplies a number by a power of five. It keeps the list of cached powers, which
  it extends as it goes: at every moment its \<open>i\<close>th entry holds \<open>625 ^ (2 ^ i)\<close>.
\<close>

theorem pow5mult_value:
  assumes "dtoa_inv s L" "b \<in> L" "big_at s b k n" "0 < n" "k \<le> 15" "0 \<le> e" "e < 65536"
  shows "case pow5mult A s b e of
      Inl err \<Rightarrow> alloc_err A err
    | Inr (s', b') \<Rightarrow> (b' = b \<or> b' \<notin> L) \<and> dtoa_inv s' (insert b' (L - {b}))
        \<and> (\<forall>a \<in> L - {b}. dt_heap s' a = dt_heap s a) \<and> big_at s' b' (k + 15) (n * 5 ^ nat e)"
  using pow5mult_spec[OF assms(1-7), of A] by (auto simp: wpr_def powered_def split: sum.splits)

theorem pow5mult_value_witness:
  "case pow5mult (\<lambda>_. True) sample_state 0 11 of
      Inl err \<Rightarrow> alloc_err (\<lambda>_. True) err
    | Inr (s', b') \<Rightarrow> (b' = 0 \<or> b' \<notin> {0, 1}) \<and> dtoa_inv s' (insert b' ({0, 1} - {0}))
        \<and> (\<forall>a \<in> {0, 1} - {0}. dt_heap s' a = dt_heap sample_state a) \<and> big_at s' b' (1 + 15) (0x70000001 * 5 ^ nat 11)"
  by (rule pow5mult_value[OF sample_inv _ sample_big(1)]) simp_all

text \<open>
  C14: \<open>quorem\<close> divides: for a divisor of at least as many words, whose leading word is at least
  \<open>2 ^ 16\<close> and not all ones, it leaves the remainder in its first argument and returns the
  quotient, and touches nothing else.
\<close>

theorem quorem_divides:
  assumes "dt_ok s L" "b \<in> L" "dt_heap s b = Some B" "big k B n" "S \<in> L" "dt_heap s S = Some T" "big k' T m" "b \<noteq> S"
    and "bg_wds B \<le> bg_wds T" "65536 * 4294967296 ^ nat (bg_wds T - 1) \<le> m" "m < 4294967295 * 4294967296 ^ nat (bg_wds T - 1)"
    and "n div m < 2147483648"
  shows "\<exists>s'. quorem s b S = Inr (s', int (n div m)) \<and> dt_ok s' L \<and> same (L - {b}) s s' \<and> big_at s' b k (n mod m)"
proof -
  have "0 < m" using assms(10) by (cases "m = 0") simp_all
  moreover have "sint (word_of_nat (n div m) :: limb) = int (n div m)"
    using assms(12) by (simp add: sint_uint unsigned_of_nat take_bit_eq_mod signed_take_bit_eq_if_positive bit_iff_odd)
  ultimately show ?thesis using quorem_spec[OF assms(1-8) _ assms(9-11)] by simp
qed

theorem quorem_divides_witness:
  "\<exists>s'. quorem sample_state 0 1 = Inr (s', int (0x70000001 div 0x10000000)) \<and> dt_ok s' {0, 1}
     \<and> same ({0, 1} - {0}) sample_state s' \<and> big_at s' 0 1 (0x70000001 mod 0x10000000)"
proof -
  obtain B T where "dt_heap sample_state 0 = Some B" "big 1 B 0x70000001" "dt_heap sample_state 1 = Some T" "big 1 T 0x10000000"
    "bg_wds B = 1" "bg_wds T = 1"
    using sample_big by (auto simp: big_at_def sample_state_def sample_block_def)
  then show ?thesis by (intro quorem_divides[OF sample_ok, of 0 B 1 _ 1 T 1]) simp_all
qed

text \<open>C23: shifting a number left and then right by the same amount gives the number back.\<close>

theorem shift_roundtrip:
  assumes "dt_ok s L" "a \<in> L" "big_at s a k n" "0 < n" "0 \<le> j" "k \<le> K" "K \<le> 30" "j div 32 + 2 ^ nat k + 1 \<le> 2 ^ nat K"
  shows "case andthen (lshift A s a j) (\<lambda>(s, a). andthen (rshift s a j) (\<lambda>s. Inr (s, a))) of
      Inl e \<Rightarrow> alloc_err A e
    | Inr (s', a') \<Rightarrow> big_at s' a' K n \<and> dt_ok s' (insert a' (L - {a})) \<and> same (L - {a}) s s'"
proof -
  have "wpr (alloc_err A) (\<lambda>(s', a'). big_at s' a' K n \<and> dt_ok s' (insert a' (L - {a})) \<and> same (L - {a}) s s')
      (andthen (lshift A s a j) (\<lambda>(s, a). andthen (rshift s a j) (\<lambda>s. Inr (s, a))))"
    unfolding wpr_andthen[of _ _ "lshift A s a j"]
  proof (rule wpr_mono[OF lshift_spec[OF assms(1-8)]])
    fix r assume "becomes s L a K (n * 2 ^ nat j) r"
    then obtain s1 c where r: "r = (s1, c)" "c = a \<or> c \<notin> L" "dt_ok s1 (insert c (L - {a}))" "same (L - {a}) s s1" "big_at s1 c K (n * 2 ^ nat j)"
      by (cases r) (auto simp: becomes_def)
    obtain s2 where s2: "rshift s1 c j = Inr s2" "dt_ok s2 (insert c (L - {a}))" "same (insert c (L - {a}) - {c}) s1 s2" "big_at s2 c K n"
      using rshift_spec[OF r(3) insertI1 r(5) assms(5)] by auto
    have "insert c (L - {a}) - {c} = L - {a}" using r(2) by auto
    then show "wpr (alloc_err A) (\<lambda>(s', a'). big_at s' a' K n \<and> dt_ok s' (insert a' (L - {a})) \<and> same (L - {a}) s s')
        (case r of (s, a) \<Rightarrow> andthen (rshift s a j) (\<lambda>s. Inr (s, a)))"
      using r(1,4) s2 same_trans by auto
  qed simp
  then show ?thesis by (simp add: wpr_def)
qed

theorem shift_roundtrip_witness:
  "case andthen (lshift (\<lambda>_. True) sample_state 0 100) (\<lambda>(s, a). andthen (rshift s a 100) (\<lambda>s. Inr (s, a))) of
      Inl e \<Rightarrow> alloc_err (\<lambda>_. True) e
    | Inr (s', a') \<Rightarrow> big_at s' a' 3 0x70000001 \<and> dt_ok s' (insert a' ({0, 1} - {0})) \<and> same ({0, 1} - {0}) sample_state s'"
  by (rule shift_roundtrip[OF sample_ok _ sample_big(1)]) simp_all

section \<open>Doubles\<close>

text \<open>
  C22: \<open>d2b\<close> and \<open>b2d\<close> are inverse to each other up to the power of two: for a normal number
  \<open>d2b\<close> returns an odd number, its exponent and its bit count with \<open>|d| = b * 2 ^ e\<close> exactly, and
  \<open>b2d\<close> of this number is the double between 1 and 2 with the fraction of \<open>d\<close>.
\<close>

theorem d2b_b2d_roundtrip:
  assumes "dt_ok s L" "0 < dbl_exp d" "dbl_exp d < 2047"
  shows "case d2b A s d of
      Inl err \<Rightarrow> alloc_err A err
    | Inr (s', b, e, bits, d') \<Rightarrow> b \<notin> L \<and> dt_ok s' (insert b L) \<and> same L s s'
        \<and> (\<exists>n k. big_at s' b 1 n \<and> odd n \<and> n * 2 ^ k = dbl_mant d \<and> e = int (dbl_exp d) - 1075 + int k \<and> bits = 53 - int k)
        \<and> (\<exists>f i. b2d s' b = Inr (f, i) \<and> \<not> dbl_sign f \<and> dbl_exp f = 1023 \<and> dbl_frac f = dbl_frac d)"
proof -
  have m: "2 ^ 52 \<le> dbl_mant d" "dbl_mant d < 2 ^ 53" using assms(2) by (simp_all add: dbl_mant_def dbl_fields)
  then have m0: "0 < dbl_mant d" by (cases "dbl_mant d") simp_all
  have one: "l = 53 - k" "k \<le> 52" if "n * 2 ^ k = dbl_mant d" "2 ^ l \<le> 2 * n" "n < 2 ^ l" for n k l :: nat
  proof -
    have "2 ^ l * 2 ^ k \<le> 2 * dbl_mant d" using mult_le_mono1[OF that(2), of "2 ^ k"] unfolding that(1)[symmetric] mult.assoc .
    then have "(2::nat) ^ (l + k) < 2 ^ 54" using m(2) by (simp add: power_add)
    then have a: "l + k < 54" by (rule power_less_imp_less_exp[rotated]) simp
    have "n * 2 ^ k < 2 ^ l * 2 ^ k" using that(3) by simp
    then have "(2::nat) ^ 52 < 2 ^ (l + k)" unfolding that(1) power_add[symmetric] using m(1) by simp
    then have b: "52 < l + k" by (rule power_less_imp_less_exp[rotated]) simp
    show "l = 53 - k" using a b by simp
    have "l \<noteq> 0" using that(2,3) by (cases "l = 0") simp_all
    then show "k \<le> 52" using a b by simp
  qed
  have main: "(\<exists>f i. b2d s' b = Inr (f, i) \<and> \<not> dbl_sign f \<and> dbl_exp f = 1023 \<and> dbl_frac f = dbl_frac d) \<and> bits = 53 - int k"
    if r: "dt_heap s' b = Some B" "big 1 B n" "n * 2 ^ k = dbl_mant d" "0 < bits" "2 ^ nat bits \<le> 2 * n" "n < 2 ^ nat bits" for s' b B n k bits
  proof -
    have "0 < n" using r(3) m0 by (cases n) simp_all
    obtain f i l where f: "b2d s' b = Inr (f, i)" "\<not> dbl_sign f" "dbl_exp f = 1023" "dbl_mant f = n * 2 ^ 53 div 2 ^ l" "2 ^ l \<le> 2 * n" "n < 2 ^ l"
      using b2d_spec[OF r(1,2) \<open>0 < n\<close>] by blast
    have l: "l = 53 - k" "k \<le> 52" using one[OF r(3) f(5,6)] .
    have "(2::nat) ^ 53 = 2 ^ k * 2 ^ l" unfolding power_add[symmetric] using l by simp
    then have e: "n * 2 ^ 53 = n * 2 ^ k * 2 ^ l" by (simp only: mult.assoc)
    have "dbl_mant f = dbl_mant d" unfolding f(4) r(3)[symmetric] e by simp
    then have "dbl_frac f = dbl_frac d" using f(3) assms(2) by (simp add: dbl_mant_def)
    moreover have "bits = 53 - int k" using one[OF r(3,5,6)] r(4) by linarith
    ultimately show ?thesis using f(1-3) by blast
  qed
  have mx: "max 1 (dbl_exp d) = dbl_exp d" using assms(2) by simp
  have "wpr (alloc_err A) (\<lambda>(s', b, e, bits, d'). b \<notin> L \<and> dt_ok s' (insert b L) \<and> same L s s'
        \<and> (\<exists>n k. big_at s' b 1 n \<and> odd n \<and> n * 2 ^ k = dbl_mant d \<and> e = int (dbl_exp d) - 1075 + int k \<and> bits = 53 - int k)
        \<and> (\<exists>f i. b2d s' b = Inr (f, i) \<and> \<not> dbl_sign f \<and> dbl_exp f = 1023 \<and> dbl_frac f = dbl_frac d)) (d2b A s d)"
  proof (rule wpr_mono[OF d2b_spec[OF assms(1) m0 assms(3)]], goal_cases)
    case (2 r)
    then show ?case unfolding mx using main by (cases r) (fastforce simp: made_def big_at_def)
  qed
  then show ?thesis by (auto simp: wpr_def split: sum.splits)
qed

theorem d2b_b2d_roundtrip_witness:
  "case d2b (\<lambda>_. True) dtoa_init (mk_double 0x40590000 0) of
      Inl err \<Rightarrow> alloc_err (\<lambda>_. True) err
    | Inr (s', b, e, bits, d') \<Rightarrow> b \<notin> {} \<and> dt_ok s' (insert b {}) \<and> same {} dtoa_init s'
        \<and> (\<exists>n k. big_at s' b 1 n \<and> odd n \<and> n * 2 ^ k = dbl_mant (mk_double 0x40590000 0)
            \<and> e = int (dbl_exp (mk_double 0x40590000 0)) - 1075 + int k \<and> bits = 53 - int k)
        \<and> (\<exists>f i. b2d s' b = Inr (f, i) \<and> \<not> dbl_sign f \<and> dbl_exp f = 1023 \<and> dbl_frac f = dbl_frac (mk_double 0x40590000 0))"
  by (rule d2b_b2d_roundtrip) (simp_all add: dt_ok_init mk_double_fields)

end
