(* ===== verification/Bigint_Hold.thy ===== *)
theory Bigint_Hold
  imports Bigint_Props
begin

text \<open>
Sequences of operations on several numbers of \<open>3rd/lua-cjson/dtoa.c\<close>: \<open>holding\<close> lists the blocks
  a function owns with their numbers, next to its caller's blocks and the cached powers of five,
  and each operation has a rule that says how the list changes.
\<close>

section \<open>Operations next to cached powers\<close>

definition fresh_num :: "dtoa_state \<Rightarrow> nat set \<Rightarrow> int \<Rightarrow> nat \<Rightarrow> int \<Rightarrow> dtoa_state \<times> nat \<Rightarrow> bool" where
  \<comment> \<open>\<open>made\<close> for the invariant with the cached powers\<close>
  "fresh_num s M k n sg r \<longleftrightarrow>
     (case r of (s', a) \<Rightarrow> a \<notin> M \<and> dtoa_inv s' (insert a M) \<and> (\<forall>b \<in> M. dt_heap s' b = dt_heap s b)
        \<and> (\<exists>b. dt_heap s' a = Some b \<and> big k b n \<and> bg_sign b = sg))"

lemma made_fresh:
  assumes inv: "dtoa_inv s M" and m: "\<And>N. M \<subseteq> N \<Longrightarrow> dt_ok s N \<Longrightarrow> wpr E (made s N k n sg) c"
  shows "wpr E (fresh_num s M k n sg) c"
proof -
  obtain ps where ps: "p5_ok s ps" "set ps \<inter> M = {}" "dt_ok s (M \<union> set ps)" using inv by (auto simp: dtoa_inv_def)
  show ?thesis
  proof (rule wpr_mono[OF m[OF Un_upper1 ps(3)]])
    fix r assume "made s (M \<union> set ps) k n sg r"
    then obtain s' a where r: "r = (s', a)" "a \<notin> M \<union> set ps" "dt_ok s' (insert a (M \<union> set ps))" "same (M \<union> set ps) s s'"
      "\<exists>b. dt_heap s' a = Some b \<and> big k b n \<and> bg_sign b = sg" by (cases r) (auto simp: made_def)
    have "p5_ok s' ps" by (rule p5_same[OF ps(1) r(4)]) simp
    moreover have "set ps \<inter> insert a M = {}" "insert a M \<union> set ps = insert a (M \<union> set ps)" using ps(2) r(2) by auto
    ultimately have "dtoa_inv s' (insert a M)" unfolding dtoa_inv_def using r(3) by (intro exI[of _ ps]) simp
    then show "fresh_num s M k n sg r" using r by (auto simp: fresh_num_def same_def)
  qed
qed

lemma becomes_powered:
  assumes inv: "dtoa_inv s M" and a: "a \<in> M" and m: "\<And>N. M \<subseteq> N \<Longrightarrow> dt_ok s N \<Longrightarrow> wpr E (becomes s N a k n) c"
  shows "wpr E (powered s M a k n) c"
proof -
  obtain ps where ps: "p5_ok s ps" "set ps \<inter> M = {}" "dt_ok s (M \<union> set ps)" using inv by (auto simp: dtoa_inv_def)
  show ?thesis
  proof (rule wpr_mono[OF m[OF Un_upper1 ps(3)]])
    fix r assume "becomes s (M \<union> set ps) a k n r"
    then obtain s' a' where r: "r = (s', a')" "a' = a \<or> a' \<notin> M \<union> set ps" "dt_ok s' (insert a' (M \<union> set ps - {a}))"
      "same (M \<union> set ps - {a}) s s'" "big_at s' a' k n" by (cases r) (auto simp: becomes_def)
    have aps: "a \<notin> set ps" using a ps(2) by auto
    have "p5_ok s' ps" by (rule p5_same[OF ps(1) r(4)]) (use aps in auto)
    moreover have "set ps \<inter> insert a' (M - {a}) = {}" "insert a' (M - {a}) \<union> set ps = insert a' (M \<union> set ps - {a})"
      using ps(2) r(2) aps by auto
    ultimately have "dtoa_inv s' (insert a' (M - {a}))" unfolding dtoa_inv_def using r(3) by (intro exI[of _ ps]) simp
    then show "powered s M a k n r" using r by (auto simp: powered_def same_def)
  qed
qed

lemma Bfree_inv:
  assumes "dtoa_inv s M" "a \<in> M"
  shows "\<exists>s'. Bfree s (Some a) = Inr s' \<and> dtoa_inv s' (M - {a}) \<and> (\<forall>b \<in> M - {a}. dt_heap s' b = dt_heap s b)"
proof -
  obtain ps where ps: "p5_ok s ps" "set ps \<inter> M = {}" "dt_ok s (M \<union> set ps)" using assms(1) by (auto simp: dtoa_inv_def)
  obtain s' where s': "Bfree s (Some a) = Inr s'" "dt_ok s' (M \<union> set ps - {a})" "same (M \<union> set ps - {a}) s s'"
    using Bfree_spec[OF ps(3), of a] assms(2) by auto
  have aps: "a \<notin> set ps" using assms(2) ps(2) by auto
  have "p5_ok s' ps" by (rule p5_same[OF ps(1) s'(3)]) (use aps in auto)
  moreover have "M - {a} \<union> set ps = M \<union> set ps - {a}" using aps by auto
  ultimately have "dtoa_inv s' (M - {a})" unfolding dtoa_inv_def using s'(2) ps(2) by (intro exI[of _ ps]) auto
  then show ?thesis using s' by (auto simp: same_def)
qed

lemma update_inv:
  assumes "dtoa_inv s M" "a \<in> M" "blk_ok b"
  shows "dtoa_inv (update s a b) M"
proof -
  obtain ps where ps: "p5_ok s ps" "set ps \<inter> M = {}" "dt_ok s (M \<union> set ps)" using assms(1) by (auto simp: dtoa_inv_def)
  have u: "dt_ok (update s a b) (M \<union> set ps)" "same (M \<union> set ps - {a}) s (update s a b)"
    using update_spec(1,2)[OF ps(3) _ assms(3), of a] assms(2) by auto
  have "p5_ok (update s a b) ps" by (rule p5_same[OF ps(1) u(2)]) (use assms(2) ps(2) in auto)
  then show ?thesis unfolding dtoa_inv_def using u(1) ps(2) by (intro exI[of _ ps]) simp
qed

section \<open>Held numbers\<close>

text \<open>
  \<open>holding s0 s L xs\<close>: next to the blocks \<open>L\<close>, which are as they were in \<open>s0\<close>, the program holds
  the listed blocks, each with a bound of its size and its number. The rules below are about the
  first block of the list; \<open>hold_perm\<close> reorders.
\<close>

definition holding :: "dtoa_state \<Rightarrow> dtoa_state \<Rightarrow> nat set \<Rightarrow> (nat \<times> int \<times> nat) list \<Rightarrow> bool" where
  "holding s0 s L xs \<longleftrightarrow>
     distinct (map fst xs) \<and> set (map fst xs) \<inter> L = {} \<and> dtoa_inv s (L \<union> set (map fst xs))
     \<and> (\<forall>a \<in> L. dt_heap s a = dt_heap s0 a) \<and> (\<forall>(a, k, n) \<in> set xs. big_at s a k n)"

lemma holding_nil: "dtoa_inv s L \<Longrightarrow> holding s s L []"
  by (simp add: holding_def)

lemma hold_perm: "holding s0 s L xs \<Longrightarrow> distinct (map fst ys) \<Longrightarrow> set ys = set xs \<Longrightarrow> holding s0 s L ys"
  by (simp add: holding_def)

lemma holding_big: "holding s0 s L xs \<Longrightarrow> (a, k, n) \<in> set xs \<Longrightarrow> big_at s a k n"
  by (auto simp: holding_def)

lemma holding_in: "(a, k, n) \<in> set xs \<Longrightarrow> a \<in> L \<union> set (map fst xs)"
  by force

lemma holding_step:
  assumes h: "holding s0 s L ((a, k, n) # xs)"
    and a': "a' = a \<or> a' \<notin> L \<union> set (map fst ((a, k, n) # xs))"
    and inv: "dtoa_inv s' (insert a' (L \<union> set (map fst ((a, k, n) # xs)) - {a}))"
    and eq: "\<forall>b \<in> L \<union> set (map fst ((a, k, n) # xs)) - {a}. dt_heap s' b = dt_heap s b"
    and big: "big_at s' a' k' n'"
  shows "holding s0 s' L ((a', k', n') # xs)"
proof -
  have d: "a \<notin> fst ` set xs" "a \<notin> L" "distinct (map fst xs)" "fst ` set xs \<inter> L = {}" using h by (auto simp: holding_def)
  have "insert a' (L \<union> set (map fst ((a, k, n) # xs)) - {a}) = L \<union> set (map fst ((a', k', n') # xs))"
    using d by auto
  moreover have "big_at s' b j m" if "(b, j, m) \<in> set xs" for b j m
  proof -
    have "b \<in> fst ` set xs" using that by force
    then show ?thesis using h that eq d by (auto simp: holding_def big_at_def)
  qed
  ultimately show ?thesis using h a' inv eq big d by (auto simp: holding_def)
qed

lemma hold_powered:
  assumes "holding s0 s L ((a, k, n) # xs)" "wpr E (powered s (L \<union> set (map fst ((a, k, n) # xs))) a k' n') c"
  shows "wpr E (\<lambda>(s', a'). holding s0 s' L ((a', k', n') # xs)) c"
  by (rule wpr_mono[OF assms(2)])
     (auto simp del: list.map simp: powered_def intro!: holding_step[OF assms(1)])

lemma hold_fresh:
  assumes h: "holding s0 s L xs" and c: "wpr E (fresh_num s (L \<union> set (map fst xs)) k n sg) c"
  shows "wpr E (\<lambda>(s', a). holding s0 s' L ((a, k, n) # xs) \<and> (\<exists>b. dt_heap s' a = Some b \<and> big k b n \<and> bg_sign b = sg)) c"
proof (rule wpr_mono[OF c])
  fix r assume "fresh_num s (L \<union> set (map fst xs)) k n sg r"
  then obtain s' a b where r: "r = (s', a)" "a \<notin> L" "a \<notin> fst ` set xs" "dtoa_inv s' (insert a (L \<union> fst ` set xs))"
    "\<forall>b \<in> L \<union> fst ` set xs. dt_heap s' b = dt_heap s b" "dt_heap s' a = Some b" "big k b n" "bg_sign b = sg"
    by (cases r) (auto simp: fresh_num_def)
  have "big_at s' b j m" if "(b, j, m) \<in> set xs" for b j m
  proof -
    have "b \<in> fst ` set xs" using that by force
    then show ?thesis using h that r(5) by (auto simp: holding_def big_at_def)
  qed
  then have "holding s0 s' L ((a, k, n) # xs)" using h r by (auto simp: holding_def big_at_def)
  then show "case r of (s', a) \<Rightarrow> holding s0 s' L ((a, k, n) # xs) \<and> (\<exists>b. dt_heap s' a = Some b \<and> big k b n \<and> bg_sign b = sg)"
    using r by simp
qed

lemma hold_i2b:
  assumes h: "holding s0 s L xs" and i: "0 \<le> i" "i \<le> INT_MAX"
  shows "wpr (alloc_err A) (\<lambda>(s', a). holding s0 s' L ((a, 1, nat i) # xs)) (i2b A s i)"
proof -
  have "dtoa_inv s (L \<union> set (map fst xs))" using h by (simp add: holding_def)
  from hold_fresh[OF h made_fresh[OF this i2b_spec[OF _ i]]] show ?thesis
    by (rule wpr_mono) auto
qed

lemma hold_mult:
  assumes h: "holding s0 s L xs" and a: "(a, ka, n) \<in> set xs" "0 < n" "ka \<le> k" and b: "(b, kb, m) \<in> set xs" "0 < m" "kb \<le> k"
    and k: "k \<le> 29"
  shows "wpr (alloc_err A) (\<lambda>(s', c). holding s0 s' L ((c, k + 1, n * m) # xs)) (mult A s a b)"
proof -
  have inv: "dtoa_inv s (L \<union> set (map fst xs))" using h by (simp add: holding_def)
  have "wpr (alloc_err A) (fresh_num s (L \<union> set (map fst xs)) (k + 1) (n * m) 0) (mult A s a b)"
  proof (rule made_fresh[OF inv])
    fix N assume N: "L \<union> set (map fst xs) \<subseteq> N" "dt_ok s N"
    have "a \<in> N" "b \<in> N" using N(1) holding_in[OF a(1)] holding_in[OF b(1)] by blast+
    then show "wpr (alloc_err A) (made s N (k + 1) (n * m) 0) (mult A s a b)"
      using mult_spec[OF N(2) _ holding_big[OF h a(1)] a(2,3) _ holding_big[OF h b(1)] b(2,3) k] by blast
  qed
  from hold_fresh[OF h this] show ?thesis by (rule wpr_mono) auto
qed

lemma hold_diff:
  assumes h: "holding s0 s L xs" and a: "(a, ka, n) \<in> set xs" "ka \<le> k" and b: "(b, kb, m) \<in> set xs" "kb \<le> k" and pos: "0 < n \<or> 0 < m"
  shows "wpr (alloc_err A) (\<lambda>(s', c). holding s0 s' L ((c, k, if n < m then m - n else n - m) # xs)
      \<and> (\<exists>C. dt_heap s' c = Some C \<and> big k C (if n < m then m - n else n - m) \<and> bg_sign C = (if n < m then 1 else 0))) (diff A s a b)"
proof -
  have inv: "dtoa_inv s (L \<union> set (map fst xs))" using h by (simp add: holding_def)
  have "wpr (alloc_err A) (fresh_num s (L \<union> set (map fst xs)) k (if n < m then m - n else n - m) (if n < m then 1 else 0)) (diff A s a b)"
  proof (rule made_fresh[OF inv])
    fix N assume N: "L \<union> set (map fst xs) \<subseteq> N" "dt_ok s N"
    have "a \<in> N" "b \<in> N" using N(1) holding_in[OF a(1)] holding_in[OF b(1)] by blast+
    then show "wpr (alloc_err A) (made s N k (if n < m then m - n else n - m) (if n < m then 1 else 0)) (diff A s a b)"
      using diff_spec[OF N(2) _ big_at_mono[OF holding_big[OF h a(1)] a(2)] _ big_at_mono[OF holding_big[OF h b(1)] b(2)] pos] by blast
  qed
  from hold_fresh[OF h this] show ?thesis by (rule wpr_mono) auto
qed

lemma hold_lshift:
  assumes h: "holding s0 s L ((a, k0, v) # xs)" and v: "0 < v" and j: "0 \<le> j" and K: "k0 \<le> K" "K \<le> 30" "j div 32 + 2 ^ nat k0 + 1 \<le> 2 ^ nat K"
  shows "wpr (alloc_err A) (\<lambda>(s', a'). holding s0 s' L ((a', K, v * 2 ^ nat j) # xs)) (lshift A s a j)"
proof -
  let ?M = "L \<union> set (map fst ((a, k0, v) # xs))"
  have inv: "dtoa_inv s ?M" and a: "a \<in> ?M" and bg: "big_at s a k0 v" using h by (simp_all add: holding_def)
  have "wpr (alloc_err A) (powered s ?M a K (v * 2 ^ nat j)) (lshift A s a j)"
  proof (rule becomes_powered[OF inv a])
    fix N assume N: "?M \<subseteq> N" "dt_ok s N"
    then have "a \<in> N" by auto
    from lshift_spec[OF N(2) this bg v j K] show "wpr (alloc_err A) (becomes s N a K (v * 2 ^ nat j)) (lshift A s a j)" .
  qed
  from hold_powered[OF h this] show ?thesis .
qed

lemma hold_pow5:
  assumes h: "holding s0 s L ((a, k, n) # xs)" and n: "0 < n" and k: "k \<le> 15" and e: "0 \<le> e" "e < 65536"
  shows "wpr (alloc_err A) (\<lambda>(s', a'). holding s0 s' L ((a', k + 15, n * 5 ^ nat e) # xs)) (pow5mult A s a e)"
proof -
  have "dtoa_inv s (L \<union> set (map fst ((a, k, n) # xs)))" "big_at s a k n" using h by (simp_all add: holding_def)
  then show ?thesis using pow5mult_spec[OF _ _ _ n k e] by (intro hold_powered[OF h]) simp
qed

lemma hold_free:
  assumes h: "holding s0 s L ((a, k, n) # xs)"
  shows "\<exists>s'. Bfree s (Some a) = Inr s' \<and> holding s0 s' L xs"
proof -
  have d: "a \<notin> fst ` set xs" "a \<notin> L" using h by (auto simp: holding_def)
  then have M: "L \<union> set (map fst ((a, k, n) # xs)) - {a} = L \<union> fst ` set xs" by auto
  have "dtoa_inv s (L \<union> set (map fst ((a, k, n) # xs)))" using h by (simp add: holding_def)
  from Bfree_inv[OF this, of a] M obtain s' where s': "Bfree s (Some a) = Inr s'" "dtoa_inv s' (L \<union> fst ` set xs)"
    "\<forall>b \<in> L \<union> fst ` set xs. dt_heap s' b = dt_heap s b" by auto
  have "big_at s' b j m" if "(b, j, m) \<in> set xs" for b j m
  proof -
    have "b \<in> fst ` set xs" using that by force
    then show ?thesis using h that s'(3) by (auto simp: holding_def big_at_def)
  qed
  then show ?thesis using h s' by (auto simp: holding_def)
qed

lemma hold_update:
  assumes h: "holding s0 s L ((a, k, n) # xs)" and b: "big k' b n'"
  shows "holding s0 (update s a b) L ((a, k', n') # xs)"
proof -
  have "blk_ok b" using b by (simp add: big_def)
  moreover have "dtoa_inv s (L \<union> set (map fst ((a, k, n) # xs)))" using h by (simp add: holding_def)
  ultimately have "dtoa_inv (update s a b) (L \<union> set (map fst ((a, k, n) # xs)))" by (intro update_inv) auto
  moreover have "insert a (L \<union> set (map fst ((a, k, n) # xs)) - {a}) = L \<union> set (map fst ((a, k, n) # xs))" by auto
  moreover have "big_at (update s a b) a k' n'" using b by (simp add: big_at_def update_def)
  ultimately show ?thesis by (intro holding_step[OF h]) (auto simp: update_def)
qed

lemma hold_copy:
  assumes h: "holding s0 s L xs" and y: "y \<in> L" "dt_heap s0 y = Some Y" "big k Y n" "0 < n"
  shows "wpr (alloc_err A) (\<lambda>(s', b). holding s0 s' L ((b, k, n) # xs))
    (andthen (Balloc A s (bg_k Y)) (\<lambda>(s, b). andthen (Bcopy s b y) (\<lambda>s. Inr (s, b))))"
proof -
  let ?M = "L \<union> set (map fst xs)"
  have inv: "dtoa_inv s ?M" using h by (simp add: holding_def)
  have Y: "dt_heap s y = Some Y" using h y(1,2) by (simp add: holding_def)
  have w: "1 \<le> bg_wds Y" "bg_wds Y \<le> bg_maxwds Y" "blk_ok Y" "bg_k Y \<le> k" using y(3,4) by (auto simp: big_def intro: ccontr)
  have k30: "0 \<le> bg_k Y" "bg_k Y \<le> 30" using w(3) by (simp_all add: blk_ok_def)
  have "wpr (alloc_err A) (fresh_num s ?M k n (bg_sign Y)) (andthen (Balloc A s (bg_k Y)) (\<lambda>(s, b). andthen (Bcopy s b y) (\<lambda>s. Inr (s, b))))"
  proof (rule made_fresh[OF inv])
    fix N assume N: "?M \<subseteq> N" "dt_ok s N"
    show "wpr (alloc_err A) (made s N k n (bg_sign Y)) (andthen (Balloc A s (bg_k Y)) (\<lambda>(s, b). andthen (Bcopy s b y) (\<lambda>s. Inr (s, b))))"
      unfolding wpr_andthen[of _ _ "Balloc A s (bg_k Y)"]
    proof (rule wpr_mono[OF Balloc_spec[OF N(2) k30]])
      fix r assume "case r of (s', a) \<Rightarrow> a \<notin> N \<and> dt_ok s' (insert a N) \<and> same N s s'
          \<and> (\<exists>b. dt_heap s' a = Some b \<and> blk_ok b \<and> bg_k b = bg_k Y \<and> bg_sign b = 0 \<and> bg_wds b = 0)"
      then obtain s1 x X where r: "r = (s1, x)" "x \<notin> N" "dt_ok s1 (insert x N)" "same N s s1"
        "dt_heap s1 x = Some X" "blk_ok X" "bg_k X = bg_k Y" by (cases r) auto
      have yN: "y \<in> N" using N(1) y(1) by auto
      have Y1: "dt_heap s1 y = Some Y" using r(4) yN Y by (simp add: same_def)
      have mx: "bg_maxwds Y \<le> bg_maxwds X" using w(3) r(6,7) by (simp add: blk_ok_def)
      have ne: "x \<noteq> y" using r(2) yN by auto
      from Bcopy_spec[OF r(3) insertI1 _ ne Y1 _ w(2) r(5) mx] w(1) yN obtain X' where X': "Bcopy s1 x y = Inr (update s1 x X')"
        "blk_ok X'" "bg_k X' = bg_k X" "bg_maxwds X' = bg_maxwds X" "bg_wds X' = bg_wds Y" "bg_sign X' = bg_sign Y"
        "take (nat (bg_wds Y)) (bg_x X') = take (nat (bg_wds Y)) (bg_x Y)" by auto
      note u = update_spec[OF r(3) insertI1 X'(2)]
      have "max 1 (bg_wds Y) = bg_wds Y" using w(1) by simp
      then have "big k X' n" using y(3) X' w r(7) mx by (auto simp: big_def peek_iff blk_ok_def)
      moreover have "same N s (update s1 x X')" using u(2) r(2,4) by (auto simp: same_def)
      ultimately show "wpr (alloc_err A) (made s N k n (bg_sign Y)) (case r of (s, b) \<Rightarrow> andthen (Bcopy s b y) (\<lambda>s. Inr (s, b)))"
        using r u X' by (auto simp: made_def)
    qed simp
  qed
  from hold_fresh[OF h this] show ?thesis by (rule wpr_mono) auto
qed

end
