(* ===== verification/Dtoa_Compare.thy ===== *)
theory Dtoa_Compare
  imports Bigint_Hold Dtoa_Correct Dtoa_Round
begin

text \<open>
The comparison in the correction loop of \<open>fpconv_strtod\<close> (\<open>3rd/lua-cjson/dtoa.c\<close>): what
  \<open>corr_setup\<close> computes. The main lemma is \<open>corr_setup_spec\<close>: the difference of the approximation
  and the decimal number, compared with half a unit in the last place.
\<close>

lemma wpr_bind: "wpr E P m \<Longrightarrow> (\<And>x. P x \<Longrightarrow> wpr E Q (f x)) \<Longrightarrow> wpr E Q (andthen m f)"
  unfolding wpr_andthen by (rule wpr_mono)

section \<open>The powers\<close>

lemma corr_exps_value:
  assumes e: "\<bar>e\<bar> \<le> 60000" and E: "1 \<le> E" "E \<le> 2046" and k: "k \<le> 52"
  shows "\<exists>x. corr_exps e (int E - 1075 + int k) (53 - int k) 0 = Inr x \<and> ce_Lsb x = 1 \<and> ce_Lsb1 x = 0
    \<and> ce_bb5 x = max 0 (- e) \<and> ce_bd5 x = max 0 e \<and> 0 \<le> ce_bb2 x \<and> ce_bb2 x \<le> 70000 \<and> 0 \<le> ce_bd2 x \<and> ce_bd2 x \<le> 70000
    \<and> 0 \<le> ce_bs2 x \<and> ce_bs2 x \<le> 70000 \<and> ce_bb2 x = ce_bs2 x + int k + 1 \<and> ce_bd2 x + int E = ce_bs2 x + e + 1076"
proof -
  let ?bbe = "int E - 1075 + int k"
  have l: "corr_lsb ?bbe (53 - int k) 0 = (int k + 1, 1, 0)"
    using E by (simp add: corr_lsb_def P_bits_def Emin_def LSB_def)
  define b5 where "b5 = max 0 (- e)"
  define d5 where "d5 = max 0 e"
  define bb where "bb = (if 0 \<le> ?bbe then b5 + ?bbe else b5)"
  define bd where "bd = (if 0 \<le> ?bbe then d5 else d5 - ?bbe)"
  have b: "0 \<le> b5" "b5 \<le> 60000" "0 \<le> d5" "d5 \<le> 60000" "d5 - b5 = e" using e by (auto simp: b5_def d5_def)
  have r: "0 \<le> bb" "bb \<le> 62000" "0 \<le> bd" "bd \<le> 62000" "bd = bb + e - ?bbe" using b E k by (auto simp: bb_def bd_def)
  have ok: "int_ok x" if "-70000 \<le> x" "x \<le> 70000" for x using that by (simp add: int_ok_iff)
  have c: "(if 0 \<le> e then Inr (0, e) else andthen (c_int (- e)) (\<lambda>x. Inr (x, 0))) = (Inr (b5, d5) :: (int \<times> int) res)"
    using e ok[of "- e"] by (auto simp: b5_def d5_def)
  have c2: "(if 0 \<le> ?bbe then andthen (c_int (b5 + ?bbe)) (\<lambda>x. Inr (x, d5))
      else andthen (c_int (d5 - ?bbe)) (\<lambda>x. Inr (b5, x))) = (Inr (bb, bd) :: (int \<times> int) res)"
    using ok[of bb] ok[of bd] r by (auto simp: bb_def bd_def)
  have c3: "c_int (bb + (int k + 1)) = Inr (bb + (int k + 1))" "c_int (bd + (int k + 1)) = Inr (bd + (int k + 1))"
    using r k by (auto intro!: c_int_ok ok)
  define i where "i = (let i = (if bb + (int k + 1) < bd + (int k + 1) then bb + (int k + 1) else bd + (int k + 1));
      i = (if bb < i then bb else i) in if 0 < i then i else 0)"
  have i: "0 \<le> i" "i \<le> bb" "i \<le> bd + (int k + 1)" using r by (auto simp: i_def Let_def)
  have run: "corr_exps e ?bbe (53 - int k) 0 = Inr \<lparr>ce_bb2 = bb + (int k + 1) - i, ce_bd2 = bd + (int k + 1) - i, ce_bs2 = bb - i,
      ce_bb5 = b5, ce_bd5 = d5, ce_Lsb = 1, ce_Lsb1 = 0\<rparr>"
    unfolding corr_exps_def c andthen_simps prod.case c2 l Let_def c3 i_def by (simp add: c3)
  show ?thesis unfolding run using r i k by (simp add: b5_def d5_def)
qed

section \<open>The numbers\<close>

lemma hold_mono: "holding s0 s L ((a, k, n) # xs) \<Longrightarrow> k \<le> k' \<Longrightarrow> holding s0 s L ((a, k', n) # xs)"
  by (auto simp: holding_def intro: big_at_mono)

lemma hold_shift_if:
  assumes h: "holding s0 s L ((a, k0, v) # xs)" and v: "0 < v" and j: "0 \<le> j" and K: "k0 \<le> K" "K \<le> 30" "j div 32 + 2 ^ nat k0 + 1 \<le> 2 ^ nat K"
  shows "wpr (alloc_err A) (\<lambda>(s', a'). holding s0 s' L ((a', K, v * 2 ^ nat j) # xs)) (shift_if A s a j)"
  using hold_lshift[OF assms, of A] hold_mono[OF h K(1)] j by (auto simp: shift_if_def)

lemma hold_pow5_if:
  assumes h: "holding s0 s L ((a, k, n) # xs)" and n: "0 < n" and k: "k \<le> 15" and e: "0 \<le> e" "e < 65536"
  shows "wpr (alloc_err A) (\<lambda>(s', a'). holding s0 s' L ((a', k + 15, n * 5 ^ nat e) # xs)) (pow5_if A s a e)"
  using hold_pow5[OF assms, of A] hold_mono[OF h, of "k + 15"] e by (auto simp: pow5_if_def)

lemma big_sign [simp]: "big k (b\<lparr>bg_sign := x\<rparr>) n = big k b n"
  by (simp add: big_def blk_ok_def peek_words_def)

lemma hold_cmp:
  assumes h: "holding s0 s L xs" and a: "(a, ka, n) \<in> set xs" and b: "(b, kb, m) \<in> set xs" and pos: "0 < n \<or> 0 < m"
  shows "\<exists>i. cmp s a b = Inr i \<and> (i < 0 \<longleftrightarrow> n < m) \<and> (i = 0 \<longleftrightarrow> n = m)"
  by (rule cmp_spec[OF holding_big[OF h a] holding_big[OF h b] pos])

lemma corr_mult_spec:
  assumes h: "holding s0 s L [(bs, 1, 1), (bb, 1, n), (bd, kd, M)]" and n: "0 < n" and b5: "0 \<le> b5" "b5 < 65536"
  shows "wpr (alloc_err A) (\<lambda>(s, bs, bb). holding s0 s L [(bb, 17, n * 5 ^ nat b5), (bs, 16, 5 ^ nat b5), (bd, kd, M)])
    (corr_mult A s bs bb b5)"
proof (cases "0 < b5")
  case True
  show ?thesis unfolding corr_mult_def if_P[OF True]
  proof (rule wpr_bind[OF hold_pow5[OF h _ _ b5]]; (unfold split_paired_all prod.case)?)
    fix s1 bs1 assume h1: "holding s0 s1 L [(bs1, 1 + 15, 1 * 5 ^ nat b5), (bb, 1, n), (bd, kd, M)]"
    show "wpr (alloc_err A) (\<lambda>(s, bs, bb). holding s0 s L [(bb, 17, n * 5 ^ nat b5), (bs, 16, 5 ^ nat b5), (bd, kd, M)])
        (andthen (mult A s1 bs1 bb) (\<lambda>(s, bb1). andthen (Bfree s (Some bb)) (\<lambda>s. Inr (s, bs1, bb1))))"
    proof (rule wpr_bind[OF hold_mult[OF h1, where a = bs1 and b = bb and k = 16 and n = "1 * 5 ^ nat b5" and m = n and ka = "1 + 15" and kb = 1]]; (unfold split_paired_all prod.case)?)
      fix s2 c assume h2: "holding s0 s2 L ((c, 16 + 1, 1 * 5 ^ nat b5 * n) # [(bs1, 1 + 15, 1 * 5 ^ nat b5), (bb, 1, n), (bd, kd, M)])"
      have "holding s0 s2 L [(bb, 1, n), (c, 16 + 1, 1 * 5 ^ nat b5 * n), (bs1, 1 + 15, 1 * 5 ^ nat b5), (bd, kd, M)]"
        by (rule hold_perm[OF h2]) (use h2 in \<open>auto simp: holding_def\<close>)
      from hold_free[OF this] obtain s3 where "Bfree s2 (Some bb) = Inr s3"
        "holding s0 s3 L [(c, 16 + 1, 1 * 5 ^ nat b5 * n), (bs1, 1 + 15, 1 * 5 ^ nat b5), (bd, kd, M)]" by blast
      then show "wpr (alloc_err A) (\<lambda>(s, bs, bb). holding s0 s L [(bb, 17, n * 5 ^ nat b5), (bs, 16, 5 ^ nat b5), (bd, kd, M)])
          (andthen (Bfree s2 (Some bb)) (\<lambda>s. Inr (s, bs1, c)))" by (simp add: mult.commute)
    qed (use n in auto)
  qed simp_all
next
  case False
  then have z: "b5 = 0" using b5 by simp
  have "holding s0 s L [(bs, 16, 1), (bb, 1, n), (bd, kd, M)]" by (rule hold_mono[OF h]) simp
  then have "holding s0 s L [(bb, 1, n), (bs, 16, 1), (bd, kd, M)]"
    by (rule hold_perm) (use h in \<open>auto simp: holding_def\<close>)
  from hold_mono[OF this, of 17] show ?thesis using z by (simp add: corr_mult_def)
qed

definition num_gap :: "nat \<Rightarrow> nat \<Rightarrow> nat" where "num_gap a b = (if a < b then b - a else a - b)"

definition compared :: "dtoa_state \<Rightarrow> nat set \<Rightarrow> nat \<Rightarrow> nat \<Rightarrow> nat \<Rightarrow> dtoa_state \<times> corr_nums \<times> int \<times> int \<Rightarrow> bool" where
  \<comment> \<open>the numbers \<open>bb\<close>, \<open>bd\<close> and \<open>bs\<close>, their sign and comparison\<close>
  "compared s0 L NB ND NS r \<longleftrightarrow>
     (case r of (s, c, dsign, i) \<Rightarrow>
        holding s0 s L [(cn_delta c, 26, num_gap NB ND), (cn_bs c, 17, NS), (cn_bd c, 26, ND), (cn_bb c, 18, NB)]
        \<and> dsign = (if NB < ND then 1 else 0) \<and> (i < 0 \<longleftrightarrow> num_gap NB ND < NS) \<and> (i = 0 \<longleftrightarrow> num_gap NB ND = NS))"

lemma corr_compare_spec:
  assumes h: "holding s0 s L [(bs, 17, NS), (bd, 26, ND), (bb, 18, NB)]" and pos: "0 < NB" "0 < NS"
  shows "wpr (alloc_err A) (compared s0 L NB ND NS) (corr_compare A s bb bd bs)"
  unfolding corr_compare_def
proof (rule wpr_bind[OF hold_diff[OF h, where a = bb and b = bd and k = 26 and n = NB and m = ND and ka = 18 and kb = 26]];
    (unfold split_paired_all prod.case)?)
  fix s6 c assume h6: "holding s0 s6 L ((c, 26, if NB < ND then ND - NB else NB - ND) # [(bs, 17, NS), (bd, 26, ND), (bb, 18, NB)])
    \<and> (\<exists>C. dt_heap s6 c = Some C \<and> big 26 C (if NB < ND then ND - NB else NB - ND) \<and> bg_sign C = (if NB < ND then 1 else 0))"
  then obtain C where C: "dt_heap s6 c = Some C" "big 26 C (num_gap NB ND)" "bg_sign C = (if NB < ND then 1 else 0)"
    unfolding num_gap_def by blast
  let ?s7 = "update s6 c (C\<lparr>bg_sign := 0\<rparr>)"
  have h7: "holding s0 ?s7 L ((c, 26, num_gap NB ND) # [(bs, 17, NS), (bd, 26, ND), (bb, 18, NB)])"
    by (rule hold_update[OF conjunct1[OF h6]]) (simp add: C(2))
  from hold_cmp[OF h7, of c 26 "num_gap NB ND" bs 17 NS] pos(2)
  obtain i where i: "cmp ?s7 c bs = Inr i" "i < 0 \<longleftrightarrow> num_gap NB ND < NS" "i = 0 \<longleftrightarrow> num_gap NB ND = NS" by auto
  have d: "deref s6 c = Inr C" using C(1) by (simp add: deref_def)
  show "wpr (alloc_err A) (compared s0 L NB ND NS) (andthen (deref s6 c) (\<lambda>D.
      let s = update s6 c (D\<lparr>bg_sign := 0\<rparr>) in
      andthen (cmp s c bs) (\<lambda>i. Inr (s, \<lparr>cn_bb = bb, cn_bd = bd, cn_bs = bs, cn_delta = c\<rparr>, bg_sign D, i))))"
    unfolding d andthen_simps Let_def i(1) wpr_simps compared_def prod.case
    using h7 i(2,3) C(3) by simp
qed (use pos in auto)

lemma corr_apply_spec:
  assumes h: "holding s0 s L [(bs, 1, 1), (bb, 1, n), (bd, kd, M)]" and n: "0 < n" and M: "0 < M" and kd: "0 \<le> kd" "kd \<le> 10"
    and b5: "0 \<le> ce_bb5 x" "ce_bb5 x < 65536" and d5: "0 \<le> ce_bd5 x" "ce_bd5 x < 65536"
    and p2: "0 \<le> ce_bb2 x" "ce_bb2 x \<le> 70000" "0 \<le> ce_bd2 x" "ce_bd2 x \<le> 70000" "0 \<le> ce_bs2 x" "ce_bs2 x \<le> 70000"
  shows "wpr (alloc_err A)
    (compared s0 L (n * 5 ^ nat (ce_bb5 x) * 2 ^ nat (ce_bb2 x)) (M * 5 ^ nat (ce_bd5 x) * 2 ^ nat (ce_bd2 x)) (5 ^ nat (ce_bb5 x) * 2 ^ nat (ce_bs2 x)))
    (corr_apply A s bb bd bs x)"
proof -
  let ?NB = "n * 5 ^ nat (ce_bb5 x) * 2 ^ nat (ce_bb2 x)" and ?ND = "M * 5 ^ nat (ce_bd5 x) * 2 ^ nat (ce_bd2 x)"
    and ?S5 = "5 ^ nat (ce_bb5 x) :: nat"
  let ?NS = "?S5 * 2 ^ nat (ce_bs2 x)"
  let ?Q = "compared s0 L ?NB ?ND ?NS"
  have pos: "0 < ?NB" "0 < ?NS" using n by simp_all
  have pw: "(2 :: int) ^ nat (kd + 15) \<le> 2 ^ 25" by (rule power_increasing) (use kd in simp_all)
  have s4: "wpr (alloc_err A) ?Q (andthen (shift_if A s bs (ce_bs2 x)) (\<lambda>(s, bs). corr_compare A s bb bd bs))"
    if h: "holding s0 s L [(bd, 26, ?ND), (bs, 16, ?S5), (bb, 18, ?NB)]" for s bb bd bs
  proof (rule wpr_bind[OF hold_shift_if[OF hold_perm[OF h, of "[(bs, 16, ?S5), (bd, 26, ?ND), (bb, 18, ?NB)]"] _ p2(5), where K = 17]];
      (unfold split_paired_all prod.case)?)
    fix s5 bs5 assume "holding s0 s5 L [(bs5, 17, ?NS), (bd, 26, ?ND), (bb, 18, ?NB)]"
    from corr_compare_spec[OF this pos] show "wpr (alloc_err A) ?Q (corr_compare A s5 bb bd bs5)" .
  qed (use p2 h in \<open>auto simp: holding_def\<close>)
  have s3: "wpr (alloc_err A) ?Q (andthen (pow5_if A s bd (ce_bd5 x)) (\<lambda>(s, bd). andthen (shift_if A s bd (ce_bd2 x)) (\<lambda>(s, bd).
      andthen (shift_if A s bs (ce_bs2 x)) (\<lambda>(s, bs). corr_compare A s bb bd bs))))"
    if h: "holding s0 s L [(bb, 18, ?NB), (bs, 16, ?S5), (bd, kd, M)]" for s bb bs
  proof (rule wpr_bind[OF hold_pow5_if[OF hold_perm[OF h, of "[(bd, kd, M), (bs, 16, ?S5), (bb, 18, ?NB)]"] M _ d5]];
      (unfold split_paired_all prod.case)?)
    fix s3 bd3 assume h3: "holding s0 s3 L [(bd3, kd + 15, M * 5 ^ nat (ce_bd5 x)), (bs, 16, ?S5), (bb, 18, ?NB)]"
    show "wpr (alloc_err A) ?Q (andthen (shift_if A s3 bd3 (ce_bd2 x)) (\<lambda>(s, bd).
        andthen (shift_if A s bs (ce_bs2 x)) (\<lambda>(s, bs). corr_compare A s bb bd bs)))"
      by (rule wpr_bind[OF hold_shift_if[OF h3 _ p2(3), where K = 26]]; (unfold split_paired_all prod.case)?)
         (use p2 pw kd M s4 in auto)
  qed (use kd h in \<open>auto simp: holding_def\<close>)
  show ?thesis unfolding corr_apply_def
  proof (rule wpr_bind[OF corr_mult_spec[OF h n b5]], unfold split_paired_all prod.case)
    fix s1 bs1 bb1 assume h1: "holding s0 s1 L [(bb1, 17, n * ?S5), (bs1, 16, ?S5), (bd, kd, M)]"
    show "wpr (alloc_err A) ?Q (andthen (shift_if A s1 bb1 (ce_bb2 x)) (\<lambda>(s, bb). andthen (pow5_if A s bd (ce_bd5 x)) (\<lambda>(s, bd).
        andthen (shift_if A s bd (ce_bd2 x)) (\<lambda>(s, bd). andthen (shift_if A s bs1 (ce_bs2 x)) (\<lambda>(s, bs). corr_compare A s bb bd bs)))))"
      by (rule wpr_bind[OF hold_shift_if[OF h1 _ p2(1), where K = 18]]; (unfold split_paired_all prod.case)?)
         (use p2 n s3 in auto)
  qed
qed

section \<open>The approximation against the number\<close>

lemma double_eqI:
  assumes "dbl_sign d = dbl_sign d'" "dbl_exp d = dbl_exp d'" "dbl_frac d = dbl_frac d'"
  shows "d = d'"
proof -
  have u: "unat x = (if dbl_sign x then 9223372036854775808 else 0) + dbl_exp x * 4503599627370496 + dbl_frac x" for x :: double
  proof -
    have "unat x < 18446744073709551616" using unsigned_less[of x] by simp
    then have "unat x div 4503599627370496 = (if dbl_sign x then 2048 else 0) + dbl_exp x"
      unfolding dbl_fields by (auto simp: not_le mod_if div_less_iff_less_mult less_eq_div_iff_mult_less_eq)
    moreover have "unat x = unat x div 4503599627370496 * 4503599627370496 + dbl_frac x"
      unfolding dbl_fields by simp
    ultimately show ?thesis by (simp add: algebra_simps)
  qed
  have "unat d = unat d'" unfolding u[of d] u[of d'] assms ..
  then show ?thesis by (simp add: word_unat_eq_iff)
qed

lemma normal_bits:
  assumes "n * 2 ^ k = m" "4503599627370496 \<le> m" "m < (9007199254740992 :: nat)" "2 ^ l \<le> 2 * n" "n < 2 ^ l"
  shows "l = 53 - k" "k \<le> 52"
proof -
  have "2 ^ l * 2 ^ k \<le> 2 * m" using mult_le_mono1[OF assms(4), of "2 ^ k"] unfolding assms(1)[symmetric] mult.assoc .
  then have "(2::nat) ^ (l + k) < 2 ^ 54" using assms(3) by (simp add: power_add)
  then have a: "l + k < 54" by (rule power_less_imp_less_exp[rotated]) simp
  have "n * 2 ^ k < 2 ^ l * 2 ^ k" using assms(5) by simp
  then have "(2::nat) ^ 52 < 2 ^ (l + k)" unfolding assms(1) power_add[symmetric] using assms(2) by simp
  then have b: "52 < l + k" by (rule power_less_imp_less_exp[rotated]) simp
  show "l = 53 - k" using a b by simp
  have "l \<noteq> 0" using assms(4,5) by (cases "l = 0") simp_all
  then show "k \<le> 52" using a b by simp
qed

lemma scale_numbers:
  fixes M :: nat and e :: int
  assumes d5: "d5 = e + b5" "0 \<le> d5" "0 \<le> b5" and p2: "bd2 + int E = bs2 + e + 1076" "0 \<le> bd2" "0 \<le> bs2"
  shows "(of_nat (M * 5 ^ nat d5 * 2 ^ nat bd2) :: rat)
    = (of_nat M * 10 powi e) / (2 ^ E / 2 ^ 1075 / 2) * of_nat (5 ^ nat b5 * 2 ^ nat bs2)"
proof -
  have t: "(10 :: rat) powi e = 2 powi e * 5 powi e" unfolding power_int_mult_distrib[symmetric] by simp
  have f: "(5 :: rat) powi d5 = 5 powi e * 5 powi b5" unfolding d5(1) by (simp add: power_int_add)
  have "(2 :: rat) powi (bd2 + int E) = 2 powi (bs2 + e + int 1076)" using p2(1) by simp
  then have "(2 :: rat) powi bd2 * 2 powi (int E) = 2 powi bs2 * 2 powi e * 2 powi (int 1076)"
    unfolding power_int_add[OF disjI1[OF zero_neq_numeral[symmetric]]] .
  then have tw: "(2 :: rat) powi bd2 * 2 ^ E = 2 powi bs2 * 2 powi e * 2 ^ 1076" unfolding power_int_of_nat .
  have n: "(5 :: rat) ^ nat d5 = 5 powi d5" "(2 :: rat) ^ nat bd2 = 2 powi bd2" "(5 :: rat) ^ nat b5 = 5 powi b5" "(2 :: rat) ^ nat bs2 = 2 powi bs2"
    using d5 p2 by (simp_all add: power_int_def)
  have h: "(2 :: rat) ^ 1076 = 2 ^ 1075 * 2" by simp
  define H where "H = (2 :: rat) ^ 1075"
  have "H \<noteq> 0" by (simp add: H_def)
  have tw': "(2 :: rat) powi bd2 * 2 ^ E = 2 powi bs2 * 2 powi e * (H * 2)" using tw unfolding h H_def .
  have "(of_nat (M * 5 ^ nat d5 * 2 ^ nat bd2) :: rat) * 2 ^ E = of_nat M * 5 powi d5 * (2 powi bd2 * 2 ^ E)"
    by (simp add: n mult.assoc)
  also have "\<dots> = of_nat M * 10 powi e * (H * 2) * (5 powi b5 * 2 powi bs2)"
    unfolding tw' f t by (simp add: mult_ac)
  finally have "(of_nat (M * 5 ^ nat d5 * 2 ^ nat bd2) :: rat) * 2 ^ E = of_nat M * 10 powi e * (H * 2) * of_nat (5 ^ nat b5 * 2 ^ nat bs2)"
    by (simp add: n)
  then show ?thesis unfolding H_def[symmetric] using \<open>H \<noteq> 0\<close> by (simp add: field_simps)
qed

definition against :: "dtoa_state \<Rightarrow> nat set \<Rightarrow> double \<Rightarrow> rat \<Rightarrow> dtoa_state \<times> corr_nums \<times> corr_exp \<times> double \<times> int \<times> int \<Rightarrow> bool" where
  \<comment> \<open>\<open>delta\<close> and \<open>bs\<close> are as the error of \<open>rv\<close> and half a unit in its last place\<close>
  "against s0 L rv q r \<longleftrightarrow>
     (case r of (s, c, x, rv', dsign, i) \<Rightarrow>
        rv' = rv \<and> ce_Lsb x = 1 \<and> ce_Lsb1 x = 0
        \<and> (\<exists>NB ND NS. compared s0 L NB ND NS (s, c, dsign, i) \<and> 0 < NS
              \<and> (of_nat NB :: rat) = dbl_val rv / (dbl_unit rv / 2) * of_nat NS \<and> (of_nat ND :: rat) = q / (dbl_unit rv / 2) * of_nat NS))"

lemma corr_setup_spec:
  assumes inv: "dtoa_inv s L" and bd0: "bd0 \<in> L" "dt_heap s bd0 = Some Y" "big kd Y M" "0 < M" "kd \<le> 10"
    and e: "\<bar>e\<bar> \<le> 60000" and rv: "1 \<le> dbl_exp rv" "dbl_finite rv" "\<not> dbl_sign rv"
  shows "wpr (alloc_err A) (against s L rv (of_nat M * 10 powi e)) (corr_setup A s bd0 e rv 0)"
proof -
  have m: "4503599627370496 \<le> dbl_mant rv" "dbl_mant rv < 9007199254740992" using mant_bounds[of rv] rv(1) by simp_all
  have d: "deref s bd0 = Inr Y" using bd0(2) by (simp add: deref_def)
  have kd: "0 \<le> kd" using bd0(3) by (auto simp: big_def blk_ok_def)
  have run: "corr_setup A s bd0 e rv 0 = andthen (andthen (Balloc A s (bg_k Y)) (\<lambda>(s, b). andthen (Bcopy s b bd0) (\<lambda>s. Inr (s, b)))) (\<lambda>(s, bd).
      andthen (d2b A s rv) (\<lambda>(s, bb, bbe, bbbits, rv).
      andthen (i2b A s 1) (\<lambda>(s, bs).
      andthen (corr_exps e bbe bbbits 0) (\<lambda>x.
      andthen (corr_apply A s bb bd bs x) (\<lambda>(s, n, dsign, i). Inr (s, n, x, rv, dsign, i))))))"
    unfolding corr_setup_def d andthen_simps andthen_assoc by (simp add: case_prod_unfold andthen_assoc)
  show ?thesis unfolding run
  proof (rule wpr_bind[OF hold_copy[OF holding_nil[OF inv] bd0(1-4)]], unfold split_paired_all prod.case)
    fix s1 bd assume h1: "holding s s1 L [(bd, kd, M)]"
    obtain c n k bits d' where D: "d2b A s1 rv = andthen c (\<lambda>(s, b). Inr (s, b, int (max 1 (dbl_exp rv)) - 1075 + int k, bits, d'))"
      "\<forall>L. dt_ok s1 L \<longrightarrow> wpr (alloc_err A) (made s1 L 1 n 0) c" "odd n" "n * 2 ^ k = dbl_mant rv"
      "0 < bits" "2 ^ nat bits \<le> 2 * n" "n < 2 ^ nat bits" "\<not> dbl_sign d'" "dbl_exp d' = dbl_exp rv" "dbl_frac d' = dbl_frac rv"
      using d2b_run[of rv A s1] rv m by (auto simp: dbl_finite_def)
    have nb: "nat bits = 53 - k" "k \<le> 52" using normal_bits[OF D(4) m D(6,7)] by simp_all
    have e': "int (max 1 (dbl_exp rv)) - 1075 + int k = int (dbl_exp rv) - 1075 + int k" "bits = 53 - int k"
      using rv(1) nb D(5) by simp_all
    have d': "d' = rv" by (rule double_eqI) (use D rv in auto)
    obtain x where x: "corr_exps e (int (dbl_exp rv) - 1075 + int k) (53 - int k) 0 = Inr x" "ce_Lsb x = 1" "ce_Lsb1 x = 0"
      "ce_bb5 x = max 0 (- e)" "ce_bd5 x = max 0 e" "0 \<le> ce_bb2 x" "ce_bb2 x \<le> 70000" "0 \<le> ce_bd2 x" "ce_bd2 x \<le> 70000"
      "0 \<le> ce_bs2 x" "ce_bs2 x \<le> 70000" "ce_bb2 x = ce_bs2 x + int k + 1" "ce_bd2 x + int (dbl_exp rv) = ce_bs2 x + e + 1076"
      using corr_exps_value[OF e rv(1) _ nb(2)] rv(2) by (auto simp: dbl_finite_def)
    have n0: "0 < n" using D(3) by (cases n) simp_all
    let ?NB = "n * 5 ^ nat (ce_bb5 x) * 2 ^ nat (ce_bb2 x)" and ?ND = "M * 5 ^ nat (ce_bd5 x) * 2 ^ nat (ce_bd2 x)"
      and ?NS = "5 ^ nat (ce_bb5 x) * 2 ^ nat (ce_bs2 x) :: nat"
    have nbd: "(of_nat ?ND :: rat) = (of_nat M * 10 powi e) / (dbl_unit rv / 2) * of_nat ?NS"
    proof -
      have unit: "dbl_unit rv = 2 ^ dbl_exp rv / 2 ^ 1075" using rv(1) by (simp only: dbl_unit_def max_absorb2)
      have "ce_bd5 x = e + ce_bb5 x" "0 \<le> ce_bd5 x" "0 \<le> ce_bb5 x" using x(4,5) by auto
      then show ?thesis unfolding unit using x by (intro scale_numbers) auto
    qed
    have "nat (ce_bb2 x) = nat (ce_bs2 x) + k + 1" using x(10,12) by simp
    then have "?NB = 2 * (n * 2 ^ k) * ?NS" by (simp add: power_add)
    then have "(of_nat ?NB :: rat) = 2 * of_nat (dbl_mant rv) * of_nat ?NS" unfolding D(4) by (simp only: of_nat_mult of_nat_numeral)
    then have nbb: "(of_nat ?NB :: rat) = dbl_val rv / (dbl_unit rv / 2) * of_nat ?NS"
      using rv(3) dbl_unit_pos[of rv] by (simp add: dbl_val_def dbl_abs_unit)
    have inv1: "dtoa_inv s1 (L \<union> set (map fst [(bd, kd, M)]))" using h1 by (simp add: holding_def)
    have "wpr (alloc_err A) (fresh_num s1 (L \<union> set (map fst [(bd, kd, M)])) 1 n 0) c"
      by (rule made_fresh[OF inv1]) (use D(2) in blast)
    note c = hold_fresh[OF h1 this]
    have ap: "wpr (alloc_err A) (compared s L ?NB ?ND ?NS) (corr_apply A s3 bb bd bs x)"
      if "holding s s3 L [(bs, 1, 1), (bb, 1, n), (bd, kd, M)]" for s3 bb bs
      by (rule corr_apply_spec[OF that n0 bd0(4) kd bd0(5)]) (use x e in auto)
    from c show "wpr (alloc_err A) (against s L rv (of_nat M * 10 powi e)) (andthen (d2b A s1 rv) (\<lambda>(s, bb, bbe, bbbits, rv).
      andthen (i2b A s 1) (\<lambda>(s, bs).
      andthen (corr_exps e bbe bbbits 0) (\<lambda>x.
      andthen (corr_apply A s bb bd bs x) (\<lambda>(s, n, dsign, i). Inr (s, n, x, rv, dsign, i))))))"
      unfolding D(1) e' d' andthen_assoc
    proof (rule wpr_bind, unfold split_paired_all prod.case andthen_simps)
      fix s2 bb assume "holding s s2 L [(bb, 1, n), (bd, kd, M)] \<and> (\<exists>b. dt_heap s2 bb = Some b \<and> big 1 b n \<and> bg_sign b = 0)"
      then have h2: "holding s s2 L [(bb, 1, n), (bd, kd, M)]" by blast
      show "wpr (alloc_err A) (against s L rv (of_nat M * 10 powi e)) (andthen (i2b A s2 1) (\<lambda>(s, bs).
          andthen (corr_exps e (int (dbl_exp rv) - 1075 + int k) (53 - int k) 0) (\<lambda>x.
          andthen (corr_apply A s bb bd bs x) (\<lambda>(s, n, dsign, i). Inr (s, n, x, rv, dsign, i)))))"
      proof (rule wpr_bind[OF hold_i2b[OF h2]]; (unfold split_paired_all prod.case x(1) andthen_simps)?)
        fix s3 bs assume "holding s s3 L [(bs, 1, nat 1), (bb, 1, n), (bd, kd, M)]"
        then have h3: "holding s s3 L [(bs, 1, 1), (bb, 1, n), (bd, kd, M)]" by simp
        show "wpr (alloc_err A) (against s L rv (of_nat M * 10 powi e)) (andthen (corr_apply A s3 bb bd bs x) (\<lambda>(s, n, dsign, i). Inr (s, n, x, rv, dsign, i)))"
        proof (rule wpr_bind[OF ap[OF h3]], unfold split_paired_all prod.case)
          fix s4 c dsign i assume "compared s L ?NB ?ND ?NS (s4, c, dsign, i)"
          moreover have "0 < ?NS" by simp
          ultimately show "wpr (alloc_err A) (against s L rv (of_nat M * 10 powi e)) (Inr (s4, c, x, rv, dsign, i))"
            unfolding wpr_simps against_def prod.case using x(2,3) nbb nbd by blast
        qed
      qed (simp_all add: INT_MAX_def)
    qed
  qed
qed

end
