(* ===== verification/Dtoa_Digits.thy ===== *)
theory Dtoa_Digits
  imports Dtoa_Text Dtoa_Compare
begin

text \<open>
The digits that \<open>dtoa\<close> of \<open>3rd/lua-cjson/dtoa.c\<close> gets as quotients of bignums: each is the next
  digit of the fraction \<open>b / S\<close>, and rounding off the last one rounds the fraction to nearest.
\<close>

section \<open>Quotients of held numbers\<close>

definition four_lead :: "nat \<Rightarrow> bool" where
  \<comment> \<open>the first word starts with four zero bits\<close>
  "four_lead m \<longleftrightarrow> (\<exists>w. 134217728 * 4294967296 ^ w \<le> m \<and> m < 268435456 * 4294967296 ^ w)"

lemma four_lead_pos: "four_lead m \<Longrightarrow> 0 < m"
  by (auto simp: four_lead_def intro: ccontr)

lemma four_lead_words:
  assumes m: "134217728 * 4294967296 ^ w \<le> m" "m < 268435456 * 4294967296 ^ w" and T: "big k T m"
  shows "bg_wds T = int w + 1"
proof -
  have p: "0 < (4294967296 :: nat) ^ w" by simp
  have m0: "0 < m" using m(1) p by linarith
  have w1: "1 \<le> bg_wds T" by (rule big_words(1)[OF T m0])
  have "max 1 (bg_wds T) = bg_wds T" using w1 by simp
  then have "m < 4294967296 ^ nat (bg_wds T)" using big_bounds(1)[OF T] by (simp only:)
  then have "4294967296 ^ w < (4294967296 :: nat) ^ nat (bg_wds T)" using m(1) p by linarith
  then have a: "w < nat (bg_wds T)" by simp
  have "nat (bg_wds T) \<le> w + 1"
  proof (rule ccontr)
    assume c: "\<not> nat (bg_wds T) \<le> w + 1"
    then have "4294967296 ^ nat (bg_wds T - 1) \<le> m" using big_bounds(2)[OF T] by simp
    moreover have "(4294967296 :: nat) ^ (w + 1) \<le> 4294967296 ^ nat (bg_wds T - 1)"
      using c by (intro power_increasing) auto
    ultimately show False using m(2) p by simp
  qed
  with a show ?thesis by linarith
qed

lemma four_lead_fits:
  assumes "four_lead m" "big k T m"
  shows "10 * m < 4294967296 ^ (2 ^ nat k)"
proof -
  obtain w where w: "134217728 * 4294967296 ^ w \<le> m" "m < 268435456 * 4294967296 ^ w" using assms(1) by (auto simp: four_lead_def)
  have "int w + 1 \<le> bg_maxwds T" using four_lead_words[OF w assms(2)] assms(2) by (simp add: big_def)
  also have "bg_maxwds T = 2 ^ nat (bg_k T)" using assms(2) by (simp add: big_def blk_ok_def)
  also have "(2 :: int) ^ nat (bg_k T) \<le> 2 ^ nat k" using assms(2) by (intro power_increasing) (auto simp: big_def)
  finally have "int (w + 1) \<le> int (2 ^ nat k)" by simp
  then have "w + 1 \<le> 2 ^ nat k" by (simp only: of_nat_le_iff)
  then have "(4294967296 :: nat) ^ (w + 1) \<le> 4294967296 ^ (2 ^ nat k)" by (intro power_increasing) auto
  moreover have "10 * m < 4294967296 ^ (w + 1)" using w(2) by simp
  ultimately show ?thesis by linarith
qed

lemma quorem_inv:
  assumes inv: "dtoa_inv s M" and b: "b \<in> M" "big_at s b k n" and S: "S \<in> M" "big_at s S k' m" "b \<noteq> S"
    and m: "four_lead m" and n: "n < 10 * m"
  shows "\<exists>s'. quorem s b S = Inr (s', int (n div m)) \<and> dtoa_inv s' M \<and> (\<forall>c \<in> M - {b}. dt_heap s' c = dt_heap s c)
     \<and> big_at s' b k (n mod m)"
proof -
  obtain w where w: "134217728 * 4294967296 ^ w \<le> m" "m < 268435456 * 4294967296 ^ w" using m by (auto simp: four_lead_def)
  obtain ps where ps: "p5_ok s ps" "set ps \<inter> M = {}" "dt_ok s (M \<union> set ps)" using inv by (auto simp: dtoa_inv_def)
  obtain B T where B: "dt_heap s b = Some B" "big k B n" and T: "dt_heap s S = Some T" "big k' T m"
    using b(2) S(2) by (auto simp: big_at_def)
  have wT: "bg_wds T = int w + 1" by (rule four_lead_words[OF w T(2)])
  then have e: "nat (bg_wds T - 1) = w" by simp
  have wB: "bg_wds B \<le> bg_wds T"
  proof (rule ccontr)
    assume c: "\<not> bg_wds B \<le> bg_wds T"
    then have "4294967296 ^ nat (bg_wds B - 1) \<le> n" using big_bounds(2)[OF B(2)] wT by simp
    moreover have "(4294967296 :: nat) ^ (w + 1) \<le> 4294967296 ^ nat (bg_wds B - 1)"
      using c wT by (intro power_increasing) auto
    ultimately show False using n w(2) by simp
  qed
  have top: "65536 * 4294967296 ^ nat (bg_wds T - 1) \<le> m" "m < 4294967295 * 4294967296 ^ nat (bg_wds T - 1)"
    unfolding e using w by linarith+
  have "b \<in> M \<union> set ps" "S \<in> M \<union> set ps" using b(1) S(1) by auto
  from quorem_spec[OF ps(3) this(1) B this(2) T S(3) four_lead_pos[OF m] wB top] obtain s' where
    s': "quorem s b S = Inr (s', sint (word_of_nat (n div m) :: limb))" "dt_ok s' (M \<union> set ps)"
      "same (M \<union> set ps - {b}) s s'" "big_at s' b k (n mod m)" by blast
  have "n div m < 10" using n by (simp add: less_mult_imp_div_less)
  then have q: "sint (word_of_nat (n div m) :: limb) = int (n div m)"
    by (simp add: signed_of_nat signed_take_bit_int_eq_self)
  have bps: "b \<notin> set ps" using b(1) ps(2) by auto
  have "p5_ok s' ps" by (rule p5_same[OF ps(1) s'(3)]) (use bps in auto)
  then have "dtoa_inv s' M" unfolding dtoa_inv_def using s'(2) ps(2) by (intro exI[of _ ps]) auto
  then show ?thesis using s' unfolding q by (auto simp: same_def)
qed

lemma hold_quorem:
  assumes h: "holding s0 s L ((b, k, n) # xs)" and S: "(S, k', m) \<in> set xs" and m: "four_lead m" and n: "n < 10 * m"
  shows "\<exists>s'. quorem s b S = Inr (s', int (n div m)) \<and> holding s0 s' L ((b, k, n mod m) # xs)"
proof -
  let ?M = "L \<union> set (map fst ((b, k, n) # xs))"
  have ne: "b \<noteq> S" using h S by (force simp: holding_def)
  have inv: "dtoa_inv s ?M" "big_at s b k n" "big_at s S k' m" using h S by (auto simp: holding_def)
  have "S \<in> ?M" using S by force
  from quorem_inv[OF inv(1) _ inv(2) this inv(3) ne m n] obtain s' where s':
    "quorem s b S = Inr (s', int (n div m))" "dtoa_inv s' ?M" "\<forall>c \<in> ?M - {b}. dt_heap s' c = dt_heap s c"
    "big_at s' b k (n mod m)" by auto
  have "insert b (?M - {b}) = ?M" by auto
  then have "holding s0 s' L ((b, k, n mod m) # xs)" using s'(2-4) by (intro holding_step[OF h]) auto
  then show ?thesis using s'(1) by blast
qed

lemma hold_multadd:
  assumes h: "holding s0 s L ((a, k, n) # xs)" and K: "k \<le> K" "K \<le> 30" "k + 1 \<le> K \<or> n * nat f < 4294967296 ^ (2 ^ nat K)"
    and f: "0 < f" "f \<le> INT_MAX"
  shows "wpr (alloc_err A) (\<lambda>(s', a'). holding s0 s' L ((a', K, n * nat f) # xs)) (multadd A s a f 0)"
proof -
  let ?M = "L \<union> set (map fst ((a, k, n) # xs))"
  have inv: "dtoa_inv s ?M" and a: "a \<in> ?M" and bg: "big_at s a k n" using h by (simp_all add: holding_def)
  have "wpr (alloc_err A) (powered s ?M a K (n * nat f)) (multadd A s a f 0)"
  proof (rule becomes_powered[OF inv a])
    fix N assume N: "?M \<subseteq> N" "dt_ok s N"
    then have "a \<in> N" by auto
    from multadd_spec[OF N(2) this bg K(1,2) _ f, of 0] K(3)
    show "wpr (alloc_err A) (becomes s N a K (n * nat f)) (multadd A s a f 0)" by (simp add: INT_MAX_def)
  qed
  from hold_powered[OF h this] show ?thesis .
qed

lemma hold_num_zero:
  assumes "holding s0 s L xs" "(b, k, n) \<in> set xs"
  shows "num_zero s b = Inr (n = 0)"
proof -
  obtain B where B: "dt_heap s b = Some B" "big k B n" using holding_big[OF assms] by (auto simp: big_at_def)
  obtain ws where ws: "peek_words B (max 1 (bg_wds B)) = Inr ws" "bval ws = n" using B(2) by (auto simp: big_def)
  have len: "length ws = nat (max 1 (bg_wds B))" by (rule peek_length[OF ws(1)])
  then obtain x ys where x: "ws = x # ys" by (cases ws) auto
  have tk: "take (length ws) (bg_x B) = map Some ws" "max 1 (bg_wds B) \<le> int (length (bg_x B))"
    using ws(1) len by (auto simp: peek_iff)
  then have "bg_x B ! 0 = Some x" using x by (metis length_Cons list.simps(9) nth_Cons_0 nth_take zero_less_Suc)
  then have "peek_word B 0 = Inr x" using tk(2) by (auto simp: peek_word_def)
  moreover have "(x = 0 \<and> bg_wds B \<le> 1) = (n = 0)"
  proof
    assume "x = 0 \<and> bg_wds B \<le> 1"
    then have "length ws = 1" using len by simp
    then show "n = 0" using x ws(2) \<open>x = 0 \<and> bg_wds B \<le> 1\<close> by simp
  next
    assume "n = 0"
    then have "unat x = 0" using x ws(2) by simp
    then have "x = 0" by (simp only: unat_eq_0)
    moreover have "bg_wds B \<le> 1" using big_bounds(2)[OF B(2)] \<open>n = 0\<close> by (cases "1 < bg_wds B") auto
    ultimately show "x = 0 \<and> bg_wds B \<le> 1" by simp
  qed
  ultimately show ?thesis using B(1) by (simp add: num_zero_def deref_def)
qed

section \<open>A fixed number of digits\<close>

lemma fixed_digits_lead: "q < 10 \<Longrightarrow> v < 10 ^ w \<Longrightarrow> fixed_digits (Suc w) (q * 10 ^ w + v) = char_of (48 + q) # fixed_digits w v"
proof (induction w arbitrary: v)
  case (Suc w)
  have v: "v div 10 < 10 ^ w" using Suc.prems(2) by simp
  have "q * 10 ^ Suc w + v = 10 * (q * 10 ^ w + v div 10) + v mod 10" by simp
  then have "(q * 10 ^ Suc w + v) div 10 = q * 10 ^ w + v div 10 \<and> (q * 10 ^ Suc w + v) mod 10 = v mod 10"
    by (intro div_mod_is[of _ _ 10]) simp_all
  then show ?case using Suc.IH[OF Suc.prems(1) v] by simp
qed simp

lemma next_digits:
  assumes "n < 10 * m" "0 < (m :: nat)"
  shows "char_of (48 + n div m) # fixed_digits (Suc t) (n mod m * 10 * 10 ^ t div m) = fixed_digits (Suc (Suc t)) (n * 10 ^ Suc t div m)"
    and "n mod m * 10 * 10 ^ t mod m = n * 10 ^ Suc t mod m"
proof -
  let ?q = "n div m" and ?r = "n mod m"
  have q: "?q < 10" using assms by (simp add: less_mult_imp_div_less)
  have "?r * 10 ^ Suc t < m * 10 ^ Suc t" by (rule mult_less_mono1) (use assms(2) in simp_all)
  then have v: "?r * 10 ^ Suc t div m < 10 ^ Suc t" by (simp add: less_mult_imp_div_less mult.commute)
  have "n * 10 ^ Suc t = (?q * m + ?r) * 10 ^ Suc t" by simp
  also have "\<dots> = ?r * 10 ^ Suc t + m * (?q * 10 ^ Suc t)" by (simp only: distrib_left distrib_right ac_simps)
  finally have n: "n * 10 ^ Suc t = ?r * 10 ^ Suc t + m * (?q * 10 ^ Suc t)" .
  have "n * 10 ^ Suc t div m = ?q * 10 ^ Suc t + ?r * 10 ^ Suc t div m"
    unfolding n using assms(2) by (subst div_mult_self2) simp_all
  then have "fixed_digits (Suc (Suc t)) (n * 10 ^ Suc t div m) = char_of (48 + ?q) # fixed_digits (Suc t) (?r * 10 ^ Suc t div m)"
    using fixed_digits_lead[OF q v] by (simp only:)
  then show "char_of (48 + ?q) # fixed_digits (Suc t) (?r * 10 * 10 ^ t div m) = fixed_digits (Suc (Suc t)) (n * 10 ^ Suc t div m)"
    by (simp only: power_Suc mult.assoc)
  show "?r * 10 * 10 ^ t mod m = n * 10 ^ Suc t mod m"
    by (simp only: power_Suc mult.assoc mod_mult_left_eq)
qed

definition stops :: "nat \<Rightarrow> nat \<Rightarrow> nat \<Rightarrow> bool" where
  \<comment> \<open>the digits of \<open>n / m\<close> end with the one at place \<open>t\<close> behind the point\<close>
  "stops n m t \<longleftrightarrow> n * 10 ^ t mod m = 0 \<and> (t = 0 \<or> n * 10 ^ (t - 1) mod m \<noteq> 0)"

lemma stops_0: "n mod m = 0 \<Longrightarrow> stops n m 0"
  by (simp add: stops_def)

lemma stops_next:
  assumes s: "stops (n mod m * 10) m t" and n: "n mod m \<noteq> 0" "n < 10 * m"
  shows "stops n m (Suc t)"
proof -
  have m: "0 < m" using n(2) by simp
  have "n * 10 ^ t mod m \<noteq> 0"
  proof (cases t)
    case (Suc t')
    then show ?thesis using s next_digits(2)[OF n(2) m, of t'] unfolding stops_def by simp
  qed (use n(1) in simp)
  then show ?thesis using s next_digits(2)[OF n(2) m, of t] unfolding stops_def by simp
qed

lemma stops_trimmed:
  assumes s: "stops n m t" and n: "m \<le> n" "n < 10 * m"
  shows "trimmed (fixed_digits (Suc t) (n * 10 ^ t div m))"
proof (rule last_digit_trimmed)
  let ?X = "n * 10 ^ t div m"
  have m: "0 < m" using n by simp
  have X: "n * 10 ^ t = ?X * m" using s by (auto simp: stops_def)
  show "?X mod 10 \<noteq> 0"
  proof
    assume z: "?X mod 10 = 0"
    show False
    proof (cases t)
      case 0
      have "?X < 10" "1 \<le> ?X" using n m 0 by (simp_all add: less_mult_imp_div_less div_greater_zero_iff Suc_le_eq)
      then show False using z by simp
    next
      case (Suc u)
      obtain y where y: "?X = 10 * y" using z by auto
      have "10 * (n * 10 ^ u) = 10 * (y * m)" using X[unfolded y] unfolding Suc by simp
      then have "n * 10 ^ u = y * m" by simp
      then have "n * 10 ^ u mod m = 0" by simp
      then show False using s Suc by (simp add: stops_def)
    qed
  qed
qed

definition fixed_result :: "dtoa_state \<Rightarrow> nat set \<Rightarrow> int \<Rightarrow> nat \<Rightarrow> nat \<times> int \<times> nat \<Rightarrow> string \<Rightarrow> nat \<Rightarrow>
    dtoa_state \<times> nat \<times> string \<times> digits_end \<Rightarrow> bool" where
  \<comment> \<open>at most \<open>r + 1\<close> digits of \<open>n / m\<close> are appended, fewer when nothing is left\<close>
  "fixed_result s0 L K n T out r res \<longleftrightarrow>
     (case res of (s, b, out', e) \<Rightarrow> case T of (S, k, m) \<Rightarrow>
        (case e of
           Digits_done \<Rightarrow> (\<exists>t \<le> r. out' = out @ fixed_digits (Suc t) (n * 10 ^ t div m) \<and> stops n m t)
             \<and> holding s0 s L [(b, K, 0), T]
         | Digits_last q \<Rightarrow> out' = out @ fixed_digits (Suc r) (n * 10 ^ r div m) \<and> q = int (n * 10 ^ r div m mod 10)
             \<and> n * 10 ^ r mod m \<noteq> 0 \<and> holding s0 s L [(b, K, n * 10 ^ r mod m), T]
         | Digits_roundoff \<Rightarrow> False))"

lemma fixed_result_next:
  assumes res: "fixed_result s0 L K (10 * (n mod m)) (S, k, m) (out @ [char_of (48 + n div m)]) r res"
    and n: "n < 10 * m" "0 < m" "n mod m \<noteq> 0"
  shows "fixed_result s0 L K n (S, k, m) out (Suc r) res"
proof -
  obtain s b out' e where r: "res = (s, b, out', e)" by (cases res) auto
  note d = next_digits[OF n(1,2)]
  show ?thesis
  proof (cases e)
    case Digits_done
    then obtain t where t: "t \<le> r" "out' = out @ [char_of (48 + n div m)] @ fixed_digits (Suc t) (n mod m * 10 * 10 ^ t div m)"
      "stops (n mod m * 10) m t" "holding s0 s L [(b, K, 0), (S, k, m)]"
      using res by (auto simp: fixed_result_def r mult.commute[of 10])
    have "out' = out @ fixed_digits (Suc (Suc t)) (n * 10 ^ Suc t div m)" unfolding d(1)[symmetric] t(2) by simp
    moreover have "stops n m (Suc t)" by (rule stops_next[OF t(3) n(3,1)])
    ultimately show ?thesis using t(1,4) Digits_done unfolding fixed_result_def r
      by (auto simp del: fixed_digits.simps power_Suc intro!: exI[of _ "Suc t"])
  next
    case (Digits_last q)
    have "n mod m * 10 * 10 ^ r div m mod 10 = n * 10 ^ Suc r div m mod 10"
    proof -
      have "last (char_of (48 + n div m) # fixed_digits (Suc r) (n mod m * 10 * 10 ^ r div m)) = last (fixed_digits (Suc (Suc r)) (n * 10 ^ Suc r div m))"
        unfolding d(1) ..
      then have "char_of (48 + n mod m * 10 * 10 ^ r div m mod 10) = char_of (48 + n * 10 ^ Suc r div m mod 10)" by simp
      then show ?thesis using digit_char_eq[of "n mod m * 10 * 10 ^ r div m mod 10" "n * 10 ^ Suc r div m mod 10"] by simp
    qed
    then show ?thesis using res d Digits_last unfolding fixed_result_def r
      by (simp del: fixed_digits.simps power_Suc add: mult.commute[of 10])
  next
    case Digits_roundoff
    then show ?thesis using res by (simp add: fixed_result_def r)
  qed
qed

lemma hold_times_ten:
  assumes h: "holding s0 s L [(b, K, n), (S, k, m)]" and m: "four_lead m" and n: "n < m" and K: "k \<le> K" "K \<le> 30"
  shows "wpr (alloc_err A) (\<lambda>(s', b'). holding s0 s' L [(b', K, 10 * n), (S, k, m)]) (multadd A s b 10 0)"
proof -
  obtain T where T: "big k T m" using h by (auto simp: holding_def big_at_def)
  have "10 * n < 10 * m" using n by simp
  also have "10 * m < 4294967296 ^ (2 ^ nat k)" by (rule four_lead_fits[OF m T])
  also have "\<dots> \<le> 4294967296 ^ (2 ^ nat K)" using K(1) by (intro power_increasing) auto
  finally have fits: "n * nat 10 < 4294967296 ^ (2 ^ nat K)" by simp
  have e: "n * nat 10 = 10 * n" by simp
  show ?thesis using hold_multadd[OF h order_refl K(2) disjI2[OF fits], of A] unfolding e by (simp add: INT_MAX_def)
qed

lemma big_fixed_spec:
  assumes "holding s0 s L [(b, K, n), (S, k, m)]" and m: "four_lead m" and K: "k \<le> K" "K \<le> 30"
    and "n < 10 * m" "ilim = i + int r" "int (length out) + int r < rv_cap sz"
  shows "wpr (alloc_err A) (fixed_result s0 L K n (S, k, m) out r) (big_fixed A sz ilim s b S i out)"
  using assms(1,5-7)
proof (induction r arbitrary: s b n i out)
  case (0 s b n i out)
  obtain s' where s': "quorem s b S = Inr (s', int (n div m))" "holding s0 s' L [(b, K, n mod m), (S, k, m)]"
    using hold_quorem[OF 0(1) _ m 0(2)] by auto
  have q: "n div m < 10" using 0(2) by (simp add: less_mult_imp_div_less)
  note z = hold_num_zero[OF s'(2), of b K "n mod m"]
  show ?case using 0(3,4) s' q z by (auto simp: big_fixed.simps[of A] store_digit_ok fixed_result_def stops_0)
next
  case (Suc r s b n i out)
  obtain s' where s': "quorem s b S = Inr (s', int (n div m))" "holding s0 s' L [(b, K, n mod m), (S, k, m)]"
    using hold_quorem[OF Suc(2) _ m Suc(3)] by auto
  have q: "n div m < 10" using Suc(3) by (simp add: less_mult_imp_div_less)
  have m0: "0 < m" by (rule four_lead_pos[OF m])
  note z = hold_num_zero[OF s'(2), of b K "n mod m"]
  let ?out = "out @ [char_of (48 + n div m)]"
  show ?case
  proof (cases "n mod m = 0")
    case True
    then show ?thesis using Suc(4,5) s' q z
      by (auto simp: big_fixed.simps[of A] store_digit_ok fixed_result_def stops_0 intro!: exI[of _ 0])
  next
    case False
    have run: "big_fixed A sz ilim s b S i out
        = andthen (multadd A s' b 10 0) (\<lambda>(s, b). big_fixed A sz ilim s b S (i + 1) ?out)"
      by (subst big_fixed.simps) (use Suc(4,5) s' q z False in \<open>simp add: store_digit_ok\<close>)
    have lt: "10 * (n mod m) < 10 * m" using m0 by simp
    have mul: "wpr (alloc_err A) (\<lambda>(s'', b'). holding s0 s'' L [(b', K, 10 * (n mod m)), (S, k, m)]) (multadd A s' b 10 0)"
      by (rule hold_times_ten[OF s'(2) m _ K]) (use m0 in simp)
    show ?thesis unfolding run wpr_andthen
    proof (rule wpr_mono[OF mul])
      fix x assume "case x of (s'', b') \<Rightarrow> holding s0 s'' L [(b', K, 10 * (n mod m)), (S, k, m)]"
      then obtain s2 b2 where x: "x = (s2, b2)" "holding s0 s2 L [(b2, K, 10 * (n mod m)), (S, k, m)]" by (cases x) auto
      have "wpr (alloc_err A) (fixed_result s0 L K (10 * (n mod m)) (S, k, m) ?out r) (big_fixed A sz ilim s2 b2 S (i + 1) ?out)"
        by (rule Suc.IH[OF x(2) lt]) (use Suc(4,5) in auto)
      then show "wpr (alloc_err A) (fixed_result s0 L K n (S, k, m) out (Suc r)) (case x of (s, b) \<Rightarrow> big_fixed A sz ilim s b S (i + 1) ?out)"
        unfolding x(1) prod.case by (rule wpr_mono) (auto intro: fixed_result_next[OF _ Suc(3) m0 False])
    qed simp
  qed
qed

section \<open>Rounding off\<close>

definition rounded_digits :: "nat \<Rightarrow> nat \<Rightarrow> string \<times> bool \<Rightarrow> bool" where
  \<comment> \<open>the \<open>p\<close> digits of \<open>Q\<close> up to trailing zeros, or a carry out of them\<close>
  "rounded_digits p Q r \<longleftrightarrow>
     (if snd r then Q = 10 ^ p \<and> fst r = ''1''
      else Q < 10 ^ p \<and> strip_zeros (fst r) = strip_zeros (fixed_digits p Q)) \<and> length (fst r) \<le> p"

lemma round_up_rounded:
  assumes "N < 10 ^ p" "0 < p"
  shows "\<exists>out c. round_up (fixed_digits p N) = Inr (out, c) \<and> rounded_digits p (N + 1) (out, c)"
proof -
  obtain out c where r: "round_up (fixed_digits p N) = Inr (out, c)" "c \<longleftrightarrow> N + 1 = 10 ^ p"
    "if c then out = ''1'' else strip_zeros out = strip_zeros (fixed_digits p (N + 1))" "length out \<le> p"
    using round_up_digits[OF assms] by blast
  have "N + 1 < 10 ^ p \<or> c" using assms(1) r(2) by linarith
  then show ?thesis using r by (auto simp: rounded_digits_def)
qed

lemma trim_rounded:
  assumes "N < 10 ^ p" "0 < N"
  shows "\<exists>out. trim_text (fixed_digits p N) = Inr out \<and> rounded_digits p N (out, False)"
proof -
  let ?ds = "fixed_digits p N"
  obtain n where n: "?ds = strip_zeros ?ds @ replicate n (CHR ''0'')" by (rule strip_zeros_prefix)
  have "length (strip_zeros ?ds) \<le> p" using arg_cong[OF n, of length] by simp
  moreover have "strip_zeros (strip_zeros ?ds) = strip_zeros ?ds" using arg_cong[OF n, of strip_zeros] by simp
  ultimately show ?thesis using trim_text_digits[OF assms(2,1)] assms(1) by (simp add: rounded_digits_def)
qed

lemma first_digits_bounds:
  assumes "m \<le> n" "n < 10 * (m :: nat)"
  shows "10 ^ r \<le> n * 10 ^ r div m" "n * 10 ^ r div m < 10 ^ Suc (r :: nat)"
proof -
  have m: "0 < m" using assms by simp
  have "m * 10 ^ r \<le> n * 10 ^ r" by (rule mult_le_mono1[OF assms(1)])
  then show "10 ^ r \<le> n * 10 ^ r div m" using m by (simp add: less_eq_div_iff_mult_less_eq mult.commute)
  have "n * 10 ^ r < 10 * m * 10 ^ r" by (rule mult_less_mono1[OF assms(2)]) simp
  then show "n * 10 ^ r div m < 10 ^ Suc r" by (simp add: less_mult_imp_div_less ac_simps)
qed

lemma big_round_spec:
  assumes res: "fixed_result s0 L K n (S, k, m) [] r (s, b, out, e)" and n: "m \<le> n" "n < 10 * m" and K: "0 \<le> K" "K < 30"
  shows "wpr (alloc_err A) (\<lambda>(s', b', out', c). rounded_digits (Suc r) (round_div (n * 10 ^ r) m) (out', c) \<and> trimmed out'
      \<and> (\<exists>v. holding s0 s' L [(b', K + 1, v), (S, k, m)])) (big_round A s b S out e)"
proof -
  let ?N = "n * 10 ^ r div m" and ?R = "n * 10 ^ r mod m"
  note N = first_digits_bounds[OF n, of r]
  have N0: "0 < ?N" using N(1) by (rule less_le_trans[rotated]) simp
  have m0: "0 < m" using n by simp
  show ?thesis
  proof (cases e)
    case Digits_done
    then obtain t where t: "t \<le> r" "out = fixed_digits (Suc t) (n * 10 ^ t div m)" "stops n m t"
      "holding s0 s L [(b, K, 0), (S, k, m)]" using res by (auto simp: fixed_result_def)
    have tr: "trimmed out" unfolding t(2) by (rule stops_trimmed[OF t(3) n])
    have e: "n * 10 ^ r = n * 10 ^ t * 10 ^ (r - t)" using t(1) by (simp add: power_add[symmetric])
    have d: "m dvd n * 10 ^ t" using t(3) by (auto simp: stops_def)
    have N': "?N = n * 10 ^ t div m * 10 ^ (r - t)" unfolding e by (rule dvd_div_mult[OF d, symmetric])
    have R0: "?R = 0" unfolding e using d by (simp add: mod_eq_0_iff_dvd)
    have "Suc t + (r - t) = Suc r" using t(1) by simp
    then have "strip_zeros out = strip_zeros (fixed_digits (Suc r) ?N)"
      unfolding t(2) N' using strip_fixed_shift[of "Suc t" "r - t" "n * 10 ^ t div m"] by simp
    moreover have "length out \<le> Suc r" unfolding t(2) length_fixed_digits using t(1) by simp
    ultimately have "rounded_digits (Suc r) (round_div (n * 10 ^ r) m) (out, False)"
      using N(2) R0 m0 by (simp add: rounded_digits_def round_div_def Let_def)
    moreover have "holding s0 s L [(b, K + 1, 0), (S, k, m)]"
      using t(4) by (auto simp: holding_def intro: big_at_mono)
    ultimately show ?thesis using Digits_done tr by (auto simp: big_round_def)
  next
    case (Digits_last q)
    then have r: "out = fixed_digits (Suc r) ?N" "q = int (?N mod 10)" "?R \<noteq> 0" "holding s0 s L [(b, K, ?R), (S, k, m)]"
      using res by (auto simp: fixed_result_def simp del: fixed_digits.simps)
    have "even (x mod 10) \<longleftrightarrow> even x" for x :: nat by presburger
    then have od: "odd q \<longleftrightarrow> odd ?N" unfolding r(2) even_of_nat by blast
    have sz: "1 div 32 + 2 ^ nat K + 1 \<le> (2 :: int) ^ nat (K + 1)"
    proof -
      have "nat (K + 1) = Suc (nat K)" using K(1) by (simp add: Suc_nat_eq_nat_zadd1)
      moreover have "(1::int) \<le> 2 ^ nat K" by simp
      ultimately show ?thesis by simp
    qed
    have sh: "wpr (alloc_err A) (\<lambda>(s', a'). holding s0 s' L [(a', K + 1, ?R * 2 ^ nat 1), (S, k, m)]) (lshift A s b 1)"
      using r(3) K by (intro hold_lshift[OF r(4)] sz) auto
    have run: "big_round A s b S out e = andthen (lshift A s b 1) (\<lambda>(s, b). andthen (cmp s b S) (\<lambda>j.
          if 0 < j \<or> (j = 0 \<and> odd q) then andthen (round_up out) (\<lambda>(out, c). Inr (s, b, out, c))
          else andthen (trim_text out) (\<lambda>out. Inr (s, b, out, False))))"
      by (simp add: big_round_def Digits_last)
    show ?thesis unfolding run wpr_andthen[of _ _ "lshift A s b 1"]
    proof (rule wpr_mono[OF sh])
      fix x assume "case x of (s', a') \<Rightarrow> holding s0 s' L [(a', K + 1, ?R * 2 ^ nat 1), (S, k, m)]"
      then obtain s2 b2 where x: "x = (s2, b2)" "holding s0 s2 L [(b2, K + 1, 2 * ?R), (S, k, m)]"
        by (cases x) (auto simp: mult.commute)
      obtain j where j: "cmp s2 b2 S = Inr j" "j < 0 \<longleftrightarrow> 2 * ?R < m" "j = 0 \<longleftrightarrow> 2 * ?R = m"
        using hold_cmp[OF x(2) _ _ disjI2[OF m0], of b2 "K + 1" "2 * ?R" S k] by auto
      have Q: "round_div (n * 10 ^ r) m = (if 0 < j \<or> (j = 0 \<and> odd q) then ?N + 1 else ?N)"
        using j(2,3) od unfolding round_div_def Let_def by auto
      obtain out1 c1 where up: "round_up out = Inr (out1, c1)" "rounded_digits (Suc r) (?N + 1) (out1, c1)" "trimmed out1"
        using round_up_rounded[OF N(2)] round_up_trimmed unfolding r(1) by blast
      obtain out2 where tr: "trim_text out = Inr out2" "rounded_digits (Suc r) ?N (out2, False)" "trimmed out2"
        using trim_rounded[OF N(2) N0] trim_text_trimmed[OF N0 N(2)] unfolding r(1) by blast
      show "wpr (alloc_err A) (\<lambda>(s', b', out', c). rounded_digits (Suc r) (round_div (n * 10 ^ r) m) (out', c) \<and> trimmed out'
      \<and> (\<exists>v. holding s0 s' L [(b', K + 1, v), (S, k, m)]))
        (case x of (s, b) \<Rightarrow> andthen (cmp s b S) (\<lambda>j.
          if 0 < j \<or> (j = 0 \<and> odd q) then andthen (round_up out) (\<lambda>(out, c). Inr (s, b, out, c))
          else andthen (trim_text out) (\<lambda>out. Inr (s, b, out, False))))"
        unfolding x(1) prod.case j(1) andthen_simps Q using up tr x(2) by auto
    qed simp
  next
    case Digits_roundoff
    then show ?thesis using res by (simp add: fixed_result_def)
  qed
qed

section \<open>The two numbers\<close>

lemma dshift_norm:
  assumes h: "holding s0 s L xs" and S: "(S, k, v) \<in> set xs" and v: "0 < v" and p: "0 \<le> p2"
  shows "\<exists>i. dshift s S p2 = Inr i \<and> 0 \<le> i \<and> i \<le> 31 \<and> four_lead (v * 2 ^ nat (p2 + i))"
proof -
  obtain B where B: "dt_heap s S = Some B" "big k B v" using holding_big[OF h S] by (auto simp: big_at_def)
  obtain ws where ws: "peek_words B (bg_wds B) = Inr ws" "bval ws = v" "int (length ws) = bg_wds B" and w1: "1 \<le> bg_wds B"
    using big_words[OF B(2) v] by blast
  note top = top_word_nonzero[OF B(2) v ws(1)]
  let ?h = "hi0bits (last ws)" and ?c = "length ws - 1"
  let ?l = "32 * ?c + (32 - ?h)"
  note lb = leading_bits[OF top(1,2), unfolded ws(2)]
  have h32: "?h \<le> 31" using hi0bits_spec(1)[OF top(2)] by simp
  define rv where "rv = int ?h - 4 - (if 0 < p2 then p2 else 0)"
  define i where "i = rv mod 32"
  have pk: "peek_word B (bg_wds B - 1) = Inr (last ws)" by (rule peek_word_last[OF ws(1)]) (use w1 in simp)
  have run: "dshift s S p2 = Inr i"
    using B(1) pk and_mask_31[of rv] by (auto simp: dshift_def deref_def rv_def i_def Let_def)
  have i: "0 \<le> i" "i \<le> 31" by (simp_all add: i_def)
  have rv': "rv = int ?h - 4 - p2" using p by (simp add: rv_def)
  \<comment> \<open>the shifted number has \<open>32 w + 28\<close> bits\<close>
  have "(int ?l + p2 + i) mod 32 = 28"
  proof -
    have "int ?l + p2 + i = (- int ?h + p2 + rv mod 32) + 32 * (int ?c + 1)" using h32 by (simp add: i_def of_nat_diff)
    then have "(int ?l + p2 + i) mod 32 = (- int ?h + p2 + rv mod 32) mod 32" by (simp only: mod_mult_self2)
    also have "\<dots> = (- int ?h + p2 + rv) mod 32" by (simp add: mod_simps)
    also have "- int ?h + p2 + rv = - 4" by (simp add: rv')
    finally show ?thesis by simp
  qed
  then obtain q where q: "int ?l + p2 + i = 32 * q + 28" by (metis mult_div_mod_eq)
  let ?j = "nat (p2 + i)"
  have q0: "0 \<le> q" using q p i(1) h32 by linarith
  have e: "?l + ?j = 32 * nat q + 28"
  proof -
    have "int (?l + ?j) = int (32 * nat q + 28)" using q p i(1) q0 by simp
    then show ?thesis by (simp only: of_nat_eq_iff)
  qed
  have p32: "(2::nat) ^ (32 * nat q + 28) = 268435456 * 4294967296 ^ nat q"
    unfolding pow32_mult by (simp add: power_add)
  have "v * 2 ^ ?j < 2 ^ ?l * 2 ^ ?j" by (rule mult_less_mono1[OF lb(2)]) simp
  also have "(2::nat) ^ ?l * 2 ^ ?j = 268435456 * 4294967296 ^ nat q" unfolding power_add[symmetric] e p32 ..
  finally have up: "v * 2 ^ ?j < 268435456 * 4294967296 ^ nat q" .
  have "2 ^ ?l * 2 ^ ?j \<le> 2 * v * 2 ^ ?j" by (rule mult_le_mono1[OF lb(1)])
  then have "268435456 * 4294967296 ^ nat q \<le> 2 * (v * 2 ^ ?j)" unfolding power_add[symmetric] e p32 by simp
  then have "134217728 * 4294967296 ^ nat q \<le> v * 2 ^ ?j" by linarith
  with up have "four_lead (v * 2 ^ ?j)" unfolding four_lead_def by blast
  then show ?thesis using run i by blast
qed

definition frac_num :: "nat \<Rightarrow> int \<Rightarrow> int \<Rightarrow> nat" where
  \<comment> \<open>numerator and denominator of \<open>n * 2 ^ be / 10 ^ k\<close>\<close>
  "frac_num n be k = n * 2 ^ nat be * 10 ^ nat (- k)"

definition frac_den :: "int \<Rightarrow> int \<Rightarrow> nat" where
  "frac_den be k = 2 ^ nat (- be) * 10 ^ nat k"

lemma frac_den_pos [simp]: "0 < frac_den be k"
  by (simp add: frac_den_def)

lemma frac_cross:
  assumes "b2 - s2 = be - k" "0 \<le> b2" "0 \<le> s2"
  shows "n * 5 ^ nat (- k) * 2 ^ nat b2 * frac_den be k = 5 ^ nat k * 2 ^ nat s2 * frac_num n be k"
proof -
  have t: "(10::nat) ^ j = 2 ^ j * 5 ^ j" for j unfolding power_mult_distrib[symmetric] by simp
  have "nat b2 + nat (- be) + nat k = nat s2 + nat be + nat (- k)" using assms by linarith
  then have e: "(2::nat) ^ nat b2 * 2 ^ nat (- be) * 2 ^ nat k = 2 ^ nat s2 * 2 ^ nat be * 2 ^ nat (- k)"
    unfolding power_add[symmetric] by simp
  have "n * 5 ^ nat (- k) * 2 ^ nat b2 * frac_den be k = n * 5 ^ nat (- k) * 5 ^ nat k * (2 ^ nat b2 * 2 ^ nat (- be) * 2 ^ nat k)"
    unfolding frac_den_def t by (simp only: ac_simps)
  also have "\<dots> = 5 ^ nat k * 2 ^ nat s2 * frac_num n be k"
    unfolding e frac_num_def t by (simp only: ac_simps)
  finally show ?thesis .
qed

lemma scales_value:
  assumes "bbits - i - 1 = - be" "dtoa_scales bbits i k = (b2, s2, b5, s5)" "big_exps False denorm be bbits b2 s2 = (b2', m2, s2')"
  shows "b5 = max 0 (- k)" "s5 = max 0 k" "0 \<le> b2'" "0 \<le> s2'" "b2' - s2' = be - k" "b2' \<le> \<bar>be\<bar> + \<bar>k\<bar>" "s2' \<le> \<bar>be\<bar> + \<bar>k\<bar>"
  using assms by (auto simp: dtoa_scales_def big_exps_def Let_def min_def split: if_splits)

definition fixed_plan :: "dtoa_plan \<Rightarrow> nat \<Rightarrow> bool" where
  \<comment> \<open>so many significant digits\<close>
  "fixed_plan p n \<longleftrightarrow> dp_mode p = 2 \<and> \<not> dp_leftright p \<and> dp_ilim p = int n \<and> dp_ilim1 p = int n \<and> dp_ndigits p = int n \<and> 0 < n"

lemma fixed_plan_two: "fixed_plan p n \<Longrightarrow> \<not> power_of_two p u"
  by (simp add: fixed_plan_def power_of_two_def)

lemma shift_room: "0 \<le> j \<Longrightarrow> j \<le> 100000 \<Longrightarrow> j div 32 + 2 ^ nat (1 + 15) + 1 \<le> (2 :: int) ^ nat 17"
  by simp

lemma mhi_none: "fixed_plan p n \<Longrightarrow> mhi_start A s (dp_leftright p) = Inr (s, None)"
  by (simp add: fixed_plan_def mhi_start_def)

lemma hold_swap:
  assumes "holding s0 s L [x, y]"
  shows "holding s0 s L [y, x]"
  by (rule hold_perm[OF assms]) (use assms in \<open>auto simp: holding_def\<close>)

lemma big_start_spec:
  assumes h: "holding s0 s L [(b, 1, n)]" and n: "0 < n" and p: "fixed_plan p np"
    and j: "bbits - i - 1 = - be" and be: "\<bar>be\<bar> \<le> 2000" "\<bar>k\<bar> \<le> 1000"
  shows "wpr (alloc_err A) (\<lambda>(s, b, S, mhi, m2). mhi = None
      \<and> (\<exists>N M. holding s0 s L [(b, 17, N), (S, 17, M)] \<and> four_lead M \<and> N * frac_den be k = M * frac_num n be k))
    (big_start A s p u b (dtoa_scales bbits i k) be bbits denorm)"
proof -
  obtain b2 s2 b5 s5 where sc: "dtoa_scales bbits i k = (b2, s2, b5, s5)" by (metis prod_cases4)
  obtain b2' m2 s2' where ex: "big_exps False denorm be bbits b2 s2 = (b2', m2, s2')" by (metis prod_cases3)
  note v = scales_value[OF j sc ex]
  have lr: "dp_leftright p = False" using p by (simp add: fixed_plan_def)
  have b5: "0 \<le> b5" "b5 < 65536" "0 \<le> s5" "s5 < 65536" using v(1,2) be by auto
  have P: "big_pow5 A s b None b5 = andthen (pow5_if A s b b5) (\<lambda>(s, b). Inr (s, b, None))" for s
    by (simp add: big_pow5_def pow5_if_def)
  have run: "big_start A s p u b (dtoa_scales bbits i k) be bbits denorm =
      andthen (pow5_if A s b b5) (\<lambda>(s, b). andthen (i2b A s 1) (\<lambda>(s, S). andthen (pow5_if A s S s5) (\<lambda>(s, S).
      andthen (dshift s S s2') (\<lambda>i. andthen (shift_if A s b (b2' + i)) (\<lambda>(s, b). andthen (shift_if A s S (s2' + i)) (\<lambda>(s, S).
      Inr (s, b, S, None, m2 + i)))))))"
    using fixed_plan_two[OF p, of u]
    by (simp add: big_start_def sc lr ex mhi_start_def P Let_def andthen_assoc split_def)
  show ?thesis unfolding run
  proof (rule wpr_bind[OF hold_pow5_if[OF h n _ b5(1,2)]]; (unfold split_paired_all prod.case)?)
    fix s1 b1 assume h1: "holding s0 s1 L [(b1, 1 + 15, n * 5 ^ nat b5)]"
    show "wpr (alloc_err A) (\<lambda>(s, b, S, mhi, m2). mhi = None
      \<and> (\<exists>N M. holding s0 s L [(b, 17, N), (S, 17, M)] \<and> four_lead M \<and> N * frac_den be k = M * frac_num n be k))
      (andthen (i2b A s1 1) (\<lambda>(s, S). andthen (pow5_if A s S s5) (\<lambda>(s, S).
      andthen (dshift s S s2') (\<lambda>i. andthen (shift_if A s b1 (b2' + i)) (\<lambda>(s, b). andthen (shift_if A s S (s2' + i)) (\<lambda>(s, S).
      Inr (s, b, S, None, m2 + i)))))))"
    proof (rule wpr_bind[OF hold_i2b[OF h1]]; (unfold split_paired_all prod.case)?)
      fix s2 S1 assume h2: "holding s0 s2 L [(S1, 1, nat 1), (b1, 1 + 15, n * 5 ^ nat b5)]"
      show "wpr (alloc_err A) (\<lambda>(s, b, S, mhi, m2). mhi = None
        \<and> (\<exists>N M. holding s0 s L [(b, 17, N), (S, 17, M)] \<and> four_lead M \<and> N * frac_den be k = M * frac_num n be k))
        (andthen (pow5_if A s2 S1 s5) (\<lambda>(s, S).
        andthen (dshift s S s2') (\<lambda>i. andthen (shift_if A s b1 (b2' + i)) (\<lambda>(s, b). andthen (shift_if A s S (s2' + i)) (\<lambda>(s, S).
        Inr (s, b, S, None, m2 + i))))))"
      proof (rule wpr_bind[OF hold_pow5_if[OF h2 _ _ b5(3,4)]]; (unfold split_paired_all prod.case)?)
        fix s3 S2 assume h3: "holding s0 s3 L [(S2, 1 + 15, nat 1 * 5 ^ nat s5), (b1, 1 + 15, n * 5 ^ nat b5)]"
        obtain i where i: "dshift s3 S2 s2' = Inr i" "0 \<le> i" "i \<le> 31" "four_lead (5 ^ nat s5 * 2 ^ nat (s2' + i))"
          using dshift_norm[OF h3, of S2 "1 + 15" "5 ^ nat s5" s2'] v(4) by auto
        have r: "0 \<le> b2' + i" "b2' + i \<le> 100000" "0 \<le> s2' + i" "s2' + i \<le> 100000" using v(3-7) i(2,3) be by linarith+
        have pos: "0 < n * 5 ^ nat b5" "0 < nat 1 * 5 ^ nat s5" using n by simp_all
        show "wpr (alloc_err A) (\<lambda>(s, b, S, mhi, m2). mhi = None
          \<and> (\<exists>N M. holding s0 s L [(b, 17, N), (S, 17, M)] \<and> four_lead M \<and> N * frac_den be k = M * frac_num n be k))
          (andthen (dshift s3 S2 s2') (\<lambda>i. andthen (shift_if A s3 b1 (b2' + i)) (\<lambda>(s, b). andthen (shift_if A s S2 (s2' + i)) (\<lambda>(s, S).
          Inr (s, b, S, None, m2 + i)))))"
          unfolding i(1) andthen_simps
        proof (rule wpr_bind[OF hold_shift_if[OF hold_swap[OF h3] pos(1) r(1) _ _ shift_room[OF r(1,2)]]]; (unfold split_paired_all prod.case)?)
          fix s4 b2 assume h4: "holding s0 s4 L [(b2, 17, n * 5 ^ nat b5 * 2 ^ nat (b2' + i)), (S2, 1 + 15, nat 1 * 5 ^ nat s5)]"
          show "wpr (alloc_err A) (\<lambda>(s, b, S, mhi, m2). mhi = None
            \<and> (\<exists>N M. holding s0 s L [(b, 17, N), (S, 17, M)] \<and> four_lead M \<and> N * frac_den be k = M * frac_num n be k))
            (andthen (shift_if A s4 S2 (s2' + i)) (\<lambda>(s, S). Inr (s, b2, S, None, m2 + i)))"
          proof (rule wpr_bind[OF hold_shift_if[OF hold_swap[OF h4] pos(2) r(3) _ _ shift_room[OF r(3,4)]]]; (unfold split_paired_all prod.case)?)
            fix s5' S3 assume h5: "holding s0 s5' L [(S3, 17, nat 1 * 5 ^ nat s5 * 2 ^ nat (s2' + i)), (b2, 17, n * 5 ^ nat b5 * 2 ^ nat (b2' + i))]"
            have k5: "nat b5 = nat (- k)" "nat s5 = nat k" using v(1,2) by auto
            have "n * 5 ^ nat b5 * 2 ^ nat (b2' + i) * frac_den be k = nat 1 * 5 ^ nat s5 * 2 ^ nat (s2' + i) * frac_num n be k"
              using frac_cross[of "b2' + i" "s2' + i" be k n] v(5) r(1,3) unfolding k5 by simp
            then show "wpr (alloc_err A) (\<lambda>(s, b, S, mhi, m2). mhi = None
              \<and> (\<exists>N M. holding s0 s L [(b, 17, N), (S, 17, M)] \<and> four_lead M \<and> N * frac_den be k = M * frac_num n be k))
              (Inr (s5', b2, S3, None, m2 + i))"
              using hold_swap[OF h5] i(4) by simp blast
          qed simp_all
        qed simp_all
      qed simp_all
    qed (simp_all add: INT_MAX_def)
  qed simp_all
qed


lemma round_div_cross:
  assumes "a * d = c * b" "0 < b" "0 < d"
  shows "round_div a b = round_div c d"
proof -
  have q: "a div b = c div d"
  proof -
    have "a div b = a * d div (b * d)" using assms(3) by simp
    also have "\<dots> = c * b div (d * b)" unfolding assms(1) by (simp add: mult.commute)
    also have "\<dots> = c div d" using assms(2) by simp
    finally show ?thesis .
  qed
  have "a mod b * d = a * d mod (b * d)" by (simp add: mult_mod_left)
  also have "\<dots> = c * b mod (d * b)" unfolding assms(1) by (simp add: mult.commute)
  finally have r: "a mod b * d = c mod d * b" by (simp add: mult_mod_left)
  have "2 * (a mod b) < b \<longleftrightarrow> 2 * (a mod b) * d < b * d" "2 * (a mod b) = b \<longleftrightarrow> 2 * (a mod b) * d = b * d"
    "2 * (c mod d) < d \<longleftrightarrow> 2 * (c mod d) * b < b * d" "2 * (c mod d) = d \<longleftrightarrow> 2 * (c mod d) * b = b * d"
    using assms(2,3) mult.commute[of b d] by (simp_all only: mult_less_cancel2 mult_cancel2 less_imp_neq) auto
  then show ?thesis unfolding round_div_def Let_def q using r by (simp only: mult.assoc)
qed

lemma frac_step: "frac_num n be (k - 1) * frac_den be k = 10 * frac_num n be k * frac_den be (k - 1)"
proof (cases "0 < k")
  case True
  then have "nat k = Suc (nat (k - 1))" "nat (- (k - 1)) = 0" "nat (- k) = 0" by simp_all
  then show ?thesis by (simp add: frac_num_def frac_den_def)
next
  case False
  then have "nat (- (k - 1)) = Suc (nat (- k))" "nat k = 0" "nat (k - 1) = 0" by simp_all
  then show ?thesis by (simp add: frac_num_def frac_den_def)
qed

definition leads_at :: "nat \<Rightarrow> int \<Rightarrow> int \<Rightarrow> bool" where
  \<comment> \<open>\<open>10 ^ x\<close> is the place of the first digit of \<open>n * 2 ^ be\<close>\<close>
  "leads_at n be x \<longleftrightarrow> frac_den be x \<le> frac_num n be x \<and> frac_num n be x < 10 * frac_den be x"

lemma fst_bump_k: "fst (bump_k k r) = fst r"
  by (simp add: bump_k_def)

definition digits_of :: "nat \<Rightarrow> int \<Rightarrow> nat \<Rightarrow> string \<times> int \<Rightarrow> bool" where
  \<comment> \<open>the first \<open>p\<close> digits of \<open>n * 2 ^ be\<close>, rounded, and the place of the first one\<close>
  "digits_of n be p r \<longleftrightarrow>
     (\<exists>x ds. r = bump_k x ds \<and> leads_at n be x
        \<and> rounded_digits p (round_div (frac_num n be x * 10 ^ (p - 1)) (frac_den be x)) ds)"

lemma cross_bounds:
  assumes "N * d = M * (a :: nat)" "0 < M" "0 < d"
  shows "M \<le> N \<longleftrightarrow> d \<le> a" "N < c * M \<longleftrightarrow> a < c * d" "M \<le> 10 * N \<longleftrightarrow> d \<le> 10 * a"
proof -
  have "M \<le> N \<longleftrightarrow> M * d \<le> N * d" using assms(3) by simp
  then show "M \<le> N \<longleftrightarrow> d \<le> a" unfolding assms(1) using assms(2) by simp
  have "N < c * M \<longleftrightarrow> N * d < c * M * d" using assms(3) by simp
  also have "\<dots> \<longleftrightarrow> M * a < M * (c * d)" unfolding assms(1) by (simp only: ac_simps)
  finally show "N < c * M \<longleftrightarrow> a < c * d" using assms(2) by simp
  have "M \<le> 10 * N \<longleftrightarrow> M * d \<le> 10 * (N * d)" using assms(3) by simp
  also have "\<dots> \<longleftrightarrow> M * d \<le> M * (10 * a)" unfolding assms(1) by (simp only: ac_simps)
  finally show "M \<le> 10 * N \<longleftrightarrow> d \<le> 10 * a" using assms(2) by simp
qed

lemma big_check_spec:
  assumes h: "holding s0 s L [(b, 17, N), (S, 17, M)]" and M: "four_lead M" and p: "fixed_plan p np"
    and c: "N < 10 * M" "M \<le> 10 * N" "\<not> k_check \<Longrightarrow> M \<le> N"
  shows "wpr (alloc_err A) (\<lambda>(s, b, mhi, k', ilim). mhi = None \<and> ilim = int np
      \<and> (\<exists>N'. holding s0 s L [(b, 17, N'), (S, 17, M)] \<and> M \<le> N' \<and> N' < 10 * M
           \<and> (k' = k \<and> N' = N \<or> k' = k - 1 \<and> N' = 10 * N)))
    (big_check A s p b S None k k_check)"
proof -
  have m0: "0 < M" by (rule four_lead_pos[OF M])
  obtain i where i: "cmp s b S = Inr i" "i < 0 \<longleftrightarrow> N < M"
    using hold_cmp[OF h _ _ disjI2[OF m0], of b 17 N S 17] by auto
  have il: "dp_ilim p = int np" "dp_ilim1 p = int np" using p by (simp_all add: fixed_plan_def)
  show ?thesis
  proof (cases "k_check \<and> N < M")
    case False
    then have "M \<le> N" using c(3) by auto
    moreover have "(if k_check then cmp s b S else Inr 0) = Inr (if k_check then i else 0)" using i by simp
    then have "big_check A s p b S None k k_check = Inr (s, b, None, k, int np)"
      unfolding big_check_def using i(2) False il by (auto simp: times_ten_def)
    ultimately show ?thesis using h c(1) by simp
  next
    case True
    have run: "big_check A s p b S None k k_check = andthen (multadd A s b 10 0) (\<lambda>(s, b). Inr (s, b, None, k - 1, int np))"
      unfolding big_check_def using True i il by (simp add: times_ten_def)
    have mul: "wpr (alloc_err A) (\<lambda>(s', b'). holding s0 s' L [(b', 17, 10 * N), (S, 17, M)]) (multadd A s b 10 0)"
      by (rule hold_times_ten[OF h M]) (use True in simp_all)
    show ?thesis unfolding run
      by (rule wpr_bind[OF mul]) (use True c(2) in auto)
  qed
qed


lemma big_free_spec:
  assumes "holding s0 s L [(b, k, v), (S, k', m)]"
  shows "\<exists>s'. big_free s S None None b = Inr s' \<and> holding s0 s' L []"
proof -
  obtain s1 where "Bfree s (Some S) = Inr s1" "holding s0 s1 L [(b, k, v)]" using hold_free[OF hold_swap[OF assms]] by blast
  moreover from hold_free[OF this(2)] obtain s2 where "Bfree s1 (Some b) = Inr s2" "holding s0 s2 L []" by blast
  moreover have "Bfree s None = Inr s" for s by (simp add: Bfree_def)
  ultimately show ?thesis by (simp add: big_free_def)
qed

lemma digits_of_scaled:
  assumes N: "N * frac_den be k = M * frac_num n be k" "0 < M" and N': "M \<le> N'" "N' < 10 * M"
    and k': "k' = k \<and> N' = N \<or> k' = k - 1 \<and> N' = 10 * N"
    and r: "rounded_digits p (round_div (N' * 10 ^ (p - 1)) M) r"
  shows "digits_of n be p (bump_k k' r)"
proof -
  have e: "N' * frac_den be k' = M * frac_num n be k'"
    using k'
  proof
    assume k: "k' = k - 1 \<and> N' = 10 * N"
    have "N' * frac_den be k' * frac_den be k = 10 * (N * frac_den be k) * frac_den be (k - 1)"
      using k by (simp only: ac_simps)
    also have "\<dots> = M * (10 * frac_num n be k * frac_den be (k - 1))" unfolding N(1) by (simp only: ac_simps)
    also have "\<dots> = M * frac_num n be k' * frac_den be k" unfolding frac_step[symmetric] using k by (simp only: ac_simps)
    finally show ?thesis using frac_den_pos[of be k] by simp
  qed (use N(1) in simp)
  note b = cross_bounds[OF e N(2) frac_den_pos]
  have "leads_at n be k'" unfolding leads_at_def using N' b(1) b(2)[of 10] by simp
  moreover have "round_div (N' * 10 ^ (p - 1)) M = round_div (frac_num n be k' * 10 ^ (p - 1)) (frac_den be k')"
  proof (rule round_div_cross)
    have "N' * 10 ^ (p - 1) * frac_den be k' = N' * frac_den be k' * 10 ^ (p - 1)" by (simp only: ac_simps)
    also have "\<dots> = frac_num n be k' * 10 ^ (p - 1) * M" unfolding e by (simp only: ac_simps)
    finally show "N' * 10 ^ (p - 1) * frac_den be k' = frac_num n be k' * 10 ^ (p - 1) * M" .
  qed (use N(2) in simp_all)
  ultimately show ?thesis using r unfolding digits_of_def by metis
qed

lemma big_emit_spec:
  assumes h: "holding s0 s L [(b, 17, N'), (S, 17, M)]" and M: "four_lead M" and N': "M \<le> N'" "N' < 10 * M"
    and np: "0 < np" "int np < rv_cap sz"
  shows "wpr (alloc_err A) (\<lambda>(s', out, k''). holding s0 s' L []
      \<and> (\<exists>r. (out, k'') = bump_k k' r \<and> rounded_digits np (round_div (N' * 10 ^ (np - 1)) M) r \<and> trimmed (fst r)))
    (andthen (big_fixed A sz (int np) s b S 1 []) (\<lambda>(s, b, out, e).
     andthen (big_round A s b S out e) (\<lambda>(s, b, out, c).
     andthen (big_free s S None None b) (\<lambda>s. Inr (s, bump_k k' (out, c))))))"
    (is "wpr _ ?Q _")
proof -
  have w: "int np = 1 + int (np - 1)" "Suc (np - 1) = np" "int (length ([]::string)) + int (np - 1) < rv_cap sz" using np by simp_all
  show ?thesis
  proof (rule wpr_bind[OF big_fixed_spec[OF h M order_refl _ N'(2) w(1,3)]])
    fix x assume x: "fixed_result s0 L 17 N' (S, 17, M) [] (np - 1) x"
    obtain s1 b1 out1 e1 where xe: "x = (s1, b1, out1, e1)" by (cases x) auto
    show "wpr (alloc_err A) ?Q (case x of (s, b, out, e) \<Rightarrow> andthen (big_round A s b S out e) (\<lambda>(s, b, out, c).
        andthen (big_free s S None None b) (\<lambda>s. Inr (s, bump_k k' (out, c)))))"
      unfolding xe prod.case
    proof (rule wpr_bind[OF big_round_spec[OF x[unfolded xe] N']])
      fix y assume "case y of (s', b', out', c) \<Rightarrow>
          rounded_digits (Suc (np - 1)) (round_div (N' * 10 ^ (np - 1)) M) (out', c) \<and> trimmed out' \<and> (\<exists>v. holding s0 s' L [(b', 17 + 1, v), (S, 17, M)])"
      then obtain s2 b2 out2 c2 v where y: "y = (s2, b2, out2, c2)"
        "rounded_digits np (round_div (N' * 10 ^ (np - 1)) M) (out2, c2)" "holding s0 s2 L [(b2, 17 + 1, v), (S, 17, M)]" "trimmed out2"
        unfolding w(2) by (cases y) auto
      obtain s3 where s3: "big_free s2 S None None b2 = Inr s3" "holding s0 s3 L []" using big_free_spec[OF y(3)] by blast
      obtain ds k2 where bk: "bump_k k' (out2, c2) = (ds, k2)" by fastforce
      show "wpr (alloc_err A) ?Q (case y of (s, b, out, c) \<Rightarrow> andthen (big_free s S None None b) (\<lambda>s. Inr (s, bump_k k' (out, c))))"
        unfolding y(1) prod.case s3(1) andthen_simps wpr_simps bk
        using s3(2) y(2,4) bk by (intro conjI exI[of _ "(out2, c2)"]) simp_all
    qed simp_all
  qed simp
qed

lemma big_rest_spec:
  fixes F :: "dtoa_state \<Rightarrow> nat \<Rightarrow> nat \<Rightarrow> int \<Rightarrow> int \<Rightarrow> (dtoa_state \<times> string \<times> int) res"
  assumes h: "holding s0 s L [(b, 17, N), (S, 17, M)]" and M: "four_lead M" and p: "fixed_plan p np"
    and c: "N < 10 * M" "M \<le> 10 * N" "\<not> k_check \<Longrightarrow> M \<le> N" and NM: "N * frac_den be k = M * frac_num n be k"
    and np: "int np < rv_cap sz"
  shows "wpr (alloc_err A) (\<lambda>(s', r). holding s0 s' L [] \<and> digits_of n be np r \<and> trimmed (fst r))
    (andthen (big_check A s p b S None k k_check) (\<lambda>(s, b, mhi, k, ilim).
       case mhi of
           None \<Rightarrow>
             andthen (big_fixed A sz ilim s b S 1 []) (\<lambda>(s, b, out, e).
             andthen (big_round A s b S out e) (\<lambda>(s, b, out, c).
             andthen (big_free s S None None b) (\<lambda>s. Inr (s, bump_k k (out, c)))))
         | Some m \<Rightarrow> F s b m k ilim))" (is "wpr _ ?Q _")
proof (rule wpr_bind[OF big_check_spec[OF h M p c]])
  fix y :: "dtoa_state \<times> nat \<times> nat option \<times> int \<times> int"
  assume "case y of (s, b, mhi, k', ilim) \<Rightarrow> mhi = None \<and> ilim = int np
    \<and> (\<exists>N'. holding s0 s L [(b, 17, N'), (S, 17, M)] \<and> M \<le> N' \<and> N' < 10 * M
         \<and> (k' = k \<and> N' = N \<or> k' = k - 1 \<and> N' = 10 * N))"
  then obtain s2 b2 k' N' where y: "y = (s2, b2, None, k', int np)" and hy: "holding s0 s2 L [(b2, 17, N'), (S, 17, M)]"
    and N': "M \<le> N'" "N' < 10 * M" "k' = k \<and> N' = N \<or> k' = k - 1 \<and> N' = 10 * N" by (cases y) auto
  have np0: "0 < np" using p by (simp add: fixed_plan_def)
  show "wpr (alloc_err A) ?Q (case y of (s, b, mhi, k, ilim) \<Rightarrow> (case mhi of
       None \<Rightarrow>
         andthen (big_fixed A sz ilim s b S 1 []) (\<lambda>(s, b, out, e).
         andthen (big_round A s b S out e) (\<lambda>(s, b, out, c).
         andthen (big_free s S None None b) (\<lambda>s. Inr (s, bump_k k (out, c)))))
     | Some m \<Rightarrow> F s b m k ilim))"
    unfolding y prod.case option.case
  proof (rule wpr_mono[OF big_emit_spec[OF hy M N'(1,2) np0 np]])
    fix x assume "case x of (s', out, k'') \<Rightarrow> holding s0 s' L []
      \<and> (\<exists>r. (out, k'') = bump_k k' r \<and> rounded_digits np (round_div (N' * 10 ^ (np - 1)) M) r \<and> trimmed (fst r))"
    then obtain s3 r where x: "x = (s3, bump_k k' r)" and r: "holding s0 s3 L []"
      "rounded_digits np (round_div (N' * 10 ^ (np - 1)) M) r" "trimmed (fst r)" by (cases x) auto
    have "digits_of n be np (bump_k k' r)" by (rule digits_of_scaled[OF NM four_lead_pos[OF M] N' r(2)])
    then show "?Q x" unfolding x using r(1,3) by (simp add: fst_bump_k)
  qed simp
qed simp_all

lemma dtoa_big_spec:
  assumes h: "holding s0 s L [(b, 1, n)]" and n: "0 < n" and p: "fixed_plan p np"
    and j: "bbits - i - 1 = - be" and be: "\<bar>be\<bar> \<le> 2000" "\<bar>k\<bar> \<le> 1000" and np: "int np < rv_cap sz"
    and est: "frac_num n be k < 10 * frac_den be k" "frac_den be k \<le> 10 * frac_num n be k" "\<not> k_check \<Longrightarrow> frac_den be k \<le> frac_num n be k"
  shows "wpr (alloc_err A) (\<lambda>(s', r). holding s0 s' L [] \<and> digits_of n be np r \<and> trimmed (fst r))
    (dtoa_big A s sz p u b be bbits i denorm k k_check)" (is "wpr _ ?Q _")
proof -
  have md: "\<not> (il \<le> 0 \<and> (dp_mode p = 3 \<or> dp_mode p = 5))" for il using p by (simp_all add: fixed_plan_def)
  show ?thesis unfolding dtoa_big_def if_not_P[OF md]
  proof (rule wpr_bind[OF big_start_spec[OF h n p j be]])
    fix x :: "dtoa_state \<times> nat \<times> nat \<times> nat option \<times> int"
    assume x: "case x of (s, b, S, mhi, m2) \<Rightarrow> mhi = None
        \<and> (\<exists>N M. holding s0 s L [(b, 17, N), (S, 17, M)] \<and> four_lead M \<and> N * frac_den be k = M * frac_num n be k)"
    obtain s1 b1 S m2 N M where xe: "x = (s1, b1, S, None, m2)" and hx: "holding s0 s1 L [(b1, 17, N), (S, 17, M)]"
      and M: "four_lead M" and NM: "N * frac_den be k = M * frac_num n be k" using x by (cases x) auto
    have m0: "0 < M" by (rule four_lead_pos[OF M])
    note cb = cross_bounds[OF NM m0 frac_den_pos]
    have c: "N < 10 * M" "M \<le> 10 * N" "\<not> k_check \<Longrightarrow> M \<le> N" using est cb by simp_all
    note rest = big_rest_spec[OF hx M p c NM np]
    show "wpr (alloc_err A) ?Q (case x of (s, b, S, mhi, m2) \<Rightarrow>
       andthen (big_check A s p b S mhi k k_check) (\<lambda>(s, b, mhi, k, ilim). case mhi of
           None \<Rightarrow>
             andthen (big_fixed A sz ilim s b S 1 []) (\<lambda>(s, b, out, e).
             andthen (big_round A s b S out e) (\<lambda>(s, b, out, c).
             andthen (big_free s S None None b) (\<lambda>s. Inr (s, bump_k k (out, c)))))
         | Some m \<Rightarrow>
             andthen (lr_start A s (power_of_two p u) m m2) (\<lambda>(s, mlo, mhi).
             andthen (lr_loop A sz (dp_mode p) u ilim s b S mlo mhi 1 []) (\<lambda>(s, b, mlo, mhi, out, e).
             andthen (big_round A s b S out e) (\<lambda>(s, b, out, c).
             andthen (big_free s S (Some mlo) (Some mhi) b) (\<lambda>s. Inr (s, bump_k k (out, c))))))))"
      unfolding xe prod.case by (rule rest)
  qed
qed

end
