(* ===== verification/Dtoa_Value.thy ===== *)
theory Dtoa_Value
  imports Dtoa_Digits
begin

text \<open>
Digits against values: what the digits of \<open>dtoa\<close> (\<open>3rd/lua-cjson/dtoa.c\<close>) say about the number
  \<open>n * 2^be\<close> is what \<open>sig_digits\<close> computes for \<open>printf\<close>.
\<close>

section \<open>The value of a number of digits\<close>

definition scaled_val :: "nat \<Rightarrow> int \<Rightarrow> rat" where
  "scaled_val n be = of_nat n * 2 powi be"

lemma powi_quot: "(b :: rat) \<noteq> 0 \<Longrightarrow> b powi x = b ^ nat x / b ^ nat (- x)"
  by (auto simp: power_int_def field_simps)

lemma frac_rat: "of_nat (frac_num n be x) / of_nat (frac_den be x) = scaled_val n be / 10 powi x"
  by (simp add: frac_num_def frac_den_def scaled_val_def powi_quot)

lemma leads_rat: "leads_at n be x \<longleftrightarrow> 10 powi x \<le> scaled_val n be \<and> scaled_val n be < 10 powi (x + 1)"
proof -
  let ?V = "scaled_val n be" and ?a = "of_nat (frac_num n be x) :: rat" and ?d = "of_nat (frac_den be x) :: rat"
  have d: "0 < ?d" by simp
  have p: "0 < (10 :: rat) powi x" by (simp add: zero_less_power_int)
  have e: "10 powi (x + 1) = 10 * (10 :: rat) powi x" by (simp add: power_int_add)
  have "leads_at n be x \<longleftrightarrow> ?d \<le> ?a \<and> ?a < 10 * ?d"
    unfolding leads_at_def by (metis of_nat_le_iff of_nat_less_iff of_nat_mult of_nat_numeral)
  also have "\<dots> \<longleftrightarrow> 1 \<le> ?a / ?d \<and> ?a / ?d < 10" using d by (simp add: field_simps)
  also have "\<dots> \<longleftrightarrow> 10 powi x \<le> ?V \<and> ?V < 10 powi (x + 1)" unfolding frac_rat e using p by (simp add: field_simps)
  finally show ?thesis .
qed

lemma decade_unique:
  assumes "10 powi x \<le> q" "q < 10 powi (x + 1)" "10 powi y \<le> q" "q < (10 :: rat) powi (y + 1)"
  shows "x = y"
proof (rule ccontr)
  assume "x \<noteq> y"
  then consider "x + 1 \<le> y" | "y + 1 \<le> x" by linarith
  then show False
  proof cases
    case 1
    then have "(10 :: rat) powi (x + 1) \<le> 10 powi y" by (intro power_int_increasing) auto
    then show ?thesis using assms by linarith
  next
    case 2
    then have "(10 :: rat) powi (y + 1) \<le> 10 powi x" by (intro power_int_increasing) auto
    then show ?thesis using assms by linarith
  qed
qed

lemma dec_exp_decade:
  assumes "0 < num" "0 < den"
  shows "10 powi dec_exp num den \<le> (of_nat num / of_nat den :: rat)" "of_nat num / of_nat den < (10 :: rat) powi (dec_exp num den + 1)"
proof -
  let ?x = "dec_exp num den"
  have d: "0 < (of_nat den :: rat)" using assms(2) by simp
  have e: "10 powi (?x + 1) = 10 * (10 :: rat) powi ?x" by (simp add: power_int_add)
  have "10 powi ?x \<le> (of_nat num / of_nat den :: rat) \<and> of_nat num / of_nat den < (10 :: rat) powi (?x + 1)"
    using dec_exp_bounds[OF assms]
  proof
    assume a: "0 \<le> ?x \<and> 10 ^ nat ?x * den \<le> num \<and> num < 10 ^ nat (?x + 1) * den"
    then have "(of_nat (10 ^ nat ?x * den) :: rat) \<le> of_nat num" "(of_nat num :: rat) < of_nat (10 ^ nat (?x + 1) * den)"
      by (simp_all only: of_nat_le_iff of_nat_less_iff)
    then show ?thesis using a d by (simp add: powi_quot field_simps)
  next
    assume a: "?x < 0 \<and> den \<le> num * 10 ^ nat (- ?x) \<and> num * 10 ^ nat (- ?x) < 10 * den"
    then have "(of_nat den :: rat) \<le> of_nat (num * 10 ^ nat (- ?x))" "(of_nat (num * 10 ^ nat (- ?x)) :: rat) < of_nat (10 * den)"
      by (simp_all only: of_nat_le_iff of_nat_less_iff)
    then show ?thesis unfolding e using a d by (simp add: powi_quot field_simps)
  qed
  then show "10 powi ?x \<le> (of_nat num / of_nat den :: rat)" "of_nat num / of_nat den < (10 :: rat) powi (?x + 1)" by blast+
qed

lemma round_div_rat:
  assumes "(of_nat a / of_nat b :: rat) = of_nat c / of_nat d" "0 < b" "0 < d"
  shows "round_div a b = round_div c d"
proof (rule round_div_cross[OF _ assms(2,3)])
  have "(of_nat (a * d) :: rat) = of_nat (c * b)" using assms by (simp add: field_simps)
  then show "a * d = c * b" by (simp only: of_nat_eq_iff)
qed

lemma strip_dec_digits_pow: "strip_zeros (dec_digits (10 ^ j)) = ''1''"
proof -
  have "(10::nat) ^ j < 10 ^ Suc j" by simp
  then have "dec_digits (10 ^ j) = fixed_digits (1 + j) (1 * 10 ^ j)" using fixed_digits_dec[of j "10 ^ j"] by simp
  then have "strip_zeros (dec_digits (10 ^ j)) = strip_zeros (fixed_digits 1 1)" using strip_fixed_shift[of 1 j 1] by (simp only:)
  also have "\<dots> = ''1''" by code_simp
  finally show ?thesis .
qed

lemma digits_of_sig:
  assumes dg: "digits_of n be p (out, k)" and p: "0 < p" and n: "0 < n" and num: "0 < num" "0 < den"
    and v: "(of_nat num / of_nat den :: rat) = scaled_val n be"
  shows "\<exists>q. sig_digits p num den = (q, k) \<and> strip_zeros out = strip_zeros (dec_digits q) \<and> length out \<le> p"
proof -
  obtain x ds where x: "(out, k) = bump_k x ds" "leads_at n be x"
    "rounded_digits p (round_div (frac_num n be x * 10 ^ (p - 1)) (frac_den be x)) ds" using dg by (auto simp: digits_of_def)
  let ?Q = "round_div (frac_num n be x * 10 ^ (p - 1)) (frac_den be x)"
  have de: "dec_exp num den = x"
    using decade_unique dec_exp_decade[OF num] x(2) unfolding v leads_rat by blast
  let ?s = "int p - 1 - x"
  have Q: "(if 0 \<le> ?s then round_div (num * 10 ^ nat ?s) den else round_div num (den * 10 ^ nat (- ?s))) = ?Q"
  proof -
    have "of_nat (frac_num n be x * 10 ^ (p - 1)) / of_nat (frac_den be x) = scaled_val n be / 10 powi x * 10 ^ (p - 1)"
      unfolding of_nat_mult times_divide_eq_left[symmetric] frac_rat by simp
    also have "\<dots> = scaled_val n be * 10 powi ?s"
    proof -
      have "(10 :: rat) powi ?s = 10 powi (int (p - 1)) / 10 powi x"
        using p by (simp add: power_int_diff of_nat_diff)
      then show ?thesis by (simp add: power_int_of_nat)
    qed
    finally have f: "of_nat (frac_num n be x * 10 ^ (p - 1)) / of_nat (frac_den be x) = (of_nat num / of_nat den :: rat) * 10 powi ?s"
      unfolding v .
    show ?thesis
    proof (cases "0 \<le> ?s")
      case True
      have "round_div (num * 10 ^ nat ?s) den = ?Q"
        by (rule round_div_rat) (unfold f, use True num in \<open>simp_all add: powi_quot\<close>)
      then show ?thesis using True by simp
    next
      case False
      have "round_div num (den * 10 ^ nat (- ?s)) = ?Q"
        by (rule round_div_rat) (unfold f, use False num in \<open>simp_all add: powi_quot\<close>)
      then show ?thesis using False by simp
    qed
  qed
  have sig: "sig_digits p num den = (if ?Q = 10 ^ p then (10 ^ (p - 1), x + 1) else (?Q, x))"
    unfolding sig_digits_def de Let_def Q ..
  have len: "length out \<le> p" "snd ds \<Longrightarrow> ?Q = 10 ^ p \<and> out = ''1'' \<and> k = x + 1"
    "\<not> snd ds \<Longrightarrow> ?Q < 10 ^ p \<and> strip_zeros out = strip_zeros (fixed_digits p ?Q) \<and> k = x"
    using x(1,3) by (auto simp: rounded_digits_def bump_k_def split: if_splits)
  show ?thesis
  proof (cases "snd ds")
    case True
    have "strip_zeros ''1'' = ''1''" by code_simp
    then show ?thesis unfolding sig using len True strip_dec_digits_pow by simp
  next
    case False
    have "10 ^ (p - 1) \<le> ?Q"
      using scaled_bounds[OF num p, unfolded de] Q by simp
    moreover have "Suc (p - 1) = p" using p by simp
    ultimately have "fixed_digits p ?Q = dec_digits ?Q" using fixed_digits_dec[of "p - 1" ?Q] len(3)[OF False] by simp
    then show ?thesis unfolding sig using len(1,3) False by simp
  qed
qed

end
