(* ===== verification/Dtoa_Estimate.thy ===== *)
theory Dtoa_Estimate
  imports Dtoa_Log Dtoa_Value
begin

text \<open>
The estimate of the decimal exponent in \<open>dtoa\<close> of \<open>3rd/lua-cjson/dtoa.c\<close>, as the code computes it:
  the fraction and the exponent of a double (\<open>est_frac\<close>, with the denormal case), the rounding
  errors of the estimate, and the result: \<open>k\<close> is the decimal exponent or, if it is still to be
  checked, one more than it.
\<close>

section \<open>Words of a double\<close>

lemma word_fields:
  assumes "\<not> dbl_sign d"
  shows "unat (word0 d) = dbl_exp d * 1048576 + dbl_frac d div 4294967296" "unat (word1 d) = dbl_frac d mod 4294967296"
proof -
  let ?u = "unat d"
  have lt: "?u < 9223372036854775808" using assms unfolding dbl_fields by simp
  have e: "dbl_exp d = ?u div 4503599627370496" unfolding dbl_fields using lt by simp
  have "?u mod (4294967296 * 1048576) = 4294967296 * (?u div 4294967296 mod 1048576) + ?u mod 4294967296" by (rule mod_mult2_eq)
  then have f: "dbl_frac d = ?u div 4294967296 mod 1048576 * 4294967296 + ?u mod 4294967296" unfolding dbl_fields by simp
  have q: "dbl_frac d div 4294967296 = ?u div 4294967296 mod 1048576" "dbl_frac d mod 4294967296 = ?u mod 4294967296"
    unfolding f by simp_all
  have "?u div 4294967296 = ?u div 4294967296 div 1048576 * 1048576 + ?u div 4294967296 mod 1048576" by simp
  then show "unat (word0 d) = dbl_exp d * 1048576 + dbl_frac d div 4294967296"
    unfolding unat_word0 q e by (simp add: div_mult2_eq[symmetric])
  show "unat (word1 d) = dbl_frac d mod 4294967296" unfolding unat_word1 q ..
qed

lemma lower_exp:
  assumes d: "\<not> dbl_sign d" "dbl_finite d" and j: "j < dbl_exp d" and w: "w = of_nat (j * 1048576)"
  shows "\<not> dbl_sign (add_word0 d (- w))" "dbl_finite (add_word0 d (- w))" "dbl_val (add_word0 d (- w)) = dbl_val d / 2 ^ j"
proof -
  let ?r = "add_word0 d (- w)"
  have e: "dbl_exp d < 2047" using d(2) by (simp add: dbl_finite_def)
  have f: "dbl_frac d < 4503599627370496" unfolding dbl_fields by simp
  have f20: "dbl_frac d div 4294967296 < 1048576" using f by (simp add: less_mult_imp_div_less)
  have uw: "unat w = j * 1048576" unfolding w unsigned_of_nat take_bit_eq_mod using j e by simp
  have "w \<le> word0 d" unfolding word_le_nat_alt uw word_fields(1)[OF d(1)] using j by simp
  then have u: "unat (word0 d + - w) = (dbl_exp d - j) * 1048576 + dbl_frac d div 4294967296"
    unfolding add_uminus_conv_diff unat_sub_if' using j uw word_fields(1)[OF d(1)] by (simp add: diff_mult_distrib word_le_nat_alt)
  show s: "\<not> dbl_sign ?r" unfolding add_word0_def mk_double_fields u using f20 e by linarith
  have x: "dbl_exp ?r = dbl_exp d - j" unfolding add_word0_def mk_double_fields u using f20 e by simp
  have y: "dbl_frac ?r = dbl_frac d" unfolding add_word0_def mk_double_fields u word_fields(2)[OF d(1)] using f20 by simp
  show "dbl_finite ?r" unfolding dbl_finite_def x using e by simp
  have m: "dbl_mant ?r = dbl_mant d" unfolding dbl_mant_def x y using j by simp
  have "max 1 (dbl_exp d - j) = dbl_exp d - j" "max 1 (dbl_exp d) = dbl_exp d" using j by simp_all
  then have "dbl_val ?r = of_nat (dbl_mant d) * 2 powi (int (dbl_exp d - j) - 1075)"
    "dbl_val d = of_nat (dbl_mant d) * 2 powi (int (dbl_exp d) - 1075)"
    using fields_val[OF x m s] fields_val[OF refl refl d(1)] by simp_all
  moreover have "(2 :: rat) powi (int (dbl_exp d - j) - 1075) = 2 powi (int (dbl_exp d) - 1075) / 2 ^ j"
  proof -
    have "(2 :: rat) powi (int (dbl_exp d) - 1075 - int j) = 2 powi (int (dbl_exp d) - 1075) / 2 powi int j" by (rule power_int_diff) simp
    then show ?thesis using j by (simp add: of_nat_diff algebra_simps)
  qed
  ultimately show "dbl_val ?r = dbl_val d / 2 ^ j" by simp
qed

lemma val_exponent:
  assumes d: "dbl_finite d" and v: "2 powi e \<le> dbl_val d" "dbl_val d < 2 powi (e + 1)" and e: "- 1022 \<le> e"
  shows "\<not> dbl_sign d \<and> int (dbl_exp d) = e + 1023"
proof -
  have p: "(0 :: rat) < 2 powi e" by (simp add: zero_less_power_int)
  have "0 \<le> dbl_abs d" by (simp add: dbl_abs_def)
  then have s: "\<not> dbl_sign d" using v(1) p by (cases "dbl_sign d") (simp_all add: dbl_val_def)
  have m: "(of_nat (dbl_mant d) :: rat) < 2 powi 53" using mant_bounds(1)[of d] by simp
  let ?E = "int (max 1 (dbl_exp d))"
  have val: "dbl_val d = of_nat (dbl_mant d) * 2 powi (?E - 1075)" by (rule fields_val[OF refl refl s])
  have pe: "(0 :: rat) < 2 powi (?E - 1075)" by (simp add: zero_less_power_int)
  have "(2 :: rat) powi e < 2 powi 53 * 2 powi (?E - 1075)" using v(1) mult_strict_right_mono[OF m pe] unfolding val by (rule le_less_trans)
  also have "\<dots> = 2 powi (53 + (?E - 1075))" by (rule power_int_add[symmetric]) simp
  finally have lo: "e < 53 + (?E - 1075)" by (rule powi_less_exp[rotated]) simp
  show ?thesis
  proof (cases "1 \<le> dbl_exp d")
    case True
    have "2 powi 52 \<le> (of_nat (dbl_mant d) :: rat)" using mant_bounds(2)[of d] True by simp
    then have "2 powi 52 * 2 powi (?E - 1075) \<le> dbl_val d" unfolding val using pe by (intro mult_right_mono) auto
    moreover have "(2 :: rat) powi (52 + (?E - 1075)) = 2 powi 52 * 2 powi (?E - 1075)" by (rule power_int_add) simp
    ultimately have "(2 :: rat) powi (52 + (?E - 1075)) < 2 powi (e + 1)" using v(2) by linarith
    then have "52 + (?E - 1075) < e + 1" by (rule powi_less_exp[rotated]) simp
    then show ?thesis using lo s True by simp
  next
    case False
    then have "dbl_mant d < 4503599627370496" "?E = 1" by (simp_all add: dbl_mant_def dbl_fields)
    then have "(of_nat (dbl_mant d) :: rat) < 2 powi 52" by simp
    then have "dbl_val d < 2 powi 52 * 2 powi (?E - 1075)" unfolding val using pe by (rule mult_strict_right_mono)
    also have "\<dots> = 2 powi (52 + (?E - 1075))" by (rule power_int_add[symmetric]) simp
    finally have "(2 :: rat) powi e < 2 powi (52 + (?E - 1075))" using v(1) by linarith
    then have "e < 52 + (?E - 1075)" by (rule powi_less_exp[rotated]) simp
    then show ?thesis using e \<open>?E = 1\<close> by simp
  qed
qed


section \<open>The fraction and the exponent\<close>

definition frac_part :: "double \<Rightarrow> rat \<Rightarrow> int \<Rightarrow> bool" where
  \<comment> \<open>\<open>d2\<close> is the fraction \<open>x\<close>, cut off after 31 bits if the number is denormal\<close>
  "frac_part d2 x i \<longleftrightarrow> dbl_finite d2 \<and> (\<exists>m. dbl_val d2 = of_int m / 2 ^ 52 \<and> 4503599627370496 \<le> m \<and> m < 9007199254740992)
     \<and> dbl_val d2 \<le> x \<and> x \<le> dbl_val d2 + 1 / 2 ^ 31 \<and> 1 \<le> x \<and> x < 2 \<and> - 1074 \<le> i \<and> i \<le> 1023"

lemma bit_length_unique:
  assumes "2 ^ a \<le> 2 * (m :: nat)" "m < 2 ^ a" "2 ^ b \<le> 2 * m" "m < 2 ^ b"
  shows "a = b"
proof -
  have p: "(2::nat) ^ a < 2 ^ (b + 1)" "(2::nat) ^ b < 2 ^ (a + 1)" using assms by simp_all
  have "a < b + 1" "b < a + 1" by (rule power_less_imp_less_exp[OF _ p(1)], simp, rule power_less_imp_less_exp[OF _ p(2)], simp)
  then show ?thesis by simp
qed

lemma est_frac_normal:
  assumes u: "\<not> dbl_sign u" "dbl_finite u" "1 \<le> dbl_exp u"
  shows "\<exists>d2. est_frac U u be bbits = Inr (d2, int (dbl_exp u) - 1023, False) \<and> frac_part d2 (of_nat (dbl_mant u) / 2 ^ 52) (int (dbl_exp u) - 1023)
    \<and> dbl_val u = of_nat (dbl_mant u) / 2 ^ 52 * 2 powi (int (dbl_exp u) - 1023)"
proof -
  have e: "dbl_exp u < 2047" using u(2) by (simp add: dbl_finite_def)
  have f: "dbl_frac u < 4503599627370496" unfolding dbl_fields by simp
  have f20: "dbl_frac u div 4294967296 < 1048576" using f by (simp add: less_mult_imp_div_less)
  have masks: "Frac_mask = mask 20" "drop_bit Exp_shift Exp_mask = mask 11"
    by (simp_all add: mask_eq_exp_minus_1 Frac_mask_def Exp_mask_def Exp_shift_def)
  have ex: "unat (drop_bit Exp_shift (word0 u) AND drop_bit Exp_shift Exp_mask) = dbl_exp u"
    unfolding masks and_low unat_drop_bit_eq word_fields(1)[OF u(1)] using e f20
    by (simp add: drop_bit_eq_div Exp_shift_def)
  have fr: "unat (word0 u AND Frac_mask) = dbl_frac u div 4294967296"
    unfolding masks and_low word_fields(1)[OF u(1)] using f20 by simp
  let ?w = "(word0 u AND Frac_mask) OR Exp_1"
  have "Exp_1 = push_bit 20 1023" by (simp add: Exp_1_def push_bit_eq_mult)
  then have w: "unat ?w = dbl_frac u div 4294967296 + 1023 * 1048576"
    using unat_push_or[of "word0 u AND Frac_mask" 20 1023] fr f20 by (simp add: or.commute)
  let ?d = "mk_double ?w (word1 u)"
  have d: "\<not> dbl_sign ?d" "dbl_exp ?d = 1023" "dbl_frac ?d = dbl_frac u"
  proof -
    have "(dbl_frac u div 4294967296 + 1023 * 1048576) mod 1048576 = dbl_frac u div 4294967296" using f20 by (simp only: mod_mult_self1 mod_less)
    then show "dbl_frac ?d = dbl_frac u" unfolding mk_double_fields w word_fields(2)[OF u(1)] by simp
    show "\<not> dbl_sign ?d" "dbl_exp ?d = 1023" unfolding mk_double_fields w using f20 by simp_all
  qed
  have m: "dbl_mant ?d = dbl_mant u" using d u(3) by (simp add: dbl_mant_def)
  have v: "dbl_val ?d = of_nat (dbl_mant u) / 2 ^ 52" using fields_val[OF d(2) m d(1)] by (simp add: power_int_minus_divide)
  have mb: "4503599627370496 \<le> dbl_mant u" "dbl_mant u < 9007199254740992" using mant_bounds[of u] u(3) by simp_all
  then have mr: "(4503599627370496 :: rat) \<le> of_nat (dbl_mant u)" "of_nat (dbl_mant u) < (9007199254740992 :: rat)"
    using of_nat_le_iff[of 4503599627370496 "dbl_mant u", where ?'a = rat] of_nat_less_iff[of "dbl_mant u" 9007199254740992, where ?'a = rat]
    by (simp_all only: of_nat_numeral)
  have "frac_part ?d (of_nat (dbl_mant u) / 2 ^ 52) (int (dbl_exp u) - 1023)"
    unfolding frac_part_def v using d(2) e u(3) mb mr
    by (auto simp: dbl_finite_def intro!: exI[of _ "int (dbl_mant u)"])
  moreover have "dbl_val u = of_nat (dbl_mant u) / 2 ^ 52 * 2 powi (int (dbl_exp u) - 1023)"
  proof -
    have "(2 :: rat) powi (int (dbl_exp u) - 1023 - 52) = 2 powi (int (dbl_exp u) - 1023) / 2 powi 52" by (rule power_int_diff) simp
    moreover have "max 1 (dbl_exp u) = dbl_exp u" "int (dbl_exp u) - 1023 - 52 = int (dbl_exp u) - 1075" using u(3) by simp_all
    ultimately show ?thesis using fields_val[OF refl refl u(1)] by simp
  qed
  moreover have "est_frac U u be bbits = Inr (?d, int (dbl_exp u) - 1023, False)"
    unfolding est_frac_def Let_def ex using u(3) by (simp add: Bias_def)
  ultimately show ?thesis by blast
qed

lemma top_bits:
  assumes D: "(D :: nat) < 2 ^ I" "2 ^ I \<le> 2 * D" "I \<le> 52" and w: "unat w0 = D div 4294967296" "unat w1 = D mod 4294967296"
  shows "\<exists>x. (if 32 < int I then andthen (shl32 w0 (64 - int I)) (\<lambda>hi. andthen (shr32 w1 (int I - 32)) (\<lambda>lo. Inr (hi OR lo)))
      else shl32 w1 (32 - int I)) = Inr x \<and> unat x = D * 4294967296 div 2 ^ I \<and> 2147483648 \<le> unat x \<and> unat x < 4294967296"
proof -
  have "0 < I" using D by (cases I) auto
  have b: "2147483648 \<le> D * 4294967296 div 2 ^ I" "D * 4294967296 div 2 ^ I < 4294967296"
    using D by (simp_all add: less_eq_div_iff_mult_less_eq div_less_iff_less_mult)
  show ?thesis
  proof (cases "32 < I")
    case True
    let ?j = "I - 32" and ?x = "push_bit (64 - I) w0 OR drop_bit (I - 32) w1"
    have p: "(2::nat) ^ (64 - I) * 2 ^ ?j = 4294967296" "(4294967296 :: nat) * 2 ^ ?j = 2 ^ I"
    proof -
      show "(2::nat) ^ (64 - I) * 2 ^ ?j = 4294967296" unfolding power_add[symmetric] using True D(3) by simp
      have "(2::nat) ^ 32 * 2 ^ ?j = 2 ^ I" unfolding power_add[symmetric] using True by simp
      then show "(4294967296 :: nat) * 2 ^ ?j = 2 ^ I" by simp
    qed
    have lo: "unat (drop_bit ?j w1) = D mod 4294967296 div 2 ^ ?j" unfolding unat_drop_bit_eq w(2) by (simp add: drop_bit_eq_div)
    have "D mod 4294967296 < 2 ^ (64 - I) * 2 ^ ?j" unfolding p by simp
    then have lo': "unat (drop_bit ?j w1) < 2 ^ (64 - I)" unfolding lo by (simp only: div_less_iff_less_mult zero_less_power zero_less_numeral)
    have "D div 4294967296 < 2 ^ ?j" using D(1) unfolding p(2)[symmetric] by (simp add: less_mult_imp_div_less mult.commute)
    then have "D div 4294967296 * 2 ^ (64 - I) < 2 ^ ?j * 2 ^ (64 - I)" by simp
    then have hi: "D div 4294967296 * 2 ^ (64 - I) < 4294967296" using p(1) by (simp only: mult.commute)
    have "unat ?x = D div 4294967296 * 2 ^ (64 - I) + D mod 4294967296 div 2 ^ ?j"
      using unat_push_or[OF lo', of w0] hi True w(1) lo by simp
    also have "\<dots> = D * 4294967296 div 2 ^ I"
    proof -
      have "D * 4294967296 div 2 ^ I = D div 2 ^ ?j" unfolding p(2)[symmetric] by simp
      moreover have "D = D div 4294967296 * 2 ^ (64 - I) * 2 ^ ?j + D mod 4294967296" unfolding mult.assoc p by simp
      then have "D div 2 ^ ?j = (D div 4294967296 * 2 ^ (64 - I) * 2 ^ ?j + D mod 4294967296) div 2 ^ ?j" by (rule arg_cong)
      moreover have "\<dots> = D div 4294967296 * 2 ^ (64 - I) + D mod 4294967296 div 2 ^ ?j" by simp
      ultimately show ?thesis by (simp only:)
    qed
    finally have x: "unat ?x = D * 4294967296 div 2 ^ I" .
    have "nat (64 - int I) = 64 - I" "nat (int I - 32) = I - 32" by simp_all
    then show ?thesis using x b True D(3) by (intro exI[of _ ?x]) (simp add: shl32_def shr32_def andthen_def)
  next
    case False
    have d: "D < 4294967296" using D(1) power_increasing[of I 32 "2::nat"] False by simp
    have p: "(2::nat) ^ (32 - I) * 2 ^ I = 4294967296" unfolding power_add[symmetric] using False by simp
    have "D * 4294967296 div 2 ^ I = D * 2 ^ (32 - I)" unfolding p[symmetric] by simp
    moreover have "unat (push_bit (32 - I) w1) = D * 2 ^ (32 - I)"
      using unat_push_or[of 0 "32 - I" w1] b(2) calculation d w(2) by simp
    moreover have "nat (32 - int I) = 32 - I" by simp
    ultimately show ?thesis using b False \<open>0 < I\<close> by (intro exI[of _ "push_bit (32 - I) w1"]) (simp add: shl32_def)
  qed
qed

lemma est_frac_denormal:
  assumes U: "fpu_ieee U" and u: "\<not> dbl_sign u" "dbl_exp u = 0" and I: "dbl_mant u < 2 ^ I" "2 ^ I \<le> 2 * dbl_mant u" "int I = bbits + be + 1074"
  shows "\<exists>d2. est_frac U u be bbits = Inr (d2, int I - 1075, True) \<and> frac_part d2 (of_nat (dbl_mant u) / 2 ^ (I - 1)) (int I - 1075)
    \<and> dbl_val u = of_nat (dbl_mant u) / 2 ^ (I - 1) * 2 powi (int I - 1075)"
proof -
  let ?D = "dbl_mant u"
  have f: "?D < 2 ^ 52" "?D = dbl_frac u" using u(2) by (simp_all add: dbl_mant_def dbl_fields)
  have "0 < I" using I by (cases I) auto
  have "(2::nat) ^ I < 2 ^ 53" using I(2) f(1) by simp
  then have I52: "I \<le> 52" using power_less_imp_less_exp[of "2::nat" I 53] by simp
  obtain x where x: "(if 32 < int I then andthen (shl32 (word0 u) (64 - int I)) (\<lambda>hi. andthen (shr32 (word1 u) (int I - 32)) (\<lambda>lo. Inr (hi OR lo)))
      else shl32 (word1 u) (32 - int I)) = Inr x" "unat x = ?D * 4294967296 div 2 ^ I" "2147483648 \<le> unat x" "unat x < 4294967296"
    using top_bits[OF I(1,2) I52, of "word0 u" "word1 u"] word_fields[OF u(1)] u(2) f(2) by (auto simp del: of_nat_less_iff)
  let ?F = "fp_of_ulong U x"
  have F: "dbl_finite ?F" "dbl_val ?F = of_nat (unat x)" using U by (simp_all add: fpu_ieee_def)
  have xr: "(2147483648 :: rat) \<le> of_nat (unat x)" "of_nat (unat x) < (4294967296 :: rat)"
    using of_nat_le_iff[of 2147483648 "unat x", where ?'a = rat] of_nat_less_iff[of "unat x" 4294967296, where ?'a = rat] x(3,4)
    by (simp_all only: of_nat_numeral)
  have ex: "\<not> dbl_sign ?F \<and> int (dbl_exp ?F) = 31 + 1023"
    by (rule val_exponent[OF F(1)]) (use xr F(2) in simp_all)
  let ?d = "add_word0 ?F (- (31 * Exp_msk1))"
  have w: "31 * Exp_msk1 = of_nat (31 * 1048576)" by (simp add: Exp_msk1_def)
  have "31 < dbl_exp ?F" using ex by simp
  then have d: "dbl_finite ?d" "dbl_val ?d = of_nat (unat x) / 2 ^ 31"
    using lower_exp[OF _ F(1) _ w] ex F(2) by simp_all
  have est: "est_frac U u be bbits = Inr (?d, int I - 1075, True)"
  proof -
    have "unat (drop_bit Exp_shift (word0 u) AND drop_bit Exp_shift Exp_mask) = 0"
    proof -
      have "drop_bit Exp_shift Exp_mask = mask 11" by (simp add: mask_eq_exp_minus_1 Exp_mask_def Exp_shift_def)
      moreover have "unat (word0 u) < 1048576" using word_fields(1)[OF u(1)] u(2) f by (simp add: less_mult_imp_div_less)
      ultimately show ?thesis unfolding \<open>drop_bit Exp_shift Exp_mask = mask 11\<close> and_low unat_drop_bit_eq by (simp add: drop_bit_eq_div Exp_shift_def)
    qed
    moreover have "bbits + be + (Bias + (int P_bits - 1) - 1) = int I" using I(3) by (simp add: Bias_def P_bits_def)
    moreover have "int I - (Bias + (int P_bits - 1) - 1 + 1) = int I - 1075" by (simp add: Bias_def P_bits_def)
    ultimately show ?thesis unfolding est_frac_def Let_def by (simp only: x(1) andthen_simps) simp
  qed
  have p: "(0 :: rat) < 2 ^ (I - 1)" "(2 :: rat) ^ I = 2 * 2 ^ (I - 1)" using \<open>0 < I\<close> by (simp_all flip: power_Suc)
  have "unat x * 2 ^ I \<le> ?D * 4294967296" "?D * 4294967296 \<le> (unat x + 1) * 2 ^ I"
    unfolding x(2) using dividend_less_div_times[of "2 ^ I" "?D * 4294967296"] by (simp_all add: add_mult_distrib)
  then have "(of_nat (unat x * 2 ^ I) :: rat) \<le> of_nat (?D * 4294967296)" "(of_nat (?D * 4294967296) :: rat) \<le> of_nat ((unat x + 1) * 2 ^ I)"
    by (simp_all only: of_nat_le_iff)
  then have cut: "of_nat (unat x) / 2 ^ 31 \<le> (of_nat ?D / 2 ^ (I - 1) :: rat)" "(of_nat ?D / 2 ^ (I - 1) :: rat) \<le> of_nat (unat x) / 2 ^ 31 + 1 / 2 ^ 31"
    using p by (simp_all add: field_simps)
  have "(of_nat (2 ^ I) :: rat) \<le> of_nat (2 * ?D)" "(of_nat ?D :: rat) < of_nat (2 ^ I)" using I by (simp_all only: of_nat_le_iff of_nat_less_iff)
  then have one: "1 \<le> (of_nat ?D / 2 ^ (I - 1) :: rat)" "(of_nat ?D / 2 ^ (I - 1) :: rat) < 2" using p by (simp_all add: field_simps)
  have grid: "2147483648 \<le> X \<Longrightarrow> X < 4294967296 \<Longrightarrow> \<exists>m. of_nat X / 2 ^ 31 = (of_int m / 2 ^ 52 :: rat) \<and> 4503599627370496 \<le> m \<and> m < 9007199254740992" for X :: nat
    by (rule exI[of _ "int X * 2 ^ 21"]) simp
  then have "frac_part ?d (of_nat ?D / 2 ^ (I - 1)) (int I - 1075)"
    unfolding frac_part_def d(2) using cut one d(1) I52 \<open>0 < I\<close> grid[OF x(3,4)] by simp
  moreover have "dbl_val u = of_nat ?D / 2 ^ (I - 1) * 2 powi (int I - 1075)"
  proof -
    define T where "T = (2 :: rat) powi (- 1074)"
    have "(2 :: rat) powi (int (I - 1) + - 1074) = 2 powi int (I - 1) * T" unfolding T_def by (rule power_int_add) simp
    moreover have "int (I - 1) + - 1074 = int I - 1075" "int (max 1 0) - 1075 = - 1074" using \<open>0 < I\<close> by simp_all
    ultimately have "2 powi (int I - 1075) = 2 ^ (I - 1) * T" by (simp only: power_int_of_nat)
    moreover have "dbl_val u = of_nat ?D * T"
      using fields_val[OF u(2) refl u(1)] unfolding \<open>int (max 1 0) - 1075 = - 1074\<close> T_def .
    ultimately show ?thesis using p(1) by simp
  qed
  ultimately show ?thesis using est by blast
qed

section \<open>Integers and doubles\<close>

lemma dbl_trunc_floor: "dbl_trunc d = (if dbl_sign d then - \<lfloor>dbl_abs d\<rfloor> else \<lfloor>dbl_abs d\<rfloor>)"
proof -
  let ?m = "dbl_mant d" and ?E = "max 1 (dbl_exp d)"
  have "int (dbl_abs_trunc d) = \<lfloor>dbl_abs d\<rfloor>"
  proof (cases "1075 \<le> ?E")
    case True
    define T where "T = (2 :: rat) ^ 1075"
    have "(2 :: rat) ^ ?E = 2 ^ (?E - 1075) * T" unfolding T_def power_add[symmetric] using True by simp
    moreover have "0 < T" unfolding T_def by (rule zero_less_power) simp
    ultimately have "dbl_abs d = of_int (int (?m * 2 ^ (?E - 1075)))" unfolding dbl_abs_def T_def[symmetric] by simp
    then show ?thesis using True by (simp only: floor_of_int) (simp add: dbl_abs_trunc_def Let_def)
  next
    case False
    define T where "T = (2 :: rat) ^ 1075"
    have "T = 2 ^ ?E * 2 ^ (1075 - ?E)" unfolding T_def power_add[symmetric] using False by simp
    then have "dbl_abs d = of_int (int ?m) / of_int (int (2 ^ (1075 - ?E)))" unfolding dbl_abs_def T_def[symmetric] by simp
    then have "\<lfloor>dbl_abs d\<rfloor> = int ?m div int (2 ^ (1075 - ?E))" by (simp only: floor_divide_of_int_eq)
    then show ?thesis using False by (simp add: dbl_abs_trunc_def Let_def zdiv_int)
  qed
  then show ?thesis by (simp add: dbl_trunc_def)
qed

lemma dbl_to_int_val:
  assumes "dbl_finite d" "\<bar>dbl_val d\<bar> < 2147483648"
  shows "dbl_to_int d = Inr (if dbl_val d < 0 then - \<lfloor>- dbl_val d\<rfloor> else \<lfloor>dbl_val d\<rfloor>)"
proof -
  have a: "0 \<le> dbl_abs d" by (simp add: dbl_abs_def)
  have t: "dbl_trunc d = (if dbl_val d < 0 then - \<lfloor>- dbl_val d\<rfloor> else \<lfloor>dbl_val d\<rfloor>)"
    unfolding dbl_trunc_floor using a by (auto simp: dbl_val_def)
  have "\<lfloor>dbl_abs d\<rfloor> < 2147483648" "0 \<le> \<lfloor>dbl_abs d\<rfloor>" using assms(2) a by (auto simp: dbl_val_def floor_less_iff split: if_splits)
  then have "int_ok (dbl_trunc d)" unfolding dbl_trunc_floor int_ok_iff by (cases "dbl_sign d"; simp only: if_True if_False; linarith)
  then show ?thesis using assms(1) t by (simp add: dbl_to_int_def)
qed

lemma dbl_of_int_val:
  assumes "fpu_ieee U" "\<bar>i\<bar> < 4294967296"
  shows "dbl_finite (dbl_of_int U i)" "dbl_val (dbl_of_int U i) = of_int i"
proof -
  have n: "dbl_val (fp_of_ulong U (word_of_int j)) = of_int j" if "0 \<le> j" "j < 4294967296" for j
  proof -
    have "unat (word_of_int j :: limb) = nat j" using that by (simp add: unat_eq_nat_uint uint_word_of_int)
    then show ?thesis using fpu_ulong[OF assms(1), of "word_of_int j"] that(1) by (metis of_nat_nat)
  qed
  show "dbl_finite (dbl_of_int U i)" "dbl_val (dbl_of_int U i) = of_int i"
    using fpu_ulong[OF assms(1), THEN conjunct1] assms(2) n[of i] n[of "- i"] by (simp_all add: dbl_of_int_def)
qed

section \<open>The rounding errors of the estimate\<close>

lemma op_rounded:
  assumes "fpu_ieee U" "dbl_finite a" "dbl_finite b"
  shows "\<bar>dbl_val a + dbl_val b\<bar> < 2 powi (1023 :: int) \<Longrightarrow> rounded (dbl_val a + dbl_val b) (fp_add U a b)"
    "\<bar>dbl_val a - dbl_val b\<bar> < 2 powi (1023 :: int) \<Longrightarrow> rounded (dbl_val a - dbl_val b) (fp_sub U a b)"
    "\<bar>dbl_val a * dbl_val b\<bar> < 2 powi (1023 :: int) \<Longrightarrow> rounded (dbl_val a * dbl_val b) (fp_mul U a b)"
    "dbl_val b \<noteq> 0 \<Longrightarrow> \<bar>dbl_val a / dbl_val b\<bar> < 2 powi (1023 :: int) \<Longrightarrow> rounded (dbl_val a / dbl_val b) (fp_div U a b)"
  using assms in_range_small unfolding fpu_ieee_def by blast+

lemma small_range: "\<bar>q\<bar> < 4294967296 \<Longrightarrow> \<bar>q\<bar> < (2 :: rat) powi (1023 :: int)"
  by (erule less_trans) simp

lemma rounded_finite: "rounded q d \<Longrightarrow> dbl_finite d" by (simp add: rounded_def)

lemma log_estimate_error:
  assumes U: "fpu_ieee U" and d: "frac_part d2 x i"
  shows "dbl_finite (log_estimate U d2 i) \<and> \<bar>dbl_val (log_estimate U d2 i) - log_line x i\<bar> \<le> 1 / 2 ^ 31"
proof -
  obtain m where m: "dbl_val d2 = of_int m / 2 ^ 52" "4503599627370496 \<le> m" "m < 9007199254740992" and d2: "dbl_finite d2"
    and x: "dbl_val d2 \<le> x" "x \<le> dbl_val d2 + 1 / 2 ^ 31" and i: "- 1074 \<le> i" "i \<le> 1023"
    using d by (auto simp: frac_part_def)
  let ?v = "dbl_val d2"
  have mr: "(4503599627370496 :: rat) \<le> of_int m" "of_int m < (9007199254740992 :: rat)"
    using of_int_le_iff[of 4503599627370496 m, where ?'a = rat] of_int_less_iff[of m 9007199254740992, where ?'a = rat] m(2,3)
    by (simp_all only: of_int_numeral)
  then have v: "1 \<le> ?v" "?v < 2" unfolding m(1) by simp_all
  let ?x0 = "fp_sub U d2 dbl_1_5"
  have r0: "rounded (?v - 3 / 2) ?x0"
    using op_rounded(2)[OF U d2 log_consts(7)] v log_consts(8) by (simp add: small_range)
  have "?v - 3 / 2 = of_int (m - 6755399441055744) * 2 powi (- 52)" unfolding m(1) by (simp add: power_int_minus_divide field_simps)
  then have x0: "dbl_finite ?x0" "dbl_val ?x0 = ?v - 3 / 2"
    using rounded_dyadic[OF r0 _ _ , of "m - 6755399441055744" "- 52"] m(2,3) rounded_finite[OF r0] by simp_all
  let ?t1 = "fp_mul U ?x0 dbl_slope" and ?q1 = "(?v - 3 / 2) * (5215702578316129 / 2 ^ 54)"
  have "\<bar>?v - 3 / 2\<bar> \<le> 1 / 2" using v by linarith
  then have q1: "\<bar>?q1\<bar> \<le> 1448 / 10000" unfolding abs_mult by simp
  have r1: "rounded ?q1 ?t1"
    using op_rounded(3)[OF U x0(1) log_consts(1)] q1 unfolding x0(2) log_consts(2) by (simp add: small_range)
  have e1: "\<bar>dbl_val ?t1 - ?q1\<bar> \<le> 1 / 2 ^ 56"
    using rounded_error[OF r1, of "- 55"] q1 by (simp add: power_int_minus_divide)
  let ?t2 = "fp_add U ?t1 dbl_const" and ?c2 = "6344356229335219 / 2 ^ 55 :: rat"
  have "0 \<le> ?c2" "?c2 \<le> 1 / 5" "1 / 2 ^ 56 \<le> (1 / 10 :: rat)" by simp_all
  then have q2: "\<bar>dbl_val ?t1 + ?c2\<bar> \<le> 1 / 2" using e1 q1 by linarith
  have r2: "rounded (dbl_val ?t1 + ?c2) ?t2"
    using op_rounded(1)[OF U rounded_finite[OF r1] log_consts(3)] q2 unfolding log_consts(4) by (simp add: small_range)
  have e2: "\<bar>dbl_val ?t2 - (dbl_val ?t1 + ?c2)\<bar> \<le> 1 / 2 ^ 55"
    using rounded_error[OF r2, of "- 54"] q2 by (simp add: power_int_minus_divide)
  let ?i = "dbl_of_int U i" and ?c3 = "5422874305198587 / 2 ^ 54 :: rat"
  have di: "dbl_finite ?i" "dbl_val ?i = of_int i" using dbl_of_int_val[OF U, of i] i by simp_all
  let ?t3 = "fp_mul U ?i dbl_log2"
  have "\<bar>of_int i\<bar> \<le> (1074 :: rat)" using i by (simp add: abs_le_iff)
  then have q3: "\<bar>of_int i * ?c3\<bar> \<le> 324" unfolding abs_mult by simp
  have r3: "rounded (of_int i * ?c3) ?t3"
    using op_rounded(3)[OF U di(1) log_consts(5)] q3 unfolding di(2) log_consts(6) by (simp add: small_range)
  have e3: "\<bar>dbl_val ?t3 - of_int i * ?c3\<bar> \<le> 1 / 2 ^ 45"
    using rounded_error[OF r3, of "- 44"] q3 by (simp add: power_int_minus_divide)
  have q4: "\<bar>dbl_val ?t2 + dbl_val ?t3\<bar> \<le> 400"
  proof -
    have "1 / 2 ^ 55 \<le> (1 :: rat)" "1 / 2 ^ 45 \<le> (1 :: rat)" by simp_all
    then show ?thesis using q2 e2 q3 e3 by linarith
  qed
  let ?ds = "fp_add U ?t2 ?t3"
  have r4: "rounded (dbl_val ?t2 + dbl_val ?t3) ?ds"
    using op_rounded(1)[OF U rounded_finite[OF r2] rounded_finite[OF r3]] q4 by (simp add: small_range)
  have e4: "\<bar>dbl_val ?ds - (dbl_val ?t2 + dbl_val ?t3)\<bar> \<le> 1 / 2 ^ 45"
    using rounded_error[OF r4, of "- 44"] q4 by (simp add: power_int_minus_divide)
  have "\<bar>log_line x i - (?q1 + ?c2 + of_int i * ?c3)\<bar> \<le> 3 / 10 / 2 ^ 31"
  proof -
    have "log_line x i - (?q1 + ?c2 + of_int i * ?c3) = (x - ?v) * (5215702578316129 / 2 ^ 54)"
    proof -
      have "(a - h) * C + c + j - ((v - h) * C + c + j) = (a - v) * C" for a v h C c j :: rat by (simp add: algebra_simps)
      then show ?thesis unfolding log_line_def .
    qed
    moreover have "\<bar>x - ?v\<bar> \<le> 1 / 2 ^ 31" using x by linarith
    then have "\<bar>(x - ?v) * (5215702578316129 / 2 ^ 54)\<bar> \<le> 3 / 10 / 2 ^ 31" unfolding abs_mult by simp
    ultimately show ?thesis by (simp only:)
  qed
  note e0 = this
  have "\<bar>dbl_val ?ds - log_line x i\<bar> \<le> 1 / 2 ^ 31"
  proof -
    have "3 / 10 / 2 ^ 31 + 1 / 2 ^ 56 + 1 / 2 ^ 55 + 1 / 2 ^ 45 + 1 / 2 ^ 45 \<le> (1 / 2 ^ 31 :: rat)" by simp
    moreover have "\<bar>a - L\<bar> \<le> E" if "\<bar>L - (q + c + j)\<bar> \<le> e0" "\<bar>t1 - q\<bar> \<le> e1" "\<bar>t2 - (t1 + c)\<bar> \<le> e2" "\<bar>t3 - j\<bar> \<le> e3" "\<bar>a - (t2 + t3)\<bar> \<le> e4"
      "e0 + e1 + e2 + e3 + e4 \<le> E" for a L E q c j t1 t2 t3 e0 e1 e2 e3 e4 :: rat
      using that by linarith
    ultimately show ?thesis using e0 e1 e2 e3 e4 by blast
  qed
  then show ?thesis using rounded_finite[OF r4] unfolding log_estimate_def by blast
qed

section \<open>The estimate\<close>

lemma est_frac_spec:
  assumes U: "fpu_ieee U" and u: "\<not> dbl_sign u" "dbl_finite u" and n: "n * 2 ^ z = dbl_mant u" "2 ^ b \<le> 2 * n" "n < 2 ^ b"
    and be: "be = int (max 1 (dbl_exp u)) - 1075 + int z"
  shows "\<exists>d2 x. est_frac U u be (int b) = Inr (d2, int b + be - 1, dbl_exp u = 0) \<and> frac_part d2 x (int b + be - 1) \<and> dbl_val u = x * 2 powi (int b + be - 1)"
proof -
  have len: "2 ^ (b + z) \<le> 2 * dbl_mant u" "dbl_mant u < 2 ^ (b + z)"
    using mult_le_mono1[OF n(2), of "2 ^ z"] mult_less_mono1[OF n(3), of "2 ^ z"] n(1) by (simp_all add: power_add mult.assoc)
  show ?thesis
  proof (cases "dbl_exp u = 0")
    case True
    have "int (b + z) - 1075 = int b + be - 1" using be True by simp
    then show ?thesis using est_frac_denormal[OF U u(1) True len(2,1), of "int b" be] be True by fastforce
  next
    case False
    have "b + z = 53" by (rule bit_length_unique[OF len]) (use mant_bounds[of u] False in simp_all)
    then have "int (dbl_exp u) - 1023 = int b + be - 1" using be False by simp
    then show ?thesis using est_frac_normal[OF u, of U be "int b"] False by fastforce
  qed
qed

lemma floor_of_trunc:
  assumes U: "fpu_ieee U" and d: "dbl_finite d" "\<bar>dbl_val d\<bar> < 2147483000"
  shows "\<exists>k. dbl_to_int d = Inr k \<and> (if dbl_lt d 0 \<and> \<not> dbl_eq d (dbl_of_int U k) then k - 1 else k) = \<lfloor>dbl_val d\<rfloor>"
proof -
  have z: "dbl_finite 0" "dbl_val 0 = 0" by (simp_all add: dbl_finite_def dbl_val_def dbl_abs_def dbl_mant_def dbl_exp_def dbl_frac_def)
  let ?k = "if dbl_val d < 0 then - \<lfloor>- dbl_val d\<rfloor> else \<lfloor>dbl_val d\<rfloor>"
  have t: "dbl_to_int d = Inr ?k" by (rule dbl_to_int_val) (use d in linarith)+
  have f: "\<lfloor>- dbl_val d\<rfloor> = (if dbl_val d \<in> \<int> then - \<lfloor>dbl_val d\<rfloor> else - \<lfloor>dbl_val d\<rfloor> - 1)"
    by (simp add: floor_minus ceiling_altdef) (metis Ints_of_int)
  have "\<bar>?k\<bar> < 4294967296" using d(2) by (simp add: abs_less_iff floor_less_iff) linarith
  then have k: "dbl_finite (dbl_of_int U ?k)" "dbl_val (dbl_of_int U ?k) = of_int ?k" using dbl_of_int_val[OF U] by blast+
  have "dbl_eq d (dbl_of_int U ?k) \<longleftrightarrow> dbl_val d = of_int ?k"
    using d(1) k by (auto simp: dbl_eq_def isnan_def dbl_finite_def)
  moreover have "dbl_lt d 0 \<longleftrightarrow> dbl_val d < 0" using dbl_lt_iff[OF d(1) z(1)] z(2) by simp
  moreover have "dbl_val d = of_int (- \<lfloor>- dbl_val d\<rfloor>) \<longleftrightarrow> dbl_val d \<in> \<int>"
    by (auto elim!: Ints_cases) (metis Ints_minus Ints_of_int)
  ultimately show ?thesis unfolding t using f by (intro exI[of _ ?k]) auto
qed

lemma decade_range:
  assumes "dbl_finite u" "10 powi f \<le> dbl_val u" "dbl_val u < 10 powi (f + 1)"
  shows "- 324 \<le> f" "f \<le> 308"
proof -
  have pos: "0 < dbl_val u" using assms(2) by (rule less_le_trans[rotated]) (simp add: zero_less_power_int)
  have "0 \<le> dbl_abs u" by (simp add: dbl_abs_def)
  then have s: "\<not> dbl_sign u" using pos by (auto simp: dbl_val_def)
  have val: "dbl_val u = of_nat (dbl_mant u) * 2 powi (int (max 1 (dbl_exp u)) - 1075)" by (rule fields_val[OF refl refl s])
  have e: "dbl_exp u \<le> 2046" using assms(1) by (simp add: dbl_finite_def)
  have "of_nat (dbl_mant u) \<le> (2 :: rat) powi 53" "1 \<le> (of_nat (dbl_mant u) :: rat)"
    using mant_bounds(1)[of u] pos val by (simp, cases "dbl_mant u") auto
  moreover have "(2 :: rat) powi (- 1074) \<le> 2 powi (int (max 1 (dbl_exp u)) - 1075)" "2 powi (int (max 1 (dbl_exp u)) - 1075) \<le> (2 :: rat) powi 971"
    by (rule power_int_increasing; use e in simp)+
  moreover have "(0 :: rat) < 2 powi (- 1074)" by (rule zero_less_power_int) simp
  ultimately have "1 * 2 powi (- 1074) \<le> dbl_val u" "dbl_val u \<le> 2 powi 53 * 2 powi 971" unfolding val by (intro mult_mono; simp)+
  moreover have "(2 :: rat) powi 53 * 2 powi 971 < 10 powi 309" by simp
  moreover have "(10 :: rat) powi (- 324) < 2 powi (- 1074)"
    unfolding power_int_minus_divide power_int_numeral by (rule frac_less2) simp_all
  ultimately have x: "(10 :: rat) powi f < 10 powi 309" "(10 :: rat) powi (- 324) < 10 powi (f + 1)" using assms by linarith+
  have "f < 309" "- 324 < f + 1" by (rule powi_less_exp[OF _ x(1)], simp, rule powi_less_exp[OF _ x(2)], simp)
  then show "- 324 \<le> f" "f \<le> 308" by simp_all
qed

definition estimated :: "rat \<Rightarrow> int \<Rightarrow> int \<Rightarrow> bool \<Rightarrow> bool" where
  \<comment> \<open>what is known of \<open>k\<close> when \<open>f\<close> is the decimal exponent of \<open>V\<close>\<close>
  "estimated V f k check \<longleftrightarrow>
     (if check then (k < 0 \<or> 22 < k) \<and> (k = f \<and> V < 10 powi (f + 1) * (1 - 1 / 2 ^ 32) \<or> k = f + 1 \<and> 10 powi (f + 1) * (9 / 10) < V)
      else k = f \<and> - 1 \<le> k \<and> k \<le> 22 \<and> (k \<le> 21 \<or> V < 10 powi (f + 1) * (1 - 1 / 2 ^ 32)))"

lemma dtoa_estimate_spec:
  assumes U: "fpu_ieee U" and u: "\<not> dbl_sign u" "dbl_finite u" and n: "n * 2 ^ z = dbl_mant u" "2 ^ b \<le> 2 * n" "n < 2 ^ b"
    and be: "be = int (max 1 (dbl_exp u)) - 1075 + int z" and f: "10 powi f \<le> dbl_val u" "dbl_val u < 10 powi (f + 1)"
  shows "\<exists>k c. dtoa_estimate U u be (int b) = Inr (k, c, int b + be - 1, dbl_exp u = 0) \<and> estimated (dbl_val u) f k c"
proof -
  let ?V = "dbl_val u"
  obtain d2 x where fr: "est_frac U u be (int b) = Inr (d2, int b + be - 1, dbl_exp u = 0)" "frac_part d2 x (int b + be - 1)"
    "?V = x * 2 powi (int b + be - 1)" using est_frac_spec[OF U u n be] by blast
  let ?L = "log_line x (int b + be - 1)" and ?ds = "log_estimate U d2 (int b + be - 1)"
  have x: "1 \<le> x" "x < 2" using fr(2) by (simp_all add: frac_part_def)
  have ds: "dbl_finite ?ds" "\<bar>dbl_val ?ds - ?L\<bar> \<le> 1 / 2 ^ 31" using log_estimate_error[OF U fr(2)] by blast+
  have rng: "- 324 \<le> f" "f \<le> 308" using decade_range[OF u(2) f] by blast+
  have p: "(0 :: rat) < 10 powi f" "(10 :: rat) powi (f + 1) = 10 * 10 powi f" "(10 :: rat) powi (f + 2) = 100 * 10 powi f"
    by (simp_all add: zero_less_power_int power_int_add)
  have eps: "(1 :: rat) / 2 ^ 31 < 1 / 2 ^ 28" "0 < (1 :: rat) / 2 ^ 28" "(1 :: rat) / 2 ^ 28 < 1" by simp_all
  have low: "of_int K \<le> dbl_val ?ds" if "10 powi K * (1 - 1 / 2 ^ 32) \<le> ?V" "- 324 \<le> K" "K \<le> 310" for K
    using log_line_low[OF that(2,3) x, of "int b + be - 1"] that(1) ds(2) eps unfolding fr(3) by linarith
  have high: "dbl_val ?ds < of_int K" if "?V \<le> 10 powi K * (9 / 10)" "- 324 \<le> K" "K \<le> 310" for K
    using log_line_high[OF that(2,3) x, of "int b + be - 1"] that(1) ds(2) eps unfolding fr(3) by linarith
  have "of_int f \<le> dbl_val ?ds" by (rule low) (use f p rng in auto)
  moreover have "dbl_val ?ds < of_int (f + 2)" by (rule high) (use f p rng in auto)
  ultimately have k2: "\<lfloor>dbl_val ?ds\<rfloor> = f \<or> \<lfloor>dbl_val ?ds\<rfloor> = f + 1" and sm: "\<bar>dbl_val ?ds\<bar> < 2147483000"
    using rng by (auto simp: floor_eq_iff abs_less_iff) 
  have up: "10 powi (f + 1) * (9 / 10) < ?V" if "\<lfloor>dbl_val ?ds\<rfloor> = f + 1"
    using high[of "f + 1"] that rng by (force simp: floor_eq_iff not_le[symmetric])
  have dn: "?V < 10 powi (f + 1) * (1 - 1 / 2 ^ 32)" if "\<lfloor>dbl_val ?ds\<rfloor> = f"
  proof (rule ccontr)
    assume "\<not> ?V < 10 powi (f + 1) * (1 - 1 / 2 ^ 32)"
    then have "of_int (f + 1) \<le> dbl_val ?ds" using low[of "f + 1"] rng by simp
    then show False using that by (simp add: floor_eq_iff)
  qed
  obtain k where k: "dbl_to_int ?ds = Inr k" "(if dbl_lt ?ds 0 \<and> \<not> dbl_eq ?ds (dbl_of_int U k) then k - 1 else k) = \<lfloor>dbl_val ?ds\<rfloor>"
    using floor_of_trunc[OF U ds(1) sm] by blast
  let ?k = "\<lfloor>dbl_val ?ds\<rfloor>"
  show ?thesis
  proof (cases "0 \<le> ?k \<and> ?k \<le> Ten_pmax")
    case True
    then obtain t where t: "ten_at tens ?k = Inr t" "dbl_finite t" "dbl_val t = 10 ^ nat ?k" using tens_value[of ?k] by blast
    have tk: "dbl_val t = 10 powi ?k" unfolding t(3) using True by (simp add: power_int_def)
    have kf: "(if dbl_lt u t then ?k - 1 else ?k) = f"
      using k2 f unfolding dbl_lt_iff[OF u(2) t(2)] tk by auto
    have "dtoa_estimate U u be (int b) = Inr (f, False, int b + be - 1, dbl_exp u = 0)"
      unfolding dtoa_estimate_def fr(1) Let_def andthen_simps prod.case k if_P[OF True] t(1) kf ..
    moreover have "- 1 \<le> f" "f \<le> 22" using True k2 unfolding Ten_pmax_def by linarith+
    moreover have "f \<le> 21 \<or> ?V < 10 powi (f + 1) * (1 - 1 / 2 ^ 32)" using True k2 dn unfolding Ten_pmax_def by linarith
    ultimately have "estimated ?V f f False" unfolding estimated_def by simp
    then show ?thesis using \<open>dtoa_estimate U u be (int b) = Inr (f, False, int b + be - 1, dbl_exp u = 0)\<close> by blast
  next
    case False
    have "dtoa_estimate U u be (int b) = Inr (?k, True, int b + be - 1, dbl_exp u = 0)"
      unfolding dtoa_estimate_def fr(1) Let_def andthen_simps prod.case k if_not_P[OF False] by blast
    moreover have "?k < 0 \<or> 22 < ?k" using False unfolding Ten_pmax_def by linarith
    then have "estimated ?V f ?k True" unfolding estimated_def if_True using k2 up dn by blast
    ultimately show ?thesis by blast
  qed
qed

end
