(* ===== verification/Dtoa_Small.thy ===== *)
theory Dtoa_Small
  imports Dtoa_Estimate
begin

text \<open>
The digits of small integers in \<open>dtoa\<close> of \<open>3rd/lua-cjson/dtoa.c\<close>: every operation of that loop is
  exact, its quotients are the quotients of integers, and its digits are the rounded ones (with
  trailing zeros kept when the loop stops at the requested number of digits).
\<close>

section \<open>Exact arithmetic on integers\<close>

lemma digit_consts:
  "dbl_finite dbl_10" "dbl_val dbl_10 = 10" "dbl_finite dbl_7" "dbl_val dbl_7 = 7"
  "dbl_finite dbl_half" "dbl_val dbl_half = 1 / 2" "dbl_finite dbl_1" "dbl_val dbl_1 = 1"
proof -
  show "dbl_finite dbl_10" "dbl_finite dbl_7" "dbl_finite dbl_half" "dbl_finite dbl_1"
    by (simp_all add: dbl_finite_def dbl_10_def dbl_7_def dbl_half_def dbl_1_def dbl_fields)
  have m: "dbl_exp dbl_10 = 1026 \<and> dbl_mant dbl_10 = 5629499534213120 \<and> \<not> dbl_sign dbl_10"
    "dbl_exp dbl_7 = 1025 \<and> dbl_mant dbl_7 = 7881299347898368 \<and> \<not> dbl_sign dbl_7"
    "dbl_exp dbl_half = 1022 \<and> dbl_mant dbl_half = 4503599627370496 \<and> \<not> dbl_sign dbl_half"
    "dbl_exp dbl_1 = 1023 \<and> dbl_mant dbl_1 = 4503599627370496 \<and> \<not> dbl_sign dbl_1"
    by (simp_all add: dbl_10_def dbl_7_def dbl_half_def dbl_1_def dbl_fields dbl_mant_def)
  show "dbl_val dbl_10 = 10" using fields_val[of dbl_10 1026] m(1) by (simp add: power_int_minus_divide)
  show "dbl_val dbl_7 = 7" using fields_val[of dbl_7 1025] m(2) by (simp add: power_int_minus_divide)
  show "dbl_val dbl_half = 1 / 2" using fields_val[of dbl_half 1022] m(3) by (simp add: power_int_minus_divide)
  show "dbl_val dbl_1 = 1" using fields_val[of dbl_1 1023] m(4) by (simp add: power_int_minus_divide)
qed

definition is_int :: "double \<Rightarrow> nat \<Rightarrow> bool" where
  "is_int d n \<longleftrightarrow> dbl_finite d \<and> dbl_val d = of_nat n"

lemma rounded_is_int:
  assumes "rounded (of_nat n) d" "n \<le> 9007199254740992"
  shows "is_int d n"
  using rounded_dyadic[OF assms(1), of "int n" 0] assms by (simp add: is_int_def rounded_finite)

lemma nat_range: "n \<le> 9007199254740992 \<Longrightarrow> \<bar>of_nat n\<bar> < (2 :: rat) powi (1023 :: int)"
proof -
  assume "n \<le> 9007199254740992"
  then have "(of_nat n :: rat) \<le> of_nat 9007199254740992" by (simp only: of_nat_le_iff)
  also have "\<dots> < 2 powi (1023 :: int)" by simp
  finally show ?thesis by simp
qed

lemma int_ops:
  assumes U: "fpu_ieee U" and a: "is_int a m" and b: "is_int b n"
  shows "m + n \<le> 9007199254740992 \<Longrightarrow> is_int (fp_add U a b) (m + n)"
    "n \<le> m \<Longrightarrow> m \<le> 9007199254740992 \<Longrightarrow> is_int (fp_sub U a b) (m - n)"
    "m * n \<le> 9007199254740992 \<Longrightarrow> is_int (fp_mul U a b) (m * n)"
proof -
  have ab: "dbl_finite a" "dbl_finite b" "dbl_val a = of_nat m" "dbl_val b = of_nat n" using a b by (simp_all add: is_int_def)
  note r = op_rounded[OF U ab(1,2), unfolded ab(3,4)]
  show "is_int (fp_add U a b) (m + n)" if "m + n \<le> 9007199254740992"
    using rounded_is_int[OF _ that] r(1) nat_range[OF that] by simp
  show "is_int (fp_mul U a b) (m * n)" if "m * n \<le> 9007199254740992"
    using rounded_is_int[OF _ that] r(3) nat_range[OF that] by simp
  show "is_int (fp_sub U a b) (m - n)" if "n \<le> m" "m \<le> 9007199254740992"
  proof -
    have mn: "m - n \<le> 9007199254740992" using that by simp
    have e: "(of_nat m - of_nat n :: rat) = of_nat (m - n)" using that(1) by (simp add: of_nat_diff)
    show ?thesis using rounded_is_int[OF _ mn] r(2) nat_range[OF mn] unfolding e by simp
  qed
qed

lemma int_quotient:
  assumes U: "fpu_ieee U" and a: "is_int u a" and d: "is_int ds m" and m: "0 < m" "m \<le> 100000000000000" and lt: "a < 10 * m"
  shows "dbl_to_int (fp_div U u ds) = Inr (int (a div m))"
proof -
  have ab: "dbl_finite u" "dbl_finite ds" "dbl_val u = of_nat a" "dbl_val ds = of_nat m" using a d by (simp_all add: is_int_def)
  let ?q = "of_nat a / of_nat m :: rat" and ?L = "a div m"
  have mr: "0 < (of_nat m :: rat)" "(of_nat m :: rat) \<le> 100000000000000"
    using m of_nat_le_iff[of m 100000000000000, where ?'a = rat] by simp_all
  have L: "?L < 10" using lt by (simp add: less_mult_imp_div_less)
  have "(of_nat a :: rat) < of_nat (10 * m)" using lt by (simp only: of_nat_less_iff)
  then have q10: "0 \<le> ?q" "?q < 10" using mr by (simp_all add: field_simps)
  have r: "rounded ?q (fp_div U u ds)"
    using op_rounded(4)[OF U ab(1,2)] mr q10 small_range[of ?q] unfolding ab(3,4) by simp
  obtain g where g: "dbl_finite g" "dbl_val g = of_nat ?L" using dyadic_double[of ?L 0] L by auto
  have "of_nat ?L \<le> ?q" using mr div_times_less_eq_dividend[of a m] by (simp add: field_simps flip: of_nat_mult of_nat_le_iff)
  then have lo: "of_nat ?L \<le> dbl_val (fp_div U u ds)" using rounded_ge[OF r g(1)] g(2) by simp
  obtain h where h: "dbl_finite h" "dbl_val h = of_nat ((?L + 1) * 2 ^ 47 - 1) * 2 powi (- 47)"
    using dyadic_double[of "(?L + 1) * 2 ^ 47 - 1" "- 47"] L by auto
  have hv: "dbl_val h = of_nat ?L + 1 - 1 / 2 ^ 47" unfolding h(2) by (simp add: of_nat_diff power_int_minus_divide field_simps)
  have "a + 1 \<le> (?L + 1) * m" using dividend_less_div_times[OF m(1), of a] by simp
  then have "(of_nat (a + 1) :: rat) \<le> of_nat ((?L + 1) * m)" by (simp only: of_nat_le_iff)
  then have "?q \<le> of_nat ?L + 1 - 1 / of_nat m" using mr by (simp add: field_simps)
  moreover have "1 / 2 ^ 47 \<le> (1 / of_nat m :: rat)" using mr by (intro divide_left_mono) auto
  ultimately have "?q \<le> dbl_val h" unfolding hv by linarith
  then have up: "dbl_val (fp_div U u ds) < of_nat ?L + 1" using rounded_le[OF r h(1)] unfolding hv by (rule_tac le_less_trans) auto
  have "0 \<le> dbl_val (fp_div U u ds)" using lo by (rule order_trans[rotated]) simp
  moreover have "(of_nat ?L :: rat) \<le> 10" using L of_nat_le_iff[of ?L 10, where ?'a = rat] by simp
  moreover have "\<lfloor>dbl_val (fp_div U u ds)\<rfloor> = int ?L" using lo up by (simp add: floor_eq_iff)
  ultimately show ?thesis using dbl_to_int_val[OF rounded_finite[OF r]] up by simp
qed

section \<open>Small integers\<close>

definition small_result :: "nat \<Rightarrow> nat \<Rightarrow> string \<Rightarrow> nat \<Rightarrow> (string \<times> bool) res \<Rightarrow> bool" where
  \<comment> \<open>at most \<open>r + 1\<close> digits of \<open>a / m\<close> are appended; fewer when nothing is left\<close>
  "small_result a m out r res \<longleftrightarrow>
     (\<exists>t \<le> r. stops a m t \<and> res = Inr (out @ fixed_digits (Suc t) (a * 10 ^ t div m), False))
     \<or> a * 10 ^ r mod m \<noteq> 0
       \<and> res = (if m < 2 * (a * 10 ^ r mod m) \<or> 2 * (a * 10 ^ r mod m) = m \<and> odd (a * 10 ^ r div m)
                then round_up (out @ fixed_digits (Suc r) (a * 10 ^ r div m))
                else Inr (out @ fixed_digits (Suc r) (a * 10 ^ r div m), False))"

lemma next_digit_odd:
  assumes "a < 10 * m" "0 < (m :: nat)"
  shows "odd (a mod m * 10 * 10 ^ r div m) = odd (a * 10 ^ Suc r div m)"
proof -
  let ?x = "a mod m * 10 * 10 ^ r div m" and ?y = "a * 10 ^ Suc r div m"
  have "last (char_of (48 + a div m) # fixed_digits (Suc r) ?x) = last (fixed_digits (Suc (Suc r)) ?y)"
    unfolding next_digits(1)[OF assms] ..
  then have "char_of (48 + ?x mod 10) = char_of (48 + ?y mod 10)" by simp
  then have "?x mod 10 = ?y mod 10" using digit_char_eq[of "?x mod 10" "?y mod 10"] by simp
  moreover have "x mod 10 = y mod 10 \<Longrightarrow> odd x = odd y" for x y :: nat by presburger
  ultimately show ?thesis by blast
qed

lemma small_result_next:
  assumes res: "small_result (a mod m * 10) m (out @ [char_of (48 + a div m)]) r res" and a: "a < 10 * m" "0 < m" "a mod m \<noteq> 0"
  shows "small_result a m out (Suc r) res"
proof -
  note d = next_digits[OF a(1,2)]
  have j: "(out @ [char_of (48 + a div m)]) @ fixed_digits (Suc t) (a mod m * 10 * 10 ^ t div m) = out @ fixed_digits (Suc (Suc t)) (a * 10 ^ Suc t div m)" for t
    using d(1)[of t] by simp
  show ?thesis using res[unfolded small_result_def j d(2) next_digit_odd[OF a(1,2)]]
  proof (elim disjE exE conjE)
    fix t assume "t \<le> r" "stops (a mod m * 10) m t" "res = Inr (out @ fixed_digits (Suc (Suc t)) (a * 10 ^ Suc t div m), False)"
    then show ?thesis unfolding small_result_def using stops_next[OF _ a(3,1)] by (intro disjI1 exI[of _ "Suc t"] conjI Suc_le_mono[THEN iffD2])
  next
    assume "a * 10 ^ Suc r mod m \<noteq> 0" "res = (if m < 2 * (a * 10 ^ Suc r mod m) \<or> 2 * (a * 10 ^ Suc r mod m) = m \<and> odd (a * 10 ^ Suc r div m)
      then round_up (out @ fixed_digits (Suc (Suc r)) (a * 10 ^ Suc r div m)) else Inr (out @ fixed_digits (Suc (Suc r)) (a * 10 ^ Suc r div m), False))"
    then show ?thesis unfolding small_result_def by (intro disjI2 conjI)
  qed
qed

lemma small_step:
  assumes U: "fpu_ieee U" and d: "is_int ds m" and m: "0 < m" "m \<le> 100000000000000" and a: "is_int u a" "a < 10 * m" and sz: "int (length out) < rv_cap sz"
  shows "\<exists>u10. small_loop U sz ilim ds i u out =
      (if a mod m = 0 then Inr (out @ [char_of (48 + a div m)], False)
       else if i = ilim then
         if m < 2 * (a mod m) \<or> 2 * (a mod m) = m \<and> odd (a div m) then round_up (out @ [char_of (48 + a div m)])
         else Inr (out @ [char_of (48 + a div m)], False)
       else small_loop U sz ilim ds (i + 1) u10 (out @ [char_of (48 + a div m)]))
    \<and> is_int u10 (a mod m * 10)"
proof -
  have q: "a div m < 10" "a mod m < m" using a(2) m by (simp_all add: less_mult_imp_div_less)
  let ?L = "dbl_of_int U (int (a div m))"
  have L: "is_int ?L (a div m)" using dbl_of_int_val[OF U, of "int (a div m)"] q by (simp add: is_int_def)
  have le: "a div m * m \<le> a" "a \<le> 9007199254740992" using a(2) m by simp_all
  have mul: "is_int (fp_mul U ?L ds) (a div m * m)" by (rule int_ops(3)[OF U L d]) (use le in linarith)
  let ?u = "fp_sub U u (fp_mul U ?L ds)"
  have sub: "is_int ?u (a mod m)" using int_ops(2)[OF U a(1) mul le] by (simp add: minus_div_mult_eq_mod)
  have z: "dbl_is_zero ?u \<longleftrightarrow> a mod m = 0" using sub by (simp add: dbl_is_zero_iff is_int_def)
  have dbl: "is_int (fp_add U ?u ?u) (2 * (a mod m))" using int_ops(1)[OF U sub sub] q m by (simp add: mult_2)
  have ten: "is_int (fp_mul U ?u dbl_10) (a mod m * 10)"
  proof (rule int_ops(3)[OF U sub])
    show "is_int dbl_10 10" using digit_consts by (simp add: is_int_def)
    show "a mod m * 10 \<le> 9007199254740992" using q(2) m by linarith
  qed
  have v: "dbl_finite ds" "dbl_val ds = of_nat m" "dbl_finite (fp_add U ?u ?u)" "dbl_val (fp_add U ?u ?u) = of_nat (2 * (a mod m))"
    using d dbl by (simp_all add: is_int_def)
  have lt: "dbl_lt ds (fp_add U ?u ?u) \<longleftrightarrow> m < 2 * (a mod m)" unfolding dbl_lt_iff[OF v(1,3)] v(2,4) by (simp only: of_nat_less_iff)
  have eq: "dbl_eq (fp_add U ?u ?u) ds \<longleftrightarrow> 2 * (a mod m) = m" unfolding dbl_eq_def v(2,4) of_nat_eq_iff
    using v(1,3) by (simp add: isnan_def dbl_finite_def)
  show ?thesis
    using store_digit_ok[OF q(1) sz] ten unfolding small_loop.simps[of U sz ilim ds i u out] int_quotient[OF U a(1) d m a(2)] andthen_simps Let_def
    by (intro exI[of _ "fp_mul U ?u dbl_10"]) (simp add: z lt eq)
qed

lemma small_loop_spec:
  assumes U: "fpu_ieee U" and d: "is_int ds m" and m: "0 < m" "m \<le> 100000000000000"
    and "is_int u a" "a < 10 * m" "ilim = i + int r" "int (length out) + int r < rv_cap sz"
  shows "small_result a m out r (small_loop U sz ilim ds i u out)"
  using assms(5-8)
proof (induction r arbitrary: u a i out)
  case (0 u a i out)
  have "int (length out) < rv_cap sz" using 0(4) by simp
  from small_step[OF U d m 0(1,2) this, of ilim i] obtain u10 where run: "small_loop U sz ilim ds i u out =
      (if a mod m = 0 then Inr (out @ [char_of (48 + a div m)], False)
       else if i = ilim then
         if m < 2 * (a mod m) \<or> 2 * (a mod m) = m \<and> odd (a div m) then round_up (out @ [char_of (48 + a div m)])
         else Inr (out @ [char_of (48 + a div m)], False)
       else small_loop U sz ilim ds (i + 1) u10 (out @ [char_of (48 + a div m)]))" by blast
  have "a div m < 10" using 0(2) by (simp add: less_mult_imp_div_less)
  then show ?case unfolding run small_result_def using 0(3) by (cases "a mod m = 0") (simp_all add: stops_0)
next
  case (Suc r u a i out)
  have "int (length out) < rv_cap sz" using Suc.prems(4) by simp
  from small_step[OF U d m Suc.prems(1,2) this, of ilim i] obtain u10 where run: "small_loop U sz ilim ds i u out =
      (if a mod m = 0 then Inr (out @ [char_of (48 + a div m)], False)
       else if i = ilim then
         if m < 2 * (a mod m) \<or> 2 * (a mod m) = m \<and> odd (a div m) then round_up (out @ [char_of (48 + a div m)])
         else Inr (out @ [char_of (48 + a div m)], False)
       else small_loop U sz ilim ds (i + 1) u10 (out @ [char_of (48 + a div m)]))" and u10: "is_int u10 (a mod m * 10)" by blast
  have ne: "i \<noteq> ilim" using Suc.prems(3) by simp
  show ?case
  proof (cases "a mod m = 0")
    case True
    have "a div m < 10" using Suc.prems(2) by (simp add: less_mult_imp_div_less)
    then show ?thesis unfolding run small_result_def using True by (intro disjI1 exI[of _ 0]) (simp add: stops_0)
  next
    case False
    have "small_result (a mod m * 10) m (out @ [char_of (48 + a div m)]) r (small_loop U sz ilim ds (i + 1) u10 (out @ [char_of (48 + a div m)]))"
      by (rule Suc.IH[OF u10]) (use m Suc.prems in \<open>simp_all add: mult.commute[of _ 10]\<close>)
    then show ?thesis unfolding run if_not_P[OF False] if_not_P[OF ne] by (rule small_result_next[OF _ Suc.prems(2) m(1) False])
  qed
qed


lemma small_rounded:
  assumes res: "small_result a m [] r res" and a: "m \<le> a" "a < 10 * m"
  shows "\<exists>ds. res = Inr ds \<and> rounded_digits (Suc r) (round_div (a * 10 ^ r) m) ds \<and> (trimmed (fst ds) \<or> a * 10 ^ r mod m \<noteq> 0)"
proof -
  let ?N = "a * 10 ^ r div m"
  have N: "10 ^ r \<le> ?N" "?N < 10 ^ Suc r" using first_digits_bounds[OF a] by blast+
  have N0: "0 < ?N" using N(1) by (rule less_le_trans[rotated]) simp
  have m: "0 < m" using a by simp
  from res show ?thesis unfolding small_result_def append_Nil
  proof (elim disjE exE conjE)
    fix t assume t: "t \<le> r" "stops a m t" "res = Inr (fixed_digits (Suc t) (a * 10 ^ t div m), False)"
    let ?n = "a * 10 ^ t div m"
    have n: "a * 10 ^ t = ?n * m" using t(2) by (auto simp: stops_def)
    have p: "(10::nat) ^ r = 10 ^ t * 10 ^ (r - t)" unfolding power_add[symmetric] using t(1) by simp
    have "a * 10 ^ r = a * 10 ^ t * 10 ^ (r - t)" unfolding p by simp
    also have "\<dots> = ?n * m * 10 ^ (r - t)" by (rule arg_cong[OF n])
    also have "\<dots> = ?n * 10 ^ (r - t) * m" by simp
    finally have "a * 10 ^ r = ?n * 10 ^ (r - t) * m" .
    then have e: "round_div (a * 10 ^ r) m = ?n * 10 ^ (r - t)" "?N = ?n * 10 ^ (r - t)" using m by (simp_all add: round_div_def)
    have "Suc r = Suc t + (r - t)" using t(1) by simp
    then have "strip_zeros (fixed_digits (Suc r) (?n * 10 ^ (r - t))) = strip_zeros (fixed_digits (Suc t) ?n)"
      using strip_fixed_shift[of "Suc t" "r - t" ?n] by (simp only:)
    then have "rounded_digits (Suc r) (?n * 10 ^ (r - t)) (fixed_digits (Suc t) ?n, False)"
      using t(1) N(2)[unfolded e(2)] by (simp del: fixed_digits.simps power_Suc add: rounded_digits_def)
    then show ?thesis using t(3) e(1) stops_trimmed[OF t(2) a] by (simp del: fixed_digits.simps)
  next
    assume z: "a * 10 ^ r mod m \<noteq> 0" and r: "res = (if m < 2 * (a * 10 ^ r mod m) \<or> 2 * (a * 10 ^ r mod m) = m \<and> odd ?N
        then round_up (fixed_digits (Suc r) ?N) else Inr (fixed_digits (Suc r) ?N, False))"
    show ?thesis
    proof (cases "m < 2 * (a * 10 ^ r mod m) \<or> 2 * (a * 10 ^ r mod m) = m \<and> odd ?N")
      case True
      then have "round_div (a * 10 ^ r) m = ?N + 1" unfolding round_div_def Let_def by auto
      moreover obtain out c where "round_up (fixed_digits (Suc r) ?N) = Inr (out, c)" "rounded_digits (Suc r) (?N + 1) (out, c)"
        using round_up_rounded[OF N(2)] by blast
      ultimately show ?thesis using r True z by simp
    next
      case False
      then have "round_div (a * 10 ^ r) m = ?N" unfolding round_div_def Let_def by auto
      then show ?thesis using r False N(2) z by (auto simp: rounded_digits_def simp del: fixed_digits.simps)
    qed
  qed
qed

lemma small_tie:
  assumes res: "small_result a m [] r res" and m: "0 < m" and t: "2 * (a * 10 ^ r mod m) = m" "even (a * 10 ^ r div m)"
  shows "res = Inr (fixed_digits (Suc r) (a * 10 ^ r div m), False)"
proof -
  have z: "a * 10 ^ r mod m \<noteq> 0" using m t(1) by auto
  from res show ?thesis unfolding small_result_def append_Nil
  proof (elim disjE exE conjE)
    fix i assume i: "i \<le> r" "stops a m i"
    have "(10::nat) ^ r = 10 ^ i * 10 ^ (r - i)" unfolding power_add[symmetric] using i(1) by simp
    then have "m dvd a * 10 ^ r" using i(2) by (auto simp: stops_def mult.assoc[symmetric])
    then show ?thesis using z by simp
  qed (use t in simp)
qed

definition half_way :: "nat \<Rightarrow> nat \<Rightarrow> nat \<Rightarrow> nat \<Rightarrow> bool" where
  \<comment> \<open>\<open>N\<close> lies half-way above the even number \<open>m\<close> of \<open>p\<close> digits\<close>
  "half_way p N m j \<longleftrightarrow> N = (10 * m + 5) * 10 ^ j \<and> 10 ^ (p - 1) \<le> m \<and> m < 10 ^ p \<and> even m \<and> 0 < p \<and> p + j < 15"

lemma half_way_parts:
  assumes "half_way p N m j"
  shows "N * 10 ^ (p - 1) = m * 10 ^ (p + j) + 5 * 10 ^ (p + j - 1)" "10 ^ (p + j) \<le> N" "N < 10 * 10 ^ (p + j)"
    "N * 10 ^ (p - 1) div 10 ^ (p + j) = m" "2 * (N * 10 ^ (p - 1) mod 10 ^ (p + j)) = 10 ^ (p + j)"
proof -
  have N: "N = (10 * m + 5) * 10 ^ j" and m: "10 ^ (p - 1) \<le> m" "m < 10 ^ p" and p: "0 < p" using assms by (simp_all add: half_way_def)
  obtain q where q: "p = Suc q" using p by (cases p) auto
  show e: "N * 10 ^ (p - 1) = m * 10 ^ (p + j) + 5 * 10 ^ (p + j - 1)" unfolding N q by (simp add: power_add algebra_simps)
  have "10 ^ q * 10 ^ Suc j \<le> m * 10 ^ Suc j" using m(1) unfolding q by (intro mult_le_mono1) simp
  moreover have "(10 :: nat) ^ (p + j) = 10 ^ q * 10 ^ Suc j" unfolding q by (simp add: power_add)
  moreover have "m * 10 ^ Suc j \<le> N" unfolding N by (simp add: algebra_simps)
  ultimately show "10 ^ (p + j) \<le> N" by linarith
  have "(10 * m + 5) * 10 ^ j < (10 * 10 ^ p) * 10 ^ j" using m(2) by (intro mult_less_mono1) simp_all
  moreover have "10 * 10 ^ p * 10 ^ j = 10 * (10 :: nat) ^ (p + j)" by (simp add: power_add)
  ultimately show "N < 10 * 10 ^ (p + j)" unfolding N by linarith
  have w: "(10 :: nat) ^ (p + j) = 10 * 10 ^ (p + j - 1)" unfolding q by simp
  have "N * 10 ^ (p - 1) div 10 ^ (p + j) = m \<and> N * 10 ^ (p - 1) mod 10 ^ (p + j) = 5 * 10 ^ (p + j - 1)"
    by (rule div_mod_is) (use e w in \<open>simp_all add: mult.commute\<close>)
  then show "N * 10 ^ (p - 1) div 10 ^ (p + j) = m" "2 * (N * 10 ^ (p - 1) mod 10 ^ (p + j)) = 10 ^ (p + j)" using w by simp_all
qed

lemma dtoa_small_spec:
  assumes U: "fpu_ieee U" and p: "fixed_plan p np" "int np < rv_cap sz" and k: "0 \<le> k" "k \<le> 14"
    and u: "is_int u (n * 2 ^ nat be)" "0 \<le> be" and x: "leads_at n be k"
  shows "\<exists>r. dtoa_small U sz p u k = Inr r \<and> digits_of n be np r \<and> (trimmed (fst r) \<or> 10 ^ np \<le> n * 2 ^ nat be)
    \<and> (\<forall>m j. half_way np (n * 2 ^ nat be) m j \<and> k = int (np + j) \<longrightarrow> r = (fixed_digits np m, k))"
proof -
  let ?a = "n * 2 ^ nat be" and ?m = "10 ^ nat k :: nat"
  have fr: "frac_num n be k = ?a" "frac_den be k = ?m" using k u(2) by (simp_all add: frac_num_def frac_den_def)
  have a: "?m \<le> ?a" "?a < 10 * ?m" using x unfolding leads_at_def fr by blast+
  obtain t where t: "ten_at tens k = Inr t" "dbl_finite t" "dbl_val t = 10 ^ nat k" using tens_value[of k] k by (auto simp: Ten_pmax_def)
  have t': "is_int t ?m" using t by (simp add: is_int_def)
  have "?m \<le> 10 ^ 14" using k by (intro power_increasing) auto
  then have m: "0 < ?m" "?m \<le> 100000000000000" by simp_all
  have np: "0 < np" "dp_ilim p = int np" "dp_ndigits p = int np" using p(1) by (simp_all add: fixed_plan_def)
  have small: "small_result ?a ?m [] (np - 1) (small_loop U sz (int np) t 1 u [])"
    by (rule small_loop_spec[OF U t' m u(1) a(2)]) (use np p(2) in auto)
  from small_rounded[OF small a] obtain ds where ds: "small_loop U sz (int np) t 1 u [] = Inr ds"
    "rounded_digits np (round_div (?a * 10 ^ (np - 1)) ?m) ds" "trimmed (fst ds) \<or> ?a * 10 ^ (np - 1) mod ?m \<noteq> 0" using np(1) by auto
  have "10 ^ np \<le> ?a" if z: "?a * 10 ^ (np - 1) mod ?m \<noteq> 0"
  proof -
    have "\<not> nat k \<le> np - 1"
    proof
      assume "nat k \<le> np - 1"
      then have "?m dvd ?a * 10 ^ (np - 1)" by (intro dvd_mult le_imp_power_dvd)
      then show False using z by simp
    qed
    then have "np \<le> nat k" by simp
    then have "(10 :: nat) ^ np \<le> ?m" by (intro power_increasing) simp_all
    then show ?thesis using a(1) by linarith
  qed
  then have "trimmed (fst ds) \<or> 10 ^ np \<le> ?a" using ds(3) by blast
  then have tr: "trimmed (fst (bump_k k ds)) \<or> 10 ^ np \<le> ?a" by (simp add: fst_bump_k)
  have "dtoa_small U sz p u k = Inr (bump_k k ds)" using t(1) np ds(1) by (simp add: dtoa_small_def)
  moreover have "rounded_digits np (round_div (frac_num n be k * 10 ^ (np - 1)) (frac_den be k)) ds" unfolding fr by (rule ds(2))
  then have "digits_of n be np (bump_k k ds)" unfolding digits_of_def using x by blast
  moreover have "bump_k k ds = (fixed_digits np M, k)" if h: "half_way np ?a M j" "k = int (np + j)" for M j
  proof -
    have kj: "nat k = np + j" "Suc (np - 1) = np" using h(2) np(1) by simp_all
    have "even M" using h(1) by (simp add: half_way_def)
    note hw = half_way_parts(4,5)[OF h(1)]
    have "small_loop U sz (int np) t 1 u [] = Inr (fixed_digits (Suc (np - 1)) (?a * 10 ^ (np - 1) div ?m), False)"
      by (rule small_tie[OF small m(1)]) (use hw \<open>even M\<close> in \<open>simp_all only: kj\<close>)
    then have "ds = (fixed_digits np M, False)" using ds(1) unfolding kj hw by simp
    then show ?thesis by (simp add: bump_k_def)
  qed
  ultimately show ?thesis using tr by blast
qed

end
