(* ===== verification/Dtoa_Scale.thy ===== *)
theory Dtoa_Scale
  imports Dtoa_Small
begin

text \<open>
The scaling of the floating-point way to the digits in \<open>dtoa\<close> of \<open>3rd/lua-cjson/dtoa.c\<close>: products
  and quotients with the tables \<open>tens\<close> and \<open>bigtens\<close>, and how many roundings they take. \<open>near j d q\<close>
  says that \<open>d\<close> is \<open>q\<close> up to \<open>j\<close> roundings; \<open>quick_scale_spec\<close> compares their number with the
  \<open>ieps\<close> that the code counts.
\<close>

section \<open>Numbers of roundings\<close>

definition grow :: rat where "grow = 9007199254740992 / 9007199254740991"

definition near :: "nat \<Rightarrow> double \<Rightarrow> rat \<Rightarrow> bool" where
  \<comment> \<open>\<open>d\<close> is the positive number \<open>q\<close> up to so many roundings\<close>
  "near j d q \<longleftrightarrow> dbl_finite d \<and> 0 < q \<and> q \<le> dbl_val d * grow ^ j \<and> dbl_val d \<le> q * grow ^ j"

lemma grow_gt: "1 < grow" "0 < grow" "1 \<le> grow ^ j" "0 < grow ^ j"
  by (simp_all add: grow_def)

lemma grow_bound: "j \<le> 40 \<Longrightarrow> grow ^ j \<le> 1 + (of_nat j + 1 / 100) / 2 ^ 53"
proof -
  assume j: "j \<le> 40"
  define e :: rat where "e = 1 / 2 ^ 53"
  have e: "0 < e" "e < 1 / 1000000" "grow * (1 - e) = 1" by (simp_all add: e_def grow_def)
  have b: "grow ^ i * (1 - of_nat i * e) \<le> 1" for i
  proof (induction i)
    case (Suc i)
    have "1 - of_nat (Suc i) * e \<le> (1 - of_nat i * e) * (1 - e)" using e(1) by (simp add: algebra_simps)
    then have "grow ^ Suc i * (1 - of_nat (Suc i) * e) \<le> grow ^ Suc i * ((1 - of_nat i * e) * (1 - e))"
      using grow_gt(4)[of "Suc i"] by (intro mult_left_mono) auto
    also have "\<dots> = grow ^ i * (1 - of_nat i * e) * (grow * (1 - e))" by (simp add: mult_ac)
    finally show ?case using Suc unfolding e(3) by simp
  qed simp
  have jr: "(of_nat j :: rat) \<le> 40" "0 \<le> (of_nat j :: rat)" using j of_nat_le_iff[of j 40, where ?'a = rat] by simp_all
  let ?J = "of_nat j :: rat"
  have je: "?J * e \<le> 40 * e" using jr e(1) by (intro mult_right_mono) auto
  have "?J * e * (?J + 1 / 100) \<le> 40 * e * 41" using je jr e(1) by (intro mult_mono) auto
  then have "?J * e * (?J + 1 / 100) \<le> 1 / 100" using e(2) by linarith
  then have "?J * e * (?J + 1 / 100) * e \<le> 1 / 100 * e" using e(1) by (intro mult_right_mono) auto
  then have k: "1 \<le> (1 - ?J * e) * (1 + (?J + 1 / 100) * e)" by (simp add: algebra_simps)
  have p: "0 < 1 - ?J * e" using je e(2) by linarith
  have "grow ^ j * (1 - ?J * e) \<le> (1 + (?J + 1 / 100) * e) * (1 - ?J * e)" using b[of j] k by (simp add: mult.commute)
  then have "grow ^ j \<le> 1 + (?J + 1 / 100) * e" using p by (simp only: mult_le_cancel_right_pos)
  then show ?thesis unfolding e_def by simp
qed

lemma grow_le_2: "j \<le> 40 \<Longrightarrow> grow ^ j \<le> 2"
proof -
  assume j: "j \<le> 40"
  have "(of_nat j :: rat) \<le> 40" using j of_nat_le_iff[of j 40, where ?'a = rat] by simp
  then have "(of_nat j + 1 / 100) / 2 ^ 53 \<le> (41 / 2 ^ 53 :: rat)" by (intro divide_right_mono) simp_all
  also have "\<dots> \<le> 1" by simp
  finally show ?thesis using grow_bound[OF j] by linarith
qed

lemma near_pos: "near j d q \<Longrightarrow> 0 < dbl_val d"
proof -
  assume n: "near j d q"
  then have "0 < dbl_val d * grow ^ j" unfolding near_def by linarith
  then show ?thesis by (rule zero_less_mult_pos2) (rule grow_gt(4))
qed

lemma near_exact: "dbl_finite d \<Longrightarrow> dbl_val d = q \<Longrightarrow> 0 < q \<Longrightarrow> near 0 d q"
  by (simp add: near_def)

lemma near_mono: "near i d q \<Longrightarrow> i \<le> j \<Longrightarrow> near j d q"
proof -
  assume n: "near i d q" and ij: "i \<le> j"
  have "grow ^ i \<le> grow ^ j" using ij grow_gt(1) by (intro power_increasing) auto
  then have "dbl_val d * grow ^ i \<le> dbl_val d * grow ^ j" "q * grow ^ i \<le> q * grow ^ j"
    using n near_pos[OF n] by (auto intro!: mult_left_mono simp: near_def)
  then show ?thesis using n unfolding near_def by linarith
qed

lemma near_round:
  assumes r: "rounded x d" and q: "0 < q" "q \<le> x * grow ^ j" "x \<le> q * grow ^ j"
    and x: "x < 2 powi (1023 :: int)" and low: "2 powi (- 1022) \<le> x \<or> x = of_int z * 2 powi (- 1074)"
  shows "near (Suc j) d q"
proof -
  have x0: "0 < x" 
  proof -
    have "0 < x * grow ^ j" using q by linarith
    then show ?thesis by (rule zero_less_mult_pos2) (rule grow_gt(4))
  qed
  have e: "\<bar>dbl_val d - x\<bar> \<le> x / 2 ^ 53"
    using rounded_rel[OF r, of z] x low x0 by (simp add: abs_of_pos)
  then have lo: "x * (1 - 1 / 2 ^ 53) \<le> dbl_val d" and hi: "dbl_val d \<le> x * (1 + 1 / 2 ^ 53)"
  proof -
    define w where "w = x / 2 ^ 53"
    have p: "x * (1 - 1 / 2 ^ 53) = x - w" "x * (1 + 1 / 2 ^ 53) = x + w" unfolding w_def by (simp_all add: algebra_simps)
    have a: "\<bar>dbl_val d - x\<bar> \<le> w" using e unfolding w_def .
    show "x * (1 - 1 / 2 ^ 53) \<le> dbl_val d" unfolding p using a by (simp add: abs_le_iff)
    show "dbl_val d \<le> x * (1 + 1 / 2 ^ 53)" unfolding p using a by (simp add: abs_le_iff)
  qed
  have "x * (1 - 1 / 2 ^ 53) * grow \<le> dbl_val d * grow" using lo grow_gt(2) by (intro mult_right_mono) auto
  moreover have "x * (1 - 1 / 2 ^ 53) * grow = x" by (simp add: grow_def)
  ultimately have lo': "x \<le> dbl_val d * grow" by (simp only:)
  have "x * (1 + 1 / 2 ^ 53) \<le> x * grow" using x0 by (intro mult_left_mono) (simp_all add: grow_def)
  then have hi': "dbl_val d \<le> x * grow" using hi by linarith
  have "x * grow ^ j \<le> dbl_val d * grow * grow ^ j" using lo' grow_gt(4)[of j] by (intro mult_right_mono) auto
  moreover have "x * grow \<le> q * grow ^ j * grow" using q(3) grow_gt(2) by (intro mult_right_mono) auto
  ultimately show ?thesis unfolding near_def using q lo' hi' rounded_finite[OF r] by (simp add: mult_ac)
qed

lemma dbl_grid: "\<exists>z. dbl_val d = of_int z * 2 powi (- 1074)"
proof -
  define T where "T = (2 :: rat) ^ 1074"
  have T: "0 < T" "(2 :: rat) ^ 1075 = 2 * T" "2 powi (- 1074) = 1 / T"
    unfolding T_def by (simp only: zero_less_power zero_less_numeral, simp, simp only: power_int_minus_divide power_int_numeral)
  have "(2 :: rat) ^ max 1 (dbl_exp d) = 2 * 2 ^ (max 1 (dbl_exp d) - 1)" by (cases "dbl_exp d") (auto simp: max_def)
  then have "dbl_abs d = of_int (int (dbl_mant d * 2 ^ (max 1 (dbl_exp d) - 1))) * 2 powi (- 1074)"
    unfolding dbl_abs_def T(2,3) by simp
  then have "dbl_val d = of_int (if dbl_sign d then - int (dbl_mant d * 2 ^ (max 1 (dbl_exp d) - 1)) else int (dbl_mant d * 2 ^ (max 1 (dbl_exp d) - 1))) * 2 powi (- 1074)"
    by (simp add: dbl_val_def)
  then show ?thesis by blast
qed


lemma near_mul:
  assumes U: "fpu_ieee U" and a: "near i a q" and b: "near j b r" "dbl_val b = of_int t" and ij: "i + j \<le> 40" and q: "q * r \<le> 10 ^ 300"
  shows "near (Suc (i + j)) (fp_mul U a b) (q * r)"
proof -
  have n: "dbl_finite a" "0 < q" "q \<le> dbl_val a * grow ^ i" "dbl_val a \<le> q * grow ^ i" "0 < dbl_val a"
    "dbl_finite b" "0 < r" "r \<le> dbl_val b * grow ^ j" "dbl_val b \<le> r * grow ^ j" "0 < dbl_val b"
    using a b(1) near_pos[OF a] near_pos[OF b(1)] by (simp_all add: near_def)
  let ?x = "dbl_val a * dbl_val b"
  have lo: "q * r \<le> ?x * grow ^ (i + j)"
  proof -
    have "q * r \<le> (dbl_val a * grow ^ i) * (dbl_val b * grow ^ j)" using n grow_gt(4) by (intro mult_mono) auto
    then show ?thesis by (simp add: power_add mult_ac)
  qed
  have hi: "?x \<le> q * r * grow ^ (i + j)"
  proof -
    have "?x \<le> (q * grow ^ i) * (r * grow ^ j)" using n grow_gt(4) by (intro mult_mono) auto
    then show ?thesis by (simp add: power_add mult_ac)
  qed
  have g2: "grow ^ (i + j) \<le> 2" by (rule grow_le_2[OF ij])
  then have "q * r * grow ^ (i + j) \<le> 10 ^ 300 * 2" using q n by (intro mult_mono) (auto simp: grow_gt(4) less_imp_le)
  moreover have "(10 :: rat) ^ 300 * 2 < 2 powi 1023" by simp
  ultimately have up: "?x < 2 powi (1023 :: int)" using hi by linarith
  have x0: "0 < ?x" using n by simp
  have r: "rounded ?x (fp_mul U a b)" using op_rounded(3)[OF U n(1,6)] up x0 by (simp only: abs_of_pos)
  obtain z where z: "dbl_val a = of_int z * 2 powi (- 1074)" using dbl_grid by blast
  have "?x = of_int (z * t) * 2 powi (- 1074)" unfolding z b(2) by (simp only: of_int_mult mult_ac)
  then show ?thesis using near_round[OF r _ lo hi up] n by (metis mult_pos_pos)
qed

lemma near_div:
  assumes U: "fpu_ieee U" and a: "near i a q" and b: "near j b r" and ij: "i + j \<le> 40" and q: "q / r \<le> 10 ^ 300" "1 / 2 \<le> q / r"
  shows "near (Suc (i + j)) (fp_div U a b) (q / r)"
proof -
  have n: "dbl_finite a" "0 < q" "q \<le> dbl_val a * grow ^ i" "dbl_val a \<le> q * grow ^ i" "0 < dbl_val a"
    "dbl_finite b" "0 < r" "r \<le> dbl_val b * grow ^ j" "dbl_val b \<le> r * grow ^ j" "0 < dbl_val b"
    using a b near_pos[OF a] near_pos[OF b] by (simp_all add: near_def)
  let ?x = "dbl_val a / dbl_val b"
  have lo: "q / r \<le> ?x * grow ^ (i + j)"
  proof -
    have "q * dbl_val b \<le> (dbl_val a * grow ^ i) * (r * grow ^ j)" using n grow_gt(4) by (intro mult_mono) auto
    then show ?thesis using n by (simp add: power_add field_simps)
  qed
  have hi: "?x \<le> q / r * grow ^ (i + j)"
  proof -
    have "dbl_val a * r \<le> (q * grow ^ i) * (dbl_val b * grow ^ j)" using n grow_gt(4) by (intro mult_mono) auto
    then show ?thesis using n by (simp add: power_add field_simps)
  qed
  have g2: "grow ^ (i + j) \<le> 2" by (rule grow_le_2[OF ij])
  then have "q / r * grow ^ (i + j) \<le> 10 ^ 300 * 2" using q n by (intro mult_mono) (auto simp: grow_gt(4) less_imp_le)
  moreover have "(10 :: rat) ^ 300 * 2 < 2 powi 1023" by simp
  ultimately have up: "?x < 2 powi (1023 :: int)" using hi by linarith
  have x0: "0 < ?x" using n by simp
  have "?x * grow ^ (i + j) \<le> ?x * 2" using g2 x0 by (intro mult_left_mono) auto
  then have "1 / 4 \<le> ?x" using lo q(2) by linarith
  moreover have "2 powi (- 1022) \<le> (1 / 4 :: rat)"
  proof -
    have "(2 :: rat) powi (- 1022) \<le> 2 powi (- 2)" by (rule power_int_increasing) simp_all
    then show ?thesis by (simp add: power_int_minus_divide)
  qed
  ultimately have low: "2 powi (- 1022) \<le> ?x" by linarith
  have r: "rounded ?x (fp_div U a b)" using op_rounded(4)[OF U n(1,6)] up x0 n(10) by (auto simp only: abs_of_pos)
  show ?thesis using near_round[OF r _ lo hi up disjI1[OF low]] n by simp
qed

section \<open>Powers of ten by their bits\<close>

lemma bigtens_all: "list_all2 dbl_is_nat bigtens [5000000000000000 * 2 ^ 1, 5551115123125783 * 2 ^ 54, 6842277657836021 * 2 ^ 160, 5197704882822450 * 2 ^ 373, 5998787255582524 * 2 ^ 798]"
  by (simp add: bigtens_def dbl_is_nat_def dbl_fields dbl_mant_def)

lemma near_one:
  assumes d: "dbl_is_nat d N" and c: "q * 9007199254740991 \<le> N * 9007199254740992" "N * 9007199254740991 \<le> q * 9007199254740992" "0 < q"
  shows "near 1 d (of_nat q) \<and> (\<exists>z. dbl_val d = of_int z)"
proof -
  have v: "dbl_finite d" "dbl_val d = of_nat N" using dbl_is_natD[OF d] by blast+
  have "(of_nat (q * 9007199254740991) :: rat) \<le> of_nat (N * 9007199254740992)" "(of_nat (N * 9007199254740991) :: rat) \<le> of_nat (q * 9007199254740992)"
    using c by (simp_all only: of_nat_le_iff)
  then have "near 1 d (of_nat q)" unfolding near_def v(2) using v(1) c(3) by (simp add: grow_def field_simps)
  moreover have "dbl_val d = of_int (int N)" using v(2) by simp
  ultimately show ?thesis by blast
qed

lemma bigtens_near:
  assumes "i < 5"
  shows "\<exists>t. ten_at bigtens (int i) = Inr t \<and> near 1 t (10 ^ (16 * 2 ^ i)) \<and> (\<exists>z. dbl_val t = of_int z)"
proof -
  have len: "length bigtens = 5" by (simp add: bigtens_def)
  note nth = list_all2_nthD[OF bigtens_all, unfolded len]
  have b: "dbl_is_nat (bigtens ! 0) (5000000000000000 * 2 ^ 1)" "dbl_is_nat (bigtens ! 1) (5551115123125783 * 2 ^ 54)"
    "dbl_is_nat (bigtens ! 2) (6842277657836021 * 2 ^ 160)" "dbl_is_nat (bigtens ! 3) (5197704882822450 * 2 ^ 373)"
    "dbl_is_nat (bigtens ! 4) (5998787255582524 * 2 ^ 798)"
    using nth[of 0] nth[of 1] nth[of 2] nth[of 3] nth[of 4] by simp_all
  have n0: "near 1 (bigtens ! 0) (of_nat (10 ^ 16)) \<and> (\<exists>z. dbl_val (bigtens ! 0) = of_int z)"
    by (rule near_one[OF b(1)]) simp_all
  have n1: "near 1 (bigtens ! 1) (of_nat (10 ^ 32)) \<and> (\<exists>z. dbl_val (bigtens ! 1) = of_int z)"
    by (rule near_one[OF b(2)]) simp_all
  have n2: "near 1 (bigtens ! 2) (of_nat (10 ^ 64)) \<and> (\<exists>z. dbl_val (bigtens ! 2) = of_int z)"
    by (rule near_one[OF b(3)]) simp_all
  have n3: "near 1 (bigtens ! 3) (of_nat (10 ^ 128)) \<and> (\<exists>z. dbl_val (bigtens ! 3) = of_int z)"
    by (rule near_one[OF b(4)]) simp_all
  have n4: "near 1 (bigtens ! 4) (of_nat (10 ^ 256)) \<and> (\<exists>z. dbl_val (bigtens ! 4) = of_int z)"
    by (rule near_one[OF b(5)]) simp_all
  have "i = 0 \<or> i = 1 \<or> i = 2 \<or> i = 3 \<or> i = 4" using assms by linarith
  then have "near 1 (bigtens ! i) (10 ^ (16 * 2 ^ i)) \<and> (\<exists>z. dbl_val (bigtens ! i) = of_int z)"
    using n0 n1 n2 n3 n4 by (elim disjE) simp_all
  then show ?thesis using assms len by (simp add: ten_at_def)
qed


lemma quick_prod_spec:
  assumes U: "fpu_ieee U" and "j < 2 ^ (5 - i)" "near a x q" "a + 2 * (5 - i) \<le> 30" "q * 10 ^ (16 * 2 ^ i * j) \<le> 10 ^ 300" "i \<le> 5"
  shows "\<exists>x' c. quick_prod U j i x ieps = Inr (x', ieps + int c) \<and> c \<le> 5 - i \<and> near (a + 2 * c) x' (q * 10 ^ (16 * 2 ^ i * j))"
  using assms(2-6)
proof (induction j arbitrary: i x a q ieps rule: less_induct)
  case (less j)
  show ?case
  proof (cases "j = 0")
    case True
    then show ?thesis using less.prems(2) by (intro exI[of _ x] exI[of _ 0]) (simp add: quick_prod.simps[of U 0])
  next
    case False
    then have i: "i < 5" using less.prems(1) by (cases "i < 5") auto
    have e5: "5 - i = Suc (5 - Suc i)" using i by simp
    have j2: "j div 2 < 2 ^ (5 - (i + 1))" using less.prems(1) unfolding e5 by simp
    have lt: "j div 2 < j" using False by simp
    have q0: "0 < q" using less.prems(2) by (simp add: near_def)
    show ?thesis
    proof (cases "odd j")
      case True
      obtain t z where t: "ten_at bigtens (int i) = Inr t" "near 1 t (10 ^ (16 * 2 ^ i))" "dbl_val t = of_int z" using bigtens_near[OF i] by blast
      have "j = 2 * (j div 2) + 1" using True by simp
      moreover have "16 * 2 ^ i * (2 * h + 1) = 16 * 2 ^ i + 16 * 2 ^ (i + 1) * (h :: nat)" for h by simp
      ultimately have "16 * 2 ^ i * j = 16 * 2 ^ i + 16 * 2 ^ (i + 1) * (j div 2)" by metis
      then have e: "q * 10 ^ (16 * 2 ^ i * j) = q * 10 ^ (16 * 2 ^ i) * 10 ^ (16 * 2 ^ (i + 1) * (j div 2))" by (simp only: power_add mult.assoc)
      have "1 \<le> (10 :: rat) ^ (16 * 2 ^ (i + 1) * (j div 2))" by (rule one_le_power) simp
      then have "q * 10 ^ (16 * 2 ^ i) * 1 \<le> q * 10 ^ (16 * 2 ^ i) * 10 ^ (16 * 2 ^ (i + 1) * (j div 2))"
        using q0 by (intro mult_left_mono) auto
      then have small: "q * 10 ^ (16 * 2 ^ i) \<le> 10 ^ 300" using less.prems(4) unfolding e by linarith
      have "near (Suc (a + 1)) (fp_mul U x t) (q * 10 ^ (16 * 2 ^ i))"
        by (rule near_mul[OF U less.prems(2) t(2,3) _ small]) (use less.prems(3) in simp)
      then have n: "near (a + 2) (fp_mul U x t) (q * 10 ^ (16 * 2 ^ i))" by simp
      have "a + 2 + 2 * (5 - (i + 1)) \<le> 30" using less.prems(3) e5 by simp
      from less.IH[OF lt j2 n this less.prems(4)[unfolded e], of "ieps + 1"] i obtain x' c where r:
        "quick_prod U (j div 2) (i + 1) (fp_mul U x t) (ieps + 1) = Inr (x', ieps + 1 + int c)" "c \<le> 5 - (i + 1)"
        "near (a + 2 + 2 * c) x' (q * 10 ^ (16 * 2 ^ i) * 10 ^ (16 * 2 ^ (i + 1) * (j div 2)))" by auto
      have run: "quick_prod U j i x ieps = Inr (x', ieps + 1 + int c)"
        using r(1) t(1) True False by (simp add: quick_prod.simps[of U j])
      have f: "ieps + 1 + int c = ieps + int (Suc c)" "a + 2 + 2 * c = a + 2 * Suc c" "Suc c \<le> 5 - i" using r(2) e5 by simp_all
      show ?thesis unfolding e run f(1) using r(3)[unfolded f(2)] f(3) by blast
    next
      case F: False
      then have "j = 2 * (j div 2)" by simp
      moreover have "16 * 2 ^ i * (2 * h) = 16 * 2 ^ (i + 1) * (h :: nat)" for h by simp
      ultimately have e: "16 * 2 ^ i * j = 16 * 2 ^ (i + 1) * (j div 2)" by metis
      have "a + 2 * (5 - (i + 1)) \<le> 30" using less.prems(3) e5 by simp
      from less.IH[OF lt j2 less.prems(2) this less.prems(4)[unfolded e], of ieps] i obtain x' c where r:
        "quick_prod U (j div 2) (i + 1) x ieps = Inr (x', ieps + int c)" "c \<le> 5 - (i + 1)"
        "near (a + 2 * c) x' (q * 10 ^ (16 * 2 ^ (i + 1) * (j div 2)))" by auto
      have run: "quick_prod U j i x ieps = Inr (x', ieps + int c)"
        using r(1) F False by (simp add: quick_prod.simps[of U j])
      have f: "c \<le> 5 - i" using r(2) e5 by simp
      show ?thesis unfolding e run using r(3) f by blast
    qed
  qed
qed

section \<open>Scaling\<close>

lemma low_bits: "0 \<le> (k :: int) \<Longrightarrow> k AND 15 = k mod 16" "drop_bit 4 (k :: int) = k div 16"
  using take_bit_eq_mask[of 4 k] by (simp_all add: take_bit_eq_mod mask_eq_exp_minus_1 drop_bit_eq_div)

lemma bletch_bit: "0 \<le> (j :: int) \<Longrightarrow> j < 32 \<Longrightarrow> j AND Bletch \<noteq> 0 \<longleftrightarrow> 16 \<le> j" "0 \<le> (j :: int) \<Longrightarrow> j AND (Bletch - 1) = j mod 16"
proof -
  assume j: "0 \<le> j" "j < 32"
  have "j AND 2 ^ 4 = 0 \<longleftrightarrow> \<not> bit j 4" by (rule and_exp_eq_0_iff_not_bit)
  moreover have "bit j 4 \<longleftrightarrow> odd (j div 16)" by (simp add: bit_iff_odd)
  moreover have "odd (j div 16) \<longleftrightarrow> 16 \<le> j" using j by presburger
  ultimately show "j AND Bletch \<noteq> 0 \<longleftrightarrow> 16 \<le> j" by (simp add: Bletch_def)
next
  show "0 \<le> j \<Longrightarrow> j AND (Bletch - 1) = j mod 16" using low_bits(1)[of j] by (simp add: Bletch_def)
qed

lemma tens_near:
  assumes "0 \<le> i" "i \<le> 22"
  shows "\<exists>t. ten_at tens i = Inr t \<and> near 0 t (10 ^ nat i) \<and> (\<exists>z. dbl_val t = of_int z)"
proof -
  obtain t where t: "ten_at tens i = Inr t" "dbl_finite t" "dbl_val t = 10 ^ nat i" using tens_value[of i] assms by (auto simp: Ten_pmax_def)
  have "dbl_val t = of_int (10 ^ nat i)" using t(3) by simp
  then show ?thesis using t near_exact[OF t(2,3)] by fastforce
qed

lemma quick_scale_spec:
  assumes U: "fpu_ieee U" and u: "dbl_finite u" "dbl_val u = V" and k: "- 324 \<le> k" "k \<le> 309" and V: "1 / 2 \<le> V / 10 powi k" "V / 10 powi k \<le> 10"
  shows "\<exists>u' c. quick_scale U u k = Inr (u', int c) \<and> 2 \<le> c \<and> c \<le> 8 \<and> near (2 * c - 3) u' (V / 10 powi k)"
proof -
  have p: "(0 :: rat) < 10 powi k" by (simp add: zero_less_power_int)
  have "0 < V / 10 powi k" using V(1) by linarith
  then have V0: "0 < V" using less_imp_not_less[OF p] by (auto simp: zero_less_divide_iff)
  have nu: "near 0 u V" by (rule near_exact[OF u V0])
  consider "0 < k" | "k = 0" | "k < 0" by linarith
  then show ?thesis
  proof cases
    case 1
    have kp: "(10 :: rat) powi k = 10 ^ nat k" using 1 by (simp add: power_int_def)
    have m: "0 \<le> k AND 15" "k AND 15 \<le> 22" "nat (k AND 15) = nat k mod 16" using 1 low_bits(1)[of k] by (auto simp: nat_mod_distrib pos_mod_bound)
    obtain t where t: "ten_at tens (k AND 15) = Inr t" "near 0 t (10 ^ (nat k mod 16))" using tens_near[OF m(1,2)] m(3) by auto
    let ?j = "drop_bit 4 k"
    have j: "?j = k div 16" "0 \<le> ?j" "?j < 32" using 1 k low_bits(2)[of k] by (auto simp: pos_imp_zdiv_nonneg_iff)
    let ?K = "nat k" and ?h = "nat k div 16 - (if 16 \<le> ?j then 16 else 0)"
    have KV: "10 ^ ?K / 2 \<le> V" "V \<le> 10 ^ ?K * 10" using V kp p by (simp_all add: field_simps)
    have K: "?K \<le> 309" "nat ?j = ?K div 16" using k j(1) 1 by (simp_all add: nat_div_distrib)
    have h5: "?h < 2 ^ (5 - 0)" using K(1) by simp
    have qp: "10 ^ (?K mod 16) * 10 ^ (16 * 2 ^ 0 * ?h) \<le> (10 :: rat) ^ 300"
    proof -
      have jJ: "16 \<le> ?j \<longleftrightarrow> 16 \<le> ?K div 16" using K(2) j(2) by linarith
      have "K = 16 * J + r \<Longrightarrow> r < 16 \<Longrightarrow> K \<le> 309 \<Longrightarrow> r + 16 * (J - (if 16 \<le> J then 16 else 0)) \<le> 300" for K J r :: nat
        by (cases "16 \<le> J") simp_all
      from this[of ?K "?K div 16" "?K mod 16"] have "?K mod 16 + 16 * ?h \<le> 300" unfolding jJ using K(1) by simp
      then have "(10 :: rat) ^ (?K mod 16 + 16 * ?h) \<le> 10 ^ 300" by (intro power_increasing) auto
      then show ?thesis by (simp add: power_add)
    qed
    obtain u1 e a where u1: "(if ?j AND Bletch \<noteq> 0 then andthen (ten_at bigtens (int n_bigtens - 1)) (\<lambda>t. Inr (fp_div U u t, 3, ?j AND (Bletch - 1))) else Inr (u, 2, ?j))
        = Inr (u1, int e, int ?h)" "near a u1 (V / 10 ^ (?K - (?K mod 16 + 16 * ?h)))" "a + 4 = 2 * e" "e \<le> 3"
      "(10 :: rat) ^ ?K = 10 ^ (?K - (?K mod 16 + 16 * ?h)) * (10 ^ (?K mod 16) * 10 ^ (16 * 2 ^ 0 * ?h))"
    proof (cases "16 \<le> ?j")
      case True
      have bl: "?j AND Bletch \<noteq> 0" "?j AND (Bletch - 1) = int ?h"
      proof -
        have "16 \<le> x \<Longrightarrow> x < 32 \<Longrightarrow> x mod 16 = x - 16" for x :: int by presburger
        from this[OF True j(3)] have "?j mod 16 = int ?h" using True j(2) K(2) by simp
        then show "?j AND (Bletch - 1) = int ?h" using bletch_bit(2)[OF j(2)] by simp
        show "?j AND Bletch \<noteq> 0" using bletch_bit(1)[OF j(2,3)] True by blast
      qed
      obtain t6 z where t6: "ten_at bigtens (int 4) = Inr t6" "near 1 t6 (10 ^ (16 * 2 ^ 4))" "dbl_val t6 = of_int z" using bigtens_near[of 4] by auto
      have K6: "256 \<le> ?K" "?K - (?K mod 16 + 16 * ?h) = 256" "?K = 256 + (?K mod 16 + 16 * 2 ^ 0 * ?h)"
      proof -
        have J: "16 \<le> ?K div 16" using True K(2) j(2) by linarith
        then show "256 \<le> ?K" by simp
        have "K = 16 * J + r \<Longrightarrow> 16 \<le> J \<Longrightarrow> K - (r + 16 * (J - 16)) = 256" for K J r :: nat by simp
        from this[of ?K "?K div 16" "?K mod 16"] show "?K - (?K mod 16 + 16 * ?h) = 256" using J True by simp
        have "K = 16 * J + r \<Longrightarrow> 16 \<le> J \<Longrightarrow> K = 256 + (r + 16 * 2 ^ 0 * (J - 16))" for K J r :: nat by simp
        from this[of ?K "?K div 16" "?K mod 16"] show "?K = 256 + (?K mod 16 + 16 * 2 ^ 0 * ?h)" unfolding if_P[OF True] using J by simp
      qed
      have "(10 :: rat) ^ 256 \<le> 10 ^ ?K" using K6(1) by (intro power_increasing) auto
      moreover have "(10 :: rat) ^ ?K \<le> 10 ^ 309" using K(1) by (intro power_increasing) auto
      moreover have "(10 :: rat) ^ 309 * 10 \<le> 10 ^ 300 * 10 ^ 256" by simp
      ultimately have "10 ^ 256 / 2 \<le> V" "V \<le> 10 ^ 300 * 10 ^ 256" using KV by linarith+
      then have V6: "V / 10 ^ 256 \<le> 10 ^ 300" "1 / 2 \<le> V / 10 ^ 256"
      proof -
        have "a / T \<le> b" "1 / 2 \<le> a / T" if "T / 2 \<le> a" "a \<le> b * T" "0 < T" for a b T :: rat
          using that by (simp_all add: field_simps)
        from this[OF \<open>10 ^ 256 / 2 \<le> V\<close> \<open>V \<le> 10 ^ 300 * 10 ^ 256\<close>] show "V / 10 ^ 256 \<le> 10 ^ 300" "1 / 2 \<le> V / 10 ^ 256"
          by (simp_all only: zero_less_power zero_less_numeral)
      qed
      have e6: "16 * 2 ^ 4 = (256 :: nat)" "Suc (0 + 1) = 2" by simp_all
      have N: "near 2 (fp_div U u t6) (V / 10 ^ 256)" using near_div[OF U nu t6(2)[unfolded e6(1)] _ V6] unfolding e6(2) by simp
      have T: "(10 :: rat) ^ ?K = 10 ^ 256 * (10 ^ (?K mod 16) * 10 ^ (16 * 2 ^ 0 * ?h))"
      proof -
        have "(10 :: rat) ^ ?K = 10 ^ (256 + (?K mod 16 + 16 * 2 ^ 0 * ?h))" by (rule arg_cong[OF K6(3)])
        then show ?thesis by (simp only: power_add)
      qed
      have nb: "int n_bigtens - 1 = int 4" by (simp add: n_bigtens_def)
      show ?thesis
      proof (rule that[of "fp_div U u t6" 3 2])
        show "(if ?j AND Bletch \<noteq> 0 then andthen (ten_at bigtens (int n_bigtens - 1)) (\<lambda>t. Inr (fp_div U u t, 3, ?j AND (Bletch - 1))) else Inr (u, 2, ?j))
            = Inr (fp_div U u t6, int 3, int ?h)"
          unfolding if_P[OF bl(1)] bl(2) nb t6(1) andthen_simps by simp
        show "near 2 (fp_div U u t6) (V / 10 ^ (?K - (?K mod 16 + 16 * ?h)))" unfolding K6(2) by (rule N)
        show "(10 :: rat) ^ ?K = 10 ^ (?K - (?K mod 16 + 16 * ?h)) * (10 ^ (?K mod 16) * 10 ^ (16 * 2 ^ 0 * ?h))" unfolding K6(2) by (rule T)
      qed simp_all
    next
      case False
      have bl: "\<not> ?j AND Bletch \<noteq> 0" using bletch_bit(1)[OF j(2,3)] False by blast
      have "?j = int (nat ?j)" using j(2) by (simp only: int_nat_eq if_True)
      then have jh: "?j = int ?h" unfolding K(2) using False by (simp only: if_False diff_zero)
      have "?K mod 16 + 16 * ?h = ?K" using False by simp
      then have e: "?K - (?K mod 16 + 16 * ?h) = 0" "(10 :: rat) ^ ?K = 10 ^ (?K mod 16) * 10 ^ (16 * 2 ^ 0 * ?h)"
        by (simp_all flip: power_add)
      show ?thesis using that[of u 2 0] bl jh nu e by simp
    qed
    obtain x' c where x: "quick_prod U ?h 0 t (int e) = Inr (x', int e + int c)" "c \<le> 5 - 0" "near (0 + 2 * c) x' (10 ^ (?K mod 16) * 10 ^ (16 * 2 ^ 0 * ?h))"
      using quick_prod_spec[OF U h5 t(2) _ qp, of "int e"] by auto
    have q: "V / 10 ^ (?K - (?K mod 16 + 16 * ?h)) / (10 ^ (?K mod 16) * 10 ^ (16 * 2 ^ 0 * ?h)) = V / 10 powi k"
      unfolding divide_divide_eq_left u1(5)[symmetric] kp ..
    have "near (Suc (a + (0 + 2 * c))) (fp_div U u1 x') (V / 10 powi k)"
      using near_div[OF U u1(2) x(3)] V u1(3,4) x(2) unfolding q by simp
    moreover have sj: "Suc (a + (0 + 2 * c)) = 2 * (e + c) - 3" using u1(3) by simp
    moreover have "quick_scale U u k = Inr (fp_div U u1 x', int (e + c))"
      unfolding quick_scale_def if_P[OF 1] t(1) andthen_simps Let_def u1(1) prod.case nat_int x(1) by simp
    moreover have "2 \<le> e + c" "e + c \<le> 8" using u1(3,4) x(2) by simp_all
    ultimately show ?thesis unfolding sj by blast
  next
    case 2
    then show ?thesis using near_mono[OF nu, of 1] by (intro exI[of _ u] exI[of _ 2]) (simp add: quick_scale_def)
  next
    case 3
    let ?K = "nat (- k)"
    have "10 powi k = inverse (10 :: rat) ^ ?K" using 3 by (simp only: power_int_def) simp
    then have kp: "V / 10 powi k = V * 10 ^ ?K" by (simp only: divide_inverse power_inverse inverse_inverse_eq)
    have m: "0 \<le> - k AND 15" "- k AND 15 \<le> 22" "nat (- k AND 15) = ?K mod 16" using 3 low_bits(1)[of "- k"] by (auto simp: nat_mod_distrib)
    obtain t z where t: "ten_at tens (- k AND 15) = Inr t" "near 0 t (10 ^ (?K mod 16))" "dbl_val t = of_int z" using tens_near[OF m(1,2)] m(3) by auto
    have j: "nat (drop_bit 4 (- k)) = ?K div 16" using 3 low_bits(2)[of "- k"] by (simp add: nat_div_distrib)
    have h5: "?K div 16 < 2 ^ (5 - 0)" using k by simp
    have e: "V * 10 ^ ?K = V * 10 ^ (?K mod 16) * 10 ^ (16 * 2 ^ 0 * (?K div 16))"
    proof -
      have "(10 :: rat) ^ (?K mod 16 + 16 * 2 ^ 0 * (?K div 16)) = 10 ^ (?K mod 16) * 10 ^ (16 * 2 ^ 0 * (?K div 16))" by (rule power_add)
      then show ?thesis by (simp add: mult.assoc)
    qed
    have big: "(10 :: rat) \<le> 10 ^ 300" by simp
    have "1 \<le> (10 :: rat) ^ (16 * 2 ^ 0 * (?K div 16))" by (rule one_le_power) simp
    then have "V * 10 ^ (?K mod 16) * 1 \<le> V * 10 ^ ?K" unfolding e using V0 by (intro mult_left_mono) auto
    then have s1: "V * 10 ^ (?K mod 16) \<le> 10 ^ 300" and s2: "V * 10 ^ (?K mod 16) * 10 ^ (16 * 2 ^ 0 * (?K div 16)) \<le> 10 ^ 300"
      using V(2) big unfolding kp e by linarith+
    have "near (Suc (0 + 0)) (fp_mul U u t) (V * 10 ^ (?K mod 16))" by (rule near_mul[OF U nu t(2,3) _ s1]) simp
    then have n: "near 1 (fp_mul U u t) (V * 10 ^ (?K mod 16))" by simp
    obtain x' c where x: "quick_prod U (?K div 16) 0 (fp_mul U u t) 2 = Inr (x', 2 + int c)" "c \<le> 5 - 0" "near (1 + 2 * c) x' (V * 10 ^ ?K)"
      using quick_prod_spec[OF U h5 n _ s2, of 2] unfolding e by auto
    have "quick_scale U u k = Inr (x', int (2 + c))"
      unfolding quick_scale_def j using 3 t(1) x(1) by simp
    moreover have sj: "1 + 2 * c = 2 * (2 + c) - 3" and "2 \<le> 2 + c" "2 + c \<le> 8" using x(2) by simp_all
    ultimately show ?thesis using x(3) unfolding kp sj by blast
  qed
qed

end
