(* ===== verification/Dtoa_Quick.thy ===== *)
theory Dtoa_Quick
  imports Dtoa_Scale
begin

text \<open>
The floating-point way to the digits in \<open>dtoa\<close> of \<open>3rd/lua-cjson/dtoa.c\<close>: when it returns digits
  they are the correctly rounded ones, which rests on the error bound \<open>eps\<close> that the code
  computes; otherwise it gives up and the exact ways follow.
\<close>

section \<open>Between one and ten\<close>

lemma spacing_below:
  assumes t: "1 \<le> dbl_exp t" "\<not> dbl_sign t" and d: "dbl_val d < dbl_val t"
  shows "dbl_val d \<le> dbl_val t - dbl_val t / 2 ^ 53"
proof -
  have v: "dbl_val t = of_nat (dbl_mant t) * dbl_unit t" using t(2) by (simp add: dbl_val_def dbl_abs_unit)
  have "dbl_val t / 2 ^ 53 \<le> lower_gap t"
  proof (cases "dbl_frac t = 0")
    case True
    then have "dbl_mant t = 4503599627370496" using t(1) by (simp add: dbl_mant_def)
    then show ?thesis unfolding v lower_gap_def if_P[OF True] by simp
  next
    case False
    have "(of_nat (dbl_mant t) :: rat) \<le> 9007199254740992" using mant_bounds(1)[of t] of_nat_le_iff[of "dbl_mant t" 9007199254740992, where ?'a = rat] by simp
    then have "of_nat (dbl_mant t) * dbl_unit t \<le> 9007199254740992 * dbl_unit t" using dbl_unit_pos[of t] by (intro mult_right_mono) auto
    then show ?thesis unfolding v lower_gap_def if_not_P[OF False] by simp
  qed
  then show ?thesis using dbl_spacing[OF t, of d] d dbl_unit_pos[of t] by linarith
qed

lemma below_one:
  assumes "dbl_val d < 1"
  shows "dbl_val d \<le> 1 - 1 / 2 ^ 53"
proof -
  have "1 \<le> dbl_exp dbl_1" "\<not> dbl_sign dbl_1" by (simp_all add: dbl_1_def dbl_fields)
  then show ?thesis using spacing_below[of dbl_1 d] assms digit_consts(8) by simp
qed

lemma below_ten:
  assumes r: "rounded q d" and q: "q \<le> 10 - 10 / 2 ^ 53"
  shows "dbl_val d < 10"
proof -
  obtain g where g: "dbl_finite g" "dbl_val g = of_nat 5629499534213119 * 2 powi (- 49)" using dyadic_double[of 5629499534213119 "- 49"] by auto
  have gv: "dbl_val g = 10 - 1 / 2 ^ 49" unfolding g(2) by (simp add: power_int_minus_divide)
  have near: "\<bar>dbl_val d - q\<bar> \<le> \<bar>dbl_val g - q\<bar>" using r g(1) unfolding rounded_def by blast
  show ?thesis
  proof (rule ccontr)
    assume "\<not> dbl_val d < 10"
    then have "10 - q \<le> \<bar>dbl_val g - q\<bar>" using near by linarith
    moreover have "10 / 2 ^ 53 \<le> 10 - q" using q by simp
    ultimately show False unfolding gv by (auto simp: abs_if split: if_splits)
  qed
qed

lemma times_ten_below:
  assumes U: "fpu_ieee U" and u: "dbl_finite u" "0 \<le> dbl_val u" "dbl_val u < 1"
  shows "rounded (dbl_val u * 10) (fp_mul U u dbl_10)" "dbl_val (fp_mul U u dbl_10) < 10" "0 \<le> dbl_val (fp_mul U u dbl_10)"
    "\<bar>dbl_val (fp_mul U u dbl_10) - dbl_val u * 10\<bar> \<le> 1 / 2 ^ 50"
proof -
  show r: "rounded (dbl_val u * 10) (fp_mul U u dbl_10)"
    using op_rounded(3)[OF U u(1) digit_consts(1)] small_range[of "dbl_val u * 10"] u digit_consts(2) by simp
  have "dbl_val u * 10 \<le> 10 - 10 / 2 ^ 53" using below_one[OF u(3)] by simp
  then show "dbl_val (fp_mul U u dbl_10) < 10" by (rule below_ten[OF r])
  have "dbl_finite 0" "dbl_val 0 = 0" by (simp_all add: dbl_finite_def dbl_val_def dbl_abs_def dbl_mant_def dbl_exp_def dbl_frac_def)
  then show "0 \<le> dbl_val (fp_mul U u dbl_10)" using rounded_ge[OF r, of 0] u(2) by simp
  show "\<bar>dbl_val (fp_mul U u dbl_10) - dbl_val u * 10\<bar> \<le> 1 / 2 ^ 50"
    using rounded_error[OF r, of "- 49"] u by (simp add: power_int_minus_divide)
qed

lemma quick_scale_exact:
  assumes U: "fpu_ieee U" and u: "dbl_finite u" "dbl_val u = V" and k: "- 1 \<le> k" "k \<le> 22" and V: "1 \<le> V / 10 powi k" "V / 10 powi k < 10"
    and run: "quick_scale U u k = Inr (u1, c)"
  shows "rounded (V / 10 powi k) u1"
proof -
  have rng: "\<bar>V / 10 powi k\<bar> < 2 powi (1023 :: int)" by (rule small_range) (use V in linarith)
  consider "k = - 1" | "k = 0" | "0 < k" by (use k in linarith)
  then show ?thesis
  proof cases
    case 1
    obtain t where t: "ten_at tens 1 = Inr t" "dbl_finite t" "dbl_val t = 10 ^ nat 1" using tens_value[of 1] by (auto simp: Ten_pmax_def)
    have e: "V / 10 powi k = V * dbl_val t" using t(3) unfolding 1 by (simp add: power_int_minus_divide)
    have "(1 :: int) AND 15 = 1" "drop_bit 4 (1 :: int) = 0" using low_bits[of 1] by simp_all
    then have "u1 = fp_mul U u t" using run t(1) unfolding quick_scale_def 1 by (simp add: quick_prod.simps[of U 0])
    then show ?thesis using op_rounded(3)[OF U u(1) t(2)] rng u(2) unfolding e by simp
  next
    case 2
    then have "u1 = u" using run by (simp add: quick_scale_def)
    then show ?thesis using 2 u by (simp add: rounded_def)
  next
    case 3
    obtain T where T: "ten_at tens k = Inr T" "dbl_finite T" "dbl_val T = 10 ^ nat k" using tens_value[of k] 3 k by (auto simp: Ten_pmax_def)
    have kT: "10 powi k = dbl_val T" using T(3) 3 by (simp add: power_int_def)
    have "\<exists>ds. u1 = fp_div U u ds \<and> dbl_finite ds \<and> dbl_val ds = dbl_val T"
    proof (cases "k < 16")
      case True
      then have "k AND 15 = k" "drop_bit 4 k = 0" using low_bits[of k] 3 by simp_all
      then have "u1 = fp_div U u T" using run T(1) 3 unfolding quick_scale_def by (simp add: Bletch_def quick_prod.simps[of U 0])
      then show ?thesis using T by blast
    next
      case False
      have m: "k AND 15 = k - 16" "drop_bit 4 k = 1" using low_bits[of k] False k
      proof -
        have "16 \<le> x \<Longrightarrow> x < 32 \<Longrightarrow> x mod 16 = x - 16 \<and> x div 16 = 1" for x :: int by presburger
        from this[of k] show "k AND 15 = k - 16" "drop_bit 4 k = 1" using low_bits[of k] False k by simp_all
      qed
      obtain t where t: "ten_at tens (k - 16) = Inr t" "dbl_finite t" "dbl_val t = 10 ^ nat (k - 16)" using tens_value[of "k - 16"] False k by (auto simp: Ten_pmax_def)
      have b: "ten_at bigtens 0 = Inr (bigtens ! 0)" by (simp add: ten_at_def bigtens_def)
      have "dbl_is_nat (bigtens ! 0) (5000000000000000 * 2 ^ 1)" using list_all2_nthD[OF bigtens_all, of 0] by (simp add: bigtens_def)
      from dbl_is_natD[OF this] have b1: "dbl_finite (bigtens ! 0)" "dbl_val (bigtens ! 0) = 10 ^ 16" by simp_all
      have bl: "(1 :: int) AND Bletch = 0" using bletch_bit(1)[of 1] by simp
      have "u1 = fp_div U u (fp_mul U t (bigtens ! 0))"
        using run t(1) b 3 unfolding quick_scale_def m by (simp add: bl quick_prod.simps[of U "Suc 0"] quick_prod.simps[of U 0])
      moreover have p: "dbl_val t * dbl_val (bigtens ! 0) = dbl_val T"
      proof -
        have "nat k = nat (k - 16) + 16" using False by simp
        then have "(10 :: rat) ^ nat k = 10 ^ (nat (k - 16) + 16)" by (rule arg_cong)
        then show ?thesis unfolding t(3) b1(2) T(3) by (simp only: power_add)
      qed
      have "(10 :: rat) ^ nat k \<le> 10 ^ 22" using k by (intro power_increasing) auto
      then have "\<bar>dbl_val T\<bar> < 2 powi (1023 :: int)" unfolding T(3) by (simp add: abs_of_pos)
      then have "rounded (dbl_val T) (fp_mul U t (bigtens ! 0))" using op_rounded(3)[OF U t(2) b1(1)] unfolding p by blast
      from rounded_value[OF this T(2)] have "dbl_finite (fp_mul U t (bigtens ! 0)) \<and> dbl_val (fp_mul U t (bigtens ! 0)) = dbl_val T" .
      ultimately show ?thesis by blast
    qed
    then obtain ds where ds: "u1 = fp_div U u ds" "dbl_finite ds" "dbl_val ds = dbl_val T" by blast
    have "dbl_val T \<noteq> 0" unfolding T(3) by simp
    then show ?thesis using op_rounded(4)[OF U u(1) ds(2)] rng u(2) ds unfolding kT by simp
  qed
qed


section \<open>The number whose digits are generated\<close>

definition scaled :: "rat \<Rightarrow> int \<Rightarrow> int \<Rightarrow> double \<Rightarrow> nat \<Rightarrow> bool" where
  \<comment> \<open>\<open>u\<close> is \<open>V / 10 ^ k\<close> after so many roundings, and \<open>k\<close> is the exponent \<open>f\<close> unless \<open>V\<close> is at a power of ten\<close>
  "scaled V f k u c \<longleftrightarrow> near (2 * c - 3) u (V / 10 powi k) \<and> 1 \<le> dbl_val u \<and> dbl_val u < 10 \<and> 2 \<le> c \<and> c \<le> 9
     \<and> f - 1 \<le> k \<and> k \<le> f + 1"

lemma scaled_up:
  assumes U: "fpu_ieee U" and n: "near (2 * c - 3) u (V / 10 powi k)" "2 \<le> c" "c \<le> 8" and V: "1 / 2 \<le> V / 10 powi k" "dbl_val u < 1"
    and k: "f \<le> k" "k \<le> f + 1"
  shows "scaled V f (k - 1) (fp_mul U u dbl_10) (c + 1)"
proof -
  have u: "dbl_finite u" "0 < dbl_val u" using n(1) near_pos[OF n(1)] by (simp_all add: near_def)
  have g2: "grow ^ (2 * c - 3) \<le> 2" by (rule grow_le_2) (use n(3) in simp)
  have "V / 10 powi k \<le> dbl_val u * grow ^ (2 * c - 3)" using n(1) by (simp add: near_def)
  also have "\<dots> \<le> dbl_val u * 2" using g2 u(2) by (intro mult_left_mono) auto
  finally have u4: "1 / 4 \<le> dbl_val u" using V(1) by linarith
  note t = times_ten_below[OF U u(1) less_imp_le[OF u(2)] V(2)]
  have p: "V / 10 powi k * 10 = V / 10 powi (k - 1)" by (simp add: power_int_diff)
  have t10: "near 0 dbl_10 10" "dbl_val dbl_10 = of_int 10" using digit_consts(1,2) by (simp_all add: near_exact)
  have le: "V / 10 powi k * 10 \<le> 10 ^ 300"
  proof -
    have "V / 10 powi k \<le> 2" using \<open>V / 10 powi k \<le> dbl_val u * grow ^ (2 * c - 3)\<close> \<open>dbl_val u * grow ^ (2 * c - 3) \<le> dbl_val u * 2\<close> V(2) by linarith
    then have "V / 10 powi k * 10 \<le> 2 * 10" by (rule mult_right_mono) simp
    also have "\<dots> \<le> 10 ^ 300" by simp
    finally show ?thesis .
  qed
  have "near (Suc (2 * c - 3 + 0)) (fp_mul U u dbl_10) (V / 10 powi (k - 1))"
    using near_mul[OF U n(1) t10 _ le] n(3) unfolding p by simp
  then have "near (2 * (c + 1) - 3) (fp_mul U u dbl_10) (V / 10 powi (k - 1))" by (rule near_mono) (use n(2) in simp)
  moreover have "1 \<le> dbl_val (fp_mul U u dbl_10)" using t(4) u4 by (auto simp: abs_if split: if_splits)
  ultimately show ?thesis unfolding scaled_def using t(2) n(2,3) k by simp
qed

lemma quick_start:
  assumes U: "fpu_ieee U" and u: "dbl_finite u" "dbl_val u = V" and f: "10 powi f \<le> V" "V < 10 powi (f + 1)" and k: "estimated V f k check"
  shows "\<exists>u1 c. quick_scale U u k = Inr (u1, int c)
    \<and> (if check \<and> dbl_lt u1 dbl_1 then scaled V f (k - 1) (fp_mul U u1 dbl_10) (c + 1) else scaled V f k u1 c)"
proof -
  have kf: "k = f \<or> k = f + 1" using k by (auto simp: estimated_def split: if_splits)
  have rng: "- 324 \<le> f" "f \<le> 308" using decade_range[OF u(1)] f unfolding u(2) by blast+
  have p: "(0 :: rat) < 10 powi f" "(10 :: rat) powi (f + 1) = 10 * 10 powi f" by (simp_all add: zero_less_power_int power_int_add)
  have W: "1 / 2 \<le> V / 10 powi k" "V / 10 powi k \<le> 10" "k = f \<longrightarrow> 1 \<le> V / 10 powi k \<and> V / 10 powi k < 10"
    "k = f + 1 \<longrightarrow> V / 10 powi k < 1" "check \<longrightarrow> V / 10 powi k < 10 * (1 - 1 / 2 ^ 32)"
  proof -
    have "k = f + 1 \<longrightarrow> 9 / 10 * 10 powi (f + 1) < V" using k by (auto simp: estimated_def split: if_splits)
    then show "1 / 2 \<le> V / 10 powi k" using kf f p by (auto simp: field_simps)
    show "V / 10 powi k \<le> 10" "k = f \<longrightarrow> 1 \<le> V / 10 powi k \<and> V / 10 powi k < 10" "k = f + 1 \<longrightarrow> V / 10 powi k < 1"
      using kf f p by (auto simp: field_simps)
    show "check \<longrightarrow> V / 10 powi k < 10 * (1 - 1 / 2 ^ 32)"
    proof
      assume check
      then have "k = f \<and> V < 10 powi (f + 1) * (1 - 1 / 2 ^ 32) \<or> k = f + 1" using k by (auto simp: estimated_def)
      then show "V / 10 powi k < 10 * (1 - 1 / 2 ^ 32)"
      proof
        assume a: "k = f \<and> V < 10 powi (f + 1) * (1 - 1 / 2 ^ 32)"
        then have "V / 10 powi f < 10 powi (f + 1) * (1 - 1 / 2 ^ 32) / 10 powi f" using p(1) by (intro divide_strict_right_mono) auto
        then show ?thesis using a p by simp
      next
        assume a: "k = f + 1"
        then have "V / 10 powi k < 1" using f(2) p by (simp add: field_simps)
        then show ?thesis by (rule less_trans) simp
      qed
    qed
  qed
  obtain u1 c where run: "quick_scale U u k = Inr (u1, int c)" "2 \<le> c" "c \<le> 8" "near (2 * c - 3) u1 (V / 10 powi k)"
    using quick_scale_spec[OF U u _ _ W(1,2)] kf rng by auto
  have u1: "dbl_finite u1" using run(4) by (simp add: near_def)
  have lt: "dbl_lt u1 dbl_1 \<longleftrightarrow> dbl_val u1 < 1" using dbl_lt_iff[OF u1 digit_consts(7)] digit_consts(8) by simp
  have k1: "f \<le> k" "k \<le> f + 1" using kf by auto
  show ?thesis
  proof (cases "check \<and> dbl_lt u1 dbl_1")
    case True
    then show ?thesis using scaled_up[OF U run(4,2,3) W(1) _ k1] run(1) lt by auto
  next
    case False
    have "1 \<le> dbl_val u1 \<and> dbl_val u1 < 10"
    proof (cases check)
      case True
      then have "1 \<le> dbl_val u1" using False lt by auto
      moreover have "dbl_val u1 < 10"
      proof -
        have j: "2 * c - 3 \<le> 40" "(of_nat (2 * c - 3) :: rat) \<le> 40" using run(3) of_nat_le_iff[of "2 * c - 3" 40, where ?'a = rat] by simp_all
        have "dbl_val u1 \<le> V / 10 powi k * grow ^ (2 * c - 3)" using run(4) by (simp add: near_def)
        also have "\<dots> \<le> 10 * (1 - 1 / 2 ^ 32) * grow ^ (2 * c - 3)"
          using W(5) True grow_gt(4)[of "2 * c - 3"] by (intro mult_right_mono) auto
        also have "\<dots> \<le> 10 * (1 - 1 / 2 ^ 32) * (1 + (40 + 1 / 100) / 2 ^ 53)"
        proof (rule mult_left_mono)
          have "(of_nat (2 * c - 3) + 1 / 100) / 2 ^ 53 \<le> ((40 + 1 / 100) / 2 ^ 53 :: rat)" using j(2) by (intro divide_right_mono) auto
          then show "grow ^ (2 * c - 3) \<le> 1 + (40 + 1 / 100) / 2 ^ 53" using grow_bound[OF j(1)] by linarith
        qed simp
        also have "\<dots> < 10" by simp
        finally show ?thesis .
      qed
      ultimately show ?thesis by blast
    next
      case nc: False
      then have kk: "k = f" "- 1 \<le> k" "k \<le> 22" using k by (auto simp: estimated_def)
      have w: "1 \<le> V / 10 powi k" "V / 10 powi k < 10" using W(3) kk(1) by blast+
      have r: "rounded (V / 10 powi k) u1" by (rule quick_scale_exact[OF U u kk(2,3) w run(1)])
      have "1 \<le> dbl_val u1" using rounded_ge[OF r digit_consts(7)] w(1) digit_consts(8) by simp
      moreover have "dbl_val u1 < 10"
      proof (rule below_ten[OF r], cases "k \<le> 21")
        case True
        let ?i = "nat (k + 1)"
        have t: "dbl_is_nat (tens ! ?i) (10 ^ ?i)" by (rule tens_fields) (use True in simp)
        have "dbl_val (tens ! ?i) = 10 powi (f + 1)" using dbl_is_natD(2)[OF t] kk by (simp add: power_int_def)
        then have "V \<le> 10 powi (f + 1) - 10 powi (f + 1) / 2 ^ 53"
          using spacing_below[of "tens ! ?i" u] t f(2) u(2) by (simp add: dbl_is_nat_def)
        then have "V / 10 powi f \<le> (10 powi (f + 1) - 10 powi (f + 1) / 2 ^ 53) / 10 powi f" using p(1) by (intro divide_right_mono) auto
        also have "\<dots> = 10 - 10 / 2 ^ 53" unfolding p(2) using p(1) by (simp add: diff_divide_distrib)
        finally show "V / 10 powi k \<le> 10 - 10 / 2 ^ 53" unfolding kk(1) .
      next
        case False
        then have "V < 10 powi (f + 1) * (1 - 1 / 2 ^ 32)" using k nc by (auto simp: estimated_def)
        then have "V / 10 powi f \<le> 10 powi (f + 1) * (1 - 1 / 2 ^ 32) / 10 powi f" using p(1) by (intro divide_right_mono) auto
        also have "\<dots> = 10 * (1 - 1 / 2 ^ 32)" unfolding p(2) using p(1) by simp
        also have "\<dots> \<le> 10 - 10 / 2 ^ 53" by simp
        finally show "V / 10 powi k \<le> 10 - 10 / 2 ^ 53" unfolding kk(1) .
      qed
      ultimately show ?thesis by blast
    qed
    then show ?thesis using run False k1 by (auto simp: scaled_def)
  qed
qed

section \<open>The error bound\<close>

lemma large_exponent:
  assumes "1 \<le> dbl_val d"
  shows "1023 \<le> dbl_exp d" "\<not> dbl_sign d"
proof -
  have "0 \<le> dbl_abs d" by (simp add: dbl_abs_def)
  then show s: "\<not> dbl_sign d" using assms by (auto simp: dbl_val_def)
  show "1023 \<le> dbl_exp d"
  proof (rule ccontr)
    assume c: "\<not> 1023 \<le> dbl_exp d"
    have "(of_nat (dbl_mant d) :: rat) < 2 powi 53" using mant_bounds(1)[of d] by simp
    then have "dbl_val d < 2 powi 53 * 2 powi (int (max 1 (dbl_exp d)) - 1075)"
      unfolding fields_val[OF refl refl s] by (intro mult_strict_right_mono) (simp_all add: zero_less_power_int)
    also have "\<dots> = 2 powi (53 + (int (max 1 (dbl_exp d)) - 1075))" by (rule power_int_add[symmetric]) simp
    also have "\<dots> \<le> 2 powi 0" using c by (intro power_int_increasing) auto
    finally show False using assms by simp
  qed
qed

lemma quick_eps_spec:
  assumes U: "fpu_ieee U" and u: "dbl_finite u" "1 \<le> dbl_val u" "dbl_val u < 10" and c: "c \<le> 9"
  shows "dbl_finite (quick_eps U (int c) u)" "(of_nat c * dbl_val u + 7 - 1 / 2 ^ 46) / 2 ^ 52 \<le> dbl_val (quick_eps U (int c) u)"
    "dbl_val (quick_eps U (int c) u) \<le> 98 / 2 ^ 52"
proof -
  let ?c = "dbl_of_int U (int c)" and ?q = "of_nat c * dbl_val u"
  have dc: "dbl_finite ?c" "dbl_val ?c = of_nat c" using dbl_of_int_val[OF U, of "int c"] c by simp_all
  have cr: "0 \<le> (of_nat c :: rat)" "(of_nat c :: rat) \<le> 9" using c of_nat_le_iff[of c 9, where ?'a = rat] by simp_all
  have q: "0 \<le> ?q" "?q \<le> 90" using cr u mult_mono[of "of_nat c" "9 :: rat" "dbl_val u" 10] by simp_all
  let ?a = "fp_mul U ?c u"
  have ra: "rounded ?q ?a" using op_rounded(3)[OF U dc(1) u(1)] q small_range[of ?q] unfolding dc(2) by simp
  have ea: "\<bar>dbl_val ?a - ?q\<bar> \<le> 1 / 2 ^ 47" using rounded_error[OF ra, of "- 46"] q by (simp add: power_int_minus_divide)
  have s47: "(1 :: rat) / 2 ^ 47 \<le> 1 / 4" "(1 :: rat) / 2 ^ 47 + 1 / 2 ^ 47 = 1 / 2 ^ 46" by simp_all
  let ?b = "fp_add U ?a dbl_7"
  have q2: "0 \<le> dbl_val ?a + 7" "dbl_val ?a + 7 \<le> 975 / 10" using ea q s47 by linarith+
  have rb: "rounded (dbl_val ?a + 7) ?b"
    using op_rounded(1)[OF U rounded_finite[OF ra] digit_consts(3)] q2 small_range[of "dbl_val ?a + 7"] unfolding digit_consts(4) by simp
  have eb: "\<bar>dbl_val ?b - (dbl_val ?a + 7)\<bar> \<le> 1 / 2 ^ 47" using rounded_error[OF rb, of "- 46"] q2 by (simp add: power_int_minus_divide)
  have b: "?q + 7 - 1 / 2 ^ 46 \<le> dbl_val ?b" "dbl_val ?b \<le> 98" "1 \<le> dbl_val ?b" using ea eb q2 q s47 by linarith+
  have w: "exp_word_of (int P_bits - 1) = of_nat (52 * 1048576)" by (simp add: exp_word_of_def P_bits_def Exp_msk1_def)
  have "52 < dbl_exp ?b" using large_exponent(1)[OF b(3)] by simp
  note e = lower_exp[OF large_exponent(2)[OF b(3)] rounded_finite[OF rb] this w]
  show "dbl_finite (quick_eps U (int c) u)" unfolding quick_eps_def by (rule e(2))
  show "(?q + 7 - 1 / 2 ^ 46) / 2 ^ 52 \<le> dbl_val (quick_eps U (int c) u)" "dbl_val (quick_eps U (int c) u) \<le> 98 / 2 ^ 52"
    unfolding quick_eps_def e(3) using b by (simp_all only: divide_right_mono zero_le_power zero_le_numeral)
qed


definition fix_bound :: "nat \<Rightarrow> rat \<Rightarrow> nat \<Rightarrow> rat" where
  \<comment> \<open>less than the error bound for so many digits\<close>
  "fix_bound c y p = (of_nat c * y + 5) * 10 ^ (p - 1) / 2 ^ 52"

lemma quick_limits:
  assumes U: "fpu_ieee U" and u: "dbl_finite u" "1 \<le> dbl_val u" "dbl_val u < 10" and c: "c \<le> 9" and p: "0 < p" "p \<le> 14"
    and t: "dbl_finite t" "dbl_val t = 10 ^ (p - 1)"
  shows "dbl_finite (fp_add U dbl_half (fp_mul U (quick_eps U (int c) u) t)) \<and> dbl_finite (fp_sub U dbl_half (fp_mul U (quick_eps U (int c) u) t))
    \<and> 1 / 2 + fix_bound c (dbl_val u) p \<le> dbl_val (fp_add U dbl_half (fp_mul U (quick_eps U (int c) u) t))
    \<and> dbl_val (fp_sub U dbl_half (fp_mul U (quick_eps U (int c) u) t)) \<le> 1 / 2 - fix_bound c (dbl_val u) p"
proof -
  let ?eps = "quick_eps U (int c) u" and ?E = "10 ^ (p - 1) :: rat" and ?y = "of_nat c * dbl_val u"
  note e0 = quick_eps_spec[OF U u c]
  have "p - 1 \<le> 13" using p by simp
  then have E: "1 \<le> ?E" "?E \<le> 10 ^ 13" by (simp, intro power_increasing) auto
  have y: "0 \<le> ?y" using u by simp
  have k0: "0 \<le> (7 - 1 / 2 ^ 46) / (2 ^ 52 :: rat)" by simp
  have "(7 - 1 / 2 ^ 46) / 2 ^ 52 \<le> (?y + 7 - 1 / 2 ^ 46) / 2 ^ 52" using y by (intro divide_right_mono) auto
  then have e0p: "0 \<le> dbl_val ?eps" using e0(2) k0 by linarith
  have "dbl_val ?eps * ?E \<le> 98 / 2 ^ 52 * 10 ^ 13" using e0(3) e0p E by (intro mult_mono) auto
  also have "\<dots> \<le> 1 / 2" by simp
  finally have q: "0 \<le> dbl_val ?eps * ?E" "dbl_val ?eps * ?E \<le> 1 / 2" using e0p E by simp_all
  let ?e = "fp_mul U ?eps t"
  have "\<bar>dbl_val ?eps * ?E\<bar> < 4294967296" using q by linarith
  then have re: "rounded (dbl_val ?eps * ?E) ?e" using op_rounded(3)[OF U e0(1) t(1)] small_range unfolding t(2) by blast
  have ee: "\<bar>dbl_val ?e - dbl_val ?eps * ?E\<bar> \<le> 1 / 2 ^ 54" using rounded_error[OF re, of "- 53"] q by (simp add: power_int_minus_divide)
  have lo: "(?y + 7 - 1 / 2 ^ 46) / 2 ^ 52 * ?E \<le> dbl_val ?eps * ?E" using e0(2) E by (intro mult_right_mono) auto
  have s: "(1 :: rat) / 2 ^ 54 \<le> 1 / 4" by simp
  have v: "- 1 / 4 \<le> dbl_val ?e" "dbl_val ?e \<le> 3 / 4" using ee q s by linarith+
  have ra: "rounded (1 / 2 + dbl_val ?e) (fp_add U dbl_half ?e)"
    using op_rounded(1)[OF U digit_consts(5) rounded_finite[OF re]] v small_range[of "1 / 2 + dbl_val ?e"] unfolding digit_consts(6) by simp
  have rs: "rounded (1 / 2 - dbl_val ?e) (fp_sub U dbl_half ?e)"
    using op_rounded(2)[OF U digit_consts(5) rounded_finite[OF re]] v small_range[of "1 / 2 - dbl_val ?e"] unfolding digit_consts(6) by simp
  have ea: "\<bar>dbl_val (fp_add U dbl_half ?e) - (1 / 2 + dbl_val ?e)\<bar> \<le> 1 / 2 ^ 53"
    using rounded_error[OF ra, of "- 52"] v by (simp add: power_int_minus_divide)
  have es: "\<bar>dbl_val (fp_sub U dbl_half ?e) - (1 / 2 - dbl_val ?e)\<bar> \<le> 1 / 2 ^ 53"
    using rounded_error[OF rs, of "- 52"] v by (simp add: power_int_minus_divide)
  have split: "(?y + 7 - 1 / 2 ^ 46) / 2 ^ 52 * ?E = fix_bound c (dbl_val u) p + (2 - 1 / 2 ^ 46) / 2 ^ 52 * ?E"
    unfolding fix_bound_def by (simp add: field_simps)
  have "(2 - 1 / 2 ^ 46) / 2 ^ 52 * 1 \<le> (2 - 1 / 2 ^ 46) / 2 ^ 52 * ?E" using E by (intro mult_left_mono) auto
  moreover have "(1 :: rat) / 2 ^ 53 + 1 / 2 ^ 54 \<le> (2 - 1 / 2 ^ 46) / 2 ^ 52 * 1" by simp
  ultimately have slack: "fix_bound c (dbl_val u) p + (1 / 2 ^ 53 + 1 / 2 ^ 54) \<le> dbl_val ?eps * ?E" using lo unfolding split by linarith
  have "1 / 2 + fix_bound c (dbl_val u) p \<le> dbl_val (fp_add U dbl_half ?e)" "dbl_val (fp_sub U dbl_half ?e) \<le> 1 / 2 - fix_bound c (dbl_val u) p"
    using slack ea es ee by linarith+
  then show ?thesis using rounded_finite[OF ra] rounded_finite[OF rs] by blast
qed

section \<open>One digit\<close>

lemma fraction_exact:
  assumes U: "fpu_ieee U" and v: "dbl_finite v" "0 \<le> dbl_val v" "dbl_val v < 10"
  shows "dbl_to_int v = Inr \<lfloor>dbl_val v\<rfloor>" "dbl_finite (fp_sub U v (dbl_of_int U \<lfloor>dbl_val v\<rfloor>))"
    "dbl_val (fp_sub U v (dbl_of_int U \<lfloor>dbl_val v\<rfloor>)) = dbl_val v - of_int \<lfloor>dbl_val v\<rfloor>"
proof -
  let ?L = "\<lfloor>dbl_val v\<rfloor>"
  have L: "0 \<le> ?L" "?L < 10" using v(2,3) by (simp_all add: floor_less_iff)
  show "dbl_to_int v = Inr ?L" using dbl_to_int_val[OF v(1)] v by simp
  have d: "dbl_finite (dbl_of_int U ?L)" "dbl_val (dbl_of_int U ?L) = of_int ?L" using dbl_of_int_val[OF U, of ?L] L by simp_all
  have b: "of_int ?L \<le> dbl_val v" "dbl_val v < of_int ?L + 1" using floor_correct[of "dbl_val v"] by simp_all
  have rng: "\<bar>dbl_val v - of_int ?L\<bar> < 4294967296" using b by (simp add: abs_less_iff)
  have r: "rounded (dbl_val v - of_int ?L) (fp_sub U v (dbl_of_int U ?L))"
    using op_rounded(2)[OF U v(1) d(1)] small_range[OF rng] unfolding d(2) by blast
  obtain z where z: "dbl_val v = of_nat z * 2 powi (- int (1075 - max 1 (dbl_exp v)))" "z < 9007199254740992"
  proof (cases "dbl_sign v")
    case True
    have "0 \<le> dbl_abs v" by (simp add: dbl_abs_def)
    then have "dbl_val v = 0" using v(2) True by (simp add: dbl_val_def)
    then show ?thesis using that[of 0] by simp
  next
    case False
    have "max 1 (dbl_exp v) \<le> 1075"
    proof (rule ccontr)
      assume e: "\<not> max 1 (dbl_exp v) \<le> 1075"
      then have "4503599627370496 \<le> dbl_mant v" using mant_bounds(2)[of v] by simp
      then have "(4503599627370496 :: rat) \<le> of_nat (dbl_mant v)" using of_nat_le_iff[of 4503599627370496 "dbl_mant v", where ?'a = rat] by simp
      moreover have "(1 :: rat) \<le> 2 powi (int (max 1 (dbl_exp v)) - 1075)" by (rule one_le_power_int) (use e in simp_all)
      ultimately have "4503599627370496 * 1 \<le> dbl_val v" unfolding fields_val[OF refl refl False] by (intro mult_mono) auto
      then show False using v(3) by simp
    qed
    then have e: "int (max 1 (dbl_exp v)) - 1075 = - int (1075 - max 1 (dbl_exp v))" by linarith
    show ?thesis by (rule that[OF fields_val[OF refl refl False, unfolded e] mant_bounds(1)])
  qed
  let ?j = "1075 - max 1 (dbl_exp v)" and ?g = "2 powi (- int (1075 - max 1 (dbl_exp v))) :: rat"
  have g: "0 < ?g" "?g * 2 ^ ?j = 1" by (simp_all add: zero_less_power_int power_int_minus)
  have e: "dbl_val v - of_int ?L = of_int (int z - ?L * 2 ^ ?j) * ?g"
  proof -
    have "(a - c * d) * x = a * x - c * (x * d)" for a c d x :: rat by (simp add: algebra_simps)
    from this[of "of_nat z" "of_int ?L" "2 ^ ?j" ?g] have "(of_nat z - of_int ?L * 2 ^ ?j) * ?g = dbl_val v - of_int ?L" unfolding g(2) z(1)[symmetric] by simp
    then show ?thesis by simp
  qed
  have "0 * ?g \<le> of_int (int z - ?L * 2 ^ ?j) * ?g" using b(1) unfolding e[symmetric] by simp
  then have z0: "0 \<le> int z - ?L * 2 ^ ?j" unfolding mult_le_cancel_right_pos[OF g(1)] by (simp only: of_int_0_le_iff)
  have "0 \<le> ?L * 2 ^ ?j" using L by simp
  then have "\<bar>int z - ?L * 2 ^ ?j\<bar> \<le> 9007199254740992" using z0 z(2) by linarith
  then have "dbl_val (fp_sub U v (dbl_of_int U ?L)) = dbl_val v - of_int ?L" by (rule rounded_dyadic[OF r e]) simp_all
  then show "dbl_finite (fp_sub U v (dbl_of_int U ?L))" "dbl_val (fp_sub U v (dbl_of_int U ?L)) = dbl_val v - of_int ?L"
    using rounded_finite[OF r] by blast+
qed

definition close_digits :: "rat \<Rightarrow> nat \<Rightarrow> rat \<Rightarrow> string \<times> bool \<Rightarrow> bool" where
  \<comment> \<open>digits of a number near \<open>y\<close>\<close>
  "close_digits y p b ds \<longleftrightarrow>
     (\<exists>R. rounded_digits p R ds \<and> trimmed (fst ds) \<and> 10 ^ (p - 1) \<le> R
        \<and> \<bar>y * 10 ^ (p - 1) - of_nat R\<bar> \<le> 1 / 2 - b + 10 ^ (p - 1) / (9 * 2 ^ 50))"

definition limits :: "fpu \<Rightarrow> double \<Rightarrow> rat \<Rightarrow> bool" where
  "limits U eps b \<longleftrightarrow> dbl_finite (fp_add U dbl_half eps) \<and> dbl_finite (fp_sub U dbl_half eps)
     \<and> 1 / 2 + b \<le> dbl_val (fp_add U dbl_half eps) \<and> dbl_val (fp_sub U dbl_half eps) \<le> 1 / 2 - b"

lemma trim_close:
  assumes P: "0 < P" "P < 10 ^ i" "i \<le> p" and R: "R = P * 10 ^ (p - i)"
  shows "\<exists>out. trim_text (fixed_digits i P) = Inr out \<and> rounded_digits p R (out, False) \<and> trimmed out"
proof -
  obtain out where o: "trim_text (fixed_digits i P) = Inr out" "rounded_digits i P (out, False)" using trim_rounded[OF P(2,1)] by blast
  have "out = strip_zeros (fixed_digits i P)" using trim_text_digits[OF P(1,2)] o(1) by simp
  then have t: "trimmed out" by simp
  have "(10::nat) ^ i * 10 ^ (p - i) = 10 ^ p" using P(3) by (simp flip: power_add)
  then have lt: "R < 10 ^ p" unfolding R using P(2) by (metis mult_less_mono1 zero_less_numeral zero_less_power)
  have "i + (p - i) = p" using P(3) by simp
  then have "strip_zeros (fixed_digits p R) = strip_zeros (fixed_digits i P)" using strip_fixed_shift[of i "p - i" P] unfolding R by simp
  then have "rounded_digits p R (out, False)" using o(2) lt P(3) by (auto simp: rounded_digits_def)
  then show ?thesis using o(1) t by blast
qed


lemma last_digit_close:
  assumes b: "0 \<le> b" and p: "0 < p" and P: "P < 10 ^ p" "10 ^ (p - 1) \<le> P"
    and y: "\<bar>y * 10 ^ (p - 1) - (of_nat P + r)\<bar> \<le> 10 ^ (p - 1) / (9 * 2 ^ 50)" and r: "0 \<le> r" "r < 1"
  shows "1 / 2 + b < r \<Longrightarrow> \<exists>ds. round_up (fixed_digits p P) = Inr ds \<and> close_digits y p b ds"
    "r < 1 / 2 - b \<Longrightarrow> \<exists>out. trim_text (fixed_digits p P) = Inr out \<and> close_digits y p b (out, False)"
proof -
  define K where "K = (10 ^ (p - 1) / (9 * 2 ^ 50) :: rat)"
  have y': "\<bar>y * 10 ^ (p - 1) - (of_nat P + r)\<bar> \<le> K" using y unfolding K_def .
  have "0 < P" using P(2) by (rule less_le_trans[rotated]) simp
  show "\<exists>ds. round_up (fixed_digits p P) = Inr ds \<and> close_digits y p b ds" if r2: "1 / 2 + b < r"
  proof -
    obtain out c where o: "round_up (fixed_digits p P) = Inr (out, c)" "rounded_digits p (P + 1) (out, c)" using round_up_rounded[OF P(1) p] by blast
    have "\<bar>y * 10 ^ (p - 1) - of_nat (P + 1)\<bar> \<le> 1 / 2 - b + K" using y' r2 r unfolding of_nat_add of_nat_1 by linarith
    then show ?thesis using o round_up_trimmed[OF o(1)] P(2) unfolding close_digits_def K_def by fastforce
  qed
  show "\<exists>out. trim_text (fixed_digits p P) = Inr out \<and> close_digits y p b (out, False)" if r2: "r < 1 / 2 - b"
  proof -
    have "\<bar>y * 10 ^ (p - 1) - of_nat P\<bar> \<le> 1 / 2 - b + K" using y' r2 r by linarith
    then show ?thesis using trim_close[OF \<open>0 < P\<close> P(1) order_refl, of P] P(2) unfolding close_digits_def K_def by fastforce
  qed
qed

lemma fixed_step:
  assumes U: "fpu_ieee U" and sz: "int j < rv_cap sz" and v: "dbl_finite v" "0 \<le> dbl_val v" "dbl_val v < 10" and P: "P < 10 ^ j"
  shows "\<exists>P' r. quick_fixed U sz ilim (int (Suc j)) eps v (fixed_digits j P) =
      (if int (Suc j) = (if dbl_val r = 0 then int (Suc j) else ilim) then
         if dbl_lt (fp_add U dbl_half eps) r then andthen (round_up (fixed_digits (Suc j) P')) (\<lambda>r. Inr (Some r))
         else if dbl_lt r (fp_sub U dbl_half eps) then andthen (trim_text (fixed_digits (Suc j) P')) (\<lambda>out. Inr (Some (out, False)))
         else Inr None
       else quick_fixed U sz ilim (int (Suc (Suc j))) eps (fp_mul U r dbl_10) (fixed_digits (Suc j) P'))
    \<and> dbl_finite r \<and> 0 \<le> dbl_val r \<and> dbl_val r < 1 \<and> 10 * of_nat P + dbl_val v = of_nat P' + dbl_val r \<and> P' < 10 ^ Suc j"
proof -
  obtain l where l: "\<lfloor>dbl_val v\<rfloor> = int l" "l < 10"
  proof -
    have "0 \<le> \<lfloor>dbl_val v\<rfloor>" "\<lfloor>dbl_val v\<rfloor> < 10" using v(2,3) by (simp_all add: floor_less_iff)
    then show ?thesis by (intro that[of "nat \<lfloor>dbl_val v\<rfloor>"]) linarith+
  qed
  let ?r = "fp_sub U v (dbl_of_int U (int l))" and ?P = "10 * P + l"
  note f = fraction_exact[OF U v, unfolded l(1)]
  have d: "store_digit sz (fixed_digits j P) (int l) = Inr (fixed_digits (Suc j) ?P)"
    using store_digit_ok[of l "fixed_digits j P" sz] l(2) sz fixed_digits_snoc[OF l(2), of j P] by simp
  have r: "0 \<le> dbl_val ?r" "dbl_val ?r < 1" using f(3) floor_correct[of "dbl_val v"] unfolding l(1) by simp_all
  have "?P < 10 ^ Suc j" using P l(2) by simp
  moreover have "10 * of_nat P + dbl_val v = of_nat ?P + dbl_val ?r" using f(3) by simp
  moreover have "quick_fixed U sz ilim (int (Suc j)) eps v (fixed_digits j P) =
      (if int (Suc j) = (if dbl_val ?r = 0 then int (Suc j) else ilim) then
         if dbl_lt (fp_add U dbl_half eps) ?r then andthen (round_up (fixed_digits (Suc j) ?P)) (\<lambda>r. Inr (Some r))
         else if dbl_lt ?r (fp_sub U dbl_half eps) then andthen (trim_text (fixed_digits (Suc j) ?P)) (\<lambda>out. Inr (Some (out, False)))
         else Inr None
       else quick_fixed U sz ilim (int (Suc (Suc j))) eps (fp_mul U ?r dbl_10) (fixed_digits (Suc j) ?P))"
  proof -
    have e: "int (Suc (Suc j)) = int (Suc j) + 1" by simp
    show ?thesis
      unfolding e quick_fixed.simps[of U sz ilim "int (Suc j)"] f(1) andthen_simps Let_def d dbl_is_zero_iff
      by (cases "dbl_val ?r = 0") (simp_all del: fixed_digits.simps of_nat_Suc)
  qed
  ultimately show ?thesis using f(2) r by blast
qed

lemma quick_fixed_last:
  \<comment> \<open>what happens when the last digit has been stored\<close>
  assumes lim: "limits U eps b" "0 \<le> b" and p: "Suc j \<le> p" and P: "P < 10 ^ Suc j" "10 ^ j \<le> P"
    and r: "dbl_finite r" "0 \<le> dbl_val r" "dbl_val r < 1" and y: "\<bar>y * 10 ^ j - (of_nat P + dbl_val r)\<bar> \<le> (10 ^ j - 1) / (9 * 2 ^ 50)"
    and stop: "dbl_val r = 0 \<or> Suc j = p"
  shows "\<exists>x. (if dbl_lt (fp_add U dbl_half eps) r then andthen (round_up (fixed_digits (Suc j) P)) (\<lambda>r. Inr (Some r))
         else if dbl_lt r (fp_sub U dbl_half eps) then andthen (trim_text (fixed_digits (Suc j) P)) (\<lambda>out. Inr (Some (out, False)))
         else Inr None) = Inr x \<and> (\<forall>ds. x = Some ds \<longrightarrow> close_digits y p b ds)"
proof -
  let ?hi = "fp_add U dbl_half eps" and ?lo = "fp_sub U dbl_half eps"
  have hl: "dbl_finite ?hi" "dbl_finite ?lo" "1 / 2 + b \<le> dbl_val ?hi" "dbl_val ?lo \<le> 1 / 2 - b" using lim(1) by (simp_all add: limits_def)
  have P0: "0 < P" using P(2) by (rule less_le_trans[rotated]) simp
  show ?thesis
  proof (cases "Suc j = p")
    case True
    have y': "\<bar>y * 10 ^ (p - 1) - (of_nat P + dbl_val r)\<bar> \<le> 10 ^ (p - 1) / (9 * 2 ^ 50)"
    proof -
      have "(10 ^ j - 1) / (9 * 2 ^ 50) \<le> (10 ^ j / (9 * 2 ^ 50) :: rat)" by (intro divide_right_mono) auto
      then show ?thesis using y True by auto
    qed
    have pp: "0 < p" "P < 10 ^ p" "10 ^ (p - 1) \<le> P" using P True by auto
    note c = last_digit_close[OF lim(2) pp y' r(2,3)]
    consider "dbl_lt ?hi r" | "\<not> dbl_lt ?hi r" "dbl_lt r ?lo" | "\<not> dbl_lt ?hi r" "\<not> dbl_lt r ?lo" by blast
    then show ?thesis
    proof cases
      case 1
      then have "1 / 2 + b < dbl_val r" using dbl_lt_iff[OF hl(1) r(1)] hl(3) by simp
      from c(1)[OF this] show ?thesis using 1 unfolding True by auto
    next
      case 2
      then have "dbl_val r < 1 / 2 - b" using dbl_lt_iff[OF r(1) hl(2)] hl(4) by simp
      from c(2)[OF this] show ?thesis using 2 unfolding True by auto
    next
      case 3
      then show ?thesis by simp
    qed
  next
    case False
    then have r0: "dbl_val r = 0" using stop by blast
    have nhi: "\<not> dbl_lt ?hi r" using dbl_lt_iff[OF hl(1) r(1)] hl(3) lim(2) r0 by simp
    show ?thesis
    proof (cases "dbl_lt r ?lo")
      case True
      then have b2: "0 < 1 / 2 - b" using dbl_lt_iff[OF r(1) hl(2)] hl(4) r0 by simp
      let ?R = "P * 10 ^ (p - Suc j)"
      obtain out where o: "trim_text (fixed_digits (Suc j) P) = Inr out" "rounded_digits p ?R (out, False)" "trimmed out"
        using trim_close[OF P0 P(1) p refl] by blast
      have t: "(10 :: rat) ^ (p - 1) = 10 ^ j * 10 ^ (p - Suc j)" "(10 :: nat) ^ (p - 1) = 10 ^ j * 10 ^ (p - Suc j)"
        using p by (simp_all flip: power_add)
      have "10 ^ (p - 1) \<le> ?R" unfolding t(2) using P(2) by (rule mult_le_mono1)
      moreover have "\<bar>y * 10 ^ (p - 1) - of_nat ?R\<bar> \<le> 1 / 2 - b + 10 ^ (p - 1) / (9 * 2 ^ 50)"
      proof -
        have "y * 10 ^ (p - 1) - of_nat ?R = (y * 10 ^ j - (of_nat P + dbl_val r)) * 10 ^ (p - Suc j)"
          unfolding t(1) r0 by (simp add: algebra_simps)
        then have "\<bar>y * 10 ^ (p - 1) - of_nat ?R\<bar> = \<bar>y * 10 ^ j - (of_nat P + dbl_val r)\<bar> * 10 ^ (p - Suc j)" by (simp add: abs_mult)
        also have "\<dots> \<le> (10 ^ j - 1) / (9 * 2 ^ 50) * 10 ^ (p - Suc j)" using y by (intro mult_right_mono) auto
        also have "\<dots> \<le> 10 ^ j / (9 * 2 ^ 50) * 10 ^ (p - Suc j)" by (intro mult_right_mono divide_right_mono) auto
        also have "\<dots> = 10 ^ (p - 1) / (9 * 2 ^ 50)" unfolding t(1) by simp
        finally show ?thesis using b2 by linarith
      qed
      ultimately have "close_digits y p b (out, False)" unfolding close_digits_def using o(2,3) by (intro exI[of _ ?R]) simp
      then show ?thesis using nhi True o(1) by simp
    next
      case F: False
      then show ?thesis using nhi by simp
    qed
  qed
qed

lemma quick_fixed_spec:
  assumes U: "fpu_ieee U" and lim: "limits U eps b" "0 \<le> b" and sz: "int p < rv_cap sz"
    and "dbl_finite v" "0 \<le> dbl_val v" "dbl_val v < 10" "P < 10 ^ j" "Suc j + s = p"
    "10 ^ j \<le> 10 * of_nat P + dbl_val v" "\<bar>y * 10 ^ j - (10 * of_nat P + dbl_val v)\<bar> \<le> (10 ^ j - 1) / (9 * 2 ^ 50)"
  shows "\<exists>r. quick_fixed U sz (int p) (int (Suc j)) eps v (fixed_digits j P) = Inr r \<and> (\<forall>ds. r = Some ds \<longrightarrow> close_digits y p b ds)"
  using assms(5-)
proof (induction s arbitrary: v P j rule: less_induct)
  case (less s v P j)
  note pr = less.prems
  have cap: "int j < rv_cap sz" and pj: "Suc j \<le> p" using sz pr(5) by simp_all
  obtain P' r where st: "quick_fixed U sz (int p) (int (Suc j)) eps v (fixed_digits j P) =
      (if int (Suc j) = (if dbl_val r = 0 then int (Suc j) else int p) then
         if dbl_lt (fp_add U dbl_half eps) r then andthen (round_up (fixed_digits (Suc j) P')) (\<lambda>r. Inr (Some r))
         else if dbl_lt r (fp_sub U dbl_half eps) then andthen (trim_text (fixed_digits (Suc j) P')) (\<lambda>out. Inr (Some (out, False)))
         else Inr None
       else quick_fixed U sz (int p) (int (Suc (Suc j))) eps (fp_mul U r dbl_10) (fixed_digits (Suc j) P'))"
    and r: "dbl_finite r" "0 \<le> dbl_val r" "dbl_val r < 1" "10 * of_nat P + dbl_val v = of_nat P' + dbl_val r" "P' < 10 ^ Suc j"
    using fixed_step[OF U cap pr(1-4)] by blast
  have y: "\<bar>y * 10 ^ j - (of_nat P' + dbl_val r)\<bar> \<le> (10 ^ j - 1) / (9 * 2 ^ 50)" using pr(7) unfolding r(4) .
  have low: "10 ^ j \<le> P'"
  proof -
    have "(10 :: rat) ^ j < of_nat P' + 1" using pr(6) r(3) unfolding r(4) by linarith
    then have "(of_nat (10 ^ j) :: rat) < of_nat (P' + 1)" by simp
    then have "10 ^ j < P' + 1" by (simp only: of_nat_less_iff)
    then show ?thesis by simp
  qed
  show ?case
  proof (cases "dbl_val r = 0 \<or> Suc j = p")
    case True
    then have e: "int (Suc j) = (if dbl_val r = 0 then int (Suc j) else int p)" by auto
    from quick_fixed_last[OF lim pj r(5) low r(1-3) y True] show ?thesis unfolding st if_P[OF e] .
  next
    case False
    then have ne: "\<not> int (Suc j) = (if dbl_val r = 0 then int (Suc j) else int p)" by auto
    note t = times_ten_below[OF U r(1-3)]
    have s: "s - 1 < s" "Suc (Suc j) + (s - 1) = p" using pr(5) False by auto
    have "10 * 10 ^ j \<le> 10 * P'" using low by simp
    then have "(of_nat (10 * 10 ^ j) :: rat) \<le> of_nat (10 * P')" by (simp only: of_nat_le_iff)
    then have "10 * 10 ^ j \<le> (10 * of_nat P' :: rat)" by (simp only: of_nat_mult of_nat_power of_nat_numeral)
    then have low': "10 ^ Suc j \<le> 10 * of_nat P' + dbl_val (fp_mul U r dbl_10)" using t(3) unfolding power_Suc by linarith
    have "\<bar>y * 10 ^ Suc j - (10 * of_nat P' + dbl_val (fp_mul U r dbl_10))\<bar> \<le> 10 * ((10 ^ j - 1) / (9 * 2 ^ 50)) + 1 / 2 ^ 50"
    proof -
      have "y * 10 ^ Suc j - (10 * of_nat P' + dbl_val (fp_mul U r dbl_10))
        = 10 * (y * 10 ^ j - (of_nat P' + dbl_val r)) - (dbl_val (fp_mul U r dbl_10) - dbl_val r * 10)" by (simp add: algebra_simps)
      moreover have "X = 10 * A - B \<Longrightarrow> \<bar>A\<bar> \<le> a \<Longrightarrow> \<bar>B\<bar> \<le> c \<Longrightarrow> \<bar>X\<bar> \<le> 10 * a + c" for X A B a c :: rat by linarith
      ultimately show ?thesis using y t(4) by blast
    qed
    also have "\<dots> = (10 ^ Suc j - 1) / (9 * 2 ^ 50)" by (simp add: field_simps)
    finally show ?thesis unfolding st if_not_P[OF ne] by (rule less.IH[OF s(1) rounded_finite[OF t(1)] t(3,2) r(5) s(2) low'])
  qed
qed

section \<open>Digits from an approximation\<close>

lemma round_div_near:
  assumes b: "0 < b" and d: "\<bar>of_nat a / of_nat b - (of_nat R :: rat)\<bar> < 1 / 2"
  shows "round_div a b = R"
proof -
  let ?q = "a div b" and ?r = "a mod b"
  have br: "0 < (of_nat b :: rat)" using b by simp
  have "\<bar>(of_nat a :: rat) - of_nat R * of_nat b\<bar> * 2 < of_nat b"
  proof -
    have "(of_nat a :: rat) - of_nat R * of_nat b = (of_nat a / of_nat b - of_nat R) * of_nat b" using br by (simp add: field_simps)
    then have "\<bar>(of_nat a :: rat) - of_nat R * of_nat b\<bar> = \<bar>of_nat a / of_nat b - of_nat R\<bar> * of_nat b" using br by (simp add: abs_mult)
    also have "\<dots> < 1 / 2 * of_nat b" using d br by (rule mult_strict_right_mono)
    finally show ?thesis by simp
  qed
  then have "2 * (of_nat a :: rat) < 2 * (of_nat R * of_nat b) + of_nat b" "2 * (of_nat R * of_nat b :: rat) < 2 * of_nat a + of_nat b"
    by (simp_all add: abs_less_iff abs_if split: if_splits)
  then have "(of_nat (2 * a) :: rat) < of_nat (2 * R * b + b)" "(of_nat (2 * R * b) :: rat) < of_nat (2 * a + b)" by simp_all
  then have n: "2 * a < 2 * R * b + b" "2 * R * b < 2 * a + b" by (simp_all only: of_nat_less_iff)
  have a: "a = ?q * b + ?r" "?r < b" using b by simp_all
  have "R = ?q \<and> 2 * ?r < b \<or> R = ?q + 1 \<and> b < 2 * ?r"
  proof -
    have "\<not> R < ?q"
    proof
      assume "R < ?q"
      then have "(R + 1) * b \<le> ?q * b" by (intro mult_le_mono1) simp
      then show False using n(1) a(1) by simp
    qed
    moreover have "\<not> ?q + 1 < R"
    proof
      assume "?q + 1 < R"
      then have "(?q + 2) * b \<le> R * b" by (intro mult_le_mono1) simp
      then have "2 * (?q * b) + 4 * b \<le> 2 * R * b" by (simp add: add_mult_distrib)
      then show False using n(2) a by linarith
    qed
    ultimately consider "R = ?q" | "R = ?q + 1" by linarith
    then show ?thesis
    proof cases
      case 1
      then have "2 * R * b = 2 * (?q * b)" by simp
      then show ?thesis using n(1) a(1) 1 by linarith
    next
      case 2
      then have "2 * R * b = 2 * (?q * b) + 2 * b" by (simp add: add_mult_distrib)
      then show ?thesis using n(2) a(1) 2 by linarith
    qed
  qed
  then show ?thesis by (auto simp: round_div_def Let_def)
qed

lemma power_of_ten_digits:
  assumes "rounded_digits p R ds" "trimmed (fst ds)" "R = 10 ^ (p - 1)" "0 < p"
  shows "\<not> snd ds \<and> fst ds = ''1''"
proof -
  have "(10 :: nat) ^ (p - 1) < 10 ^ p" using assms(4) by (intro power_strict_increasing) auto
  then have s: "\<not> snd ds" "strip_zeros (fst ds) = strip_zeros (fixed_digits p R)" using assms(1,3) by (auto simp: rounded_digits_def split: if_splits)
  have "fixed_digits (Suc (p - 1)) (10 ^ (p - 1)) = dec_digits (10 ^ (p - 1))" by (rule fixed_digits_dec) simp_all
  then have "strip_zeros (fixed_digits p R) = ''1''" using strip_dec_digits_pow[of "p - 1"] assms(3,4) by simp
  then show ?thesis using s assms(2) by (simp add: trimmed_def)
qed

lemma digits_near:
  assumes n: "leads_at n be f" and V: "V = scaled_val n be" and p: "0 < p" "p \<le> 14" and k: "f - 1 \<le> k" "k \<le> f + 1"
    and R: "rounded_digits p R ds" "trimmed (fst ds)" "10 ^ (p - 1) \<le> R" "\<bar>V / 10 powi k * 10 ^ (p - 1) - of_nat R\<bar> < 1 / 2"
    and low: "1 - 18 / 2 ^ 52 \<le> V / 10 powi k"
  shows "digits_of n be p (bump_k k ds)" "trimmed (fst (bump_k k ds))"
proof -
  show "trimmed (fst (bump_k k ds))" using R(2) by (simp add: bump_k_def)
  have lead: "10 powi f \<le> V" "V < 10 powi (f + 1)" using n unfolding leads_rat V by blast+
  let ?E = "10 ^ (p - 1) :: rat" and ?Q = "round_div (frac_num n be f * 10 ^ (p - 1)) (frac_den be f)"
  have fr: "of_nat (frac_num n be f * 10 ^ (p - 1)) / of_nat (frac_den be f) = V / 10 powi f * ?E"
    unfolding V frac_rat[symmetric] by simp
  have Q: "?Q = X" if "\<bar>V / 10 powi f * ?E - of_nat X\<bar> < 1 / 2" for X
    by (rule round_div_near) (use that in \<open>simp_all only: fr frac_den_pos\<close>)
  have pw: "(0 :: rat) < 10 powi f" "(10 :: rat) powi (f + 1) = 10 * 10 powi f" "(10 :: rat) powi (f - 1) = 10 powi f / 10"
    by (simp_all add: zero_less_power_int power_int_add power_int_diff)
  have W: "1 \<le> V / 10 powi f" "V / 10 powi f < 10" using lead pw by (simp_all add: field_simps)
  have pE: "(10 :: nat) ^ p = 10 * 10 ^ (p - 1)" using p(1) by (simp flip: power_Suc)
  have E1: "1 \<le> ?E" by simp
  consider "k = f" | "k = f + 1" | "k = f - 1" using k by linarith
  then show "digits_of n be p (bump_k k ds)"
  proof cases
    case 1
    have "?Q = R" by (rule Q) (use R(4) 1 in simp)
    then show ?thesis unfolding digits_of_def using n R(1) 1 by blast
  next
    case 2
    have w: "V / 10 powi k = V / 10 powi f / 10" unfolding 2 pw(2) by simp
    have "V / 10 powi k * ?E < ?E" using W(2) E1 unfolding w by (simp add: field_simps)
    then have "of_nat R < ?E + 1 / 2" using R(4) by linarith
    moreover have "of_nat (10 ^ (p - 1)) \<le> (of_nat R :: rat)" using R(3) by (simp only: of_nat_le_iff)
    ultimately have "(of_nat R :: rat) < of_nat (10 ^ (p - 1) + 1)" by simp
    then have RE: "R = 10 ^ (p - 1)" using R(3) by (simp only: of_nat_less_iff)
    have one: "bump_k k ds = bump_k f (''1'', True)" using power_of_ten_digits[OF R(1,2) RE p(1)] 2 by (simp add: bump_k_def)
    have "?Q = 10 ^ p"
    proof (rule Q)
      have "?E \<le> 10 ^ 13" using p(2) by (intro power_increasing) auto
      then have "18 / 2 ^ 52 * (10 * ?E) \<le> 18 / 2 ^ 52 * (10 * 10 ^ 13)" by (intro mult_left_mono) auto
      also have "\<dots> < 1 / 2" by simp
      finally have s: "18 / 2 ^ 52 * (10 * ?E) < 1 / 2" .
      have "(1 - 18 / 2 ^ 52) * (10 * ?E) \<le> V / 10 powi k * (10 * ?E)" using low E1 by (intro mult_right_mono) auto
      moreover have "V / 10 powi k * (10 * ?E) = V / 10 powi f * ?E" unfolding w by simp
      moreover have "V / 10 powi f * ?E < 10 * ?E" using W(2) E1 by (intro mult_strict_right_mono) auto
      moreover have "(1 - 18 / 2 ^ 52) * (10 * ?E) = 10 * ?E - 18 / 2 ^ 52 * (10 * ?E)" by (simp add: algebra_simps)
      ultimately have "\<bar>V / 10 powi f * ?E - 10 * ?E\<bar> < 1 / 2" using s by linarith
      then show "\<bar>V / 10 powi f * ?E - of_nat (10 ^ p)\<bar> < 1 / 2" unfolding pE by simp
    qed
    then have "rounded_digits p ?Q (''1'', True)" using p(1) by (simp add: rounded_digits_def)
    then show ?thesis unfolding digits_of_def one using n by blast
  next
    case 3
    have w: "V / 10 powi k = V / 10 powi f * 10" unfolding 3 pw(3) by simp
    have "10 * ?E \<le> V / 10 powi k * ?E" unfolding w
      using mult_right_mono[OF W(1), of "10 * ?E"] by (simp add: mult.assoc)
    then have "10 * ?E - 1 / 2 < of_nat R" using R(4) by linarith
    then have "(of_nat (10 ^ p) :: rat) < of_nat (R + 1)" unfolding pE by simp
    then have "10 ^ p < R + 1" by (simp only: of_nat_less_iff)
    then have Rp: "snd ds" "R = 10 ^ p" "fst ds = ''1''" using R(1) by (auto simp: rounded_digits_def split: if_splits)
    have one: "bump_k k ds = bump_k f (''1'', False)" using Rp 3 by (simp add: bump_k_def)
    have "?Q = 10 ^ (p - 1)"
    proof (rule Q)
      have "V / 10 powi k * ?E - of_nat R = (V / 10 powi f * ?E - of_nat (10 ^ (p - 1))) * 10" unfolding w Rp(2) pE by (simp add: algebra_simps)
      moreover have "X = A * 10 \<Longrightarrow> \<bar>X\<bar> < 1 / 2 \<Longrightarrow> \<bar>A\<bar> < 1 / 2" for X A :: rat by linarith
      ultimately show "\<bar>V / 10 powi f * ?E - of_nat (10 ^ (p - 1))\<bar> < 1 / 2" using R(4) by blast
    qed
    moreover have "rounded_digits p (10 ^ (p - 1)) (''1'', False)"
    proof -
      have "fixed_digits (Suc (p - 1)) (10 ^ (p - 1)) = dec_digits (10 ^ (p - 1))" by (rule fixed_digits_dec) simp_all
      then have "strip_zeros (fixed_digits p (10 ^ (p - 1))) = ''1''" using strip_dec_digits_pow[of "p - 1"] p(1) by simp
      moreover have "strip_zeros ''1'' = ''1''" by code_simp
      ultimately show ?thesis using p(1) unfolding rounded_digits_def by (simp add: power_strict_increasing)
    qed
    ultimately show ?thesis unfolding digits_of_def one using n by metis
  qed
qed

lemma near_distance:
  assumes n: "near (2 * c - 3) u W" and c: "2 \<le> c" "c \<le> 9"
  shows "\<bar>W - dbl_val u\<bar> \<le> of_nat c * dbl_val u / 2 ^ 52" "W < 1 \<Longrightarrow> dbl_val u \<le> 2"
proof -
  let ?g = "grow ^ (2 * c - 3)" and ?y = "dbl_val u"
  have y: "0 < ?y" by (rule near_pos[OF n])
  have w: "0 < W" "W \<le> ?y * ?g" "?y \<le> W * ?g" using n by (simp_all add: near_def)
  have j: "2 * c - 3 \<le> 40" using c by simp
  have "of_nat (2 * c - 3) = 2 * of_nat c - (3 :: rat)" using c(1) by (simp add: of_nat_diff)
  then have "(of_nat (2 * c - 3) + 1 / 100) / 2 ^ 53 \<le> (of_nat c / 2 ^ 52 :: rat)" by simp
  then have g: "?g \<le> 1 + of_nat c / 2 ^ 52" using grow_bound[OF j] by linarith
  have g1: "1 \<le> ?g" by (rule grow_gt(3))
  have e: "?y * (1 + of_nat c / 2 ^ 52) = ?y + of_nat c * ?y / 2 ^ 52" by (simp add: algebra_simps)
  have up: "?y * ?g \<le> ?y + of_nat c * ?y / 2 ^ 52" unfolding e[symmetric] using g y by (intro mult_left_mono) auto
  have a1: "W - ?y \<le> of_nat c * ?y / 2 ^ 52" using w(2) up by linarith
  have a2: "?y - W \<le> of_nat c * ?y / 2 ^ 52"
  proof (cases "?y \<le> W")
    case True
    have "0 \<le> of_nat c * ?y / 2 ^ 52" using y by simp
    then show ?thesis using True by linarith
  next
    case False
    then have "W * (?g - 1) \<le> ?y * (?g - 1)" using g1 by (intro mult_right_mono) auto
    then have "?y - W \<le> ?y * ?g - ?y" using w(3) by (simp add: algebra_simps)
    then show ?thesis using up by linarith
  qed
  show "\<bar>W - ?y\<bar> \<le> of_nat c * ?y / 2 ^ 52" unfolding abs_le_iff minus_diff_eq using a1 a2 by blast
  show "?y \<le> 2" if "W < 1"
  proof -
    have "W * ?g \<le> 1 * 2" using that w(1) g1 grow_le_2[OF j] by (intro mult_mono) auto
    then show ?thesis using w(3) by linarith
  qed
qed

lemma quick_digits:
  assumes U: "fpu_ieee U" and s: "scaled V f k u c" and p: "0 < p" "p \<le> 14" "int p < rv_cap sz" and t: "dbl_finite t" "dbl_val t = 10 ^ (p - 1)"
    and n: "leads_at n be f" "V = scaled_val n be"
  shows "\<exists>r. quick_fixed U sz (int p) 1 (fp_mul U (quick_eps U (int c) u) t) u [] = Inr r
    \<and> (\<forall>ds. r = Some ds \<longrightarrow> digits_of n be p (bump_k k ds) \<and> trimmed (fst (bump_k k ds)) \<and> (\<exists>R. \<bar>V / 10 powi k * 10 ^ (p - 1) - of_nat R\<bar> < 1 / 2))"
proof -
  let ?y = "dbl_val u" and ?W = "V / 10 powi k" and ?E = "10 ^ (p - 1) :: rat" and ?b = "fix_bound c (dbl_val u) p"
  have nr: "near (2 * c - 3) u ?W" and y: "1 \<le> ?y" "?y < 10" and c: "2 \<le> c" "c \<le> 9" and k: "f - 1 \<le> k" "k \<le> f + 1"
    using s by (simp_all add: scaled_def)
  have fu: "dbl_finite u" using nr by (simp add: near_def)
  have lim: "limits U (fp_mul U (quick_eps U (int c) u) t) ?b" using quick_limits[OF U fu y c(2) p(1,2) t] by (simp add: limits_def)
  have b0: "0 \<le> ?b" unfolding fix_bound_def using y by (intro divide_nonneg_nonneg mult_nonneg_nonneg add_nonneg_nonneg) auto
  obtain r where r: "quick_fixed U sz (int p) (int (Suc 0)) (fp_mul U (quick_eps U (int c) u) t) u (fixed_digits 0 0) = Inr r"
    "\<forall>ds. r = Some ds \<longrightarrow> close_digits ?y p ?b ds"
    using quick_fixed_spec[OF U lim b0 p(3) fu, of 0 0 "p - 1" ?y] y p(1) by auto
  have E1: "1 \<le> ?E" by simp
  note d = near_distance[OF nr c]
  have low: "1 - 18 / 2 ^ 52 \<le> ?W"
  proof (cases "?W < 1")
    case True
    have "(of_nat c :: rat) \<le> 9" using c(2) of_nat_le_iff[of c 9, where ?'a = rat] by simp
    then have "of_nat c * ?y / 2 ^ 52 \<le> 9 * 2 / 2 ^ 52" using d(2)[OF True] y by (intro divide_right_mono mult_mono) auto
    moreover have "\<bar>W - y\<bar> \<le> A \<Longrightarrow> A \<le> B \<Longrightarrow> 1 \<le> y \<Longrightarrow> 1 - B \<le> W" for W y A B :: rat by linarith
    ultimately have "1 - 9 * 2 / 2 ^ 52 \<le> ?W" using d(1) y(1) by blast
    then show ?thesis by simp
  next
    case False
    have "(1 :: rat) - 18 / 2 ^ 52 \<le> 1" by simp
    then show ?thesis using False by linarith
  qed
  have "digits_of n be p (bump_k k ds) \<and> trimmed (fst (bump_k k ds)) \<and> (\<exists>R. \<bar>?W * ?E - of_nat R\<bar> < 1 / 2)" if ds: "r = Some ds" for ds
  proof -
    obtain R where R: "rounded_digits p R ds" "trimmed (fst ds)" "10 ^ (p - 1) \<le> R" "\<bar>?y * ?E - of_nat R\<bar> \<le> 1 / 2 - ?b + ?E / (9 * 2 ^ 50)"
      using r(2) ds by (auto simp: close_digits_def)
    have "\<bar>W * E - Y * E\<bar> = \<bar>W - Y\<bar> * E" if "1 \<le> E" for W Y E :: rat using that by (simp add: abs_mult flip: left_diff_distrib)
    then have "\<bar>?W * ?E - ?y * ?E\<bar> = \<bar>?W - ?y\<bar> * ?E" using E1 by blast
    also have "\<dots> \<le> of_nat c * ?y / 2 ^ 52 * ?E" using d(1) E1 by (intro mult_right_mono) auto
    finally have w: "\<bar>?W * ?E - ?y * ?E\<bar> \<le> of_nat c * ?y / 2 ^ 52 * ?E" .
    have "?b = of_nat c * ?y / 2 ^ 52 * ?E + 5 / 2 ^ 52 * ?E" unfolding fix_bound_def by (simp add: field_simps)
    moreover have "?E / (9 * 2 ^ 50) \<le> 4 / 2 ^ 52 * ?E" by simp
    moreover have "0 < 1 / 2 ^ 52 * ?E" by simp
    moreover have "5 / 2 ^ 52 * ?E = 4 / 2 ^ 52 * ?E + 1 / 2 ^ 52 * ?E" by (simp add: field_simps)
    moreover have "\<bar>W - R\<bar> < 1 / 2" if "\<bar>W - Y\<bar> \<le> A" "\<bar>Y - R\<bar> \<le> 1 / 2 - B + K" "B = A + F" "K \<le> G" "0 < H" "F = G + H" for W Y R A B K F G H :: rat
      using that by linarith
    ultimately have h: "\<bar>?W * ?E - of_nat R\<bar> < 1 / 2" using w R(4) by blast
    from digits_near[OF n p(1,2) k R(1-3) h low] show ?thesis using h by blast
  qed
  then show ?thesis using r(1) by simp
qed

lemma dtoa_quick_spec:
  assumes U: "fpu_ieee U" and u: "dbl_finite u" "dbl_val u = scaled_val n be" and n: "leads_at n be f" and k: "estimated (dbl_val u) f k check"
    and p: "fixed_plan p np" "np \<le> 14" "int np < rv_cap sz"
  shows "\<exists>r. dtoa_quick U sz p u k check = Inr r \<and> (\<forall>x. r = Some x \<longrightarrow> digits_of n be np x \<and> trimmed (fst x)
    \<and> (\<not> check \<longrightarrow> (\<exists>R. \<bar>dbl_val u / 10 powi k * 10 ^ (np - 1) - of_nat R\<bar> < 1 / 2)))"
proof -
  let ?V = "dbl_val u"
  have pl: "0 < np" "dp_ilim p = int np" "dp_ilim1 p = int np" "\<not> dp_leftright p" using p(1) by (simp_all add: fixed_plan_def)
  have f: "10 powi f \<le> ?V" "?V < 10 powi (f + 1)" using n unfolding leads_rat u(2) by blast+
  obtain u1 c where q: "quick_scale U u k = Inr (u1, int c)"
    "if check \<and> dbl_lt u1 dbl_1 then scaled ?V f (k - 1) (fp_mul U u1 dbl_10) (c + 1) else scaled ?V f k u1 c"
    using quick_start[OF U u(1) refl f k] by blast
  obtain t where t: "ten_at tens (int np - 1) = Inr t" "dbl_finite t" "dbl_val t = 10 ^ (np - 1)"
  proof -
    have "nat (int np - 1) = np - 1" by simp
    then show ?thesis using tens_value[of "int np - 1"] pl(1) p(2) that by (auto simp: Ten_pmax_def)
  qed
  let ?low = "check \<and> dbl_lt u1 dbl_1"
  let ?k = "if ?low then k - 1 else k" and ?u = "if ?low then fp_mul U u1 dbl_10 else u1" and ?c = "if ?low then c + 1 else c"
  have sc: "scaled ?V f ?k ?u ?c" using q(2) by auto
  have ic: "(if ?low then int c + 1 else int c) = int ?c" by simp
  obtain r where r: "quick_fixed U sz (int np) 1 (fp_mul U (quick_eps U (int ?c) ?u) t) ?u [] = Inr r"
    "\<forall>ds. r = Some ds \<longrightarrow> digits_of n be np (bump_k ?k ds) \<and> trimmed (fst (bump_k ?k ds)) \<and> (\<exists>R. \<bar>?V / 10 powi ?k * 10 ^ (np - 1) - of_nat R\<bar> < 1 / 2)"
    using quick_digits[OF U sc pl(1) p(2,3) t(2,3) n u(2)] by blast
  have run: "dtoa_quick U sz p u k check = Inr (map_option (bump_k ?k) r)"
  proof (cases ?low)
    case True
    then show ?thesis using pl(1) t(1) r(1) unfolding dtoa_quick_def q(1) andthen_simps prod.case Let_def pl(2,3) by (simp add: pl(4) add.commute)
  next
    case False
    then have l: "\<not> (check \<and> dbl_lt u1 dbl_1 \<and> 0 < int np)" by blast
    show ?thesis using pl(1) t(1) r(1) unfolding dtoa_quick_def q(1) andthen_simps prod.case Let_def pl(2,3) if_not_P[OF l] if_not_P[OF False]
      using l by (simp add: pl(4))
  qed
  show ?thesis using r(2) unfolding run by auto
qed

end
