(* ===== verification/Dtoa_Settle.thy ===== *)
theory Dtoa_Settle
  imports Dtoa_Compare
begin

text \<open>
The last round of the correction loop of \<open>fpconv_strtod\<close> (\<open>3rd/lua-cjson/dtoa.c\<close>): an
  approximation that is within half a unit in the last place is turned into the correctly rounded
  number, on every branch: accepted as it is, moved down from a power of two, or rounded to even
  at a tie. The main lemma is \<open>corr_step_settles\<close>.
\<close>

section \<open>The tests on the words\<close>

lemma mk_words: "mk_double (word0 d) (word1 d) = d"
proof -
  have "unat (mk_double (word0 d) (word1 d)) = unat d" unfolding unat_mk_double unat_word0 unat_word1 by simp
  then show ?thesis by (simp add: word_unat_eq_iff)
qed

lemma frac_words: "dbl_frac d = unat (word0 d) mod 1048576 * 4294967296 + unat (word1 d)"
  using mk_double_fields(3)[of "word0 d" "word1 d"] unfolding mk_words .

lemma unat_low20: "unat (w AND 0xfffff :: limb) = unat w mod 1048576"
proof -
  have "(0xfffff :: limb) = mask 20" by (simp add: mask_eq_exp_minus_1)
  then show ?thesis using and_low[of w 20] by simp
qed

lemma frac_zero: "word1 d = 0 \<and> word0 d AND Bndry_mask = 0 \<longleftrightarrow> dbl_frac d = 0"
proof -
  have "word1 d = 0 \<longleftrightarrow> unat (word1 d) = 0" by (simp only: unat_eq_0)
  moreover have "word0 d AND Bndry_mask = 0 \<longleftrightarrow> unat (word0 d AND Bndry_mask) = 0" by (simp only: unat_eq_0)
  moreover have "unat (word0 d AND Bndry_mask) = unat (word0 d) mod 1048576" unfolding Bndry_mask_def by (rule unat_low20)
  ultimately show ?thesis unfolding frac_words by auto
qed

lemma frac_ones:
  "word0 d AND Bndry_mask1 = Bndry_mask1 \<and> word1 d = 0xffffffff \<longleftrightarrow> dbl_frac d = 4503599627370495"
proof -
  have "word0 d AND Bndry_mask1 = Bndry_mask1 \<longleftrightarrow> unat (word0 d) mod 1048576 = 1048575" "word1 d = 0xffffffff \<longleftrightarrow> unat (word1 d) = 4294967295"
    using unat_low20[of "word0 d"] by (simp_all add: Bndry_mask1_def word_unat_eq_iff)
  moreover have "unat (word0 d) mod 1048576 < 1048576" "unat (word1 d) < 4294967296" using unat_limb[of "word1 d"] by simp_all
  ultimately show ?thesis unfolding frac_words by auto
qed

lemma frac_even: "word1 d AND 1 = 0 \<longleftrightarrow> even (dbl_frac d)"
proof -
  have "(1 :: limb) = mask 1" by simp
  then have "unat (word1 d AND 1) = unat (word1 d) mod 2" using and_low[of "word1 d" 1] by (simp only: power_one_right)
  moreover have "word1 d AND 1 = 0 \<longleftrightarrow> unat (word1 d AND 1) = 0" by (simp only: unat_eq_0)
  ultimately have "word1 d AND 1 = 0 \<longleftrightarrow> even (unat (word1 d))" by (simp only: even_iff_mod_2_eq_zero)
  then show ?thesis unfolding frac_words by simp
qed

lemma exp_bits_value: "exp_bits d = of_nat (dbl_exp d) * Exp_msk1" "unat (exp_bits d) = dbl_exp d * 1048576"
proof -
  show e: "exp_bits d = of_nat (dbl_exp d) * Exp_msk1" by (simp add: exp_bits_def exp_word)
  have "dbl_exp d < 2048" unfolding dbl_fields by simp
  then show "unat (exp_bits d) = dbl_exp d * 1048576" unfolding e by (simp add: Exp_msk1_def unat_word_ariths unsigned_of_nat take_bit_eq_mod)
qed

lemma scaled_range: "exp_bits d \<le> exp_word_of (2 * int P_bits + 1) \<longleftrightarrow> dbl_exp d \<le> 107"
proof -
  have "unat (exp_word_of (2 * int P_bits + 1)) = 107 * 1048576" by (simp add: exp_word_of_def Exp_msk1_def P_bits_def)
  then show ?thesis unfolding word_le_nat_alt exp_bits_value(2) by simp
qed

section \<open>Neighbours by their words\<close>

lemma next_power:
  assumes "dbl_exp d < 2046"
  defines "r \<equiv> mk_double (exp_bits d + Exp_msk1) 0"
  shows "\<not> dbl_sign r" "dbl_exp r = dbl_exp d + 1" "dbl_frac r = 0"
proof -
  have "unat (exp_bits d + Exp_msk1) = (dbl_exp d + 1) * 1048576"
    using assms(1) exp_bits_value(2)[of d] by (simp add: unat_word_ariths Exp_msk1_def)
  then show "\<not> dbl_sign r" "dbl_exp r = dbl_exp d + 1" "dbl_frac r = 0"
    unfolding r_def mk_double_fields using assms(1) by simp_all
qed

lemma last_below:
  assumes "1 \<le> dbl_exp d" "dbl_exp d \<le> 2047"
  defines "r \<equiv> mk_double ((exp_bits d - Exp_msk1) OR Bndry_mask1) 0xffffffff"
  shows "\<not> dbl_sign r" "dbl_exp r = dbl_exp d - 1" "dbl_frac r = 4503599627370495"
proof -
  have e: "exp_bits d - Exp_msk1 = push_bit 20 (of_nat (dbl_exp d - 1))"
    unfolding exp_bits_value(1) using assms(1) by (simp add: Exp_msk1_def push_bit_eq_mult of_nat_diff algebra_simps)
  have lt: "unat (of_nat (dbl_exp d - 1) :: limb) = dbl_exp d - 1"
    using assms(2) by (simp add: unsigned_of_nat take_bit_eq_mod)
  have "unat (Bndry_mask1) < 2 ^ 20" by (simp add: Bndry_mask1_def)
  from unat_push_or[OF this, of "of_nat (dbl_exp d - 1)"]
  have u: "unat ((exp_bits d - Exp_msk1) OR Bndry_mask1) = (dbl_exp d - 1) * 1048576 + 1048575"
    unfolding e using lt assms(2) by (simp add: Bndry_mask1_def unat_push or.commute)
  have "((dbl_exp d - 1) * 1048576 + 1048575) div 1048576 = dbl_exp d - 1 \<and> ((dbl_exp d - 1) * 1048576 + 1048575) mod 1048576 = 1048575"
    by (rule div_mod_is[OF refl]) simp
  then show "\<not> dbl_sign r" "dbl_exp r = dbl_exp d - 1" "dbl_frac r = 4503599627370495"
    unfolding r_def mk_double_fields u using assms(2) by (auto simp: not_le)
qed

lemma dbl_unit_normal: "1 \<le> dbl_exp d \<Longrightarrow> dbl_unit d = 2 ^ dbl_exp d / 2 ^ 1075"
  by (simp only: dbl_unit_def max_absorb2)

lemma dbl_val_normal:
  "1 \<le> dbl_exp d \<Longrightarrow> \<not> dbl_sign d \<Longrightarrow> dbl_val d = (4503599627370496 + of_nat (dbl_frac d)) * dbl_unit d"
  by (simp add: dbl_val_def dbl_abs_unit dbl_mant_def)

lemma ulp_unit:
  assumes "53 \<le> dbl_exp d" "dbl_exp d < 2047"
  shows "dbl_finite (ulp d)" "dbl_val (ulp d) = dbl_unit d"
proof -
  note f = ulp_fields[of d]
  have e: "52 < dbl_exp d" using assms(1) by simp
  have u: "\<not> dbl_sign (ulp d)" "dbl_exp (ulp d) = dbl_exp d - 52" "dbl_frac (ulp d) = 0" using f e assms(2) by auto
  then show "dbl_finite (ulp d)" using assms(2) by (simp add: dbl_finite_def)
  have "(2 :: rat) ^ dbl_exp d = 2 ^ 52 * 2 ^ (dbl_exp d - 52)" using e by (simp only: power_add[symmetric]) simp
  moreover have "dbl_unit (ulp d) = 2 ^ (dbl_exp d - 52) / 2 ^ 1075" "dbl_unit d = 2 ^ dbl_exp d / 2 ^ 1075"
    using dbl_unit_normal[of "ulp d"] dbl_unit_normal[of d] u e by simp_all
  moreover have "dbl_val (ulp d) = 4503599627370496 * dbl_unit (ulp d)" using dbl_val_normal[of "ulp d"] u e by simp
  moreover have "(2 :: rat) ^ 52 = 4503599627370496" by simp
  ultimately show "dbl_val (ulp d) = dbl_unit d" by (simp only: times_divide_eq_right)
qed

lemma dbl_val_inj:
  assumes d: "1 \<le> dbl_exp d" "\<not> dbl_sign d" and r: "dbl_val r = dbl_val d"
  shows "r = d"
proof -
  let ?m = "dbl_mant d" and ?m' = "dbl_mant r" and ?E = "dbl_exp d" and ?E' = "max 1 (dbl_exp r)"
  have m: "4503599627370496 \<le> ?m" "?m < 9007199254740992" "?m' < 9007199254740992" using mant_bounds[of d] mant_bounds(1)[of r] d(1) by simp_all
  have "0 < dbl_val d" using d m dbl_unit_pos[of d] by (simp add: dbl_val_def dbl_abs_unit)
  moreover have "0 \<le> dbl_abs r" by (simp add: dbl_abs_def)
  ultimately have s: "\<not> dbl_sign r" using r unfolding dbl_val_def[of r] by (auto split: if_splits)
  then have "(of_nat ?m' * 2 ^ ?E' / 2 ^ 1075 :: rat) = of_nat ?m * 2 ^ max 1 ?E / 2 ^ 1075"
    using r d(2) by (simp only: dbl_val_def dbl_abs_def if_False)
  then have eq: "?m' * 2 ^ ?E' = ?m * 2 ^ ?E" unfolding scale_le(2)[symmetric] using d(1) by (simp only: max_absorb2)
  have e: "?E' = ?E"
  proof (rule ccontr)
    assume "?E' \<noteq> ?E"
    then consider "?E < ?E'" | "?E' < ?E" by linarith
    then show False
    proof cases
      case 1
      then have "1 \<le> dbl_exp r" using d(1) by linarith
      then have "4503599627370496 \<le> ?m'" by (rule mant_bounds(2))
      then have "4503599627370496 * 2 ^ (?E + 1) \<le> ?m' * 2 ^ ?E'" using 1 by (intro mult_le_mono power_increasing) auto
      moreover have "?m * 2 ^ ?E < 9007199254740992 * 2 ^ ?E" using m(2) by simp
      ultimately show False using eq by simp
    next
      case 2
      have "4503599627370496 * 2 ^ (?E' + 1) \<le> ?m * 2 ^ ?E" using 2 m(1) by (intro mult_le_mono power_increasing) auto
      moreover have "4503599627370496 * 2 ^ (?E' + 1) = (9007199254740992 * 2 ^ ?E' :: nat)" by simp
      moreover have "?m' * 2 ^ ?E' < 9007199254740992 * 2 ^ ?E'" using m(3) by simp
      ultimately show False using eq by linarith
    qed
  qed
  then have "?m' = ?m" using eq by simp
  moreover have "dbl_exp r = ?E"
  proof (cases "dbl_exp r = 0")
    case True
    then have "?m' = dbl_frac r" by (simp add: dbl_mant_def)
    then show ?thesis using \<open>?m' = ?m\<close> m(1) unfolding dbl_fields(3)[of r] by simp
  qed (use e in simp)
  ultimately show ?thesis using d s by (intro double_eqI) (auto simp: dbl_mant_def)
qed

section \<open>The last round\<close>

definition ready :: "double \<Rightarrow> bool" where
  \<comment> \<open>positive, finite, and far from the denormal numbers\<close>
  "ready d \<longleftrightarrow> 108 \<le> dbl_exp d \<and> dbl_finite d \<and> \<not> dbl_sign d"

lemma readyD: "ready d \<Longrightarrow> 1 \<le> dbl_exp d \<and> 108 \<le> dbl_exp d \<and> dbl_exp d < 2047 \<and> dbl_finite d \<and> \<not> dbl_sign d"
  by (simp add: ready_def dbl_finite_def)

lemma lower_gap_cases: "dbl_frac d = 0 \<Longrightarrow> lower_gap d = dbl_unit d / 2" "dbl_frac d \<noteq> 0 \<Longrightarrow> lower_gap d = dbl_unit d"
  by (simp_all add: lower_gap_def)

lemma frac_bound: "dbl_frac d < 4503599627370496"
  unfolding dbl_fields by simp

lemma near_ready:
  assumes "ready d" "q - dbl_val d \<le> dbl_unit d / 2" "dbl_val d - q \<le> lower_gap d / 2"
    and "q - dbl_val d < dbl_unit d / 2 \<and> dbl_val d - q < lower_gap d / 2 \<or> even (dbl_frac d)"
  shows "correctly_rounded q d"
  by (rule near_rounded) (use assms readyD[OF assms(1)] in auto)

lemma unit_step:
  assumes "1 \<le> dbl_exp r" "dbl_exp d = dbl_exp r + 1"
  shows "dbl_unit d = 2 * dbl_unit r"
proof -
  have "max 1 (dbl_exp d) = Suc (dbl_exp r)" "max 1 (dbl_exp r) = dbl_exp r" using assms by simp_all
  then show ?thesis unfolding dbl_unit_def by (simp only: power_Suc times_divide_eq_right)
qed

text \<open>Down from a power of two, and up to one.\<close>

lemma below_power:
  assumes d: "ready d" "dbl_frac d = 0"
    and q: "dbl_val d - q \<le> dbl_unit d / 2" "dbl_unit d / 4 < dbl_val d - q"
  defines "r \<equiv> mk_double ((exp_bits d - Exp_msk1) OR Bndry_mask1) 0xffffffff"
  shows "correctly_rounded q r"
proof -
  note D = readyD[OF d(1)]
  have r: "\<not> dbl_sign r" "dbl_exp r = dbl_exp d - 1" "dbl_frac r = 4503599627370495"
    unfolding r_def using last_below[of d] D by simp_all
  have u: "dbl_unit d = 2 * dbl_unit r"
    by (rule unit_step) (use D r in auto)
  have "1 \<le> dbl_exp r" using D r by auto
  then have v: "dbl_val r = dbl_val d - dbl_unit d / 2"
    using dbl_val_normal[of d] dbl_val_normal[of r] D r d(2) by (simp add: u)
  have "lower_gap r = dbl_unit r" using r(3) by (simp add: lower_gap_def)
  then have "q - dbl_val r < dbl_unit r / 2" "dbl_val r - q < lower_gap r / 2"
    using q u v dbl_unit_pos[of r] by (simp_all add: field_simps)
  moreover have "1 \<le> dbl_exp r" "dbl_finite r" using D r by (auto simp: dbl_finite_def)
  ultimately show ?thesis using r(1) by (intro near_rounded) auto
qed

lemma up_to_power:
  assumes d: "ready d" "dbl_frac d = 4503599627370495" "dbl_exp d < 2046" and q: "q - dbl_val d = dbl_unit d / 2"
  shows "correctly_rounded q (mk_double (exp_bits d + Exp_msk1) 0)"
proof -
  note D = readyD[OF d(1)]
  define r where "r = mk_double (exp_bits d + Exp_msk1) 0"
  have r: "\<not> dbl_sign r" "dbl_exp r = dbl_exp d + 1" "dbl_frac r = 0" unfolding r_def using next_power[OF d(3)] by simp_all
  have R: "ready r" using r D d(3) by (simp add: ready_def dbl_finite_def)
  have u: "dbl_unit r = 2 * dbl_unit d"
    by (rule unit_step) (use D r in auto)
  have v: "dbl_val r = dbl_val d + dbl_unit d"
    using dbl_val_normal[of d] dbl_val_normal[of r] D r d(2) by (simp add: u)
  show ?thesis unfolding r_def[symmetric]
    by (rule near_ready[OF R]) (use lower_gap_cases(1)[OF r(3)] u v q r(3) dbl_unit_pos[of d] in simp_all)
qed

text \<open>One unit up or down from an odd mantissa.\<close>

lemma in_range_double:
  assumes "dbl_finite d" shows "in_range (dbl_val d)"
proof -
  have "dbl_mant d \<le> 9007199254740991" using mant_bounds(1)[of d] by simp
  then have m: "of_nat (dbl_mant d) \<le> (9007199254740991 :: rat)" by (metis of_nat_le_iff of_nat_numeral)
  have "(2 :: rat) ^ max 1 (dbl_exp d) \<le> 2 ^ (971 + 1075)"
    by (rule power_increasing) (use assms in \<open>auto simp: dbl_finite_def\<close>)
  then have "dbl_unit d \<le> 2 ^ 971" unfolding dbl_unit_def power_add by (simp only: pos_divide_le_eq zero_less_power zero_less_numeral)
  then have "dbl_abs d \<le> 9007199254740991 * 2 ^ 971"
    unfolding dbl_abs_unit using m dbl_unit_pos[of d] by (intro mult_mono) auto
  moreover have "0 \<le> dbl_abs d" by (simp add: dbl_abs_def)
  ultimately show ?thesis unfolding in_range_def dbl_val_def by (simp del: power_numeral)
qed

lemma one_unit:
  assumes d: "ready d" "odd (dbl_frac d)" and b: "up \<Longrightarrow> dbl_frac d < 4503599627370495"
  shows "\<exists>r. ready r \<and> dbl_exp r = dbl_exp d \<and> dbl_frac r = (if up then dbl_frac d + 1 else dbl_frac d - 1)
    \<and> dbl_val r = (if up then dbl_val d + dbl_unit d else dbl_val d - dbl_unit d)"
proof -
  note D = readyD[OF d(1)]
  have f: "1 \<le> dbl_frac d" using d(2) by (cases "dbl_frac d") simp_all
  let ?f = "if up then dbl_frac d + 1 else dbl_frac d - 1"
  have "?f < 2 ^ 52" using b frac_bound[of d] by auto
  then obtain r where r: "dbl_exp r = dbl_exp d" "dbl_frac r = ?f" "\<not> dbl_sign r" using double_fields_exist[of "dbl_exp d" ?f] D by auto
  have "dbl_unit r = dbl_unit d" using r(1) by (simp add: dbl_unit_def)
  then have "dbl_val r = (if up then dbl_val d + dbl_unit d else dbl_val d - dbl_unit d)"
    using dbl_val_normal[of d] dbl_val_normal[of r] r D f by (auto simp: of_nat_diff algebra_simps)
  then show ?thesis using r D by (intro exI[of _ r]) (simp add: ready_def dbl_finite_def)
qed

lemma one_unit_rounded:
  assumes d: "ready d" "odd (dbl_frac d)" and b: "up \<Longrightarrow> dbl_frac d < 4503599627370495"
    and q: "q - dbl_val d = (if up then dbl_unit d / 2 else - (dbl_unit d / 2))"
    and r: "rounded (if up then dbl_val d + dbl_unit d else dbl_val d - dbl_unit d) r"
  shows "correctly_rounded q r \<and> \<not> dbl_is_zero r"
proof -
  obtain r' where r': "ready r'" "dbl_exp r' = dbl_exp d" "dbl_frac r' = (if up then dbl_frac d + 1 else dbl_frac d - 1)"
    "dbl_val r' = (if up then dbl_val d + dbl_unit d else dbl_val d - dbl_unit d)" using one_unit[OF d b] by blast
  note D = readyD[OF r'(1)]
  have "dbl_val r = dbl_val r'" using rounded_value[of r' r] r D unfolding r'(4)[symmetric] by simp
  then have eq: "r = r'" using D by (intro dbl_val_inj) auto
  have ev: "even (dbl_frac r')" using d(2) r'(3) by (cases "dbl_frac d") auto
  have u: "dbl_unit r' = dbl_unit d" using r'(2) by (simp add: dbl_unit_def)
  have low: "up \<Longrightarrow> lower_gap r' = dbl_unit d" using r'(3) u by (simp add: lower_gap_def)
  have g: "0 < lower_gap r'" using dbl_unit_pos[of r'] by (simp add: lower_gap_def)
  have "correctly_rounded q r'"
    by (rule near_ready[OF r'(1)]) (use q r'(4) u low ev g dbl_unit_pos[of d] in \<open>auto simp: field_simps split: if_splits\<close>)
  then show ?thesis using D unfolding eq by (simp add: dbl_is_zero_def)
qed

section \<open>The decision\<close>

lemma num_zero_spec:
  assumes "big_at s a k n"
  shows "num_zero s a = Inr (n = 0)"
proof -
  obtain B where B: "dt_heap s a = Some B" "big k B n" using assms by (auto simp: big_at_def)
  then obtain ws where ws: "peek_words B (max 1 (bg_wds B)) = Inr ws" "bval ws = n" and w: "0 \<le> bg_wds B"
    and big: "1 < bg_wds B \<longrightarrow> 4294967296 ^ nat (bg_wds B - 1) \<le> n" by (auto simp: big_def)
  then have t: "take (nat (max 1 (bg_wds B))) (bg_x B) = map Some ws" "max 1 (bg_wds B) \<le> int (length (bg_x B))" and len: "length ws = nat (max 1 (bg_wds B))"
    using peek_length[OF ws(1)] by (auto simp: peek_iff)
  obtain x xs where x: "ws = x # xs" using len by (cases ws) auto
  then have "bg_x B ! 0 = Some x" using arg_cong[OF t(1), of "\<lambda>l. l ! 0"] len t(2) by simp
  then have pk: "peek_word B 0 = Inr x" using t(2) by (auto simp: peek_word_def)
  have "x = 0 \<and> bg_wds B \<le> 1 \<longleftrightarrow> n = 0"
  proof (cases "bg_wds B \<le> 1")
    case True
    then have "xs = []" using len x by simp
    then show ?thesis using True ws(2) x unat_eq_0[of x] by auto
  next
    case False
    then have "4294967296 ^ nat (bg_wds B - 1) \<le> n" using big by simp
    moreover have "(0 :: nat) < 4294967296 ^ nat (bg_wds B - 1)" by simp
    ultimately have "0 < n" by linarith
    then show ?thesis using False by simp
  qed
  then show ?thesis using B(1) pk by (simp add: num_zero_def deref_def)
qed

lemma gap_value:
  assumes h: "0 < (h :: rat)" and S: "0 < NS" and NB: "of_nat NB = v / h * of_nat NS" and ND: "of_nat ND = q / h * of_nat NS"
  shows "NB < ND \<longleftrightarrow> v < q" "num_gap NB ND < NS \<longleftrightarrow> \<bar>v - q\<bar> < h" "num_gap NB ND = NS \<longleftrightarrow> \<bar>v - q\<bar> = h"
    "2 * num_gap NB ND \<le> NS \<longleftrightarrow> 2 * \<bar>v - q\<bar> \<le> h" "num_gap NB ND = 0 \<longleftrightarrow> v = q"
proof -
  have S': "0 < (of_nat NS :: rat)" using S by simp
  have "(of_nat NB < (of_nat ND :: rat)) \<longleftrightarrow> v < q" unfolding NB ND using h S' by (simp add: divide_less_cancel)
  then show lt: "NB < ND \<longleftrightarrow> v < q" by simp
  have g: "of_nat (num_gap NB ND) = \<bar>v - q\<bar> / h * of_nat NS"
  proof (cases "NB < ND")
    case True
    then have "(of_nat (num_gap NB ND) :: rat) = of_nat ND - of_nat NB" by (simp add: num_gap_def of_nat_diff)
    then show ?thesis using True lt unfolding NB ND by (simp add: diff_divide_distrib left_diff_distrib)
  next
    case False
    then have "(of_nat (num_gap NB ND) :: rat) = of_nat NB - of_nat ND" by (simp add: num_gap_def of_nat_diff)
    then show ?thesis using False lt unfolding NB ND by (simp add: diff_divide_distrib left_diff_distrib)
  qed
  have "(of_nat (num_gap NB ND) < (of_nat NS :: rat)) \<longleftrightarrow> \<bar>v - q\<bar> < h" unfolding g using h S' by (simp add: field_simps)
  then show "num_gap NB ND < NS \<longleftrightarrow> \<bar>v - q\<bar> < h" by simp
  have "(of_nat (num_gap NB ND) = (of_nat NS :: rat)) \<longleftrightarrow> \<bar>v - q\<bar> = h" unfolding g using h S' by (simp add: field_simps)
  then show "num_gap NB ND = NS \<longleftrightarrow> \<bar>v - q\<bar> = h" by simp
  have "(of_nat (2 * num_gap NB ND) \<le> (of_nat NS :: rat)) \<longleftrightarrow> 2 * \<bar>v - q\<bar> \<le> h"
    unfolding of_nat_mult g using h S' by (simp add: field_simps)
  then show "2 * num_gap NB ND \<le> NS \<longleftrightarrow> 2 * \<bar>v - q\<bar> \<le> h" by (simp only: of_nat_le_iff)
  have "(of_nat (num_gap NB ND) = (0 :: rat)) \<longleftrightarrow> v = q" unfolding g using h S' by simp
  then show "num_gap NB ND = 0 \<longleftrightarrow> v = q" by simp
qed

definition held_nums :: "dtoa_state \<Rightarrow> dtoa_state \<Rightarrow> nat set \<Rightarrow> corr_nums \<Rightarrow> bool" where
  "held_nums s0 s L c \<longleftrightarrow> (\<exists>kd nd ks ns ka na kb nb.
     holding s0 s L [(cn_delta c, kd, nd), (cn_bs c, ks, ns), (cn_bd c, ka, na), (cn_bb c, kb, nb)])"

definition settled :: "rat \<Rightarrow> verdict \<Rightarrow> bool" where
  "settled q v \<longleftrightarrow> (case v of (rv, bc, out) \<Rightarrow> out = Stop \<and> correctly_rounded q rv)"

lemma corr_below_settles:
  assumes h: "holding s0 s L [(cn_delta c, 26, num_gap NB ND), (cn_bs c, 17, NS), (cn_bd c, 26, ND), (cn_bb c, 18, NB)]"
    and S: "0 < NS" and NB: "of_nat NB = dbl_val rv / (dbl_unit rv / 2) * of_nat NS" and ND: "of_nat ND = q / (dbl_unit rv / 2) * of_nat NS"
    and rv: "ready rv" and q: "\<bar>dbl_val rv - q\<bar> < dbl_unit rv / 2" and bc: "bc_dsign bc \<noteq> 0 \<longleftrightarrow> dbl_val rv < q" "bc_nd bc \<le> nd" "bc_scale bc = 0"
  shows "wpr (alloc_err A) (\<lambda>(s', c', v). held_nums s0 s' L c' \<and> settled q v) (corr_below A s c nd rv bc)"
proof -
  note D = readyD[OF rv]
  have hu: "0 < dbl_unit rv / 2" using dbl_unit_pos[of rv] by simp
  note g = gap_value[OF hu S NB ND]
  have held: "held_nums s0 s L c" using h unfolding held_nums_def by blast
  have q2: "q - dbl_val rv < dbl_unit rv / 2" "dbl_val rv - q < dbl_unit rv / 2" using q abs_ge_self[of "dbl_val rv - q"] abs_ge_minus_self[of "dbl_val rv - q"] by linarith+
  show ?thesis
  proof (cases "bc_dsign bc \<noteq> 0 \<or> dbl_frac rv \<noteq> 0")
    case True
    then have "dbl_val rv - q < lower_gap rv / 2"
      using bc(1) q2(2) hu lower_gap_cases[of rv] by (cases "dbl_frac rv = 0") auto
    then have "correctly_rounded q rv" using q2(1) by (intro near_ready[OF rv]) auto
    moreover have "corr_below A s c nd rv bc = Inr (s, c, rv, bc, Stop)"
      using True frac_zero[of rv] by (auto simp: corr_below_def)
    ultimately show ?thesis using held by (simp add: settled_def)
  next
    case False
    then have f: "bc_dsign bc = 0" "dbl_frac rv = 0" "word1 rv = 0" "word0 rv AND Bndry_mask = 0" using frac_zero[of rv] by auto
    have le: "q \<le> dbl_val rv" using f(1) bc(1) by auto
    have nz: "num_zero s (cn_delta c) = Inr (num_gap NB ND = 0)"
      by (rule num_zero_spec[OF holding_big[OF h, of _ 26]]) simp
    have big: "\<not> exp_bits rv \<le> exp_word_of (2 * int P_bits + 1)" unfolding scaled_range using D by simp
    have low: "lower_gap rv = dbl_unit rv / 2" by (rule lower_gap_cases(1)[OF f(2)])
    show ?thesis
    proof (cases "num_gap NB ND = 0")
      case True
      then have "dbl_val rv = q" using g(5) by simp
      then have "correctly_rounded q rv" using hu low by (intro near_ready[OF rv]) auto
      then show ?thesis using f big nz True held by (simp add: corr_below_def settled_def)
    next
      case False
      have run: "corr_below A s c nd rv bc = andthen (lshift A s (cn_delta c) Log2P) (\<lambda>(s, delta). andthen (cmp s delta (cn_bs c)) (\<lambda>i.
          Inr (s, c\<lparr>cn_delta := delta\<rparr>, if 0 < i then drop_down nd rv bc else (rv, bc, Stop))))"
        using f big nz False by (simp add: corr_below_def)
      show ?thesis unfolding run
      proof (rule wpr_bind[OF hold_lshift[OF h, where K = 27]]; (unfold split_paired_all prod.case)?)
        fix s1 d assume h1: "holding s0 s1 L ((d, 27, num_gap NB ND * 2 ^ nat Log2P) # [(cn_bs c, 17, NS), (cn_bd c, 26, ND), (cn_bb c, 18, NB)])"
        obtain i where i: "cmp s1 d (cn_bs c) = Inr i" "i < 0 \<longleftrightarrow> num_gap NB ND * 2 ^ nat Log2P < NS" "i = 0 \<longleftrightarrow> num_gap NB ND * 2 ^ nat Log2P = NS"
          using hold_cmp[OF h1, of d 27 "num_gap NB ND * 2 ^ nat Log2P" "cn_bs c" 17 NS] S by auto
        have "0 < i \<longleftrightarrow> \<not> 2 * num_gap NB ND \<le> NS" using i(2,3) by (simp add: Log2P_def) linarith
        then have ci: "0 < i \<longleftrightarrow> dbl_unit rv / 4 < dbl_val rv - q" using g(4) le by (auto simp: not_le)
        have "settled q (if 0 < i then drop_down nd rv bc else (rv, bc, Stop))"
        proof (cases "0 < i")
          case True
          then have "correctly_rounded q (mk_double ((exp_bits rv - Exp_msk1) OR Bndry_mask1) 0xffffffff)"
            using ci q2(2) by (intro below_power[OF rv f(2)]) auto
          then show ?thesis using True bc(2,3) by (simp add: settled_def drop_down_def Let_def)
        next
          case False
          then have "correctly_rounded q rv" using ci q2 low f(2) le hu by (intro near_ready[OF rv]) auto
          then show ?thesis using False by (simp add: settled_def)
        qed
        moreover have "held_nums s0 s1 L (c\<lparr>cn_delta := d\<rparr>)" using h1 unfolding held_nums_def by (simp, blast)
        ultimately show "wpr (alloc_err A) (\<lambda>(s', c', v). held_nums s0 s' L c' \<and> settled q v) (andthen (cmp s1 d (cn_bs c)) (\<lambda>i.
            Inr (s1, c\<lparr>cn_delta := d\<rparr>, if 0 < i then drop_down nd rv bc else (rv, bc, Stop))))"
          by (simp add: i(1))
      qed (use False in \<open>simp_all add: Log2P_def\<close>)
    qed
  qed
qed

lemma corr_tie_settles:
  assumes U: "fpu_ieee U" and x: "ce_Lsb x = 1" "ce_Lsb1 x = 0" and rv: "ready rv" "rv \<noteq> dbl_big" and q: "\<bar>dbl_val rv - q\<bar> = dbl_unit rv / 2"
    and bc: "bc_dsign bc \<noteq> 0 \<longleftrightarrow> dbl_val rv < q" "bc_nd bc \<le> nd" "bc_scale bc = 0"
  shows "\<exists>v. corr_tie U x nd rv bc = Inr v \<and> settled q v"
proof -
  note D = readyD[OF rv(1)]
  have hu: "0 < dbl_unit rv" by (rule dbl_unit_pos)
  have su: "sulp (fp_mul U) rv bc = ulp rv" using bc(3) by (simp add: sulp_def Let_def)
  have uv: "dbl_finite (ulp rv)" "dbl_val (ulp rv) = dbl_unit rv" using ulp_unit[of rv] D by auto
  have up: "bc_dsign bc \<noteq> 0 \<Longrightarrow> q - dbl_val rv = dbl_unit rv / 2" and down: "bc_dsign bc = 0 \<Longrightarrow> dbl_val rv - q = dbl_unit rv / 2"
    using q bc(1) hu by (auto simp: abs_if split: if_splits)
  have even: "settled q (round_even U x nd rv bc)"
    if b: "bc_dsign bc \<noteq> 0 \<longrightarrow> dbl_frac rv < 4503599627370495" "bc_dsign bc = 0 \<longrightarrow> dbl_frac rv \<noteq> 0"
  proof (cases "even (dbl_frac rv)")
    case True
    have "correctly_rounded q rv"
      using True up down b(2) lower_gap_cases(2)[of rv] hu
      by (intro near_ready[OF rv(1)]; cases "bc_dsign bc = 0") (auto simp: lower_gap_def)
    then show ?thesis using True frac_even[of rv] x by (simp add: round_even_def settled_def)
  next
    case False
    note o = one_unit[OF rv(1) False, of "bc_dsign bc \<noteq> 0"]
    have rng: "in_range (if bc_dsign bc \<noteq> 0 then dbl_val rv + dbl_unit rv else dbl_val rv - dbl_unit rv)"
    proof -
      obtain r where "ready r" "dbl_val r = (if bc_dsign bc \<noteq> 0 then dbl_val rv + dbl_unit rv else dbl_val rv - dbl_unit rv)" using o b by auto
      then show ?thesis using in_range_double[of r] readyD[of r] by metis
    qed
    show ?thesis
    proof (cases "bc_dsign bc \<noteq> 0")
      case True
      have "rounded (dbl_val rv + dbl_unit rv) (fp_add U rv (ulp rv))"
        using rng True uv D by (intro fpu_add[OF U]) auto
      then have "correctly_rounded q (fp_add U rv (ulp rv))"
        using one_unit_rounded[OF rv(1) False, of True q] True b up by simp
      then show ?thesis using True False frac_even[of rv] x su by (simp add: round_even_def settled_def)
    next
      case up: False
      have "rounded (dbl_val rv - dbl_unit rv) (fp_sub U rv (ulp rv))"
        using rng up uv D U unfolding fpu_ieee_def by (metis (full_types))
      then have "correctly_rounded q (fp_sub U rv (ulp rv)) \<and> \<not> dbl_is_zero (fp_sub U rv (ulp rv))"
        using one_unit_rounded[OF rv(1) False, of False q] up down by simp
      then show ?thesis using up False frac_even[of rv] x su by (simp add: round_even_def settled_def Let_def)
    qed
  qed
  show ?thesis
  proof (cases "bc_dsign bc \<noteq> 0")
    case True
    show ?thesis
    proof (cases "dbl_frac rv = 4503599627370495")
      case f: True
      then have w: "word0 rv AND Bndry_mask1 = Bndry_mask1" "word1 rv = 0xffffffff" using frac_ones[of rv] by auto
      have "mk_double (word0 rv) (word1 rv) \<noteq> dbl_big" using rv(2) unfolding mk_words .
      then have nb: "\<not> (word0 rv = Big0 \<and> word1 rv = Big1)" by (auto simp: dbl_big_def)
      have "dbl_exp rv < 2046"
      proof (rule ccontr)
        assume "\<not> dbl_exp rv < 2046"
        then have "dbl_exp rv = dbl_exp dbl_big" "dbl_frac rv = dbl_frac dbl_big" "dbl_sign rv = dbl_sign dbl_big"
          using D f by (simp_all add: dbl_big_def mk_double_fields Big0_def Big1_def)
        then show False using double_eqI rv(2) by blast
      qed
      then show ?thesis using True w nb bc(3) up_to_power[OF rv(1) f _ up] by (simp add: corr_tie_def settled_def)
    next
      case f: False
      then have "\<not> (word0 rv AND Bndry_mask1 = Bndry_mask1 \<and> word1 rv = 0xffffffff)" using frac_ones[of rv] by simp
      then have "corr_tie U x nd rv bc = Inr (round_even U x nd rv bc)" using True bc(3) by (auto simp: corr_tie_def)
      then show ?thesis using even True f frac_bound[of rv] by simp
    qed
  next
    case False
    show ?thesis
    proof (cases "dbl_frac rv = 0")
      case f: True
      have "correctly_rounded q (mk_double ((exp_bits rv - Exp_msk1) OR Bndry_mask1) 0xffffffff)"
        using down False hu by (intro below_power[OF rv(1) f]) auto
      then show ?thesis using False f frac_zero[of rv] bc(2,3) by (simp add: corr_tie_def settled_def drop_down_def Let_def)
    next
      case f: False
      then have "corr_tie U x nd rv bc = Inr (round_even U x nd rv bc)" using False frac_zero[of rv] by (auto simp: corr_tie_def)
      then show ?thesis using even False f by simp
    qed
  qed
qed

section \<open>The round\<close>

lemma hold_free_caller:
  assumes h: "holding s0 s L xs" and a: "a \<in> L"
  shows "\<exists>s'. Bfree s (Some a) = Inr s' \<and> holding s0 s' (L - {a}) xs"
proof -
  let ?M = "L \<union> set (map fst xs)"
  have d: "a \<notin> fst ` set xs" using h a by (auto simp: holding_def)
  obtain s' where s': "Bfree s (Some a) = Inr s'" "dtoa_inv s' (?M - {a})" "\<forall>b \<in> ?M - {a}. dt_heap s' b = dt_heap s b"
    using Bfree_inv[of s ?M a] h a by (auto simp: holding_def)
  have "L - {a} \<union> fst ` set xs = ?M - {a}" using d by auto
  moreover have "big_at s' b j m" if "(b, j, m) \<in> set xs" for b j m
  proof -
    have b: "b \<in> fst ` set xs" using that by force
    then have "b \<noteq> a" using d by blast
    then have "dt_heap s' b = dt_heap s b" using b s'(3) by simp
    then show ?thesis using holding_big[OF h that] by (simp add: big_at_def)
  qed
  moreover have "set (map fst xs) \<inter> (L - {a}) = {}" "\<forall>b \<in> L - {a}. dt_heap s' b = dt_heap s0 b"
    using h s'(3) by (auto simp: holding_def)
  ultimately have "holding s0 s' (L - {a}) xs" using h s'(2) unfolding holding_def set_map by auto
  then show ?thesis using s'(1) by blast
qed

lemma corr_free_spec:
  assumes h: "held_nums s0 s L c" and a: "a \<in> L"
  shows "\<exists>s'. corr_free s c (Some a) = Inr s' \<and> dtoa_inv s' (L - {a}) \<and> (\<forall>b \<in> L - {a}. dt_heap s' b = dt_heap s0 b)"
proof -
  obtain kd nd ks ns ka na kb nb where h0: "holding s0 s L [(cn_delta c, kd, nd), (cn_bs c, ks, ns), (cn_bd c, ka, na), (cn_bb c, kb, nb)]"
    using h unfolding held_nums_def by blast
  have "holding s0 s L [(cn_bb c, kb, nb), (cn_bd c, ka, na), (cn_bs c, ks, ns), (cn_delta c, kd, nd)]"
    by (rule hold_perm[OF h0]) (use h0 in \<open>auto simp: holding_def\<close>)
  from hold_free[OF this] obtain s1 where s1: "Bfree s (Some (cn_bb c)) = Inr s1" "holding s0 s1 L [(cn_bd c, ka, na), (cn_bs c, ks, ns), (cn_delta c, kd, nd)]" by blast
  from hold_free[OF s1(2)] obtain s2 where s2: "Bfree s1 (Some (cn_bd c)) = Inr s2" "holding s0 s2 L [(cn_bs c, ks, ns), (cn_delta c, kd, nd)]" by blast
  from hold_free[OF s2(2)] obtain s3 where s3: "Bfree s2 (Some (cn_bs c)) = Inr s3" "holding s0 s3 L [(cn_delta c, kd, nd)]" by blast
  from hold_free_caller[OF s3(2) a] obtain s4 where s4: "Bfree s3 (Some a) = Inr s4" "holding s0 s4 (L - {a}) [(cn_delta c, kd, nd)]" by blast
  from hold_free[OF s4(2)] obtain s5 where "Bfree s4 (Some (cn_delta c)) = Inr s5" "holding s0 s5 (L - {a}) []" by blast
  then show ?thesis using s1(1) s2(1) s3(1) s4(1) by (simp add: corr_free_def holding_def)
qed

lemma corr_decide_settles:
  assumes U: "fpu_ieee U" and ag: "against s0 L rv q (s, c, x, rv', dsign, i)" and rv: "ready rv" "rv \<noteq> dbl_big"
    and q: "\<bar>dbl_val rv - q\<bar> \<le> dbl_unit rv / 2" and bc: "bc_nd bc \<le> nd" "bc_scale bc = 0"
  shows "wpr (alloc_err A) (\<lambda>(s', c', req, v). \<not> req \<and> held_nums s0 s' L c' \<and> settled q v)
    (corr_decide A U s c x i nd rv (bc\<lparr>bc_dsign := dsign\<rparr>))"
proof -
  let ?bc = "bc\<lparr>bc_dsign := dsign\<rparr>"
  obtain NB ND NS where ag': "rv' = rv" "ce_Lsb x = 1" "ce_Lsb1 x = 0" "compared s0 L NB ND NS (s, c, dsign, i)" "0 < NS"
    "of_nat NB = dbl_val rv / (dbl_unit rv / 2) * of_nat NS" "of_nat ND = q / (dbl_unit rv / 2) * of_nat NS"
    using ag unfolding against_def prod.case by blast
  have hu: "0 < dbl_unit rv / 2" using dbl_unit_pos[of rv] by simp
  note g = gap_value[OF hu ag'(5-7)]
  have h: "holding s0 s L [(cn_delta c, 26, num_gap NB ND), (cn_bs c, 17, NS), (cn_bd c, 26, ND), (cn_bb c, 18, NB)]"
    and ds: "bc_dsign ?bc \<noteq> 0 \<longleftrightarrow> dbl_val rv < q" and i: "i < 0 \<longleftrightarrow> \<bar>dbl_val rv - q\<bar> < dbl_unit rv / 2" "i = 0 \<longleftrightarrow> \<bar>dbl_val rv - q\<bar> = dbl_unit rv / 2"
    using ag'(4) g(1-3) unfolding compared_def prod.case by auto
  have bc': "bc_nd ?bc \<le> nd" "bc_scale ?bc = 0" using bc by simp_all
  consider "i < 0" | "i = 0" using q i by linarith
  then show ?thesis
  proof cases
    case 1
    then have run: "corr_decide A U s c x i nd rv ?bc = andthen (corr_below A s c nd rv ?bc) (\<lambda>(s, n, v). Inr (s, n, False, v))"
      using bc by (simp add: corr_decide_def Let_def)
    show ?thesis unfolding run wpr_andthen
      by (rule wpr_mono[OF corr_below_settles[OF h ag'(5-7) rv(1) i(1)[THEN iffD1, OF 1] ds bc']]) auto
  next
    case 2
    obtain v where v: "corr_tie U x nd rv ?bc = Inr v" "settled q v"
      using corr_tie_settles[OF U ag'(2,3) rv i(2)[THEN iffD1, OF 2] ds bc'] by blast
    have "held_nums s0 s L c" using h unfolding held_nums_def by blast
    then show ?thesis using 2 bc v by (simp add: corr_decide_def Let_def)
  qed
qed

lemma corr_step_settles:
  assumes U: "fpu_ieee U" and inv: "dtoa_inv s L" and bd0: "bd0 \<in> L" "dt_heap s bd0 = Some Y" "big kd Y M" "0 < M" "kd \<le> 10"
    and e: "\<bar>e\<bar> \<le> 60000" and rv: "ready rv" "rv \<noteq> dbl_big" and q: "\<bar>dbl_val rv - of_nat M * 10 powi e\<bar> \<le> dbl_unit rv / 2"
    and bc: "bc_nd bc \<le> nd" "bc_scale bc = 0"
  shows "wpr (alloc_err A) (\<lambda>(s', req, v). \<not> req \<and> settled (of_nat M * 10 powi e) v \<and> dtoa_inv s' (L - {bd0})
      \<and> (\<forall>b \<in> L - {bd0}. dt_heap s' b = dt_heap s b)) (corr_step A U s bd0 e nd rv bc)"
proof -
  let ?q = "of_nat M * 10 powi e :: rat"
  note D = readyD[OF rv(1)]
  show ?thesis unfolding corr_step_def bc(2)
  proof (rule wpr_bind[OF corr_setup_spec[OF inv bd0 e]], use D in blast, use D in blast, use D in blast,
      unfold split_paired_all prod.case)
    fix s1 c x rv' dsign i assume ag: "against s L rv ?q (s1, c, x, rv', dsign, i)"
    then have rv': "rv' = rv" by (simp add: against_def)
    show "wpr (alloc_err A) (\<lambda>(s', req, v). \<not> req \<and> settled ?q v \<and> dtoa_inv s' (L - {bd0}) \<and> (\<forall>b \<in> L - {bd0}. dt_heap s' b = dt_heap s b))
        (andthen (corr_decide A U s1 c x i nd rv' (bc\<lparr>bc_dsign := dsign\<rparr>)) (\<lambda>(s, n, req, rv, bc, out).
         andthen (corr_free s n (if out = Go_on then None else Some bd0)) (\<lambda>s. Inr (s, req, rv, bc, out))))"
      unfolding rv'
    proof (rule wpr_bind[OF corr_decide_settles[OF U ag rv q bc]], unfold split_paired_all prod.case)
      fix s2 c2 req r b2 out assume v: "\<not> req \<and> held_nums s s2 L c2 \<and> settled ?q (r, b2, out)"
      then have out: "out = Stop" by (simp add: settled_def)
      obtain s3 where "corr_free s2 c2 (Some bd0) = Inr s3" "dtoa_inv s3 (L - {bd0})" "\<forall>b \<in> L - {bd0}. dt_heap s3 b = dt_heap s b"
        using corr_free_spec[OF _ bd0(1)] v by blast
      then show "wpr (alloc_err A) (\<lambda>(s', req, v). \<not> req \<and> settled ?q v \<and> dtoa_inv s' (L - {bd0}) \<and> (\<forall>b \<in> L - {bd0}. dt_heap s' b = dt_heap s b))
          (andthen (corr_free s2 c2 (if out = Go_on then None else Some bd0)) (\<lambda>s. Inr (s, req, r, b2, out)))"
        using v out by simp
    qed
  qed
qed

definition kept :: "nat set \<Rightarrow> dtoa_state \<Rightarrow> dtoa_state \<Rightarrow> bool" where
  "kept L s s' \<longleftrightarrow> (\<forall>a \<in> L. dt_heap s' a = dt_heap s a)"

text \<open>
  C4: the correction loop of \<open>fpconv_strtod\<close>: an approximation that is positive, not close to the
  denormal numbers, not the largest double, and within half a unit in its last place of the decimal
  number \<open>M * 10 ^ e\<close> is turned into the correctly rounded double (the even one at a tie) in one
  round, which gives back every block; the only failure is an exhausted allocator.
\<close>

theorem correction_settles:
  assumes "fpu_ieee U" "dtoa_inv s L" "bd0 \<in> L" "dt_heap s bd0 = Some Y" "big kd Y M" "0 < M" "kd \<le> 10"
    and "\<bar>e\<bar> \<le> 60000" "ready rv" "rv \<noteq> dbl_big" "\<bar>dbl_val rv - of_nat M * 10 powi e\<bar> \<le> dbl_unit rv / 2"
    and "bc_nd bc \<le> nd" "bc_scale bc = 0"
  shows "case corr_loop (Suc f) A U s bd0 e nd rv bc of
      Inl err \<Rightarrow> alloc_err A err
    | Inr (s', req, rv', bc', out) \<Rightarrow> \<not> req \<and> out = Stop \<and> correctly_rounded (of_nat M * 10 powi e) rv'
        \<and> dtoa_inv s' (L - {bd0}) \<and> kept (L - {bd0}) s s'"
proof -
  have "wpr (alloc_err A) (\<lambda>(s', req, v). \<not> req \<and> settled (of_nat M * 10 powi e) v \<and> dtoa_inv s' (L - {bd0})
      \<and> (\<forall>b \<in> L - {bd0}. dt_heap s' b = dt_heap s b)) (corr_loop (Suc f) A U s bd0 e nd rv bc)"
    unfolding corr_loop.simps wpr_andthen by (rule wpr_mono[OF corr_step_settles[OF assms]]) (auto simp: settled_def)
  then show ?thesis by (auto simp: wpr_def settled_def kept_def split: sum.splits)
qed

definition sample_rv :: double where "sample_rv = 0x413cac08316872b0"

theorem correction_settles_witness:
  "case corr_loop (Suc 0) (\<lambda>_. True) nearest_fpu sample_state 0 (-3) 10 sample_rv bc_init of
      Inl err \<Rightarrow> alloc_err (\<lambda>_. True) err
    | Inr (s', req, rv', bc', out) \<Rightarrow> \<not> req \<and> out = Stop \<and> correctly_rounded (of_nat 0x70000001 * 10 powi (-3)) rv'
        \<and> dtoa_inv s' ({0, 1} - {0}) \<and> kept ({0, 1} - {0}) sample_state s'"
proof -
  obtain Y where Y: "dt_heap sample_state 0 = Some Y" "big 1 Y 0x70000001" using sample_big(1) by (auto simp: big_at_def)
  have f: "dbl_exp sample_rv = 1043" "dbl_frac sample_rv = 3566850909172400" "\<not> dbl_sign sample_rv"
    by (simp_all add: sample_rv_def dbl_fields)
  have "dbl_exp dbl_big = 2046" by (simp add: dbl_big_def mk_double_fields Big0_def)
  then have rv: "ready sample_rv" "sample_rv \<noteq> dbl_big" using f by (auto simp: ready_def dbl_finite_def)
  have "dbl_unit sample_rv = 1 / 4294967296" unfolding dbl_unit_def f(1) by simp
  then have "\<bar>dbl_val sample_rv - of_nat 0x70000001 * 10 powi (-3)\<bar> \<le> dbl_unit sample_rv / 2"
    using dbl_val_normal[of sample_rv] f by (simp add: power_int_def power_one_over)
  from correction_settles[OF nearest_fpu_ieee sample_inv _ Y _ _ _ rv this, where bc = bc_init and nd = 10 and f = 0 and A = "\<lambda>_. True"]
  show ?thesis by (simp add: bc_init_def)
qed

end
