(* ===== verification/Dtoa_Whole.thy ===== *)
theory Dtoa_Whole
  imports Dtoa_Quick Dtoa_Settle
begin

text \<open>
\<open>dtoa\<close> of \<open>3rd/lua-cjson/dtoa.c\<close> as a whole, in the mode in which \<open>g_fmt.c\<close> calls it: the way that
  it takes to the digits does not matter, they are the correctly rounded ones; the block with
  the string is the only one it keeps, and \<open>freedtoa\<close> gives it back.
\<close>

section \<open>The three ways to the digits\<close>

lemma leads_down:
  assumes "leads_at n be f"
  shows "frac_num n be (f + 1) < frac_den be (f + 1)" "frac_den be (f + 1) \<le> 10 * frac_num n be (f + 1)"
proof -
  have e: "frac_num n be f * frac_den be (f + 1) = frac_den be f * (10 * frac_num n be (f + 1))"
    using frac_step[of n be "f + 1"] by (simp add: ac_simps)
  note c = cross_bounds[OF e frac_den_pos frac_den_pos]
  show "frac_den be (f + 1) \<le> 10 * frac_num n be (f + 1)" using assms c(1) by (simp add: leads_at_def)
  show "frac_num n be (f + 1) < frac_den be (f + 1)" using assms c(2)[of 10] by (simp add: leads_at_def)
qed

lemma digits_of_unique:
  assumes "digits_of n be p r" "digits_of n be p r'" "trimmed (fst r)" "trimmed (fst r')"
  shows "r = r'"
proof -
  obtain x ds where r: "r = bump_k x ds" "leads_at n be x"
    "rounded_digits p (round_div (frac_num n be x * 10 ^ (p - 1)) (frac_den be x)) ds" using assms(1) by (auto simp: digits_of_def)
  obtain y es where r': "r' = bump_k y es" "leads_at n be y"
    "rounded_digits p (round_div (frac_num n be y * 10 ^ (p - 1)) (frac_den be y)) es" using assms(2) by (auto simp: digits_of_def)
  have "x = y" using decade_unique r(2) r'(2) unfolding leads_rat by blast
  then have e: "rounded_digits p (round_div (frac_num n be x * 10 ^ (p - 1)) (frac_den be x)) es" using r'(3) by simp
  have "trimmed (fst ds)" "trimmed (fst es)" using assms(3,4) unfolding r(1) r'(1) fst_bump_k by blast+
  then have "ds = es" using r(3) e by (cases ds; cases es) (auto simp: rounded_digits_def trimmed_def split: if_splits)
  then show ?thesis using r(1) r'(1) \<open>x = y\<close> by simp
qed

lemma estimated_fractions:
  assumes f: "leads_at n be f" and k: "estimated (scaled_val n be) f k check"
  shows "frac_num n be k < 10 * frac_den be k" "frac_den be k \<le> 10 * frac_num n be k" "\<not> check \<Longrightarrow> frac_den be k \<le> frac_num n be k"
proof -
  have "k = f \<or> (check \<and> k = f + 1)" using k by (auto simp: estimated_def split: if_splits)
  then have "frac_num n be k < 10 * frac_den be k \<and> frac_den be k \<le> 10 * frac_num n be k \<and> (check \<or> frac_den be k \<le> frac_num n be k)"
  proof
    assume "k = f"
    then show ?thesis using f frac_den_pos[of be k] by (auto simp: leads_at_def)
  next
    assume "check \<and> k = f + 1"
    then show ?thesis using leads_down[OF f] frac_den_pos[of be k] by auto
  qed
  then show "frac_num n be k < 10 * frac_den be k" "frac_den be k \<le> 10 * frac_num n be k" "\<not> check \<Longrightarrow> frac_den be k \<le> frac_num n be k"
    by blast+
qed

lemma whole_value: "0 \<le> be \<Longrightarrow> scaled_val n be = of_nat (n * 2 ^ nat be)"
  by (simp add: scaled_val_def power_int_def)

definition long_integer :: "nat \<Rightarrow> int \<Rightarrow> nat \<Rightarrow> bool" where
  \<comment> \<open>an integer of more than \<open>p\<close> digits, after which \<open>dtoa\<close> may leave zeros\<close>
  "long_integer n be p \<longleftrightarrow> 0 \<le> be \<and> 10 ^ p \<le> n * 2 ^ nat be"

definition dtoa_digits_ok :: "nat \<Rightarrow> int \<Rightarrow> nat \<Rightarrow> string \<times> int \<Rightarrow> bool" where
  \<comment> \<open>the rounded digits, and which zeros are left at their end\<close>
  "dtoa_digits_ok n be p r \<longleftrightarrow> digits_of n be p r \<and> (trimmed (fst r) \<or> long_integer n be p)
     \<and> (\<forall>m j. 0 \<le> be \<and> half_way p (n * 2 ^ nat be) m j \<longrightarrow> r = (fixed_digits p m, int (p + j)))"

lemma half_way_leads:
  assumes be: "0 \<le> be" and h: "half_way p (n * 2 ^ nat be) m j"
  shows "leads_at n be (int (p + j))" "scaled_val n be / 10 powi int (p + j) * 10 ^ (p - 1) = of_nat m + 1 / 2"
proof -
  let ?N = "n * 2 ^ nat be"
  note w = half_way_parts[OF h]
  have "(of_nat (10 ^ (p + j)) :: rat) \<le> of_nat ?N" "(of_nat ?N :: rat) < of_nat (10 * 10 ^ (p + j))"
    using w(2,3) by (simp_all only: of_nat_le_iff of_nat_less_iff)
  then show "leads_at n be (int (p + j))" unfolding leads_rat whole_value[OF be] by (simp add: power_int_add del: of_nat_add)
  have "(of_nat ?N :: rat) * 10 ^ (p - 1) = of_nat (?N * 10 ^ (p - 1))" by simp
  also have "\<dots> = of_nat m * 10 ^ (p + j) + 5 * 10 ^ (p + j - 1)" unfolding w(1) by simp
  finally have "of_nat ?N * 10 ^ (p - 1) = (of_nat m * 10 ^ (p + j) + 5 * 10 ^ (p + j - 1) :: rat)" .
  moreover have "(10 :: rat) ^ (p + j) = 10 * 10 ^ (p + j - 1)" using h by (simp add: half_way_def flip: power_Suc)
  ultimately show "scaled_val n be / 10 powi int (p + j) * 10 ^ (p - 1) = of_nat m + 1 / 2"
    unfolding whole_value[OF be] power_int_of_nat by (simp add: field_simps)
qed

lemma not_half: "\<not> \<bar>of_nat m + 1 / 2 - of_nat R\<bar> < (1 / 2 :: rat)"
proof
  assume "\<bar>of_nat m + 1 / 2 - of_nat R\<bar> < (1 / 2 :: rat)"
  then have d: "of_nat m + 1 / 2 - of_nat R < (1 / 2 :: rat)" "- (of_nat m + 1 / 2 - of_nat R) < (1 / 2 :: rat)"
    unfolding abs_less_iff by blast+
  from d(1) have "(of_nat m :: rat) < of_nat R" by linarith
  moreover from d(2) have "(of_nat R :: rat) < of_nat m + 1" by linarith
  then have "(of_nat R :: rat) < of_nat (m + 1)" by simp
  ultimately show False by (simp only: of_nat_less_iff)
qed

lemma dtoa_digits_spec:
  assumes U: "fpu_ieee U" and h: "holding s0 s L [(b, 1, n)]" and n: "0 < n" and u: "dbl_finite u" "dbl_val u = scaled_val n be" "\<bar>be\<bar> \<le> 2000"
    and f: "leads_at n be f" and k: "estimated (dbl_val u) f k check"
    and p: "fixed_plan p np" "int np < rv_cap sz" and i: "bbits - i - 1 = - be"
  shows "wpr (alloc_err A) (\<lambda>(s', r). holding s0 s' L [] \<and> dtoa_digits_ok n be np r)
    (dtoa_digits A U s sz p u b be bbits i denorm k check)" (is "wpr _ ?Q _")
proof -
  have pl: "dp_ilim p = int np" using p(1) by (simp add: fixed_plan_def)
  obtain s1 where s1: "Bfree s (Some b) = Inr s1" "holding s0 s1 L []" using hold_free[OF h] by blast
  have V: "10 powi f \<le> dbl_val u" "dbl_val u < 10 powi (f + 1)" using f unfolding leads_rat u(2) by blast+
  have fr: "- 324 \<le> f" "f \<le> 308" using decade_range[OF u(1) V] by blast+
  have kf: "k = f \<or> (check \<and> k = f + 1)" using k by (auto simp: estimated_def split: if_splits)
  let ?fast = "0 \<le> dp_ilim p \<and> dp_ilim p \<le> Quick_max \<and> dp_quick p"
  obtain r where r: "(if ?fast then dtoa_quick U sz p u k check else Inr None) = Inr r" "\<forall>x. r = Some x \<longrightarrow> digits_of n be np x \<and> trimmed (fst x)
    \<and> (\<not> check \<longrightarrow> (\<exists>R. \<bar>dbl_val u / 10 powi k * 10 ^ (np - 1) - of_nat R\<bar> < 1 / 2))"
  proof (cases ?fast)
    case True
    then have "np \<le> 14" by (simp add: pl Quick_max_def)
    from dtoa_quick_spec[OF U u(1,2) f k p(1) this p(2)] show ?thesis using True that by auto
  qed (use that in auto)
  have half: "k = int (np + j) \<and> k \<le> 14 \<and> \<not> check" if "0 \<le> be" "half_way np (n * 2 ^ nat be) m j" for m j
  proof -
    have l: "leads_at n be (int (np + j))" by (rule half_way_leads(1)[OF that])
    have "f = int (np + j)" using decade_unique V l unfolding leads_rat u(2) by blast
    moreover have "np + j < 15" "0 < np" using that(2) by (simp_all add: half_way_def)
    moreover have "check \<longrightarrow> k < 0 \<or> 22 < k" using k by (simp add: estimated_def)
    ultimately show ?thesis using kf by auto
  qed
  show ?thesis
  proof (cases r)
    case (Some x)
    then have x: "digits_of n be np x" "trimmed (fst x)" and cl: "\<not> check \<Longrightarrow> \<exists>R. \<bar>dbl_val u / 10 powi k * 10 ^ (np - 1) - of_nat R\<bar> < 1 / 2"
      using r(2) by auto
    have "\<not> half_way np (n * 2 ^ nat be) m j" if "0 \<le> be" for m j
    proof
      assume h: "half_way np (n * 2 ^ nat be) m j"
      from cl half[OF that h] half_way_leads(2)[OF that h] show False unfolding u(2) using not_half by auto
    qed
    then have "dtoa_digits_ok n be np x" using x by (auto simp: dtoa_digits_ok_def)
    then show ?thesis unfolding dtoa_digits_def r(1) Some using s1 by (cases x) simp
  next
    case None
    show ?thesis
    proof (cases "0 \<le> be \<and> k \<le> Int_max")
      case True
      then have be: "0 \<le> be" "k \<le> 14" by (simp_all add: Int_max_def)
      have "(1 :: nat) \<le> n * 2 ^ nat be" using n by simp
      then have "(of_nat 1 :: rat) \<le> of_nat (n * 2 ^ nat be)" by (simp only: of_nat_le_iff)
      then have one: "1 \<le> dbl_val u" unfolding u(2) whole_value[OF be(1)] by simp
      have f0: "0 \<le> f"
      proof (rule ccontr)
        assume "\<not> 0 \<le> f"
        then have "(10 :: rat) powi (f + 1) \<le> 10 powi 0" by (intro power_int_increasing) auto
        then show False using one V(2) by simp
      qed
      then have ck: "\<not> check" using k be(2) kf by (auto simp: estimated_def)
      then have kk: "k = f" using kf by blast
      have iu: "is_int u (n * 2 ^ nat be)" using u(1) unfolding is_int_def u(2) whole_value[OF be(1)] by blast
      obtain q where q: "dtoa_small U sz p u k = Inr q" "digits_of n be np q" "trimmed (fst q) \<or> 10 ^ np \<le> n * 2 ^ nat be"
        "\<forall>m j. half_way np (n * 2 ^ nat be) m j \<and> k = int (np + j) \<longrightarrow> q = (fixed_digits np m, k)"
        using dtoa_small_spec[OF U p _ be(2) iu be(1)] f f0 unfolding kk by blast
      have "dtoa_digits_ok n be np q" using q(2-) be(1) half unfolding dtoa_digits_ok_def long_integer_def by blast
      then show ?thesis unfolding dtoa_digits_def r(1) None using True q(1) s1 by (cases q) auto
    next
      case False
      have run: "dtoa_digits A U s sz p u b be bbits i denorm k check = dtoa_big A s sz p u b be bbits i denorm k check"
        unfolding dtoa_digits_def r(1) None if_not_P[OF False] andthen_simps option.case ..
      have kb: "\<bar>k\<bar> \<le> 1000" using kf fr by auto
      note ef = estimated_fractions[OF f k[unfolded u(2)]]
      have big: "wpr (alloc_err A) (\<lambda>(s', r). holding s0 s' L [] \<and> digits_of n be np r \<and> trimmed (fst r))
          (dtoa_big A s sz p u b be bbits i denorm k check)"
        by (rule dtoa_big_spec[OF h n p(1) i u(3) kb p(2) ef(1,2)]) (rule ef(3))
      have "\<not> half_way np (n * 2 ^ nat be) m j" if "0 \<le> be" for m j using half[OF that] False that by (auto simp: Int_max_def)
      then show ?thesis unfolding run
        by (intro wpr_mono[OF big]) (auto simp: dtoa_digits_ok_def)
    qed
  qed
qed

section \<open>The block of the string\<close>

lemma Balloc_inv:
  assumes inv: "dtoa_inv s M" and k: "0 \<le> k" "k \<le> 30"
  shows "wpr (alloc_err A) (\<lambda>(s', a). a \<notin> M \<and> dtoa_inv s' (insert a M) \<and> (\<forall>b \<in> M. dt_heap s' b = dt_heap s b)
      \<and> (\<exists>b. dt_heap s' a = Some b \<and> blk_ok b \<and> bg_k b = k)) (Balloc A s k)"
proof -
  obtain ps where ps: "p5_ok s ps" "set ps \<inter> M = {}" "dt_ok s (M \<union> set ps)" using inv by (auto simp: dtoa_inv_def)
  show ?thesis
  proof (rule wpr_mono[OF Balloc_spec[OF ps(3) k]])
    fix r assume "case r of (s', a) \<Rightarrow> a \<notin> M \<union> set ps \<and> dt_ok s' (insert a (M \<union> set ps)) \<and> same (M \<union> set ps) s s'
      \<and> (\<exists>b. dt_heap s' a = Some b \<and> blk_ok b \<and> bg_k b = k \<and> bg_sign b = 0 \<and> bg_wds b = 0)"
    then obtain s' a where r: "r = (s', a)" "a \<notin> M \<union> set ps" "dt_ok s' (insert a (M \<union> set ps))" "same (M \<union> set ps) s s'"
      "\<exists>b. dt_heap s' a = Some b \<and> blk_ok b \<and> bg_k b = k" by (cases r) auto
    have "p5_ok s' ps" by (rule p5_same[OF ps(1) r(4)]) simp
    moreover have "set ps \<inter> insert a M = {}" "insert a M \<union> set ps = insert a (M \<union> set ps)" using ps(2) r(2) by auto
    ultimately have "dtoa_inv s' (insert a M)" unfolding dtoa_inv_def using r(3) by (intro exI[of _ ps]) simp
    then show "case r of (s', a) \<Rightarrow> a \<notin> M \<and> dtoa_inv s' (insert a M) \<and> (\<forall>b \<in> M. dt_heap s' b = dt_heap s b)
      \<and> (\<exists>b. dt_heap s' a = Some b \<and> blk_ok b \<and> bg_k b = k)" using r by (auto simp: same_def)
  qed simp
qed

lemma rv_size_spec:
  assumes i: "0 \<le> i" "i \<le> 2 ^ 30" and j: "j \<le> 28"
  shows "\<exists>k. rv_size i (4 * 2 ^ j) (int j) = Inr (int k) \<and> k \<le> 28 \<and> i < 24 + 4 * 2 ^ k"
  using j
proof (induction "28 - j" arbitrary: j)
  case 0
  then have "j = 28" by simp
  then show ?case using i by (subst rv_size.simps) (auto simp: to_size_def intro!: exI[of _ 28])
next
  case (Suc x j)
  have j: "j < 28" "(2 :: int) ^ j \<le> 2 ^ 27" "(0 :: int) \<le> 2 ^ j" using Suc(2) by (simp, intro power_increasing) auto
  have low: "(- 268435456 :: int) \<le> 2 ^ j" using j(3) by linarith
  have ok: "c_int (8 * 2 ^ j) = Inr (4 * 2 ^ Suc j)" using j(2) low by (auto simp: c_int_def int_ok_iff INT_MAX_def)
  have sz: "to_size (24 + 4 * 2 ^ j) = 24 + 4 * 2 ^ j" "to_size i = i"
    using i j(2,3) by (simp_all add: to_size_def)
  show ?case
  proof (cases "24 + 4 * 2 ^ j \<le> i")
    case True
    then have "rv_size i (4 * 2 ^ j) (int j) = rv_size i (4 * 2 ^ Suc j) (int (Suc j))"
      by (subst rv_size.simps) (simp add: sz ok add.commute del: power_Suc)
    then show ?thesis using Suc.hyps(1)[of "Suc j"] Suc.hyps(2) j(1) by simp
  next
    case False
    then have "rv_size i (4 * 2 ^ j) (int j) = Inr (int j)" by (subst rv_size.simps) (simp add: sz)
    then show ?thesis using False j(1) by (intro exI[of _ j]) simp
  qed
qed

lemma rv_cap_room: "24 + 4 * 2 ^ k \<le> rv_cap (int k)"
proof -
  have "x - 7 \<le> x div 8 * 8" for x :: int by presburger
  from this[of "32 + (2 ^ k - 1) * 4 + 8 - 1"] show ?thesis by (simp add: rv_cap_def bigint_len_def)
qed

definition string_in :: "dtoa_mem \<Rightarrow> nat \<Rightarrow> int \<Rightarrow> bool" where
  \<comment> \<open>the block still knows its size\<close>
  "string_in w r k \<longleftrightarrow> (\<exists>b. dt_heap (dm_state w) r = Some b \<and> blk_ok b \<and> bg_k b = k)"

definition dtoa_mem_ok :: "dtoa_mem \<Rightarrow> nat set \<Rightarrow> bool" where
  \<comment> \<open>next to the blocks \<open>L\<close> there is at most one string, the result\<close>
  "dtoa_mem_ok w L \<longleftrightarrow>
     dtoa_inv (dm_state w) (L \<union> set_option (dm_result w)) \<and> set_option (dm_result w) \<inter> L = {}
     \<and> dom (dm_strings w) = set_option (dm_result w) \<and> (\<forall>r k t. dm_strings w r = Some (k, t) \<longrightarrow> string_in w r k)"

definition mem_keeps :: "nat set \<Rightarrow> dtoa_mem \<Rightarrow> dtoa_mem \<Rightarrow> bool" where
  "mem_keeps L w w' \<longleftrightarrow> dtoa_mem_ok w' L \<and> (\<forall>a \<in> L. dt_heap (dm_state w') a = dt_heap (dm_state w) a)"

lemma mem_keeps_refl: "dtoa_mem_ok w L \<Longrightarrow> mem_keeps L w w"
  by (simp add: mem_keeps_def)

lemma mem_keeps_trans: "mem_keeps L w w' \<Longrightarrow> mem_keeps L w' w'' \<Longrightarrow> mem_keeps L w w''"
  by (simp add: mem_keeps_def)

lemma mem_idle: "dtoa_mem_ok w L \<Longrightarrow> dm_result w = None \<Longrightarrow> dtoa_inv (dm_state w) L \<and> dm_strings w = Map.empty"
  by (simp add: dtoa_mem_ok_def)

lemma rv_alloc_spec:
  assumes ok: "dtoa_inv (dm_state w) M" "dm_strings w = Map.empty" and i: "0 \<le> i" "i \<le> 2 ^ 30"
  shows "wpr (alloc_err A) (\<lambda>(w', r, k). r \<notin> M \<and> dtoa_inv (dm_state w') (insert r M) \<and> i < rv_cap k \<and> string_in w' r k
      \<and> (\<forall>a \<in> M. dt_heap (dm_state w') a = dt_heap (dm_state w) a) \<and> dm_strings w' = [r \<mapsto> (k, [])] \<and> dm_result w' = Some r)
    (rv_alloc A w i)"
proof -
  obtain k where k: "rv_size i 4 0 = Inr (int k)" "k \<le> 28" "i < 24 + 4 * 2 ^ k" using rv_size_spec[OF i, of 0] by auto
  have cap: "i < rv_cap (int k)" using k(3) rv_cap_room[of k] by linarith
  have B: "wpr (alloc_err A) (\<lambda>(s', a). a \<notin> M \<and> dtoa_inv s' (insert a M) \<and> (\<forall>b \<in> M. dt_heap s' b = dt_heap (dm_state w) b)
      \<and> (\<exists>b. dt_heap s' a = Some b \<and> blk_ok b \<and> bg_k b = int k)) (Balloc A (dm_state w) (int k))"
    using k(2) by (intro Balloc_inv[OF ok(1)]) simp_all
  show ?thesis unfolding rv_alloc_def k(1) andthen_simps wpr_andthen[of _ _ "Balloc A (dm_state w) (int k)"]
    by (rule wpr_mono[OF B]) (use cap ok(2) in \<open>auto simp: string_in_def\<close>)
qed

lemma freedtoa_spec:
  assumes ok: "dtoa_mem_ok w L" and r: "dm_result w = Some r"
  shows "\<exists>w'. freedtoa w r = Inr w' \<and> mem_keeps L w w' \<and> dm_result w' = None"
proof -
  have dom: "dom (dm_strings w) = {r}" "r \<notin> L" "dtoa_inv (dm_state w) (insert r L)"
    and blk: "\<And>k t. dm_strings w r = Some (k, t) \<Longrightarrow> string_in w r k"
    using ok by (simp_all add: dtoa_mem_ok_def r)
  obtain k t where kt: "dm_strings w r = Some (k, t)" using dom(1) by fastforce
  obtain b where b: "dt_heap (dm_state w) r = Some b" "blk_ok b" "bg_k b = k" using blk[OF kt] by (auto simp: string_in_def)
  have k: "\<not> (k < 0 \<or> 31 \<le> k)" "(push_bit (nat k) 1 :: int) = 2 ^ nat k" using b(2,3) by (simp_all add: blk_ok_def push_bit_eq_mult)
  let ?B = "b\<lparr>bg_next := None, bg_k := k, bg_maxwds := push_bit (nat k) 1, bg_x := replicate (length (bg_x b)) None\<rparr>"
  have B: "blk_ok ?B" using b(2,3) k(2) by (simp add: blk_ok_def)
  have u: "dtoa_inv (update (dm_state w) r ?B) (insert r L)" by (rule update_inv[OF dom(3) insertI1 B])
  from Bfree_inv[OF u insertI1] obtain s' where s': "Bfree (update (dm_state w) r ?B) (Some r) = Inr s'"
    "dtoa_inv s' (insert r L - {r})" "\<forall>c \<in> insert r L - {r}. dt_heap s' c = dt_heap (update (dm_state w) r ?B) c" by blast
  have L: "insert r L - {r} = L" using dom(2) by simp
  let ?w = "w\<lparr>dm_state := s', dm_strings := (dm_strings w)(r := None), dm_result := None\<rparr>"
  have run: "freedtoa w r = Inr ?w" unfolding freedtoa_def kt option.case prod.case if_not_P[OF k(1)]
    using b(1) s'(1) r by (simp add: deref_def Let_def)
  have e: "(dm_strings w)(r := None) = Map.empty"
  proof
    fix a show "((dm_strings w)(r := None)) a = None" using dom(1) by (cases "a = r") (auto dest: domI)
  qed
  have "mem_keeps L w ?w" using s'(2,3) dom(2) unfolding L mem_keeps_def dtoa_mem_ok_def e by (auto simp: update_def)
  then show ?thesis using run by auto
qed

section \<open>Finite doubles\<close>

lemma nrv_alloc_spec:
  assumes ok: "dtoa_inv (dm_state w) L" "dm_strings w = Map.empty" and t: "int (length t) \<le> n" "n \<le> 2 ^ 30"
  shows "wpr (alloc_err A) (\<lambda>(w', r). mem_keeps L w w' \<and> dm_result w' = Some r \<and> (\<exists>k. dm_strings w' r = Some (k, t))) (nrv_alloc A w t n)"
proof -
  have n: "0 \<le> n" using t(1) by simp
  show ?thesis unfolding nrv_alloc_def
  proof (rule wpr_bind[OF rv_alloc_spec[OF ok n t(2)]])
    fix x assume "case x of (w', r, k) \<Rightarrow> r \<notin> L \<and> dtoa_inv (dm_state w') (insert r L) \<and> n < rv_cap k \<and> string_in w' r k
      \<and> (\<forall>a \<in> L. dt_heap (dm_state w') a = dt_heap (dm_state w) a) \<and> dm_strings w' = [r \<mapsto> (k, [])] \<and> dm_result w' = Some r"
    then obtain w1 r k where x: "x = (w1, r, k)" "r \<notin> L" "dtoa_inv (dm_state w1) (insert r L)" "n < rv_cap k" "string_in w1 r k"
      "\<forall>a \<in> L. dt_heap (dm_state w1) a = dt_heap (dm_state w) a" "dm_strings w1 = [r \<mapsto> (k, [])]" "dm_result w1 = Some r" by (cases x) auto
    have put: "fold_r (put_ch k) s out = Inr (out @ s)" if "int (length out + length s) < rv_cap k" for s out
      using that by (induction s arbitrary: out) (auto simp: put_ch_def)
    have "int (length t) < rv_cap k" using t(1) x(4) by linarith
    then have run: "andthen (fold_r (put_ch k) t []) (\<lambda>out. andthen (end_text w1 r k out) (\<lambda>w. Inr (w, r)))
        = Inr (w1\<lparr>dm_strings := [r \<mapsto> (k, t)]\<rparr>, r)" using put[of "[]" t] by (simp add: end_text_def x(7))
    show "wpr (alloc_err A) (\<lambda>(w', r). mem_keeps L w w' \<and> dm_result w' = Some r \<and> (\<exists>k. dm_strings w' r = Some (k, t)))
      (case x of (w, r, k) \<Rightarrow> andthen (fold_r (put_ch k) t []) (\<lambda>out. andthen (end_text w r k out) (\<lambda>w. Inr (w, r))))"
      unfolding x(1) prod.case run using x(2-6,8) by (simp add: mem_keeps_def dtoa_mem_ok_def string_in_def)
  qed
qed

lemma plan_two:
  "\<exists>p. plan_digits 2 nd k = Inr p \<and> fixed_plan p (nat (max 1 nd)) \<and> dp_room p = max 1 nd"
  by (auto simp: plan_digits_def plan_mode_def fixed_plan_def Let_def)

lemma num_den_val: "\<not> dbl_sign d \<Longrightarrow> (of_nat (dbl_num d) / of_nat (dbl_den d) :: rat) = dbl_val d"
  by (simp add: fields_val[OF refl refl] dbl_num_def dbl_den_def powi_quot nat_diff_distrib' flip: nat_minus_as_int)

definition printed_digits :: "nat \<Rightarrow> double \<Rightarrow> string \<Rightarrow> int \<Rightarrow> bool" where
  \<comment> \<open>the digits that \<open>printf\<close> has, without its trailing zeros unless the number is a long integer\<close>
  "printed_digits p d out decpt \<longleftrightarrow>
     (case sig_digits p (dbl_num d) (dbl_den d) of (q, x) \<Rightarrow>
        decpt = x + 1 \<and> strip_zeros out = strip_zeros (dec_digits q) \<and> length out \<le> p
        \<and> (trimmed out \<or> (\<exists>N. dbl_num d = N * dbl_den d \<and> 10 ^ p \<le> N))
        \<and> (\<forall>N m j. dbl_num d = N * dbl_den d \<and> half_way p N m j \<longrightarrow> out = fixed_digits p m \<and> decpt = int (p + j) + 1))"

lemma digits_printed:
  assumes dg: "dtoa_digits_ok n be p (out, k)" and p: "0 < p" and n: "odd n"
    and v: "of_nat (dbl_num d) / of_nat (dbl_den d) = scaled_val n be" "0 < dbl_num d"
  shows "printed_digits p d out (k + 1)"
proof -
  have den: "0 < dbl_den d" by (simp add: dbl_den_def)
  obtain q where q: "sig_digits p (dbl_num d) (dbl_den d) = (q, k)" "strip_zeros out = strip_zeros (dec_digits q)" "length out \<le> p"
    using digits_of_sig[OF _ p odd_pos[OF n] v(2) den v(1)] dg unfolding dtoa_digits_ok_def by blast
  have whole: "0 \<le> be \<and> n * 2 ^ nat be = N" if N: "dbl_num d = N * dbl_den d" for N
  proof -
    have V: "scaled_val n be = of_nat N" using v(1) den N by (simp add: field_simps)
    show ?thesis
    proof (cases "0 \<le> be")
      case True
      then show ?thesis using V unfolding whole_value[OF True] of_nat_eq_iff by blast
    next
      case False
      have "(of_nat n :: rat) = of_nat (N * 2 ^ nat (- be))" using V False by (simp add: scaled_val_def powi_quot field_simps)
      then have "n = N * 2 ^ nat (- be)" by (simp only: of_nat_eq_iff)
      then show ?thesis using n False by auto
    qed
  qed
  have "\<exists>N. dbl_num d = N * dbl_den d \<and> 10 ^ p \<le> N" if "long_integer n be p"
  proof -
    have be: "0 \<le> be" "10 ^ p \<le> n * 2 ^ nat be" using that by (simp_all add: long_integer_def)
    have "(of_nat (dbl_num d) :: rat) = of_nat (n * 2 ^ nat be) * of_nat (dbl_den d)"
      using v(1) den unfolding whole_value[OF be(1)] by (simp add: field_simps)
    then have "dbl_num d = n * 2 ^ nat be * dbl_den d" by (simp only: of_nat_eq_iff flip: of_nat_mult)
    then show ?thesis using be(2) by blast
  qed
  moreover have "out = fixed_digits p m \<and> k + 1 = int (p + j) + 1" if "dbl_num d = N * dbl_den d" "half_way p N m j" for N m j
    using dg that(2) whole[OF that(1)] by (auto simp: dtoa_digits_ok_def)
  ultimately show ?thesis using q dg by (auto simp: printed_digits_def dtoa_digits_ok_def)
qed


lemma finite_start:
  assumes u: "0 < dbl_mant u" "dbl_exp u < 2047" "\<not> dbl_sign u" and inv: "dtoa_inv s L"
  shows "\<exists>c n be bits d'. d2b A s u = andthen c (\<lambda>(s, b). Inr (s, b, be, int bits, d'))
    \<and> wpr (alloc_err A) (\<lambda>(s', b). holding s s' L [(b, 1, n)]) c \<and> odd n \<and> \<bar>be\<bar> \<le> 2000
    \<and> dbl_finite d' \<and> dbl_val d' = scaled_val n be \<and> of_nat (dbl_num u) / of_nat (dbl_den u) = scaled_val n be
    \<and> (\<exists>z. n * 2 ^ z = dbl_mant d' \<and> be = int (max 1 (dbl_exp d')) - 1075 + int z) \<and> 2 ^ bits \<le> 2 * n \<and> n < 2 ^ bits \<and> \<not> dbl_sign d'"
proof -
  obtain c n k bits d' where r: "d2b A s u = andthen c (\<lambda>(s, b). Inr (s, b, int (max 1 (dbl_exp u)) - 1075 + int k, bits, d'))"
    "\<And>L. dt_ok s L \<Longrightarrow> wpr (alloc_err A) (made s L 1 n 0) c" "odd n" "n * 2 ^ k = dbl_mant u" "0 < bits" "2 ^ nat bits \<le> 2 * n" "n < 2 ^ nat bits"
    "\<not> dbl_sign d'" "dbl_exp d' = dbl_exp u" "dbl_frac d' = dbl_frac u"
    using d2b_run[OF u(1,2), of A s] by blast
  let ?be = "int (max 1 (dbl_exp u)) - 1075 + int k"
  have n: "0 < n" using r(3) by (rule odd_pos)
  have m: "dbl_mant d' = dbl_mant u" using r(9,10) by (simp add: dbl_mant_def)
  have "2 ^ k \<le> n * 2 ^ k" using n by simp
  also have "\<dots> < 2 ^ 53" unfolding r(4) using dbl_mant_less[of u] by simp
  finally have "k < 53" by (rule power_less_imp_less_exp[rotated]) simp
  then have be: "\<bar>?be\<bar> \<le> 2000" using u(2) by auto
  have V: "dbl_val x = scaled_val n ?be" if "dbl_exp x = dbl_exp u" "dbl_mant x = dbl_mant u" "\<not> dbl_sign x" for x
  proof -
    have "dbl_val x = of_nat (n * 2 ^ k) * 2 powi (int (max 1 (dbl_exp u)) - 1075)" unfolding r(4) by (rule fields_val[OF that])
    also have "\<dots> = of_nat n * (2 powi (int (max 1 (dbl_exp u)) - 1075) * 2 powi int k)" by (simp only: of_nat_mult of_nat_power of_nat_numeral power_int_of_nat ac_simps)
    also have "2 powi (int (max 1 (dbl_exp u)) - 1075) * 2 powi int k = (2 :: rat) powi ?be" by (rule power_int_add[symmetric]) simp
    finally show ?thesis by (simp only: scaled_val_def)
  qed
  have h: "wpr (alloc_err A) (\<lambda>(s', b). holding s s' L [(b, 1, n)]) c"
  proof (rule wpr_mono[OF hold_fresh[OF holding_nil[OF inv] made_fresh]])
    show "dtoa_inv s (L \<union> set (map fst ([] :: (nat \<times> int \<times> nat) list)))" using inv by simp
    show "wpr (alloc_err A) (made s N 1 n 0) c" if "dt_ok s N" for N by (rule r(2)[OF that])
  qed auto
  have b: "int (nat bits) = bits" using r(5) by simp
  show ?thesis
    by (rule exI[of _ c], rule exI[of _ n], rule exI[of _ ?be], rule exI[of _ "nat bits"], rule exI[of _ d'], intro conjI exI[of _ k])
      (use r(1,3) h be V[OF r(9) m r(8)] V[OF refl refl u(3)] num_den_val[OF u(3)] r(4-) m u(2) b in \<open>simp_all add: dbl_finite_def\<close>)
qed

definition string_made :: "nat set \<Rightarrow> dtoa_mem \<Rightarrow> dtoa_mem \<Rightarrow> nat \<Rightarrow> (string \<Rightarrow> bool) \<Rightarrow> bool" where
  \<comment> \<open>the result is a string with the property\<close>
  "string_made L w w' r P \<longleftrightarrow> mem_keeps L w w' \<and> dm_result w' = Some r \<and> (\<exists>k out. dm_strings w' r = Some (k, out) \<and> P out)"

lemma finish_digits:
  assumes dg: "dtoa_digits_ok n be p (out, k)" and p: "0 < p" and n: "odd n"
    and v: "of_nat (dbl_num d) / of_nat (dbl_den d) = scaled_val n be" "0 < dbl_num d" and fin: "dbl_exp d < 2047"
    and w: "mem_keeps L w w1" and s: "dm_strings w1 = [r \<mapsto> (sz, [])]" "string_in w1 r sz" "dm_result w1 = Some r" "int p < rv_cap sz" "r \<notin> L"
    and s2: "dtoa_inv s2 (insert r L)" "\<forall>a \<in> insert r L. dt_heap s2 a = dt_heap (dm_state w1) a"
  shows "\<exists>w' decpt. andthen (end_text (w1\<lparr>dm_state := s2\<rparr>) r sz out) (\<lambda>w. andthen (c_int (k + 1)) (\<lambda>decpt. Inr (w, r, decpt))) = Inr (w', r, decpt)
    \<and> string_made L w w' r (\<lambda>out. printed_digits p d out decpt)"
proof -
  have pr: "printed_digits p d out (k + 1)" by (rule digits_printed[OF dg p n v])
  then obtain q where q: "sig_digits p (dbl_num d) (dbl_den d) = (q, k)" and len: "length out \<le> p"
    by (auto simp: printed_digits_def split: prod.splits)
  have "\<not> isnan d" "\<not> isinf d" using fin by (auto simp: isnan_def isinf_def)
  from sig_digits_double[OF this _ _ q] p v(2) have k: "\<bar>k + 1 - 1\<bar> < 1000" by auto
  have room: "int (length out) < rv_cap sz" using len s(4) by linarith
  have c: "c_int (k + 1) = Inr (k + 1)" using k by (auto simp: c_int_def int_ok_iff INT_MAX_def)
  let ?w = "w1\<lparr>dm_state := s2, dm_strings := [r \<mapsto> (sz, out)]\<rparr>"
  have run: "end_text (w1\<lparr>dm_state := s2\<rparr>) r sz out = Inr ?w" using room s(1) by (simp add: end_text_def)
  have "mem_keeps L w ?w" using w s s2 by (auto simp: mem_keeps_def dtoa_mem_ok_def string_in_def)
  then show ?thesis unfolding run andthen_simps c using pr s(3)
    by (intro exI[of _ ?w] exI[of _ "k + 1"]) (simp add: string_made_def)
qed

lemma dtoa_finite_spec:
  assumes U: "fpu_ieee U" and ok: "dtoa_mem_ok w L" "dm_result w = None" and u: "0 < dbl_mant u" "dbl_exp u < 2047" "\<not> dbl_sign u" and nd: "nd \<le> 2 ^ 30"
  shows "wpr (alloc_err A) (\<lambda>(w', r, decpt). string_made L w w' r (\<lambda>out. printed_digits (nat (max 1 nd)) u out decpt))
    (dtoa_finite A U w u 2 nd)" (is "wpr _ ?Q _")
proof -
  let ?p = "nat (max 1 nd)"
  have p: "0 < ?p" "int ?p = max 1 nd" "0 \<le> max 1 nd" "max 1 nd \<le> 2 ^ 30" using nd by simp_all
  have mem: "dtoa_inv (dm_state w) L" "dm_strings w = Map.empty" using mem_idle[OF ok] by blast+
  obtain c n be bits d' z where r: "d2b A (dm_state w) u = andthen c (\<lambda>(s, b). Inr (s, b, be, int bits, d'))"
    "wpr (alloc_err A) (\<lambda>(s', b). holding (dm_state w) s' L [(b, 1, n)]) c" and n: "odd n" and be: "\<bar>be\<bar> \<le> 2000"
    and d': "dbl_finite d'" "dbl_val d' = scaled_val n be" and v: "of_nat (dbl_num u) / of_nat (dbl_den u) = scaled_val n be"
    and z: "n * 2 ^ z = dbl_mant d'" "be = int (max 1 (dbl_exp d')) - 1075 + int z" and bits: "2 ^ bits \<le> 2 * n" "n < 2 ^ bits" "\<not> dbl_sign d'"
    using finite_start[OF u mem(1), of A] by blast
  have nm: "0 < dbl_num u" using u(1) by (simp add: dbl_num_def)
  obtain f where f: "leads_at n be f"
  proof -
    have "0 < dbl_den u" by (simp add: dbl_den_def)
    from dec_exp_decade[OF nm this] show ?thesis using that unfolding leads_rat v by blast
  qed
  then have V: "10 powi f \<le> dbl_val d'" "dbl_val d' < 10 powi (f + 1)" unfolding leads_rat d'(2) by blast+
  obtain k check where est: "dtoa_estimate U d' be (int bits) = Inr (k, check, int bits + be - 1, dbl_exp d' = 0)" "estimated (dbl_val d') f k check"
    using dtoa_estimate_spec[OF U bits(3) d'(1) z(1) bits(1,2) z(2) V] by blast
  obtain pl where pl: "plan_digits 2 nd k = Inr pl" "fixed_plan pl ?p" "dp_room pl = max 1 nd" using plan_two by blast
  have i: "int bits - (int bits + be - 1) - 1 = - be" by simp
  show ?thesis unfolding dtoa_finite_def r(1) andthen_assoc
  proof (rule wpr_bind[OF r(2)])
    fix x assume "case x of (s', b) \<Rightarrow> holding (dm_state w) s' L [(b, 1, n)]"
    then obtain s1 b where x: "x = (s1, b)" and h: "holding (dm_state w) s1 L [(b, 1, n)]" by (cases x) auto
    have hb: "b \<notin> L" "dtoa_inv s1 (insert b L)" "\<forall>a \<in> L. dt_heap s1 a = dt_heap (dm_state w) a" "big_at s1 b 1 n"
      using h by (simp_all add: holding_def)
    note al = rv_alloc_spec[of "w\<lparr>dm_state := s1\<rparr>" "insert b L", OF _ _ p(3,4), where A = A]
    show "wpr (alloc_err A) ?Q (andthen (case x of (s, b) \<Rightarrow> Inr (s, b, be, int bits, d')) (\<lambda>(s, b, be, bbits, u).
        andthen (dtoa_estimate U u be bbits) (\<lambda>(k, k_check, i, denorm).
        andthen (plan_digits 2 nd k) (\<lambda>p.
        andthen (rv_alloc A (w\<lparr>dm_state := s\<rparr>) (dp_room p)) (\<lambda>(w, r, sz).
        andthen (dtoa_digits A U (dm_state w) sz p u b be bbits i denorm k k_check) (\<lambda>(s, out, k).
        andthen (end_text (w\<lparr>dm_state := s\<rparr>) r sz out) (\<lambda>w.
        andthen (c_int (k + 1)) (\<lambda>decpt. Inr (w, r, decpt)))))))))"
      unfolding x prod.case andthen_simps est(1) pl(1,3)
    proof (rule wpr_bind[OF al])
      fix y assume "case y of (w', r, k) \<Rightarrow> r \<notin> insert b L \<and> dtoa_inv (dm_state w') (insert r (insert b L)) \<and> max 1 nd < rv_cap k
        \<and> string_in w' r k \<and> (\<forall>a \<in> insert b L. dt_heap (dm_state w') a = dt_heap (dm_state (w\<lparr>dm_state := s1\<rparr>)) a)
        \<and> dm_strings w' = [r \<mapsto> (k, [])] \<and> dm_result w' = Some r"
      then obtain w1 r sz where y: "y = (w1, r, sz)" and r: "r \<noteq> b" "r \<notin> L" "dtoa_inv (dm_state w1) (insert r (insert b L))" "max 1 nd < rv_cap sz"
        "string_in w1 r sz" "\<forall>a \<in> insert b L. dt_heap (dm_state w1) a = dt_heap s1 a" "dm_strings w1 = [r \<mapsto> (sz, [])]" "dm_result w1 = Some r"
        by (cases y) auto
      have "insert r (insert b L) = insert r L \<union> {b}" by auto
      then have h1: "holding (dm_state w1) (dm_state w1) (insert r L) [(b, 1, n)]"
        using r(1,3,6) hb(1,4) by (auto simp: holding_def big_at_def)
      have sz: "int ?p < rv_cap sz" using r(4) p(2) by simp
      note dg = dtoa_digits_spec[OF U h1 odd_pos[OF n] d' be f est(2) pl(2) sz i, where A = A]
      show "wpr (alloc_err A) ?Q (case y of (w, r, sz) \<Rightarrow>
          andthen (dtoa_digits A U (dm_state w) sz pl d' b be (int bits) (int bits + be - 1) (dbl_exp d' = 0) k check) (\<lambda>(s, out, k).
          andthen (end_text (w\<lparr>dm_state := s\<rparr>) r sz out) (\<lambda>w.
          andthen (c_int (k + 1)) (\<lambda>decpt. Inr (w, r, decpt)))))"
        unfolding y prod.case
      proof (rule wpr_bind[OF dg])
        fix v' assume "case v' of (s', q) \<Rightarrow> holding (dm_state w1) s' (insert r L) [] \<and> dtoa_digits_ok n be ?p q"
        then obtain s2 out k2 where v': "v' = (s2, out, k2)" and s2: "holding (dm_state w1) s2 (insert r L) []"
          and o: "dtoa_digits_ok n be ?p (out, k2)" by (cases v') auto
        have keep: "mem_keeps L w (w1\<lparr>dm_state := s2\<rparr>)" using r s2 hb(3) by (auto simp: mem_keeps_def dtoa_mem_ok_def holding_def string_in_def)
        have si: "string_in (w1\<lparr>dm_state := s2\<rparr>) r sz" using r(5) s2 by (auto simp: string_in_def holding_def)
        show "wpr (alloc_err A) ?Q (case v' of (s, out, k) \<Rightarrow> andthen (end_text (w1\<lparr>dm_state := s\<rparr>) r sz out) (\<lambda>w.
          andthen (c_int (k + 1)) (\<lambda>decpt. Inr (w, r, decpt))))"
        proof -
          obtain w' decpt where run: "andthen (end_text (w1\<lparr>dm_state := s2\<rparr>) r sz out) (\<lambda>w. andthen (c_int (k2 + 1)) (\<lambda>decpt. Inr (w, r, decpt))) = Inr (w', r, decpt)"
            "string_made L w w' r (\<lambda>out. printed_digits ?p u out decpt)"
            using finish_digits[OF o p(1) n v nm u(2) keep _ si _ sz r(2), of s2] r(7,8) s2 by (auto simp: holding_def)
          show ?thesis unfolding v' prod.case run(1) using run(2) by simp
        qed
      qed
    qed (use hb mem(2) in simp_all)
  qed
qed

section \<open>All doubles\<close>

lemma special_tests:
  "word0 d AND Exp_mask = Exp_mask \<longleftrightarrow> dbl_exp d = 2047" "word1 d = 0 \<and> word0 d AND 0xfffff = 0 \<longleftrightarrow> dbl_frac d = 0"
proof -
  have "unat Exp_mask = 2047 * 1048576" by (simp add: Exp_mask_def)
  then show "word0 d AND Exp_mask = Exp_mask \<longleftrightarrow> dbl_exp d = 2047"
    using exp_bits_value(2)[of d] unfolding exp_bits_def word_unat_eq_iff by simp
  show "word1 d = 0 \<and> word0 d AND 0xfffff = 0 \<longleftrightarrow> dbl_frac d = 0" using frac_zero[of d] by (simp add: Bndry_mask_def)
qed

definition dtoa_text :: "nat \<Rightarrow> double \<Rightarrow> string \<Rightarrow> int \<Rightarrow> bool" where
  "dtoa_text p d out decpt \<longleftrightarrow>
     (if dbl_exp d = 2047 then out = (if dbl_frac d = 0 then ''inf'' else ''nan'') \<and> decpt = 9999
      else if dbl_num d = 0 then out = ''0'' \<and> decpt = 1
      else printed_digits p d out decpt)"

lemma zero_fields: "dbl_is_zero d \<longleftrightarrow> dbl_num d = 0" "dbl_num d = 0 \<longleftrightarrow> dbl_mant d = 0"
  by (auto simp: dbl_is_zero_def dbl_num_def dbl_mant_def)

lemma idle_dtoa_spec:
  assumes U: "fpu_ieee U" and ok: "dtoa_mem_ok w L" "dm_result w = None" and nd: "nd \<le> 2 ^ 30"
    and u: "\<not> dbl_sign u" "dbl_exp u = dbl_exp d" "dbl_frac u = dbl_frac d"
  shows "wpr (alloc_err A) (\<lambda>(w', r, decpt). string_made L w w' r (\<lambda>out. dtoa_text (nat (max 1 nd)) d out decpt))
    (if word0 u AND Exp_mask = Exp_mask then
       andthen (if word1 u = 0 \<and> word0 u AND 0xfffff = 0 then nrv_alloc A w ''inf'' 8 else nrv_alloc A w ''nan'' 3) (\<lambda>(w, r).
       Inr (w, r, 9999))
     else if dbl_is_zero u then andthen (nrv_alloc A w ''0'' 1) (\<lambda>(w, r). Inr (w, r, 1))
     else dtoa_finite A U w u 2 nd)" (is "wpr _ ?Q _")
proof -
  have mem: "dtoa_inv (dm_state w) L" "dm_strings w = Map.empty" using mem_idle[OF ok] by blast+
  have eq: "dbl_mant u = dbl_mant d" "dbl_num u = dbl_num d" "dbl_den u = dbl_den d" using u by (simp_all add: dbl_mant_def dbl_num_def dbl_den_def)
  have fixed: "wpr (alloc_err A) ?Q (andthen (nrv_alloc A w t n) (\<lambda>(w, r). Inr (w, r, k)))"
    if "int (length t) \<le> n" "n \<le> 2 ^ 30" "dtoa_text (nat (max 1 nd)) d t k" for t n k
    by (rule wpr_bind[OF nrv_alloc_spec[OF mem that(1,2)]]) (use that(3) in \<open>auto simp: string_made_def\<close>)
  show ?thesis
  proof (cases "dbl_exp d = 2047")
    case True
    then show ?thesis unfolding special_tests u using fixed[of "''inf''" 8 9999] fixed[of "''nan''" 3 9999] by (simp add: dtoa_text_def)
  next
    case False
    then have fin: "dbl_exp u < 2047" using dbl_exp_less[of u] u(2) by simp
    show ?thesis
    proof (cases "dbl_num d = 0")
      case True
      then show ?thesis unfolding special_tests u zero_fields(1) eq using False fixed[of "''0''" 1 1] by (simp add: dtoa_text_def)
    next
      case nz: False
      then have "0 < dbl_mant u" unfolding eq(1) zero_fields(2) by simp
      from dtoa_finite_spec[OF U ok this fin u(1) nd, of A] show ?thesis
        unfolding special_tests u zero_fields(1) eq using False nz
        by (auto simp: dtoa_text_def printed_digits_def eq elim!: wpr_mono)
    qed
  qed
qed

lemma dtoa_spec:
  assumes U: "fpu_ieee U" and ok: "dtoa_mem_ok w L" and nd: "nd \<le> 2 ^ 30"
  shows "wpr (alloc_err A) (\<lambda>(w', r, decpt, sign). sign = dbl_sign d \<and> string_made L w w' r (\<lambda>out. dtoa_text (nat (max 1 nd)) d out decpt))
    (dtoa A U w d 2 nd)" (is "wpr _ ?Q _")
proof -
  obtain w1 where w1: "(case dm_result w of Some r \<Rightarrow> freedtoa w r | None \<Rightarrow> Inr w) = Inr w1" "mem_keeps L w w1" "dm_result w1 = None"
  proof (cases "dm_result w")
    case None
    then show ?thesis using that[of w] mem_keeps_refl[OF ok] by simp
  next
    case (Some r)
    then show ?thesis using that freedtoa_spec[OF ok Some] by auto
  qed
  have e: "w1\<lparr>dm_result := None\<rparr> = w1" using w1(3) by simp
  have ok1: "dtoa_mem_ok w1 L" using w1(2) by (simp add: mem_keeps_def)
  note run = idle_dtoa_spec[OF U ok1 w1(3) nd clear_sign_fields, of A]
  show ?thesis unfolding dtoa_def w1(1) andthen_simps Let_def e
    by (rule wpr_bind[OF run]) (use w1(2) in \<open>auto simp: string_made_def intro: mem_keeps_trans\<close>)
qed

section \<open>Properties\<close>

definition sample_mem :: dtoa_mem where
  "sample_mem = \<lparr>dm_state = sample_state, dm_strings = Map.empty, dm_result = None\<rparr>"

lemma sample_mem_ok: "dtoa_mem_ok sample_mem {0, 1}"
  using sample_inv by (simp add: dtoa_mem_ok_def sample_mem_def)

text \<open>
  C3: \<open>dtoa\<close> in mode 2, the one \<open>g_fmt.c\<close> uses, returns for every double \<open>inf\<close>, \<open>nan\<close> or
  \<open>0\<close>, or the digits of the number rounded correctly (ties to even) to the number of digits that is
  asked for, with the position of the decimal point and the sign, whichever of its three ways it
  takes. Trailing zeros are gone unless the number is an integer of more digits than that. The
  string is in a block of its own, the result before it has been freed, every other block of
  the call is given back and every store is inside its block: the call fails only if the allocator
  does.
\<close>

theorem dtoa_rounds_correctly:
  assumes "fpu_ieee U" "dtoa_mem_ok w L" "nd \<le> 2 ^ 30"
  shows "case dtoa A U w d 2 nd of
      Inl e \<Rightarrow> alloc_err A e
    | Inr (w', r, decpt, sign) \<Rightarrow> sign = dbl_sign d \<and> mem_keeps L w w' \<and> dm_result w' = Some r
        \<and> (\<exists>k out. dm_strings w' r = Some (k, out) \<and> dtoa_text (nat (max 1 nd)) d out decpt)"
  using dtoa_spec[OF assms, of A d] by (auto simp: wpr_def string_made_def split: sum.splits prod.splits)

theorem dtoa_rounds_correctly_witness:
  "case dtoa (\<lambda>_. True) nearest_fpu sample_mem 0xC02B800000000000 2 3 of
      Inl e \<Rightarrow> alloc_err (\<lambda>_. True) e
    | Inr (w', r, decpt, sign) \<Rightarrow> sign = dbl_sign 0xC02B800000000000 \<and> mem_keeps {0, 1} sample_mem w' \<and> dm_result w' = Some r
        \<and> (\<exists>k out. dm_strings w' r = Some (k, out) \<and> dtoa_text (nat (max 1 3)) 0xC02B800000000000 out decpt)"
  by (rule dtoa_rounds_correctly[OF nearest_fpu_ieee sample_mem_ok]) simp

text \<open>
  C7: The floating-point way to the digits gives up or agrees with the exact one: for the same
  number \<open>n * 2 ^ be\<close>, plan of at most 14 digits and estimate \<open>k\<close> of the exponent, \<open>dtoa_quick\<close>
  returns without an error, and the digits and the exponent it returns, if any, are those that the
  bignums give. This rests on the error bound \<open>eps\<close> that the code computes from the number of
  roundings.
\<close>

theorem quick_digits_agree:
  assumes "fpu_ieee U" "dbl_finite u" "dbl_val u = scaled_val n be" "leads_at n be f" "estimated (scaled_val n be) f k check"
    and "fixed_plan p np" "np \<le> 14" "int np < rv_cap sz"
    and "holding s0 s L [(b, 1, n)]" "0 < n" "bbits - i - 1 = - be" "\<bar>be\<bar> \<le> 2000"
  shows "case dtoa_quick U sz p u k check of
      Inl _ \<Rightarrow> False
    | Inr None \<Rightarrow> True
    | Inr (Some r) \<Rightarrow>
        (case dtoa_big A s sz p u b be bbits i denorm k check of
           Inl e \<Rightarrow> alloc_err A e
         | Inr (s', r') \<Rightarrow> r' = r \<and> holding s0 s' L [])"
proof -
  have V: "10 powi f \<le> dbl_val u" "dbl_val u < 10 powi (f + 1)" using assms(4) unfolding leads_rat assms(3) by blast+
  have "k = f \<or> k = f + 1" using assms(5) by (auto simp: estimated_def split: if_splits)
  then have kb: "\<bar>k\<bar> \<le> 1000" using decade_range[OF assms(2) V] by auto
  note ef = estimated_fractions[OF assms(4,5)]
  have big: "wpr (alloc_err A) (\<lambda>(s', r). holding s0 s' L [] \<and> digits_of n be np r \<and> trimmed (fst r)) (dtoa_big A s sz p u b be bbits i denorm k check)"
    by (rule dtoa_big_spec[OF assms(9,10,6,11,12) kb assms(8) ef(1,2)]) (rule ef(3))
  obtain q where q: "dtoa_quick U sz p u k check = Inr q" "\<And>x. q = Some x \<Longrightarrow> digits_of n be np x \<and> trimmed (fst x)"
    using dtoa_quick_spec[OF assms(1-4) _ assms(6-8)] assms(3,5) by metis
  show ?thesis
  proof (cases q)
    case (Some r)
    have "wpr (alloc_err A) (\<lambda>(s', r'). r' = r \<and> holding s0 s' L []) (dtoa_big A s sz p u b be bbits i denorm k check)"
      by (rule wpr_mono[OF big]) (use q(2)[OF Some] in \<open>auto intro: digits_of_unique\<close>)
    then show ?thesis unfolding q(1) Some by (auto simp: wpr_def split: sum.splits)
  qed (simp add: q(1))
qed


theorem quick_digits_agree_witness:
  "case dtoa_quick nearest_fpu 0 (\<lparr>dp_mode = 2, dp_quick = True, dp_leftright = False, dp_ilim = 3, dp_ilim1 = 3, dp_room = 3, dp_ndigits = 3\<rparr>)
        0x41DC000000400000 9 False of
      Inl _ \<Rightarrow> False
    | Inr None \<Rightarrow> True
    | Inr (Some r) \<Rightarrow>
        (case dtoa_big (\<lambda>_. True) sample_state 0 (\<lparr>dp_mode = 2, dp_quick = True, dp_leftright = False, dp_ilim = 3, dp_ilim1 = 3, dp_room = 3, dp_ndigits = 3\<rparr>)
           0x41DC000000400000 0 0 31 30 False 9 False of
           Inl e \<Rightarrow> alloc_err (\<lambda>_. True) e
         | Inr (s', r') \<Rightarrow> r' = r \<and> holding sample_state s' {1} [])"
proof (rule quick_digits_agree[OF nearest_fpu_ieee, where n = "0x70000001" and f = 9 and np = 3 and b = 0])
  let ?u = "0x41DC000000400000 :: double"
  have f: "dbl_exp ?u = 1053" "dbl_mant ?u = 0x70000001 * 4194304" "\<not> dbl_sign ?u" by (simp_all add: dbl_mant_def dbl_fields)
  show "dbl_finite ?u" by (simp add: dbl_finite_def f)
  show "dbl_val ?u = scaled_val 0x70000001 0" using fields_val[OF f] by (simp add: scaled_val_def power_int_minus_divide)
  show "leads_at 0x70000001 0 9" by (simp add: leads_at_def frac_num_def frac_den_def)
  show "estimated (scaled_val 0x70000001 0) 9 9 False" by (simp add: estimated_def)
  show "holding sample_state sample_state {1} [(0, 1, 0x70000001)]"
    using sample_inv sample_big(1) by (simp add: holding_def insert_commute)
  show "int 3 < rv_cap 0" by (simp add: rv_cap_def bigint_len_def)
qed (simp_all add: fixed_plan_def)

end
