(* ===== verification/Gfmt_Dtoa.thy ===== *)
theory Gfmt_Dtoa
  imports Gfmt Dtoa_Whole
begin

text \<open>
\<open>fpconv_g_fmt\<close> of \<open>3rd/lua-cjson/g_fmt.c\<close> as a whole: \<open>dtoa\<close>, the formatting of \<open>Gfmt\<close> and
  \<open>freedtoa\<close>, compared with \<open>printf\<close>.
\<close>

section \<open>The function\<close>

definition g_fmt_dtoa :: "alloc \<Rightarrow> fpu \<Rightarrow> dtoa_mem \<Rightarrow> double \<Rightarrow> int \<Rightarrow> (dtoa_mem \<times> string \<times> int) res" where
  \<comment> \<open>the text stored at \<open>b\<close> and the length returned\<close>
  "g_fmt_dtoa A U w x precision =
     andthen (dtoa A U w x 2 precision) (\<lambda>(w, s0, decpt, sign).
     case dm_strings w s0 of
       None \<Rightarrow> Inl (UB Use_after_free)
     | Some (_, s) \<Rightarrow>
         andthen (g_fmt s decpt sign precision) (\<lambda>(b, len).
         andthen (freedtoa w s0) (\<lambda>w. Inr (w, b, len))))"

section \<open>The text\<close>

definition beyond_precision :: "nat \<Rightarrow> double \<Rightarrow> bool" where
  \<comment> \<open>an integer of more than \<open>p\<close> digits\<close>
  "beyond_precision p d \<longleftrightarrow> dbl_exp d < 2047 \<and> (\<exists>N. dbl_num d = N * dbl_den d \<and> 10 ^ p \<le> N)"

lemma printed_wf:
  assumes pr: "printed_digits p d out decpt" and d: "\<not> isnan d" "\<not> isinf d" "1 \<le> p" "dbl_num d \<noteq> 0"
  shows "out \<noteq> []" "hd out \<noteq> CHR ''0''" "list_all is_dec out" "length out \<le> p" "\<bar>decpt - 1\<bar> < 1000"
    "out = strip_zeros out \<Longrightarrow> printf_g p d = g_text (dbl_sign d) out decpt p"
proof -
  obtain q x where q: "sig_digits p (dbl_num d) (dbl_den d) = (q, x)" by fastforce
  have o: "decpt = x + 1" "strip_zeros out = strip_zeros (dec_digits q)" "length out \<le> p" using pr q by (simp_all add: printed_digits_def)
  note f = sig_digits_double[OF d q]
  obtain n where n: "out = strip_zeros out @ replicate n (CHR ''0'')" by (rule strip_zeros_prefix)
  have s: "strip_zeros out \<noteq> []" "hd (strip_zeros out) \<noteq> CHR ''0''" "list_all is_dec (strip_zeros out)" using f unfolding o(2) by blast+
  show "out \<noteq> []" using s(1) by (auto simp: strip_zeros_def)
  have "hd out = hd (strip_zeros out)" using s(1) by (subst n) simp
  then show "hd out \<noteq> CHR ''0''" using s(2) by simp
  have z: "is_dec (CHR ''0'')" by code_simp
  show "list_all is_dec out" using s(3) z by (subst n) (auto simp: list_all_iff)
  show "length out \<le> p" by (rule o(3))
  show "\<bar>decpt - 1\<bar> < 1000" using f o(1) by simp
  show "printf_g p d = g_text (dbl_sign d) out decpt p" if "out = strip_zeros out"
    using that d q o(1,2) by (simp add: printf_g_def)
qed

definition g_fmt_text :: "nat \<Rightarrow> double \<Rightarrow> string \<Rightarrow> bool" where
  "g_fmt_text p d t \<longleftrightarrow> length t \<le> 21 \<and> (t = printf_g p d \<or> beyond_precision p d)
     \<and> (dbl_exp d < 2047 \<longrightarrow> (\<exists>ip fp ep. t = numeral_text (dbl_sign d) ip fp ep \<and> wf_numeral ip fp ep))
     \<and> (\<forall>N m j. dbl_exp d < 2047 \<and> dbl_num d = N * dbl_den d \<and> half_way p N m j
          \<longrightarrow> t = g_text (dbl_sign d) (fixed_digits p m) (int (p + j) + 1) p)"

lemma finite_text:
  assumes t: "dtoa_text p d out decpt" and p: "1 \<le> p" "p \<le> 14" and d: "dbl_exp d < 2047"
  shows "\<exists>t. g_fmt out decpt (dbl_sign d) (int p) = Inr (t, int (length t)) \<and> g_fmt_text p d t"
proof -
  have fin: "\<not> isnan d" "\<not> isinf d" using d by (auto simp: isnan_def isinf_def)
  show ?thesis
  proof (cases "dbl_num d = 0")
    case True
    then have o: "out = ''0''" "decpt = 1" using t d by (simp_all add: dtoa_text_def)
    have g: "g_fmt ''0'' 1 (dbl_sign d) (int p) = Inr (g_text (dbl_sign d) ''0'' 1 p, int (length (g_text (dbl_sign d) ''0'' 1 p)))"
      by (rule g_fmt_g_text) simp_all
    have e: "g_text (dbl_sign d) ''0'' 1 p = printf_g p d" using p(1) fin True by (simp add: g_text_def printf_g_def)
    have "\<not> half_way p N m j" if "dbl_num d = N * dbl_den d" for N m j using that True by (auto simp: half_way_def dbl_den_def)
    then show ?thesis using g printf_g_numeral[OF fin p] unfolding o e g_fmt_text_def by auto
  next
    case False
    then have pr: "printed_digits p d out decpt" using t d by (simp add: dtoa_text_def)
    note w = printed_wf[OF pr fin p(1) False]
    let ?t = "g_text (dbl_sign d) out decpt p"
    have g: "g_fmt out decpt (dbl_sign d) (int p) = Inr (?t, int (length ?t))" by (rule g_fmt_g_text[OF w(1,5)])
    obtain ip fp ep where n: "?t = numeral_text (dbl_sign d) ip fp ep" "wf_numeral ip fp ep" "length ?t \<le> 21"
      using g_text_numeral[OF w(1-4) p(2) w(5)] by metis
    have tie: "?t = g_text (dbl_sign d) (fixed_digits p m) (int (p + j) + 1) p" if N: "dbl_num d = N * dbl_den d" and h: "half_way p N m j" for N m j
    proof -
      obtain q x where q: "sig_digits p (dbl_num d) (dbl_den d) = (q, x)" by fastforce
      have "out = fixed_digits p m" "decpt = int (p + j) + 1" using pr[unfolded printed_digits_def q prod.case] N h by blast+
      then show ?thesis by simp
    qed
    have "?t = printf_g p d \<or> beyond_precision p d" using pr w(6) d by (auto simp: printed_digits_def beyond_precision_def trimmed_def split: prod.splits)
    then show ?thesis using g n tie by (auto simp: g_fmt_text_def)
  qed
qed


lemma g_fmt_dtoa_spec:
  assumes U: "fpu_ieee U" and ok: "dtoa_mem_ok w L" and p: "1 \<le> p" "p \<le> 14"
  shows "wpr (alloc_err A) (\<lambda>(w', t, n). mem_keeps L w w' \<and> dm_result w' = None \<and> n = int (length t) \<and> g_fmt_text p d t)
    (g_fmt_dtoa A U w d (int p))" (is "wpr _ ?Q _")
proof -
  have nd: "int p \<le> 2 ^ 30" "nat (max 1 (int p)) = p" using p by simp_all
  show ?thesis unfolding g_fmt_dtoa_def
  proof (rule wpr_bind[OF dtoa_spec[OF U ok nd(1)]])
    fix x assume "case x of (w', r, decpt, sign) \<Rightarrow> sign = dbl_sign d \<and> string_made L w w' r (\<lambda>out. dtoa_text (nat (max 1 (int p))) d out decpt)"
    then obtain w1 r decpt where x: "x = (w1, r, decpt, dbl_sign d)" and m: "string_made L w w1 r (\<lambda>out. dtoa_text p d out decpt)"
      unfolding nd(2) by (cases x) auto
    obtain k out where o: "dm_strings w1 r = Some (k, out)" "dtoa_text p d out decpt" and w1: "mem_keeps L w w1" "dm_result w1 = Some r"
      using m by (auto simp: string_made_def)
    obtain w2 where w2: "freedtoa w1 r = Inr w2" "mem_keeps L w1 w2" "dm_result w2 = None"
      using freedtoa_spec[of w1 L r] w1 by (auto simp: mem_keeps_def)
    obtain t where t: "g_fmt out decpt (dbl_sign d) (int p) = Inr (t, int (length t))" "g_fmt_text p d t"
    proof (cases "dbl_exp d = 2047")
      case False
      then have "dbl_exp d < 2047" using dbl_exp_less[of d] by simp
      from finite_text[OF o(2) p this] show ?thesis using that by blast
    next
      case True
      then have "decpt = 9999" "out = (if dbl_frac d = 0 then ''inf'' else ''nan'')" using o(2) by (simp_all add: dtoa_text_def)
      then have "g_fmt out decpt (dbl_sign d) (int p) = Inr (printf_g p d, int (length (printf_g p d)))" "length (printf_g p d) \<le> 21"
        using True by (auto simp: g_fmt_def printf_g_def isnan_def isinf_def Let_def)
      then show ?thesis using that True by (auto simp: g_fmt_text_def)
    qed
    show "wpr (alloc_err A) ?Q (case x of (w, s0, decpt, sign) \<Rightarrow>
        (case dm_strings w s0 of None \<Rightarrow> Inl (UB Use_after_free)
         | Some (_, s) \<Rightarrow> andthen (g_fmt s decpt sign (int p)) (\<lambda>(b, len). andthen (freedtoa w s0) (\<lambda>w. Inr (w, b, len)))))"
      unfolding x prod.case o(1) option.case t(1) andthen_simps w2(1) using t(2) w2(2,3) mem_keeps_trans[OF w1(1) w2(2)] by simp
  qed
qed

section \<open>Properties\<close>

text \<open>
  C6: The library's own formatter, with the digits of its own \<open>dtoa\<close>, writes for every double
  and every precision the library accepts the text that \<open>printf\<close> writes for \<open>%.<p>g\<close>, unless
  the number is an integer of more than \<open>p\<close> digits: \<open>USE_INTERNAL_FPCONV\<close> does not change the JSON
  text of the other numbers. The text has at most 21 characters (the callers provide 32 bytes),
  for a finite double it is a number of the JSON grammar, the length returned is its length, and
  the string of \<open>dtoa\<close> has been freed with everything else. The call fails only if the allocator does.
\<close>

theorem g_fmt_agrees_with_printf:
  assumes "fpu_ieee U" "dtoa_mem_ok w L" "1 \<le> p" "p \<le> 14"
  shows "case g_fmt_dtoa A U w d (int p) of
      Inl e \<Rightarrow> alloc_err A e
    | Inr (w', t, n) \<Rightarrow> mem_keeps L w w' \<and> dm_result w' = None \<and> n = int (length t) \<and> length t \<le> 21
        \<and> (t = printf_g p d \<or> beyond_precision p d)
        \<and> (dbl_exp d = 2047 \<or> (\<exists>ip fp ep. t = numeral_text (dbl_sign d) ip fp ep \<and> wf_numeral ip fp ep))"
  using g_fmt_dtoa_spec[OF assms, of A d] dbl_exp_less[of d]
  by (auto simp: wpr_def g_fmt_text_def split: sum.splits prod.splits)

theorem g_fmt_agrees_with_printf_witness:
  "case g_fmt_dtoa (\<lambda>_. True) nearest_fpu sample_mem 0x3FE0000000000000 (int 3) of
      Inl e \<Rightarrow> alloc_err (\<lambda>_. True) e
    | Inr (w', t, n) \<Rightarrow> mem_keeps {0, 1} sample_mem w' \<and> dm_result w' = None \<and> n = int (length t) \<and> length t \<le> 21
        \<and> (t = printf_g 3 0x3FE0000000000000 \<or> beyond_precision 3 0x3FE0000000000000)
        \<and> (dbl_exp 0x3FE0000000000000 = 2047
           \<or> (\<exists>ip fp ep. t = numeral_text (dbl_sign 0x3FE0000000000000) ip fp ep \<and> wf_numeral ip fp ep))"
  by (rule g_fmt_agrees_with_printf[OF nearest_fpu_ieee sample_mem_ok]) simp_all


text \<open>
  C35: Integers of more than \<open>p\<close> digits do differ: when the number lies exactly half-way above an
  even number \<open>m\<close> of \<open>p\<close> digits (and has at most 15), the text has all digits of \<open>m\<close>, trailing zeros
  included, because the loop for small integers in \<open>dtoa\<close> does not look for them. In the default
  precision 14 the number 100000000000005 becomes \<open>1.0000000000000e+14\<close>, where \<open>printf\<close> writes
  \<open>1e+14\<close>.
\<close>

theorem half_way_keeps_zeros:
  assumes "fpu_ieee U" "dtoa_mem_ok w L" "1 \<le> p" "p \<le> 14" "dbl_exp d < 2047" "dbl_num d = N * dbl_den d" "half_way p N m j"
  shows "case g_fmt_dtoa A U w d (int p) of
      Inl e \<Rightarrow> alloc_err A e
    | Inr (w', t, n) \<Rightarrow> t = g_text (dbl_sign d) (fixed_digits p m) (int (p + j) + 1) p"
  using g_fmt_dtoa_spec[OF assms(1-4), of A d] assms(5-7)
  by (auto simp: wpr_def g_fmt_text_def split: sum.splits prod.splits)

theorem half_way_keeps_zeros_witness:
  "(case g_fmt_dtoa (\<lambda>_. True) nearest_fpu sample_mem 0x42D6BCC41E900140 (int 14) of
      Inl e \<Rightarrow> alloc_err (\<lambda>_. True) e
    | Inr (w', t, n) \<Rightarrow> t = ''1.0000000000000e+14'') \<and> printf_g 14 0x42D6BCC41E900140 = ''1e+14''"
proof
  let ?d = "0x42D6BCC41E900140 :: double"
  have f: "dbl_exp ?d < 2047" "dbl_num ?d = 100000000000005 * dbl_den ?d" "\<not> dbl_sign ?d"
    by (simp_all add: dbl_num_def dbl_den_def dbl_mant_def dbl_fields)
  have h: "half_way 14 100000000000005 10000000000000 0" by (simp add: half_way_def)
  have c: "char_of (49 :: nat) = CHR ''1''" "replicate 13 (CHR ''0'') = ''0000000000000''" by code_simp+
  have "fixed_digits 14 10000000000000 = ''10000000000000''" using fixed_digits_shift[of 1 13 1] c by simp
  moreover have "g_text False ''10000000000000'' 15 14 = ''1.0000000000000e+14''" by code_simp
  ultimately have t: "g_text (dbl_sign ?d) (fixed_digits 14 10000000000000) (int (14 + 0) + 1) 14 = ''1.0000000000000e+14''" using f(3) by simp
  show "case g_fmt_dtoa (\<lambda>_. True) nearest_fpu sample_mem ?d (int 14) of
      Inl e \<Rightarrow> alloc_err (\<lambda>_. True) e
    | Inr (w', t, n) \<Rightarrow> t = ''1.0000000000000e+14''"
    using half_way_keeps_zeros[OF nearest_fpu_ieee sample_mem_ok _ _ f(1,2) h, of "\<lambda>_. True"] unfolding t by simp
  have x: "dec_exp 6400000000000320 64 = 14" by (simp add: dec_exp_def dec_digits.simps)
  have q: "sig_digits 14 6400000000000320 64 = (10000000000000, 14)" by (simp add: sig_digits_def x round_div_def)
  have z: "strip_zeros (dec_digits 10000000000000) = ''1''" using strip_dec_digits_pow[of 13] by simp
  have e: "g_text False ''1'' (14 + 1) 14 = ''1e+14''" by code_simp
  have n: "dbl_num ?d = 6400000000000320" "dbl_den ?d = 64" "\<not> isnan ?d" "\<not> isinf ?d"
    by (simp_all add: dbl_num_def dbl_den_def dbl_mant_def dbl_fields isnan_def isinf_def)
  show "printf_g 14 ?d = ''1e+14''" unfolding printf_g_def using f(3) n q z e by simp
qed

end
