(* ===== verification/Json_Decode_Safe.thy ===== *)
theory Json_Decode_Safe
  imports Json_Decode
begin

text \<open>
  The decoder reads and writes only memory it owns, ends, and releases its buffer. Each token
  keeps the parser's invariant (\<open>parse_ok\<close>: the temporary buffer has room for what is left of
  the input) and, the end of input and errors apart, consumes input (\<open>token_post\<close>); what the
  contexts need of \<open>json_process_value\<close> is the locale \<open>value_step\<close>, interpreted on
  \<open>json_process_value\<close> at every level of fuel.
\<close>

section \<open>Reading escapes\<close>

lemma peek_0: "peek_at p 0 = Inr (case p of [] \<Rightarrow> NUL | c # _ \<Rightarrow> c)"
  by (cases p) (simp_all add: peek_at_def)

lemma hexdigit_facts:
  "\<forall>c. hexdigit2int c = -1 \<or> (0 \<le> hexdigit2int c \<and> hexdigit2int c \<le> 15 \<and> c \<noteq> NUL)"
  by code_simp

lemma hex_digits_ok:
  "k \<le> length p \<Longrightarrow> \<exists>r. hex_digits n p k = Inr r
     \<and> (\<forall>ds. r = Some ds \<longrightarrow> k + n \<le> length p \<and> length ds = n \<and> list_all (\<lambda>d. 0 \<le> d \<and> d \<le> 15) ds)"
proof (induction n arbitrary: k)
  case (Suc n)
  show ?case
  proof (cases "k < length p")
    case True
    then have pk: "peek_at p k = Inr (p ! k)" by (simp add: peek_at_def)
    show ?thesis
    proof (cases "hexdigit2int (p ! k) < 0")
      case False
      from True have "Suc k \<le> length p" by simp
      from Suc.IH[OF this] obtain r where r: "hex_digits n p (Suc k) = Inr r"
        "\<forall>ds. r = Some ds \<longrightarrow> Suc k + n \<le> length p \<and> length ds = n \<and> list_all (\<lambda>d. 0 \<le> d \<and> d \<le> 15) ds" by blast
      then show ?thesis using pk False hexdigit_facts[rule_format, of "p ! k"] by (auto simp: Let_def)
    qed (simp add: pk)
  next
    case False
    then have "peek_at p k = Inr NUL" using Suc.prems by (simp add: peek_at_def)
    moreover have "hexdigit2int NUL < 0" using hexdigit_facts[rule_format, of NUL] by auto
    ultimately show ?thesis by simp
  qed
qed simp

lemma decode_hex4_ok:
  assumes "k \<le> length p"
  shows "\<exists>v. decode_hex4 p k = Inr v \<and> (v < 0 \<or> (k + 4 \<le> length p \<and> v \<le> 0xFFFF))"
proof -
  obtain r where r: "hex_digits 4 p k = Inr r"
    "\<forall>ds. r = Some ds \<longrightarrow> k + 4 \<le> length p \<and> length ds = 4 \<and> list_all (\<lambda>d. 0 \<le> d \<and> d \<le> 15) ds"
    using hex_digits_ok[OF assms] by blast
  show ?thesis
  proof (cases r)
    case (Some ds)
    then obtain a b c d where ds: "ds = [a, b, c, d]" using r(2) by (auto simp: length_Suc_conv numeral_eq_Suc)
    then show ?thesis using r Some by (auto simp: decode_hex4_def push_bit_eq_mult)
  qed (simp add: decode_hex4_def r)
qed

lemma or_less: "0 \<le> x \<Longrightarrow> x < 2 ^ n \<Longrightarrow> 0 \<le> y \<Longrightarrow> y < 2 ^ n \<Longrightarrow> x OR y < (2::int) ^ n"
  by (rule OR_upper) simp_all

lemma escape_codepoint_ok:
  assumes "2 \<le> length p"
  shows "\<exists>r. escape_codepoint p = Inr r
    \<and> (\<forall>c n. r = Some (c, n) \<longrightarrow> n \<le> length p \<and> (n = 6 \<or> n = 12) \<and> 0 \<le> c \<and> c \<le> 0x10FFFF)"
proof -
  obtain v where v: "decode_hex4 p 2 = Inr v" "v < 0 \<or> (6 \<le> length p \<and> v \<le> 0xFFFF)"
    using decode_hex4_ok[OF assms] by auto
  show ?thesis
  proof (cases "v < 0 \<or> v AND 0xF800 \<noteq> 0xD800 \<or> v AND 0x400 \<noteq> 0")
    case True
    then show ?thesis using v by (auto simp: escape_codepoint_def)
  next
    case False
    then have l6: "6 \<le> length p" using v(2) by simp
    have p6: "peek_at p 6 = Inr (if 6 < length p then p ! 6 else NUL)" using l6 by (auto simp: peek_at_def)
    show ?thesis
    proof (cases "6 < length p \<and> p ! 6 = BS")
      case b: True
      then have p7: "peek_at p 7 = Inr (if 7 < length p then p ! 7 else NUL)" by (auto simp: peek_at_def)
      show ?thesis
      proof (cases "7 < length p \<and> p ! 7 = CHR ''u''")
        case u: True
        then have "8 \<le> length p" by simp
        from decode_hex4_ok[OF this] obtain w where w: "decode_hex4 p 8 = Inr w" "w < 0 \<or> (12 \<le> length p \<and> w \<le> 0xFFFF)"
          by auto
        have "push_bit 10 (v AND 0x3FF) OR (w AND 0x3FF) < 2 ^ 20"
        proof (rule or_less)
          have a: "x AND 0x3FF = x mod 1024" for x :: int
            using take_bit_eq_mask[of 10 x] by (simp add: take_bit_eq_mod mask_eq_exp_minus_1)
          have "v AND 0x3FF < 1024" "0 \<le> v AND 0x3FF" "w AND 0x3FF < 1024" "0 \<le> w AND 0x3FF" by (simp_all add: a)
          then show "0 \<le> push_bit 10 (v AND 0x3FF)" "push_bit 10 (v AND 0x3FF) < 2 ^ 20" "0 \<le> w AND 0x3FF" "w AND 0x3FF < 2 ^ 20"
            by (simp_all add: push_bit_eq_mult)
        qed
        then show ?thesis using v w False p6 p7 b u by (auto simp: escape_codepoint_def or_nonnegative_int_iff)
      qed (use v False p6 p7 b in \<open>auto simp: escape_codepoint_def\<close>)
    qed (use v False p6 in \<open>auto simp: escape_codepoint_def\<close>)
  qed
qed

lemma utf8_length: "c \<le> 0x10FFFF \<Longrightarrow> 1 \<le> length (codepoint_to_utf8 c) \<and> length (codepoint_to_utf8 c) \<le> 4"
  by (simp add: codepoint_to_utf8_def)

section \<open>The state of the parser\<close>

lemma free_released: "sb_rep s cs \<Longrightarrow> sb_dynamic s = 1 \<Longrightarrow> strbuf_free s = None"
  by (auto simp: strbuf_free_def sb_rep_def sb_ok_def Let_def split: option.splits)

text \<open>
  \<open>text_ok json cs\<close>: the temporary buffer holds \<open>cs\<close> and has room for as many characters as
  there are left to read. \<open>parse_ok\<close>: it is large enough for the whole input.
\<close>

definition tmp_ok :: "nat \<Rightarrow> strbuf \<Rightarrow> string \<Rightarrow> bool" where
  "tmp_ok n tmp cs \<longleftrightarrow> sb_rep tmp cs \<and> sb_dynamic tmp = 1 \<and> int n < sb_size tmp"

definition parse_ok :: "json_parse \<Rightarrow> bool" where
  "parse_ok json \<longleftrightarrow>
     (\<exists>cs. tmp_ok (p_len json) (p_tmp json) cs) \<and> length (p_ptr json) \<le> p_len json
     \<and> p_len json < 2147483647 \<and> 0 \<le> p_depth json \<and> p_depth json \<le> 1000000"

definition step_ok :: "json_parse \<Rightarrow> json_parse \<Rightarrow> bool" where
  "step_ok json json' \<longleftrightarrow>
     p_len json' = p_len json \<and> p_depth json' = p_depth json \<and> length (p_ptr json') \<le> length (p_ptr json)"

lemma step_trans: "step_ok a b \<Longrightarrow> step_ok b c \<Longrightarrow> step_ok a c"
  by (simp add: step_ok_def)

lemma step_refl [simp]: "step_ok a a"
  by (simp add: step_ok_def)

lemma tmp_append:
  assumes "tmp_ok n tmp cs" "length cs + length ds \<le> n" "k = int (length ds)"
  shows "\<exists>tmp'. strbuf_append_mem_unsafe tmp ds k = Inr tmp' \<and> tmp_ok n tmp' (cs @ ds)"
proof -
  have l: "sb_length tmp = int (length cs)" "int n < sb_size tmp" "sb_rep tmp cs"
    using assms(1) by (simp_all add: tmp_ok_def sb_rep_def)
  then have room: "int (length ds) \<le> sb_room tmp" using assms(2) by (simp add: sb_room_def)
  from append_mem_unsafe_spec[OF l(3) room assms(3), of "\<lambda>_. False"] obtain tmp' where
    "strbuf_append_mem_unsafe tmp ds k = Inr tmp'" "sb_rep tmp' (cs @ ds)" "sb_room tmp' = sb_room tmp - k"
    "sb_dynamic tmp' = sb_dynamic tmp" by (auto simp: wpr_total)
  moreover from this have "sb_size tmp' = sb_size tmp"
    using l assms(3) by (simp add: sb_room_def sb_rep_def)
  ultimately show ?thesis using assms(1) by (auto simp: tmp_ok_def)
qed

lemma tmp_append_char:
  assumes "tmp_ok n tmp cs" "length cs < n"
  shows "\<exists>tmp'. strbuf_append_char_unsafe tmp c = Inr tmp' \<and> tmp_ok n tmp' (cs @ [c])"
proof -
  have l: "sb_length tmp = int (length cs)" "int n < sb_size tmp" "sb_rep tmp cs"
    using assms(1) by (simp_all add: tmp_ok_def sb_rep_def)
  then have room: "1 \<le> sb_room tmp" using assms(2) by (simp add: sb_room_def)
  from append_char_unsafe_spec[OF l(3) room, of "\<lambda>_. False" c] obtain tmp' where
    "strbuf_append_char_unsafe tmp c = Inr tmp'" "sb_rep tmp' (cs @ [c])" "sb_room tmp' = sb_room tmp - 1"
    "sb_dynamic tmp' = sb_dynamic tmp" by (auto simp: wpr_total)
  moreover from this have "sb_size tmp' = sb_size tmp" using l by (simp add: sb_room_def sb_rep_def)
  ultimately show ?thesis using assms(1) by (auto simp: tmp_ok_def)
qed

lemma put_char_ok:
  assumes "tmp_ok (p_len json) (p_tmp json) cs" "p_ptr json = c # p" "length cs < p_len json"
  shows "\<exists>json'. put_char ch json = Inr json' \<and> tmp_ok (p_len json) (p_tmp json') (cs @ [ch])
    \<and> p_ptr json' = p \<and> p_len json' = p_len json \<and> p_depth json' = p_depth json"
  using tmp_append_char[OF assms(1,3), of ch] assms(2) by (auto simp: put_char_def advance_def)

lemma escape2char_u: "init_escape2char c = CHR ''u'' \<longleftrightarrow> c = CHR ''u''"
  by (auto simp: init_escape2char_def)

lemma escape2char_NUL: "init_escape2char NUL = NUL"
  by (simp add: init_escape2char_def)

lemma string_loop_ok:
  assumes cfg: "cfg_ok cfg"
  shows "tmp_ok (p_len json) (p_tmp json) cs \<Longrightarrow> length cs + length (p_ptr json) \<le> p_len json \<Longrightarrow>
    \<exists>json' e cs'. string_loop cfg json = Inr (json', e) \<and> step_ok json json'
      \<and> tmp_ok (p_len json) (p_tmp json') cs'
      \<and> (e = None \<longrightarrow> p_ptr json' \<noteq> [])"
proof (induction "length (p_ptr json)" arbitrary: json cs rule: less_induct)
  case less
  note T = less.prems(1)
  have esc: "escape2char cfg = init_escape2char" using cfg by (simp add: cfg_ok_def)
  show ?case
  proof (cases "p_ptr json")
    case Nil
    have "peek_at (p_ptr json) 0 = Inr NUL" by (simp add: peek_0 Nil)
    then show ?thesis using T by (subst string_loop.simps) (auto simp: step_ok_def)
  next
    case (Cons c p)
    have p0: "peek_at (p_ptr json) 0 = Inr c" by (simp add: peek_0 Cons)
    have room: "length cs < p_len json" using less.prems(2) Cons by simp
    consider (quote) "c = DQ" | (nul) "c = NUL" | (esc) "c = BS" | (plain) "c \<noteq> DQ" "c \<noteq> NUL" "c \<noteq> BS" by blast
    then show ?thesis
    proof cases
      case quote
      then show ?thesis using T p0 Cons by (subst string_loop.simps) auto
    next
      case nul
      then show ?thesis using T p0 by (subst string_loop.simps) auto
    next
      case plain
      from put_char_ok[OF T Cons room, of c] obtain json' where j:
        "put_char c json = Inr json'" "tmp_ok (p_len json) (p_tmp json') (cs @ [c])"
        "p_ptr json' = p" "p_len json' = p_len json" "p_depth json' = p_depth json" by blast
      have "\<exists>json'' e cs'. string_loop cfg json' = Inr (json'', e) \<and> step_ok json' json''
          \<and> tmp_ok (p_len json') (p_tmp json'') cs' \<and> (e = None \<longrightarrow> p_ptr json'' \<noteq> [])"
        by (rule less.hyps[of json' "cs @ [c]"]) (use j less.prems Cons in simp_all)
      then show ?thesis using plain p0 j Cons by (subst string_loop.simps) (auto simp: step_ok_def)
    next
      case esc
      show ?thesis
      proof (cases p)
        case Nil
        have "peek_at (p_ptr json) 1 = Inr NUL" by (simp add: peek_at_def Cons Nil)
        then show ?thesis using esc p0 T \<open>escape2char cfg = init_escape2char\<close>
          by (subst string_loop.simps) (auto simp: escape2char_NUL)
      next
        case p: (Cons d q)
        have p1: "peek_at (p_ptr json) 1 = Inr d" by (simp add: peek_at_def Cons p)
        consider (u) "d = CHR ''u''" | (bad) "init_escape2char d = NUL" "d \<noteq> CHR ''u''"
          | (ok) "init_escape2char d \<noteq> NUL" "d \<noteq> CHR ''u''" by blast
        then show ?thesis
        proof cases
          case bad
          then show ?thesis using esc p0 p1 T \<open>escape2char cfg = init_escape2char\<close>
            by (subst string_loop.simps) (auto simp: escape2char_u)
        next
          case ok
          let ?e = "init_escape2char d" and ?j1 = "json\<lparr>p_ptr := p\<rparr>"
          have a: "advance 1 json = Inr ?j1" by (simp add: advance_def Cons)
          have "tmp_ok (p_len ?j1) (p_tmp ?j1) cs" "p_ptr ?j1 = d # q" "length cs < p_len ?j1"
            using T room p by simp_all
          from put_char_ok[OF this, of ?e] obtain json' where j:
            "put_char ?e ?j1 = Inr json'" "tmp_ok (p_len json) (p_tmp json') (cs @ [?e])"
            "p_ptr json' = q" "p_len json' = p_len json" "p_depth json' = p_depth json" by auto
          have "\<exists>json'' e cs'. string_loop cfg json' = Inr (json'', e) \<and> step_ok json' json''
              \<and> tmp_ok (p_len json') (p_tmp json'') cs' \<and> (e = None \<longrightarrow> p_ptr json'' \<noteq> [])"
            by (rule less.hyps[of json' "cs @ [?e]"]) (use j less.prems Cons p in simp_all)
          then show ?thesis using esc ok p0 p1 a j Cons p \<open>escape2char cfg = init_escape2char\<close>
            by (subst string_loop.simps) (auto simp: step_ok_def escape2char_u)
        next
          case u
          have l2: "2 \<le> length (p_ptr json)" by (simp add: Cons p)
          obtain r where r: "escape_codepoint (p_ptr json) = Inr r"
            "\<forall>c n. r = Some (c, n) \<longrightarrow> n \<le> length (p_ptr json) \<and> (n = 6 \<or> n = 12) \<and> 0 \<le> c \<and> c \<le> 0x10FFFF"
            using escape_codepoint_ok[OF l2] by blast
          show ?thesis
          proof (cases r)
            case None
            then have "json_append_unicode_escape json = Inr (json, False)"
              using r(1) by (simp add: json_append_unicode_escape_def)
            then show ?thesis using esc u p0 p1 T \<open>escape2char cfg = init_escape2char\<close>
              by (subst string_loop.simps) (auto simp: escape2char_u)
          next
            case (Some cn)
            obtain cp n where cn: "cn = (cp, n)" by fastforce
            then have b: "n \<le> length (p_ptr json)" "6 \<le> n" "cp \<le> 0x10FFFF" using r(2) Some by auto
            have ul: "1 \<le> length (codepoint_to_utf8 cp)" "length (codepoint_to_utf8 cp) \<le> 4"
              using utf8_length[OF b(3)] by simp_all
            have "length cs + length (codepoint_to_utf8 cp) \<le> p_len json" using ul b less.prems(2) by linarith
            from tmp_append[OF T this refl] obtain tmp' where t:
              "strbuf_append_mem_unsafe (p_tmp json) (codepoint_to_utf8 cp) (int (length (codepoint_to_utf8 cp))) = Inr tmp'"
              "tmp_ok (p_len json) tmp' (cs @ codepoint_to_utf8 cp)" by blast
            let ?j = "json\<lparr>p_tmp := tmp', p_ptr := drop n (p_ptr json)\<rparr>"
            have ne: "int (length (codepoint_to_utf8 cp)) \<noteq> 0" using ul(1) by linarith
            have app: "json_append_unicode_escape json = Inr (?j, True)"
              unfolding json_append_unicode_escape_def r(1) Some cn andthen_simps option.case prod.case Let_def
                if_not_P[OF ne] t(1) using b(1) by (simp add: advance_def)
            have "\<exists>json'' e cs'. string_loop cfg ?j = Inr (json'', e) \<and> step_ok ?j json''
                \<and> tmp_ok (p_len ?j) (p_tmp json'') cs' \<and> (e = None \<longrightarrow> p_ptr json'' \<noteq> [])"
              by (rule less.hyps[of ?j "cs @ codepoint_to_utf8 cp"]) (use t b ul less.prems Cons in auto)
            then show ?thesis using esc u p0 p1 app \<open>escape2char cfg = init_escape2char\<close>
              by (subst string_loop.simps) (auto simp: step_ok_def escape2char_u)
          qed
        qed
      qed
    qed
  qed
qed

section \<open>Tokens\<close>

definition token_ok :: "json_parse \<Rightarrow> json_token \<Rightarrow> bool" where
  "token_ok json tk \<longleftrightarrow>
     0 \<le> tk_index tk \<and> tk_index tk < INT_MAX
     \<and> (case tk_type tk of
          T_STRING \<Rightarrow> tk_value tk = V_tmp \<and> tk_len tk = sb_length (p_tmp json)
        | T_NUMBER \<Rightarrow> \<exists>x. tk_value tk = V_number x
        | T_INTEGER \<Rightarrow> \<exists>i. tk_value tk = V_integer i
        | T_BOOLEAN \<Rightarrow> \<exists>b. tk_value tk = V_boolean b
        | T_ERROR \<Rightarrow> \<exists>e. tk_value tk = V_error e
        | _ \<Rightarrow> True)"

definition token_post :: "env \<Rightarrow> json_parse \<Rightarrow> (json_parse \<times> json_token) res \<Rightarrow> bool" where
  "token_post E json out \<longleftrightarrow>
     wpr (no_memory E) (\<lambda>(json', tk). parse_ok json' \<and> step_ok json json' \<and> token_ok json' tk
        \<and> (tk_type tk = T_END \<or> tk_type tk = T_ERROR \<or> length (p_ptr json') < length (p_ptr json))) out"

lemma p_index_ok: "parse_ok json \<Longrightarrow> 0 \<le> p_index json \<and> p_index json < INT_MAX"
proof -
  assume "parse_ok json"
  then have "length (p_ptr json) \<le> p_len json" "p_len json < 2147483647" by (simp_all add: parse_ok_def)
  moreover from this have "p_index json = int (p_len json) - int (length (p_ptr json))"
    unfolding p_index_def by (intro to_int_id) (simp add: int_ok_iff)
  ultimately show ?thesis by (simp add: INT_MAX_def)
qed

lemma error_token_post:
  "parse_ok json' \<Longrightarrow> step_ok json json' \<Longrightarrow> token_post E json (Inr (json', error_token json' e))"
  using p_index_ok[of json'] by (simp add: token_post_def token_ok_def error_token_def)

lemma advance_ok:
  "parse_ok json \<Longrightarrow> k \<le> length (p_ptr json) \<Longrightarrow>
     advance k json = Inr (json\<lparr>p_ptr := drop k (p_ptr json)\<rparr>) \<and> parse_ok (json\<lparr>p_ptr := drop k (p_ptr json)\<rparr>)
     \<and> step_ok json (json\<lparr>p_ptr := drop k (p_ptr json)\<rparr>)"
  by (auto simp: advance_def parse_ok_def step_ok_def)

lemma string_token_post:
  assumes cfg: "cfg_ok cfg" and ok: "parse_ok json" and ptr: "p_ptr json = DQ # p"
    and idx: "0 \<le> index" "index < INT_MAX"
  shows "token_post E json (json_next_string_token cfg json index)"
proof -
  let ?j = "json\<lparr>p_ptr := p, p_tmp := strbuf_reset (p_tmp json)\<rparr>"
  obtain cs where cs: "tmp_ok (p_len json) (p_tmp json) cs" using ok by (auto simp: parse_ok_def)
  have "tmp_ok (p_len ?j) (p_tmp ?j) []"
    using cs reset_spec[of "p_tmp json"] by (simp add: tmp_ok_def sb_rep_def[of "p_tmp json"]) (simp add: strbuf_reset_def)
  moreover have "length ([]::string) + length (p_ptr ?j) \<le> p_len ?j" using ok ptr by (simp add: parse_ok_def)
  ultimately obtain json' e cs' where l: "string_loop cfg ?j = Inr (json', e)" "step_ok ?j json'"
    "tmp_ok (p_len ?j) (p_tmp json') cs'" "e = None \<longrightarrow> p_ptr json' \<noteq> []"
    using string_loop_ok[OF cfg, of ?j "[]"] by blast
  have ok': "parse_ok json'" using ok ptr l(2,3) by (auto simp: parse_ok_def step_ok_def)
  have st: "step_ok json json'" using l(2) ptr by (simp add: step_ok_def)
  have a: "advance 1 json = Inr (json\<lparr>p_ptr := p\<rparr>)" by (simp add: advance_def ptr)
  show ?thesis
  proof (cases e)
    case (Some m)
    have "json_next_string_token cfg json index = Inr (json', error_token json' m)"
      unfolding json_next_string_token_def a andthen_simps Let_def using l(1) Some by simp
    then show ?thesis using error_token_post[OF ok' st] by simp
  next
    case None
    then have ne: "p_ptr json' \<noteq> []" using l(4) by simp
    then obtain q c where q: "p_ptr json' = c # q" by (cases "p_ptr json'") auto
    from ensure_null_spec[of "p_tmp json'" cs' "\<lambda>_. False"] l(3) obtain tmp where t:
      "strbuf_ensure_null (p_tmp json') = Inr tmp" "sb_rep tmp cs'" "sb_room tmp = sb_room (p_tmp json')"
      "sb_dynamic tmp = sb_dynamic (p_tmp json')"
      by (auto simp: wpr_total tmp_ok_def)
    then have t': "tmp_ok (p_len json) tmp cs'" using l(3) by (simp add: tmp_ok_def sb_room_def sb_rep_def)
    have "json_next_string_token cfg json index = Inr (json'\<lparr>p_ptr := q, p_tmp := tmp\<rparr>,
        \<lparr>tk_type = T_STRING, tk_index = index, tk_value = V_tmp, tk_len = sb_length tmp\<rparr>)"
      unfolding json_next_string_token_def a andthen_simps Let_def
      using l(1) None q t(1) by (simp add: advance_def strbuf_string_def)
    moreover have "parse_ok (json'\<lparr>p_ptr := q, p_tmp := tmp\<rparr>)"
      using ok' t' st q by (auto simp: parse_ok_def step_ok_def)
    moreover have "length q < length (p_ptr json)" using l(2) q ptr by (simp add: step_ok_def)
    ultimately show ?thesis using st idx by (simp add: token_post_def token_ok_def step_ok_def)
  qed
qed

subsection \<open>Numbers\<close>

lemma digit_16_dec: "is_digit_in b c \<Longrightarrow> b = 8 \<or> b = 10 \<Longrightarrow> is_dec c"
  by (auto simp: is_digit_in_def is_dec_def split: option.splits)

lemma strtoll_starts:
  assumes "strtoll s = (i, n)" "n \<noteq> 0" "s \<noteq> []" "\<not> is_space (hd s)"
  shows "starts_numeral s \<and> n \<le> length s"
proof -
  let ?sg = "if s \<noteq> [] \<and> (hd s = CHR ''-'' \<or> hd s = CHR ''+'') then 1 else 0" and ?s2 = "drop (sign_len s) s"
  obtain b pf where bp: "strtoll_base ?s2 = (b, pf)" by fastforce
  let ?ds = "takeWhile (is_digit_in b) (drop pf ?s2)"
  have w: "takeWhile is_space s = []" using assms(3,4) by (cases s) auto
  have sl: "sign_len s = ?sg" by (simp add: sign_len_def)
  have r: "?ds \<noteq> []" "n = sign_len s + pf + length ?ds"
    using assms(1,2) bp by (auto simp: strtoll_def w sl Let_def split: if_splits)
  have ne: "?s2 \<noteq> []" using r(1) by auto
  have "is_dec (hd ?s2)"
  proof (cases "pf = 0")
    case True
    then have "b = 8 \<or> b = 10" "is_digit_in b (hd ?s2)"
      using bp r(1) ne by (auto simp: strtoll_base_def takeWhile_eq_Nil_iff split: list.splits if_splits)
    then show ?thesis using digit_16_dec by blast
  next
    case False
    then have "hd ?s2 = CHR ''0''" using bp ne by (auto simp: strtoll_base_def split: list.splits if_splits)
    then show ?thesis by simp
  qed
  moreover have "n \<le> length s"
  proof -
    have "length ?ds \<le> length (drop pf ?s2)" by (rule length_takeWhile_le)
    moreover have "pf \<le> length ?s2" using r(1) by (metis drop_all length_0_conv nat_le_linear takeWhile.simps(1))
    moreover have "sign_len s \<le> length s" using assms(3) by (cases s) (auto simp: sign_len_def)
    ultimately show ?thesis using r(2) by simp
  qed
  ultimately show ?thesis using ne by (simp add: starts_numeral_def)
qed

lemma strtod_consumed:
  assumes "starts_numeral s" "strtod conv pt s = (x, n)"
  shows "n \<le> length s \<and> 0 < n"
proof -
  obtain sg x' where s: "s = sg @ x'" "sg = [] \<or> sg = ''-'' \<or> sg = ''+''" "x' \<noteq> []" "is_dec (hd x')"
    using assms(1) by (rule sign_split)
  from numeral_len_digits[OF s(3,4), of pt] obtain m where m: "numeral_len pt x' = Some m"
    by (auto split: option.splits)
  have "takeWhile is_dec x' \<noteq> []" using s(3,4) by (cases x') auto
  then have "mantissa_len is_dec pt x' \<noteq> None" "\<forall>k. mantissa_len is_dec pt x' = Some k \<longrightarrow> 0 < k"
    by (auto simp: mantissa_len_def Let_def)
  then have "0 < m" using m numeral_len_digits[OF s(3,4), of pt] by (auto split: option.splits)
  then show ?thesis using numeral_len_le[OF s(3,4) m] assms(2) m unfolding s(1) strtod_sign[OF s(2-4)] by auto
qed

lemma strtod_or_oom:
  assumes "starts_numeral s" "env_ok E" "length s < 2147483647"
  shows "fpconv_strtod (e_alloc E) conv (e_point E) s = Inr (strtod conv (CHR ''.'') s)
    \<or> (\<exists>e. fpconv_strtod (e_alloc E) conv (e_point E) s = Inl e \<and> no_memory E e)"
proof -
  let ?n = "int (length (takeWhile valid_number_character s))"
  have pt: "e_point E = CHR ''.'' \<or> \<not> valid_number_character (e_point E)" using assms(2) by (simp add: env_ok_def)
  have n: "?n < 2 ^ 31 - 1" using length_takeWhile_le[of valid_number_character s] assms(3) by simp
  show ?thesis
  proof (cases "32 \<le> ?n \<longrightarrow> e_alloc E (?n + 1)")
    case True
    then show ?thesis using strtod_locale[OF assms(1) pt refl n] by blast
  next
    case False
    show ?thesis
    proof (cases "e_point E = CHR ''.''")
      case True
      then show ?thesis by (simp add: fpconv_strtod_def)
    next
      case pf: False
      have "to_int ?n = ?n" using n by (intro to_int_id) (simp add: int_ok_iff)
      moreover have "takeWhile valid_number_character s \<noteq> []" using False by auto
      ultimately have "fpconv_strtod (e_alloc E) conv (e_point E) s = Inl oom"
        using False pf n by (simp add: fpconv_strtod_def takeWhile_buffer_size Let_def FPCONV_G_FMT_BUFSIZE_def
            int_ok_iff malloc_def oom_def)
      then show ?thesis using False by (auto simp: no_memory_def)
    qed
  qed
qed

lemma number_token_post:
  assumes ok: "parse_ok json" and E: "env_ok E" and s: "p_ptr json \<noteq> []" "\<not> is_space (hd (p_ptr json))"
    and idx: "0 \<le> index" "index < INT_MAX"
  shows "token_post E json (json_next_number_token E json index)"
proof -
  obtain i n where in_: "strtoll (p_ptr json) = (i, n)" by fastforce
  show ?thesis
  proof (cases "n = 0")
    case True
    then show ?thesis using error_token_post[OF ok step_refl] in_ by (simp add: json_next_number_token_def)
  next
    case False
    from strtoll_starts[OF in_ False s] have st: "starts_numeral (p_ptr json)" "n \<le> length (p_ptr json)" by simp_all
    have "\<exists>c. peek_at (p_ptr json) n = Inr c" using st(2) by (auto simp: peek_at_def)
    then obtain c where c: "peek_at (p_ptr json) n = Inr c" by blast
    have l: "length (p_ptr json) < 2147483647" using ok by (simp add: parse_ok_def)
    show ?thesis
    proof (cases "c = CHR ''.'' \<or> c = CHR ''e'' \<or> c = CHR ''E''")
      case True
      obtain x m where xm: "strtod (e_conv E) (CHR ''.'') (p_ptr json) = (x, m)" by fastforce
      note m = strtod_consumed[OF st(1) xm]
      show ?thesis
      proof (cases "fpconv_strtod (e_alloc E) (e_conv E) (e_point E) (p_ptr json)")
        case (Inl e)
        then have "no_memory E e" using strtod_or_oom[OF st(1) E l, of "e_conv E"] by auto
        then show ?thesis using in_ False c True Inl by (simp add: json_next_number_token_def token_post_def)
      next
        case (Inr r)
        then have "r = (x, m)" using strtod_or_oom[OF st(1) E l, of "e_conv E"] xm by auto
        then show ?thesis using in_ False c True Inr m advance_ok[OF ok conjunct1[OF m]] idx
          by (auto simp: json_next_number_token_def token_post_def token_ok_def)
      qed
    next
      case cf: False
      then show ?thesis using in_ False c advance_ok[OF ok st(2)] idx st
        by (auto simp: json_next_number_token_def token_post_def token_ok_def)
    qed
  qed
qed

lemma is_invalid_ok: "p_ptr json \<noteq> [] \<Longrightarrow> p_ptr json ! 0 \<noteq> NUL \<Longrightarrow> \<exists>b. json_is_invalid_number json = Inr b"
  by (cases "p_ptr json"; cases "tl (p_ptr json)")
    (auto simp: json_is_invalid_number_def peek_at_def Let_def)

lemma unknown_chars:
  "init_ch2token c = T_UNKNOWN \<Longrightarrow> c \<noteq> NUL \<and> \<not> is_space c"
proof -
  have "\<forall>c. init_ch2token c = T_UNKNOWN \<longrightarrow> c \<noteq> NUL \<and> \<not> is_space c" by code_simp
  then show "init_ch2token c = T_UNKNOWN \<Longrightarrow> c \<noteq> NUL \<and> \<not> is_space c" by blast
qed

lemma ch2token_NUL: "init_ch2token NUL = T_END"
  by code_simp

lemma single_tokens: "init_ch2token c \<notin> {T_STRING, T_NUMBER, T_INTEGER, T_BOOLEAN, T_NULL}"
proof -
  have "\<forall>c. init_ch2token c \<notin> {T_STRING, T_NUMBER, T_INTEGER, T_BOOLEAN, T_NULL}" by code_simp
  then show ?thesis by blast
qed

lemma eat_whitespace_spec:
  "\<exists>q. eat_whitespace init_ch2token p = Inr q \<and> length q \<le> length p
     \<and> init_ch2token (case q of [] \<Rightarrow> NUL | c # _ \<Rightarrow> c) \<noteq> T_WHITESPACE"
  by (induction p) (auto simp: ch2token_NUL)

lemma strncmp_len: "strncmp_eq s t \<Longrightarrow> length t \<le> length s"
proof -
  assume "strncmp_eq s t"
  then have "length (take (length t) s) = length t" by (simp add: strncmp_eq_def)
  then show ?thesis by (simp add: min_def split: if_splits)
qed

lemma plain_post:
  assumes "parse_ok json" "k \<le> length (p_ptr json)" "0 < k" "step_ok j0 json"
    and "(t = T_BOOLEAN \<and> (\<exists>b. v = V_boolean b)) \<or> t \<notin> {T_STRING, T_NUMBER, T_INTEGER, T_BOOLEAN, T_ERROR}"
  shows "token_post E j0 (andthen (advance k json) (\<lambda>j. Inr (j, plain_token t (p_index json) v)))"
  using advance_ok[OF assms(1,2)] assms(2-5) p_index_ok[OF assms(1)]
  by (auto simp: token_post_def plain_token_def token_ok_def step_ok_def split: json_token_type.splits)

lemma next_token_post:
  assumes cfg: "cfg_ok cfg" and E: "env_ok E" and ok: "parse_ok json"
  shows "token_post E json (json_next_token E cfg json)"
proof -
  have tok: "ch2token cfg = init_ch2token" using cfg by (simp add: cfg_ok_def)
  obtain q where q: "eat_whitespace init_ch2token (p_ptr json) = Inr q" "length q \<le> length (p_ptr json)"
    "init_ch2token (case q of [] \<Rightarrow> NUL | c # _ \<Rightarrow> c) \<noteq> T_WHITESPACE"
    using eat_whitespace_spec by blast
  let ?j = "json\<lparr>p_ptr := q\<rparr>" and ?ch = "case q of [] \<Rightarrow> NUL | c # _ \<Rightarrow> c"
  let ?t = "init_ch2token ?ch"
  have okj: "parse_ok ?j" using ok q(2) by (simp add: parse_ok_def)
  have st: "step_ok json ?j" using q(2) by (simp add: step_ok_def)
  have mono: "token_post E json out" if "token_post E ?j out" for out
    using that st by (cases out) (auto simp: token_post_def step_ok_def)
  note idx = p_index_ok[OF okj]
  let ?run = "json_next_token E cfg json"
  show ?thesis
  proof (cases "?t = T_ERROR \<or> ?t = T_END")
    case True
    then have "?run = (if ?t = T_ERROR then Inr (?j, error_token ?j ''invalid token'')
        else Inr (?j, plain_token T_END (p_index ?j) V_none))"
      by (auto simp: json_next_token_def tok q(1) peek_0 Let_def)
    then show ?thesis using error_token_post[OF okj st] okj st idx
      by (auto simp: token_post_def token_ok_def plain_token_def)
  next
    case False
    then obtain c p where cp: "q = c # p" using ch2token_NUL by (cases q) auto
    show ?thesis
    proof (cases "?t = T_UNKNOWN")
      case t: False
      then have r: "?run = andthen (advance 1 ?j) (\<lambda>j. Inr (j, plain_token ?t (p_index ?j) V_none))"
        using False by (simp add: json_next_token_def tok q(1) peek_0 Let_def)
      show ?thesis unfolding r
        by (rule plain_post[OF okj _ _ st]) (use cp False single_tokens[of ?ch] in auto)
    next
      case unk: True
      then have cu: "init_ch2token c = T_UNKNOWN" using cp by simp
      have c: "c \<noteq> NUL" "\<not> is_space c" using unknown_chars[OF cu] by simp_all
      have dq: "token_post E json (json_next_string_token cfg ?j (p_index ?j))" if "c = DQ"
        by (rule mono, rule string_token_post[OF cfg okj]) (use cp that idx in auto)
      have num: "token_post E json (json_next_number_token E ?j (p_index ?j))"
        by (rule mono, rule number_token_post[OF okj E]) (use cp c idx in auto)
      obtain inv where inv: "json_is_invalid_number ?j = Inr inv"
        using is_invalid_ok[of ?j] cp c by auto
      have err: "token_post E json (Inr (?j, error_token ?j e))" for e by (rule error_token_post[OF okj st])
      have word: "token_post E json (andthen (advance k ?j) (\<lambda>j. Inr (j, plain_token t (p_index ?j) v)))"
        if "k \<le> length q" "0 < k" "(t = T_BOOLEAN \<and> (\<exists>b. v = V_boolean b)) \<or> t = T_NULL" for k t v
        by (rule plain_post[OF okj _ that(2) st]) (use that in auto)
      have r: "?run =
        (if c = DQ then json_next_string_token cfg ?j (p_index ?j)
         else if c = CHR ''-'' \<or> (48 \<le> uc c \<and> uc c \<le> 57) then
           (if decode_invalid_numbers cfg = 0 \<and> inv then Inr (?j, error_token ?j ''invalid number'')
            else json_next_number_token E ?j (p_index ?j))
         else if strncmp_eq q ''true'' then
           andthen (advance 4 ?j) (\<lambda>json. Inr (json, plain_token T_BOOLEAN (p_index ?j) (V_boolean True)))
         else if strncmp_eq q ''false'' then
           andthen (advance 5 ?j) (\<lambda>json. Inr (json, plain_token T_BOOLEAN (p_index ?j) (V_boolean False)))
         else if strncmp_eq q ''null'' then
           andthen (advance 4 ?j) (\<lambda>json. Inr (json, plain_token T_NULL (p_index ?j) V_none))
         else if decode_invalid_numbers cfg \<noteq> 0 \<and> inv then json_next_number_token E ?j (p_index ?j)
         else Inr (?j, error_token ?j ''invalid token''))"
      proof -
        have fl: "(if d then Inr inv else Inr False) = Inr (d \<and> inv)" for d by simp
        show ?thesis using cp cu inv
          by (simp add: json_next_token_def tok q(1) peek_0 Let_def fl split del: if_split cong: if_cong)
      qed
      have len: "strncmp_eq q ''true'' \<longrightarrow> 4 \<le> length q" "strncmp_eq q ''false'' \<longrightarrow> 5 \<le> length q"
        "strncmp_eq q ''null'' \<longrightarrow> 4 \<le> length q"
        by (auto dest: strncmp_len)
      have words: "strncmp_eq q ''true'' \<Longrightarrow> token_post E json
          (andthen (advance 4 ?j) (\<lambda>json. Inr (json, plain_token T_BOOLEAN (p_index ?j) (V_boolean True))))"
        "strncmp_eq q ''false'' \<Longrightarrow> token_post E json
          (andthen (advance 5 ?j) (\<lambda>json. Inr (json, plain_token T_BOOLEAN (p_index ?j) (V_boolean False))))"
        "strncmp_eq q ''null'' \<Longrightarrow> token_post E json
          (andthen (advance 4 ?j) (\<lambda>json. Inr (json, plain_token T_NULL (p_index ?j) V_none)))"
        by (rule word; use len in auto)+
      have pick: "token_post E json (if b then x else y)"
        if "b \<Longrightarrow> token_post E json x" "\<not> b \<Longrightarrow> token_post E json y" for b x y
        using that by simp
      show ?thesis unfolding r by (intro pick dq num err words)
    qed
  qed
qed

section \<open>Parsing is safe\<close>

text \<open>
  \<open>jerr_ok\<close>: the failures of the parser. A Lua error is only thrown after the temporary buffer,
  struct included, has been released; a crash is an exhausted allocator.
\<close>

definition jerr_ok :: "env \<Rightarrow> jerr \<Rightarrow> bool" where
  "jerr_ok E j \<longleftrightarrow> (case j of Crash e \<Rightarrow> no_memory E e | Throw err b \<Rightarrow> b = None)"

definition opens :: "json_token \<Rightarrow> bool" where
  "opens tk \<longleftrightarrow> tk_type tk = T_OBJ_BEGIN \<or> tk_type tk = T_ARR_BEGIN"

definition token_at :: "json_parse \<Rightarrow> json_parse \<times> json_token \<Rightarrow> bool" where
  \<comment> \<open>what reading a token establishes\<close>
  "token_at json r \<longleftrightarrow>
     (case r of (json', tk) \<Rightarrow> parse_ok json' \<and> step_ok json json' \<and> token_ok json' tk
        \<and> (tk_type tk = T_END \<or> tk_type tk = T_ERROR \<or> length (p_ptr json') < length (p_ptr json)))"

definition value_at :: "json_parse \<Rightarrow> json_parse \<times> ltree \<Rightarrow> bool" where
  "value_at json r \<longleftrightarrow> (case r of (json', v) \<Rightarrow> parse_ok json' \<and> step_ok json json')"

lemma wpr_crash: "wpr (no_memory E) Q m \<Longrightarrow> wpr (jerr_ok E) Q (crash m)"
  by (cases m) (simp_all add: crash_def jerr_ok_def)

lemma next_token_ok:
  assumes "cfg_ok cfg" "env_ok E" "parse_ok json"
  shows "wpr (jerr_ok E) (token_at json) (next_token E cfg json)"
  unfolding next_token_def token_at_def[abs_def]
  by (rule wpr_crash) (use next_token_post[OF assms] in \<open>simp add: token_post_def\<close>)

lemma throw_ok:
  assumes "parse_ok json" "token_ok json tk"
  shows "wpr (jerr_ok E) Q (json_throw_parse_error json expected tk)"
proof -
  have f: "strbuf_free (p_tmp json) = None"
    using assms(1) by (auto simp: parse_ok_def tmp_ok_def free_released)
  have i: "int_ok (tk_index tk + 1)" using assms(2) by (simp add: token_ok_def int_ok_iff INT_MAX_def)
  have "tk_type tk = T_ERROR \<longrightarrow> (\<exists>e. tk_value tk = V_error e)" using assms(2) by (auto simp: token_ok_def)
  then show ?thesis using f i by (auto simp: json_throw_parse_error_def jerr_ok_def)
qed

lemma push_string_ok:
  assumes "parse_ok json" "token_ok json tk" "tk_type tk = T_STRING"
  shows "\<exists>s. push_string json tk = Inr s"
proof -
  obtain cs where "sb_rep (p_tmp json) cs" using assms(1) by (auto simp: parse_ok_def tmp_ok_def)
  from contents_spec[OF this] show ?thesis using assms(2,3) by (simp add: push_string_def token_ok_def)
qed

lemma descend_ok:
  assumes "parse_ok json" "env_ok E"
  shows "wpr (jerr_ok E) (\<lambda>json'. parse_ok json' \<and> p_ptr json' = p_ptr json \<and> p_len json' = p_len json
      \<and> p_depth json' = p_depth json + 1) (json_decode_descend E cfg json slots)"
proof -
  have d: "int_ok (p_depth json + 1)" using assms(1) by (simp add: parse_ok_def int_ok_iff)
  have f: "strbuf_free (p_tmp json) = None"
    using assms(1) by (auto simp: parse_ok_def tmp_ok_def free_released)
  show ?thesis using assms d f
    by (auto simp: json_decode_descend_def jerr_ok_def parse_ok_def env_ok_def Let_def)
qed

lemma then_token:
  assumes "cfg_ok cfg" "env_ok E" "parse_ok json"
    and "\<And>j tk. parse_ok j \<Longrightarrow> step_ok json j \<Longrightarrow> token_ok j tk \<Longrightarrow>
      tk_type tk = T_END \<or> tk_type tk = T_ERROR \<or> length (p_ptr j) < length (p_ptr json) \<Longrightarrow>
      wpr (jerr_ok E) Q (f j tk)"
  shows "wpr (jerr_ok E) Q (andthen (next_token E cfg json) (case_prod f))"
  unfolding wpr_andthen
  by (rule wpr_conseq[OF next_token_ok[OF assms(1-3)]]) (auto simp: token_at_def intro: assms(4))

text \<open>
  What the contexts rely on: \<open>json_process_value\<close> at some level parses any value, an array or
  object only when fewer than \<open>m\<close> characters are left.
\<close>

definition closed :: "json_parse \<Rightarrow> json_parse \<times> ltree \<Rightarrow> bool" where
  \<comment> \<open>the end of an array or object: back at the level outside\<close>
  "closed json r \<longleftrightarrow>
     (case r of (json', v) \<Rightarrow> parse_ok json' \<and> p_depth json' = p_depth json - 1
        \<and> p_len json' = p_len json \<and> length (p_ptr json') \<le> length (p_ptr json))"

lemma closed_ascend: "parse_ok j \<Longrightarrow> step_ok json j \<Longrightarrow> 1 \<le> p_depth json \<Longrightarrow> closed json (json_decode_ascend j, v)"
  by (simp add: closed_def json_decode_ascend_def step_ok_def parse_ok_def)

lemma closed_step: "closed j r \<Longrightarrow> step_ok json j \<Longrightarrow> closed json r"
  by (auto simp: closed_def step_ok_def)

locale value_step =
  fixes pv :: "env \<Rightarrow> json_config \<Rightarrow> value_parser" and m :: nat
  assumes value_spec: "cfg_ok cfg \<Longrightarrow> env_ok E \<Longrightarrow> parse_ok json \<Longrightarrow> token_ok json tk \<Longrightarrow>
      opens tk \<longrightarrow> length (p_ptr json) < m \<Longrightarrow> wpr (jerr_ok E) (value_at json) (pv E cfg json tk)"
begin

lemma then_value:
  assumes "cfg_ok cfg" "env_ok E" "parse_ok json" "token_ok json tk" "opens tk \<longrightarrow> length (p_ptr json) < m"
    and "\<And>j v. parse_ok j \<Longrightarrow> step_ok json j \<Longrightarrow> wpr (jerr_ok E) Q (f j v)"
  shows "wpr (jerr_ok E) Q (andthen (pv E cfg json tk) (case_prod f))"
  unfolding wpr_andthen
  by (rule wpr_conseq[OF value_spec[OF assms(1-5)]]) (auto simp: value_at_def intro: assms(6))

lemma array_loop_ok:
  assumes cfg: "cfg_ok cfg" and E: "env_ok E"
  shows "parse_ok json \<Longrightarrow> token_ok json tk \<Longrightarrow> opens tk \<longrightarrow> length (p_ptr json) < m \<Longrightarrow>
    length (p_ptr json) \<le> m \<Longrightarrow> length (p_ptr json) < n \<Longrightarrow> 1 \<le> p_depth json \<Longrightarrow>
    1 \<le> i \<Longrightarrow> i + int (length (p_ptr json)) \<le> int (p_len json) + 1 \<Longrightarrow>
    wpr (jerr_ok E) (closed json) (array_loop n E cfg (pv E cfg) json tk i tab)"
proof (induction n arbitrary: json tk i tab)
  case (Suc n)
  show ?case unfolding array_loop.simps
  proof (rule then_value[OF cfg E Suc.prems(1-3)], unfold Let_def, rule then_token[OF cfg E])
    fix j1 v j2 t2
    assume j1: "parse_ok j1" "step_ok json j1" and j2: "parse_ok j2" "step_ok j1 j2" "token_ok j2 t2"
      "tk_type t2 = T_END \<or> tk_type t2 = T_ERROR \<or> length (p_ptr j2) < length (p_ptr j1)"
    have s2: "step_ok json j2" using step_trans[OF j1(2) j2(2)] .
    consider (close) "tk_type t2 = T_ARR_END" | (bad) "tk_type t2 \<noteq> T_ARR_END" "tk_type t2 \<noteq> T_COMMA"
      | (comma) "tk_type t2 = T_COMMA" by auto
    then show "wpr (jerr_ok E) (closed json)
        (if tk_type t2 = T_ARR_END then Inr (json_decode_ascend j2, TTab (tab_set (TInt i) v tab))
         else if tk_type t2 \<noteq> T_COMMA then json_throw_parse_error j2 ''comma or array end'' t2
         else andthen (next_token E cfg j2) (\<lambda>(json, token).
             andthen (crash (c_int (i + 1))) (\<lambda>i'. array_loop n E cfg (pv E cfg) json token i' (tab_set (TInt i) v tab))))"
    proof cases
      case close
      then show ?thesis using closed_ascend[OF j2(1) s2 Suc.prems(6)] by simp
    next
      case bad
      then show ?thesis using throw_ok[OF j2(1,3)] by simp
    next
      case comma
      have "wpr (jerr_ok E) (closed json) (andthen (next_token E cfg j2) (\<lambda>(json, token).
             andthen (crash (c_int (i + 1))) (\<lambda>i'. array_loop n E cfg (pv E cfg) json token i' (tab_set (TInt i) v tab))))"
      proof (rule then_token[OF cfg E j2(1)])
        fix j3 t3
        assume j3: "parse_ok j3" "step_ok j2 j3" "token_ok j3 t3"
          "tk_type t3 = T_END \<or> tk_type t3 = T_ERROR \<or> length (p_ptr j3) < length (p_ptr j2)"
        have s3: "step_ok json j3" using step_trans[OF s2 j3(2)] .
        have l2: "length (p_ptr j2) < length (p_ptr json)"
          using comma j2(4) j1(2) by (auto simp: step_ok_def)
        have l3: "length (p_ptr j3) \<le> length (p_ptr j2)" "p_len j3 = p_len json" "p_depth j3 = p_depth json"
          using j3(2) s3 by (simp_all add: step_ok_def)
        have i: "int_ok (i + 1)" using Suc.prems(7,8) l2 j3(1) l3 by (simp add: int_ok_iff parse_ok_def)
        show "wpr (jerr_ok E) (closed json)
            (andthen (crash (c_int (i + 1))) (\<lambda>i'. array_loop n E cfg (pv E cfg) j3 t3 i' (tab_set (TInt i) v tab)))"
          using i l2 l3 Suc.prems
          by (auto intro!: wpr_mono[OF Suc.IH[OF j3(1,3)]] intro: closed_step[OF _ s3])
      qed
      then show ?thesis using comma by simp
    qed
  qed (use Suc.prems in auto)
qed simp

lemma object_loop_ok:
  assumes cfg: "cfg_ok cfg" and E: "env_ok E"
  shows "parse_ok json \<Longrightarrow> token_ok json tk \<Longrightarrow> length (p_ptr json) \<le> m \<Longrightarrow>
    length (p_ptr json) < n \<Longrightarrow> 1 \<le> p_depth json \<Longrightarrow>
    wpr (jerr_ok E) (closed json) (object_loop n E cfg (pv E cfg) json tk tab)"
proof (induction n arbitrary: json tk tab)
  case (Suc n)
  show ?case
  proof (cases "tk_type tk = T_STRING")
    case False
    then show ?thesis using throw_ok[OF Suc.prems(1,2)] by simp
  next
    case True
    then obtain key where key: "push_string json tk = Inr key"
      using push_string_ok[OF Suc.prems(1,2)] by blast
    let ?rest = "\<lambda>j v. andthen (next_token E cfg j) (\<lambda>(json, token).
      if tk_type token = T_OBJ_END then Inr (json_decode_ascend json, TTab (tab_set (TStr key) v tab))
      else if tk_type token \<noteq> T_COMMA then json_throw_parse_error json ''comma or object end'' token
      else andthen (next_token E cfg json) (\<lambda>(json, token).
      object_loop n E cfg (pv E cfg) json token (tab_set (TStr key) v tab)))"
    have loop: "object_loop (Suc n) E cfg (pv E cfg) json tk tab =
      andthen (next_token E cfg json) (\<lambda>(json, token).
      if tk_type token \<noteq> T_COLON then json_throw_parse_error json ''colon'' token
      else andthen (next_token E cfg json) (\<lambda>(json, token).
      andthen (pv E cfg json token) (\<lambda>(json, v). ?rest json v)))"
      unfolding object_loop.simps Let_def using True by (simp add: key crash_def)
    have rest: "wpr (jerr_ok E) (closed json) (?rest j v)"
      if j: "parse_ok j" "step_ok json j" "length (p_ptr j) < length (p_ptr json)" for j v
    proof (rule then_token[OF cfg E j(1)])
      fix j2 t2
      assume j2: "parse_ok j2" "step_ok j j2" "token_ok j2 t2"
        "tk_type t2 = T_END \<or> tk_type t2 = T_ERROR \<or> length (p_ptr j2) < length (p_ptr j)"
      note s2 = step_trans[OF j(2) j2(2)]
      have again: "wpr (jerr_ok E) (closed json) (andthen (next_token E cfg j2) (\<lambda>(json, token).
          object_loop n E cfg (pv E cfg) json token (tab_set (TStr key) v tab)))"
      proof (rule then_token[OF cfg E j2(1)])
        fix j3 t3
        assume j3: "parse_ok j3" "step_ok j2 j3" "token_ok j3 t3"
        note s3 = step_trans[OF s2 j3(2)]
        show "wpr (jerr_ok E) (closed json) (object_loop n E cfg (pv E cfg) j3 t3 (tab_set (TStr key) v tab))"
          using Suc.prems j(3) j2(2) j3(2) s3
          by (auto simp: step_ok_def intro!: wpr_mono[OF Suc.IH[OF j3(1,3)]] intro: closed_step[OF _ s3])
      qed
      show "wpr (jerr_ok E) (closed json)
        (if tk_type t2 = T_OBJ_END then Inr (json_decode_ascend j2, TTab (tab_set (TStr key) v tab))
         else if tk_type t2 \<noteq> T_COMMA then json_throw_parse_error j2 ''comma or object end'' t2
         else andthen (next_token E cfg j2) (\<lambda>(json, token).
           object_loop n E cfg (pv E cfg) json token (tab_set (TStr key) v tab)))"
        using closed_ascend[OF j2(1) s2 Suc.prems(5)] again by (simp add: throw_ok[OF j2(1,3)])
    qed
    show ?thesis unfolding loop
    proof (rule then_token[OF cfg E Suc.prems(1)])
      fix j1 t1
      assume j1: "parse_ok j1" "step_ok json j1" "token_ok j1 t1"
        "tk_type t1 = T_END \<or> tk_type t1 = T_ERROR \<or> length (p_ptr j1) < length (p_ptr json)"
      show "wpr (jerr_ok E) (closed json)
        (if tk_type t1 \<noteq> T_COLON then json_throw_parse_error j1 ''colon'' t1
         else andthen (next_token E cfg j1) (\<lambda>(json, token).
           andthen (pv E cfg json token) (\<lambda>(json, v). ?rest json v)))"
      proof (cases "tk_type t1 = T_COLON")
        case colon: True
        have "wpr (jerr_ok E) (closed json) (andthen (next_token E cfg j1) (\<lambda>(json, token).
           andthen (pv E cfg json token) (\<lambda>(json, v). ?rest json v)))"
        proof (rule then_token[OF cfg E j1(1)])
          fix j2 t2
          assume j2: "parse_ok j2" "step_ok j1 j2" "token_ok j2 t2"
          have l2: "length (p_ptr j2) < length (p_ptr json)" "step_ok json j2"
            using colon j1(4) j2(2) step_trans[OF j1(2) j2(2)] by (auto simp: step_ok_def)
          show "wpr (jerr_ok E) (closed json) (andthen (pv E cfg j2 t2) (\<lambda>(json, v). ?rest json v))"
          proof (rule then_value[OF cfg E j2(1,3)])
            show "opens t2 \<longrightarrow> length (p_ptr j2) < m" using l2(1) Suc.prems(3) by simp
            fix j v assume j: "parse_ok j" "step_ok j2 j"
            show "wpr (jerr_ok E) (closed json) (?rest j v)"
              by (rule rest[OF j(1) step_trans[OF l2(2) j(2)]]) (use l2(1) j(2) in \<open>simp add: step_ok_def\<close>)
          qed
        qed
        then show ?thesis using colon by simp
      qed (use throw_ok[OF j1(1,3)] in simp)
    qed
  qed
qed simp

lemma context_ok:
  assumes cfg: "cfg_ok cfg" and E: "env_ok E" and json: "parse_ok json" "length (p_ptr json) \<le> m"
  shows "wpr (jerr_ok E) (value_at json) (json_parse_array_context E cfg (pv E cfg) json)"
    and "wpr (jerr_ok E) (value_at json) (json_parse_object_context E cfg (pv E cfg) json)"
proof -
  have up: "value_at json r" if "closed j r" "p_len j = p_len json" "p_depth j = p_depth json + 1"
    "length (p_ptr j) \<le> length (p_ptr json)" for j r
    using that by (auto simp: closed_def value_at_def step_ok_def)
  have ctx: "wpr (jerr_ok E) (value_at json)
      (andthen (json_decode_descend E cfg json slots) (\<lambda>json.
       andthen (next_token E cfg json) (\<lambda>(json, token).
       if tk_type token = en then Inr (json_decode_ascend json, TTab []) else loop json token)))"
    if loop: "\<And>j tk. parse_ok j \<Longrightarrow> token_ok j tk \<Longrightarrow> length (p_ptr j) \<le> m \<Longrightarrow> 1 \<le> p_depth j \<Longrightarrow>
        length (p_ptr j) \<le> p_len j \<Longrightarrow> opens tk \<longrightarrow> length (p_ptr j) < m \<Longrightarrow>
        wpr (jerr_ok E) (closed j) (loop j tk)" for slots en loop
    unfolding wpr_andthen[of _ _ "json_decode_descend E cfg json slots"]
  proof (rule wpr_conseq[OF descend_ok[OF json(1) E]])
    fix j assume j: "parse_ok j \<and> p_ptr j = p_ptr json \<and> p_len j = p_len json \<and> p_depth j = p_depth json + 1"
    show "wpr (jerr_ok E) (value_at json) (andthen (next_token E cfg j) (\<lambda>(json, token).
       if tk_type token = en then Inr (json_decode_ascend json, TTab []) else loop json token))"
    proof (rule then_token[OF cfg E])
      fix j1 t1
      assume j1: "parse_ok j1" "step_ok j j1" "token_ok j1 t1"
        "tk_type t1 = T_END \<or> tk_type t1 = T_ERROR \<or> length (p_ptr j1) < length (p_ptr j)"
      have d: "1 \<le> p_depth j1" using j j1(2) json(1) by (simp add: step_ok_def parse_ok_def)
      have f: "p_len j1 = p_len json" "p_depth j1 = p_depth json + 1" "length (p_ptr j1) \<le> length (p_ptr json)"
        using j j1(2) by (simp_all add: step_ok_def)
      have "wpr (jerr_ok E) (closed j1) (loop j1 t1)"
        by (rule loop[OF j1(1,3) _ d]) (use f json j j1(1,4) in \<open>auto simp: opens_def parse_ok_def\<close>)
      then have "wpr (jerr_ok E) (value_at json) (loop j1 t1)" by (rule wpr_mono) (auto intro: up f)
      moreover have "value_at json (json_decode_ascend j1, TTab [])"
        by (rule up[OF closed_ascend[OF j1(1) step_refl d] f])
      ultimately show "wpr (jerr_ok E) (value_at json)
          (if tk_type t1 = en then Inr (json_decode_ascend j1, TTab []) else loop j1 t1)" by simp
    qed (use j in simp)
  qed
  show "wpr (jerr_ok E) (value_at json) (json_parse_array_context E cfg (pv E cfg) json)"
    unfolding json_parse_array_context_def by (rule ctx, rule array_loop_ok[OF cfg E]) simp_all
  show "wpr (jerr_ok E) (value_at json) (json_parse_object_context E cfg (pv E cfg) json)"
    unfolding json_parse_object_context_def by (rule ctx, rule object_loop_ok[OF cfg E]) simp_all
qed

end

lemma value_cases:
  assumes json: "parse_ok json" and tk: "token_ok json tk"
    and "tk_type tk = T_ARR_BEGIN \<Longrightarrow>
      wpr (jerr_ok E) (value_at json) (json_parse_array_context E cfg (json_process_value m E cfg) json)"
    and "tk_type tk = T_OBJ_BEGIN \<Longrightarrow>
      wpr (jerr_ok E) (value_at json) (json_parse_object_context E cfg (json_process_value m E cfg) json)"
  shows "wpr (jerr_ok E) (value_at json) (json_process_value (Suc m) E cfg json tk)"
proof -
  have at: "value_at json (json, v)" for v using json by (simp add: value_at_def)
  obtain s where "tk_type tk = T_STRING \<longrightarrow> push_string json tk = Inr s"
    using push_string_ok[OF json tk] by blast
  then show ?thesis using tk assms(3,4) at throw_ok[OF json tk]
    by (cases "tk_type tk") (auto simp: token_payload_def token_ok_def crash_def)
qed

lemma process_value_step: "value_step (json_process_value (Suc m)) m"
proof (induction m)
  case 0
  show ?case by unfold_locales (rule value_cases, simp_all add: opens_def)
next
  case (Suc m)
  show ?case
    by unfold_locales
      (rule value_cases, auto simp: opens_def simp del: json_process_value.simps
        intro!: value_step.context_ok[OF Suc.IH])
qed

interpretation pv: value_step "json_process_value (Suc m)" m for m
  by (rule process_value_step)

section \<open>Decoding is safe\<close>

lemma run_ok:
  assumes cfg: "cfg_ok cfg" and E: "env_ok E" and len: "length data < 2147483647"
    and tmp: "tmp_ok (length data) tmp cs"
  shows "wpr (jerr_ok E) (\<lambda>(json, v). parse_ok json) (json_decode_run E cfg data tmp)"
  unfolding json_decode_run_def Let_def
proof (rule then_token[OF cfg E])
  let ?j = "\<lparr>p_len = length data, p_ptr = data, p_tmp = tmp, p_depth = 0\<rparr>"
  show "parse_ok ?j" using len tmp by (auto simp: parse_ok_def)
  fix j tk
  assume j: "parse_ok j" "step_ok ?j j" "token_ok j tk"
    "tk_type tk = T_END \<or> tk_type tk = T_ERROR \<or> length (p_ptr j) < length (p_ptr ?j)"
  show "wpr (jerr_ok E) (\<lambda>(json, v). parse_ok json)
     (andthen (json_process_value (decode_fuel (length data)) E cfg j tk) (\<lambda>(json, v).
      andthen (next_token E cfg json) (\<lambda>(json, token).
      if tk_type token \<noteq> T_END then json_throw_parse_error json ''the end'' token
      else Inr (json, v))))"
    unfolding decode_fuel_def Suc_eq_plus1[symmetric]
  proof (rule pv.then_value[OF cfg E j(1,3)])
    show "opens tk \<longrightarrow> length (p_ptr j) < length data" using j(4) by (auto simp: opens_def)
    fix j1 v assume j1: "parse_ok j1"
    show "wpr (jerr_ok E) (\<lambda>(json, v). parse_ok json) (andthen (next_token E cfg j1) (\<lambda>(json, token).
      if tk_type token \<noteq> T_END then json_throw_parse_error json ''the end'' token
      else Inr (json, v)))"
      by (rule then_token[OF cfg E j1]) (simp add: throw_ok)
  qed
qed

lemma new_tmp:
  assumes "n < 2147483647"
  shows "wpr (no_memory E) (\<lambda>tmp. tmp_ok n tmp []) (strbuf_new (e_alloc E) (int n))"
proof -
  have i: "int_ok (int n)" "int_ok (int n + 1)" using assms by (simp_all add: int_ok_iff)
  have "strbuf_new (e_alloc E) (int n) \<noteq> Inl (UB Signed_overflow)"
    using i(2) by (auto simp: strbuf_new_def strbuf_init_def andthen_eq_Inl oom_def malloc_def
        strbuf_ensure_null_def poke_mem_def split: if_splits option.splits)
  then show ?thesis using new_spec[OF i(1), of "e_alloc E"]
    by (cases "strbuf_new (e_alloc E) (int n)")
      (auto simp: res_err_def no_memory_def tmp_ok_def sb_room_def sb_rep_def split: if_splits)
qed

text \<open>
  C2: Decoding any text of less than 2 ^ 31 - 1 characters, whatever it holds, returns: it reads
  nothing beyond the text's terminator, writes nothing beyond the temporary buffer and reaches
  no undefined behaviour; both on success and on every syntax error the temporary buffer has
  been released. The only way not to return is an exhausted allocator.
\<close>

theorem decode_safe:
  assumes "cfg_ok cfg" "env_ok E" "length data < 2147483647"
  shows "case json_decode E cfg [LStr data] of
      Inr (tmp, r) \<Rightarrow> tmp = None
    | Inl e \<Rightarrow> no_memory E e"
proof -
  have "wpr (no_memory E) (\<lambda>(tmp, r). tmp = None) (json_decode E cfg [LStr data])"
  proof (cases "2 \<le> length data \<and> (data ! 0 = NUL \<or> data ! 1 = NUL)")
    case True
    then show ?thesis by (simp add: json_decode_def luaL_checklstring_def)
  next
    case False
    have i: "to_int (int (length data)) = int (length data)"
      using assms(3) by (intro to_int_id) (simp add: int_ok_iff)
    have dec: "json_decode E cfg [LStr data] = andthen (strbuf_new (e_alloc E) (int (length data))) (\<lambda>tmp.
        (case json_decode_run E cfg data tmp of
           Inl (Crash e) \<Rightarrow> Inl e
         | Inl (Throw err b) \<Rightarrow> Inr (b, Inl err)
         | Inr (json, v) \<Rightarrow> Inr (strbuf_free (p_tmp json), Inr v)))"
      unfolding json_decode_def luaL_checklstring_def list.case lua.case sum.case if_not_P[OF False] i ..
    show ?thesis unfolding dec wpr_andthen
    proof (rule wpr_mono[OF new_tmp])
      fix tmp assume "tmp_ok (length data) tmp []"
      note run = run_ok[OF assms this]
      have free: "strbuf_free (p_tmp json) = None" if "parse_ok json" for json
        using that by (auto simp: parse_ok_def tmp_ok_def free_released)
      show "wpr (no_memory E) (\<lambda>(tmp, r). tmp = None)
          (case json_decode_run E cfg data tmp of
             Inl (Crash e) \<Rightarrow> Inl e
           | Inl (Throw err b) \<Rightarrow> Inr (b, Inl err)
           | Inr (json, v) \<Rightarrow> Inr (strbuf_free (p_tmp json), Inr v))"
        using run free by (auto simp: jerr_ok_def split: sum.splits jerr.splits)
    qed (use assms(3) in simp_all)
  qed
  then show ?thesis by (cases "json_decode E cfg [LStr data]") auto
qed

text \<open>
  A nested document, read to its end with every kind of value, an escape and a comma; the
  second text is cut short inside a string.
\<close>

theorem decode_safe_witness:
  "case json_decode sample_env sample_cfg [LStr (''['' @ DQ # BS # ''u20ac'' @ DQ # '', {'' @ DQ # ''k'' @ DQ # '':[null, -7]}]'')] of
     Inr (tmp, r) \<Rightarrow> tmp = None
   | Inl e \<Rightarrow> no_memory sample_env e"
  by (rule decode_safe[OF sample_cfg_ok sample_env_ok]) simp

end
