(* ===== verification/Dtoa_Strtod.thy ===== *)
theory Dtoa_Strtod
  imports Dtoa_Correct
begin

text \<open>
\<open>bigcomp\<close> and the whole of \<open>fpconv_strtod\<close> in \<open>3rd/lua-cjson/dtoa.c\<close>: the scanner, the fast
  path for short numbers, and for the others the first approximation, the correction loop and,
  when digits were left out, the comparison with all the digits.
\<close>

section \<open>Comparing all the digits\<close>

fun cmp_digits :: "alloc \<Rightarrow> dtoa_state \<Rightarrow> nat \<Rightarrow> nat \<Rightarrow> int \<Rightarrow> string \<Rightarrow> int \<Rightarrow> int \<Rightarrow> int \<Rightarrow> nat \<Rightarrow>
    (dtoa_state \<times> nat \<times> int \<times> int option) res" where
  \<comment> \<open>the digits of \<open>b/d\<close> against the text from \<open>p\<close> on; \<open>dd\<close> if they differ or \<open>b/d\<close> ends\<close>
  "cmp_digits A s b d dig t p i nd 0 = Inr (s, b, dig, None)"
| "cmp_digits A s b d dig t p i nd (Suc n) =
     andthen (text_at t p) (\<lambda>c.
     let dd = sc c - 48 - dig; i = i + 1 in
     if dd \<noteq> 0 then Inr (s, b, dig, Some dd)
     else
       andthen (deref s b) (\<lambda>B.
       andthen (peek_word B 0) (\<lambda>x.
       if x = 0 \<and> bg_wds B = 1 then Inr (s, b, dig, Some (if i < nd then 1 else 0))
       else
         andthen (multadd A s b 10 0) (\<lambda>(s, b).
         andthen (quorem s b d) (\<lambda>(s, dig).
         cmp_digits A s b d dig t (p + 1) i nd n)))))"

definition bigcomp_compare :: "alloc \<Rightarrow> dtoa_state \<Rightarrow> nat \<Rightarrow> nat \<Rightarrow> string \<Rightarrow> nat \<Rightarrow> BCinfo \<Rightarrow> (dtoa_state \<times> nat \<times> int) res" where
  \<comment> \<open>\<open>dd\<close>: the sign of the text minus \<open>b/d\<close>\<close>
  "bigcomp_compare A s b d t s0 bc =
     andthen (quorem s b d) (\<lambda>(s, dig).
     andthen (if dig = 0 then andthen (multadd A s b 10 0) (\<lambda>(s, b). andthen (quorem s b d) (\<lambda>(s, dig). Inr (s, b, dig)))
              else Inr (s, b, dig)) (\<lambda>(s, b, dig).
     andthen (cmp_digits A s b d dig t (int s0) 0 (bc_nd bc) (nat (bc_nd0 bc))) (\<lambda>(s, b, dig, r).
     andthen (case r of
         Some dd \<Rightarrow> Inr (s, b, dig, Some dd)
       | None \<Rightarrow> cmp_digits A s b d dig t (int s0 + bc_dp1 bc) (bc_nd0 bc) (bc_nd bc) (nat (bc_nd bc - bc_nd0 bc))) (\<lambda>(s, b, dig, r).
     case r of
       Some dd \<Rightarrow> Inr (s, b, dd)
     | None \<Rightarrow>
         andthen (deref s b) (\<lambda>B. andthen (peek_word B 0) (\<lambda>x.
         Inr (s, b, if x \<noteq> 0 \<or> 1 < bg_wds B then -1 else 0)))))))"

definition bigcomp_number :: "alloc \<Rightarrow> dtoa_state \<Rightarrow> double \<Rightarrow> BCinfo \<Rightarrow> (dtoa_state \<times> nat \<times> int \<times> int \<times> double \<times> bool) res" where
  \<comment> \<open>at the label \<open>have_i\<close>: \<open>b\<close>, \<open>p2\<close>, \<open>i\<close>, \<open>*rv\<close> and \<open>speccase\<close>\<close>
  "bigcomp_number A s rv bc =
     (if dbl_is_zero rv then
        andthen (i2b A s 1) (\<lambda>(s, b).
        Inr (s, b, Emin - int P_bits + 1 - 1, 0, mk_double (of_nat ((P_bits + 2) * 2 ^ Exp_shift)) (word1 rv), True))
      else
        andthen (d2b A s rv) (\<lambda>(s, b, p2, bbits, rv).
        let p2 = p2 - bc_scale bc; i = int P_bits - bbits; j = int P_bits - Emin - 1 + p2;
            i = (if j < i then j else i) + 1
        in andthen (lshift A s b i) (\<lambda>(s, b).
           andthen (deref s b) (\<lambda>B.
           andthen (peek_word B 0) (\<lambda>x.
           andthen (poke_words B 0 [x OR 1]) (\<lambda>B.
           Inr (update s b B, b, p2, i, rv, False)))))))"

definition odd_bit :: "double \<Rightarrow> int \<Rightarrow> bool res" where
  \<comment> \<open>the last bit of the fraction of the scaled number with exponent \<open>j\<close>\<close>
  "odd_bit rv j =
     (if j \<le> 0 then
        let i = 1 - j in
        if i \<le> 31 then andthen (shl32 1 i) (\<lambda>m. Inr (word1 rv AND m \<noteq> 0))
        else andthen (shl32 1 (i - 32)) (\<lambda>m. Inr (word0 rv AND m \<noteq> 0))
      else Inr (word1 rv AND 1 \<noteq> 0))"

definition bigcomp_round :: "fpu \<Rightarrow> double \<Rightarrow> BCinfo \<Rightarrow> bool \<Rightarrow> int \<Rightarrow> int \<Rightarrow> double res" where
  "bigcomp_round U rv bc speccase dsign dd =
     (let lower = fp_sub U rv (sulp (fp_mul U) rv bc); higher = fp_add U rv (sulp (fp_mul U) rv bc) in
      if speccase then Inr (if dd \<le> 0 then dbl_zero else rv)
      else if dd < 0 then Inr (if dsign = 0 then lower else rv)
      else if 0 < dd then Inr (if dsign \<noteq> 0 then higher else rv)
      else
        andthen (odd_bit rv (int (unat (drop_bit Exp_shift (exp_bits rv))) - bc_scale bc)) (\<lambda>odd.
        Inr (if odd then (if dsign \<noteq> 0 then higher else lower) else rv)))"

definition bigcomp :: "alloc \<Rightarrow> fpu \<Rightarrow> dtoa_state \<Rightarrow> double \<Rightarrow> string \<Rightarrow> nat \<Rightarrow> BCinfo \<Rightarrow> (dtoa_state \<times> double) res" where
  "bigcomp A U s rv t s0 bc =
     andthen (c_int (bc_nd bc + bc_e0 bc)) (\<lambda>x.
     andthen (c_int (x - 1)) (\<lambda>p5.
     andthen (bigcomp_number A s rv bc) (\<lambda>(s, b, p2, i, rv, speccase).
     let dsign = (if speccase then 0 else bc_dsign bc) in
     andthen (c_int (p2 - (p5 + i))) (\<lambda>p2.
     andthen (i2b A s 1) (\<lambda>(s, d).
     andthen (if 0 < p5 then andthen (pow5mult A s d p5) (\<lambda>(s, d). Inr (s, b, d))
              else if p5 < 0 then andthen (pow5mult A s b (- p5)) (\<lambda>(s, b). Inr (s, b, d))
              else Inr (s, b, d)) (\<lambda>(s, b, d).
     andthen (if 0 < p2 then Inr (p2, 0) else andthen (c_int (- p2)) (\<lambda>x. Inr (0, x))) (\<lambda>(b2, d2).
     andthen (dshift s d d2) (\<lambda>i.
     andthen (shift_if A s b (b2 + i)) (\<lambda>(s, b).
     andthen (shift_if A s d (d2 + i)) (\<lambda>(s, d).
     andthen (bigcomp_compare A s b d t s0 bc) (\<lambda>(s, b, dd).
     andthen (Bfree s (Some b)) (\<lambda>s.
     andthen (Bfree s (Some d)) (\<lambda>s.
     andthen (bigcomp_round U rv bc speccase dsign dd) (\<lambda>rv.
     Inr (s, rv)))))))))))))))"

section \<open>The conversion\<close>

definition NAN_WORD0 :: limb where "NAN_WORD0 = 0x7ff80000"
definition NAN_WORD1 :: limb where "NAN_WORD1 = 0"

definition strtod_special :: "hexdig_table \<Rightarrow> string \<Rightarrow> nat \<Rightarrow> (hexdig_table \<times> double \<times> nat) option" where
  \<comment> \<open>infinity and NaN; \<open>None\<close>: no number\<close>
  "strtod_special h t s =
     (let c = ch_at t s in
      if c = CHR ''i'' \<or> c = CHR ''I'' then
        (case match (drop s t) ''nf'' of
           None \<Rightarrow> None
         | Some n \<Rightarrow>
             let s = s + n - 1 in
             Some (h, mk_double 0x7ff00000 0,
               case match (drop s t) ''inity'' of None \<Rightarrow> s + 1 | Some n \<Rightarrow> s + n))
      else if c = CHR ''n'' \<or> c = CHR ''N'' then
        (case match (drop s t) ''an'' of
           None \<Rightarrow> None
         | Some n \<Rightarrow>
             let s = s + n; rv = mk_double NAN_WORD0 NAN_WORD1 in
             if ch_at t s = CHR ''('' then (case hexnan h rv (drop s t) of (h, rv, n) \<Rightarrow> Some (h, rv, s + n))
             else Some (h, rv, s))
      else None)"

definition strtod_finish :: "alloc \<Rightarrow> fpu \<Rightarrow> dtoa_state \<Rightarrow> string \<Rightarrow> number_scan \<Rightarrow> bool \<Rightarrow> verdict \<Rightarrow> (dtoa_state \<times> double) res" where
  \<comment> \<open>behind the loop\<close>
  "strtod_finish A U s t r req v =
     (case v of (rv, bc, out) \<Rightarrow>
        if out = Ovfl then Inr (s, dbl_inf)
        else if out = Undfl then Inr (s, dbl_zero)
        else
          andthen (if req then
                     andthen (c_int (bc_e0 bc + int (sc_nz1 r))) (\<lambda>e0.
                     bigcomp A U s rv t (sc_s0 r) (bc\<lparr>bc_e0 := e0\<rparr>))
                   else Inr (s, rv)) (\<lambda>(s, rv).
          if req \<and> exp_bits rv = Exp_mask then Inr (s, dbl_inf)
          else if req \<and> exp_bits rv = 0 \<and> dbl_is_zero rv then Inr (s, dbl_zero)
          else Inr (s, if bc_scale bc \<noteq> 0 then fp_mul U rv (mk_double (Exp_1 - exp_word_of (2 * int P_bits)) 0) else rv)))"

definition strtod_slow :: "nat \<Rightarrow> alloc \<Rightarrow> fpu \<Rightarrow> dtoa_state \<Rightarrow> string \<Rightarrow> number_scan \<Rightarrow> int \<Rightarrow> double \<Rightarrow> (dtoa_state \<times> double) res" where
  \<comment> \<open>from the starting approximation on; \<open>e\<close> is the exponent of the digits, \<open>rv\<close> the first digits\<close>
  "strtod_slow f A U s t r e rv =
     (let nd = int (sc_nd r); k = (if nd < int DBL_DIG + 1 then nd else int DBL_DIG + 1) in
      andthen (c_int (e + (nd - k))) (\<lambda>e1.
      andthen (strtod_start U e1 rv) (\<lambda>start.
      case start of
        Start_ovfl \<Rightarrow> Inr (s, dbl_inf)
      | Start_undfl \<Rightarrow> Inr (s, dbl_zero)
      | Start_at rv scale \<Rightarrow>
          let nd0 = (if sc_nd0 r = 0 then nd else int (sc_nd0 r));
              bc = (sc_bc r)\<lparr>bc_e0 := e, bc_scale := scale, bc_nd := nd - int (sc_nz1 r), bc_nd0 := nd0\<rparr>
          in andthen (strtod_cut t (sc_s0 r) bc e nd nd0 (sc_y r)) (\<lambda>(e, nd, nd0, y).
             andthen (s2b A s (drop (sc_s0 r) t) nd0 nd y (bc_dplen bc)) (\<lambda>(s, bd0).
             andthen (corr_loop f A U s bd0 e nd rv bc) (\<lambda>(s, req, v).
             strtod_finish A U s t r req v))))))"

definition dtoa_strtod :: "nat \<Rightarrow> alloc \<Rightarrow> fpu \<Rightarrow> hexdig_table \<Rightarrow> dtoa_state \<Rightarrow> string \<Rightarrow>
    (hexdig_table \<times> dtoa_state \<times> double \<times> nat) res" where
  \<comment> \<open>\<open>fpconv_strtod\<close>: the value and the offset of \<open>*se\<close>\<close>
  "dtoa_strtod f A U h st t =
     (let signed = (\<lambda>sign d. if sign then dbl_neg d else d) in
      andthen (strtod_scan t) (\<lambda>r.
      case r of
        Scan_none \<Rightarrow> Inr (h, st, dbl_zero, 0)
      | Scan_hex sign s \<Rightarrow>
          andthen (gethex A h st (drop s t) Round_near sign) (\<lambda>(h, st, d, n). Inr (h, st, signed sign d, s + n))
      | Scan_zero sign s \<Rightarrow> Inr (h, st, signed sign dbl_zero, s)
      | Scan_special sign s \<Rightarrow>
          (case strtod_special h t s of
             None \<Rightarrow> Inr (h, st, dbl_zero, 0)
           | Some (h, d, s) \<Rightarrow> Inr (h, st, signed sign d, s))
      | Scan_number sign e s r \<Rightarrow>
          andthen (first_value U r) (\<lambda>rv.
          andthen (strtod_short U r e rv) (\<lambda>d.
          case d of
            Some d \<Rightarrow> Inr (h, st, signed sign d, s)
          | None \<Rightarrow> andthen (strtod_slow f A U st t r e rv) (\<lambda>(st, d). Inr (h, st, signed sign d, s))))))"

section \<open>Short numbers\<close>

definition decimal_value :: "string \<Rightarrow> string \<Rightarrow> string \<Rightarrow> int \<Rightarrow> rat" where
  \<comment> \<open>the number written as sign, digits, fraction and exponent\<close>
  "decimal_value sg ds fs x =
     (if sg = ''-'' then -1 else 1) * (of_nat (digits_value 10 (ds @ fs)) * 10 powi (x - int (length fs)))"

lemma sig_text_value:
  "digits_value 10 (ds @ fs) = digits_value 10 (sig_text ds fs) * 10 ^ (length fs - length (strip_back fs))"
proof -
  let ?n = "length fs - length (strip_back fs)"
  have "ds @ fs = (ds @ strip_back fs) @ replicate ?n ZERO" using strip_back_split[of fs] by simp
  then have "digits_value 10 (ds @ fs) = digits_value 10 (ds @ strip_back fs) * 10 ^ ?n + digits_value 10 (replicate ?n ZERO)"
    by (metis digits_value_app length_replicate)
  moreover have "digits_value 10 (replicate n ZERO) = 0" for n
    by (induction n) (simp_all add: digits_value_def digit_value_def)
  ultimately show ?thesis unfolding sig_text_def strip_front_value by simp
qed

lemma decimal_value_sig:
  "decimal_value sg ds fs x =
   (if sg = ''-'' then -1 else 1) * (of_nat (digits_value 10 (sig_text ds fs)) * 10 powi (x - int (length (strip_back fs))))"
proof -
  let ?n = "length fs - length (strip_back fs)"
  have "length (strip_back fs) \<le> length fs" using arg_cong[OF strip_back_split[of fs], of length] by simp
  then have "x - int (length (strip_back fs)) = int ?n + (x - int (length fs))" by simp
  moreover have "(10 :: rat) powi (int ?n + (x - int (length fs))) = 10 ^ ?n * 10 powi (x - int (length fs))"
    by (subst power_int_add) (simp_all add: power_int_of_nat)
  ultimately have "(10 :: rat) powi (x - int (length (strip_back fs))) = 10 ^ ?n * 10 powi (x - int (length fs))" by (simp only:)
  then show ?thesis unfolding decimal_value_def sig_text_value[of ds fs] by simp
qed

lemma sig_text_list:
  assumes "list_all (is_digit_in 10) ds" "list_all (is_digit_in 10) fs"
  shows "list_all (is_digit_in 10) (sig_text ds fs)"
proof -
  have "set (sig_text ds fs) \<subseteq> set (ds @ fs)"
    unfolding sig_text_def strip_front_def strip_back_def
    by (auto dest!: set_dropWhileD)
  then show ?thesis using assms by (auto simp: list_all_iff)
qed

text \<open>
  C5: a decimal number with at most fifteen significant digits and an exponent between -22 and
  22 (37 less the number of digits, if that is more) is read as a double nearest to its value,
  whatever follows it: the end of the text is found, no memory is touched, and leading zeros,
  trailing zeros of the fraction and the sign do not count.
\<close>

theorem short_decimal_nearest:
  assumes "fpu_ieee U" and "sign_text sg" "list_all (is_digit_in 10) ds" "list_all (is_digit_in 10) fs"
    and "exp_text ex x" "num_end fs ex rest"
    and "sig_text ds fs \<noteq> []" "length (sig_text ds fs) \<le> 15" "length fs \<le> 2000000000"
    and "-22 \<le> x - int (length (strip_back fs))"
    and "x - int (length (strip_back fs)) \<le> 22 + (15 - int (length (sig_text ds fs)))"
  shows "\<exists>d. dtoa_strtod f A U h st (sg @ ds @ frac_text fs @ ex @ rest)
      = Inr (h, st, d, length (sg @ ds @ frac_text fs @ ex)) \<and> rounded (decimal_value sg ds fs x) d"
proof -
  let ?D = "sig_text ds fs" and ?e = "x - int (length (strip_back fs))"
  obtain r where r: "strtod_scan (sg @ ds @ frac_text fs @ ex @ rest)
      = Inr (Scan_number (sg = ''-'') ?e (length (sg @ ds @ frac_text fs @ ex)) r)" "scanned ?D r"
    using strtod_scan_number[OF assms(2-7,9)] by blast
  have D: "list_all (is_digit_in 10) ?D" by (rule sig_text_list[OF assms(3,4)])
  obtain rv where rv: "first_value U r = Inr rv" "dbl_finite rv" "dbl_val rv = of_nat (digits_value 10 ?D)"
    using first_value_exact[OF assms(1) r(2) D assms(8)] by blast
  have nd: "sc_nd r = length ?D" using r(2) by (simp add: scanned_def)
  obtain d where d: "strtod_short U r ?e rv = Inr (Some d)" "rounded (of_nat (digits_value 10 ?D) * 10 powi ?e) d"
    using short_rounded[OF assms(1) nd assms(8) digits_small[OF D order_refl] rv(2,3) assms(10,11)] by blast
  show ?thesis unfolding dtoa_strtod_def r(1) decimal_value_sig
    using rv(1) d rounded_neg[OF d(2)] by (simp add: Let_def)
qed

theorem short_decimal_nearest_witness:
  "\<exists>d. dtoa_strtod 0 (\<lambda>_. False) nearest_fpu (\<lambda>_. 0) dtoa_init (''-'' @ ''0012'' @ frac_text ''500'' @ ''e-3'' @ '' rest'')
      = Inr (\<lambda>_. 0, dtoa_init, d, length (''-'' @ ''0012'' @ frac_text ''500'' @ ''e-3'')) \<and> rounded (decimal_value ''-'' ''0012'' ''500'' (-3)) d"
proof -
  have b: "length (strip_back ''500'') = 1" "sig_text ''0012'' ''500'' = ''125''"
    by (simp_all add: strip_back_def sig_text_def strip_front_def)
  have e: "exp_text ''e-3'' (-3)"
    unfolding exp_text_def by (intro disjI2 exI[of _ "CHR ''e''"] exI[of _ "''-''"] exI[of _ "''3''"]) (simp add: digits_value_def digit_value_def is_digit_in_def)
  show ?thesis
    using short_decimal_nearest[OF nearest_fpu_ieee, of "''-''" "''0012''" "''500''" "''e-3''" "-3" "'' rest''" 0 "\<lambda>_. False" "\<lambda>_. 0" dtoa_init]
    by (simp add: b e sign_text_def is_digit_in_def digit_value_def num_end_def no_digit_def frac_text_def)
qed

section \<open>Numbers out of range\<close>

lemma and_15: "(x :: int) AND 15 = x mod 16" "x AND NOT 15 = x - x mod 16"
proof -
  have m: "(15 :: int) = mask 4" by (simp add: mask_eq_exp_minus_1)
  show 1: "x AND 15 = x mod 16" unfolding m take_bit_eq_mask[symmetric] take_bit_eq_mod by simp
  have "x AND NOT 15 = push_bit 4 (drop_bit 4 x)" unfolding m by (auto simp: bit_eq_iff bit_simps)
  then show "x AND NOT 15 = x - x mod 16" by (simp add: push_bit_eq_mult drop_bit_eq_div minus_mod_eq_div_mult)
qed

lemma tens_at: "0 \<le> i \<Longrightarrow> i \<le> 22 \<Longrightarrow> \<exists>t. ten_at tens i = Inr t"
  using tens_value[of i] by (auto simp: Ten_pmax_def)

lemma first_value_defined: "\<exists>rv. first_value U r = Inr rv"
proof -
  have "\<exists>t. ten_at tens (int (if sc_nd r < DBL_DIG + 1 then sc_nd r else DBL_DIG + 1) - 9) = Inr t"
    if "9 < (if sc_nd r < DBL_DIG + 1 then sc_nd r else DBL_DIG + 1)"
    using that by (intro tens_at) (auto simp: DBL_DIG_def split: if_splits)
  then show ?thesis by (auto simp: first_value_def Let_def)
qed

lemma start_huge: "320 \<le> e1 \<Longrightarrow> strtod_start U e1 rv = Inr Start_ovfl"
proof -
  assume e: "320 \<le> e1"
  have "\<exists>t. ten_at tens (e1 AND 15) = Inr t" unfolding and_15 by (rule tens_at) simp_all
  moreover have "308 < e1 AND NOT 15" unfolding and_15 using e by presburger
  ultimately show ?thesis using e by (auto simp: strtod_start_def start_large_def DBL_MAX_10_EXP_def Let_def)
qed

lemma start_minute:
  assumes "e1 \<le> -512" "-2147483647 \<le> e1"
  shows "strtod_start U e1 rv = Inr Start_undfl"
proof -
  have "\<exists>t. ten_at tens (- e1 AND 15) = Inr t" unfolding and_15 by (rule tens_at) simp_all
  moreover have "32 \<le> drop_bit 4 (- e1)" using assms(1) by (simp add: drop_bit_eq_div)
  moreover have "c_int (- e1) = Inr (- e1)" using assms by (intro c_int_ok) (simp add: int_ok_iff)
  ultimately show ?thesis using assms by (auto simp: strtod_start_def start_small_def n_bigtens_def Let_def)
qed

definition first_exp :: "string \<Rightarrow> string \<Rightarrow> int \<Rightarrow> int" where
  \<comment> \<open>the exponent of the first sixteen significant digits, read as an integer\<close>
  "first_exp ds fs x =
     x - int (length (strip_back fs)) + (int (length (sig_text ds fs)) - min (int (length (sig_text ds fs))) 16)"

text \<open>
  C20: a decimal number whose first sixteen digits have an exponent of 320 or more is read as an
  infinity, one with an exponent of -512 or less as a zero, with the sign of the text; the end of
  the text is found, no memory is touched, and no intermediate exponent overflows.
\<close>

theorem out_of_range_decimals:
  assumes "sign_text sg" "list_all (is_digit_in 10) ds" "list_all (is_digit_in 10) fs"
    and "exp_text ex x" "num_end fs ex rest" "sig_text ds fs \<noteq> []" "length (ds @ fs) \<le> 2000000000"
    and "320 \<le> first_exp ds fs x \<or> first_exp ds fs x \<le> -512"
  shows "\<exists>d. dtoa_strtod f A U h st (sg @ ds @ frac_text fs @ ex @ rest)
      = Inr (h, st, d, length (sg @ ds @ frac_text fs @ ex)) \<and> dbl_sign d = (sg = ''-'')
    \<and> (if 320 \<le> first_exp ds fs x then isinf d else dbl_is_zero d)"
proof -
  let ?D = "sig_text ds fs" and ?e = "x - int (length (strip_back fs))" and ?t = "sg @ ds @ frac_text fs @ ex @ rest"
  obtain r where r: "strtod_scan ?t = Inr (Scan_number (sg = ''-'') ?e (length (sg @ ds @ frac_text fs @ ex)) r)" "scanned ?D r"
    using strtod_scan_number[OF assms(1-6)] assms(7) by auto
  have nd: "sc_nd r = length ?D" using r(2) by (simp add: scanned_def)
  obtain rv where rv: "first_value U r = Inr rv" using first_value_defined by blast
  have far: "?e < -22 \<or> 22 + (15 - int (length ?D)) < ?e" if "length ?D \<le> 15"
    using assms(8) that by (auto simp: first_exp_def)
  have none: "strtod_short U r ?e rv = Inr None"
    using nd far assms(8) by (auto simp: strtod_short_def DBL_DIG_def Ten_pmax_def Let_def first_exp_def)
  have lD: "length ?D \<le> length (ds @ fs)"
  proof -
    have "length ?D \<le> length (ds @ strip_back fs)" unfolding sig_text_def strip_front_def by (rule length_dropWhile_le)
    moreover have "length (strip_back fs) \<le> length fs" using arg_cong[OF strip_back_split[of fs], of length] by simp
    ultimately show ?thesis by simp
  qed
  have lF: "length (strip_back fs) \<le> length (ds @ fs)" using arg_cong[OF strip_back_split[of fs], of length] by simp
  have rng: "-2147483647 \<le> first_exp ds fs x" "first_exp ds fs x \<le> 2147483647"
    using exp_text_bound[OF assms(4)] lD lF assms(7) by (auto simp: first_exp_def)
  have e1: "c_int (?e + (int (sc_nd r) - (if int (sc_nd r) < int DBL_DIG + 1 then int (sc_nd r) else int DBL_DIG + 1))) = Inr (first_exp ds fs x)"
  proof -
    have "?e + (int (sc_nd r) - (if int (sc_nd r) < int DBL_DIG + 1 then int (sc_nd r) else int DBL_DIG + 1)) = first_exp ds fs x"
      by (auto simp: first_exp_def DBL_DIG_def nd min_def)
    then show ?thesis using rng by (simp add: c_int_def int_ok_iff)
  qed
  have inf: "isinf dbl_inf" "\<not> dbl_sign dbl_inf" "dbl_is_zero dbl_zero" "\<not> dbl_sign dbl_zero"
    by (simp_all add: isinf_def dbl_inf_def dbl_zero_def dbl_is_zero_def mk_double_fields Exp_mask_def)
  have neg: "isinf (dbl_neg d) = isinf d" "dbl_is_zero (dbl_neg d) = dbl_is_zero d" for d by (simp_all add: isinf_def dbl_is_zero_def)
  show ?thesis
  proof (cases "320 \<le> first_exp ds fs x")
    case True
    have "strtod_slow f A U st ?t r ?e rv = Inr (st, dbl_inf)"
      unfolding strtod_slow_def Let_def e1 andthen_simps start_huge[OF True] by simp
    then show ?thesis unfolding dtoa_strtod_def r(1) using True rv none inf neg by (simp add: Let_def)
  next
    case False
    have "strtod_slow f A U st ?t r ?e rv = Inr (st, dbl_zero)"
      unfolding strtod_slow_def Let_def e1 andthen_simps using start_minute[of "first_exp ds fs x"] assms(8) False rng by simp
    then show ?thesis unfolding dtoa_strtod_def r(1) using False rv none inf neg by (simp add: Let_def)
  qed
qed

theorem out_of_range_decimals_witness:
  "\<exists>d. dtoa_strtod 0 (\<lambda>_. False) nearest_fpu (\<lambda>_. 0) dtoa_init (''-'' @ ''12'' @ frac_text ''5'' @ ''e999'' @ '''')
      = Inr (\<lambda>_. 0, dtoa_init, d, length (''-'' @ ''12'' @ frac_text ''5'' @ ''e999'')) \<and> dbl_sign d = (''-'' = ''-'')
    \<and> (if 320 \<le> first_exp ''12'' ''5'' 999 then isinf d else dbl_is_zero d)"
proof -
  have e: "exp_text ''e999'' 999"
    unfolding exp_text_def by (intro disjI2 exI[of _ "CHR ''e''"] exI[of _ "[]"] exI[of _ "''999''"]) (simp add: digits_value_def digit_value_def is_digit_in_def)
  show ?thesis
    by (rule out_of_range_decimals[OF _ _ _ e])
       (simp_all add: sign_text_def is_digit_in_def digit_value_def num_end_def no_digit_def sig_text_def strip_front_def strip_back_def first_exp_def)
qed

end
