(* ===== verification/Spec2Isabelle.thy ===== *)
theory Spec2Isabelle
  imports Uuid Syslog Aes Json_Module Gfmt_Dtoa Json_Decode_Safe Bigint_Props Dtoa_Hex Dtoa_Settle Dtoa_Strtod
begin

text \<open>
  A verification development for the C code of the game server: the native Lua modules and the
  logging service under \<open>src/server\<close>, and the \<open>lua-cjson\<close> library under \<open>src/3rd/lua-cjson\<close>
  with which the server stores its accounts and characters.

  \<^bold>\<open>The program and its parts.\<close> The server is a set of skynet services written in Lua. Four pieces
  of C sit under them. \<open>lua-uuid.c\<close> hands out the ids with which \<open>uuid.lua\<close> builds the unique ids
  of characters. \<open>lua-srp.c\<close> does the arithmetic of the login handshake (SRP-6a), and its session
  key is the key of \<open>lua-aes.c\<close>. \<open>service_syslog.c\<close> receives what \<open>syslog.lua\<close> writes. \<open>lua_cjson.c\<close>
  turns Lua values into JSON texts and back; it writes into the buffer of \<open>strbuf.c\<close> and converts
  numbers with \<open>fpconv.c\<close>, which calls either the C library or, when built with
  \<open>USE_INTERNAL_FPCONV\<close>, \<open>g_fmt.c\<close> and \<open>dtoa.c\<close>.

  \<^bold>\<open>How the code is rendered.\<close> A C function is a HOL function of the same name that takes the state
  it can change and returns the new state with its result, or an error (\<open>Prelude.res\<close>). The errors
  are the ways the C code can fail: \<open>Die\<close> (the program reports and exits, or fails an assertion),
  \<open>UB\<close> (undefined behaviour, with its kind: a read or write out of bounds, an unset word, a freed
  block, signed overflow, a bad shift, a double out of the range of an int), and \<open>Diverge\<close>. So a
  theorem that an operation returns also says that it has no undefined behaviour. An \<open>int\<close> is an
  integer checked by \<open>c_int\<close>, an unsigned number a word, a \<open>double\<close> the 64-bit word of its binary64
  representation, a C string the list of its characters up to the terminator. \<open>wpr E Q m\<close> is the
  weakest precondition: \<open>m\<close> returns a result with \<open>Q\<close> or fails with an error in \<open>E\<close>.

  \<^bold>\<open>Theories.\<close>
  \<^item> \<open>Prelude\<close>, \<open>Clib\<close>, \<open>Lua\<close>: outcomes and their sequencing, machine integers, memory blocks; what
    is used of the C library (\<open>strtoll\<close>, \<open>%lld\<close>, the fields of a double) and of the Lua API.
  \<^item> \<open>Uuid\<close>: \<open>lua-uuid.c\<close> as a step relation on the process-wide counter, and \<open>uuid.lua\<close>; ids of one
    opening are consecutive, the ids a VM generates differ, from round to round of calls, and split
    into their fields, and reopening the module repeats ids.
  \<^item> \<open>Syslog\<close>: \<open>service_syslog.c\<close> and its client \<open>syslog.lua\<close>; a message arrives at its level.
  \<^item> \<open>Srp\<close>: \<open>lua-srp.c\<close> over an explicit store of big numbers; both sides of the handshake compute
    the same key and free every number, and the loop that draws a private key ends.
  \<^item> \<open>Aes\<close>: \<open>lua-aes.c\<close> with its buffers; \<open>ldecrypt\<close> undoes \<open>lencrypt\<close> when what the library stores
    while decrypting fits the block, which is shorter than its manual asks for, and writes past it
    otherwise; a client with a zero public key makes the server decrypt with an empty key.
  \<^item> \<open>Strbuf\<close>: \<open>strbuf.c\<close> and \<open>strbuf.h\<close> over an explicit memory block; the ghost field
    \<open>sb_blocks\<close> counts the heap blocks a buffer has been given and not freed. The locale \<open>appender\<close> is the
    contract of an operation that appends; it is interpreted for every append of the file and for
    sequences of them, which gives the refinement of a buffer by the string it holds.
  \<^item> \<open>Fpconv\<close>, \<open>Gfmt\<close>: \<open>fpconv.c\<close> (locales, \<open>strtod\<close> and \<open>printf\<close> wrappers) and the formatting of
    \<open>g_fmt.c\<close>; numbers are written as JSON numerals in every locale.
  \<^item> \<open>Json_Config\<close>, \<open>Json_Encode\<close>, \<open>Json_Decode\<close>, \<open>Json_Module\<close>: the parts of \<open>lua_cjson.c\<close>:
    settings, encoder, decoder, and the module tables as a step relation. The locale \<open>setting_op\<close>
    is the contract of the calls that change a setting. \<open>Json_Doc\<close> states what the encoder is to
    produce (\<open>doc_of\<close>, \<open>print_doc\<close>) and proves that it does, that a table which contains itself is
    reported, and when exactly the test for arrays is undefined; \<open>Json_Decode_Safe\<close> proves that the
    decoder stays inside its text and its buffer and ends (locale \<open>value_step\<close>: one level of nesting).
  \<^item> \<open>Limbs\<close>, \<open>Bigint\<close>, \<open>Bigint_Ops\<close>, \<open>Bigint_Pow\<close>, \<open>Bigint_Div\<close>, \<open>Bigint_Double\<close>: the bignums of
    \<open>dtoa.c\<close>: word loops, blocks with free lists and the private memory, arithmetic, the cached powers
    of five, division and bit operations, and the passage from and to doubles. \<open>Bigint_Props\<close> has the
    contracts as properties, \<open>Bigint_Hold\<close> the rules for sequences of operations.
  \<^item> \<open>Dtoa_Hex\<close>: \<open>match\<close>, \<open>hexnan\<close> and \<open>gethex\<close>; the value of hexadecimal integers, with and without
    an exponent, and how numbers beyond the largest double are misread.
  \<^item> \<open>Dtoa_Scan\<close>, \<open>Dtoa_Short\<close>, \<open>Dtoa_Start\<close>, \<open>Dtoa_Correct\<close>, \<open>Dtoa_Strtod\<close>: \<open>fpconv_strtod\<close> in the
    order of its parts: the scanner, the case of few digits, the first approximation, the correction
    loop, \<open>bigcomp\<close> and the function itself. \<open>Dtoa_Round\<close>, \<open>Dtoa_Compare\<close> and \<open>Dtoa_Settle\<close> prove that
    a round of the correction loop turns an approximation within half a unit into the correctly
    rounded double.
  \<^item> \<open>Dtoa_Print\<close>: \<open>dtoa\<close> with all its modes, \<open>rv_alloc\<close>, \<open>nrv_alloc\<close> and \<open>freedtoa\<close>. What it
    returns in mode 2, the one \<open>g_fmt.c\<close> uses, is proved way by way: \<open>Dtoa_Text\<close> (strings of
    digits), \<open>Dtoa_Digits\<close> (quotients of bignums), \<open>Dtoa_Value\<close> (digits against values),
    \<open>Dtoa_Error\<close>, \<open>Dtoa_Log\<close> and \<open>Dtoa_Estimate\<close> (the estimate of the decimal exponent from a line
    below the logarithm, which is at most one too large), \<open>Dtoa_Small\<close> (small integers),
    \<open>Dtoa_Scale\<close> and \<open>Dtoa_Quick\<close> (floating point with its error bound). \<open>Dtoa_Whole\<close> puts them together: the
    digits are correctly rounded whichever way is taken, the floating-point way agrees with the
    bignums, and one block is kept for the string. \<open>Gfmt_Dtoa\<close> is the whole of \<open>g_fmt.c\<close>: with
    these digits it agrees with \<open>printf\<close>, up to trailing zeros of integers longer than the precision.

  \<^bold>\<open>Bounds and fuel.\<close> The decoder recurses on a fuel of \<open>decode_fuel\<close> steps, the length of the text
  and one: \<open>decode_safe\<close> shows that it is enough, since \<open>Diverge\<close> is not among its errors. The
  encoder needs none, since its depth grows to a limit. The doubling of a buffer's size has 34
  rounds, after which an \<open>int\<close> has overflowed (\<open>grow_diverges_iff\<close>). The loops of \<open>lua-srp.c\<close> that draw
  keys have the number of draws as a parameter, and \<open>first_good_draw_ends_loop\<close> says which number is
  enough. The correction loop of \<open>fpconv_strtod\<close> has a number of rounds as an argument; by
  \<open>correction_settles\<close> one is enough within half a unit. The loops of \<open>dtoa\<close> that append digits end
  because every store is checked against the block of the string, and \<open>dtoa_rounds_correctly\<close> shows
  that no store fails. All other loops are total functions.
  Texts are shorter than \<open>2 ^ 31 - 1\<close> characters where a theorem says so: the code keeps lengths in
  an \<open>int\<close>.

  \<^bold>\<open>Configuration.\<close> \<open>dtoa_config.h\<close> selects little-endian IEEE doubles, 32-bit \<open>Long\<close>s and no
  \<open>errno\<close> (\<open>IEEE_8087\<close>, \<open>NO_ERRNO\<close>), and with that \<open>dtoa.c\<close> selects \<open>Avoid_Underflow\<close>, hexadecimal
  input and the reading of NaNs;
  \<open>Honor_FLT_ROUNDS\<close>, \<open>SET_INEXACT\<close>, \<open>ROUND_BIASED\<close>, \<open>USE_LOCALE\<close>, \<open>VAX\<close>, \<open>IBM\<close> and the other
  alternatives are not compiled and not modelled. The locks of \<open>MULTIPLE_THREADS\<close> are left out: the
  file's state is that of one thread.

  \<^bold>\<open>Parameters.\<close> Code that is not in the repository is an argument: the allocator (which requests it
  serves), OpenSSL's big numbers, SRP and EVP functions (records of functions whose documented
  behaviour is a named hypothesis: \<open>srp_documented\<close> for a 1024-bit group and 160-bit hashes, with
  \<open>SRP_Calc_u\<close> only relied on for public keys below the modulus; \<open>evp_documented\<close> with the room in the
  output buffer that the manual lets a decrypting call use), the random bytes, the Lua state's registry, and the machine's
  arithmetic on doubles (\<open>fpu\<close>, with \<open>fpu_ieee\<close>: every operation rounds to a nearest double). Each
  theorem with such a hypothesis has a witness with a concrete instance, or with concrete functions
  that satisfy it.

  \<^bold>\<open>Not proved.\<close> The modes of \<open>dtoa\<close> other than 2 (shortest digits, digits after the point) are
  modelled, but only mode 2 is called in the repository and only for it is the result proved. For
  \<open>fpconv_strtod\<close> the result is proved for at most fifteen digits, far outside the range, and for a
  round of the correction loop; that every first approximation is near enough is not.

  \<^bold>\<open>Simplified.\<close> \<open>fpconv_init\<close> is left out of the creation of a module: the decimal point it stores
  is read from the environment; the errors of a call do not include an exhausted Lua
  allocator, so \<open>json_protect_conversion\<close> has no branch for \<open>LUA_ERRMEM\<close>; the client of the log
  writes its text without formatting arguments.

  \<^bold>\<open>Not modelled.\<close> The functions \<open>luaopen_*\<close> only register functions (those of \<open>lua_cjson.c\<close> and
  \<open>lua-uuid.c\<close>, which also set state, are modelled). The OpenSSL headers and libraries are third-party
  code. The services in Lua, the client, the protocol descriptions, the redis configuration and the
  scripts are not C; \<open>uuid.lua\<close> and \<open>syslog.lua\<close> are modelled as the clients of C code.
\<close>

end
